(* ===== verification/Prelude.thy ===== *)
theory Prelude
  imports Main "HOL-Library.AList" "HOL-Library.Sublist"
begin

text \<open>
  Shared vocabulary of the development: results as sums, JavaScript array and
  string operations (\<open>slice\<close>, \<open>splice\<close>, \<open>indexOf\<close>) on lists, decimal
  rendering of naturals, the binary search the sources repeat, and the lemma
  collections the component theories hang their facts on.

  A JavaScript string is a sequence of UTF-16 code units. It is modelled by
  \<open>string\<close>; every operation used by the modelled code (length, slice, indexOf,
  concatenation, comparison) works per code unit, so the model reads one \<open>char\<close>
  as one code unit.
\<close>

named_theorems js_simps "rewrite rules for the JavaScript list and string operations"
named_theorems res_simps "rewrite rules and case splits for result values"

section \<open>Results\<close>

text \<open>A fallible operation returns \<open>Inl\<close> of the thrown error or \<open>Inr\<close> of the value.\<close>

type_synonym ('e, 'a) result = "'e + 'a"

fun bind_res :: "('e, 'a) result \<Rightarrow> ('a \<Rightarrow> ('e, 'b) result) \<Rightarrow> ('e, 'b) result" where
  "bind_res (Inl e) f = Inl e"
| "bind_res (Inr x) f = f x"

fun to_option :: "('e, 'a) result \<Rightarrow> 'a option" where
  "to_option (Inl _) = None"
| "to_option (Inr x) = Some x"

lemma bind_res_Inr_iff [res_simps]:
  "bind_res m f = Inr y \<longleftrightarrow> (\<exists>x. m = Inr x \<and> f x = Inr y)"
  by (cases m) auto

lemma bind_res_Inl_iff [res_simps]:
  "bind_res m f = Inl e \<longleftrightarrow> m = Inl e \<or> (\<exists>x. m = Inr x \<and> f x = Inl e)"
  by (cases m) auto

lemma bind_res_split:
  "P (bind_res m f) \<longleftrightarrow> (\<forall>e. m = Inl e \<longrightarrow> P (Inl e)) \<and> (\<forall>x. m = Inr x \<longrightarrow> P (f x))"
  by (cases m) auto

lemma bind_res_assoc: "bind_res (bind_res m f) g = bind_res m (\<lambda>x. bind_res (f x) g)"
  by (cases m) auto

lemma bind_res_cong [fundef_cong]:
  "m = m' \<Longrightarrow> (\<And>x. m' = Inr x \<Longrightarrow> f x = f' x) \<Longrightarrow> bind_res m f = bind_res m' f'"
  by (cases m') auto

lemma to_option_eq_Some [res_simps]: "to_option m = Some x \<longleftrightarrow> m = Inr x"
  by (cases m) auto

lemma to_option_eq_None [res_simps]: "to_option m = None \<longleftrightarrow> (\<exists>e. m = Inl e)"
  by (cases m) auto

lemma case_option_Inr [res_simps]:
  "(case m of None \<Rightarrow> Inl e | Some x \<Rightarrow> f x) = Inr y \<longleftrightarrow> (\<exists>x. m = Some x \<and> f x = Inr y)"
  by (cases m) auto

text \<open>A loop whose body may throw: the first error ends it.\<close>

fun fold_res :: "('a \<Rightarrow> 's \<Rightarrow> ('e, 's) result) \<Rightarrow> 'a list \<Rightarrow> 's \<Rightarrow> ('e, 's) result" where
  "fold_res f [] s = Inr s"
| "fold_res f (x # xs) s = bind_res (f x s) (fold_res f xs)"

lemma fold_res_append: "fold_res f (xs @ ys) s = bind_res (fold_res f xs s) (fold_res f ys)"
proof (induction xs arbitrary: s)
  case (Cons x xs)
  then have "fold_res f (xs @ ys) = (\<lambda>s. bind_res (fold_res f xs s) (fold_res f ys))" by auto
  then show ?case by (simp add: bind_res_assoc)
qed simp

lemma fold_res_cong [fundef_cong]:
  "xs = ys \<Longrightarrow> s = t \<Longrightarrow> (\<And>x s. x \<in> set ys \<Longrightarrow> f x s = g x s) \<Longrightarrow>
    fold_res f xs s = fold_res g ys t"
proof (induction xs arbitrary: s t ys)
  case (Cons x xs)
  then show ?case by (auto intro!: bind_res_cong)
qed auto

lemma fold_res_invariant:
  assumes "fold_res f xs s = Inr t" and "P s"
    and "\<And>x s s'. x \<in> set xs \<Longrightarrow> P s \<Longrightarrow> f x s = Inr s' \<Longrightarrow> P s'"
  shows "P t"
  using assms
proof (induction xs arbitrary: s)
  case (Cons x xs)
  then obtain s' where "f x s = Inr s'" "fold_res f xs s' = Inr t"
    by (auto simp: res_simps)
  with Cons show ?case by (metis list.set_intros)
qed auto

section \<open>Array operations\<close>

text \<open>\<open>xs.slice(start, end)\<close> with both bounds already non-negative.\<close>

definition slice :: "'a list \<Rightarrow> nat \<Rightarrow> nat \<Rightarrow> 'a list" where
  "slice xs i j = take (j - i) (drop i xs)"

text \<open>
  \<open>xs.splice(start, remove, ...items)\<close> with non-negative arguments: \<open>start\<close> past the
  end is clamped to the length, \<open>remove\<close> to what is left.
\<close>

definition splice_list :: "nat \<Rightarrow> nat \<Rightarrow> 'a list \<Rightarrow> 'a list \<Rightarrow> 'a list" where
  "splice_list start remove items xs = take start xs @ items @ drop (start + remove) xs"

lemma slice_0 [js_simps, simp]: "slice xs 0 j = take j xs"
  by (simp add: slice_def)

lemma slice_full [js_simps, simp]: "length xs \<le> j \<Longrightarrow> slice xs i j = drop i xs"
  by (simp add: slice_def)

lemma slice_empty [js_simps, simp]: "j \<le> i \<Longrightarrow> slice xs i j = []"
  by (simp add: slice_def)

lemma length_slice [js_simps, simp]: "length (slice xs i j) = min j (length xs) - i"
  by (auto simp: slice_def)

lemma nth_slice [simp]: "k < j - i \<Longrightarrow> j \<le> length xs \<Longrightarrow> slice xs i j ! k = xs ! (i + k)"
  by (simp add: slice_def)

lemma slice_append_slice: "i \<le> j \<Longrightarrow> j \<le> k \<Longrightarrow> slice xs i j @ slice xs j k = slice xs i k"
proof -
  assume "i \<le> j" "j \<le> k"
  then have "take (k - i) (drop i xs) =
      take (j - i) (drop i xs) @ take (k - j) (drop (j - i) (drop i xs))"
    by (metis add.commute add_diff_inverse_nat diff_add_inverse2 le_Suc_ex
        nat_le_linear not_less ordered_cancel_comm_monoid_diff_class.diff_diff_right
        diff_diff_left le_add_diff_inverse take_add diff_add_assoc2)
  then show ?thesis using \<open>i \<le> j\<close> by (simp add: slice_def)
qed

lemma slice_Suc: "i < j \<Longrightarrow> j \<le> length xs \<Longrightarrow> slice xs i j = xs ! i # slice xs (Suc i) j"
  by (simp add: slice_def Cons_nth_drop_Suc[symmetric] Suc_diff_Suc[symmetric])

lemma slice_snoc: "i < j \<Longrightarrow> j \<le> length xs \<Longrightarrow> slice xs i j = slice xs i (j - 1) @ [xs ! (j - 1)]"
  using slice_append_slice[of i "j - 1" j xs] slice_Suc[of "j - 1" j xs] by simp

lemma set_slice: "set (slice xs i j) \<subseteq> set xs"
  by (auto simp: slice_def dest: in_set_takeD in_set_dropD)

lemma slice_map: "slice (map f xs) i j = map f (slice xs i j)"
  by (simp add: slice_def take_map drop_map)

lemma splice_list_map: "map f (splice_list i r ys xs) = splice_list i r (map f ys) (map f xs)"
  by (simp add: splice_list_def take_map drop_map)

lemma splice_list_middle [js_simps]:
  "splice_list (length pre) (length mid) items (pre @ mid @ post) = pre @ items @ post"
  by (simp add: splice_list_def)

lemma length_splice_list:
  "length (splice_list i r ys xs) = min i (length xs) + length ys + (length xs - (i + r))"
  by (simp add: splice_list_def)

section \<open>Strings\<close>

text \<open>\<open>text.indexOf(pat, from)\<close>: the first position at or after \<open>from\<close>, \<open>None\<close> for -1.\<close>

function index_from :: "'a list \<Rightarrow> 'a list \<Rightarrow> nat \<Rightarrow> nat option" where
  "index_from t p k =
     (if k + length p > length t then None
      else if take (length p) (drop k t) = p then Some k
      else index_from t p (Suc k))"
  by pat_completeness auto
termination
  by (relation "measure (\<lambda>(t, p, k). Suc (length t) - k)") auto

declare index_from.simps [simp del]

lemma index_from_Some:
  "index_from t p k = Some i \<Longrightarrow>
     k \<le> i \<and> i + length p \<le> length t \<and> take (length p) (drop i t) = p \<and>
     (\<forall>j. k \<le> j \<longrightarrow> j < i \<longrightarrow> take (length p) (drop j t) \<noteq> p)"
proof (induction t p k rule: index_from.induct)
  case (1 t p k)
  show ?case
  proof (cases "k + length p > length t \<or> take (length p) (drop k t) = p")
    case True
    with "1.prems" show ?thesis
      by (subst (asm) index_from.simps) (auto split: if_splits)
  next
    case False
    with "1.prems" have "index_from t p (Suc k) = Some i"
      by (subst (asm) index_from.simps) auto
    with "1.IH" False have *: "Suc k \<le> i \<and> i + length p \<le> length t \<and>
        take (length p) (drop i t) = p \<and>
        (\<forall>j. Suc k \<le> j \<longrightarrow> j < i \<longrightarrow> take (length p) (drop j t) \<noteq> p)"
      by auto
    then show ?thesis using False by (metis Suc_leD le_eq_less_or_eq Suc_leI)
  qed
qed

lemma index_from_None:
  "index_from t p k = None \<Longrightarrow> k \<le> j \<Longrightarrow> j + length p \<le> length t \<Longrightarrow>
     take (length p) (drop j t) \<noteq> p"
proof (induction t p k rule: index_from.induct)
  case (1 t p k)
  show ?case
  proof (cases "k + length p > length t")
    case True
    with "1.prems" show ?thesis by simp
  next
    case False
    with "1.prems"(1) have ne: "take (length p) (drop k t) \<noteq> p"
      and rec: "index_from t p (Suc k) = None"
      by (auto simp: index_from.simps[of t p k] split: if_splits)
    show ?thesis
    proof (cases "j = k")
      case True
      with ne show ?thesis by simp
    next
      case neq: False
      with "1.prems" show ?thesis using "1.IH"[OF False ne rec] by simp
    qed
  qed
qed

text \<open>The decimal digits of a natural number, as \<open>String(n)\<close> writes them.\<close>

definition digit_char :: "nat \<Rightarrow> char" where
  "digit_char d = ''0123456789'' ! (d mod 10)"

fun nat_text :: "nat \<Rightarrow> string" where
  "nat_text n = (if n < 10 then [digit_char n] else nat_text (n div 10) @ [digit_char n])"

declare nat_text.simps [simp del]

definition int_text :: "int \<Rightarrow> string" where
  "int_text i = (if i < 0 then CHR ''-'' # nat_text (nat (- i)) else nat_text (nat i))"

definition char_digit :: "char \<Rightarrow> nat" where
  "char_digit c = of_char c - 48"

definition is_digit :: "char \<Rightarrow> bool" where
  "is_digit c \<longleftrightarrow> of_char c \<ge> (48 :: nat) \<and> of_char c \<le> (57 :: nat)"

definition digits_nat :: "string \<Rightarrow> nat" where
  "digits_nat s = foldl (\<lambda>n c. 10 * n + char_digit c) 0 s"

lemma char_digit_digit_char: "char_digit (digit_char d) = d mod 10"
proof -
  have "\<forall>k < 10. char_digit (''0123456789'' ! k) = k"
    by (simp add: char_digit_def numeral_eq_Suc less_Suc_eq)
  then show ?thesis by (simp add: digit_char_def)
qed

lemma is_digit_digit_char: "is_digit (digit_char d)"
proof -
  have "\<forall>k < 10. is_digit (''0123456789'' ! k)"
    by (simp add: is_digit_def numeral_eq_Suc less_Suc_eq)
  then show ?thesis by (simp add: digit_char_def)
qed

lemma digits_nat_nat_text: "digits_nat (nat_text n) = n"
proof (induction n rule: nat_text.induct)
  case (1 n)
  show ?case
  proof (cases "n < 10")
    case True
    then show ?thesis
      by (subst nat_text.simps) (simp add: digits_nat_def char_digit_digit_char)
  next
    case False
    with 1 have "digits_nat (nat_text (n div 10)) = n div 10" by simp
    with False show ?thesis
      by (subst nat_text.simps) (simp add: digits_nat_def char_digit_digit_char)
  qed
qed

lemma nat_text_inj [simp]: "nat_text m = nat_text n \<longleftrightarrow> m = n"
  by (metis digits_nat_nat_text)

lemma nat_text_nonempty [simp]: "nat_text n \<noteq> []"
  by (subst nat_text.simps) simp

lemma nat_text_digits: "\<forall>c \<in> set (nat_text n). is_digit c"
proof (induction n rule: nat_text.induct)
  case (1 n)
  then show ?case
    by (subst nat_text.simps) (auto simp: is_digit_digit_char)
qed

section \<open>Binary search\<close>

text \<open>
  The sources contain the same bisection loop several times (over match positions, over sorted
  record ids, with \<open><\<close> or \<open>\<le>\<close>). The interface: a loop that halves the interval by the
  test \<open>below\<close>, and a test that is monotone on the searched inputs. The middle is
  \<open>(low + high) >>> 1\<close>, which is \<open>div 2\<close> as long as \<open>low + high < 2 ^ 32\<close>.
\<close>

locale binary_search =
  fixes loop :: "'x \<Rightarrow> nat \<Rightarrow> nat \<Rightarrow> nat"
    and below :: "'x \<Rightarrow> nat \<Rightarrow> bool"
    and len :: "'x \<Rightarrow> nat"
    and searchable :: "'x \<Rightarrow> bool"
  assumes loop_step: "low < high \<Longrightarrow> loop x low high =
      (if below x ((low + high) div 2) then loop x (Suc ((low + high) div 2)) high
       else loop x low ((low + high) div 2))"
    and loop_stop: "\<not> low < high \<Longrightarrow> loop x low high = low"
    and below_mono: "searchable x \<Longrightarrow> i \<le> j \<Longrightarrow> j < len x \<Longrightarrow> below x j \<Longrightarrow> below x i"
begin

lemma loop_range: "low \<le> high \<Longrightarrow> low \<le> loop x low high \<and> loop x low high \<le> high"
proof (induction "high - low" arbitrary: low high rule: less_induct)
  case less
  show ?case
  proof (cases "low < high")
    case True
    define m where "m = (low + high) div 2"
    have m: "low \<le> m" "m < high" using True by (auto simp: m_def)
    then have "high - Suc m < high - low" "m - low < high - low" by auto
    with less.hyps[of high "Suc m"] less.hyps[of m low] m
    have "Suc m \<le> loop x (Suc m) high \<and> loop x (Suc m) high \<le> high"
      and "low \<le> loop x low m \<and> loop x low m \<le> m" by auto
    with m show ?thesis
      unfolding loop_step[OF True, of x, folded m_def] by (cases "below x m") auto
  next
    case False
    with less.prems show ?thesis by (simp add: loop_stop)
  qed
qed

lemma loop_splits:
  assumes "searchable x"
  shows "low \<le> high \<Longrightarrow> high \<le> len x \<Longrightarrow> \<forall>i < low. below x i \<Longrightarrow>
    \<forall>i. high \<le> i \<longrightarrow> i < len x \<longrightarrow> \<not> below x i \<Longrightarrow>
    (\<forall>i < loop x low high. below x i) \<and> (\<forall>i. loop x low high \<le> i \<longrightarrow> i < len x \<longrightarrow> \<not> below x i)"
proof (induction "high - low" arbitrary: low high rule: less_induct)
  case less
  show ?case
  proof (cases "low < high")
    case True
    define m where "m = (low + high) div 2"
    have m: "low \<le> m" "m < high" using True by (auto simp: m_def)
    then have shrink: "high - Suc m < high - low" "m - low < high - low" "m \<le> len x"
      using less.prems by auto
    note step = loop_step[OF True, of x, folded m_def]
    show ?thesis
    proof (cases "below x m")
      case b: True
      then have "\<forall>i < Suc m. below x i"
        using below_mono[OF assms, of _ m] m less.prems by (auto simp: less_Suc_eq_le)
      with less.hyps[OF shrink(1)] m b less.prems show ?thesis unfolding step by simp
    next
      case b: False
      then have "\<forall>i. m \<le> i \<longrightarrow> i < len x \<longrightarrow> \<not> below x i"
        using below_mono[OF assms, of m] by blast
      with less.hyps[OF shrink(2) m(1) shrink(3)] b less.prems show ?thesis unfolding step by simp
    qed
  next
    case False
    with less.prems show ?thesis by (auto simp: loop_stop)
  qed
qed

lemma search_bound: "loop x 0 (len x) \<le> len x"
  using loop_range[of 0 "len x" x] by simp

lemma search_below: "searchable x \<Longrightarrow> i < loop x 0 (len x) \<Longrightarrow> below x i"
  using loop_splits[of x 0 "len x"] by auto

lemma search_above: "searchable x \<Longrightarrow> loop x 0 (len x) \<le> i \<Longrightarrow> i < len x \<Longrightarrow> \<not> below x i"
  using loop_splits[of x 0 "len x"] by auto

lemma search_unique:
  assumes "searchable x" "n \<le> len x" "\<forall>i < n. below x i" "n < len x \<longrightarrow> \<not> below x n"
  shows "loop x 0 (len x) = n"
proof (rule linorder_cases[of "loop x 0 (len x)" n])
  assume "loop x 0 (len x) < n"
  with assms search_above[OF assms(1), of "loop x 0 (len x)"] show ?thesis by auto
next
  assume "n < loop x 0 (len x)"
  with assms search_below[OF assms(1), of n] search_bound[of x] show ?thesis by auto
qed

end

end
