(* ===== verification/Json_Value.thy ===== *)
theory Json_Value
  imports Prelude
begin

text \<open>
  Plain JSON values (\<open>packages/chord/src/json.ts\<close>, \<open>JsonValue\<close>) as the delta code and the
  storage see them. An object keeps its own properties in \<open>Object.keys\<close> order:
  array-index keys ascending, then the others in insertion order. A number is an integer
  or the \<open>String()\<close> text of a non-integral one (two finite numbers are \<open>===\<close> exactly when
  these coincide; \<open>-0\<close> and \<open>0\<close> are one value). The abstraction \<open>absj\<close> forgets the order of
  properties: two values with equal abstractions are the same JSON document.
\<close>

datatype jnum = NInt int | NFrac string

datatype prim = PNull | PBool bool | PNum jnum | PStr string

datatype json = Prim prim | Arr "json list" | Obj "(string \<times> json) list"

lemma case_json_Arr_Inr [res_simps]:
  "(case v of Prim _ \<Rightarrow> Inl e | Arr xs \<Rightarrow> f xs | Obj _ \<Rightarrow> Inl e') = Inr y \<longleftrightarrow>
     (\<exists>xs. v = Arr xs \<and> f xs = Inr y)"
  by (cases v) auto

fun num_text :: "jnum \<Rightarrow> string" where
  "num_text (NInt i) = int_text i"
| "num_text (NFrac s) = s"

section \<open>Own properties\<close>

text \<open>
  \<open>key_index k\<close> is the number an array-index key spells: canonical decimal digits below
  \<open>2 ^ 32 - 1\<close>. Such keys come first in property order, ascending.
\<close>

definition key_index :: "string \<Rightarrow> nat option" where
  "key_index k =
     (if k \<noteq> [] \<and> list_all is_digit k \<and> nat_text (digits_nat k) = k \<and>
         digits_nat k < 2 ^ 32 - 1
      then Some (digits_nat k) else None)"

definition key_before :: "nat \<Rightarrow> (string \<times> 'v) \<Rightarrow> bool" where
  "key_before i = (\<lambda>(k, _). case key_index k of Some j \<Rightarrow> j < i | None \<Rightarrow> False)"

definition insert_key :: "string \<Rightarrow> 'v \<Rightarrow> (string \<times> 'v) list \<Rightarrow> (string \<times> 'v) list" where
  "insert_key k v kvs =
     (case key_index k of
        None \<Rightarrow> kvs @ [(k, v)]
      | Some i \<Rightarrow> takeWhile (key_before i) kvs @ (k, v) # dropWhile (key_before i) kvs)"

text \<open>\<open>Object.defineProperty\<close> of a data property, and \<open>delete\<close>.\<close>

definition obj_put :: "string \<Rightarrow> 'v \<Rightarrow> (string \<times> 'v) list \<Rightarrow> (string \<times> 'v) list" where
  "obj_put k v kvs =
     (if k \<in> fst ` set kvs then map (\<lambda>(k', v'). if k' = k then (k', v) else (k', v')) kvs
      else insert_key k v kvs)"

definition obj_del :: "string \<Rightarrow> (string \<times> 'v) list \<Rightarrow> (string \<times> 'v) list" where
  "obj_del k kvs = filter (\<lambda>(k', _). k' \<noteq> k) kvs"

lemma map_of_takeWhile_dropWhile:
  "k \<notin> fst ` set kvs \<Longrightarrow>
     map_of (takeWhile P kvs @ (k, v) # dropWhile P kvs) = (map_of kvs)(k \<mapsto> v)"
proof -
  assume "k \<notin> fst ` set kvs"
  then have "k \<notin> fst ` set (takeWhile P kvs)" by (auto dest: set_takeWhileD)
  then have *: "map_of (takeWhile P kvs) k = None" by (simp add: map_of_eq_None_iff)
  have "map_of kvs = map_of (dropWhile P kvs) ++ map_of (takeWhile P kvs)"
    by (metis map_of_append takeWhile_dropWhile_id)
  then show ?thesis using *
    by (auto simp: fun_eq_iff map_add_def split: option.splits)
qed

lemma map_of_insert_key: "k \<notin> fst ` set kvs \<Longrightarrow> map_of (insert_key k v kvs) = (map_of kvs)(k \<mapsto> v)"
proof -
  assume k: "k \<notin> fst ` set kvs"
  then have "map_of kvs k = None" by (simp add: map_of_eq_None_iff)
  then have "map_of (kvs @ [(k, v)]) = (map_of kvs)(k \<mapsto> v)"
    by (auto simp: fun_eq_iff map_add_def split: option.splits)
  with k show ?thesis
    by (simp add: insert_key_def map_of_takeWhile_dropWhile del: map_of_append split: option.splits)
qed

lemma keys_insert_key: "fst ` set (insert_key k v kvs) = insert k (fst ` set kvs)"
proof -
  have "set kvs = set (takeWhile P kvs) \<union> set (dropWhile P kvs)" for P
    by (metis set_append takeWhile_dropWhile_id)
  then show ?thesis by (force simp: insert_key_def split: option.splits)
qed

lemma distinct_insert_key:
  "distinct (map fst kvs) \<Longrightarrow> k \<notin> fst ` set kvs \<Longrightarrow> distinct (map fst (insert_key k v kvs))"
proof -
  assume d: "distinct (map fst kvs)" and k: "k \<notin> fst ` set kvs"
  have "distinct (map fst (takeWhile P kvs @ (k, v) # dropWhile P kvs))" for P
  proof -
    have "map fst kvs = map fst (takeWhile P kvs) @ map fst (dropWhile P kvs)"
      by (metis map_append takeWhile_dropWhile_id)
    with d k show ?thesis
      by (auto dest: set_takeWhileD set_dropWhileD)
  qed
  with d k show ?thesis by (auto simp: insert_key_def split: option.splits)
qed

lemma set_insert_key: "set (insert_key k v kvs) = insert (k, v) (set kvs)"
proof -
  have "set kvs = set (takeWhile P kvs) \<union> set (dropWhile P kvs)" for P
    by (metis set_append takeWhile_dropWhile_id)
  then show ?thesis by (auto simp: insert_key_def split: option.splits)
qed

lemma map_of_replace:
  "map_of (map (\<lambda>(k', v'). if k' = k then (k', v) else (k', v')) kvs) =
     (if k \<in> fst ` set kvs then (map_of kvs)(k \<mapsto> v) else map_of kvs)"
  by (induction kvs) (auto simp: fun_eq_iff)

lemma map_of_obj_put [simp]: "map_of (obj_put k v kvs) = (map_of kvs)(k \<mapsto> v)"
  by (simp add: obj_put_def map_of_replace map_of_insert_key)

lemma map_of_obj_del [simp]: "map_of (obj_del k kvs) = (map_of kvs)(k := None)"
  by (induction kvs) (auto simp: obj_del_def fun_eq_iff)

lemma distinct_obj_put: "distinct (map fst kvs) \<Longrightarrow> distinct (map fst (obj_put k v kvs))"
proof -
  have "map fst (map (\<lambda>(k', v'). if k' = k then (k', v) else (k', v')) kvs) = map fst kvs"
    by auto
  then show "distinct (map fst kvs) \<Longrightarrow> distinct (map fst (obj_put k v kvs))"
    by (auto simp: obj_put_def distinct_insert_key simp del: map_map)
qed

lemma distinct_obj_del: "distinct (map fst kvs) \<Longrightarrow> distinct (map fst (obj_del k kvs))"
  by (induction kvs) (auto simp: obj_del_def)

lemma set_obj_put: "set (obj_put k v kvs) \<subseteq> insert (k, v) (set kvs)"
  by (auto simp: obj_put_def set_insert_key split: if_splits)

lemma set_obj_del: "set (obj_del k kvs) \<subseteq> set kvs"
  by (auto simp: obj_del_def)

section \<open>Documents up to property order\<close>

datatype jval = VPrim prim | VArr "jval list" | VObj "string \<Rightarrow> jval option"

primrec absj :: "json \<Rightarrow> jval" where
  "absj (Prim p) = VPrim p"
| "absj (Arr xs) = VArr (map absj xs)"
| "absj (Obj kvs) = VObj (map_of (map (map_prod id absj) kvs))"

lemma map_of_map_prod_id: "map_of (map (map_prod id f) kvs) k = map_option f (map_of kvs k)"
  by (induction kvs) auto

lemma absj_Obj: "absj (Obj kvs) = VObj (\<lambda>k. map_option absj (map_of kvs k))"
  by (simp add: fun_eq_iff map_of_map_prod_id)

declare absj.simps(3) [simp del]
declare absj_Obj [simp]

text \<open>Every object of a value has each property once: what the language guarantees.\<close>

primrec wf_json :: "json \<Rightarrow> bool" where
  "wf_json (Prim p) = True"
| "wf_json (Arr xs) = list_all id (map wf_json xs)"
| "wf_json (Obj kvs) =
     (distinct (map fst kvs) \<and> list_all snd (map (map_prod id wf_json) kvs))"

lemma wf_json_Arr [simp]: "wf_json (Arr xs) \<longleftrightarrow> (\<forall>x \<in> set xs. wf_json x)"
  by (simp add: list_all_iff)

lemma wf_json_Obj [simp]:
  "wf_json (Obj kvs) \<longleftrightarrow> distinct (map fst kvs) \<and> (\<forall>(k, v) \<in> set kvs. wf_json v)"
  by (auto simp: list_all_iff)

declare wf_json.simps(2,3) [simp del]

lemma wf_json_lookup: "wf_json (Obj kvs) \<Longrightarrow> map_of kvs k = Some v \<Longrightarrow> wf_json v"
  by (auto dest: map_of_SomeD)

lemma wf_json_obj_put: "wf_json (Obj kvs) \<Longrightarrow> wf_json v \<Longrightarrow> wf_json (Obj (obj_put k v kvs))"
  using set_obj_put[of k v kvs] by (auto simp: distinct_obj_put)

lemma wf_json_obj_del: "wf_json (Obj kvs) \<Longrightarrow> wf_json (Obj (obj_del k kvs))"
  using set_obj_del[of k kvs] by (auto simp: distinct_obj_del)

end
