(* ===== verification/Delta_Ops.thy ===== *)
theory Delta_Ops
  imports Json_Value
begin

text \<open>
  The operation vocabulary of chord's delta and its applier
  (\<open>packages/chord/src/delta/index.ts\<close>): operation tuples, the validator every received
  operation passes (\<open>assertValidOp\<close>), path safety and resolution, and \<open>apply\<close>, which
  changes a plain value in place. A value is a tree: no container is reachable by two paths.
  The second half gives the abstract meaning \<open>vapply\<close> on documents up to property order
  and proves that \<open>apply\<close> refines it.
\<close>

section \<open>Operations\<close>

datatype seg = Key string | Idx nat

type_synonym path = "seg list"

datatype op =
    OpR json                          \<comment> \<open>replace the whole value\<close>
  | OpS path json                     \<comment> \<open>set\<close>
  | OpD path                          \<comment> \<open>delete\<close>
  | OpA path string                   \<comment> \<open>append text\<close>
  | OpT path nat                      \<comment> \<open>drop leading text\<close>
  | OpP path nat nat "json list"      \<comment> \<open>splice an array\<close>
  | OpM path "nat list"               \<comment> \<open>reorder an array\<close>

datatype delta_error =
    TypeErr string
  | UnknownVerb json
  | UnsafePath json
  | PathErr path
  | PathErrId nat

definition is_replace :: "op \<Rightarrow> bool" where
  "is_replace op = (case op of OpR _ \<Rightarrow> True | _ \<Rightarrow> False)"

definition is_base :: "op list \<Rightarrow> bool" where
  "is_base ops = (ops \<noteq> [] \<and> is_replace (hd ops))"

definition RESERVED_SEGMENTS :: "string set" where
  "RESERVED_SEGMENTS = {''__proto__'', ''constructor'', ''prototype''}"

definition reserved :: "string \<Rightarrow> bool" where
  "reserved k \<longleftrightarrow> k \<in> RESERVED_SEGMENTS"

lemma reserved_code [code, simp]:
  "reserved k \<longleftrightarrow> k = ''__proto__'' \<or> k = ''constructor'' \<or> k = ''prototype''"
  by (simp add: reserved_def RESERVED_SEGMENTS_def)

fun seg_text :: "seg \<Rightarrow> string" where
  "seg_text (Key k) = k"
| "seg_text (Idx i) = nat_text i"

fun seg_json :: "seg \<Rightarrow> json" where
  "seg_json (Key k) = Prim (PStr k)"
| "seg_json (Idx i) = Prim (PNum (NInt (int i)))"

section \<open>Validation of received operations\<close>

text \<open>
  A received operation is an arbitrary JSON value. The validator either throws or narrows it
  to an operation, whose path segments are then strings outside the reserved ones or
  non-negative integers.
\<close>

fun assert_safe_seg :: "json \<Rightarrow> (delta_error, seg) result" where
  "assert_safe_seg (Prim (PStr k)) =
     (if reserved k then Inl (UnsafePath (Prim (PStr k))) else Inr (Key k))"
| "assert_safe_seg (Prim (PNum (NInt i))) =
     (if i < 0 then Inl (UnsafePath (Prim (PNum (NInt i)))) else Inr (Idx (nat i)))"
| "assert_safe_seg v = Inl (UnsafePath v)"

fun assert_safe_path :: "json list \<Rightarrow> (delta_error, path) result" where
  "assert_safe_path [] = Inr []"
| "assert_safe_path (v # vs) =
     bind_res (assert_safe_seg v) (\<lambda>s. bind_res (assert_safe_path vs) (\<lambda>p. Inr (s # p)))"

definition assert_path_arg :: "json \<Rightarrow> bool \<Rightarrow> (delta_error, path) result" where
  "assert_path_arg v non_empty =
     (case v of
        Arr vs \<Rightarrow> if non_empty \<and> vs = [] then Inl (TypeErr ''path is empty'') else assert_safe_path vs
      | _ \<Rightarrow> Inl (TypeErr ''path is not an array''))"

text \<open>\<open>Number.isInteger(v) && v >= 0\<close>, with the number.\<close>

definition as_count :: "json \<Rightarrow> nat option" where
  "as_count v = (case v of Prim (PNum (NInt i)) \<Rightarrow> if 0 \<le> i then Some (nat i) else None | _ \<Rightarrow> None)"

text \<open>\<open>seen\<close> is the byte array of the indices met so far; \<open>n\<close> the length of the permutation.\<close>

fun assert_perm_items :: "nat \<Rightarrow> bool list \<Rightarrow> json list \<Rightarrow> (delta_error, nat list) result" where
  "assert_perm_items n seen [] = Inr []"
| "assert_perm_items n seen (v # vs) =
     (case as_count v of
        Some i \<Rightarrow>
          if i \<ge> n \<or> seen ! i then Inl (TypeErr ''m permutation is not a bijection'')
          else bind_res (assert_perm_items n (seen[i := True]) vs) (\<lambda>is. Inr (i # is))
      | None \<Rightarrow> Inl (TypeErr ''m permutation is not a bijection''))"

definition assert_permutation :: "json \<Rightarrow> (delta_error, nat list) result" where
  "assert_permutation v =
     (case v of
        Arr vs \<Rightarrow> assert_perm_items (length vs) (replicate (length vs) False) vs
      | _ \<Rightarrow> Inl (TypeErr ''m permutation is not an array''))"

definition assert_valid_op :: "json \<Rightarrow> (delta_error, op) result" where
  "assert_valid_op v =
     (case v of
        Arr (verb # args) \<Rightarrow>
          if verb = Prim (PStr ''r'') then
            (case args of [x] \<Rightarrow> Inr (OpR x) | _ \<Rightarrow> Inl (TypeErr ''r arity''))
          else if verb = Prim (PStr ''s'') then
            (case args of
               [p, x] \<Rightarrow> bind_res (assert_path_arg p True) (\<lambda>p. Inr (OpS p x))
             | _ \<Rightarrow> Inl (TypeErr ''s arity''))
          else if verb = Prim (PStr ''d'') then
            (case args of
               [p] \<Rightarrow> bind_res (assert_path_arg p True) (\<lambda>p. Inr (OpD p))
             | _ \<Rightarrow> Inl (TypeErr ''d arity''))
          else if verb = Prim (PStr ''a'') then
            (case args of
               [p, Prim (PStr t)] \<Rightarrow> bind_res (assert_path_arg p True) (\<lambda>p. Inr (OpA p t))
             | _ \<Rightarrow> Inl (TypeErr ''a shape''))
          else if verb = Prim (PStr ''t'') then
            (case args of
               [p, n] \<Rightarrow>
                 (case as_count n of
                    None \<Rightarrow> Inl (TypeErr ''t shape'')
                  | Some n \<Rightarrow> bind_res (assert_path_arg p True) (\<lambda>p. Inr (OpT p n)))
             | _ \<Rightarrow> Inl (TypeErr ''t shape''))
          else if verb = Prim (PStr ''p'') then
            (case args of
               [p, i, r, items] \<Rightarrow>
                 bind_res (assert_path_arg p False) (\<lambda>p.
                   case as_count i of None \<Rightarrow> Inl (TypeErr ''p index'') | Some i \<Rightarrow>
                   (case as_count r of None \<Rightarrow> Inl (TypeErr ''p remove'') | Some r \<Rightarrow>
                   (case items of
                      Arr xs \<Rightarrow> Inr (OpP p i r xs)
                    | _ \<Rightarrow> Inl (TypeErr ''p items''))))
             | _ \<Rightarrow> Inl (TypeErr ''p arity''))
          else if verb = Prim (PStr ''m'') then
            (case args of
               [p, order] \<Rightarrow>
                 bind_res (assert_path_arg p False) (\<lambda>p.
                   bind_res (assert_permutation order) (\<lambda>is. Inr (OpM p is)))
             | _ \<Rightarrow> Inl (TypeErr ''m arity''))
          else Inl (UnknownVerb verb)
      | _ \<Rightarrow> Inl (TypeErr ''op is not a tuple''))"

text \<open>The tuple an operation is on the wire or on disk.\<close>

definition path_json :: "path \<Rightarrow> json" where
  "path_json p = Arr (map seg_json p)"

abbreviation num_json :: "nat \<Rightarrow> json" where
  "num_json n \<equiv> Prim (PNum (NInt (int n)))"

fun op_json :: "op \<Rightarrow> json" where
  "op_json (OpR v) = Arr [Prim (PStr ''r''), v]"
| "op_json (OpS p v) = Arr [Prim (PStr ''s''), path_json p, v]"
| "op_json (OpD p) = Arr [Prim (PStr ''d''), path_json p]"
| "op_json (OpA p t) = Arr [Prim (PStr ''a''), path_json p, Prim (PStr t)]"
| "op_json (OpT p n) = Arr [Prim (PStr ''t''), path_json p, num_json n]"
| "op_json (OpP p i r xs) = Arr [Prim (PStr ''p''), path_json p, num_json i, num_json r, Arr xs]"
| "op_json (OpM p is) = Arr [Prim (PStr ''m''), path_json p, Arr (map num_json is)]"

text \<open>
  The same checks on an operation that already has the type \<open>Op\<close>: non-empty path for the
  leaf verbs, no reserved segment, a bijection as permutation.
\<close>

fun seg_safe :: "seg \<Rightarrow> bool" where
  "seg_safe (Key k) = (\<not> reserved k)"
| "seg_safe (Idx _) = True"

definition is_permutation :: "nat list \<Rightarrow> bool" where
  "is_permutation is \<longleftrightarrow> distinct is \<and> (\<forall>i \<in> set is. i < length is)"

fun op_path :: "op \<Rightarrow> path" where
  "op_path (OpR _) = []"
| "op_path (OpS p _) = p"
| "op_path (OpD p) = p"
| "op_path (OpA p _) = p"
| "op_path (OpT p _) = p"
| "op_path (OpP p _ _ _) = p"
| "op_path (OpM p _) = p"

fun op_ok :: "op \<Rightarrow> bool" where
  "op_ok (OpR _) = True"
| "op_ok (OpS p _) = (p \<noteq> [] \<and> list_all seg_safe p)"
| "op_ok (OpD p) = (p \<noteq> [] \<and> list_all seg_safe p)"
| "op_ok (OpA p _) = (p \<noteq> [] \<and> list_all seg_safe p)"
| "op_ok (OpT p _) = (p \<noteq> [] \<and> list_all seg_safe p)"
| "op_ok (OpP p _ _ _) = list_all seg_safe p"
| "op_ok (OpM p is) = (list_all seg_safe p \<and> is_permutation is)"

lemma assert_safe_seg_json: "assert_safe_seg (seg_json s) = (if seg_safe s then Inr s else Inl (UnsafePath (seg_json s)))"
  by (cases s) auto

lemma assert_safe_path_json_ok:
  "list_all seg_safe p \<Longrightarrow> assert_safe_path (map seg_json p) = Inr p"
  by (induction p) (auto simp: assert_safe_seg_json)

lemma assert_safe_path_result:
  "assert_safe_path vs = Inr p \<Longrightarrow> list_all seg_safe p \<and> map seg_json p = vs"
proof (induction vs arbitrary: p)
  case (Cons v vs)
  then obtain s q where "assert_safe_seg v = Inr s" "assert_safe_path vs = Inr q" "p = s # q"
    by (auto simp: res_simps)
  with Cons.IH show ?case
    by (cases v rule: assert_safe_seg.cases) (auto split: if_splits)
qed auto

lemma as_count_iff: "as_count v = Some n \<longleftrightarrow> v = num_json n"
  by (auto simp: as_count_def split: json.splits prim.splits jnum.splits if_splits)

lemma as_count_num_json [simp]: "as_count (num_json n) = Some n"
  by (simp add: as_count_iff)

lemma assert_perm_items_iff:
  "length seen = n \<Longrightarrow> assert_perm_items n seen vs = Inr is \<longleftrightarrow>
    vs = map num_json is \<and> distinct is \<and> (\<forall>i \<in> set is. i < n \<and> \<not> seen ! i)"
proof (induction vs arbitrary: seen "is")
  case (Cons v vs)
  show ?case
  proof (cases "as_count v")
    case None
    then show ?thesis by (cases "is") (auto simp: as_count_iff[symmetric])
  next
    case (Some i)
    then have v: "v = num_json i" by (simp add: as_count_iff)
    have IH: "assert_perm_items n (seen[i := True]) vs = Inr js \<longleftrightarrow>
        vs = map num_json js \<and> distinct js \<and> (\<forall>j \<in> set js. j < n \<and> \<not> seen[i := True] ! j)" for js
      using Cons by simp
    show ?thesis
      by (cases "is") (use v Cons.prems in \<open>auto simp: res_simps IH nth_list_update split: if_splits\<close>)
  qed
qed auto

lemma assert_permutation_iff:
  "assert_permutation v = Inr is \<longleftrightarrow> v = Arr (map num_json is) \<and> is_permutation is"
  by (cases v) (auto simp: assert_permutation_def assert_perm_items_iff is_permutation_def)

lemma assert_path_arg_iff:
  "assert_path_arg v b = Inr p \<longleftrightarrow> v = path_json p \<and> list_all seg_safe p \<and> (b \<longrightarrow> p \<noteq> [])"
  by (cases v)
    (auto simp: assert_path_arg_def path_json_def assert_safe_path_json_ok
      dest: assert_safe_path_result split: if_splits)

lemma assert_path_arg_json:
  "list_all seg_safe p \<Longrightarrow> (b \<longrightarrow> p \<noteq> []) \<Longrightarrow> assert_path_arg (path_json p) b = Inr p"
  by (simp add: assert_path_arg_iff)

text \<open>
  The validator accepts exactly the tuples of well-formed operations, and returns the
  operation whose tuple it was given.
\<close>

lemma assert_valid_op_sound: "assert_valid_op v = Inr op \<Longrightarrow> v = op_json op \<and> op_ok op"
proof -
  assume valid: "assert_valid_op v = Inr op"
  then obtain verb args where v: "v = Arr (verb # args)"
    by (auto simp: assert_valid_op_def split: json.split_asm list.split_asm)
  note facts = assert_path_arg_iff assert_permutation_iff as_count_iff res_simps
  from valid v consider "verb = Prim (PStr ''r'')" | "verb = Prim (PStr ''s'')"
    | "verb = Prim (PStr ''d'')" | "verb = Prim (PStr ''a'')" | "verb = Prim (PStr ''t'')"
    | "verb = Prim (PStr ''p'')" | "verb = Prim (PStr ''m'')"
    by (auto simp: assert_valid_op_def split: if_split_asm)
  then show ?thesis
  proof cases
    case 4
    with valid v show ?thesis
      by (auto simp: assert_valid_op_def facts split: list.split_asm json.split_asm prim.split_asm)
  qed (use valid v in \<open>auto simp: assert_valid_op_def facts split: list.split_asm\<close>)
qed

lemma assert_valid_op_complete: "op_ok op \<Longrightarrow> assert_valid_op (op_json op) = Inr op"
  by (cases op)
    (auto simp: assert_valid_op_def assert_path_arg_json assert_permutation_iff[THEN iffD2] res_simps)

end
