(* ===== verification/Delta_Apply.thy ===== *)
theory Delta_Apply
  imports Delta_Ops
begin

text \<open>
  The applier of \<open>packages/chord/src/delta/index.ts\<close>: \<open>resolveValue\<close>, \<open>resolve\<close> and
  \<open>applyOps\<close>. The mutated node is found by walking the path; \<open>at_path\<close> is that walk with
  the change of the node written back, so it throws what the walk throws. The second half is
  the abstract meaning on documents, with the laws of reading and writing at a path.
\<close>

section \<open>Walking a path\<close>

text \<open>\<open>full\<close> is the path the error names, the whole path the caller asked for.\<close>

fun resolve_value :: "path \<Rightarrow> path \<Rightarrow> json \<Rightarrow> (delta_error, json) result" where
  "resolve_value full [] v = Inr v"
| "resolve_value full (s # p) (Prim _) = Inl (PathErr full)"
| "resolve_value full (s # p) (Arr xs) =
     (case s of
        Key k \<Rightarrow> Inl (UnsafePath (seg_json s))
      | Idx i \<Rightarrow> if i < length xs then resolve_value full p (xs ! i) else Inl (PathErr full))"
| "resolve_value full (s # p) (Obj kvs) =
     (case map_of kvs (seg_text s) of
        None \<Rightarrow> Inl (PathErr full)
      | Some v \<Rightarrow> resolve_value full p v)"

definition resolve :: "path \<Rightarrow> json \<Rightarrow> (delta_error, json) result" where
  "resolve p v =
     bind_res (resolve_value p p v)
       (\<lambda>t. case t of Prim _ \<Rightarrow> Inl (PathErr p) | _ \<Rightarrow> Inr t)"

fun at_path :: "path \<Rightarrow> path \<Rightarrow> (json \<Rightarrow> (delta_error, json) result) \<Rightarrow> json \<Rightarrow> (delta_error, json) result" where
  "at_path full [] f v = f v"
| "at_path full (s # p) f (Prim _) = Inl (PathErr full)"
| "at_path full (s # p) f (Arr xs) =
     (case s of
        Key k \<Rightarrow> Inl (UnsafePath (seg_json s))
      | Idx i \<Rightarrow>
          if i < length xs
          then bind_res (at_path full p f (xs ! i)) (\<lambda>v. Inr (Arr (xs[i := v])))
          else Inl (PathErr full))"
| "at_path full (s # p) f (Obj kvs) =
     (case map_of kvs (seg_text s) of
        None \<Rightarrow> Inl (PathErr full)
      | Some v \<Rightarrow> bind_res (at_path full p f v) (\<lambda>v. Inr (Obj (obj_put (seg_text s) v kvs))))"

lemma at_path_resolve:
  "at_path full p f v = Inr v' \<Longrightarrow> \<exists>t t'. resolve_value full p v = Inr t \<and> f t = Inr t'"
  by (induction full p f v arbitrary: v' rule: at_path.induct)
    (auto simp: res_simps split: seg.splits if_splits)

lemma at_path_error:
  "at_path full p f v = Inl e \<Longrightarrow>
     resolve_value full p v = Inl e \<or> (\<exists>t. resolve_value full p v = Inr t \<and> f t = Inl e)"
  by (induction full p f v rule: at_path.induct)
    (auto simp: res_simps split: seg.splits if_splits option.splits)

section \<open>Applying one operation\<close>

text \<open>
  The items of a splice go in by chunks of 10000, since each chunk is spread into call
  arguments.
\<close>

function insert_chunks :: "nat \<Rightarrow> nat \<Rightarrow> 'a list \<Rightarrow> 'a list \<Rightarrow> 'a list" where
  "insert_chunks index offset items xs =
     (if offset < length items
      then insert_chunks index (offset + 10000) items
             (splice_list (index + offset) 0 (slice items offset (offset + 10000)) xs)
      else xs)"
  by pat_completeness auto
termination
  by (relation "measure (\<lambda>(index, offset, items, xs). length items - offset)") auto

declare insert_chunks.simps [simp del]

definition splice_op :: "nat \<Rightarrow> nat \<Rightarrow> 'a list \<Rightarrow> 'a list \<Rightarrow> 'a list" where
  "splice_op index remove items xs = insert_chunks index 0 items (splice_list index remove [] xs)"

text \<open>The change of the parent of a leaf path; \<open>p\<close> is the whole path, \<open>key\<close> its last segment.\<close>

definition write_arr :: "nat \<Rightarrow> 'a \<Rightarrow> 'a list \<Rightarrow> 'a list" where
  "write_arr i v xs = (if i < length xs then xs[i := v] else xs @ [v])"

fun leaf_op :: "op \<Rightarrow> path \<Rightarrow> seg \<Rightarrow> json \<Rightarrow> (delta_error, json) result" where
  "leaf_op op p key (Prim _) = Inl (PathErr (butlast p))"
| "leaf_op op p key (Arr xs) =
     (case key of
        Key k \<Rightarrow> Inl (UnsafePath (seg_json key))
      | Idx i \<Rightarrow>
          if i > length xs then Inl (UnsafePath (seg_json key))
          else
            (let current = (if i < length xs then Some (xs ! i) else None) in
             case op of
               OpS _ v \<Rightarrow> Inr (Arr (write_arr i v xs))
             | OpD _ \<Rightarrow>
                 if i \<ge> length xs then Inl (PathErr p) else Inr (Arr (splice_list i 1 [] xs))
             | OpA _ t \<Rightarrow>
                 (case current of
                    Some (Prim (PStr c)) \<Rightarrow> Inr (Arr (write_arr i (Prim (PStr (c @ t))) xs))
                  | _ \<Rightarrow> Inl (PathErr p))
             | OpT _ n \<Rightarrow>
                 (case current of
                    Some (Prim (PStr c)) \<Rightarrow> Inr (Arr (write_arr i (Prim (PStr (drop n c))) xs))
                  | _ \<Rightarrow> Inl (PathErr p))
             | _ \<Rightarrow> Inr (Arr xs)))"
| "leaf_op op p key (Obj kvs) =
     (let k = seg_text key; current = map_of kvs k in
      case op of
        OpS _ v \<Rightarrow> Inr (Obj (obj_put k v kvs))
      | OpD _ \<Rightarrow> Inr (Obj (obj_del k kvs))
      | OpA _ t \<Rightarrow>
          (case current of
             Some (Prim (PStr c)) \<Rightarrow> Inr (Obj (obj_put k (Prim (PStr (c @ t))) kvs))
           | _ \<Rightarrow> Inl (PathErr p))
      | OpT _ n \<Rightarrow>
          (case current of
             Some (Prim (PStr c)) \<Rightarrow> Inr (Obj (obj_put k (Prim (PStr (drop n c))) kvs))
           | _ \<Rightarrow> Inl (PathErr p))
      | _ \<Rightarrow> Inr (Obj kvs))"

fun splice_target :: "path \<Rightarrow> nat \<Rightarrow> nat \<Rightarrow> json list \<Rightarrow> json \<Rightarrow> (delta_error, json) result" where
  "splice_target p i r items (Arr xs) = Inr (Arr (splice_op i r items xs))"
| "splice_target p i r items _ = Inl (PathErr p)"

fun permute_target :: "path \<Rightarrow> nat list \<Rightarrow> json \<Rightarrow> (delta_error, json) result" where
  "permute_target p is (Arr xs) =
     (if length xs = length is then Inr (Arr (map (\<lambda>i. xs ! i) is)) else Inl (PathErr p))"
| "permute_target p is _ = Inl (PathErr p)"

text \<open>
  \<open>None\<close> is the undefined value a replica has before its first base. The operation is
  already validated here.
\<close>

definition at_root :: "path \<Rightarrow> (json \<Rightarrow> (delta_error, json) result) \<Rightarrow> json option \<Rightarrow> (delta_error, json option) result" where
  "at_root p f root =
     (case root of None \<Rightarrow> Inl (PathErr p) | Some v \<Rightarrow> bind_res (at_path p p f v) (\<lambda>v. Inr (Some v)))"

fun step_op :: "op \<Rightarrow> json option \<Rightarrow> (delta_error, json option) result" where
  "step_op (OpR v) root = Inr (Some v)"
| "step_op (OpP p i r items) root = at_root p (splice_target p i r items) root"
| "step_op (OpM p is) root = at_root p (permute_target p is) root"
| "step_op op root =
     at_root (butlast (op_path op)) (leaf_op op (op_path op) (last (op_path op))) root"

definition apply_op :: "json \<Rightarrow> json option \<Rightarrow> (delta_error, json option) result" where
  "apply_op raw root = bind_res (assert_valid_op raw) (\<lambda>op. step_op op root)"

text \<open>\<open>apply(target, ops)\<close> on received tuples, and on operations of type \<open>Op\<close>.\<close>

definition apply_raw :: "json option \<Rightarrow> json list \<Rightarrow> (delta_error, json option) result" where
  "apply_raw root raws = fold_res apply_op raws root"

definition apply_ops :: "json option \<Rightarrow> op list \<Rightarrow> (delta_error, json option) result" where
  "apply_ops root ops = apply_raw root (map op_json ops)"

lemma apply_op_json_ok: "op_ok op \<Longrightarrow> apply_op (op_json op) root = step_op op root"
  by (simp add: apply_op_def assert_valid_op_complete)

lemma assert_valid_op_not_ok: "\<not> op_ok op \<Longrightarrow> \<exists>e. assert_valid_op (op_json op) = Inl e"
proof (cases "assert_valid_op (op_json op)")
  case (Inr op')
  assume "\<not> op_ok op"
  from Inr have "op_json op = op_json op' \<and> op_ok op'" by (rule assert_valid_op_sound)
  moreover have "inj seg_json" by (rule injI, rename_tac s t, case_tac s; case_tac t; simp)
  ultimately have "op = op'"
    by (cases op; cases op') (auto simp: path_json_def inj_map_eq_map
        dest!: map_injective[OF _ injI])
  with \<open>\<not> op_ok op\<close> Inr \<open>op_json op = op_json op' \<and> op_ok op'\<close> show ?thesis by simp
qed auto

lemma apply_ops_Nil [simp]: "apply_ops root [] = Inr root"
  by (simp add: apply_ops_def apply_raw_def)

lemma apply_ops_Cons: "apply_ops root (op # ops) = bind_res (apply_op (op_json op) root) (\<lambda>r. apply_ops r ops)"
  by (simp add: apply_ops_def apply_raw_def)

lemma apply_ops_append: "apply_ops root (xs @ ys) = bind_res (apply_ops root xs) (\<lambda>r. apply_ops r ys)"
  by (induction xs arbitrary: root) (simp_all add: apply_ops_Cons bind_res_assoc)

section \<open>Chunked insertion is one splice\<close>

lemma insert_chunks_eq:
  "length pre = index \<or> length pre < index \<and> post = [] \<Longrightarrow>
     insert_chunks index offset items (pre @ take offset items @ post) = pre @ items @ post"
proof (induction "length items - offset" arbitrary: offset rule: less_induct)
  case less
  show ?case
  proof (cases "offset < length items")
    case True
    let ?xs = "pre @ take offset items @ post"
    let ?c = "slice items offset (offset + 10000)"
    have "splice_list (index + offset) 0 ?c ?xs = pre @ (take offset items @ ?c) @ post"
      using less.prems True by (auto simp: splice_list_def)
    also have "take offset items @ ?c = take (offset + 10000) items"
      by (simp add: slice_def take_add)
    finally have "insert_chunks index offset items ?xs =
        insert_chunks index (offset + 10000) items (pre @ take (offset + 10000) items @ post)"
      using True by (simp add: insert_chunks.simps[of index offset])
    also have "\<dots> = pre @ items @ post"
      using less.hyps[of "offset + 10000"] less.prems True by simp
    finally show ?thesis .
  next
    case False
    then show ?thesis by (simp add: insert_chunks.simps[of index offset])
  qed
qed

lemma splice_op_eq: "splice_op i r items xs = splice_list i r items xs"
proof (cases "i \<le> length xs")
  case True
  then show ?thesis
    using insert_chunks_eq[of "take i xs" i "drop (i + r) xs" 0 items]
    by (simp add: splice_op_def splice_list_def)
next
  case False
  then show ?thesis
    using insert_chunks_eq[of xs i "[]" 0 items] by (simp add: splice_op_def splice_list_def)
qed

section \<open>The abstract meaning\<close>

fun vget :: "path \<Rightarrow> jval \<Rightarrow> jval option" where
  "vget [] v = Some v"
| "vget (s # p) (VPrim _) = None"
| "vget (s # p) (VArr xs) =
     (case s of Key _ \<Rightarrow> None | Idx i \<Rightarrow> if i < length xs then vget p (xs ! i) else None)"
| "vget (s # p) (VObj m) = (case m (seg_text s) of None \<Rightarrow> None | Some v \<Rightarrow> vget p v)"

fun vset :: "path \<Rightarrow> jval \<Rightarrow> jval \<Rightarrow> jval" where
  "vset [] x v = x"
| "vset (s # p) x (VPrim a) = VPrim a"
| "vset (s # p) x (VArr xs) =
     (case s of Key _ \<Rightarrow> VArr xs
      | Idx i \<Rightarrow> if i < length xs then VArr (xs[i := vset p x (xs ! i)]) else VArr xs)"
| "vset (s # p) x (VObj m) =
     (case m (seg_text s) of None \<Rightarrow> VObj m | Some v \<Rightarrow> VObj (m(seg_text s \<mapsto> vset p x v)))"

definition vupd :: "path \<Rightarrow> (jval \<Rightarrow> jval option) \<Rightarrow> jval \<Rightarrow> jval option" where
  "vupd p f v = (case vget p v of None \<Rightarrow> None | Some t \<Rightarrow> map_option (\<lambda>t'. vset p t' v) (f t))"

fun vtext :: "(string \<Rightarrow> string) \<Rightarrow> jval \<Rightarrow> jval option" where
  "vtext f (VPrim (PStr c)) = Some (VPrim (PStr (f c)))"
| "vtext f _ = None"

text \<open>The change an operation makes to the parent of its leaf, by the last segment.\<close>

fun vleaf :: "op \<Rightarrow> seg \<Rightarrow> jval \<Rightarrow> jval option" where
  "vleaf op key (VPrim _) = None"
| "vleaf op (Key k) (VArr xs) = None"
| "vleaf op (Idx i) (VArr xs) =
     (case op of
        OpS _ v \<Rightarrow>
          if i < length xs then Some (VArr (xs[i := absj v]))
          else if i = length xs then Some (VArr (xs @ [absj v])) else None
      | OpD _ \<Rightarrow> if i < length xs then Some (VArr (splice_list i 1 [] xs)) else None
      | OpA _ t \<Rightarrow>
          if i < length xs then map_option (\<lambda>y. VArr (xs[i := y])) (vtext (\<lambda>c. c @ t) (xs ! i)) else None
      | OpT _ n \<Rightarrow>
          if i < length xs then map_option (\<lambda>y. VArr (xs[i := y])) (vtext (drop n) (xs ! i)) else None
      | _ \<Rightarrow> if i \<le> length xs then Some (VArr xs) else None)"
| "vleaf op key (VObj m) =
     (let k = seg_text key in
      case op of
        OpS _ v \<Rightarrow> Some (VObj (m(k \<mapsto> absj v)))
      | OpD _ \<Rightarrow> Some (VObj (m(k := None)))
      | OpA _ t \<Rightarrow> Option.bind (m k) (\<lambda>v. map_option (\<lambda>y. VObj (m(k \<mapsto> y))) (vtext (\<lambda>c. c @ t) v))
      | OpT _ n \<Rightarrow> Option.bind (m k) (\<lambda>v. map_option (\<lambda>y. VObj (m(k \<mapsto> y))) (vtext (drop n) v))
      | _ \<Rightarrow> Some (VObj m))"

fun varray :: "(jval list \<Rightarrow> jval list option) \<Rightarrow> jval \<Rightarrow> jval option" where
  "varray f (VArr xs) = map_option VArr (f xs)"
| "varray f _ = None"

definition vpermute :: "nat list \<Rightarrow> jval list \<Rightarrow> jval list option" where
  "vpermute is xs = (if length xs = length is then Some (map (\<lambda>i. xs ! i) is) else None)"

definition vstep :: "op \<Rightarrow> jval \<Rightarrow> jval option" where
  "vstep op v =
     (if \<not> op_ok op then None else
      case op of
        OpR x \<Rightarrow> Some (absj x)
      | OpP p i r items \<Rightarrow> vupd p (varray (\<lambda>xs. Some (splice_list i r (map absj items) xs))) v
      | OpM p is \<Rightarrow> vupd p (varray (vpermute is)) v
      | _ \<Rightarrow> vupd (butlast (op_path op)) (vleaf op (last (op_path op))) v)"

fun vapply :: "op list \<Rightarrow> jval \<Rightarrow> jval option" where
  "vapply [] v = Some v"
| "vapply (op # ops) v = (case vstep op v of None \<Rightarrow> None | Some v' \<Rightarrow> vapply ops v')"

lemma vapply_append:
  "vapply (xs @ ys) v = (case vapply xs v of None \<Rightarrow> None | Some v' \<Rightarrow> vapply ys v')"
  by (induction xs arbitrary: v) (auto split: option.splits)

section \<open>The applier refines the abstract meaning\<close>

definition abs_res :: "('e, json) result \<Rightarrow> jval option" where
  "abs_res m = map_option absj (to_option m)"

definition abs_root :: "('e, json option) result \<Rightarrow> jval option" where
  "abs_root m = (case m of Inr (Some v) \<Rightarrow> Some (absj v) | _ \<Rightarrow> None)"

lemma abs_res_simps [simp]: "abs_res (Inl e) = None" "abs_res (Inr v) = Some (absj v)"
  by (simp_all add: abs_res_def)

lemma abs_root_simps [simp]:
  "abs_root (Inl e) = None" "abs_root (Inr (Some v)) = Some (absj v)" "abs_root (Inr None) = None"
  by (simp_all add: abs_root_def)

lemma vupd_Nil [simp]: "vupd [] f v = f v"
  by (simp add: vupd_def option.map_ident)

lemma vupd_Prim [simp]: "vupd (s # p) f (VPrim a) = None"
  by (simp add: vupd_def)

lemma vupd_Arr:
  "vupd (s # p) f (VArr xs) =
     (case s of Key _ \<Rightarrow> None
      | Idx i \<Rightarrow> if i < length xs then map_option (\<lambda>y. VArr (xs[i := y])) (vupd p f (xs ! i)) else None)"
  by (auto simp: vupd_def option.map_comp comp_def split: seg.splits option.splits)

lemma vupd_Obj:
  "vupd (s # p) f (VObj m) =
     (case m (seg_text s) of None \<Rightarrow> None
      | Some y \<Rightarrow> map_option (\<lambda>y. VObj (m(seg_text s \<mapsto> y))) (vupd p f y))"
  by (auto simp: vupd_def option.map_comp comp_def split: option.splits)

lemma absj_obj_upd: "absj (Obj (obj_put k v kvs)) = VObj ((\<lambda>k. map_option absj (map_of kvs k))(k \<mapsto> absj v))"
  by (auto simp: fun_eq_iff)

lemma absj_obj_del: "absj (Obj (obj_del k kvs)) = VObj ((\<lambda>k. map_option absj (map_of kvs k))(k := None))"
  by (auto simp: fun_eq_iff)

lemma at_path_abs:
  assumes f: "\<And>t. abs_res (f t) = g (absj t)"
  shows "abs_res (at_path full p f v) = vupd p g (absj v)"
proof (induction p arbitrary: v)
  case Nil
  then show ?case by (simp add: f)
next
  case (Cons s p)
  have *: "abs_res (bind_res m (\<lambda>v. Inr (h v))) = map_option hh (abs_res m)"
    if "\<And>v. absj (h v) = hh (absj v)" for m and h :: "json \<Rightarrow> json" and hh
    using that by (cases m) auto
  show ?case
  proof (cases v)
    case (Arr xs)
    then show ?thesis
      by (auto simp: vupd_Arr Cons.IH[symmetric] map_update intro!: * split: seg.splits)
  next
    case (Obj kvs)
    show ?thesis
    proof (cases "map_of kvs (seg_text s)")
      case None
      with Obj show ?thesis by (simp add: vupd_Obj)
    next
      case (Some x)
      have "abs_res (bind_res (at_path full p f x) (\<lambda>v. Inr (Obj (obj_put (seg_text s) v kvs)))) =
          map_option (\<lambda>y. VObj ((\<lambda>k. map_option absj (map_of kvs k))(seg_text s \<mapsto> y)))
            (abs_res (at_path full p f x))"
        by (rule *) (rule absj_obj_upd)
      with Obj Some show ?thesis by (simp add: vupd_Obj Cons.IH)
    qed
  qed simp
qed


lemma at_root_abs:
  assumes "\<And>t. abs_res (f t) = g (absj t)"
  shows "abs_root (at_root p f (Some v)) = vupd p g (absj v)"
proof -
  have "abs_root (bind_res m (\<lambda>v. Inr (Some v))) = abs_res m" for m :: "(delta_error, json) result"
    by (cases m) auto
  then show ?thesis using at_path_abs[of f g, OF assms] by (simp add: at_root_def)
qed

lemma splice_target_abs:
  "abs_res (splice_target p i r items t) =
     varray (\<lambda>xs. Some (splice_list i r (map absj items) xs)) (absj t)"
  by (cases t) (auto simp: splice_op_eq splice_list_map)

lemma permute_target_abs:
  "is_permutation is \<Longrightarrow> abs_res (permute_target p is t) = varray (vpermute is) (absj t)"
  by (cases t) (auto simp: vpermute_def is_permutation_def)

lemma write_arr_abs:
  "i \<le> length xs \<Longrightarrow> map absj (write_arr i v xs) =
     (if i < length xs then (map absj xs)[i := absj v] else map absj xs @ [absj v])"
  by (auto simp: write_arr_def map_update)

lemma vtext_absj:
  "vtext f (absj v) = (case v of Prim (PStr c) \<Rightarrow> Some (VPrim (PStr (f c))) | _ \<Rightarrow> None)"
  by (auto split: json.split prim.split)

lemma leaf_op_abs: "abs_res (leaf_op op p key t) = vleaf op key (absj t)"
proof (cases t)
  case (Arr xs)
  then show ?thesis
    by (cases op; cases key)
      (auto simp: write_arr_abs splice_list_map vtext_absj Let_def
        split: json.splits prim.splits)
next
  case (Obj kvs)
  then show ?thesis
    by (cases op)
      (auto simp: Let_def vtext_absj absj_obj_upd absj_obj_del simp del: absj_Obj
        split: option.splits json.splits prim.splits, auto simp: Let_def vtext_absj split: json.splits prim.splits)
qed simp


lemma step_op_abs: "op_ok op \<Longrightarrow> abs_root (step_op op (Some v)) = vstep op (absj v)"
  by (cases op)
    (simp_all add: vstep_def at_root_abs splice_target_abs permute_target_abs leaf_op_abs)

lemma apply_op_abs: "abs_root (apply_op (op_json op) (Some v)) = vstep op (absj v)"
proof (cases "op_ok op")
  case True
  then show ?thesis by (simp add: apply_op_json_ok step_op_abs)
next
  case False
  then obtain e where "assert_valid_op (op_json op) = Inl e" using assert_valid_op_not_ok by blast
  with False show ?thesis by (simp add: apply_op_def vstep_def)
qed

text \<open>A defined value stays defined: only a replica without base is \<open>None\<close>.\<close>

lemma step_op_Some: "step_op op root = Inr root' \<Longrightarrow> \<exists>v. root' = Some v"
  by (cases op) (auto simp: at_root_def res_simps split: option.splits)

lemma apply_ops_abs: "abs_root (apply_ops (Some v) ops) = vapply ops (absj v)"
proof (induction ops arbitrary: v)
  case (Cons op ops)
  show ?case
  proof (cases "apply_op (op_json op) (Some v)")
    case (Inl e)
    then show ?thesis using apply_op_abs[of op v] by (simp add: apply_ops_Cons)
  next
    case (Inr r)
    then obtain v' where r: "r = Some v'"
      by (auto simp: apply_op_def res_simps dest: step_op_Some)
    with Inr have "vstep op (absj v) = Some (absj v')" using apply_op_abs[of op v] by simp
    with Inr r Cons show ?thesis by (simp add: apply_ops_Cons)
  qed
qed simp

lemma apply_ops_vapply:
  "vapply ops (absj v) = Some y \<longleftrightarrow> (\<exists>v'. apply_ops (Some v) ops = Inr (Some v') \<and> absj v' = y)"
proof -
  have "abs_root m = Some y \<longleftrightarrow> (\<exists>v'. m = Inr (Some v') \<and> absj v' = y)" for m :: "(delta_error, json option) result"
    by (auto simp: abs_root_def split: sum.splits option.splits)
  then show ?thesis by (simp flip: apply_ops_abs)
qed

section \<open>Laws of reading and writing at a path\<close>

named_theorems path_laws "laws of vget, vset and vupd"

lemma vget_vset [path_laws]: "vget p v = Some t \<Longrightarrow> vget p (vset p x v) = Some x"
  by (induction p v arbitrary: t rule: vget.induct) (auto split: seg.splits option.splits if_splits)

lemma vset_vset [path_laws]: "vset p y (vset p x v) = vset p y v"
  by (induction p x v rule: vset.induct) (auto split: seg.splits option.splits)

lemma vset_vget [path_laws]: "vget p v = Some t \<Longrightarrow> vset p t v = v"
  by (induction p v arbitrary: t rule: vget.induct)
    (auto simp: fun_eq_iff split: seg.splits option.splits if_splits)

lemma vget_append [path_laws]: "vget (p @ q) v = (case vget p v of None \<Rightarrow> None | Some t \<Rightarrow> vget q t)"
  by (induction p v rule: vget.induct) (auto split: seg.splits option.splits)

lemma vset_append [path_laws]: "vget p v = Some t \<Longrightarrow> vset (p @ q) x v = vset p (vset q x t) v"
  by (induction p v arbitrary: t rule: vget.induct) (auto split: seg.splits option.splits if_splits)

lemma vupd_Some_iff: "vupd p f v = Some w \<longleftrightarrow> (\<exists>t t'. vget p v = Some t \<and> f t = Some t' \<and> w = vset p t' v)"
  by (auto simp: vupd_def split: option.splits)

lemma vupd_at [path_laws]: "vget p v = Some t \<Longrightarrow> vupd p f v = map_option (\<lambda>t'. vset p t' v) (f t)"
  by (simp add: vupd_def)

end
