(* ===== verification/Json_Text.thy ===== *)
theory Json_Text
  imports Json_Value
begin

text \<open>
  \<open>JSON.stringify\<close>, which the sources use to turn paths and document addresses into map
  keys. On the values they use it for (strings, non-negative integers and arrays of these) it
  is injective, so a map keyed by the text is a map keyed by the value.
\<close>

definition hex_char :: "nat \<Rightarrow> char" where
  "hex_char d = ''0123456789abcdef'' ! (d mod 16)"

text \<open>QuoteJSONString on one code unit below 256.\<close>

definition esc_char :: "char \<Rightarrow> string" where
  "esc_char c =
     (if c = CHR 0x22 then [CHR 0x5C, CHR 0x22]
      else if c = CHR 0x5C then [CHR 0x5C, CHR 0x5C]
      else if c = CHR 0x08 then [CHR 0x5C, CHR ''b'']
      else if c = CHR 0x0C then [CHR 0x5C, CHR ''f'']
      else if c = CHR 0x0A then [CHR 0x5C, CHR ''n'']
      else if c = CHR 0x0D then [CHR 0x5C, CHR ''r'']
      else if c = CHR 0x09 then [CHR 0x5C, CHR ''t'']
      else if of_char c < (32 :: nat)
        then [CHR 0x5C, CHR ''u'', CHR ''0'', CHR ''0'',
              hex_char (of_char c div 16), hex_char (of_char c)]
      else [c])"

definition quote_text :: "string \<Rightarrow> string" where
  "quote_text s = CHR 0x22 # concat (map esc_char s) @ [CHR 0x22]"

fun join_comma :: "string list \<Rightarrow> string" where
  "join_comma [] = []"
| "join_comma [s] = s"
| "join_comma (s # ss) = s @ CHR '','' # join_comma ss"

fun prim_text :: "prim \<Rightarrow> string" where
  "prim_text PNull = ''null''"
| "prim_text (PBool b) = (if b then ''true'' else ''false'')"
| "prim_text (PNum n) = num_text n"
| "prim_text (PStr s) = quote_text s"

primrec stringify :: "json \<Rightarrow> string" where
  "stringify (Prim p) = prim_text p"
| "stringify (Arr xs) = CHR ''['' # join_comma (map stringify xs) @ '']''"
| "stringify (Obj kvs) =
     CHR ''{'' # join_comma (map (\<lambda>(k, s). quote_text k @ CHR '':'' # s) (map (map_prod id stringify) kvs))
       @ ''}''"

section \<open>Quoting is injective\<close>

text \<open>Reading one escaped code unit back.\<close>

definition hex_val :: "char \<Rightarrow> nat" where
  "hex_val c = (let n = of_char c in if n < 58 then n - 48 else n - 87)"

fun unesc :: "string \<Rightarrow> (char \<times> string) option" where
  "unesc [] = None"
| "unesc (c # s) =
     (if c = CHR 0x22 then None
      else if c \<noteq> CHR 0x5C then Some (c, s)
      else case s of
        [] \<Rightarrow> None
      | d # s \<Rightarrow>
          if d = CHR ''b'' then Some (CHR 0x08, s)
          else if d = CHR ''f'' then Some (CHR 0x0C, s)
          else if d = CHR ''n'' then Some (CHR 0x0A, s)
          else if d = CHR ''r'' then Some (CHR 0x0D, s)
          else if d = CHR ''t'' then Some (CHR 0x09, s)
          else if d = CHR ''u'' then
            (case s of _ # _ # h # l # s \<Rightarrow> Some (char_of (16 * hex_val h + hex_val l), s) | _ \<Rightarrow> None)
          else Some (d, s))"

lemma hex_val_hex_char: "hex_val (hex_char d) = d mod 16"
proof -
  have "\<forall>k < 16. hex_val (''0123456789abcdef'' ! k) = k"
    by (simp add: hex_val_def numeral_eq_Suc less_Suc_eq)
  then show ?thesis by (simp add: hex_char_def)
qed

lemma unesc_esc_char: "unesc (esc_char c @ s) = Some (c, s)"
proof -
  have "char_of (16 * (of_char c div 16 mod 16) + of_char c mod 16 :: nat) = c" if "of_char c < (32 :: nat)"
  proof -
    have "of_char c div 16 mod 16 = of_char c div (16 :: nat)" using that by simp
    then have "16 * (of_char c div 16 mod 16) + of_char c mod 16 = (of_char c :: nat)" by simp
    then show ?thesis by (simp del: add_mult_distrib)
  qed
  then show ?thesis by (simp add: esc_char_def hex_val_hex_char)
qed

lemma quote_text_cut:
  "concat (map esc_char s) @ CHR 0x22 # r = concat (map esc_char s') @ CHR 0x22 # r' \<Longrightarrow>
     s = s' \<and> r = r'"
proof (induction s arbitrary: s')
  case Nil
  then show ?case
    using unesc_esc_char[of "hd s'" "concat (map esc_char (tl s')) @ CHR 0x22 # r'"]
    by (cases s') (auto dest: arg_cong[of _ _ unesc])
next
  case (Cons c s)
  show ?case
  proof (cases s')
    case Nil
    with Cons.prems show ?thesis
      using unesc_esc_char[of c "concat (map esc_char s) @ CHR 0x22 # r"]
      by (auto dest: arg_cong[of _ _ unesc])
  next
    case (Cons c' t)
    with Cons.prems
    have eq: "esc_char c @ concat (map esc_char s) @ CHR 0x22 # r =
        esc_char c' @ concat (map esc_char t) @ CHR 0x22 # r'" by simp
    then have "Some (c, concat (map esc_char s) @ CHR 0x22 # r) =
        Some (c', concat (map esc_char t) @ CHR 0x22 # r')"
      by (metis unesc_esc_char)
    then have "c = c'" and "concat (map esc_char s) @ CHR 0x22 # r = concat (map esc_char t) @ CHR 0x22 # r'"
      by auto
    with Cons.IH \<open>s' = c' # t\<close> show ?thesis by auto
  qed
qed

section \<open>Key values\<close>

text \<open>The values used as keys: strings, non-negative integers, and arrays of key values.\<close>

primrec key_json :: "json \<Rightarrow> bool" where
  "key_json (Prim p) =
     (case p of PStr _ \<Rightarrow> True | PNum (NInt i) \<Rightarrow> 0 \<le> i | _ \<Rightarrow> False)"
| "key_json (Arr xs) = list_all id (map key_json xs)"
| "key_json (Obj kvs) = False"

lemma key_json_Arr [simp]: "key_json (Arr xs) \<longleftrightarrow> (\<forall>x \<in> set xs. key_json x)"
  by (simp add: list_all_iff)

declare key_json.simps(2) [simp del]

definition no_digit :: "string \<Rightarrow> bool" where
  "no_digit r \<longleftrightarrow> (r = [] \<or> \<not> is_digit (hd r))"

lemma nat_text_cut:
  assumes "nat_text m @ r = nat_text n @ r'" "no_digit r" "no_digit r'"
  shows "m = n \<and> r = r'"
proof -
  have *: "takeWhile is_digit (nat_text k @ s) = nat_text k" if "no_digit s" for k s
    using that nat_text_digits[of k] by (cases s) (auto simp: no_digit_def)
  from assms have "nat_text m = nat_text n" by (metis *)
  with assms show ?thesis by simp
qed

lemma nat_text_head: "\<exists>c s. nat_text n = c # s \<and> is_digit c"
  using nat_text_digits[of n] by (cases "nat_text n") auto

lemma is_digit_no_syntax [simp]:
  "\<not> is_digit (CHR 0x22)" "\<not> is_digit (CHR ''['')" "\<not> is_digit (CHR '']'')" "\<not> is_digit (CHR '','')"
  by (simp_all add: is_digit_def)

lemma key_json_cases [consumes 1, case_names str num arr]:
  assumes "key_json v"
  obtains (str) s where "v = Prim (PStr s)" | (num) n where "v = Prim (PNum (NInt (int n)))"
    | (arr) xs where "v = Arr xs" "\<forall>x \<in> set xs. key_json x"
proof (cases v)
  case (Prim p)
  with assms show ?thesis
    by (auto intro: str num simp: nonneg_int_cases split: prim.splits jnum.splits)
      (metis nonneg_int_cases num)
qed (use assms arr in auto)

lemma stringify_num: "stringify (Prim (PNum (NInt (int n)))) = nat_text n"
  by (simp add: int_text_def)

lemma stringify_head:
  "stringify (Prim (PStr s)) = CHR 0x22 # t \<longleftrightarrow> t = concat (map esc_char s) @ [CHR 0x22]"
  "\<exists>t. stringify (Prim (PStr s)) = CHR 0x22 # t"
  "\<exists>c t. stringify (Prim (PNum (NInt (int n)))) = c # t \<and> is_digit c"
  "\<exists>t. stringify (Arr xs) = CHR ''['' # t"
  using nat_text_head by (auto simp: quote_text_def int_text_def)

lemma stringify_neq_close:
  assumes "key_json v"
  shows "stringify v @ r \<noteq> CHR '']'' # r'"
  using assms
proof (cases v rule: key_json_cases)
  case (num n)
  with stringify_head(3)[of n] show ?thesis by auto
qed (auto simp: quote_text_def)

text \<open>What follows the first element inside the brackets.\<close>

definition rest_text :: "json list \<Rightarrow> string" where
  "rest_text xs = (if xs = [] then '']'' else CHR '','' # join_comma (map stringify xs) @ '']'')"

lemma join_comma_Cons: "join_comma (map stringify (x # xs)) @ '']'' = stringify x @ rest_text xs"
  by (cases xs) (simp_all add: rest_text_def)

lemma no_digit_rest: "no_digit (rest_text xs @ r)"
  by (simp add: rest_text_def no_digit_def)

lemma stringify_cut:
  "key_json v \<Longrightarrow> key_json v' \<Longrightarrow> stringify v @ r = stringify v' @ r' \<Longrightarrow>
     no_digit r \<Longrightarrow> no_digit r' \<Longrightarrow> v = v' \<and> r = r'"
proof (induction v arbitrary: v' r r' rule: measure_induct_rule[of size])
  case (less v)
  note eq = less.prems(3)
  show ?case
    using less.prems(1)
  proof (cases v rule: key_json_cases)
    case (str s)
    show ?thesis
      using less.prems(2)
    proof (cases v' rule: key_json_cases)
      case (str s')
      with eq \<open>v = Prim (PStr s)\<close> show ?thesis
        using quote_text_cut[of s r s' r'] by (simp add: quote_text_def)
    next
      case (num n)
      with eq str stringify_head(3)[of n] show ?thesis by (auto simp: quote_text_def)
    qed (use eq str in \<open>simp add: quote_text_def\<close>)
  next
    case (num n)
    show ?thesis
      using less.prems(2)
    proof (cases v' rule: key_json_cases)
      case (str s)
      with eq num stringify_head(3)[of n] show ?thesis by (auto simp: quote_text_def)
    next
      case (num m)
      with eq \<open>v = _\<close> have "nat_text n @ r = nat_text m @ r'" by (simp only: stringify_num)
      with less.prems have "n = m \<and> r = r'" using nat_text_cut by blast
      with num \<open>v = _\<close> show ?thesis by simp
    next
      case (arr ys)
      with eq num stringify_head(3)[of n] show ?thesis by auto
    qed
  next
    case (arr xs)
    have list: "\<forall>x \<in> set zs. key_json x \<Longrightarrow> \<forall>y \<in> set ys. key_json y \<Longrightarrow> set zs \<subseteq> set xs \<Longrightarrow>
        (join_comma (map stringify zs) @ '']'') @ r = (join_comma (map stringify ys) @ '']'') @ r' \<Longrightarrow>
        zs = ys \<and> r = r'" for zs ys
    proof (induction zs arbitrary: ys)
      case Nil
      then show ?case
      proof (cases ys)
        case (Cons y yt)
        with Nil.prems have "stringify y @ (rest_text yt @ r') = CHR '']'' # r"
          unfolding Cons join_comma_Cons by simp
        with Nil.prems Cons show ?thesis using stringify_neq_close by fastforce
      qed simp
    next
      case (Cons z zs)
      show ?case
      proof (cases ys)
        case Nil
        with Cons.prems have "stringify z @ (rest_text zs @ r) = CHR '']'' # r'"
          unfolding join_comma_Cons by simp
        with Cons.prems show ?thesis using stringify_neq_close by fastforce
      next
        case ys: (Cons y yt)
        from Cons.prems(4) have
          "stringify z @ (rest_text zs @ r) = stringify y @ (rest_text yt @ r')"
          unfolding ys join_comma_Cons by simp
        moreover have "size z < size v"
          using Cons.prems(3) arr by (auto intro!: le_imp_less_Suc size_list_estimation'[of z])
        ultimately have zy: "z = y \<and> rest_text zs @ r = rest_text yt @ r'"
          using Cons.prems ys less.IH[of z y "rest_text zs @ r" "rest_text yt @ r'"]
          by (auto simp: no_digit_rest)
        then have "rest_text zs @ r = rest_text yt @ r'" ..
        then have eq': "(join_comma (map stringify zs) @ '']'') @ r = (join_comma (map stringify yt) @ '']'') @ r'"
          by (simp add: rest_text_def split: if_splits)
        have "zs = yt \<and> r = r'"
          by (rule Cons.IH) (use Cons.prems ys eq' in auto)
        with zy ys show ?thesis by simp
      qed
    qed
    show ?thesis
      using less.prems(2)
    proof (cases v' rule: key_json_cases)
      case (num n)
      with eq arr stringify_head(3)[of n] show ?thesis by auto
    next
      case v': (arr ys)
      with eq arr(1)
      have "(join_comma (map stringify xs) @ '']'') @ r = (join_comma (map stringify ys) @ '']'') @ r'"
        by simp
      with list[OF arr(2) v'(2) order_refl] arr(1) v'(1) show ?thesis by blast
    qed (use eq arr in \<open>simp add: quote_text_def\<close>)
  qed
qed

theorem stringify_inj:
  "key_json v \<Longrightarrow> key_json v' \<Longrightarrow> stringify v = stringify v' \<longleftrightarrow> v = v'"
  using stringify_cut[of v v' "[]" "[]"] by (auto simp: no_digit_def)

end
