(* ===== verification/Delta_Codec.thy ===== *)
theory Delta_Codec
  imports Delta_Apply Json_Text
begin

text \<open>
  The wire codec of chord's delta (\<open>encoder\<close> and \<open>decoder\<close> of
  \<open>packages/chord/src/delta/index.ts\<close>). A path is interned on its second use, and an
  operation on the path of the operation before it in the batch leaves the path out. The
  encoder's dictionaries are keyed by \<open>pathKey\<close>, the \<open>JSON.stringify\<close> text of a path. The
  decoder validates every received tuple.
\<close>

section \<open>Wire operations\<close>

datatype path_ref = Inline path | Ref nat

text \<open>\<open>None\<close> is the short form, which reuses the path of the previous operation.\<close>

datatype wire_op =
    WR json
  | WS "path_ref option" json
  | WD "path_ref option"
  | WA "path_ref option" string
  | WT "path_ref option" nat
  | WP "path_ref option" nat nat "json list"
  | WM "path_ref option" "nat list"
  | WDef nat path

fun ref_json :: "path_ref option \<Rightarrow> json list" where
  "ref_json None = []"
| "ref_json (Some (Inline p)) = [path_json p]"
| "ref_json (Some (Ref i)) = [num_json i]"

fun wire_json :: "wire_op \<Rightarrow> json" where
  "wire_json (WR v) = Arr [Prim (PStr ''r''), v]"
| "wire_json (WS r v) = Arr (Prim (PStr ''s'') # ref_json r @ [v])"
| "wire_json (WD r) = Arr (Prim (PStr ''d'') # ref_json r)"
| "wire_json (WA r t) = Arr (Prim (PStr ''a'') # ref_json r @ [Prim (PStr t)])"
| "wire_json (WT r n) = Arr (Prim (PStr ''t'') # ref_json r @ [num_json n])"
| "wire_json (WP r i d xs) = Arr (Prim (PStr ''p'') # ref_json r @ [num_json i, num_json d, Arr xs])"
| "wire_json (WM r is) = Arr (Prim (PStr ''m'') # ref_json r @ [Arr (map num_json is)])"
| "wire_json (WDef i p) = Arr [Prim (PStr ''#''), num_json i, path_json p]"

section \<open>Validation of the wire grammar\<close>

fun ok_ref :: "json \<Rightarrow> (delta_error, path_ref) result" where
  "ok_ref (Prim (PNum n)) =
     (case as_count (Prim (PNum n)) of
        None \<Rightarrow> Inl (TypeErr ''bad path id'')
      | Some i \<Rightarrow> Inr (Ref i))"
| "ok_ref (Arr vs) = bind_res (assert_safe_path vs) (\<lambda>p. Inr (Inline p))"
| "ok_ref _ = Inl (TypeErr ''path is not an array'')"

definition wire_text :: "json \<Rightarrow> (delta_error, string) result" where
  "wire_text v = (case v of Prim (PStr t) \<Rightarrow> Inr t | _ \<Rightarrow> Inl (TypeErr ''a value''))"

definition wire_count :: "string \<Rightarrow> json \<Rightarrow> (delta_error, nat) result" where
  "wire_count msg v = (case as_count v of None \<Rightarrow> Inl (TypeErr msg) | Some n \<Rightarrow> Inr n)"

definition wire_items :: "json \<Rightarrow> (delta_error, json list) result" where
  "wire_items v = (case v of Arr xs \<Rightarrow> Inr xs | _ \<Rightarrow> Inl (TypeErr ''p items''))"

text \<open>
  The verb decides how many arguments follow the optional path reference; any other number is
  an arity error.
\<close>

definition with_ref ::
  "string \<Rightarrow> nat \<Rightarrow> json list \<Rightarrow> (path_ref option \<Rightarrow> json list \<Rightarrow> (delta_error, wire_op) result) \<Rightarrow>
     (delta_error, wire_op) result" where
  "with_ref msg n args k =
     (if length args = Suc n then bind_res (ok_ref (hd args)) (\<lambda>r. k (Some r) (tl args))
      else if length args = n then k None args
      else Inl (TypeErr msg))"

definition assert_valid_wire_op :: "json \<Rightarrow> (delta_error, wire_op) result" where
  "assert_valid_wire_op v =
     (case v of
        Arr (verb # args) \<Rightarrow>
          if verb = Prim (PStr ''r'') then
            (case args of [x] \<Rightarrow> Inr (WR x) | _ \<Rightarrow> Inl (TypeErr ''r arity''))
          else if verb = Prim (PStr ''s'') then
            with_ref ''s arity'' 1 args (\<lambda>r vs. Inr (WS r (vs ! 0)))
          else if verb = Prim (PStr ''d'') then
            with_ref ''d arity'' 0 args (\<lambda>r vs. Inr (WD r))
          else if verb = Prim (PStr ''a'') then
            with_ref ''a arity'' 1 args (\<lambda>r vs. bind_res (wire_text (vs ! 0)) (\<lambda>t. Inr (WA r t)))
          else if verb = Prim (PStr ''t'') then
            with_ref ''t arity'' 1 args
              (\<lambda>r vs. bind_res (wire_count ''t count'' (vs ! 0)) (\<lambda>n. Inr (WT r n)))
          else if verb = Prim (PStr ''p'') then
            with_ref ''p arity'' 3 args
              (\<lambda>r vs. bind_res (wire_count ''p index'' (vs ! 0)) (\<lambda>i.
                 bind_res (wire_count ''p remove'' (vs ! 1)) (\<lambda>d.
                 bind_res (wire_items (vs ! 2)) (\<lambda>xs. Inr (WP r i d xs)))))
          else if verb = Prim (PStr ''m'') then
            with_ref ''m arity'' 1 args
              (\<lambda>r vs. bind_res (assert_permutation (vs ! 0)) (\<lambda>is. Inr (WM r is)))
          else if verb = Prim (PStr ''#'') then
            (case args of
               [i, Arr vs] \<Rightarrow>
                 (case as_count i of
                    None \<Rightarrow> Inl (TypeErr ''# shape'')
                  | Some i \<Rightarrow> bind_res (assert_safe_path vs) (\<lambda>p. Inr (WDef i p)))
             | _ \<Rightarrow> Inl (TypeErr ''# shape''))
          else Inl (UnknownVerb verb)
      | _ \<Rightarrow> Inl (TypeErr ''op is not a tuple''))"

section \<open>The encoder\<close>

definition path_key :: "path \<Rightarrow> string" where
  "path_key p = stringify (path_json p)"

record enc_state =
  seen :: "string list"
  ids :: "(string \<times> nat) list"
  next_id :: nat

definition enc_init :: enc_state where
  "enc_init = \<lparr>seen = [], ids = [], next_id = 0\<rparr>"

text \<open>The tuple of an operation other than \<open>r\<close>, with the given path reference.\<close>

fun with_path :: "op \<Rightarrow> path_ref option \<Rightarrow> wire_op" where
  "with_path (OpR v) r = WR v"
| "with_path (OpS _ v) r = WS r v"
| "with_path (OpD _) r = WD r"
| "with_path (OpA _ t) r = WA r t"
| "with_path (OpT _ n) r = WT r n"
| "with_path (OpP _ i d xs) r = WP r i d xs"
| "with_path (OpM _ is) r = WM r is"

text \<open>The reference for a path that is not the previous one: the definition to emit first, if any.\<close>

definition intern :: "enc_state \<Rightarrow> path \<Rightarrow> wire_op list \<times> path_ref \<times> enc_state" where
  "intern st p =
     (let key = path_key p in
      case map_of (ids st) key of
        Some i \<Rightarrow> ([], Ref i, st)
      | None \<Rightarrow>
          if key \<in> set (seen st)
          then ([WDef (next_id st) p], Ref (next_id st),
                st\<lparr>ids := (key, next_id st) # ids st, next_id := Suc (next_id st)\<rparr>)
          else ([], Inline p, st\<lparr>seen := key # seen st\<rparr>))"

text \<open>The loop of one \<open>encode(ops)\<close> call; \<open>prev\<close> is the key of the last path in this batch.\<close>

fun encode_loop :: "enc_state \<Rightarrow> string option \<Rightarrow> op list \<Rightarrow> wire_op list \<times> enc_state" where
  "encode_loop st prev [] = ([], st)"
| "encode_loop st prev (OpR v # ops) =
     (let (ws, st') = encode_loop enc_init None ops in (WR v # ws, st'))"
| "encode_loop st prev (op # ops) =
     (let key = path_key (op_path op) in
      if prev = Some key
      then (let (ws, st') = encode_loop st prev ops in (with_path op None # ws, st'))
      else
        (let (defs, ref, st1) = intern st (op_path op);
             (ws, st') = encode_loop st1 (Some key) ops
         in (defs @ with_path op (Some ref) # ws, st')))"

definition encode :: "enc_state \<Rightarrow> op list \<Rightarrow> wire_op list \<times> enc_state" where
  "encode st ops = encode_loop st None ops"

section \<open>The decoder\<close>

type_synonym dec_state = "(nat \<times> path) list"

fun ref_path :: "dec_state \<Rightarrow> path option \<Rightarrow> path_ref option \<Rightarrow> (delta_error, path) result" where
  "ref_path paths prev None = (case prev of None \<Rightarrow> Inl (PathErr []) | Some p \<Rightarrow> Inr p)"
| "ref_path paths prev (Some (Ref i)) =
     (case map_of paths i of None \<Rightarrow> Inl (PathErrId i) | Some p \<Rightarrow> Inr p)"
| "ref_path paths prev (Some (Inline p)) = Inr p"

fun wire_ref :: "wire_op \<Rightarrow> path_ref option" where
  "wire_ref (WS r _) = r"
| "wire_ref (WD r) = r"
| "wire_ref (WA r _) = r"
| "wire_ref (WT r _) = r"
| "wire_ref (WP r _ _ _) = r"
| "wire_ref (WM r _) = r"
| "wire_ref _ = None"

text \<open>The decoded tuple of a validated wire operation on its resolved path.\<close>

fun decode_one :: "wire_op \<Rightarrow> path \<Rightarrow> (delta_error, op) result" where
  "decode_one (WS _ v) p = (if p = [] then Inl (PathErr p) else Inr (OpS p v))"
| "decode_one (WD _) p = (if p = [] then Inl (PathErr p) else Inr (OpD p))"
| "decode_one (WA _ t) p = (if p = [] then Inl (PathErr p) else Inr (OpA p t))"
| "decode_one (WT _ n) p = (if p = [] then Inl (PathErr p) else Inr (OpT p n))"
| "decode_one (WP _ i d xs) p = Inr (OpP p i d xs)"
| "decode_one (WM _ is) p = Inr (OpM p is)"
| "decode_one (WR v) p = Inr (OpR v)"
| "decode_one (WDef i q) p = Inl (PathErr p)"

fun decode_loop ::
  "dec_state \<Rightarrow> path option \<Rightarrow> json list \<Rightarrow> (delta_error, op list \<times> dec_state) result" where
  "decode_loop paths prev [] = Inr ([], paths)"
| "decode_loop paths prev (raw # raws) =
     bind_res (assert_valid_wire_op raw) (\<lambda>w.
       case w of
         WDef i p \<Rightarrow> decode_loop ((i, p) # paths) prev raws
       | WR v \<Rightarrow>
           bind_res (decode_loop [] None raws) (\<lambda>(ops, paths'). Inr (OpR v # ops, paths'))
       | _ \<Rightarrow>
           bind_res (ref_path paths prev (wire_ref w)) (\<lambda>p.
           bind_res (decode_one w p) (\<lambda>op.
           bind_res (decode_loop paths (Some p) raws) (\<lambda>(ops, paths'). Inr (op # ops, paths')))))"

definition decode :: "dec_state \<Rightarrow> json list \<Rightarrow> (delta_error, op list \<times> dec_state) result" where
  "decode paths wire = decode_loop paths None wire"

text \<open>A stream of batches through one encoder, and through one decoder.\<close>

fun encode_stream :: "enc_state \<Rightarrow> op list list \<Rightarrow> json list list" where
  "encode_stream st [] = []"
| "encode_stream st (b # bs) =
     (let (ws, st') = encode st b in map wire_json ws # encode_stream st' bs)"

fun decode_stream :: "dec_state \<Rightarrow> json list list \<Rightarrow> (delta_error, op list list) result" where
  "decode_stream paths [] = Inr []"
| "decode_stream paths (w # ws) =
     bind_res (decode paths w) (\<lambda>(ops, paths').
       bind_res (decode_stream paths' ws) (\<lambda>rest. Inr (ops # rest)))"

section \<open>Validated wire tuples\<close>

fun ref_ok :: "path_ref option \<Rightarrow> bool" where
  "ref_ok (Some (Inline p)) = list_all seg_safe p"
| "ref_ok _ = True"

fun wire_ok :: "wire_op \<Rightarrow> bool" where
  "wire_ok (WM r is) = (ref_ok r \<and> is_permutation is)"
| "wire_ok (WDef i p) = list_all seg_safe p"
| "wire_ok w = ref_ok (wire_ref w)"

lemma ok_ref_json:
  "ref_ok (Some r) \<Longrightarrow> \<exists>v. ref_json (Some r) = [v] \<and> ok_ref v = Inr r"
  by (cases r) (auto simp: path_json_def assert_safe_path_json_ok simp del: num_text.simps)

lemma with_ref_json:
  assumes "ref_ok r" "length vs = n"
  shows "with_ref msg n (ref_json r @ vs) k = k r vs"
proof (cases r)
  case None
  with assms show ?thesis by (simp add: with_ref_def)
next
  case (Some pr)
  with assms obtain v where "ref_json r = [v]" "ok_ref v = Inr pr" using ok_ref_json by blast
  with Some assms show ?thesis by (simp add: with_ref_def)
qed

lemma assert_valid_wire_op_complete: "wire_ok w \<Longrightarrow> assert_valid_wire_op (wire_json w) = Inr w"
proof (cases w)
  case (WD r)
  assume "wire_ok w"
  with WD show ?thesis
    using with_ref_json[of r "[]" 0] by (simp add: assert_valid_wire_op_def)
qed (auto simp: assert_valid_wire_op_def with_ref_json wire_text_def wire_count_def wire_items_def
    assert_permutation_iff[THEN iffD2] path_json_def assert_safe_path_json_ok)

lemma decode_loop_wire:
  "wire_ok w \<Longrightarrow> decode_loop paths prev (wire_json w # raws) =
     (case w of
         WDef i p \<Rightarrow> decode_loop ((i, p) # paths) prev raws
       | WR v \<Rightarrow> bind_res (decode_loop [] None raws) (\<lambda>(ops, paths'). Inr (OpR v # ops, paths'))
       | _ \<Rightarrow>
           bind_res (ref_path paths prev (wire_ref w)) (\<lambda>p.
           bind_res (decode_one w p) (\<lambda>op.
           bind_res (decode_loop paths (Some p) raws) (\<lambda>(ops, paths'). Inr (op # ops, paths')))))"
  by (simp add: decode_loop.simps(2) assert_valid_wire_op_complete)

declare decode_loop.simps(2) [simp del]
declare wire_json.simps [simp del]

lemma with_path_decode:
  "op_ok op \<Longrightarrow> \<not> is_replace op \<Longrightarrow> decode_one (with_path op r) (op_path op) = Inr op"
  by (cases op) (auto simp: is_replace_def)

lemma decode_loop_with_path:
  assumes "op_ok op" "\<not> is_replace op" "ref_ok r" "ref_path paths prev r = Inr (op_path op)"
  shows "decode_loop paths prev (wire_json (with_path op r) # raws) =
    bind_res (decode_loop paths (Some (op_path op)) raws) (\<lambda>(ops, paths'). Inr (op # ops, paths'))"
proof -
  have "wire_ok (with_path op r)" using assms by (cases op) auto
  moreover have "wire_ref (with_path op r) = r" using assms(2) by (cases op) (auto simp: is_replace_def)
  moreover note with_path_decode[OF assms(1,2), of r] assms
  ultimately show ?thesis
    by (cases op) (simp_all add: decode_loop_wire is_replace_def)
qed

section \<open>Round trip\<close>

lemma path_json_inj [simp]: "path_json p = path_json q \<longleftrightarrow> p = q"
proof -
  have "inj seg_json"
    by (rule injI) (metis nat_int seg_json.elims json.inject(1) prim.inject(2,3) jnum.inject(1) prim.distinct(11))
  then show ?thesis by (auto simp: path_json_def dest: map_injective)
qed

lemma key_json_path: "key_json (path_json p)"
proof -
  have "key_json (seg_json s)" for s by (cases s) auto
  then show ?thesis by (simp add: path_json_def)
qed

lemma path_key_inj [simp]: "path_key p = path_key q \<longleftrightarrow> p = q"
  by (simp add: path_key_def stringify_inj key_json_path)

text \<open>Every interned key is the key of the path the decoder has under that id.\<close>

definition codec_inv :: "enc_state \<Rightarrow> dec_state \<Rightarrow> bool" where
  "codec_inv st paths \<longleftrightarrow>
     (\<forall>key i. map_of (ids st) key = Some i \<longrightarrow>
        i < next_id st \<and> (\<exists>p. key = path_key p \<and> map_of paths i = Some p))"

lemma codec_inv_init: "codec_inv enc_init paths"
  by (simp add: codec_inv_def enc_init_def)

lemma codec_inv_seen: "codec_inv (st\<lparr>seen := ks\<rparr>) paths \<longleftrightarrow> codec_inv st paths"
  by (simp add: codec_inv_def)

lemma codec_inv_define:
  "codec_inv st paths \<Longrightarrow>
     codec_inv (st\<lparr>ids := (path_key p, next_id st) # ids st, next_id := Suc (next_id st)\<rparr>)
       ((next_id st, p) # paths)"
  by (auto simp: codec_inv_def less_Suc_eq)

lemma codec_inv_lookup:
  "codec_inv st paths \<Longrightarrow> map_of (ids st) (path_key p) = Some i \<Longrightarrow> map_of paths i = Some p"
  by (metis codec_inv_def path_key_inj)

lemma encode_loop_step:
  "\<not> is_replace op \<Longrightarrow> encode_loop st prev (op # ops) =
     (let key = path_key (op_path op) in
      if prev = Some key
      then (let (ws, st') = encode_loop st prev ops in (with_path op None # ws, st'))
      else
        (let (defs, ref, st1) = intern st (op_path op);
             (ws, st') = encode_loop st1 (Some key) ops
         in (defs @ with_path op (Some ref) # ws, st')))"
proof -
  assume "\<not> is_replace op"
  then show ?thesis by (cases op) (unfold is_replace_def, auto simp: Let_def)
qed

text \<open>
  The decoder's previous path may be anything while the encoder has none: the first operation
  of a batch names its path.
\<close>

lemma intern_decode:
  assumes "codec_inv st paths" "list_all seg_safe p" "intern st p = (defs, ref, st1)"
  shows "\<exists>paths1. codec_inv st1 paths1 \<and> ref_ok (Some ref) \<and>
    ref_path paths1 dprev (Some ref) = Inr p \<and>
    (\<forall>raws. decode_loop paths dprev (map wire_json defs @ raws) = decode_loop paths1 dprev raws)"
proof (cases "map_of (ids st) (path_key p)")
  case (Some i)
  with assms show ?thesis by (auto simp: intern_def codec_inv_lookup)
next
  case None
  show ?thesis
  proof (cases "path_key p \<in> set (seen st)")
    case True
    with None assms have d: "defs = [WDef (next_id st) p]" "ref = Ref (next_id st)"
      "st1 = st\<lparr>ids := (path_key p, next_id st) # ids st, next_id := Suc (next_id st)\<rparr>"
      by (auto simp: intern_def)
    with assms codec_inv_define[OF assms(1)] show ?thesis
      by (intro exI[of _ "(next_id st, p) # paths"])
        (simp add: decode_loop_wire)
  next
    case False
    with None assms show ?thesis by (auto simp: intern_def codec_inv_seen)
  qed
qed

lemma encode_loop_decode:
  "codec_inv st paths \<Longrightarrow> prev = None \<or> prev = map_option path_key dprev \<Longrightarrow>
     list_all op_ok ops \<Longrightarrow> encode_loop st prev ops = (ws, st') \<Longrightarrow>
     \<exists>paths'. decode_loop paths dprev (map wire_json ws) = Inr (ops, paths') \<and> codec_inv st' paths'"
proof (induction ops arbitrary: st prev paths dprev ws)
  case Nil
  then show ?case by auto
next
  case (Cons op ops)
  show ?case
  proof (cases "is_replace op")
    case True
    then obtain v where op: "op = OpR v" by (auto simp: is_replace_def split: op.splits)
    with Cons.prems obtain ws1 where ws: "ws = WR v # ws1" "encode_loop enc_init None ops = (ws1, st')"
      by (auto split: prod.splits)
    from Cons.IH[OF codec_inv_init, of None None ws1 "[]"] Cons.prems ws
    obtain paths' where "decode_loop [] None (map wire_json ws1) = Inr (ops, paths')" "codec_inv st' paths'"
      by auto
    with ws op show ?thesis by (auto simp: decode_loop_wire)
  next
    case nr: False
    let ?p = "op_path op"
    have ok: "op_ok op" "list_all op_ok ops" using Cons.prems by auto
    then have safe: "list_all seg_safe ?p" by (cases op) auto
    show ?thesis
    proof (cases "prev = Some (path_key ?p)")
      case True
      with Cons.prems have d: "dprev = Some ?p" by (cases dprev) auto
      from True nr Cons.prems(4) obtain ws1 where ws: "ws = with_path op None # ws1"
        "encode_loop st prev ops = (ws1, st')" by (auto simp: encode_loop_step split: prod.splits)
      with Cons.IH[OF Cons.prems(1,2) ok(2)] obtain paths' where
        "decode_loop paths dprev (map wire_json ws1) = Inr (ops, paths')" "codec_inv st' paths'" by blast
      with ws d ok nr show ?thesis
        by (auto simp: decode_loop_with_path)
    next
      case False
      obtain defs ref st1 where i: "intern st ?p = (defs, ref, st1)" by (cases "intern st ?p") auto
      with False nr Cons.prems(4) obtain ws1 where ws: "ws = defs @ with_path op (Some ref) # ws1"
        "encode_loop st1 (Some (path_key ?p)) ops = (ws1, st')"
        by (auto simp: encode_loop_step split: prod.splits)
      from intern_decode[OF Cons.prems(1) safe i, of dprev] obtain paths1 where
        p1: "codec_inv st1 paths1" "ref_ok (Some ref)" "ref_path paths1 dprev (Some ref) = Inr ?p"
        "\<And>raws. decode_loop paths dprev (map wire_json defs @ raws) = decode_loop paths1 dprev raws"
        by blast
      from Cons.IH[OF p1(1) _ ok(2) ws(2), of "Some ?p"] obtain paths' where
        "decode_loop paths1 (Some ?p) (map wire_json ws1) = Inr (ops, paths')" "codec_inv st' paths'"
        by auto
      with ws p1 ok nr show ?thesis
        by (auto simp: decode_loop_with_path)
    qed
  qed
qed


lemma encode_decode:
  assumes "codec_inv st paths" "list_all op_ok ops" "encode st ops = (ws, st')"
  shows "\<exists>paths'. decode_loop paths dprev (map wire_json ws) = Inr (ops, paths') \<and> codec_inv st' paths'"
  using encode_loop_decode[OF assms(1) _ assms(2), of None dprev ws st'] assms(3)
  by (simp add: encode_def)

lemma decode_stream_encode_stream:
  "codec_inv st paths \<Longrightarrow> list_all (list_all op_ok) bs \<Longrightarrow>
     decode_stream paths (encode_stream st bs) = Inr bs"
proof (induction bs arbitrary: st paths)
  case (Cons b bs)
  obtain ws st' where e: "encode st b = (ws, st')" by (cases "encode st b") auto
  with Cons.prems encode_decode[of st paths b ws st' None]
  obtain paths' where "decode paths (map wire_json ws) = Inr (b, paths')" "codec_inv st' paths'"
    by (auto simp: decode_def)
  with Cons e show ?case by simp
qed simp

lemma base_batch_resets:
  assumes "is_base b"
  shows "encode st b = encode enc_init b"
  using assms by (cases b) (auto simp: encode_def is_base_def is_replace_def split: op.splits)

lemma decode_loop_append:
  "decode_loop paths prev xs = Inr (ops, paths1) \<Longrightarrow>
     \<exists>prev1. decode_loop paths prev (xs @ ys) =
       bind_res (decode_loop paths1 prev1 ys) (\<lambda>(ops', paths'). Inr (ops @ ops', paths'))"
proof (induction paths prev xs arbitrary: ops paths1 rule: decode_loop.induct)
  case (1 paths prev)
  have "bind_res m (\<lambda>(ops', paths'). Inr ([] @ ops', paths')) = m" for m :: "(delta_error, op list \<times> dec_state) result"
    by (cases m) auto
  with 1 show ?case by (intro exI[of _ prev]) simp
next
  case (2 paths prev raw raws)
  have assoc: "bind_res (bind_res m (\<lambda>(ops', paths'). Inr (os @ ops', paths'))) (\<lambda>(ops, paths'). Inr (op # ops, paths'))
      = bind_res m (\<lambda>(ops', paths'). Inr ((op # os) @ ops', paths'))"
    for m :: "(delta_error, op list \<times> dec_state) result" and op os by (cases m) auto
  from "2.prems" obtain w where w: "assert_valid_wire_op raw = Inr w"
    by (auto simp: decode_loop.simps(2) res_simps)
  show ?case
  proof (cases "(\<exists>i p. w = WDef i p) \<or> (\<exists>v. w = WR v)")
    case True
    then show ?thesis
    proof (elim disjE exE)
      fix i p assume "w = WDef i p"
      with "2.prems" "2.IH"(8)[OF w this] w show ?thesis by (simp add: decode_loop.simps(2))
    next
      fix v assume wv: "w = WR v"
      with "2.prems" w obtain os where "decode_loop [] None raws = Inr (os, paths1)" "ops = OpR v # os"
        by (auto simp: decode_loop.simps(2) res_simps)
      with "2.IH"(1)[OF w wv] obtain prev1 where "decode_loop [] None (raws @ ys) =
          bind_res (decode_loop paths1 prev1 ys) (\<lambda>(ops', paths'). Inr (os @ ops', paths'))" by blast
      with w wv \<open>ops = _\<close> show ?thesis
        by (intro exI[of _ prev1]) (simp add: decode_loop.simps(2) assoc)
    qed
  next
    case False
    then have shape: "(case w of WDef i p \<Rightarrow> a i p | WR v \<Rightarrow> b v | _ \<Rightarrow> c) = c" for a b and c :: 'z
      by (cases w) auto
    from "2.prems" w obtain p op os where *:
      "ref_path paths prev (wire_ref w) = Inr p" "decode_one w p = Inr op"
      "decode_loop paths (Some p) raws = Inr (os, paths1)" "ops = op # os"
      by (auto simp: decode_loop.simps(2) shape res_simps)
    have "\<exists>prev1. decode_loop paths (Some p) (raws @ ys) =
        bind_res (decode_loop paths1 prev1 ys) (\<lambda>(ops', paths'). Inr (os @ ops', paths'))"
      using False "2.IH"(2-7)[OF w] * by (cases w) auto
    then obtain prev1 where "decode_loop paths (Some p) (raws @ ys) =
        bind_res (decode_loop paths1 prev1 ys) (\<lambda>(ops', paths'). Inr (os @ ops', paths'))" ..
    with w * show ?thesis
      by (intro exI[of _ prev1]) (simp add: decode_loop.simps(2) shape assoc)
  qed
qed

end
