(* ===== verification/Delta_Align.thy ===== *)
theory Delta_Align
  imports Delta_Apply
begin

text \<open>
  What the differ of \<open>packages/chord/src/delta/diff.ts\<close> compares: two revisions of an
  immutable value that may share containers. A container of a revision carries its reference,
  the object identity that \<open>===\<close> and the \<open>Map\<close> keys of the source compare; primitives are
  compared by value. The theory holds the comparisons, the binary search, and the four ways the
  differ aligns two array regions, each with the fact the differ needs of it: the matches are
  strictly increasing on both sides and stay in the region.
\<close>

section \<open>Revisions\<close>

datatype rjson = RPrim prim | RArr nat "rjson list" | RObj nat "(string \<times> rjson) list"

primrec erase :: "rjson \<Rightarrow> json" where
  "erase (RPrim p) = Prim p"
| "erase (RArr r xs) = Arr (map erase xs)"
| "erase (RObj r kvs) = Obj (map (map_prod id erase) kvs)"

datatype rid = IdPrim prim | IdRef nat

fun rid_of :: "rjson \<Rightarrow> rid" where
  "rid_of (RPrim p) = IdPrim p"
| "rid_of (RArr r _) = IdRef r"
| "rid_of (RObj r _) = IdRef r"

text \<open>\<open>===\<close>.\<close>

definition strict_eq :: "rjson \<Rightarrow> rjson \<Rightarrow> bool" where
  "strict_eq x y \<longleftrightarrow> rid_of x = rid_of y"

fun is_container :: "rjson \<Rightarrow> bool" where
  "is_container (RPrim _) = False"
| "is_container _ = True"

fun equal_json :: "rjson \<Rightarrow> rjson \<Rightarrow> bool" where
  "equal_json (RArr r xs) (RArr r' ys) =
     (r = r' \<or> list_all2 equal_json xs ys)"
| "equal_json (RObj r kvs) (RObj r' kvs') =
     (r = r' \<or> length kvs = length kvs' \<and>
        list_all (\<lambda>(k, v). case map_of kvs' k of None \<Rightarrow> False | Some v' \<Rightarrow> equal_json v v') kvs)"
| "equal_json x y = strict_eq x y"

definition same_value :: "rjson \<Rightarrow> rjson \<Rightarrow> bool" where
  "same_value x y \<longleftrightarrow> strict_eq x y \<or> equal_json x y"

section \<open>Binary search\<close>

function lower_bound_loop :: "nat list \<Rightarrow> nat \<Rightarrow> nat \<Rightarrow> nat \<Rightarrow> nat" where
  "lower_bound_loop vs v low high =
     (if low < high
      then (let middle = (low + high) div 2 in
            if vs ! middle < v then lower_bound_loop vs v (Suc middle) high
            else lower_bound_loop vs v low middle)
      else low)"
  by pat_completeness auto
termination
  by (relation "measure (\<lambda>(vs, v, low, high). high - low)") auto

declare lower_bound_loop.simps [simp del]

definition lower_bound :: "nat list \<Rightarrow> nat \<Rightarrow> nat" where
  "lower_bound vs v = lower_bound_loop vs v 0 (length vs)"

section \<open>Permutations\<close>

text \<open>A \<open>Map\<close> from a value to its positions, in the order they were met.\<close>

type_synonym positions = "(rid \<times> nat list) list"

definition add_position :: "rid \<Rightarrow> nat \<Rightarrow> positions \<Rightarrow> positions" where
  "add_position k i m =
     AList.update k (case map_of m k of None \<Rightarrow> [i] | Some is \<Rightarrow> is @ [i]) m"

definition positions_between :: "rjson list \<Rightarrow> nat \<Rightarrow> nat \<Rightarrow> positions" where
  "positions_between xs i j = fold (\<lambda>k. add_position (rid_of (xs ! k)) k) [i..<j] []"

definition positions_of :: "positions \<Rightarrow> rjson \<Rightarrow> nat list" where
  "positions_of m x = (case map_of m (rid_of x) of None \<Rightarrow> [] | Some is \<Rightarrow> is)"

text \<open>\<open>used\<close> counts the positions of each value already taken.\<close>

fun permutation_loop :: "positions \<Rightarrow> (rid \<times> nat) list \<Rightarrow> rjson list \<Rightarrow> nat list option" where
  "permutation_loop m used [] = Some []"
| "permutation_loop m used (x # xs) =
     (case map_of m (rid_of x) of
        None \<Rightarrow> None
      | Some is \<Rightarrow>
          (let u = (case map_of used (rid_of x) of None \<Rightarrow> 0 | Some u \<Rightarrow> u) in
           if u = length is then None
           else map_option ((#) (is ! u))
                  (permutation_loop m (AList.update (rid_of x) (Suc u) used) xs)))"

definition permutation :: "rjson list \<Rightarrow> rjson list \<Rightarrow> nat list option" where
  "permutation before after =
     (if length before \<noteq> length after then None
      else permutation_loop (positions_between before 0 (length before)) [] after)"

section \<open>Aligning two regions\<close>

type_synonym matches = "(nat \<times> nat) list"

definition MAX_IDENTITY_CANDIDATES :: nat where "MAX_IDENTITY_CANDIDATES = 200000"
definition MAX_SEMANTIC_CELLS :: nat where "MAX_SEMANTIC_CELLS = 65536"

definition positional_matches :: "rjson list \<Rightarrow> rjson list \<Rightarrow> nat \<Rightarrow> nat \<Rightarrow> nat \<Rightarrow> matches" where
  "positional_matches before after bs as count =
     map (\<lambda>k. (bs + k, as + k))
       (filter (\<lambda>k. same_value (before ! (bs + k)) (after ! (as + k))) [0..<count])"

subsection \<open>One side is a subsequence of the other\<close>

function skip_different :: "rjson list \<Rightarrow> rjson \<Rightarrow> nat \<Rightarrow> nat \<Rightarrow> nat" where
  "skip_different xs x i e =
     (if i < e \<and> \<not> strict_eq (xs ! i) x then skip_different xs x (Suc i) e else i)"
  by pat_completeness auto
termination
  by (relation "measure (\<lambda>(xs, x, i, e). e - i)") auto

declare skip_different.simps [simp del]

text \<open>Pairs of a position in \<open>long\<close> (from \<open>i\<close> below \<open>e\<close>) and one of the positions of \<open>short\<close>.\<close>

fun subsequence_loop :: "rjson list \<Rightarrow> nat \<Rightarrow> rjson list \<Rightarrow> nat \<Rightarrow> nat list \<Rightarrow> matches option" where
  "subsequence_loop long e short i [] = Some []"
| "subsequence_loop long e short i (j # js) =
     (let k = skip_different long (short ! j) i e in
      if k = e then None
      else map_option ((#) (k, j)) (subsequence_loop long e short (Suc k) js))"

definition identity_subsequence ::
  "rjson list \<Rightarrow> nat \<Rightarrow> nat \<Rightarrow> rjson list \<Rightarrow> nat \<Rightarrow> nat \<Rightarrow> matches option" where
  "identity_subsequence before bs be after as ae =
     (if ae - as < be - bs then subsequence_loop before be after bs [as..<ae]
      else if be - bs < ae - as
        then map_option (map prod.swap) (subsequence_loop after ae before as [bs..<be])
      else None)"

subsection \<open>Longest increasing run of identical elements\<close>

fun greedy_loop :: "positions \<Rightarrow> rjson list \<Rightarrow> nat \<Rightarrow> nat list \<Rightarrow> matches" where
  "greedy_loop m after next [] = []"
| "greedy_loop m after next (j # js) =
     (let candidates = positions_of m (after ! j); at = lower_bound candidates next in
      if at < length candidates
      then (candidates ! at, j) # greedy_loop m after (Suc (candidates ! at)) js
      else greedy_loop m after next js)"

definition greedy_identity_anchors :: "positions \<Rightarrow> rjson list \<Rightarrow> nat \<Rightarrow> nat \<Rightarrow> matches" where
  "greedy_identity_anchors m after as ae = greedy_loop m after 0 [as..<ae]"

record candidate =
  cbefore :: nat
  cafter :: nat
  cprevious :: "nat option"

text \<open>The patience state: candidates, the best candidate of each length, and its position.\<close>

record patience =
  cands :: "candidate list"
  tails :: "nat list"
  tail_values :: "nat list"

definition put_at :: "nat \<Rightarrow> 'a \<Rightarrow> 'a list \<Rightarrow> 'a list" where
  "put_at i x xs = (if i < length xs then xs[i := x] else xs @ [x])"

definition add_candidate :: "nat \<Rightarrow> nat \<Rightarrow> patience \<Rightarrow> patience" where
  "add_candidate j i st =
     (let at = lower_bound (tail_values st) i;
          c = \<lparr>cbefore = i, cafter = j, cprevious = (if at = 0 then None else Some (tails st ! (at - 1)))\<rparr>
      in \<lparr>cands = cands st @ [c], tails = put_at at (length (cands st)) (tails st),
          tail_values = put_at at i (tail_values st)\<rparr>)"

definition patience_run :: "positions \<Rightarrow> rjson list \<Rightarrow> nat list \<Rightarrow> patience" where
  "patience_run m after js =
     fold (\<lambda>j. fold (add_candidate j) (rev (positions_of m (after ! j)))) js
       \<lparr>cands = [], tails = [], tail_values = []\<rparr>"

text \<open>
  The chain of a candidate, last match first. A candidate's predecessor was pushed before it,
  so the test of \<open>j < i\<close> never fails (\<open>patience_previous\<close> below).
\<close>

function chain :: "candidate list \<Rightarrow> nat \<Rightarrow> matches" where
  "chain cs i =
     (cbefore (cs ! i), cafter (cs ! i)) #
     (case cprevious (cs ! i) of None \<Rightarrow> [] | Some j \<Rightarrow> if j < i then chain cs j else [])"
  by pat_completeness auto
termination
  by (relation "measure snd") auto

declare chain.simps [simp del]

definition candidate_count :: "positions \<Rightarrow> rjson list \<Rightarrow> nat \<Rightarrow> nat \<Rightarrow> nat" where
  "candidate_count m after as ae = sum_list (map (\<lambda>j. length (positions_of m (after ! j))) [as..<ae])"

definition identity_anchors ::
  "rjson list \<Rightarrow> nat \<Rightarrow> nat \<Rightarrow> rjson list \<Rightarrow> nat \<Rightarrow> nat \<Rightarrow> matches" where
  "identity_anchors before bs be after as ae =
     (let m = positions_between before bs be in
      if candidate_count m after as ae > MAX_IDENTITY_CANDIDATES
      then greedy_identity_anchors m after as ae
      else if candidate_count m after as ae = 0 then []
      else
        (let st = patience_run m after [as..<ae] in
         if tails st = [] then [] else rev (chain (cands st) (last (tails st)))))"

subsection \<open>Longest common subsequence\<close>

text \<open>\<open>next\<close> is the row below, from the same column on; the row is built from its end.\<close>

fun lcs_row :: "('a \<Rightarrow> 'b \<Rightarrow> bool) \<Rightarrow> 'a \<Rightarrow> 'b list \<Rightarrow> nat list \<Rightarrow> nat list" where
  "lcs_row eq x [] next = [0]"
| "lcs_row eq x (y # ys) next =
     (let rest = lcs_row eq x ys (tl next)
      in (if eq x y then Suc (next ! 1) else max (next ! 0) (rest ! 0)) # rest)"

fun lcs_table :: "('a \<Rightarrow> 'b \<Rightarrow> bool) \<Rightarrow> 'a list \<Rightarrow> 'b list \<Rightarrow> nat list list" where
  "lcs_table eq [] ys = [replicate (Suc (length ys)) 0]"
| "lcs_table eq (x # xs) ys =
     (let t = lcs_table eq xs ys in lcs_row eq x ys (hd t) # t)"

function lcs_walk :: "('a \<Rightarrow> 'b \<Rightarrow> bool) \<Rightarrow> 'a list \<Rightarrow> 'b list \<Rightarrow> nat list list \<Rightarrow> nat \<Rightarrow> nat \<Rightarrow> matches" where
  "lcs_walk eq xs ys t l r =
     (if l < length xs \<and> r < length ys then
        if eq (xs ! l) (ys ! r) \<and> t ! l ! r = Suc (t ! Suc l ! Suc r)
        then (l, r) # lcs_walk eq xs ys t (Suc l) (Suc r)
        else if t ! Suc l ! r \<ge> t ! l ! Suc r then lcs_walk eq xs ys t (Suc l) r
        else lcs_walk eq xs ys t l (Suc r)
      else [])"
  by pat_completeness auto
termination
  by (relation "measure (\<lambda>(eq, xs, ys, t, l, r). (length xs - l) + (length ys - r))") auto

declare lcs_walk.simps [simp del]

definition lcs_matches ::
  "'a list \<Rightarrow> 'b list \<Rightarrow> ('a \<Rightarrow> 'b \<Rightarrow> bool) \<Rightarrow> nat \<Rightarrow> matches option" where
  "lcs_matches before after eq max_cells =
     (if before = [] \<or> after = [] then Some []
      else if length before * length after > max_cells then None
      else Some (lcs_walk eq before after (lcs_table eq before after) 0 0))"

definition semantically_aligned :: "rjson \<Rightarrow> rjson \<Rightarrow> bool" where
  "semantically_aligned left right =
     (if same_value left right then True
      else case (left, right) of
        (RArr _ xs, RArr _ ys) \<Rightarrow>
          length xs = length ys \<and>
          list_ex (\<lambda>(x, y). is_container x \<and> strict_eq x y) (zip xs ys)
      | (RObj _ kvs, RObj _ kvs') \<Rightarrow>
          list_ex (\<lambda>(k, v). is_container v \<and>
            (case map_of kvs' k of None \<Rightarrow> False | Some v' \<Rightarrow> strict_eq v v')) kvs
      | _ \<Rightarrow> False)"

section \<open>Matches\<close>

interpretation lb: binary_search
  "\<lambda>(vs, v) low high. lower_bound_loop vs v low high" "\<lambda>(vs, v) i. vs ! i < v"
  "\<lambda>(vs, v). length vs" "\<lambda>(vs, v). sorted vs"
proof (unfold_locales, goal_cases)
  case (1 low high x)
  then show ?case by (cases x) (simp add: lower_bound_loop.simps[of _ _ low high] Let_def)
next
  case (2 low high x)
  then show ?case by (cases x) (simp add: lower_bound_loop.simps[of _ _ low high])
next
  case (3 x i j)
  then show ?case using sorted_nth_mono[of "fst x" i j] by (cases x) auto
qed

lemma lower_bound_le: "lower_bound vs v \<le> length vs"
  using lb.search_bound[of "(vs, v)"] by (simp add: lower_bound_def)

lemma lower_bound_below: "sorted vs \<Longrightarrow> i < lower_bound vs v \<Longrightarrow> vs ! i < v"
  using lb.search_below[of "(vs, v)" i] by (simp add: lower_bound_def)

lemma lower_bound_above: "sorted vs \<Longrightarrow> lower_bound vs v \<le> i \<Longrightarrow> i < length vs \<Longrightarrow> v \<le> vs ! i"
  using lb.search_above[of "(vs, v)" i] by (simp add: lower_bound_def)

fun valid_matches :: "nat \<Rightarrow> nat \<Rightarrow> nat \<Rightarrow> nat \<Rightarrow> matches \<Rightarrow> bool" where
  "valid_matches bs be as ae [] = (bs \<le> be \<and> as \<le> ae)"
| "valid_matches bs be as ae ((b, a) # ms) =
     (bs \<le> b \<and> b < be \<and> as \<le> a \<and> a < ae \<and> valid_matches (Suc b) be (Suc a) ae ms)"

text \<open>Strictly increasing pairs inside the region, the form the aligners establish.\<close>

definition increasing :: "matches \<Rightarrow> bool" where
  "increasing ms \<longleftrightarrow> sorted_wrt (\<lambda>(b, a) (b', a'). b < b' \<and> a < a') ms"

lemma valid_matches_iff:
  "valid_matches bs be as ae ms \<longleftrightarrow>
     bs \<le> be \<and> as \<le> ae \<and> increasing ms \<and> (\<forall>(b, a) \<in> set ms. bs \<le> b \<and> b < be \<and> as \<le> a \<and> a < ae)"
proof (induction ms arbitrary: bs as)
  case (Cons m ms)
  obtain b a where "m = (b, a)" by force
  with Cons show ?case by (fastforce simp: increasing_def)
qed (simp add: increasing_def)

lemma valid_matches_weaken: "valid_matches bs be as ae ms \<Longrightarrow> bs \<le> be \<and> as \<le> ae"
  by (simp add: valid_matches_iff)

lemma valid_matches_swap: "valid_matches bs be as ae (map prod.swap ms) \<longleftrightarrow> valid_matches as ae bs be ms"
  by (induction ms arbitrary: bs as) auto

text \<open>
  The interface between the differ and the aligners: whatever alignment is used, its matches
  are valid for the region, so every gap between two matches is smaller than the region.
\<close>

locale aligner =
  fixes align :: "rjson list \<Rightarrow> nat \<Rightarrow> nat \<Rightarrow> rjson list \<Rightarrow> nat \<Rightarrow> nat \<Rightarrow> matches"
  assumes align_valid:
    "bs \<le> be \<Longrightarrow> be \<le> length before \<Longrightarrow> as \<le> ae \<Longrightarrow> ae \<le> length after \<Longrightarrow>
       valid_matches bs be as ae (align before bs be after as ae)"
begin

lemma align_in_range:
  assumes "bs \<le> be" "be \<le> length before" "as \<le> ae" "ae \<le> length after"
    and "(b, a) \<in> set (align before bs be after as ae)"
  shows "bs \<le> b \<and> b < be \<and> as \<le> a \<and> a < ae"
  using align_valid[OF assms(1-4)] assms(5) by (auto simp: valid_matches_iff)

lemma align_count:
  assumes "bs \<le> be" "be \<le> length before" "as \<le> ae" "ae \<le> length after"
  shows "length (align before bs be after as ae) \<le> min (be - bs) (ae - as)"
proof -
  have "valid_matches bs be as ae ms \<Longrightarrow> length ms \<le> be - bs \<and> length ms \<le> ae - as" for ms
    by (induction ms arbitrary: bs as) force+
  with align_valid[OF assms] show ?thesis by simp
qed

end

section \<open>The alignments of the differ\<close>

definition positional_align ::
  "rjson list \<Rightarrow> nat \<Rightarrow> nat \<Rightarrow> rjson list \<Rightarrow> nat \<Rightarrow> nat \<Rightarrow> matches" where
  "positional_align before bs be after as ae =
     (if be - bs = ae - as then positional_matches before after bs as (be - bs) else [])"

definition subsequence_align ::
  "rjson list \<Rightarrow> nat \<Rightarrow> nat \<Rightarrow> rjson list \<Rightarrow> nat \<Rightarrow> nat \<Rightarrow> matches" where
  "subsequence_align before bs be after as ae =
     (case identity_subsequence before bs be after as ae of None \<Rightarrow> [] | Some ms \<Rightarrow> ms)"

definition semantic_align ::
  "rjson list \<Rightarrow> nat \<Rightarrow> nat \<Rightarrow> rjson list \<Rightarrow> nat \<Rightarrow> nat \<Rightarrow> matches" where
  "semantic_align before bs be after as ae =
     (case lcs_matches (slice before bs be) (slice after as ae) semantically_aligned MAX_SEMANTIC_CELLS of
        None \<Rightarrow> []
      | Some ms \<Rightarrow> map (\<lambda>(b, a). (bs + b, as + a)) ms)"

text \<open>The first alignment that matches anything, in the order the differ tries them.\<close>

definition region_matches ::
  "rjson list \<Rightarrow> nat \<Rightarrow> nat \<Rightarrow> rjson list \<Rightarrow> nat \<Rightarrow> nat \<Rightarrow> matches" where
  "region_matches before bs be after as ae =
     (let positional = positional_align before bs be after as ae in
      if positional \<noteq> [] then positional else
      let subsequence = subsequence_align before bs be after as ae in
      if subsequence \<noteq> [] then subsequence else
      let identity = identity_anchors before bs be after as ae in
      if identity \<noteq> [] then identity else semantic_align before bs be after as ae)"

subsection \<open>By position\<close>

lemma increasing_map_filter_upt:
  "increasing (map (\<lambda>k. (bs + k, as + k)) (filter P [0..<n]))"
proof -
  have "sorted_wrt (<) (filter P [0..<n])" by (simp add: sorted_wrt_filter)
  then show ?thesis by (simp add: increasing_def sorted_wrt_map)
qed

interpretation positional: aligner positional_align
proof
  fix before after :: "rjson list" and bs be as ae :: nat
  assume "bs \<le> be" "be \<le> length before" "as \<le> ae" "ae \<le> length after"
  then show "valid_matches bs be as ae (positional_align before bs be after as ae)"
    using increasing_map_filter_upt
    by (auto simp: valid_matches_iff positional_align_def positional_matches_def increasing_def)
qed

subsection \<open>By identity, one side inside the other\<close>

lemma skip_different_range: "i \<le> e \<Longrightarrow> i \<le> skip_different xs x i e \<and> skip_different xs x i e \<le> e"
proof (induction xs x i e rule: skip_different.induct)
  case (1 xs x i e)
  show ?case
  proof (cases "i < e \<and> \<not> strict_eq (xs ! i) x")
    case True
    with "1.IH" show ?thesis by (simp add: skip_different.simps[of xs x i e])
  next
    case False
    with "1.prems" show ?thesis by (auto simp: skip_different.simps[of xs x i e])
  qed
qed

lemma subsequence_loop_valid:
  "subsequence_loop long e short i js = Some ms \<Longrightarrow> i \<le> e \<Longrightarrow> j \<le> je \<Longrightarrow>
     sorted_wrt (<) js \<Longrightarrow> \<forall>x \<in> set js. j \<le> x \<and> x < je \<Longrightarrow> valid_matches i e j je ms"
proof (induction js arbitrary: i j ms)
  case (Cons x js)
  let ?k = "skip_different long (short ! x) i e"
  from Cons.prems obtain ns where k: "?k \<noteq> e" and
    ns: "subsequence_loop long e short (Suc ?k) js = Some ns" "ms = (?k, x) # ns"
    by (auto simp: Let_def split: if_splits)
  have r: "i \<le> ?k" "?k < e" using skip_different_range[OF Cons.prems(2), of long "short ! x"] k by auto
  have "valid_matches (Suc ?k) e (Suc x) je ns"
    by (rule Cons.IH[OF ns(1)]) (use r Cons.prems in auto)
  with r ns Cons.prems show ?case by simp
qed auto

interpretation subsequence: aligner subsequence_align
proof
  fix before after :: "rjson list" and bs be as ae :: nat
  assume r: "bs \<le> be" "be \<le> length before" "as \<le> ae" "ae \<le> length after"
  show "valid_matches bs be as ae (subsequence_align before bs be after as ae)"
  proof (cases "identity_subsequence before bs be after as ae")
    case None
    with r show ?thesis by (simp add: subsequence_align_def)
  next
    case (Some ms)
    then consider "subsequence_loop before be after bs [as..<ae] = Some ms"
      | ns where "subsequence_loop after ae before as [bs..<be] = Some ns" "ms = map prod.swap ns"
      by (auto simp: identity_subsequence_def split: if_splits)
    then have "valid_matches bs be as ae ms"
    proof cases
      case 1
      then show ?thesis by (rule subsequence_loop_valid) (use r in auto)
    next
      case 2
      have "valid_matches as ae bs be ns"
        using 2(1) by (rule subsequence_loop_valid) (use r in auto)
      with 2 show ?thesis by (simp add: valid_matches_swap)
    qed
    with Some show ?thesis by (simp add: subsequence_align_def)
  qed
qed

subsection \<open>By the longest common subsequence\<close>

lemma lcs_walk_valid:
  "l \<le> length xs \<Longrightarrow> r \<le> length ys \<Longrightarrow>
     valid_matches l (length xs) r (length ys) (lcs_walk eq xs ys t l r)"
proof (induction eq xs ys t l r rule: lcs_walk.induct)
  case (1 eq xs ys t l r)
  have weaken: "valid_matches l m r n ms" if "valid_matches l' m r' n ms" "l \<le> l'" "r \<le> r'" for l' r' m n ms
    using that by (cases ms) auto
  show ?case
  proof (cases "l < length xs \<and> r < length ys")
    case True
    with "1.IH" "1.prems" show ?thesis
      by (subst lcs_walk.simps) (auto intro: weaken)
  next
    case False
    with "1.prems" show ?thesis by (subst lcs_walk.simps) auto
  qed
qed

lemma lcs_matches_valid:
  "lcs_matches xs ys eq n = Some ms \<Longrightarrow> valid_matches 0 (length xs) 0 (length ys) ms"
  using lcs_walk_valid[of 0 xs 0 ys] by (auto simp: lcs_matches_def split: if_splits)

lemma valid_matches_shift:
  "valid_matches bs be as ae ms \<Longrightarrow>
     valid_matches (m + bs) (m + be) (n + as) (n + ae) (map (\<lambda>(b, a). (m + b, n + a)) ms)"
proof (induction ms arbitrary: bs as)
  case (Cons x ms)
  obtain b a where x: "x = (b, a)" by force
  with Cons.prems Cons.IH[of "Suc b" "Suc a"] show ?case by simp
qed simp

interpretation semantic: aligner semantic_align
proof
  fix before after :: "rjson list" and bs be as ae :: nat
  assume r: "bs \<le> be" "be \<le> length before" "as \<le> ae" "ae \<le> length after"
  show "valid_matches bs be as ae (semantic_align before bs be after as ae)"
  proof (cases "lcs_matches (slice before bs be) (slice after as ae) semantically_aligned MAX_SEMANTIC_CELLS")
    case None
    with r show ?thesis by (simp add: semantic_align_def)
  next
    case (Some ms)
    from lcs_matches_valid[OF Some] r have "valid_matches 0 (be - bs) 0 (ae - as) ms" by simp
    from valid_matches_shift[OF this, of bs as] Some r show ?thesis by (simp add: semantic_align_def)
  qed
qed

subsection \<open>By the longest increasing run of identical elements\<close>

lemma map_of_add_position:
  "map_of (add_position k i m) k' =
     (if k' = k then Some ((case map_of m k of None \<Rightarrow> [] | Some is \<Rightarrow> is) @ [i]) else map_of m k')"
  by (auto simp: add_position_def update_conv split: option.splits)

text \<open>The positions of a value are those of the region that hold it, ascending.\<close>

lemma positions_between_lookup:
  "map_of (positions_between xs i j) k =
     (let is = filter (\<lambda>n. rid_of (xs ! n) = k) [i..<j] in if is = [] then None else Some is)"
proof (induction j)
  case (Suc j)
  show ?case
  proof (cases "i \<le> j")
    case True
    then have "positions_between xs i (Suc j) =
        add_position (rid_of (xs ! j)) j (positions_between xs i j)"
      by (simp add: positions_between_def)
    with Suc True show ?thesis by (auto simp: map_of_add_position Let_def)
  qed (simp add: positions_between_def)
qed (simp add: positions_between_def)

lemma positions_of_between:
  "positions_of (positions_between xs i j) x = filter (\<lambda>n. rid_of (xs ! n) = rid_of x) [i..<j]"
  by (simp add: positions_of_def positions_between_lookup Let_def)

lemma greedy_loop_valid:
  "bs \<le> be \<Longrightarrow> next \<le> be \<Longrightarrow> j \<le> je \<Longrightarrow> sorted_wrt (<) js \<Longrightarrow> \<forall>x \<in> set js. j \<le> x \<and> x < je \<Longrightarrow>
     valid_matches (max next bs) be j je (greedy_loop (positions_between before bs be) after next js)"
proof (induction js arbitrary: "next" j)
  case (Cons x js)
  let ?c = "positions_of (positions_between before bs be) (after ! x)"
  let ?at = "lower_bound ?c next"
  have sorted: "sorted ?c" by (simp add: positions_of_between sorted_wrt_filter)
  show ?case
  proof (cases "?at < length ?c")
    case True
    have "next \<le> ?c ! ?at" using lower_bound_above[OF sorted order_refl True] .
    moreover have "?c ! ?at \<in> set ?c" using True by (rule nth_mem)
    then have "bs \<le> ?c ! ?at" "?c ! ?at < be" by (auto simp: positions_of_between)
    moreover from this have "valid_matches (max (Suc (?c ! ?at)) bs) be (Suc x) je
        (greedy_loop (positions_between before bs be) after (Suc (?c ! ?at)) js)"
      by (intro Cons.IH) (use Cons.prems in auto)
    ultimately show ?thesis using True Cons.prems by (simp add: Let_def max_absorb1)
  next
    case False
    have "valid_matches (max next bs) be j je (greedy_loop (positions_between before bs be) after next js)"
      by (rule Cons.IH) (use Cons.prems in auto)
    with False show ?thesis by (simp add: Let_def)
  qed
qed simp

text \<open>
  The patience invariant while the pairs of row \<open>j\<close> are pushed by descending position, those
  from \<open>limit\<close> on being done.
\<close>

definition cand_ok :: "candidate list \<Rightarrow> nat \<Rightarrow> bool" where
  "cand_ok cs c \<longleftrightarrow>
     (case cprevious (cs ! c) of
        None \<Rightarrow> True
      | Some p \<Rightarrow> p < c \<and> cbefore (cs ! p) < cbefore (cs ! c) \<and> cafter (cs ! p) < cafter (cs ! c))"

definition patience_inv :: "nat \<Rightarrow> nat \<Rightarrow> nat \<Rightarrow> nat \<Rightarrow> nat \<Rightarrow> patience \<Rightarrow> bool" where
  "patience_inv bs be as j limit st \<longleftrightarrow>
     length (tails st) = length (tail_values st) \<and>
     sorted_wrt (<) (tail_values st) \<and>
     (\<forall>k < length (tails st). tails st ! k < length (cands st) \<and>
        cbefore (cands st ! (tails st ! k)) = tail_values st ! k) \<and>
     (\<forall>c < length (cands st). cand_ok (cands st) c \<and>
        bs \<le> cbefore (cands st ! c) \<and> cbefore (cands st ! c) < be \<and>
        as \<le> cafter (cands st ! c) \<and> cafter (cands st ! c) \<le> j \<and>
        (cafter (cands st ! c) = j \<longrightarrow> limit \<le> cbefore (cands st ! c)))"

lemma put_at_nth: "at \<le> length xs \<Longrightarrow> put_at at x xs ! k = (if k = at then x else xs ! k)"
  if "k < length (put_at at x xs)"
  using that by (auto simp: put_at_def nth_append)

lemma length_put_at [simp]: "length (put_at at x xs) = (if at < length xs then length xs else Suc (length xs))"
  by (simp add: put_at_def)

lemma sorted_put_at:
  assumes "sorted_wrt (<) vs" and at: "at = lower_bound vs (v :: nat)"
  shows "sorted_wrt (<) (put_at at v vs)"
proof -
  have s: "sorted vs" using assms(1) by (simp add: strict_sorted_imp_sorted)
  have le: "at \<le> length vs" by (simp add: at lower_bound_le)
  have "put_at at v vs ! k < put_at at v vs ! l" if "k < l" "l < length (put_at at v vs)" for k l
  proof -
    have vs: "vs ! k < vs ! l" if "l < length vs" using assms(1) \<open>k < l\<close> that by (simp add: sorted_wrt_nth_less)
    have "vs ! k < v" if "k < at" using lower_bound_below[OF s] that by (simp add: at)
    moreover have "v \<le> vs ! at" if "at < length vs" using lower_bound_above[OF s, of v at] that by (simp add: at)
    ultimately show ?thesis
      using that vs le put_at_nth[OF _ le, of k v] put_at_nth[OF _ le, of l v] assms(1)
      by (auto simp: sorted_wrt_nth_less split: if_splits) (metis le_less_trans sorted_wrt_nth_less)
  qed
  then show ?thesis by (simp add: sorted_wrt_iff_nth_less)
qed

lemma add_candidate_inv:
  assumes inv: "patience_inv bs be as j limit st" and i: "i < limit" "bs \<le> i" "i < be" and j: "as \<le> j"
  shows "patience_inv bs be as j i (add_candidate j i st)"
proof -
  define at where "at = lower_bound (tail_values st) i"
  define c where "c = \<lparr>cbefore = i, cafter = j, cprevious = (if at = 0 then None else Some (tails st ! (at - 1)))\<rparr>"
  have st': "add_candidate j i st = \<lparr>cands = cands st @ [c], tails = put_at at (length (cands st)) (tails st),
      tail_values = put_at at i (tail_values st)\<rparr>"
    by (simp add: add_candidate_def at_def c_def Let_def)
  have len: "length (tails st) = length (tail_values st)" and sorted: "sorted_wrt (<) (tail_values st)"
    using inv by (auto simp: patience_inv_def)
  have tail: "tails st ! k < length (cands st)" "cbefore (cands st ! (tails st ! k)) = tail_values st ! k"
    if "k < length (tails st)" for k using inv that by (auto simp: patience_inv_def)
  have old: "cand_ok (cands st) n \<and> bs \<le> cbefore (cands st ! n) \<and> cbefore (cands st ! n) < be \<and>
      as \<le> cafter (cands st ! n) \<and> cafter (cands st ! n) \<le> j \<and>
      (cafter (cands st ! n) = j \<longrightarrow> limit \<le> cbefore (cands st ! n))" if "n < length (cands st)" for n
    using inv that by (auto simp: patience_inv_def)
  have above: "i \<le> cbefore (cands st ! n)" if "n < length (cands st)" "cafter (cands st ! n) = j" for n
    using old[OF that(1)] that(2) i(1) by linarith
  have le: "at \<le> length (tail_values st)" by (simp add: at_def lower_bound_le)
  have ok_new: "cand_ok (cands st @ [c]) (length (cands st))"
  proof (cases "at = 0")
    case True
    then show ?thesis by (simp add: cand_ok_def c_def)
  next
    case False
    then have k: "at - 1 < length (tails st)" using le len by linarith
    have "tail_values st ! (at - 1) < i"
      using lower_bound_below[of "tail_values st" "at - 1" i] sorted False
      by (simp add: at_def strict_sorted_imp_sorted)
    with tail[OF k] old[OF tail(1)[OF k]] i(1) False show ?thesis
      by (auto simp: cand_ok_def c_def nth_append)
  qed
  have ok_old: "cand_ok (cands st @ [c]) n" if "n < length (cands st)" for n
    using old[OF that] that by (auto simp: cand_ok_def nth_append split: option.splits)
  show ?thesis
    unfolding patience_inv_def st' patience.simps
  proof (intro conjI allI impI, goal_cases)
    case 1
    then show ?case using len by simp
  next
    case 2
    then show ?case by (rule sorted_put_at[OF sorted at_def])
  next
    case (3 k)
    then show ?case using tail[of k] len le by (auto simp: put_at_nth split: if_splits)
  next
    case (4 k)
    then show ?case using tail[of k] len le
      by (auto simp: put_at_nth nth_append c_def split: if_splits)
  next
    case (5 n)
    then show ?case using ok_old ok_new by (auto simp: less_Suc_eq)
  next
    case (10 n)
    then show ?case using above by (simp add: nth_append c_def less_Suc_eq split: if_splits)
  qed (use old i j in \<open>auto simp: nth_append c_def less_Suc_eq split: if_splits\<close>)
qed

lemma patience_row:
  assumes "patience_inv bs be as j limit st" "sorted_wrt (>) is"
    and "\<forall>i \<in> set is. bs \<le> i \<and> i < be \<and> i < limit" "as \<le> j"
  shows "\<exists>limit'. patience_inv bs be as j limit' (fold (add_candidate j) is st)"
  using assms
proof (induction "is" arbitrary: limit st)
  case (Cons i "is")
  have "patience_inv bs be as j i (add_candidate j i st)"
    by (rule add_candidate_inv) (use Cons.prems in auto)
  from Cons.IH[OF this] Cons.prems show ?case by auto
qed auto

lemma patience_next_row:
  "patience_inv bs be as j limit st \<Longrightarrow> j < j' \<Longrightarrow> patience_inv bs be as j' limit' st"
  by (fastforce simp: patience_inv_def)

lemma patience_rows:
  assumes "\<exists>j0 limit. (j0 < hd js \<or> cands st = []) \<and> patience_inv bs be as j0 limit st" "js \<noteq> []"
    and "sorted_wrt (<) js" "\<forall>j \<in> set js. as \<le> j \<and> j < ae"
  shows "\<exists>j1 limit. j1 < ae \<and> patience_inv bs be as j1 limit
    (fold (\<lambda>j. fold (add_candidate j) (rev (positions_of (positions_between before bs be) (after ! j)))) js st)"
  using assms
proof (induction js arbitrary: st)
  case (Cons j js)
  let ?is = "rev (positions_of (positions_between before bs be) (after ! j))"
  let ?st = "fold (add_candidate j) ?is st"
  from Cons.prems(1) obtain j0 limit where inv: "j0 < j \<or> cands st = []" "patience_inv bs be as j0 limit st"
    by auto
  have "patience_inv bs be as j be st"
    using inv(1)
  proof (rule disjE)
    assume "cands st = []"
    with inv(2) show ?thesis by (auto simp: patience_inv_def)
  qed (rule patience_next_row[OF inv(2)])
  then have "\<exists>limit. patience_inv bs be as j limit ?st"
  proof (rule patience_row)
    show "sorted_wrt (>) ?is" by (simp add: positions_of_between sorted_wrt_rev sorted_wrt_filter)
    show "\<forall>i \<in> set ?is. bs \<le> i \<and> i < be \<and> i < be" by (simp add: positions_of_between)
    show "as \<le> j" using Cons.prems by simp
  qed
  then obtain limit1 where inv1: "patience_inv bs be as j limit1 ?st" ..
  show ?case
  proof (cases "js = []")
    case True
    with inv1 Cons.prems show ?thesis by auto
  next
    case False
    with Cons.prems have "j < hd js" by (cases js) auto
    with inv1 have "\<exists>j0 limit. (j0 < hd js \<or> cands ?st = []) \<and> patience_inv bs be as j0 limit ?st" by blast
    from Cons.IH[OF this False] Cons.prems show ?thesis by auto
  qed
qed auto

lemma patience_init: "patience_inv bs be as 0 0 \<lparr>cands = [], tails = [], tail_values = []\<rparr>"
  by (simp add: patience_inv_def)

lemma patience_run_inv:
  assumes "as < ae"
  shows "\<exists>j limit. j < ae \<and> patience_inv bs be as j limit (patience_run (positions_between before bs be) after [as..<ae])"
  unfolding patience_run_def
  by (rule patience_rows) (use assms patience_init in \<open>auto simp: exI[of _ 0]\<close>)

text \<open>A candidate's predecessor was pushed before it.\<close>

lemma patience_previous:
  "patience_inv bs be as j limit st \<Longrightarrow> c < length (cands st) \<Longrightarrow>
     cprevious (cands st ! c) = Some p \<Longrightarrow> p < c"
  by (auto simp: patience_inv_def cand_ok_def)

lemma chain_valid:
  assumes inv: "patience_inv bs be as j limit st"
  shows "c < length (cands st) \<Longrightarrow>
    increasing (rev (chain (cands st) c)) \<and>
    (\<forall>(b, a) \<in> set (chain (cands st) c). bs \<le> b \<and> b \<le> cbefore (cands st ! c) \<and> as \<le> a \<and> a \<le> cafter (cands st ! c))"
proof (induction c rule: less_induct)
  case (less c)
  have ok: "cand_ok (cands st) c" "bs \<le> cbefore (cands st ! c)" "as \<le> cafter (cands st ! c)"
    using inv less.prems by (auto simp: patience_inv_def)
  show ?case
  proof (cases "cprevious (cands st ! c)")
    case None
    with ok show ?thesis by (simp add: chain.simps[of _ c] increasing_def)
  next
    case (Some p)
    with ok have p: "p < c" "cbefore (cands st ! p) < cbefore (cands st ! c)"
      "cafter (cands st ! p) < cafter (cands st ! c)" by (auto simp: cand_ok_def)
    with less.IH[OF p(1)] less.prems have
      IH: "increasing (rev (chain (cands st) p))"
      "\<forall>(b, a) \<in> set (chain (cands st) p). bs \<le> b \<and> b \<le> cbefore (cands st ! p) \<and> as \<le> a \<and> a \<le> cafter (cands st ! p)"
      by auto
    have "chain (cands st) c = (cbefore (cands st ! c), cafter (cands st ! c)) # chain (cands st) p"
      using Some p by (simp add: chain.simps[of _ c])
    with IH p ok show ?thesis
      by (fastforce simp: increasing_def sorted_wrt_append)
  qed
qed

interpretation identity: aligner identity_anchors
proof
  fix before after :: "rjson list" and bs be as ae :: nat
  assume r: "bs \<le> be" "be \<le> length before" "as \<le> ae" "ae \<le> length after"
  let ?m = "positions_between before bs be"
  let ?st = "patience_run ?m after [as..<ae]"
  show "valid_matches bs be as ae (identity_anchors before bs be after as ae)"
  proof (cases "candidate_count ?m after as ae > MAX_IDENTITY_CANDIDATES \<or>
      candidate_count ?m after as ae = 0 \<or> tails ?st = []")
    case True
    then show ?thesis
      using r greedy_loop_valid[of bs be 0 as ae "[as..<ae]" before after]
      by (auto simp: identity_anchors_def greedy_identity_anchors_def Let_def)
  next
    case False
    then have "as < ae" by (auto simp: candidate_count_def intro: ccontr)
    then obtain j limit where inv: "j < ae" "patience_inv bs be as j limit ?st"
      using patience_run_inv by blast
    let ?c = "last (tails ?st)"
    have "length (tails ?st) - 1 < length (tails ?st)" using False by simp
    with inv(2) False have c: "?c < length (cands ?st)"
      by (simp add: patience_inv_def last_conv_nth)
    with inv have "cbefore (cands ?st ! ?c) < be" "cafter (cands ?st ! ?c) < ae"
      by (auto simp: patience_inv_def)
    with chain_valid[OF inv(2) c] r have "valid_matches bs be as ae (rev (chain (cands ?st) ?c))"
      by (fastforce simp: valid_matches_iff)
    with False show ?thesis by (simp add: identity_anchors_def Let_def)
  qed
qed

interpretation region: aligner region_matches
  using positional.align_valid subsequence.align_valid identity.align_valid semantic.align_valid
  by unfold_locales (simp add: region_matches_def Let_def)

section \<open>Comparisons agree with the documents\<close>

abbreviation absr :: "rjson \<Rightarrow> jval" where
  "absr x \<equiv> absj (erase x)"

primrec subvalues :: "rjson \<Rightarrow> rjson list" where
  "subvalues (RPrim p) = [RPrim p]"
| "subvalues (RArr r xs) = RArr r xs # concat (map subvalues xs)"
| "subvalues (RObj r kvs) = RObj r kvs # concat (map snd (map (map_prod id subvalues) kvs))"

text \<open>
  What immutability gives of the revisions a differ is handed: one reference, one content
  (containers are never changed after they are shared), and each property once per object.
\<close>

definition coherent :: "rjson list \<Rightarrow> bool" where
  "coherent vs \<longleftrightarrow>
     list_all (\<lambda>x. wf_json (erase x)) vs \<and>
     (\<forall>x \<in> set vs. \<forall>y \<in> set vs. rid_of x = rid_of y \<longrightarrow> absr x = absr y)"

definition coherent_revisions :: "rjson \<Rightarrow> rjson \<Rightarrow> bool" where
  "coherent_revisions before after \<longleftrightarrow> coherent (subvalues before @ subvalues after)"

definition closed_under_children :: "rjson set \<Rightarrow> bool" where
  "closed_under_children U \<longleftrightarrow>
     (\<forall>r xs. RArr r xs \<in> U \<longrightarrow> set xs \<subseteq> U) \<and> (\<forall>r kvs. RObj r kvs \<in> U \<longrightarrow> snd ` set kvs \<subseteq> U)"

definition universe :: "rjson set \<Rightarrow> bool" where
  "universe U \<longleftrightarrow> closed_under_children U \<and> (\<forall>x \<in> U. wf_json (erase x)) \<and>
     (\<forall>x \<in> U. \<forall>y \<in> U. rid_of x = rid_of y \<longrightarrow> absr x = absr y)"

lemma self_subvalue: "x \<in> set (subvalues x)"
  by (cases x) auto

fun children :: "rjson \<Rightarrow> rjson list" where
  "children (RPrim p) = []"
| "children (RArr r xs) = xs"
| "children (RObj r kvs) = map snd kvs"

lemma closed_iff: "closed_under_children U \<longleftrightarrow> (\<forall>x \<in> U. set (children x) \<subseteq> U)"
  unfolding closed_under_children_def by (metis children.simps rjson.exhaust empty_set empty_subsetI set_map)

lemma closed_insert: "closed_under_children V \<Longrightarrow> set (children x) \<subseteq> V \<Longrightarrow> closed_under_children (insert x V)"
  by (auto simp: closed_iff)

lemma closed_UN: "(\<And>c. c \<in> C \<Longrightarrow> closed_under_children (S c)) \<Longrightarrow> closed_under_children (\<Union>c \<in> C. S c)"
  by (simp add: closed_iff) blast

lemma closed_Un: "closed_under_children U \<Longrightarrow> closed_under_children V \<Longrightarrow> closed_under_children (U \<union> V)"
  by (simp add: closed_iff) blast

lemma subvalues_children: "set (subvalues x) = insert x (\<Union>c \<in> set (children x). set (subvalues c))"
  by (cases x) (auto simp: image_image)

lemma closed_subvalues: "closed_under_children (set (subvalues x))"
proof (induction x rule: measure_induct_rule[of size])
  case (less x)
  have "size c < size x" if "c \<in> set (children x)" for c
  proof (cases x)
    case (RArr r xs)
    with that show ?thesis by (auto intro!: le_imp_less_Suc size_list_estimation'[of c])
  next
    case (RObj r kvs)
    with that obtain k where "(k, c) \<in> set kvs" by auto
    then have "size_prod (\<lambda>x. 0) size (k, c) \<le> size_list (size_prod (\<lambda>x. 0) size) kvs"
      by (intro size_list_estimation'[of "(k, c)"]) auto
    with RObj show ?thesis by simp
  qed (use that in simp)
  with less have "closed_under_children (\<Union>c \<in> set (children x). set (subvalues c))"
    by (intro closed_UN) blast
  then show ?case
    unfolding subvalues_children[of x]
    by (rule closed_insert) (use self_subvalue in blast)
qed

lemma coherent_universe:
  "coherent_revisions before after \<Longrightarrow> universe (set (subvalues before) \<union> set (subvalues after))"
  using closed_Un[OF closed_subvalues[of before] closed_subvalues[of after]]
  by (simp only: universe_def coherent_revisions_def coherent_def list_all_iff set_append)

lemma universe_arr: "universe U \<Longrightarrow> RArr r xs \<in> U \<Longrightarrow> x \<in> set xs \<Longrightarrow> x \<in> U"
  by (auto simp: universe_def closed_under_children_def)

lemma universe_obj: "universe U \<Longrightarrow> RObj r kvs \<in> U \<Longrightarrow> map_of kvs k = Some v \<Longrightarrow> v \<in> U"
  by (fastforce simp: universe_def closed_under_children_def dest: map_of_SomeD)

lemma universe_eq: "universe U \<Longrightarrow> x \<in> U \<Longrightarrow> y \<in> U \<Longrightarrow> strict_eq x y \<Longrightarrow> absr x = absr y"
  unfolding universe_def strict_eq_def by blast

lemma universe_distinct: "universe U \<Longrightarrow> RObj r kvs \<in> U \<Longrightarrow> distinct (map fst kvs)"
  by (force simp: universe_def)

lemma absr_obj: "absr (RObj r kvs) = VObj (\<lambda>k. map_option absr (map_of kvs k))"
  by (simp add: fun_eq_iff map_of_map_prod_id option.map_comp comp_def)

lemma map_of_same_keys:
  assumes "distinct (map fst kvs)" "distinct (map fst kvs')" "length kvs = length kvs'"
    and "\<And>k v. map_of kvs k = Some v \<Longrightarrow> \<exists>v'. map_of kvs' k = Some v' \<and> f v = f v'"
  shows "map_option f (map_of kvs k) = map_option f (map_of kvs' k)"
proof (cases "map_of kvs k")
  case (Some v)
  with assms(4)[of k v] show ?thesis by auto
next
  case None
  have "dom (map_of kvs) \<subseteq> dom (map_of kvs')" using assms(4) by blast
  moreover have "card (dom (map_of kvs)) = card (dom (map_of kvs'))"
    using assms(1-3) distinct_card[of "map fst kvs"] distinct_card[of "map fst kvs'"]
    by (simp add: dom_map_of_conv_image_fst)
  ultimately have "dom (map_of kvs) = dom (map_of kvs')"
    by (simp add: card_subset_eq finite_dom_map_of)
  with None have "map_of kvs' k = None" by (metis domIff)
  with None show ?thesis by simp
qed

lemma equal_json_absr:
  "universe U \<Longrightarrow> equal_json x y \<Longrightarrow> x \<in> U \<Longrightarrow> y \<in> U \<Longrightarrow> absr x = absr y"
proof (induction x y rule: equal_json.induct)
  case (1 r xs r' ys)
  show ?case
  proof (cases "r = r'")
    case True
    with 1 show ?thesis using universe_eq[of U "RArr r xs" "RArr r' ys"] by (simp add: strict_eq_def)
  next
    case False
    with 1 have all: "list_all2 equal_json xs ys" by simp
    then have len: "length xs = length ys" by (rule list_all2_lengthD)
    moreover have "absr (xs ! k) = absr (ys ! k)" if k: "k < length xs" for k
    proof (rule "1.IH")
      show "xs ! k \<in> set xs" "ys ! k \<in> set ys" using k len by auto
      then show "xs ! k \<in> U" "ys ! k \<in> U" using "1.prems" universe_arr by blast+
    qed (use False k "1.prems" list_all2_nthD[OF all] in auto)
    ultimately have "map absr xs = map absr ys" by (auto intro: nth_equalityI)
    then show ?thesis by (simp add: comp_def)
  qed
next
  case (2 r kvs r' kvs')
  show ?case
  proof (cases "r = r'")
    case True
    with 2 show ?thesis using universe_eq[of U "RObj r kvs" "RObj r' kvs'"] by (simp add: strict_eq_def)
  next
    case False
    with 2 have all: "length kvs = length kvs'"
      "\<And>k v. (k, v) \<in> set kvs \<Longrightarrow> (case map_of kvs' k of None \<Rightarrow> False | Some v' \<Rightarrow> equal_json v v')"
      by (auto simp: list_all_iff)
    have "map_option absr (map_of kvs k) = map_option absr (map_of kvs' k)" for k
    proof (rule map_of_same_keys)
      fix k v assume v: "map_of kvs k = Some v"
      then have "(k, v) \<in> set kvs" by (rule map_of_SomeD)
      with all(2)[of k v] obtain v' where v': "map_of kvs' k = Some v'" "equal_json v v'"
        by (auto split: option.splits)
      from universe_obj[OF "2.prems"(1,3) v] universe_obj[OF "2.prems"(1,4) v'(1)]
      have "v \<in> U" "v' \<in> U" .
      with "2.IH" False all(1) \<open>(k, v) \<in> set kvs\<close> v' "2.prems"(1) have "absr v = absr v'" by blast
      with v' show "\<exists>v'. map_of kvs' k = Some v' \<and> absr v = absr v'" by blast
    qed (use all universe_distinct "2.prems" in blast)+
    then show ?thesis by (simp only: absr_obj)
  qed
qed (auto dest: universe_eq)

lemma same_value_absr:
  "universe U \<Longrightarrow> x \<in> U \<Longrightarrow> y \<in> U \<Longrightarrow> same_value x y \<Longrightarrow> absr x = absr y"
  by (auto simp: same_value_def dest: universe_eq equal_json_absr)

section \<open>Permutations\<close>

definition used_count :: "(rid \<times> nat) list \<Rightarrow> rid \<Rightarrow> nat" where
  "used_count used k = (case map_of used k of None \<Rightarrow> 0 | Some u \<Rightarrow> u)"

lemma used_count_update: "used_count (AList.update k u used) k' = (if k' = k then u else used_count used k')"
  by (simp add: used_count_def update_conv)

lemma permutation_loop_spec:
  fixes before :: "rjson list"
  defines "P \<equiv> \<lambda>k. filter (\<lambda>n. rid_of (before ! n) = k) [0..<length before]"
  shows "permutation_loop (positions_between before 0 (length before)) used xs = Some is \<Longrightarrow>
    (\<forall>k. used_count used k \<le> length (P k)) \<Longrightarrow>
    length is = length xs \<and> distinct is \<and>
    (\<forall>n < length xs. is ! n < length before \<and> rid_of (before ! (is ! n)) = rid_of (xs ! n)) \<and>
    (\<forall>i \<in> set is. \<exists>u < length (P (rid_of (before ! i))).
       used_count used (rid_of (before ! i)) \<le> u \<and> P (rid_of (before ! i)) ! u = i)"
proof (induction xs arbitrary: used "is")
  case (Cons x xs)
  let ?k = "rid_of x"
  let ?u = "used_count used ?k"
  from Cons.prems obtain js where js: "?u \<noteq> length (P ?k)" "P ?k \<noteq> []" "is = P ?k ! ?u # js"
    "permutation_loop (positions_between before 0 (length before)) (AList.update ?k (Suc ?u) used) xs = Some js"
    by (auto simp: positions_between_lookup Let_def used_count_def P_def split: option.splits if_splits)
  have True: "?u < length (P ?k)" using js(1) Cons.prems(2) by (metis le_neq_implies_less)
  let ?i = "P ?k ! ?u"
  have "?i \<in> set (P ?k)" using True by (rule nth_mem)
  then have i: "?i < length before" "rid_of (before ! ?i) = ?k" by (auto simp: P_def)
  have "distinct (P ?k)" by (simp add: P_def)
  have "\<forall>k. used_count (AList.update ?k (Suc ?u) used) k \<le> length (P k)"
    using Cons.prems(2) True by (simp add: used_count_update)
  note IH = Cons.IH[OF js(4) this]
  have "?i \<notin> set js"
  proof
    assume "?i \<in> set js"
    with IH i obtain v where "v < length (P ?k)" "Suc ?u \<le> v" "P ?k ! v = ?i"
      by (fastforce simp: used_count_update)
    with \<open>distinct (P ?k)\<close> True show False by (simp add: nth_eq_iff_index_eq)
  qed
  moreover have "\<exists>u < length (P (rid_of (before ! j))). used_count used (rid_of (before ! j)) \<le> u \<and>
      P (rid_of (before ! j)) ! u = j" if "j \<in> set js" for j
  proof -
    from IH that obtain v where v: "v < length (P (rid_of (before ! j)))" "P (rid_of (before ! j)) ! v = j"
      "used_count (AList.update ?k (Suc ?u) used) (rid_of (before ! j)) \<le> v" by blast
    then have "used_count used (rid_of (before ! j)) \<le> v" by (auto simp: used_count_update split: if_splits)
    with v show ?thesis by blast
  qed
  ultimately show ?case using IH i True js(3) by (auto simp: nth_Cons split: nat.splits)
qed simp

lemma permutation_spec:
  assumes "permutation before after = Some is"
  shows "is_permutation is" "length is = length before" "length before = length after"
    "\<forall>n < length after. rid_of (before ! (is ! n)) = rid_of (after ! n)"
proof -
  from assms have len: "length before = length after"
    and loop: "permutation_loop (positions_between before 0 (length before)) [] after = Some is"
    by (auto simp: permutation_def split: if_splits)
  note spec = permutation_loop_spec[OF loop]
  have "\<forall>k. used_count [] k \<le> n" for n by (simp add: used_count_def)
  with spec have *: "length is = length after" "distinct is"
    "\<forall>n < length after. is ! n < length before \<and> rid_of (before ! (is ! n)) = rid_of (after ! n)"
    by blast+
  with len show "is_permutation is" by (auto simp: is_permutation_def in_set_conv_nth)
  show "length is = length before" "length before = length after"
    "\<forall>n < length after. rid_of (before ! (is ! n)) = rid_of (after ! n)" using * len by auto
qed

lemma permuted_absr:
  assumes U: "universe U" "set before \<subseteq> U" "set after \<subseteq> U" and p: "permutation before after = Some is"
  shows "map (\<lambda>i. map absr before ! i) is = map absr after"
proof (rule nth_equalityI)
  note spec = permutation_spec[OF p]
  show "length (map (\<lambda>i. map absr before ! i) is) = length (map absr after)" using spec by simp
  fix n assume "n < length (map (\<lambda>i. map absr before ! i) is)"
  then have n: "n < length is" "n < length after" using spec by auto
  then have "is ! n < length before" using spec by (auto simp: is_permutation_def)
  moreover have "absr (before ! (is ! n)) = absr (after ! n)"
  proof (rule universe_eq[OF U(1)])
    show "before ! (is ! n) \<in> U" using U(2) calculation by (meson nth_mem subsetD)
    show "after ! n \<in> U" using U(3) n by (meson nth_mem subsetD)
    show "strict_eq (before ! (is ! n)) (after ! n)" using spec n by (simp add: strict_eq_def)
  qed
  ultimately show "map (\<lambda>i. map absr before ! i) is ! n = map absr after ! n" using n by simp
qed

end
