(* ===== verification/Delta_Diff.thy ===== *)
theory Delta_Diff
  imports Delta_Align
begin

text \<open>
  The differ: \<open>overlap\<close> (\<open>packages/chord/src/delta/index.ts\<close>) and \<open>diffRevisions\<close> with
  everything below it (\<open>packages/chord/src/delta/diff.ts\<close>). The mutually recursive
  functions of the source carry fuel; \<open>diff_fuel\<close> is enough for every pair of revisions
  (\<open>diff_value_enough\<close>), so \<open>diff_revisions\<close> always returns a batch. A batch under
  construction is the list of operations and the flag that it overflowed.
\<close>

section \<open>Overlap of two texts\<close>

text \<open>
  The search of one head: at most \<open>m\<close> occurrences of it are tried, from position \<open>k\<close> on.
\<close>

fun overlap_probe :: "string \<Rightarrow> string \<Rightarrow> string \<Rightarrow> nat \<Rightarrow> nat \<Rightarrow> nat option" where
  "overlap_probe tail b head 0 k = None"
| "overlap_probe tail b head (Suc m) k =
     (case index_from tail head k of
        None \<Rightarrow> None
      | Some k \<Rightarrow>
          (let n = length tail - k in
           if n \<le> length b \<and> drop k tail = take n b then Some n
           else overlap_probe tail b head m (Suc k)))"

definition overlap :: "string \<Rightarrow> string \<Rightarrow> nat \<Rightarrow> nat \<Rightarrow> nat \<Rightarrow> nat" where
  "overlap a b scan probe max_candidates =
     (if a = [] \<or> b = [] \<or> scan = 0 then 0
      else
        (let tail = (if length a > scan then drop (length a - scan) a else a);
             h = min probe (length b)
         in case overlap_probe tail b (take h b) max_candidates 0 of
              Some n \<Rightarrow> n
            | None \<Rightarrow>
                if h = 1 then 0
                else case overlap_probe tail b (take 1 b) max_candidates 0 of
                  Some n \<Rightarrow> n | None \<Rightarrow> 0))"

definition owned_slice :: "string \<Rightarrow> nat \<Rightarrow> nat \<Rightarrow> string" where
  "owned_slice text start end = butlast (slice text start end @ '' '')"

section \<open>Emitting operations\<close>

type_synonym batch = "op list \<times> bool"

definition MAX_DELTA_OPERATIONS :: nat where "MAX_DELTA_OPERATIONS = 4096"
definition DEFAULT_OVERLAP_SCAN :: nat where "DEFAULT_OVERLAP_SCAN = 65536"

definition emit_operation :: "op \<Rightarrow> batch \<Rightarrow> batch" where
  "emit_operation op st =
     (let (ops, over) = st in
      if over then st
      else if length ops \<ge> MAX_DELTA_OPERATIONS then (ops, True)
      else (ops @ [op], False))"

definition emit_set :: "path \<Rightarrow> json \<Rightarrow> batch \<Rightarrow> batch" where
  "emit_set p v st = emit_operation (if p = [] then OpR v else OpS p v) st"

definition emit_string :: "string \<Rightarrow> string \<Rightarrow> path \<Rightarrow> batch \<Rightarrow> batch" where
  "emit_string before after p st =
     (if before = after then st
      else if length after > length before \<and> take (length before) after = before
        then emit_operation (OpA p (owned_slice after (length before) (length after))) st
      else
        (let shared = overlap before after DEFAULT_OVERLAP_SCAN 64 8 in
         if shared = 0 then emit_operation (OpS p (Prim (PStr after))) st
         else
           (let st1 = emit_operation (OpT p (length before - shared)) st in
            if length after > shared
            then emit_operation (OpA p (owned_slice after shared (length after))) st1
            else st1)))"

section \<open>Trimming the common ends of a region\<close>

function trim_front ::
  "rjson list \<Rightarrow> rjson list \<Rightarrow> nat \<Rightarrow> nat \<Rightarrow> nat \<Rightarrow> nat \<Rightarrow> nat \<Rightarrow> nat \<times> nat \<times> nat" where
  "trim_front before after bs be as ae os =
     (if bs < be \<and> as < ae \<and> same_value (before ! bs) (after ! as)
      then trim_front before after (Suc bs) be (Suc as) ae (Suc os)
      else (bs, as, os))"
  by pat_completeness auto
termination
  by (relation "measure (\<lambda>(before, after, bs, be, as, ae, os). be - bs)") auto

declare trim_front.simps [simp del]

function trim_back ::
  "rjson list \<Rightarrow> rjson list \<Rightarrow> nat \<Rightarrow> nat \<Rightarrow> nat \<Rightarrow> nat \<Rightarrow> nat \<times> nat" where
  "trim_back before after bs be as ae =
     (if bs < be \<and> as < ae \<and> same_value (before ! (be - 1)) (after ! (ae - 1))
      then trim_back before after bs (be - 1) as (ae - 1)
      else (be, ae))"
  by pat_completeness auto
termination
  by (relation "measure (\<lambda>(before, after, bs, be, as, ae). be - bs)") auto

declare trim_back.simps [simp del]

section \<open>The differ\<close>

definition any_reserved :: "(string \<times> rjson) list \<Rightarrow> bool" where
  "any_reserved kvs = list_ex (\<lambda>(k, _). reserved k) kvs"

text \<open>The second loop of \<open>diffObject\<close>: the properties that are gone.\<close>

fun delete_keys :: "(string \<times> rjson) list \<Rightarrow> (string \<times> rjson) list \<Rightarrow> path \<Rightarrow> batch \<Rightarrow> batch" where
  "delete_keys after [] p st = st"
| "delete_keys after ((k, v) # kvs) p st =
     (if snd st then st
      else delete_keys after kvs p
             (if k \<notin> fst ` set after then emit_operation (OpD (p @ [Key k])) st else st))"

function (sequential) diff_value :: "nat \<Rightarrow> rjson \<Rightarrow> rjson \<Rightarrow> path \<Rightarrow> batch \<Rightarrow> batch option"
  and diff_keys :: "nat \<Rightarrow> (string \<times> rjson) list \<Rightarrow> (string \<times> rjson) list \<Rightarrow> path \<Rightarrow> batch \<Rightarrow> batch option"
  and diff_array :: "nat \<Rightarrow> rjson list \<Rightarrow> rjson list \<Rightarrow> path \<Rightarrow> batch \<Rightarrow> batch option"
  and diff_region :: "nat \<Rightarrow> rjson list \<Rightarrow> rjson list \<Rightarrow> path \<Rightarrow> batch \<Rightarrow>
     nat \<Rightarrow> nat \<Rightarrow> nat \<Rightarrow> nat \<Rightarrow> nat \<Rightarrow> batch option"
  and process_matches :: "nat \<Rightarrow> rjson list \<Rightarrow> rjson list \<Rightarrow> path \<Rightarrow> batch \<Rightarrow>
     nat \<Rightarrow> nat \<Rightarrow> nat \<Rightarrow> nat \<Rightarrow> nat \<Rightarrow> matches \<Rightarrow> batch option"
where
  "diff_value 0 before after p st = None"
| "diff_value (Suc n) before after p st =
     (if strict_eq before after \<or> snd st then Some st
      else case (before, after) of
        (RPrim (PStr s), RPrim (PStr t)) \<Rightarrow>
          if p \<noteq> [] then Some (emit_string s t p st) else Some (emit_set p (erase after) st)
      | (RArr _ xs, RArr _ ys) \<Rightarrow>
          if equal_json before after then Some st else diff_array n xs ys p st
      | (RObj _ kvs, RObj _ kvs') \<Rightarrow>
          if any_reserved kvs \<or> any_reserved kvs' then
            Some (if equal_json before after then st else emit_set p (erase after) st)
          else map_option (delete_keys kvs' kvs p) (diff_keys n kvs kvs' p st)
      | _ \<Rightarrow> Some (emit_set p (erase after) st))"
| "diff_keys n before [] p st = Some st"
| "diff_keys n before ((k, v) # kvs) p st =
     (if snd st then Some st
      else
        Option.bind
          (case map_of before k of
             Some w \<Rightarrow> diff_value n w v (p @ [Key k]) st
           | None \<Rightarrow> Some (emit_set (p @ [Key k]) (erase v) st))
          (diff_keys n before kvs p))"
| "diff_array n before after p st =
     (case (if length before = length after \<and> length before > 1 \<and>
               \<not> same_value (before ! 0) (after ! 0) \<and>
               \<not> same_value (last before) (last after)
            then permutation before after else None) of
        Some order \<Rightarrow> Some (emit_operation (OpM p order) st)
      | None \<Rightarrow> diff_region n before after p st 0 (length before) 0 (length after) 0)"
| "diff_region 0 before after p st bs be as ae os = None"
| "diff_region (Suc n) before after p st bs be as ae os =
     (if snd st then Some st
      else
        (let (bs, as, os) = trim_front before after bs be as ae os;
             (be, ae) = trim_back before after bs be as ae;
             replace = OpP p os (be - bs) (map erase (slice after as ae))
         in
         if be - bs = 0 \<and> ae - as = 0 then Some st
         else if be - bs = 0 \<or> ae - as = 0 then Some (emit_operation replace st)
         else
           (let ms = region_matches before bs be after as ae in
            if ms \<noteq> [] then process_matches n before after p st bs be as ae os ms
            else if be - bs = 1 \<and> ae - as = 1
              then diff_value n (before ! bs) (after ! as) (p @ [Idx os]) st
            else Some (emit_operation replace st))))"
| "process_matches n before after p st b_at be a_at ae o_at [] =
     (if snd st then Some st
      else diff_region n before after p st b_at be a_at ae o_at)"
| "process_matches n before after p st b_at be a_at ae o_at ((bm, am) # ms) =
     (if snd st then Some st
      else
        Option.bind (diff_region n before after p st b_at bm a_at am o_at) (\<lambda>st.
        (let o_at = o_at + (am - a_at) in
         Option.bind
           (if same_value (before ! bm) (after ! am) then Some st
            else diff_value n (before ! bm) (after ! am) (p @ [Idx o_at]) st) (\<lambda>st.
         process_matches n before after p st (Suc bm) be (Suc am) ae (Suc o_at) ms))))"
  by pat_completeness auto
termination
  by (relation "measures
      [\<lambda>x. case x of Inl (Inl (n, _)) \<Rightarrow> n | Inl (Inr (n, _)) \<Rightarrow> n
         | Inr (Inl (n, _)) \<Rightarrow> n | Inr (Inr (Inl (n, _))) \<Rightarrow> n | Inr (Inr (Inr (n, _))) \<Rightarrow> n,
       \<lambda>x. case x of Inl (Inl _) \<Rightarrow> 0 | Inl (Inr _) \<Rightarrow> 1 | Inr (Inl _) \<Rightarrow> 1
         | Inr (Inr (Inl _)) \<Rightarrow> 0 | Inr (Inr (Inr _)) \<Rightarrow> 1,
       \<lambda>x. case x of Inl (Inr (n, b, kvs, _)) \<Rightarrow> length kvs
         | Inr (Inr (Inr (n, b, a, p, st, b1, b2, a1, a2, o1, ms))) \<Rightarrow> length ms | _ \<Rightarrow> 0]")
    auto

section \<open>Costs and the whole differ\<close>

primrec json_cost :: "json \<Rightarrow> nat" where
  "json_cost (Prim p) =
     (case p of
        PNull \<Rightarrow> 4
      | PStr s \<Rightarrow> length s + 2
      | PNum n \<Rightarrow> length (num_text n)
      | PBool b \<Rightarrow> if b then 4 else 5)"
| "json_cost (Arr xs) = 2 + sum_list (map json_cost xs) + (length xs - 1)"
| "json_cost (Obj kvs) =
     2 + sum_list (map (\<lambda>(k, c). length k + 3 + c) (map (map_prod id json_cost) kvs)) + (length kvs - 1)"

fun seg_cost :: "seg \<Rightarrow> nat" where
  "seg_cost (Key k) = length k + 2"
| "seg_cost (Idx i) = length (nat_text i)"

definition path_cost :: "path \<Rightarrow> nat" where
  "path_cost p = 2 + sum_list (map seg_cost p) + (length p - 1)"

fun operation_cost :: "op \<Rightarrow> nat" where
  "operation_cost (OpR v) = 6 + json_cost v"
| "operation_cost (OpS p v) = 7 + path_cost p + json_cost v"
| "operation_cost (OpD p) = 6 + path_cost p"
| "operation_cost (OpA p t) = 7 + path_cost p + length t + 2"
| "operation_cost (OpT p n) = 7 + path_cost p + length (nat_text n)"
| "operation_cost (OpP p i r items) =
     10 + path_cost p + length (nat_text i) + length (nat_text r) + json_cost (Arr items)"
| "operation_cost (OpM p is) = 7 + path_cost p + json_cost (Arr (map num_json is))"

definition delta_cost :: "op list \<Rightarrow> nat" where
  "delta_cost ops = 2 + sum_list (map (\<lambda>op. operation_cost op + 1) ops)"

primrec weight :: "rjson \<Rightarrow> nat" where
  "weight (RPrim p) = 1"
| "weight (RArr r xs) = Suc (sum_list (map weight xs))"
| "weight (RObj r kvs) = Suc (sum_list (map snd (map (map_prod id weight) kvs)))"

definition diff_fuel :: "rjson \<Rightarrow> rjson \<Rightarrow> nat" where
  "diff_fuel before after = Suc (weight before + weight after)"

text \<open>The choice between the delta and a replacement at the end of \<open>diffRevisions\<close>.\<close>

definition finish_batch :: "json \<Rightarrow> batch \<Rightarrow> op list" where
  "finish_batch after st =
     (let (ops, over) = st in
      if over then [OpR after]
      else if ops = [] \<or> is_replace (hd ops) then ops
      else if delta_cost ops < 65536 then ops
      else if delta_cost ops \<ge> json_cost after + 6 then [OpR after]
      else ops)"

definition diff_revisions :: "rjson \<Rightarrow> rjson \<Rightarrow> op list option" where
  "diff_revisions before after =
     map_option (finish_batch (erase after))
       (diff_value (diff_fuel before after) before after [] ([], False))"

section \<open>Enough fuel\<close>

definition weights :: "rjson list \<Rightarrow> nat \<Rightarrow> nat \<Rightarrow> nat" where
  "weights xs i j = sum_list (map weight (slice xs i j))"

lemma weight_pos [simp]: "0 < weight x"
  by (cases x) auto

lemma weights_split: "i \<le> k \<Longrightarrow> k \<le> j \<Longrightarrow> weights xs i j = weights xs i k + weights xs k j"
  by (metis map_append slice_append_slice sum_list_append weights_def)

lemma weights_nth: "k < length xs \<Longrightarrow> weights xs k (Suc k) = weight (xs ! k)"
  by (simp add: weights_def slice_Suc)

lemma weights_at: "i \<le> k \<Longrightarrow> k < j \<Longrightarrow> j \<le> length xs \<Longrightarrow>
    weights xs i j = weights xs i k + weight (xs ! k) + weights xs (Suc k) j"
  using weights_split[of i k j xs] weights_split[of k "Suc k" j xs] weights_nth[of k xs] by simp

lemma weights_mono: "i \<le> i' \<Longrightarrow> i' \<le> j' \<Longrightarrow> j' \<le> j \<Longrightarrow> weights xs i' j' \<le> weights xs i j"
  using weights_split[of i i' j xs] weights_split[of i' j' j xs] by simp

lemma weights_all: "weights xs 0 (length xs) = sum_list (map weight xs)"
  by (simp add: weights_def)

lemma trim_front_range:
  "trim_front before after bs be as ae os = (bs', as', os') \<Longrightarrow> bs \<le> be \<Longrightarrow> as \<le> ae \<Longrightarrow>
     bs \<le> bs' \<and> bs' \<le> be \<and> as \<le> as' \<and> as' \<le> ae \<and> bs' - bs = as' - as \<and> os' = os + (bs' - bs) \<and>
     (\<forall>k < bs' - bs. same_value (before ! (bs + k)) (after ! (as + k)))"
proof (induction before after bs be as ae os rule: trim_front.induct)
  case (1 before after bs be as ae os)
  show ?case
  proof (cases "bs < be \<and> as < ae \<and> same_value (before ! bs) (after ! as)")
    case True
    with "1.prems" have "trim_front before after (Suc bs) be (Suc as) ae (Suc os) = (bs', as', os')"
      by (simp add: trim_front.simps[of before after bs be as ae os])
    with "1.IH"[OF True] True have IH: "Suc bs \<le> bs' \<and> bs' \<le> be \<and> Suc as \<le> as' \<and> as' \<le> ae \<and>
        bs' - Suc bs = as' - Suc as \<and> os' = Suc os + (bs' - Suc bs) \<and>
        (\<forall>k < bs' - Suc bs. same_value (before ! (Suc bs + k)) (after ! (Suc as + k)))" by simp
    have "same_value (before ! (bs + k)) (after ! (as + k))" if "k < bs' - bs" for k
      using IH True that by (cases k) auto
    with IH show ?thesis by auto
  next
    case False
    then have "trim_front before after bs be as ae os = (bs, as, os)"
      by (subst trim_front.simps) auto
    with "1.prems" show ?thesis by auto
  qed
qed

lemma trim_back_range:
  "trim_back before after bs be as ae = (be', ae') \<Longrightarrow> bs \<le> be \<Longrightarrow> as \<le> ae \<Longrightarrow>
     bs \<le> be' \<and> be' \<le> be \<and> as \<le> ae' \<and> ae' \<le> ae \<and> be - be' = ae - ae' \<and>
     (\<forall>k < be - be'. same_value (before ! (be' + k)) (after ! (ae' + k)))"
proof (induction before after bs be as ae rule: trim_back.induct)
  case (1 before after bs be as ae)
  show ?case
  proof (cases "bs < be \<and> as < ae \<and> same_value (before ! (be - 1)) (after ! (ae - 1))")
    case True
    with "1.prems" have "trim_back before after bs (be - 1) as (ae - 1) = (be', ae')"
      by (simp add: trim_back.simps[of before after bs be as ae])
    with "1.IH"[OF True] True have IH: "bs \<le> be' \<and> be' \<le> be - 1 \<and> as \<le> ae' \<and> ae' \<le> ae - 1 \<and>
        be - 1 - be' = ae - 1 - ae' \<and>
        (\<forall>k < be - 1 - be'. same_value (before ! (be' + k)) (after ! (ae' + k)))" by auto
    have "same_value (before ! (be' + k)) (after ! (ae' + k))" if "k < be - be'" for k
    proof (cases "k < be - 1 - be'")
      case False
      with that IH True have "be' + k = be - 1" "ae' + k = ae - 1" by auto
      with True show ?thesis by simp
    qed (use IH in simp)
    with IH True show ?thesis by auto
  next
    case False
    then have "trim_back before after bs be as ae = (be, ae)" by (subst trim_back.simps) auto
    with "1.prems" show ?thesis by auto
  qed
qed

lemma map_of_weight:
  "map_of kvs k = Some v \<Longrightarrow> weight v \<le> sum_list (map (\<lambda>(k, v). weight v) kvs)"
  by (induction kvs) (auto split: if_splits)

lemma weight_RObj: "weight (RObj r kvs) = Suc (sum_list (map (\<lambda>(k, v). weight v) kvs))"
  by (induction kvs) auto

declare weight.simps(3) [simp del]

lemma sum_list_member: "x \<in> set xs \<Longrightarrow> f x \<le> sum_list (map f xs)" for f :: "'a \<Rightarrow> nat"
  by (induction xs) auto

text \<open>What a run of \<open>process_matches\<close> needs: two more at its end, one while matches are left.\<close>

definition process_fuel :: "rjson list \<Rightarrow> rjson list \<Rightarrow> nat \<Rightarrow> nat \<Rightarrow> nat \<Rightarrow> nat \<Rightarrow> matches \<Rightarrow> nat" where
  "process_fuel before after bs be as ae ms =
     weights before bs be + weights after as ae + (if ms = [] then 2 else 1)"

lemma process_fuel_Cons:
  assumes "valid_matches bs be as ae ((b, a) # ms)" "be \<le> length before" "ae \<le> length after"
    and "process_fuel before after bs be as ae ((b, a) # ms) \<le> n"
  shows "weights before bs b + weights after as a + 2 \<le> n"
    and "weight (before ! b) + weight (after ! a) + 1 \<le> n"
    and "process_fuel before after (Suc b) be (Suc a) ae ms \<le> n"
proof -
  from assms have "weights before bs be = weights before bs b + weight (before ! b) + weights before (Suc b) be"
    and "weights after as ae = weights after as a + weight (after ! a) + weights after (Suc a) ae"
    by (auto intro!: weights_at)
  moreover have "0 < weight (before ! b)" "0 < weight (after ! a)" by simp_all
  ultimately show "weights before bs b + weights after as a + 2 \<le> n"
    and "weight (before ! b) + weight (after ! a) + 1 \<le> n"
    and "process_fuel before after (Suc b) be (Suc a) ae ms \<le> n"
    using assms(4) unfolding process_fuel_def by (auto simp del: weight_pos)
qed

lemma bind_not_None: "m \<noteq> None \<Longrightarrow> (\<And>x. m = Some x \<Longrightarrow> f x \<noteq> None) \<Longrightarrow> Option.bind m f \<noteq> None"
  by (cases m) auto

lemma diff_enough:
  "weight b + weight a + 1 \<le> n \<Longrightarrow> diff_value n b a p st \<noteq> None"
  "\<forall>(k, v) \<in> set kvs. weight v + (case map_of kvs0 k of None \<Rightarrow> 0 | Some w \<Rightarrow> weight w) + 1 \<le> n \<Longrightarrow>
     diff_keys n kvs0 kvs p st \<noteq> None"
  "sum_list (map weight xs) + sum_list (map weight ys) + 2 \<le> n \<Longrightarrow> diff_array n xs ys p st \<noteq> None"
  "bs \<le> be \<Longrightarrow> be \<le> length xs \<Longrightarrow> as \<le> ae \<Longrightarrow> ae \<le> length ys \<Longrightarrow>
     weights xs bs be + weights ys as ae + 2 \<le> n \<Longrightarrow> diff_region n xs ys p st bs be as ae os \<noteq> None"
  "valid_matches bs be as ae ms \<Longrightarrow> be \<le> length xs \<Longrightarrow> ae \<le> length ys \<Longrightarrow>
     process_fuel xs ys bs be as ae ms \<le> n \<Longrightarrow> process_matches n xs ys p st bs be as ae os ms \<noteq> None"
proof (induction n b a p st and n kvs0 kvs p st and n xs ys p st and n xs ys p st bs be as ae os
    and n xs ys p st bs be as ae os ms
    rule: diff_value_diff_keys_diff_array_diff_region_process_matches.induct)
  case (2 n before after p st)
  show ?case
  proof (cases "strict_eq before after \<or> snd st")
    case False
    note IH = "2.IH"[OF False]
    show ?thesis
    proof (cases before)
      case (RArr r xs)
      with False IH "2.prems" show ?thesis by (cases after) auto
    next
      case b: (RObj r kvs)
      show ?thesis
      proof (cases after)
        case a: (RObj r' kvs')
        have "weight v + (case map_of kvs k of None \<Rightarrow> 0 | Some w \<Rightarrow> weight w) + 1 \<le> n"
          if "(k, v) \<in> set kvs'" for k v
        proof -
          have "weight v \<le> sum_list (map (\<lambda>(k, v). weight v) kvs')"
            using sum_list_member[OF that, of "\<lambda>(k, v). weight v"] by simp
          moreover have "(case map_of kvs k of None \<Rightarrow> 0 | Some w \<Rightarrow> weight w) \<le> sum_list (map (\<lambda>(k, v). weight v) kvs)"
            by (auto split: option.splits dest: map_of_weight)
          ultimately show ?thesis using "2.prems" a b by (simp add: weight_RObj)
        qed
        then have "diff_keys n kvs kvs' p st \<noteq> None" if "\<not> (any_reserved kvs \<or> any_reserved kvs')"
          using IH(2)[OF _ b a] that b a by auto
        then have "\<exists>st1. diff_keys n kvs kvs' p st = Some st1" if "\<not> (any_reserved kvs \<or> any_reserved kvs')"
          using that by (cases "diff_keys n kvs kvs' p st") auto
        with False a b show ?thesis by (cases "any_reserved kvs \<or> any_reserved kvs'") auto
      qed (use False b in auto)
    qed (use False in \<open>auto split: prim.splits rjson.splits\<close>)
  qed simp
next
  case (4 n before k v kvs p st)
  show ?case
  proof (cases "snd st")
    case False
    show ?thesis
      unfolding diff_keys.simps if_not_P[OF False]
    proof (rule bind_not_None)
      show "(case map_of before k of Some w \<Rightarrow> diff_value n w v (p @ [Key k]) st
          | None \<Rightarrow> Some (emit_set (p @ [Key k]) (erase v) st)) \<noteq> None"
        using "4.IH"(1)[OF False] "4.prems" by (auto split: option.splits)
    qed (use "4.IH"(2)[OF False] "4.prems" in auto)
  qed simp
next
  case (5 n before after p st)
  then show ?case by (auto simp: weights_all split: option.splits)
next
  case (7 n before after p st bs be as ae os)
  show ?case
  proof (cases "snd st")
    case False
    obtain bs' as' os' where front: "trim_front before after bs be as ae os = (bs', as', os')"
      by (metis prod.exhaust)
    obtain be' ae' where rear: "trim_back before after bs' be as' ae = (be', ae')"
      by (metis prod.exhaust)
    note r1 = trim_front_range[OF front "7.prems"(1,3)]
    then have le: "bs' \<le> be" "as' \<le> ae" by auto
    note r2 = trim_back_range[OF rear le]
    have range: "bs' \<le> be'" "be' \<le> length before" "as' \<le> ae'" "ae' \<le> length after"
      using r1 r2 "7.prems" by auto
    have "weights before bs' be' \<le> weights before bs be" "weights after as' ae' \<le> weights after as ae"
      using r1 r2 by (auto intro!: weights_mono)
    with "7.prems" have n: "weights before bs' be' + weights after as' ae' + 1 \<le> n" by simp
    let ?ms = "region_matches before bs' be' after as' ae'"
    note IH = "7.IH"[OF False front[symmetric] refl refl rear[symmetric] refl refl]
    consider (none) "be' - bs' = 0 \<or> ae' - as' = 0" | (some) "be' - bs' \<noteq> 0" "ae' - as' \<noteq> 0" "?ms \<noteq> []"
      | (pair) "?ms = []" "be' - bs' = 1" "ae' - as' = 1" | (rest) "be' - bs' \<noteq> 0" "ae' - as' \<noteq> 0" "?ms = []"
        "\<not> (be' - bs' = 1 \<and> ae' - as' = 1)"
      by auto
    then show ?thesis
    proof cases
      case some
      have "process_matches n before after p st bs' be' as' ae' os' ?ms \<noteq> None"
      proof (rule IH(1))
        show "valid_matches bs' be' as' ae' ?ms" using range by (rule region.align_valid)
      qed (use some range n in \<open>auto simp: process_fuel_def\<close>)
      with some False front rear show ?thesis by (simp add: Let_def)
    next
      case pair
      then have "be' = Suc bs'" "ae' = Suc as'" by auto
      with n range have "weight (before ! bs') + weight (after ! as') + 1 \<le> n"
        by (simp add: weights_nth)
      with IH(2) pair have "diff_value n (before ! bs') (after ! as') (p @ [Idx os']) st \<noteq> None" by simp
      with pair False front rear show ?thesis by (simp add: Let_def)
    qed (use False front rear in \<open>auto simp: Let_def\<close>)
  qed simp
next
  case (8 n before after p st b_at be a_at ae o_at)
  then show ?case by (auto simp: process_fuel_def)
next
  case (9 n before after p st b_at be a_at ae o_at bm am ms)
  show ?case
  proof (cases "snd st")
    case False
    note fuel = process_fuel_Cons[OF "9.prems"]
    have v: "b_at \<le> bm" "bm < be" "a_at \<le> am" "am < ae" "valid_matches (Suc bm) be (Suc am) ae ms"
      using "9.prems" by auto
    show ?thesis
      unfolding process_matches.simps if_not_P[OF False] Let_def
    proof (rule bind_not_None)
      show "diff_region n before after p st b_at bm a_at am o_at \<noteq> None"
        by (rule "9.IH"(1)[OF False]) (use v fuel "9.prems" in auto)
      fix st1
      assume st1: "diff_region n before after p st b_at bm a_at am o_at = Some st1"
      show "Option.bind
          (if same_value (before ! bm) (after ! am) then Some st1
           else diff_value n (before ! bm) (after ! am) (p @ [Idx (o_at + (am - a_at))]) st1)
          (\<lambda>st. process_matches n before after p st (Suc bm) be (Suc am) ae (Suc (o_at + (am - a_at))) ms) \<noteq> None"
      proof (rule bind_not_None)
        show "(if same_value (before ! bm) (after ! am) then Some st1
           else diff_value n (before ! bm) (after ! am) (p @ [Idx (o_at + (am - a_at))]) st1) \<noteq> None"
          using "9.IH"(2)[OF False st1 refl] fuel(2) by simp
      qed (use "9.IH"(3)[OF False st1 refl] v fuel(3) "9.prems" in simp)
    qed
  qed simp
qed auto

end
