(* ===== verification/Delta_Realize.thy ===== *)
theory Delta_Realize
  imports Delta_Diff
begin

text \<open>
  What a batch of the differ does to a document: \<open>realizes p v w ops\<close> says that \<open>ops\<close> turn
  every document with \<open>v\<close> at \<open>p\<close> into the one with \<open>w\<close> there. The laws follow the way the
  differ builds a batch: operation by operation, child by child, region by region. At the
  end the differ is correct: its batch, applied to the old revision, gives the new one.
\<close>

section \<open>Overlap\<close>

lemma overlap_probe_sound:
  "overlap_probe tail b head m k = Some n \<Longrightarrow>
     n \<le> length tail \<and> n \<le> length b \<and> drop (length tail - n) tail = take n b"
proof (induction tail b head m k rule: overlap_probe.induct)
  case (2 tail b head m k)
  then show ?case
    by (auto simp: Let_def split: option.splits if_splits dest: index_from_Some)
qed simp

lemma drop_drop_tail: "n \<le> length t \<Longrightarrow> t = drop d a \<Longrightarrow> drop (length a - n) a = drop (length t - n) t"
  by (cases "d \<le> length a") (auto simp: add.commute)

lemma overlap_sound:
  assumes "overlap a b scan probe m = n"
  shows "n \<le> length a" "n \<le> length b" "drop (length a - n) a = take n b"
proof -
  let ?t = "if length a > scan then drop (length a - scan) a else a"
  have "n = 0 \<or> (\<exists>head m. overlap_probe ?t b head m 0 = Some n)"
    using assms by (auto simp: overlap_def Let_def split: option.splits if_splits)
  then have *: "n \<le> length ?t \<and> n \<le> length b \<and> drop (length ?t - n) ?t = take n b"
    by (auto dest: overlap_probe_sound)
  obtain t d where t: "?t = t" "t = drop d a" by (metis drop0)
  from * show "n \<le> length a" "n \<le> length b" unfolding t by auto
  show "drop (length a - n) a = take n b"
    using * drop_drop_tail[of n t d a] unfolding t(1) by (simp only: t(2))
qed

lemma owned_slice_eq [simp]: "owned_slice t i j = slice t i j"
  by (simp add: owned_slice_def)

section \<open>Realizing a change at a path\<close>

definition realizes :: "path \<Rightarrow> jval \<Rightarrow> jval \<Rightarrow> op list \<Rightarrow> bool" where
  "realizes p v w ops \<longleftrightarrow> (\<forall>root. vget p root = Some v \<longrightarrow> vapply ops root = Some (vset p w root))"

lemma realizes_Nil: "realizes p v v []"
  by (simp add: realizes_def vset_vget)

lemma realizes_append: "realizes p u v xs \<Longrightarrow> realizes p v w ys \<Longrightarrow> realizes p u w (xs @ ys)"
  by (simp add: realizes_def vapply_append vget_vset vset_vset)

lemma realizes_child:
  assumes "realizes (p @ [s]) v w ops" "vget [s] x = Some v"
  shows "realizes p x (vset [s] w x) ops"
  using assms by (simp add: realizes_def vget_append vset_append)

lemma realizes_idx:
  "realizes (p @ [Idx (length pre)]) v w ops \<Longrightarrow> realizes p (VArr (pre @ v # post)) (VArr (pre @ w # post)) ops"
  using realizes_child[of p "Idx (length pre)" v w ops "VArr (pre @ v # post)"] by simp

lemma realizes_key:
  "realizes (p @ [Key k]) v w ops \<Longrightarrow> m k = Some v \<Longrightarrow> realizes p (VObj m) (VObj (m(k \<mapsto> w))) ops"
  using realizes_child[of p "Key k" v w ops "VObj m"] by simp

lemma realizes_single:
  "(\<And>root. vget p root = Some v \<Longrightarrow> vstep op root = Some (vset p w root)) \<Longrightarrow> realizes p v w [op]"
  by (simp add: realizes_def)

lemma realizes_leaf:
  assumes "op_ok op" "op_path op = p @ [s]" "vleaf op s v = Some w"
    and "\<forall>x. op \<noteq> OpR x" "\<forall>q i r xs. op \<noteq> OpP q i r xs" "\<forall>q is. op \<noteq> OpM q is"
  shows "realizes p v w [op]"
proof (rule realizes_single)
  fix root assume "vget p root = Some v"
  with assms show "vstep op root = Some (vset p w root)"
    by (cases op) (simp_all add: vstep_def vupd_at)
qed

lemma realizes_put:
  "list_all seg_safe p \<Longrightarrow> \<not> reserved k \<Longrightarrow> realizes p (VObj m) (VObj (m(k \<mapsto> absj x))) [OpS (p @ [Key k]) x]"
  by (rule realizes_leaf) (auto simp: Let_def)

lemma realizes_delete:
  "list_all seg_safe p \<Longrightarrow> \<not> reserved k \<Longrightarrow> realizes p (VObj m) (VObj (m(k := None))) [OpD (p @ [Key k])]"
  by (rule realizes_leaf) (auto simp: Let_def)

text \<open>A leaf operation at a value that is there changes that value.\<close>

lemma realizes_at_leaf:
  assumes "op_ok op" "op_path op = p" "p \<noteq> []" "\<forall>x. op \<noteq> OpR x" "\<forall>q i r xs. op \<noteq> OpP q i r xs" "\<forall>q is. op \<noteq> OpM q is"
    and leaf: "\<And>s x. vget [s] x = Some v \<Longrightarrow> vleaf op s x = Some (vset [s] w x)"
  shows "realizes p v w [op]"
proof (rule realizes_single)
  fix root assume v: "vget p root = Some v"
  obtain q s where p: "p = q @ [s]" using \<open>p \<noteq> []\<close> by (metis rev_exhaust)
  with v obtain x where x: "vget q root = Some x" "vget [s] x = Some v"
    by (auto simp: vget_append split: option.splits)
  from leaf[OF x(2)] have "vleaf op s x = Some (vset [s] w x)" .
  with assms(1-6) p x(1) show "vstep op root = Some (vset p w root)"
    by (cases op) (simp_all add: vstep_def vupd_at vset_append)
qed

lemma vget_one:
  "vget [s] x = Some v \<longleftrightarrow>
     (\<exists>xs i. x = VArr xs \<and> s = Idx i \<and> i < length xs \<and> xs ! i = v) \<or> (\<exists>m. x = VObj m \<and> m (seg_text s) = Some v)"
  by (cases x) (auto split: seg.splits option.splits)

lemma realizes_set: "list_all seg_safe p \<Longrightarrow> p \<noteq> [] \<Longrightarrow> realizes p v (absj x) [OpS p x]"
  by (rule realizes_at_leaf) (auto simp: vget_one Let_def)

lemma realizes_replace: "realizes [] v (absj x) [OpR x]"
  by (simp add: realizes_def vstep_def)

lemma realizes_append_text:
  "list_all seg_safe p \<Longrightarrow> p \<noteq> [] \<Longrightarrow> realizes p (VPrim (PStr c)) (VPrim (PStr (c @ t))) [OpA p t]"
  by (rule realizes_at_leaf) (auto simp: vget_one Let_def)

lemma realizes_trim_text:
  "list_all seg_safe p \<Longrightarrow> p \<noteq> [] \<Longrightarrow> realizes p (VPrim (PStr c)) (VPrim (PStr (drop n c))) [OpT p n]"
  by (rule realizes_at_leaf) (auto simp: vget_one Let_def)

lemma realizes_splice:
  "list_all seg_safe p \<Longrightarrow> length pre = i \<Longrightarrow> length old = r \<Longrightarrow>
     realizes p (VArr (pre @ old @ post)) (VArr (pre @ map absj items @ post)) [OpP p i r items]"
  by (rule realizes_single) (simp add: vstep_def vupd_at splice_list_def)

lemma realizes_permute:
  "list_all seg_safe p \<Longrightarrow> is_permutation is \<Longrightarrow> length xs = length is \<Longrightarrow>
     realizes p (VArr xs) (VArr (map (\<lambda>i. xs ! i) is)) [OpM p is]"
  by (rule realizes_single) (simp add: vstep_def vupd_at vpermute_def)

section \<open>Batches under construction\<close>

text \<open>
  \<open>diffs p v w st st'\<close>: unless the batch overflowed, what was added to it between \<open>st\<close> and
  \<open>st'\<close> realizes the change; and it never outgrows its limit.
\<close>

definition diffs :: "path \<Rightarrow> jval \<Rightarrow> jval \<Rightarrow> batch \<Rightarrow> batch \<Rightarrow> bool" where
  "diffs p v w st st' \<longleftrightarrow>
     (length (fst st) \<le> MAX_DELTA_OPERATIONS \<longrightarrow> length (fst st') \<le> MAX_DELTA_OPERATIONS) \<and>
     (\<not> snd st' \<longrightarrow> \<not> snd st \<and> (\<exists>new. fst st' = fst st @ new \<and> realizes p v w new))"

lemma diffs_refl: "diffs p v v st st"
  by (auto simp: diffs_def realizes_Nil)

lemma diffs_over: "snd st \<Longrightarrow> diffs p v w st st"
  by (simp add: diffs_def)

lemma diffs_trans: "diffs p u v st st1 \<Longrightarrow> diffs p v w st1 st2 \<Longrightarrow> diffs p u w st st2"
  unfolding diffs_def by (fastforce intro: realizes_append)

lemma diffs_emit: "realizes p v w [op] \<Longrightarrow> diffs p v w st (emit_operation op st)"
  by (cases st) (auto simp: diffs_def emit_operation_def)

lemma diffs_lift:
  assumes "\<And>ops. realizes q v w ops \<Longrightarrow> realizes p x y ops" "diffs q v w st st'"
  shows "diffs p x y st st'"
  using assms unfolding diffs_def by blast

lemma diffs_idx:
  "diffs (p @ [Idx i]) v w st st' \<Longrightarrow> i = length pre \<Longrightarrow> diffs p (VArr (pre @ v # post)) (VArr (pre @ w # post)) st st'"
  by (rule diffs_lift[OF realizes_idx]) simp_all

lemma diffs_key:
  "diffs (p @ [Key k]) v w st st' \<Longrightarrow> m k = Some v \<Longrightarrow> diffs p (VObj m) (VObj (m(k \<mapsto> w))) st st'"
  by (rule diffs_lift[OF realizes_key])

lemma diffs_set: "list_all seg_safe p \<Longrightarrow> diffs p v (absj x) st (emit_set p x st)"
  by (simp add: emit_set_def diffs_emit realizes_set realizes_replace)

lemma diffs_put:
  "list_all seg_safe p \<Longrightarrow> \<not> reserved k \<Longrightarrow>
     diffs p (VObj m) (VObj (m(k \<mapsto> absj x))) st (emit_set (p @ [Key k]) x st)"
  by (simp add: emit_set_def diffs_emit realizes_put)

lemma diffs_string:
  assumes "list_all seg_safe p" "p \<noteq> []"
  shows "diffs p (VPrim (PStr s)) (VPrim (PStr t)) st (emit_string s t p st)"
proof -
  let ?n = "overlap s t DEFAULT_OVERLAP_SCAN 64 8"
  note emits = diffs_emit[OF realizes_append_text[OF assms]] diffs_emit[OF realizes_trim_text[OF assms]]
  consider "s = t" | (grown) "s \<noteq> t" "length s < length t" "take (length s) t = s"
    | (shifted) "s \<noteq> t" "\<not> (length s < length t \<and> take (length s) t = s)" by blast
  then show ?thesis
  proof cases
    case grown
    then have "t = s @ slice t (length s) (length t)" by (metis append_take_drop_id order_refl slice_full)
    with grown emits(1)[of s "slice t (length s) (length t)"] show ?thesis by (simp add: emit_string_def)
  next
    case shifted
    note n = overlap_sound[of s t DEFAULT_OVERLAP_SCAN 64 8 ?n, OF refl]
    have "diffs p (VPrim (PStr s)) (VPrim (PStr (take ?n t))) st (emit_operation (OpT p (length s - ?n)) st)"
      using emits(2)[of s "length s - ?n"] n(3) by simp
    note trim = diffs_trans[OF this]
    have "diffs p (VPrim (PStr s)) (VPrim (PStr t)) st (emit_operation (OpS p (Prim (PStr t))) st)"
      using diffs_emit[OF realizes_set[OF assms, of "VPrim (PStr s)" "Prim (PStr t)"]] by simp
    moreover have "?n = length t \<Longrightarrow> diffs p (VPrim (PStr s)) (VPrim (PStr t)) st
        (emit_operation (OpT p (length s - ?n)) st)"
      using trim[OF diffs_refl] by simp
    ultimately show ?thesis
      using shifted(1) n(2) trim[OF emits(1)[of "take ?n t" "slice t ?n (length t)"]]
      unfolding emit_string_def if_not_P[OF shifted(2)] Let_def by (cases "?n = length t"; cases "t = []") simp_all
  qed (simp add: emit_string_def diffs_refl)
qed

text \<open>A region between a fixed front and a fixed rest of an array.\<close>

definition diffs_region :: "path \<Rightarrow> nat \<Rightarrow> jval list \<Rightarrow> jval list \<Rightarrow> batch \<Rightarrow> batch \<Rightarrow> bool" where
  "diffs_region p i xs ys st st' \<longleftrightarrow>
     (\<forall>pre post. length pre = i \<longrightarrow> diffs p (VArr (pre @ xs @ post)) (VArr (pre @ ys @ post)) st st')"

lemma diffs_region_refl: "diffs_region p i xs xs st st"
  by (simp add: diffs_region_def diffs_refl)

lemma diffs_region_over: "snd st \<Longrightarrow> diffs_region p i xs ys st st"
  by (simp add: diffs_region_def diffs_over)

lemma diffs_region_value:
  "diffs (p @ [Idx i]) v w st st' \<Longrightarrow> diffs_region p i [v] [w] st st'"
  by (simp add: diffs_region_def diffs_idx)

lemma diffs_region_splice:
  "list_all seg_safe p \<Longrightarrow> length xs = r \<Longrightarrow> ys = map absj items \<Longrightarrow>
     diffs_region p i xs ys st (emit_operation (OpP p i r items) st)"
  by (simp add: diffs_region_def diffs_emit realizes_splice)

lemma diffs_region_seq:
  assumes "diffs_region p i xs ys st st1" "diffs_region p (i + length ys) xs' ys' st1 st2"
  shows "diffs_region p i (xs @ xs') (ys @ ys') st st2"
  unfolding diffs_region_def
proof (intro allI impI)
  fix pre post :: "jval list" assume i: "length pre = i"
  have "diffs p (VArr (pre @ xs @ (xs' @ post))) (VArr (pre @ ys @ (xs' @ post))) st st1"
    using assms(1) i unfolding diffs_region_def by blast
  moreover have "diffs p (VArr ((pre @ ys) @ xs' @ post)) (VArr ((pre @ ys) @ ys' @ post)) st1 st2"
    using assms(2) i unfolding diffs_region_def by (simp del: append_assoc)
  ultimately show "diffs p (VArr (pre @ (xs @ xs') @ post)) (VArr (pre @ (ys @ ys') @ post)) st st2"
    by (auto intro: diffs_trans)
qed

lemma diffs_region_skip:
  assumes "diffs_region p (i + length us) xs ys st st'"
  shows "diffs_region p i (us @ xs @ vs) (us @ ys @ vs) st st'"
proof -
  have "diffs_region p i (us @ xs) (us @ ys) st st'"
    by (rule diffs_region_seq[OF diffs_region_refl]) (use assms in simp)
  from diffs_region_seq[OF this diffs_region_refl, of vs] show ?thesis by simp
qed

lemma diffs_region_whole: "diffs_region p 0 xs ys st st' \<Longrightarrow> diffs p (VArr xs) (VArr ys) st st'"
  unfolding diffs_region_def by (metis append_Nil append_Nil2 list.size(3))

section \<open>The differ is correct\<close>

definition put_all :: "(string \<times> rjson) list \<Rightarrow> (string \<Rightarrow> jval option) \<Rightarrow> string \<Rightarrow> jval option" where
  "put_all kvs m k = (case map_of kvs k of Some v \<Rightarrow> Some (absr v) | None \<Rightarrow> m k)"

lemma put_all_Nil [simp]: "put_all [] m = m"
  by (simp add: put_all_def fun_eq_iff)

lemma put_all_Cons: "k \<notin> fst ` set kvs \<Longrightarrow> put_all ((k, v) # kvs) m = put_all kvs (m(k \<mapsto> absr v))"
  by (auto simp: put_all_def fun_eq_iff map_of_eq_None_iff[symmetric] split: option.splits)

lemma any_reserved_iff: "any_reserved kvs \<longleftrightarrow> (\<exists>k \<in> fst ` set kvs. reserved k)"
  unfolding any_reserved_def list_ex_iff by force

lemma delete_keys_diffs:
  assumes "list_all seg_safe p" "\<not> any_reserved kvs"
  shows "diffs p (VObj m) (VObj (\<lambda>k. if k \<in> fst ` set kvs - fst ` set after then None else m k)) st
    (delete_keys after kvs p st)"
  using assms(2)
proof (induction kvs arbitrary: m st)
  case (Cons kv kvs)
  obtain k v where kv: "kv = (k, v)" by force
  let ?st = "if k \<notin> fst ` set after then emit_operation (OpD (p @ [Key k])) st else st"
  let ?m = "if k \<notin> fst ` set after then m(k := None) else m"
  have "diffs p (VObj m) (VObj ?m) st ?st"
    using diffs_emit[OF realizes_delete[OF assms(1), of k m]] diffs_refl Cons.prems kv
    by (auto simp: any_reserved_iff)
  moreover have "diffs p (VObj ?m) (VObj (\<lambda>k. if k \<in> fst ` set kvs - fst ` set after then None else ?m k)) ?st
      (delete_keys after kvs p ?st)"
    using Cons by (simp add: any_reserved_iff)
  ultimately have "diffs p (VObj m) (VObj (\<lambda>k. if k \<in> fst ` set kvs - fst ` set after then None else ?m k)) st
      (delete_keys after kvs p ?st)" by (rule diffs_trans)
  moreover have "(\<lambda>k. if k \<in> fst ` set kvs - fst ` set after then None else ?m k) =
      (\<lambda>k. if k \<in> fst ` set (kv # kvs) - fst ` set after then None else m k)"
    by (auto simp: kv fun_eq_iff)
  ultimately show ?case by (simp add: kv diffs_over)
qed (simp add: diffs_refl)

lemma map_absr_eq:
  assumes "universe U" "set xs \<subseteq> U" "set ys \<subseteq> U" "length xs = length ys"
    and "\<And>k. k < length xs \<Longrightarrow> same_value (xs ! k) (ys ! k)"
  shows "map absr xs = map absr ys"
proof (rule nth_equalityI)
  fix k assume "k < length (map absr xs)"
  then have k: "k < length xs" "k < length ys" using assms(4) by simp_all
  then have "xs ! k \<in> U" "ys ! k \<in> U" using assms(2,3) nth_mem by blast+
  with assms(1,5) k show "map absr xs ! k = map absr ys ! k" by (simp add: same_value_absr)
qed (use assms(4) in simp)

text \<open>A region of two arrays, by the values of the slices.\<close>

definition rslice :: "rjson list \<Rightarrow> nat \<Rightarrow> nat \<Rightarrow> jval list" where
  "rslice xs i j = map absr (slice xs i j)"

lemma rslice_split: "i \<le> k \<Longrightarrow> k \<le> j \<Longrightarrow> rslice xs i j = rslice xs i k @ rslice xs k j"
  by (metis map_append slice_append_slice rslice_def)

lemma rslice_one: "k < length xs \<Longrightarrow> rslice xs k (Suc k) = [absr (xs ! k)]"
  by (simp add: rslice_def slice_Suc)

lemma rslice_at: "i \<le> k \<Longrightarrow> k < j \<Longrightarrow> j \<le> length xs \<Longrightarrow>
    rslice xs i j = rslice xs i k @ [absr (xs ! k)] @ rslice xs (Suc k) j"
  using rslice_split[of i k j xs] rslice_split[of k "Suc k" j xs] rslice_one[of k xs] by simp

lemma length_rslice: "j \<le> length xs \<Longrightarrow> length (rslice xs i j) = j - i"
  by (simp add: rslice_def)

lemma rslice_eq:
  assumes "universe U" "set xs \<subseteq> U" "set ys \<subseteq> U" "j - i = j' - i'" "j \<le> length xs" "j' \<le> length ys"
    and "\<And>k. k < j - i \<Longrightarrow> same_value (xs ! (i + k)) (ys ! (i' + k))"
  shows "rslice xs i j = rslice ys i' j'"
  unfolding rslice_def
proof (rule map_absr_eq[OF assms(1)])
  show "set (slice xs i j) \<subseteq> U" "set (slice ys i' j') \<subseteq> U" using assms(2,3) by (auto intro: subsetD[OF set_slice])
qed (use assms(4-7) in auto)

text \<open>Trimming equal ends reduces a region to its middle.\<close>

lemma trimmed_region:
  assumes U: "universe U" "set xs \<subseteq> U" "set ys \<subseteq> U"
    and len: "bs \<le> be" "be \<le> length xs" "as \<le> ae" "ae \<le> length ys"
    and front: "trim_front xs ys bs be as ae os = (bs', as', os')"
    and rear: "trim_back xs ys bs' be as' ae = (be', ae')"
    and middle: "diffs_region p os' (rslice xs bs' be') (rslice ys as' ae') st st'"
  shows "diffs_region p os (rslice xs bs be) (rslice ys as ae) st st'"
proof -
  note f = trim_front_range[OF front len(1,3)]
  then have le: "bs' \<le> be" "as' \<le> ae" by auto
  note r = trim_back_range[OF rear le]
  have 1: "rslice xs bs bs' = rslice ys as as'"
    by (rule rslice_eq[OF U]) (use f len in auto)
  have 2: "rslice xs be' be = rslice ys ae' ae"
    by (rule rslice_eq[OF U]) (use r len in auto)
  have "rslice xs bs be = rslice xs bs bs' @ rslice xs bs' be' @ rslice xs be' be"
    using f r len rslice_split[of bs bs' be xs] rslice_split[of bs' be' be xs] by simp
  moreover have "rslice ys as ae = rslice xs bs bs' @ rslice ys as' ae' @ rslice xs be' be"
    unfolding 1 2 using f r len rslice_split[of as as' ae ys] rslice_split[of as' ae' ae ys] by simp
  moreover have "os' = os + length (rslice xs bs bs')" using f len by (simp add: length_rslice)
  ultimately show ?thesis
    using diffs_region_skip[of p os "rslice xs bs bs'"] middle by metis
qed

end
