(* ===== verification/Delta_Correct.thy ===== *)
theory Delta_Correct
  imports Delta_Realize
begin

text \<open>
  The differ is correct: the batch of \<open>diff_revisions\<close>, applied to the old revision, gives
  the new one. One mutual induction over the five functions of the differ.
\<close>

lemma slice_universe: "set xs \<subseteq> U \<Longrightarrow> k < length xs \<Longrightarrow> xs ! k \<in> U"
  by auto

lemma put_then_delete:
  "(\<lambda>k. if k \<in> fst ` set kvs - fst ` set kvs' then None
            else put_all kvs' (\<lambda>k. map_option absr (map_of kvs k)) k) =
         (\<lambda>k. map_option absr (map_of kvs' k))"
proof
  fix k
  have "k \<in> fst ` set kvs \<longleftrightarrow> map_of kvs k \<noteq> None" "k \<in> fst ` set kvs' \<longleftrightarrow> map_of kvs' k \<noteq> None"
    by (simp_all add: map_of_eq_None_iff)
  then show "(if k \<in> fst ` set kvs - fst ` set kvs' then None
       else put_all kvs' (\<lambda>k. map_option absr (map_of kvs k)) k) = map_option absr (map_of kvs' k)"
    by (cases "map_of kvs k"; cases "map_of kvs' k") (auto simp: put_all_def)
qed

lemma diff_correct:
  assumes U: "universe U"
  shows
  "diff_value n b a p st = Some st' \<Longrightarrow> b \<in> U \<Longrightarrow> a \<in> U \<Longrightarrow> list_all seg_safe p \<Longrightarrow>
     diffs p (absr b) (absr a) st st'"
  "diff_keys n kvs0 kvs p st = Some st' \<Longrightarrow> snd ` set kvs0 \<union> snd ` set kvs \<subseteq> U \<Longrightarrow> \<not> any_reserved kvs \<Longrightarrow>
     distinct (map fst kvs) \<Longrightarrow> list_all seg_safe p \<Longrightarrow>
     (\<forall>m. (\<forall>k \<in> fst ` set kvs. m k = map_option absr (map_of kvs0 k)) \<longrightarrow>
          diffs p (VObj m) (VObj (put_all kvs m)) st st')"
  "diff_array n xs ys p st = Some st' \<Longrightarrow> set xs \<subseteq> U \<Longrightarrow> set ys \<subseteq> U \<Longrightarrow> list_all seg_safe p \<Longrightarrow>
     diffs p (VArr (map absr xs)) (VArr (map absr ys)) st st'"
  "diff_region n xs ys p st bs be as ae os = Some st' \<Longrightarrow> set xs \<subseteq> U \<Longrightarrow> set ys \<subseteq> U \<Longrightarrow> list_all seg_safe p \<Longrightarrow>
     bs \<le> be \<Longrightarrow> be \<le> length xs \<Longrightarrow> as \<le> ae \<Longrightarrow> ae \<le> length ys \<Longrightarrow>
     diffs_region p os (rslice xs bs be) (rslice ys as ae) st st'"
  "process_matches n xs ys p st bs be as ae os ms = Some st' \<Longrightarrow> set xs \<subseteq> U \<Longrightarrow> set ys \<subseteq> U \<Longrightarrow> list_all seg_safe p \<Longrightarrow>
     valid_matches bs be as ae ms \<Longrightarrow> be \<le> length xs \<Longrightarrow> ae \<le> length ys \<Longrightarrow>
     diffs_region p os (rslice xs bs be) (rslice ys as ae) st st'"
proof (induction n b a p st and n kvs0 kvs p st and n xs ys p st and n xs ys p st bs be as ae os
    and n xs ys p st bs be as ae os ms arbitrary: st' and st' and st' and st' and st'
    rule: diff_value_diff_keys_diff_array_diff_region_process_matches.induct)
  case (2 n before after p st)
  show ?case
  proof (cases "strict_eq before after \<or> snd st")
    case True
    with 2 show ?thesis using universe_eq[OF U, of before after] by (auto intro: diffs_over diffs_refl)
  next
    case False
    note IH = "2.IH"[OF False]
    have set: "diffs p (absr before) (absr after) st (emit_set p (erase after) st)"
      using "2.prems" by (intro diffs_set) simp
    have eq: "diffs p (absr before) (absr after) st st" if "equal_json before after"
      using equal_json_absr[OF U that] "2.prems" by (simp add: diffs_refl)
    show ?thesis
    proof (cases before)
      case b: (RPrim x)
      show ?thesis
      proof (cases "\<exists>s t. x = PStr s \<and> after = RPrim (PStr t) \<and> p \<noteq> []")
        case True
        with False b "2.prems" show ?thesis by (auto intro!: diffs_string)
      next
        case other: False
        with False b "2.prems" have "st' = emit_set p (erase after) st"
          by (cases after) (auto split: prim.splits if_splits)
        with set show ?thesis by simp
      qed
    next
      case b: (RArr r xs)
      show ?thesis
      proof (cases after)
        case a: (RArr r' ys)
        show ?thesis
        proof (cases "equal_json before after")
          case False
          with \<open>\<not> (strict_eq before after \<or> snd st)\<close> a b "2.prems"(1) have "diff_array n xs ys p st = Some st'"
            by (simp del: equal_json.simps)
          moreover have "set xs \<subseteq> U" "set ys \<subseteq> U"
            using "2.prems" a b universe_arr[OF U] by blast+
          ultimately have "diffs p (VArr (map absr xs)) (VArr (map absr ys)) st st'"
            using IH(1) a b False "2.prems" by blast
          with a b show ?thesis by (simp add: comp_def)
        qed (use eq False a b "2.prems" in \<open>simp del: equal_json.simps\<close>)
      qed (use False b "2.prems" set in auto)
    next
      case b: (RObj r kvs)
      show ?thesis
      proof (cases after)
        case a: (RObj r' kvs')
        show ?thesis
        proof (cases "any_reserved kvs \<or> any_reserved kvs'")
          case True
          with False a b "2.prems"(1) eq set show ?thesis
            by (auto simp del: equal_json.simps split: if_splits)
        next
          case safe: False
          with False a b "2.prems"(1) obtain st1 where
            st1: "diff_keys n kvs kvs' p st = Some st1" "st' = delete_keys kvs' kvs p st1" by auto
          have "snd ` set kvs \<union> snd ` set kvs' \<subseteq> U" "distinct (map fst kvs')"
            using "2.prems" a b U universe_distinct[OF U] by (auto simp: universe_def closed_under_children_def)
          with IH(2)[OF refl b a safe st1(1)] safe "2.prems"
          have "diffs p (VObj (\<lambda>k. map_option absr (map_of kvs k)))
              (VObj (put_all kvs' (\<lambda>k. map_option absr (map_of kvs k)))) st st1" by simp
          from diffs_trans[OF this delete_keys_diffs, of kvs kvs'] safe "2.prems" st1(2)
            put_then_delete[of kvs kvs']
          show ?thesis unfolding a b absr_obj by simp
        qed
      qed (use False b "2.prems" set in auto)
    qed
  qed
next
  case (4 n before k v kvs p st)
  show ?case
  proof (cases "snd st")
    case False
    let ?first = "case map_of before k of Some w \<Rightarrow> diff_value n w v (p @ [Key k]) st
        | None \<Rightarrow> Some (emit_set (p @ [Key k]) (erase v) st)"
    from "4.prems"(1) obtain st1 where st1: "?first = Some st1" "diff_keys n before kvs p st1 = Some st'"
      unfolding diff_keys.simps if_not_P[OF False] by (auto simp: bind_eq_Some_conv)
    have rest: "\<not> reserved k" "\<not> any_reserved kvs" "k \<notin> fst ` set kvs" "distinct (map fst kvs)"
      using "4.prems" by (auto simp: any_reserved_iff)
    show ?thesis
    proof (intro allI impI)
      fix m assume m: "\<forall>k' \<in> fst ` set ((k, v) # kvs). m k' = map_option absr (map_of before k')"
      have "diffs p (VObj m) (VObj (m(k \<mapsto> absr v))) st st1"
      proof (cases "map_of before k")
        case None
        with st1(1) show ?thesis using diffs_put[OF "4.prems"(5) rest(1), of m "erase v" st] by simp
      next
        case (Some w)
        have "(k, w) \<in> set before" using Some by (rule map_of_SomeD)
        then have "w \<in> U" using "4.prems"(2) by force
        with "4.IH"(1)[OF False Some] Some st1(1) "4.prems" rest(1)
        have "diffs (p @ [Key k]) (absr w) (absr v) st st1" by simp
        with m Some show ?thesis by (intro diffs_key) simp_all
      qed
      moreover have "diffs p (VObj (m(k \<mapsto> absr v))) (VObj (put_all kvs (m(k \<mapsto> absr v)))) st1 st'"
      proof -
        have "\<forall>k' \<in> fst ` set kvs. (m(k \<mapsto> absr v)) k' = map_option absr (map_of before k')"
          using m rest(3) by auto
        then show ?thesis
          using "4.IH"(2)[OF False st1(1,2) _ rest(2,4) "4.prems"(5)] "4.prems"(2) by simp
      qed
      ultimately show "diffs p (VObj m) (VObj (put_all ((k, v) # kvs) m)) st st'"
        unfolding put_all_Cons[OF rest(3)] by (rule diffs_trans)
    qed
  qed (use 4 in \<open>simp add: diffs_over\<close>)
next
  case (5 n before after p st)
  let ?perm = "if length before = length after \<and> length before > 1 \<and>
      \<not> same_value (before ! 0) (after ! 0) \<and> \<not> same_value (last before) (last after)
    then permutation before after else None"
  show ?case
  proof (cases ?perm)
    case None
    with "5.prems" have "diff_region n before after p st 0 (length before) 0 (length after) 0 = Some st'" by simp
    from "5.IH"[OF None this] "5.prems"
    have "diffs_region p 0 (rslice before 0 (length before)) (rslice after 0 (length after)) st st'" by simp
    then show ?thesis by (intro diffs_region_whole) (simp add: rslice_def)
  next
    case (Some order)
    then have order: "permutation before after = Some order" by (simp split: if_splits)
    from Some "5.prems" have "st' = emit_operation (OpM p order) st" by simp
    moreover have "realizes p (VArr (map absr before)) (VArr (map absr after)) [OpM p order]"
      using realizes_permute[OF "5.prems"(4) permutation_spec(1)[OF order], of "map absr before"]
        permutation_spec(2)[OF order] permuted_absr[OF U "5.prems"(2,3) order] by simp
    ultimately show ?thesis by (simp add: diffs_emit)
  qed
next
  case (7 n before after p st bs be as ae os)
  show ?case
  proof (cases "snd st")
    case False
    obtain bs' as' os' where front: "trim_front before after bs be as ae os = (bs', as', os')"
      by (metis prod.exhaust)
    obtain be' ae' where rear: "trim_back before after bs' be as' ae = (be', ae')"
      by (metis prod.exhaust)
    note r1 = trim_front_range[OF front "7.prems"(5,7)]
    then have le: "bs' \<le> be" "as' \<le> ae" by auto
    note r2 = trim_back_range[OF rear le]
    have range: "bs' \<le> be'" "be' \<le> length before" "as' \<le> ae'" "ae' \<le> length after"
      using r1 r2 "7.prems" by auto
    let ?ms = "region_matches before bs' be' after as' ae'"
    let ?goal = "diffs_region p os' (rslice before bs' be') (rslice after as' ae') st st'"
    note IH = "7.IH"[OF False front[symmetric] refl refl rear[symmetric] refl refl]
    have splice: "diffs_region p os' (rslice before bs' be') (rslice after as' ae') st
        (emit_operation (OpP p os' (be' - bs') (map erase (slice after as' ae'))) st)"
      using range by (intro diffs_region_splice "7.prems") (simp_all add: length_rslice rslice_def)
    consider (same) "be' - bs' = 0" "ae' - as' = 0"
      | (some) "be' - bs' \<noteq> 0" "ae' - as' \<noteq> 0" "?ms \<noteq> []"
      | (pair) "?ms = []" "be' - bs' = 1" "ae' - as' = 1"
      | (rest) "st' = emit_operation (OpP p os' (be' - bs') (map erase (slice after as' ae'))) st"
      using False front rear "7.prems"(1) by (auto simp: Let_def split: if_splits)
    then have ?goal
    proof cases
      case same
      with False front rear range "7.prems"(1) show ?thesis by (simp add: rslice_def diffs_region_refl)
    next
      case some
      with False front rear "7.prems"(1)
      have run: "process_matches n before after p st bs' be' as' ae' os' ?ms = Some st'" by (simp add: Let_def)
      show ?thesis
      proof (rule IH(1))
        show "valid_matches bs' be' as' ae' ?ms" using range by (rule region.align_valid)
      qed (use run some "7.prems" range in auto)
    next
      case pair
      then have one: "be' = Suc bs'" "ae' = Suc as'" by simp_all
      with False front rear pair "7.prems"(1)
      have run: "diff_value n (before ! bs') (after ! as') (p @ [Idx os']) st = Some st'" by (simp add: Let_def)
      have "diffs (p @ [Idx os']) (absr (before ! bs')) (absr (after ! as')) st st'"
        by (rule IH(2)) (use run pair "7.prems" range one in \<open>auto intro: slice_universe\<close>)
      moreover have "rslice before bs' be' = [absr (before ! bs')]" "rslice after as' ae' = [absr (after ! as')]"
        using one range by (simp_all add: rslice_one)
      ultimately show ?thesis by (simp add: diffs_region_value)
    qed (use splice in simp)
    then show ?thesis by (rule trimmed_region[OF U "7.prems"(2,3,5-8) front rear])
  qed (use 7 in \<open>simp add: diffs_region_over\<close>)
next
  case (8 n before after p st b_at be a_at ae o_at)
  then show ?case by (auto simp: diffs_region_over split: if_splits)
next
  case (9 n before after p st b_at be a_at ae o_at bm am ms)
  show ?case
  proof (cases "snd st")
    case False
    let ?at = "o_at + (am - a_at)"
    let ?pair = "\<lambda>st. if same_value (before ! bm) (after ! am) then Some st
        else diff_value n (before ! bm) (after ! am) (p @ [Idx ?at]) st"
    have v: "b_at \<le> bm" "bm < be" "a_at \<le> am" "am < ae" "valid_matches (Suc bm) be (Suc am) ae ms"
      using "9.prems" by auto
    from "9.prems"(1) obtain st1 st2 where
      st: "diff_region n before after p st b_at bm a_at am o_at = Some st1" "?pair st1 = Some st2"
        "process_matches n before after p st2 (Suc bm) be (Suc am) ae (Suc ?at) ms = Some st'"
      unfolding process_matches.simps if_not_P[OF False] Let_def bind_eq_Some_conv by blast
    have U': "before ! bm \<in> U" "after ! am \<in> U"
      using v "9.prems" by (auto intro: slice_universe)
    have 1: "diffs_region p o_at (rslice before b_at bm) (rslice after a_at am) st st1"
      by (rule "9.IH"(1)[OF False st(1)]) (use v "9.prems" in auto)
    have "diffs (p @ [Idx ?at]) (absr (before ! bm)) (absr (after ! am)) st1 st2"
    proof (cases "same_value (before ! bm) (after ! am)")
      case True
      with st(2) same_value_absr[OF U U' True] show ?thesis by (simp add: diffs_refl)
    next
      case differ: False
      with st(2) "9.IH"(2)[OF False st(1) refl differ] U' "9.prems" show ?thesis by simp
    qed
    then have 2: "diffs_region p ?at [absr (before ! bm)] [absr (after ! am)] st1 st2"
      by (rule diffs_region_value)
    have 3: "diffs_region p (Suc ?at) (rslice before (Suc bm) be) (rslice after (Suc am) ae) st2 st'"
      by (rule "9.IH"(3)[OF False st(1) refl st(2,3)]) (use v "9.prems" in auto)
    have tail: "diffs_region p ?at ([absr (before ! bm)] @ rslice before (Suc bm) be)
        ([absr (after ! am)] @ rslice after (Suc am) ae) st1 st'"
      by (rule diffs_region_seq[OF 2]) (use 3 in simp)
    have "diffs_region p o_at (rslice before b_at bm @ [absr (before ! bm)] @ rslice before (Suc bm) be)
        (rslice after a_at am @ [absr (after ! am)] @ rslice after (Suc am) ae) st st'"
      by (rule diffs_region_seq[OF 1]) (use tail v "9.prems" in \<open>simp add: length_rslice\<close>)
    then show ?thesis
      using v "9.prems" rslice_at[of b_at bm be before] rslice_at[of a_at am ae after] by simp
  qed (use 9 in \<open>simp add: diffs_region_over\<close>)
qed (simp_all add: diffs_refl)

section \<open>The whole differ\<close>

lemma diff_revisions_batch:
  "\<exists>st. diff_value (diff_fuel before after) before after [] ([], False) = Some st \<and>
     diff_revisions before after = Some (finish_batch (erase after) st)"
proof -
  have "diff_value (diff_fuel before after) before after [] ([], False) \<noteq> None"
    by (rule diff_enough(1)) (simp add: diff_fuel_def)
  then obtain st where "diff_value (diff_fuel before after) before after [] ([], False) = Some st"
    by (cases "diff_value (diff_fuel before after) before after [] ([], False)") blast+
  then show ?thesis by (simp add: diff_revisions_def)
qed

lemma diff_batch:
  assumes "coherent_revisions before after"
    and "diff_value n before after [] ([], False) = Some st"
  shows "diffs [] (absr before) (absr after) ([], False) st"
  using diff_correct(1)[OF coherent_universe[OF assms(1)] assms(2)] self_subvalue by auto

lemma finish_batch_cases:
  "finish_batch x st = [OpR x] \<or> finish_batch x st = fst st \<and> \<not> snd st \<and>
     (fst st = [] \<or> is_replace (hd (fst st)) \<or> delta_cost (fst st) < 65536 \<or> delta_cost (fst st) < json_cost x + 6)"
  by (cases st) (auto simp: finish_batch_def Let_def)

lemma finish_batch_realizes:
  assumes "diffs [] v (absj x) ([], False) st"
  shows "realizes [] v (absj x) (finish_batch x st)"
  using assms finish_batch_cases[of x st] by (auto simp: diffs_def realizes_replace)

text \<open>
  C1: the differ is correct. For two revisions that share immutable values, \<open>diffRevisions\<close>
  returns a batch, and applying that batch to the old revision succeeds and gives a document
  equal to the new revision.
\<close>

theorem diff_then_apply:
  assumes "coherent_revisions before after"
  shows "\<exists>ops v. diff_revisions before after = Some ops \<and>
    apply_ops (Some (erase before)) ops = Inr (Some v) \<and> absj v = absr after"
proof -
  obtain st where st: "diff_value (diff_fuel before after) before after [] ([], False) = Some st"
    "diff_revisions before after = Some (finish_batch (erase after) st)"
    using diff_revisions_batch by blast
  have "realizes [] (absr before) (absr after) (finish_batch (erase after) st)"
    by (rule finish_batch_realizes[OF diff_batch[OF assms st(1)]])
  then have "vapply (finish_batch (erase after) st) (absr before) = Some (absr after)"
    by (simp add: realizes_def)
  with st(2) show ?thesis by (auto simp: apply_ops_vapply)
qed

text \<open>
  C8: a batch of the differ is bounded. It has at most 4096 operations, or it is one
  replacement; and when it is not a replacement and its estimated size reaches 65536 it is
  estimated to be smaller than the replacement would be.
\<close>

theorem diff_bounded:
  assumes "coherent_revisions before after" "diff_revisions before after = Some ops"
  shows "length ops \<le> MAX_DELTA_OPERATIONS \<and>
    (list_ex is_replace ops \<or> delta_cost ops < max 65536 (json_cost (erase after) + 6))"
proof -
  obtain st where st: "diff_value (diff_fuel before after) before after [] ([], False) = Some st"
    "diff_revisions before after = Some (finish_batch (erase after) st)"
    using diff_revisions_batch by blast
  have "length (fst st) \<le> MAX_DELTA_OPERATIONS"
    using diff_batch[OF assms(1) st(1)] by (simp add: diffs_def)
  moreover have "list_ex is_replace xs" if "is_replace (hd xs)" "xs \<noteq> []" for xs
    using that by (cases xs) auto
  moreover have "delta_cost [] < 65536" by (simp add: delta_cost_def)
  ultimately show ?thesis
    using assms(2) st(2) finish_batch_cases[of "erase after" st]
    by (cases "fst st = []") (auto simp: MAX_DELTA_OPERATIONS_def is_replace_def[of "OpR _"])
qed

text \<open>Two revisions of a log that share an entry: its text grew and an entry was added.\<close>

definition sample_before :: rjson where
  "sample_before = RObj 0 [(''text'', RPrim (PStr ''ab'')),
     (''items'', RArr 1 [RObj 2 [(''id'', RPrim (PNum (NInt 7)))]])]"

definition sample_after :: rjson where
  "sample_after = RObj 3 [(''text'', RPrim (PStr ''abc'')),
     (''items'', RArr 4 [RObj 2 [(''id'', RPrim (PNum (NInt 7)))], RPrim PNull])]"

definition sample_ops :: "op list" where
  "sample_ops = [OpA [Key ''text''] ''c'', OpP [Key ''items''] 1 0 [Prim PNull]]"

lemma sample_coherent: "coherent_revisions sample_before sample_after"
  by (simp add: coherent_revisions_def coherent_def sample_before_def sample_after_def)

lemma sample_diff: "diff_revisions sample_before sample_after = Some sample_ops"
proof -
  have "diff_value (diff_fuel sample_before sample_after) sample_before sample_after [] ([], False) =
      Some (sample_ops, False)" by code_simp
  moreover have "delta_cost sample_ops = 49" by code_simp
  ultimately show ?thesis by (simp add: diff_revisions_def finish_batch_def is_replace_def sample_ops_def)
qed

theorem diff_then_apply_witness:
  "\<exists>v. apply_ops (Some (erase sample_before)) sample_ops = Inr (Some v) \<and> absj v = absr sample_after"
  using diff_then_apply[OF sample_coherent] by (simp add: sample_diff)

theorem diff_bounded_witness:
  "length sample_ops \<le> MAX_DELTA_OPERATIONS \<and>
   (list_ex is_replace sample_ops \<or> delta_cost sample_ops < max 65536 (json_cost (erase sample_after) + 6))"
  by (rule diff_bounded[OF sample_coherent sample_diff])

end
