(* ===== verification/Delta_Properties.thy ===== *)
theory Delta_Properties
  imports Delta_Codec Delta_Correct
begin

text \<open>
  What \<open>packages/chord/src/delta/index.ts\<close> promises: received operations are validated
  before they touch a document, applying refines the abstract meaning, and a stream of batches
  survives the wire.
\<close>

section \<open>The applier\<close>

text \<open>
  The validator \<open>assertValidOp\<close> accepts exactly the tuples of well-formed operations (right
  verb and arity, a non-empty path for the leaf verbs, no reserved segment, a bijection as
  permutation), and it returns the operation it was given.
\<close>

theorem validator_exact: "assert_valid_op raw = Inr op \<longleftrightarrow> raw = op_json op \<and> op_ok op"
  using assert_valid_op_sound assert_valid_op_complete by blast

text \<open>
  C2: applying a batch refines its abstract meaning on documents as values: it succeeds exactly
  where the abstract meaning is defined, with the document that meaning gives.
\<close>

theorem apply_refines: "abs_root (apply_ops (Some v) ops) = vapply ops (absj v)"
  by (rule apply_ops_abs)

text \<open>No received tuple names a reserved property on its path, or the whole batch is refused.\<close>

lemma apply_raw_valid:
  "apply_raw root raws = Inr root' \<Longrightarrow> \<exists>ops. raws = map op_json ops \<and> list_all op_ok ops"
proof (induction raws arbitrary: root)
  case (Cons raw raws)
  then obtain op r where op: "assert_valid_op raw = Inr op" "apply_raw r raws = Inr root'"
    by (auto simp: apply_raw_def apply_op_def res_simps)
  with Cons.IH obtain ops where "raws = map op_json ops" "list_all op_ok ops" by blast
  with assert_valid_op_sound[OF op(1)] show ?case by (intro exI[of _ "op # ops"]) simp
qed simp

lemma op_ok_path: "op_ok op \<Longrightarrow> list_all seg_safe (op_path op)"
  by (cases op) auto

text \<open>
  prototype safety. Whatever tuples are received, if the batch is applied then every tuple
  was an operation whose path has none of the segments \<open>__proto__\<close>, \<open>constructor\<close> and
  \<open>prototype\<close>.
\<close>

theorem apply_safe:
  assumes "apply_raw root raws = Inr root'" "raw \<in> set raws"
  shows "\<exists>op. raw = op_json op \<and> (\<forall>k. Key k \<in> set (op_path op) \<longrightarrow> k \<notin> RESERVED_SEGMENTS)"
proof -
  from apply_raw_valid[OF assms(1)] obtain ops where "raws = map op_json ops" "list_all op_ok ops"
    by blast
  with assms(2) obtain op where "raw = op_json op" "op_ok op" by (auto simp: list_all_iff)
  moreover have "k \<notin> RESERVED_SEGMENTS" if "Key k \<in> set (op_path op)" for k
    using op_ok_path[OF \<open>op_ok op\<close>] that by (auto simp: list_all_iff reserved_def RESERVED_SEGMENTS_def)
  ultimately show ?thesis by blast
qed

theorem apply_safe_witness:
  "\<exists>op. op_json (OpS [Key ''a''] (Prim PNull)) = op_json op \<and>
     (\<forall>k. Key k \<in> set (op_path op) \<longrightarrow> k \<notin> RESERVED_SEGMENTS)"
proof (rule apply_safe)
  show "apply_raw (Some (Obj [])) [op_json (OpS [Key ''a''] (Prim PNull))] =
      Inr (Some (Obj [(''a'', Prim PNull)]))" by code_simp
qed simp

section \<open>The wire\<close>

text \<open>
  C3: a stream of batches survives the wire: what a fresh encoder wrote, batch by batch, a
  fresh decoder reads back, with every path reference, interned id and definition resolved.
\<close>

theorem codec_roundtrip:
  assumes "list_all (list_all op_ok) batches"
  shows "decode_stream [] (encode_stream enc_init batches) = Inr batches"
  by (rule decode_stream_encode_stream[OF codec_inv_init assms])

theorem codec_roundtrip_witness:
  "decode_stream [] (encode_stream enc_init
      [[OpD [Key ''a'']], [OpD [Key ''a''], OpT [Key ''b''] 2], [OpD [Key ''a''], OpD [Key ''a'']]]) =
   Inr [[OpD [Key ''a'']], [OpD [Key ''a''], OpT [Key ''b''] 2], [OpD [Key ''a''], OpD [Key ''a'']]]"
  by (rule codec_roundtrip) simp

text \<open>
  C4: recovery. After a base batch (one that starts with a whole replacement) any decoder is in
  step again, whatever its table of paths was before and whatever the encoder had interned:
  the base batch and every batch that follows are read back.
\<close>

theorem codec_recovery:
  assumes "is_base base" "list_all (list_all op_ok) (base # batches)"
  shows "decode_stream paths (encode_stream st (base # batches)) = Inr (base # batches)"
proof -
  have "encode_stream st (base # batches) = encode_stream enc_init (base # batches)"
    using base_batch_resets[OF assms(1), of st] by simp
  with decode_stream_encode_stream[OF codec_inv_init assms(2)] show ?thesis by simp
qed

theorem codec_recovery_witness:
  "decode_stream [(0, [Key ''stale''])]
      (encode_stream \<lparr>seen = [path_key [Key ''a'']], ids = [], next_id = 3\<rparr> [[OpR (Prim PNull)], [OpD [Key ''a'']]]) =
   Inr [[OpR (Prim PNull)], [OpD [Key ''a'']]]"
  by (rule codec_recovery) (simp_all add: is_base_def is_replace_def)

text \<open>
  A slow reader may join queued batches. The tuples of two encoded batches, concatenated and
  decoded as one batch, give the concatenation of the operations.
\<close>

theorem codec_coalesce:
  assumes "list_all op_ok xs" "list_all op_ok ys"
    and "encode enc_init xs = (ws, st)" "encode st ys = (ws', st')"
  shows "\<exists>paths. decode [] (map wire_json ws @ map wire_json ws') = Inr (xs @ ys, paths)"
proof -
  from encode_decode[OF codec_inv_init assms(1,3)] obtain paths1 where
    1: "decode_loop [] None (map wire_json ws) = Inr (xs, paths1)" "codec_inv st paths1" by blast
  from decode_loop_append[OF 1(1)] obtain prev1 where
    2: "decode_loop [] None (map wire_json ws @ map wire_json ws') =
      bind_res (decode_loop paths1 prev1 (map wire_json ws')) (\<lambda>(ops', paths'). Inr (xs @ ops', paths'))"
    by blast
  from encode_decode[OF 1(2) assms(2,4)] obtain paths2 where
    "decode_loop paths1 prev1 (map wire_json ws') = Inr (ys, paths2)" by blast
  with 2 show ?thesis by (simp add: decode_def)
qed

theorem codec_coalesce_witness:
  "\<exists>paths. decode [] (map wire_json [WD (Some (Inline [Key ''a'']))] @
     map wire_json [WDef 0 [Key ''a''], WT (Some (Ref 0)) 1]) = Inr ([OpD [Key ''a'']] @ [OpT [Key ''a''] 1], paths)"
proof (rule codec_coalesce)
  let ?st = "snd (encode enc_init [OpD [Key ''a'']])"
  show "encode enc_init [OpD [Key ''a'']] = ([WD (Some (Inline [Key ''a'']))], ?st)" by code_simp
  show "encode ?st [OpT [Key ''a''] 1] =
      ([WDef 0 [Key ''a''], WT (Some (Ref 0)) 1], snd (encode ?st [OpT [Key ''a''] 1]))" by code_simp
qed simp_all

text \<open>The decoder's table only ever holds safe paths, so it only hands out safe operations.\<close>

lemma ok_ref_safe: "ok_ref v = Inr r \<Longrightarrow> ref_ok (Some r)"
  by (cases v rule: ok_ref.cases) (auto simp: res_simps dest: assert_safe_path_result split: option.splits)

lemma with_ref_safe:
  assumes "with_ref msg n args k = Inr w"
  obtains r vs where "ref_ok r" "k r vs = Inr w"
proof -
  from assms consider r where "ok_ref (hd args) = Inr r" "k (Some r) (tl args) = Inr w" | "k None args = Inr w"
    by (auto simp: with_ref_def res_simps split: if_splits)
  then show ?thesis
  proof cases
    case (1 r)
    with ok_ref_safe that[of "Some r" "tl args"] show ?thesis by blast
  next
    case 2
    with that[of None args] show ?thesis by simp
  qed
qed

lemma wire_safe: "assert_valid_wire_op raw = Inr w \<Longrightarrow> wire_ok w"
proof -
  assume valid: "assert_valid_wire_op raw = Inr w"
  then obtain verb args where v: "raw = Arr (verb # args)"
    by (auto simp: assert_valid_wire_op_def split: json.split_asm list.split_asm)
  from valid v consider "verb = Prim (PStr ''r'')" | "verb = Prim (PStr ''s'')"
    | "verb = Prim (PStr ''d'')" | "verb = Prim (PStr ''a'')" | "verb = Prim (PStr ''t'')"
    | "verb = Prim (PStr ''p'')" | "verb = Prim (PStr ''m'')" | "verb = Prim (PStr ''#'')"
    by (auto simp: assert_valid_wire_op_def split: if_split_asm)
  then show ?thesis
  proof cases
    case 8
    with valid v show ?thesis
      by (auto simp: assert_valid_wire_op_def res_simps neq_Nil_conv dest: assert_safe_path_result
          split: list.split_asm json.split_asm option.split_asm)
  qed (use valid v in \<open>auto simp: assert_valid_wire_op_def res_simps assert_permutation_iff
      split: list.split_asm elim!: with_ref_safe\<close>)
qed

definition table_safe :: "dec_state \<Rightarrow> bool" where
  "table_safe paths = list_all (\<lambda>(i, p). list_all seg_safe p) paths"

lemma ref_path_safe:
  "table_safe paths \<Longrightarrow> ref_ok r \<Longrightarrow> (\<forall>q. prev = Some q \<longrightarrow> list_all seg_safe q) \<Longrightarrow>
     ref_path paths prev r = Inr p \<Longrightarrow> list_all seg_safe p"
  by (cases r rule: ref_ok.cases)
    (auto simp: table_safe_def list_all_iff dest!: map_of_SomeD split: option.splits)

lemma decode_one_ok:
  "wire_ok w \<Longrightarrow> list_all seg_safe p \<Longrightarrow> decode_one w p = Inr op \<Longrightarrow> op_ok op"
  by (cases w) (auto split: if_splits)

lemma decode_loop_safe:
  "decode_loop paths prev raws = Inr (ops, paths') \<Longrightarrow> table_safe paths \<Longrightarrow>
     (\<forall>q. prev = Some q \<longrightarrow> list_all seg_safe q) \<Longrightarrow> list_all op_ok ops \<and> table_safe paths'"
proof (induction raws arbitrary: paths prev ops)
  case (Cons raw raws)
  from Cons.prems(1) obtain w where w: "assert_valid_wire_op raw = Inr w"
    by (auto simp: decode_loop.simps(2) res_simps)
  have ok: "wire_ok w" by (rule wire_safe[OF w])
  show ?case
  proof (cases "(\<exists>i p. w = WDef i p) \<or> (\<exists>v. w = WR v)")
    case True
    then show ?thesis
    proof (elim disjE exE)
      fix i p assume def: "w = WDef i p"
      with Cons.prems(1) w have "decode_loop ((i, p) # paths) prev raws = Inr (ops, paths')"
        by (simp add: decode_loop.simps(2))
      moreover have "table_safe ((i, p) # paths)" using def ok Cons.prems(2) by (simp add: table_safe_def)
      ultimately show ?thesis using Cons.IH Cons.prems(3) by blast
    next
      fix v assume "w = WR v"
      with Cons.prems(1) w obtain os where os: "decode_loop [] None raws = Inr (os, paths')" "ops = OpR v # os"
        by (auto simp: decode_loop.simps(2) res_simps)
      from Cons.IH[OF os(1)] os(2) show ?thesis by (simp add: table_safe_def)
    qed
  next
    case False
    then have shape: "(case w of WDef i p \<Rightarrow> a i p | WR v \<Rightarrow> b v | _ \<Rightarrow> c) = c" for a b and c :: 'z
      by (cases w) auto
    from Cons.prems(1) w obtain p op os where *: "ref_path paths prev (wire_ref w) = Inr p"
      "decode_one w p = Inr op" "decode_loop paths (Some p) raws = Inr (os, paths')" "ops = op # os"
      by (auto simp: decode_loop.simps(2) shape res_simps)
    have "ref_ok (wire_ref w)" using ok False by (cases w) auto
    from ref_path_safe[OF Cons.prems(2) this Cons.prems(3) *(1)] have p: "list_all seg_safe p" .
    with Cons.IH[OF *(3) Cons.prems(2)] decode_one_ok[OF ok p *(2)] *(4) show ?thesis by simp
  qed
qed simp

text \<open>
  C7: the decoder is safe on any input. Whatever tuples a peer sends, if a batch is decoded then
  every operation in it is well formed (it passes \<open>assertValidOp\<close>), and the table of interned
  paths stays safe for the next batch.
\<close>

theorem decode_safe:
  assumes "table_safe paths" "decode paths raws = Inr (ops, paths')"
  shows "list_all (\<lambda>op. assert_valid_op (op_json op) = Inr op) ops \<and> table_safe paths'"
proof -
  from decode_loop_safe[of paths None raws ops paths'] assms have "list_all op_ok ops \<and> table_safe paths'"
    by (simp add: decode_def)
  then show ?thesis by (auto simp: list_all_iff assert_valid_op_complete)
qed

theorem decode_safe_witness:
  "list_all (\<lambda>op. assert_valid_op (op_json op) = Inr op) [OpD [Key ''a'']] \<and> table_safe [(0, [Key ''a''])]"
proof (rule decode_safe)
  show "decode [] [wire_json (WDef 0 [Key ''a'']), wire_json (WD (Some (Ref 0)))] =
      Inr ([OpD [Key ''a'']], [(0, [Key ''a''])])" by code_simp
qed (simp add: table_safe_def)

end
