(* ===== verification/Delta_Heap.thy ===== *)
theory Delta_Heap
  imports Delta_Apply
begin

text \<open>
  The copying applier of \<open>packages/chord/src/delta/index.ts\<close>, \<open>applyImmutableBatches\<close>, over an
  explicit heap: a container is a cell, a value that holds it is a reference, and \<open>apply\<close> changes
  cells in place. A replay copies each container it touches once and keeps the copies in the weak
  set \<open>owned\<close>, whose members it may change.
\<close>

section \<open>The heap\<close>

datatype hval = Val prim | Ref nat

datatype cell = HArr "hval list" | HObj "(string \<times> hval) list"

record store =
  cells :: "cell list"
  owned :: "nat list"

datatype hop =
    HR hval
  | HS path hval
  | HD path
  | HA path string
  | HT path nat
  | HP path nat nat "hval list"
  | HM path "nat list"

fun hop_path :: "hop \<Rightarrow> path" where
  "hop_path (HR _) = []"
| "hop_path (HS p _) = p"
| "hop_path (HD p) = p"
| "hop_path (HA p _) = p"
| "hop_path (HT p _) = p"
| "hop_path (HP p _ _ _) = p"
| "hop_path (HM p _) = p"

text \<open>What the validator sees of a tuple: it does not look into the values it carries.\<close>

fun hop_shape :: "hop \<Rightarrow> op" where
  "hop_shape (HR _) = OpR (Prim PNull)"
| "hop_shape (HS p _) = OpS p (Prim PNull)"
| "hop_shape (HD p) = OpD p"
| "hop_shape (HA p t) = OpA p t"
| "hop_shape (HT p n) = OpT p n"
| "hop_shape (HP p i r vs) = OpP p i r (map (\<lambda>_. Prim PNull) vs)"
| "hop_shape (HM p is) = OpM p is"

text \<open>A new container of the replay, \<open>owned.add\<close> included; and a change of one.\<close>

definition new_owned :: "cell \<Rightarrow> store \<Rightarrow> nat \<times> store" where
  "new_owned c s = (length (cells s), s\<lparr>cells := cells s @ [c], owned := length (cells s) # owned s\<rparr>)"

definition put_cell :: "nat \<Rightarrow> cell \<Rightarrow> store \<Rightarrow> store" where
  "put_cell a c s = s\<lparr>cells := (cells s)[a := c]\<rparr>"

text \<open>Own properties. An array also has its indexes as strings, and its length.\<close>

fun has_own :: "cell \<Rightarrow> seg \<Rightarrow> bool" where
  "has_own (HArr vs) (Idx i) = (i < length vs)"
| "has_own (HArr vs) (Key k) = (k = ''length'' \<or> k \<in> set (map nat_text [0..<length vs]))"
| "has_own (HObj kvs) s = (map_of kvs (seg_text s) \<noteq> None)"

fun child :: "cell \<Rightarrow> seg \<Rightarrow> hval option" where
  "child (HArr vs) (Idx i) = (if i < length vs then Some (vs ! i) else None)"
| "child (HArr vs) (Key k) = None"
| "child (HObj kvs) s = map_of kvs (seg_text s)"

text \<open>\<open>Object.defineProperty\<close> of a data property; an array is only ever written at a number.\<close>

fun put_child :: "seg \<Rightarrow> hval \<Rightarrow> cell \<Rightarrow> cell" where
  "put_child (Idx i) v (HArr vs) = HArr (write_arr i v vs)"
| "put_child (Key k) v (HArr vs) = HArr vs"
| "put_child s v (HObj kvs) = HObj (obj_put (seg_text s) v kvs)"

section \<open>In place\<close>

fun walk :: "path \<Rightarrow> cell list \<Rightarrow> path \<Rightarrow> hval \<Rightarrow> (delta_error, hval) result" where
  "walk full h [] v = Inr v"
| "walk full h (s # p) (Val _) = Inl (PathErr full)"
| "walk full h (s # p) (Ref a) =
     (case h ! a of
        HArr vs \<Rightarrow>
          (case s of
             Key k \<Rightarrow> Inl (UnsafePath (seg_json s))
           | Idx i \<Rightarrow> if i < length vs then walk full h p (vs ! i) else Inl (PathErr full))
      | HObj kvs \<Rightarrow>
          (case map_of kvs (seg_text s) of
             None \<Rightarrow> Inl (PathErr full)
           | Some v \<Rightarrow> walk full h p v))"

definition resolve_ref :: "path \<Rightarrow> cell list \<Rightarrow> hval option \<Rightarrow> (delta_error, nat) result" where
  "resolve_ref p h root =
     (case root of
        None \<Rightarrow> Inl (PathErr p)
      | Some v \<Rightarrow> bind_res (walk p h p v) (\<lambda>t. case t of Val _ \<Rightarrow> Inl (PathErr p) | Ref a \<Rightarrow> Inr a))"

fun hval_text :: "hval option \<Rightarrow> string option" where
  "hval_text (Some (Val (PStr c))) = Some c"
| "hval_text _ = None"

fun leaf_array :: "hop \<Rightarrow> path \<Rightarrow> nat \<Rightarrow> hval list \<Rightarrow> (delta_error, hval list) result" where
  "leaf_array op p i vs =
     (let current = hval_text (if i < length vs then Some (vs ! i) else None) in
      case op of
        HS _ v \<Rightarrow> Inr (write_arr i v vs)
      | HD _ \<Rightarrow> if i \<ge> length vs then Inl (PathErr p) else Inr (splice_list i 1 [] vs)
      | HA _ t \<Rightarrow> (case current of None \<Rightarrow> Inl (PathErr p) | Some c \<Rightarrow> Inr (write_arr i (Val (PStr (c @ t))) vs))
      | HT _ n \<Rightarrow> (case current of None \<Rightarrow> Inl (PathErr p) | Some c \<Rightarrow> Inr (write_arr i (Val (PStr (drop n c))) vs))
      | _ \<Rightarrow> Inr vs)"

fun leaf_object :: "hop \<Rightarrow> path \<Rightarrow> string \<Rightarrow> (string \<times> hval) list \<Rightarrow> (delta_error, (string \<times> hval) list) result" where
  "leaf_object op p k kvs =
     (let current = hval_text (map_of kvs k) in
      case op of
        HS _ v \<Rightarrow> Inr (obj_put k v kvs)
      | HD _ \<Rightarrow> Inr (obj_del k kvs)
      | HA _ t \<Rightarrow> (case current of None \<Rightarrow> Inl (PathErr p) | Some c \<Rightarrow> Inr (obj_put k (Val (PStr (c @ t))) kvs))
      | HT _ n \<Rightarrow> (case current of None \<Rightarrow> Inl (PathErr p) | Some c \<Rightarrow> Inr (obj_put k (Val (PStr (drop n c))) kvs))
      | _ \<Rightarrow> Inr kvs)"

fun leaf_cell :: "hop \<Rightarrow> path \<Rightarrow> seg \<Rightarrow> cell \<Rightarrow> (delta_error, cell) result" where
  "leaf_cell op p (Key k) (HArr vs) = Inl (UnsafePath (seg_json (Key k)))"
| "leaf_cell op p (Idx i) (HArr vs) =
     (if i > length vs then Inl (UnsafePath (seg_json (Idx i))) else bind_res (leaf_array op p i vs) (\<lambda>vs. Inr (HArr vs)))"
| "leaf_cell op p key (HObj kvs) = bind_res (leaf_object op p (seg_text key) kvs) (\<lambda>kvs. Inr (HObj kvs))"

fun splice_cell :: "path \<Rightarrow> nat \<Rightarrow> nat \<Rightarrow> hval list \<Rightarrow> cell \<Rightarrow> (delta_error, cell) result" where
  "splice_cell p i r items (HArr vs) = Inr (HArr (splice_op i r items vs))"
| "splice_cell p i r items (HObj _) = Inl (PathErr p)"

fun permute_cell :: "path \<Rightarrow> nat list \<Rightarrow> cell \<Rightarrow> (delta_error, cell) result" where
  "permute_cell p is (HArr vs) = (if length vs = length is then Inr (HArr (map (\<lambda>i. vs ! i) is)) else Inl (PathErr p))"
| "permute_cell p is (HObj _) = Inl (PathErr p)"

text \<open>The path of the cell an operation changes, and the change.\<close>

definition cell_path :: "hop \<Rightarrow> path" where
  "cell_path op = (case op of HP p _ _ _ \<Rightarrow> p | HM p _ \<Rightarrow> p | _ \<Rightarrow> butlast (hop_path op))"

definition change_cell :: "hop \<Rightarrow> cell \<Rightarrow> (delta_error, cell) result" where
  "change_cell op =
     (case op of
        HP p i r items \<Rightarrow> splice_cell p i r items
      | HM p is \<Rightarrow> permute_cell p is
      | _ \<Rightarrow> leaf_cell op (hop_path op) (last (hop_path op)))"

text \<open>\<open>applyOps(root, [op])\<close> for an operation other than a replacement, which is already validated.\<close>

definition apply_in_place :: "hop \<Rightarrow> hval option \<Rightarrow> store \<Rightarrow> (delta_error, hval option) result \<times> store" where
  "apply_in_place op root s =
     (case resolve_ref (cell_path op) (cells s) root of
        Inl e \<Rightarrow> (Inl e, s)
      | Inr a \<Rightarrow>
          (case change_cell op (cells s ! a) of
             Inl e \<Rightarrow> (Inl e, s)
           | Inr c \<Rightarrow> (Inr root, put_cell a c s)))"

section \<open>Copying\<close>

text \<open>The loop of \<open>copyContainers\<close> below the copied root; \<open>d\<close> is \<open>destination\<close>.\<close>

fun copy_down :: "path \<Rightarrow> nat \<Rightarrow> path \<Rightarrow> store \<Rightarrow> (delta_error, nat) result \<times> store" where
  "copy_down full d [] s = (Inr d, s)"
| "copy_down full d (seg # p) s =
     (let c = cells s ! d in
      if \<not> has_own c seg then (Inl (PathErr full), s)
      else
        (case child c seg of
           None \<Rightarrow> (Inl (UnsafePath (seg_json seg)), s)
         | Some (Val _) \<Rightarrow> (Inl (PathErr full), s)
         | Some (Ref a) \<Rightarrow>
             if a \<in> set (owned s) then copy_down full a p s
             else
               (let (b, s1) = new_owned (cells s ! a) s in
                copy_down full b p (put_cell d (put_child seg (Ref b) (cells s1 ! d)) s1))))"

definition copy_root :: "nat \<Rightarrow> store \<Rightarrow> nat \<times> store" where
  "copy_root a s = (if a \<in> set (owned s) then (a, s) else new_owned (cells s ! a) s)"

definition copy_containers :: "hval option \<Rightarrow> path \<Rightarrow> store \<Rightarrow> (delta_error, hval) result \<times> store" where
  "copy_containers root p s =
     (case root of
        Some (Ref a) \<Rightarrow>
          (let (d, s1) = copy_root a s;
               (r, s2) = copy_down p d p s1
           in (bind_res r (\<lambda>_. Inr (Ref d)), s2))
      | _ \<Rightarrow> (Inl (PathErr p), s))"

text \<open>The plain walk of \<open>appendCopy\<close>: strings name properties of objects and numbers items of arrays.\<close>

fun plain_walk :: "cell list \<Rightarrow> path \<Rightarrow> hval \<Rightarrow> hval option" where
  "plain_walk h [] v = Some v"
| "plain_walk h (s # p) (Val _) = None"
| "plain_walk h (s # p) (Ref a) =
     (case (s, h ! a) of
        (Key k, HObj kvs) \<Rightarrow> if reserved k then None else (case map_of kvs k of None \<Rightarrow> None | Some v \<Rightarrow> plain_walk h p v)
      | (Idx i, HArr vs) \<Rightarrow> if i < length vs then plain_walk h p (vs ! i) else None
      | _ \<Rightarrow> None)"

definition append_copy :: "hval option \<Rightarrow> path \<Rightarrow> nat \<Rightarrow> nat \<Rightarrow> hval list \<Rightarrow> store \<Rightarrow>
    ((delta_error, hval) result \<times> store) option" where
  "append_copy root p i r items s =
     (case (if r \<noteq> 0 then None else Option.bind root (plain_walk (cells s) p)) of
        Some (Ref a) \<Rightarrow>
          (case cells s ! a of
             HArr vs \<Rightarrow>
               if a \<in> set (owned s) \<or> i \<noteq> length vs then None
               else
                 (let (b, s1) = new_owned (HArr (vs @ items)) s in
                  if p = [] then Some (Inr (Ref b), s1)
                  else
                    (case copy_containers root (butlast p) s1 of
                       (Inl e, s2) \<Rightarrow> Some (Inl e, s2)
                     | (Inr root', s2) \<Rightarrow>
                         (case resolve_ref (butlast p) (cells s2) (Some root') of
                            Inl e \<Rightarrow> Some (Inl e, s2)
                          | Inr d \<Rightarrow> Some (Inr root', put_cell d (put_child (last p) (Ref b) (cells s2 ! d)) s2))))
           | HObj _ \<Rightarrow> None)
      | _ \<Rightarrow> None)"

definition immutable_step :: "hop \<Rightarrow> hval option \<Rightarrow> store \<Rightarrow> (delta_error, hval option) result \<times> store" where
  "immutable_step op root s =
     (case assert_valid_op (op_json (hop_shape op)) of
        Inl e \<Rightarrow> (Inl e, s)
      | Inr _ \<Rightarrow>
          (case op of
             HR v \<Rightarrow> (Inr (Some v), s)
           | _ \<Rightarrow>
               (case (case op of HP p i r items \<Rightarrow> append_copy root p i r items s | _ \<Rightarrow> None) of
                  Some (r, s1) \<Rightarrow> (map_sum id Some r, s1)
                | None \<Rightarrow>
                    (case copy_containers root (cell_path op) s of
                       (Inl e, s1) \<Rightarrow> (Inl e, s1)
                     | (Inr root', s1) \<Rightarrow> apply_in_place op (Some root') s1))))"

fun immutable_ops :: "hop list \<Rightarrow> hval option \<Rightarrow> store \<Rightarrow> (delta_error, hval option) result \<times> store" where
  "immutable_ops [] root s = (Inr root, s)"
| "immutable_ops (op # ops) root s =
     (case immutable_step op root s of
        (Inl e, s1) \<Rightarrow> (Inl e, s1)
      | (Inr root', s1) \<Rightarrow> immutable_ops ops root' s1)"

text \<open>One weak set for all batches of a replay.\<close>

definition apply_immutable_batches :: "hop list list \<Rightarrow> hval option \<Rightarrow> cell list \<Rightarrow>
    (delta_error, hval option) result \<times> cell list" where
  "apply_immutable_batches batches root h =
     (case immutable_ops (concat batches) root \<lparr>cells = h, owned = []\<rparr> of (r, s) \<Rightarrow> (r, cells s))"

definition apply_immutable :: "hop list \<Rightarrow> hval option \<Rightarrow> cell list \<Rightarrow> (delta_error, hval option) result \<times> cell list" where
  "apply_immutable ops = apply_immutable_batches [ops]"

end
