(* ===== verification/Delta_Owned.thy ===== *)
theory Delta_Owned
  imports Delta_Heap
begin

text \<open>
  What a heap value denotes, and ownership: the containers a replay copied form trees over the old
  heap, each reached once, so that changing one in place changes the document at its path only.
\<close>

section \<open>Values of a heap\<close>

fun hvals :: "cell \<Rightarrow> hval list" where
  "hvals (HArr vs) = vs"
| "hvals (HObj kvs) = map snd kvs"

fun jvals :: "json \<Rightarrow> json list" where
  "jvals (Prim p) = []"
| "jvals (Arr js) = js"
| "jvals (Obj js) = map snd js"

fun shape :: "cell \<Rightarrow> json \<Rightarrow> bool" where
  "shape (HArr vs) (Arr js) = True"
| "shape (HObj kvs) (Obj js) = (map fst kvs = map fst js \<and> distinct (map fst js))"
| "shape _ _ = False"

inductive den :: "cell list \<Rightarrow> hval \<Rightarrow> json \<Rightarrow> bool" for h where
  den_prim: "den h (Val p) (Prim p)"
| den_ref: "a < length h \<Longrightarrow> shape (h ! a) j \<Longrightarrow> list_all2 (den h) (hvals (h ! a)) (jvals j) \<Longrightarrow> den h (Ref a) j"

inductive_cases den_valE: "den h (Val p) j"
inductive_cases den_refE: "den h (Ref a) j"

text \<open>
  \<open>own h0 h v j A\<close>: in the heap \<open>h\<close>, which grew from \<open>h0\<close>, \<open>v\<close> denotes \<open>j\<close>; its containers that are not
  of \<open>h0\<close> lie in \<open>A\<close>, and none of them is reached twice.
\<close>

inductive own :: "cell list \<Rightarrow> cell list \<Rightarrow> hval \<Rightarrow> json \<Rightarrow> nat set \<Rightarrow> bool"
  and owns :: "cell list \<Rightarrow> cell list \<Rightarrow> hval list \<Rightarrow> json list \<Rightarrow> nat set \<Rightarrow> bool" for h0 h where
  own_old: "den h0 v j \<Longrightarrow> own h0 h v j A"
| own_new: "length h0 \<le> a \<Longrightarrow> a < length h \<Longrightarrow> shape (h ! a) j \<Longrightarrow> owns h0 h (hvals (h ! a)) (jvals j) B \<Longrightarrow>
    a \<notin> B \<Longrightarrow> insert a B \<subseteq> A \<Longrightarrow> own h0 h (Ref a) j A"
| owns_Nil: "owns h0 h [] [] C"
| owns_Cons: "own h0 h v j A \<Longrightarrow> owns h0 h vs js B \<Longrightarrow> A \<inter> B = {} \<Longrightarrow> A \<union> B \<subseteq> C \<Longrightarrow> owns h0 h (v # vs) (j # js) C"

inductive_cases own_cases: "own h0 h v j A"
inductive_cases owns_ConsE: "owns h0 h (v # vs) js C"
inductive_cases owns_NilE: "owns h0 h [] js C"

definition holds :: "cell list \<Rightarrow> cell list \<Rightarrow> cell \<Rightarrow> json \<Rightarrow> nat set \<Rightarrow> bool" where
  "holds h0 h c j B \<longleftrightarrow> shape c j \<and> owns h0 h (hvals c) (jvals j) B"

lemma own_mono: "own h0 h v j A \<Longrightarrow> A \<subseteq> A' \<Longrightarrow> own h0 h v j A'"
  by (erule own_cases) (blast intro: own_old own_new)+

lemma owns_mono: "owns h0 h vs js C \<Longrightarrow> C \<subseteq> C' \<Longrightarrow> owns h0 h vs js C'"
  by (erule owns.cases) (auto simp: owns_Nil intro!: owns_Cons)

lemma holds_mono: "holds h0 h c j B \<Longrightarrow> B \<subseteq> B' \<Longrightarrow> holds h0 h c j B'"
  by (auto simp: holds_def intro: owns_mono)

definition agree :: "nat set \<Rightarrow> cell list \<Rightarrow> cell list \<Rightarrow> bool" where
  "agree A h h' \<longleftrightarrow> (\<forall>a \<in> A. a < length h \<longrightarrow> a < length h' \<and> h' ! a = h ! a)"

lemma agree_subset: "agree A h h' \<Longrightarrow> B \<subseteq> A \<Longrightarrow> agree B h h'"
  by (auto simp: agree_def)

lemma agree_at: "agree A h h' \<Longrightarrow> a \<in> A \<Longrightarrow> a < length h \<Longrightarrow> a < length h' \<and> h' ! a = h ! a"
  by (simp add: agree_def)

lemma frame:
  "own h0 h v j A \<Longrightarrow> agree A h h' \<Longrightarrow> own h0 h' v j A"
  "owns h0 h vs js C \<Longrightarrow> agree C h h' \<Longrightarrow> owns h0 h' vs js C"
proof (induction rule: own_owns.inducts)
  case (own_new a j B A)
  have "agree B h h'" "a \<in> A" using agree_subset[OF own_new(8)] own_new(7) by simp_all
  with own_new(5) agree_at[OF own_new(8) this(2) own_new(2)] own_new(1,3,6,7) show ?case
    by - (rule own_owns.own_new[of h0 a h' j B A], simp_all)
next
  case (owns_Cons v j A vs js B C)
  have "agree A h h'" "agree B h h'" using agree_subset[OF owns_Cons(7)] owns_Cons(6) by simp_all
  with owns_Cons(2,4,5,6) show ?case by (simp add: own_owns.owns_Cons[of h0 h' v j A vs js B C])
qed (simp_all add: own_old owns_Nil)

lemma holds_frame: "holds h0 h c j B \<Longrightarrow> agree B h h' \<Longrightarrow> holds h0 h' c j B"
  by (auto simp: holds_def intro: frame(2))

lemma own_length: "owns h0 h vs js C \<Longrightarrow> length js = length vs"
  by (induction vs arbitrary: js C) (auto elim!: owns_NilE owns_ConsE)

lemma own_cell:
  assumes "own h0 h (Ref a) j A" "length h0 \<le> a"
  obtains B where "a < length h" "holds h0 h (h ! a) j B" "a \<notin> B" "insert a B \<subseteq> A"
  using assms by (auto elim!: own_cases den_refE simp: holds_def)

lemma own_of_cell:
  "length h0 \<le> a \<Longrightarrow> a < length h \<Longrightarrow> holds h0 h (h ! a) j B \<Longrightarrow> a \<notin> B \<Longrightarrow> insert a B \<subseteq> A \<Longrightarrow> own h0 h (Ref a) j A"
  unfolding holds_def by (blast intro: own_new)

lemma owns_old: "list_all2 (den h0) vs js \<Longrightarrow> owns h0 h vs js C"
  by (induction vs js arbitrary: C rule: list_all2_induct) (auto intro: owns_Nil owns_Cons[of _ _ _ _ "{}" _ _ "{}"] own_old)

lemma own_old_den: "own h0 h (Ref a) j A \<Longrightarrow> a < length h0 \<Longrightarrow> den h0 (Ref a) j"
  by (auto elim!: own_cases)

lemma den_holds: "den h0 (Ref a) j \<Longrightarrow> a < length h0 \<and> holds h0 h' (h0 ! a) j B"
  by (auto elim!: den_refE simp: holds_def intro: owns_old)

lemma own_prim: "own h0 h (Val p) j A \<longleftrightarrow> j = Prim p"
  by (auto elim!: own_cases den_valE intro: own_old den_prim)

section \<open>Lists of owned values\<close>

lemma owns_append:
  "owns h0 h xs js A \<Longrightarrow> owns h0 h ys ks B \<Longrightarrow> A \<inter> B = {} \<Longrightarrow> A \<union> B \<subseteq> C \<Longrightarrow> owns h0 h (xs @ ys) (js @ ks) C"
proof (induction xs arbitrary: js A C)
  case Nil
  then show ?case by (auto elim!: owns_NilE intro: owns_mono)
next
  case (Cons x xs)
  then obtain j js' A1 A2 where x: "js = j # js'" "own h0 h x j A1" "owns h0 h xs js' A2" "A1 \<inter> A2 = {}" "A1 \<union> A2 \<subseteq> A"
    by (auto elim!: owns_ConsE)
  have "owns h0 h (xs @ ys) (js' @ ks) (A2 \<union> B)" using Cons.IH[OF x(3) Cons.prems(2)] Cons.prems(3) x(5) by blast
  with x Cons.prems show ?case by (auto intro!: owns_Cons[of _ _ _ _ A1 _ _ "A2 \<union> B"])
qed

lemma owns_split:
  "owns h0 h vs js C \<Longrightarrow> \<exists>A B. owns h0 h (take n vs) (take n js) A \<and> owns h0 h (drop n vs) (drop n js) B \<and> A \<inter> B = {} \<and> A \<union> B \<subseteq> C"
proof (induction vs arbitrary: n js C)
  case Nil
  then show ?case by (auto elim!: owns_NilE intro!: exI[of _ "{}"] owns_Nil)
next
  case (Cons v vs)
  then obtain j js' A1 A2 where v: "js = j # js'" "own h0 h v j A1" "owns h0 h vs js' A2" "A1 \<inter> A2 = {}" "A1 \<union> A2 \<subseteq> C"
    by (auto elim!: owns_ConsE)
  show ?case
  proof (cases n)
    case 0
    with Cons.prems show ?thesis by (intro exI[of _ "{}"] exI[of _ C]) (simp add: owns_Nil)
  next
    case (Suc m)
    from Cons.IH[OF v(3), of m] obtain A B where
      "owns h0 h (take m vs) (take m js') A" "owns h0 h (drop m vs) (drop m js') B" "A \<inter> B = {}" "A \<union> B \<subseteq> A2" by blast
    with v Suc show ?thesis
      by (intro exI[of _ "A1 \<union> A"] exI[of _ B]) (auto intro!: owns_Cons[of _ _ _ _ A1 _ _ A])
  qed
qed

text \<open>Taking one out: the others stay owned, and another value may come in its place.\<close>

lemma owns_nth:
  assumes "owns h0 h vs js C" "i < length vs"
  obtains A B where "own h0 h (vs ! i) (js ! i) A" "A \<inter> B = {}" "A \<union> B \<subseteq> C"
    "\<And>h' v j A'. agree B h h' \<Longrightarrow> own h0 h' v j A' \<Longrightarrow> A' \<inter> B = {} \<Longrightarrow>
       owns h0 h' (vs[i := v]) (js[i := j]) (A' \<union> B)"
proof -
  from owns_split[OF assms(1), of i] obtain B1 B' where
    b: "owns h0 h (take i vs) (take i js) B1" "owns h0 h (drop i vs) (drop i js) B'" "B1 \<inter> B' = {}" "B1 \<union> B' \<subseteq> C" by blast
  have len: "i < length js" using own_length[OF assms(1)] assms(2) by simp
  have "drop i vs = vs ! i # drop (Suc i) vs" "drop i js = js ! i # drop (Suc i) js"
    using assms(2) len by (simp_all add: Cons_nth_drop_Suc)
  with b(2) obtain A B2 where a: "own h0 h (vs ! i) (js ! i) A" "owns h0 h (drop (Suc i) vs) (drop (Suc i) js) B2"
    "A \<inter> B2 = {}" "A \<union> B2 \<subseteq> B'" by (auto elim!: owns_ConsE)
  show ?thesis
  proof (rule that[of A "B1 \<union> B2"])
    show "own h0 h (vs ! i) (js ! i) A" by (rule a)
    show "A \<inter> (B1 \<union> B2) = {}" "A \<union> (B1 \<union> B2) \<subseteq> C" using a b by auto
    fix h' v j A'
    assume fr: "agree (B1 \<union> B2) h h'" and new: "own h0 h' v j A'" "A' \<inter> (B1 \<union> B2) = {}"
    have "owns h0 h' (take i vs) (take i js) B1" "owns h0 h' (drop (Suc i) vs) (drop (Suc i) js) B2"
      using frame(2)[OF b(1)] frame(2)[OF a(2)] agree_subset[OF fr] by simp_all
    moreover have "B1 \<inter> B2 = {}" using a b by auto
    ultimately have "owns h0 h' (take i vs @ v # drop (Suc i) vs) (take i js @ j # drop (Suc i) js) (A' \<union> (B1 \<union> B2))"
      using new by (intro owns_append[of _ _ _ _ B1 _ _ "A' \<union> B2"] owns_Cons[of _ _ _ _ A' _ _ B2]) auto
    then show "owns h0 h' (vs[i := v]) (js[i := j]) (A' \<union> (B1 \<union> B2))"
      using assms(2) len by (simp add: upd_conv_take_nth_drop)
  qed
qed

text \<open>A family of disjoint owners, so that a reordering stays owned.\<close>

lemma owns_family:
  "owns h0 h vs js C \<Longrightarrow> \<exists>F. (\<forall>i < length vs. own h0 h (vs ! i) (js ! i) (F i) \<and> F i \<subseteq> C) \<and>
     (\<forall>i j. i < length vs \<longrightarrow> j < length vs \<longrightarrow> i \<noteq> j \<longrightarrow> F i \<inter> F j = {})"
proof (induction vs arbitrary: js C)
  case (Cons v vs)
  then obtain j js' A B where v: "js = j # js'" "own h0 h v j A" "owns h0 h vs js' B" "A \<inter> B = {}" "A \<union> B \<subseteq> C"
    by (auto elim!: owns_ConsE)
  from Cons.IH[OF v(3)] obtain F where F: "\<And>i. i < length vs \<Longrightarrow> own h0 h (vs ! i) (js' ! i) (F i) \<and> F i \<subseteq> B"
    "\<And>i j. i < length vs \<Longrightarrow> j < length vs \<Longrightarrow> i \<noteq> j \<Longrightarrow> F i \<inter> F j = {}" by blast
  let ?G = "\<lambda>i. case i of 0 \<Rightarrow> A | Suc k \<Rightarrow> F k"
  have "own h0 h ((v # vs) ! i) (js ! i) (?G i) \<and> ?G i \<subseteq> C" if "i < length (v # vs)" for i
    using that v F(1) by (cases i) force+
  moreover have "?G i \<inter> ?G j = {}" if "i < length (v # vs)" "j < length (v # vs)" "i \<noteq> j" for i j
    using that v(4) F by (cases i; cases j) fastforce+
  ultimately show ?case by blast
qed (auto elim!: owns_NilE)

lemma owns_pick:
  assumes F: "\<And>i. i < length vs \<Longrightarrow> own h0 h (vs ! i) (js ! i) (F i) \<and> F i \<subseteq> C"
    and disj: "\<And>i j. i < length vs \<Longrightarrow> j < length vs \<Longrightarrow> i \<noteq> j \<Longrightarrow> F i \<inter> F j = {}"
  shows "distinct is \<Longrightarrow> set is \<subseteq> {..<length vs} \<Longrightarrow> owns h0 h (map ((!) vs) is) (map ((!) js) is) (\<Union>i \<in> set is. F i)"
proof (induction "is")
  case (Cons i "is")
  then have "own h0 h (vs ! i) (js ! i) (F i)" "owns h0 h (map ((!) vs) is) (map ((!) js) is) (\<Union>i \<in> set is. F i)"
    using F by auto
  moreover have "F i \<inter> (\<Union>i \<in> set is. F i) = {}" using Cons.prems disj by fastforce
  ultimately show ?case by (auto intro: owns_Cons)
qed (simp add: owns_Nil)

lemma owns_permute:
  assumes "owns h0 h vs js C" "distinct is" "set is \<subseteq> {..<length vs}"
  shows "owns h0 h (map ((!) vs) is) (map ((!) js) is) C"
proof -
  from owns_family[OF assms(1)] obtain F where F: "\<And>i. i < length vs \<Longrightarrow> own h0 h (vs ! i) (js ! i) (F i) \<and> F i \<subseteq> C"
    "\<And>i j. i < length vs \<Longrightarrow> j < length vs \<Longrightarrow> i \<noteq> j \<Longrightarrow> F i \<inter> F j = {}" by blast
  have "(\<Union>i \<in> set is. F i) \<subseteq> C" using F(1) assms(3) by blast
  with owns_pick[OF F assms(2,3)] show ?thesis by (blast intro: owns_mono)
qed

lemma owns_filter:
  "owns h0 h (map snd kvs) (map snd js) C \<Longrightarrow> map fst kvs = map fst js \<Longrightarrow>
     owns h0 h (map snd (filter (\<lambda>(k, _). P k) kvs)) (map snd (filter (\<lambda>(k, _). P k) js)) C"
proof (induction kvs arbitrary: js C)
  case (Cons kv kvs)
  then obtain k v j js' where kv: "kv = (k, v)" "js = (k, j) # js'" by (cases kv; cases js) auto
  with Cons.prems(1) obtain A B where b: "own h0 h v j A" "owns h0 h (map snd kvs) (map snd js') B" "A \<inter> B = {}" "A \<union> B \<subseteq> C"
    by (auto elim!: owns_ConsE)
  have "owns h0 h (map snd (filter (\<lambda>(k, _). P k) kvs)) (map snd (filter (\<lambda>(k, _). P k) js')) B"
    using Cons.IH[OF b(2)] Cons.prems(2) kv by simp
  with b kv show ?case by (auto intro: owns_Cons owns_mono)
qed (auto simp: owns_Nil)

section \<open>Properties of an object\<close>

lemma obj_put_known:
  assumes "i < length kvs" "fst (kvs ! i) = k" "distinct (map fst kvs)"
  shows "obj_put k v kvs = kvs[i := (k, v)]"
proof -
  have "k \<in> fst ` set kvs" using assms(1,2) by force
  moreover have "map (\<lambda>(k', v'). if k' = k then (k', v) else (k', v')) kvs = kvs[i := (k, v)]"
  proof (rule nth_equalityI)
    fix j assume j: "j < length (map (\<lambda>(k', v'). if k' = k then (k', v) else (k', v')) kvs)"
    have "fst (kvs ! j) = k \<longleftrightarrow> j = i"
      using assms j nth_eq_iff_index_eq[OF assms(3), of j i] by auto
    with j assms(1) show "map (\<lambda>(k', v'). if k' = k then (k', v) else (k', v')) kvs ! j = kvs[i := (k, v)] ! j"
      by (cases "kvs ! j") (auto simp: nth_list_update)
  qed simp
  ultimately show ?thesis by (simp add: obj_put_def)
qed

definition put_at :: "string \<Rightarrow> string list \<Rightarrow> nat" where
  "put_at k ks = (case key_index k of None \<Rightarrow> length ks
     | Some i \<Rightarrow> length (takeWhile (\<lambda>k. case key_index k of Some j \<Rightarrow> j < i | None \<Rightarrow> False) ks))"

lemma obj_put_new:
  assumes "k \<notin> set (map fst kvs)"
  shows "obj_put k v kvs = take (put_at k (map fst kvs)) kvs @ (k, v) # drop (put_at k (map fst kvs)) kvs"
proof (cases "key_index k")
  case None
  with assms show ?thesis by (simp add: obj_put_def insert_key_def put_at_def)
next
  case (Some i)
  have p: "key_before i = (\<lambda>k. case key_index k of Some j \<Rightarrow> j < i | None \<Rightarrow> False) \<circ> fst"
    by (auto simp: key_before_def fun_eq_iff)
  have "length (takeWhile (key_before i) kvs) = put_at k (map fst kvs)"
    by (simp add: put_at_def Some takeWhile_map p)
  then have "takeWhile (key_before i) kvs = take (put_at k (map fst kvs)) kvs"
    "dropWhile (key_before i) kvs = drop (put_at k (map fst kvs)) kvs"
    by (metis takeWhile_eq_take, metis dropWhile_eq_drop)
  with assms Some show ?thesis by (simp add: obj_put_def insert_key_def)
qed

end
