(* ===== verification/Delta_Focus.thy ===== *)
theory Delta_Focus
  imports Delta_Owned
begin

text \<open>
  A cell inside an owned value: the hole a child leaves in its container, and the path from a value
  to an owned cell below it, with what it denotes around another value there.
\<close>

section \<open>One child of a cell\<close>

fun jput :: "seg \<Rightarrow> json \<Rightarrow> json \<Rightarrow> json" where
  "jput (Idx i) x (Arr js) = Arr (js[i := x])"
| "jput s x (Obj js) = Obj (obj_put (seg_text s) x js)"
| "jput _ _ j = j"

text \<open>
  \<open>hole h0 h c j s v x B\<close>: the cell \<open>c\<close> denotes \<open>j\<close>, its child \<open>v\<close> at \<open>s\<close> denotes \<open>x\<close>, and the other
  children own \<open>B\<close>; another value in its place keeps them.
\<close>

definition hole :: "cell list \<Rightarrow> cell list \<Rightarrow> cell \<Rightarrow> json \<Rightarrow> seg \<Rightarrow> hval \<Rightarrow> json \<Rightarrow> nat set \<Rightarrow> bool" where
  "hole h0 h c j s v x B \<longleftrightarrow> child c s = Some v \<and>
     (\<forall>full p. resolve_value full (s # p) j = resolve_value full p x) \<and>
     (\<forall>full p f. at_path full (s # p) f j = bind_res (at_path full p f x) (\<lambda>y. Inr (jput s y j))) \<and>
     jput s x j = j \<and> put_child s v c = c \<and>
     (\<forall>h' v' y B'. agree B h h' \<longrightarrow> own h0 h' v' y B' \<longrightarrow> B' \<inter> B = {} \<longrightarrow>
        holds h0 h' (put_child s v' c) (jput s y j) (B' \<union> B))"

lemma map_of_nth_fst: "map_of kvs k = Some v \<Longrightarrow> \<exists>i < length kvs. kvs ! i = (k, v)"
  by (auto dest!: map_of_SomeD simp: in_set_conv_nth)

lemma obj_put_same: "map_of kvs k = Some v \<Longrightarrow> distinct (map fst kvs) \<Longrightarrow> obj_put k v kvs = kvs"
  using map_of_nth_fst[of kvs k v] obj_put_known[of _ kvs k v] by (metis fst_conv list_update_id)

lemma hole_arr:
  assumes "owns h0 h vs js C" "i < length vs"
  obtains A B where "own h0 h (vs ! i) (js ! i) A" "A \<inter> B = {}" "A \<union> B \<subseteq> C"
    "hole h0 h (HArr vs) (Arr js) (Idx i) (vs ! i) (js ! i) B"
proof -
  have len: "i < length js" using own_length[OF assms(1)] assms(2) by simp
  from owns_nth[OF assms] obtain A B where ab: "own h0 h (vs ! i) (js ! i) A" "A \<inter> B = {}" "A \<union> B \<subseteq> C"
    and re: "\<And>h' v j A'. agree B h h' \<Longrightarrow> own h0 h' v j A' \<Longrightarrow> A' \<inter> B = {} \<Longrightarrow> owns h0 h' (vs[i := v]) (js[i := j]) (A' \<union> B)"
    by metis
  have "hole h0 h (HArr vs) (Arr js) (Idx i) (vs ! i) (js ! i) B"
    using assms(2) len re by (simp add: hole_def holds_def write_arr_def)
  from that[OF ab this] show ?thesis .
qed

lemma hole_obj:
  assumes "owns h0 h (map snd kvs) (map snd js) C" "map fst kvs = map fst js" "distinct (map fst js)"
    and "map_of kvs (seg_text s) = Some v"
  obtains x A B where "own h0 h v x A" "A \<inter> B = {}" "A \<union> B \<subseteq> C" "hole h0 h (HObj kvs) (Obj js) s v x B"
proof -
  let ?k = "seg_text s"
  from map_of_nth_fst[OF assms(4)] obtain i where i: "i < length kvs" "kvs ! i = (?k, v)" by blast
  have len: "length js = length kvs" using arg_cong[OF assms(2), of length] by simp
  define x where "x = snd (js ! i)"
  have ji: "js ! i = (?k, x)" using i len nth_map[of i kvs fst] nth_map[of i js fst] assms(2) by (simp add: x_def prod_eq_iff)
  have dk: "distinct (map fst kvs)" using assms(2,3) by simp
  have mj: "map_of js ?k = Some x" using ji i len assms(3) by (metis map_of_eq_Some_iff nth_mem)
  have pk: "obj_put ?k v' kvs = kvs[i := (?k, v')]" for v' using obj_put_known[OF i(1) _ dk] i(2) by simp
  have pj: "obj_put ?k y js = js[i := (?k, y)]" for y using obj_put_known[of i js ?k] i len ji assms(3) by simp
  have vi: "map snd kvs ! i = v" "map snd js ! i = x" using i len ji by simp_all
  obtain A B where ab: "own h0 h v x A" "A \<inter> B = {}" "A \<union> B \<subseteq> C"
    and re: "\<And>h' v j A'. agree B h h' \<Longrightarrow> own h0 h' v j A' \<Longrightarrow> A' \<inter> B = {} \<Longrightarrow>
      owns h0 h' ((map snd kvs)[i := v]) ((map snd js)[i := j]) (A' \<union> B)"
    using owns_nth[OF assms(1), of i] i(1) vi by (metis length_map)
  have keys: "map fst (kvs[i := (?k, v')]) = map fst js" "map fst (js[i := (?k, y)]) = map fst js" for v' y
    using i ji len assms(2) by (simp_all add: map_update, metis fst_conv list_update_id nth_map, metis fst_conv list_update_id nth_map)
  have pc: "put_child s v' (HObj kvs) = HObj (kvs[i := (?k, v')])" "jput s y (Obj js) = Obj (js[i := (?k, y)])" for v' y
    unfolding pk[symmetric] pj[symmetric] by (cases s; simp)+
  have "holds h0 h' (put_child s v' (HObj kvs)) (jput s y (Obj js)) (B' \<union> B)"
    if "agree B h h'" "own h0 h' v' y B'" "B' \<inter> B = {}" for h' v' y B'
    using re[OF that] assms(3) unfolding pc holds_def shape.simps hvals.simps jvals.simps keys by (simp add: map_update)
  moreover have "jput s x (Obj js) = Obj js" using obj_put_same[OF mj assms(3)] by (cases s) simp_all
  moreover have "jput s y (Obj js) = Obj (obj_put ?k y js)" for y by (cases s) simp_all
  moreover have "child (HObj kvs) s = Some v" using assms(4) by (cases s) simp_all
  moreover have "put_child s v (HObj kvs) = HObj kvs" using obj_put_same[OF assms(4) dk] by (cases s) simp_all
  ultimately have "hole h0 h (HObj kvs) (Obj js) s v x B" using mj by (simp add: hole_def)
  from that[OF ab this] show ?thesis .
qed

lemma hole_intro:
  assumes "holds h0 h c j C" "child c s = Some v"
  obtains x A B where "own h0 h v x A" "A \<inter> B = {}" "A \<union> B \<subseteq> C" "hole h0 h c j s v x B"
proof (cases c)
  case (HArr vs)
  with assms(1) obtain js where j: "j = Arr js" "owns h0 h vs js C" by (cases j) (auto simp: holds_def)
  obtain i where i: "s = Idx i" "i < length vs" "v = vs ! i" using HArr assms(2) by (cases s) (auto split: if_splits)
  show ?thesis using hole_arr[OF j(2) i(2)] that HArr i j(1) by metis
next
  case (HObj kvs)
  with assms(1) obtain js where j: "j = Obj js" "owns h0 h (map snd kvs) (map snd js) C" "map fst kvs = map fst js" "distinct (map fst js)"
    by (cases j) (auto simp: holds_def)
  have "map_of kvs (seg_text s) = Some v" using HObj assms(2) by (cases s) simp_all
  from hole_obj[OF j(2-4) this] show ?thesis using that HObj j(1) by metis
qed

lemma child_none:
  assumes "holds h0 h c j C" "child c s = None"
  shows "\<exists>e. at_path full (s # p) f j = Inl e"
proof (cases c)
  case (HArr vs)
  with assms(1) obtain js where j: "j = Arr js" "owns h0 h vs js C" by (cases j) (auto simp: holds_def)
  from own_length[OF j(2)] have "length js = length vs" .
  with assms(2) HArr j(1) show ?thesis by (cases s) (auto split: if_splits)
next
  case (HObj kvs)
  with assms(1) obtain js where j: "j = Obj js" "map fst kvs = map fst js" by (cases j) (auto simp: holds_def)
  have "map_of kvs (seg_text s) = None" using HObj assms(2) by (cases s) simp_all
  then have "map_of js (seg_text s) = None" using j(2) unfolding map_of_eq_None_iff by (metis list.set_map)
  with j(1) show ?thesis by simp
qed

lemma has_own_child: "child c s = Some v \<Longrightarrow> has_own c s"
  by (cases c; cases s) (auto split: if_splits)

lemma hole_child: "hole h0 h c j s v x B \<Longrightarrow> child c s = Some v"
  by (simp add: hole_def)

lemma obj_put_twice: "k \<in> fst ` set kvs \<Longrightarrow> obj_put k v2 (obj_put k v1 kvs) = obj_put k v2 kvs"
  by (auto simp: obj_put_def image_iff split: prod.splits)

lemma put_child_twice:
  assumes "child c s = Some v"
  shows "child (put_child s v1 c) s = Some v1" "put_child s v2 (put_child s v1 c) = put_child s v2 c"
proof -
  have "k \<in> fst ` set kvs" if "map_of kvs k = Some v" for k and kvs :: "(string \<times> hval) list"
    using that by (metis domI dom_map_of_conv_image_fst)
  with assms show "child (put_child s v1 c) s = Some v1" "put_child s v2 (put_child s v1 c) = put_child s v2 c"
    by (cases c; cases s; auto simp: write_arr_def obj_put_twice split: if_splits)+
qed

lemma hole_put: "hole h0 h c j s v x B \<Longrightarrow> hole h0 h (put_child s v1 c) j s v1 x B"
  unfolding hole_def by (auto simp: put_child_twice)

lemma agree_trans: "agree B h h' \<Longrightarrow> agree B h' h'' \<Longrightarrow> agree B h h''"
  by (simp add: agree_def)

lemma hole_frame: "hole h0 h c j s v x B \<Longrightarrow> agree B h h' \<Longrightarrow> hole h0 h' c j s v x B"
  unfolding hole_def by (blast intro: agree_trans)

lemma hole_fill:
  "hole h0 h c j s v x B \<Longrightarrow> agree B h h' \<Longrightarrow> own h0 h' v' y B' \<Longrightarrow> B' \<inter> B = {} \<Longrightarrow>
     holds h0 h' (put_child s v' c) (jput s y j) (B' \<union> B)"
  by (simp add: hole_def)

section \<open>A cell below\<close>

text \<open>
  \<open>focus h0 h p v j t x T R g\<close>: the path \<open>p\<close> leads from \<open>v\<close>, which denotes \<open>j\<close>, to the cell \<open>t\<close>, which
  denotes \<open>x\<close> and owns \<open>T\<close>; \<open>g\<close> is \<open>j\<close> around another value there, and \<open>R\<close> what it owns itself.
\<close>

definition focus :: "cell list \<Rightarrow> cell list \<Rightarrow> path \<Rightarrow> hval \<Rightarrow> json \<Rightarrow> nat \<Rightarrow> json \<Rightarrow> nat set \<Rightarrow> nat set \<Rightarrow> (json \<Rightarrow> json) \<Rightarrow> bool" where
  "focus h0 h p v j t x T R g \<longleftrightarrow>
     own h0 h (Ref t) x T \<and> T \<inter> R = {} \<and> length h0 \<le> t \<and>
     (\<forall>full. walk full h p v = Inr (Ref t)) \<and>
     (\<forall>full. resolve_value full p j = Inr x) \<and>
     (\<forall>full f. at_path full p f j = bind_res (f x) (\<lambda>y. Inr (g y))) \<and>
     (\<forall>h' y T'. agree R h h' \<longrightarrow> own h0 h' (Ref t) y T' \<longrightarrow> T' \<inter> R = {} \<longrightarrow> own h0 h' v (g y) (T' \<union> R))"

lemma focus_Nil:
  assumes "own h0 h (Ref t) j A" "length h0 \<le> t"
  shows "focus h0 h [] (Ref t) j t j A {} (\<lambda>y. y)"
proof -
  have "bind_res m Inr = m" for m :: "(delta_error, json) result" by (cases m) simp_all
  with assms show ?thesis by (simp add: focus_def)
qed

lemma walk_child:
  "d < length h \<Longrightarrow> child (h ! d) s = Some v \<Longrightarrow> walk full h (s # p) (Ref d) = walk full h p v"
  by (cases "h ! d"; cases s) (auto split: if_splits)

lemma focus_Cons:
  assumes h: "hole h0 h (h ! d) j s (Ref a) x B" and d: "d < length h" "length h0 \<le> d" "d \<notin> B"
    and f: "focus h0 h p (Ref a) x t y T R g" and disj: "(T \<union> R) \<inter> insert d B = {}"
  shows "focus h0 h (s # p) (Ref d) j t y T (insert d (R \<union> B)) (\<lambda>z. jput s (g z) j)"
proof -
  have "own h0 h' (Ref d) (jput s (g z) j) (T' \<union> insert d (R \<union> B))"
    if a: "agree (insert d (R \<union> B)) h h'" and o: "own h0 h' (Ref t) z T'" and e: "T' \<inter> insert d (R \<union> B) = {}" for h' z T'
  proof -
    have ag: "agree R h h'" "agree B h h'" using agree_subset[OF a] by blast+
    have "own h0 h' (Ref a) (g z) (T' \<union> R)" using f ag(1) o e unfolding focus_def by blast
    then have "holds h0 h' (put_child s (Ref a) (h ! d)) (jput s (g z) j) (T' \<union> R \<union> B)"
      by (rule hole_fill[OF h ag(2)]) (use e disj in blast)
    moreover have "put_child s (Ref a) (h ! d) = h ! d"
      using h by (simp add: hole_def)
    moreover have "d < length h' \<and> h' ! d = h ! d" using agree_at[OF a _ d(1)] by simp
    ultimately show ?thesis using d(2,3) e disj by (intro own_of_cell[where B = "T' \<union> R \<union> B"]) auto
  qed
  moreover have "bind_res (bind_res m (\<lambda>y. Inr (g y))) (\<lambda>y. Inr (jput s y j)) = bind_res m (\<lambda>y. Inr (jput s (g y) j))"
    for m :: "(delta_error, json) result" by (cases m) simp_all
  ultimately show ?thesis
    using f h disj walk_child[OF d(1) hole_child[OF h]] unfolding focus_def hole_def by auto
qed

end
