(* ===== verification/Delta_Copy.thy ===== *)
theory Delta_Copy
  imports Delta_Focus
begin

text \<open>
  The copying applier refines the in-place one: it denotes the same document, fails on the same
  batches, and never changes a container that was there before.
\<close>

section \<open>Copying the containers of a path\<close>

text \<open>The owned cells are the new ones, and the old cells are as they were.\<close>

definition replay_inv :: "cell list \<Rightarrow> store \<Rightarrow> bool" where
  "replay_inv h0 s \<longleftrightarrow> set (owned s) = {length h0..<length (cells s)} \<and> take (length h0) (cells s) = h0"

definition grown :: "cell list \<Rightarrow> nat set \<Rightarrow> store \<Rightarrow> store \<Rightarrow> bool" where
  "grown h0 A s s' \<longleftrightarrow> replay_inv h0 s' \<and> length (cells s) \<le> length (cells s') \<and> agree (- A) (cells s) (cells s')"

definition fails_at :: "path \<Rightarrow> json \<Rightarrow> bool" where
  "fails_at p j \<longleftrightarrow> (\<forall>full f. (\<forall>q. \<exists>e. f (Prim q) = Inl e) \<longrightarrow> (\<exists>e. at_path full p f j = Inl e))"

lemma replay_len: "replay_inv h0 s \<Longrightarrow> length h0 \<le> length (cells s)"
  unfolding replay_inv_def by (metis length_take min.cobounded1)

lemma replay_old: "replay_inv h0 s \<Longrightarrow> a < length h0 \<Longrightarrow> cells s ! a = h0 ! a"
  unfolding replay_inv_def by (metis nth_take)

lemma replay_put: "replay_inv h0 s \<Longrightarrow> length h0 \<le> d \<Longrightarrow> replay_inv h0 (put_cell d c s)"
  by (simp add: replay_inv_def put_cell_def)

lemma replay_new: "replay_inv h0 s \<Longrightarrow> replay_inv h0 (snd (new_owned c s))"
  using replay_len[of h0 s] by (auto simp: replay_inv_def new_owned_def)

lemma new_owned_simps [simp]:
  "fst (new_owned c s) = length (cells s)" "cells (snd (new_owned c s)) = cells s @ [c]"
  by (simp_all add: new_owned_def)

lemma put_cell_cells [simp]: "cells (put_cell d c s) = (cells s)[d := c]"
  by (simp add: put_cell_def)

lemma replay_owned:
  assumes "replay_inv h0 s" "own h0 (cells s) (Ref a) x A"
  shows "a \<in> set (owned s) \<longleftrightarrow> length h0 \<le> a" "a < length (cells s)"
  using assms(2,1) replay_len[OF assms(1)] by (auto elim!: own_cases den_refE simp: replay_inv_def)

lemma fails_prim: "fails_at p (Prim q)"
  by (cases p) (simp_all add: fails_at_def)

lemma fails_hole: "hole h0 h c j s v x B \<Longrightarrow> fails_at p x \<Longrightarrow> fails_at (s # p) j"
  unfolding hole_def fails_at_def by (metis bind_res.simps(1))

lemma own_copy:
  assumes "replay_inv h0 s" "own h0 (cells s) (Ref a) x A" "a < length h0" "h0 ! a = h ! b" "length h0 \<le> b" "b < length h"
  shows "own h0 h (Ref b) x {b}"
proof -
  from den_holds[OF own_old_den[OF assms(2,3)], of h "{}"] have "holds h0 h (h ! b) x {}" using assms(4) by simp
  with assms(5,6) show ?thesis by (auto intro: own_of_cell)
qed

text \<open>One step of the loop below a destination whose child is now the owned cell \<open>b\<close>.\<close>

lemma copy_below:
  assumes inv: "replay_inv h0 s1" and c: "hole h0 (cells s1) (cells s1 ! d) j s (Ref b) x Bo"
    and d: "d < length (cells s1)" "length h0 \<le> d" "d \<notin> Bo" "d \<notin> Bi" "Bi \<inter> Bo = {}" "insert d Bo \<subseteq> {..<length (cells s1)}"
    and g: "grown h0 Bi s1 s'" and f: "focus h0 (cells s') p (Ref b) x t y T R g"
    and T: "T \<union> R \<subseteq> Bi \<union> {length (cells s1)..<length (cells s')}"
  shows "focus h0 (cells s') (s # p) (Ref d) j t y T (insert d (R \<union> Bo)) (\<lambda>z. jput s (g z) j)"
proof -
  have ag: "agree (- Bi) (cells s1) (cells s')" using g by (simp add: grown_def)
  have "agree Bo (cells s1) (cells s')" by (rule agree_subset[OF ag]) (use d(5) in blast)
  from hole_frame[OF c this] have h: "hole h0 (cells s') (cells s1 ! d) j s (Ref b) x Bo" .
  have e: "d < length (cells s')" "cells s' ! d = cells s1 ! d" using agree_at[OF ag _ d(1)] d(4) by auto
  have "(T \<union> R) \<inter> insert d Bo = {}" using T d(4-6) by fastforce
  from focus_Cons[OF _ e(1) d(2,3) f this] h e(2) show ?thesis by simp
qed

definition copied :: "cell list \<Rightarrow> store \<Rightarrow> store \<Rightarrow> path \<Rightarrow> nat \<Rightarrow> json \<Rightarrow> nat set \<Rightarrow> nat \<Rightarrow> bool" where
  "copied h0 s s' p d j A t \<longleftrightarrow> (\<exists>y T R g. focus h0 (cells s') p (Ref d) j t y T R g \<and>
     T \<union> R \<subseteq> A \<union> {length (cells s)..<length (cells s')})"

lemma grown_refl: "replay_inv h0 s \<Longrightarrow> grown h0 A s s"
  by (simp add: grown_def agree_def)

lemma grown_mono: "grown h0 A s s' \<Longrightarrow> A \<subseteq> B \<Longrightarrow> grown h0 B s s'"
  by (auto simp: grown_def agree_def)

lemma copied_mono: "copied h0 s s' p d j A t \<Longrightarrow> A \<subseteq> B \<Longrightarrow> copied h0 s s' p d j B t"
  unfolding copied_def by blast

text \<open>A child that is not owned is replaced by a copy, which denotes the same.\<close>

lemma copy_child:
  assumes inv: "replay_inv h0 s" and h: "hole h0 (cells s) (cells s ! d) j seg (Ref a) x Bo"
    and o: "own h0 (cells s) (Ref a) x Bi" "a \<notin> set (owned s)" and d: "d < length (cells s)" "length h0 \<le> d" "d \<notin> Bo"
  defines "b \<equiv> length (cells s)"
  defines "s1 \<equiv> put_cell d (put_child seg (Ref b) (cells s ! d)) (snd (new_owned (cells s ! a) s))"
  shows "replay_inv h0 s1" "length (cells s1) = Suc (length (cells s))" "agree (- {d}) (cells s) (cells s1)"
    "own h0 (cells s1) (Ref b) x {b}" "hole h0 (cells s1) (cells s1 ! d) j seg (Ref b) x Bo"
proof -
  have a: "a < length h0" using replay_owned[OF inv o(1)] o(2) by simp
  show "replay_inv h0 s1" unfolding s1_def by (intro replay_put replay_new inv d(2))
  show len: "length (cells s1) = Suc (length (cells s))" by (simp add: s1_def)
  show ag: "agree (- {d}) (cells s) (cells s1)" using d(1) by (auto simp: agree_def s1_def nth_append)
  have b: "length h0 \<le> b" "b \<noteq> d" "b < length (cells s1)" using replay_len[OF inv] d(1) len by (simp_all add: b_def)
  have "cells s1 ! b = h0 ! a" using b(2) replay_old[OF inv a] by (simp add: s1_def b_def nth_append)
  then show "own h0 (cells s1) (Ref b) x {b}" by (intro own_copy[OF inv o(1) a _ b(1,3)]) simp
  have "hole h0 (cells s1) (cells s ! d) j seg (Ref a) x Bo" by (rule hole_frame[OF h agree_subset[OF ag]]) (use d(3) in blast)
  from hole_put[OF this, of "Ref b"] show "hole h0 (cells s1) (cells s1 ! d) j seg (Ref b) x Bo"
    using d(1) by (simp add: s1_def b_def)
qed

lemma copied_below:
  assumes inv: "replay_inv h0 s1" "hole h0 (cells s1) (cells s1 ! d) j seg (Ref b) x Bo"
    and d: "d < length (cells s1)" "length h0 \<le> d" "d \<notin> Bo" "d \<notin> Bi" "Bi \<inter> Bo = {}" "insert d Bo \<subseteq> {..<length (cells s1)}"
    and g: "grown h0 Bi s1 s'" and cp: "copied h0 s1 s' p b x Bi t"
    and A: "insert d (Bi \<union> Bo) \<subseteq> A \<union> {length (cells s)..<length (cells s1)}" "length (cells s) \<le> length (cells s1)"
  shows "copied h0 s s' (seg # p) d j A t"
proof -
  from cp obtain y T R g' where f: "focus h0 (cells s') p (Ref b) x t y T R g'"
    "T \<union> R \<subseteq> Bi \<union> {length (cells s1)..<length (cells s')}" unfolding copied_def by blast
  have l: "length (cells s1) \<le> length (cells s')" using g by (simp add: grown_def)
  have "T \<union> insert d (R \<union> Bo) \<subseteq> insert d (Bi \<union> Bo) \<union> {length (cells s1)..<length (cells s')}" using f(2) by blast
  also have "\<dots> \<subseteq> A \<union> {length (cells s)..<length (cells s1)} \<union> {length (cells s1)..<length (cells s')}" using A(1) by (rule Un_mono) simp
  also have "\<dots> = A \<union> {length (cells s)..<length (cells s')}" using ivl_disj_un_two(3)[OF A(2) l] by blast
  finally have "T \<union> insert d (R \<union> Bo) \<subseteq> A \<union> {length (cells s)..<length (cells s')}" .
  with copy_below[OF inv d g f] have "\<exists>y T R g. focus h0 (cells s') (seg # p) (Ref d) j t y T R g \<and>
     T \<union> R \<subseteq> A \<union> {length (cells s)..<length (cells s')}" by (intro exI conjI)
  then show ?thesis by (simp add: copied_def)
qed

lemma agree_new:
  assumes "agree (- A) h h1" "agree (- B) h1 h'" "B \<subseteq> A \<union> {length h..}"
  shows "agree (- A) h h'"
  unfolding agree_def
proof (intro ballI impI)
  fix k assume k: "k \<in> - A" "k < length h"
  with assms(3) have "k \<in> - B" by auto
  with agree_at[OF assms(1) k] agree_at[OF assms(2), of k] show "k < length h' \<and> h' ! k = h ! k" by simp
qed

lemma grown_trans: "grown h0 A s s1 \<Longrightarrow> grown h0 B s1 s' \<Longrightarrow> B \<subseteq> A \<union> {length (cells s)..} \<Longrightarrow> grown h0 A s s'"
  unfolding grown_def by (auto dest: agree_new)

lemma copy_down_ok:
  "replay_inv h0 s \<Longrightarrow> own h0 (cells s) (Ref d) j A \<Longrightarrow> length h0 \<le> d \<Longrightarrow> A \<subseteq> {..<length (cells s)} \<Longrightarrow>
     copy_down full d p s = (r, s') \<Longrightarrow>
     grown h0 A s s' \<and> (case r of Inl _ \<Rightarrow> fails_at p j | Inr t \<Rightarrow> copied h0 s s' p d j A t)"
proof (induction p arbitrary: d j A s)
  case Nil
  from focus_Nil[OF Nil(2,3)] Nil show ?case by (force simp: grown_refl copied_def)
next
  case (Cons seg p)
  from own_cell[OF Cons.prems(2,3)] obtain B where d: "d < length (cells s)" "d \<notin> B" "insert d B \<subseteq> A"
    and c: "holds h0 (cells s) (cells s ! d) j B" by blast
  show ?case
  proof (cases "child (cells s ! d) seg")
    case None
    then have "fails_at (seg # p) j" using child_none[OF c] by (auto simp: fails_at_def)
    with None Cons.prems(1,5) show ?thesis by (auto simp: grown_refl Let_def split: if_splits)
  next
    case (Some v)
    from hole_intro[OF c Some] obtain x Bi Bo where o: "own h0 (cells s) v x Bi" "Bi \<inter> Bo = {}" "Bi \<union> Bo \<subseteq> B"
      and h: "hole h0 (cells s) (cells s ! d) j seg v x Bo" by blast
    note own = has_own_child[OF Some]
    have sub: "insert d Bo \<subseteq> {..<length (cells s)}" "d \<notin> Bi" "d \<notin> Bo" "Bi \<subseteq> A" "insert d Bo \<subseteq> A"
      using d o(3) Cons.prems(4) by auto
    show ?thesis
    proof (cases v)
      case (Val q)
      with o(1) have "fails_at p x" by (simp add: own_prim fails_prim)
      from fails_hole[OF h this] Some own Val Cons.prems(1,5) show ?thesis by (auto simp: grown_refl Let_def)
    next
      case (Ref a)
      show ?thesis
      proof (cases "a \<in> set (owned s)")
        case True
        with Some own Ref Cons.prems(5) have r: "copy_down full a p s = (r, s')" by (simp add: Let_def)
        have "length h0 \<le> a" using replay_owned(1)[OF Cons.prems(1)] o(1) Ref True by blast
        from Cons.IH[OF Cons.prems(1) o(1)[unfolded Ref] this _ r] sub Cons.prems(4)
        have i: "grown h0 Bi s s'" "case r of Inl _ \<Rightarrow> fails_at p x | Inr t \<Rightarrow> copied h0 s s' p a x Bi t" by auto
        have "copied h0 s s' (seg # p) d j A t" if "copied h0 s s' p a x Bi t" for t
          by (rule copied_below[OF Cons.prems(1) h[unfolded Ref] d(1) Cons.prems(3) sub(3,2) o(2) sub(1) i(1) that]) (use sub in auto)
        with i sub(4) fails_hole[OF h] show ?thesis by (auto simp: grown_mono split: sum.splits)
      next
        case False
        define s1 where "s1 = put_cell d (put_child seg (Ref (length (cells s))) (cells s ! d)) (snd (new_owned (cells s ! a) s))"
        note ch = copy_child[OF Cons.prems(1) h[unfolded Ref] o(1)[unfolded Ref] False d(1) Cons.prems(3) sub(3), folded s1_def]
        from Some own Ref False Cons.prems(5) d(1) have r: "copy_down full (length (cells s)) p s1 = (r, s')"
          by (simp add: Let_def s1_def nth_append split_beta)
        let ?b = "{length (cells s)}"
        from Cons.IH[OF ch(1,4) replay_len[OF Cons.prems(1)] _ r] ch(2)
        have i: "grown h0 ?b s1 s'" "case r of Inl _ \<Rightarrow> fails_at p x | Inr t \<Rightarrow> copied h0 s1 s' p (length (cells s)) x ?b t" by auto
        have gr: "grown h0 A s s'"
          using grown_trans[OF _ i(1), of A s] agree_subset[OF ch(3), of "- A"] ch(1,2) sub(5) by (auto simp: grown_def)
        have "copied h0 s s' (seg # p) d j A t" if "copied h0 s1 s' p (length (cells s)) x ?b t" for t
          by (rule copied_below[OF ch(1,5) _ Cons.prems(3) sub(3) _ _ _ i(1) that]) (use sub d(1) ch(2) in auto)
        with i(2) gr fails_hole[OF h] show ?thesis by (auto split: sum.splits)
      qed
    qed
  qed
qed

lemma copy_containers_ok:
  assumes inv: "replay_inv h0 s" and o: "own h0 (cells s) v j A" "A \<subseteq> {..<length (cells s)}"
    and c: "copy_containers (Some v) p s = (r, s')"
  shows "grown h0 A s s' \<and>
    (case r of Inl _ \<Rightarrow> fails_at p j
     | Inr v' \<Rightarrow> \<exists>a d s1 t. v = Ref a \<and> v' = Ref d \<and> copy_root a s = (d, s1) \<and> copy_down p d p s1 = (Inr t, s') \<and> copied h0 s s' p d j A t)"
proof (cases v)
  case (Val q)
  with o c inv show ?thesis by (auto simp: own_prim fails_prim copy_containers_def grown_refl)
next
  case (Ref a)
  show ?thesis
  proof (cases "a \<in> set (owned s)")
    case True
    with c Ref obtain r' where r: "copy_down p a p s = (r', s')" "r = bind_res r' (\<lambda>_. Inr (Ref a))"
      by (cases "copy_down p a p s") (auto simp: copy_containers_def copy_root_def)
    have "length h0 \<le> a" using replay_owned(1)[OF inv] o Ref True by blast
    from copy_down_ok[OF inv o(1)[unfolded Ref] this o(2) r(1)]
    have "grown h0 A s s'" "case r' of Inl _ \<Rightarrow> fails_at p j | Inr t \<Rightarrow> copied h0 s s' p a j A t" by simp_all
    with r True Ref show ?thesis by (cases r') (auto simp: copy_root_def)
  next
    case False
    let ?s1 = "snd (new_owned (cells s ! a) s)" and ?b = "length (cells s)"
    from False c Ref obtain r' where r: "copy_down p ?b p ?s1 = (r', s')" "r = bind_res r' (\<lambda>_. Inr (Ref ?b))"
      by (cases "copy_down p ?b p ?s1") (auto simp: copy_containers_def copy_root_def new_owned_def)
    note inv1 = replay_new[OF inv, of "cells s ! a"]
    have a: "a < length h0" using replay_owned[OF inv o(1)[unfolded Ref]] False by simp
    have "own h0 (cells ?s1) (Ref ?b) j {?b}"
      by (rule own_copy[OF inv o(1)[unfolded Ref] a _ replay_len[OF inv]]) (simp_all add: replay_old[OF inv a])
    from copy_down_ok[OF inv1 this replay_len[OF inv] _ r(1)]
    have k: "grown h0 {?b} ?s1 s'" "case r' of Inl _ \<Rightarrow> fails_at p j | Inr t \<Rightarrow> copied h0 ?s1 s' p ?b j {?b} t" by auto
    have "grown h0 A s ?s1" using inv1 by (simp add: grown_def agree_def nth_append)
    from grown_trans[OF this k(1)] have g: "grown h0 A s s'" by simp
    have "copied h0 s s' p ?b j A t" if cp: "copied h0 ?s1 s' p ?b j {?b} t" for t
    proof -
      have "length (cells ?s1) \<le> length (cells s')" using k(1) by (simp add: grown_def)
      then have "{?b} \<union> {length (cells ?s1)..<length (cells s')} \<subseteq> A \<union> {?b..<length (cells s')}" by auto
      with cp show ?thesis unfolding copied_def by (meson order_trans)
    qed
    with g k(2) r False Ref show ?thesis by (cases r') (auto simp: copy_root_def new_owned_def)
  qed
qed

end
