(* ===== verification/Delta_Changes.thy ===== *)
theory Delta_Changes
  imports Delta_Copy
begin

text \<open>
  The operations of a replay over the heap and the changes they make to one cell: the changed cell
  denotes the changed document, with the values the operation carries taken from the old heap.
\<close>

section \<open>Operations over the heap\<close>

text \<open>The operation a heap operation denotes, and the document of a root.\<close>

fun hop_den :: "cell list \<Rightarrow> hop \<Rightarrow> op \<Rightarrow> bool" where
  "hop_den h (HR v) op = (\<exists>j. op = OpR j \<and> den h v j)"
| "hop_den h (HS p v) op = (\<exists>j. op = OpS p j \<and> den h v j)"
| "hop_den h (HP p i r vs) op = (\<exists>js. op = OpP p i r js \<and> list_all2 (den h) vs js)"
| "hop_den h op op' = (op' = hop_shape op)"

definition op_change :: "op \<Rightarrow> json \<Rightarrow> (delta_error, json) result" where
  "op_change op = (case op of OpP p i r items \<Rightarrow> splice_target p i r items | OpM p is \<Rightarrow> permute_target p is
     | _ \<Rightarrow> leaf_op op (op_path op) (last (op_path op)))"

lemma step_op_change: "hop_den h hop op \<Longrightarrow> \<not> is_replace op \<Longrightarrow>
   step_op op root = at_root (cell_path hop) (op_change op) root"
  by (cases hop) (auto simp: is_replace_def cell_path_def op_change_def)

lemma op_change_prim: "\<exists>e. op_change op (Prim q) = Inl e"
  by (cases op) (auto simp: op_change_def)

lemma hop_den_ok: "hop_den h hop op \<Longrightarrow> op_ok (hop_shape hop) = op_ok op"
  by (cases hop) auto

lemma own_val: "den h0 v j \<Longrightarrow> own h0 h v j {}"
  by (rule own_old)

text \<open>Writing at an index and at a key.\<close>

lemma holds_write:
  assumes "owns h0 h vs js C" "i \<le> length vs" "den h0 v j"
  shows "owns h0 h (write_arr i v vs) (write_arr i j js) C"
proof (cases "i < length vs")
  case True
  from owns_nth[OF assms(1) True] obtain A B where b: "A \<union> B \<subseteq> C"
    "\<And>h' v j A'. agree B h h' \<Longrightarrow> own h0 h' v j A' \<Longrightarrow> A' \<inter> B = {} \<Longrightarrow> owns h0 h' (vs[i := v]) (js[i := j]) (A' \<union> B)" by metis
  have "agree B h h" by (simp add: agree_def)
  from b(2)[OF this own_val[OF assms(3)]] have "owns h0 h (vs[i := v]) (js[i := j]) B" by simp
  with b(1) True own_length[OF assms(1)] show ?thesis by (auto simp: write_arr_def intro: owns_mono)
next
  case False
  have "owns h0 h [v] [j] {}" using assms(3) by (auto intro: owns_old)
  from owns_append[OF assms(1) this] False own_length[OF assms(1)] show ?thesis by (simp add: write_arr_def)
qed

lemma owns_splice:
  assumes "owns h0 h vs js C" "list_all2 (den h0) ws ks"
  shows "owns h0 h (splice_list i r ws vs) (splice_list i r ks js) C"
proof -
  from owns_split[OF assms(1), of i] obtain A B where ab: "owns h0 h (take i vs) (take i js) A"
    "owns h0 h (drop i vs) (drop i js) B" "A \<inter> B = {}" "A \<union> B \<subseteq> C" by blast
  from owns_split[OF ab(2), of r] obtain B' where b: "owns h0 h (drop r (drop i vs)) (drop r (drop i js)) B'" "B' \<subseteq> B" by blast
  have "owns h0 h ws ks {}" by (rule owns_old[OF assms(2)])
  from owns_append[OF this b(1), of B'] have "owns h0 h (ws @ drop r (drop i vs)) (ks @ drop r (drop i js)) B'" by simp
  from owns_append[OF ab(1) this, of C] ab b show ?thesis by (auto simp: splice_list_def add.commute)
qed

lemma holds_obj: "holds h0 h (HObj kvs) (Obj js) B \<longleftrightarrow>
    map fst kvs = map fst js \<and> distinct (map fst js) \<and> owns h0 h (map snd kvs) (map snd js) B"
  by (auto simp: holds_def)

lemma holds_put_new:
  assumes "holds h0 h (HObj kvs) (Obj js) B" "den h0 v j" "map_of kvs k = None"
  shows "holds h0 h (HObj (obj_put k v kvs)) (Obj (obj_put k j js)) B"
proof -
  have k: "k \<notin> set (map fst kvs)" using assms(3) by (simp add: map_of_eq_None_iff)
  have o: "map fst kvs = map fst js" "owns h0 h (map snd kvs) (map snd js) B" "distinct (map fst js)" using assms(1) by (simp_all add: holds_obj)
  let ?n = "put_at k (map fst js)"
  have pk: "obj_put k v kvs = take ?n kvs @ (k, v) # drop ?n kvs" using obj_put_new[OF k] o(1) by simp
  have pj: "obj_put k j js = take ?n js @ (k, j) # drop ?n js" using obj_put_new[of k js] k o(1) by simp
  from owns_split[OF o(2), of ?n] obtain A B' where ab: "owns h0 h (take ?n (map snd kvs)) (take ?n (map snd js)) A"
    "owns h0 h (drop ?n (map snd kvs)) (drop ?n (map snd js)) B'" "A \<inter> B' = {}" "A \<union> B' \<subseteq> B" by blast
  from owns_Cons[OF own_val[OF assms(2)] ab(2), of B'] have "owns h0 h (v # drop ?n (map snd kvs)) (j # drop ?n (map snd js)) B'" by simp
  from owns_append[OF ab(1) this ab(3,4)] have "owns h0 h (map snd (obj_put k v kvs)) (map snd (obj_put k j js)) B"
    by (simp add: pk pj take_map drop_map)
  moreover have "map fst (obj_put k v kvs) = map fst (obj_put k j js)" using o(1) by (simp add: pk pj flip: take_map drop_map)
  ultimately show ?thesis using distinct_obj_put[OF o(3)] by (simp add: holds_obj)
qed

lemma holds_put:
  assumes "holds h0 h (HObj kvs) (Obj js) B" "den h0 v j"
  shows "holds h0 h (HObj (obj_put k v kvs)) (Obj (obj_put k j js)) B"
proof (cases "map_of kvs k")
  case None
  with assms show ?thesis by (simp add: holds_put_new)
next
  case (Some w)
  then have "child (HObj kvs) (Key k) = Some w" by simp
  from hole_intro[OF assms(1) this] obtain x A B' where b: "A \<union> B' \<subseteq> B" and h: "hole h0 h (HObj kvs) (Obj js) (Key k) w x B'" by metis
  have "agree B' h h" by (simp add: agree_def)
  from hole_fill[OF h this own_val[OF assms(2)]] b show ?thesis by (auto intro: holds_mono)
qed

lemma holds_del:
  assumes "holds h0 h (HObj kvs) (Obj js) B"
  shows "holds h0 h (HObj (obj_del k kvs)) (Obj (obj_del k js)) B"
proof -
  have o: "map fst kvs = map fst js" "owns h0 h (map snd kvs) (map snd js) B" "distinct (map fst js)" using assms by (simp_all add: holds_obj)
  have fst_del: "map fst (obj_del k xs) = filter (\<lambda>k'. k' \<noteq> k) (map fst xs)" for xs :: "(string \<times> 'a) list"
    by (induction xs) (auto simp: obj_del_def)
  show ?thesis using owns_filter[OF o(2,1), of "\<lambda>k'. k' \<noteq> k"] o(1,3) by (simp add: holds_obj fst_del, simp add: obj_del_def)
qed

lemma hval_text_own: "own h0 h v x A \<Longrightarrow> hval_text (Some v) = (case x of Prim (PStr c) \<Rightarrow> Some c | _ \<Rightarrow> None)"
proof (cases v)
  case (Val q)
  assume "own h0 h v x A"
  with Val show ?thesis by (cases q) (simp_all add: own_prim)
next
  case (Ref a)
  assume "own h0 h v x A"
  with Ref have "shape (h0 ! a) x \<or> shape (h ! a) x" by (auto elim!: own_cases den_refE)
  with Ref show ?thesis by (cases "h ! a"; cases "h0 ! a"; cases x) auto
qed

lemma hval_text_nth: "owns h0 h vs js C \<Longrightarrow> i < length vs \<Longrightarrow>
   hval_text (Some (vs ! i)) = (case js ! i of Prim (PStr c) \<Rightarrow> Some c | _ \<Rightarrow> None)"
  by (erule owns_nth) (auto dest: hval_text_own)

lemma hval_text_key:
  assumes "holds h0 h (HObj kvs) (Obj js) B"
  shows "hval_text (map_of kvs k) = (case map_of js k of Some (Prim (PStr c)) \<Rightarrow> Some c | _ \<Rightarrow> None)"
proof (cases "map_of kvs k")
  case None
  then have "map_of js k = None" using assms unfolding map_of_eq_None_iff holds_obj by (metis list.set_map)
  with None show ?thesis by simp
next
  case (Some v)
  then have "child (HObj kvs) (Key k) = Some v" by simp
  from hole_intro[OF assms this] obtain x A B' where x: "own h0 h v x A" "hole h0 h (HObj kvs) (Obj js) (Key k) v x B'" by metis
  then have "resolve_value [] (Key k # []) (Obj js) = resolve_value [] [] x" unfolding hole_def by blast
  then have "map_of js k = Some x" by (simp split: option.splits)
  with hval_text_own[OF x(1)] Some show ?thesis by simp
qed

section \<open>Changes of a cell\<close>

text \<open>\<open>follows h0 h B r m\<close>: the outcome of a change of a cell and that of the document it denotes.\<close>

definition follows :: "cell list \<Rightarrow> cell list \<Rightarrow> nat set \<Rightarrow> (delta_error, cell) result \<Rightarrow> (delta_error, json) result \<Rightarrow> bool" where
  "follows h0 h B r m \<longleftrightarrow> (case r of Inl _ \<Rightarrow> (\<exists>e. m = Inl e) | Inr c \<Rightarrow> (\<exists>j. m = Inr j \<and> holds h0 h c j B))"

lemma follows_simps [simp]:
  "follows h0 h B (Inl e) m = (\<exists>e. m = Inl e)"
  "follows h0 h B (Inr c) m = (\<exists>j. m = Inr j \<and> holds h0 h c j B)"
  by (simp_all add: follows_def)

lemma text_den: "den h (Val (PStr c)) (Prim (PStr c))"
  by (rule den_prim)

lemma leaf_array_follows:
  assumes o: "owns h0 h vs js B" and d: "hop_den h0 hop op" and i: "i \<le> length vs"
  shows "follows h0 h B (bind_res (leaf_array hop p i vs) (\<lambda>vs. Inr (HArr vs))) (leaf_op op p (Idx i) (Arr js))"
proof -
  note len = own_length[OF o]
  have t: "hval_text (if i < length vs then Some (vs ! i) else None) =
      (case (if i < length js then Some (js ! i) else None) of Some (Prim (PStr c)) \<Rightarrow> Some c | _ \<Rightarrow> None)"
    using hval_text_nth[OF o] len by simp
  have w: "holds h0 h (HArr (write_arr i (Val (PStr c)) vs)) (Arr (write_arr i (Prim (PStr c)) js)) B" for c
    using holds_write[OF o i text_den] by (simp add: holds_def)
  show ?thesis
  proof (cases hop)
    case (HS q v)
    with d holds_write[OF o i] len i show ?thesis by (auto simp: holds_def)
  next
    case (HD q)
    have "owns h0 h (splice_list i 1 [] vs) (splice_list i 1 [] js) B" by (rule owns_splice[OF o]) simp
    with HD d len show ?thesis by (auto simp: holds_def)
  next
    case (HA q t)
    with d len i t w show ?thesis by (auto simp: Let_def split: option.splits json.splits prim.splits)
  next
    case (HT q n)
    with d len i t w show ?thesis by (auto simp: Let_def split: option.splits json.splits prim.splits)
  qed (use d len i o in \<open>auto simp: holds_def\<close>)
qed

lemma leaf_object_follows:
  assumes o: "holds h0 h (HObj kvs) (Obj js) B" and d: "hop_den h0 hop op"
  shows "follows h0 h B (bind_res (leaf_object hop p (seg_text key) kvs) (\<lambda>kvs. Inr (HObj kvs))) (leaf_op op p key (Obj js))"
proof -
  note t = hval_text_key[OF o]
  note w = holds_put[OF o text_den]
  show ?thesis
  proof (cases hop)
    case (HS q v)
    with d holds_put[OF o] show ?thesis by (auto simp: Let_def)
  next
    case (HD q)
    with d holds_del[OF o] show ?thesis by (auto simp: Let_def)
  next
    case (HA q t')
    with d t w show ?thesis by (auto simp: Let_def split: option.splits json.splits prim.splits)
  next
    case (HT q n)
    with d t w show ?thesis by (auto simp: Let_def split: option.splits json.splits prim.splits)
  qed (use d o in \<open>auto simp: Let_def\<close>)
qed

lemma leaf_cell_follows:
  assumes o: "holds h0 h c j B" and d: "hop_den h0 hop op"
  shows "follows h0 h B (leaf_cell hop p key c) (leaf_op op p key j)"
proof (cases c)
  case (HArr vs)
  with o obtain js where j: "j = Arr js" "owns h0 h vs js B" by (cases j) (auto simp: holds_def)
  show ?thesis
  proof (cases key)
    case (Idx i)
    show ?thesis
    proof (cases "i \<le> length vs")
      case True
      from leaf_array_follows[OF j(2) d True, of p] show ?thesis
        unfolding HArr j(1) Idx leaf_cell.simps using True by simp
    next
      case False
      with HArr j Idx own_length[OF j(2)] show ?thesis by simp
    qed
  qed (simp add: HArr j(1))
next
  case (HObj kvs)
  with o obtain js where j: "j = Obj js" by (cases j) (auto simp: holds_def)
  from leaf_object_follows[OF o[unfolded HObj j] d, of p key] show ?thesis unfolding HObj j leaf_cell.simps .
qed

lemma change_follows:
  assumes o: "holds h0 h c j B" and d: "hop_den h0 hop op" and ok: "op_ok op" and r: "\<not> is_replace op"
  shows "follows h0 h B (change_cell hop c) (op_change op j)"
proof (cases hop)
  case (HP p i r vs)
  with d obtain js where op: "op = OpP p i r js" "list_all2 (den h0) vs js" by auto
  show ?thesis
  proof (cases c)
    case (HArr ws)
    with o obtain ks where j: "j = Arr ks" "owns h0 h ws ks B" by (cases j) (auto simp: holds_def)
    from owns_splice[OF j(2) op(2)] show ?thesis
      by (simp add: HP HArr j(1) op(1) change_cell_def op_change_def holds_def splice_op_eq)
  next
    case (HObj kvs)
    with o HP op(1) show ?thesis by (cases j) (auto simp: holds_def change_cell_def op_change_def)
  qed
next
  case (HM p "is")
  with d have op: "op = OpM p is" by simp
  show ?thesis
  proof (cases c)
    case (HArr ws)
    with o obtain ks where j: "j = Arr ks" "owns h0 h ws ks B" by (cases j) (auto simp: holds_def)
    have "owns h0 h (map ((!) ws) is) (map ((!) ks) is) B" if "length ws = length is"
      by (rule owns_permute[OF j(2)]) (use ok op that in \<open>auto simp: is_permutation_def\<close>)
    with own_length[OF j(2)] show ?thesis by (auto simp: HM HArr j(1) op change_cell_def op_change_def holds_def)
  next
    case (HObj kvs)
    with o HM op show ?thesis by (cases j) (auto simp: holds_def change_cell_def op_change_def)
  qed
qed (use d r leaf_cell_follows[OF o d] in \<open>auto simp: change_cell_def op_change_def is_replace_def\<close>)

end
