(* ===== verification/Delta_Replay.thy ===== *)
theory Delta_Replay
  imports Delta_Changes
begin

text \<open>
  A replay over the heap refines \<open>apply\<close>: it denotes the same document, fails on the same batches,
  and every value that was there before denotes what it denoted.
\<close>

section \<open>One operation\<close>

text \<open>A cell changed in place below an owned root.\<close>

lemma focus_put:
  assumes f: "focus h0 h p v j t x T R g" and c: "\<And>B. holds h0 h (h ! t) x B \<Longrightarrow> B \<subseteq> T - {t} \<Longrightarrow>
      \<exists>B'. holds h0 h c y B' \<and> B' \<subseteq> B \<union> N" and N: "N \<inter> insert t R = {}"
  shows "own h0 (h[t := c]) v (g y) (T \<union> R \<union> N)"
proof -
  have o: "own h0 h (Ref t) x T" "length h0 \<le> t" "T \<inter> R = {}" using f by (simp_all add: focus_def)
  from own_cell[OF o(1,2)] obtain B where t: "t < length h" "holds h0 h (h ! t) x B" "t \<notin> B" "insert t B \<subseteq> T" by blast
  from c[OF t(2)] t(3,4) obtain B' where b: "holds h0 h c y B'" "B' \<subseteq> B \<union> N" by blast
  have tB: "t \<notin> B'" "t \<notin> R" using b(2) t(3,4) N o(3) by blast+
  have ag: "agree (- {t}) h (h[t := c])" by (simp add: agree_def)
  have "holds h0 (h[t := c]) c y B'" by (rule holds_frame[OF b(1) agree_subset[OF ag]]) (use tB in blast)
  then have "own h0 (h[t := c]) (Ref t) y (T \<union> N)" using t(1,4) b(2) tB(1) o(2) by (intro own_of_cell[where B = B']) auto
  moreover have "agree R h (h[t := c])" by (rule agree_subset[OF ag]) (use tB in blast)
  moreover have "(T \<union> N) \<inter> R = {}" using o(3) N by blast
  ultimately have "own h0 (h[t := c]) v (g y) ((T \<union> N) \<union> R)" using f unfolding focus_def by blast
  then show ?thesis by (rule own_mono) blast
qed

lemma in_place_ok:
  assumes inv: "replay_inv h0 s" and cp: "copied h0 s0 s (cell_path hop) d j A t" and A: "A \<union> {length (cells s0)..<length (cells s)} \<subseteq> C"
    and hop: "hop_den h0 hop op" "op_ok op" "\<not> is_replace op" and r: "apply_in_place hop (Some (Ref d)) s = (r, s')"
  shows "replay_inv h0 s' \<and> length (cells s') = length (cells s) \<and>
    (case r of Inl _ \<Rightarrow> (\<exists>e. step_op op (Some j) = Inl e)
     | Inr v \<Rightarrow> v = Some (Ref d) \<and> (\<exists>j'. step_op op (Some j) = Inr (Some j') \<and> own h0 (cells s') (Ref d) j' C))"
proof -
  from cp obtain x T R g where f: "focus h0 (cells s) (cell_path hop) (Ref d) j t x T R g" "T \<union> R \<subseteq> C"
    using A unfolding copied_def by blast
  have rs: "resolve_ref (cell_path hop) (cells s) (Some (Ref d)) = Inr t" using f(1) by (simp add: resolve_ref_def focus_def)
  have st: "step_op op (Some j) = bind_res (op_change op x) (\<lambda>y. Inr (Some (g y)))"
    using f(1) unfolding step_op_change[OF hop(1,3)] at_root_def focus_def by (cases "op_change op x") auto
  have t: "own h0 (cells s) (Ref t) x T" "length h0 \<le> t" using f(1) by (simp_all add: focus_def)
  from own_cell[OF this] obtain B0 where b0: "holds h0 (cells s) (cells s ! t) x B0" by blast
  show ?thesis
  proof (cases "change_cell hop (cells s ! t)")
    case (Inl e)
    with change_follows[OF b0 hop] r rs st inv show ?thesis by (auto simp: apply_in_place_def)
  next
    case (Inr c)
    from change_follows[OF b0 hop] Inr obtain y where y: "op_change op x = Inr y" by auto
    have "\<exists>B'. holds h0 (cells s) c y B' \<and> B' \<subseteq> B \<union> {}" if "holds h0 (cells s) (cells s ! t) x B" for B
      using change_follows[OF that hop] Inr y by auto
    from focus_put[OF f(1) this] have "own h0 ((cells s)[t := c]) (Ref d) (g y) (T \<union> R \<union> {})" by simp
    then have "own h0 ((cells s)[t := c]) (Ref d) (g y) C" by (rule own_mono) (use f(2) in blast)
    with r rs st Inr y replay_put[OF inv t(2)] show ?thesis by (auto simp: apply_in_place_def)
  qed
qed

text \<open>An append to an array that is not owned yet.\<close>

lemma cell_holds:
  assumes "replay_inv h0 s" "own h0 (cells s) (Ref a) j A"
  obtains B where "holds h0 (cells s) (cells s ! a) j B"
proof (cases "a < length h0")
  case True
  from den_holds[OF own_old_den[OF assms(2) True], of "cells s" "{}"] replay_old[OF assms(1) True] that show ?thesis by metis
next
  case False
  then show ?thesis using own_cell[OF assms(2)] that by (meson not_le)
qed

lemma plain_walk_child: "plain_walk h (seg # p) (Ref a) = Some w \<Longrightarrow> \<exists>v. child (h ! a) seg = Some v \<and> plain_walk h p v = Some w"
  by (cases "h ! a"; cases seg) (auto split: if_splits option.splits)

lemma plain_walk_own:
  "replay_inv h0 s \<Longrightarrow> own h0 (cells s) v j A \<Longrightarrow> plain_walk (cells s) p v = Some w \<Longrightarrow>
     \<exists>x B. own h0 (cells s) w x B \<and> (\<forall>full. resolve_value full p j = Inr x)"
proof (induction p arbitrary: v j A)
  case (Cons seg p)
  then obtain a where v: "v = Ref a" by (cases v) auto
  with Cons.prems(3) plain_walk_child obtain v' where c: "child (cells s ! a) seg = Some v'" "plain_walk (cells s) p v' = Some w" by blast
  from cell_holds[OF Cons.prems(1) Cons.prems(2)[unfolded v]] obtain B where "holds h0 (cells s) (cells s ! a) j B" .
  from hole_intro[OF this c(1)] obtain x A' B' where x: "own h0 (cells s) v' x A'" "hole h0 (cells s) (cells s ! a) j seg v' x B'" by metis
  from Cons.IH[OF Cons.prems(1) x(1) c(2)] x(2) show ?case by (auto simp: hole_def)
qed auto

lemma at_path_snoc: "at_path full (q @ [k]) f j = at_path full q (at_path full [k] f) j"
  by (induction q arbitrary: j) (simp, rename_tac s q j, case_tac j, auto split: seg.split option.split)

lemma resolve_value_snoc: "resolve_value full (q @ [k]) j = bind_res (resolve_value full q j) (resolve_value full [k])"
  by (induction q arbitrary: j) (simp, rename_tac s q j, case_tac j, auto split: seg.split option.split)

lemma resolve_child: "holds h0 h c j B \<Longrightarrow> resolve_value full [k] j = Inr x \<Longrightarrow> \<exists>v. child c k = Some v"
  by (cases "child c k") (use child_none[of h0 h c j B k full "[]" Inr] at_path_error in force)+

lemma append_child:
  assumes c: "holds h0 h c x B" and old: "resolve_value full [k] x = Inr (Arr ks)" and b: "own h0 h (Ref b) y {b}" "b \<notin> B"
  shows "at_path full [k] f x = bind_res (f (Arr ks)) (\<lambda>y. Inr (jput k y x))"
    "\<exists>B'. holds h0 h (put_child k (Ref b) c) (jput k y x) B' \<and> B' \<subseteq> B \<union> {b}"
proof -
  from resolve_child[OF c old] obtain v where "child c k = Some v" by blast
  from hole_intro[OF c this] obtain z A B' where h: "A \<union> B' \<subseteq> B" "hole h0 h c x k v z B'" by metis
  have "resolve_value full (k # []) x = resolve_value full [] z" using h(2) unfolding hole_def by blast
  with old have z: "z = Arr ks" by simp
  have "at_path full (k # []) f x = bind_res (at_path full [] f z) (\<lambda>y. Inr (jput k y x))" using h(2) unfolding hole_def by blast
  then show "at_path full [k] f x = bind_res (f (Arr ks)) (\<lambda>y. Inr (jput k y x))" using z by simp
  have "holds h0 h (put_child k (Ref b) c) (jput k y x) ({b} \<union> B')"
    by (rule hole_fill[OF h(2) _ b(1)]) (use b(2) h(1) in \<open>auto simp: agree_def\<close>)
  then show "\<exists>B'. holds h0 h (put_child k (Ref b) c) (jput k y x) B' \<and> B' \<subseteq> B \<union> {b}" using h(1) by blast
qed

lemma splice_end: "splice_op (length xs) 0 ys xs = xs @ ys"
  by (simp add: splice_op_eq splice_list_def)

text \<open>The copy with the items, and its place under the parent.\<close>

lemma append_place:
  assumes inv: "replay_inv h0 s" and cp: "copied h0 s1 s q d j A t'" and A: "b \<notin> A" "b < length (cells s1)"
    and b: "own h0 (cells s) (Ref b) y {b}" and old: "\<And>full. resolve_value full (q @ [k]) j = Inr (Arr ks)"
    and r: "resolve_ref q (cells s) (Some (Ref d)) = Inr t"
  shows "\<exists>j'. (\<forall>full f. at_path full (q @ [k]) f j = bind_res (f (Arr ks)) (\<lambda>z. Inr (j' z))) \<and> length h0 \<le> t \<and>
    own h0 ((cells s)[t := put_child k (Ref b) (cells s ! t)]) (Ref d) (j' y) (A \<union> {b} \<union> {length (cells s1)..<length (cells s)})"
proof -
  from cp obtain x T R g where f: "focus h0 (cells s) q (Ref d) j t' x T R g"
    and TR: "T \<union> R \<subseteq> A \<union> {length (cells s1)..<length (cells s)}" unfolding copied_def by blast
  have t: "t' = t" "length h0 \<le> t" "own h0 (cells s) (Ref t) x T"
    using f r by (auto simp: focus_def resolve_ref_def)
  have x: "resolve_value full [k] x = Inr (Arr ks)" for full
    using old[of full] f by (simp add: resolve_value_snoc focus_def)
  from own_cell[OF t(3,2)] obtain B where B: "holds h0 (cells s) (cells s ! t) x B" "insert t B \<subseteq> T" by blast
  have nb: "b \<notin> T \<union> R"
  proof
    assume "b \<in> T \<union> R"
    with TR have "b \<in> A \<union> {length (cells s1)..<length (cells s)}" by (rule subsetD)
    with A show False by simp
  qed
  then have "b \<noteq> t" using B(2) by blast
  with nb have N: "{b} \<inter> insert t R = {}" by blast
  have "\<exists>B'. holds h0 (cells s) (put_child k (Ref b) (cells s ! t)) (jput k y x) B' \<and> B' \<subseteq> B0 \<union> {b}"
    if "holds h0 (cells s) (cells s ! t) x B0" "B0 \<subseteq> T - {t}" for B0
    by (rule append_child(2)[OF that(1) x b]) (use that(2) nb in blast)
  from focus_put[OF f[unfolded t(1)] this N]
  have o: "own h0 ((cells s)[t := put_child k (Ref b) (cells s ! t)]) (Ref d) (g (jput k y x)) (T \<union> R \<union> {b})" by simp
  have "at_path full (q @ [k]) f' j = bind_res (f' (Arr ks)) (\<lambda>z. Inr (g (jput k z x)))" for full f'
  proof -
    have "b \<notin> B" using B(2) nb by blast
    from append_child(1)[OF B(1) x b this, of full f'] f show ?thesis
      unfolding at_path_snoc focus_def by (cases "f' (Arr ks)") simp_all
  qed
  moreover have "own h0 ((cells s)[t := put_child k (Ref b) (cells s ! t)]) (Ref d) (g (jput k y x))
      (A \<union> {b} \<union> {length (cells s1)..<length (cells s)})" by (rule own_mono[OF o]) (use TR in blast)
  ultimately show ?thesis using t(2) by (intro exI[of _ "\<lambda>z. g (jput k z x)"] conjI allI)
qed

text \<open>\<open>keeps h0 s s' r m\<close>: after the step the root denotes the outcome \<open>m\<close> of \<open>apply\<close>, and is owned.\<close>

fun owns_root :: "cell list \<Rightarrow> store \<Rightarrow> hval option \<Rightarrow> json option \<Rightarrow> bool" where
  "owns_root h0 s None None = True"
| "owns_root h0 s (Some v) (Some j) = own h0 (cells s) v j {length h0..<length (cells s)}"
| "owns_root h0 s _ _ = False"

definition keeps :: "cell list \<Rightarrow> store \<Rightarrow> (delta_error, hval option) result \<Rightarrow> (delta_error, json option) result \<Rightarrow> bool" where
  "keeps h0 s r m \<longleftrightarrow> replay_inv h0 s \<and>
     (case r of Inl _ \<Rightarrow> (\<exists>e. m = Inl e) | Inr v \<Rightarrow> (\<exists>j. m = Inr j \<and> owns_root h0 s v j))"

lemma keeps_simps [simp]:
  "keeps h0 s (Inl e) m \<longleftrightarrow> replay_inv h0 s \<and> (\<exists>e. m = Inl e)"
  "keeps h0 s (Inr v) m \<longleftrightarrow> replay_inv h0 s \<and> (\<exists>j. m = Inr j \<and> owns_root h0 s v j)"
  by (auto simp: keeps_def)

lemma owned_append:
  assumes inv: "replay_inv h0 s" and o: "own h0 (cells s) (Ref a) x A" "a \<notin> set (owned s)"
    and a: "cells s ! a = HArr vs" and d: "list_all2 (den h0) items js" and s1: "s1 = snd (new_owned (HArr (vs @ items)) s)"
  obtains ks where "x = Arr ks" "length ks = length vs" "own h0 (cells s1) (Ref (length (cells s))) (Arr (ks @ js)) {length (cells s)}"
proof -
  have old: "a < length h0" using replay_owned[OF inv o(1)] o(2) by simp
  from den_holds[OF own_old_den[OF o(1) old], of "cells s1" "{}"] have h: "holds h0 (cells s1) (HArr vs) x {}"
    using a replay_old[OF inv old] by simp
  then obtain ks where x: "x = Arr ks" "owns h0 (cells s1) vs ks {}" by (cases x) (auto simp: holds_def)
  from owns_append[OF x(2) owns_old[OF d], of "{}" "{}"] have "owns h0 (cells s1) (vs @ items) (ks @ js) {}" by simp
  then have "own h0 (cells s1) (Ref (length (cells s))) (Arr (ks @ js)) {length (cells s)}"
    using replay_len[OF inv] by (intro own_of_cell[where B = "{}"]) (auto simp: s1 holds_def nth_append)
  from that[OF x(1) own_length[OF x(2)] this] show ?thesis .
qed

lemma append_below:
  assumes inv: "replay_inv h0 s1" and o: "own h0 (cells s1) v j A" and A: "A \<subseteq> {length h0..<b}" "b < length (cells s1)"
    and b: "own h0 (cells s1) (Ref b) y {b}" and old: "\<And>full. resolve_value full (q @ [k]) j = Inr (Arr ks)"
    and r: "(case copy_containers (Some v) q s1 of (Inl e, s2) \<Rightarrow> Some (Inl e, s2)
        | (Inr root', s2) \<Rightarrow> (case resolve_ref q (cells s2) (Some root') of Inl e \<Rightarrow> Some (Inl e, s2)
            | Inr t \<Rightarrow> Some (Inr root', put_cell t (put_child k (Ref b) (cells s2 ! t)) s2))) = Some (r, s')"
    and f: "f (Arr ks) = Inr y" and lo: "length h0 \<le> b"
  shows "keeps h0 s' (map_sum id Some r) (at_root (q @ [k]) f (Some j))"
proof (cases "copy_containers (Some v) q s1")
  case (Pair r2 s2)
  have sub: "A \<subseteq> {..<length (cells s1)}" using A by fastforce
  note c = copy_containers_ok[OF inv o sub Pair]
  then have g: "grown h0 A s1 s2" by blast
  then have inv2: "replay_inv h0 s2" by (simp add: grown_def)
  show ?thesis
  proof (cases r2)
    case (Inl e)
    with c have "fails_at q j" by simp
    moreover have "\<exists>e. at_path (q @ [k]) [k] f (Prim z) = Inl e" for z by simp
    ultimately have "\<exists>e. at_path (q @ [k]) (q @ [k]) f j = Inl e" unfolding fails_at_def at_path_snoc by blast
    with r Pair Inl inv2 show ?thesis by (auto simp: at_root_def)
  next
    case (Inr root')
    with c obtain d t' where d: "root' = Ref d" "copied h0 s1 s2 q d j A t'" by auto
    then obtain t where t: "resolve_ref q (cells s2) (Some (Ref d)) = Inr t"
      unfolding copied_def focus_def resolve_ref_def by fastforce
    have nb: "b \<notin> A" using A(1) by auto
    have b2: "own h0 (cells s2) (Ref b) y {b}" by (rule frame(1)[OF b]) (use g nb in \<open>auto simp: grown_def agree_def\<close>)
    from append_place[OF inv2 d(2) nb A(2) b2 old t] obtain j' where
      j': "\<And>full f. at_path full (q @ [k]) f j = bind_res (f (Arr ks)) (\<lambda>z. Inr (j' z))" "length h0 \<le> t"
      "own h0 ((cells s2)[t := put_child k (Ref b) (cells s2 ! t)]) (Ref d) (j' y) (A \<union> {b} \<union> {length (cells s1)..<length (cells s2)})" by blast
    have r': "r = Inr (Ref d)" "s' = put_cell t (put_child k (Ref b) (cells s2 ! t)) s2" using r Pair Inr d(1) t by simp_all
    have l: "length (cells s1) \<le> length (cells s2)" using g by (simp add: grown_def)
    have "own h0 (cells s') (Ref d) (j' y) {length h0..<length (cells s')}"
      unfolding r'(2) put_cell_cells by (rule own_mono[OF j'(3)]) (use A lo l in auto)
    with r' j'(1,2) f replay_put[OF inv2] show ?thesis by (simp add: at_root_def)
  qed
qed

lemma append_copy_ok:
  assumes inv: "replay_inv h0 s" and o: "own h0 (cells s) v j {length h0..<length (cells s)}"
    and d: "list_all2 (den h0) items js" and r: "append_copy (Some v) p i n items s = Some (r, s')"
  shows "keeps h0 s' (map_sum id Some r) (at_root p (splice_target p i n js) (Some j))"
proof -
  from r obtain a vs where n: "n = 0" and w: "plain_walk (cells s) p v = Some (Ref a)" and a: "cells s ! a = HArr vs"
    "a \<notin> set (owned s)" "i = length vs"
    by (auto simp: append_copy_def split: if_splits option.splits hval.splits cell.splits)
  define s1 where "s1 = snd (new_owned (HArr (vs @ items)) s)"
  let ?b = "length (cells s)" and ?A = "{length h0..<length (cells s)}"
  from plain_walk_own[OF inv o w] obtain x B where x: "own h0 (cells s) (Ref a) x B" "\<And>full. resolve_value full p j = Inr x" by blast
  from owned_append[OF inv x(1) a(2,1) d s1_def] obtain ks where ks: "x = Arr ks" "length ks = length vs"
    and b: "own h0 (cells s1) (Ref ?b) (Arr (ks @ js)) {?b}" .
  have inv1: "replay_inv h0 s1" unfolding s1_def by (rule replay_new[OF inv])
  have l1: "length (cells s1) = Suc ?b" by (simp add: s1_def)
  have sp: "splice_target p i n js (Arr ks) = Inr (Arr (ks @ js))" using ks(2) a(3) n splice_end[of ks js] by simp
  show ?thesis
  proof (cases p rule: rev_cases)
    case Nil
    with r n w a have "r = Inr (Ref ?b)" "s' = s1" by (auto simp: append_copy_def s1_def new_owned_def)
    moreover have "own h0 (cells s1) (Ref ?b) (Arr (ks @ js)) {length h0..<length (cells s1)}"
      by (rule own_mono[OF b]) (use l1 replay_len[OF inv] in auto)
    ultimately show ?thesis using sp x(2) ks(1) Nil inv1 by (simp add: at_root_def)
  next
    case (snoc q k)
    have o1: "own h0 (cells s1) v j ?A" by (rule frame(1)[OF o]) (auto simp: agree_def s1_def nth_append)
    from r[unfolded append_copy_def snoc butlast_snoc last_snoc] n w[unfolded snoc] a have r1: "(case copy_containers (Some v) q s1 of (Inl e, s2) \<Rightarrow> Some (Inl e, s2)
        | (Inr root', s2) \<Rightarrow> (case resolve_ref q (cells s2) (Some root') of Inl e \<Rightarrow> Some (Inl e, s2)
            | Inr t \<Rightarrow> Some (Inr root', put_cell t (put_child k (Ref ?b) (cells s2 ! t)) s2))) = Some (r, s')"
      by (simp add: s1_def new_owned_def)
    show ?thesis unfolding snoc
      by (rule append_below[where f = "splice_target (q @ [k]) i n js", OF inv1 o1 _ _ b x(2)[unfolded snoc ks(1)] r1
            sp[unfolded snoc] replay_len[OF inv]]) (use l1 in auto)
  qed
qed

section \<open>A replay\<close>

lemma copy_step_ok:
  assumes inv: "replay_inv h0 s" and o: "own h0 (cells s) v j {length h0..<length (cells s)}"
    and hop: "hop_den h0 hop op" "op_ok op" "\<not> is_replace op"
    and r: "(case copy_containers (Some v) (cell_path hop) s of (Inl e, s1) \<Rightarrow> (Inl e, s1)
      | (Inr root', s1) \<Rightarrow> apply_in_place hop (Some root') s1) = (r, s')"
  shows "keeps h0 s' r (step_op op (Some j))"
proof (cases "copy_containers (Some v) (cell_path hop) s")
  case (Pair r1 s1)
  have sub: "{length h0..<length (cells s)} \<subseteq> {..<length (cells s)}" by auto
  note c = copy_containers_ok[OF inv o sub Pair]
  then have inv1: "replay_inv h0 s1" "length (cells s) \<le> length (cells s1)" by (auto simp: grown_def)
  show ?thesis
  proof (cases r1)
    case (Inl e)
    with c have "fails_at (cell_path hop) j" by simp
    then have "\<exists>e. at_path (cell_path hop) (cell_path hop) (op_change op) j = Inl e" using op_change_prim unfolding fails_at_def by blast
    with r Pair Inl inv1 show ?thesis by (auto simp: step_op_change[OF hop(1,3)] at_root_def)
  next
    case (Inr root')
    with c obtain d t where d: "root' = Ref d" "copied h0 s s1 (cell_path hop) d j {length h0..<length (cells s)} t" by auto
    from r Pair Inr d(1) have "apply_in_place hop (Some (Ref d)) s1 = (r, s')" by simp
    from in_place_ok[OF inv1(1) d(2) _ hop this, of "{length h0..<length (cells s1)}"] inv1(2) replay_len[OF inv]
    show ?thesis by (auto simp: keeps_def split: sum.splits)
  qed
qed

lemma change_step_ok:
  assumes inv: "replay_inv h0 s" and o: "owns_root h0 s root j" and d: "hop_den h0 hop op" and ok: "op_ok op" and nr: "\<not> is_replace op"
    and a: "a = (case hop of HP p i n items \<Rightarrow> append_copy root p i n items s | _ \<Rightarrow> None)"
    and r1: "(case a of Some (r, s1) \<Rightarrow> (map_sum id Some r, s1)
        | None \<Rightarrow> (case copy_containers root (cell_path hop) s of (Inl e, s1) \<Rightarrow> (Inl e, s1)
            | (Inr root', s1) \<Rightarrow> apply_in_place hop (Some root') s1)) = (r, s')"
  shows "keeps h0 s' r (step_op op j)"
proof (cases root)
  case None
  with o have "j = None" by (cases j) simp_all
  moreover have "a = None" unfolding a using None by (cases hop) (simp_all add: append_copy_def)
  ultimately show ?thesis using None r1 inv by (auto simp: copy_containers_def step_op_change[OF d nr] at_root_def)
next
  case (Some w)
  with o obtain x where x: "j = Some x" "own h0 (cells s) w x {length h0..<length (cells s)}" by (cases j) simp_all
  show ?thesis
  proof (cases a)
    case None
    from r1[unfolded None, unfolded option.case Some] show ?thesis unfolding x(1) by (rule copy_step_ok[OF inv x(2) d ok nr])
  next
    case (Some rs)
    then obtain p i n items where hop: "hop = HP p i n items" using a by (cases hop) simp_all
    with d obtain js where js: "op = OpP p i n js" "list_all2 (den h0) items js" by auto
    obtain r2 where a2: "append_copy root p i n items s = Some (r2, s')" "r = map_sum id Some r2"
      using Some hop r1 a by (cases rs) auto
    from append_copy_ok[OF inv x(2) js(2) a2(1)[unfolded \<open>root = Some w\<close>]] show ?thesis by (simp add: js(1) x(1) a2(2))
  qed
qed

lemma immutable_step_ok:
  assumes inv: "replay_inv h0 s" and o: "owns_root h0 s root j" and d: "hop_den h0 hop op" and r: "immutable_step hop root s = (r, s')"
  shows "keeps h0 s' r (apply_op (op_json op) j)"
proof (cases "op_ok op")
  case False
  with hop_den_ok[OF d] obtain e e' where "assert_valid_op (op_json op) = Inl e" "assert_valid_op (op_json (hop_shape hop)) = Inl e'"
    using assert_valid_op_not_ok by metis
  with r inv show ?thesis by (auto simp: immutable_step_def apply_op_def)
next
  case ok: True
  with hop_den_ok[OF d] have v: "assert_valid_op (op_json (hop_shape hop)) = Inr (hop_shape hop)" by (simp add: assert_valid_op_complete)
  show ?thesis unfolding apply_op_json_ok[OF ok]
  proof (cases "is_replace op")
    case True
    with d obtain w x where w: "hop = HR w" "op = OpR x" "den h0 w x" by (cases hop) (auto simp: is_replace_def)
    with r v inv show "keeps h0 s' r (step_op op j)" by (auto simp: immutable_step_def intro: own_old)
  next
    case False
    with d have nr: "\<And>w. hop \<noteq> HR w" by (auto simp: is_replace_def)
    show "keeps h0 s' r (step_op op j)"
      by (rule change_step_ok[OF inv o d ok False refl])
        (use r v nr in \<open>unfold immutable_step_def, cases hop; hypsubst; simp\<close>)
  qed
qed

lemma immutable_ops_ok:
  "replay_inv h0 s \<Longrightarrow> owns_root h0 s root j \<Longrightarrow> list_all2 (hop_den h0) hops ops \<Longrightarrow> immutable_ops hops root s = (r, s') \<Longrightarrow>
     keeps h0 s' r (apply_ops j ops)"
proof (induction hops arbitrary: s root j ops)
  case (Cons hop hops)
  then obtain op ops' where op: "ops = op # ops'" "hop_den h0 hop op" "list_all2 (hop_den h0) hops ops'" by (cases ops) auto
  obtain r1 s1 where st: "immutable_step hop root s = (r1, s1)" by fastforce
  note k = immutable_step_ok[OF Cons.prems(1,2) op(2) st]
  show ?case
  proof (cases r1)
    case (Inl e)
    with k Cons.prems(4) st op(1) show ?thesis by (auto simp: apply_ops_Cons)
  next
    case (Inr root')
    with k obtain j' where j': "apply_op (op_json op) j = Inr j'" "owns_root h0 s1 root' j'" "replay_inv h0 s1" by auto
    from Cons.prems(4) st Inr have "immutable_ops hops root' s1 = (r, s')" by simp
    from Cons.IH[OF j'(3,2) op(3) this] show ?thesis by (simp add: op(1) apply_ops_Cons j'(1))
  qed
qed auto

text \<open>Ownership is more than denoting.\<close>

lemma den_extend: "den h v j \<Longrightarrow> take (length h) h' = h \<Longrightarrow> den h' v j"
proof (induction rule: den.induct)
  case (den_ref a j)
  have "length h \<le> length h'" using arg_cong[OF den_ref(4), of length] by simp
  moreover have "h' ! a = h ! a" using den_ref(1,4) by (metis nth_take)
  ultimately show ?case using den_ref by (intro den.den_ref) (auto elim: list_all2_mono)
qed (rule den.den_prim)

lemma own_den:
  "own h0 h v j A \<Longrightarrow> take (length h0) h = h0 \<Longrightarrow> den h v j"
  "owns h0 h vs js C \<Longrightarrow> take (length h0) h = h0 \<Longrightarrow> list_all2 (den h) vs js"
  by (induction rule: own_owns.inducts) (auto intro: den_extend den.den_ref)

inductive_simps den_val_iff [simp]: "den h (Val p) j"
inductive_simps den_ref_iff [simp]: "den h (Ref a) j"

fun root_den :: "cell list \<Rightarrow> hval option \<Rightarrow> json option \<Rightarrow> bool" where
  "root_den h None None = True"
| "root_den h (Some v) (Some j) = den h v j"
| "root_den h _ _ = False"

lemma list_all2_concat: "list_all2 (list_all2 P) xss yss \<Longrightarrow> list_all2 P (concat xss) (concat yss)"
  by (induction rule: list_all2_induct) (simp_all add: list_all2_appendI)

lemma replay_ok:
  assumes "root_den h root j" "list_all2 (list_all2 (hop_den h)) batches opss" "apply_immutable_batches batches root h = (r, h')"
  obtains s where "keeps h s r (apply_ops j (concat opss))" "h' = cells s" "take (length h) h' = h"
proof -
  let ?s = "\<lparr>cells = h, owned = []\<rparr>"
  obtain s where s: "immutable_ops (concat batches) root ?s = (r, s)" "h' = cells s"
    using assms(3) by (auto simp: apply_immutable_batches_def split: prod.splits)
  have "replay_inv h ?s" by (simp add: replay_inv_def)
  moreover have "owns_root h ?s root j" using assms(1) by (cases root; cases j) (auto intro: own_old)
  ultimately have k: "keeps h s r (apply_ops j (concat opss))" using list_all2_concat[OF assms(2)] s(1) by (rule immutable_ops_ok)
  then have "take (length h) (cells s) = h" by (auto simp: keeps_def replay_inv_def)
  with that[OF k s(2)] s(2) show ?thesis by simp
qed

text \<open>
  C5: Copying apply refines in-place apply. Let a root and the values of decoded batches denote
  documents of a heap, where containers may be shared. \<open>applyImmutableBatches\<close> returns exactly when
  applying the batches one after the other in place does, and the root it returns denotes that result.
\<close>

theorem apply_immutable_refines:
  assumes "root_den h root j" "list_all2 (list_all2 (hop_den h)) batches opss"
  shows "case apply_immutable_batches batches root h of
      (Inl _, _) \<Rightarrow> \<exists>e. apply_ops j (concat opss) = Inl e
    | (Inr root', h') \<Rightarrow> \<exists>j'. apply_ops j (concat opss) = Inr j' \<and> root_den h' root' j'"
proof (cases "apply_immutable_batches batches root h")
  case (Pair r h')
  from replay_ok[OF assms Pair] obtain s where s: "keeps h s r (apply_ops j (concat opss))" "h' = cells s" "take (length h) h' = h" .
  have "root_den h' root' j'" if "owns_root h s root' j'" for root' j'
    using that s(2,3) by (cases root'; cases j') (auto intro: own_den(1))
  with s(1) Pair show ?thesis by (cases r) auto
qed

text \<open>
  C6: The previous value is immutable. Whatever \<open>applyImmutableBatches\<close> does, an error in the middle
  of the batches included, every value of the heap before still denotes the document it denoted: the
  previous revision, the values the operations carry, and any value that shares containers with them.
\<close>

theorem apply_immutable_keeps:
  assumes "root_den h root j" "list_all2 (list_all2 (hop_den h)) batches opss" "den h v x"
  shows "den (snd (apply_immutable_batches batches root h)) v x"
proof (cases "apply_immutable_batches batches root h")
  case (Pair r h')
  from replay_ok[OF assms(1,2) Pair] have "take (length h) h' = h" by blast
  with Pair den_extend[OF assms(3)] show ?thesis by simp
qed

text \<open>A document whose two properties share one array, and batches that change it through one of them.\<close>

definition shared_heap :: "cell list" where
  "shared_heap = [HObj [(''a'', Ref 1), (''b'', Ref 1)], HArr [Val PNull], HObj []]"

definition shared_doc :: json where
  "shared_doc = Obj [(''a'', Arr [Prim PNull]), (''b'', Arr [Prim PNull])]"

definition shared_batches :: "hop list list" where
  "shared_batches = [[HP [Key ''a''] 1 0 [Ref 2]], [HS [Key ''a'', Idx 1, Key ''c''] (Val (PStr ''x''))]]"

definition shared_ops :: "op list list" where
  "shared_ops = [[OpP [Key ''a''] 1 0 [Obj []]], [OpS [Key ''a'', Idx 1, Key ''c''] (Prim (PStr ''x''))]]"

lemma shared_den: "root_den shared_heap (Some (Ref 0)) (Some shared_doc)" "list_all2 (list_all2 (hop_den shared_heap)) shared_batches shared_ops"
  "den shared_heap (Ref 0) shared_doc"
  by (simp_all add: shared_heap_def shared_doc_def shared_batches_def shared_ops_def nth_Cons)

lemma shared_apply: "apply_immutable_batches shared_batches (Some (Ref 0)) shared_heap =
    (Inr (Some (Ref 4)), shared_heap @ [HArr [Val PNull, Ref 5], HObj [(''a'', Ref 3), (''b'', Ref 1)], HObj [(''c'', Val (PStr ''x''))]])"
  by code_simp

theorem apply_immutable_refines_witness:
  "\<exists>j'. apply_ops (Some shared_doc) (concat shared_ops) = Inr j' \<and>
     root_den (shared_heap @ [HArr [Val PNull, Ref 5], HObj [(''a'', Ref 3), (''b'', Ref 1)], HObj [(''c'', Val (PStr ''x''))]])
       (Some (Ref 4)) j'"
  using apply_immutable_refines[OF shared_den(1,2)] unfolding shared_apply by simp

theorem apply_immutable_keeps_witness:
  "den (snd (apply_immutable_batches shared_batches (Some (Ref 0)) shared_heap)) (Ref 0) shared_doc"
  by (rule apply_immutable_keeps[OF shared_den])

end
