(* ===== verification/Delta_Pending.thy ===== *)
theory Delta_Pending
  imports Delta_Codec
begin

text \<open>
  The pending queue of \<open>packages/chord/src/delta/pending.ts\<close>: the ops a slow consumer has not
  taken yet, folded while they wait. A leaf op (an append, or a set of a primitive) merges
  into the last pending leaf op on its path; any other op clears the index of leaf ops; past
  \<open>MAX_PENDING_OPS\<close> only a replacement stays pending. The last part shows that what the queue
  hands over does to a document what all the pushed batches did.
\<close>

section \<open>State\<close>

definition MAX_PENDING_OPS :: nat where "MAX_PENDING_OPS = 10000"

text \<open>The pending ops, and for each path key the position of the last pending leaf op on it.\<close>

record folding =
  fold_ops :: "op list"
  fold_leaves :: "(string \<times> nat) list"

datatype pending = PEmpty | PBatch "op list" | PFolding folding | PReplace

datatype pending_take = TakeOps "op list" | TakeReplace

section \<open>Operations\<close>

fun is_primitive :: "json \<Rightarrow> bool" where
  "is_primitive (Prim _) = True"
| "is_primitive _ = False"

fun merge_ops :: "op \<Rightarrow> op \<Rightarrow> op option" where
  "merge_ops previous (OpS p v) = Some (OpS p v)"
| "merge_ops (OpA q s) (OpA p t) = Some (OpA q (s @ t))"
| "merge_ops (OpS q (Prim (PStr s))) (OpA p t) = Some (OpS q (Prim (PStr (s @ t))))"
| "merge_ops _ _ = None"

text \<open>\<open>None\<close> when the op was not merged: it is then indexed at the position it is pushed to.\<close>

definition index_leaf :: "op \<Rightarrow> folding \<Rightarrow> folding" where
  "index_leaf op f =
     f\<lparr>fold_leaves := AList.update (path_key (op_path op)) (length (fold_ops f)) (fold_leaves f)\<rparr>"

definition merge_leaf :: "op \<Rightarrow> folding \<Rightarrow> bool \<times> folding" where
  "merge_leaf op f =
     (case map_of (fold_leaves f) (path_key (op_path op)) of
        Some at \<Rightarrow>
          (case merge_ops (fold_ops f ! at) op of
             Some merged \<Rightarrow> (True, f\<lparr>fold_ops := (fold_ops f)[at := merged]\<rparr>)
           | None \<Rightarrow> (False, index_leaf op f))
      | None \<Rightarrow> (False, index_leaf op f))"

text \<open>One op into the queue; \<open>None\<close> is the overflow.\<close>

definition push_op :: "op \<Rightarrow> folding \<Rightarrow> folding option" where
  "push_op op f =
     (let f = f\<lparr>fold_ops := fold_ops f @ [op]\<rparr> in
      if length (fold_ops f) > MAX_PENDING_OPS then None else Some f)"

definition fold_op :: "op \<Rightarrow> folding \<Rightarrow> folding option" where
  "fold_op op f =
     (case op of
        OpR _ \<Rightarrow> push_op op \<lparr>fold_ops = [], fold_leaves = []\<rparr>
      | OpA _ _ \<Rightarrow>
          (let (merged, f) = merge_leaf op f in if merged then Some f else push_op op f)
      | OpS _ v \<Rightarrow>
          if is_primitive v
          then (let (merged, f) = merge_leaf op f in if merged then Some f else push_op op f)
          else push_op op (f\<lparr>fold_leaves := []\<rparr>)
      | _ \<Rightarrow> push_op op (f\<lparr>fold_leaves := []\<rparr>))"

fun fold_batch :: "op list \<Rightarrow> folding \<Rightarrow> folding option" where
  "fold_batch [] f = Some f"
| "fold_batch (op # ops) f = (case fold_op op f of None \<Rightarrow> None | Some f \<Rightarrow> fold_batch ops f)"

definition folded :: "folding option \<Rightarrow> pending" where
  "folded r = (case r of None \<Rightarrow> PReplace | Some f \<Rightarrow> PFolding f)"

definition push_batch :: "op list \<Rightarrow> pending \<Rightarrow> pending" where
  "push_batch ops st =
     (if ops = [] then st
      else if is_replace (hd ops) then PBatch ops
      else case st of
        PEmpty \<Rightarrow> PBatch ops
      | PBatch old \<Rightarrow>
          folded (Option.bind (fold_batch old \<lparr>fold_ops = [], fold_leaves = []\<rparr>) (fold_batch ops))
      | PFolding f \<Rightarrow> folded (fold_batch ops f)
      | PReplace \<Rightarrow> PReplace)"

definition pending_size :: "pending \<Rightarrow> nat" where
  "pending_size st =
     (case st of PEmpty \<Rightarrow> 0 | PReplace \<Rightarrow> 1 | PBatch ops \<Rightarrow> length ops | PFolding f \<Rightarrow> length (fold_ops f))"

definition take_pending :: "pending \<Rightarrow> pending_take \<times> pending" where
  "take_pending st =
     ((case st of
         PEmpty \<Rightarrow> TakeOps []
       | PBatch ops \<Rightarrow> TakeOps ops
       | PFolding f \<Rightarrow> TakeOps (fold_ops f)
       | PReplace \<Rightarrow> TakeReplace), PEmpty)"

section \<open>Leaf writes\<close>

definition put_leaf :: "seg \<Rightarrow> jval \<Rightarrow> jval \<Rightarrow> jval option" where
  "put_leaf s y v =
     (case v of
        VPrim _ \<Rightarrow> None
      | VArr xs \<Rightarrow>
          (case s of Key _ \<Rightarrow> None
           | Idx i \<Rightarrow> if i < length xs then Some (VArr (xs[i := y]))
                      else if i = length xs then Some (VArr (xs @ [y])) else None)
      | VObj m \<Rightarrow> Some (VObj (m(seg_text s \<mapsto> y))))"

fun vput :: "path \<Rightarrow> jval \<Rightarrow> jval \<Rightarrow> jval option" where
  "vput [] y v = None"
| "vput (s # p) y v =
     (if p = [] then put_leaf s y v
      else case v of
        VPrim _ \<Rightarrow> None
      | VArr xs \<Rightarrow>
          (case s of Key _ \<Rightarrow> None
           | Idx i \<Rightarrow> if i < length xs then map_option (\<lambda>x. VArr (xs[i := x])) (vput p y (xs ! i)) else None)
      | VObj m \<Rightarrow>
          (case m (seg_text s) of None \<Rightarrow> None
           | Some c \<Rightarrow> map_option (\<lambda>x. VObj (m(seg_text s \<mapsto> x))) (vput p y c)))"

lemma vput_vupd: "vput (p @ [s]) y v = vupd p (put_leaf s y) v"
proof (induction p arbitrary: v)
  case (Cons t p)
  show ?case
  proof (cases v)
    case (VArr xs)
    with Cons show ?thesis by (auto simp: vupd_Arr split: seg.splits)
  next
    case (VObj m)
    with Cons show ?thesis by (auto simp: vupd_Obj split: option.splits)
  qed simp
qed (simp add: vupd_def option.map_ident)

lemma vleaf_set: "vleaf (OpS p x) s v = put_leaf s (absj x) v"
  by (cases v; cases s) (auto simp: put_leaf_def Let_def)

lemma vstep_set: "vstep (OpS p x) v = (if op_ok (OpS p x) then vput p (absj x) v else None)"
proof (cases "op_ok (OpS p x)")
  case True
  then have "p \<noteq> []" by simp
  then obtain q s where p: "p = q @ [s]" by (metis rev_exhaust)
  have "vleaf (OpS p x) s = put_leaf s (absj x)" by (rule ext) (rule vleaf_set)
  with True p show ?thesis by (simp add: vstep_def vput_vupd)
qed (auto simp: vstep_def)

text \<open>An append reads the text at its path and writes the longer one.\<close>

definition text_at :: "path \<Rightarrow> jval \<Rightarrow> string option" where
  "text_at p v = (case vget p v of Some (VPrim (PStr c)) \<Rightarrow> Some c | _ \<Rightarrow> None)"

lemma vleaf_append: "vleaf (OpA p t) s v =
    (case text_at [s] v of None \<Rightarrow> None | Some c \<Rightarrow> put_leaf s (VPrim (PStr (c @ t))) v)"
proof -
  have "map_option f (vtext g x) = (case x of VPrim (PStr c) \<Rightarrow> Some (f (VPrim (PStr (g c)))) | _ \<Rightarrow> None)"
    for f :: "jval \<Rightarrow> jval" and g x by (cases "(g, x)" rule: vtext.cases) auto
  then show ?thesis
    by (cases v; cases s) (auto simp: put_leaf_def text_at_def Let_def split: option.splits jval.splits prim.splits)
qed

lemma vstep_append:
  "vstep (OpA p t) v =
     (if op_ok (OpA p t) then
        (case text_at p v of None \<Rightarrow> None | Some c \<Rightarrow> vput p (VPrim (PStr (c @ t))) v)
      else None)"
proof (cases "op_ok (OpA p t)")
  case True
  then have "p \<noteq> []" by simp
  then obtain q s where p: "p = q @ [s]" by (metis rev_exhaust)
  have "text_at p v = Option.bind (vget q v) (text_at [s])"
    by (simp add: p text_at_def vget_append split: option.splits)
  with True p show ?thesis
    by (auto simp: vstep_def vput_vupd vupd_def vleaf_append split: option.splits)
qed (auto simp: vstep_def)

section \<open>Leaf writes commute\<close>

abbreviation texts :: "path \<Rightarrow> string list" where "texts p \<equiv> map seg_text p"

text \<open>Every step of a leaf write is a write of one child.\<close>

lemma child_simps [simp]:
  "vget [s] (VPrim a) = None"
  "vget [Key k] (VArr xs) = None"
  "vget [Idx i] (VArr xs) = (if i < length xs then Some (xs ! i) else None)"
  "vget [s] (VObj m) = m (seg_text s)"
  by (auto split: option.splits)

lemma vget_child: "vget (s # p) v = Option.bind (vget [s] v) (vget p)"
  by (cases v; cases s) (auto split: option.splits)

lemma vput_Prim [simp]: "vput p y (VPrim a) = None"
  by (cases p) (auto simp: put_leaf_def)

lemma vput_Cons:
  "vput (s # p) y v = Some u \<longleftrightarrow>
     (\<exists>x. put_leaf s x v = Some u \<and>
        (if p = [] then x = y else \<exists>c. vget [s] v = Some c \<and> vput p y c = Some x))"
  by (cases v; cases s) (auto simp: put_leaf_def split: option.splits)

declare vput.simps(2) [simp del]

named_theorems put_laws "laws of writing one child"

lemma put_leaf_child [put_laws]: "put_leaf s x v = Some u \<Longrightarrow> vget [s] u = Some x"
  by (cases v; cases s) (auto simp: put_leaf_def nth_append split: if_splits)

lemma put_leaf_other [put_laws]:
  "put_leaf t x v = Some u \<Longrightarrow> seg_text s \<noteq> seg_text t \<Longrightarrow> vget [s] u = vget [s] v"
  by (cases v; cases s; cases t) (auto simp: put_leaf_def nth_append split: if_splits)

lemma put_leaf_commute [put_laws]:
  "put_leaf t x v = Some u \<Longrightarrow> put_leaf s z u = Some w \<Longrightarrow> seg_text s \<noteq> seg_text t \<Longrightarrow> vget [s] v = Some c \<Longrightarrow>
     \<exists>u'. put_leaf s z v = Some u' \<and> put_leaf t x u' = Some w"
  by (cases v; cases s; cases t)
    (auto simp: put_leaf_def fun_upd_twist list_update_append list_update_swap split: if_splits)

lemma put_leaf_again [put_laws]:
  "put_leaf t x v = Some u \<Longrightarrow> put_leaf s z u = Some w \<Longrightarrow> seg_text s = seg_text t \<Longrightarrow> put_leaf s z v = Some w"
  by (cases v; cases s; cases t) (auto simp: put_leaf_def split: if_splits)

lemma put_leaf_same [put_laws]:
  "put_leaf t x v = Some u \<Longrightarrow> vget [s] v = Some c \<Longrightarrow> seg_text s = seg_text t \<Longrightarrow>
     vget [t] v = Some c \<and> vget [s] u = Some x"
  by (cases v; cases s; cases t) (auto simp: put_leaf_def split: if_splits)

lemma put_leaf_over [put_laws]:
  "put_leaf t x v = Some u \<Longrightarrow> vget [s] v = Some c \<Longrightarrow> seg_text s = seg_text t \<Longrightarrow> put_leaf s z v = Some w \<Longrightarrow>
     put_leaf t y w = put_leaf s y v \<and> vget [t] w = Some z"
  by (cases v; cases s; cases t) (auto simp: put_leaf_def split: if_splits)

lemma put_leaf_exists [put_laws]: "vget [s] v = Some c \<Longrightarrow> \<exists>u. put_leaf s x v = Some u"
  by (cases v; cases s) (auto simp: put_leaf_def split: if_splits option.splits)

lemma vput_vget: "vput p y v = Some u \<Longrightarrow> vget p u = Some y"
proof (induction p arbitrary: v u)
  case (Cons s p)
  then obtain x where x: "put_leaf s x v = Some u"
    "if p = [] then x = y else \<exists>c. vget [s] v = Some c \<and> vput p y c = Some x"
    by (auto simp: vput_Cons)
  with Cons.IH have "vget p x = Some y" by (cases "p = []") auto
  with put_leaf_child[OF x(1)] show ?case by (simp add: vget_child[of s p])
qed simp

lemma vput_vput: "vput p x v = Some u \<Longrightarrow> vput p y u = Some w \<Longrightarrow> vput p y v = Some w"
proof (induction p arbitrary: v u w)
  case (Cons s p)
  then obtain a b where a: "put_leaf s a v = Some u" "put_leaf s b u = Some w"
    "if p = [] then a = x else \<exists>c. vget [s] v = Some c \<and> vput p x c = Some a"
    "if p = [] then b = y else \<exists>c. vget [s] u = Some c \<and> vput p y c = Some b"
    unfolding vput_Cons by blast
  from put_leaf_again[OF a(1,2)] have "put_leaf s b v = Some w" by simp
  moreover have "if p = [] then b = y else \<exists>c. vget [s] v = Some c \<and> vput p y c = Some b"
    using a(3,4) put_leaf_child[OF a(1)] Cons.IH by (auto split: if_splits)
  ultimately show ?case unfolding vput_Cons by blast
qed simp

text \<open>
  Two writes at paths that differ, the first of them at a path that holds a primitive, can be
  swapped.
\<close>

lemma vput_swap:
  "texts p \<noteq> texts q \<Longrightarrow> vget p u = Some (VPrim a) \<Longrightarrow> vput q (VPrim b) u = Some u1 \<Longrightarrow>
   vput p (VPrim c) u1 = Some u2 \<Longrightarrow>
     vget p u1 = Some (VPrim a) \<and>
     (\<exists>w. vput p (VPrim c) u = Some w \<and> vput q (VPrim b) w = Some u2 \<and> vget q w = vget q u)"
proof (induction p arbitrary: q u u1 u2)
  case (Cons s p)
  then obtain t q' where q: "q = t # q'" by (cases q) auto
  from Cons.prems(3)[unfolded q vput_Cons] Cons.prems(4)[unfolded vput_Cons] obtain x z where
    x: "put_leaf t x u = Some u1" "if q' = [] then x = VPrim b else \<exists>d. vget [t] u = Some d \<and> vput q' (VPrim b) d = Some x"
    and z: "put_leaf s z u1 = Some u2" "if p = [] then z = VPrim c else \<exists>d. vget [s] u1 = Some d \<and> vput p (VPrim c) d = Some z"
    by blast
  from Cons.prems(2) obtain cs where cs: "vget [s] u = Some cs" "vget p cs = Some (VPrim a)"
    by (auto simp: vget_child[of s p] bind_eq_Some_conv)
  show ?case
  proof (cases "seg_text s = seg_text t")
    case False
    note other = put_leaf_other[OF x(1) False]
    from put_leaf_commute[OF x(1) z(1) False cs(1)] obtain w where
      w: "put_leaf s z u = Some w" "put_leaf t x w = Some u2" by blast
    have "vget [t] w = vget [t] u" using put_leaf_other[OF w(1)] False by simp
    moreover from this have "vput q (VPrim b) w = Some u2" using w(2) x(2) q by (auto simp: vput_Cons)
    moreover have "vput (s # p) (VPrim c) u = Some w" using w(1) z(2) other by (auto simp: vput_Cons)
    moreover have "vget (s # p) u1 = Some (VPrim a)" using other cs by (simp add: vget_child[of s p])
    ultimately show ?thesis by (auto simp: q vget_child[of t q'])
  next
    case True
    note same = put_leaf_same[OF x(1) cs(1) True]
    consider "p = []" "q' = []" | "p = []" "q' \<noteq> []" | "p \<noteq> []" "q' = []" | (deep) "p \<noteq> []" "q' \<noteq> []" by blast
    then show ?thesis
    proof cases
      case deep
      from x(2) z(2) same deep cs have *: "vput q' (VPrim b) cs = Some x" "vput p (VPrim c) x = Some z" by auto
      have "texts p \<noteq> texts q'" using Cons.prems(1) q True by simp
      from Cons.IH[OF this cs(2) *] obtain wc where
        wc: "vget p x = Some (VPrim a)" "vput p (VPrim c) cs = Some wc" "vput q' (VPrim b) wc = Some z"
          "vget q' wc = vget q' cs" by blast
      obtain w where w: "put_leaf s wc u = Some w" using put_leaf_exists[OF cs(1)] by blast
      from put_leaf_over[OF x(1) cs(1) True w, of z] put_leaf_again[OF x(1) z(1) True]
      have "put_leaf t z w = Some u2" "vget [t] w = Some wc" by simp_all
      then have "vput q (VPrim b) w = Some u2" "vget q w = vget q u"
        using deep wc same by (auto simp: q vput_Cons vget_child[of t q'])
      moreover have "vput (s # p) (VPrim c) u = Some w" using deep w wc cs by (auto simp: vput_Cons)
      moreover have "vget (s # p) u1 = Some (VPrim a)" using same wc by (simp add: vget_child[of s p])
      ultimately show ?thesis by blast
    qed (use Cons.prems(1) q True x(2) z(2) same cs in auto)
  qed
qed simp

text \<open>
  A write above a primitive blocks every later leaf write below it, until a structural op.
\<close>

fun blocked :: "path \<Rightarrow> jval \<Rightarrow> bool" where
  "blocked [] v = False"
| "blocked (s # p) v =
     (case v of VPrim _ \<Rightarrow> True
      | _ \<Rightarrow> (case vget [s] v of None \<Rightarrow> False | Some c \<Rightarrow> blocked p c))"

lemma blocked_child: "blocked (s # p) v \<longleftrightarrow> (\<exists>a. v = VPrim a) \<or> (\<exists>c. vget [s] v = Some c \<and> blocked p c)"
  by (cases v) (auto split: option.splits)

declare blocked.simps(2) [simp del]

lemma blocked_Prim [simp]: "blocked p (VPrim a) \<longleftrightarrow> p \<noteq> []"
  by (cases p) (simp_all add: blocked_child)

lemma blocked_vput: "blocked p v \<Longrightarrow> vput p y v = None"
proof (induction p arbitrary: v)
  case (Cons s p)
  show ?case
  proof (rule ccontr)
    assume "vput (s # p) y v \<noteq> None"
    then obtain u where "vput (s # p) y v = Some u" by auto
    with Cons show False by (auto simp: vput_Cons blocked_child put_leaf_def split: if_splits)
  qed
qed simp

lemma blocked_step: "blocked p v \<Longrightarrow> vput q (VPrim b) v = Some u \<Longrightarrow> blocked p u"
proof (induction p arbitrary: q v u)
  case (Cons s p)
  then obtain t q' where q: "q = t # q'" by (cases q) auto
  from Cons.prems(2)[unfolded q vput_Cons] obtain x where
    x: "put_leaf t x v = Some u" "if q' = [] then x = VPrim b else \<exists>d. vget [t] v = Some d \<and> vput q' (VPrim b) d = Some x"
    by blast
  from Cons.prems obtain c where c: "vget [s] v = Some c" "blocked p c" by (auto simp: blocked_child)
  show ?case
  proof (cases "seg_text s = seg_text t")
    case True
    note put_leaf_same[OF x(1) c(1) True]
    moreover have "blocked p x" using x(2) c(2) calculation Cons.IH by (cases "q' = []"; cases "p = []") auto
    ultimately show ?thesis by (auto simp: blocked_child)
  qed (use put_leaf_other[OF x(1)] c in \<open>auto simp: blocked_child\<close>)
qed simp

lemma primitive_step:
  "vget p v = Some (VPrim a) \<Longrightarrow> vput q (VPrim b) v = Some u \<Longrightarrow> texts p \<noteq> texts q \<Longrightarrow>
     vget p u = Some (VPrim a) \<or> blocked p u"
proof (induction p arbitrary: q v u)
  case (Cons s p)
  then obtain t q' where q: "q = t # q'" by (cases q) auto
  from Cons.prems(2)[unfolded q vput_Cons] obtain x where
    x: "put_leaf t x v = Some u" "if q' = [] then x = VPrim b else \<exists>d. vget [t] v = Some d \<and> vput q' (VPrim b) d = Some x"
    by blast
  from Cons.prems(1) obtain c where c: "vget [s] v = Some c" "vget p c = Some (VPrim a)"
    by (auto simp: vget_child[of s p] bind_eq_Some_conv)
  show ?case
  proof (cases "seg_text s = seg_text t")
    case True
    note same = put_leaf_same[OF x(1) c(1) True]
    have "vget p x = Some (VPrim a) \<or> blocked p x"
      using x(2) c(2) same Cons.IH[of c q' x] Cons.prems(3) q True by (cases "q' = []"; cases "p = []") auto
    with same show ?thesis by (auto simp: blocked_child vget_child[of s p])
  qed (use put_leaf_other[OF x(1)] c in \<open>auto simp: vget_child[of s p]\<close>)
qed simp

section \<open>Leaf ops\<close>

fun is_leaf :: "op \<Rightarrow> bool" where
  "is_leaf (OpA p t) = True"
| "is_leaf (OpS p v) = is_primitive v"
| "is_leaf _ = False"

fun leaf_value :: "op \<Rightarrow> jval \<Rightarrow> prim option" where
  "leaf_value (OpA p t) v = map_option (\<lambda>c. PStr (c @ t)) (text_at p v)"
| "leaf_value (OpS p (Prim a)) v = Some a"
| "leaf_value op v = None"

lemma vstep_leaf:
  "is_leaf op \<Longrightarrow> vstep op v =
     (if op_ok op then Option.bind (leaf_value op v) (\<lambda>b. vput (op_path op) (VPrim b) v) else None)"
  by (cases op)
    (auto simp: vstep_append vstep_set split: option.splits json.splits elim!: is_primitive.elims)

lemma leaf_value_cong: "vget (op_path op) v = vget (op_path op) u \<Longrightarrow> leaf_value op v = leaf_value op u"
  by (cases "(op, v)" rule: leaf_value.cases) (auto simp: text_at_def)

lemma vstep_leafE:
  assumes "is_leaf op" "vstep op v = Some u"
  obtains b where "op_ok op" "leaf_value op v = Some b" "vput (op_path op) (VPrim b) v = Some u"
  using assms by (auto simp: vstep_leaf bind_eq_Some_conv split: if_splits)

lemma leaf_swap:
  assumes leaves: "is_leaf n" "is_leaf l" and texts: "texts (op_path n) \<noteq> texts (op_path l)"
    and at: "vget (op_path n) u = Some (VPrim a)" and run: "vstep l u = Some u1" "vstep n u1 = Some u2"
  shows "vget (op_path n) u1 = Some (VPrim a) \<and> (\<exists>w. vstep n u = Some w \<and> vstep l w = Some u2)"
proof -
  from vstep_leafE[OF leaves(2) run(1)] obtain b where
    b: "op_ok l" "leaf_value l u = Some b" "vput (op_path l) (VPrim b) u = Some u1" .
  from vstep_leafE[OF leaves(1) run(2)] obtain c where
    c: "op_ok n" "leaf_value n u1 = Some c" "vput (op_path n) (VPrim c) u1 = Some u2" .
  from vput_swap[OF texts at b(3) c(3)] obtain w where
    w: "vget (op_path n) u1 = Some (VPrim a)" "vput (op_path n) (VPrim c) u = Some w"
      "vput (op_path l) (VPrim b) w = Some u2" "vget (op_path l) w = vget (op_path l) u" by blast
  have "leaf_value n u = Some c" using c(2) at w(1) leaf_value_cong[of n u u1] by simp
  moreover have "leaf_value l w = Some b" using b(2) w(4) leaf_value_cong[of l w u] by simp
  ultimately show ?thesis using w b c leaves by (simp add: vstep_leaf)
qed

lemma blocked_run:
  "blocked (op_path n) u \<Longrightarrow> is_leaf n \<Longrightarrow> \<forall>l \<in> set post. is_leaf l \<Longrightarrow> vapply (post @ [n]) u = None"
proof (induction post arbitrary: u)
  case Nil
  then show ?case
    using blocked_vput by (auto simp: vstep_leaf split: option.splits Option.bind_splits)
next
  case (Cons l post)
  show ?case
  proof (cases "vstep l u")
    case (Some u1)
    from Cons.prems(3) have "is_leaf l" by simp
    from vstep_leafE[OF this Some] blocked_step[OF Cons.prems(1)] have "blocked (op_path n) u1" by metis
    with Cons Some show ?thesis by simp
  qed simp
qed

lemma leaf_move:
  "is_leaf n \<Longrightarrow> \<forall>l \<in> set post. is_leaf l \<and> texts (op_path n) \<noteq> texts (op_path l) \<Longrightarrow>
     vget (op_path n) u = Some (VPrim a) \<Longrightarrow> vapply (post @ [n]) u = Some w \<Longrightarrow> vapply (n # post) u = Some w"
proof (induction post arbitrary: u)
  case (Cons l post)
  from Cons.prems(4) obtain u1 where u1: "vstep l u = Some u1" "vapply (post @ [n]) u1 = Some w"
    by (auto split: option.splits)
  have l: "is_leaf l" "texts (op_path n) \<noteq> texts (op_path l)" using Cons.prems(2) by auto
  from vstep_leafE[OF l(1) u1(1)] primitive_step[OF Cons.prems(3) _ l(2)]
  have "vget (op_path n) u1 = Some (VPrim a) \<or> blocked (op_path n) u1" by metis
  moreover have "\<not> blocked (op_path n) u1"
    using blocked_run[of n u1 post] u1(2) Cons.prems(1,2) by auto
  ultimately have "vapply (n # post) u1 = Some w" using Cons u1(2) by auto
  then obtain u2 where u2: "vstep n u1 = Some u2" "vapply post u2 = Some w" by (auto split: option.splits)
  with leaf_swap[OF Cons.prems(1) l Cons.prems(3) u1(1) u2(1)] show ?case by auto
qed simp

lemma leaf_primitive: "is_leaf op \<Longrightarrow> vstep op v = Some u \<Longrightarrow> \<exists>a. vget (op_path op) u = Some (VPrim a)"
  by (metis vput_vget vstep_leafE)

lemma merge_sound:
  assumes "is_leaf l" "is_leaf n" "op_path n = op_path l" "vstep l u = Some v" "vstep n v = Some w"
  shows "\<exists>m. merge_ops l n = Some m \<and> vstep m u = Some w"
proof -
  from vstep_leafE[OF assms(1,4)] obtain b where
    b: "op_ok l" "leaf_value l u = Some b" "vput (op_path l) (VPrim b) u = Some v" .
  from vstep_leafE[OF assms(2,5)] obtain c where
    c: "op_ok n" "leaf_value n v = Some c" "vput (op_path l) (VPrim c) v = Some w" using assms(3) by metis
  have put: "vput (op_path l) (VPrim c) u = Some w" by (rule vput_vput[OF b(3) c(3)])
  have v: "vget (op_path l) v = Some (VPrim b)" by (rule vput_vget[OF b(3)])
  show ?thesis
  proof (cases n)
    case (OpS p x)
    with assms(2) obtain a where "x = Prim a" by (cases x) auto
    with OpS assms(3) put c show ?thesis by (simp add: vstep_leaf)
  next
    case (OpA p t)
    with c v assms(3) obtain s where s: "b = PStr s" "c = PStr (s @ t)"
      by (auto simp: text_at_def split: prim.splits)
    show ?thesis
    proof (cases l)
      case (OpA q t')
      with b s \<open>n = OpA p t\<close> put show ?thesis by (auto simp: vstep_append split: option.splits)
    next
      case (OpS q x)
      with b(2) s assms(1) have "x = Prim (PStr s)" by (cases x) auto
      with b put s OpS \<open>n = OpA p t\<close> show ?thesis by (simp add: vstep_set)
    qed (use assms(1) in auto)
  qed (use assms(2) in auto)
qed

lemma merge_leaf_op:
  "is_leaf l \<Longrightarrow> is_leaf n \<Longrightarrow> op_path n = op_path l \<Longrightarrow> merge_ops l n = Some m \<Longrightarrow>
     is_leaf m \<and> op_path m = op_path l"
  by (cases "(l, n)" rule: merge_ops.cases) auto

section \<open>Folding keeps the meaning\<close>

text \<open>
  The assumption on paths: within what is pending, a path is always spelled the same way (an
  element by its number, a property by its name).
\<close>

definition text_unique :: "op list \<Rightarrow> bool" where
  "text_unique ops \<longleftrightarrow>
     (\<forall>x \<in> set ops. \<forall>y \<in> set ops. texts (op_path x) = texts (op_path y) \<longrightarrow> op_path x = op_path y)"

definition same_effect :: "op list \<Rightarrow> op list \<Rightarrow> bool" where
  "same_effect all kept \<longleftrightarrow> (\<forall>v w. vapply all v = Some w \<longrightarrow> vapply kept v = Some w)"

definition leaf_at :: "op list \<Rightarrow> string \<Rightarrow> nat \<Rightarrow> bool" where
  "leaf_at ops key at \<longleftrightarrow>
     at < length ops \<and> is_leaf (ops ! at) \<and> key = path_key (op_path (ops ! at)) \<and>
     (\<forall>l \<in> set (drop (Suc at) ops). is_leaf l \<and> op_path l \<noteq> op_path (ops ! at))"

definition fold_inv :: "op list \<Rightarrow> folding \<Rightarrow> bool" where
  "fold_inv all f \<longleftrightarrow>
     same_effect all (fold_ops f) \<and> op_path ` set (fold_ops f) \<subseteq> op_path ` set all \<and>
     length (fold_ops f) \<le> min MAX_PENDING_OPS (length all) \<and>
     (\<forall>key at. map_of (fold_leaves f) key = Some at \<longrightarrow> leaf_at (fold_ops f) key at)"

lemma same_effect_step:
  assumes "same_effect all kept"
    and "\<And>v u w. vapply kept v = Some u \<Longrightarrow> vstep op u = Some w \<Longrightarrow> vapply kept' v = Some w"
  shows "same_effect (all @ [op]) kept'"
  using assms unfolding same_effect_def by (auto simp: vapply_append split: option.splits)

lemma same_effect_push: "same_effect all kept \<Longrightarrow> same_effect (all @ [op]) (kept @ [op])"
  by (rule same_effect_step) (auto simp: vapply_append)

lemma same_effect_reset: "same_effect (all @ [OpR x]) [OpR x]"
  by (auto simp: same_effect_def vapply_append vstep_def split: option.splits)

lemma push_inv:
  assumes "same_effect (all @ [op]) (fold_ops f @ [op])" "op_path ` set (fold_ops f) \<subseteq> op_path ` set all"
    "length (fold_ops f) \<le> length all" "push_op op f = Some f'"
    and "\<And>key at. map_of (fold_leaves f) key = Some at \<Longrightarrow> leaf_at (fold_ops f @ [op]) key at"
  shows "fold_inv (all @ [op]) f'"
proof -
  from assms(4) have "f' = f\<lparr>fold_ops := fold_ops f @ [op]\<rparr>" "Suc (length (fold_ops f)) \<le> MAX_PENDING_OPS"
    by (auto simp: push_op_def Let_def split: if_splits)
  with assms show ?thesis by (auto simp: fold_inv_def)
qed

lemma leaf_at_push:
  "leaf_at ops key at \<Longrightarrow> is_leaf op \<Longrightarrow> key \<noteq> path_key (op_path op) \<Longrightarrow> leaf_at (ops @ [op]) key at"
  by (auto simp: leaf_at_def nth_append)

lemma leaf_at_new: "is_leaf op \<Longrightarrow> leaf_at (ops @ [op]) (path_key (op_path op)) (length ops)"
  by (simp add: leaf_at_def)

lemma drop_list_update: "drop n (xs[i := x]) = (if i < n then drop n xs else (drop n xs)[i - n := x])"
  by (auto simp: drop_update_swap)

lemma leaf_at_update:
  assumes "leaf_at ops key at" "i < length ops" "is_leaf m" "op_path m = op_path (ops ! i)"
  shows "leaf_at (ops[i := m]) key at"
proof -
  have "\<exists>l' \<in> set (drop (Suc at) ops). is_leaf l' \<and> op_path l' = op_path l"
    if "l \<in> set (drop (Suc at) (ops[i := m]))" for l
  proof -
    from that obtain j where "j < length ops - Suc at" "l = ops[i := m] ! (Suc at + j)"
      by (auto simp: in_set_conv_nth)
    then have j: "Suc at + j < length ops" "l = ops[i := m] ! (Suc at + j)" by simp_all
    then have "drop (Suc at) ops ! j \<in> set (drop (Suc at) ops)" by (intro nth_mem) simp
    then have l': "ops ! (Suc at + j) \<in> set (drop (Suc at) ops)" using j by simp
    with assms(1) have "is_leaf (ops ! (Suc at + j))" by (auto simp: leaf_at_def)
    with l' j assms(2,4) show ?thesis by (cases "i = Suc at + j") force+
  qed
  moreover have "is_leaf l" if "l \<in> set (drop (Suc at) (ops[i := m]))" for l
    using that assms(1,3) set_update_subset_insert[of "drop (Suc at) ops" "i - Suc at" m]
    by (auto simp: drop_list_update leaf_at_def split: if_splits)
  moreover have "op_path (ops[i := m] ! at) = op_path (ops ! at)" "is_leaf (ops[i := m] ! at)"
    using assms by (auto simp: leaf_at_def nth_list_update)
  ultimately show ?thesis using assms(1) unfolding leaf_at_def by (metis length_list_update)
qed

lemma merge_effect:
  assumes at: "leaf_at ops (path_key (op_path n)) at" and n: "is_leaf n"
    and m: "merge_ops (ops ! at) n = Some m"
    and u: "text_unique (ops @ [n])" and run: "vapply ops v = Some u" "vstep n u = Some w"
  shows "vapply (ops[at := m]) v = Some w"
proof -
  let ?l = "ops ! at"
  have len: "at < length ops" and l: "is_leaf ?l" "op_path n = op_path ?l"
    using at by (auto simp: leaf_at_def)
  have split: "ops = take at ops @ ?l # drop (Suc at) ops" using len by (rule id_take_nth_drop)
  then obtain u0 u1 where u0: "vapply (take at ops) v = Some u0" "vstep ?l u0 = Some u1" "vapply (drop (Suc at) ops) u1 = Some u"
    using run(1) unfolding vapply_append[of "take at ops" "?l # drop (Suc at) ops", folded split]
    by (auto split: option.splits)
  obtain a where "vget (op_path n) u1 = Some (VPrim a)" using leaf_primitive[OF l(1) u0(2)] l(2) by auto
  moreover have "texts (op_path n) \<noteq> texts (op_path l')" "is_leaf l'" if "l' \<in> set (drop (Suc at) ops)" for l'
  proof -
    have "l' \<in> set ops" using that by (rule in_set_dropD)
    moreover have "op_path l' \<noteq> op_path n" "is_leaf l'" using at that l(2) by (auto simp: leaf_at_def)
    ultimately show "texts (op_path n) \<noteq> texts (op_path l')" "is_leaf l'"
      using u unfolding text_unique_def by (metis Un_iff list.set_intros(1) set_append)+
  qed
  moreover have "vapply (drop (Suc at) ops @ [n]) u1 = Some w" using u0(3) run(2) by (simp add: vapply_append)
  ultimately have "vapply (n # drop (Suc at) ops) u1 = Some w" using leaf_move[OF n] by blast
  then obtain u2 where u2: "vstep n u1 = Some u2" "vapply (drop (Suc at) ops) u2 = Some w"
    by (auto split: option.splits)
  from merge_sound[OF l(1) n l(2) u0(2) u2(1)] m have "vstep m u0 = Some u2" by simp
  then show ?thesis using u0(1) u2(2) len by (simp add: upd_conv_take_nth_drop vapply_append)
qed

lemma text_unique_mono: "text_unique ys \<Longrightarrow> op_path ` set xs \<subseteq> op_path ` set ys \<Longrightarrow> text_unique xs"
  unfolding text_unique_def
proof (intro ballI impI)
  fix x y assume u: "\<forall>x \<in> set ys. \<forall>y \<in> set ys. texts (op_path x) = texts (op_path y) \<longrightarrow> op_path x = op_path y"
    and sub: "op_path ` set xs \<subseteq> op_path ` set ys" and xy: "x \<in> set xs" "y \<in> set xs" "texts (op_path x) = texts (op_path y)"
  have "op_path x \<in> op_path ` set ys" "op_path y \<in> op_path ` set ys" using sub xy(1,2) by auto
  then obtain x' y' where "x' \<in> set ys" "op_path x' = op_path x" "y' \<in> set ys" "op_path y' = op_path y"
    by (elim imageE) simp
  with u xy(3) show "op_path x = op_path y" by metis
qed

lemma leaf_op_inv:
  assumes inv: "fold_inv all f" and u: "text_unique (all @ [op])" and op: "is_leaf op"
    and step: "(let (merged, f) = merge_leaf op f in if merged then Some f else push_op op f) = Some f'"
  shows "fold_inv (all @ [op]) f'"
proof -
  let ?key = "path_key (op_path op)"
  show ?thesis
  proof (cases "fst (merge_leaf op f)")
    case True
    then obtain at m where m: "map_of (fold_leaves f) ?key = Some at" "merge_ops (fold_ops f ! at) op = Some m"
      by (auto simp: merge_leaf_def split: option.splits)
    with step have f': "f' = f\<lparr>fold_ops := (fold_ops f)[at := m]\<rparr>" by (simp add: merge_leaf_def)
    have at: "leaf_at (fold_ops f) ?key at" using inv m(1) by (auto simp: fold_inv_def)
    have l: "at < length (fold_ops f)" "is_leaf (fold_ops f ! at)" "op_path op = op_path (fold_ops f ! at)"
      using at by (auto simp: leaf_at_def)
    from merge_leaf_op[OF l(2) op l(3) m(2)] have ml: "is_leaf m" "op_path m = op_path (fold_ops f ! at)" by auto
    have "text_unique (fold_ops f @ [op])"
      by (rule text_unique_mono[OF u]) (use inv in \<open>auto simp: fold_inv_def\<close>)
    then have "same_effect (all @ [op]) ((fold_ops f)[at := m])"
      using inv merge_effect[OF at op m(2)] by (intro same_effect_step[of all "fold_ops f"]) (auto simp: fold_inv_def)
    moreover have "op_path ` set ((fold_ops f)[at := m]) \<subseteq> op_path ` set (all @ [op])"
    proof -
      have "op_path ` set ((fold_ops f)[at := m]) \<subseteq> insert (op_path op) (op_path ` set (fold_ops f))"
        using image_mono[OF set_update_subset_insert[of "fold_ops f" at m], of op_path] l(3) ml(2) by simp
      with inv show ?thesis by (auto simp: fold_inv_def)
    qed
    moreover have "leaf_at ((fold_ops f)[at := m]) key i" if "map_of (fold_leaves f) key = Some i" for key i
      using inv that leaf_at_update[OF _ l(1) ml] by (auto simp: fold_inv_def)
    ultimately show ?thesis using inv f' by (simp add: fold_inv_def)
  next
    case False
    then have f1: "merge_leaf op f = (False, index_leaf op f)"
      by (auto simp: merge_leaf_def split: option.splits)
    with step have "push_op op (index_leaf op f) = Some f'" by simp
    then show ?thesis
    proof (rule push_inv[rotated 3])
      fix key i assume "map_of (fold_leaves (index_leaf op f)) key = Some i"
      then show "leaf_at (fold_ops (index_leaf op f) @ [op]) key i"
        using inv op leaf_at_new leaf_at_push
        by (auto simp: index_leaf_def update_conv fold_inv_def split: if_splits)
    qed (use inv in \<open>auto simp: index_leaf_def fold_inv_def same_effect_push\<close>)
  qed
qed

lemma fold_op_inv:
  assumes inv: "fold_inv all f" and u: "text_unique (all @ [op])" and step: "fold_op op f = Some f'"
  shows "fold_inv (all @ [op]) f'"
proof -
  have structural: "fold_inv (all @ [op]) f'" if "push_op op (f\<lparr>fold_leaves := []\<rparr>) = Some f'"
    using that by (rule push_inv[rotated 3]) (use inv in \<open>auto simp: fold_inv_def same_effect_push\<close>)
  show ?thesis
  proof (cases op)
    case (OpR x)
    with step have "push_op op \<lparr>fold_ops = [], fold_leaves = []\<rparr> = Some f'" by (simp add: fold_op_def)
    then show ?thesis by (rule push_inv[rotated 3]) (simp_all add: OpR same_effect_reset)
  next
    case (OpS p x)
    with step structural leaf_op_inv[OF inv u] show ?thesis by (auto simp: fold_op_def split: if_splits)
  next
    case (OpA p t)
    with step leaf_op_inv[OF inv u] show ?thesis by (auto simp: fold_op_def)
  qed (use step structural in \<open>auto simp: fold_op_def\<close>)
qed

lemma fold_batch_inv:
  "fold_inv all f \<Longrightarrow> text_unique (all @ ops) \<Longrightarrow> fold_batch ops f = Some f' \<Longrightarrow> fold_inv (all @ ops) f'"
proof (induction ops arbitrary: all f)
  case (Cons op ops)
  from Cons.prems(3) obtain f1 where f1: "fold_op op f = Some f1" "fold_batch ops f1 = Some f'"
    by (auto split: option.splits)
  have "text_unique (all @ [op])" by (rule text_unique_mono[OF Cons.prems(2)]) auto
  with Cons.IH[of "all @ [op]" f1] fold_op_inv[OF Cons.prems(1) _ f1(1)] f1(2) Cons.prems(2) show ?case by simp
qed simp

section \<open>The queue\<close>

definition push_all :: "op list list \<Rightarrow> pending" where
  "push_all batches = fold push_batch batches PEmpty"

definition pending_inv :: "op list \<Rightarrow> pending \<Rightarrow> bool" where
  "pending_inv all st =
     (case st of
        PEmpty \<Rightarrow> all = []
      | PBatch ops \<Rightarrow> same_effect all ops \<and> set ops \<subseteq> set all
      | PFolding f \<Rightarrow> length (fold_ops f) \<le> MAX_PENDING_OPS \<and>
          (\<exists>kept. same_effect all kept \<and> set kept \<subseteq> set all \<and> fold_inv kept f)
      | PReplace \<Rightarrow> True)"

lemma same_effect_refl: "same_effect all all"
  by (simp add: same_effect_def)

lemma same_effect_append: "same_effect all kept \<Longrightarrow> same_effect (all @ ops) (kept @ ops)"
  by (auto simp: same_effect_def vapply_append split: option.splits)

lemma same_effect_base: "is_replace (hd ops) \<Longrightarrow> ops \<noteq> [] \<Longrightarrow> same_effect (all @ ops) ops"
  by (cases ops)
    (auto simp: same_effect_def vapply_append is_replace_def vstep_def split: option.splits op.splits)

lemma fold_inv_init: "fold_inv [] \<lparr>fold_ops = [], fold_leaves = []\<rparr>"
  by (simp add: fold_inv_def same_effect_refl)

lemma folded_inv:
  assumes "fold_inv kept f" "text_unique (kept @ ops)" "same_effect all kept" "set kept \<subseteq> set all"
  shows "pending_inv (all @ ops) (folded (fold_batch ops f))"
proof (cases "fold_batch ops f")
  case (Some f')
  from fold_batch_inv[OF assms(1,2) Some] have "fold_inv (kept @ ops) f'" .
  moreover from this have "length (fold_ops f') \<le> MAX_PENDING_OPS" by (simp add: fold_inv_def)
  ultimately show ?thesis
    using Some assms(3,4) same_effect_append[OF assms(3), of ops]
    by (auto simp: pending_inv_def folded_def intro!: exI[of _ "kept @ ops"])
qed (simp add: pending_inv_def folded_def)

lemma push_batch_inv:
  assumes inv: "pending_inv all st" and u: "text_unique (all @ ops)"
  shows "pending_inv (all @ ops) (push_batch ops st)"
proof -
  consider "ops = []" | (base) "ops \<noteq> []" "is_replace (hd ops)" | (more) "ops \<noteq> []" "\<not> is_replace (hd ops)"
    by blast
  then show ?thesis
  proof cases
    case base
    with same_effect_base show ?thesis by (auto simp: push_batch_def pending_inv_def)
  next
    case more
    have mono: "text_unique (kept @ ops)" if "set kept \<subseteq> set all" for kept
      by (rule text_unique_mono[OF u]) (use that in auto)
    show ?thesis
    proof (cases st)
      case PEmpty
      with more inv show ?thesis by (simp add: push_batch_def pending_inv_def same_effect_refl)
    next
      case (PBatch old)
      with inv have old: "same_effect all old" "set old \<subseteq> set all" by (auto simp: pending_inv_def)
      show ?thesis
      proof (cases "fold_batch old \<lparr>fold_ops = [], fold_leaves = []\<rparr>")
        case (Some f)
        have "text_unique old" by (rule text_unique_mono[OF mono[OF old(2)]]) auto
        with fold_batch_inv[OF fold_inv_init _ Some] have "fold_inv old f" by simp
        from folded_inv[OF this mono[OF old(2)] old] Some PBatch more show ?thesis by (simp add: push_batch_def)
      qed (use PBatch more in \<open>simp add: push_batch_def folded_def pending_inv_def\<close>)
    next
      case (PFolding f)
      with inv obtain kept where "same_effect all kept" "set kept \<subseteq> set all" "fold_inv kept f"
        by (auto simp: pending_inv_def)
      with folded_inv[of kept f ops all] mono PFolding more show ?thesis by (simp add: push_batch_def)
    qed (use more in \<open>simp add: push_batch_def pending_inv_def\<close>)
  qed (use inv in \<open>simp add: push_batch_def\<close>)
qed

lemma push_all_inv: "text_unique (concat batches) \<Longrightarrow> pending_inv (concat batches) (push_all batches)"
proof (induction batches rule: rev_induct)
  case Nil
  then show ?case by (simp add: push_all_def pending_inv_def)
next
  case (snoc b bs)
  have "text_unique (concat bs)" by (rule text_unique_mono[OF snoc.prems]) auto
  with snoc push_batch_inv[of "concat bs" "push_all bs" b] show ?case by (simp add: push_all_def)
qed

lemma take_same_effect:
  "text_unique (concat batches) \<Longrightarrow> fst (take_pending (push_all batches)) = TakeOps ops \<Longrightarrow>
     same_effect (concat batches) ops"
  using push_all_inv[of batches]
  by (auto simp: pending_inv_def take_pending_def fold_inv_def same_effect_def
      simp del: concat_eq_Nil_conv split: pending.splits)

text \<open>
  C17: the pending queue loses nothing. Whatever batches were pushed since the last take, the ops
  it hands over do to a document what all of them did, in order: where the pushed ops apply,
  the folded ops apply and give an equal document.
\<close>

theorem take_faithful:
  assumes "text_unique (concat batches)"
    and "fst (take_pending (push_all batches)) = TakeOps ops"
    and "apply_ops (Some v) (concat batches) = Inr (Some w)"
  shows "\<exists>w'. apply_ops (Some v) ops = Inr (Some w') \<and> absj w' = absj w"
proof -
  from assms(3) have "vapply (concat batches) (absj v) = Some (absj w)"
    using apply_ops_vapply by blast
  with take_same_effect[OF assms(1,2)] show ?thesis by (simp add: same_effect_def flip: apply_ops_vapply)
qed

theorem take_faithful_witness:
  "\<exists>w'. apply_ops (Some (Obj [(''a'', Prim (PStr ''x''))])) [OpA [Key ''a''] ''yz''] = Inr (Some w') \<and>
     absj w' = absj (Obj [(''a'', Prim (PStr ''xyz''))])"
proof (rule take_faithful)
  let ?b = "[[OpA [Key ''a''] ''y''], [OpA [Key ''a''] ''z'']]"
  show "text_unique (concat ?b)" by (simp add: text_unique_def)
  show "fst (take_pending (push_all ?b)) = TakeOps [OpA [Key ''a''] ''yz'']"
    by (simp add: push_all_def push_batch_def is_replace_def fold_op_def merge_leaf_def index_leaf_def
        push_op_def folded_def take_pending_def MAX_PENDING_OPS_def)
  show "apply_ops (Some (Obj [(''a'', Prim (PStr ''x''))])) (concat ?b) =
      Inr (Some (Obj [(''a'', Prim (PStr ''xyz''))]))" by code_simp
qed

section \<open>Bounds\<close>

lemma push_op_room:
  "length (fold_ops f) < MAX_PENDING_OPS \<Longrightarrow>
     \<exists>f'. push_op op f = Some f' \<and> length (fold_ops f') = Suc (length (fold_ops f))"
  by (simp add: push_op_def)

lemma fold_op_room:
  assumes "length (fold_ops f) < MAX_PENDING_OPS"
  shows "\<exists>f'. fold_op op f = Some f' \<and> length (fold_ops f') \<le> Suc (length (fold_ops f))"
proof -
  have "0 < MAX_PENDING_OPS" by (simp add: MAX_PENDING_OPS_def)
  then have 1: "\<exists>f'. push_op op \<lparr>fold_ops = [], fold_leaves = []\<rparr> = Some f' \<and> length (fold_ops f') \<le> Suc (length (fold_ops f))"
    using push_op_room[of "\<lparr>fold_ops = [], fold_leaves = []\<rparr>" op] by auto
  have 2: "\<exists>f'. push_op op (f\<lparr>fold_leaves := []\<rparr>) = Some f' \<and> length (fold_ops f') \<le> Suc (length (fold_ops f))"
    using push_op_room[of "f\<lparr>fold_leaves := []\<rparr>" op] assms by auto
  have 3: "fst (merge_leaf op f) \<Longrightarrow> length (fold_ops (snd (merge_leaf op f))) = length (fold_ops f)"
    by (auto simp: merge_leaf_def split: option.splits)
  have 4: "\<exists>f'. push_op op (snd (merge_leaf op f)) = Some f' \<and> length (fold_ops f') \<le> Suc (length (fold_ops f))"
    if "\<not> fst (merge_leaf op f)"
    using that push_op_room[of "index_leaf op f" op] assms
    by (auto simp: merge_leaf_def index_leaf_def split: option.splits)
  show ?thesis using 1 2 3 4 by (cases op) (auto simp: fold_op_def split_beta)
qed

lemma fold_batch_room:
  "length (fold_ops f) + length ops \<le> MAX_PENDING_OPS \<Longrightarrow>
     \<exists>f'. fold_batch ops f = Some f' \<and> length (fold_ops f') \<le> length (fold_ops f) + length ops"
proof (induction ops arbitrary: f)
  case (Cons op ops)
  from fold_op_room[of f op] Cons.prems obtain f1 where
    f1: "fold_op op f = Some f1" "length (fold_ops f1) \<le> Suc (length (fold_ops f))" by auto
  with Cons.prems Cons.IH[of f1] show ?case by fastforce
qed simp

lemma push_batch_room:
  assumes "st \<noteq> PReplace" "pending_size st + length ops \<le> MAX_PENDING_OPS"
  shows "push_batch ops st \<noteq> PReplace \<and> pending_size (push_batch ops st) \<le> pending_size st + length ops"
proof (cases "ops = [] \<or> is_replace (hd ops)")
  case True
  with assms show ?thesis by (auto simp: push_batch_def pending_size_def)
next
  case False
  show ?thesis
  proof (cases st)
    case (PBatch old)
    with assms(2) have len: "length old + length ops \<le> MAX_PENDING_OPS" by (simp add: pending_size_def)
    obtain f where f: "fold_batch old \<lparr>fold_ops = [], fold_leaves = []\<rparr> = Some f" "length (fold_ops f) \<le> length old"
      using fold_batch_room[of "\<lparr>fold_ops = [], fold_leaves = []\<rparr>" old] len by auto
    with len obtain f' where "fold_batch ops f = Some f'" "length (fold_ops f') \<le> length (fold_ops f) + length ops"
      using fold_batch_room[of f ops] by auto
    with f False PBatch show ?thesis by (simp add: push_batch_def folded_def pending_size_def)
  next
    case (PFolding f)
    with assms(2) fold_batch_room[of f ops] False show ?thesis
      by (auto simp: push_batch_def folded_def pending_size_def)
  qed (use assms False in \<open>simp_all add: push_batch_def pending_size_def\<close>)
qed

text \<open>
  the queue only gives up on the pushed ops when it must: while no more than
  \<open>MAX_PENDING_OPS\<close> ops were pushed in all, it never degrades to a replacement.
\<close>

theorem no_early_replace:
  "length (concat batches) \<le> MAX_PENDING_OPS \<Longrightarrow> fst (take_pending (push_all batches)) \<noteq> TakeReplace"
proof -
  assume "length (concat batches) \<le> MAX_PENDING_OPS"
  then have "push_all batches \<noteq> PReplace \<and> pending_size (push_all batches) \<le> length (concat batches)"
  proof (induction batches rule: rev_induct)
    case Nil
    then show ?case by (simp add: push_all_def pending_size_def)
  next
    case (snoc b bs)
    with push_batch_room[of "push_all bs" b] show ?case by (simp add: push_all_def)
  qed
  then show ?thesis by (auto simp: take_pending_def split: pending.splits)
qed

theorem no_early_replace_witness:
  "fst (take_pending (push_all [[OpD [Key ''a'']], [OpD [Key ''b'']]])) \<noteq> TakeReplace"
  by (rule no_early_replace) (simp add: MAX_PENDING_OPS_def)

lemma push_op_bound: "push_op op f = Some f' \<Longrightarrow> length (fold_ops f') \<le> MAX_PENDING_OPS"
  by (auto simp: push_op_def Let_def split: if_splits)

lemma fold_op_bound:
  assumes "fold_op op f = Some f'" "length (fold_ops f) \<le> MAX_PENDING_OPS"
  shows "length (fold_ops f') \<le> MAX_PENDING_OPS"
proof -
  have "fst (merge_leaf op f) \<Longrightarrow> length (fold_ops (snd (merge_leaf op f))) = length (fold_ops f)"
    by (auto simp: merge_leaf_def split: option.splits)
  with assms show ?thesis
    by (cases op) (auto simp: fold_op_def split_beta dest: push_op_bound split: if_splits)
qed

lemma fold_batch_bound:
  "fold_batch ops f = Some f' \<Longrightarrow> length (fold_ops f) \<le> MAX_PENDING_OPS \<Longrightarrow> length (fold_ops f') \<le> MAX_PENDING_OPS"
  by (induction ops arbitrary: f) (auto split: option.splits dest: fold_op_bound)

definition bounded :: "op list set \<Rightarrow> pending \<Rightarrow> bool" where
  "bounded bs st =
     (case st of PBatch b \<Rightarrow> b \<in> bs | PFolding f \<Rightarrow> length (fold_ops f) \<le> MAX_PENDING_OPS | _ \<Rightarrow> True)"

lemma push_batch_bounded: "bounded bs st \<Longrightarrow> bounded (insert b bs) (push_batch b st)"
  by (cases st)
    (auto simp: bounded_def push_batch_def folded_def bind_eq_Some_conv dest!: fold_batch_bound split: option.splits)

text \<open>
  the queue is bounded. Once a second batch was folded in it holds at most
  \<open>MAX_PENDING_OPS\<close> ops, whatever was pushed; only a single batch is kept as received.
\<close>

theorem pending_bounded:
  "pending_size (push_all batches) \<le> MAX_PENDING_OPS \<or> (\<exists>b. b \<in> set batches \<and> push_all batches = PBatch b)"
proof -
  have "bounded (set batches) (push_all batches)"
  proof (induction batches rule: rev_induct)
    case (snoc b bs)
    with push_batch_bounded[of "set bs" "push_all bs" b] show ?case by (simp add: push_all_def)
  qed (simp add: bounded_def push_all_def)
  moreover have "1 \<le> MAX_PENDING_OPS" by (simp add: MAX_PENDING_OPS_def)
  ultimately show ?thesis
    by (auto simp: bounded_def pending_size_def split: pending.splits)
qed

end
