(* ===== verification/Storage_Ids.thy ===== *)
theory Storage_Ids
  imports Prelude
begin

text \<open>
  Sorted id lists and scans of \<open>packages/durable/src/storage/memory.ts\<close> and
  \<open>packages/durable/src/storage/scan.ts\<close>: the two binary searches, insertion and removal, the
  start of a scan, the indexes it visits and the cut into pages. Ids are integers; a search
  target may also be one of the two infinities the code uses as open bounds.
\<close>

section \<open>Targets of a search\<close>

datatype bound = NegInf | Fin int | PosInf

instantiation bound :: linorder
begin

fun less_eq_bound :: "bound \<Rightarrow> bound \<Rightarrow> bool" where
  "less_eq_bound NegInf b = True"
| "less_eq_bound (Fin i) b = (case b of NegInf \<Rightarrow> False | Fin j \<Rightarrow> i \<le> j | PosInf \<Rightarrow> True)"
| "less_eq_bound PosInf b = (b = PosInf)"

definition less_bound :: "bound \<Rightarrow> bound \<Rightarrow> bool" where
  "less_bound a b = (a \<le> b \<and> \<not> b \<le> (a :: bound))"

instance
proof
  fix a b c :: bound
  show "a < b \<longleftrightarrow> a \<le> b \<and> \<not> b \<le> a" by (simp add: less_bound_def)
  show "a \<le> a" by (cases a) simp_all
  show "a \<le> b \<Longrightarrow> b \<le> c \<Longrightarrow> a \<le> c" by (cases a; cases b; cases c) simp_all
  show "a \<le> b \<Longrightarrow> b \<le> a \<Longrightarrow> a = b" by (cases a; cases b) simp_all
  show "a \<le> b \<or> b \<le> a" by (cases a; cases b) auto
qed

end

lemma bound_simps [simp]:
  "Fin i < Fin j \<longleftrightarrow> i < j" "Fin i \<le> Fin j \<longleftrightarrow> i \<le> j"
  "NegInf < Fin i" "Fin i < PosInf" "\<not> Fin i < NegInf" "\<not> PosInf < Fin i"
  "NegInf \<le> b" "b \<le> PosInf"
  by (auto simp: less_bound_def) (cases b; simp)

section \<open>Binary search and sorted lists\<close>

function ids_lower_loop :: "int list \<Rightarrow> bound \<Rightarrow> nat \<Rightarrow> nat \<Rightarrow> nat" where
  "ids_lower_loop ids target low high =
     (if low < high then
        (let middle = (low + high) div 2 in
         if Fin (ids ! middle) < target then ids_lower_loop ids target (Suc middle) high
         else ids_lower_loop ids target low middle)
      else low)"
  by pat_completeness auto
termination
  by (relation "measure (\<lambda>(ids, target, low, high). high - low)") (auto simp: Let_def)

declare ids_lower_loop.simps [simp del]

definition ids_lower_bound :: "int list \<Rightarrow> bound \<Rightarrow> nat" where
  "ids_lower_bound ids target = ids_lower_loop ids target 0 (length ids)"

function ids_upper_loop :: "int list \<Rightarrow> bound \<Rightarrow> nat \<Rightarrow> nat \<Rightarrow> nat" where
  "ids_upper_loop ids target low high =
     (if low < high then
        (let middle = (low + high) div 2 in
         if Fin (ids ! middle) \<le> target then ids_upper_loop ids target (Suc middle) high
         else ids_upper_loop ids target low middle)
      else low)"
  by pat_completeness auto
termination
  by (relation "measure (\<lambda>(ids, target, low, high). high - low)") (auto simp: Let_def)

declare ids_upper_loop.simps [simp del]

definition ids_upper_bound :: "int list \<Rightarrow> bound \<Rightarrow> nat" where
  "ids_upper_bound ids target = ids_upper_loop ids target 0 (length ids)"

definition insert_sorted :: "int \<Rightarrow> int list \<Rightarrow> int list" where
  "insert_sorted i ids =
     (if ids = [] \<or> last ids < i then ids @ [i]
      else splice_list (ids_lower_bound ids (Fin i)) 0 [i] ids)"

definition remove_sorted :: "int \<Rightarrow> int list \<Rightarrow> int list" where
  "remove_sorted i ids =
     (let index = ids_lower_bound ids (Fin i) in
      if index < length ids \<and> ids ! index = i then splice_list index 1 [] ids else ids)"

definition insert_map_id :: "'k \<Rightarrow> int \<Rightarrow> ('k \<rightharpoonup> int list) \<Rightarrow> ('k \<rightharpoonup> int list)" where
  "insert_map_id key i index =
     index(key \<mapsto> insert_sorted i (case index key of None \<Rightarrow> [] | Some ids \<Rightarrow> ids))"

lemma Fin_mono_less: "i \<le> j \<Longrightarrow> Fin j < b \<Longrightarrow> Fin i < b"
  by (cases b) (auto simp: less_bound_def)

lemma Fin_mono_le: "i \<le> j \<Longrightarrow> Fin j \<le> b \<Longrightarrow> Fin i \<le> b"
  by (cases b) auto

abbreviation strict_sorted :: "int list \<Rightarrow> bool" where
  "strict_sorted \<equiv> sorted_wrt (<)"

lemma strict_nth: "strict_sorted ids \<Longrightarrow> i \<le> j \<Longrightarrow> j < length ids \<Longrightarrow> ids ! i \<le> ids ! j"
  using sorted_wrt_nth_less[of "(<)" ids i j] by (cases "i = j") auto

interpretation ids_lower: binary_search
  "\<lambda>(ids, target). ids_lower_loop ids target" "\<lambda>(ids, target) i. Fin (ids ! i) < target"
  "\<lambda>(ids, target). length ids" "\<lambda>(ids, target). strict_sorted ids"
proof (unfold_locales, goal_cases)
  case (1 low high x)
  then show ?case by (cases x) (simp add: ids_lower_loop.simps[of _ _ low high] Let_def)
next
  case (2 low high x)
  then show ?case by (cases x) (simp add: ids_lower_loop.simps[of _ _ low high])
next
  case (3 x i j)
  then show ?case
    by (cases x) (auto intro: Fin_mono_less strict_nth)
qed

interpretation ids_upper: binary_search
  "\<lambda>(ids, target). ids_upper_loop ids target" "\<lambda>(ids, target) i. Fin (ids ! i) \<le> target"
  "\<lambda>(ids, target). length ids" "\<lambda>(ids, target). strict_sorted ids"
proof (unfold_locales, goal_cases)
  case (1 low high x)
  then show ?case by (cases x) (simp add: ids_upper_loop.simps[of _ _ low high] Let_def)
next
  case (2 low high x)
  then show ?case by (cases x) (simp add: ids_upper_loop.simps[of _ _ low high])
next
  case (3 x i j)
  then show ?case
    by (cases x) (auto simp del: less_eq_bound.simps intro: Fin_mono_le strict_nth)
qed

text \<open>A search cuts the list into the ids its test accepts and the others.\<close>

lemma cut_filter:
  assumes "n \<le> length xs" "\<And>i. i < n \<Longrightarrow> P (xs ! i)" "\<And>i. n \<le> i \<Longrightarrow> i < length xs \<Longrightarrow> \<not> P (xs ! i)"
  shows "take n xs = filter P xs" "drop n xs = filter (\<lambda>x. \<not> P x) xs"
proof -
  have "\<forall>x \<in> set (take n xs). P x" using assms(1,2) by (auto simp: in_set_conv_nth)
  moreover have "\<forall>x \<in> set (drop n xs). \<not> P x" using assms(3) by (auto simp: in_set_conv_nth)
  ultimately have "filter P (take n xs @ drop n xs) = take n xs"
    "filter (\<lambda>x. \<not> P x) (take n xs @ drop n xs) = drop n xs"
    by (auto simp: filter_id_conv filter_empty_conv simp del: append_take_drop_id)
  then show "take n xs = filter P xs" "drop n xs = filter (\<lambda>x. \<not> P x) xs" by simp_all
qed

lemma lower_cut:
  assumes "strict_sorted ids"
  shows "take (ids_lower_bound ids t) ids = filter (\<lambda>i. Fin i < t) ids"
    and "drop (ids_lower_bound ids t) ids = filter (\<lambda>i. \<not> Fin i < t) ids"
  using cut_filter[of "ids_lower_bound ids t" ids "\<lambda>i. Fin i < t"] assms
    ids_lower.search_bound[of "(ids, t)"] ids_lower.search_below[of "(ids, t)"] ids_lower.search_above[of "(ids, t)"]
  by (auto simp: ids_lower_bound_def)

lemma upper_cut:
  assumes "strict_sorted ids"
  shows "take (ids_upper_bound ids t) ids = filter (\<lambda>i. Fin i \<le> t) ids"
    and "drop (ids_upper_bound ids t) ids = filter (\<lambda>i. \<not> Fin i \<le> t) ids"
  using cut_filter[of "ids_upper_bound ids t" ids "\<lambda>i. Fin i \<le> t"] assms
    ids_upper.search_bound[of "(ids, t)"] ids_upper.search_below[of "(ids, t)"] ids_upper.search_above[of "(ids, t)"]
  by (auto simp: ids_upper_bound_def)

lemma insert_sorted_eq:
  assumes "strict_sorted ids" "i \<notin> set ids"
  shows "insert_sorted i ids = filter (\<lambda>j. j < i) ids @ [i] @ filter (\<lambda>j. i < j) ids"
proof -
  have "filter (\<lambda>j. \<not> j < i) ids = filter (\<lambda>j. i < j) ids"
    using assms(2) by (intro filter_cong) (auto simp: not_less order.order_iff_strict)
  moreover have "filter (\<lambda>j. j < i) ids = ids" "filter (\<lambda>j. i < j) ids = []" if "ids = [] \<or> last ids < i"
  proof -
    have "j < i" if "j \<in> set ids" for j
    proof -
      from that obtain k where k: "k < length ids" "j = ids ! k" by (auto simp: in_set_conv_nth)
      then have "j \<le> ids ! (length ids - 1)" using strict_nth[OF assms(1)] by simp
      moreover have "last ids < i" "ids \<noteq> []" using \<open>ids = [] \<or> last ids < i\<close> that by auto
      ultimately show "j < i" by (simp add: last_conv_nth)
    qed
    then show "filter (\<lambda>j. j < i) ids = ids" "filter (\<lambda>j. i < j) ids = []"
      unfolding filter_id_conv filter_empty_conv using not_less_iff_gr_or_eq by blast+
  qed
  ultimately show ?thesis
    using lower_cut[OF assms(1), of "Fin i"] by (auto simp: insert_sorted_def splice_list_def)
qed

lemma insert_sorted_spec:
  assumes "strict_sorted ids" "i \<notin> set ids"
  shows "strict_sorted (insert_sorted i ids)" "set (insert_sorted i ids) = insert i (set ids)"
  using assms by (auto simp: insert_sorted_eq sorted_wrt_append intro: sorted_wrt_filter)

lemma filter_neq: "i \<notin> set xs \<Longrightarrow> filter (\<lambda>j. j \<noteq> i) xs = xs"
  by (induction xs) auto

lemma remove_sorted_eq:
  assumes "strict_sorted ids"
  shows "remove_sorted i ids = filter (\<lambda>j. j \<noteq> i) ids"
proof -
  let ?n = "ids_lower_bound ids (Fin i)"
  have n: "?n < length ids \<and> ids ! ?n = i \<longleftrightarrow> i \<in> set ids"
  proof
    assume "i \<in> set ids"
    then have "i \<in> set (drop ?n ids)" using lower_cut(2)[OF assms, of "Fin i"] by simp
    then have "drop ?n ids \<noteq> []" by auto
    then have len: "?n < length ids" by simp
    then have "ids ! ?n \<in> set (drop ?n ids)" by (metis Cons_nth_drop_Suc list.set_intros(1))
    then have "i \<le> ids ! ?n" using lower_cut(2)[OF assms, of "Fin i"] by simp
    moreover from \<open>i \<in> set (drop ?n ids)\<close> obtain k where k: "k < length ids - ?n" "ids ! (?n + k) = i"
      by (auto simp: in_set_conv_nth)
    then have "ids ! ?n \<le> i" using strict_nth[OF assms, of ?n "?n + k"] by auto
    ultimately show "?n < length ids \<and> ids ! ?n = i" using len by simp
  qed (metis nth_mem)
  show ?thesis
  proof (cases "i \<in> set ids")
    case False
    then have "filter (\<lambda>j. j \<noteq> i) ids = ids" by (rule filter_neq)
    with False n show ?thesis by (auto simp: remove_sorted_def Let_def)
  next
    case True
    with n have nn: "?n < length ids" "ids ! ?n = i" by auto
    have "distinct ids" using assms by (simp add: strict_sorted_iff)
    have ids: "ids = take ?n ids @ i # drop (Suc ?n) ids" using nn id_take_nth_drop by metis
    with \<open>distinct ids\<close> have "i \<notin> set (take ?n ids)" "i \<notin> set (drop (Suc ?n) ids)"
      by (metis disjoint_insert(1) distinct_append list.simps(15) distinct.simps(2))+
    then have "filter (\<lambda>j. j \<noteq> i) (take ?n ids @ i # drop (Suc ?n) ids) = take ?n ids @ drop (Suc ?n) ids"
      by (simp add: filter_neq)
    with ids nn show ?thesis by (simp add: remove_sorted_def Let_def splice_list_def)
  qed
qed

lemma remove_sorted_spec:
  assumes "strict_sorted ids"
  shows "strict_sorted (remove_sorted i ids)" "set (remove_sorted i ids) = set ids - {i}"
  using assms by (auto simp: remove_sorted_eq intro: sorted_wrt_filter)

section \<open>Scans\<close>

datatype scan_order = Ascending | Descending

record scan_start_pos =
  start_order :: scan_order
  start_after :: "int option"

text \<open>A stored cursor: the last id of the page before, and the order unless it predates orders.\<close>

record cursor =
  cursor_after :: int
  cursor_order :: "scan_order option"

text \<open>
  What the storage throws. \<open>MissingRecord\<close> and \<open>NoLastItem\<close> are the \<open>TypeError\<close>s of a
  \<open>!\<close> assertion that does not hold; the invariant of the store excludes the first.
\<close>

datatype table = ConversationTable | EntryTable | TaskTable | SubmissionTable | DocumentTable

datatype storage_error =
    StorageClosed | SeqNotIncreasing int | IdsExhausted
  | CursorContinues scan_order scan_order | NoLastItem | MissingRecord int
  | UnknownConversation int | ParentCycle int
  | IdBelongs int table | IdWrittenTwice int | IdTwoTypes int
  | MoreThanOneContent int | RetiredTwice int | UnknownDocument int | DocumentExists int
  | DocumentRetired int | DeltaWithoutBase int | VersionNeedsBase int | AddressTaken
  | NoHistory int | NoBase int | VersionCrossed int | DeltaFailed int
  | CopyRejected int | CopyUnresolved

definition scan_start ::
  "scan_order option \<Rightarrow> cursor option \<Rightarrow> scan_order \<Rightarrow> (storage_error, scan_start_pos) result" where
  "scan_start requested cursor fallback =
     (case cursor of
        None \<Rightarrow>
          Inr \<lparr>start_order = (case requested of None \<Rightarrow> fallback | Some r \<Rightarrow> r), start_after = None\<rparr>
      | Some c \<Rightarrow>
          (let order = (case cursor_order c of None \<Rightarrow> fallback | Some r \<Rightarrow> r) in
           if requested \<noteq> None \<and> requested \<noteq> Some order then Inl (CursorContinues order (the requested))
           else Inr \<lparr>start_order = order, start_after = Some (cursor_after c)\<rparr>))"

definition next_cursor :: "int \<Rightarrow> scan_order \<Rightarrow> cursor" where
  "next_cursor i order = \<lparr>cursor_after = i, cursor_order = Some order\<rparr>"

text \<open>Indexes of sorted \<open>ids\<close> in scan order, after the cursor's id when there is one.\<close>

definition scan_indexes :: "int list \<Rightarrow> scan_start_pos \<Rightarrow> nat list" where
  "scan_indexes ids start =
     (case start_order start of
        Ascending \<Rightarrow>
          [(case start_after start of None \<Rightarrow> 0 | Some a \<Rightarrow> ids_upper_bound ids (Fin a)) ..< length ids]
      | Descending \<Rightarrow>
          rev [0 ..< (case start_after start of None \<Rightarrow> length ids | Some a \<Rightarrow> ids_lower_bound ids (Fin a))])"

text \<open>
  The loop of a scan: collect until one value more than the limit is there. \<open>pick\<close> reads the
  record of an id and applies the query's filters; \<open>Inr None\<close> skips it.
\<close>

fun scan_loop :: "nat \<Rightarrow> (int \<Rightarrow> ('e, 'v option) result) \<Rightarrow> int list \<Rightarrow> 'v list \<Rightarrow> ('e, 'v list) result" where
  "scan_loop limit pick [] values = Inr values"
| "scan_loop limit pick (i # is) values =
     (if length values > limit then Inr values
      else bind_res (pick i) (\<lambda>r.
        case r of None \<Rightarrow> scan_loop limit pick is values
        | Some v \<Rightarrow> scan_loop limit pick is (values @ [v])))"

record 'v page_of =
  page_items :: "'v list"
  page_next :: "cursor option"

definition cut_page :: "('v \<Rightarrow> int) \<Rightarrow> 'v list \<Rightarrow> nat \<Rightarrow> scan_order \<Rightarrow> (storage_error, 'v page_of) result" where
  "cut_page id_of values limit order =
     (let items = take limit values in
      if length values \<le> limit then Inr \<lparr>page_items = items, page_next = None\<rparr>
      else if items = [] then Inl NoLastItem
      else Inr \<lparr>page_items = items, page_next = Some (next_cursor (id_of (last items)) order)\<rparr>)"

text \<open>What a scan visits, as ids.\<close>

definition scanned_ids :: "int list \<Rightarrow> scan_start_pos \<Rightarrow> int list" where
  "scanned_ids ids start = map (\<lambda>index. ids ! index) (scan_indexes ids start)"

lemma map_nth_upt: "n \<le> length xs \<Longrightarrow> map (\<lambda>i. xs ! i) [n..<length xs] = drop n xs"
  by (metis drop_map drop_upt map_nth add_0)

lemma map_nth_upt0: "n \<le> length xs \<Longrightarrow> map (\<lambda>i. xs ! i) [0..<n] = take n xs"
  by (metis take_map take_upt map_nth add_0 le_refl diff_zero)

lemma scanned_ids_eq:
  assumes "strict_sorted ids"
  shows "scanned_ids ids start =
    (case (start_order start, start_after start) of
       (Ascending, None) \<Rightarrow> ids
     | (Ascending, Some a) \<Rightarrow> filter (\<lambda>i. a < i) ids
     | (Descending, None) \<Rightarrow> rev ids
     | (Descending, Some a) \<Rightarrow> rev (filter (\<lambda>i. i < a) ids))"
proof -
  have "ids_upper_bound ids t \<le> length ids" "ids_lower_bound ids t \<le> length ids" for t
    using ids_upper.search_bound[of "(ids, t)"] ids_lower.search_bound[of "(ids, t)"]
    by (simp_all add: ids_upper_bound_def ids_lower_bound_def)
  then show ?thesis
    using upper_cut(2)[OF assms] lower_cut(1)[OF assms]
    by (auto simp: scanned_ids_def scan_indexes_def map_nth_upt map_nth_upt0 not_le
        simp flip: rev_map split: scan_order.splits option.splits)
qed

text \<open>The values a scan collects when every id it visits has its record.\<close>

definition picked :: "(int \<Rightarrow> ('e, 'v option) result) \<Rightarrow> int list \<Rightarrow> 'v list" where
  "picked pick is = List.map_filter (\<lambda>i. case pick i of Inr r \<Rightarrow> r | Inl _ \<Rightarrow> None) is"

lemma picked_simps [simp]:
  "picked pick [] = []"
  "picked pick (i # is) = (case pick i of Inr (Some v) \<Rightarrow> v # picked pick is | _ \<Rightarrow> picked pick is)"
  by (simp_all add: picked_def map_filter_simps split: sum.splits option.splits)

lemma picked_append [simp]: "picked pick (xs @ ys) = picked pick xs @ picked pick ys"
  by (induction xs) (auto split: sum.splits option.splits)

lemma picked_rev: "picked pick (rev xs) = rev (picked pick xs)"
  by (induction xs) (auto split: sum.splits option.splits)

lemma scan_loop_eq:
  "\<forall>i \<in> set is. \<exists>r. pick i = Inr r \<Longrightarrow>
     scan_loop limit pick is values = Inr (values @ take (Suc limit - length values) (picked pick is))"
proof (induction "is" arbitrary: "values")
  case (Cons i "is")
  then obtain r where r: "pick i = Inr r" by auto
  show ?case
  proof (cases "length values > limit")
    case False
    then have "Suc limit - length values = Suc (limit - length values)" by simp
    with False r Cons show ?thesis by (cases r) simp_all
  qed simp
qed simp

text \<open>One page of a scan, and the scan as a whole.\<close>

definition scan_page ::
  "(int \<Rightarrow> (storage_error, 'v option) result) \<Rightarrow> ('v \<Rightarrow> int) \<Rightarrow> int list \<Rightarrow> nat \<Rightarrow> scan_start_pos \<Rightarrow>
     (storage_error, 'v page_of) result" where
  "scan_page pick id_of ids limit start =
     bind_res (scan_loop limit pick (scanned_ids ids start) [])
       (\<lambda>values. cut_page id_of values limit (start_order start))"

section \<open>Pages partition a scan\<close>

fun all_pages :: "('c option \<Rightarrow> ('e, 'v list \<times> 'c option) result) \<Rightarrow> nat \<Rightarrow> 'c option \<Rightarrow> ('e, 'v list) result option" where
  "all_pages page 0 c = None"
| "all_pages page (Suc n) c =
     (case page c of
        Inl e \<Rightarrow> Some (Inl e)
      | Inr (items, None) \<Rightarrow> Some (Inr items)
      | Inr (items, Some d) \<Rightarrow> map_option (\<lambda>r. bind_res r (\<lambda>rest. Inr (items @ rest))) (all_pages page n (Some d)))"

locale paged =
  fixes valid :: "'x \<Rightarrow> 'c option \<Rightarrow> bool"
    and remaining :: "'x \<Rightarrow> 'c option \<Rightarrow> 'v list"
    and page :: "'x \<Rightarrow> 'c option \<Rightarrow> ('e, 'v list \<times> 'c option) result"
  assumes page_law: "valid x c \<Longrightarrow> \<exists>items next. page x c = Inr (items, next) \<and>
      (case next of
         None \<Rightarrow> remaining x c = items
       | Some d \<Rightarrow> remaining x c = items @ remaining x (Some d) \<and> items \<noteq> [] \<and> valid x (Some d))"
begin

lemma all_pages_complete:
  "valid x c \<Longrightarrow> length (remaining x c) < n \<Longrightarrow> all_pages (page x) n c = Some (Inr (remaining x c))"
proof (induction n arbitrary: c)
  case (Suc n)
  from page_law[OF Suc.prems(1)] obtain items r where p: "page x c = Inr (items, r)"
    and law: "case r of None \<Rightarrow> remaining x c = items
       | Some d \<Rightarrow> remaining x c = items @ remaining x (Some d) \<and> items \<noteq> [] \<and> valid x (Some d)" by blast
  show ?case
  proof (cases r)
    case None
    with p law show ?thesis by simp
  next
    case (Some d)
    with law Suc p show ?thesis by (cases items) auto
  qed
qed simp

end

definition page_result :: "('e, 'v page_of) result \<Rightarrow> ('e, 'v list \<times> cursor option) result" where
  "page_result r = bind_res r (\<lambda>p. Inr (page_items p, page_next p))"

text \<open>
  A scan over sorted ids whose records are there. \<open>fallback\<close> is the scan's default order; the
  first request names \<open>order\<close>.
\<close>

definition scan_position :: "scan_order \<Rightarrow> cursor option \<Rightarrow> scan_start_pos" where
  "scan_position order c = \<lparr>start_order = order, start_after = map_option cursor_after c\<rparr>"

definition cursor_in :: "scan_order \<Rightarrow> cursor option \<Rightarrow> bool" where
  "cursor_in order c \<longleftrightarrow> (case c of None \<Rightarrow> True | Some c \<Rightarrow> cursor_order c = Some order)"

lemma scan_start_position:
  "cursor_in order c \<Longrightarrow> requested = Some order \<or> requested = None \<and> (c = None \<longrightarrow> order = fallback) \<Longrightarrow>
     scan_start requested c fallback = Inr (scan_position order c)"
  by (auto simp: scan_start_def scan_position_def cursor_in_def split: option.splits)

lemma take_Suc_last: "n < length xs \<Longrightarrow> 0 < n \<Longrightarrow> last (take n xs) = xs ! (n - 1)"
  by (cases "take n xs = []") (auto simp: last_conv_nth)

text \<open>After the ids up to a visited one, a scan goes on with the ids behind it.\<close>

lemma filter_after:
  assumes "strict_sorted (xs @ i # ys)"
  shows "filter (\<lambda>j. i < j) (xs @ i # ys) = ys" "filter (\<lambda>j. j < i) (xs @ i # ys) = xs"
  using assms by (auto simp: sorted_wrt_append filter_id_conv filter_empty_conv)

lemma filter_filter_after:
  assumes "strict_sorted ids" "filter (\<lambda>j. a < j) ids = xs @ i # ys"
  shows "filter (\<lambda>j. i < j) ids = ys"
proof -
  have "i \<in> set (filter (\<lambda>j. a < j) ids)" unfolding assms(2) by simp
  then have "a < i" by simp
  then have "filter (\<lambda>j. i < j) ids = filter (\<lambda>j. i < j) (filter (\<lambda>j. a < j) ids)"
    by (auto intro: filter_cong)
  also have "\<dots> = ys"
    unfolding assms(2) by (rule filter_after(1)) (metis assms sorted_wrt_filter)
  finally show ?thesis .
qed

lemma filter_filter_before:
  assumes "strict_sorted ids" "filter (\<lambda>j. j < a) ids = xs @ i # ys"
  shows "filter (\<lambda>j. j < i) ids = xs"
proof -
  have "i \<in> set (filter (\<lambda>j. j < a) ids)" unfolding assms(2) by simp
  then have "i < a" by simp
  then have "filter (\<lambda>j. j < i) ids = filter (\<lambda>j. j < i) (filter (\<lambda>j. j < a) ids)"
    by (auto intro: filter_cong)
  also have "\<dots> = xs"
    unfolding assms(2) by (rule filter_after(2)) (metis assms sorted_wrt_filter)
  finally show ?thesis .
qed

lemma scanned_after:
  assumes "strict_sorted ids" "scanned_ids ids (scan_position order c) = xs @ i # ys"
  shows "scanned_ids ids (scan_position order (Some (next_cursor i order))) = ys"
proof (cases order)
  case Ascending
  with assms filter_after(1)[of xs i ys] filter_filter_after[OF assms(1), of _ xs i ys] show ?thesis
    by (cases c) (simp_all add: scanned_ids_eq scan_position_def next_cursor_def)
next
  case Descending
  have rev: "zs = rev ys @ i # rev xs" if "rev zs = xs @ i # ys" for zs
    using that by (metis rev_append rev_rev_ident rev.simps(2) append.assoc append_Cons append_Nil)
  show ?thesis
  proof (cases c)
    case None
    with assms Descending rev[of ids] filter_after(2)[of "rev ys" i "rev xs"] show ?thesis
      by (simp add: scanned_ids_eq scan_position_def next_cursor_def)
  next
    case (Some d)
    with assms Descending rev filter_filter_before[OF assms(1), of "cursor_after d" "rev ys" i "rev xs"] show ?thesis
      by (simp add: scanned_ids_eq scan_position_def next_cursor_def)
  qed
qed

lemma picked_split:
  "picked pick is = us @ v # ws \<Longrightarrow>
     \<exists>xs i ys. is = xs @ i # ys \<and> pick i = Inr (Some v) \<and> picked pick xs = us \<and> picked pick ys = ws"
proof (induction "is" arbitrary: us)
  case (Cons j "is")
  show ?case
  proof (cases "\<exists>w. pick j = Inr (Some w)")
    case True
    then obtain w where w: "pick j = Inr (Some w)" by blast
    show ?thesis
    proof (cases us)
      case Nil
      with Cons.prems w show ?thesis by (intro exI[of _ "[]"]) auto
    next
      case (Cons u us')
      with Cons.prems w have "u = w" "picked pick is = us' @ v # ws" by auto
      with Cons.IH[of us'] obtain xs i ys where "is = xs @ i # ys" "pick i = Inr (Some v)"
        "picked pick xs = us'" "picked pick ys = ws" by blast
      with w \<open>u = w\<close> Cons show ?thesis by (intro exI[of _ "j # xs"] exI[of _ i] exI[of _ ys]) simp
    qed
  next
    case False
    with Cons.prems have "picked pick is = us @ v # ws" by (auto split: sum.splits option.splits)
    with Cons.IH obtain xs i ys where *: "is = xs @ i # ys" "pick i = Inr (Some v)"
      "picked pick xs = us" "picked pick ys = ws" by blast
    with False show ?thesis
      by (intro exI[of _ "j # xs"] exI[of _ i] exI[of _ ys]) (auto split: sum.splits option.splits)
  qed
qed simp

lemma set_scanned_ids: "strict_sorted ids \<Longrightarrow> set (scanned_ids ids start) \<subseteq> set ids"
  by (auto simp: scanned_ids_eq split: scan_order.splits option.splits)

text \<open>The law of one page of a scan, which every scan of the storage interprets.\<close>

lemma scan_page_law:
  fixes pick :: "int \<Rightarrow> (storage_error, 'v option) result"
  defines "remaining \<equiv> \<lambda>order ids c. picked pick (scanned_ids ids (scan_position order c))"
  assumes sorted: "strict_sorted ids" and records: "\<And>i. i \<in> set ids \<Longrightarrow> \<exists>r. pick i = Inr r"
    and id_of: "\<And>i v. pick i = Inr (Some v) \<Longrightarrow> id_of v = i" and limit: "0 < limit"
  shows "\<exists>items next. page_result (scan_page pick id_of ids limit (scan_position order c)) = Inr (items, next) \<and>
      (case next of
         None \<Rightarrow> remaining order ids c = items
       | Some d \<Rightarrow> remaining order ids c = items @ remaining order ids (Some d) \<and> items \<noteq> [] \<and> cursor_in order (Some d))"
proof -
  let ?is = "scanned_ids ids (scan_position order c)"
  let ?vs = "picked pick ?is"
  have run: "scan_loop limit pick ?is [] = Inr (take (Suc limit) ?vs)"
    using scan_loop_eq[of ?is pick limit "[]"] records set_scanned_ids[OF sorted] by (simp add: subset_iff)
  have order: "start_order (scan_position order c) = order" by (simp add: scan_position_def)
  show ?thesis
  proof (cases "length ?vs \<le> limit")
    case True
    with run order show ?thesis
      by (simp add: scan_page_def cut_page_def page_result_def remaining_def)
  next
    case False
    obtain v where v: "?vs = take (limit - 1) ?vs @ v # drop limit ?vs"
    proof -
      have "limit - 1 < length ?vs" "Suc (limit - 1) = limit" using False limit by simp_all
      with id_take_nth_drop[of "limit - 1" ?vs] show thesis by (intro that[of "?vs ! (limit - 1)"]) simp
    qed
    from picked_split[OF v] obtain xs i ys where i: "?is = xs @ i # ys" "pick i = Inr (Some v)" "picked pick ys = drop limit ?vs"
      by blast
    from scanned_after[OF sorted i(1)] i(3)
    have rest: "remaining order ids (Some (next_cursor i order)) = drop limit ?vs" by (simp add: remaining_def)
    have "last (take limit ?vs) = v"
    proof -
      have "take limit ?vs = take (limit - 1) ?vs @ [v]"
        using False limit by (subst (1) v) simp
      then show ?thesis by (metis last_snoc)
    qed
    moreover have "take limit ?vs \<noteq> []" using False limit by auto
    ultimately have "page_result (scan_page pick id_of ids limit (scan_position order c)) =
        Inr (take limit ?vs, Some (next_cursor i order))"
      using run order False id_of[OF i(2)] by (simp add: scan_page_def cut_page_def page_result_def min_def)
    with rest \<open>take limit ?vs \<noteq> []\<close> show ?thesis
      by (simp add: remaining_def cursor_in_def next_cursor_def)
  qed
qed

end
