(* ===== verification/Storage_Types.thy ===== *)
theory Storage_Types
  imports Storage_Ids Delta_Apply
begin

text \<open>
  The durable records of \<open>packages/durable/src/types.ts\<close> and the writes of a commit. Payloads
  the storage never looks at (messages, entry data, task inputs and the scheduling fields of a
  task it only keeps) are JSON values; the fields it indexes or filters by are typed.
\<close>

section \<open>Conversations, entries, tasks, submissions\<close>

record conversation_record =
  conv_id :: int
  conv_parent :: "(int \<times> int) option"
  conv_owner :: "(int \<times> int) option"

record entry_record =
  entry_id :: int
  entry_conv :: int
  entry_kind :: string
  entry_model :: "json option"
  entry_data :: "json option"
  entry_head :: "int option"
  entry_edits :: "json option"
  entry_by_task :: "int option"

datatype task_outcome =
    Completed json | Failed json "json option" | Aborted "string option" "json option"
  | Orphaned string | Faulted json

datatype join_policy = FailFast | AllSettled

datatype task_state =
    TPending json | TRunning json | TWaiting json "int list" join_policy | TSleeping json int
  | TCompleting task_outcome | TTerminal task_outcome

datatype task_status = Pending | Running | Waiting | Sleeping | Completing | Terminal

fun status_of :: "task_state \<Rightarrow> task_status" where
  "status_of (TPending _) = Pending"
| "status_of (TRunning _) = Running"
| "status_of (TWaiting _ _ _) = Waiting"
| "status_of (TSleeping _ _) = Sleeping"
| "status_of (TCompleting _) = Completing"
| "status_of (TTerminal _) = Terminal"

record task_record =
  task_id :: int
  task_conv :: int
  task_kind :: string
  task_version :: int
  task_input :: json
  task_owner :: "int option"
  task_background :: bool
  task_abort_requested :: bool
  task_state_of :: task_state
  task_kept :: json

datatype submission_type = InputSubmission | WriteSubmission

datatype submission_status = Queued | Placed | Done | Unanswered

record submission_record =
  sub_id :: int
  sub_conv :: int
  sub_request :: "string option"
  sub_type :: submission_type
  sub_status :: submission_status
  sub_entry :: "int option"
  sub_answer :: "int option"
  sub_reason :: "string option"
  sub_detail :: "json option"

section \<open>Documents\<close>

datatype doc_scope = SessionScope | ConversationScope int | TaskScope int

datatype doc_history = Latest | Rewindable

datatype doc_fork = ForkCurrent | ForkInitial | ForkAsOf

text \<open>\<open>DocumentCreate\<close>, and \<open>DocumentRecord\<close> with the stamps of the storage.\<close>

record doc_create =
  doc_id :: int
  doc_kind :: string
  doc_key :: "string option"
  doc_scope_of :: doc_scope
  doc_history_of :: "doc_history option"
  doc_fork_of :: "doc_fork option"

record doc_record = doc_create +
  created_at :: int
  retired_at :: "int option"

record doc_address =
  addr_kind :: string
  addr_scope :: doc_scope
  addr_key :: "string option"

datatype doc_point = Current | AsOf int

datatype doc_content = CBase int json | CDelta int "op list"

fun content_version :: "doc_content \<Rightarrow> int" where
  "content_version (CBase v _) = v"
| "content_version (CDelta v _) = v"

fun is_base_content :: "doc_content \<Rightarrow> bool" where
  "is_base_content (CBase _ _) = True"
| "is_base_content (CDelta _ _) = False"

record revision =
  rev_content :: doc_content
  rev_seq :: int

record stored_state =
  stored_record :: doc_record
  stored_revisions :: "revision list"

record stored_document =
  sd_record :: doc_record
  sd_version :: int
  sd_value :: json
  sd_deltas :: nat

datatype storage_write =
    WConversation conversation_record
  | WEntry entry_record
  | WTask task_record
  | WSubmission submission_record
  | WDocCreate doc_create int json
  | WDocCopy doc_create int doc_point
  | WDocChange int doc_content
  | WDocRetire int

section \<open>Queries\<close>

record conversation_query =
  cq_owner_conv :: "int option"
  cq_owner_task :: "int option"
  cq_order :: "scan_order option"

record entry_query =
  eq_conv :: int
  eq_min :: "int option"
  eq_max :: "int option"
  eq_order :: "scan_order option"

record task_query =
  tq_conv :: "int option"
  tq_kind :: "string option"
  tq_status :: "task_status option"
  tq_abort :: "bool option"
  tq_background :: "bool option"
  tq_order :: "scan_order option"

record submission_query =
  sq_conv :: "int option"
  sq_status :: "submission_status option"
  sq_order :: "scan_order option"

record document_query =
  dq_scope :: doc_scope
  dq_at :: doc_point
  dq_kind :: "string option"

section \<open>Addresses and lifetimes of documents\<close>

text \<open>The key of an address is injective JSON text in the code; here it is the address itself.\<close>

definition record_address :: "('a doc_create_scheme) \<Rightarrow> doc_address" where
  "record_address r = \<lparr>addr_kind = doc_kind r, addr_scope = doc_scope_of r, addr_key = doc_key r\<rparr>"

definition is_alive_at :: "doc_record \<Rightarrow> doc_point \<Rightarrow> bool" where
  "is_alive_at r at =
     (case at of
        Current \<Rightarrow> retired_at r = None
      | AsOf s \<Rightarrow> created_at r \<le> s \<and> (case retired_at r of None \<Rightarrow> True | Some e \<Rightarrow> s < e))"

definition is_current_only :: "doc_record \<Rightarrow> bool" where
  "is_current_only r \<longleftrightarrow>
     (case doc_scope_of r of ConversationScope _ \<Rightarrow> doc_history_of r = Some Latest | _ \<Rightarrow> True)"

end
