(* ===== verification/Memory_State.thy ===== *)
theory Memory_State
  imports Storage_Types
begin

text \<open>
  \<open>MemoryStorage\<close> of \<open>packages/durable/src/storage/memory.ts\<close>: its state and everything that
  changes it (\<open>mintId\<close>, \<open>close\<close>, \<open>commit\<close> with its checks and its application). Records are
  values, so the detaching \<open>clone\<close> and \<open>freeze\<close> of the code are identities here. A JavaScript
  \<open>Map\<close> is a partial function, or an association list where its iteration order matters.
\<close>

section \<open>State\<close>

record address_index =
  addr_ids :: "int list"
  addr_current :: "int option"

record mem_state =
  record_types :: "int \<rightharpoonup> table"
  conversations :: "int \<rightharpoonup> conversation_record"
  conversation_ids :: "int list"
  conversation_ids_by_owner_conversation :: "int \<rightharpoonup> int list"
  conversation_ids_by_owner_task :: "int \<rightharpoonup> int list"
  entries :: "int \<rightharpoonup> entry_record"
  entry_ids :: "int \<rightharpoonup> int list"
  head_entry_ids :: "int \<rightharpoonup> int list"
  entry_commit_seqs :: "int \<rightharpoonup> int"
  tasks :: "int \<rightharpoonup> task_record"
  task_ids :: "int list"
  task_ids_by_status :: "task_status \<Rightarrow> int list"
  submissions :: "int \<rightharpoonup> submission_record"
  submission_ids :: "int list"
  submission_ids_by_status :: "submission_status \<Rightarrow> int list"
  submission_ids_by_request :: "int \<rightharpoonup> (string \<times> int) list"
  documents :: "int \<rightharpoonup> stored_state"
  document_addresses :: "doc_address \<rightharpoonup> address_index"
  document_ids_by_scope :: "doc_scope \<rightharpoonup> int list"
  next_record_id :: int
  next_seq :: int
  closed :: bool

definition empty_storage :: mem_state where
  "empty_storage =
     \<lparr>record_types = Map.empty, conversations = Map.empty, conversation_ids = [],
      conversation_ids_by_owner_conversation = Map.empty, conversation_ids_by_owner_task = Map.empty,
      entries = Map.empty, entry_ids = Map.empty, head_entry_ids = Map.empty,
      entry_commit_seqs = Map.empty, tasks = Map.empty, task_ids = [],
      task_ids_by_status = (\<lambda>_. []), submissions = Map.empty, submission_ids = [],
      submission_ids_by_status = (\<lambda>_. []), submission_ids_by_request = Map.empty,
      documents = Map.empty, document_addresses = Map.empty, document_ids_by_scope = Map.empty,
      next_record_id = 2, next_seq = 1, closed = False\<rparr>"

definition MAX_SAFE_INTEGER :: int where "MAX_SAFE_INTEGER = 2 ^ 53 - 1"

definition is_safe_integer :: "int \<Rightarrow> bool" where
  "is_safe_integer i \<longleftrightarrow> \<bar>i\<bar> \<le> MAX_SAFE_INTEGER"

definition assert_open :: "mem_state \<Rightarrow> (storage_error, unit) result" where
  "assert_open st = (if closed st then Inl StorageClosed else Inr ())"

definition mint_id :: "mem_state \<Rightarrow> (storage_error, int \<times> mem_state) result" where
  "mint_id st =
     bind_res (assert_open st) (\<lambda>_.
       if \<not> is_safe_integer (next_record_id st) then Inl IdsExhausted
       else Inr (next_record_id st, st\<lparr>next_record_id := next_record_id st + 1\<rparr>))"

definition close_storage :: "mem_state \<Rightarrow> mem_state" where
  "close_storage st = st\<lparr>closed := True\<rparr>"

section \<open>Materializing a document\<close>

text \<open>
  \<open>applyImmutableBatches(base.value, documentDeltaBatches(...))\<close>: the generator checks each
  revision right before its ops are applied. An error of the applier ends the read.
\<close>

fun replay_deltas :: "int \<Rightarrow> int \<Rightarrow> revision list \<Rightarrow> json \<Rightarrow> (storage_error, json) result" where
  "replay_deltas i version [] v = Inr v"
| "replay_deltas i version (r # rs) v =
     (case rev_content r of
        CBase _ _ \<Rightarrow> Inl (VersionCrossed i)
      | CDelta w ops \<Rightarrow>
          if w \<noteq> version then Inl (VersionCrossed i)
          else (case apply_ops (Some v) ops of
                  Inr (Some v') \<Rightarrow> replay_deltas i version rs v'
                | _ \<Rightarrow> Inl (DeltaFailed i)))"

text \<open>The last base of the revisions, with what follows it.\<close>

fun split_last_base :: "revision list \<Rightarrow> (revision \<times> revision list) option" where
  "split_last_base [] = None"
| "split_last_base (r # rs) =
     (case split_last_base rs of
        Some x \<Rightarrow> Some x
      | None \<Rightarrow> if is_base_content (rev_content r) then Some (r, rs) else None)"

definition materialize_document ::
  "mem_state \<Rightarrow> int \<Rightarrow> doc_point \<Rightarrow> (storage_error, stored_document option) result" where
  "materialize_document st i at =
     (case documents st i of
        None \<Rightarrow> Inr None
      | Some stored \<Rightarrow>
          if at \<noteq> Current \<and> is_current_only (stored_record stored) then Inl (NoHistory i)
          else if \<not> is_alive_at (stored_record stored) at then Inr None
          else
            (let revisions = (case at of Current \<Rightarrow> stored_revisions stored
                 | AsOf s \<Rightarrow> filter (\<lambda>r. rev_seq r \<le> s) (stored_revisions stored))
             in case split_last_base revisions of
                  None \<Rightarrow> Inl (NoBase i)
                | Some (b, rest) \<Rightarrow>
                    (case rev_content b of
                       CDelta _ _ \<Rightarrow> Inl (NoBase i)
                     | CBase version value \<Rightarrow>
                         bind_res (replay_deltas i version rest value) (\<lambda>v.
                         Inr (Some \<lparr>sd_record = stored_record stored, sd_version = version,
                           sd_value = v, sd_deltas = length rest\<rparr>)))))"

section \<open>Preparing a commit\<close>

fun changed_document :: "storage_write \<Rightarrow> int list" where
  "changed_document (WDocCreate r _ _) = [doc_id r]"
| "changed_document (WDocCopy r _ _) = [doc_id r]"
| "changed_document (WDocChange i _) = [i]"
| "changed_document (WDocRetire i) = [i]"
| "changed_document _ = []"

definition copy_matches :: "doc_record \<Rightarrow> doc_create \<Rightarrow> bool" where
  "copy_matches stored r \<longleftrightarrow>
     (case (doc_scope_of stored, doc_scope_of r) of
        (ConversationScope _, ConversationScope _) \<Rightarrow>
          doc_kind stored = doc_kind r \<and> doc_key stored = doc_key r \<and>
          doc_history_of stored = doc_history_of r \<and> doc_fork_of stored = doc_fork_of r
      | _ \<Rightarrow> False)"

fun resolve_copy :: "mem_state \<Rightarrow> int set \<Rightarrow> storage_write \<Rightarrow> (storage_error, storage_write) result" where
  "resolve_copy st changed (WDocCopy r source at) =
     (if source \<in> changed then Inl (CopyRejected (doc_id r))
      else case materialize_document st source at of
        Inr (Some d) \<Rightarrow>
          if copy_matches (sd_record d) r then Inr (WDocCreate r (sd_version d) (sd_value d))
          else Inl (CopyRejected (doc_id r))
      | _ \<Rightarrow> Inl (CopyRejected (doc_id r)))"
| "resolve_copy st changed w = Inr w"

fun map_res :: "('a \<Rightarrow> ('e, 'b) result) \<Rightarrow> 'a list \<Rightarrow> ('e, 'b list) result" where
  "map_res f [] = Inr []"
| "map_res f (x # xs) = bind_res (f x) (\<lambda>y. bind_res (map_res f xs) (\<lambda>ys. Inr (y # ys)))"

definition resolve_document_copies ::
  "mem_state \<Rightarrow> storage_write list \<Rightarrow> (storage_error, storage_write list) result" where
  "resolve_document_copies st writes =
     map_res (resolve_copy st (set (concat (map changed_document writes)))) writes"

text \<open>The id a write claims and its table; document changes and retirements claim none.\<close>

fun claim_of :: "storage_write \<Rightarrow> (int \<times> table) option" where
  "claim_of (WConversation r) = Some (conv_id r, ConversationTable)"
| "claim_of (WEntry r) = Some (entry_id r, EntryTable)"
| "claim_of (WTask r) = Some (task_id r, TaskTable)"
| "claim_of (WSubmission r) = Some (sub_id r, SubmissionTable)"
| "claim_of (WDocCreate r _ _) = Some (doc_id r, DocumentTable)"
| "claim_of (WDocCopy r _ _) = Some (doc_id r, DocumentTable)"
| "claim_of (WDocChange _ _) = None"
| "claim_of (WDocRetire _) = None"

fun written_once :: "table \<Rightarrow> bool" where
  "written_once TaskTable = False"
| "written_once SubmissionTable = False"
| "written_once _ = True"

fun check_ids :: "(int \<rightharpoonup> table) \<Rightarrow> (int \<rightharpoonup> table) \<Rightarrow> storage_write list \<Rightarrow> (storage_error, unit) result" where
  "check_ids types claimed [] = Inr ()"
| "check_ids types claimed (w # ws) =
     (case claim_of w of
        None \<Rightarrow> check_ids types claimed ws
      | Some (i, t) \<Rightarrow>
          if written_once t then
            (case types i of
               Some t' \<Rightarrow> Inl (IdBelongs i t')
             | None \<Rightarrow>
                 if claimed i \<noteq> None then Inl (IdWrittenTwice i)
                 else check_ids types (claimed(i \<mapsto> t)) ws)
          else
            (case types i of
               Some t' \<Rightarrow>
                 if t' \<noteq> t then Inl (IdBelongs i t')
                 else if claimed i \<noteq> None \<and> claimed i \<noteq> Some t then Inl (IdTwoTypes i)
                 else check_ids types (claimed(i \<mapsto> t)) ws
             | None \<Rightarrow>
                 if claimed i \<noteq> None \<and> claimed i \<noteq> Some t then Inl (IdTwoTypes i)
                 else check_ids types (claimed(i \<mapsto> t)) ws))"

definition check_global_ids :: "mem_state \<Rightarrow> storage_write list \<Rightarrow> (storage_error, unit) result" where
  "check_global_ids st writes = check_ids (record_types st) Map.empty writes"

record doc_action =
  act_create :: "doc_create option"
  act_content :: "doc_content option"
  act_retire :: bool

type_synonym doc_actions = "(int \<times> doc_action) list"

definition no_action :: doc_action where
  "no_action = \<lparr>act_create = None, act_content = None, act_retire = False\<rparr>"

definition action_of :: "doc_actions \<Rightarrow> int \<Rightarrow> doc_action" where
  "action_of actions i = (case map_of actions i of None \<Rightarrow> no_action | Some a \<Rightarrow> a)"

fun prepare_action :: "storage_write \<Rightarrow> doc_actions \<Rightarrow> (storage_error, doc_actions) result" where
  "prepare_action (WDocCreate r version value) actions =
     (let i = doc_id r; a = action_of actions i in
      if act_create a \<noteq> None \<or> act_content a \<noteq> None then Inl (MoreThanOneContent i)
      else Inr (AList.update i (a\<lparr>act_create := Some r, act_content := Some (CBase version value)\<rparr>) actions))"
| "prepare_action (WDocChange i content) actions =
     (let a = action_of actions i in
      if act_content a \<noteq> None then Inl (MoreThanOneContent i)
      else Inr (AList.update i (a\<lparr>act_content := Some content\<rparr>) actions))"
| "prepare_action (WDocRetire i) actions =
     (let a = action_of actions i in
      if act_retire a then Inl (RetiredTwice i)
      else Inr (AList.update i (a\<lparr>act_retire := True\<rparr>) actions))"
| "prepare_action w actions = Inr actions"

definition prepare_document_actions :: "storage_write list \<Rightarrow> (storage_error, doc_actions) result" where
  "prepare_document_actions writes = fold_res prepare_action writes []"

definition action_address :: "mem_state \<Rightarrow> int \<Rightarrow> doc_action \<Rightarrow> doc_address" where
  "action_address st i a =
     (case act_create a of
        Some r \<Rightarrow> record_address r
      | None \<Rightarrow> record_address (stored_record (the (documents st i))))"

definition current_at :: "mem_state \<Rightarrow> doc_address \<Rightarrow> int option" where
  "current_at st key = Option.bind (document_addresses st key) addr_current"

definition check_action :: "mem_state \<Rightarrow> int \<Rightarrow> doc_action \<Rightarrow> (storage_error, unit) result" where
  "check_action st i a =
     (let existing = documents st i in
      if act_create a = None \<and> existing = None then Inl (UnknownDocument i)
      else if act_create a \<noteq> None \<and> existing \<noteq> None then Inl (DocumentExists i)
      else if (case existing of None \<Rightarrow> False | Some d \<Rightarrow> retired_at (stored_record d) \<noteq> None)
        then Inl (DocumentRetired i)
      else case act_content a of
        Some (CDelta v ops) \<Rightarrow>
          (case existing of
             None \<Rightarrow> Inl (DeltaWithoutBase i)
           | Some d \<Rightarrow>
               if stored_revisions d = [] then Inl (DeltaWithoutBase i)
               else if content_version (rev_content (last (stored_revisions d))) \<noteq> v
                 then Inl (VersionNeedsBase i)
               else Inr ())
      | _ \<Rightarrow> Inr ())"

text \<open>How many live incarnations the touched addresses would have.\<close>

definition count_live :: "mem_state \<Rightarrow> int \<Rightarrow> doc_action \<Rightarrow> (doc_address \<times> int) list \<Rightarrow> (doc_address \<times> int) list" where
  "count_live st i a counts =
     (let key = action_address st i a;
          current = current_at st key;
          live = (case map_of counts key of
            Some n \<Rightarrow> n | None \<Rightarrow> if current = None then 0 else 1);
          live = (if act_retire a \<and> current = Some i then live - 1 else live);
          live = (if act_create a \<noteq> None \<and> \<not> act_retire a then live + 1 else live)
      in AList.update key live counts)"

fun check_actions ::
  "mem_state \<Rightarrow> doc_actions \<Rightarrow> (doc_address \<times> int) list \<Rightarrow> (storage_error, (doc_address \<times> int) list) result" where
  "check_actions st [] counts = Inr counts"
| "check_actions st ((i, a) # actions) counts =
     bind_res (check_action st i a) (\<lambda>_. check_actions st actions (count_live st i a counts))"

definition check_document_actions :: "mem_state \<Rightarrow> doc_actions \<Rightarrow> (storage_error, unit) result" where
  "check_document_actions st actions =
     bind_res (check_actions st actions []) (\<lambda>counts.
       if list_ex (\<lambda>(_, live). live > 1) counts then Inl AddressTaken else Inr ())"

section \<open>Applying a commit\<close>

definition bump_id :: "int \<Rightarrow> mem_state \<Rightarrow> mem_state" where
  "bump_id i st = st\<lparr>next_record_id := max (next_record_id st) (i + 1)\<rparr>"

definition put_conversation :: "conversation_record \<Rightarrow> mem_state \<Rightarrow> mem_state" where
  "put_conversation r st =
     (let i = conv_id r;
          st = st\<lparr>record_types := (record_types st)(i \<mapsto> ConversationTable),
            conversations := (conversations st)(i \<mapsto> r),
            conversation_ids := insert_sorted i (conversation_ids st)\<rparr>;
          st = (case conv_owner r of
            None \<Rightarrow> st
          | Some (conv, task) \<Rightarrow>
              st\<lparr>conversation_ids_by_owner_conversation :=
                    insert_map_id conv i (conversation_ids_by_owner_conversation st),
                 conversation_ids_by_owner_task := insert_map_id task i (conversation_ids_by_owner_task st)\<rparr>)
      in bump_id i st)"

definition put_entry :: "int \<Rightarrow> entry_record \<Rightarrow> mem_state \<Rightarrow> mem_state" where
  "put_entry seq r st =
     (let i = entry_id r;
          st = st\<lparr>record_types := (record_types st)(i \<mapsto> EntryTable),
            entries := (entries st)(i \<mapsto> r),
            entry_commit_seqs := (entry_commit_seqs st)(i \<mapsto> seq),
            entry_ids := insert_map_id (entry_conv r) i (entry_ids st)\<rparr>;
          st = (if entry_head r = None then st
            else st\<lparr>head_entry_ids := insert_map_id (entry_conv r) i (head_entry_ids st)\<rparr>)
      in bump_id i st)"

definition move_status ::
  "int \<Rightarrow> 's option \<Rightarrow> 's \<Rightarrow> int list \<times> ('s \<Rightarrow> int list) \<Rightarrow> int list \<times> ('s \<Rightarrow> int list)" where
  "move_status i previous status idx =
     (let (ids, by_status) = idx in
      case previous of
        None \<Rightarrow> (insert_sorted i ids, by_status(status := insert_sorted i (by_status status)))
      | Some old \<Rightarrow>
          if old \<noteq> status then
            (let by_status = by_status(old := remove_sorted i (by_status old))
             in (ids, by_status(status := insert_sorted i (by_status status))))
          else (ids, by_status))"

definition put_task :: "task_record \<Rightarrow> mem_state \<Rightarrow> mem_state" where
  "put_task r st =
     (let i = task_id r;
          status = status_of (task_state_of r);
          previous = map_option (\<lambda>p. status_of (task_state_of p)) (tasks st i);
          (ids, by_status) = move_status i previous status (task_ids st, task_ids_by_status st)
      in bump_id i (st\<lparr>record_types := (record_types st)(i \<mapsto> TaskTable),
           task_ids := ids, task_ids_by_status := by_status, tasks := (tasks st)(i \<mapsto> r)\<rparr>))"

text \<open>The index by request: drop the entry of the record that is replaced, add the new one.\<close>

definition drop_request ::
  "submission_record \<Rightarrow> (int \<rightharpoonup> (string \<times> int) list) \<Rightarrow> (int \<rightharpoonup> (string \<times> int) list)" where
  "drop_request previous index =
     (case sub_request previous of
        None \<Rightarrow> index
      | Some request \<Rightarrow>
          (case index (sub_conv previous) of
             None \<Rightarrow> index
           | Some requests \<Rightarrow>
               if map_of requests request = Some (sub_id previous)
               then (let requests = AList.delete request requests
                     in index(sub_conv previous := (if requests = [] then None else Some requests)))
               else index))"

definition add_request ::
  "submission_record \<Rightarrow> (int \<rightharpoonup> (string \<times> int) list) \<Rightarrow> (int \<rightharpoonup> (string \<times> int) list)" where
  "add_request r index =
     (case sub_request r of
        None \<Rightarrow> index
      | Some request \<Rightarrow>
          index(sub_conv r \<mapsto> AList.update request (sub_id r)
            (case index (sub_conv r) of None \<Rightarrow> [] | Some requests \<Rightarrow> requests)))"

definition put_submission :: "submission_record \<Rightarrow> mem_state \<Rightarrow> mem_state" where
  "put_submission r st =
     (let i = sub_id r;
          previous = submissions st i;
          (ids, by_status) = move_status i (map_option sub_status previous) (sub_status r)
            (submission_ids st, submission_ids_by_status st);
          requests = (case previous of
              None \<Rightarrow> submission_ids_by_request st
            | Some p \<Rightarrow> drop_request p (submission_ids_by_request st))
      in bump_id i (st\<lparr>record_types := (record_types st)(i \<mapsto> SubmissionTable),
           submission_ids := ids, submission_ids_by_status := by_status,
           submissions := (submissions st)(i \<mapsto> r),
           submission_ids_by_request := add_request r requests\<rparr>))"

fun apply_write :: "int \<Rightarrow> storage_write \<Rightarrow> mem_state \<Rightarrow> (storage_error, mem_state) result" where
  "apply_write seq (WConversation r) st = Inr (put_conversation r st)"
| "apply_write seq (WEntry r) st = Inr (put_entry seq r st)"
| "apply_write seq (WTask r) st = Inr (put_task r st)"
| "apply_write seq (WSubmission r) st = Inr (put_submission r st)"
| "apply_write seq (WDocCopy _ _ _) st = Inl CopyUnresolved"
| "apply_write seq _ st = Inr st"

definition stamp :: "doc_create \<Rightarrow> int \<Rightarrow> int option \<Rightarrow> doc_record" where
  "stamp r seq retired = doc_create.extend r \<lparr>created_at = seq, retired_at = retired\<rparr>"

definition index_address :: "int \<Rightarrow> doc_address \<Rightarrow> mem_state \<Rightarrow> mem_state" where
  "index_address i key st =
     (let address = (case document_addresses st key of
            None \<Rightarrow> \<lparr>addr_ids = [], addr_current = None\<rparr> | Some a \<Rightarrow> a)
      in st\<lparr>document_addresses := (document_addresses st)(key \<mapsto>
            address\<lparr>addr_ids := insert_sorted i (addr_ids address)\<rparr>)\<rparr>)"

definition set_current :: "int \<Rightarrow> doc_action \<Rightarrow> address_index \<Rightarrow> address_index" where
  "set_current i a address =
     (let address = (if act_retire a \<and> addr_current address = Some i
            then address\<lparr>addr_current := None\<rparr> else address)
      in if act_create a \<noteq> None \<and> \<not> act_retire a then address\<lparr>addr_current := Some i\<rparr> else address)"

text \<open>The stored document and the state after the creation or the change.\<close>

definition write_document ::
  "int \<Rightarrow> int \<Rightarrow> doc_action \<Rightarrow> mem_state \<Rightarrow> (storage_error, stored_state option \<times> mem_state) result" where
  "write_document seq i a st =
     (case (act_create a, act_content a) of
        (Some r, Some content) \<Rightarrow>
          (let record = stamp r seq (if act_retire a then Some seq else None);
               stored = \<lparr>stored_record = record, stored_revisions = [\<lparr>rev_content = content, rev_seq = seq\<rparr>]\<rparr>;
               st = st\<lparr>record_types := (record_types st)(i \<mapsto> DocumentTable)\<rparr>;
               st = index_address i (record_address record) st;
               st = st\<lparr>document_ids_by_scope := insert_map_id (doc_scope_of record) i (document_ids_by_scope st)\<rparr>
           in Inr (Some stored, bump_id i st))
      | (Some r, None) \<Rightarrow> Inl (MissingRecord i)
      | (None, Some content) \<Rightarrow>
          (case documents st i of
             None \<Rightarrow> Inl (MissingRecord i)
           | Some stored \<Rightarrow>
               (let revision = \<lparr>rev_content = content, rev_seq = seq\<rparr>
                in Inr (Some (stored\<lparr>stored_revisions :=
                     (if is_base_content content \<and> is_current_only (stored_record stored) then [revision]
                      else stored_revisions stored @ [revision])\<rparr>), st)))
      | (None, None) \<Rightarrow> Inr (documents st i, st))"

definition retire_document :: "int \<Rightarrow> doc_action \<Rightarrow> stored_state \<Rightarrow> stored_state" where
  "retire_document seq a stored =
     (let stored = (if act_retire a \<and> act_create a = None
            then stored\<lparr>stored_record := (stored_record stored)\<lparr>retired_at := Some seq\<rparr>\<rparr> else stored)
      in if act_retire a \<and> is_current_only (stored_record stored)
         then stored\<lparr>stored_revisions := []\<rparr> else stored)"

definition apply_action :: "int \<Rightarrow> int \<times> doc_action \<Rightarrow> mem_state \<Rightarrow> (storage_error, mem_state) result" where
  "apply_action seq ia st =
     (let (i, a) = ia in
      bind_res (write_document seq i a st) (\<lambda>(written, st).
        case written of
          None \<Rightarrow> Inl (MissingRecord i)
        | Some stored \<Rightarrow>
            (let stored = retire_document seq a stored;
                 st = st\<lparr>documents := (documents st)(i \<mapsto> stored)\<rparr>;
                 key = record_address (stored_record stored)
             in if act_create a \<noteq> None \<or> act_retire a then
                  (case document_addresses st key of
                     None \<Rightarrow> Inl (MissingRecord i)
                   | Some address \<Rightarrow>
                       Inr (st\<lparr>document_addresses := (document_addresses st)(key \<mapsto> set_current i a address)\<rparr>))
                else Inr st)))"

definition apply_document_actions :: "int \<Rightarrow> doc_actions \<Rightarrow> mem_state \<Rightarrow> (storage_error, mem_state) result" where
  "apply_document_actions seq actions st = fold_res (apply_action seq) actions st"

definition apply_prepared_commit ::
  "int \<Rightarrow> storage_write list \<Rightarrow> doc_actions \<Rightarrow> mem_state \<Rightarrow> (storage_error, mem_state) result" where
  "apply_prepared_commit seq writes actions st =
     bind_res (fold_res (apply_write seq) writes st) (\<lambda>st.
     bind_res (apply_document_actions seq actions st) (\<lambda>st.
     Inr (st\<lparr>next_seq := seq + 1\<rparr>)))"

section \<open>Committing\<close>

text \<open>What \<open>prepareCommit\<close> hands over: the detached writes and the document actions.\<close>

definition prepare_commit ::
  "mem_state \<Rightarrow> storage_write list \<Rightarrow> int \<Rightarrow> (storage_error, storage_write list \<times> doc_actions) result" where
  "prepare_commit st writes seq =
     bind_res (assert_open st) (\<lambda>_.
     if \<not> is_safe_integer seq \<or> seq < next_seq st then Inl (SeqNotIncreasing seq)
     else
       bind_res (resolve_document_copies st writes) (\<lambda>detached.
       bind_res (check_global_ids st detached) (\<lambda>_.
       bind_res (prepare_document_actions detached) (\<lambda>actions.
       bind_res (check_document_actions st actions) (\<lambda>_.
       Inr (detached, actions))))))"

text \<open>\<open>commit(writes, ...)\<close>: prepare at the next sequence, then apply.\<close>

definition commit :: "mem_state \<Rightarrow> storage_write list \<Rightarrow> (storage_error, int \<times> mem_state) result" where
  "commit st writes =
     (let seq = next_seq st in
      bind_res (prepare_commit st writes seq) (\<lambda>(detached, actions).
      bind_res (apply_prepared_commit seq detached actions st) (\<lambda>st'.
      Inr (seq, st'))))"

end
