(* ===== verification/Memory_Read.thy ===== *)
theory Memory_Read
  imports Memory_State
begin

text \<open>
  The reads of \<open>MemoryStorage\<close> (\<open>packages/durable/src/storage/memory.ts\<close>): lookups, scans with
  their cursors, the visible history of a forked conversation in both directions, head
  markers and documents. The walk up the fork chain is fuelled by the number of
  conversations; running out of fuel is \<open>ParentCycle\<close>, where the code would not return.
\<close>

section \<open>Lookups\<close>

definition get_conversation :: "mem_state \<Rightarrow> int \<Rightarrow> (storage_error, conversation_record option) result" where
  "get_conversation st i = bind_res (assert_open st) (\<lambda>_. Inr (conversations st i))"

definition get_task :: "mem_state \<Rightarrow> int \<Rightarrow> (storage_error, task_record option) result" where
  "get_task st i = bind_res (assert_open st) (\<lambda>_. Inr (tasks st i))"

definition get_submission :: "mem_state \<Rightarrow> int \<Rightarrow> (storage_error, submission_record option) result" where
  "get_submission st i = bind_res (assert_open st) (\<lambda>_. Inr (submissions st i))"

text \<open>\<open>entry(id)\<close>, the global lookup; the lookup through a conversation is below.\<close>

definition get_entry :: "mem_state \<Rightarrow> int \<Rightarrow> (storage_error, (entry_record \<times> int option) option) result" where
  "get_entry st i =
     bind_res (assert_open st) (\<lambda>_.
       case entries st i of
         None \<Rightarrow> Inr None
       | Some e \<Rightarrow> Inr (Some (e, entry_commit_seqs st i)))"

definition submission_by_request ::
  "mem_state \<Rightarrow> int \<Rightarrow> string \<Rightarrow> (storage_error, submission_record option) result" where
  "submission_by_request st conv request =
     bind_res (assert_open st) (\<lambda>_.
       case Option.bind (submission_ids_by_request st conv) (\<lambda>m. map_of m request) of
         None \<Rightarrow> Inr None
       | Some i \<Rightarrow> Inr (submissions st i))"

section \<open>Scans of tables\<close>

definition ids_at :: "('k \<rightharpoonup> int list) \<Rightarrow> 'k \<Rightarrow> int list" where
  "ids_at index k = (case index k of None \<Rightarrow> [] | Some ids \<Rightarrow> ids)"

text \<open>Read the record of a scanned id and keep it when the filter accepts it.\<close>

definition pick_record :: "(int \<rightharpoonup> 'v) \<Rightarrow> ('v \<Rightarrow> bool) \<Rightarrow> int \<Rightarrow> (storage_error, 'v option) result" where
  "pick_record tab keep i =
     (case tab i of
        None \<Rightarrow> Inl (MissingRecord i)
      | Some v \<Rightarrow> Inr (if keep v then Some v else None))"

definition matches_opt :: "'a option \<Rightarrow> 'a \<Rightarrow> bool" where
  "matches_opt wanted actual \<longleftrightarrow> (case wanted of None \<Rightarrow> True | Some w \<Rightarrow> actual = w)"

definition conversation_keep :: "conversation_query \<Rightarrow> conversation_record \<Rightarrow> bool" where
  "conversation_keep q r \<longleftrightarrow>
     (case cq_owner_conv q of None \<Rightarrow> True | Some c \<Rightarrow> map_option fst (conv_owner r) = Some c)"

definition conversation_scan_ids :: "mem_state \<Rightarrow> conversation_query \<Rightarrow> int list" where
  "conversation_scan_ids st q =
     (case cq_owner_task q of
        Some t \<Rightarrow> ids_at (conversation_ids_by_owner_task st) t
      | None \<Rightarrow>
          (case cq_owner_conv q of
             Some c \<Rightarrow> ids_at (conversation_ids_by_owner_conversation st) c
           | None \<Rightarrow> conversation_ids st))"

definition scan_conversations ::
  "mem_state \<Rightarrow> conversation_query \<Rightarrow> nat \<Rightarrow> cursor option \<Rightarrow> (storage_error, conversation_record page_of) result" where
  "scan_conversations st q limit cursor =
     bind_res (assert_open st) (\<lambda>_.
     bind_res (scan_start (cq_order q) cursor Ascending) (\<lambda>start.
       scan_page (pick_record (conversations st) (conversation_keep q)) conv_id
         (conversation_scan_ids st q) limit start))"

definition task_keep :: "task_query \<Rightarrow> task_record \<Rightarrow> bool" where
  "task_keep q r \<longleftrightarrow> matches_opt (tq_conv q) (task_conv r) \<and> matches_opt (tq_kind q) (task_kind r) \<and>
     matches_opt (tq_abort q) (task_abort_requested r) \<and> matches_opt (tq_background q) (task_background r)"

definition task_scan_ids :: "mem_state \<Rightarrow> task_query \<Rightarrow> int list" where
  "task_scan_ids st q = (case tq_status q of None \<Rightarrow> task_ids st | Some s \<Rightarrow> task_ids_by_status st s)"

definition scan_tasks ::
  "mem_state \<Rightarrow> task_query \<Rightarrow> nat \<Rightarrow> cursor option \<Rightarrow> (storage_error, task_record page_of) result" where
  "scan_tasks st q limit cursor =
     bind_res (assert_open st) (\<lambda>_.
     bind_res (scan_start (tq_order q) cursor Ascending) (\<lambda>start.
       scan_page (pick_record (tasks st) (task_keep q)) task_id (task_scan_ids st q) limit start))"

definition submission_keep :: "submission_query \<Rightarrow> submission_record \<Rightarrow> bool" where
  "submission_keep q r \<longleftrightarrow> matches_opt (sq_conv q) (sub_conv r)"

definition submission_scan_ids :: "mem_state \<Rightarrow> submission_query \<Rightarrow> int list" where
  "submission_scan_ids st q =
     (case sq_status q of None \<Rightarrow> submission_ids st | Some s \<Rightarrow> submission_ids_by_status st s)"

definition scan_submissions ::
  "mem_state \<Rightarrow> submission_query \<Rightarrow> nat \<Rightarrow> cursor option \<Rightarrow> (storage_error, submission_record page_of) result" where
  "scan_submissions st q limit cursor =
     bind_res (assert_open st) (\<lambda>_.
     bind_res (scan_start (sq_order q) cursor Ascending) (\<lambda>start.
       scan_page (pick_record (submissions st) (submission_keep q)) sub_id
         (submission_scan_ids st q) limit start))"

section \<open>The visible history of a conversation\<close>

text \<open>
  The generators of the code walk the chain while entries are taken from them; here the whole
  chain is walked first, which is the same on a store whose chains end.
  The chain of a conversation: itself with the given upper bound, then each parent with the
  bound lowered to the fork point, as long as the bound stays at or above \<open>min\<close>.
\<close>

fun fork_chain :: "nat \<Rightarrow> mem_state \<Rightarrow> bound \<Rightarrow> int \<Rightarrow> bound \<Rightarrow> (storage_error, (int \<times> bound) list) result" where
  "fork_chain 0 st lo conv upper = Inl (ParentCycle conv)"
| "fork_chain (Suc n) st lo conv upper =
     (case conversations st conv of
        None \<Rightarrow> Inl (MissingRecord conv)
      | Some c \<Rightarrow>
          (case conv_parent c of
             None \<Rightarrow> Inr [(conv, upper)]
           | Some (parent, at) \<Rightarrow>
               (let upper' = min upper (Fin at) in
                if upper' < lo then Inr [(conv, upper)]
                else bind_res (fork_chain n st lo parent upper') (\<lambda>segments. Inr ((conv, upper) # segments)))))"

definition chain_fuel :: "mem_state \<Rightarrow> nat" where
  "chain_fuel st = Suc (length (conversation_ids st))"

definition read_entry :: "mem_state \<Rightarrow> int \<Rightarrow> (storage_error, entry_record) result" where
  "read_entry st i = (case entries st i of None \<Rightarrow> Inl (MissingRecord i) | Some e \<Rightarrow> Inr e)"

text \<open>One segment, newest first: from the upper bound down, until an id is below \<open>min\<close>.\<close>

definition segment_descending :: "mem_state \<Rightarrow> bound \<Rightarrow> int \<times> bound \<Rightarrow> int list" where
  "segment_descending st lo segment =
     (let (conv, upper) = segment; ids = ids_at (entry_ids st) conv in
      takeWhile (\<lambda>i. \<not> Fin i < lo) (map (\<lambda>index. ids ! index) (rev [0 ..< ids_upper_bound ids upper])))"

text \<open>One segment, oldest first: from the lower bound up, until an id is above the upper one.\<close>

definition segment_ascending :: "mem_state \<Rightarrow> bound \<Rightarrow> int \<times> bound \<Rightarrow> int list" where
  "segment_ascending st lo segment =
     (let (conv, upper) = segment; ids = ids_at (entry_ids st) conv in
      takeWhile (\<lambda>i. \<not> upper < Fin i) (map (\<lambda>index. ids ! index) [ids_lower_bound ids lo ..< length ids]))"

definition visible_ids :: "mem_state \<Rightarrow> int \<Rightarrow> bound \<Rightarrow> bound \<Rightarrow> (storage_error, int list) result" where
  "visible_ids st conv lo hi =
     (if conversations st conv = None then Inl (UnknownConversation conv)
      else bind_res (fork_chain (chain_fuel st) st lo conv hi) (\<lambda>segments.
        Inr (concat (map (segment_descending st lo) segments))))"

definition visible_ids_ascending :: "mem_state \<Rightarrow> int \<Rightarrow> bound \<Rightarrow> bound \<Rightarrow> (storage_error, int list) result" where
  "visible_ids_ascending st conv lo hi =
     (if conversations st conv = None then Inl (UnknownConversation conv)
      else bind_res (fork_chain (chain_fuel st) st lo conv hi) (\<lambda>segments.
        Inr (concat (map (segment_ascending st lo) (rev segments)))))"

text \<open>\<open>entry(conversationId, id)\<close>: the first visible entry of the range from \<open>id\<close> to \<open>id\<close>.\<close>

definition get_visible_entry ::
  "mem_state \<Rightarrow> int \<Rightarrow> int \<Rightarrow> (storage_error, (entry_record \<times> int option) option) result" where
  "get_visible_entry st conv i =
     bind_res (assert_open st) (\<lambda>_.
     bind_res (visible_ids st conv (Fin i) (Fin i)) (\<lambda>is.
       case is of
         [] \<Rightarrow> Inr None
       | j # _ \<Rightarrow>
           bind_res (read_entry st j) (\<lambda>e. Inr (Some (e, entry_commit_seqs st i)))))"

definition lower_of :: "int option \<Rightarrow> bound" where
  "lower_of b = (case b of None \<Rightarrow> NegInf | Some i \<Rightarrow> Fin i)"

definition upper_of :: "int option \<Rightarrow> bound" where
  "upper_of b = (case b of None \<Rightarrow> PosInf | Some i \<Rightarrow> Fin i)"

text \<open>The cursor narrows the bound on the side the scan moves away from.\<close>

definition entry_bounds :: "entry_query \<Rightarrow> scan_start_pos \<Rightarrow> int option \<times> int option" where
  "entry_bounds q start =
     (case (start_after start, start_order start) of
        (None, _) \<Rightarrow> (eq_min q, eq_max q)
      | (Some a, Descending) \<Rightarrow>
          (eq_min q, Some (min (case eq_max q of None \<Rightarrow> a | Some m \<Rightarrow> m) (a - 1)))
      | (Some a, Ascending) \<Rightarrow>
          (Some (max (case eq_min q of None \<Rightarrow> a | Some m \<Rightarrow> m) (a + 1)), eq_max q))"

definition scan_entries ::
  "mem_state \<Rightarrow> entry_query \<Rightarrow> nat \<Rightarrow> cursor option \<Rightarrow> (storage_error, entry_record page_of) result" where
  "scan_entries st q limit cursor =
     bind_res (assert_open st) (\<lambda>_.
     bind_res (scan_start (eq_order q) cursor Descending) (\<lambda>start.
       (let (lo, hi) = entry_bounds q start; order = start_order start in
        bind_res ((case order of Descending \<Rightarrow> visible_ids | Ascending \<Rightarrow> visible_ids_ascending)
            st (eq_conv q) (lower_of lo) (upper_of hi)) (\<lambda>is.
        bind_res (map_res (read_entry st) (take (Suc limit) is)) (\<lambda>visible.
        cut_page entry_id visible limit order)))))"

fun find_head :: "nat \<Rightarrow> mem_state \<Rightarrow> int \<Rightarrow> bound \<Rightarrow> (storage_error, entry_record option) result" where
  "find_head 0 st conv upper = Inl (ParentCycle conv)"
| "find_head (Suc n) st conv upper =
     (let ids = ids_at (head_entry_ids st) conv; count = ids_upper_bound ids upper in
      if count > 0 then bind_res (read_entry st (ids ! (count - 1))) (\<lambda>e. Inr (Some e))
      else case conversations st conv of
        None \<Rightarrow> Inl (MissingRecord conv)
      | Some c \<Rightarrow>
          (case conv_parent c of
             None \<Rightarrow> Inr None
           | Some (parent, at) \<Rightarrow> find_head n st parent (min upper (Fin at))))"

definition find_latest_head_marker ::
  "mem_state \<Rightarrow> int \<Rightarrow> int option \<Rightarrow> (storage_error, entry_record option) result" where
  "find_latest_head_marker st conv cutoff =
     bind_res (assert_open st) (\<lambda>_.
       if conversations st conv = None then Inl (UnknownConversation conv)
       else find_head (chain_fuel st) st conv (upper_of cutoff))"

section \<open>Documents\<close>

definition doc_record_of :: "mem_state \<Rightarrow> int \<Rightarrow> (storage_error, doc_record) result" where
  "doc_record_of st i =
     (case documents st i of None \<Rightarrow> Inl (MissingRecord i) | Some d \<Rightarrow> Inr (stored_record d))"

fun first_alive :: "mem_state \<Rightarrow> doc_point \<Rightarrow> int list \<Rightarrow> (storage_error, doc_record option) result" where
  "first_alive st at [] = Inr None"
| "first_alive st at (i # is) =
     bind_res (doc_record_of st i) (\<lambda>r. if is_alive_at r at then Inr (Some r) else first_alive st at is)"

definition find_document ::
  "mem_state \<Rightarrow> doc_address \<Rightarrow> doc_point \<Rightarrow> (storage_error, doc_record option) result" where
  "find_document st key at =
     bind_res (assert_open st) (\<lambda>_.
       (let index = document_addresses st key in
        case at of
          Current \<Rightarrow>
            (case Option.bind index addr_current of
               None \<Rightarrow> Inr None
             | Some i \<Rightarrow> bind_res (doc_record_of st i) (\<lambda>r. Inr (Some r)))
        | AsOf s \<Rightarrow> first_alive st at (case index of None \<Rightarrow> [] | Some a \<Rightarrow> addr_ids a)))"

definition get_document ::
  "mem_state \<Rightarrow> int \<Rightarrow> doc_point \<Rightarrow> (storage_error, stored_document option) result" where
  "get_document st i at = bind_res (assert_open st) (\<lambda>_. materialize_document st i at)"

definition document_keep :: "document_query \<Rightarrow> doc_record \<Rightarrow> bool" where
  "document_keep q r \<longleftrightarrow> matches_opt (dq_kind q) (doc_kind r) \<and> is_alive_at r (dq_at q)"

text \<open>The cursor of a document scan is read without an order; the scan is ascending.\<close>

definition scan_documents ::
  "mem_state \<Rightarrow> document_query \<Rightarrow> nat \<Rightarrow> cursor option \<Rightarrow> (storage_error, doc_record page_of) result" where
  "scan_documents st q limit cursor =
     bind_res (assert_open st) (\<lambda>_.
       scan_page (pick_record (\<lambda>i. map_option stored_record (documents st i)) (document_keep q)) doc_id
         (ids_at (document_ids_by_scope st) (dq_scope q)) limit
         (scan_position Ascending cursor))"

end
