(* ===== verification/Memory_Invariant.thy ===== *)
theory Memory_Invariant
  imports Memory_Read
begin

text \<open>
  The invariant of \<open>MemoryStorage\<close>: every index lists, in order and without repetition,
  exactly the ids of the records it stands for; every id belongs to one table and is below
  the next id to mint; every address has at most one current document. Each write keeps it.
\<close>

section \<open>Indexes\<close>

definition indexes :: "int list \<Rightarrow> (int \<rightharpoonup> 'r) \<Rightarrow> ('r \<Rightarrow> bool) \<Rightarrow> bool" where
  "indexes ids tab P \<longleftrightarrow> strict_sorted ids \<and> set ids = {i. \<exists>r. tab i = Some r \<and> P r}"

named_theorems index_laws "how an index follows a write to its table"

lemma indexes_empty [index_laws]: "indexes [] Map.empty P"
  by (simp add: indexes_def)

lemma indexes_insert [index_laws]:
  "indexes ids tab P \<Longrightarrow> tab i = None \<Longrightarrow> P r \<Longrightarrow> indexes (insert_sorted i ids) (tab(i \<mapsto> r)) P"
  using insert_sorted_spec[of ids i] by (auto simp: indexes_def)

lemma indexes_skip [index_laws]:
  "indexes ids tab P \<Longrightarrow> tab i = None \<Longrightarrow> \<not> P r \<Longrightarrow> indexes ids (tab(i \<mapsto> r)) P"
  by (auto simp: indexes_def)

lemma indexes_replace [index_laws]:
  "indexes ids tab P \<Longrightarrow> tab i = Some q \<Longrightarrow> P q = P r \<Longrightarrow> indexes ids (tab(i \<mapsto> r)) P"
  by (auto simp: indexes_def)

lemma indexes_leave [index_laws]:
  "indexes ids tab P \<Longrightarrow> tab i = Some q \<Longrightarrow> \<not> P r \<Longrightarrow> indexes (remove_sorted i ids) (tab(i \<mapsto> r)) P"
  using remove_sorted_spec[of ids i] by (auto simp: indexes_def)

lemma indexes_enter [index_laws]:
  "indexes ids tab P \<Longrightarrow> tab i = Some q \<Longrightarrow> \<not> P q \<Longrightarrow> P r \<Longrightarrow> indexes (insert_sorted i ids) (tab(i \<mapsto> r)) P"
  using insert_sorted_spec[of ids i] by (auto simp: indexes_def)

text \<open>An index that is a map from keys to id ls.\<close>

lemma ids_at_insert:
  "ids_at (insert_map_id k i index) k' = (if k' = k then insert_sorted i (ids_at index k) else ids_at index k')"
  by (simp add: ids_at_def insert_map_id_def)

definition keyed :: "('k \<rightharpoonup> int list) \<Rightarrow> (int \<rightharpoonup> 'r) \<Rightarrow> ('r \<Rightarrow> 'k option) \<Rightarrow> bool" where
  "keyed index tab key \<longleftrightarrow> (\<forall>k. indexes (ids_at index k) tab (\<lambda>r. key r = Some k))"

lemma keyed_empty [index_laws]: "keyed Map.empty Map.empty key"
  by (simp add: keyed_def ids_at_def indexes_empty)

lemma keyed_insert [index_laws]:
  "keyed index tab key \<Longrightarrow> tab i = None \<Longrightarrow> key r = Some k \<Longrightarrow> keyed (insert_map_id k i index) (tab(i \<mapsto> r)) key"
  unfolding keyed_def ids_at_insert using indexes_insert indexes_skip by (smt (verit) option.inject)

lemma keyed_skip [index_laws]:
  "keyed index tab key \<Longrightarrow> tab i = None \<Longrightarrow> key r = None \<Longrightarrow> keyed index (tab(i \<mapsto> r)) key"
  unfolding keyed_def by (simp add: indexes_skip)

text \<open>The lists by status.\<close>

definition by_status_ok :: "('s \<Rightarrow> int list) \<Rightarrow> (int \<rightharpoonup> 'r) \<Rightarrow> ('r \<Rightarrow> 's) \<Rightarrow> bool" where
  "by_status_ok ls tab status \<longleftrightarrow> (\<forall>s. indexes (ls s) tab (\<lambda>r. status r = s))"

lemma move_status_ok:
  assumes "indexes ids tab (\<lambda>_. True)" "by_status_ok ls tab status"
    and "move_status i (map_option status (tab i)) (status r) (ids, ls) = (ids', ls')"
  shows "indexes ids' (tab(i \<mapsto> r)) (\<lambda>_. True) \<and> by_status_ok ls' (tab(i \<mapsto> r)) status"
proof (cases "tab i")
  case None
  with assms(3) have "ids' = insert_sorted i ids" "ls' = ls(status r := insert_sorted i (ls (status r)))"
    by (auto simp: move_status_def)
  with assms(1,2) None show ?thesis by (auto simp: by_status_ok_def intro: indexes_insert indexes_skip)
next
  case (Some q)
  have idx: "indexes ids (tab(i \<mapsto> r)) (\<lambda>_. True)" using assms(1) Some by (auto intro: indexes_replace)
  show ?thesis
  proof (cases "status q = status r")
    case True
    with assms(3) Some have "ids' = ids" "ls' = ls" by (auto simp: move_status_def)
    with idx assms(2) Some True show ?thesis by (auto simp: by_status_ok_def intro: indexes_replace)
  next
    case False
    with assms(3) Some have "ids' = ids"
      "ls' = ls(status q := remove_sorted i (ls (status q)), status r := insert_sorted i (ls (status r)))"
      by (auto simp: move_status_def Let_def)
    with idx assms(2) Some False show ?thesis
      by (auto simp: by_status_ok_def intro: indexes_replace indexes_leave indexes_enter)
  qed
qed

section \<open>The tables other than documents\<close>

definition id_matches :: "(int \<rightharpoonup> 'r) \<Rightarrow> ('r \<Rightarrow> int) \<Rightarrow> bool" where
  "id_matches tab id_of \<longleftrightarrow> (\<forall>i r. tab i = Some r \<longrightarrow> id_of r = i)"

lemma id_matches_upd [index_laws]: "id_matches tab id_of \<Longrightarrow> id_of r = i \<Longrightarrow> id_matches (tab(i \<mapsto> r)) id_of"
  by (simp add: id_matches_def)

definition typed :: "(int \<rightharpoonup> table) \<Rightarrow> (int \<rightharpoonup> 'r) \<Rightarrow> table \<Rightarrow> bool" where
  "typed types tab t \<longleftrightarrow> (\<forall>i. types i = Some t \<longleftrightarrow> tab i \<noteq> None)"

lemma typed_upd [index_laws]: "typed types tab t \<Longrightarrow> typed (types(i \<mapsto> t)) (tab(i \<mapsto> r)) t"
  by (auto simp: typed_def)

lemma typed_other [index_laws]:
  "typed types tab t \<Longrightarrow> types i \<noteq> Some t \<Longrightarrow> t \<noteq> t' \<Longrightarrow> typed (types(i \<mapsto> t')) tab t"
  by (auto simp: typed_def)

definition requests_sound :: "(int \<rightharpoonup> (string \<times> int) list) \<Rightarrow> (int \<rightharpoonup> submission_record) \<Rightarrow> bool" where
  "requests_sound index tab \<longleftrightarrow>
     (\<forall>c requests q i. index c = Some requests \<longrightarrow> map_of requests q = Some i \<longrightarrow>
        (\<exists>r. tab i = Some r \<and> sub_conv r = c \<and> sub_request r = Some q))"

definition types_ok :: "mem_state \<Rightarrow> bool" where
  "types_ok st \<longleftrightarrow>
     typed (record_types st) (conversations st) ConversationTable \<and>
     typed (record_types st) (entries st) EntryTable \<and>
     typed (record_types st) (tasks st) TaskTable \<and>
     typed (record_types st) (submissions st) SubmissionTable \<and>
     typed (record_types st) (documents st) DocumentTable \<and>
     (\<forall>i t. record_types st i = Some t \<longrightarrow> i < next_record_id st)"

definition tables_ok :: "mem_state \<Rightarrow> bool" where
  "tables_ok st \<longleftrightarrow>
     id_matches (conversations st) conv_id \<and> indexes (conversation_ids st) (conversations st) (\<lambda>_. True) \<and>
     keyed (conversation_ids_by_owner_conversation st) (conversations st) (\<lambda>r. map_option fst (conv_owner r)) \<and>
     keyed (conversation_ids_by_owner_task st) (conversations st) (\<lambda>r. map_option snd (conv_owner r)) \<and>
     id_matches (entries st) entry_id \<and> keyed (entry_ids st) (entries st) (\<lambda>r. Some (entry_conv r)) \<and>
     keyed (head_entry_ids st) (entries st) (\<lambda>r. if entry_head r = None then None else Some (entry_conv r)) \<and>
     dom (entry_commit_seqs st) = dom (entries st) \<and>
     id_matches (tasks st) task_id \<and> indexes (task_ids st) (tasks st) (\<lambda>_. True) \<and>
     by_status_ok (task_ids_by_status st) (tasks st) (\<lambda>r. status_of (task_state_of r)) \<and>
     id_matches (submissions st) sub_id \<and> indexes (submission_ids st) (submissions st) (\<lambda>_. True) \<and>
     by_status_ok (submission_ids_by_status st) (submissions st) sub_status \<and>
     requests_sound (submission_ids_by_request st) (submissions st)"

text \<open>What \<open>checkGlobalIds\<close> has established for a write when it is applied.\<close>

fun admits :: "mem_state \<Rightarrow> storage_write \<Rightarrow> bool" where
  "admits st (WTask r) = (record_types st (task_id r) \<in> {None, Some TaskTable})"
| "admits st (WSubmission r) = (record_types st (sub_id r) \<in> {None, Some SubmissionTable})"
| "admits st (WConversation r) = (record_types st (conv_id r) = None)"
| "admits st (WEntry r) = (record_types st (entry_id r) = None)"
| "admits st (WDocCopy _ _ _) = False"
| "admits st _ = True"

lemmas tables_defs = tables_ok_def types_ok_def bump_id_def

lemma typed_None: "typed types tab t \<Longrightarrow> types i \<noteq> Some t \<Longrightarrow> tab i = None"
  by (auto simp: typed_def)

lemma types_put:
  assumes "types_ok st" "record_types st i \<in> {None, Some t}" "t \<noteq> DocumentTable"
    "record_types st' = (record_types st)(i \<mapsto> t)"
    "conversations st' = (if t = ConversationTable then (conversations st)(i := conversations st' i) else conversations st)"
    "entries st' = (if t = EntryTable then (entries st)(i := entries st' i) else entries st)"
    "tasks st' = (if t = TaskTable then (tasks st)(i := tasks st' i) else tasks st)"
    "submissions st' = (if t = SubmissionTable then (submissions st)(i := submissions st' i) else submissions st)"
    "documents st' = documents st"
    "next_record_id st' = max (next_record_id st) (i + 1)"
    "t = ConversationTable \<longrightarrow> conversations st' i \<noteq> None" "t = EntryTable \<longrightarrow> entries st' i \<noteq> None"
    "t = TaskTable \<longrightarrow> tasks st' i \<noteq> None" "t = SubmissionTable \<longrightarrow> submissions st' i \<noteq> None"
  shows "types_ok st'"
proof -
  have upd: "typed ((record_types st)(i \<mapsto> t)) tab' u"
    if "typed (record_types st) tab u" "tab' = (if t = u then tab(i := tab' i) else tab)" "t = u \<longrightarrow> tab' i \<noteq> None"
    for tab tab' :: "int \<rightharpoonup> 'r" and u
    using that assms(2) unfolding typed_def by (metis fun_upd_apply insertE option.distinct(1) option.inject singletonD)
  have "\<forall>j u. record_types st' j = Some u \<longrightarrow> j < next_record_id st'"
  proof (intro allI impI)
    fix j u assume "record_types st' j = Some u"
    then show "j < next_record_id st'" using assms(1,4,10) by (cases "j = i") (auto simp: types_ok_def less_max_iff_disj)
  qed
  moreover have "typed (record_types st') (documents st') DocumentTable"
    unfolding assms(4) by (rule upd[of "documents st"]) (use assms in \<open>auto simp: types_ok_def\<close>)
  moreover have "typed (record_types st') (conversations st') ConversationTable"
    unfolding assms(4) by (rule upd[of "conversations st"]) (use assms in \<open>auto simp: types_ok_def\<close>)
  moreover have "typed (record_types st') (entries st') EntryTable"
    unfolding assms(4) by (rule upd[of "entries st"]) (use assms in \<open>auto simp: types_ok_def\<close>)
  moreover have "typed (record_types st') (tasks st') TaskTable"
    unfolding assms(4) by (rule upd[of "tasks st"]) (use assms in \<open>auto simp: types_ok_def\<close>)
  moreover have "typed (record_types st') (submissions st') SubmissionTable"
    unfolding assms(4) by (rule upd[of "submissions st"]) (use assms in \<open>auto simp: types_ok_def\<close>)
  ultimately show ?thesis by (simp add: types_ok_def)
qed

lemma put_conversation_ok:
  assumes "types_ok st" "tables_ok st" "record_types st (conv_id r) = None"
  shows "types_ok (put_conversation r st) \<and> tables_ok (put_conversation r st)"
proof
  have new: "conversations st (conv_id r) = None"
    using assms(1,3) typed_None unfolding types_ok_def by fastforce
  show "types_ok (put_conversation r st)"
    by (rule types_put[OF assms(1), of "conv_id r" ConversationTable])
      (use assms(3) in \<open>auto simp: put_conversation_def bump_id_def Let_def split: option.splits prod.splits\<close>)
  show "tables_ok (put_conversation r st)"
  proof (cases "conv_owner r")
    case None
    with assms(2) new show ?thesis
      by (auto simp: put_conversation_def tables_defs Let_def intro: index_laws)
  next
    case (Some o')
    obtain c t where "o' = (c, t)" by force
    with Some assms(2) new show ?thesis
      by (auto simp: put_conversation_def tables_defs Let_def intro: index_laws)
  qed
qed

lemma put_entry_ok:
  assumes "types_ok st" "tables_ok st" "record_types st (entry_id r) = None"
  shows "types_ok (put_entry seq r st) \<and> tables_ok (put_entry seq r st)"
proof
  have new: "entries st (entry_id r) = None"
    using assms(1,3) typed_None unfolding types_ok_def by fastforce
  show "types_ok (put_entry seq r st)"
    by (rule types_put[OF assms(1), of "entry_id r" EntryTable])
      (use assms(3) in \<open>auto simp: put_entry_def bump_id_def Let_def\<close>)
  show "tables_ok (put_entry seq r st)"
    using assms(2) new
    by (cases "entry_head r") (auto simp: put_entry_def tables_defs Let_def intro: index_laws)
qed

lemma put_task_ok:
  assumes "types_ok st" "tables_ok st" "record_types st (task_id r) \<in> {None, Some TaskTable}"
  shows "types_ok (put_task r st) \<and> tables_ok (put_task r st)"
proof
  obtain ids ls where m: "move_status (task_id r) (map_option (\<lambda>p. status_of (task_state_of p)) (tasks st (task_id r)))
      (status_of (task_state_of r)) (task_ids st, task_ids_by_status st) = (ids, ls)" by force
  show "types_ok (put_task r st)"
    by (rule types_put[OF assms(1), of "task_id r" TaskTable])
      (use assms(3) m in \<open>auto simp: put_task_def bump_id_def Let_def\<close>)
  have "indexes ids ((tasks st)(task_id r \<mapsto> r)) (\<lambda>_. True) \<and>
      by_status_ok ls ((tasks st)(task_id r \<mapsto> r)) (\<lambda>r. status_of (task_state_of r))"
    by (rule move_status_ok[where status = "\<lambda>r. status_of (task_state_of r)" and tab = "tasks st", OF _ _ m]) (use assms(2) in \<open>auto simp: tables_ok_def\<close>)
  with assms(2) m show "tables_ok (put_task r st)"
    by (auto simp: put_task_def tables_defs Let_def intro: index_laws)
qed

definition request_at :: "(int \<rightharpoonup> (string \<times> int) list) \<Rightarrow> int \<Rightarrow> string \<Rightarrow> int option" where
  "request_at index c q = Option.bind (index c) (\<lambda>m. map_of m q)"

lemma requests_sound_iff:
  "requests_sound index tab \<longleftrightarrow>
     (\<forall>c q i. request_at index c q = Some i \<longrightarrow> (\<exists>r. tab i = Some r \<and> sub_conv r = c \<and> sub_request r = Some q))"
  by (auto simp: requests_sound_def request_at_def bind_eq_Some_conv)

lemma request_at_add:
  "request_at (add_request r index) c q =
     (if sub_request r = Some q \<and> sub_conv r = c then Some (sub_id r) else request_at index c q)"
  by (auto simp: request_at_def add_request_def update_conv split: option.splits)

lemma request_at_drop:
  "request_at (drop_request p index) c q =
     (if sub_request p = Some q \<and> sub_conv p = c \<and> request_at index c q = Some (sub_id p) then None
      else request_at index c q)"
proof (cases "sub_request p")
  case (Some request)
  show ?thesis
  proof (cases "index (sub_conv p)")
    case None
    with Some show ?thesis by (auto simp: request_at_def drop_request_def)
  next
    case (Some m)
    have "map_of (AList.delete request m) q = None" if "AList.delete request m = []" for q using that by simp
    then have "map_of m q = None" if "AList.delete request m = []" "q \<noteq> request" for q
      using that by (metis delete_conv fun_upd_other)
    with Some \<open>sub_request p = Some request\<close> show ?thesis
      by (auto simp: request_at_def drop_request_def delete_conv Let_def)
  qed
qed (auto simp: drop_request_def)

lemma requests_put:
  assumes sound: "requests_sound index tab" and ids: "id_matches tab sub_id"
  shows "requests_sound
    (add_request r (case tab (sub_id r) of None \<Rightarrow> index | Some p \<Rightarrow> drop_request p index)) (tab(sub_id r \<mapsto> r))"
    (is "requests_sound (add_request r ?index) _")
proof -
  have "request_at ?index c q \<noteq> Some (sub_id r) \<and> (request_at ?index c q = Some i \<longrightarrow> request_at index c q = Some i)" for c q i
  proof (cases "tab (sub_id r)")
    case None
    with sound show ?thesis unfolding requests_sound_iff by fastforce
  next
    case (Some p)
    with ids have p: "sub_id p = sub_id r" by (auto simp: id_matches_def)
    have "sub_conv p = c \<and> sub_request p = Some q" if "request_at index c q = Some (sub_id r)"
      using sound Some that unfolding requests_sound_iff by fastforce
    with Some p show ?thesis by (auto simp: request_at_drop)
  qed
  with sound show ?thesis unfolding requests_sound_iff by (auto simp: request_at_add split: if_splits)
qed

lemma put_submission_ok:
  assumes "types_ok st" "tables_ok st" "record_types st (sub_id r) \<in> {None, Some SubmissionTable}"
  shows "types_ok (put_submission r st) \<and> tables_ok (put_submission r st)"
proof
  obtain ids ls where m: "move_status (sub_id r) (map_option sub_status (submissions st (sub_id r)))
      (sub_status r) (submission_ids st, submission_ids_by_status st) = (ids, ls)" by force
  show "types_ok (put_submission r st)"
    by (rule types_put[OF assms(1), of "sub_id r" SubmissionTable])
      (use assms(3) m in \<open>auto simp: put_submission_def bump_id_def Let_def\<close>)
  have "indexes ids ((submissions st)(sub_id r \<mapsto> r)) (\<lambda>_. True) \<and>
      by_status_ok ls ((submissions st)(sub_id r \<mapsto> r)) sub_status"
    by (rule move_status_ok[where status = sub_status and tab = "submissions st", OF _ _ m]) (use assms(2) in \<open>auto simp: tables_ok_def\<close>)
  moreover have "requests_sound
      (add_request r (case submissions st (sub_id r) of None \<Rightarrow> submission_ids_by_request st
        | Some p \<Rightarrow> drop_request p (submission_ids_by_request st))) ((submissions st)(sub_id r \<mapsto> r))"
    by (rule requests_put) (use assms(2) in \<open>auto simp: tables_ok_def\<close>)
  ultimately show "tables_ok (put_submission r st)"
    using assms(2) m by (auto simp: put_submission_def tables_defs Let_def intro: index_laws)
qed

text \<open>No write but one of documents touches them.\<close>

definition same_documents :: "mem_state \<Rightarrow> mem_state \<Rightarrow> bool" where
  "same_documents st st' \<longleftrightarrow>
     documents st' = documents st \<and> document_addresses st' = document_addresses st \<and>
     document_ids_by_scope st' = document_ids_by_scope st \<and> next_seq st' = next_seq st \<and> closed st' = closed st"

lemma apply_write_ok:
  assumes "types_ok st" "tables_ok st" "admits st w"
  shows "\<exists>st'. apply_write seq w st = Inr st' \<and> types_ok st' \<and> tables_ok st' \<and> same_documents st st' \<and>
    record_types st' = (case claim_of w of
        Some (i, t) \<Rightarrow> if t = DocumentTable then record_types st else (record_types st)(i \<mapsto> t)
      | None \<Rightarrow> record_types st)"
proof (cases w)
  case (WConversation r)
  with assms put_conversation_ok[of st r] show ?thesis
    by (auto simp: same_documents_def put_conversation_def bump_id_def Let_def split: option.splits)
next
  case (WEntry r)
  with assms put_entry_ok[of st r seq] show ?thesis
    by (auto simp: same_documents_def put_entry_def bump_id_def Let_def)
next
  case (WTask r)
  with assms put_task_ok[of st r] show ?thesis
    by (auto simp: same_documents_def put_task_def bump_id_def Let_def split: prod.splits)
next
  case (WSubmission r)
  with assms put_submission_ok[of st r] show ?thesis
    by (auto simp: same_documents_def put_submission_def bump_id_def Let_def split: prod.splits)
qed (use assms in \<open>auto simp: same_documents_def\<close>)

section \<open>All writes of a commit\<close>

fun is_copy :: "storage_write \<Rightarrow> bool" where
  "is_copy (WDocCopy _ _ _) = True"
| "is_copy _ = False"

lemma map_res_Inr_iff: "map_res f xs = Inr ys \<longleftrightarrow> list_all2 (\<lambda>x y. f x = Inr y) xs ys"
proof (induction xs arbitrary: ys)
  case (Cons x xs)
  then show ?case by (cases ys) (auto simp: res_simps list_all2_Cons1)
qed auto

lemma resolved_no_copy: "resolve_document_copies st ws = Inr ds \<Longrightarrow> w \<in> set ds \<Longrightarrow> \<not> is_copy w"
proof -
  assume "resolve_document_copies st ws = Inr ds" "w \<in> set ds"
  then obtain v where "resolve_copy st (set (concat (map changed_document ws))) v = Inr w"
    by (auto simp: resolve_document_copies_def map_res_Inr_iff in_set_conv_nth list_all2_conv_all_nth)
  then show ?thesis
    by (cases v) (auto split: if_splits sum.splits option.splits)
qed

text \<open>The records that are never replaced keep their contents.\<close>

definition keeps_immutable :: "mem_state \<Rightarrow> mem_state \<Rightarrow> bool" where
  "keeps_immutable st st' \<longleftrightarrow>
     conversations st \<subseteq>\<^sub>m conversations st' \<and> entries st \<subseteq>\<^sub>m entries st' \<and>
     entry_commit_seqs st \<subseteq>\<^sub>m entry_commit_seqs st'"

lemma keeps_immutable_refl: "keeps_immutable st st"
  by (simp add: keeps_immutable_def)

lemma keeps_immutable_trans: "keeps_immutable st st1 \<Longrightarrow> keeps_immutable st1 st2 \<Longrightarrow> keeps_immutable st st2"
  by (auto simp: keeps_immutable_def elim: map_le_trans)

lemma map_le_new: "m i = None \<Longrightarrow> m \<subseteq>\<^sub>m m(i \<mapsto> v)"
  by (auto simp: map_le_def)

lemma apply_write_immutable:
  assumes "types_ok st" "tables_ok st" "admits st w" "apply_write seq w st = Inr st'"
  shows "keeps_immutable st st'"
proof (cases w)
  case (WConversation r)
  then have "conversations st (conv_id r) = None"
    using assms(1,3) typed_None unfolding types_ok_def by fastforce
  with WConversation assms(4) show ?thesis
    by (auto simp: keeps_immutable_def put_conversation_def bump_id_def Let_def map_le_new split: option.splits)
next
  case (WEntry r)
  then have "entries st (entry_id r) = None"
    using assms(1,3) typed_None unfolding types_ok_def by fastforce
  moreover from this assms(2) have "entry_commit_seqs st (entry_id r) = None"
    unfolding tables_ok_def by (metis domIff)
  ultimately show ?thesis
    using WEntry assms(4) by (auto simp: keeps_immutable_def put_entry_def bump_id_def Let_def map_le_new)
next
  case (WTask r)
  with assms(4) show ?thesis
    by (auto simp: keeps_immutable_def put_task_def bump_id_def Let_def split: prod.splits)
next
  case (WSubmission r)
  with assms(4) show ?thesis
    by (auto simp: keeps_immutable_def put_submission_def bump_id_def Let_def split: prod.splits)
qed (use assms(4) in \<open>auto simp: keeps_immutable_refl\<close>)

definition claimed_types :: "(int \<rightharpoonup> table) \<Rightarrow> (int \<rightharpoonup> table) \<Rightarrow> int \<Rightarrow> table option" where
  "claimed_types types claimed i =
     (case claimed i of None \<Rightarrow> types i | Some t \<Rightarrow> if t = DocumentTable then types i else Some t)"

lemma check_ids_Cons:
  assumes "check_ids types claimed (w # ws) = Inr ()" "\<not> is_copy w" "record_types st = claimed_types types claimed"
  shows "admits st w \<and>
    (case claim_of w of
       None \<Rightarrow> check_ids types claimed ws = Inr ()
     | Some (i, t) \<Rightarrow> check_ids types (claimed(i \<mapsto> t)) ws = Inr () \<and> claimed i \<noteq> Some DocumentTable \<and>
         (t = DocumentTable \<longrightarrow> types i = None \<and> claimed i = None))"
  using assms
  by (cases w) (auto simp: claimed_types_def split: option.splits if_splits)

lemma apply_writes_ok:
  "check_ids types claimed ws = Inr () \<Longrightarrow> \<forall>w \<in> set ws. \<not> is_copy w \<Longrightarrow> types_ok st \<Longrightarrow> tables_ok st \<Longrightarrow>
   record_types st = claimed_types types claimed \<Longrightarrow>
     \<exists>st'. fold_res (apply_write seq) ws st = Inr st' \<and> types_ok st' \<and> tables_ok st' \<and> same_documents st st' \<and>
       keeps_immutable st st' \<and>
       (\<forall>i. claimed i = Some DocumentTable \<longrightarrow> record_types st' i = types i) \<and>
       (\<forall>r v x. WDocCreate r v x \<in> set ws \<longrightarrow> record_types st' (doc_id r) = None)"
proof (induction ws arbitrary: st claimed)
  case Nil
  then show ?case
    by (auto simp: same_documents_def keeps_immutable_refl claimed_types_def)
next
  case (Cons w ws)
  have w: "\<not> is_copy w" using Cons.prems(2) by simp
  note check = check_ids_Cons[OF Cons.prems(1) w Cons.prems(5)]
  then obtain st1 where st1: "apply_write seq w st = Inr st1" "types_ok st1" "tables_ok st1" "same_documents st st1"
    "record_types st1 = (case claim_of w of
        Some (i, t) \<Rightarrow> if t = DocumentTable then record_types st else (record_types st)(i \<mapsto> t)
      | None \<Rightarrow> record_types st)"
    using apply_write_ok[OF Cons.prems(3,4), of w seq] by blast
  have imm: "keeps_immutable st st1"
    by (rule apply_write_immutable[OF Cons.prems(3,4) _ st1(1)]) (use check in blast)
  let ?claimed = "case claim_of w of None \<Rightarrow> claimed | Some (i, t) \<Rightarrow> claimed(i \<mapsto> t)"
  have ids: "check_ids types ?claimed ws = Inr ()" using check by (auto split: option.splits)
  have types: "record_types st1 = claimed_types types ?claimed"
    using st1(5) Cons.prems(5) check by (auto simp: claimed_types_def fun_eq_iff split: option.splits)
  from Cons.IH[OF ids _ st1(2,3) types] Cons.prems(2) obtain st' where st':
    "fold_res (apply_write seq) ws st1 = Inr st'" "types_ok st'" "tables_ok st'" "same_documents st1 st'"
    "keeps_immutable st1 st'" "\<forall>i. ?claimed i = Some DocumentTable \<longrightarrow> record_types st' i = types i"
    "\<forall>r v x. WDocCreate r v x \<in> set ws \<longrightarrow> record_types st' (doc_id r) = None" by auto
  have "record_types st' (doc_id r) = None" if "w = WDocCreate r v x" for r v x
    using st'(6) check that by (auto split: option.splits)
  with st'(7) have "\<forall>r v x. WDocCreate r v x \<in> set (w # ws) \<longrightarrow> record_types st' (doc_id r) = None"
    by (metis set_ConsD)
  moreover have "record_types st' i = types i" if "claimed i = Some DocumentTable" for i
  proof -
    have "?claimed i = Some DocumentTable" using check that by (cases "claim_of w") auto
    with st'(6) show ?thesis by blast
  qed
  moreover have "same_documents st st'" using st1(4) st'(4) by (simp add: same_documents_def)
  moreover have "keeps_immutable st st'" by (rule keeps_immutable_trans[OF imm st'(5)])
  moreover have "fold_res (apply_write seq) (w # ws) st = Inr st'" using st1(1) st'(1) by simp
  ultimately show ?case using st'(2,3) by blast
qed

end
