(* ===== verification/Memory_Documents.thy ===== *)
theory Memory_Documents
  imports Memory_Invariant
begin

text \<open>
  The invariant of the documents of \<open>MemoryStorage\<close> and its preservation by the document
  actions of a commit: the indexes by address and scope, lifetimes and revisions, and the one
  current document of an address.
\<close>

section \<open>One document\<close>

text \<open>Every delta continues the version of the revision before it.\<close>

fun versions_ok :: "revision list \<Rightarrow> bool" where
  "versions_ok (r # s # rs) =
     ((is_base_content (rev_content s) \<or> content_version (rev_content s) = content_version (rev_content r)) \<and>
      versions_ok (s # rs))"
| "versions_ok rs = True"

definition revisions_ok :: "revision list \<Rightarrow> bool" where
  "revisions_ok rs \<longleftrightarrow> rs \<noteq> [] \<and> is_base_content (rev_content (hd rs)) \<and> versions_ok rs"

definition document_ok :: "int \<Rightarrow> stored_state \<Rightarrow> bool" where
  "document_ok bound d \<longleftrightarrow>
     created_at (stored_record d) < bound \<and>
     (\<forall>e. retired_at (stored_record d) = Some e \<longrightarrow> created_at (stored_record d) \<le> e \<and> e < bound) \<and>
     (\<not> is_current_only (stored_record d) \<longrightarrow> rev_seq (hd (stored_revisions d)) = created_at (stored_record d)) \<and>
     sorted_wrt (<) (map rev_seq (stored_revisions d)) \<and> (\<forall>r \<in> set (stored_revisions d). rev_seq r < bound) \<and>
     (if retired_at (stored_record d) \<noteq> None \<and> is_current_only (stored_record d)
      then stored_revisions d = [] else revisions_ok (stored_revisions d))"

lemma document_ok_mono: "document_ok b d \<Longrightarrow> b \<le> b' \<Longrightarrow> document_ok b' d"
  by (fastforce simp: document_ok_def split: if_splits)

lemma versions_ok_snoc:
  "versions_ok rs \<Longrightarrow> rs \<noteq> [] \<Longrightarrow>
     is_base_content (rev_content r) \<or> content_version (rev_content (last rs)) = content_version (rev_content r) \<Longrightarrow>
     versions_ok (rs @ [r])"
  by (induction rs rule: versions_ok.induct) auto

lemma revisions_ok_single: "is_base_content (rev_content r) \<Longrightarrow> revisions_ok [r]"
  by (simp add: revisions_ok_def)

lemma revisions_ok_snoc:
  "revisions_ok rs \<Longrightarrow> is_base_content (rev_content r) \<or> content_version (rev_content (last rs)) = content_version (rev_content r) \<Longrightarrow>
     revisions_ok (rs @ [r])"
  by (auto simp: revisions_ok_def versions_ok_snoc)

section \<open>All documents\<close>

definition address_ids :: "mem_state \<Rightarrow> doc_address \<Rightarrow> int list" where
  "address_ids st key = (case document_addresses st key of None \<Rightarrow> [] | Some a \<Rightarrow> addr_ids a)"

definition docs_indexed :: "int \<Rightarrow> mem_state \<Rightarrow> bool" where
  "docs_indexed bound st \<longleftrightarrow>
     id_matches (documents st) (\<lambda>d. doc_id (stored_record d)) \<and>
     (\<forall>key. indexes (address_ids st key) (documents st) (\<lambda>d. record_address (stored_record d) = key)) \<and>
     keyed (document_ids_by_scope st) (documents st) (\<lambda>d. Some (doc_scope_of (stored_record d))) \<and>
     (\<forall>i d. documents st i = Some d \<longrightarrow> document_ok bound d)"

definition live_at :: "mem_state \<Rightarrow> doc_address \<Rightarrow> int \<Rightarrow> bool" where
  "live_at st key i \<longleftrightarrow>
     (\<exists>d. documents st i = Some d \<and> record_address (stored_record d) = key \<and> retired_at (stored_record d) = None)"

definition current_ok :: "mem_state \<Rightarrow> bool" where
  "current_ok st \<longleftrightarrow> (\<forall>key i. current_at st key = Some i \<longleftrightarrow> live_at st key i)"

definition storage_ok :: "mem_state \<Rightarrow> bool" where
  "storage_ok st \<longleftrightarrow>
     types_ok st \<and> tables_ok st \<and> docs_indexed (next_seq st) st \<and> current_ok st"

lemma docs_indexed_mono: "docs_indexed b st \<Longrightarrow> b \<le> b' \<Longrightarrow> docs_indexed b' st"
  by (auto simp: docs_indexed_def intro: document_ok_mono)

lemma docs_same: "same_documents st st' \<Longrightarrow> docs_indexed b st' = docs_indexed b st"
  by (simp add: same_documents_def docs_indexed_def address_ids_def)

lemma current_same:
  "same_documents st st' \<Longrightarrow> current_at st' key = current_at st key \<and> live_at st' key i = live_at st key i"
  by (simp add: same_documents_def current_at_def live_at_def)

lemma storage_ok_empty: "storage_ok empty_storage"
  by (simp add: storage_ok_def types_ok_def tables_ok_def docs_indexed_def current_ok_def empty_storage_def
      typed_def id_matches_def by_status_ok_def requests_sound_def address_ids_def current_at_def live_at_def
      indexes_empty keyed_empty)

section \<open>One action\<close>

text \<open>What the checks of a commit establish for an action when it is applied.\<close>

definition action_ready :: "int \<Rightarrow> mem_state \<Rightarrow> int \<Rightarrow> doc_action \<Rightarrow> bool" where
  "action_ready seq st i a \<longleftrightarrow>
     (case act_create a of
        Some r \<Rightarrow> doc_id r = i \<and> record_types st i = None \<and>
          (\<exists>v x. act_content a = Some (CBase v x))
      | None \<Rightarrow>
          (\<exists>d. documents st i = Some d \<and> document_ok seq d \<and> retired_at (stored_record d) = None \<and>
             (\<forall>v ops. act_content a = Some (CDelta v ops) \<longrightarrow>
                content_version (rev_content (last (stored_revisions d))) = v)))"

text \<open>The document an action leaves behind.\<close>

definition action_result :: "int \<Rightarrow> mem_state \<Rightarrow> int \<Rightarrow> doc_action \<Rightarrow> stored_state" where
  "action_result seq st i a =
     retire_document seq a
       (case act_create a of
          Some r \<Rightarrow>
            \<lparr>stored_record = stamp r seq (if act_retire a then Some seq else None),
             stored_revisions = [\<lparr>rev_content = the (act_content a), rev_seq = seq\<rparr>]\<rparr>
        | None \<Rightarrow>
            (let d = the (documents st i) in
             case act_content a of
               None \<Rightarrow> d
             | Some content \<Rightarrow>
                 d\<lparr>stored_revisions :=
                     (if is_base_content content \<and> is_current_only (stored_record d)
                      then [\<lparr>rev_content = content, rev_seq = seq\<rparr>]
                      else stored_revisions d @ [\<lparr>rev_content = content, rev_seq = seq\<rparr>])\<rparr>))"

lemma stamp_simps [simp]:
  "doc_id (stamp r s e) = doc_id r" "doc_kind (stamp r s e) = doc_kind r" "doc_key (stamp r s e) = doc_key r"
  "doc_scope_of (stamp r s e) = doc_scope_of r" "doc_history_of (stamp r s e) = doc_history_of r"
  "doc_fork_of (stamp r s e) = doc_fork_of r" "created_at (stamp r s e) = s" "retired_at (stamp r s e) = e"
  by (simp_all add: stamp_def doc_create.extend_def)

lemma record_address_stamp [simp]: "record_address (stamp r s e) = record_address r"
  by (simp add: record_address_def)

lemma retired_address [simp]:
  "record_address (r\<lparr>retired_at := e\<rparr>) = record_address r" "is_current_only (r\<lparr>retired_at := e\<rparr>) = is_current_only r"
  by (simp_all add: record_address_def is_current_only_def split: doc_scope.split)

lemma retire_document_record:
  "stored_record (retire_document seq a d) =
     (if act_retire a \<and> act_create a = None then (stored_record d)\<lparr>retired_at := Some seq\<rparr> else stored_record d)"
  by (auto simp: retire_document_def Let_def)

lemma action_result_record:
  "stored_record (action_result seq st i a) =
     (case act_create a of
        Some r \<Rightarrow> stamp r seq (if act_retire a then Some seq else None)
      | None \<Rightarrow> if act_retire a then (stored_record (the (documents st i)))\<lparr>retired_at := Some seq\<rparr>
                else stored_record (the (documents st i)))"
  by (auto simp: action_result_def retire_document_record Let_def split: option.splits)

lemma action_result_ok:
  assumes "action_ready seq st i a"
  shows "document_ok (seq + 1) (action_result seq st i a)"
proof (cases "act_create a")
  case (Some r)
  with assms show ?thesis
    by (auto simp: action_ready_def action_result_def retire_document_def document_ok_def Let_def
        revisions_ok_single)
next
  case None
  with assms obtain d where d: "documents st i = Some d" "document_ok seq d" "retired_at (stored_record d) = None"
    "\<forall>v ops. act_content a = Some (CDelta v ops) \<longrightarrow> content_version (rev_content (last (stored_revisions d))) = v"
    by (auto simp: action_ready_def)
  then have revs: "revisions_ok (stored_revisions d)" "\<forall>r \<in> set (stored_revisions d). rev_seq r < seq"
    "sorted_wrt (<) (map rev_seq (stored_revisions d))" "created_at (stored_record d) < seq"
    and hd: "\<not> is_current_only (stored_record d) \<longrightarrow> rev_seq (hd (stored_revisions d)) = created_at (stored_record d)"
    by (auto simp: document_ok_def)
  from revs(1) have ne: "stored_revisions d \<noteq> []" by (simp add: revisions_ok_def)
  have snoc: "revisions_ok (stored_revisions d @ [\<lparr>rev_content = c, rev_seq = seq\<rparr>])" if "act_content a = Some c" for c
    using revisions_ok_snoc[OF revs(1)] d(4) that by (cases c) auto
  show ?thesis
    using None d(1,3) revs hd ne snoc
    by (auto simp: action_result_def retire_document_def document_ok_def Let_def sorted_wrt_append
        revisions_ok_single split: option.splits)
qed

end
