(* ===== verification/Memory_Commit.thy ===== *)
theory Memory_Commit
  imports Memory_Documents
begin

text \<open>
  \<open>commit\<close> of \<open>MemoryStorage\<close> as a whole: once a commit is prepared its application cannot
  fail, it keeps the invariant of the storage, and it changes nothing it was not asked to.
\<close>

section \<open>One document action\<close>

definition same_records :: "mem_state \<Rightarrow> mem_state \<Rightarrow> bool" where
  "same_records st st' \<longleftrightarrow>
     conversations st' = conversations st \<and> conversation_ids st' = conversation_ids st \<and>
     conversation_ids_by_owner_conversation st' = conversation_ids_by_owner_conversation st \<and>
     conversation_ids_by_owner_task st' = conversation_ids_by_owner_task st \<and>
     entries st' = entries st \<and> entry_ids st' = entry_ids st \<and> head_entry_ids st' = head_entry_ids st \<and>
     entry_commit_seqs st' = entry_commit_seqs st \<and> tasks st' = tasks st \<and> task_ids st' = task_ids st \<and>
     task_ids_by_status st' = task_ids_by_status st \<and> submissions st' = submissions st \<and>
     submission_ids st' = submission_ids st \<and> submission_ids_by_status st' = submission_ids_by_status st \<and>
     submission_ids_by_request st' = submission_ids_by_request st \<and> next_seq st' = next_seq st \<and>
     closed st' = closed st"

lemma same_records_trans: "same_records st st1 \<Longrightarrow> same_records st1 st2 \<Longrightarrow> same_records st st2"
  by (simp add: same_records_def)

lemma same_records_refl: "same_records st st"
  by (simp add: same_records_def)

lemma same_records_tables: "same_records st st' \<Longrightarrow> tables_ok st' = tables_ok st"
  by (simp add: same_records_def tables_ok_def)

text \<open>The current document of an address after an action.\<close>

definition current_after :: "mem_state \<Rightarrow> int \<Rightarrow> doc_action \<Rightarrow> doc_address \<Rightarrow> int option" where
  "current_after st i a key =
     (if key \<noteq> action_address st i a then current_at st key
      else if act_create a \<noteq> None \<and> \<not> act_retire a then Some i
      else if act_retire a \<and> current_at st key = Some i then None
      else current_at st key)"

lemma docs_indexed_create:
  assumes "docs_indexed b st" "documents st i = None" "doc_id (stored_record d) = i" "document_ok b d"
    and "documents st' = (documents st)(i \<mapsto> d)"
    and "\<And>key. address_ids st' key =
      (if key = record_address (stored_record d) then insert_sorted i (address_ids st key) else address_ids st key)"
    and "document_ids_by_scope st' = insert_map_id (doc_scope_of (stored_record d)) i (document_ids_by_scope st)"
  shows "docs_indexed b st'"
proof -
  note d = assms(1)[unfolded docs_indexed_def]
  have "indexes (address_ids st' key) (documents st') (\<lambda>d. record_address (stored_record d) = key)" for key
    using d assms(2) unfolding assms(5,6) by (auto intro: indexes_insert indexes_skip)
  moreover have "keyed (document_ids_by_scope st') (documents st') (\<lambda>d. Some (doc_scope_of (stored_record d)))"
    unfolding assms(5,7) by (rule keyed_insert) (use d assms(2) in auto)
  moreover have "id_matches (documents st') (\<lambda>d. doc_id (stored_record d))"
    unfolding assms(5) by (rule id_matches_upd) (use d assms(3) in auto)
  ultimately show ?thesis using d assms(4) unfolding docs_indexed_def assms(5) by simp
qed

lemma docs_indexed_replace:
  assumes "docs_indexed b st" "documents st i = Some d" "document_ok b d'"
    and "doc_id (stored_record d') = doc_id (stored_record d)"
    and "record_address (stored_record d') = record_address (stored_record d)"
    and "doc_scope_of (stored_record d') = doc_scope_of (stored_record d)"
    and "documents st' = (documents st)(i \<mapsto> d')"
    and "\<And>key. address_ids st' key = address_ids st key"
    and "document_ids_by_scope st' = document_ids_by_scope st"
  shows "docs_indexed b st'"
proof -
  note d = assms(1)[unfolded docs_indexed_def]
  have "indexes (address_ids st' key) (documents st') (\<lambda>d. record_address (stored_record d) = key)" for key
    unfolding assms(7,8) using d assms(2,5) by (auto intro: indexes_replace)
  moreover have "keyed (document_ids_by_scope st') (documents st') (\<lambda>d. Some (doc_scope_of (stored_record d)))"
    unfolding assms(7,9) keyed_def using d assms(2,6) by (auto simp: keyed_def intro: indexes_replace)
  moreover have "id_matches (documents st') (\<lambda>d. doc_id (stored_record d))"
    unfolding assms(7) by (rule id_matches_upd) (use d assms(2,4) in \<open>auto simp: id_matches_def\<close>)
  ultimately show ?thesis using d assms(3) unfolding docs_indexed_def assms(7) by simp
qed

lemma types_documents:
  assumes "types_ok st" "same_records st st'" "documents st' = (documents st)(i \<mapsto> d)"
    and "record_types st' = (record_types st)(i \<mapsto> DocumentTable)" "record_types st i \<in> {None, Some DocumentTable}"
    and "next_record_id st' \<ge> next_record_id st" "i < next_record_id st'"
  shows "types_ok st'"
proof -
  have other: "typed (record_types st') tab t" if "typed (record_types st) tab t" "t \<noteq> DocumentTable" for tab :: "int \<rightharpoonup> 'r" and t
    unfolding assms(4) by (rule typed_other) (use that assms(5) in auto)
  have "typed (record_types st') (documents st') DocumentTable"
    unfolding assms(3,4) using assms(1) by (intro typed_upd) (simp add: types_ok_def)
  moreover have "j < next_record_id st'" if "record_types st' j = Some t" for j t
    using that assms(1,4,6,7) by (cases "j = i") (fastforce simp: types_ok_def)+
  ultimately show ?thesis
    using assms(1,2) unfolding types_ok_def same_records_def by (auto intro: other)
qed

lemma address_present:
  assumes "docs_indexed b st" "documents st i = Some d"
  shows "\<exists>a. document_addresses st (record_address (stored_record d)) = Some a"
proof -
  have "i \<in> set (address_ids st (record_address (stored_record d)))"
    using assms by (auto simp: docs_indexed_def indexes_def)
  then show ?thesis by (cases "document_addresses st (record_address (stored_record d))") (auto simp: address_ids_def)
qed

lemma doc_scope_address: "record_address r = record_address s \<Longrightarrow> doc_scope_of r = doc_scope_of s"
  by (simp add: record_address_def)

definition action_done :: "int \<Rightarrow> mem_state \<Rightarrow> int \<Rightarrow> doc_action \<Rightarrow> mem_state \<Rightarrow> bool" where
  "action_done seq st i a st' \<longleftrightarrow>
     types_ok st' \<and> docs_indexed (seq + 1) st' \<and> same_records st st' \<and>
     documents st' = (documents st)(i \<mapsto> action_result seq st i a) \<and>
     (\<forall>j. j \<noteq> i \<longrightarrow> record_types st' j = record_types st j) \<and>
     (\<forall>key. current_at st' key = current_after st i a key)"

lemma apply_create_ok:
  assumes "types_ok st" "docs_indexed (seq + 1) st" "action_ready seq st i a" "act_create a = Some r"
  shows "\<exists>st'. apply_action seq (i, a) st = Inr st' \<and> action_done seq st i a st'"
proof -
  from assms(3,4) obtain v x where r: "doc_id r = i" "record_types st i = None" "act_content a = Some (CBase v x)"
    by (auto simp: action_ready_def)
  let ?d = "action_result seq st i a"
  have rec: "stored_record ?d = stamp r seq (if act_retire a then Some seq else None)"
    by (simp add: action_result_record assms(4))
  obtain st' where st': "apply_action seq (i, a) st = Inr st'" "same_records st st'"
    "documents st' = (documents st)(i \<mapsto> ?d)"
    "record_types st' = (record_types st)(i \<mapsto> DocumentTable)"
    "next_record_id st' = max (next_record_id st) (i + 1)"
    "document_ids_by_scope st' = insert_map_id (doc_scope_of r) i (document_ids_by_scope st)"
    "\<And>key. address_ids st' key =
      (if key = record_address r then insert_sorted i (address_ids st key) else address_ids st key)"
    "\<And>key. current_at st' key = current_after st i a key"
    using r(3) assms(4)
    by (simp add: apply_action_def write_document_def index_address_def bump_id_def Let_def action_result_def
        retire_document_def same_records_def address_ids_def current_at_def current_after_def action_address_def
        set_current_def split: option.splits)
  have none: "documents st i = None"
    using assms(1) r(2) typed_None unfolding types_ok_def by fastforce
  have "types_ok st'"
    by (rule types_documents[OF assms(1) st'(2,3,4)]) (use r st'(5) in auto)
  moreover have "docs_indexed (seq + 1) st'"
    by (rule docs_indexed_create[OF assms(2) none _ _ st'(3)])
      (use r rec st' action_result_ok[OF assms(3)] in auto)
  ultimately show ?thesis using st' by (auto simp: action_done_def)
qed


lemma apply_existing_ok:
  assumes "types_ok st" "docs_indexed (seq + 1) st" "action_ready seq st i a" "act_create a = None"
  shows "\<exists>st'. apply_action seq (i, a) st = Inr st' \<and> action_done seq st i a st'"
proof -
  from assms(3,4) obtain d where d: "documents st i = Some d" by (auto simp: action_ready_def)
  let ?d = "action_result seq st i a"
  let ?key = "record_address (stored_record d)"
  obtain address where address: "document_addresses st ?key = Some address"
    using address_present[OF assms(2) d] by blast
  have rec: "stored_record ?d = (if act_retire a then (stored_record d)\<lparr>retired_at := Some seq\<rparr> else stored_record d)"
    by (simp add: action_result_record assms(4) d)
  have same: "record_address (stored_record ?d) = ?key" "doc_id (stored_record ?d) = doc_id (stored_record d)"
    by (simp_all add: rec)
  have written: "\<exists>w. write_document seq i a st = Inr (Some w, st) \<and> retire_document seq a w = ?d"
    using assms(4) d by (simp add: write_document_def action_result_def Let_def split: option.splits)
  then obtain w where w: "write_document seq i a st = Inr (Some w, st)" "retire_document seq a w = ?d" by blast
  define st' where "st' = (let st1 = st\<lparr>documents := (documents st)(i \<mapsto> ?d)\<rparr> in
    if act_retire a then st1\<lparr>document_addresses := (document_addresses st)(?key \<mapsto> set_current i a address)\<rparr> else st1)"
  have st'1: "apply_action seq (i, a) st = Inr st'"
    by (simp add: apply_action_def w st'_def assms(4) address same(1) Let_def)
  have st'2: "same_records st st'" "documents st' = (documents st)(i \<mapsto> ?d)"
    "record_types st' = record_types st" "next_record_id st' = next_record_id st"
    "document_ids_by_scope st' = document_ids_by_scope st"
    by (simp_all add: st'_def same_records_def Let_def)
  have st'3: "address_ids st' key = address_ids st key" for key
    using address by (simp add: st'_def address_ids_def set_current_def Let_def)
  have st'4: "current_at st' key = current_after st i a key" for key
    using address assms(4) d
    by (auto simp: st'_def current_at_def current_after_def action_address_def set_current_def Let_def)
  note st' = st'1 st'2 st'3 st'4
  have "record_types st i = Some DocumentTable"
    using assms(1) d by (auto simp: types_ok_def typed_def)
  then have "i < next_record_id st" "(record_types st)(i \<mapsto> DocumentTable) = record_types st"
    using assms(1) by (auto simp: types_ok_def)
  then have "types_ok st'"
    using st'(4,5) \<open>record_types st i = _\<close> by (intro types_documents[OF assms(1) st'(2,3)]) auto
  moreover have "docs_indexed (seq + 1) st'"
    by (rule docs_indexed_replace[OF assms(2) d action_result_ok[OF assms(3)] same(2,1)
          doc_scope_address[OF same(1)] st'(3,7,6)])
  ultimately show ?thesis using st' by (auto simp: action_done_def)
qed

lemma apply_action_ok:
  "types_ok st \<Longrightarrow> docs_indexed (seq + 1) st \<Longrightarrow> action_ready seq st i a \<Longrightarrow>
     \<exists>st'. apply_action seq (i, a) st = Inr st' \<and> action_done seq st i a st'"
  using apply_create_ok apply_existing_ok by (cases "act_create a") blast+

section \<open>All document actions\<close>

text \<open>The ids that become current at an address, and the current one that is retired.\<close>

definition created_ids :: "mem_state \<Rightarrow> doc_actions \<Rightarrow> doc_address \<Rightarrow> int list" where
  "created_ids st actions key =
     map fst (filter (\<lambda>(i, a). act_create a \<noteq> None \<and> \<not> act_retire a \<and> action_address st i a = key) actions)"

definition retired_ids :: "mem_state \<Rightarrow> doc_actions \<Rightarrow> doc_address \<Rightarrow> int list" where
  "retired_ids st actions key =
     map fst (filter (\<lambda>(i, a). act_retire a \<and> action_address st i a = key \<and> current_at st key = Some i) actions)"

definition final_current :: "mem_state \<Rightarrow> doc_actions \<Rightarrow> doc_address \<Rightarrow> int option" where
  "final_current st actions key =
     (if created_ids st actions key \<noteq> [] then Some (last (created_ids st actions key))
      else if retired_ids st actions key \<noteq> [] then None
      else current_at st key)"

definition actions_done :: "int \<Rightarrow> mem_state \<Rightarrow> doc_actions \<Rightarrow> mem_state \<Rightarrow> bool" where
  "actions_done seq st acts st' \<longleftrightarrow>
     types_ok st' \<and> docs_indexed (seq + 1) st' \<and> same_records st st' \<and>
     (\<forall>i. documents st' i = (case map_of acts i of None \<Rightarrow> documents st i | Some a \<Rightarrow> Some (action_result seq st i a))) \<and>
     (\<forall>i. map_of acts i = None \<longrightarrow> record_types st' i = record_types st i) \<and>
     (\<forall>key. current_at st' key = final_current st acts key)"

lemma current_step:
  assumes "\<forall>k. current_at st' k = final_current st acts k" "i \<notin> fst ` set acts"
    and "action_address st' i a = action_address st i a"
    and "current_at st' (action_address st i a) = Some i \<longrightarrow> act_create a = None"
  shows "current_after st' i a key = final_current st (acts @ [(i, a)]) key"
proof (cases "action_address st i a = key")
  case True
  let ?c = "created_ids st acts key"
  have c: "?c \<noteq> [] \<Longrightarrow> last ?c \<noteq> i"
  proof
    assume "?c \<noteq> []" "last ?c = i"
    then have "i \<in> set ?c" using last_in_set by metis
    with assms(2) show False by (force simp: created_ids_def)
  qed
  show ?thesis using assms True c
    by (auto simp: current_after_def final_current_def created_ids_def retired_ids_def split: if_splits)
next
  case False
  with assms show ?thesis
    by (auto simp: current_after_def final_current_def created_ids_def retired_ids_def)
qed


lemma actions_done_step:
  assumes "actions_done seq st acts st1" "i \<notin> fst ` set acts" "action_ready seq st i a" "current_ok st"
    and "act_create a \<noteq> None \<longrightarrow> documents st i = None"
  shows "\<exists>st'. apply_action seq (i, a) st1 = Inr st' \<and> actions_done seq st (acts @ [(i, a)]) st'"
proof -
  have no: "map_of acts i = None" using assms(2) by (simp add: map_of_eq_None_iff)
  with assms(1) have same: "documents st1 i = documents st i" "record_types st1 i = record_types st i"
    by (auto simp: actions_done_def split: option.splits)
  have ready: "action_ready seq st1 i a" using assms(3) unfolding action_ready_def same .
  have res: "action_result seq st1 i a = action_result seq st i a" unfolding action_result_def same ..
  have addr: "action_address st1 i a = action_address st i a" unfolding action_address_def same ..
  have d: "types_ok st1" "docs_indexed (seq + 1) st1" using assms(1) by (simp_all add: actions_done_def)
  obtain st' where st': "apply_action seq (i, a) st1 = Inr st'" "action_done seq st1 i a st'"
    using apply_action_ok[OF d ready] by blast
  have fresh: "current_at st1 (action_address st i a) = Some i \<longrightarrow> act_create a = None"
  proof
    assume cur: "current_at st1 (action_address st i a) = Some i"
    have "i \<notin> set (created_ids st acts (action_address st i a))"
      using assms(2) by (force simp: created_ids_def)
    with cur assms(1) have "current_at st (action_address st i a) = Some i"
      unfolding actions_done_def final_current_def by (metis last_in_set option.distinct(1) option.inject)
    with assms(4,5) show "act_create a = None" by (auto simp: current_ok_def live_at_def)
  qed
  have "current_at st' key = final_current st (acts @ [(i, a)]) key" for key
    using st'(2) current_step[OF _ assms(2) addr fresh] assms(1)
    unfolding action_done_def actions_done_def by auto
  moreover have "documents st' j = (case map_of (acts @ [(i, a)]) j of
      None \<Rightarrow> documents st j | Some a \<Rightarrow> Some (action_result seq st j a))" for j
    using st'(2) assms(1) no by (auto simp: action_done_def actions_done_def res map_add_def split: option.splits)
  moreover have "\<forall>j. map_of (acts @ [(i, a)]) j = None \<longrightarrow> record_types st' j = record_types st j"
    using st'(2) assms(1) by (auto simp: action_done_def actions_done_def map_add_def split: option.splits if_splits)
  ultimately show ?thesis
    using st' assms(1) same_records_trans unfolding action_done_def actions_done_def by blast
qed

lemma actions_done_all:
  "actions_done seq st pre st1 \<Longrightarrow> distinct (map fst (pre @ acts)) \<Longrightarrow> current_ok st \<Longrightarrow>
   \<forall>(i, a) \<in> set acts. action_ready seq st i a \<and> (act_create a \<noteq> None \<longrightarrow> documents st i = None) \<Longrightarrow>
     \<exists>st'. apply_document_actions seq acts st1 = Inr st' \<and> actions_done seq st (pre @ acts) st'"
proof (induction acts arbitrary: pre st1)
  case Nil
  then show ?case by (simp add: apply_document_actions_def)
next
  case (Cons ia acts)
  obtain i a where ia: "ia = (i, a)" by force
  obtain st2 where st2: "apply_action seq (i, a) st1 = Inr st2" "actions_done seq st (pre @ [(i, a)]) st2"
    using actions_done_step[OF Cons.prems(1), of i a] Cons.prems ia by auto
  from Cons.IH[OF st2(2)] Cons.prems(2-4) ia obtain st' where
    "apply_document_actions seq acts st2 = Inr st'" "actions_done seq st (pre @ ia # acts) st'" by auto
  with st2(1) ia show ?case by (auto simp: apply_document_actions_def)
qed

lemma actions_done_refl:
  "types_ok st \<Longrightarrow> docs_indexed (seq + 1) st \<Longrightarrow> actions_done seq st [] st"
  by (simp add: actions_done_def same_records_refl final_current_def created_ids_def retired_ids_def)

section \<open>What the checks establish\<close>

definition live_count :: "mem_state \<Rightarrow> (doc_address \<times> int) list \<Rightarrow> doc_address \<Rightarrow> int" where
  "live_count st counts key =
     (case map_of counts key of Some n \<Rightarrow> n | None \<Rightarrow> if current_at st key = None then 0 else 1)"

lemma live_count_step:
  "live_count st (count_live st i a counts) key =
     live_count st counts key +
     int (length (created_ids st [(i, a)] key)) - int (length (retired_ids st [(i, a)] key))"
  by (auto simp: live_count_def count_live_def Let_def update_conv created_ids_def retired_ids_def)

lemma ids_Cons:
  "length (created_ids st (x # xs) key) = length (created_ids st [x] key) + length (created_ids st xs key)"
  "length (retired_ids st (x # xs) key) = length (retired_ids st [x] key) + length (retired_ids st xs key)"
  by (auto simp: created_ids_def retired_ids_def)

lemma check_actions_count:
  "check_actions st actions counts = Inr counts' \<Longrightarrow>
     live_count st counts' key = live_count st counts key +
       int (length (created_ids st actions key)) - int (length (retired_ids st actions key))"
proof (induction actions arbitrary: counts)
  case Nil
  then show ?case by (simp add: created_ids_def retired_ids_def)
next
  case (Cons ia actions)
  obtain i a where ia: "ia = (i, a)" by force
  with Cons have "live_count st counts' key = live_count st (count_live st i a counts) key +
      int (length (created_ids st actions key)) - int (length (retired_ids st actions key))"
    by (auto simp: res_simps)
  then show ?case using ids_Cons[of st ia actions key] by (simp add: live_count_step ia)
qed

lemma check_actions_each:
  "check_actions st actions counts = Inr counts' \<Longrightarrow> (i, a) \<in> set actions \<Longrightarrow> check_action st i a = Inr ()"
  by (induction st actions counts rule: check_actions.induct) (auto simp: res_simps)

lemma check_document_actions_count:
  assumes "check_document_actions st actions = Inr ()"
  shows "(if current_at st key = None then 0 else 1) + int (length (created_ids st actions key)) \<le>
    1 + int (length (retired_ids st actions key))"
proof -
  from assms obtain counts where c: "check_actions st actions [] = Inr counts" "\<forall>(k, n) \<in> set counts. n \<le> 1"
    by (fastforce simp: check_document_actions_def res_simps list_ex_iff not_less split: if_splits)
  have "live_count st counts key \<le> 1"
    using c(2) by (auto simp: live_count_def dest!: map_of_SomeD split: option.splits)
  with check_actions_count[OF c(1), of key] show ?thesis by (simp add: live_count_def)
qed

lemma check_document_actions_each:
  "check_document_actions st actions = Inr () \<Longrightarrow> (i, a) \<in> set actions \<Longrightarrow> check_action st i a = Inr ()"
  by (auto simp: check_document_actions_def res_simps intro: check_actions_each)

text \<open>The actions a commit prepares.\<close>

definition prepared :: "storage_write list \<Rightarrow> doc_actions \<Rightarrow> bool" where
  "prepared ws actions \<longleftrightarrow>
     distinct (map fst actions) \<and>
     (\<forall>i a r. (i, a) \<in> set actions \<longrightarrow> act_create a = Some r \<longrightarrow>
        doc_id r = i \<and> (\<exists>v x. act_content a = Some (CBase v x) \<and> WDocCreate r v x \<in> set ws))"

lemma prepared_update:
  assumes "prepared ws actions"
    and "\<And>r. act_create a = Some r \<Longrightarrow> doc_id r = i \<and> (\<exists>v x. act_content a = Some (CBase v x) \<and> WDocCreate r v x \<in> set ws)"
  shows "prepared ws (AList.update i a actions)"
proof -
  have "(j, b) \<in> set (AList.update i a actions) \<Longrightarrow> (j, b) \<in> set actions \<or> j = i \<and> b = a" for j b
    by (induction actions) (auto split: if_splits)
  with assms show ?thesis unfolding prepared_def by (metis distinct_update)
qed

lemma action_of_prepared:
  "prepared ws actions \<Longrightarrow> act_create (action_of actions i) = Some r \<Longrightarrow>
     doc_id r = i \<and> (\<exists>v x. act_content (action_of actions i) = Some (CBase v x) \<and> WDocCreate r v x \<in> set ws)"
  by (cases "map_of actions i") (auto simp: prepared_def action_of_def no_action_def dest!: map_of_SomeD)

lemma prepare_action_prepared:
  assumes "prepared ws actions" "w \<in> set ws" "prepare_action w actions = Inr actions'"
  shows "prepared ws actions'"
proof (cases w)
  case (WDocChange i content)
  have "act_create (action_of actions i) = None" if "act_content (action_of actions i) = None"
    using action_of_prepared[OF assms(1)] that by (cases "act_create (action_of actions i)") fastforce+
  with WDocChange assms show ?thesis by (auto simp: Let_def intro!: prepared_update split: if_splits)
qed (use assms in \<open>auto simp: Let_def intro!: prepared_update dest: action_of_prepared[OF assms(1)] split: if_splits\<close>)

lemma prepare_document_actions_prepared:
  "prepare_document_actions ws = Inr actions \<Longrightarrow> prepared ws actions"
  unfolding prepare_document_actions_def
  by (erule fold_res_invariant[where P = "prepared ws"])
    (simp_all add: prepared_def[of ws "[]"] prepare_action_prepared)



lemma action_is_ready:
  assumes "check_action st i a = Inr ()" "prepared ws actions" "(i, a) \<in> set actions"
    and "docs_indexed seq st" "documents st' = documents st"
    and "\<And>r v x. WDocCreate r v x \<in> set ws \<Longrightarrow> record_types st' (doc_id r) = None"
  shows "action_ready seq st' i a \<and> (act_create a \<noteq> None \<longrightarrow> documents st' i = None)"
proof (cases "act_create a")
  case (Some r)
  with assms(2,3) obtain v x where r: "doc_id r = i" "act_content a = Some (CBase v x)" "WDocCreate r v x \<in> set ws"
    unfolding prepared_def by blast
  from assms(6)[OF r(3)] r(1,2) Some have "action_ready seq st' i a" by (simp add: action_ready_def)
  moreover have "documents st' i = None"
    using assms(1,5) Some by (auto simp: check_action_def Let_def split: if_splits)
  ultimately show ?thesis by blast
next
  case None
  with assms(1) obtain d where d: "documents st i = Some d"
    by (cases "documents st i") (auto simp: check_action_def Let_def)
  with assms(1) None have "retired_at (stored_record d) = None"
    by (auto simp: check_action_def Let_def split: if_splits)
  moreover have "document_ok seq d" using assms(4) d by (simp add: docs_indexed_def)
  ultimately show ?thesis
    using assms(1,5) d None
    by (auto simp: action_ready_def check_action_def Let_def split: if_splits)
qed

section \<open>One current document at an address\<close>

lemma live_after:
  assumes "actions_done seq st acts st'" "distinct (map fst acts)"
    and "\<And>i a. (i, a) \<in> set acts \<Longrightarrow> action_ready seq st i a"
  shows "live_at st' key i \<longleftrightarrow>
    (case map_of acts i of
       None \<Rightarrow> live_at st key i
     | Some a \<Rightarrow> \<not> act_retire a \<and> action_address st i a = key)"
proof (cases "map_of acts i")
  case None
  with assms(1) show ?thesis by (simp add: actions_done_def live_at_def)
next
  case (Some a)
  with assms(3) have ready: "action_ready seq st i a" by (auto dest: map_of_SomeD)
  have "documents st' i = Some (action_result seq st i a)"
    using assms(1) Some by (simp add: actions_done_def)
  then show ?thesis
    using ready Some
    by (auto simp: live_at_def action_result_record action_ready_def action_address_def split: option.splits)
qed

lemma current_ok_after:
  assumes ok: "current_ok st" and fin: "actions_done seq st acts st'" and dist: "distinct (map fst acts)"
    and ready: "\<And>i a. (i, a) \<in> set acts \<Longrightarrow> action_ready seq st i a \<and> (act_create a \<noteq> None \<longrightarrow> documents st i = None)"
    and count: "\<And>key. (if current_at st key = None then 0 else 1) + length (created_ids st acts key) \<le>
      1 + length (retired_ids st acts key)"
  shows "current_ok st'"
  unfolding current_ok_def
proof (intro allI)
  fix key i
  let ?c = "created_ids st acts key" and ?r = "retired_ids st acts key"
  have cur: "current_at st' key = final_current st acts key" using fin by (simp add: actions_done_def)
  note live = live_after[OF fin dist, of key i]
  have in_c: "j \<in> set ?c \<longleftrightarrow> (\<exists>a. map_of acts j = Some a \<and> act_create a \<noteq> None \<and> \<not> act_retire a \<and> action_address st j a = key)" for j
    by (force simp: created_ids_def map_of_eq_Some_iff[OF dist])
  have in_r: "j \<in> set ?r \<longleftrightarrow> (\<exists>a. map_of acts j = Some a \<and> act_retire a \<and> action_address st j a = key \<and> current_at st key = Some j)" for j
    by (force simp: retired_ids_def map_of_eq_Some_iff[OF dist])
  have "distinct ?r" using dist unfolding retired_ids_def by (rule distinct_map_filter)
  moreover have r_sub: "set ?r \<subseteq> set_option (current_at st key)" by (auto simp: in_r)
  ultimately have r1: "length ?r \<le> 1"
    by (cases ?r; cases "current_at st key") (auto simp: subset_singleton_iff)
  have kept: "map_of acts i = Some a \<Longrightarrow> act_create a = None \<Longrightarrow>
      live_at st key i \<longleftrightarrow> action_address st i a = key" for a
    using ready[OF map_of_SomeD, of i a] by (auto simp: live_at_def action_ready_def action_address_def)
  have old: "map_of acts i = Some a \<Longrightarrow> act_create a \<noteq> None \<Longrightarrow> \<not> live_at st key i" for a
    using ready[of i a] by (auto simp: live_at_def dest: map_of_SomeD)
  have was: "current_at st key = Some i \<longleftrightarrow> live_at st key i" using ok by (simp add: current_ok_def)
  have live': "live_at st' key i \<longleftrightarrow> i \<in> set ?c \<or> (live_at st key i \<and> i \<notin> set ?r)"
  proof (cases "map_of acts i")
    case None
    with live ready show ?thesis by (auto simp: in_c in_r)
  next
    case (Some a)
    with live ready kept[OF Some] old[OF Some] was show ?thesis by (cases "act_create a") (auto simp: in_c in_r)
  qed
  show "current_at st' key = Some i \<longleftrightarrow> live_at st' key i"
  proof (cases ?c)
    case Nil
    then have c: "current_at st' key = (if ?r = [] then current_at st key else None)"
      by (simp add: cur final_current_def)
    show ?thesis
    proof (cases "?r = []")
      case True
      with c Nil live' was show ?thesis by simp
    next
      case False
      then have "hd ?r \<in> set ?r" by simp
      with r_sub have "current_at st key = Some i \<longrightarrow> i \<in> set ?r" by auto
      with c Nil live' was False show ?thesis by simp
    qed
  next
    case (Cons j js)
    have "current_at st key = None \<longrightarrow> ?r = []" using r_sub by auto
    with count[of key] r1 Cons have js: "js = []" "current_at st key \<noteq> None \<longrightarrow> hd ?r \<in> set ?r"
      by (cases js; cases ?r; auto split: if_splits)+
    with r_sub have "current_at st key = Some i \<longrightarrow> i \<in> set ?r" by auto
    with was live' Cons js(1) have "live_at st' key i \<longleftrightarrow> i = j" by auto
    with Cons js(1) show ?thesis by (auto simp: cur final_current_def)
  qed
qed

section \<open>The commit\<close>

lemma prepare_commit_parts:
  assumes "prepare_commit st writes seq = Inr (ds, actions)"
  shows "\<not> closed st \<and> is_safe_integer seq \<and> next_seq st \<le> seq \<and>
    resolve_document_copies st writes = Inr ds \<and> check_global_ids st ds = Inr () \<and>
    prepare_document_actions ds = Inr actions \<and> check_document_actions st actions = Inr ()"
  using assms by (auto simp: prepare_commit_def assert_open_def res_simps split: if_splits)

lemma same_immutable: "same_records st st' \<Longrightarrow> keeps_immutable st st'"
  by (simp add: same_records_def keeps_immutable_def)

definition applied :: "mem_state \<Rightarrow> int \<Rightarrow> doc_actions \<Rightarrow> mem_state \<Rightarrow> bool" where
  "applied st seq actions st' \<longleftrightarrow>
     storage_ok st' \<and> keeps_immutable st st' \<and> next_seq st' = seq + 1 \<and>
     (\<forall>i. documents st' i = (case map_of actions i of None \<Rightarrow> documents st i | Some a \<Rightarrow> Some (action_result seq st i a)))"

lemma apply_prepared_ok:
  assumes ok: "storage_ok st" and prep: "prepare_commit st writes seq = Inr (ds, actions)"
  shows "\<exists>st'. apply_prepared_commit seq ds actions st = Inr st' \<and> applied st seq actions st'"
proof -
  note p = prepare_commit_parts[OF prep]
  have st: "types_ok st" "tables_ok st" "docs_indexed (next_seq st) st" "current_ok st"
    using ok by (simp_all add: storage_ok_def)
  have nc: "\<forall>w \<in> set ds. \<not> is_copy w" using p resolved_no_copy by blast
  have "check_ids (record_types st) Map.empty ds = Inr ()" using p by (simp add: check_global_ids_def)
  moreover have "record_types st = claimed_types (record_types st) Map.empty"
    by (simp add: claimed_types_def fun_eq_iff)
  ultimately obtain st1 where
    st1: "fold_res (apply_write seq) ds st = Inr st1" "types_ok st1" "tables_ok st1" "same_documents st st1"
      "keeps_immutable st st1" "\<And>r v x. WDocCreate r v x \<in> set ds \<Longrightarrow> record_types st1 (doc_id r) = None"
    using apply_writes_ok[OF _ nc st(1,2), of "record_types st" Map.empty seq] by blast
  have prepd: "prepared ds actions" using p prepare_document_actions_prepared by blast
  have docs: "documents st1 = documents st" using st1(4) by (simp add: same_documents_def)
  have seq: "docs_indexed seq st" using docs_indexed_mono[OF st(3)] p by blast
  have ready: "action_ready seq st1 i a \<and> (act_create a \<noteq> None \<longrightarrow> documents st1 i = None)"
    if "(i, a) \<in> set actions" for i a
    by (rule action_is_ready[OF _ prepd that seq docs st1(6)])
      (use p that check_document_actions_each in blast)
  have idx: "docs_indexed (seq + 1) st1" using docs_indexed_mono[OF seq] docs_same[OF st1(4)] by simp
  have cur: "current_ok st1" using st(4) current_same[OF st1(4)] by (simp add: current_ok_def)
  have dist: "distinct (map fst actions)" using prepd by (simp add: prepared_def)
  from actions_done_all[OF actions_done_refl[OF st1(2) idx] _ cur, of actions] dist ready
  obtain st2 where st2: "apply_document_actions seq actions st1 = Inr st2" "actions_done seq st1 actions st2"
    by auto
  have addr: "action_address st1 = action_address st" "current_at st1 = current_at st"
    by (auto simp: action_address_def docs fun_eq_iff current_same[OF st1(4)] split: option.split)
  have "current_ok st2"
  proof (rule current_ok_after[OF cur st2(2) dist ready])
    fix key
    have "check_document_actions st actions = Inr ()" using p by blast
    from check_document_actions_count[OF this, of key]
    show "(if current_at st1 key = None then 0 else 1) + length (created_ids st1 actions key) \<le>
        1 + length (retired_ids st1 actions key)"
      unfolding created_ids_def retired_ids_def addr by (auto split: if_splits)
  qed
  moreover have "types_ok st2" "docs_indexed (seq + 1) st2" "same_records st1 st2"
    using st2(2) by (simp_all add: actions_done_def)
  ultimately have "storage_ok (st2\<lparr>next_seq := seq + 1\<rparr>)"
    using st1(3) same_records_tables
    by (auto simp: storage_ok_def types_ok_def tables_ok_def docs_indexed_def current_ok_def address_ids_def
        current_at_def live_at_def)
  moreover have "keeps_immutable st (st2\<lparr>next_seq := seq + 1\<rparr>)"
    using keeps_immutable_trans[OF st1(5) same_immutable[OF \<open>same_records st1 st2\<close>]]
    by (simp add: keeps_immutable_def)
  moreover have "action_result seq st1 j a = action_result seq st j a" for j a
    unfolding action_result_def docs by (rule refl)
  ultimately show ?thesis
    using st1(1) st2 docs
    by (auto simp: apply_prepared_commit_def applied_def actions_done_def split: option.splits)
qed


end
