(* ===== verification/Memory_Scans.thy ===== *)
theory Memory_Scans
  imports Memory_Commit
begin

text \<open>
  The scans of \<open>MemoryStorage\<close>: the pages of a scan, followed by their cursors, list the
  matching records of the table, each once and in the order of their ids. Every scan is an
  interpretation of \<open>paged\<close>.
\<close>

declare all_pages.simps [simp del]

section \<open>Listings\<close>

definition ordered :: "scan_order \<Rightarrow> int list \<Rightarrow> bool" where
  "ordered order ids \<longleftrightarrow> strict_sorted (case order of Ascending \<Rightarrow> ids | Descending \<Rightarrow> rev ids)"

definition lists_table :: "scan_order \<Rightarrow> ('r \<Rightarrow> int) \<Rightarrow> (int \<rightharpoonup> 'r) \<Rightarrow> ('r \<Rightarrow> bool) \<Rightarrow> 'r list \<Rightarrow> bool" where
  "lists_table order id_of tab P items \<longleftrightarrow>
     ordered order (map id_of items) \<and> set items = {r \<in> ran tab. P r}"

lemma picked_records:
  "\<forall>i \<in> set is. tab i \<noteq> None \<Longrightarrow> picked (pick_record tab keep) is = filter keep (map (\<lambda>i. the (tab i)) is)"
  by (induction "is") (auto simp: pick_record_def)

lemma map_id_picked:
  "\<forall>i \<in> set is. tab i \<noteq> None \<Longrightarrow> id_matches tab id_of \<Longrightarrow>
     map id_of (filter keep (map (\<lambda>i. the (tab i)) is)) = filter (\<lambda>i. keep (the (tab i))) is"
  by (induction "is") (auto simp: id_matches_def)

lemma scanned_first:
  "strict_sorted ids \<Longrightarrow> scanned_ids ids (scan_position order None) = (case order of Ascending \<Rightarrow> ids | Descending \<Rightarrow> rev ids)"
  by (simp add: scanned_ids_eq scan_position_def split: scan_order.splits)

lemma lists_table_picked:
  assumes "indexes ids tab P" "id_matches tab id_of"
  shows "lists_table order id_of tab (\<lambda>r. P r \<and> keep r)
    (picked (pick_record tab keep) (scanned_ids ids (scan_position order None)))"
proof -
  let ?is = "case order of Ascending \<Rightarrow> ids | Descending \<Rightarrow> rev ids"
  have ids: "strict_sorted ids" "set ids = {i. \<exists>r. tab i = Some r \<and> P r}" using assms(1) by (auto simp: indexes_def)
  have "set ?is = set ids" by (cases order) auto
  with ids have some: "\<forall>i \<in> set ?is. tab i \<noteq> None" by auto
  have "ordered order (filter (\<lambda>i. keep (the (tab i))) ?is)"
    using ids(1) by (cases order) (auto simp: ordered_def rev_filter intro: sorted_wrt_filter)
  moreover have "set (filter keep (map (\<lambda>i. the (tab i)) ?is)) = {r \<in> ran tab. P r \<and> keep r}"
    using ids(2) \<open>set ?is = set ids\<close> by (force simp: ran_def image_iff)
  ultimately show ?thesis
    unfolding lists_table_def scanned_first[OF ids(1)] picked_records[OF some] map_id_picked[OF some assms(2)] by blast
qed

text \<open>The premises of the law of a page, from the invariant of an index.\<close>

lemma pick_record_present: "indexes ids tab P \<Longrightarrow> i \<in> set ids \<Longrightarrow> \<exists>r. pick_record tab keep i = Inr r"
  by (auto simp: indexes_def pick_record_def)

lemma pick_record_id: "id_matches tab id_of \<Longrightarrow> pick_record tab keep i = Inr (Some v) \<Longrightarrow> id_of v = i"
  by (auto simp: id_matches_def pick_record_def split: option.splits if_splits)

lemma table_page_law:
  assumes "indexes ids tab P" "id_matches tab id_of" "0 < limit"
  shows "\<exists>items next. page_result (scan_page (pick_record tab keep) id_of ids limit (scan_position order c)) = Inr (items, next) \<and>
      (case next of
         None \<Rightarrow> picked (pick_record tab keep) (scanned_ids ids (scan_position order c)) = items
       | Some d \<Rightarrow> picked (pick_record tab keep) (scanned_ids ids (scan_position order c)) =
             items @ picked (pick_record tab keep) (scanned_ids ids (scan_position order (Some d))) \<and>
           items \<noteq> [] \<and> cursor_in order (Some d))"
  using assms by (intro scan_page_law) (auto simp: indexes_def intro: pick_record_id pick_record_present)

text \<open>A request of a scan: the query's order or the default one at first, then the cursor's.\<close>

definition order_of :: "scan_order option \<Rightarrow> scan_order" where
  "order_of requested = (case requested of None \<Rightarrow> Ascending | Some order \<Rightarrow> order)"

definition request_ok :: "scan_order option \<Rightarrow> cursor option \<Rightarrow> bool" where
  "request_ok requested c \<longleftrightarrow> cursor_in (order_of requested) c"

lemma request_start:
  "request_ok requested c \<Longrightarrow> scan_start requested c Ascending = Inr (scan_position (order_of requested) c)"
  unfolding request_ok_def by (rule scan_start_position) (auto simp: order_of_def split: option.splits)

definition readable :: "mem_state \<Rightarrow> nat \<Rightarrow> bool" where
  "readable st limit \<longleftrightarrow> \<not> closed st \<and> storage_ok st \<and> 0 < limit"

lemma readable_open: "readable st limit \<Longrightarrow> assert_open st = Inr ()"
  by (simp add: readable_def assert_open_def)

definition rest_of :: "(int \<rightharpoonup> 'v) \<Rightarrow> ('v \<Rightarrow> bool) \<Rightarrow> int list \<Rightarrow> scan_order \<Rightarrow> cursor option \<Rightarrow> 'v list" where
  "rest_of tab keep ids order c = picked (pick_record tab keep) (scanned_ids ids (scan_position order c))"

lemma request_page_law:
  assumes "indexes ids tab P" "id_matches tab id_of" "readable st limit" "request_ok requested c"
    and "run = scan_page (pick_record tab keep) id_of ids limit (scan_position (order_of requested) c)"
  shows "\<exists>items next. page_result run = Inr (items, next) \<and>
      (case next of
         None \<Rightarrow> rest_of tab keep ids (order_of requested) c = items
       | Some d \<Rightarrow> rest_of tab keep ids (order_of requested) c =
             items @ rest_of tab keep ids (order_of requested) (Some d) \<and> items \<noteq> [] \<and>
           readable st limit \<and> request_ok requested (Some d))"
proof -
  have "0 < limit" using assms(3) by (simp add: readable_def)
  from table_page_law[OF assms(1,2) this, of keep "order_of requested" c] obtain items r where
    "page_result run = Inr (items, r)"
    "case r of None \<Rightarrow> rest_of tab keep ids (order_of requested) c = items
     | Some d \<Rightarrow> rest_of tab keep ids (order_of requested) c =
         items @ rest_of tab keep ids (order_of requested) (Some d) \<and> items \<noteq> [] \<and> cursor_in (order_of requested) (Some d)"
    unfolding assms(5) rest_of_def by blast
  then show ?thesis
    using assms(3) by (intro exI[of _ items] exI[of _ r]) (auto simp: request_ok_def split: option.splits)
qed

text \<open>The whole of a scan, once its pages are known to be complete.\<close>

lemma listing_complete:
  assumes "all_pages run (Suc (length (rest_of tab keep ids order None))) None = Some (Inr (rest_of tab keep ids order None))"
    and "indexes ids tab P" "id_matches tab id_of"
  shows "\<exists>items. all_pages run (Suc (length items)) None = Some (Inr items) \<and>
    lists_table order id_of tab (\<lambda>r. P r \<and> keep r) items"
  using assms(1) lists_table_picked[OF assms(2,3), of order keep] unfolding rest_of_def by blast

lemma request_first: "request_ok requested None"
  by (simp add: request_ok_def cursor_in_def)

section \<open>Tasks\<close>

lemma task_index:
  "storage_ok st \<Longrightarrow> indexes (task_scan_ids st q) (tasks st) (\<lambda>r. matches_opt (tq_status q) (status_of (task_state_of r)))"
  "storage_ok st \<Longrightarrow> id_matches (tasks st) task_id"
  by (auto simp: storage_ok_def tables_ok_def task_scan_ids_def by_status_ok_def matches_opt_def split: option.splits)

interpretation task_pages: paged
  "\<lambda>(st, q, limit) c. readable st limit \<and> request_ok (tq_order q) c"
  "\<lambda>(st, q, limit) c. rest_of (tasks st) (task_keep q) (task_scan_ids st q) (order_of (tq_order q)) c"
  "\<lambda>(st, q, limit) c. page_result (scan_tasks st q limit c)"
proof (unfold_locales, clarify, rule request_page_law)
  fix st :: mem_state and q :: task_query and limit :: nat and c
  assume r: "readable st limit" and c: "request_ok (tq_order q) c"
  then show "scan_tasks st q limit c = scan_page (pick_record (tasks st) (task_keep q)) task_id (task_scan_ids st q)
      limit (scan_position (order_of (tq_order q)) c)"
    by (simp add: scan_tasks_def readable_open[OF r] request_start[OF c])
qed (auto simp: readable_def intro: task_index)

section \<open>Submissions\<close>

lemma submission_index:
  "storage_ok st \<Longrightarrow> indexes (submission_scan_ids st q) (submissions st) (\<lambda>r. matches_opt (sq_status q) (sub_status r))"
  "storage_ok st \<Longrightarrow> id_matches (submissions st) sub_id"
  by (auto simp: storage_ok_def tables_ok_def submission_scan_ids_def by_status_ok_def matches_opt_def split: option.splits)

interpretation submission_pages: paged
  "\<lambda>(st, q, limit) c. readable st limit \<and> request_ok (sq_order q) c"
  "\<lambda>(st, q, limit) c. rest_of (submissions st) (submission_keep q) (submission_scan_ids st q) (order_of (sq_order q)) c"
  "\<lambda>(st, q, limit) c. page_result (scan_submissions st q limit c)"
proof (unfold_locales, clarify, rule request_page_law)
  fix st :: mem_state and q :: submission_query and limit :: nat and c
  assume r: "readable st limit" and c: "request_ok (sq_order q) c"
  then show "scan_submissions st q limit c = scan_page (pick_record (submissions st) (submission_keep q)) sub_id
      (submission_scan_ids st q) limit (scan_position (order_of (sq_order q)) c)"
    by (simp add: scan_submissions_def readable_open[OF r] request_start[OF c])
qed (auto simp: readable_def intro: submission_index)

lemma submission_scan_complete:
  assumes "storage_ok st" "\<not> closed st" "0 < limit"
  shows "\<exists>items. all_pages (\<lambda>c. page_result (scan_submissions st q limit c)) (Suc (length items)) None = Some (Inr items) \<and>
    lists_table (order_of (sq_order q)) sub_id (submissions st)
      (\<lambda>r. matches_opt (sq_status q) (sub_status r) \<and> submission_keep q r) items"
  using submission_pages.all_pages_complete[of "(st, q, limit)" None] assms
  by (intro listing_complete[OF _ submission_index]) (auto simp: readable_def request_first)

section \<open>Conversations\<close>

definition conversation_owned :: "conversation_query \<Rightarrow> conversation_record \<Rightarrow> bool" where
  "conversation_owned q r \<longleftrightarrow>
     (case cq_owner_task q of
        Some t \<Rightarrow> map_option snd (conv_owner r) = Some t
      | None \<Rightarrow> (case cq_owner_conv q of None \<Rightarrow> True | Some c \<Rightarrow> map_option fst (conv_owner r) = Some c))"

lemma conversation_index:
  "storage_ok st \<Longrightarrow> indexes (conversation_scan_ids st q) (conversations st) (conversation_owned q)"
  "storage_ok st \<Longrightarrow> id_matches (conversations st) conv_id"
  by (auto simp: storage_ok_def tables_ok_def conversation_scan_ids_def conversation_owned_def keyed_def indexes_def
      split: option.splits)

interpretation conversation_pages: paged
  "\<lambda>(st, q, limit) c. readable st limit \<and> request_ok (cq_order q) c"
  "\<lambda>(st, q, limit) c. rest_of (conversations st) (conversation_keep q) (conversation_scan_ids st q) (order_of (cq_order q)) c"
  "\<lambda>(st, q, limit) c. page_result (scan_conversations st q limit c)"
proof (unfold_locales, clarify, rule request_page_law)
  fix st :: mem_state and q :: conversation_query and limit :: nat and c
  assume r: "readable st limit" and c: "request_ok (cq_order q) c"
  then show "scan_conversations st q limit c = scan_page (pick_record (conversations st) (conversation_keep q)) conv_id
      (conversation_scan_ids st q) limit (scan_position (order_of (cq_order q)) c)"
    by (simp add: scan_conversations_def readable_open[OF r] request_start[OF c])
qed (auto simp: readable_def intro: conversation_index)

lemma conversation_scan_complete:
  assumes "storage_ok st" "\<not> closed st" "0 < limit"
  shows "\<exists>items. all_pages (\<lambda>c. page_result (scan_conversations st q limit c)) (Suc (length items)) None = Some (Inr items) \<and>
    lists_table (order_of (cq_order q)) conv_id (conversations st)
      (\<lambda>r. conversation_owned q r \<and> conversation_keep q r) items"
  using conversation_pages.all_pages_complete[of "(st, q, limit)" None] assms
  by (intro listing_complete[OF _ conversation_index]) (auto simp: readable_def request_first)

section \<open>Documents\<close>

definition doc_table :: "mem_state \<Rightarrow> int \<rightharpoonup> doc_record" where
  "doc_table st i = map_option stored_record (documents st i)"

lemma document_index:
  "storage_ok st \<Longrightarrow> indexes (ids_at (document_ids_by_scope st) s) (doc_table st) (\<lambda>r. doc_scope_of r = s)"
  "storage_ok st \<Longrightarrow> id_matches (doc_table st) doc_id"
  by (auto simp: storage_ok_def docs_indexed_def keyed_def indexes_def id_matches_def doc_table_def)

interpretation document_pages: paged
  "\<lambda>(st, q, limit) c. readable st limit \<and> request_ok None c"
  "\<lambda>(st, q, limit) c. rest_of (doc_table st) (document_keep q) (ids_at (document_ids_by_scope st) (dq_scope q)) (order_of None) c"
  "\<lambda>(st, q, limit) c. page_result (scan_documents st q limit c)"
proof (unfold_locales, clarify, rule request_page_law)
  fix st :: mem_state and q :: document_query and limit :: nat and c
  assume r: "readable st limit"
  then show "scan_documents st q limit c = scan_page (pick_record (doc_table st) (document_keep q)) doc_id
      (ids_at (document_ids_by_scope st) (dq_scope q)) limit (scan_position (order_of None) c)"
    by (simp add: scan_documents_def readable_open[OF r] order_of_def doc_table_def[abs_def])
qed (auto simp: readable_def intro: document_index)

lemma document_scan_complete:
  assumes "storage_ok st" "\<not> closed st" "0 < limit"
  shows "\<exists>items. all_pages (\<lambda>c. page_result (scan_documents st q limit c)) (Suc (length items)) None = Some (Inr items) \<and>
    lists_table Ascending doc_id (doc_table st) (\<lambda>r. doc_scope_of r = dq_scope q \<and> document_keep q r) items"
  using document_pages.all_pages_complete[of "(st, q, limit)" None] assms
  by (intro listing_complete[OF _ document_index]) (auto simp: readable_def request_first order_of_def)

end
