(* ===== verification/Memory_Log.thy ===== *)
theory Memory_Log
  imports Memory_Commit
begin

text \<open>
  A stored document against its abstract meaning: the log of its revisions, replayed from the
  first one. \<open>materializeDocument\<close> starts at the last base instead, checks versions on the
  way, and is equal to the replay of the whole log as long as the storage invariant holds.
\<close>

section \<open>The replay of a log\<close>

type_synonym replayed = "(int \<times> json \<times> nat) option"

text \<open>The version, the value and the number of deltas since the base; \<open>None\<close> when a delta failed.\<close>

fun log_step :: "revision \<Rightarrow> replayed \<Rightarrow> replayed" where
  "log_step r s =
     (case rev_content r of
        CBase v x \<Rightarrow> Some (v, x, 0)
      | CDelta w ops \<Rightarrow>
          (case s of
             None \<Rightarrow> None
           | Some (v, x, n) \<Rightarrow>
               (case apply_ops (Some x) ops of Inr (Some y) \<Rightarrow> Some (v, y, Suc n) | _ \<Rightarrow> None)))"

definition replay_log :: "revision list \<Rightarrow> replayed" where
  "replay_log rs = fold log_step rs None"

lemma replay_log_snoc: "replay_log (rs @ [r]) = log_step r (replay_log rs)"
  by (simp add: replay_log_def)

declare log_step.simps [simp del]

lemma log_step_base [simp]: "rev_content r = CBase v x \<Longrightarrow> log_step r s = Some (v, x, 0)"
  by (simp add: log_step.simps)

lemma log_step_none [simp]: "rev_content r = CDelta w ops \<Longrightarrow> log_step r None = None"
  by (simp add: log_step.simps)

lemma log_step_delta [simp]:
  "rev_content r = CDelta w ops \<Longrightarrow> apply_ops (Some x) ops = Inr (Some y) \<Longrightarrow> log_step r (Some (v, x, n)) = Some (v, y, Suc n)"
  "rev_content r = CDelta w ops \<Longrightarrow> apply_ops (Some x) ops = Inr None \<Longrightarrow> log_step r (Some (v, x, n)) = None"
  "rev_content r = CDelta w ops \<Longrightarrow> apply_ops (Some x) ops = Inl e \<Longrightarrow> log_step r (Some (v, x, n)) = None"
  by (simp_all add: log_step.simps)

lemma apply_cases:
  obtains e where "apply_ops s ops = Inl e" | "apply_ops s ops = Inr None" | y where "apply_ops s ops = Inr (Some y)"
proof (cases "apply_ops s ops")
  case (Inr y)
  then show thesis by (cases y) (use that in blast)+
qed (rule that)

lemma fold_deltas_None: "\<forall>r \<in> set rs. \<not> is_base_content (rev_content r) \<Longrightarrow> fold log_step rs None = None"
proof (induction rs)
  case (Cons r rs)
  then show ?case by (cases "rev_content r") auto
qed simp

lemma replay_deltas_log:
  "\<forall>r \<in> set rs. \<not> is_base_content (rev_content r) \<and> content_version (rev_content r) = v \<Longrightarrow>
     replay_deltas i v rs x =
       (case fold log_step rs (Some (v, x, n)) of None \<Rightarrow> Inl (DeltaFailed i) | Some (_, y, _) \<Rightarrow> Inr y)"
proof (induction rs arbitrary: x n)
  case (Cons r rs)
  then obtain ops where r: "rev_content r = CDelta v ops" by (cases "rev_content r") auto
  show ?case
    by (cases "Some x" ops rule: apply_cases) (use r Cons in \<open>auto simp: fold_deltas_None\<close>)
qed simp

lemma fold_deltas_count:
  "\<forall>r \<in> set rs. \<not> is_base_content (rev_content r) \<Longrightarrow> fold log_step rs (Some (v, x, n)) = Some (w, y, m) \<Longrightarrow>
     w = v \<and> m = n + length rs"
proof (induction rs arbitrary: x n)
  case (Cons r rs)
  then obtain u ops where r: "rev_content r = CDelta u ops" by (cases "rev_content r") auto
  show ?case
    by (cases "Some x" ops rule: apply_cases) (use r Cons in \<open>fastforce simp: fold_deltas_None\<close>)+
qed simp

lemma split_last_base_Some:
  "split_last_base rs = Some (b, rest) \<Longrightarrow>
     \<exists>pre. rs = pre @ b # rest \<and> is_base_content (rev_content b) \<and> (\<forall>r \<in> set rest. \<not> is_base_content (rev_content r))"
proof (induction rs arbitrary: b rest)
  case (Cons r rs)
  show ?case
  proof (cases "split_last_base rs")
    case None
    have "split_last_base qs = None \<Longrightarrow> \<forall>q \<in> set qs. \<not> is_base_content (rev_content q)" for qs
      by (induction qs) (auto split: option.splits if_splits)
    with None Cons.prems show ?thesis by (intro exI[of _ "[]"]) (auto split: if_splits)
  next
    case (Some p)
    with Cons.prems Cons.IH[of b rest] obtain pre where
      "rs = pre @ b # rest" "is_base_content (rev_content b)" "\<forall>r \<in> set rest. \<not> is_base_content (rev_content r)" by auto
    then show ?thesis by (intro exI[of _ "r # pre"]) simp
  qed
qed simp

lemma split_last_base_exists: "b \<in> set rs \<Longrightarrow> is_base_content (rev_content b) \<Longrightarrow> split_last_base rs \<noteq> None"
  by (induction rs) (auto split: option.splits)

lemma versions_ok_append: "versions_ok (xs @ ys) \<Longrightarrow> versions_ok ys"
proof (induction xs)
  case (Cons x xs)
  then show ?case by (cases "xs @ ys") auto
qed simp

lemma versions_ok_deltas:
  "versions_ok (b # rest) \<Longrightarrow> \<forall>r \<in> set rest. \<not> is_base_content (rev_content r) \<Longrightarrow>
     \<forall>r \<in> set rest. content_version (rev_content r) = content_version (rev_content b)"
proof (induction rest arbitrary: b)
  case (Cons r rest)
  then show ?case by auto
qed simp

text \<open>Reading from the last base is replaying everything.\<close>

lemma materialize_revisions:
  assumes "revisions_ok rs"
  shows "\<exists>b v x rest. split_last_base rs = Some (b, rest) \<and> rev_content b = CBase v x \<and>
    bind_res (replay_deltas i v rest x) (\<lambda>y. Inr (v, y, length rest)) =
      (case replay_log rs of None \<Rightarrow> Inl (DeltaFailed i) | Some s \<Rightarrow> Inr s)"
proof -
  from assms have hd: "hd rs \<in> set rs" "is_base_content (rev_content (hd rs))" "versions_ok rs"
    by (auto simp: revisions_ok_def)
  then obtain b rest where split: "split_last_base rs = Some (b, rest)" using split_last_base_exists by fastforce
  from split_last_base_Some[OF this] obtain pre where rs: "rs = pre @ b # rest" "is_base_content (rev_content b)"
    "\<forall>r \<in> set rest. \<not> is_base_content (rev_content r)" by blast
  then obtain v x where b: "rev_content b = CBase v x" by (cases "rev_content b") auto
  have vs: "\<forall>r \<in> set rest. \<not> is_base_content (rev_content r) \<and> content_version (rev_content r) = v"
    using versions_ok_deltas[OF versions_ok_append[of pre] rs(3)] hd(3) rs b by auto
  have log: "replay_log rs = fold log_step rest (Some (v, x, 0))" by (simp add: replay_log_def rs(1) b)
  have "bind_res (replay_deltas i v rest x) (\<lambda>y. Inr (v, y, length rest)) =
      (case replay_log rs of None \<Rightarrow> Inl (DeltaFailed i) | Some s \<Rightarrow> Inr s)"
    using fold_deltas_count[OF rs(3), of v x 0]
    by (auto simp: replay_deltas_log[OF vs, of i x 0] log split: option.splits)
  with split b show ?thesis by blast
qed

section \<open>What a point in time sees\<close>

definition revisions_at :: "stored_state \<Rightarrow> doc_point \<Rightarrow> revision list" where
  "revisions_at d at =
     (case at of Current \<Rightarrow> stored_revisions d
      | AsOf s \<Rightarrow> filter (\<lambda>r. rev_seq r \<le> s) (stored_revisions d))"

lemma filter_prefix:
  assumes "sorted_wrt (<) (map rev_seq rs)"
  shows "filter (\<lambda>r. rev_seq r \<le> s) rs = takeWhile (\<lambda>r. rev_seq r \<le> s) rs"
  using assms
proof (induction rs)
  case (Cons r rs)
  have "q \<in> set rs \<Longrightarrow> rev_seq r < rev_seq q" for q using Cons.prems by simp
  then have "rev_seq r \<le> s \<or> filter (\<lambda>r. rev_seq r \<le> s) rs = []" unfolding filter_empty_conv by force
  with Cons show ?case by (cases "rev_seq r \<le> s") simp_all
qed simp

lemma versions_ok_prefix: "versions_ok (xs @ ys) \<Longrightarrow> versions_ok xs"
  by (induction xs rule: versions_ok.induct) auto

lemma revisions_at_ok:
  assumes "document_ok bound d" "is_alive_at (stored_record d) at"
    and "at = Current \<or> \<not> is_current_only (stored_record d)"
  shows "revisions_ok (revisions_at d at)"
proof (cases at)
  case Current
  with assms show ?thesis by (auto simp: document_ok_def revisions_at_def is_alive_at_def split: if_splits)
next
  case (AsOf s)
  with assms have d: "revisions_ok (stored_revisions d)" "sorted_wrt (<) (map rev_seq (stored_revisions d))"
    "rev_seq (hd (stored_revisions d)) \<le> s"
    by (auto simp: document_ok_def is_alive_at_def split: if_splits)
  let ?p = "takeWhile (\<lambda>r. rev_seq r \<le> s) (stored_revisions d)"
  from d obtain r rs where r: "stored_revisions d = r # rs" by (cases "stored_revisions d") (auto simp: revisions_ok_def)
  have "versions_ok (?p @ dropWhile (\<lambda>r. rev_seq r \<le> s) (stored_revisions d))"
    using d(1) by (simp add: revisions_ok_def)
  then have "versions_ok ?p" by (rule versions_ok_prefix)
  with d r have "revisions_ok ?p" by (auto simp: revisions_ok_def)
  with AsOf d(2) show ?thesis by (simp add: revisions_at_def filter_prefix)
qed

text \<open>The abstract read of a document: the log up to the point, replayed.\<close>

definition read_log :: "mem_state \<Rightarrow> int \<Rightarrow> doc_point \<Rightarrow> (storage_error, stored_document option) result" where
  "read_log st i at =
     (case documents st i of
        None \<Rightarrow> Inr None
      | Some d \<Rightarrow>
          if at \<noteq> Current \<and> is_current_only (stored_record d) then Inl (NoHistory i)
          else if \<not> is_alive_at (stored_record d) at then Inr None
          else (case replay_log (revisions_at d at) of
              None \<Rightarrow> Inl (DeltaFailed i)
            | Some (v, x, n) \<Rightarrow> Inr (Some \<lparr>sd_record = stored_record d, sd_version = v, sd_value = x, sd_deltas = n\<rparr>)))"

lemma materialize_read_log:
  assumes "storage_ok st"
  shows "materialize_document st i at = read_log st i at"
proof (cases "documents st i")
  case None
  then show ?thesis by (simp add: materialize_document_def read_log_def)
next
  case (Some d)
  show ?thesis
  proof (cases "(at = Current \<or> \<not> is_current_only (stored_record d)) \<and> is_alive_at (stored_record d) at")
    case False
    with Some show ?thesis by (auto simp: materialize_document_def read_log_def)
  next
    case True
    have "document_ok (next_seq st) d" using assms Some by (auto simp: storage_ok_def docs_indexed_def)
    with True have "revisions_ok (revisions_at d at)" using revisions_at_ok by blast
    from materialize_revisions[OF this, of i] obtain b v x rest where
      m: "split_last_base (revisions_at d at) = Some (b, rest)" "rev_content b = CBase v x"
      "bind_res (replay_deltas i v rest x) (\<lambda>y. Inr (v, y, length rest)) =
        (case replay_log (revisions_at d at) of None \<Rightarrow> Inl (DeltaFailed i) | Some s \<Rightarrow> Inr s)" by blast
    from True Some m(1,2) have "materialize_document st i at =
        bind_res (replay_deltas i v rest x)
          (\<lambda>y. Inr (Some \<lparr>sd_record = stored_record d, sd_version = v, sd_value = y, sd_deltas = length rest\<rparr>))"
      by (auto simp: materialize_document_def revisions_at_def)
    also have "\<dots> = bind_res (bind_res (replay_deltas i v rest x) (\<lambda>y. Inr (v, y, length rest)))
        (\<lambda>(v, y, n). Inr (Some \<lparr>sd_record = stored_record d, sd_version = v, sd_value = y, sd_deltas = n\<rparr>))"
      by (simp add: bind_res_assoc)
    also have "\<dots> = read_log st i at"
      using True Some unfolding m(3) by (auto simp: read_log_def split: option.splits)
    finally show ?thesis .
  qed
qed

end
