(* ===== verification/Memory_Properties.thy ===== *)
theory Memory_Properties
  imports Memory_Scans Memory_Log
begin

text \<open>
  What \<open>MemoryStorage\<close> promises to the harness: its reachable states, commits that either
  do nothing or everything, ids that never repeat, records and history that never change, and
  reads that agree with the log of a document.
\<close>

section \<open>Runs of the storage\<close>

inductive storage_step :: "mem_state \<Rightarrow> mem_state \<Rightarrow> bool" where
  step_mint: "mint_id st = Inr (i, st') \<Longrightarrow> storage_step st st'"
| step_commit: "commit st writes = Inr (seq, st') \<Longrightarrow> storage_step st st'"
| step_close: "storage_step st (close_storage st)"

inductive storage_runs :: "mem_state \<Rightarrow> mem_state \<Rightarrow> bool" where
  run_none: "storage_runs st st"
| run_step: "storage_runs st st' \<Longrightarrow> storage_step st' st'' \<Longrightarrow> storage_runs st st''"

inductive_cases mint_stepE: "storage_step st st'"

inductive_simps runs_from_simps: "storage_runs st st'"

lemma mint_id_parts:
  "mint_id st = Inr (i, st') \<Longrightarrow> i = next_record_id st \<and> st' = st\<lparr>next_record_id := i + 1\<rparr> \<and> \<not> closed st"
  by (auto simp: mint_id_def assert_open_def res_simps split: if_splits)

text \<open>Changing only the two counters and the open flag.\<close>

lemma storage_ok_counters:
  assumes "storage_ok st" "next_record_id st \<le> n"
  shows "storage_ok (st\<lparr>next_record_id := n, closed := c\<rparr>)"
proof -
  let ?st = "st\<lparr>next_record_id := n, closed := c\<rparr>"
  have "types_ok ?st" using assms by (fastforce simp: storage_ok_def types_ok_def)
  moreover have "tables_ok ?st = tables_ok st" by (simp add: tables_ok_def)
  moreover have "docs_indexed (next_seq ?st) ?st = docs_indexed (next_seq st) st"
    by (simp add: docs_indexed_def address_ids_def)
  moreover have "current_ok ?st = current_ok st" by (simp add: current_ok_def current_at_def live_at_def)
  ultimately show ?thesis using assms(1) by (simp add: storage_ok_def)
qed

lemma storage_ok_mint: "storage_ok st \<Longrightarrow> mint_id st = Inr (i, st') \<Longrightarrow> storage_ok st'"
  using storage_ok_counters[of st "i + 1" "closed st"] by (auto dest!: mint_id_parts)

lemma storage_ok_close: "storage_ok st \<Longrightarrow> storage_ok (close_storage st)"
  using storage_ok_counters[of st "next_record_id st" True] by (simp add: close_storage_def)

lemma commit_parts:
  assumes "storage_ok st" "commit st writes = Inr (seq, st')"
  obtains ds actions where "prepare_commit st writes seq = Inr (ds, actions)" "seq = next_seq st"
    "apply_prepared_commit seq ds actions st = Inr st'" "applied st seq actions st'"
proof -
  from assms(2) obtain ds actions where *: "prepare_commit st writes seq = Inr (ds, actions)" "seq = next_seq st"
    "apply_prepared_commit seq ds actions st = Inr st'"
    by (auto simp: commit_def Let_def res_simps)
  from apply_prepared_ok[OF assms(1) *(1)] *(3) have "applied st seq actions st'" by auto
  with * that show thesis by blast
qed

lemma storage_ok_step: "storage_step st st' \<Longrightarrow> storage_ok st \<Longrightarrow> storage_ok st'"
  by (erule storage_step.cases)
    (auto intro: storage_ok_mint storage_ok_close elim: commit_parts simp: applied_def)

lemma storage_ok_runs: "storage_runs st st' \<Longrightarrow> storage_ok st \<Longrightarrow> storage_ok st'"
  by (induction rule: storage_runs.induct) (auto intro: storage_ok_step)

section \<open>Ids\<close>

lemma next_id_apply_write: "apply_write seq w st = Inr st' \<Longrightarrow> next_record_id st \<le> next_record_id st'"
  by (cases w) (auto simp: put_conversation_def put_entry_def put_task_def put_submission_def bump_id_def Let_def
      split: option.splits prod.splits)

lemma next_id_apply_action: "apply_action seq ia st = Inr st' \<Longrightarrow> next_record_id st \<le> next_record_id st'"
  by (auto simp: apply_action_def write_document_def bump_id_def index_address_def Let_def res_simps
      split: prod.splits option.splits if_splits)

lemma fold_res_mono:
  fixes m :: "'s \<Rightarrow> int"
  assumes "fold_res f xs s = Inr t" "\<And>x s s'. f x s = Inr s' \<Longrightarrow> m s \<le> m s'"
  shows "m s \<le> m t"
  using assms(1) by (rule fold_res_invariant[where P = "\<lambda>u. m s \<le> m u"]) (auto dest: assms(2) intro: order_trans)

lemma next_id_step: "storage_step st st' \<Longrightarrow> next_record_id st \<le> next_record_id st'"
proof (erule storage_step.cases)
  fix st1 writes seq st1'
  assume st: "st = st1" "st' = st1'" "commit st1 writes = Inr (seq, st1')"
  then obtain ds actions st2 st3 where
    "fold_res (apply_write seq) ds st1 = Inr st2" "fold_res (apply_action seq) actions st2 = Inr st3"
    "next_record_id st' = next_record_id st3"
    by (auto simp: commit_def Let_def res_simps apply_prepared_commit_def apply_document_actions_def)
  with fold_res_mono[of "apply_write seq", where m = next_record_id] next_id_apply_write
    fold_res_mono[of "apply_action seq", where m = next_record_id] next_id_apply_action st(1)
  show ?thesis by (metis order_trans)
qed (auto dest!: mint_id_parts simp: close_storage_def)

lemma next_id_runs: "storage_runs st st' \<Longrightarrow> next_record_id st \<le> next_record_id st'"
  by (induction rule: storage_runs.induct) (auto dest: next_id_step)

lemma immutable_step: "storage_step st st' \<Longrightarrow> storage_ok st \<Longrightarrow> keeps_immutable st st'"
  by (erule storage_step.cases)
    (auto dest!: mint_id_parts elim!: commit_parts simp: applied_def close_storage_def keeps_immutable_def)

lemma immutable_runs: "storage_runs st st' \<Longrightarrow> storage_ok st \<Longrightarrow> keeps_immutable st st'"
  by (induction rule: storage_runs.induct)
    (auto intro: keeps_immutable_refl keeps_immutable_trans immutable_step storage_ok_runs)


section \<open>The past of a document\<close>

text \<open>What a run may do to a document from the sequence \<open>b\<close> on.\<close>

definition evolves :: "int \<Rightarrow> stored_state \<Rightarrow> stored_state \<Rightarrow> bool" where
  "evolves b d d' \<longleftrightarrow>
     (stored_record d')\<lparr>retired_at := None\<rparr> = (stored_record d)\<lparr>retired_at := None\<rparr> \<and>
     (retired_at (stored_record d') = retired_at (stored_record d) \<or>
      retired_at (stored_record d) = None \<and> (\<exists>e \<ge> b. retired_at (stored_record d') = Some e)) \<and>
     (\<not> is_current_only (stored_record d) \<longrightarrow>
        (\<exists>more. stored_revisions d' = stored_revisions d @ more \<and> (\<forall>r \<in> set more. b \<le> rev_seq r)))"

lemma evolves_refl: "evolves b d d"
  by (simp add: evolves_def)

lemma retired_none_eq:
  assumes "(r :: doc_record)\<lparr>retired_at := None\<rparr> = q\<lparr>retired_at := None\<rparr>"
  shows "doc_id r = doc_id q" "is_current_only r = is_current_only q" "created_at r = created_at q"
    "record_address r = record_address q"
proof -
  from arg_cong[OF assms, of doc_id] show "doc_id r = doc_id q" by simp
  from arg_cong[OF assms, of is_current_only] show "is_current_only r = is_current_only q" by simp
  from arg_cong[OF assms, of created_at] show "created_at r = created_at q" by simp
  from arg_cong[OF assms, of record_address] show "record_address r = record_address q" by simp
qed

lemma evolves_trans: "evolves b d d1 \<Longrightarrow> evolves b' d1 d2 \<Longrightarrow> b \<le> b' \<Longrightarrow> evolves b d d2"
  unfolding evolves_def using retired_none_eq(2) by (smt (verit) append_assoc set_append Un_iff)

lemma evolves_alive:
  "evolves b d d' \<Longrightarrow> s < b \<Longrightarrow> is_alive_at (stored_record d') (AsOf s) = is_alive_at (stored_record d) (AsOf s)"
  using retired_none_eq(3)[of "stored_record d'" "stored_record d"]
  by (auto simp: evolves_def is_alive_at_def split: option.splits)

lemma evolves_revisions:
  "evolves b d d' \<Longrightarrow> s < b \<Longrightarrow> \<not> is_current_only (stored_record d) \<Longrightarrow> revisions_at d' (AsOf s) = revisions_at d (AsOf s)"
  by (fastforce simp: evolves_def revisions_at_def filter_empty_conv)

lemma action_result_evolves:
  assumes "act_create a = None" "documents st i = Some d" "retired_at (stored_record d) = None"
  shows "evolves seq d (action_result seq st i a)"
  using assms by (auto simp: evolves_def action_result_def retire_document_def Let_def split: option.splits)

lemma prepared_actions:
  assumes "prepare_commit st writes seq = Inr (ds, actions)" "map_of actions i = Some a"
  shows "(act_create a = None \<longrightarrow> (\<exists>d. documents st i = Some d \<and> retired_at (stored_record d) = None)) \<and>
    (act_create a \<noteq> None \<longrightarrow> documents st i = None)"
proof -
  have "check_action st i a = Inr ()"
    using prepare_commit_parts[OF assms(1)] check_document_actions_each map_of_SomeD[OF assms(2)] by blast
  then show ?thesis
    by (cases "documents st i") (auto simp: check_action_def Let_def split: if_splits)
qed

lemma commit_documents:
  assumes "storage_ok st" "commit st writes = Inr (seq, st')"
  shows "documents st i = Some d \<Longrightarrow> \<exists>d'. documents st' i = Some d' \<and> evolves seq d d'"
    and "documents st i = None \<Longrightarrow> documents st' i = Some d' \<Longrightarrow> created_at (stored_record d') = seq"
    and "next_seq st' = next_seq st + 1" "seq = next_seq st"
proof -
  from commit_parts[OF assms] obtain ds actions where
    p: "prepare_commit st writes seq = Inr (ds, actions)" and a: "applied st seq actions st'" and "seq = next_seq st" by metis
  show "seq = next_seq st" by fact
  with a show "next_seq st' = next_seq st + 1" by (simp add: applied_def)
  have docs: "documents st' i = (case map_of actions i of None \<Rightarrow> documents st i | Some a \<Rightarrow> Some (action_result seq st i a))"
    using a by (simp add: applied_def)
  show "\<exists>d'. documents st' i = Some d' \<and> evolves seq d d'" if "documents st i = Some d"
    using docs that prepared_actions[OF p, of i] action_result_evolves[of _ st i d seq]
    by (cases "map_of actions i") (auto intro: evolves_refl)
  show "created_at (stored_record d') = seq" if "documents st i = None" "documents st' i = Some d'"
    using docs that prepared_actions[OF p, of i]
    by (cases "map_of actions i") (auto simp: action_result_record split: option.splits)
qed

lemma run_documents:
  "storage_runs st st' \<Longrightarrow> storage_ok st \<Longrightarrow>
     next_seq st \<le> next_seq st' \<and>
     (\<forall>i d. documents st i = Some d \<longrightarrow> (\<exists>d'. documents st' i = Some d' \<and> evolves (next_seq st) d d'))"
proof (induction rule: storage_runs.induct)
  case (run_step st st1 st2)
  from run_step.hyps(2) show ?case
  proof cases
    case (step_commit writes seq)
    have ok: "storage_ok st1" using storage_ok_runs run_step by blast
    note c = commit_documents[OF ok step_commit]
    show ?thesis using run_step.IH[OF run_step.prems] c(1,3,4) evolves_trans by (smt (verit))
  qed (use run_step in \<open>auto dest!: mint_id_parts simp: close_storage_def\<close>)
qed (auto intro: evolves_refl)

section \<open>Lifetimes at an address\<close>

definition lifetimes_disjoint :: "mem_state \<Rightarrow> bool" where
  "lifetimes_disjoint st \<longleftrightarrow>
     (\<forall>i j d d' s. documents st i = Some d \<longrightarrow> documents st j = Some d' \<longrightarrow>
        record_address (stored_record d) = record_address (stored_record d') \<longrightarrow>
        is_alive_at (stored_record d) (AsOf s) \<longrightarrow> is_alive_at (stored_record d') (AsOf s) \<longrightarrow> i = j)"

lemma alive_now:
  assumes "document_ok (seq + 1) d" "seq \<le> s" "is_alive_at (stored_record d) (AsOf s)"
  shows "retired_at (stored_record d) = None"
  using assms by (cases "retired_at (stored_record d)") (auto simp: document_ok_def is_alive_at_def)

lemma alive_before:
  assumes "storage_ok st" "commit st writes = Inr (seq, st')" "documents st' i = Some d'" "s < seq"
    and "is_alive_at (stored_record d') (AsOf s)"
  shows "\<exists>d. documents st i = Some d \<and> is_alive_at (stored_record d) (AsOf s) \<and>
    record_address (stored_record d) = record_address (stored_record d')"
proof (cases "documents st i")
  case None
  with commit_documents(2)[OF assms(1,2)] assms(3-5) show ?thesis by (auto simp: is_alive_at_def)
next
  case (Some d)
  with commit_documents(1)[OF assms(1,2)] assms(3) have ev: "evolves seq d d'" by fastforce
  then have "record_address (stored_record d) = record_address (stored_record d')"
    unfolding evolves_def using retired_none_eq(4) by metis
  with ev Some assms(4,5) evolves_alive show ?thesis by blast
qed

lemma lifetimes_commit:
  assumes "storage_ok st" "commit st writes = Inr (seq, st')" "lifetimes_disjoint st"
  shows "lifetimes_disjoint st'"
  unfolding lifetimes_disjoint_def
proof (intro allI impI)
  fix i j d d' s
  assume d: "documents st' i = Some d" "documents st' j = Some d'"
    and key: "record_address (stored_record d) = record_address (stored_record d')"
    and alive: "is_alive_at (stored_record d) (AsOf s)" "is_alive_at (stored_record d') (AsOf s)"
  have ok: "storage_ok st'" using storage_ok_step[OF step_commit[OF assms(2)] assms(1)] .
  show "i = j"
  proof (cases "s < seq")
    case True
    with alive_before[OF assms(1,2)] d alive key assms(3) show ?thesis
      unfolding lifetimes_disjoint_def by metis
  next
    case False
    have "next_seq st' = seq + 1" using commit_documents(3,4)[OF assms(1,2)] by simp
    with ok d have "document_ok (seq + 1) d" "document_ok (seq + 1) d'"
      by (auto simp: storage_ok_def docs_indexed_def)
    with False alive have "retired_at (stored_record d) = None" "retired_at (stored_record d') = None"
      by (auto intro: alive_now[of seq _ s])
    with d key have "live_at st' (record_address (stored_record d)) i" "live_at st' (record_address (stored_record d)) j"
      by (auto simp: live_at_def)
    with ok show ?thesis unfolding storage_ok_def current_ok_def by (metis option.inject)
  qed
qed

lemma lifetimes_runs: "storage_runs st st' \<Longrightarrow> storage_ok st \<Longrightarrow> lifetimes_disjoint st \<Longrightarrow> lifetimes_disjoint st'"
proof (induction rule: storage_runs.induct)
  case (run_step st st1 st2)
  from run_step.hyps(2) show ?case
  proof cases
    case (step_commit writes seq)
    with run_step storage_ok_runs lifetimes_commit show ?thesis by blast
  qed (use run_step in \<open>auto dest!: mint_id_parts simp: close_storage_def lifetimes_disjoint_def\<close>)
qed simp


section \<open>A storage to look at\<close>

definition committed :: "mem_state \<Rightarrow> storage_write list \<Rightarrow> mem_state" where
  "committed st writes = (case commit st writes of Inl _ \<Rightarrow> st | Inr (_, st') \<Rightarrow> st')"

lemma run_committed: "storage_runs st (committed st writes)"
  by (auto simp: committed_def split: sum.splits intro: storage_runs.intros step_commit)

lemma runs_trans: "storage_runs st1 st2 \<Longrightarrow> storage_runs st st1 \<Longrightarrow> storage_runs st st2"
  by (induction rule: storage_runs.induct) (auto intro: run_step)

definition sample_entry :: "int \<Rightarrow> int \<Rightarrow> int option \<Rightarrow> entry_record" where
  "sample_entry i conv head = \<lparr>entry_id = i, entry_conv = conv, entry_kind = ''model'', entry_model = None,
     entry_data = None, entry_head = head, entry_edits = None, entry_by_task = None\<rparr>"

definition sample_task :: "int \<Rightarrow> task_state \<Rightarrow> task_record" where
  "sample_task i state = \<lparr>task_id = i, task_conv = 2, task_kind = ''run'', task_version = 1, task_input = Prim PNull,
     task_owner = None, task_background = False, task_abort_requested = False, task_state_of = state,
     task_kept = Prim PNull\<rparr>"

definition sample_document :: doc_create where
  "sample_document = \<lparr>doc_id = 9, doc_kind = ''plan'', doc_key = None, doc_scope_of = ConversationScope 2,
     doc_history_of = Some Rewindable, doc_fork_of = Some ForkAsOf\<rparr>"

definition sample_writes :: "storage_write list" where
  "sample_writes =
     [WConversation \<lparr>conv_id = 2, conv_parent = None, conv_owner = None\<rparr>,
      WEntry (sample_entry 3 2 None), WEntry (sample_entry 4 2 (Some 3)),
      WConversation \<lparr>conv_id = 5, conv_parent = Some (2, 3), conv_owner = None\<rparr>,
      WEntry (sample_entry 6 5 None), WTask (sample_task 7 (TPending (Prim PNull))), WTask (sample_task 8 (TRunning (Prim PNull))),
      WDocCreate sample_document 1 (Obj [(''n'', Prim (PNum (NInt 1)))])]"

definition sample_storage :: mem_state where
  "sample_storage = committed empty_storage sample_writes"

definition sample_change :: "storage_write list" where
  "sample_change = [WDocChange 9 (CDelta 1 [OpS [Key ''n''] (Prim (PNum (NInt 2)))]), WTask (sample_task 7 (TSleeping (Prim PNull) 5))]"

lemma sample_ok: "storage_ok sample_storage"
  using storage_ok_runs[OF run_committed storage_ok_empty] by (simp add: sample_storage_def)

lemma sample_commit: "map_sum (\<lambda>x. x) fst (commit empty_storage sample_writes) = Inr 1"
  by code_simp


lemma sample_change_commit: "map_sum (\<lambda>x. x) fst (commit sample_storage sample_change) = Inr 2"
  by code_simp

definition all_tasks :: task_query where
  "all_tasks = \<lparr>tq_conv = None, tq_kind = None, tq_status = None, tq_abort = None, tq_background = None,
     tq_order = Some Descending\<rparr>"

lemma sample_open: "\<not> closed sample_storage"
  by code_simp

declare all_pages.simps [simp del]

lemma first_alive_find:
  "\<forall>i \<in> set ids. doc_table st i \<noteq> None \<Longrightarrow>
     first_alive st at ids = Inr (Option.bind (List.find (\<lambda>i. is_alive_at (the (doc_table st i)) at) ids) (doc_table st))"
  by (induction ids) (auto simp: doc_table_def doc_record_of_def)

lemma address_index:
  "storage_ok st \<Longrightarrow> set (address_ids st key) = {i. \<exists>r. doc_table st i = Some r \<and> record_address r = key}"
  by (auto simp: storage_ok_def docs_indexed_def indexes_def doc_table_def)

lemma lives_once:
  assumes "storage_runs empty_storage st" "doc_table st i = Some r" "doc_table st j = Some q"
    and "record_address r = record_address q" "is_alive_at r at" "is_alive_at q at"
  shows "i = j"
proof (cases at)
  case Current
  have "storage_ok st" using storage_ok_runs[OF assms(1) storage_ok_empty] .
  moreover from assms Current have "live_at st (record_address r) i" "live_at st (record_address r) j"
    by (auto simp: live_at_def doc_table_def is_alive_at_def)
  ultimately show ?thesis unfolding storage_ok_def current_ok_def by (metis option.inject)
next
  case (AsOf s)
  have "lifetimes_disjoint st"
    using lifetimes_runs[OF assms(1) storage_ok_empty] by (simp add: lifetimes_disjoint_def empty_storage_def)
  with assms AsOf show ?thesis by (auto simp: lifetimes_disjoint_def doc_table_def)
qed

lemma find_document_alive:
  assumes "storage_ok st" "\<not> closed st"
  shows "\<exists>found. find_document st key at = Inr found \<and>
    (case found of
       None \<Rightarrow> \<forall>i r. doc_table st i = Some r \<longrightarrow> record_address r = key \<longrightarrow> \<not> is_alive_at r at
     | Some r \<Rightarrow> \<exists>i. doc_table st i = Some r \<and> record_address r = key \<and> is_alive_at r at)"
proof (cases at)
  case Current
  have cur: "current_at st key = Some i \<longleftrightarrow> live_at st key i" for i
    using assms(1) by (simp add: storage_ok_def current_ok_def)
  show ?thesis
  proof (cases "current_at st key")
    case None
    with cur have "\<not> live_at st key i" for i by simp
    with None Current assms(2) show ?thesis
      by (auto simp: find_document_def assert_open_def current_at_def live_at_def doc_table_def is_alive_at_def)
  next
    case (Some i)
    with cur[of i] Current assms(2) show ?thesis
      by (fastforce simp: find_document_def assert_open_def current_at_def live_at_def doc_table_def is_alive_at_def
          doc_record_of_def)
  qed
next
  case (AsOf s)
  note idx = address_index[OF assms(1), of key]
  then have "\<forall>i \<in> set (address_ids st key). doc_table st i \<noteq> None" by auto
  from first_alive_find[OF this, of at] AsOf assms(2) have
    "find_document st key at = Inr (Option.bind (List.find (\<lambda>i. is_alive_at (the (doc_table st i)) at)
       (address_ids st key)) (doc_table st))"
    by (simp add: find_document_def assert_open_def address_ids_def)
  moreover have "case Option.bind (List.find (\<lambda>i. is_alive_at (the (doc_table st i)) at) (address_ids st key)) (doc_table st) of
       None \<Rightarrow> \<forall>i r. doc_table st i = Some r \<longrightarrow> record_address r = key \<longrightarrow> \<not> is_alive_at r at
     | Some r \<Rightarrow> \<exists>i. doc_table st i = Some r \<and> record_address r = key \<and> is_alive_at r at"
  proof (cases "List.find (\<lambda>i. is_alive_at (the (doc_table st i)) at) (address_ids st key)")
    case None
    then have "\<forall>i \<in> set (address_ids st key). \<not> is_alive_at (the (doc_table st i)) at" by (simp add: find_None_iff)
    with idx have "\<forall>i r. doc_table st i = Some r \<longrightarrow> record_address r = key \<longrightarrow> \<not> is_alive_at r at" by fastforce
    with None show ?thesis by simp
  next
    case (Some i)
    then have "i \<in> set (address_ids st key)" "is_alive_at (the (doc_table st i)) at"
      by (auto simp: find_Some_iff)
    with idx Some show ?thesis by auto
  qed
  ultimately show ?thesis by blast
qed

section \<open>Properties\<close>

text \<open>
  C11: Every state the storage reaches from the empty one by minting ids, committing and closing
  satisfies the storage invariant: the indexes list exactly the ids of their records in order,
  an id belongs to one table, revisions of a document continue each other's version, and an
  address has its one live document as the current one.
\<close>

theorem reachable_storage_ok: "storage_runs empty_storage st \<Longrightarrow> storage_ok st"
  by (rule storage_ok_runs[OF _ storage_ok_empty])

theorem reachable_storage_ok_witness:
  "storage_ok sample_storage \<and> map_sum (\<lambda>x. x) fst (commit empty_storage sample_writes) = Inr 1"
  using reachable_storage_ok[of sample_storage] sample_commit run_committed by (simp add: sample_storage_def)

text \<open>
  C10: A commit is all or nothing. It is refused exactly when its preparation refuses it, with
  the same error and before anything is written; once it is prepared its application cannot
  fail, every record written is there and the invariant holds again.
\<close>

theorem commit_atomic:
  assumes "storage_ok st"
  shows "case prepare_commit st writes (next_seq st) of
      Inl e \<Rightarrow> commit st writes = Inl e
    | Inr (ds, actions) \<Rightarrow> \<exists>st'. commit st writes = Inr (next_seq st, st') \<and> storage_ok st' \<and>
        next_seq st' = next_seq st + 1 \<and>
        (\<forall>i. documents st' i = (case map_of actions i of
           None \<Rightarrow> documents st i | Some a \<Rightarrow> Some (action_result (next_seq st) st i a)))"
proof (cases "prepare_commit st writes (next_seq st)")
  case (Inr p)
  obtain ds actions where p: "p = (ds, actions)" by force
  with apply_prepared_ok[OF assms] Inr obtain st' where
    "apply_prepared_commit (next_seq st) ds actions st = Inr st'" "applied st (next_seq st) actions st'" by blast
  with Inr p show ?thesis by (simp add: commit_def applied_def Let_def)
qed (simp add: commit_def Let_def)

theorem commit_atomic_witness:
  "\<exists>st'. commit sample_storage sample_change = Inr (2, st') \<and> storage_ok st'"
  using commit_atomic[OF sample_ok, of sample_change] sample_change_commit
  by (auto split: sum.splits)

text \<open>
  A minted id is new: no record of the storage has it, and every id minted later in the
  run, whatever is committed in between, is greater.
\<close>

theorem minted_ids_fresh:
  assumes "storage_ok st" "mint_id st = Inr (i, st')"
  shows "record_types st i = None \<and>
    (\<forall>st1 j st2. storage_runs st' st1 \<longrightarrow> mint_id st1 = Inr (j, st2) \<longrightarrow> i < j)"
proof -
  have i: "i = next_record_id st" "next_record_id st' = i + 1" using assms(2) mint_id_parts by fastforce+
  with assms(1) have "record_types st i = None" by (fastforce simp: storage_ok_def types_ok_def)
  moreover have "i < j" if "storage_runs st' st1" "mint_id st1 = Inr (j, st2)" for st1 j st2
    using next_id_runs[OF that(1)] mint_id_parts[OF that(2)] i by simp
  ultimately show ?thesis by blast
qed

theorem minted_ids_fresh_witness:
  "map_sum (\<lambda>x. x) fst (mint_id sample_storage) = Inr 10 \<and> record_types sample_storage 10 = None"
proof -
  have "map_sum (\<lambda>x. x) fst (mint_id sample_storage) = Inr 10" by code_simp
  then obtain st' where "mint_id sample_storage = Inr (10, st')" by (cases "mint_id sample_storage") auto
  from minted_ids_fresh[OF sample_ok this] \<open>map_sum _ _ _ = _\<close> show ?thesis by blast
qed

text \<open>
  Conversations and entries are never replaced or removed: whatever runs afterwards, a
  stored conversation, a stored entry and the sequence it was committed at stay as they are.
\<close>

theorem records_immutable:
  assumes "storage_ok st" "storage_runs st st'"
  shows "conversations st \<subseteq>\<^sub>m conversations st' \<and> entries st \<subseteq>\<^sub>m entries st' \<and>
    entry_commit_seqs st \<subseteq>\<^sub>m entry_commit_seqs st'"
  using immutable_runs[OF assms(2,1)] by (simp add: keeps_immutable_def)

theorem records_immutable_witness:
  "entries sample_storage \<subseteq>\<^sub>m entries (committed sample_storage sample_change) \<and> entries sample_storage 4 \<noteq> None"
proof -
  have "entries sample_storage 4 \<noteq> None" by code_simp
  with records_immutable[OF sample_ok run_committed] show ?thesis by blast
qed

text \<open>
  C14: Reading a document from its last base is the same as replaying its whole log of revisions:
  no stored document makes the read stop on a missing base or a crossed version.
\<close>

theorem materialize_refines_log:
  "storage_ok st \<Longrightarrow> materialize_document st i at = read_log st i at"
  by (rule materialize_read_log)

theorem materialize_refines_log_witness:
  "materialize_document (committed sample_storage sample_change) 9 Current =
     read_log (committed sample_storage sample_change) 9 Current \<and>
   map_sum (\<lambda>x. x) (map_option sd_value) (materialize_document (committed sample_storage sample_change) 9 Current) =
     Inr (Some (Obj [(''n'', Prim (PNum (NInt 2)))]))"
  using materialize_refines_log[OF storage_ok_runs[OF run_committed sample_ok], of sample_change 9 Current]
  by (intro conjI) (assumption, code_simp)

definition forget_retirement ::
  "(storage_error, stored_document option) result \<Rightarrow> (storage_error, stored_document option) result" where
  "forget_retirement = map_sum (\<lambda>e. e) (map_option (\<lambda>d. d\<lparr>sd_record := (sd_record d)\<lparr>retired_at := None\<rparr>\<rparr>))"

text \<open>
  C13: The past does not change. What a document with history was as of an earlier sequence is
  read the same after any further run, except that its record may show when it was retired.
\<close>

theorem history_stable:
  assumes "storage_ok st" "storage_runs st st'" "documents st i \<noteq> None" "s < next_seq st"
  shows "forget_retirement (materialize_document st' i (AsOf s)) =
    forget_retirement (materialize_document st i (AsOf s))"
proof -
  from assms(3) obtain d where d: "documents st i = Some d" by blast
  with run_documents[OF assms(2,1)] obtain d' where d': "documents st' i = Some d'" "evolves (next_seq st) d d'" by blast
  have rec: "(stored_record d')\<lparr>retired_at := None\<rparr> = (stored_record d)\<lparr>retired_at := None\<rparr>"
    using d'(2) by (simp add: evolves_def)
  have ok: "storage_ok st'" using storage_ok_runs assms by blast
  show ?thesis
    unfolding materialize_read_log[OF assms(1)] materialize_read_log[OF ok]
    using evolves_alive[OF d'(2) assms(4)] evolves_revisions[OF d'(2) assms(4)] retired_none_eq(2)[OF rec] rec
    by (auto simp: read_log_def d d'(1) forget_retirement_def split: option.splits)
qed


theorem history_stable_witness:
  "forget_retirement (materialize_document (committed sample_storage sample_change) 9 (AsOf 1)) =
     forget_retirement (materialize_document sample_storage 9 (AsOf 1)) \<and>
   map_sum (\<lambda>x. x) (map_option sd_value) (materialize_document (committed sample_storage sample_change) 9 (AsOf 1)) =
     Inr (Some (Obj [(''n'', Prim (PNum (NInt 1)))]))"
proof -
  have "documents sample_storage 9 \<noteq> None" "1 < next_seq sample_storage" by code_simp+
  from history_stable[OF sample_ok run_committed this, of sample_change]
  show ?thesis by (intro conjI) (assumption, code_simp)
qed

text \<open>
  A committed delta is what readers see next: the new value of the document is the delta's
  operations applied to the value before, at the same version, one delta further from the base.
\<close>

theorem change_is_applied:
  assumes "storage_ok st" "commit st [WDocChange i (CDelta v ops)] = Inr (seq, st')"
    and "materialize_document st i Current = Inr (Some old)" "apply_ops (Some (sd_value old)) ops = Inr (Some new)"
  shows "materialize_document st' i Current = Inr (Some (old\<lparr>sd_value := new, sd_deltas := Suc (sd_deltas old)\<rparr>))"
proof -
  let ?a = "no_action\<lparr>act_content := Some (CDelta v ops)\<rparr>"
  from commit_parts[OF assms(1,2)] obtain ds actions where
    p: "prepare_commit st [WDocChange i (CDelta v ops)] seq = Inr (ds, actions)" and a: "applied st seq actions st'" by metis
  from prepare_commit_parts[OF p] have acts: "actions = [(i, ?a)]"
    by (auto simp: resolve_document_copies_def prepare_document_actions_def action_of_def no_action_def Let_def)
  from prepared_actions[OF p, of i ?a] obtain d where d: "documents st i = Some d" "retired_at (stored_record d) = None"
    by (auto simp: acts no_action_def)
  have d': "documents st' i = Some (d\<lparr>stored_revisions := stored_revisions d @ [\<lparr>rev_content = CDelta v ops, rev_seq = seq\<rparr>]\<rparr>)"
    using a d by (simp add: applied_def acts action_result_def no_action_def retire_document_def Let_def)
  have "storage_ok st'" using a by (simp add: applied_def)
  from materialize_read_log[OF this] d' assms(3,4) materialize_read_log[OF assms(1)] d show ?thesis
    by (auto simp: read_log_def revisions_at_def is_alive_at_def replay_log_snoc log_step.simps split: option.splits)
qed

theorem change_is_applied_witness:
  "map_sum (\<lambda>x. x) (map_option (\<lambda>d. (sd_version d, sd_value d, sd_deltas d)))
     (materialize_document (committed sample_storage [WDocChange 9 (CDelta 1 [OpS [Key ''n''] (Prim (PNum (NInt 2)))])]) 9 Current) =
   Inr (Some (1, Obj [(''n'', Prim (PNum (NInt 2)))], 1))"
proof -
  let ?w = "[WDocChange 9 (CDelta 1 [OpS [Key ''n''] (Prim (PNum (NInt 2)))])]"
  have "map_sum (\<lambda>x. x) fst (commit sample_storage ?w) = Inr 2" by code_simp
  then obtain st' where st': "commit sample_storage ?w = Inr (2, st')" by (cases "commit sample_storage ?w") auto
  have "map_sum (\<lambda>x. x) (map_option (\<lambda>d. (sd_version d, sd_value d, sd_deltas d)))
      (materialize_document sample_storage 9 Current) = Inr (Some (1, Obj [(''n'', Prim (PNum (NInt 1)))], 0))" by code_simp
  then obtain old where old: "materialize_document sample_storage 9 Current = Inr (Some old)"
    "sd_version old = 1" "sd_value old = Obj [(''n'', Prim (PNum (NInt 1)))]" "sd_deltas old = 0"
    by (cases "materialize_document sample_storage 9 Current") auto
  have "apply_ops (Some (sd_value old)) [OpS [Key ''n''] (Prim (PNum (NInt 2)))] = Inr (Some (Obj [(''n'', Prim (PNum (NInt 2)))]))"
    unfolding old(3) by code_simp
  from change_is_applied[OF sample_ok st' old(1) this] st' old show ?thesis by (simp add: committed_def)
qed

text \<open>
  C12: An address names at most one document at any point in time, and \<open>findDocument\<close> finds
  it: now, and as of any sequence, it returns the record alive there, and nothing exactly
  when no document of the address is alive.
\<close>

theorem find_document_unique:
  assumes "storage_runs empty_storage st" "\<not> closed st"
  shows "(find_document st key at = Inr (Some r) \<longleftrightarrow>
      (\<exists>i. doc_table st i = Some r \<and> record_address r = key \<and> is_alive_at r at)) \<and>
    (find_document st key at = Inr None \<longleftrightarrow>
      (\<nexists>i q. doc_table st i = Some q \<and> record_address q = key \<and> is_alive_at q at)) \<and>
    (\<forall>i j p q. doc_table st i = Some p \<longrightarrow> doc_table st j = Some q \<longrightarrow> record_address p = record_address q \<longrightarrow>
      is_alive_at p at \<longrightarrow> is_alive_at q at \<longrightarrow> i = j)"
proof -
  have ok: "storage_ok st" by (rule storage_ok_runs[OF assms(1) storage_ok_empty])
  from find_document_alive[OF ok assms(2), of key at] obtain found where f: "find_document st key at = Inr found"
    "case found of
       None \<Rightarrow> \<forall>i r. doc_table st i = Some r \<longrightarrow> record_address r = key \<longrightarrow> \<not> is_alive_at r at
     | Some r \<Rightarrow> \<exists>i. doc_table st i = Some r \<and> record_address r = key \<and> is_alive_at r at" by blast
  have "find_document st key at = Inr None \<longleftrightarrow>
      (\<nexists>i r. doc_table st i = Some r \<and> record_address r = key \<and> is_alive_at r at)"
    using f by (auto split: option.splits)
  moreover have "find_document st key at = Inr (Some r) \<longleftrightarrow>
      (\<exists>i. doc_table st i = Some r \<and> record_address r = key \<and> is_alive_at r at)"
    using f lives_once[OF assms(1)] by (cases found) (auto, metis option.inject)
  ultimately show ?thesis using lives_once[OF assms(1)] by blast
qed

theorem find_document_unique_witness:
  "\<exists>r. find_document sample_storage \<lparr>addr_kind = ''plan'', addr_scope = ConversationScope 2, addr_key = None\<rparr> Current =
     Inr (Some r) \<and> doc_id r = 9"
proof -
  let ?key = "\<lparr>addr_kind = ''plan'', addr_scope = ConversationScope 2, addr_key = None\<rparr>"
  have "map_option (\<lambda>r. (record_address r, doc_id r, retired_at r)) (doc_table sample_storage 9) = Some (?key, 9, None)"
    by code_simp
  then obtain r where r: "doc_table sample_storage 9 = Some r" "record_address r = ?key" "doc_id r = 9" "retired_at r = None"
    by (cases "doc_table sample_storage 9") auto
  then have "\<exists>i. doc_table sample_storage i = Some r \<and> record_address r = ?key \<and> is_alive_at r Current"
    by (intro exI[of _ 9]) (simp add: is_alive_at_def)
  with find_document_unique[of sample_storage ?key Current r] run_committed sample_open r(3) show ?thesis
    by (auto simp: sample_storage_def)
qed

text \<open>
  C15: Following the cursors of a task scan from the first page lists exactly the stored tasks
  with the status and the fields the query asks for, each once, in the order of the query.
\<close>

theorem task_scan_complete:
  assumes "storage_ok st" "\<not> closed st" "0 < limit"
  shows "\<exists>items. all_pages (\<lambda>c. page_result (scan_tasks st q limit c)) (Suc (length items)) None = Some (Inr items) \<and>
    lists_table (order_of (tq_order q)) task_id (tasks st)
      (\<lambda>r. matches_opt (tq_status q) (status_of (task_state_of r)) \<and> task_keep q r) items"
  using task_pages.all_pages_complete[of "(st, q, limit)" None] assms
  by (intro listing_complete[OF _ task_index]) (auto simp: readable_def request_first)

theorem task_scan_complete_witness:
  "\<exists>items. all_pages (\<lambda>c. page_result (scan_tasks sample_storage all_tasks 1 c)) (Suc (length items)) None = Some (Inr items) \<and>
     ordered Descending (map task_id items) \<and> sample_task 8 (TRunning (Prim PNull)) \<in> set items"
proof -
  have "tasks sample_storage 8 = Some (sample_task 8 (TRunning (Prim PNull)))" by code_simp
  then have "sample_task 8 (TRunning (Prim PNull)) \<in> ran (tasks sample_storage)" by (rule ranI)
  moreover obtain items where items: "all_pages (\<lambda>c. page_result (scan_tasks sample_storage all_tasks 1 c)) (Suc (length items)) None = Some (Inr items)"
    "lists_table (order_of (tq_order all_tasks)) task_id (tasks sample_storage)
      (\<lambda>r. matches_opt (tq_status all_tasks) (status_of (task_state_of r)) \<and> task_keep all_tasks r) items"
    using task_scan_complete[OF sample_ok sample_open, of 1 all_tasks] by auto
  ultimately show ?thesis
    by (intro exI[of _ items]) (simp add: lists_table_def all_tasks_def order_of_def matches_opt_def task_keep_def)
qed

end
