(* ===== verification/Memory_Visible.thy ===== *)
theory Memory_Visible
  imports Memory_Properties
begin

text \<open>
  The visible history of a forked conversation: both directions of a scan list the same
  entries, the walk up the forks ends when parents are older than their children, and the
  latest head marker is the first visible entry that has a head.
\<close>

section \<open>Segments\<close>

lemma takeWhile_not_less:
  assumes "strict_sorted (rev ids)"
  shows "takeWhile (\<lambda>i. \<not> Fin i < lo) ids = filter (\<lambda>i. \<not> Fin i < lo) ids"
  using assms
proof (induction ids)
  case (Cons i ids)
  then have lt: "\<forall>j \<in> set ids. Fin j < Fin i" by (simp add: sorted_wrt_append)
  have "filter (\<lambda>j. \<not> Fin j < lo) ids = []" if "Fin i < lo"
    using lt order_less_trans[OF _ that] by (auto simp: filter_empty_conv)
  with Cons show ?case by (auto simp: sorted_wrt_append)
qed simp

lemma takeWhile_not_above:
  assumes "strict_sorted ids"
  shows "takeWhile (\<lambda>i. \<not> hi < Fin i) ids = filter (\<lambda>i. \<not> hi < Fin i) ids"
  using assms
proof (induction ids)
  case (Cons i ids)
  then have lt: "\<forall>j \<in> set ids. Fin i < Fin j" by simp
  have "filter (\<lambda>j. \<not> hi < Fin j) ids = []" if "hi < Fin i"
    using lt order_less_trans[OF that] by (auto simp: filter_empty_conv)
  with Cons show ?case by auto
qed simp

definition between :: "bound \<Rightarrow> bound \<Rightarrow> int list \<Rightarrow> int list" where
  "between lo hi ids = filter (\<lambda>i. lo \<le> Fin i \<and> Fin i \<le> hi) ids"

lemma segment_eqs:
  assumes "strict_sorted (ids_at (entry_ids st) conv)"
  shows "segment_descending st lo (conv, hi) = rev (between lo hi (ids_at (entry_ids st) conv))"
    and "segment_ascending st lo (conv, hi) = between lo hi (ids_at (entry_ids st) conv)"
proof -
  let ?ids = "ids_at (entry_ids st) conv"
  have bounds: "ids_upper_bound ?ids hi \<le> length ?ids" "ids_lower_bound ?ids lo \<le> length ?ids"
    using ids_upper.search_bound[of "(?ids, hi)"] ids_lower.search_bound[of "(?ids, lo)"]
    by (simp_all add: ids_upper_bound_def ids_lower_bound_def)
  have "strict_sorted (rev (rev (filter (\<lambda>i. Fin i \<le> hi) ?ids)))" using assms by (simp add: sorted_wrt_filter)
  from takeWhile_not_less[OF this, of lo] show "segment_descending st lo (conv, hi) = rev (between lo hi ?ids)"
    by (simp add: segment_descending_def map_nth_upt0[OF bounds(1)] upper_cut(1)[OF assms] between_def rev_filter
        not_less conj_commute flip: rev_map)
  have "strict_sorted (filter (\<lambda>i. \<not> Fin i < lo) ?ids)" using assms by (simp add: sorted_wrt_filter)
  from takeWhile_not_above[OF this, of hi] show "segment_ascending st lo (conv, hi) = between lo hi ?ids"
    by (simp add: segment_ascending_def map_nth_upt[OF bounds(2)] lower_cut(2)[OF assms] between_def
        not_less conj_commute)
qed

lemma entry_ids_sorted: "storage_ok st \<Longrightarrow> strict_sorted (ids_at (entry_ids st) conv)"
  by (auto simp: storage_ok_def tables_ok_def keyed_def indexes_def)

lemma concat_rev_segments:
  "storage_ok st \<Longrightarrow> concat (map (segment_ascending st lo) (rev segments)) = rev (concat (map (segment_descending st lo) segments))"
proof (induction segments)
  case (Cons s segments)
  then show ?case by (cases s) (simp add: segment_eqs[OF entry_ids_sorted])
qed simp

section \<open>The walk up the forks\<close>

definition parents_older :: "mem_state \<Rightarrow> bool" where
  "parents_older st \<longleftrightarrow>
     (\<forall>i c p s. conversations st i = Some c \<longrightarrow> conv_parent c = Some (p, s) \<longrightarrow> p < i \<and> conversations st p \<noteq> None)"

definition older_ids :: "mem_state \<Rightarrow> int \<Rightarrow> int list" where
  "older_ids st i = filter (\<lambda>j. j \<le> i) (conversation_ids st)"

lemma older_ids_less:
  assumes "storage_ok st" "conversations st i \<noteq> None" "p < i"
  shows "length (older_ids st p) < length (older_ids st i)"
proof -
  have ids: "set (conversation_ids st) = dom (conversations st)" "distinct (conversation_ids st)"
    using assms(1) by (auto simp: storage_ok_def tables_ok_def indexes_def strict_sorted_iff)
  have "i \<in> set (older_ids st i) - set (older_ids st p)" "set (older_ids st p) \<subseteq> set (older_ids st i)"
    using assms(2,3) ids(1) by (auto simp: older_ids_def)
  then have "set (older_ids st p) \<subset> set (older_ids st i)" by blast
  then have "card (set (older_ids st p)) < card (set (older_ids st i))" by (simp add: psubset_card_mono)
  moreover have "distinct (older_ids st j)" for j using ids(2) by (simp add: older_ids_def)
  ultimately show ?thesis by (simp add: distinct_card)
qed

lemma fork_chain_ends:
  "storage_ok st \<Longrightarrow> parents_older st \<Longrightarrow> conversations st conv \<noteq> None \<Longrightarrow> length (older_ids st conv) < n + 1 \<Longrightarrow>
     \<exists>segments. fork_chain n st lo conv hi = Inr segments"
proof (induction n arbitrary: conv hi)
  case 0
  then have "set (conversation_ids st) = dom (conversations st)"
    by (auto simp: storage_ok_def tables_ok_def indexes_def)
  with 0 have "conv \<in> set (conversation_ids st)" by blast
  then have "conv \<in> set (older_ids st conv)" by (simp add: older_ids_def)
  then have "older_ids st conv \<noteq> []" by auto
  with 0 show ?case by simp
next
  case (Suc n)
  then obtain c where c: "conversations st conv = Some c" by blast
  show ?case
  proof (cases "conv_parent c")
    case (Some ps)
    obtain p s where ps: "ps = (p, s)" by force
    with Suc.prems(2) c Some have p: "p < conv" "conversations st p \<noteq> None" by (auto simp: parents_older_def)
    from older_ids_less[OF Suc.prems(1,3) p(1)] Suc.prems(4) have "length (older_ids st p) < n + 1" by simp
    from Suc.IH[OF Suc.prems(1,2) p(2) this, of "min hi (Fin s)"] c Some ps show ?thesis by (auto simp: Let_def)
  qed (use c in simp)
qed

section \<open>Head markers\<close>

definition has_head :: "mem_state \<Rightarrow> int \<Rightarrow> bool" where
  "has_head st i \<longleftrightarrow> (\<exists>e. entries st i = Some e \<and> entry_head e \<noteq> None)"

lemma head_ids_filter:
  assumes "storage_ok st"
  shows "ids_at (head_entry_ids st) conv = filter (has_head st) (ids_at (entry_ids st) conv)"
proof -
  have h: "indexes (ids_at (head_entry_ids st) conv) (entries st)
      (\<lambda>r. (if entry_head r = None then None else Some (entry_conv r)) = Some conv)"
    and e: "indexes (ids_at (entry_ids st) conv) (entries st) (\<lambda>r. Some (entry_conv r) = Some conv)"
    using assms by (simp_all add: storage_ok_def tables_ok_def keyed_def)
  have "set (ids_at (head_entry_ids st) conv) = set (filter (has_head st) (ids_at (entry_ids st) conv))"
    using h e by (force simp: indexes_def has_head_def)
  moreover have "strict_sorted (filter (has_head st) (ids_at (entry_ids st) conv))"
    using e by (simp add: indexes_def sorted_wrt_filter)
  moreover have "strict_sorted (ids_at (head_entry_ids st) conv)" using h by (simp add: indexes_def)
  ultimately show ?thesis by (intro sorted_distinct_set_unique) (simp_all only: strict_sorted_iff)
qed

lemma last_between:
  assumes "strict_sorted hs" "ids_upper_bound hs hi > 0"
  shows "hs ! (ids_upper_bound hs hi - 1) = last (filter (\<lambda>i. Fin i \<le> hi) hs)"
proof -
  let ?n = "ids_upper_bound hs hi"
  have n: "?n \<le> length hs" using ids_upper.search_bound[of "(hs, hi)"] by (simp add: ids_upper_bound_def)
  have "hs ! (?n - 1) = last (take ?n hs)" using n assms(2) by (cases hs) (auto simp: last_conv_nth)
  then show ?thesis by (simp add: upper_cut(1)[OF assms(1)])
qed

lemma find_rev: "List.find P (rev xs) = (if filter P xs = [] then None else Some (last (filter P xs)))"
  by (induction xs rule: rev_induct) (auto simp: find_None_iff filter_empty_conv)

lemma find_append: "List.find P (xs @ ys) = (case List.find P xs of None \<Rightarrow> List.find P ys | Some x \<Rightarrow> Some x)"
  by (induction xs) auto

lemma find_head_eq:
  "storage_ok st \<Longrightarrow> fork_chain n st NegInf conv hi = Inr segments \<Longrightarrow>
     find_head n st conv hi =
       Inr (Option.bind (List.find (has_head st) (concat (map (segment_descending st NegInf) segments))) (entries st))"
proof (induction n arbitrary: conv hi segments)
  case (Suc n)
  let ?ids = "ids_at (entry_ids st) conv" and ?hs = "ids_at (head_entry_ids st) conv"
  let ?found = "filter (\<lambda>i. Fin i \<le> hi) ?hs"
  have sorted: "strict_sorted ?ids" "strict_sorted ?hs"
    using Suc.prems(1) by (auto simp: storage_ok_def tables_ok_def keyed_def indexes_def)
  have seg: "List.find (has_head st) (segment_descending st NegInf (conv, hi)) =
      (if ?found = [] then None else Some (last ?found))"
    by (simp add: segment_eqs[OF sorted(1)] find_rev between_def head_ids_filter[OF Suc.prems(1)] conj_commute)
  have empty: "?found = [] \<longleftrightarrow> \<not> ids_upper_bound ?hs hi > 0"
  proof -
    have "ids_upper_bound ?hs hi \<le> length ?hs"
      using ids_upper.search_bound[of "(?hs, hi)"] by (simp add: ids_upper_bound_def)
    then show ?thesis unfolding upper_cut(1)[OF sorted(2), symmetric] by auto
  qed
  obtain c where c: "conversations st conv = Some c" using Suc.prems(2) by (auto split: option.splits)
  show ?case
  proof (cases "?found = []")
    case False
    then have "last ?found \<in> set ?hs" using last_in_set by fastforce
    then obtain e where "entries st (last ?found) = Some e"
      using head_ids_filter[OF Suc.prems(1)] by (auto simp: has_head_def)
    moreover obtain rest where "segments = (conv, hi) # rest"
      using Suc.prems(2) c by (auto simp: Let_def res_simps split: option.splits prod.splits if_splits)
    ultimately show ?thesis
      using False empty last_between[OF sorted(2), of hi]
      by (simp add: Let_def read_entry_def find_append seg)
  next
    case True
    show ?thesis
    proof (cases "conv_parent c")
      case None
      with True empty seg c Suc.prems(2) show ?thesis by (auto simp: Let_def find_append)
    next
      case (Some ps)
      obtain p s where ps: "ps = (p, s)" by force
      have "\<not> min hi (Fin s) < NegInf" by (metis bound_simps(7) not_le)
      with Some ps c Suc.prems(2) obtain rest where "segments = (conv, hi) # rest"
        "fork_chain n st NegInf p (min hi (Fin s)) = Inr rest" by (auto simp: Let_def res_simps)
      with Suc.IH[OF Suc.prems(1)] True empty seg c Some ps show ?thesis by (simp add: Let_def find_append)
    qed
  qed
qed simp


section \<open>Properties\<close>

text \<open>
  The visible entries of a conversation are the same whichever way they are scanned: the
  ascending scan, which walks the chain of forks first and then down again, gives the
  descending one reversed, errors included.
\<close>

theorem visible_directions:
  assumes "storage_ok st"
  shows "visible_ids_ascending st conv lo hi = bind_res (visible_ids st conv lo hi) (\<lambda>ids. Inr (rev ids))"
  using concat_rev_segments[OF assms]
  by (cases "fork_chain (chain_fuel st) st lo conv hi") (auto simp: visible_ids_ascending_def visible_ids_def)

theorem visible_directions_witness:
  "visible_ids_ascending sample_storage 5 NegInf PosInf = Inr [3, 6]"
proof -
  have "visible_ids sample_storage 5 NegInf PosInf = Inr [6, 3]" by code_simp
  with visible_directions[OF sample_ok, of 5 NegInf PosInf] show ?thesis by simp
qed

text \<open>
  C16: The walk up the forks of a conversation ends: when every parent exists and is older than
  its child, the history of each conversation is found within as many steps as there are
  conversations.
\<close>

theorem visible_walk_ends:
  assumes "storage_ok st" "parents_older st" "conversations st conv \<noteq> None"
  shows "\<exists>ids. visible_ids st conv lo hi = Inr ids"
proof -
  have "length (older_ids st conv) < chain_fuel st + 1"
    using length_filter_le[of "\<lambda>j. j \<le> conv" "conversation_ids st"] by (simp add: older_ids_def chain_fuel_def le_imp_less_Suc le_SucI)
  from fork_chain_ends[OF assms this] obtain segments where "fork_chain (chain_fuel st) st lo conv hi = Inr segments" by blast
  with assms(3) show ?thesis by (simp add: visible_ids_def)
qed

theorem visible_walk_ends_witness: "\<exists>ids. visible_ids sample_storage 5 NegInf (Fin 6) = Inr ids"
proof (rule visible_walk_ends[OF sample_ok])
  have "set (conversation_ids sample_storage) = dom (conversations sample_storage)"
    using sample_ok by (auto simp: storage_ok_def tables_ok_def indexes_def)
  moreover have "conversation_ids sample_storage = [2, 5]" by code_simp
  moreover have "map (\<lambda>i. map_option conv_parent (conversations sample_storage i)) [2, 5] = [Some None, Some (Some (2, 3))]" by code_simp
  ultimately have dom: "conversations sample_storage i \<noteq> None \<Longrightarrow> i = 2 \<or> i = 5" for i by (auto simp: dom_def set_eq_iff)
  show "parents_older sample_storage"
    unfolding parents_older_def
  proof (intro allI impI)
    fix i c p s assume c: "conversations sample_storage i = Some c" "conv_parent c = Some (p, s)"
    with dom[of i] \<open>map _ [2, 5] = _\<close> show "p < i \<and> conversations sample_storage p \<noteq> None" by auto
  qed
  show "conversations sample_storage 5 \<noteq> None" by code_simp
qed

text \<open>
  \<open>findLatestHeadMarker\<close> finds the first entry with a head among the visible entries of
  the conversation at or before the given one, newest first, and nothing when there is none.
\<close>

theorem latest_head_marker:
  assumes "storage_ok st" "\<not> closed st" "visible_ids st conv NegInf (upper_of cutoff) = Inr ids"
  shows "find_latest_head_marker st conv cutoff = Inr (Option.bind (List.find (has_head st) ids) (entries st))"
  using assms find_head_eq[OF assms(1), of "chain_fuel st" conv "upper_of cutoff"]
  by (auto simp: find_latest_head_marker_def visible_ids_def assert_open_def res_simps split: if_splits)

theorem latest_head_marker_witness:
  "find_latest_head_marker sample_storage 2 None = Inr (Some (sample_entry 4 2 (Some 3)))"
proof -
  have "visible_ids sample_storage 2 NegInf (upper_of None) = Inr [4, 3]"
    "map (\<lambda>i. map_option (\<lambda>e. entry_head e) (entries sample_storage i)) [4, 3] = [Some (Some 3), Some None]"
    "entries sample_storage 4 = Some (sample_entry 4 2 (Some 3))" by code_simp+
  with latest_head_marker[OF sample_ok sample_open this(1)] show ?thesis by (simp add: has_head_def sample_entry_def)
qed

end
