(* ===== verification/Context_View.thy ===== *)
theory Context_View
  imports Json_Value
begin

text \<open>
  The model context of a conversation (\<open>packages/durable/src/harness/context.ts\<close>): which
  entries of the visible range are active, what each contributes after edits, the order of
  tool results, the leading system message, and the two ways to get there, from scratch
  (\<open>deriveRange\<close>) and by extending an earlier range (\<open>extendRange\<close>).

  A message carries a reference number that stands for its object identity, which
  \<open>leadWithSystem\<close> compares; 0 is an object made on the way. Freezing is an identity.
\<close>

section \<open>Messages and entries\<close>

record tool_call =
  call_id :: string
  call_name :: string

datatype content_block = CallBlock tool_call | OtherBlock json

datatype message_body =
    SystemMessage json
  | UserMessage json
  | AssistantMessage "content_block list" string int
  | ToolResultMessage string string json bool "json option" int

record message =
  msg_ref :: nat
  msg_body :: message_body

fun is_system :: "message_body \<Rightarrow> bool" where
  "is_system (SystemMessage _) = True" | "is_system _ = False"

fun is_user :: "message_body \<Rightarrow> bool" where
  "is_user (UserMessage _) = True" | "is_user _ = False"

fun is_assistant :: "message_body \<Rightarrow> bool" where
  "is_assistant (AssistantMessage _ _ _) = True" | "is_assistant _ = False"

fun result_for :: "string \<Rightarrow> message_body \<Rightarrow> bool" where
  "result_for i (ToolResultMessage j _ _ _ _ _) = (j = i)" | "result_for i _ = False"

fun is_result :: "message_body \<Rightarrow> bool" where
  "is_result (ToolResultMessage _ _ _ _ _ _) = True" | "is_result _ = False"

datatype edit_action = Omit | ReplaceBy "message list"

record context_edit =
  edit_target :: int
  edit_action_of :: edit_action

record context_entry =
  ce_id :: int
  ce_kind :: string
  ce_model :: "message list option"
  ce_head :: "int option"
  ce_edits :: "context_edit list option"

record context_bounds =
  cb_head :: "context_entry option"
  cb_tail :: int

datatype baseline = Unknown | Absent | Baseline message

record context_view =
  cv_head :: "context_entry option"
  cv_entries :: "context_entry list"
  cv_contributions :: "message list list"
  cv_messages :: "message list"

record context_range =
  cr_bounds :: context_bounds
  cr_entries :: "context_entry list"
  cr_view :: context_view
  cr_edited :: "int set"
  cr_settled :: "message list"
  cr_open :: "message list"
  cr_baseline :: baseline

section \<open>Tool results\<close>

definition MISSING_RESULT_TEXT :: string where
  "MISSING_RESULT_TEXT = ''Tool result unavailable: history ends before this call completed.''"

definition missing_result :: "tool_call \<Rightarrow> int \<Rightarrow> message" where
  "missing_result call timestamp =
     \<lparr>msg_ref = 0, msg_body = ToolResultMessage (call_id call) (call_name call)
       (Arr [Obj [(''type'', Prim (PStr ''text'')), (''text'', Prim (PStr MISSING_RESULT_TEXT))]])
       True (Some (Obj [(''reason'', Prim (PStr ''missing_result''))])) timestamp\<rparr>"

fun calls_of :: "content_block list \<Rightarrow> tool_call list" where
  "calls_of [] = []"
| "calls_of (CallBlock c # bs) = c # calls_of bs"
| "calls_of (OtherBlock _ # bs) = calls_of bs"

text \<open>The result of a call: the first one with its id before the next assistant message.\<close>

definition answer_call :: "message list \<Rightarrow> int \<Rightarrow> tool_call \<Rightarrow> message" where
  "answer_call rest timestamp call =
     (case List.find (\<lambda>m. result_for (call_id call) (msg_body m)) (takeWhile (\<lambda>m. \<not> is_assistant (msg_body m)) rest) of
        None \<Rightarrow> missing_result call timestamp
      | Some m \<Rightarrow> m)"

fun order_tool_results :: "message list \<Rightarrow> message list" where
  "order_tool_results [] = []"
| "order_tool_results (m # rest) =
     (case msg_body m of
        ToolResultMessage _ _ _ _ _ _ \<Rightarrow> order_tool_results rest
      | AssistantMessage content _ timestamp \<Rightarrow>
          m # map (answer_call rest timestamp) (calls_of content) @ order_tool_results rest
      | _ \<Rightarrow> m # order_tool_results rest)"

definition last_assistant :: "message list \<Rightarrow> nat option" where
  "last_assistant ms = List.find (\<lambda>i. is_assistant (msg_body (ms ! i))) (rev [0 ..< length ms])"

definition settle :: "message list \<Rightarrow> message list \<Rightarrow> message list \<times> message list" where
  "settle settled opened =
     (case last_assistant opened of
        None \<Rightarrow> (settled, opened)
      | Some at \<Rightarrow>
          if at \<le> 0 then (settled, opened)
          else (settled @ order_tool_results (take at opened), drop at opened))"

section \<open>Contributions\<close>

definition EXCLUDED_STOP_REASONS :: "string set" where
  "EXCLUDED_STOP_REASONS = {''aborted'', ''error'', ''deferred''}"

fun excluded :: "message_body \<Rightarrow> bool" where
  "excluded (AssistantMessage _ stop _) = (stop \<in> EXCLUDED_STOP_REASONS)"
| "excluded _ = False"

definition contribute :: "context_entry \<Rightarrow> context_edit option \<Rightarrow> message list" where
  "contribute e edit =
     (if map_option edit_action_of edit = Some Omit then []
      else filter (\<lambda>m. \<not> excluded (msg_body m))
        (case map_option edit_action_of edit of
           Some (ReplaceBy ms) \<Rightarrow> ms
         | _ \<Rightarrow> (case ce_model e of None \<Rightarrow> [] | Some ms \<Rightarrow> ms)))"

definition edits_of :: "context_entry \<Rightarrow> context_edit list" where
  "edits_of e = (case ce_edits e of None \<Rightarrow> [] | Some es \<Rightarrow> es)"

definition collect_edits :: "context_entry list \<Rightarrow> int \<rightharpoonup> context_edit" where
  "collect_edits entries = fold (\<lambda>edit m. m(edit_target edit \<mapsto> edit)) (concat (map edits_of entries)) Map.empty"

definition edited_ids :: "context_entry list \<Rightarrow> int set" where
  "edited_ids entries = set (map edit_target (concat (map edits_of entries)))"

definition select_active :: "context_entry option \<Rightarrow> context_entry list \<Rightarrow> context_entry list" where
  "select_active head entries =
     (case head of None \<Rightarrow> entries | Some h \<Rightarrow> h # filter (\<lambda>e. ce_head e = None) entries)"

section \<open>The baseline\<close>

definition carries_system_message :: "context_entry \<Rightarrow> bool" where
  "carries_system_message e \<longleftrightarrow>
     (\<exists>m \<in> set (case ce_model e of None \<Rightarrow> [] | Some ms \<Rightarrow> ms). is_system (msg_body m)) \<or>
     (\<exists>edit \<in> set (edits_of e).
        case edit_action_of edit of Omit \<Rightarrow> False | ReplaceBy ms \<Rightarrow> \<exists>m \<in> set ms. is_system (msg_body m))"

fun find_baseline :: "context_entry option \<Rightarrow> context_entry list \<Rightarrow> baseline" where
  "find_baseline head [] = Unknown"
| "find_baseline head (e # es) =
     (if (case head of None \<Rightarrow> False | Some h \<Rightarrow> ce_id e \<le> ce_id h) then find_baseline head es
      else if ce_kind e = ''pi.system'' then
        (case List.find (\<lambda>m. is_system (msg_body m)) (case ce_model e of None \<Rightarrow> [] | Some ms \<Rightarrow> ms) of
           None \<Rightarrow> Absent | Some m \<Rightarrow> Baseline m)
      else if head = None \<and> carries_system_message e then Absent
      else find_baseline head es)"

definition same_message :: "message \<Rightarrow> baseline \<Rightarrow> bool" where
  "same_message m b = (case b of Baseline n \<Rightarrow> msg_ref m = msg_ref n | _ \<Rightarrow> False)"

definition lead_with_system :: "message list \<Rightarrow> baseline \<Rightarrow> message list" where
  "lead_with_system ms b =
     (let before = takeWhile (\<lambda>m. \<not> is_system (msg_body m)) ms in
      case dropWhile (\<lambda>m. \<not> is_system (msg_body m)) ms of
        [] \<Rightarrow> ms
      | system # after \<Rightarrow>
          if before = [] then ms
          else if \<not> same_message system b \<and> (\<exists>m \<in> set before. \<not> is_user (msg_body m)) then ms
          else system # before @ after)"

section \<open>Ranges\<close>

definition derive_range :: "context_bounds \<Rightarrow> context_entry list \<Rightarrow> context_range" where
  "derive_range bounds entries =
     (let edits = collect_edits entries;
          active = select_active (cb_head bounds) entries;
          contributions = map (\<lambda>e. contribute e (edits (ce_id e))) active;
          (settled, opened) = settle [] (concat contributions);
          baseline = find_baseline (cb_head bounds) active;
          messages = lead_with_system (settled @ order_tool_results opened) baseline
      in \<lparr>cr_bounds = bounds, cr_entries = entries,
          cr_view = \<lparr>cv_head = cb_head bounds, cv_entries = active, cv_contributions = contributions, cv_messages = messages\<rparr>,
          cr_edited = edited_ids entries, cr_settled = settled, cr_open = opened, cr_baseline = baseline\<rparr>)"

definition extend_range :: "context_range \<Rightarrow> context_bounds \<Rightarrow> context_entry list \<Rightarrow> context_range" where
  "extend_range previous bounds added =
     (let entries = cr_entries previous @ added in
      if \<exists>e \<in> set added. ce_edits e \<noteq> None \<or> ce_head e \<noteq> None \<or> ce_id e \<in> cr_edited previous
      then derive_range bounds entries
      else
        (let contributions = map (\<lambda>e. contribute e None) added;
             (settled, opened) = settle (cr_settled previous) (cr_open previous @ concat contributions);
             baseline = (if cr_baseline previous \<noteq> Unknown then cr_baseline previous
               else find_baseline (cb_head bounds) added)
         in \<lparr>cr_bounds = bounds, cr_entries = entries,
             cr_view = \<lparr>cv_head = cb_head bounds, cv_entries = cv_entries (cr_view previous) @ added,
               cv_contributions = cv_contributions (cr_view previous) @ contributions,
               cv_messages = lead_with_system (settled @ order_tool_results opened) baseline\<rparr>,
             cr_edited = cr_edited previous, cr_settled = settled, cr_open = opened, cr_baseline = baseline\<rparr>))"

definition empty_view :: context_view where
  "empty_view = \<lparr>cv_head = None, cv_entries = [], cv_contributions = [], cv_messages = []\<rparr>"

section \<open>Order of tool results\<close>

lemma takeWhile_part:
  "takeWhile (\<lambda>m. \<not> is_assistant (msg_body m)) (xs @ y # ys) =
     takeWhile (\<lambda>m. \<not> is_assistant (msg_body m)) xs" if "is_assistant (msg_body y)"
  using that by (induction xs) auto

lemma answer_call_part:
  "is_assistant (msg_body y) \<Longrightarrow> answer_call (xs @ y # ys) t c = answer_call xs t c"
  by (simp add: answer_call_def takeWhile_part)

text \<open>The results of a sequence are those of its parts when each part starts with an assistant message.\<close>

lemma order_parts:
  "ys = [] \<or> is_assistant (msg_body (hd ys)) \<Longrightarrow>
     order_tool_results (xs @ ys) = order_tool_results xs @ order_tool_results ys"
proof (induction xs)
  case (Cons x xs)
  have "answer_call (xs @ ys) t = answer_call xs t" for t
    using Cons.prems answer_call_part[of "hd ys" xs "tl ys"] by (cases ys) auto
  with Cons show ?case by (auto split: message_body.splits)
qed simp

lemma last_assistant_None: "last_assistant ms = None \<longleftrightarrow> (\<forall>m \<in> set ms. \<not> is_assistant (msg_body m))"
  by (auto simp: last_assistant_def find_None_iff all_set_conv_all_nth)

lemma last_assistant_snoc:
  "last_assistant (ms @ [m]) = (if is_assistant (msg_body m) then Some (length ms) else last_assistant ms)"
proof -
  have "List.find (\<lambda>i. is_assistant (msg_body ((ms @ [m]) ! i))) (rev [0 ..< length ms]) =
      List.find (\<lambda>i. is_assistant (msg_body (ms ! i))) (rev [0 ..< length ms])"
    by (rule find_cong) (auto simp: nth_append)
  then show ?thesis by (simp add: last_assistant_def)
qed

lemma last_assistant_append:
  "last_assistant (xs @ ys) =
     (case last_assistant ys of None \<Rightarrow> last_assistant xs | Some i \<Rightarrow> Some (length xs + i))"
proof (induction ys rule: rev_induct)
  case Nil
  then show ?case by (simp add: last_assistant_def)
next
  case (snoc y ys)
  then show ?case by (simp flip: append_assoc add: last_assistant_snoc split: option.splits)
qed

lemma last_assistant_Some:
  "last_assistant ms = Some i \<Longrightarrow> i < length ms \<and> is_assistant (msg_body (ms ! i)) \<and> last_assistant (drop i ms) = Some 0"
proof (induction ms arbitrary: i rule: rev_induct)
  case (snoc m ms)
  show ?case
  proof (cases "is_assistant (msg_body m)")
    case True
    with snoc.prems show ?thesis by (auto simp: last_assistant_snoc) (simp add: last_assistant_def)
  next
    case False
    with snoc.prems snoc.IH[of i] have "i < length ms" "is_assistant (msg_body (ms ! i))" "last_assistant (drop i ms) = Some 0"
      by (auto simp: last_assistant_snoc)
    with False show ?thesis by (simp add: nth_append last_assistant_snoc)
  qed
qed (simp add: last_assistant_def)


text \<open>Settling in two steps is settling at once.\<close>

lemma settle_append:
  assumes "settle [] xs = (s, rest)"
  shows "settle s (rest @ ys) = settle [] (xs @ ys)"
proof -
  have split: "(\<exists>i. last_assistant xs = Some i \<and> 0 < i \<and> s = order_tool_results (take i xs) \<and> rest = drop i xs) \<or>
      (s = [] \<and> rest = xs)"
    using assms by (auto simp: settle_def split: option.splits if_splits)
  then show ?thesis
  proof
    assume "s = [] \<and> rest = xs"
    then show ?thesis by simp
  next
    assume "\<exists>i. last_assistant xs = Some i \<and> 0 < i \<and> s = order_tool_results (take i xs) \<and> rest = drop i xs"
    then obtain i where i: "last_assistant xs = Some i" "0 < i" "s = order_tool_results (take i xs)" "rest = drop i xs" by blast
    note at = last_assistant_Some[OF i(1)]
    show ?thesis
    proof (cases "last_assistant ys")
      case None
      with i at show ?thesis by (simp add: settle_def last_assistant_append)
    next
      case (Some j)
      have "order_tool_results (take i xs @ (drop i xs @ take j ys)) =
          order_tool_results (take i xs) @ order_tool_results (drop i xs @ take j ys)"
        using at by (intro order_parts) (simp add: hd_drop_conv_nth)
      moreover have "take i xs @ (drop i xs @ take j ys) = xs @ take j ys" by (simp flip: append_assoc)
      moreover have "drop i xs \<noteq> []" using at by simp
      ultimately show ?thesis
        using Some i at by (simp add: settle_def last_assistant_append)
    qed
  qed
qed

section \<open>Extending a range\<close>

lemma find_baseline_append:
  "find_baseline head (xs @ ys) = (if find_baseline head xs \<noteq> Unknown then find_baseline head xs else find_baseline head ys)"
  by (induction xs) (auto split: option.splits)

lemma collect_edits_append:
  "\<forall>e \<in> set ys. edits_of e = [] \<Longrightarrow> collect_edits (xs @ ys) = collect_edits xs"
proof -
  assume "\<forall>e \<in> set ys. edits_of e = []"
  then have "concat (map edits_of ys) = []" by simp
  then show ?thesis by (simp only: collect_edits_def map_append concat_append append_Nil2)
qed

lemma collect_edits_None: "i \<notin> edited_ids es \<Longrightarrow> collect_edits es i = None"
proof -
  have *: "i \<notin> set (map edit_target edits) \<Longrightarrow> fold (\<lambda>edit m. m(edit_target edit \<mapsto> edit)) edits m i = m i" for edits m
    by (induction edits arbitrary: m) auto
  then show "i \<notin> edited_ids es \<Longrightarrow> collect_edits es i = None"
    unfolding edited_ids_def collect_edits_def by (subst *) simp_all
qed

lemma extend_derived:
  assumes "cb_head bounds = cb_head b"
  shows "extend_range (derive_range b entries) bounds added = derive_range bounds (entries @ added)"
proof (cases "\<exists>e \<in> set added. ce_edits e \<noteq> None \<or> ce_head e \<noteq> None \<or> ce_id e \<in> edited_ids entries")
  case True
  moreover have "cr_edited (derive_range b entries) = edited_ids entries" "cr_entries (derive_range b entries) = entries"
    by (simp_all add: derive_range_def Let_def split: prod.splits)
  ultimately show ?thesis unfolding extend_range_def Let_def by simp
next
  case False
  then have added: "\<forall>e \<in> set added. ce_head e = None \<and> edits_of e = [] \<and> ce_id e \<notin> edited_ids entries"
    by (auto simp: edits_of_def)
  then have active: "select_active (cb_head b) (entries @ added) = select_active (cb_head b) entries @ added"
    by (auto simp: select_active_def filter_id_conv split: option.splits)
  have edits: "collect_edits (entries @ added) = collect_edits entries" "edited_ids (entries @ added) = edited_ids entries"
    using added collect_edits_append by (auto simp: edited_ids_def)
  have contributed: "map (\<lambda>e. contribute e (collect_edits entries (ce_id e))) added = map (\<lambda>e. contribute e None) added"
    using added by (auto simp: collect_edits_None)
  let ?c = "concat (map (\<lambda>e. contribute e (collect_edits entries (ce_id e))) (select_active (cb_head b) entries))"
  let ?a = "concat (map (\<lambda>e. contribute e None) added)"
  obtain s rest where s: "settle [] ?c = (s, rest)" by force
  obtain s' rest' where s': "settle s (rest @ ?a) = (s', rest')" by force
  with settle_append[OF s, of ?a] have all: "settle [] (?c @ ?a) = (s', rest')" by simp
  let ?act = "select_active (cb_head b) entries"
  let ?con = "map (\<lambda>e. contribute e (collect_edits entries (ce_id e))) ?act"
  let ?base = "find_baseline (cb_head b) (?act @ added)"
  have prev: "derive_range b entries = \<lparr>cr_bounds = b, cr_entries = entries,
      cr_view = \<lparr>cv_head = cb_head b, cv_entries = ?act, cv_contributions = ?con,
        cv_messages = lead_with_system (s @ order_tool_results rest) (find_baseline (cb_head b) ?act)\<rparr>,
      cr_edited = edited_ids entries, cr_settled = s, cr_open = rest, cr_baseline = find_baseline (cb_head b) ?act\<rparr>"
    unfolding derive_range_def Let_def s prod.case ..
  have full: "derive_range bounds (entries @ added) = \<lparr>cr_bounds = bounds, cr_entries = entries @ added,
      cr_view = \<lparr>cv_head = cb_head b, cv_entries = ?act @ added, cv_contributions = ?con @ map (\<lambda>e. contribute e None) added,
        cv_messages = lead_with_system (s' @ order_tool_results rest') ?base\<rparr>,
      cr_edited = edited_ids entries, cr_settled = s', cr_open = rest', cr_baseline = ?base\<rparr>"
    unfolding derive_range_def Let_def assms active edits map_append contributed concat_append all prod.case ..
  have base: "?base = (if find_baseline (cb_head b) ?act \<noteq> Unknown then find_baseline (cb_head b) ?act
      else find_baseline (cb_head b) added)" by (rule find_baseline_append)
  have no: "\<not> (\<exists>e \<in> set added. ce_edits e \<noteq> None \<or> ce_head e \<noteq> None \<or> ce_id e \<in> edited_ids entries)" by fact
  show ?thesis
    unfolding full prev extend_range_def Let_def context_range.simps context_view.simps if_not_P[OF no] s' prod.case base assms ..
qed


section \<open>Pairing\<close>

text \<open>Every assistant message is followed by one result per call, in call order; no result is elsewhere.\<close>

function paired :: "message list \<Rightarrow> bool" where
  "paired [] = True"
| "paired (m # ms) =
     (case msg_body m of
        ToolResultMessage _ _ _ _ _ _ \<Rightarrow> False
      | AssistantMessage content _ _ \<Rightarrow>
          (let calls = calls_of content in
           list_all2 (\<lambda>c r. result_for (call_id c) (msg_body r)) calls (take (length calls) ms) \<and>
           paired (drop (length calls) ms))
      | _ \<Rightarrow> paired ms)"
  by pat_completeness auto
termination
  by (relation "measure length") auto

lemma answer_call_result: "result_for (call_id c) (msg_body (answer_call rest t c))"
  by (auto simp: answer_call_def missing_result_def find_Some_iff split: option.splits)

lemma result_for_is_result: "result_for i b \<Longrightarrow> is_result b"
  by (cases b) auto

lemma order_paired: "paired (order_tool_results ms)"
proof (induction ms)
  case (Cons m ms)
  have "list_all2 (\<lambda>c r. result_for (call_id c) (msg_body r)) cs (map (answer_call ms t) cs)" for cs t
    by (induction cs) (auto simp: answer_call_result)
  with Cons show ?case by (auto simp: Let_def split: message_body.splits)
qed simp

lemma order_others:
  "filter (\<lambda>m. \<not> is_result (msg_body m)) (order_tool_results ms) = filter (\<lambda>m. \<not> is_result (msg_body m)) ms"
proof (induction ms)
  case (Cons m ms)
  have "filter (\<lambda>m. \<not> is_result (msg_body m)) (map (answer_call ms t) cs) = []" for cs t
    using answer_call_result result_for_is_result by (fastforce simp: filter_empty_conv)
  with Cons show ?case by (auto split: message_body.splits)
qed simp

text \<open>
  Message \<open>j\<close> is a result of call \<open>c\<close> of message \<open>i\<close>: it comes after \<open>i\<close>, carries the call's id, and
  no assistant message stands in between. A call's own result is the first of these, or the synthetic
  result with the assistant message's time when there is none.
\<close>

definition result_at :: "message list \<Rightarrow> nat \<Rightarrow> tool_call \<Rightarrow> nat \<Rightarrow> bool" where
  "result_at ms i c j \<longleftrightarrow> i < j \<and> j < length ms \<and> result_for (call_id c) (msg_body (ms ! j)) \<and>
     (\<forall>k. i < k \<and> k < j \<longrightarrow> \<not> is_assistant (msg_body (ms ! k)))"

definition own_result :: "message list \<Rightarrow> nat \<Rightarrow> int \<Rightarrow> tool_call \<Rightarrow> message \<Rightarrow> bool" where
  "own_result ms i timestamp c r \<longleftrightarrow>
     (\<exists>j. result_at ms i c j \<and> (\<forall>j'. result_at ms i c j' \<longrightarrow> j \<le> j') \<and> r = ms ! j) \<or>
     (\<forall>j. \<not> result_at ms i c j) \<and> r = missing_result c timestamp"

text \<open>What message \<open>i\<close> becomes in the ordered messages.\<close>

definition ordered_at :: "message list \<Rightarrow> nat \<Rightarrow> message list \<Rightarrow> bool" where
  "ordered_at ms i out \<longleftrightarrow>
     (case msg_body (ms ! i) of
        ToolResultMessage _ _ _ _ _ _ \<Rightarrow> out = []
      | AssistantMessage content _ timestamp \<Rightarrow>
          (\<exists>rs. out = ms ! i # rs \<and> list_all2 (own_result ms i timestamp) (calls_of content) rs)
      | _ \<Rightarrow> out = [ms ! i])"

lemma result_at_Suc: "result_at (m # ms) (Suc i) c j \<longleftrightarrow> (\<exists>j'. j = Suc j' \<and> result_at ms i c j')"
proof (cases j)
  case (Suc n)
  have "(\<forall>k. Suc i < k \<and> k < Suc n \<longrightarrow> \<not> is_assistant (msg_body ((m # ms) ! k))) \<longleftrightarrow>
      (\<forall>k. i < k \<and> k < n \<longrightarrow> \<not> is_assistant (msg_body (ms ! k)))"
    by (metis Suc_less_eq less_imp_Suc_add nth_Cons_Suc)
  with Suc show ?thesis by (simp add: result_at_def)
qed (simp add: result_at_def)

lemma own_result_Suc: "own_result (m # ms) (Suc i) t = own_result ms i t"
proof (intro ext)
  fix c r
  have "(\<forall>j'. result_at (m # ms) (Suc i) c j' \<longrightarrow> Suc j \<le> j') \<longleftrightarrow> (\<forall>j'. result_at ms i c j' \<longrightarrow> j \<le> j')" for j
    by (auto simp: result_at_Suc)
  then show "own_result (m # ms) (Suc i) t c r = own_result ms i t c r"
    unfolding own_result_def by (auto simp: result_at_Suc)
qed

lemma ordered_at_Suc: "ordered_at (m # ms) (Suc i) = ordered_at ms i"
  by (rule ext) (simp add: ordered_at_def own_result_Suc split: message_body.split)

text \<open>The first element of \<open>P\<close>, where everything before it is in \<open>Q\<close>.\<close>

definition first_at :: "('a \<Rightarrow> bool) \<Rightarrow> ('a \<Rightarrow> bool) \<Rightarrow> 'a list \<Rightarrow> nat \<Rightarrow> bool" where
  "first_at P Q xs j \<longleftrightarrow> j < length xs \<and> P (xs ! j) \<and> (\<forall>k < j. Q (xs ! k))"

lemma first_at_Cons: "first_at P Q (x # xs) j \<longleftrightarrow> j = 0 \<and> P x \<or> (\<exists>i. j = Suc i \<and> Q x \<and> first_at P Q xs i)"
  by (cases j) (auto simp: first_at_def All_less_Suc2)

lemma find_takeWhile:
  assumes "\<And>x. P x \<Longrightarrow> Q x"
  shows "case List.find P (takeWhile Q xs) of
      None \<Rightarrow> \<forall>j. \<not> first_at P Q xs j
    | Some x \<Rightarrow> \<exists>j. first_at P Q xs j \<and> (\<forall>k. first_at P Q xs k \<longrightarrow> j \<le> k) \<and> x = xs ! j"
proof (induction xs)
  case Nil
  then show ?case by (simp add: first_at_def)
next
  case (Cons x xs)
  show ?case
  proof (cases "P x")
    case True
    with assms[of x] show ?thesis by (auto simp: first_at_Cons intro: exI[of _ 0])
  next
    case False
    with Cons show ?thesis
      by (cases "List.find P (takeWhile Q xs)") (fastforce simp: first_at_Cons intro: exI[of _ "Suc j" for j])+
  qed
qed

lemma result_at_head:
  "result_at (m # ms) 0 c j \<longleftrightarrow> (\<exists>i. j = Suc i \<and>
     first_at (\<lambda>m. result_for (call_id c) (msg_body m)) (\<lambda>m. \<not> is_assistant (msg_body m)) ms i)"
proof (cases j)
  case (Suc i)
  have "(\<forall>k. 0 < k \<and> k < Suc i \<longrightarrow> \<not> is_assistant (msg_body ((m # ms) ! k))) \<longleftrightarrow>
      (\<forall>k < i. \<not> is_assistant (msg_body (ms ! k)))"
    by (metis Suc_less_eq gr0_conv_Suc nth_Cons_Suc)
  with Suc show ?thesis by (auto simp: result_at_def first_at_def)
qed (simp add: result_at_def)

lemma result_for_not_assistant: "result_for i b \<Longrightarrow> \<not> is_assistant b"
  by (cases b) auto

lemma answer_call_own: "own_result (m # ms) 0 t c (answer_call ms t c)"
proof -
  let ?P = "\<lambda>m. result_for (call_id c) (msg_body m)" and ?Q = "\<lambda>m. \<not> is_assistant (msg_body m)"
  have "case List.find ?P (takeWhile ?Q ms) of
      None \<Rightarrow> \<forall>j. \<not> first_at ?P ?Q ms j
    | Some x \<Rightarrow> \<exists>j. first_at ?P ?Q ms j \<and> (\<forall>k. first_at ?P ?Q ms k \<longrightarrow> j \<le> k) \<and> x = ms ! j"
    by (rule find_takeWhile) (rule result_for_not_assistant)
  then show ?thesis
    by (cases "List.find ?P (takeWhile ?Q ms)") (auto simp: own_result_def result_at_head answer_call_def)
qed

lemma order_placed:
  "\<exists>outs. order_tool_results ms = concat outs \<and> list_all2 (ordered_at ms) [0..<length ms] outs"
proof (induction ms)
  case (Cons m ms)
  then obtain outs where outs: "order_tool_results ms = concat outs" "list_all2 (ordered_at ms) [0..<length ms] outs" by blast
  define out where "out = (case msg_body m of ToolResultMessage _ _ _ _ _ _ \<Rightarrow> []
      | AssistantMessage content _ t \<Rightarrow> m # map (answer_call ms t) (calls_of content) | _ \<Rightarrow> [m])"
  have "order_tool_results (m # ms) = concat (out # outs)"
    using outs(1) by (auto simp: out_def split: message_body.splits)
  moreover have "list_all2 (own_result (m # ms) 0 t) cs (map (answer_call ms t) cs)" for t cs
    by (induction cs) (simp_all add: answer_call_own)
  then have "ordered_at (m # ms) 0 out" by (simp add: ordered_at_def out_def split: message_body.splits)
  moreover from outs(2) have "list_all2 (ordered_at (m # ms)) (map Suc [0..<length ms]) outs"
    by (simp add: list_all2_map1 ordered_at_Suc)
  ultimately show ?case
    by (intro exI[of _ "out # outs"]) (simp add: upt_conv_Cons map_Suc_upt del: upt_Suc)
qed simp

section \<open>Properties\<close>

text \<open>
  C19: Extending an earlier range by the entries after its tail gives the range derived from
  all entries at once, in every part: the view, the settled and the open messages, the edited
  entries and the baseline.
\<close>

theorem extend_is_derive:
  assumes "cb_head bounds = cb_head before"
  shows "extend_range (derive_range before entries) bounds added = derive_range bounds (entries @ added)"
  by (rule extend_derived[OF assms])

definition sample_call :: message where
  "sample_call = \<lparr>msg_ref = 1, msg_body = AssistantMessage [CallBlock \<lparr>call_id = ''a'', call_name = ''read''\<rparr>] ''toolUse'' 5\<rparr>"

definition sample_result :: message where
  "sample_result = \<lparr>msg_ref = 2, msg_body = ToolResultMessage ''a'' ''read'' (Arr []) False None 6\<rparr>"

definition sample_context_entry :: "int \<Rightarrow> message list \<Rightarrow> context_entry" where
  "sample_context_entry i ms = \<lparr>ce_id = i, ce_kind = ''pi.assistant'', ce_model = Some ms, ce_head = None, ce_edits = None\<rparr>"

theorem extend_is_derive_witness:
  "cv_messages (cr_view (extend_range (derive_range \<lparr>cb_head = None, cb_tail = 1\<rparr> [sample_context_entry 1 [sample_call]])
     \<lparr>cb_head = None, cb_tail = 2\<rparr> [sample_context_entry 2 [sample_result]])) = [sample_call, sample_result]"
proof -
  have "cv_messages (cr_view (derive_range \<lparr>cb_head = None, cb_tail = 2\<rparr>
      ([sample_context_entry 1 [sample_call]] @ [sample_context_entry 2 [sample_result]]))) = [sample_call, sample_result]"
    by code_simp
  with extend_is_derive[of "\<lparr>cb_head = None, cb_tail = 2\<rparr>" "\<lparr>cb_head = None, cb_tail = 1\<rparr>"
      "[sample_context_entry 1 [sample_call]]" "[sample_context_entry 2 [sample_result]]"]
  show ?thesis by simp
qed

text \<open>
  C20: The model never sees a call without its result or a result without its call. The ordered
  messages are what each message of the history becomes, one after the other: an assistant message is
  followed by one message per call, in call order, and that message is the call's own result, the
  first one recorded for its id before the next assistant message, or, only when there is none, the
  synthetic one; a recorded result stands nowhere else; every other message stays in its place.
\<close>

theorem tool_results_paired:
  "paired (order_tool_results ms) \<and>
   filter (\<lambda>m. \<not> is_result (msg_body m)) (order_tool_results ms) = filter (\<lambda>m. \<not> is_result (msg_body m)) ms \<and>
   (\<exists>outs. order_tool_results ms = concat outs \<and> list_all2 (ordered_at ms) [0..<length ms] outs)"
  using order_paired order_others order_placed by blast

text \<open>
  Leading with the system message keeps the system messages in their order and all other
  messages in theirs, and when only user messages precede the first system message it comes
  first.
\<close>

theorem lead_keeps_order:
  "filter (\<lambda>m. is_system (msg_body m)) (lead_with_system ms b) = filter (\<lambda>m. is_system (msg_body m)) ms \<and>
   filter (\<lambda>m. \<not> is_system (msg_body m)) (lead_with_system ms b) = filter (\<lambda>m. \<not> is_system (msg_body m)) ms \<and>
   (\<forall>before system after. ms = before @ system # after \<longrightarrow> (\<forall>m \<in> set before. is_user (msg_body m)) \<longrightarrow>
      is_system (msg_body system) \<longrightarrow> lead_with_system ms b = system # before @ after)"
proof (cases "dropWhile (\<lambda>m. \<not> is_system (msg_body m)) ms")
  case Nil
  then have "lead_with_system ms b = ms" unfolding lead_with_system_def Let_def by (simp only: list.case)
  moreover from Nil have "\<forall>m \<in> set ms. \<not> is_system (msg_body m)" by simp
  ultimately show ?thesis by auto
next
  case (Cons system after)
  let ?before = "takeWhile (\<lambda>m. \<not> is_system (msg_body m)) ms"
  have ms: "ms = ?before @ system # after" using Cons by (metis takeWhile_dropWhile_id)
  have sys: "is_system (msg_body system)" using Cons by (metis dropWhile_eq_Cons_conv)
  have none: "\<forall>m \<in> set ?before. \<not> is_system (msg_body m)" by (auto dest: set_takeWhileD)
  have moved: "lead_with_system ms b = (if (\<exists>m \<in> set ?before. \<not> is_user (msg_body m)) \<and> \<not> same_message system b
      then ms else system # ?before @ after)"
    using Cons ms by (auto simp: lead_with_system_def Let_def)
  have order: "filter P (system # ?before @ after) = filter P ms"
    if "P = (\<lambda>m. is_system (msg_body m)) \<or> P = (\<lambda>m. \<not> is_system (msg_body m))" for P
    using that none sys by (subst (2) ms) (auto simp: filter_empty_conv simp del: takeWhile_dropWhile_id)
  have first: "before = ?before \<and> system' = system \<and> after' = after"
    if "ms = before @ system' # after'" "\<forall>m \<in> set before. is_user (msg_body m)" "is_system (msg_body system')" for before system' after'
  proof -
    have "is_user body \<Longrightarrow> \<not> is_system body" for body by (cases body) auto
    with that(2) have "\<forall>m \<in> set before. \<not> is_system (msg_body m)" by blast
    with that(1,3) have "?before = before" "dropWhile (\<lambda>m. \<not> is_system (msg_body m)) ms = system' # after'"
      by (auto simp: takeWhile_append dropWhile_append)
    with Cons show ?thesis by simp
  qed
  have "lead_with_system ms b = system' # before @ after'"
    if "ms = before @ system' # after'" "\<forall>m \<in> set before. is_user (msg_body m)" "is_system (msg_body system')" for before system' after'
    using moved first[OF that] that(2) by auto
  moreover have "filter P (lead_with_system ms b) = filter P ms"
    if "P = (\<lambda>m. is_system (msg_body m)) \<or> P = (\<lambda>m. \<not> is_system (msg_body m))" for P
  proof (cases "lead_with_system ms b = ms")
    case False
    with moved have "lead_with_system ms b = system # ?before @ after" by (metis (full_types))
    with order[OF that] show ?thesis by (simp only:)
  qed simp
  ultimately show ?thesis by blast
qed

text \<open>A concrete transcript whose first message is the input of its run.\<close>

theorem lead_keeps_order_witness:
  "lead_with_system [\<lparr>msg_ref = 1, msg_body = UserMessage (Prim PNull)\<rparr>, \<lparr>msg_ref = 2, msg_body = SystemMessage (Prim PNull)\<rparr>] Unknown =
     [\<lparr>msg_ref = 2, msg_body = SystemMessage (Prim PNull)\<rparr>, \<lparr>msg_ref = 1, msg_body = UserMessage (Prim PNull)\<rparr>]"
  using lead_keeps_order[of "[\<lparr>msg_ref = 1, msg_body = UserMessage (Prim PNull)\<rparr>, \<lparr>msg_ref = 2, msg_body = SystemMessage (Prim PNull)\<rparr>]" Unknown]
  by (auto dest!: spec[of _ "[\<lparr>msg_ref = 1, msg_body = UserMessage (Prim PNull)\<rparr>]"])

end
