(* ===== verification/Context_Read.thy ===== *)
theory Context_Read
  imports Memory_Visible Context_View
begin

text \<open>
  Reading the context of a conversation from the storage
  (\<open>captureContextBounds\<close>, \<open>scanRange\<close>, \<open>readContext\<close> and \<open>readContextFrom\<close> of
  \<open>packages/durable/src/harness/context.ts\<close>). A stored entry keeps its messages and edits as
  JSON; \<open>view\<close>, a parameter, is their typed reading. The loop over the pages of a scan is
  fuelled by \<open>n\<close>; running out of fuel is \<open>None\<close>, and as many pages as there are visible
  entries are enough.
\<close>

section \<open>Definitions\<close>

datatype context_error = StorageError storage_error | NotVisible int int

definition SCAN_PAGE_SIZE :: nat where "SCAN_PAGE_SIZE = 256"

definition entries_query :: "int \<Rightarrow> int option \<Rightarrow> int option \<Rightarrow> entry_query" where
  "entries_query conv lo hi = \<lparr>eq_conv = conv, eq_min = lo, eq_max = hi, eq_order = None\<rparr>"

definition lift_storage :: "(storage_error, 'a) result \<Rightarrow> (context_error, 'a) result" where
  "lift_storage r = (case r of Inl e \<Rightarrow> Inl (StorageError e) | Inr x \<Rightarrow> Inr x)"

definition bounds_to ::
  "(entry_record \<Rightarrow> context_entry) \<Rightarrow> mem_state \<Rightarrow> int \<Rightarrow> int \<Rightarrow> (context_error, context_bounds option) result" where
  "bounds_to view st conv tail =
     bind_res (lift_storage (find_latest_head_marker st conv (Some tail))) (\<lambda>head.
       Inr (Some \<lparr>cb_head = map_option view head, cb_tail = tail\<rparr>))"

definition capture_context_bounds ::
  "(entry_record \<Rightarrow> context_entry) \<Rightarrow> mem_state \<Rightarrow> int \<Rightarrow> int option \<Rightarrow> (context_error, context_bounds option) result" where
  "capture_context_bounds view st conv at =
     (case at of
        None \<Rightarrow>
          bind_res (lift_storage (scan_entries st (entries_query conv None None) 1 None)) (\<lambda>page.
            case page_items page of
              [] \<Rightarrow> Inr None
            | e # _ \<Rightarrow> bounds_to view st conv (entry_id e))
      | Some i \<Rightarrow>
          bind_res (lift_storage (get_visible_entry st conv i)) (\<lambda>found.
            if found = None then Inl (NotVisible i conv) else bounds_to view st conv i))"

text \<open>\<open>rangeQuery\<close>: where the range of the bounds starts.\<close>

definition range_start :: "context_bounds \<Rightarrow> int option" where
  "range_start b = Option.bind (cb_head b) ce_head"

definition scan_range ::
  "nat \<Rightarrow> mem_state \<Rightarrow> int \<Rightarrow> int option \<Rightarrow> int \<Rightarrow> (storage_error, entry_record list) result option" where
  "scan_range n st conv lo hi =
     map_option (\<lambda>r. bind_res r (\<lambda>es. Inr (rev es)))
       (all_pages (\<lambda>c. page_result (scan_entries st (entries_query conv lo (Some hi)) SCAN_PAGE_SIZE c)) n None)"

definition derive_context ::
  "nat \<Rightarrow> (entry_record \<Rightarrow> context_entry) \<Rightarrow> mem_state \<Rightarrow> int \<Rightarrow> context_bounds \<Rightarrow>
     (context_error, context_range) result option" where
  "derive_context n view st conv b =
     map_option (\<lambda>r. bind_res (lift_storage r) (\<lambda>es. Inr (derive_range b (map view es))))
       (scan_range n st conv (range_start b) (cb_tail b))"

definition read_context ::
  "nat \<Rightarrow> (entry_record \<Rightarrow> context_entry) \<Rightarrow> mem_state \<Rightarrow> int \<Rightarrow> int option \<Rightarrow> (context_error, context_view) result option" where
  "read_context n view st conv at =
     (case capture_context_bounds view st conv at of
        Inl e \<Rightarrow> Some (Inl e)
      | Inr None \<Rightarrow> Some (Inr empty_view)
      | Inr (Some b) \<Rightarrow>
          map_option (\<lambda>r. bind_res r (\<lambda>range. Inr (cr_view range))) (derive_context n view st conv b))"

definition read_context_from ::
  "nat \<Rightarrow> (entry_record \<Rightarrow> context_entry) \<Rightarrow> mem_state \<Rightarrow> int \<Rightarrow> int option \<Rightarrow> context_range option \<Rightarrow>
     (context_error, context_view \<times> context_range option) result option" where
  "read_context_from n view st conv at previous =
     (case capture_context_bounds view st conv at of
        Inl e \<Rightarrow> Some (Inl e)
      | Inr None \<Rightarrow> Some (Inr (empty_view, None))
      | Inr (Some b) \<Rightarrow>
          map_option (\<lambda>r. bind_res r (\<lambda>range. Inr (cr_view range, Some range)))
            (case previous of
               None \<Rightarrow> derive_context n view st conv b
             | Some p \<Rightarrow>
                 if map_option ce_id (cb_head (cr_bounds p)) \<noteq> map_option ce_id (cb_head b)
                 then derive_context n view st conv b
                 else if cb_tail b = cb_tail (cr_bounds p) then Some (Inr p)
                 else if cb_tail b < cb_tail (cr_bounds p)
                 then Some (Inr (derive_range b (filter (\<lambda>e. ce_id e \<le> cb_tail b) (cr_entries p))))
                 else map_option (\<lambda>r. bind_res (lift_storage r) (\<lambda>added. Inr (extend_range p b (map view added))))
                   (scan_range n st conv (Some (cb_tail (cr_bounds p) + 1)) (cb_tail b))))"

definition active_entries ::
  "nat \<Rightarrow> (entry_record \<Rightarrow> context_entry) \<Rightarrow> mem_state \<Rightarrow> int \<Rightarrow> context_bounds option \<Rightarrow>
     (context_error, context_entry list) result option" where
  "active_entries n view st conv bounds =
     (case bounds of
        None \<Rightarrow> Some (Inr [])
      | Some b \<Rightarrow>
          map_option (\<lambda>r. bind_res (lift_storage r) (\<lambda>es. Inr (select_active (cb_head b) (map view es))))
            (scan_range n st conv (range_start b) (cb_tail b)))"

section \<open>The visible history as one list\<close>

text \<open>
  What the sessions above the storage keep: parents are older, and a fork only adds entries
  newer than the one it was forked at.
\<close>

definition forks_ok :: "mem_state \<Rightarrow> bool" where
  "forks_ok st \<longleftrightarrow>
     parents_older st \<and>
     (\<forall>i c p s e r. conversations st i = Some c \<longrightarrow> conv_parent c = Some (p, s) \<longrightarrow>
        entries st e = Some r \<longrightarrow> entry_conv r = i \<longrightarrow> s < e)"

definition chain_ids :: "mem_state \<Rightarrow> bound \<Rightarrow> (int \<times> bound) list \<Rightarrow> int list" where
  "chain_ids st lo segments = concat (map (segment_descending st lo) segments)"

definition history :: "mem_state \<Rightarrow> int \<Rightarrow> int list" where
  "history st conv = (case visible_ids st conv NegInf PosInf of Inr ids \<Rightarrow> ids | Inl _ \<Rightarrow> [])"

lemma chain_ids_Cons [simp]: "chain_ids st lo (s # ss) = segment_descending st lo s @ chain_ids st lo ss"
  by (simp add: chain_ids_def)

lemma chain_ids_Nil [simp]: "chain_ids st lo [] = []"
  by (simp add: chain_ids_def)

lemma fork_chain_bound:
  "storage_ok st \<Longrightarrow> fork_chain n st lo conv hi = Inr segments \<Longrightarrow> \<forall>i \<in> set (chain_ids st lo segments). Fin i \<le> hi"
proof (induction n arbitrary: conv hi segments)
  case (Suc n)
  have seg: "\<forall>i \<in> set (segment_descending st lo (conv, hi)). Fin i \<le> hi"
    by (simp add: segment_eqs[OF entry_ids_sorted[OF Suc.prems(1)]] between_def)
  from Suc.prems(2) obtain c where c: "conversations st conv = Some c" by (auto split: option.splits)
  show ?case
  proof (cases "conv_parent c")
    case None
    with Suc.prems(2) c seg show ?thesis by auto
  next
    case (Some ps)
    obtain p s where ps: "ps = (p, s)" by force
    show ?thesis
    proof (cases "min hi (Fin s) < lo")
      case True
      with Suc.prems(2) c Some ps seg show ?thesis by auto
    next
      case False
      with Suc.prems(2) c Some ps obtain rest where rest: "fork_chain n st lo p (min hi (Fin s)) = Inr rest"
        "segments = (conv, hi) # rest" by (auto simp: Let_def res_simps)
      from Suc.IH[OF Suc.prems(1) rest(1)] have "\<forall>i \<in> set (chain_ids st lo rest). Fin i \<le> hi" by simp
      with seg rest(2) show ?thesis by auto
    qed
  qed
qed simp


text \<open>Narrowing the bounds of the walk filters the history.\<close>

lemma fork_chain_filter:
  "storage_ok st \<Longrightarrow> fork_chain n st NegInf conv u = Inr full \<Longrightarrow>
     \<exists>segments. fork_chain n st lo conv (min u hi) = Inr segments \<and>
       chain_ids st lo segments = filter (\<lambda>i. lo \<le> Fin i \<and> Fin i \<le> hi) (chain_ids st NegInf full)"
proof (induction n arbitrary: conv u full)
  case (Suc n)
  have seg: "segment_descending st lo (conv, min u hi) =
      filter (\<lambda>i. lo \<le> Fin i \<and> Fin i \<le> hi) (segment_descending st NegInf (conv, u))"
    by (simp add: segment_eqs[OF entry_ids_sorted[OF Suc.prems(1)]] between_def rev_filter conj_commute conj_left_commute)
  from Suc.prems(2) obtain c where c: "conversations st conv = Some c" by (auto split: option.splits)
  show ?case
  proof (cases "conv_parent c")
    case None
    with Suc.prems(2) c seg show ?thesis by auto
  next
    case (Some ps)
    obtain p s where ps: "ps = (p, s)" by force
    have "\<not> min u (Fin s) < NegInf" by (metis bound_simps(7) not_le)
    with Suc.prems(2) c Some ps obtain rest where rest: "fork_chain n st NegInf p (min u (Fin s)) = Inr rest"
      "full = (conv, u) # rest" by (auto simp: Let_def res_simps)
    have swap: "min (min u hi) (Fin s) = min (min u (Fin s)) hi" by (simp add: min.assoc min.commute min.left_commute)
    show ?thesis
    proof (cases "min (min u hi) (Fin s) < lo")
      case True
      have "\<forall>i \<in> set (chain_ids st NegInf rest). Fin i \<le> min u (Fin s)" by (rule fork_chain_bound[OF Suc.prems(1) rest(1)])
      then have "\<forall>i \<in> set (chain_ids st NegInf rest). Fin i \<le> hi \<longrightarrow> Fin i < lo"
        using True unfolding swap by (meson min.boundedI order_le_less_trans)
      then have "filter (\<lambda>i. lo \<le> Fin i \<and> Fin i \<le> hi) (chain_ids st NegInf rest) = []"
        by (auto simp: filter_empty_conv)
      with True c Some ps seg rest(2) show ?thesis by (simp add: Let_def)
    next
      case False
      from Suc.IH[OF Suc.prems(1) rest(1)] obtain segments where
        "fork_chain n st lo p (min (min u (Fin s)) hi) = Inr segments"
        "chain_ids st lo segments = filter (\<lambda>i. lo \<le> Fin i \<and> Fin i \<le> hi) (chain_ids st NegInf rest)" by blast
      with False c Some ps seg rest(2) show ?thesis by (simp add: Let_def swap)
    qed
  qed
qed simp

lemma chain_descending:
  "storage_ok st \<Longrightarrow> forks_ok st \<Longrightarrow> fork_chain n st NegInf conv u = Inr full \<Longrightarrow>
     sorted_wrt (>) (chain_ids st NegInf full)"
proof (induction n arbitrary: conv u full)
  case (Suc n)
  have ids: "indexes (ids_at (entry_ids st) conv) (entries st) (\<lambda>r. Some (entry_conv r) = Some conv)"
    using Suc.prems(1) by (simp add: storage_ok_def tables_ok_def keyed_def)
  then have sorted: "sorted_wrt (>) (segment_descending st NegInf (conv, u))"
    by (simp add: segment_eqs[OF entry_ids_sorted[OF Suc.prems(1)]] between_def sorted_wrt_rev sorted_wrt_filter indexes_def)
  from Suc.prems(3) obtain c where c: "conversations st conv = Some c" by (auto split: option.splits)
  show ?case
  proof (cases "conv_parent c")
    case None
    with Suc.prems(3) c sorted show ?thesis by auto
  next
    case (Some ps)
    obtain p s where ps: "ps = (p, s)" by force
    have "\<not> min u (Fin s) < NegInf" by (metis bound_simps(7) not_le)
    with Suc.prems(3) c Some ps obtain rest where rest: "fork_chain n st NegInf p (min u (Fin s)) = Inr rest"
      "full = (conv, u) # rest" by (auto simp: Let_def res_simps)
    have below: "\<forall>i \<in> set (chain_ids st NegInf rest). i \<le> s"
      using fork_chain_bound[OF Suc.prems(1) rest(1)] by simp
    have "set (segment_descending st NegInf (conv, u)) \<subseteq> set (ids_at (entry_ids st) conv)"
      by (auto simp: segment_eqs[OF entry_ids_sorted[OF Suc.prems(1)]] between_def)
    then have "\<forall>i \<in> set (segment_descending st NegInf (conv, u)). s < i"
      using ids Suc.prems(2) c Some ps by (fastforce simp: forks_ok_def indexes_def)
    with below sorted Suc.IH[OF Suc.prems(1,2) rest(1)] rest(2) show ?thesis
      by (fastforce simp: sorted_wrt_append)
  qed
qed simp

lemma history_chain:
  assumes "storage_ok st" "forks_ok st" "conversations st conv \<noteq> None"
  obtains full where "fork_chain (chain_fuel st) st NegInf conv PosInf = Inr full" "history st conv = chain_ids st NegInf full"
proof -
  have "length (older_ids st conv) < chain_fuel st + 1"
    using length_filter_le[of "\<lambda>j. j \<le> conv" "conversation_ids st"]
    by (simp add: older_ids_def chain_fuel_def le_imp_less_Suc le_SucI)
  with fork_chain_ends[OF assms(1) _ assms(3)] assms(2) obtain full where
    "fork_chain (chain_fuel st) st NegInf conv PosInf = Inr full" unfolding forks_ok_def by blast
  with that assms(3) show thesis by (auto simp: history_def visible_ids_def chain_ids_def)
qed

lemma visible_filter:
  assumes "storage_ok st" "forks_ok st" "conversations st conv \<noteq> None"
  shows "visible_ids st conv lo hi = Inr (filter (\<lambda>i. lo \<le> Fin i \<and> Fin i \<le> hi) (history st conv))"
proof -
  obtain full where full: "fork_chain (chain_fuel st) st NegInf conv PosInf = Inr full"
    "history st conv = chain_ids st NegInf full" by (rule history_chain[OF assms])
  have "min PosInf hi = hi" by (simp add: min_absorb2)
  with fork_chain_filter[OF assms(1) full(1), of lo hi] full(2) assms(3) show ?thesis
    by (auto simp: visible_ids_def chain_ids_def)
qed

lemma history_descending:
  assumes "storage_ok st" "forks_ok st" "conversations st conv \<noteq> None"
  shows "sorted_wrt (>) (history st conv)"
  by (rule history_chain[OF assms]) (simp add: chain_descending[OF assms(1,2)])

lemma history_entries:
  assumes "storage_ok st" "i \<in> set (history st conv)"
  shows "\<exists>e. entries st i = Some e \<and> entry_id e = i"
proof -
  have "i \<in> set (chain_ids st NegInf segments) \<Longrightarrow> \<exists>c. i \<in> set (ids_at (entry_ids st) c)" for segments
  proof (induction segments)
    case (Cons s segments)
    then show ?case
      by (cases s) (auto simp: segment_eqs[OF entry_ids_sorted[OF assms(1)]] between_def)
  qed simp
  moreover have "\<exists>segments. i \<in> set (chain_ids st NegInf segments)"
    using assms(2) by (cases "fork_chain (chain_fuel st) st NegInf conv PosInf")
      (auto simp: history_def visible_ids_def chain_ids_def split: if_splits)
  ultimately obtain c where "i \<in> set (ids_at (entry_ids st) c)" by blast
  moreover have "keyed (entry_ids st) (entries st) (\<lambda>r. Some (entry_conv r))" "id_matches (entries st) entry_id"
    using assms(1) by (simp_all add: storage_ok_def tables_ok_def)
  ultimately show ?thesis by (fastforce simp: keyed_def indexes_def id_matches_def)
qed


section \<open>Pages of entries\<close>

definition entry_of :: "mem_state \<Rightarrow> int \<Rightarrow> entry_record" where
  "entry_of st i = the (entries st i)"

definition within :: "int option \<Rightarrow> int option \<Rightarrow> int list \<Rightarrow> int list" where
  "within lo hi ids = filter (\<lambda>i. lower_of lo \<le> Fin i \<and> Fin i \<le> upper_of hi) ids"

lemma read_entries:
  "\<forall>i \<in> set ids. entries st i \<noteq> None \<Longrightarrow> map_res (read_entry st) ids = Inr (map (entry_of st) ids)"
  by (induction ids) (auto simp: read_entry_def entry_of_def)

lemma descending_rest:
  "sorted_wrt (>) ids \<Longrightarrow> n < length ids \<Longrightarrow> filter (\<lambda>i. i < ids ! n) ids = drop (Suc n) (ids :: int list)"
proof (induction ids arbitrary: n)
  case (Cons i ids)
  show ?case
  proof (cases n)
    case 0
    with Cons.prems show ?thesis by (auto simp: filter_id_conv)
  next
    case (Suc m)
    with Cons.prems have "ids ! m \<in> set ids" "\<forall>j \<in> set ids. j < i" by auto
    then have "\<not> i < ids ! m" by fastforce
    with Suc Cons show ?thesis by auto
  qed
qed simp

definition forked_ok :: "mem_state \<Rightarrow> int \<Rightarrow> bool" where
  "forked_ok st conv \<longleftrightarrow> storage_ok st \<and> forks_ok st \<and> \<not> closed st \<and> conversations st conv \<noteq> None"

definition entries_left :: "mem_state \<Rightarrow> int \<Rightarrow> int option \<Rightarrow> int option \<Rightarrow> cursor option \<Rightarrow> int list" where
  "entries_left st conv lo hi c =
     filter (\<lambda>i. case c of None \<Rightarrow> True | Some c \<Rightarrow> i < cursor_after c) (within lo hi (history st conv))"

lemma scan_entries_at:
  assumes "forked_ok st conv" "cursor_in Descending c"
  shows "scan_entries st (entries_query conv lo hi) limit c =
    cut_page entry_id (map (entry_of st) (take (Suc limit) (entries_left st conv lo hi c))) limit Descending"
proof -
  have ok: "storage_ok st" "forks_ok st" "conversations st conv \<noteq> None" "assert_open st = Inr ()"
    using assms(1) by (auto simp: forked_ok_def assert_open_def)
  have start: "scan_start None c Descending = Inr (scan_position Descending c)"
    by (rule scan_start_position) (use assms(2) in auto)
  obtain lo' hi' where b: "entry_bounds (entries_query conv lo hi) (scan_position Descending c) = (lo', hi')" by force
  have "filter (\<lambda>i. lower_of lo' \<le> Fin i \<and> Fin i \<le> upper_of hi') (history st conv) = entries_left st conv lo hi c"
    using b by (auto simp: entries_left_def within_def entry_bounds_def entries_query_def scan_position_def
        lower_of_def upper_of_def filter_id_conv intro!: filter_cong split: option.splits)
  with visible_filter[OF ok(1-3)] have v: "visible_ids st conv (lower_of lo') (upper_of hi') = Inr (entries_left st conv lo hi c)"
    by simp
  have "\<forall>i \<in> set (take (Suc limit) (entries_left st conv lo hi c)). entries st i \<noteq> None"
    using history_entries[OF ok(1)] by (fastforce simp: entries_left_def within_def dest: in_set_takeD)
  from read_entries[OF this] show ?thesis
    unfolding scan_entries_def ok(4)
    by (simp add: start b[unfolded entries_query_def] entries_query_def) (simp add: scan_position_def v)
qed

lemma entries_left_sorted: "forked_ok st conv \<Longrightarrow> sorted_wrt (>) (entries_left st conv lo hi c)"
  using history_descending[of st conv] by (auto simp: forked_ok_def entries_left_def within_def intro!: sorted_wrt_filter)

lemma entries_left_entry: "forked_ok st conv \<Longrightarrow> i \<in> set (entries_left st conv lo hi c) \<Longrightarrow> entry_id (entry_of st i) = i"
  using history_entries[of st i conv] by (auto simp: forked_ok_def entries_left_def within_def entry_of_def)

lemma entries_left_next:
  assumes "forked_ok st conv" "n < length (entries_left st conv lo hi c)"
  shows "entries_left st conv lo hi (Some (next_cursor (entries_left st conv lo hi c ! n) Descending)) =
    drop (Suc n) (entries_left st conv lo hi c)"
proof -
  let ?l = "entries_left st conv lo hi c"
  have "?l ! n \<in> set ?l" using assms(2) by simp
  then have "case c of None \<Rightarrow> True | Some c \<Rightarrow> ?l ! n < cursor_after c"
    unfolding entries_left_def by (auto split: option.splits)
  then have "entries_left st conv lo hi (Some (next_cursor (?l ! n) Descending)) = filter (\<lambda>i. i < ?l ! n) ?l"
    by (auto simp: entries_left_def next_cursor_def intro!: filter_cong split: option.splits)
  with descending_rest[OF entries_left_sorted[OF assms(1)] assms(2)] show ?thesis by simp
qed

interpretation entry_pages: paged
  "\<lambda>(st, conv, lo, hi, limit) c. forked_ok st conv \<and> 0 < limit \<and> cursor_in Descending c"
  "\<lambda>(st, conv, lo, hi, limit) c. map (entry_of st) (entries_left st conv lo hi c)"
  "\<lambda>(st, conv, lo, hi, limit) c. page_result (scan_entries st (entries_query conv lo hi) limit c)"
proof (unfold_locales, clarify)
  fix st conv lo hi c and limit :: nat
  assume ok: "forked_ok st conv" and limit: "0 < limit" and c: "cursor_in Descending c"
  let ?l = "entries_left st conv lo hi c"
  show "\<exists>items next. page_result (scan_entries st (entries_query conv lo hi) limit c) = Inr (items, next) \<and>
      (case next of
         None \<Rightarrow> map (entry_of st) ?l = items
       | Some d \<Rightarrow> map (entry_of st) ?l = items @ map (entry_of st) (entries_left st conv lo hi (Some d)) \<and> items \<noteq> [] \<and>
           forked_ok st conv \<and> 0 < limit \<and> cursor_in Descending (Some d))"
  proof (cases "length ?l \<le> limit")
    case True
    then show ?thesis by (simp add: scan_entries_at[OF ok c] cut_page_def page_result_def)
  next
    case False
    let ?i = "?l ! (limit - 1)"
    have n: "limit - 1 < length ?l" using False limit by simp
    have "last (take limit (map (entry_of st) ?l)) = entry_of st ?i"
      using take_Suc_last[of limit "map (entry_of st) ?l"] False limit by simp
    moreover have "entry_id (entry_of st ?i) = ?i" using entries_left_entry[OF ok nth_mem[OF n]] .
    moreover have "take limit (map (entry_of st) ?l) \<noteq> []" using False limit by auto
    ultimately have "page_result (scan_entries st (entries_query conv lo hi) limit c) =
        Inr (map (entry_of st) (take limit ?l), Some (next_cursor ?i Descending))"
      using False by (simp add: scan_entries_at[OF ok c] cut_page_def page_result_def take_map min_def)
    moreover have "map (entry_of st) ?l = map (entry_of st) (take limit ?l) @
        map (entry_of st) (entries_left st conv lo hi (Some (next_cursor ?i Descending)))"
      using entries_left_next[OF ok n] limit by (simp flip: map_append)
    ultimately show ?thesis
      using ok limit False by (fastforce simp: cursor_in_def next_cursor_def)
  qed
qed

text \<open>A whole scan: all entries of the range, oldest first.\<close>

lemma scan_range_all:
  assumes "forked_ok st conv" "length (history st conv) < n"
  shows "scan_range n st conv lo hi = Some (Inr (rev (map (entry_of st) (within lo (Some hi) (history st conv)))))"
proof -
  have "length (entries_left st conv lo (Some hi) None) \<le> length (history st conv)"
    by (simp add: entries_left_def within_def order_trans[OF length_filter_le length_filter_le])
  with assms have "all_pages (\<lambda>c. page_result (scan_entries st (entries_query conv lo (Some hi)) SCAN_PAGE_SIZE c)) n None =
      Some (Inr (map (entry_of st) (entries_left st conv lo (Some hi) None)))"
    using entry_pages.all_pages_complete[of "(st, conv, lo, Some hi, SCAN_PAGE_SIZE)" None n]
    by (simp add: cursor_in_def SCAN_PAGE_SIZE_def)
  then show ?thesis by (simp add: scan_range_def entries_left_def)
qed


section \<open>Reading with and without an earlier range\<close>

text \<open>The typed reading keeps what the walk itself looks at.\<close>

definition view_ok :: "(entry_record \<Rightarrow> context_entry) \<Rightarrow> bool" where
  "view_ok view \<longleftrightarrow> (\<forall>e. ce_id (view e) = entry_id e \<and> ce_head (view e) = entry_head e)"

definition range_entries :: "(entry_record \<Rightarrow> context_entry) \<Rightarrow> mem_state \<Rightarrow> int \<Rightarrow> context_bounds \<Rightarrow> context_entry list" where
  "range_entries view st conv b =
     rev (map (\<lambda>i. view (entry_of st i)) (within (range_start b) (Some (cb_tail b)) (history st conv)))"

lemma derive_context_all:
  assumes "forked_ok st conv" "length (history st conv) < n"
  shows "derive_context n view st conv b = Some (Inr (derive_range b (range_entries view st conv b)))"
  by (simp add: derive_context_def scan_range_all[OF assms] lift_storage_def range_entries_def rev_map comp_def)

lemma head_marker_found:
  assumes "forked_ok st conv" "find_latest_head_marker st conv c = Inr (Some e)"
  shows "entries st (entry_id e) = Some e \<and> Fin (entry_id e) \<le> upper_of c"
proof -
  have ok: "storage_ok st" "forks_ok st" "conversations st conv \<noteq> None" "\<not> closed st"
    using assms(1) by (simp_all add: forked_ok_def)
  let ?ids = "filter (\<lambda>i. NegInf \<le> Fin i \<and> Fin i \<le> upper_of c) (history st conv)"
  from latest_head_marker[OF ok(1,4) visible_filter[OF ok(1-3)], of c] assms(2)
  have "Option.bind (List.find (has_head st) ?ids) (entries st) = Some e" by simp
  then obtain i where i: "List.find (has_head st) ?ids = Some i" "entries st i = Some e"
    by (cases "List.find (has_head st) ?ids") simp_all
  from i(1) have "i \<in> set ?ids" by (auto simp: find_Some_iff simp del: bound_simps less_eq_bound.simps dest!: nth_mem)
  moreover have "entry_id e = i" using ok(1) i(2) by (auto simp: storage_ok_def tables_ok_def id_matches_def)
  ultimately show ?thesis using i(2) by (auto simp: upper_of_def split: option.splits)
qed

definition head_known :: "(entry_record \<Rightarrow> context_entry) \<Rightarrow> mem_state \<Rightarrow> context_bounds \<Rightarrow> bool" where
  "head_known view st b \<longleftrightarrow>
     (\<forall>h. cb_head b = Some h \<longrightarrow> ce_id h \<le> cb_tail b \<and> (\<exists>e. entries st (ce_id h) = Some e \<and> h = view e))"

text \<open>A range some earlier read of the conversation returned, still true of the storage.\<close>

definition range_of :: "(entry_record \<Rightarrow> context_entry) \<Rightarrow> mem_state \<Rightarrow> int \<Rightarrow> context_range \<Rightarrow> bool" where
  "range_of view st conv r \<longleftrightarrow>
     (\<exists>b. r = derive_range b (range_entries view st conv b) \<and> head_known view st b)"

lemma bounds_known:
  assumes "forked_ok st conv" "view_ok view" "capture_context_bounds view st conv at = Inr (Some b)"
  shows "head_known view st b"
proof -
  obtain tail where "bounds_to view st conv tail = Inr (Some b)"
  proof (cases at)
    case None
    with assms(3) obtain page :: "entry_record page_of" where "(case page_items page of [] \<Rightarrow> Inr None | e # _ \<Rightarrow> bounds_to view st conv (entry_id e)) = Inr (Some b)"
      by (auto simp: capture_context_bounds_def res_simps)
    with that show thesis by (cases "page_items page") auto
  next
    case (Some i)
    with assms(3) that show thesis by (auto simp: capture_context_bounds_def res_simps split: if_splits)
  qed
  then obtain head where head: "find_latest_head_marker st conv (Some tail) = Inr head"
    "b = \<lparr>cb_head = map_option view head, cb_tail = tail\<rparr>"
    by (auto simp: bounds_to_def lift_storage_def res_simps split: sum.splits)
  show ?thesis
  proof (cases head)
    case None
    with head(2) show ?thesis by (simp add: head_known_def)
  next
    case (Some e)
    with head_marker_found[OF assms(1), of "Some tail" e] head assms(2) show ?thesis
      by (auto simp: head_known_def view_ok_def upper_of_def)
  qed
qed

lemma range_of_parts:
  "cr_bounds (derive_range b es) = b \<and> cr_entries (derive_range b es) = es"
  by (auto simp: derive_range_def Let_def split: prod.splits)

lemma within_split:
  assumes "m < hi" "sorted_wrt (>) ids" "\<forall>i \<in> set ids. m < i \<longrightarrow> lower_of lo \<le> Fin i"
  shows "within lo (Some hi) ids = within (Some (m + 1)) (Some hi) ids @ within lo (Some m) ids"
  using assms(2,3)
proof (induction ids)
  case (Cons i ids)
  show ?case
  proof (cases "m < i")
    case True
    with Cons assms(1) show ?thesis by (auto simp: within_def lower_of_def upper_of_def)
  next
    case False
    with Cons.prems have "\<forall>j \<in> set ids. \<not> m + 1 \<le> j" by force
    with False Cons assms(1) show ?thesis by (auto simp: within_def lower_of_def upper_of_def filter_empty_conv)
  qed
qed (simp add: within_def)

text \<open>A head marker starts its context at itself or at an earlier entry.\<close>

definition heads_backward :: "mem_state \<Rightarrow> bool" where
  "heads_backward st \<longleftrightarrow> (\<forall>i e h. entries st i = Some e \<longrightarrow> entry_head e = Some h \<longrightarrow> h \<le> i)"

lemma range_start_low:
  assumes "head_known view st b" "view_ok view" "heads_backward st" "cb_tail b < i"
  shows "lower_of (range_start b) \<le> Fin i"
proof (cases "range_start b")
  case None
  then show ?thesis by (simp add: lower_of_def)
next
  case (Some l)
  then obtain h where h: "cb_head b = Some h" "ce_head h = Some l" by (auto simp: range_start_def bind_eq_Some_conv)
  with assms(1-3) have "l \<le> ce_id h" "ce_id h \<le> cb_tail b"
    by (auto simp: head_known_def view_ok_def heads_backward_def)
  with Some assms(4) show ?thesis by (simp add: lower_of_def)
qed

lemma same_head:
  "head_known view st b \<Longrightarrow> head_known view st b' \<Longrightarrow> map_option ce_id (cb_head b) = map_option ce_id (cb_head b') \<Longrightarrow>
     cb_head b = cb_head b'"
  unfolding head_known_def by (cases "cb_head b"; cases "cb_head b'") (simp_all, metis option.inject)

lemma read_from_range:
  assumes ok: "forked_ok st conv" "view_ok view" "heads_backward st" "length (history st conv) < n"
    and p: "range_of view st conv p" and b: "head_known view st b"
    and same: "map_option ce_id (cb_head (cr_bounds p)) = map_option ce_id (cb_head b)"
  shows "(if cb_tail b = cb_tail (cr_bounds p) then Some (Inr p)
     else if cb_tail b < cb_tail (cr_bounds p)
     then Some (Inr (derive_range b (filter (\<lambda>e. ce_id e \<le> cb_tail b) (cr_entries p))))
     else map_option (\<lambda>r. bind_res (lift_storage r) (\<lambda>added. Inr (extend_range p b (map view added))))
       (scan_range n st conv (Some (cb_tail (cr_bounds p) + 1)) (cb_tail b))) =
    Some (Inr (derive_range b (range_entries view st conv b)))"
proof -
  obtain b0 where b0: "p = derive_range b0 (range_entries view st conv b0)" "head_known view st b0"
    using p by (auto simp: range_of_def)
  then have parts: "cr_bounds p = b0" "cr_entries p = range_entries view st conv b0"
    using range_of_parts by simp_all
  have head: "cb_head b0 = cb_head b" using same_head[OF b0(2) b] same parts by simp
  then have start: "range_start b0 = range_start b" by (simp add: range_start_def)
  consider "cb_tail b = cb_tail b0" | "cb_tail b < cb_tail b0" | "cb_tail b0 < cb_tail b" by linarith
  then show ?thesis
  proof cases
    case 1
    with head have "b = b0" by simp
    with 1 b0(1) parts show ?thesis by simp
  next
    case 2
    have ids: "ce_id (view (entry_of st i)) = i" if "i \<in> set (history st conv)" for i
      using history_entries[of st i conv] ok(1,2) that by (auto simp: forked_ok_def entry_of_def view_ok_def)
    have "filter (\<lambda>i. ce_id (view (entry_of st i)) \<le> cb_tail b) (within (range_start b) (Some (cb_tail b0)) (history st conv)) =
        within (range_start b) (Some (cb_tail b)) (history st conv)"
      unfolding within_def filter_filter
      by (rule filter_cong[OF refl]) (use 2 in \<open>auto simp: upper_of_def ids\<close>)
    then have "filter (\<lambda>e. ce_id e \<le> cb_tail b) (range_entries view st conv b0) = range_entries view st conv b"
      by (simp add: range_entries_def start filter_map comp_def flip: rev_filter)
    with 2 parts show ?thesis by simp
  next
    case 3
    have "\<forall>i \<in> set (history st conv). cb_tail b0 < i \<longrightarrow> lower_of (range_start b) \<le> Fin i"
      using range_start_low[OF b0(2) ok(2,3)] start by simp
    from within_split[OF 3 _ this] history_descending[of st conv] ok(1)
    have "range_entries view st conv b0 @ map view (rev (map (entry_of st) (within (Some (cb_tail b0 + 1)) (Some (cb_tail b)) (history st conv)))) =
        range_entries view st conv b"
      by (simp add: range_entries_def start forked_ok_def rev_map)
    with extend_derived[of b b0 "range_entries view st conv b0"] head 3 parts b0(1) show ?thesis
      by (simp add: scan_range_all[OF ok(1,4)] lift_storage_def)
  qed
qed


lemma read_from_any:
  assumes ok: "forked_ok st conv" "view_ok view" "heads_backward st" "length (history st conv) < n"
    and p: "\<And>p. previous = Some p \<Longrightarrow> range_of view st conv p"
  shows "read_context_from n view st conv at previous =
    (case capture_context_bounds view st conv at of
       Inl e \<Rightarrow> Some (Inl e)
     | Inr None \<Rightarrow> Some (Inr (empty_view, None))
     | Inr (Some b) \<Rightarrow>
         let range = derive_range b (range_entries view st conv b) in Some (Inr (cr_view range, Some range)))"
proof (cases "capture_context_bounds view st conv at")
  case (Inr found)
  show ?thesis
  proof (cases found)
    case None
    with Inr show ?thesis by (simp add: read_context_from_def)
  next
    case (Some b)
    have known: "head_known view st b" by (rule bounds_known[OF ok(1,2)]) (use Inr Some in simp)
    note derived = derive_context_all[OF ok(1,4), of view b]
    show ?thesis
    proof (cases previous)
      case None
      with Inr Some derived show ?thesis by (simp add: read_context_from_def Let_def)
    next
      case prev: (Some p)
      show ?thesis
      proof (cases "map_option ce_id (cb_head (cr_bounds p)) = map_option ce_id (cb_head b)")
        case True
        from read_from_range[OF ok p[OF prev] known True] show ?thesis
          unfolding read_context_from_def Inr Some prev sum.case option.case using True by (simp add: Let_def)
      next
        case False
        with Inr Some derived prev show ?thesis by (simp add: read_context_from_def Let_def)
      qed
    qed
  qed
qed (simp add: read_context_from_def)

text \<open>Ranges stay true while the history only grows at its end.\<close>

lemma range_of_grows:
  assumes "range_of view st conv r" "entries st \<subseteq>\<^sub>m entries st'"
    and "\<And>i. i \<le> cb_tail (cr_bounds r) \<Longrightarrow> entries st i = entries st' i"
    and "filter (\<lambda>i. i \<le> cb_tail (cr_bounds r)) (history st' conv) = filter (\<lambda>i. i \<le> cb_tail (cr_bounds r)) (history st conv)"
  shows "range_of view st' conv r"
proof -
  from assms(1) obtain b where b: "r = derive_range b (range_entries view st conv b)" "head_known view st b"
    by (auto simp: range_of_def)
  then have tail: "cb_tail (cr_bounds r) = cb_tail b" using range_of_parts by simp
  have known: "head_known view st' b" using b(2) assms(3)[unfolded tail] unfolding head_known_def by metis
  have narrow: "within lo (Some (cb_tail b)) ids = filter (\<lambda>i. lower_of lo \<le> Fin i) (filter (\<lambda>i. i \<le> cb_tail b) ids)" for lo ids
    unfolding within_def filter_filter by (intro filter_cong) (auto simp: upper_of_def)
  have same: "map (\<lambda>i. view (entry_of st' i)) (filter (\<lambda>i. lower_of lo \<le> Fin i) (filter (\<lambda>i. i \<le> cb_tail b) ids)) =
      map (\<lambda>i. view (entry_of st i)) (filter (\<lambda>i. lower_of lo \<le> Fin i) (filter (\<lambda>i. i \<le> cb_tail b) ids))" for lo ids
    using assms(3)[unfolded tail] by (auto simp: entry_of_def simp del: filter_filter)
  have "range_entries view st' conv b = range_entries view st conv b"
    unfolding range_entries_def narrow assms(4)[unfolded tail] same ..
  with b(1) known show ?thesis unfolding range_of_def by metis
qed

section \<open>Properties\<close>

definition plain_view :: "entry_record \<Rightarrow> context_entry" where
  "plain_view e = \<lparr>ce_id = entry_id e, ce_kind = entry_kind e, ce_model = Some [\<lparr>msg_ref = nat (entry_id e), msg_body = UserMessage (Prim PNull)\<rparr>],
     ce_head = entry_head e, ce_edits = None\<rparr>"

lemma plain_view_ok: "view_ok plain_view"
  by (simp add: view_ok_def plain_view_def)

text \<open>Facts of the sample storage the witnesses share.\<close>

lemma sample_conversations: "conversations sample_storage i \<noteq> None \<Longrightarrow> i = 2 \<or> i = 5"
proof -
  have "set (conversation_ids sample_storage) = dom (conversations sample_storage)"
    using sample_ok by (auto simp: storage_ok_def tables_ok_def indexes_def)
  moreover have "conversation_ids sample_storage = [2, 5]" by code_simp
  ultimately show "conversations sample_storage i \<noteq> None \<Longrightarrow> i = 2 \<or> i = 5" by (auto simp: dom_def set_eq_iff)
qed

lemma sample_parents:
  "map (\<lambda>i. map_option conv_parent (conversations sample_storage i)) [2, 5] = [Some None, Some (Some (2, 3))]"
  by code_simp

lemma sample_entry_ids: "ids_at (entry_ids sample_storage) 5 = [6]"
  by code_simp

lemma apply_write_entries:
  "apply_write seq w st = Inr st' \<Longrightarrow> entries st' i = Some e \<Longrightarrow> entries st i = Some e \<or> w = WEntry e \<and> entry_id e = i"
  by (cases w) (auto simp: put_conversation_def put_entry_def put_task_def put_submission_def bump_id_def Let_def
      split: option.splits prod.splits if_splits)

lemma apply_action_entries: "apply_action seq ia st = Inr st' \<Longrightarrow> entries st' = entries st"
  by (auto simp: apply_action_def write_document_def bump_id_def index_address_def Let_def res_simps
      split: prod.splits option.splits if_splits)

lemma resolve_copy_entry: "resolve_copy st S v = Inr (WEntry e) \<Longrightarrow> v = WEntry e"
  by (cases v) (auto split: if_splits sum.splits option.splits)

lemma resolved_entry: "resolve_document_copies st ws = Inr ds \<Longrightarrow> WEntry e \<in> set ds \<Longrightarrow> WEntry e \<in> set ws"
proof -
  assume "resolve_document_copies st ws = Inr ds" "WEntry e \<in> set ds"
  then have "list_all2 (\<lambda>v w. resolve_copy st (set (concat (map changed_document ws))) v = Inr w) ws ds" "WEntry e \<in> set ds"
    by (simp_all add: resolve_document_copies_def map_res_Inr_iff)
  then obtain v where "v \<in> set ws" "resolve_copy st (set (concat (map changed_document ws))) v = Inr (WEntry e)"
    unfolding list_all2_conv_all_nth in_set_conv_nth by metis
  then show ?thesis using resolve_copy_entry by blast
qed

text \<open>The entries of a storage come from its commits.\<close>

lemma commit_entries:
  assumes "commit st ws = Inr (seq, st')" "entries st' i = Some e"
  shows "entries st i = Some e \<or> WEntry e \<in> set ws \<and> entry_id e = i"
proof -
  from assms(1) obtain ds actions st1 st2 where c: "resolve_document_copies st ws = Inr ds"
    "fold_res (apply_write seq) ds st = Inr st1" "fold_res (apply_action seq) actions st1 = Inr st2" "entries st' = entries st2"
    by (auto simp: commit_def Let_def res_simps apply_prepared_commit_def apply_document_actions_def dest!: prepare_commit_parts)
  have "entries st2 = entries st1"
    by (rule fold_res_invariant[OF c(3), where P = "\<lambda>s. entries s = entries st1"]) (auto dest: apply_action_entries)
  moreover have "\<forall>j r. entries st1 j = Some r \<longrightarrow> entries st j = Some r \<or> WEntry r \<in> set ds \<and> entry_id r = j"
    by (rule fold_res_invariant[OF c(2)]) (use apply_write_entries in blast)+
  ultimately show ?thesis using c(1,4) assms(2) resolved_entry by metis
qed

lemma sample_entries: "entries sample_storage i = Some e \<Longrightarrow> e \<in> {sample_entry 3 2 None, sample_entry 4 2 (Some 3), sample_entry 6 5 None} \<and> entry_id e = i"
proof -
  assume e: "entries sample_storage i = Some e"
  obtain st where st: "commit empty_storage sample_writes = Inr (1, st)"
    using sample_commit by (cases "commit empty_storage sample_writes") auto
  then have "sample_storage = st" by (simp add: sample_storage_def committed_def)
  with commit_entries[OF st] e have "WEntry e \<in> set sample_writes \<and> entry_id e = i" by (auto simp: empty_storage_def)
  then show ?thesis by (auto simp: sample_writes_def)
qed

lemma sample_forked: "forked_ok sample_storage 5"
proof -
  have "parents_older sample_storage"
    unfolding parents_older_def
  proof (intro allI impI)
    fix i c p s assume "conversations sample_storage i = Some c" "conv_parent c = Some (p, s)"
    with sample_conversations[of i] sample_parents show "p < i \<and> conversations sample_storage p \<noteq> None" by auto
  qed
  moreover have "s < e" if "conversations sample_storage i = Some c" "conv_parent c = Some (p, s)"
      "entries sample_storage e = Some r" "entry_conv r = i" for i c p s e r
    using that sample_conversations[of i] sample_parents sample_entries[of e r] by (auto simp: sample_entry_def)
  moreover have "conversations sample_storage 5 \<noteq> None" by code_simp
  ultimately show ?thesis using sample_ok sample_open by (auto simp: forked_ok_def forks_ok_def)
qed

lemma sample_heads: "heads_backward sample_storage"
  by (auto simp: heads_backward_def sample_entry_def dest!: sample_entries)

lemma sample_history: "history sample_storage 5 = [6, 3]"
  by code_simp

text \<open>
  C18: A read that reuses an earlier range is the read without it. Whatever earlier range of the
  conversation is passed in, as long as it is still true of the storage, \<open>readContextFrom\<close>
  gives the view and the range that a fresh read gives, for the newest entry and for any cut
  off point, and the view is that of \<open>readContext\<close>.
\<close>

theorem context_reuse_transparent:
  assumes "forked_ok st conv" "view_ok view" "heads_backward st" "length (history st conv) < n"
    and "\<And>p. previous = Some p \<Longrightarrow> range_of view st conv p"
  shows "read_context_from n view st conv at previous = read_context_from n view st conv at None \<and>
    read_context n view st conv at = map_option (map_sum (\<lambda>e. e) fst) (read_context_from n view st conv at previous)"
proof -
  note all = read_from_any[OF assms(1-4)]
  have "read_context n view st conv at = map_option (map_sum (\<lambda>e. e) fst) (read_context_from n view st conv at None)"
    using derive_context_all[OF assms(1,4), of view] all[of None at]
    by (simp add: read_context_def Let_def split: sum.splits option.splits)
  with all[OF assms(5)] all[of None at] show ?thesis by simp
qed

theorem context_reuse_transparent_witness:
  "\<exists>range. read_context_from 3 plain_view sample_storage 5 (Some 3) None = Some (Inr (cr_view range, Some range)) \<and>
     read_context_from 3 plain_view sample_storage 5 None (Some range) = read_context_from 3 plain_view sample_storage 5 None None"
proof -
  have len: "length (history sample_storage 5) < 3" by (simp add: sample_history)
  note base = sample_forked plain_view_ok sample_heads len
  have cap: "capture_context_bounds plain_view sample_storage 5 (Some 3) = Inr (Some \<lparr>cb_head = None, cb_tail = 3\<rparr>)" by code_simp
  let ?b = "\<lparr>cb_head = None, cb_tail = 3\<rparr>"
  let ?r = "derive_range ?b (range_entries plain_view sample_storage 5 ?b)"
  have "range_of plain_view sample_storage 5 ?r" by (auto simp: range_of_def head_known_def)
  with context_reuse_transparent[OF base, of "Some ?r" None] read_from_any[OF base, of None "Some 3"] cap
  show ?thesis by (auto simp: Let_def)
qed

end
