(* ===== verification/Output_Bound.thy ===== *)
theory Output_Bound
  imports Prelude "HOL-Library.Word"
begin

unbundle bit_operations_syntax

text \<open>
  Bounding a text to a head or tail window of whole lines
  (\<open>packages/chord/src/output.ts\<close>, \<open>boundOutput\<close> and the ranges below it). A text is its
  UTF-8 encoding, a list of bytes: encoding is the identity, and so is decoding a slice that
  starts and ends on character boundaries, which is proved of every slice that is taken.
  Strings with lone surrogates, which UTF-8 cannot encode, are left out.
\<close>

type_synonym byte = "8 word"
type_synonym utf8 = "byte list"

datatype retain = Head | Tail

record output_limits =
  max_bytes :: nat
  max_lines :: nat
  retain_of :: retain

definition NEWLINE :: byte where "NEWLINE = 0x0a"

section \<open>Searching bytes\<close>

text \<open>\<open>bytes.indexOf(NEWLINE, from)\<close>, and \<open>bytes.lastIndexOf(NEWLINE, n - 1)\<close> (none for \<open>n = 0\<close>).\<close>

definition newline_from :: "utf8 \<Rightarrow> nat \<Rightarrow> nat option" where
  "newline_from bytes k = List.find (\<lambda>i. bytes ! i = NEWLINE) [k ..< length bytes]"

definition newline_before :: "utf8 \<Rightarrow> nat \<Rightarrow> nat option" where
  "newline_before bytes n = List.find (\<lambda>i. bytes ! i = NEWLINE) (rev [0 ..< min n (length bytes)])"

definition count_newlines :: "utf8 \<Rightarrow> nat" where
  "count_newlines bytes = length (filter (\<lambda>b. b = NEWLINE) bytes)"

definition ends_with_newline :: "utf8 \<Rightarrow> bool" where
  "ends_with_newline bytes \<longleftrightarrow> bytes \<noteq> [] \<and> last bytes = NEWLINE"

definition continuation :: "byte \<Rightarrow> bool" where
  "continuation b \<longleftrightarrow> b AND 0xc0 = 0x80"

fun character_end :: "utf8 \<Rightarrow> nat \<Rightarrow> nat" where
  "character_end bytes 0 = 0"
| "character_end bytes (Suc n) =
     (if Suc n < length bytes \<and> continuation (bytes ! Suc n) then character_end bytes n else Suc n)"

function character_start :: "utf8 \<Rightarrow> nat \<Rightarrow> nat" where
  "character_start bytes n =
     (if n < length bytes \<and> continuation (bytes ! n) then character_start bytes (Suc n) else n)"
  by pat_completeness auto
termination
  by (relation "measure (\<lambda>(bytes, n). length bytes - n)") auto

declare character_start.simps [simp del]

definition line_count :: "utf8 \<Rightarrow> nat" where
  "line_count bytes =
     (if bytes = [] then 0 else count_newlines bytes + (if last bytes = NEWLINE then 0 else 1))"

section \<open>The ranges\<close>

lemma newline_from_Some: "newline_from bytes k = Some i \<Longrightarrow> k \<le> i \<and> i < length bytes \<and> bytes ! i = NEWLINE"
  by (auto simp: newline_from_def find_Some_iff)

lemma newline_before_Some: "newline_before bytes n = Some i \<Longrightarrow> i < n \<and> i < length bytes \<and> bytes ! i = NEWLINE"
proof -
  assume "newline_before bytes n = Some i"
  then have "i \<in> set (rev [0 ..< min n (length bytes)])" "bytes ! i = NEWLINE"
    unfolding newline_before_def find_Some_iff by (metis nth_mem, blast)
  then show ?thesis by simp
qed

text \<open>The end of the line where the limit on lines is reached.\<close>

function head_line_end :: "utf8 \<Rightarrow> nat \<Rightarrow> nat \<Rightarrow> nat \<Rightarrow> nat" where
  "head_line_end bytes limit k seen =
     (case newline_from bytes k of
        None \<Rightarrow> length bytes
      | Some i \<Rightarrow> if Suc seen = limit then Suc i else head_line_end bytes limit (Suc i) (Suc seen))"
  by pat_completeness auto
termination
  by (relation "measure (\<lambda>(bytes, limit, k, seen). length bytes - k)") (auto dest!: newline_from_Some)

declare head_line_end.simps [simp del]

definition head_range :: "utf8 \<Rightarrow> output_limits \<Rightarrow> nat \<times> nat" where
  "head_range bytes limits =
     (if max_lines limits = 0 \<or> max_bytes limits = 0 then (0, 0)
      else
        (let stop = head_line_end bytes (max_lines limits) 0 0 in
         (0, if stop > max_bytes limits
             then (case newline_before bytes (max_bytes limits) of
                 None \<Rightarrow> character_end bytes (max_bytes limits) | Some i \<Rightarrow> Suc i)
             else stop)))"

text \<open>The start of the first line the limit on lines allows, from the end.\<close>

function tail_line_start :: "utf8 \<Rightarrow> nat \<Rightarrow> nat \<Rightarrow> nat \<Rightarrow> nat option" where
  "tail_line_start bytes limit n seen =
     (case newline_before bytes n of
        None \<Rightarrow> None
      | Some i \<Rightarrow> if seen = limit then Some (Suc i) else tail_line_start bytes limit i (Suc seen))"
  by pat_completeness auto
termination
  by (relation "measure (\<lambda>(bytes, limit, n, seen). n)") (auto dest!: newline_before_Some)

declare tail_line_start.simps [simp del]

definition tail_start :: "utf8 \<Rightarrow> output_limits \<Rightarrow> nat" where
  "tail_start bytes limits =
     (let n = (if ends_with_newline bytes then length bytes - 1 else length bytes);
          start = (case tail_line_start bytes (max_lines limits) n 1 of None \<Rightarrow> 0 | Some i \<Rightarrow> i)
      in if length bytes - start > max_bytes limits
         then (let from = length bytes - max_bytes limits in
           case newline_from bytes (from - 1) of
             None \<Rightarrow> character_start bytes from
           | Some i \<Rightarrow> if Suc i < length bytes then Suc i else character_start bytes from)
         else start)"

definition tail_range :: "utf8 \<Rightarrow> output_limits \<Rightarrow> nat \<times> nat" where
  "tail_range bytes limits =
     (if max_lines limits = 0 \<or> max_bytes limits = 0 then (length bytes, length bytes)
      else (tail_start bytes limits, length bytes))"

record output_slice =
  slice_text :: utf8
  slice_bytes :: nat
  slice_dropped_bytes :: int
  slice_dropped_lines :: int

definition bound_output :: "utf8 \<Rightarrow> output_limits \<Rightarrow> output_slice" where
  "bound_output bytes limits =
     (let (lo, hi) = (case retain_of limits of Head \<Rightarrow> head_range bytes limits | Tail \<Rightarrow> tail_range bytes limits);
          kept = Prelude.slice bytes lo hi
      in \<lparr>slice_text = (if length kept = length bytes then bytes else kept),
          slice_bytes = length kept,
          slice_dropped_bytes = int (length bytes) - int (length kept),
          slice_dropped_lines = int (line_count bytes) - int (line_count kept)\<rparr>)"

section \<open>Windows of a longer text\<close>

lemma count_newlines_append [simp]: "count_newlines (xs @ ys) = count_newlines xs + count_newlines ys"
  by (simp add: count_newlines_def)

lemma count_newlines_simps [simp]:
  "count_newlines [] = 0" "count_newlines (b # bs) = (if b = NEWLINE then 1 else 0) + count_newlines bs"
  by (simp_all add: count_newlines_def)

lemma newline_before_snoc:
  "newline_before bytes (Suc n) = (if n < length bytes \<and> bytes ! n = NEWLINE then Some n else newline_before bytes n)"
proof (cases "n < length bytes")
  case True
  then have "min (Suc n) (length bytes) = Suc n" "min n (length bytes) = n" by simp_all
  with True show ?thesis by (simp add: newline_before_def)
next
  case False
  then have "min (Suc n) (length bytes) = length bytes" "min n (length bytes) = length bytes" by simp_all
  with False show ?thesis by (simp add: newline_before_def)
qed

lemma newline_before_0 [simp]: "newline_before bytes 0 = None"
  by (simp add: newline_before_def)

lemma newline_before_shift:
  "m \<le> length s \<Longrightarrow> newline_before (xs @ s) (length xs + m) =
     (case newline_before s m of Some i \<Rightarrow> Some (length xs + i) | None \<Rightarrow> newline_before xs (length xs))"
proof (induction m)
  case 0
  have "List.find (\<lambda>i. (xs @ s) ! i = NEWLINE) (rev [0 ..< length xs]) = List.find (\<lambda>i. xs ! i = NEWLINE) (rev [0 ..< length xs])"
    by (rule find_cong) (auto simp: nth_append)
  then show ?case by (simp add: newline_before_def)
next
  case (Suc m)
  then show ?case by (simp add: newline_before_snoc nth_append)
qed

lemma newline_before_take: "n \<le> length xs \<Longrightarrow> newline_before (xs @ s) n = newline_before xs n"
  by (induction n) (auto simp: newline_before_snoc nth_append)

lemma newline_from_shift: "newline_from (xs @ s) (length xs + k) = map_option ((+) (length xs)) (newline_from s k)"
proof (induction "length s - k" arbitrary: k)
  case 0
  then show ?case by (simp add: newline_from_def)
next
  case (Suc d)
  then have k: "k < length s" "d = length s - Suc k" by auto
  then have "[length xs + k ..< length (xs @ s)] = (length xs + k) # [length xs + Suc k ..< length (xs @ s)]"
    "[k ..< length s] = k # [Suc k ..< length s]" by (simp_all add: upt_rec)
  with Suc.hyps(1)[OF k(2)] show ?case by (simp add: newline_from_def nth_append)
qed


lemma newline_from_prefix:
  "k \<le> length xs \<Longrightarrow> newline_from (xs @ s) k =
     (case newline_from xs k of Some i \<Rightarrow> Some i | None \<Rightarrow> newline_from (xs @ s) (length xs))"
proof (induction "length xs - k" arbitrary: k)
  case 0
  then have "newline_from xs k = None" "k = length xs" by (simp_all add: newline_from_def)
  then show ?case by simp
next
  case (Suc d)
  then have k: "k < length xs" "d = length xs - Suc k" "Suc k \<le> length xs" by auto
  then have "[k ..< length (xs @ s)] = k # [Suc k ..< length (xs @ s)]" "[k ..< length xs] = k # [Suc k ..< length xs]"
    by (simp_all add: upt_rec)
  with Suc.hyps(1)[OF k(2,3)] k(1) show ?case by (simp add: newline_from_def nth_append)
qed

text \<open>The loop over the last lines depends on the end of the text only.\<close>

lemma tail_line_start_shift:
  "m \<le> length s \<Longrightarrow>
     (case tail_line_start s limit m seen of
        Some a \<Rightarrow> tail_line_start (xs @ s) limit (length xs + m) seen = Some (length xs + a) \<and> a \<le> m
      | None \<Rightarrow> (\<forall>a. tail_line_start (xs @ s) limit (length xs + m) seen = Some a \<longrightarrow> a \<le> length xs))"
proof (induction m arbitrary: seen rule: less_induct)
  case (less m)
  show ?case
  proof (cases "newline_before s m")
    case None
    have "tail_line_start (xs @ s) limit n seen = Some a \<Longrightarrow> a \<le> n" for n seen a
    proof (induction n arbitrary: seen rule: less_induct)
      case (less n)
      show ?case
      proof (cases "newline_before (xs @ s) n")
        case (Some i)
        with newline_before_Some[OF Some] less.prems less.IH[of i "Suc seen"] show ?thesis
          by (subst (asm) tail_line_start.simps) (auto split: if_splits)
      qed (use less.prems in \<open>subst (asm) tail_line_start.simps, simp\<close>)
    qed
    note le = this
    have "a \<le> length xs" if a: "tail_line_start (xs @ s) limit (length xs + m) seen = Some a" for a
    proof (cases "newline_before xs (length xs)")
      case None': None
      with a None less.prems show ?thesis by (subst (asm) tail_line_start.simps) (simp add: newline_before_shift)
    next
      case (Some i)
      with newline_before_Some[OF Some] le[of i] a None less.prems show ?thesis
        by (subst (asm) tail_line_start.simps) (fastforce simp: newline_before_shift split: if_splits)
    qed
    with None show ?thesis by (simp add: tail_line_start.simps[of s])
  next
    case (Some i)
    from newline_before_Some[OF Some] have i: "i < m" "i \<le> length s" by auto
    from less.IH[OF i(1,2), of "Suc seen"] Some i less.prems show ?thesis
      by (simp add: tail_line_start.simps[of s limit m] tail_line_start.simps[of "xs @ s" limit "length xs + m"]
          newline_before_shift split: option.splits)
  qed
qed

lemma tail_line_start_count:
  "seen \<le> limit \<Longrightarrow> m \<le> length s \<Longrightarrow> limit < seen + count_newlines (take m s) \<Longrightarrow> tail_line_start s limit m seen \<noteq> None"
proof (induction m arbitrary: seen)
  case 0
  then show ?case by simp
next
  case (Suc m)
  have take: "take (Suc m) s = take m s @ [s ! m]" using Suc.prems by (simp add: take_Suc_conv_app_nth)
  show ?case
  proof (cases "s ! m = NEWLINE")
    case True
    show ?thesis
    proof (cases "seen = limit")
      case True
      with \<open>s ! m = NEWLINE\<close> Suc.prems show ?thesis
        by (subst tail_line_start.simps) (simp add: newline_before_snoc)
    next
      case False
      with True Suc.prems take have "tail_line_start s limit m (Suc seen) \<noteq> None" by (intro Suc.IH) auto
      with True False Suc.prems show ?thesis by (subst tail_line_start.simps) (simp add: newline_before_snoc)
    qed
  next
    case False
    with Suc.prems take have "tail_line_start s limit m seen \<noteq> None" by (intro Suc.IH) auto
    moreover have "tail_line_start s limit (Suc m) seen = tail_line_start s limit m seen"
      using False by (subst (1 2) tail_line_start.simps) (simp add: newline_before_snoc)
    ultimately show ?thesis by simp
  qed
qed

text \<open>A suffix with more than the window in bytes or in newlines decides the tail.\<close>

definition covers_tail :: "output_limits \<Rightarrow> utf8 \<Rightarrow> bool" where
  "covers_tail limits s \<longleftrightarrow> max_bytes limits < length s \<or> max_lines limits < count_newlines s"

lemma character_start_shift: "character_start (xs @ s) (length xs + n) = length xs + character_start s n"
proof (induction "length s - n" arbitrary: n)
  case 0
  then show ?case by (simp add: character_start.simps)
next
  case (Suc d)
  then have "d = length s - Suc n" "n < length s" by auto
  with Suc.hyps(1)[of "Suc n"] show ?case
    by (simp add: character_start.simps[of "xs @ s"] character_start.simps[of s] nth_append)
qed

lemma tail_start_shift:
  assumes "covers_tail limits s" "0 < max_bytes limits" "0 < max_lines limits"
  shows "tail_start (xs @ s) limits = length xs + tail_start s limits"
proof -
  have "s \<noteq> []" using assms(1) by (auto simp: covers_tail_def)
  define n where "n = (if ends_with_newline s then length s - 1 else length s)"
  have n: "n \<le> length s" "(if ends_with_newline (xs @ s) then length (xs @ s) - 1 else length (xs @ s)) = length xs + n"
    using \<open>s \<noteq> []\<close> by (cases s; auto simp: n_def ends_with_newline_def)+
  define t where "t = tail_line_start s (max_lines limits) n 1"
  define u where "u = tail_line_start (xs @ s) (max_lines limits) (length xs + n) 1"
  have shift: "case t of Some a \<Rightarrow> u = Some (length xs + a) | None \<Rightarrow> \<forall>a. u = Some a \<longrightarrow> a \<le> length xs"
    using tail_line_start_shift[OF n(1), where limit = "max_lines limits" and seen = 1 and xs = xs] by (auto simp: t_def u_def split: option.splits)
  have win: "newline_from (xs @ s) (length xs + length s - max_bytes limits - 1) =
      map_option ((+) (length xs)) (newline_from s (length s - max_bytes limits - 1))"
    "character_start (xs @ s) (length xs + length s - max_bytes limits) = length xs + character_start s (length s - max_bytes limits)"
    if "max_bytes limits < length s"
    using newline_from_shift[of xs s "length s - max_bytes limits - 1"] character_start_shift[of xs s "length s - max_bytes limits"] that
    by (simp_all add: diff_diff_add)
  show ?thesis
  proof (cases t)
    case None
    then have "max_bytes limits < length s"
    proof -
      have "count_newlines s = count_newlines (take n s) + (if ends_with_newline s then 1 else 0)"
        using \<open>s \<noteq> []\<close> by (cases s rule: rev_cases) (auto simp: n_def ends_with_newline_def)
      with None tail_line_start_count[of 1 "max_lines limits" n s] n(1) assms(3)
      have "\<not> max_lines limits < count_newlines s" by (auto simp: t_def split: if_splits)
      with assms(1) show ?thesis by (simp add: covers_tail_def)
    qed
    moreover from None shift have "case u of None \<Rightarrow> True | Some a \<Rightarrow> a \<le> length xs" by (auto split: option.splits)
    ultimately show ?thesis
      using win None unfolding tail_start_def n(2) n_def[symmetric] t_def[symmetric] u_def[symmetric] Let_def
      by (auto split: option.splits)
  next
    case (Some a)
    with shift have u: "u = Some (length xs + a)" by simp
    show ?thesis
      using win Some u unfolding tail_start_def n(2) n_def[symmetric] t_def[symmetric] u_def[symmetric] Let_def
      by (auto split: option.splits)
  qed
qed


text \<open>A prefix that fills the window decides the head.\<close>

definition fills_head :: "output_limits \<Rightarrow> utf8 \<Rightarrow> bool" where
  "fills_head limits s \<longleftrightarrow> max_bytes limits < length s \<or> max_lines limits \<le> count_newlines s"

lemma newline_from_None: "newline_from bytes k = None \<Longrightarrow> count_newlines (drop k bytes) = 0"
  by (force simp: newline_from_def find_None_iff count_newlines_def filter_empty_conv in_set_conv_nth)

lemma newline_from_count:
  "newline_from bytes k = Some i \<Longrightarrow> count_newlines (drop k bytes) = Suc (count_newlines (drop (Suc i) bytes))"
proof (induction "i - k" arbitrary: k)
  case 0
  then have "i = k" "k < length bytes" "bytes ! k = NEWLINE" using newline_from_Some[of bytes k i] by auto
  then show ?case by (simp flip: Cons_nth_drop_Suc)
next
  case (Suc d)
  then have i: "k < i" "i < length bytes" "d = i - Suc k" using newline_from_Some[of bytes k i] by auto
  then have "[k ..< length bytes] = k # [Suc k ..< length bytes]" by (simp add: upt_rec)
  with Suc.prems i(1) have "bytes ! k \<noteq> NEWLINE" "newline_from bytes (Suc k) = Some i"
    by (auto simp: newline_from_def split: if_splits)
  with Suc.hyps(1)[OF i(3)] i(1,2) show ?case by (simp flip: Cons_nth_drop_Suc)
qed

lemma head_line_end_upper: "k \<le> length ys \<Longrightarrow> k \<le> head_line_end ys limit k seen"
proof (induction ys limit k seen rule: head_line_end.induct)
  case (1 ys limit k seen)
  show ?case
  proof (cases "newline_from ys k")
    case (Some i)
    then have "k \<le> i" "Suc i \<le> length ys" by (auto dest!: newline_from_Some)
    with 1 Some show ?thesis by (subst head_line_end.simps) (cases "Suc seen = limit"; simp)
  qed (use 1 in \<open>subst head_line_end.simps, simp\<close>)
qed

lemma head_line_end_length: "head_line_end ys limit k seen \<le> length ys"
proof (induction ys limit k seen rule: head_line_end.induct)
  case (1 ys limit k seen)
  show ?case
  proof (cases "newline_from ys k")
    case (Some i)
    then have "Suc i \<le> length ys" by (auto dest!: newline_from_Some)
    with 1 Some show ?thesis by (subst head_line_end.simps) simp
  qed (subst head_line_end.simps, simp)
qed

lemma head_line_end_past:
  assumes "newline_from xs k = None" "k \<le> length xs"
  shows "length xs \<le> head_line_end (xs @ s) limit k seen"
proof -
  have eq: "newline_from (xs @ s) k = newline_from (xs @ s) (length xs)"
    using assms by (simp add: newline_from_prefix)
  show ?thesis
  proof (cases "newline_from (xs @ s) (length xs)")
    case (Some i)
    then have i: "length xs \<le> i" "Suc i \<le> length (xs @ s)" by (auto dest!: newline_from_Some)
    with head_line_end_upper[OF i(2), of limit "Suc seen"] eq Some show ?thesis
      by (subst head_line_end.simps) simp
  qed (use eq in \<open>subst head_line_end.simps, simp\<close>)
qed

lemma head_line_end_prefix:
  "k \<le> length xs \<Longrightarrow> seen < limit \<Longrightarrow>
     (if limit \<le> seen + count_newlines (drop k xs)
      then head_line_end (xs @ s) limit k seen = head_line_end xs limit k seen
      else head_line_end xs limit k seen = length xs \<and> length xs \<le> head_line_end (xs @ s) limit k seen)"
proof (induction "length xs - k" arbitrary: k seen rule: less_induct)
  case less
  show ?case
  proof (cases "newline_from xs k")
    case None
    then have "count_newlines (drop k xs) = 0" by (rule newline_from_None)
    moreover have "head_line_end xs limit k seen = length xs" using None by (subst head_line_end.simps) simp
    ultimately show ?thesis using head_line_end_past[OF None less.prems(1)] less.prems(2) by simp
  next
    case (Some i)
    from newline_from_Some[OF Some] have i: "k \<le> i" "i < length xs" by auto
    have old: "head_line_end xs limit k seen = (if Suc seen = limit then Suc i else head_line_end xs limit (Suc i) (Suc seen))"
      using Some by (subst head_line_end.simps) simp
    have "newline_from (xs @ s) k = Some i" using Some less.prems(1) by (simp add: newline_from_prefix)
    then have new: "head_line_end (xs @ s) limit k seen = (if Suc seen = limit then Suc i else head_line_end (xs @ s) limit (Suc i) (Suc seen))"
      by (subst head_line_end.simps) simp
    show ?thesis
    proof (cases "Suc seen = limit")
      case True
      then show ?thesis unfolding old new newline_from_count[OF Some] by simp
    next
      case False
      with less.prems(2) have "Suc seen < limit" by simp
      with less.hyps[of "Suc i" "Suc seen"] i False show ?thesis
        unfolding old new newline_from_count[OF Some] by simp
    qed
  qed
qed

lemma character_end_prefix: "n < length xs \<Longrightarrow> character_end (xs @ s) n = character_end xs n"
  by (induction n) (auto simp: nth_append)

lemma head_range_prefix:
  assumes "fills_head limits xs"
  shows "head_range (xs @ s) limits = head_range xs limits"
proof (cases "max_lines limits = 0 \<or> max_bytes limits = 0")
  case False
  note prefix = head_line_end_prefix[of 0 xs 0 "max_lines limits" s]
  show ?thesis
  proof (cases "max_lines limits \<le> count_newlines xs")
    case True
    with prefix False have same: "head_line_end (xs @ s) (max_lines limits) 0 0 = head_line_end xs (max_lines limits) 0 0"
      by simp
    have "newline_before (xs @ s) (max_bytes limits) = newline_before xs (max_bytes limits)"
      "character_end (xs @ s) (max_bytes limits) = character_end xs (max_bytes limits)"
      if "max_bytes limits < head_line_end xs (max_lines limits) 0 0"
    proof -
      from that head_line_end_length[of xs "max_lines limits" 0 0] have "max_bytes limits < length xs"
        by (rule order_less_le_trans)
      then show "newline_before (xs @ s) (max_bytes limits) = newline_before xs (max_bytes limits)"
        "character_end (xs @ s) (max_bytes limits) = character_end xs (max_bytes limits)"
        by (simp_all add: newline_before_take character_end_prefix)
    qed
    then show ?thesis by (auto simp: head_range_def same Let_def split: option.splits)
  next
    case False
    with assms have "max_bytes limits < length xs" by (simp add: fills_head_def)
    with prefix False \<open>\<not> (max_lines limits = 0 \<or> _)\<close> show ?thesis
      by (auto simp: head_range_def Let_def newline_before_take character_end_prefix split: option.splits)
  qed
qed (simp add: head_range_def)

end
