(* ===== verification/Output_Buffer.thy ===== *)
theory Output_Buffer
  imports Output_Bound
begin

text \<open>
  The running output of a stream (\<open>packages/chord/src/output.ts\<close>, class \<open>OutputBuffer\<close>): chunks
  are counted and stored as they arrive, stored text the window cannot need is dropped, and a
  snapshot bounds what is stored. The decoder of byte chunks is the platform's \<open>TextDecoder\<close>, a
  parameter with its state; nothing is assumed of it. What is proved: a snapshot is the bound of
  the whole stream, whatever was stored, dropped and snapshotted on the way.
\<close>

section \<open>State\<close>

record chunk =
  chunk_text :: utf8
  chunk_bytes :: nat
  chunk_newlines :: nat

record 'd output_buffer =
  buffer_limits :: output_limits
  buffer_decoder :: 'd
  started :: bool
  chunks :: "chunk list"
  stored_bytes :: nat
  stored_newlines :: nat
  full :: bool
  total_bytes :: nat
  total_newlines :: nat
  total_terminated :: bool

text \<open>A streaming decoder: \<open>decode(bytes, {stream: true})\<close>, and \<open>decode()\<close>, which flushes it.\<close>

record 'd text_decoder =
  decoder_new :: 'd
  decode_stream :: "'d \<Rightarrow> byte list \<Rightarrow> utf8 \<times> 'd"
  decode_flush :: "'d \<Rightarrow> utf8 \<times> 'd"

datatype output_chunk = Text_Chunk utf8 | Byte_Chunk "byte list"

record output_skip =
  skip_bytes :: nat
  skip_newlines :: nat
  skip_terminated :: bool

datatype push_error = Skip_Requires_Tail

record bounded_output =
  bounded_text :: utf8
  bounded_dropped_bytes :: int
  bounded_dropped_lines :: int

section \<open>Operations\<close>

definition new_buffer :: "'d text_decoder \<Rightarrow> output_limits \<Rightarrow> 'd output_buffer" where
  "new_buffer dec limits = \<lparr>buffer_limits = limits, buffer_decoder = decoder_new dec, started = False, chunks = [],
     stored_bytes = 0, stored_newlines = 0, full = False, total_bytes = 0, total_newlines = 0, total_terminated = True\<rparr>"

text \<open>Leading chunks go while the rest holds more than a window, one byte or newline included.\<close>

fun drop_leading :: "output_limits \<Rightarrow> chunk list \<Rightarrow> nat \<Rightarrow> nat \<Rightarrow> chunk list \<times> nat \<times> nat" where
  "drop_leading limits (c # c' # cs) bytes newlines =
     (let bytes_after = bytes - chunk_bytes c; newlines_after = newlines - chunk_newlines c in
      if bytes_after \<le> max_bytes limits + 1 \<and> newlines_after \<le> max_lines limits + 1
      then (c # c' # cs, bytes, newlines)
      else drop_leading limits (c' # cs) bytes_after newlines_after)"
| "drop_leading limits cs bytes newlines = (cs, bytes, newlines)"

definition accept :: "'d output_buffer \<Rightarrow> utf8 \<Rightarrow> bool \<times> 'd output_buffer" where
  "accept buf t =
     (if t = [] then (False, buf)
      else
        (let buf1 = buf\<lparr>total_bytes := total_bytes buf + length t,
                         total_newlines := total_newlines buf + count_newlines t,
                         total_terminated := ends_with_newline t\<rparr> in
         if full buf1 then (True, buf1)
         else
           (let buf2 = buf1\<lparr>chunks := chunks buf1 @ [\<lparr>chunk_text = t, chunk_bytes = length t, chunk_newlines = count_newlines t\<rparr>],
                            stored_bytes := stored_bytes buf1 + length t,
                            stored_newlines := stored_newlines buf1 + count_newlines t\<rparr> in
            case retain_of (buffer_limits buf2) of
              Head \<Rightarrow> (True, buf2\<lparr>full := stored_bytes buf2 > max_bytes (buffer_limits buf2) \<or>
                                          stored_newlines buf2 \<ge> max_lines (buffer_limits buf2)\<rparr>)
            | Tail \<Rightarrow>
                (let (cs, bytes, newlines) =
                   drop_leading (buffer_limits buf2) (chunks buf2) (stored_bytes buf2) (stored_newlines buf2)
                 in (True, buf2\<lparr>chunks := cs, stored_bytes := bytes, stored_newlines := newlines\<rparr>)))))"

definition skip_output :: "'d output_buffer \<Rightarrow> output_skip \<Rightarrow> 'd output_buffer" where
  "skip_output buf skipped =
     (if skip_bytes skipped = 0 then buf
      else buf\<lparr>total_bytes := total_bytes buf + skip_bytes skipped,
               total_newlines := total_newlines buf + skip_newlines skipped,
               total_terminated := skip_terminated skipped,
               chunks := [], stored_bytes := 0, stored_newlines := 0\<rparr>)"

definition BYTE_ORDER_MARK :: utf8 where "BYTE_ORDER_MARK = [0xef, 0xbb, 0xbf]"

definition strip_mark :: "utf8 \<Rightarrow> utf8" where
  "strip_mark t = (if take 3 t = BYTE_ORDER_MARK then drop 3 t else t)"

text \<open>The text a chunk adds: what an earlier incomplete character leaves, then the chunk's own.\<close>

definition decode_chunk ::
  "'d text_decoder \<Rightarrow> 'd output_buffer \<Rightarrow> output_chunk \<Rightarrow> output_skip option \<Rightarrow> utf8 \<times> utf8 \<times> 'd output_buffer" where
  "decode_chunk dec buf ch skipped =
     (let (pending, d1) = (case (ch, skipped) of
            (Byte_Chunk _, None) \<Rightarrow> ([], buffer_decoder buf)
          | _ \<Rightarrow> decode_flush dec (buffer_decoder buf));
          (t, d2) = (case ch of Text_Chunk t \<Rightarrow> (t, d1) | Byte_Chunk bs \<Rightarrow> decode_stream dec d1 bs);
          first = (\<not> started buf \<and> pending = [] \<and> skipped = None);
          started' = (started buf \<or> pending \<noteq> [] \<or> t \<noteq> [] \<or> skipped \<noteq> None);
          t' = (case ch of Text_Chunk _ \<Rightarrow> t | Byte_Chunk _ \<Rightarrow> if first then strip_mark t else t)
      in (pending, t', buf\<lparr>buffer_decoder := d2, started := started'\<rparr>))"

definition push ::
  "'d text_decoder \<Rightarrow> 'd output_buffer \<Rightarrow> output_chunk \<Rightarrow> output_skip option \<Rightarrow> (push_error + bool) \<times> 'd output_buffer" where
  "push dec buf ch skipped =
     (let (pending, t, buf1) = decode_chunk dec buf ch skipped in
      case skipped of
        None \<Rightarrow> (let (accepted, buf2) = accept buf1 (pending @ t) in (Inr accepted, buf2))
      | Some sk \<Rightarrow>
          if retain_of (buffer_limits buf1) \<noteq> Tail then (Inl Skip_Requires_Tail, buf1)
          else (Inr True, snd (accept (skip_output (snd (accept buf1 pending)) sk) t)))"

definition end_output :: "'d text_decoder \<Rightarrow> 'd output_buffer \<Rightarrow> 'd output_buffer" where
  "end_output dec buf =
     (let (t, d) = decode_flush dec (buffer_decoder buf) in snd (accept (buf\<lparr>buffer_decoder := d\<rparr>) t))"

text \<open>The shortest suffix with more than the window's bytes or newlines.\<close>

function margin_line_start :: "utf8 \<Rightarrow> nat \<Rightarrow> nat \<Rightarrow> nat \<Rightarrow> nat" where
  "margin_line_start bytes limit n seen =
     (case newline_before bytes n of
        None \<Rightarrow> 0
      | Some i \<Rightarrow> if Suc seen > limit then i else margin_line_start bytes limit i (Suc seen))"
  by pat_completeness auto
termination
  by (relation "measure (\<lambda>(bytes, limit, n, seen). n)") (auto dest!: newline_before_Some)

declare margin_line_start.simps [simp del]

definition tail_margin :: "utf8 \<Rightarrow> output_limits \<Rightarrow> utf8" where
  "tail_margin bytes limits =
     (let byte_start = (if length bytes > max_bytes limits
                        then character_end bytes (length bytes - max_bytes limits - 1) else 0);
          line_start = margin_line_start bytes (max_lines limits) (length bytes) 0
      in drop (max byte_start line_start) bytes)"

definition lines_of :: "nat \<Rightarrow> bool \<Rightarrow> nat" where
  "lines_of newlines terminated = newlines + (if terminated then 0 else 1)"

text \<open>Control characters except tab and newline go, and U+FFF9 to U+FFFB (three bytes in UTF-8).\<close>

fun sanitize_output :: "utf8 \<Rightarrow> utf8" where
  "sanitize_output (a # b # c # bs) =
     (if a = 0xef \<and> b = 0xbf \<and> c \<in> {0xb9, 0xba, 0xbb} then sanitize_output bs
      else if a < 0x20 \<and> a \<noteq> 0x09 \<and> a \<noteq> NEWLINE then sanitize_output (b # c # bs)
      else a # sanitize_output (b # c # bs))"
| "sanitize_output bs = filter (\<lambda>a. \<not> (a < 0x20 \<and> a \<noteq> 0x09 \<and> a \<noteq> NEWLINE)) bs"

definition stored_text :: "'d output_buffer \<Rightarrow> utf8" where
  "stored_text buf = concat (map chunk_text (chunks buf))"

definition snapshot :: "'d output_buffer \<Rightarrow> bounded_output \<times> 'd output_buffer" where
  "snapshot buf =
     (let limits = buffer_limits buf;
          stored = stored_text buf;
          kept = bound_output stored limits;
          stored_lines = lines_of (stored_newlines buf) (stored = [] \<or> ends_with_newline stored);
          kept_lines = int stored_lines - slice_dropped_lines kept;
          buf1 = (if retain_of limits = Tail \<or> length (chunks buf) > 1
            then (let t = (if retain_of limits = Tail then tail_margin stored limits else stored);
                      bytes = (if retain_of limits = Tail then length t else stored_bytes buf);
                      cs = (if t = [] then [] else [\<lparr>chunk_text = t, chunk_bytes = bytes, chunk_newlines = count_newlines t\<rparr>])
                  in buf\<lparr>chunks := cs, stored_bytes := bytes,
                         stored_newlines := (case cs of [] \<Rightarrow> 0 | c # _ \<Rightarrow> chunk_newlines c)\<rparr>)
            else buf)
      in (\<lparr>bounded_text = sanitize_output (slice_text kept),
           bounded_dropped_bytes = int (total_bytes buf) - int (slice_bytes kept),
           bounded_dropped_lines = int (lines_of (total_newlines buf) (total_terminated buf)) - kept_lines\<rparr>, buf1))"

section \<open>What a buffer keeps of its stream\<close>

definition chunk_ok :: "chunk \<Rightarrow> bool" where
  "chunk_ok c \<longleftrightarrow> chunk_bytes c = length (chunk_text c) \<and> chunk_newlines c = count_newlines (chunk_text c)"

definition counts_ok :: "utf8 \<Rightarrow> 'd output_buffer \<Rightarrow> bool" where
  "counts_ok whole buf \<longleftrightarrow> total_bytes buf = length whole \<and> total_newlines buf = count_newlines whole \<and>
     total_terminated buf = (whole = [] \<or> ends_with_newline whole)"

definition stored_ok :: "'d output_buffer \<Rightarrow> bool" where
  "stored_ok buf \<longleftrightarrow> list_all chunk_ok (chunks buf) \<and> stored_bytes buf = length (stored_text buf) \<and>
     stored_newlines buf = count_newlines (stored_text buf)"

text \<open>Head: the start of the stream, all of it until the window is full. Tail: a suffix that decides the window.\<close>

definition retains :: "utf8 \<Rightarrow> 'd output_buffer \<Rightarrow> bool" where
  "retains whole buf \<longleftrightarrow>
     (case retain_of (buffer_limits buf) of
        Head \<Rightarrow> (\<exists>ys. whole = stored_text buf @ ys \<and> (ys = [] \<or> full buf)) \<and>
          (full buf \<longrightarrow> fills_head (buffer_limits buf) (stored_text buf))
      | Tail \<Rightarrow> \<not> full buf \<and> (\<exists>xs. whole = xs @ stored_text buf \<and> (xs = [] \<or> covers_tail (buffer_limits buf) (stored_text buf))))"

definition buffer_ok :: "utf8 \<Rightarrow> 'd output_buffer \<Rightarrow> bool" where
  "buffer_ok whole buf \<longleftrightarrow> counts_ok whole buf \<and> stored_ok buf \<and> retains whole buf"

lemmas buffer_ok_defs = buffer_ok_def counts_ok_def stored_ok_def retains_def

lemma covers_tail_append: "covers_tail limits s \<Longrightarrow> covers_tail limits (s @ t)"
  by (auto simp: covers_tail_def)

lemma ends_with_newline_append [simp]: "t \<noteq> [] \<Longrightarrow> ends_with_newline (s @ t) = ends_with_newline t"
  by (simp add: ends_with_newline_def)

text \<open>What is dropped from the front leaves a suffix that covers the tail.\<close>

lemma drop_leading_keeps:
  assumes "drop_leading limits cs bytes newlines = (cs', bytes', newlines')" "list_all chunk_ok cs"
    "bytes = length (concat (map chunk_text cs))" "newlines = count_newlines (concat (map chunk_text cs))"
  shows "list_all chunk_ok cs' \<and> bytes' = length (concat (map chunk_text cs')) \<and>
    newlines' = count_newlines (concat (map chunk_text cs')) \<and>
    (\<exists>xs. concat (map chunk_text cs) = xs @ concat (map chunk_text cs') \<and>
      (xs = [] \<or> covers_tail limits (concat (map chunk_text cs'))))"
  using assms
proof (induction limits cs bytes newlines rule: drop_leading.induct)
  case (1 limits c c' cs bytes newlines)
  define rest where "rest = concat (map chunk_text (c' # cs))"
  have after: "bytes - chunk_bytes c = length rest" "newlines - chunk_newlines c = count_newlines rest"
    using "1.prems"(2-4) by (simp_all add: chunk_ok_def rest_def)
  show ?case
  proof (cases "length rest \<le> max_bytes limits + 1 \<and> count_newlines rest \<le> max_lines limits + 1")
    case True
    with "1.prems"(1) have "cs' = c # c' # cs" "bytes' = bytes" "newlines' = newlines"
      by (simp_all only: drop_leading.simps Let_def after if_True simp_thms prod.inject)
    with "1.prems"(2-4) show ?thesis by simp
  next
    case False
    with "1.prems"(1) have step: "drop_leading limits (c' # cs) (length rest) (count_newlines rest) = (cs', bytes', newlines')"
      by (simp only: drop_leading.simps Let_def after if_False)
    have ih: "list_all chunk_ok cs' \<and> bytes' = length (concat (map chunk_text cs')) \<and>
      newlines' = count_newlines (concat (map chunk_text cs')) \<and>
      (\<exists>xs. rest = xs @ concat (map chunk_text cs') \<and> (xs = [] \<or> covers_tail limits (concat (map chunk_text cs'))))"
      using "1.IH"[OF refl refl] False step "1.prems"(2) by (simp add: after rest_def)
    moreover have "covers_tail limits rest" using False by (auto simp: covers_tail_def)
    moreover have "concat (map chunk_text (c # c' # cs)) = chunk_text c @ rest" by (simp add: rest_def)
    ultimately show ?thesis by (metis append.assoc append_Nil)
  qed
qed auto

lemma accept_simps [simp]:
  "buffer_limits (snd (accept buf t)) = buffer_limits buf"
  by (simp add: accept_def Let_def split: retain.split prod.split)

text \<open>Accepting after a gap: what is stored must decide the window on its own.\<close>

lemma accept_retains:
  assumes "counts_ok whole buf" "stored_ok buf"
    and "retain_of (buffer_limits buf) = Tail \<Longrightarrow> \<not> full buf \<and>
      (\<exists>xs. whole = xs @ stored_text buf \<and> (xs = [] \<or> covers_tail (buffer_limits buf) (stored_text buf @ t)))"
    and "retain_of (buffer_limits buf) = Head \<Longrightarrow> retains whole buf"
    and "t \<noteq> []"
  shows "buffer_ok (whole @ t) (snd (accept buf t))"
proof (cases "full buf")
  case True
  with assms show ?thesis
    by (cases "retain_of (buffer_limits buf)")
      (auto simp: accept_def buffer_ok_defs Let_def stored_text_def)
next
  case False
  define c where "c = \<lparr>chunk_text = t, chunk_bytes = length t, chunk_newlines = count_newlines t\<rparr>"
  have c: "chunk_ok c" "chunk_text c = t" by (simp_all add: c_def chunk_ok_def)
  show ?thesis
  proof (cases "retain_of (buffer_limits buf)")
    case Head
    with False assms c show ?thesis
      by (auto simp: accept_def buffer_ok_defs Let_def stored_text_def fills_head_def simp flip: c_def)
  next
    case Tail
    obtain cs bytes newlines where drop: "drop_leading (buffer_limits buf) (chunks buf @ [c])
        (stored_bytes buf + length t) (stored_newlines buf + count_newlines t) = (cs, bytes, newlines)"
      by (cases "drop_leading (buffer_limits buf) (chunks buf @ [c])
        (stored_bytes buf + length t) (stored_newlines buf + count_newlines t)") auto
    have joined: "concat (map chunk_text (chunks buf @ [c])) = stored_text buf @ t"
      by (simp add: stored_text_def c)
    have "list_all chunk_ok (chunks buf @ [c])"
      "stored_bytes buf + length t = length (concat (map chunk_text (chunks buf @ [c])))"
      "stored_newlines buf + count_newlines t = count_newlines (concat (map chunk_text (chunks buf @ [c])))"
      using assms(2) c(1) by (simp_all only: joined) (simp_all add: stored_ok_def)
    from drop_leading_keeps[OF drop this] obtain ys where ys: "list_all chunk_ok cs"
        "bytes = length (concat (map chunk_text cs))" "newlines = count_newlines (concat (map chunk_text cs))"
        "stored_text buf @ t = ys @ concat (map chunk_text cs)"
        "ys = [] \<or> covers_tail (buffer_limits buf) (concat (map chunk_text cs))"
      unfolding joined by blast
    from assms(3)[OF Tail] obtain xs where xs: "whole = xs @ stored_text buf"
        "xs = [] \<or> covers_tail (buffer_limits buf) (stored_text buf @ t)" by auto
    have whole: "whole @ t = (xs @ ys) @ concat (map chunk_text cs)" using xs(1) ys(4) by simp
    moreover have "xs @ ys = [] \<or> covers_tail (buffer_limits buf) (concat (map chunk_text cs))"
      using xs(2) ys(4,5) by (cases ys) auto
    ultimately have keeps: "\<exists>zs. whole @ t = zs @ concat (map chunk_text cs) \<and>
        (zs = [] \<or> covers_tail (buffer_limits buf) (concat (map chunk_text cs)))" by blast
    have "snd (accept buf t) = buf\<lparr>total_bytes := total_bytes buf + length t,
        total_newlines := total_newlines buf + count_newlines t, total_terminated := ends_with_newline t,
        chunks := cs, stored_bytes := bytes, stored_newlines := newlines\<rparr>"
      using False Tail assms(5) drop by (simp add: accept_def Let_def flip: c_def)
    with keeps ys(1-3) assms(1,3,5) Tail show ?thesis by (simp add: buffer_ok_defs stored_text_def)
  qed
qed

lemma accept_ok: "buffer_ok whole buf \<Longrightarrow> buffer_ok (whole @ t) (snd (accept buf t))"
proof (cases "t = []")
  case False
  assume "buffer_ok whole buf"
  with False show ?thesis
    by (intro accept_retains) (auto simp: buffer_ok_def retains_def covers_tail_append)
qed (simp add: accept_def)

text \<open>The margin kept after a snapshot decides every later window.\<close>

lemma margin_line_start_count:
  "n \<le> length bytes \<Longrightarrow> 0 < margin_line_start bytes limit n seen \<Longrightarrow>
     limit < seen + count_newlines (drop (margin_line_start bytes limit n seen) (take n bytes))
     \<and> margin_line_start bytes limit n seen < n"
proof (induction bytes limit n seen rule: margin_line_start.induct)
  case (1 bytes limit n seen)
  from "1.prems"(2) obtain i where i: "newline_before bytes n = Some i"
    by (subst (asm) margin_line_start.simps) (auto split: option.splits)
  note at = newline_before_Some[OF i]
  then have cut: "take n bytes = take i bytes @ NEWLINE # drop (Suc i) (take n bytes)"
    using id_take_nth_drop[of i "take n bytes"] by (simp add: min_def)
  show ?case
  proof (cases "limit < Suc seen")
    case True
    with i have m: "margin_line_start bytes limit n seen = i" by (subst margin_line_start.simps) simp
    from at have "drop i (take n bytes) = NEWLINE # drop (Suc i) (take n bytes)"
      by (subst cut) simp
    with True at show ?thesis unfolding m by simp
  next
    case False
    with i have m: "margin_line_start bytes limit n seen = margin_line_start bytes limit i (Suc seen)"
      by (subst margin_line_start.simps) simp
    define k where "k = margin_line_start bytes limit i (Suc seen)"
    from "1.IH"[OF i False] "1.prems"(2) at have ih: "limit < Suc seen + count_newlines (drop k (take i bytes))" "k < i"
      by (simp_all add: m k_def)
    from ih(2) at have "drop k (take n bytes) = drop k (take i bytes) @ NEWLINE # drop (Suc i) (take n bytes)"
      by (subst cut) simp
    with ih at show ?thesis unfolding m k_def[symmetric] by simp
  qed
qed

lemma tail_margin_covers:
  obtains xs where "bytes = xs @ tail_margin bytes limits" "xs = [] \<or> covers_tail limits (tail_margin bytes limits)"
proof
  define b where "b = (if length bytes > max_bytes limits then character_end bytes (length bytes - max_bytes limits - 1) else 0)"
  define l where "l = margin_line_start bytes (max_lines limits) (length bytes) 0"
  have margin: "tail_margin bytes limits = drop (max b l) bytes"
    by (simp add: tail_margin_def b_def l_def)
  show "bytes = take (max b l) bytes @ tail_margin bytes limits" by (simp add: margin)
  have le: "character_end bs n \<le> n" for bs n by (induction n) auto
  have "covers_tail limits (drop b bytes)" if "0 < b"
    using that le[of bytes "length bytes - max_bytes limits - 1"] by (auto simp: b_def covers_tail_def split: if_splits)
  moreover have "covers_tail limits (drop l bytes)" if "0 < l"
    using that margin_line_start_count[of "length bytes" bytes "max_lines limits" 0] by (simp add: l_def covers_tail_def)
  ultimately show "take (max b l) bytes = [] \<or> covers_tail limits (tail_margin bytes limits)"
    unfolding margin by (cases "max b l = 0") (auto simp: max_def split: if_splits)
qed

lemma snapshot_ok: "buffer_ok whole buf \<Longrightarrow> buffer_ok whole (snd (snapshot buf))"
proof (cases "retain_of (buffer_limits buf)")
  case Head
  assume ok: "buffer_ok whole buf"
  have same: "stored_text (snd (snapshot buf)) = stored_text buf"
    "stored_newlines (snd (snapshot buf)) = stored_newlines buf" "stored_bytes (snd (snapshot buf)) = stored_bytes buf"
    using Head ok by (simp_all add: snapshot_def Let_def stored_text_def stored_ok_def buffer_ok_def
        count_newlines_def del: concat_eq_Nil_conv)
  moreover have "list_all chunk_ok (chunks (snd (snapshot buf)))"
    using Head ok by (auto simp: snapshot_def Let_def stored_ok_def buffer_ok_def chunk_ok_def)
  moreover have "full (snd (snapshot buf)) = full buf" "buffer_limits (snd (snapshot buf)) = buffer_limits buf"
    "total_bytes (snd (snapshot buf)) = total_bytes buf" "total_newlines (snd (snapshot buf)) = total_newlines buf"
    "total_terminated (snd (snapshot buf)) = total_terminated buf"
    by (simp_all add: snapshot_def Let_def)
  ultimately show ?thesis using ok Head by (simp add: buffer_ok_defs)
next
  case Tail
  assume ok: "buffer_ok whole buf"
  define m where "m = tail_margin (stored_text buf) (buffer_limits buf)"
  define cs where "cs = (if m = [] then [] else [\<lparr>chunk_text = m, chunk_bytes = length m, chunk_newlines = count_newlines m\<rparr>])"
  have snap: "snd (snapshot buf) = buf\<lparr>chunks := cs, stored_bytes := length m,
      stored_newlines := (case cs of [] \<Rightarrow> 0 | c # _ \<Rightarrow> chunk_newlines c)\<rparr>"
    using Tail by (simp add: snapshot_def Let_def m_def cs_def)
  have stored: "stored_text (snd (snapshot buf)) = m" "stored_ok (snd (snapshot buf))"
    by (auto simp: snap stored_text_def stored_ok_def cs_def chunk_ok_def)
  obtain ys where ys: "stored_text buf = ys @ m" "ys = [] \<or> covers_tail (buffer_limits buf) m"
    unfolding m_def by (rule tail_margin_covers)
  from ok Tail obtain xs where xs: "whole = xs @ stored_text buf" "xs = [] \<or> covers_tail (buffer_limits buf) (stored_text buf)"
    by (auto simp: buffer_ok_defs)
  from xs ys have "whole = (xs @ ys) @ m" "xs @ ys = [] \<or> covers_tail (buffer_limits buf) m" by auto
  with ok Tail stored show ?thesis by (auto simp: buffer_ok_defs snap)
qed

section \<open>A snapshot is the bound of the stream\<close>

text \<open>\<open>fed dec limits whole buf\<close>: \<open>buf\<close> has been fed, and snapshotted, and the text it accepted or skipped is \<open>whole\<close>.\<close>

definition describes :: "output_skip \<Rightarrow> utf8 \<Rightarrow> bool" where
  "describes sk w \<longleftrightarrow> skip_bytes sk = length w \<and> skip_newlines sk = count_newlines w \<and>
     (w \<noteq> [] \<longrightarrow> skip_terminated sk = ends_with_newline w)"

inductive fed :: "'d text_decoder \<Rightarrow> output_limits \<Rightarrow> utf8 \<Rightarrow> 'd output_buffer \<Rightarrow> bool" for dec limits where
  fed_new: "fed dec limits [] (new_buffer dec limits)"
| fed_push: "fed dec limits whole buf \<Longrightarrow> decode_chunk dec buf ch None = (p, t, b) \<Longrightarrow>
    fed dec limits (whole @ p @ t) (snd (push dec buf ch None))"
| fed_skip: "fed dec limits whole buf \<Longrightarrow> retain_of limits = Tail \<Longrightarrow> decode_chunk dec buf ch (Some sk) = (p, t, b) \<Longrightarrow>
    describes sk w \<Longrightarrow> covers_tail limits t \<Longrightarrow> fed dec limits (whole @ p @ w @ t) (snd (push dec buf ch (Some sk)))"
| fed_refused: "fed dec limits whole buf \<Longrightarrow> retain_of limits = Head \<Longrightarrow> fed dec limits whole (snd (push dec buf ch (Some sk)))"
| fed_end: "fed dec limits whole buf \<Longrightarrow> decode_flush dec (buffer_decoder buf) = (t, d) \<Longrightarrow>
    fed dec limits (whole @ t) (end_output dec buf)"
| fed_snapshot: "fed dec limits whole buf \<Longrightarrow> fed dec limits whole (snd (snapshot buf))"

lemma buffer_ok_decoder: "buffer_ok whole (buf\<lparr>buffer_decoder := d, started := st\<rparr>) = buffer_ok whole buf"
  "buffer_ok whole (buf\<lparr>buffer_decoder := d\<rparr>) = buffer_ok whole buf"
  by (cases "retain_of (buffer_limits buf)"; simp add: buffer_ok_defs stored_text_def)+

lemma decode_chunk_ok:
  "decode_chunk dec buf ch sk = (p, t, b) \<Longrightarrow> buffer_ok whole b = buffer_ok whole buf \<and> buffer_limits b = buffer_limits buf"
  by (auto simp: decode_chunk_def Let_def buffer_ok_decoder split: prod.splits)

lemma skip_ok:
  assumes "buffer_ok whole buf" "retain_of (buffer_limits buf) = Tail" "describes sk w" "covers_tail (buffer_limits buf) t"
  shows "buffer_ok (whole @ w @ t) (snd (accept (skip_output buf sk) t))"
proof (cases "w = []")
  case True
  with assms(3) have "skip_output buf sk = buf" by (simp add: skip_output_def describes_def)
  with True accept_ok[OF assms(1)] show ?thesis by simp
next
  case False
  with assms(3) have "skip_bytes sk \<noteq> 0" by (simp add: describes_def)
  then have counts: "counts_ok (whole @ w) (skip_output buf sk)" and other: "stored_text (skip_output buf sk) = []"
    "stored_ok (skip_output buf sk)" "buffer_limits (skip_output buf sk) = buffer_limits buf" "full (skip_output buf sk) = full buf"
    using assms(1,3) False by (simp_all add: skip_output_def buffer_ok_def counts_ok_def stored_ok_def stored_text_def describes_def)
  have "t \<noteq> []" using assms(4) by (auto simp: covers_tail_def)
  moreover have "\<not> full buf" using assms(1,2) by (simp add: buffer_ok_defs)
  ultimately have "buffer_ok ((whole @ w) @ t) (snd (accept (skip_output buf sk) t))"
    using counts other assms(2,4) by (intro accept_retains) simp_all
  then show ?thesis by simp
qed

lemma fed_ok: "fed dec limits whole buf \<Longrightarrow> buffer_ok whole buf \<and> buffer_limits buf = limits"
proof (induction rule: fed.induct)
  case fed_new
  then show ?case by (auto simp: new_buffer_def buffer_ok_defs stored_text_def split: retain.split)
next
  case (fed_push whole buf ch p t b)
  with decode_chunk_ok[OF fed_push(2)] accept_ok[of whole b "p @ t"] show ?case
    by (simp add: push_def split: prod.splits) (metis accept_simps snd_conv)
next
  case (fed_skip whole buf ch sk p t b w)
  with decode_chunk_ok[OF fed_skip(3), of whole] have b: "buffer_ok whole b" "buffer_limits b = limits" by auto
  from skip_ok[OF accept_ok[OF b(1), of p] _ fed_skip(4)] fed_skip b(2)
  show ?case by (simp add: push_def skip_output_def)
next
  case (fed_refused whole buf ch sk)
  obtain p t b where d: "decode_chunk dec buf ch (Some sk) = (p, t, b)" by (cases "decode_chunk dec buf ch (Some sk)")
  with fed_refused decode_chunk_ok[OF d] show ?case by (simp add: push_def)
next
  case (fed_end whole buf t d)
  then show ?case by (simp add: end_output_def accept_ok buffer_ok_decoder)
next
  case (fed_snapshot whole buf)
  moreover have "buffer_limits (snd (snapshot buf)) = buffer_limits buf" by (simp add: snapshot_def Let_def)
  ultimately show ?case by (simp add: snapshot_ok)
qed

text \<open>What is stored has the window of the whole stream.\<close>

definition window_of :: "utf8 \<Rightarrow> output_limits \<Rightarrow> utf8" where
  "window_of bytes limits =
     (let (lo, hi) = (case retain_of limits of Head \<Rightarrow> head_range bytes limits | Tail \<Rightarrow> tail_range bytes limits)
      in Prelude.slice bytes lo hi)"

lemma slice_same_length: "length (Prelude.slice xs i j) = length xs \<Longrightarrow> Prelude.slice xs i j = xs"
  by (cases "i = 0"; cases xs) (auto simp: Prelude.slice_def min_def split: if_splits)

lemma bound_output_window:
  "bound_output bytes limits = \<lparr>slice_text = window_of bytes limits, slice_bytes = length (window_of bytes limits),
     slice_dropped_bytes = int (length bytes) - int (length (window_of bytes limits)),
     slice_dropped_lines = int (line_count bytes) - int (line_count (window_of bytes limits))\<rparr>"
  using slice_same_length[of bytes] unfolding bound_output_def window_of_def Let_def
  by (cases "retain_of limits") (simp_all split: prod.split)

lemma head_range_within:
  obtains to where "head_range bytes limits = (0, to)" "to \<le> length bytes"
proof
  have le: "character_end bs n \<le> n" for bs n by (induction n) auto
  show "head_range bytes limits = (0, snd (head_range bytes limits))" by (simp add: head_range_def Let_def)
  show "snd (head_range bytes limits) \<le> length bytes"
    using head_line_end_length[of bytes "max_lines limits" 0 0] le[of bytes "max_bytes limits"]
    by (auto simp: head_range_def Let_def dest: newline_before_Some split: option.split)
qed

lemma window_stored:
  assumes "retains whole buf" "buffer_limits buf = limits"
  shows "window_of (stored_text buf) limits = window_of whole limits"
proof (cases "retain_of limits")
  case Head
  with assms obtain ys where ys: "whole = stored_text buf @ ys" "ys = [] \<or> fills_head limits (stored_text buf)"
    by (auto simp: retains_def)
  obtain to where to: "head_range (stored_text buf) limits = (0, to)" "to \<le> length (stored_text buf)"
    by (rule head_range_within)
  show ?thesis
  proof (cases "ys = []")
    case False
    with ys head_range_prefix[of limits "stored_text buf" ys] have "head_range whole limits = (0, to)" by (simp add: to)
    with Head to ys show ?thesis by (simp add: window_of_def)
  qed (simp add: ys)
next
  case Tail
  with assms obtain xs where xs: "whole = xs @ stored_text buf" "xs = [] \<or> covers_tail limits (stored_text buf)"
    by (auto simp: retains_def)
  show ?thesis
  proof (cases "xs = [] \<or> max_lines limits = 0 \<or> max_bytes limits = 0")
    case False
    with xs have "tail_start (xs @ stored_text buf) limits = length xs + tail_start (stored_text buf) limits"
      by (intro tail_start_shift) auto
    with Tail xs False show ?thesis by (simp add: window_of_def tail_range_def)
  qed (use Tail xs in \<open>auto simp: window_of_def tail_range_def\<close>)
qed

lemma line_count_lines: "line_count bytes = lines_of (count_newlines bytes) (bytes = [] \<or> ends_with_newline bytes)"
  by (auto simp: line_count_def lines_of_def ends_with_newline_def)

definition bounded_stream :: "output_limits \<Rightarrow> utf8 \<Rightarrow> bounded_output" where
  "bounded_stream limits whole =
     (let kept = bound_output whole limits in
      \<lparr>bounded_text = sanitize_output (slice_text kept),
       bounded_dropped_bytes = slice_dropped_bytes kept, bounded_dropped_lines = slice_dropped_lines kept\<rparr>)"

definition plain_decoder :: "unit text_decoder" where
  "plain_decoder = \<lparr>decoder_new = (), decode_stream = (\<lambda>d bs. (bs, d)), decode_flush = (\<lambda>d. ([], d))\<rparr>"

definition sample_limits :: output_limits where
  "sample_limits = \<lparr>max_bytes = 4, max_lines = 2, retain_of = Tail\<rparr>"

definition sample_buffer :: "unit output_buffer" where
  "sample_buffer =
     (let b1 = snd (push plain_decoder (new_buffer plain_decoder sample_limits) (Text_Chunk [0x61, 0x0a, 0x62, 0x62, 0x0a]) None);
          b2 = snd (snapshot b1)
      in snd (push plain_decoder b2 (Byte_Chunk [0x63, 0x07, 0x0a, 0x64]) None))"

definition sample_stream :: utf8 where
  "sample_stream = [0x61, 0x0a, 0x62, 0x62, 0x0a, 0x63, 0x07, 0x0a, 0x64]"

lemma sample_fed: "fed plain_decoder sample_limits sample_stream sample_buffer"
proof -
  have parts: "sample_stream = ([] @ [] @ [0x61, 0x0a, 0x62, 0x62, 0x0a]) @ [] @ [0x63, 0x07, 0x0a, 0x64]"
    by (simp add: sample_stream_def)
  show ?thesis unfolding parts sample_buffer_def Let_def
    by (intro fed_push fed_snapshot fed_new) (simp_all add: decode_chunk_def plain_decoder_def new_buffer_def snapshot_def
        push_def accept_def Let_def sample_limits_def)
qed

text \<open>
  C21: After any pushes of text and byte chunks, skips, ends and snapshots in any order, a snapshot
  is the bound of the whole stream so far: the same window, sanitized, and the exact counts of
  dropped bytes and lines, though the buffer has thrown away what it judged it would not need.
\<close>

theorem snapshot_bounds_stream:
  assumes "fed dec limits whole buf"
  shows "fst (snapshot buf) = bounded_stream limits whole"
proof -
  from fed_ok[OF assms] have ok: "counts_ok whole buf" "stored_ok buf" and r: "retains whole buf"
    and limits: "buffer_limits buf = limits" by (auto simp: buffer_ok_def)
  note w = window_stored[OF r limits]
  have stored: "lines_of (stored_newlines buf) (stored_text buf = [] \<or> ends_with_newline (stored_text buf)) = line_count (stored_text buf)"
    using ok(2) by (simp add: line_count_lines stored_ok_def)
  have total: "lines_of (total_newlines buf) (total_terminated buf) = line_count whole"
    using ok(1) line_count_lines[of whole] by (simp add: counts_ok_def)
  show ?thesis
    using ok(1)[unfolded counts_ok_def, THEN conjunct1]
    by (simp add: snapshot_def Let_def limits bounded_stream_def bound_output_window w stored total)
qed

theorem snapshot_bounds_stream_witness:
  "fed plain_decoder sample_limits sample_stream sample_buffer \<and>
   fst (snapshot sample_buffer) = bounded_stream sample_limits sample_stream \<and>
   bounded_stream sample_limits sample_stream =
     \<lparr>bounded_text = [0x63, 0x0a, 0x64], bounded_dropped_bytes = 5, bounded_dropped_lines = 2\<rparr>"
proof (intro conjI)
  show "fst (snapshot sample_buffer) = bounded_stream sample_limits sample_stream"
    by (rule snapshot_bounds_stream[OF sample_fed])
  show "bounded_stream sample_limits sample_stream =
     \<lparr>bounded_text = [0x63, 0x0a, 0x64], bounded_dropped_bytes = 5, bounded_dropped_lines = 2\<rparr>"
    by code_simp
qed (rule sample_fed)

end
