(* ===== verification/Output_Window.thy ===== *)
theory Output_Window
  imports Output_Buffer
begin

text \<open>
  What the windows of \<open>Output_Bound\<close> are: within both limits, a prefix or a suffix of the text,
  and cut on the boundaries of characters.
\<close>

section \<open>Lines of a window\<close>

lemma newline_before_gap:
  "n \<le> length bytes \<Longrightarrow>
     (case newline_before bytes n of
        None \<Rightarrow> count_newlines (take n bytes) = 0
      | Some i \<Rightarrow> count_newlines (drop (Suc i) (take n bytes)) = 0)"
proof (induction n)
  case (Suc n)
  have snoc: "take (Suc n) bytes = take n bytes @ [bytes ! n]"
    using Suc.prems by (simp add: take_Suc_conv_app_nth)
  show ?case
  proof (cases "newline_before bytes n")
    case None
    with Suc show ?thesis by (simp add: newline_before_snoc snoc)
  next
    case (Some i)
    then have "i < n" by (auto dest: newline_before_Some)
    with Suc Some show ?thesis by (simp add: newline_before_snoc snoc)
  qed
qed simp

lemma newline_before_count:
  assumes "newline_before bytes n = Some i" "n \<le> length bytes" "a \<le> i"
  shows "count_newlines (drop a (take n bytes)) = Suc (count_newlines (drop a (take i bytes)))"
proof -
  note at = newline_before_Some[OF assms(1)]
  have "take n bytes = take i bytes @ NEWLINE # drop (Suc i) (take n bytes)"
    using at assms(2) id_take_nth_drop[of i "take n bytes"] by (simp add: min_def)
  then have "drop a (take n bytes) = drop a (take i bytes) @ NEWLINE # drop (Suc i) (take n bytes)"
    using at assms(2,3) by (metis drop_append drop_0 diff_is_0_eq length_take min.absorb2 order_less_imp_le)
  moreover have "count_newlines (drop (Suc i) (take n bytes)) = 0"
    using newline_before_gap[OF assms(2)] assms(1) by simp
  ultimately show ?thesis by simp
qed

lemma tail_line_start_lines:
  "n \<le> length bytes \<Longrightarrow> seen \<le> limit \<Longrightarrow>
     (case tail_line_start bytes limit n seen of
        None \<Rightarrow> seen + count_newlines (take n bytes) \<le> limit
      | Some a \<Rightarrow> seen + count_newlines (drop a (take n bytes)) = limit \<and> a \<le> n)"
proof (induction bytes limit n seen rule: tail_line_start.induct)
  case (1 bytes limit n seen)
  show ?case
  proof (cases "newline_before bytes n")
    case None
    with newline_before_gap[OF "1.prems"(1)] "1.prems" show ?thesis by (subst tail_line_start.simps) simp
  next
    case (Some i)
    note at = newline_before_Some[OF Some]
    show ?thesis
    proof (cases "seen = limit")
      case True
      with newline_before_gap[OF "1.prems"(1)] Some at show ?thesis by (subst tail_line_start.simps) simp
    next
      case False
      with "1.IH"[OF Some False] "1.prems" at
      have ih: "case tail_line_start bytes limit i (Suc seen) of
            None \<Rightarrow> Suc seen + count_newlines (take i bytes) \<le> limit
          | Some a \<Rightarrow> Suc seen + count_newlines (drop a (take i bytes)) = limit \<and> a \<le> i" by simp
      have step: "tail_line_start bytes limit n seen = tail_line_start bytes limit i (Suc seen)"
        using Some False by (subst tail_line_start.simps) simp
      show ?thesis
        using ih newline_before_count[OF Some "1.prems"(1)] newline_before_count[OF Some "1.prems"(1), of 0] at
        unfolding step by (cases "tail_line_start bytes limit i (Suc seen)") auto
    qed
  qed
qed

lemma line_count_le: "line_count bytes \<le> Suc (count_newlines bytes)"
  by (simp add: line_count_def)

lemma line_count_prefix: "line_count xs \<le> line_count (xs @ ys)"
proof (cases ys rule: rev_cases)
  case (snoc zs z)
  then show ?thesis by (auto simp: line_count_def)
qed simp

lemma line_count_suffix: "line_count ys \<le> line_count (xs @ ys)"
  by (cases "ys = []") (auto simp: line_count_def)

lemma head_line_end_lines:
  "k \<le> length bytes \<Longrightarrow> seen < limit \<Longrightarrow>
     seen + line_count (drop k (take (head_line_end bytes limit k seen) bytes)) \<le> limit"
proof (induction bytes limit k seen rule: head_line_end.induct)
  case (1 bytes limit k seen)
  show ?case
  proof (cases "newline_from bytes k")
    case None
    then have "head_line_end bytes limit k seen = length bytes" by (subst head_line_end.simps) simp
    with newline_from_None[OF None] line_count_le[of "drop k bytes"] "1.prems" show ?thesis by simp
  next
    case (Some i)
    note at = newline_from_Some[OF Some]
    define stop where "stop = head_line_end bytes limit k seen"
    have stop: "stop = (if Suc seen = limit then Suc i else head_line_end bytes limit (Suc i) (Suc seen))"
      unfolding stop_def using Some by (subst head_line_end.simps) simp
    have le: "Suc i \<le> stop" using at head_line_end_upper[of "Suc i" bytes limit "Suc seen"] by (simp add: stop)
    define line where "line = drop k (take (Suc i) bytes)"
    have line: "count_newlines line = 1" "line \<noteq> []" "last line = NEWLINE"
    proof -
      have "drop k bytes = line @ drop (Suc i) bytes"
        unfolding line_def using at by (metis append_take_drop_id drop_append drop_drop diff_is_0_eq drop_0 length_take min.absorb2 le_Suc_eq Suc_leI)
      with newline_from_count[OF Some] show "count_newlines line = 1" by simp
      show "line \<noteq> []" "last line = NEWLINE"
        using at by (simp_all add: line_def take_Suc_conv_app_nth)
    qed
    have "drop k (take stop bytes) = line @ drop (Suc i) (take stop bytes)"
    proof -
      have "take stop bytes = take (Suc i) bytes @ drop (Suc i) (take stop bytes)"
        using le by (metis append_take_drop_id min.absorb1 take_take)
      then show ?thesis unfolding line_def using at le
        by (metis diff_is_0_eq drop_0 drop_append length_take min.absorb2 Suc_leI le_SucI)
    qed
    then have count: "line_count (drop k (take stop bytes)) = Suc (line_count (drop (Suc i) (take stop bytes)))"
      using line by (auto simp: line_count_def)
    show ?thesis
    proof (cases "Suc seen = limit")
      case True
      then show ?thesis using count by (simp add: stop line_count_def flip: stop_def)
    next
      case False
      with "1.IH"[OF Some False] "1.prems" at count show ?thesis by (simp add: stop flip: stop_def)
    qed
  qed
qed

section \<open>Windows\<close>

lemma character_end_le: "character_end bytes n \<le> n"
  by (induction n) auto

lemma character_start_bounds: "n \<le> length bytes \<Longrightarrow> n \<le> character_start bytes n \<and> character_start bytes n \<le> length bytes"
  by (induction bytes n rule: character_start.induct) (subst (1 2) character_start.simps, auto)

text \<open>Where a character of UTF-8 starts, or the text ends.\<close>

definition boundary :: "utf8 \<Rightarrow> nat \<Rightarrow> bool" where
  "boundary bytes n \<longleftrightarrow> n = 0 \<or> (n \<le> length bytes \<and> (n < length bytes \<longrightarrow> \<not> continuation (bytes ! n)))"

lemma character_end_boundary: "n \<le> length bytes \<Longrightarrow> boundary bytes (character_end bytes n)"
  by (induction n) (auto simp: boundary_def)

lemma character_start_boundary: "n \<le> length bytes \<Longrightarrow> boundary bytes (character_start bytes n)"
  by (induction bytes n rule: character_start.induct)
    (subst character_start.simps, auto simp: boundary_def)

text \<open>The byte after a newline starts a character, unless the text is not UTF-8.\<close>

definition newlines_stand_alone :: "utf8 \<Rightarrow> bool" where
  "newlines_stand_alone bytes \<longleftrightarrow>
     (\<forall>i. Suc i < length bytes \<longrightarrow> bytes ! i = NEWLINE \<longrightarrow> \<not> continuation (bytes ! Suc i))"

lemma after_newline_boundary:
  "newlines_stand_alone bytes \<Longrightarrow> i < length bytes \<Longrightarrow> bytes ! i = NEWLINE \<Longrightarrow> boundary bytes (Suc i)"
  by (auto simp: newlines_stand_alone_def boundary_def)

lemma tail_start_bounds:
  assumes "0 < max_bytes limits" "0 < max_lines limits"
  shows "tail_start bytes limits \<le> length bytes \<and> length bytes - tail_start bytes limits \<le> max_bytes limits \<and>
    line_count (drop (tail_start bytes limits) bytes) \<le> max_lines limits"
proof -
  define n where "n = (if ends_with_newline bytes then length bytes - 1 else length bytes)"
  define start where "start = (case tail_line_start bytes (max_lines limits) n 1 of None \<Rightarrow> 0 | Some i \<Rightarrow> i)"
  have n: "n \<le> length bytes" by (simp add: n_def)
  have cut: "bytes = take n bytes @ (if ends_with_newline bytes then [NEWLINE] else [])"
    by (cases bytes rule: rev_cases) (auto simp: n_def ends_with_newline_def)
  have count: "line_count (drop a bytes) \<le> Suc (count_newlines (drop a (take n bytes)))" if "a \<le> n" for a
  proof -
    from that n have "drop a bytes = drop a (take n bytes) @ (if ends_with_newline bytes then [NEWLINE] else [])"
      by (subst cut) simp
    then show ?thesis by (auto simp: line_count_def)
  qed
  have lines: "line_count (drop start bytes) \<le> max_lines limits" "start \<le> length bytes"
    using tail_line_start_lines[OF n, of 1 "max_lines limits"] assms(2) count[of start] n
    by (auto simp: start_def split: option.splits)
  have later: "line_count (drop b bytes) \<le> max_lines limits" if "start \<le> b" for b
  proof -
    have "drop start bytes = take (b - start) (drop start bytes) @ drop b bytes"
      using that by (metis append_take_drop_id drop_drop le_add_diff_inverse2)
    with line_count_suffix[of "drop b bytes" "take (b - start) (drop start bytes)"] lines(1) show ?thesis by simp
  qed
  define k where "k = length bytes - max_bytes limits"
  have "tail_start bytes limits = (if length bytes - start > max_bytes limits
      then (case newline_from bytes (k - 1) of None \<Rightarrow> character_start bytes k
        | Some i \<Rightarrow> if Suc i < length bytes then Suc i else character_start bytes k) else start)"
    by (simp only: tail_start_def n_def start_def k_def Let_def)
  moreover have "start \<le> k \<and> k \<le> length bytes" if "length bytes - start > max_bytes limits"
    using that by (auto simp: k_def)
  moreover have "k \<le> character_start bytes k \<and> character_start bytes k \<le> length bytes"
    by (rule character_start_bounds) (simp add: k_def)
  moreover have "k \<le> Suc i" if "newline_from bytes (k - 1) = Some i" for i
    using newline_from_Some[OF that] by arith
  ultimately consider "tail_start bytes limits = start" "length bytes - start \<le> max_bytes limits"
    | "start \<le> tail_start bytes limits" "k \<le> tail_start bytes limits" "tail_start bytes limits \<le> length bytes"
    by (auto split: if_splits option.splits)
  then show ?thesis using lines later by cases (auto simp: k_def)
qed

lemma head_range_bounds:
  assumes "head_range bytes limits = (lo, hi)"
  shows "lo = 0 \<and> hi \<le> length bytes \<and> hi \<le> max_bytes limits \<and> line_count (take hi bytes) \<le> max_lines limits"
proof (cases "max_lines limits = 0 \<or> max_bytes limits = 0")
  case True
  with assms show ?thesis by (auto simp: head_range_def line_count_def)
next
  case False
  define stop where "stop = head_line_end bytes (max_lines limits) 0 0"
  have stop: "stop \<le> length bytes" "line_count (take stop bytes) \<le> max_lines limits"
    using False head_line_end_length[of bytes "max_lines limits" 0 0] head_line_end_lines[of 0 bytes 0 "max_lines limits"]
    by (simp_all add: stop_def)
  have earlier: "line_count (take h bytes) \<le> max_lines limits" if "h \<le> stop" for h
  proof -
    have "take stop bytes = take h bytes @ drop h (take stop bytes)"
      using that by (metis append_take_drop_id min.absorb1 take_take)
    with line_count_prefix[of "take h bytes" "drop h (take stop bytes)"] stop(2) show ?thesis by simp
  qed
  have "hi = (if stop > max_bytes limits then (case newline_before bytes (max_bytes limits) of
       None \<Rightarrow> character_end bytes (max_bytes limits) | Some i \<Rightarrow> Suc i) else stop)" "lo = 0"
    using False assms by (auto simp add: head_range_def stop_def Let_def)
  moreover have "character_end bytes (max_bytes limits) \<le> max_bytes limits" by (rule character_end_le)
  moreover have "Suc i \<le> max_bytes limits" if "newline_before bytes (max_bytes limits) = Some i" for i
    using newline_before_Some[OF that] by simp
  ultimately have "lo = 0" "hi \<le> max_bytes limits" "hi \<le> stop"
    by (auto split: if_splits option.splits)
  with stop(1) earlier show ?thesis by simp
qed

text \<open>
  The text retained is a prefix (head) or a suffix (tail) of the input that has at most the
  bytes and the lines the limits allow, and what was dropped is exactly the rest.
\<close>

theorem bound_output_within:
  "length (slice_text (bound_output bytes limits)) \<le> max_bytes limits \<and>
   line_count (slice_text (bound_output bytes limits)) \<le> max_lines limits \<and>
   (\<exists>rest. bytes = (case retain_of limits of Head \<Rightarrow> slice_text (bound_output bytes limits) @ rest
       | Tail \<Rightarrow> rest @ slice_text (bound_output bytes limits)) \<and>
     slice_dropped_bytes (bound_output bytes limits) = int (length rest))"
proof (cases "retain_of limits")
  case Head
  obtain lo hi where r: "head_range bytes limits = (lo, hi)" by fastforce
  note b = head_range_bounds[OF r]
  with Head r have w: "slice_text (bound_output bytes limits) = take hi bytes"
    by (simp add: bound_output_window window_of_def)
  have "bytes = take hi bytes @ drop hi bytes" by simp
  with b w Head show ?thesis by (auto simp: bound_output_window window_of_def r intro!: exI[of _ "drop hi bytes"])
next
  case Tail
  define start where "start = fst (tail_range bytes limits)"
  have r: "tail_range bytes limits = (start, length bytes)" by (simp add: start_def tail_range_def)
  have b: "start \<le> length bytes \<and> length bytes - start \<le> max_bytes limits \<and> line_count (drop start bytes) \<le> max_lines limits"
  proof (cases "max_lines limits = 0 \<or> max_bytes limits = 0")
    case False
    with tail_start_bounds[of limits bytes] show ?thesis by (simp add: start_def tail_range_def)
  qed (auto simp: start_def tail_range_def line_count_def)
  have "bytes = take start bytes @ drop start bytes" by simp
  with b Tail show ?thesis by (auto simp: bound_output_window window_of_def r intro!: exI[of _ "take start bytes"])
qed

lemma head_line_end_after_newline:
  "head_line_end bytes limit k seen = length bytes \<or>
   (\<exists>i. head_line_end bytes limit k seen = Suc i \<and> i < length bytes \<and> bytes ! i = NEWLINE)"
proof (induction bytes limit k seen rule: head_line_end.induct)
  case (1 bytes limit k seen)
  show ?case
  proof (cases "newline_from bytes k")
    case None
    then show ?thesis by (subst head_line_end.simps) simp
  next
    case (Some i)
    note at = newline_from_Some[OF Some]
    show ?thesis
    proof (cases "Suc seen = limit")
      case True
      with Some have "head_line_end bytes limit k seen = Suc i" by (subst head_line_end.simps) simp
      with at show ?thesis by blast
    next
      case False
      with Some have "head_line_end bytes limit k seen = head_line_end bytes limit (Suc i) (Suc seen)"
        by (subst head_line_end.simps) simp
      with "1.IH"[OF Some False] show ?thesis by simp
    qed
  qed
qed

lemma tail_line_start_after_newline:
  "tail_line_start bytes limit n seen = Some a \<Longrightarrow> \<exists>i. a = Suc i \<and> i < length bytes \<and> bytes ! i = NEWLINE"
proof (induction bytes limit n seen rule: tail_line_start.induct)
  case (1 bytes limit n seen)
  from "1.prems" obtain i where i: "newline_before bytes n = Some i"
    by (subst (asm) tail_line_start.simps) (auto split: option.splits)
  show ?case
  proof (cases "seen = limit")
    case True
    with i "1.prems" have "a = Suc i" by (subst (asm) tail_line_start.simps) simp
    with newline_before_Some[OF i] show ?thesis by blast
  next
    case False
    with i "1.prems" have "tail_line_start bytes limit i (Suc seen) = Some a" by (subst (asm) tail_line_start.simps) simp
    with "1.IH"[OF i False] show ?thesis by simp
  qed
qed

lemma boundary_length: "boundary bytes (length bytes)"
  by (simp add: boundary_def)

text \<open>
  A window starts and ends on character boundaries (for a text in which no continuation byte
  follows a newline, as in every UTF-8 text), so decoding the slice gives exactly its characters.
\<close>

theorem bound_output_whole_characters:
  assumes "newlines_stand_alone bytes"
    and "(lo, hi) = (case retain_of limits of Head \<Rightarrow> head_range bytes limits | Tail \<Rightarrow> tail_range bytes limits)"
  shows "boundary bytes lo \<and> boundary bytes hi"
proof (cases "max_lines limits = 0 \<or> max_bytes limits = 0")
  case True
  with assms(2) show ?thesis
    by (cases "retain_of limits") (auto simp: head_range_def tail_range_def boundary_def)
next
  case False
  note after = after_newline_boundary[OF assms(1)]
  show ?thesis
  proof (cases "retain_of limits")
    case Head
    define stop where "stop = head_line_end bytes (max_lines limits) 0 0"
    have "boundary bytes stop"
      using head_line_end_after_newline[of bytes "max_lines limits" 0 0] after boundary_length
      unfolding stop_def by metis
    moreover have "boundary bytes (character_end bytes (max_bytes limits))" if "stop > max_bytes limits"
      using that head_line_end_length[of bytes "max_lines limits" 0 0]
      by (intro character_end_boundary) (simp add: stop_def)
    moreover have "boundary bytes (Suc i)" if "newline_before bytes (max_bytes limits) = Some i" for i
      using newline_before_Some[OF that] after by simp
    ultimately show ?thesis
      using False Head assms(2) by (auto simp: head_range_def Let_def stop_def boundary_def[of _ 0] split: if_splits option.splits)
  next
    case Tail
    define n where "n = (if ends_with_newline bytes then length bytes - 1 else length bytes)"
    define start where "start = (case tail_line_start bytes (max_lines limits) n 1 of None \<Rightarrow> 0 | Some i \<Rightarrow> i)"
    have "boundary bytes start"
      using tail_line_start_after_newline[of bytes "max_lines limits" n 1] after
      by (auto simp: start_def boundary_def[of _ 0] split: option.split)
    moreover have "boundary bytes (character_start bytes (length bytes - max_bytes limits))"
      by (intro character_start_boundary) simp
    moreover have "boundary bytes (Suc i)" if "newline_from bytes (length bytes - max_bytes limits - 1) = Some i" for i
      using newline_from_Some[OF that] after by simp
    ultimately have "boundary bytes (tail_start bytes limits)"
      unfolding tail_start_def Let_def n_def[symmetric] start_def[symmetric] by (auto split: option.split)
    with False Tail assms(2) show ?thesis by (simp add: tail_range_def boundary_length)
  qed
qed

theorem bound_output_whole_characters_witness:
  "newlines_stand_alone [0x61, 0x0a, 0xc3, 0xa9, 0xc3, 0xa9] \<and>
   boundary [0x61, 0x0a, 0xc3, 0xa9, 0xc3, 0xa9] 4 \<and> boundary [0x61, 0x0a, 0xc3, 0xa9, 0xc3, 0xa9] 6"
proof
  show alone: "newlines_stand_alone [0x61, 0x0a, 0xc3, 0xa9, 0xc3, 0xa9]"
    by (auto simp: newlines_stand_alone_def less_Suc_eq continuation_def NEWLINE_def nth_Cons')
  have range: "(4, 6) = (case retain_of \<lparr>max_bytes = 3, max_lines = 5, retain_of = Tail\<rparr> of
      Head \<Rightarrow> head_range [0x61, 0x0a, 0xc3, 0xa9, 0xc3, 0xa9] \<lparr>max_bytes = 3, max_lines = 5, retain_of = Tail\<rparr>
    | Tail \<Rightarrow> tail_range [0x61, 0x0a, 0xc3, 0xa9, 0xc3, 0xa9] \<lparr>max_bytes = 3, max_lines = 5, retain_of = Tail\<rparr>)"
    by code_simp
  show "boundary [0x61, 0x0a, 0xc3, 0xa9, 0xc3, 0xa9] 4 \<and> boundary [0x61, 0x0a, 0xc3, 0xa9, 0xc3, 0xa9] 6"
    by (rule bound_output_whole_characters[OF alone range])
qed

end
