(* ===== verification/Output_Progress.thy ===== *)
theory Output_Progress
  imports Complex_Main "HOL-Library.Multiset" Prelude
begin

text \<open>
  Adaptive progress commits (\<open>packages/chord/src/output.ts\<close>, class \<open>Progress\<close>) as a step relation.
  Every callback is one step: the calls of the owner, the timer, the two outcomes of the write and
  the \<open>finally\<close> that follows them, in any interleaving the runtime allows. The clock's reading is
  part of the step, one reading for the whole step. The host is modelled apart from the object's own
  fields: \<open>armed\<close> are the timers the host has been asked for and has neither fired nor been asked to
  cancel, \<open>running\<close> the writes and \<open>finally\<close> handlers it still has to report. A callback happens only
  when the host owes it, and no branch of the code reads what the host owes. The last four fields are
  ghosts that count marks and log writes and waiters; no operation reads them. A waiter is its promise
  and, as a ghost, the number of marks at its creation. The write is taken not to call back into the
  object before it returns its promise.
\<close>

section \<open>State\<close>

type_synonym time = rat
type_synonym waiter = "nat \<times> nat"

datatype outcome = Resolved | Rejected

datatype flight =
    Writing time "waiter list"
  | Settling

record progress =
  min_interval :: time
  waiters :: "waiter list"
  timer :: "nat option"
  in_flight :: "flight option"
  next_at :: time
  dirty :: bool
  stopped :: bool
  handles :: nat
  armed :: "(nat \<times> time) list"
  running :: "flight list"
  settled :: "(waiter \<times> nat \<times> outcome) list"
  marks :: nat
  writes :: "(time \<times> nat) list"
  asked :: "waiter list"
  handed :: "waiter list"

text \<open>
  \<open>timer\<close> holds the handle \<open>setTimer\<close> returned, the number of the timer; \<open>armed\<close> pairs the handle with
  the clock's reading at which the timer is due. A write is logged with its start and with the number of
  marks it includes; a settled waiter with the number of marks of the write that settled it.
  \<open>asked\<close> are all waiters ever created, \<open>handed\<close> those that \<open>stop\<close> returned to its caller.
\<close>

definition PROGRESS_BYTES_PER_SECOND :: nat where "PROGRESS_BYTES_PER_SECOND = 100 * 1024"

definition new_progress :: "time \<Rightarrow> progress" where
  "new_progress interval = \<lparr>min_interval = interval, waiters = [], timer = None, in_flight = None, next_at = 0,
     dirty = False, stopped = False, handles = 0, armed = [], running = [],
     settled = [], marks = 0, writes = [], asked = [], handed = []\<rparr>"

section \<open>Operations\<close>

definition flush :: "time \<Rightarrow> progress \<Rightarrow> progress" where
  "flush now p =
     (if stopped p \<or> \<not> dirty p then p
      else p\<lparr>dirty := False, waiters := [], in_flight := Some (Writing now (waiters p)),
             running := Writing now (waiters p) # running p, writes := writes p @ [(now, marks p)]\<rparr>)"

definition schedule :: "time \<Rightarrow> progress \<Rightarrow> progress" where
  "schedule now p =
     (if stopped p \<or> timer p \<noteq> None \<or> in_flight p \<noteq> None then p
      else (let wait = next_at p - now in
        if wait \<le> 0 then flush now p
        else p\<lparr>timer := Some (handles p), handles := Suc (handles p),
               armed := (handles p, now + wait) # armed p\<rparr>))"

definition mark :: "time \<Rightarrow> progress \<Rightarrow> progress" where
  "mark now p = schedule now (p\<lparr>dirty := True, marks := Suc (marks p)\<rparr>)"

definition mark_and_wait :: "time \<Rightarrow> nat \<Rightarrow> progress \<Rightarrow> progress" where
  "mark_and_wait now promise p =
     (let w = (promise, Suc (marks p)) in mark now (p\<lparr>waiters := waiters p @ [w], asked := asked p @ [w]\<rparr>))"

definition timer_fires :: "time \<Rightarrow> progress \<Rightarrow> progress" where
  "timer_fires now p = schedule now (p\<lparr>timer := None\<rparr>)"

definition last_marks :: "progress \<Rightarrow> nat" where
  "last_marks p = (if writes p = [] then 0 else snd (last (writes p)))"

definition write_resolves :: "nat \<Rightarrow> time \<Rightarrow> waiter list \<Rightarrow> progress \<Rightarrow> progress" where
  "write_resolves bytes started ws p =
     p\<lparr>next_at := started + max (min_interval p) (of_nat (bytes * 1000) / of_nat PROGRESS_BYTES_PER_SECOND),
       settled := settled p @ map (\<lambda>w. (w, last_marks p, Resolved)) ws,
       in_flight := Some Settling, running := Settling # running p\<rparr>"

definition write_rejects :: "time \<Rightarrow> waiter list \<Rightarrow> progress \<Rightarrow> progress" where
  "write_rejects started ws p =
     p\<lparr>next_at := started + min_interval p,
       settled := settled p @ map (\<lambda>w. (w, last_marks p, Rejected)) ws,
       in_flight := Some Settling, running := Settling # running p\<rparr>"

definition flight_ends :: "time \<Rightarrow> progress \<Rightarrow> progress" where
  "flight_ends now p =
     (let p1 = p\<lparr>in_flight := None\<rparr> in if dirty p1 then schedule now p1 else p1)"

text \<open>\<open>stop\<close> up to its \<open>await\<close>, and what it does after it.\<close>

definition stop_begin :: "progress \<Rightarrow> progress" where
  "stop_begin p =
     p\<lparr>stopped := True, timer := None,
       armed := (case timer p of None \<Rightarrow> armed p | Some h \<Rightarrow> filter (\<lambda>a. fst a \<noteq> h) (armed p))\<rparr>"

definition stop_end :: "progress \<Rightarrow> waiter list \<times> progress" where
  "stop_end p = (waiters p, p\<lparr>waiters := [], handed := handed p @ waiters p\<rparr>)"

section \<open>Runs\<close>

text \<open>The host performs what it owes: it takes the callback out of its queue and runs it.\<close>

definition ring :: "nat \<Rightarrow> progress \<Rightarrow> progress" where
  "ring h p = p\<lparr>armed := filter (\<lambda>a. fst a \<noteq> h) (armed p)\<rparr>"

definition report :: "flight \<Rightarrow> progress \<Rightarrow> progress" where
  "report f p = p\<lparr>running := remove1 f (running p)\<rparr>"

datatype event =
    Marked time
  | Waited time nat
  | Timer_Fired nat time
  | Write_Resolved nat
  | Write_Rejected
  | Flight_Ended time
  | Stop_Called
  | Stop_Returned

inductive step :: "progress \<Rightarrow> event \<Rightarrow> progress \<Rightarrow> bool" where
  step_mark: "step p (Marked now) (mark now p)"
| step_wait: "step p (Waited now w) (mark_and_wait now w p)"
| step_timer: "(h, due) \<in> set (armed p) \<Longrightarrow> step p (Timer_Fired h now) (timer_fires now (ring h p))"
| step_resolved: "Writing started ws \<in> set (running p) \<Longrightarrow>
    step p (Write_Resolved bytes) (write_resolves bytes started ws (report (Writing started ws) p))"
| step_rejected: "Writing started ws \<in> set (running p) \<Longrightarrow>
    step p Write_Rejected (write_rejects started ws (report (Writing started ws) p))"
| step_ended: "Settling \<in> set (running p) \<Longrightarrow> step p (Flight_Ended now) (flight_ends now (report Settling p))"
| step_stop: "step p Stop_Called (stop_begin p)"
| step_stopped: "stopped p \<Longrightarrow> in_flight p = None \<Longrightarrow> step p Stop_Returned (snd (stop_end p))"

inductive run :: "progress \<Rightarrow> event list \<Rightarrow> progress \<Rightarrow> bool" where
  run_nil: "run p [] p"
| run_snoc: "run p es q \<Longrightarrow> step q e r \<Longrightarrow> run p (es @ [e]) r"

inductive_cases step_cases: "step p e q"

lemma run_invariant:
  assumes "run p es q" "I p" "\<And>q e r. I q \<Longrightarrow> step q e r \<Longrightarrow> I r"
  shows "I q"
  using assms by (induction rule: run.induct) auto

section \<open>The object and the host\<close>

lemmas operation_defs = mark_def mark_and_wait_def timer_fires_def write_resolves_def write_rejects_def
  flight_ends_def stop_begin_def stop_end_def schedule_def flush_def Let_def ring_def report_def

text \<open>
  The object's fields and what the host owes agree: the timer the object holds is the only one armed,
  due when the next write is, and the flight it holds is the only one running; and what is not
  committed has one of the two.
\<close>

definition linked :: "progress \<Rightarrow> bool" where
  "linked p \<longleftrightarrow>
     running p = (case in_flight p of None \<Rightarrow> [] | Some f \<Rightarrow> [f]) \<and>
     armed p = (case timer p of None \<Rightarrow> [] | Some h \<Rightarrow> [(h, next_at p)]) \<and>
     (timer p \<noteq> None \<longrightarrow> in_flight p = None) \<and>
     (waiters p \<noteq> [] \<longrightarrow> dirty p \<or> stopped p) \<and>
     (\<not> dirty p \<longrightarrow> marks p \<le> last_marks p) \<and> last_marks p \<le> marks p"

definition coupled :: "progress \<Rightarrow> bool" where
  "coupled p \<longleftrightarrow> linked p \<and> (dirty p \<longrightarrow> \<not> stopped p \<longrightarrow> timer p \<noteq> None \<or> in_flight p \<noteq> None)"

lemma coupled_new [simp]: "coupled (new_progress interval)"
  by (simp add: coupled_def linked_def new_progress_def last_marks_def)

lemma schedule_coupled: "linked p \<Longrightarrow> coupled (schedule now p)"
  by (auto simp: coupled_def linked_def schedule_def flush_def Let_def last_marks_def)

lemma coupled_step: "coupled p \<Longrightarrow> step p e q \<Longrightarrow> coupled q"
proof (erule step_cases)
  fix now assume "coupled p" "q = mark now p"
  then show ?thesis
    by (simp add: mark_def) (rule schedule_coupled, auto simp: coupled_def linked_def last_marks_def cong: option.case_cong)
next
  fix now promise assume "coupled p" "q = mark_and_wait now promise p"
  then show ?thesis
    by (simp add: mark_and_wait_def mark_def Let_def)
      (rule schedule_coupled, auto simp: coupled_def linked_def last_marks_def cong: option.case_cong)
next
  fix h due now assume "coupled p" "q = timer_fires now (ring h p)" "(h, due) \<in> set (armed p)"
  then show ?thesis
    by (simp add: timer_fires_def)
      (rule schedule_coupled, auto simp: coupled_def linked_def last_marks_def ring_def cong: option.case_cong split: option.splits)
next
  fix now assume "coupled p" "q = flight_ends now (report Settling p)" "Settling \<in> set (running p)"
  moreover from this have "linked (report Settling p\<lparr>in_flight := None\<rparr>)"
    by (auto simp: coupled_def linked_def last_marks_def report_def cong: option.case_cong split: option.splits)
  ultimately show ?thesis
    using schedule_coupled[of "report Settling p\<lparr>in_flight := None\<rparr>" now]
    by (simp add: flight_ends_def Let_def coupled_def)
qed (auto simp: coupled_def linked_def last_marks_def write_resolves_def write_rejects_def stop_begin_def
       stop_end_def report_def cong: option.case_cong split: option.splits)

lemma run_coupled: "run (new_progress interval) es p \<Longrightarrow> coupled p"
  by (rule run_invariant[of _ _ _ coupled]) (simp, simp, rule coupled_step)

lemma schedule_cases:
  obtains "schedule now p = p"
  | "\<not> stopped p" "timer p = None" "in_flight p = None" "next_at p \<le> now" "dirty p"
    "schedule now p = p\<lparr>dirty := False, waiters := [], in_flight := Some (Writing now (waiters p)),
       running := Writing now (waiters p) # running p, writes := writes p @ [(now, marks p)]\<rparr>"
  | "next_at p > now" "timer p = None" "in_flight p = None"
    "schedule now p = p\<lparr>timer := Some (handles p), handles := Suc (handles p), armed := (handles p, next_at p) # armed p\<rparr>"
proof (cases "stopped p \<or> timer p \<noteq> None \<or> in_flight p \<noteq> None")
  case True
  then have "schedule now p = p" by (simp add: schedule_def)
  then show thesis by (rule that(1))
next
  case open_: False
  show thesis
  proof (cases "next_at p \<le> now \<and> dirty p")
    case True
    with open_ show thesis by (intro that(2)) (simp_all add: schedule_def flush_def)
  next
    case False
    show thesis
    proof (cases "next_at p \<le> now")
      case True
      with False open_ show thesis by (intro that(1)) (simp add: schedule_def flush_def)
    next
      case later: False
      with open_ show thesis by (intro that(3)) (simp_all add: schedule_def)
    qed
  qed
qed

section \<open>No change is lost\<close>

text \<open>
  One thing the host owes is done: the outcome of a write, the \<open>finally\<close> after it, or a timer, not
  before it is due. \<open>goes_on n p q\<close>: from \<open>p\<close> to \<open>q\<close> with at least \<open>n\<close> of these among any other
  events except \<open>stop\<close> (further marks and waiters, timers that fire early).
\<close>

inductive host_step :: "progress \<Rightarrow> progress \<Rightarrow> bool" where
  host_timer: "(h, due) \<in> set (armed p) \<Longrightarrow> due \<le> now \<Longrightarrow> step p (Timer_Fired h now) q \<Longrightarrow> host_step p q"
| host_resolved: "step p (Write_Resolved bytes) q \<Longrightarrow> host_step p q"
| host_rejected: "step p Write_Rejected q \<Longrightarrow> host_step p q"
| host_ended: "step p (Flight_Ended now) q \<Longrightarrow> host_step p q"

inductive goes_on :: "nat \<Rightarrow> progress \<Rightarrow> progress \<Rightarrow> bool" where
  goes_nil: "goes_on 0 p p"
| goes_host: "goes_on n p q \<Longrightarrow> host_step q r \<Longrightarrow> goes_on (Suc n) p r"
| goes_step: "goes_on n p q \<Longrightarrow> step q e r \<Longrightarrow> e \<noteq> Stop_Called \<Longrightarrow> goes_on n p r"

inductive_cases host_step_cases: "host_step p q"
inductive_cases timer_step_cases: "step p (Timer_Fired h now) q"
inductive_cases resolved_step_cases: "step p (Write_Resolved bytes) q"
inductive_cases rejected_step_cases: "step p Write_Rejected q"
inductive_cases ended_step_cases: "step p (Flight_Ended now) q"

lemmas host_cases = timer_step_cases resolved_step_cases rejected_step_cases ended_step_cases

lemma host_step_step: "host_step p q \<Longrightarrow> \<exists>e. step p e q \<and> e \<noteq> Stop_Called"
  by (erule host_step_cases) blast+

text \<open>How many more things the host has to do before what is uncommitted is written.\<close>

fun remaining :: "flight option \<Rightarrow> nat" where
  "remaining None = 1"
| "remaining (Some Settling) = 2"
| "remaining (Some (Writing started ws)) = 3"

lemma remaining_bounds [simp]: "0 < remaining f" "remaining f \<le> 3" "remaining f < 4"
  by (cases f rule: remaining.cases; simp)+

lemma flight_owed:
  assumes "coupled p" "in_flight p = Some f"
  shows "\<exists>q. host_step p q"
proof -
  from assms have "f \<in> set (running p)" by (simp add: coupled_def linked_def)
  then show ?thesis by (metis flight.exhaust host_resolved host_ended step_resolved step_ended)
qed

lemma dirty_owed:
  assumes "coupled p" "dirty p" "\<not> stopped p"
  shows "\<exists>q. host_step p q"
proof (cases "in_flight p")
  case None
  with assms obtain h where "armed p = [(h, next_at p)]" by (auto simp: coupled_def linked_def)
  then have "(h, next_at p) \<in> set (armed p)" by simp
  then show ?thesis by (blast intro: host_timer[OF _ order_refl step_timer])
qed (rule flight_owed[OF assms(1)])

text \<open>The change is in a write that has started, or \<open>k\<close> things are left to the host before it is.\<close>

definition ahead :: "nat \<Rightarrow> nat \<Rightarrow> progress \<Rightarrow> bool" where
  "ahead m k p \<longleftrightarrow> m \<le> last_marks p \<or> dirty p \<and> remaining (in_flight p) \<le> k"

lemma schedule_ahead:
  "ahead m k p \<Longrightarrow> last_marks p \<le> marks p \<Longrightarrow> m \<le> marks p \<Longrightarrow> ahead m k (schedule now p)"
  by (rule schedule_cases[of now p]) (auto simp: ahead_def last_marks_def)

lemma coupled_flight:
  assumes "coupled p" "f \<in> set (running p)"
  shows "in_flight p = Some f" "timer p = None" "running p = [f]"
  using assms by (auto simp: coupled_def linked_def split: option.splits)

lemma coupled_timer:
  assumes "coupled p" "(h, due) \<in> set (armed p)"
  shows "timer p = Some h" "in_flight p = None" "due = next_at p"
  using assms by (auto simp: coupled_def linked_def split: option.splits)

lemma coupled_marks: "coupled p \<Longrightarrow> last_marks p \<le> marks p" "coupled p \<Longrightarrow> \<not> dirty p \<Longrightarrow> marks p \<le> last_marks p"
  by (simp_all add: coupled_def linked_def)

lemma ended_ahead:
  assumes "coupled p" "m \<le> marks p" "ahead m (Suc k) p" "Settling \<in> set (running p)"
  shows "ahead m k (flight_ends now (report Settling p))"
proof -
  let ?p = "report Settling p\<lparr>in_flight := None\<rparr>"
  have "ahead m k ?p" "last_marks ?p \<le> marks ?p" "m \<le> marks ?p"
    using assms coupled_flight[OF assms(1,4)] coupled_marks(1)[OF assms(1)]
    by (auto simp: ahead_def report_def last_marks_def)
  from this(1) schedule_ahead[OF this] show ?thesis by (simp add: flight_ends_def Let_def)
qed

lemma step_ahead:
  assumes "coupled p" "m \<le> marks p" "ahead m k p" "step p e q"
  shows "ahead m k q"
  using assms(4)
proof (cases rule: step.cases)
  case (step_mark now)
  with assms coupled_marks(1)[OF assms(1)] show ?thesis
    by (simp add: mark_def) (rule schedule_ahead, auto simp: ahead_def last_marks_def)
next
  case (step_wait now promise)
  with assms coupled_marks(1)[OF assms(1)] show ?thesis
    by (simp add: mark_and_wait_def mark_def Let_def) (rule schedule_ahead, auto simp: ahead_def last_marks_def)
next
  case (step_timer h due now)
  with assms coupled_marks(1)[OF assms(1)] show ?thesis
    by (simp add: timer_fires_def) (rule schedule_ahead, auto simp: ring_def ahead_def last_marks_def)
next
  case (step_ended now)
  with assms ended_ahead[of p m k now] show ?thesis by (auto simp: ahead_def)
next
  case (step_resolved started ws bytes)
  with assms coupled_flight[OF assms(1)] show ?thesis
    by (auto simp: ahead_def write_resolves_def report_def last_marks_def)
next
  case (step_rejected started ws)
  with assms coupled_flight[OF assms(1)] show ?thesis
    by (auto simp: ahead_def write_rejects_def report_def last_marks_def)
qed (use assms in \<open>auto simp: ahead_def stop_begin_def stop_end_def last_marks_def\<close>)

lemma host_step_ahead:
  assumes "coupled p" "\<not> stopped p" "m \<le> marks p" "ahead m (Suc k) p" "host_step p q"
  shows "ahead m k q"
  using assms(5)
proof (cases rule: host_step.cases)
  case (host_timer h due now)
  note timer = coupled_timer[OF assms(1) host_timer(1)]
  from host_timer(3) have "q = timer_fires now (ring h p)" by (rule timer_step_cases)
  with timer host_timer(2) assms coupled_marks(2)[OF assms(1)] show ?thesis
    by (cases "dirty p") (auto simp: timer_fires_def ring_def schedule_def flush_def last_marks_def ahead_def)
next
  case (host_resolved bytes)
  then show ?thesis using assms coupled_flight[OF assms(1)]
    by (cases rule: resolved_step_cases) (auto simp: ahead_def write_resolves_def report_def last_marks_def)
next
  case host_rejected
  then show ?thesis using assms coupled_flight[OF assms(1)]
    by (cases rule: rejected_step_cases) (auto simp: ahead_def write_rejects_def report_def last_marks_def)
next
  case (host_ended now)
  then show ?thesis using ended_ahead[OF assms(1,3,4)] by (auto elim: ended_step_cases)
qed

fun flight_waiters :: "flight option \<Rightarrow> waiter list" where
  "flight_waiters (Some (Writing started ws)) = ws"
| "flight_waiters _ = []"

text \<open>A waiter is settled, in the flight, or waits for a flight that \<open>k\<close> things are enough to settle.\<close>

definition served :: "waiter \<Rightarrow> nat \<Rightarrow> progress \<Rightarrow> bool" where
  "served w k p \<longleftrightarrow> w \<in> fst ` set (settled p) \<or> w \<in> set (flight_waiters (in_flight p)) \<and> 1 \<le> k \<or>
     w \<in> set (waiters p) \<and> remaining (in_flight p) < k"

lemma schedule_served: "served w k p \<Longrightarrow> served w k (schedule now p)"
  by (rule schedule_cases[of now p]) (auto simp: served_def)

lemma ended_served:
  assumes "coupled p" "served w (Suc k) p" "Settling \<in> set (running p)"
  shows "served w k (flight_ends now (report Settling p))"
proof -
  let ?p = "report Settling p\<lparr>in_flight := None\<rparr>"
  have "served w k ?p" using assms coupled_flight[OF assms(1,3)] by (auto simp: served_def report_def)
  from this schedule_served[OF this] show ?thesis by (simp add: flight_ends_def Let_def)
qed

lemma step_served:
  assumes "coupled p" "\<not> stopped p" "served w k p" "step p e q" "e \<noteq> Stop_Called"
  shows "served w k q"
  using assms(4)
proof (cases rule: step.cases)
  case (step_mark now)
  with assms show ?thesis by (simp add: mark_def) (rule schedule_served, auto simp: served_def)
next
  case (step_wait now promise)
  with assms show ?thesis
    by (simp add: mark_and_wait_def mark_def Let_def) (rule schedule_served, auto simp: served_def)
next
  case (step_timer h due now)
  with assms show ?thesis by (simp add: timer_fires_def) (rule schedule_served, auto simp: ring_def served_def)
next
  case (step_ended now)
  with assms ended_served[of p w k now] show ?thesis by (auto simp: served_def)
next
  case (step_resolved started ws bytes)
  with assms coupled_flight[OF assms(1)] show ?thesis
    by (auto simp: served_def write_resolves_def report_def image_Un image_image)
next
  case (step_rejected started ws)
  with assms coupled_flight[OF assms(1)] show ?thesis
    by (auto simp: served_def write_rejects_def report_def image_Un image_image)
qed (use assms in auto)

lemma host_step_served:
  assumes "coupled p" "\<not> stopped p" "served w (Suc k) p" "host_step p q"
  shows "served w k q"
  using assms(4)
proof (cases rule: host_step.cases)
  case (host_timer h due now)
  note timer = coupled_timer[OF assms(1) host_timer(1)]
  have "dirty p" if "w \<in> set (waiters p)" using that assms(1,2) by (auto simp: coupled_def linked_def)
  moreover from host_timer(3) have "q = timer_fires now (ring h p)" by (rule timer_step_cases)
  ultimately show ?thesis using timer host_timer(2) assms(2,3)
    by (auto simp: timer_fires_def ring_def schedule_def flush_def served_def)
next
  case (host_resolved bytes)
  then show ?thesis using assms coupled_flight[OF assms(1)]
    by (cases rule: resolved_step_cases) (auto simp: served_def write_resolves_def report_def image_Un image_image)
next
  case host_rejected
  then show ?thesis using assms coupled_flight[OF assms(1)]
    by (cases rule: rejected_step_cases) (auto simp: served_def write_rejects_def report_def image_Un image_image)
next
  case (host_ended now)
  then show ?thesis using ended_served[OF assms(1,3)] by (auto elim: ended_step_cases)
qed

lemma step_going: "step p e q \<Longrightarrow> e \<noteq> Stop_Called \<Longrightarrow> \<not> stopped p \<Longrightarrow> \<not> stopped q \<and> marks p \<le> marks q"
  by (erule step_cases) (auto simp: operation_defs)

lemma goes_on_ahead:
  assumes "goes_on n p q" "coupled p" "\<not> stopped p"
  shows "coupled q \<and> \<not> stopped q \<and> marks p \<le> marks q \<and> ahead (marks p) (3 - n) q \<and>
    (\<forall>w \<in> set (waiters p). served w (4 - n) q)"
  using assms
proof induction
  case (goes_nil p)
  then show ?case using coupled_marks(2)[of p] by (auto simp: ahead_def served_def)
next
  case (goes_host n p q r)
  then have q: "coupled q" "\<not> stopped q" "marks p \<le> marks q" by auto
  obtain e where e: "step q e r" "e \<noteq> Stop_Called" using host_step_step[OF goes_host.hyps(2)] by blast
  have "ahead (marks p) (3 - Suc n) r"
  proof (cases "3 - n")
    case 0
    with goes_host step_ahead[OF q(1,3) _ e(1), of 0] show ?thesis by auto
  next
    case (Suc k)
    then have "3 - Suc n = k" by simp
    with Suc goes_host host_step_ahead[OF q, of k r] show ?thesis by auto
  qed
  moreover have "served w (4 - Suc n) r" if "w \<in> set (waiters p)" for w
  proof (cases "4 - n")
    case 0
    with goes_host step_served[OF q(1,2) _ e, of w 0] that show ?thesis by auto
  next
    case (Suc k)
    then have "4 - Suc n = k" by simp
    with Suc goes_host host_step_served[OF q(1,2), of w k r] that show ?thesis by auto
  qed
  ultimately show ?case using q coupled_step[OF q(1) e(1)] step_going[OF e q(2)] by auto
next
  case (goes_step n p q e r)
  then have q: "coupled q" "\<not> stopped q" "marks p \<le> marks q" by auto
  with goes_step coupled_step step_going[OF goes_step.hyps(2,3) q(2)] step_ahead[OF q(1,3) _ goes_step.hyps(2)]
    step_served[OF q(1,2) _ goes_step.hyps(2,3)]
  show ?case by (meson order_trans)
qed

text \<open>
  C22: No change is lost and no waiter forgotten. Take any reachable state that is not stopped and any
  events after it except \<open>stop\<close>: once the host has done three of the things it owes (let a timer fire
  that is due, report the outcome of a write, run the \<open>finally\<close> after it), a write has started that
  includes every mark made up to that state, and after four every waiter of that state is settled; as
  long as that is not so, the host does owe one of these things, whatever happened in between.
\<close>

theorem no_change_lost:
  assumes "run (new_progress interval) es p" "\<not> stopped p" "goes_on n p q"
  shows "(marks p \<le> last_marks q \<or> n < 3 \<and> (\<exists>r. host_step q r)) \<and>
    (\<forall>w \<in> set (waiters p). w \<in> fst ` set (settled q) \<or> n < 4 \<and> (\<exists>r. host_step q r))"
proof -
  note q = goes_on_ahead[OF assms(3) run_coupled[OF assms(1)] assms(2)]
  have "marks p \<le> last_marks q \<or> n < 3 \<and> (\<exists>r. host_step q r)"
    using q dirty_owed[of q] remaining_bounds(1)[of "in_flight q"] by (cases "3 - n") (auto simp: ahead_def)
  moreover have "w \<in> fst ` set (settled q) \<or> n < 4 \<and> (\<exists>r. host_step q r)" if "w \<in> set (waiters p)" for w
  proof -
    have "\<exists>r. host_step q r" if "w \<in> set (flight_waiters (in_flight q))"
      using q that flight_owed[of q] by (cases "in_flight q") auto
    moreover have "\<exists>r. host_step q r" if "w \<in> set (waiters q)"
      using q that dirty_owed[of q] by (auto simp: coupled_def linked_def)
    moreover from q that have "served w (4 - n) q" by blast
    ultimately show ?thesis by (cases "4 - n") (auto simp: served_def)
  qed
  ultimately show ?thesis by blast
qed

section \<open>Pacing\<close>

definition gapped :: "time \<Rightarrow> (time \<times> nat) list \<Rightarrow> bool" where
  "gapped d ws \<longleftrightarrow> (\<forall>i. Suc i < length ws \<longrightarrow> fst (ws ! i) + d \<le> fst (ws ! Suc i))"

lemma gapped_snoc [simp]:
  "gapped d (ws @ [w]) \<longleftrightarrow> gapped d ws \<and> (ws \<noteq> [] \<longrightarrow> fst (last ws) + d \<le> fst w)"
  by (cases ws rule: rev_cases) (auto simp: gapped_def nth_append less_Suc_eq)

text \<open>The earliest start of the next write after the last one, in each state of the flight.\<close>

fun flight_pace :: "flight option \<Rightarrow> time \<Rightarrow> time \<Rightarrow> time \<Rightarrow> bool" where
  "flight_pace (Some (Writing started ws)) newest interval due \<longleftrightarrow> started = newest"
| "flight_pace _ newest interval due \<longleftrightarrow> newest + interval \<le> due"

definition paced :: "progress \<Rightarrow> bool" where
  "paced p \<longleftrightarrow> gapped (min_interval p) (writes p) \<and>
     (writes p \<noteq> [] \<longrightarrow> flight_pace (in_flight p) (fst (last (writes p))) (min_interval p) (next_at p))"

lemma schedule_paced: "paced p \<Longrightarrow> paced (schedule now p)"
  by (rule schedule_cases[of now p]) (auto simp: paced_def)

lemma paced_step: "coupled p \<Longrightarrow> paced p \<Longrightarrow> step p e q \<Longrightarrow> paced q"
proof (erule step_cases)
  fix now assume "paced p" "q = mark now p"
  then show ?thesis by (simp add: mark_def) (rule schedule_paced, simp add: paced_def)
next
  fix now promise assume "paced p" "q = mark_and_wait now promise p"
  then show ?thesis by (simp add: mark_and_wait_def mark_def Let_def) (rule schedule_paced, simp add: paced_def)
next
  fix h due now assume "paced p" "q = timer_fires now (ring h p)"
  then show ?thesis by (simp add: timer_fires_def) (rule schedule_paced, simp add: paced_def ring_def)
next
  fix now assume "paced p" "q = flight_ends now (report Settling p)" "coupled p" "Settling \<in> set (running p)"
  moreover from this have "paced (report Settling p\<lparr>in_flight := None\<rparr>)"
    using coupled_flight(1)[of p Settling] by (simp add: paced_def report_def)
  ultimately show ?thesis
    using schedule_paced[of "report Settling p\<lparr>in_flight := None\<rparr>" now] by (simp add: flight_ends_def Let_def)
qed (auto simp: write_resolves_def write_rejects_def stop_begin_def stop_end_def paced_def report_def
       dest: coupled_flight(1))

text \<open>
  Each write starts at least the minimum interval after the one before it, whatever the clock,
  the timer (which may fire early) and the outcomes of the writes do.
\<close>

theorem writes_paced:
  assumes "run (new_progress interval) es p" "Suc i < length (writes p)"
  shows "fst (writes p ! i) + interval \<le> fst (writes p ! Suc i)"
proof -
  have "coupled p \<and> paced p \<and> min_interval p = interval"
  proof (rule run_invariant[OF assms(1), of "\<lambda>p. coupled p \<and> paced p \<and> min_interval p = interval"])
    show "coupled (new_progress interval) \<and> paced (new_progress interval) \<and> min_interval (new_progress interval) = interval"
      by (simp add: paced_def gapped_def) (simp add: new_progress_def)
    fix q e r
    assume "coupled q \<and> paced q \<and> min_interval q = interval" "step q e r"
    then show "coupled r \<and> paced r \<and> min_interval r = interval"
      using coupled_step[of q e r] paced_step[of q e r] by (auto elim!: step_cases simp: operation_defs)
  qed
  then have "gapped interval (writes p)" by (auto simp: paced_def)
  with assms(2) show ?thesis by (simp add: gapped_def)
qed

section \<open>Waiters\<close>

text \<open>Every waiter is in exactly one place, and only a write that includes its change settles it.\<close>

definition accounted :: "progress \<Rightarrow> bool" where
  "accounted p \<longleftrightarrow>
     mset (asked p) = mset (waiters p) + mset (flight_waiters (in_flight p)) + mset (map fst (settled p)) + mset (handed p) \<and>
     (\<forall>w \<in> set (waiters p). snd w \<le> marks p) \<and> (\<forall>w \<in> set (flight_waiters (in_flight p)). snd w \<le> last_marks p) \<and>
     (\<forall>(w, n, r) \<in> set (settled p). snd w \<le> n)"

lemma schedule_accounted: "accounted p \<Longrightarrow> accounted (schedule now p)"
  by (rule schedule_cases[of now p]) (auto simp: accounted_def last_marks_def)

lemma accounted_step: "coupled p \<Longrightarrow> accounted p \<Longrightarrow> step p e q \<Longrightarrow> accounted q"
proof (erule step_cases)
  fix now assume "accounted p" "q = mark now p"
  then show ?thesis
    by (simp add: mark_def) (rule schedule_accounted, auto simp: accounted_def last_marks_def)
next
  fix now promise assume "accounted p" "q = mark_and_wait now promise p"
  then show ?thesis
    by (simp add: mark_and_wait_def mark_def Let_def)
      (rule schedule_accounted, auto simp: accounted_def last_marks_def)
next
  fix h due now assume "accounted p" "q = timer_fires now (ring h p)"
  then show ?thesis
    by (simp add: timer_fires_def) (rule schedule_accounted, auto simp: accounted_def last_marks_def ring_def)
next
  fix now assume "accounted p" "q = flight_ends now (report Settling p)" "coupled p" "Settling \<in> set (running p)"
  moreover from this have "accounted (report Settling p\<lparr>in_flight := None\<rparr>)"
    using coupled_flight(1)[of p Settling] by (simp add: accounted_def last_marks_def report_def)
  ultimately show ?thesis
    using schedule_accounted[of "report Settling p\<lparr>in_flight := None\<rparr>" now] by (simp add: flight_ends_def Let_def)
next
  fix started ws bytes
  assume "accounted p" "coupled p" "Writing started ws \<in> set (running p)"
    "q = write_resolves bytes started ws (report (Writing started ws) p)"
  with coupled_flight(1)[of p "Writing started ws"] show ?thesis
    by (auto simp: write_resolves_def accounted_def last_marks_def report_def comp_def)
next
  fix started ws
  assume "accounted p" "coupled p" "Writing started ws \<in> set (running p)"
    "q = write_rejects started ws (report (Writing started ws) p)"
  with coupled_flight(1)[of p "Writing started ws"] show ?thesis
    by (auto simp: write_rejects_def accounted_def last_marks_def report_def comp_def)
qed (auto simp: stop_begin_def stop_end_def accounted_def last_marks_def)

text \<open>
  C23: Every promise handed out is waiting, in the write in flight, settled exactly once or returned
  by \<open>stop\<close>, never two of these, and a write settles it only if it includes its change.
\<close>

theorem waiters_settle_once:
  assumes "run (new_progress interval) es p"
  shows "mset (asked p) = mset (waiters p) + mset (flight_waiters (in_flight p)) + mset (map fst (settled p)) + mset (handed p)
    \<and> (\<forall>(w, n, r) \<in> set (settled p). snd w \<le> n)"
proof -
  have "coupled p \<and> accounted p"
    by (rule run_invariant[OF assms, of "\<lambda>p. coupled p \<and> accounted p"])
      (rule conjI[OF coupled_new], simp add: accounted_def new_progress_def,
        blast intro: coupled_step accounted_step)
  then show ?thesis by (simp add: accounted_def)
qed

section \<open>A run\<close>

definition sample_flying :: progress where
  "sample_flying = mark_and_wait 7 2 (mark 6 (mark_and_wait 5 1 (new_progress 50)))"

definition sample_waiting :: progress where
  "sample_waiting = flight_ends 100 (report Settling
     (write_resolves 51200 5 [(1, 1)] (report (Writing 5 [(1, 1)]) sample_flying)))"

definition sample_progress :: progress where
  "sample_progress = timer_fires 600 (ring 1 (timer_fires 200 (ring 0 sample_waiting)))"

definition flying_events :: "event list" where
  "flying_events = [Waited 5 1, Marked 6, Waited 7 2]"

definition sample_events :: "event list" where
  "sample_events = flying_events @ [Write_Resolved 51200, Flight_Ended 100, Timer_Fired 0 200, Timer_Fired 1 600]"

lemmas sample_defs = sample_progress_def sample_waiting_def sample_flying_def operation_defs new_progress_def
  last_marks_def PROGRESS_BYTES_PER_SECOND_def

lemma sample_values:
  "writes sample_progress = [(5, 1), (600, 3)] \<and> settled sample_progress = [((1, 1), 1, Resolved)] \<and>
   in_flight sample_progress = Some (Writing 600 [(2, 3)]) \<and> waiters sample_progress = []"
  "dirty sample_flying \<and> marks sample_flying = 3 \<and> \<not> stopped sample_flying \<and> waiters sample_flying = [(2, 3)]"
  by (simp_all add: sample_defs max_def)

text \<open>The first timer fires at 200, before it is due, and is armed again for the rest.\<close>

lemma sample_steps:
  "step sample_flying (Write_Resolved 51200) (write_resolves 51200 5 [(1, 1)] (report (Writing 5 [(1, 1)]) sample_flying))"
  "step (write_resolves 51200 5 [(1, 1)] (report (Writing 5 [(1, 1)]) sample_flying)) (Flight_Ended 100) sample_waiting"
  "step sample_waiting (Timer_Fired 0 200) (timer_fires 200 (ring 0 sample_waiting))"
  "(1, 505) \<in> set (armed (timer_fires 200 (ring 0 sample_waiting)))"
  unfolding sample_waiting_def
  by (rule step_resolved step_ended step_timer[where due = 505], simp add: sample_defs max_def)+
    (simp add: sample_defs max_def)

lemma sample_run_flying: "run (new_progress 50) flying_events sample_flying"
proof -
  have events: "flying_events = (([] @ [Waited 5 1]) @ [Marked 6]) @ [Waited 7 2]" by (simp add: flying_events_def)
  show ?thesis unfolding events sample_flying_def
    by (rule run_snoc[OF run_snoc[OF run_snoc[OF run_nil step_wait] step_mark] step_wait])
qed

lemma sample_run: "run (new_progress 50) sample_events sample_progress"
proof -
  have events: "sample_events =
      (((flying_events @ [Write_Resolved 51200]) @ [Flight_Ended 100]) @ [Timer_Fired 0 200]) @ [Timer_Fired 1 600]"
    by (simp add: sample_events_def)
  show ?thesis unfolding events sample_progress_def
    by (rule run_snoc[OF run_snoc[OF run_snoc[OF run_snoc[OF sample_run_flying sample_steps(1)] sample_steps(2)]
          sample_steps(3)] step_timer[OF sample_steps(4)]])
qed

lemma sample_goes_on: "goes_on 3 sample_flying sample_progress"
proof -
  have "goes_on (Suc (Suc (Suc 0))) sample_flying sample_progress"
    unfolding sample_progress_def
    by (rule goes_host[OF goes_step[OF goes_host[OF goes_host[OF goes_nil host_resolved[OF sample_steps(1)]]
            host_ended[OF sample_steps(2)]] sample_steps(3)]
          host_timer[OF sample_steps(4) _ step_timer[OF sample_steps(4)]]]) simp_all
  then show ?thesis by (simp add: numeral_3_eq_3)
qed

theorem no_change_lost_witness:
  "dirty sample_flying \<and> marks sample_flying = 3 \<and> 3 \<le> last_marks sample_progress"
  using no_change_lost[OF sample_run_flying _ sample_goes_on] sample_values(2) by simp

theorem writes_paced_witness:
  "writes sample_progress = [(5, 1), (600, 3)] \<and> fst (writes sample_progress ! 0) + 50 \<le> fst (writes sample_progress ! Suc 0)"
  using writes_paced[OF sample_run, of 0] sample_values by simp

theorem waiters_settle_once_witness:
  "settled sample_progress = [((1, 1), 1, Resolved)] \<and>
   mset (asked sample_progress) = mset (flight_waiters (in_flight sample_progress)) + mset (map fst (settled sample_progress))
     + mset (handed sample_progress)"
  using waiters_settle_once[OF sample_run] sample_values by simp

end
