(* ===== verification/Session_Forks.thy ===== *)
theory Session_Forks
  imports Memory_Properties
begin

text \<open>
  The documents a fork copies (\<open>packages/durable/src/session/forks.ts\<close>): as of the fork's entry
  from the conversation that holds the entry, and current ones from the parent. Ids are minted
  from the storage as copies are selected, so the state is threaded through errors too. The loop over
  pages is fuelled; \<open>ForkUnfinished\<close> marks running out of fuel, which the fuel given never does. An
  entry without a commit sequence, which the storage's invariant excludes, is a missing record.
\<close>

definition FORK_PAGE_SIZE :: nat where "FORK_PAGE_SIZE = 256"

datatype fork_error =
    ForkStorage storage_error
  | ForkNotVisible int int
  | ForkMultiple doc_address
  | ForkUnfinished

record fork_copy =
  copy_record :: doc_create
  copy_source :: int
  copy_at :: doc_point

definition selected_by :: "doc_fork \<Rightarrow> doc_record \<Rightarrow> bool" where
  "selected_by policy s \<longleftrightarrow>
     (case doc_scope_of s of ConversationScope _ \<Rightarrow> doc_fork_of s = Some policy | _ \<Rightarrow> False)"

definition copied_record :: "int \<Rightarrow> int \<Rightarrow> doc_record \<Rightarrow> doc_create" where
  "copied_record i child s =
     \<lparr>doc_id = i, doc_kind = doc_kind s, doc_key = doc_key s, doc_scope_of = ConversationScope child,
      doc_history_of = (if doc_history_of s = Some Latest then Some Latest else Some Rewindable), doc_fork_of = doc_fork_of s\<rparr>"

definition copied_addresses :: "fork_copy list \<Rightarrow> doc_address list" where
  "copied_addresses copies = map (\<lambda>c. record_address (copy_record c)) copies"

text \<open>The items of one page.\<close>

fun copy_sources ::
  "doc_point \<Rightarrow> doc_fork \<Rightarrow> int \<Rightarrow> doc_record list \<Rightarrow> fork_copy list \<Rightarrow> mem_state \<Rightarrow>
     (fork_error, fork_copy list) result \<times> mem_state" where
  "copy_sources at policy child [] copies st = (Inr copies, st)"
| "copy_sources at policy child (s # ss) copies st =
     (if \<not> selected_by policy s then copy_sources at policy child ss copies st
      else (case mint_id st of
          Inl e \<Rightarrow> (Inl (ForkStorage e), st)
        | Inr (i, st') \<Rightarrow>
            (let r = copied_record i child s in
             if record_address r \<in> set (copied_addresses copies) then (Inl (ForkMultiple (record_address r)), st')
             else copy_sources at policy child ss (copies @ [\<lparr>copy_record = r, copy_source = doc_id s, copy_at = at\<rparr>]) st')))"

definition fork_query :: "doc_scope \<Rightarrow> doc_point \<Rightarrow> document_query" where
  "fork_query scope at = \<lparr>dq_scope = scope, dq_at = at, dq_kind = None\<rparr>"

fun collect_copies ::
  "nat \<Rightarrow> doc_scope \<Rightarrow> doc_point \<Rightarrow> doc_fork \<Rightarrow> int \<Rightarrow> cursor option \<Rightarrow> fork_copy list \<Rightarrow> mem_state \<Rightarrow>
     (fork_error, fork_copy list) result \<times> mem_state" where
  "collect_copies 0 scope at policy child cursor copies st = (Inl ForkUnfinished, st)"
| "collect_copies (Suc n) scope at policy child cursor copies st =
     (case scan_documents st (fork_query scope at) FORK_PAGE_SIZE cursor of
        Inl e \<Rightarrow> (Inl (ForkStorage e), st)
      | Inr page \<Rightarrow>
          (case copy_sources at policy child (page_items page) copies st of
             (Inl e, st') \<Rightarrow> (Inl e, st')
           | (Inr copies', st') \<Rightarrow>
               (case page_next page of
                  None \<Rightarrow> (Inr copies', st')
                | Some c \<Rightarrow> collect_copies n scope at policy child (Some c) copies' st')))"

definition copies_fuel :: "mem_state \<Rightarrow> doc_scope \<Rightarrow> nat" where
  "copies_fuel st scope = Suc (length (ids_at (document_ids_by_scope st) scope))"

definition prepare_fork_copies ::
  "int \<Rightarrow> int \<Rightarrow> int \<Rightarrow> mem_state \<Rightarrow> (fork_error, fork_copy list) result \<times> mem_state" where
  "prepare_fork_copies parent at child st =
     (case get_visible_entry st parent at of
        Inl e \<Rightarrow> (Inl (ForkStorage e), st)
      | Inr None \<Rightarrow> (Inl (ForkNotVisible at parent), st)
      | Inr (Some (entry, None)) \<Rightarrow> (Inl (ForkStorage (MissingRecord at)), st)
      | Inr (Some (entry, Some seq)) \<Rightarrow>
          (let scope = ConversationScope (entry_conv entry) in
           case collect_copies (copies_fuel st scope) scope (AsOf seq) ForkAsOf child None [] st of
             (Inl e, st') \<Rightarrow> (Inl e, st')
           | (Inr copies, st') \<Rightarrow>
               collect_copies (copies_fuel st' (ConversationScope parent)) (ConversationScope parent) Current ForkCurrent
                 child None copies st'))"

section \<open>What is copied\<close>

lemma scan_documents_mint [simp]: "scan_documents (st\<lparr>next_record_id := k\<rparr>) = scan_documents st"
  by (intro ext) (simp add: scan_documents_def assert_open_def)

lemma mint_id_result: "mint_id st = Inr (i, st') \<Longrightarrow> i = next_record_id st \<and> st' = st\<lparr>next_record_id := next_record_id st + 1\<rparr>"
  by (auto simp: mint_id_def assert_open_def split: if_splits)

lemma copy_sources_state: "\<exists>k \<ge> next_record_id st. snd (copy_sources at policy child ss copies st) = st\<lparr>next_record_id := k\<rparr>"
proof (induction ss arbitrary: copies st)
  case Nil
  show ?case by (rule exI[of _ "next_record_id st"]) simp
next
  case (Cons s ss)
  show ?case
  proof (cases "selected_by policy s")
    case True
    show ?thesis
    proof (cases "mint_id st")
      case (Inr r)
      obtain i st' where r: "r = (i, st')" by fastforce
      note m = mint_id_result[OF Inr[unfolded r]]
      from Cons[where st = st'] obtain k where k: "k \<ge> next_record_id st'"
        "snd (copy_sources at policy child ss (copies @ [\<lparr>copy_record = copied_record i child s, copy_source = doc_id s, copy_at = at\<rparr>]) st') = st'\<lparr>next_record_id := k\<rparr>"
        by blast
      with m Inr r True show ?thesis
        by (auto simp: Let_def intro: exI[of _ k] exI[of _ "next_record_id st + 1"])
    qed (use True in \<open>auto intro: exI[of _ "next_record_id st"]\<close>)
  qed (use Cons in simp)
qed

text \<open>The copies selected from a list of sources, when none is refused.\<close>

definition copies_new :: "int \<Rightarrow> fork_copy list \<Rightarrow> bool" where
  "copies_new child copies \<longleftrightarrow> distinct (copied_addresses copies) \<and>
     list_all (\<lambda>c. doc_scope_of (copy_record c) = ConversationScope child) copies"

definition ids_fresh :: "int \<Rightarrow> int \<Rightarrow> fork_copy list \<Rightarrow> bool" where
  "ids_fresh lo hi copies \<longleftrightarrow> strict_sorted (map (\<lambda>c. doc_id (copy_record c)) copies) \<and>
     list_all (\<lambda>c. lo \<le> doc_id (copy_record c) \<and> doc_id (copy_record c) < hi) copies"

definition copies_of :: "doc_point \<Rightarrow> int \<Rightarrow> doc_record \<Rightarrow> fork_copy \<Rightarrow> bool" where
  "copies_of at child s c \<longleftrightarrow> copy_source c = doc_id s \<and> copy_at c = at \<and>
     copy_record c = copied_record (doc_id (copy_record c)) child s"

lemma copied_record_id [simp]: "doc_id (copied_record i child s) = i"
  by (simp add: copied_record_def)

lemma copied_record_scope [simp]: "doc_scope_of (copied_record i child s) = ConversationScope child"
  by (simp add: copied_record_def)

lemma copy_sources_result:
  assumes "copy_sources at policy child ss copies st = (Inr copies', st')" "copies_new child copies"
    "ids_fresh lo (next_record_id st) copies" "lo \<le> next_record_id st"
  shows "\<exists>added. copies' = copies @ added \<and> list_all2 (copies_of at child) (filter (selected_by policy) ss) added \<and>
    copies_new child copies' \<and> ids_fresh lo (next_record_id st') copies' \<and> lo \<le> next_record_id st'"
  using assms
proof (induction ss arbitrary: copies st)
  case Nil
  then show ?case by auto
next
  case (Cons s ss)
  show ?case
  proof (cases "selected_by policy s")
    case True
    with Cons.prems(1) obtain i st1 where m: "mint_id st = Inr (i, st1)"
      by (auto split: sum.splits prod.splits)
    note mint = mint_id_result[OF m]
    define c where "c = \<lparr>copy_record = copied_record i child s, copy_source = doc_id s, copy_at = at\<rparr>"
    from Cons.prems(1) True m have fresh: "record_address (copied_record i child s) \<notin> set (copied_addresses copies)"
      and rest: "copy_sources at policy child ss (copies @ [c]) st1 = (Inr copies', st')"
      by (auto simp: Let_def c_def split: if_splits)
    have new: "copies_new child (copies @ [c])" using Cons.prems(2) fresh
      by (simp add: copies_new_def copied_addresses_def c_def)
    have ids: "ids_fresh lo (next_record_id st1) (copies @ [c])" "lo \<le> next_record_id st1"
      using Cons.prems(3,4) mint
      by (auto simp: ids_fresh_def c_def sorted_wrt_append list_all_iff)
    from Cons.IH[OF rest new ids] obtain added where "copies' = (copies @ [c]) @ added"
      "list_all2 (copies_of at child) (filter (selected_by policy) ss) added" "copies_new child copies'"
      "ids_fresh lo (next_record_id st') copies'" "lo \<le> next_record_id st'" by blast
    moreover have "copies_of at child s c" by (simp add: copies_of_def c_def)
    ultimately show ?thesis using True by (intro exI[of _ "c # added"]) simp
  next
    case False
    with Cons show ?thesis by simp
  qed
qed

lemma copy_sources_append:
  "copy_sources at policy child (ss @ ts) copies st =
     (case copy_sources at policy child ss copies st of
        (Inl e, st') \<Rightarrow> (Inl e, st')
      | (Inr copies', st') \<Rightarrow> copy_sources at policy child ts copies' st')"
  by (induction ss arbitrary: copies st) (auto simp: Let_def split: sum.splits prod.splits)

text \<open>Page by page is the same as the whole scan at once.\<close>

lemma collect_copies_pages:
  assumes "all_pages (\<lambda>c. page_result (scan_documents st (fork_query scope at) FORK_PAGE_SIZE c)) n cursor = Some (Inr items)"
  shows "collect_copies n scope at policy child cursor copies (st\<lparr>next_record_id := k\<rparr>) =
    copy_sources at policy child items copies (st\<lparr>next_record_id := k\<rparr>)"
  using assms
proof (induction n arbitrary: cursor items copies k)
  case (Suc n)
  show ?case
  proof (cases "scan_documents st (fork_query scope at) FORK_PAGE_SIZE cursor")
    case (Inr page)
    show ?thesis
    proof (cases "page_next page")
      case None
      with Suc.prems Inr have "items = page_items page" by (simp add: all_pages.simps page_result_def)
      with None Inr show ?thesis by (auto split: prod.splits sum.splits)
    next
      case (Some c)
      with Suc.prems Inr obtain rest where rest: "items = page_items page @ rest"
        "all_pages (\<lambda>c. page_result (scan_documents st (fork_query scope at) FORK_PAGE_SIZE c)) n (Some c) = Some (Inr rest)"
        by (auto simp: all_pages.simps page_result_def elim!: bind_res.elims split: option.splits)
      obtain j where j: "snd (copy_sources at policy child (page_items page) copies (st\<lparr>next_record_id := k\<rparr>)) = st\<lparr>next_record_id := j\<rparr>"
        using copy_sources_state[of "st\<lparr>next_record_id := k\<rparr>" at policy child "page_items page" copies] by auto
      show ?thesis
      proof (cases "fst (copy_sources at policy child (page_items page) copies (st\<lparr>next_record_id := k\<rparr>))")
        case (Inl e)
        with Inr Some rest j show ?thesis
          by (simp add: copy_sources_append) (cases "copy_sources at policy child (page_items page) copies (st\<lparr>next_record_id := k\<rparr>)"; simp)
      next
        case (Inr copies')
        then have "copy_sources at policy child (page_items page) copies (st\<lparr>next_record_id := k\<rparr>) = (Inr copies', st\<lparr>next_record_id := j\<rparr>)"
          using j by (simp add: prod_eq_iff)
        with \<open>scan_documents _ _ _ _ = Inr page\<close> Some rest Suc.IH[OF rest(2), of copies' j] show ?thesis
          by (simp add: copy_sources_append)
      qed
    qed
  qed (use Suc.prems in \<open>simp add: all_pages.simps page_result_def\<close>)
qed (simp add: all_pages.simps)

lemma collect_copies_complete:
  assumes "storage_ok st" "\<not> closed st"
  shows "\<exists>items. (\<forall>k. collect_copies (copies_fuel st scope) scope at policy child None copies (st\<lparr>next_record_id := k\<rparr>) =
      copy_sources at policy child items copies (st\<lparr>next_record_id := k\<rparr>)) \<and>
    lists_table Ascending doc_id (doc_table st) (\<lambda>r. doc_scope_of r = scope \<and> is_alive_at r at) items"
proof -
  let ?ids = "ids_at (document_ids_by_scope st) scope"
  let ?items = "rest_of (doc_table st) (document_keep (fork_query scope at)) ?ids Ascending None"
  have read: "readable st FORK_PAGE_SIZE" using assms by (simp add: readable_def FORK_PAGE_SIZE_def)
  have "length (picked f is) \<le> length is" for f :: "int \<Rightarrow> (storage_error, doc_record option) result" and "is"
    by (induction "is") (auto split: sum.split option.split)
  moreover have "strict_sorted ?ids" using document_index(1)[OF assms(1), of scope] by (simp add: indexes_def)
  ultimately have "length ?items \<le> length ?ids"
    by (simp add: rest_of_def scanned_first)
  then have all: "all_pages (\<lambda>c. page_result (scan_documents st (fork_query scope at) FORK_PAGE_SIZE c)) (copies_fuel st scope) None = Some (Inr ?items)"
    using document_pages.all_pages_complete[of "(st, fork_query scope at, FORK_PAGE_SIZE)" None "copies_fuel st scope"] read
    by (simp add: request_first copies_fuel_def order_of_def fork_query_def)
  have "lists_table Ascending doc_id (doc_table st) (\<lambda>r. doc_scope_of r = scope \<and> document_keep (fork_query scope at) r) ?items"
    unfolding rest_of_def by (rule lists_table_picked[OF document_index[OF assms(1)]])
  then have "lists_table Ascending doc_id (doc_table st) (\<lambda>r. doc_scope_of r = scope \<and> is_alive_at r at) ?items"
    by (simp add: document_keep_def fork_query_def matches_opt_def)
  with collect_copies_pages[OF all] show ?thesis by blast
qed

text \<open>The documents a policy selects at a point from a scope.\<close>

definition fork_sources :: "mem_state \<Rightarrow> int \<Rightarrow> doc_point \<Rightarrow> doc_fork \<Rightarrow> (int \<times> doc_point) set" where
  "fork_sources st conv at policy =
     {(doc_id r, at) | r. r \<in> ran (doc_table st) \<and> doc_scope_of r = ConversationScope conv \<and> is_alive_at r at \<and>
        doc_fork_of r = Some policy}"

lemma copies_sources:
  assumes "list_all2 (copies_of at child) (filter (selected_by policy) items) added"
    and "lists_table Ascending doc_id (doc_table st) (\<lambda>r. doc_scope_of r = ConversationScope conv \<and> is_alive_at r at) items"
  shows "(\<lambda>c. (copy_source c, copy_at c)) ` set added = fork_sources st conv at policy"
proof -
  have "map (\<lambda>c. (copy_source c, copy_at c)) added = map (\<lambda>s. (doc_id s, at)) (filter (selected_by policy) items)"
    using assms(1) by (induction rule: list_all2_induct) (auto simp: copies_of_def)
  then have "(\<lambda>c. (copy_source c, copy_at c)) ` set added = (\<lambda>s. (doc_id s, at)) ` set (filter (selected_by policy) items)"
    by (metis list.set_map)
  with assms(2) show ?thesis by (auto simp: lists_table_def fork_sources_def selected_by_def)
qed

text \<open>
  C24: A fork that is not refused copies exactly the documents of the entry's conversation that were
  alive at the entry's commit and fork as of it, and the live documents of the parent that fork
  their current state; every copy has a fresh id, lives in the child, and no two share an address.
\<close>

theorem fork_copies_exact:
  assumes "storage_ok st" "\<not> closed st" "get_visible_entry st parent at = Inr (Some (e, Some seq))"
    and "prepare_fork_copies parent at child st = (Inr copies, st')"
  shows "(\<lambda>c. (copy_source c, copy_at c)) ` set copies =
      fork_sources st (entry_conv e) (AsOf seq) ForkAsOf \<union> fork_sources st parent Current ForkCurrent \<and>
    copies_new child copies \<and> ids_fresh (next_record_id st) (next_record_id st') copies"
proof -
  obtain items where first: "\<And>k. collect_copies (copies_fuel st (ConversationScope (entry_conv e))) (ConversationScope (entry_conv e))
        (AsOf seq) ForkAsOf child None [] (st\<lparr>next_record_id := k\<rparr>) =
      copy_sources (AsOf seq) ForkAsOf child items [] (st\<lparr>next_record_id := k\<rparr>)"
    and items: "lists_table Ascending doc_id (doc_table st)
      (\<lambda>r. doc_scope_of r = ConversationScope (entry_conv e) \<and> is_alive_at r (AsOf seq)) items"
    using collect_copies_complete[OF assms(1,2)] by blast
  from assms(3,4) first[of "next_record_id st"] obtain copies1 st1 where
    one: "copy_sources (AsOf seq) ForkAsOf child items [] st = (Inr copies1, st1)"
    and two: "collect_copies (copies_fuel st1 (ConversationScope parent)) (ConversationScope parent) Current ForkCurrent child None copies1 st1 = (Inr copies, st')"
    by (auto simp: prepare_fork_copies_def Let_def split: prod.splits sum.splits)
  obtain k where k: "st1 = st\<lparr>next_record_id := k\<rparr>"
    using copy_sources_state[of st "AsOf seq" ForkAsOf child items "[]"] one by auto
  obtain items2 where second: "\<And>copies k. collect_copies (copies_fuel st (ConversationScope parent)) (ConversationScope parent)
        Current ForkCurrent child None copies1 (st\<lparr>next_record_id := k\<rparr>) =
      copy_sources Current ForkCurrent child items2 copies1 (st\<lparr>next_record_id := k\<rparr>)"
    and items2: "lists_table Ascending doc_id (doc_table st)
      (\<lambda>r. doc_scope_of r = ConversationScope parent \<and> is_alive_at r Current) items2"
    using collect_copies_complete[OF assms(1,2), of "ConversationScope parent" Current ForkCurrent child copies1] by auto
  have "copies_fuel st1 (ConversationScope parent) = copies_fuel st (ConversationScope parent)" by (simp add: k copies_fuel_def)
  with two second[of k] have two': "copy_sources Current ForkCurrent child items2 copies1 st1 = (Inr copies, st')" by (simp add: k)
  obtain added1 where a1: "copies1 = added1" "list_all2 (copies_of (AsOf seq) child) (filter (selected_by ForkAsOf) items) added1"
      "copies_new child copies1" "ids_fresh (next_record_id st) (next_record_id st1) copies1" "next_record_id st \<le> next_record_id st1"
    using copy_sources_result[OF one, of "next_record_id st"] by (auto simp: copies_new_def copied_addresses_def ids_fresh_def)
  obtain added2 where a2: "copies = copies1 @ added2" "list_all2 (copies_of Current child) (filter (selected_by ForkCurrent) items2) added2"
      "copies_new child copies" "ids_fresh (next_record_id st) (next_record_id st') copies"
    using copy_sources_result[OF two' a1(3,4,5)] by auto
  from copies_sources[OF a1(2) items] copies_sources[OF a2(2) items2] a1(1) a2(1,3,4) show ?thesis
    by (simp add: image_Un)
qed

lemma collect_copies_state:
  "\<exists>k \<ge> next_record_id st. snd (collect_copies n scope at policy child c copies st) = st\<lparr>next_record_id := k\<rparr>"
proof (induction n arbitrary: c copies st)
  case 0
  show ?case by (rule exI[of _ "next_record_id st"]) simp
next
  case (Suc n)
  show ?case
  proof (cases "scan_documents st (fork_query scope at) FORK_PAGE_SIZE c")
    case (Inl e)
    then show ?thesis by (intro exI[of _ "next_record_id st"]) simp
  next
    case (Inr page)
    obtain r st1 where r: "copy_sources at policy child (page_items page) copies st = (r, st1)" by fastforce
    with copy_sources_state[of st at policy child "page_items page" copies] obtain k where
      k: "k \<ge> next_record_id st" "st1 = st\<lparr>next_record_id := k\<rparr>" by auto
    show ?thesis
    proof (cases "\<exists>cs d. r = Inr cs \<and> page_next page = Some d")
      case True
      then obtain cs d where cs: "r = Inr cs" "page_next page = Some d" by blast
      from Suc[of st1 "Some d" cs] obtain j where
        j: "j \<ge> next_record_id st1" "snd (collect_copies n scope at policy child (Some d) cs st1) = st1\<lparr>next_record_id := j\<rparr>"
        by blast
      have "snd (collect_copies (Suc n) scope at policy child c copies st) = snd (collect_copies n scope at policy child (Some d) cs st1)"
        using Inr r cs by simp
      with j k show ?thesis by (intro exI[of _ j]) simp
    next
      case False
      with Inr r have "snd (collect_copies (Suc n) scope at policy child c copies st) = st1"
        by (cases r; cases "page_next page") simp_all
      with k show ?thesis by (intro exI[of _ k]) simp
    qed
  qed
qed

lemma collect_copies_fresh:
  "collect_copies n scope at policy child c copies st = (Inr copies', st') \<Longrightarrow> copies_new child copies \<Longrightarrow>
   ids_fresh lo (next_record_id st) copies \<Longrightarrow> lo \<le> next_record_id st \<Longrightarrow>
   copies_new child copies' \<and> ids_fresh lo (next_record_id st') copies' \<and> lo \<le> next_record_id st'"
proof (induction n arbitrary: c copies st)
  case (Suc n)
  from Suc.prems(1) obtain page cs st1 where page: "scan_documents st (fork_query scope at) FORK_PAGE_SIZE c = Inr page"
    and one: "copy_sources at policy child (page_items page) copies st = (Inr cs, st1)"
    by (auto split: sum.splits prod.splits)
  from copy_sources_result[OF one Suc.prems(2-4)]
  have ok: "copies_new child cs" "ids_fresh lo (next_record_id st1) cs" "lo \<le> next_record_id st1" by auto
  show ?case
  proof (cases "page_next page")
    case None
    with Suc.prems(1) page one ok show ?thesis by simp
  next
    case (Some d)
    with Suc.prems(1) page one have "collect_copies n scope at policy child (Some d) cs st1 = (Inr copies', st')" by simp
    from Suc.IH[OF this ok] show ?thesis .
  qed
qed simp

lemma prepare_copies_state:
  "\<exists>k \<ge> next_record_id st. snd (prepare_fork_copies p at child st) = st\<lparr>next_record_id := k\<rparr>"
proof -
  have same: "\<exists>k \<ge> next_record_id st. st = st\<lparr>next_record_id := k\<rparr>" by (rule exI[of _ "next_record_id st"]) simp
  show ?thesis
  proof (cases "\<exists>e seq. get_visible_entry st p at = Inr (Some (e, Some seq))")
    case True
    then obtain e seq where e: "get_visible_entry st p at = Inr (Some (e, Some seq))" by blast
    define scope where "scope = ConversationScope (entry_conv e)"
    obtain r st1 where one: "collect_copies (copies_fuel st scope) scope (AsOf seq) ForkAsOf child None [] st = (r, st1)"
      by fastforce
    with collect_copies_state[of st "copies_fuel st scope" scope "AsOf seq" ForkAsOf child None "[]"]
    obtain k where k: "k \<ge> next_record_id st" "st1 = st\<lparr>next_record_id := k\<rparr>" by auto
    show ?thesis
    proof (cases r)
      case (Inl x)
      with e one k show ?thesis by (simp add: prepare_fork_copies_def scope_def) blast
    next
      case (Inr copies)
      with e one have "snd (prepare_fork_copies p at child st) =
          snd (collect_copies (copies_fuel st1 (ConversationScope p)) (ConversationScope p) Current ForkCurrent child None copies st1)"
        by (simp add: prepare_fork_copies_def scope_def)
      with k collect_copies_state[of st1 "copies_fuel st1 (ConversationScope p)" "ConversationScope p" Current ForkCurrent child None copies]
      show ?thesis by (auto intro: order_trans)
    qed
  next
    case False
    then have "snd (prepare_fork_copies p at child st) = st"
      by (auto simp: prepare_fork_copies_def split: sum.split option.split)
    with same show ?thesis by simp
  qed
qed

lemma prepare_copies_fresh:
  assumes "prepare_fork_copies p at child st = (Inr copies, st')"
  shows "copies_new child copies \<and> ids_fresh (next_record_id st) (next_record_id st') copies"
proof -
  from assms obtain n scope d copies1 st1 m scope' where
    "collect_copies n scope d ForkAsOf child None [] st = (Inr copies1, st1)"
    and two: "collect_copies m scope' Current ForkCurrent child None copies1 st1 = (Inr copies, st')"
    by (auto simp: prepare_fork_copies_def Let_def split: sum.splits prod.splits option.splits)
  then have "copies_new child copies1 \<and> ids_fresh (next_record_id st) (next_record_id st1) copies1 \<and> next_record_id st \<le> next_record_id st1"
    by (intro collect_copies_fresh) (auto simp: copies_new_def copied_addresses_def ids_fresh_def)
  with collect_copies_fresh[OF two, of "next_record_id st"] show ?thesis by blast
qed

definition sample_copy :: fork_copy where
  "sample_copy = \<lparr>copy_record = \<lparr>doc_id = 10, doc_kind = ''plan'', doc_key = None, doc_scope_of = ConversationScope 20,
     doc_history_of = Some Rewindable, doc_fork_of = Some ForkAsOf\<rparr>, copy_source = 9, copy_at = AsOf 1\<rparr>"

lemma sample_fork:
  "fst (prepare_fork_copies 5 3 20 sample_storage) = Inr [sample_copy] \<and>
   map_sum (\<lambda>x. x) (map_option snd) (get_visible_entry sample_storage 5 3) = Inr (Some (Some 1))"
  by code_simp

theorem fork_copies_exact_witness:
  "\<exists>e. get_visible_entry sample_storage 5 3 = Inr (Some (e, Some 1)) \<and>
     {(9, AsOf 1)} = fork_sources sample_storage (entry_conv e) (AsOf 1) ForkAsOf \<union> fork_sources sample_storage 5 Current ForkCurrent"
proof -
  obtain e where e: "get_visible_entry sample_storage 5 3 = Inr (Some (e, Some 1))"
    using sample_fork by (cases "get_visible_entry sample_storage 5 3") auto
  have "prepare_fork_copies 5 3 20 sample_storage = (Inr [sample_copy], snd (prepare_fork_copies 5 3 20 sample_storage))"
    using sample_fork by (simp add: prod_eq_iff)
  from fork_copies_exact[OF sample_ok sample_open e this] e show ?thesis by (auto simp: sample_copy_def)
qed

end
