(* ===== verification/Session_Tx.thy ===== *)
theory Session_Tx
  imports Session_Forks
begin

text \<open>
  The tables side of a transaction (\<open>packages/durable/src/session/transaction.ts\<close>): reads that stop
  at the first table write, staged conversations, entries, submissions and tasks, and the assembly
  of the batch that the storage commits. An operation is a function from the transaction to its
  result and the transaction after it, since a rejected operation still marks the write and
  consumes minted ids. Documents other than a fork's copies, telemetry carriers and the tracking
  of unfinished promises are left out; \<open>conversationCreated\<close> is the plain session's, which stages nothing.
\<close>

section \<open>State\<close>

datatype tx_error =
    TxStorage storage_error
  | TxFork fork_error
  | TxSettled
  | ReadAfterWrite string
  | NoConversation int
  | NoOwner int
  | NoTaskOwner int
  | ChildBackground
  | ChildElsewhere int
  | ConversationRequired
  | TerminalCandidate int
  | CannotMove int
  | NoTask int
  | AlreadyTerminal int
  | OwnerNotLive string int task_status
  | OwnerAborted string int
  | OwnerGone string int
  | NoSubmission int
  | NotQueued int
  | NotPlacedInput int

datatype submission_change =
    PlacedAt int
  | SettledDone int
  | SettledUnanswered string "json option"

datatype write_kind = CreateTask | ReplaceTask

record transaction =
  tx_store :: mem_state
  tx_conv :: "int option"
  tx_task :: "int option"
  sealed :: bool
  has_table_write :: bool
  staged :: "storage_write list"
  created_conversations :: "int list"
  touched_tasks :: "(int \<times> (write_kind \<times> task_record) option) list"
  new_submissions :: "(int \<times> submission_record) list"
  submission_changes :: "(int \<times> submission_change) list"
  fork_copies :: "fork_copy list"

text \<open>
  The maps are lists in insertion order: \<open>AList.update\<close> replaces in place and appends a new key.
\<close>

type_synonym 'a tx_op = "transaction \<Rightarrow> (tx_error, 'a) result \<times> transaction"

definition new_transaction :: "mem_state \<Rightarrow> int option \<Rightarrow> int option \<Rightarrow> transaction" where
  "new_transaction st conv task = \<lparr>tx_store = st, tx_conv = conv, tx_task = task, sealed = False, has_table_write = False,
     staged = [], created_conversations = [], touched_tasks = [], new_submissions = [], submission_changes = [], fork_copies = []\<rparr>"

definition return_tx :: "'a \<Rightarrow> 'a tx_op" where
  "return_tx a tx = (Inr a, tx)"

definition fail_tx :: "tx_error \<Rightarrow> 'a tx_op" where
  "fail_tx e tx = (Inl e, tx)"

definition then_tx :: "'a tx_op \<Rightarrow> ('a \<Rightarrow> 'b tx_op) \<Rightarrow> 'b tx_op" where
  "then_tx m f tx = (case m tx of (Inl e, tx') \<Rightarrow> (Inl e, tx') | (Inr a, tx') \<Rightarrow> f a tx')"

definition lift_tx :: "(storage_error, 'a) result \<Rightarrow> 'a tx_op" where
  "lift_tx r tx = (case r of Inl e \<Rightarrow> (Inl (TxStorage e), tx) | Inr a \<Rightarrow> (Inr a, tx))"

definition change_tx :: "(transaction \<Rightarrow> transaction) \<Rightarrow> unit tx_op" where
  "change_tx f tx = (Inr (), f tx)"

definition check_tx :: "bool \<Rightarrow> tx_error \<Rightarrow> unit tx_op" where
  "check_tx ok e = (if ok then return_tx () else fail_tx e)"

lemmas tx_ops = return_tx_def fail_tx_def then_tx_def lift_tx_def change_tx_def check_tx_def

section \<open>Reads and writes\<close>

definition read_tx :: "string \<Rightarrow> (mem_state \<Rightarrow> (storage_error, 'a) result) \<Rightarrow> 'a tx_op" where
  "read_tx method f tx =
     (if sealed tx then (Inl TxSettled, tx)
      else if has_table_write tx then (Inl (ReadAfterWrite method), tx)
      else lift_tx (f (tx_store tx)) tx)"

definition write_tx :: "'a tx_op \<Rightarrow> 'a tx_op" where
  "write_tx m tx = (if sealed tx then (Inl TxSettled, tx) else m (tx\<lparr>has_table_write := True\<rparr>))"

definition mint_tx :: "int tx_op" where
  "mint_tx tx = (case mint_id (tx_store tx) of Inl e \<Rightarrow> (Inl (TxStorage e), tx) | Inr (i, st) \<Rightarrow> (Inr i, tx\<lparr>tx_store := st\<rparr>))"

definition touch_task :: "int \<Rightarrow> transaction \<Rightarrow> transaction" where
  "touch_task i tx =
     (if map_of (touched_tasks tx) i = None then tx\<lparr>touched_tasks := touched_tasks tx @ [(i, None)]\<rparr> else tx)"

definition committed_task :: "int \<Rightarrow> task_record option tx_op" where
  "committed_task i = then_tx (change_tx (touch_task i)) (\<lambda>_ tx. lift_tx (get_task (tx_store tx) i) tx)"

definition candidate_task :: "transaction \<Rightarrow> int \<Rightarrow> (write_kind \<times> task_record) option" where
  "candidate_task tx i = (case map_of (touched_tasks tx) i of None \<Rightarrow> None | Some w \<Rightarrow> w)"

definition current_task :: "int \<Rightarrow> task_record option tx_op" where
  "current_task i tx =
     (case candidate_task tx i of Some (k, r) \<Rightarrow> (Inr (Some r), tx) | None \<Rightarrow> committed_task i tx)"

definition require_conversation :: "int \<Rightarrow> unit tx_op" where
  "require_conversation i tx =
     (if i \<in> set (created_conversations tx) then (Inr (), tx)
      else then_tx (lift_tx (get_conversation (tx_store tx) i)) (\<lambda>found. check_tx (found \<noteq> None) (NoConversation i)) tx)"

section \<open>Table reads\<close>

definition tx_conversation :: "int \<Rightarrow> conversation_record option tx_op" where
  "tx_conversation i = read_tx ''conversation'' (\<lambda>st. get_conversation st i)"

definition tx_entry :: "string option \<Rightarrow> int \<Rightarrow> entry_record option tx_op" where
  "tx_entry kind i = read_tx ''entry'' (\<lambda>st. bind_res (get_entry st i) (\<lambda>found.
     let entry = map_option fst found in
     Inr (if kind = None \<or> map_option entry_kind entry = kind then entry else None)))"

definition tx_task_record :: "int \<Rightarrow> task_record option tx_op" where
  "tx_task_record i tx =
     (case read_tx ''task'' (\<lambda>st. Inr ()) tx of (Inl e, tx') \<Rightarrow> (Inl e, tx') | (Inr _, tx') \<Rightarrow> committed_task i tx')"

definition tx_scan_conversations :: "conversation_query \<Rightarrow> nat \<Rightarrow> cursor option \<Rightarrow> conversation_record page_of tx_op" where
  "tx_scan_conversations q limit c = read_tx ''scanConversations'' (\<lambda>st. scan_conversations st q limit c)"

definition tx_scan_entries :: "entry_query \<Rightarrow> nat \<Rightarrow> cursor option \<Rightarrow> entry_record page_of tx_op" where
  "tx_scan_entries q limit c = read_tx ''scanEntries'' (\<lambda>st. scan_entries st q limit c)"

definition tx_latest_head_marker :: "int \<Rightarrow> entry_record option tx_op" where
  "tx_latest_head_marker conv = read_tx ''latestHeadMarker'' (\<lambda>st. find_latest_head_marker st conv None)"

definition tx_scan_tasks :: "task_query \<Rightarrow> nat \<Rightarrow> cursor option \<Rightarrow> task_record page_of tx_op" where
  "tx_scan_tasks q limit c = read_tx ''scanTasks'' (\<lambda>st. scan_tasks st q limit c)"

definition tx_submission :: "int \<Rightarrow> submission_record option tx_op" where
  "tx_submission i = read_tx ''submission'' (\<lambda>st. get_submission st i)"

definition tx_submission_by_request :: "int \<Rightarrow> string \<Rightarrow> submission_record option tx_op" where
  "tx_submission_by_request conv req = read_tx ''submissionByRequest'' (\<lambda>st. submission_by_request st conv req)"

section \<open>Table writes\<close>

text \<open>Conversations: owned by a task or ownerless, forked from a parent or not.\<close>

definition owner_of :: "int option \<Rightarrow> (int \<times> int) option tx_op" where
  "owner_of ownership =
     (case ownership of
        None \<Rightarrow> return_tx None
      | Some t \<Rightarrow> then_tx (current_task t) (\<lambda>found.
          case found of None \<Rightarrow> fail_tx (NoOwner t) | Some task \<Rightarrow> return_tx (Some (task_conv task, t))))"

definition copies_for :: "(int \<times> int) option \<Rightarrow> int \<Rightarrow> fork_copy list tx_op" where
  "copies_for parent i tx =
     (case parent of
        None \<Rightarrow> (Inr [], tx)
      | Some (p, at) \<Rightarrow>
          (case prepare_fork_copies p at i (tx_store tx) of
             (Inl e, st) \<Rightarrow> (Inl (TxFork e), tx\<lparr>tx_store := st\<rparr>)
           | (Inr copies, st) \<Rightarrow> (Inr copies, tx\<lparr>tx_store := st\<rparr>)))"

definition stage_conversation :: "(int \<times> int) option \<Rightarrow> int option \<Rightarrow> int option \<Rightarrow> conversation_record tx_op" where
  "stage_conversation parent ownership fixed =
     then_tx (case fixed of Some i \<Rightarrow> return_tx i | None \<Rightarrow> mint_tx) (\<lambda>i.
     then_tx (owner_of ownership) (\<lambda>owner.
     then_tx (copies_for parent i) (\<lambda>copies.
       let r = \<lparr>conv_id = i, conv_parent = parent, conv_owner = owner\<rparr> in
     then_tx (change_tx (\<lambda>tx. tx\<lparr>fork_copies := fork_copies tx @ copies,
         created_conversations := created_conversations tx @ [i], staged := staged tx @ [WConversation r]\<rparr>)) (\<lambda>_.
     return_tx r))))"

definition ROOT_CONVERSATION_ID :: int where "ROOT_CONVERSATION_ID = 1"

definition create_conversation :: "int option \<Rightarrow> conversation_record tx_op" where
  "create_conversation ownership = write_tx (stage_conversation None ownership None)"

definition create_root_conversation :: "conversation_record tx_op" where
  "create_root_conversation = write_tx (stage_conversation None None (Some ROOT_CONVERSATION_ID))"

definition fork_conversation :: "int \<Rightarrow> int \<Rightarrow> int option \<Rightarrow> conversation_record tx_op" where
  "fork_conversation parent at ownership = write_tx (stage_conversation (Some (parent, at)) ownership None)"

datatype draft_head = HeadSelf | HeadAt int

record entry_draft =
  draft_kind :: string
  draft_model :: "json option"
  draft_data :: "json option"
  draft_head_of :: "draft_head option"
  draft_edits :: "json option"

definition drafted_entry :: "int \<Rightarrow> int \<Rightarrow> int option \<Rightarrow> entry_draft \<Rightarrow> entry_record" where
  "drafted_entry i conv task d =
     \<lparr>entry_id = i, entry_conv = conv, entry_kind = draft_kind d, entry_model = draft_model d, entry_data = draft_data d,
      entry_head = map_option (\<lambda>h. case h of HeadSelf \<Rightarrow> i | HeadAt j \<Rightarrow> j) (draft_head_of d),
      entry_edits = draft_edits d, entry_by_task = task\<rparr>"

definition append_entry :: "int \<Rightarrow> entry_draft \<Rightarrow> entry_record tx_op" where
  "append_entry conv d = write_tx (
     then_tx (require_conversation conv) (\<lambda>_.
     then_tx mint_tx (\<lambda>i tx.
       let r = drafted_entry i conv (tx_task tx) d in (Inr r, tx\<lparr>staged := staged tx @ [WEntry r]\<rparr>))))"

text \<open>Tasks. A definition's \<open>initial\<close> checkpoint is the definition's own code.\<close>

record task_definition =
  def_name :: string
  def_version :: int
  def_initial :: "json \<Rightarrow> json"

record task_options =
  opt_owner :: "int option"
  opt_background :: bool
  opt_conversation :: "int option"
  opt_abandon :: bool

definition task_owner_of :: "task_options \<Rightarrow> task_record option tx_op" where
  "task_owner_of opts =
     (case opt_owner opts of
        None \<Rightarrow> return_tx None
      | Some t \<Rightarrow>
          then_tx (current_task t) (\<lambda>found.
            case found of
              None \<Rightarrow> fail_tx (NoTaskOwner t)
            | Some owner \<Rightarrow>
                if opt_background opts then fail_tx ChildBackground
                else if opt_conversation opts \<noteq> None \<and> opt_conversation opts \<noteq> Some (task_conv owner)
                then fail_tx (ChildElsewhere (task_conv owner))
                else return_tx (Some owner)))"

definition put_touched :: "int \<Rightarrow> write_kind \<Rightarrow> task_record \<Rightarrow> transaction \<Rightarrow> transaction" where
  "put_touched i k r tx = tx\<lparr>touched_tasks := AList.update i (Some (k, r)) (touched_tasks tx)\<rparr>"

definition create_task :: "task_definition \<Rightarrow> json \<Rightarrow> task_options \<Rightarrow> int tx_op" where
  "create_task def input opts = write_tx (
     then_tx (task_owner_of opts) (\<lambda>owner tx0.
       let conv = (case owner of Some o' \<Rightarrow> Some (task_conv o')
           | None \<Rightarrow> (case opt_conversation opts of Some c \<Rightarrow> Some c | None \<Rightarrow> tx_conv tx0)) in
       (case conv of
          None \<Rightarrow> fail_tx ConversationRequired tx0
        | Some c \<Rightarrow>
            then_tx (require_conversation c) (\<lambda>_.
            then_tx mint_tx (\<lambda>i.
              let r = \<lparr>task_id = i, task_conv = c, task_kind = def_name def, task_version = def_version def, task_input = input,
                       task_owner = map_option task_id owner, task_background = opt_background opts,
                       task_abort_requested = False, task_state_of = TPending (def_initial def input),
                       task_kept = Obj (if opt_abandon opts then [(''abandonOnRestart'', Prim (PBool True))] else [])\<rparr> in
              then_tx (change_tx (put_touched i CreateTask r)) (\<lambda>_. return_tx i))) tx0)))"

text \<open>The lifecycle times, kept with the fields the storage does not look at.\<close>

definition kept_field :: "string \<Rightarrow> task_record \<Rightarrow> json option" where
  "kept_field name r = (case task_kept r of Obj fs \<Rightarrow> map_of fs name | _ \<Rightarrow> None)"

definition put_kept :: "string \<Rightarrow> json option \<Rightarrow> json \<Rightarrow> json" where
  "put_kept name v kept =
     (case (kept, v) of (Obj fs, Some w) \<Rightarrow> Obj (AList.update name w fs) | _ \<Rightarrow> kept)"

definition stamp_times :: "int \<Rightarrow> task_record \<Rightarrow> task_record option \<Rightarrow> task_record" where
  "stamp_times now r candidate =
     (let first = (\<lambda>name stamps.
            case Option.bind candidate (kept_field name) of
              Some v \<Rightarrow> Some v
            | None \<Rightarrow> (case kept_field name r of
                Some v \<Rightarrow> Some v
              | None \<Rightarrow> if stamps then Some (Prim (PNum (NInt now))) else None));
          status = status_of (task_state_of r);
          kept = put_kept ''startedAt'' (first ''startedAt'' (status = Running)) (task_kept r)
      in r\<lparr>task_kept := put_kept ''endedAt'' (first ''endedAt'' (status = Terminal)) kept\<rparr>)"

definition set_task :: "int \<Rightarrow> task_record \<Rightarrow> unit tx_op" where
  "set_task now r tx =
     (if sealed tx then (Inl TxSettled, tx)
      else
        (let tx1 = touch_task (task_id r) (tx\<lparr>has_table_write := True\<rparr>);
             candidate = candidate_task tx1 (task_id r) in
         case candidate of
           None \<Rightarrow> (Inr (), put_touched (task_id r) ReplaceTask (stamp_times now r None) tx1)
         | Some (k, c) \<Rightarrow>
             if status_of (task_state_of c) = Terminal then (Inl (TerminalCandidate (task_id r)), tx1)
             else if task_conv c \<noteq> task_conv r then (Inl (CannotMove (task_id r)), tx1)
             else (Inr (), put_touched (task_id r) k (stamp_times now r (Some c)) tx1)))"

text \<open>Submissions.\<close>

definition create_submission :: "submission_record \<Rightarrow> submission_record tx_op" where
  "create_submission given = write_tx (
     then_tx (require_conversation (sub_conv given)) (\<lambda>_.
     then_tx mint_tx (\<lambda>i.
       let r = given\<lparr>sub_id := i\<rparr> in
       then_tx (change_tx (\<lambda>tx. tx\<lparr>new_submissions := AList.update i r (new_submissions tx)\<rparr>)) (\<lambda>_. return_tx r))))"

definition change_submission :: "int \<Rightarrow> submission_change \<Rightarrow> unit tx_op" where
  "change_submission i change = write_tx (change_tx (\<lambda>tx. tx\<lparr>submission_changes := submission_changes tx @ [(i, change)]\<rparr>))"

definition settle_submission :: "int \<Rightarrow> submission_change \<Rightarrow> unit tx_op" where
  "settle_submission i settlement = change_submission i settlement"

definition place_submission :: "int \<Rightarrow> int \<Rightarrow> unit tx_op" where
  "place_submission i entry = change_submission i (PlacedAt entry)"

definition apply_submission_change :: "submission_record \<Rightarrow> submission_change \<Rightarrow> (tx_error, submission_record) result" where
  "apply_submission_change r change =
     (if sub_status r \<in> {Done, Unanswered} then Inr r
      else (case change of
          PlacedAt entry \<Rightarrow>
            if sub_status r \<noteq> Queued then Inl (NotQueued (sub_id r))
            else Inr (r\<lparr>sub_status := (if sub_type r = InputSubmission then Placed else Done), sub_entry := Some entry\<rparr>)
        | SettledDone answer \<Rightarrow>
            if sub_status r \<noteq> Placed then Inl (NotPlacedInput (sub_id r))
            else Inr (r\<lparr>sub_status := Done, sub_answer := Some answer\<rparr>)
        | SettledUnanswered reason detail \<Rightarrow>
            Inr (r\<lparr>sub_status := Unanswered, sub_reason := Some reason, sub_detail := detail\<rparr>)))"

section \<open>Assembly\<close>

definition check_owner :: "string \<times> int \<Rightarrow> unit tx_op" where
  "check_owner w =
     (let (what, t) = w in
      then_tx (current_task t) (\<lambda>found.
        case found of
          None \<Rightarrow> fail_tx (OwnerGone what t)
        | Some task \<Rightarrow>
            if status_of (task_state_of task) \<in> {Terminal, Completing}
            then fail_tx (OwnerNotLive what t (status_of (task_state_of task)))
            else if task_abort_requested task then fail_tx (OwnerAborted what t)
            else return_tx ()))"

fun each_tx :: "('a \<Rightarrow> unit tx_op) \<Rightarrow> 'a list \<Rightarrow> unit tx_op" where
  "each_tx f [] = return_tx ()"
| "each_tx f (x # xs) = then_tx (f x) (\<lambda>_. each_tx f xs)"

definition conversation_owners :: "storage_write list \<Rightarrow> (string \<times> int) list" where
  "conversation_owners ws =
     List.map_filter (\<lambda>w. case w of
       WConversation r \<Rightarrow> map_option (\<lambda>o'. (''Conversation owner task'', snd o')) (conv_owner r) | _ \<Rightarrow> None) ws"

definition task_owners :: "(int \<times> (write_kind \<times> task_record) option) list \<Rightarrow> (string \<times> int) list" where
  "task_owners ts =
     List.map_filter (\<lambda>(i, w). case w of
       Some (CreateTask, r) \<Rightarrow> map_option (\<lambda>t. (''Task owner'', t)) (task_owner r) | _ \<Rightarrow> None) ts"

definition validate_owners :: "unit tx_op" where
  "validate_owners tx = each_tx check_owner (conversation_owners (staged tx) @ task_owners (touched_tasks tx)) tx"

definition check_replaced :: "int \<times> (write_kind \<times> task_record) option \<Rightarrow> unit tx_op" where
  "check_replaced t =
     (case t of
        (i, Some (ReplaceTask, r)) \<Rightarrow>
          then_tx (committed_task i) (\<lambda>found.
            case found of
              None \<Rightarrow> fail_tx (NoTask i)
            | Some c \<Rightarrow>
                if status_of (task_state_of c) = Terminal then fail_tx (AlreadyTerminal i)
                else if task_conv c \<noteq> task_conv r then fail_tx (CannotMove i)
                else return_tx ())
      | _ \<Rightarrow> return_tx ())"

definition resolve_change :: "int \<times> submission_change \<Rightarrow> unit tx_op" where
  "resolve_change ic tx =
     (let (i, change) = ic in
      then_tx (case map_of (new_submissions tx) i of Some r \<Rightarrow> return_tx (Some r) | None \<Rightarrow> lift_tx (get_submission (tx_store tx) i))
        (\<lambda>found.
          case found of
            None \<Rightarrow> fail_tx (NoSubmission i)
          | Some current \<Rightarrow>
              (case apply_submission_change current change of
                 Inl e \<Rightarrow> fail_tx e
               | Inr r \<Rightarrow> if r = current then return_tx ()
                   else change_tx (\<lambda>tx. tx\<lparr>new_submissions := AList.update i r (new_submissions tx)\<rparr>))) tx)"

definition task_writes :: "(int \<times> (write_kind \<times> task_record) option) list \<Rightarrow> storage_write list" where
  "task_writes ts = List.map_filter (\<lambda>(i, w). map_option (\<lambda>(k, r). WTask r) w) ts"

definition copy_writes :: "fork_copy list \<Rightarrow> storage_write list" where
  "copy_writes copies = map (\<lambda>c. WDocCopy (copy_record c) (copy_source c) (copy_at c)) copies"

definition assemble :: "storage_write list tx_op" where
  "assemble =
     then_tx validate_owners (\<lambda>_.
     then_tx (\<lambda>tx. each_tx check_replaced (touched_tasks tx) tx) (\<lambda>_.
     then_tx (\<lambda>tx. each_tx resolve_change (submission_changes tx) tx) (\<lambda>_ tx.
       (Inr (staged tx @ map (\<lambda>(i, r). WSubmission r) (new_submissions tx) @ task_writes (touched_tasks tx) @
          copy_writes (fork_copies tx)), tx))))"

definition settle_success :: "storage_write list tx_op" where
  "settle_success tx = (if sealed tx then (Inl TxSettled, tx) else assemble (tx\<lparr>sealed := True\<rparr>))"

section \<open>Runs of a transaction\<close>

text \<open>
  Every transaction a callback can reach, whatever it does with the errors it gets. The root
  conversation, created once when a storage is bootstrapped, is not part of it.
\<close>

inductive tx_step :: "transaction \<Rightarrow> transaction \<Rightarrow> bool" where
  step_read: "tx_step tx (snd (tx_task_record i tx))"
| step_conversation: "tx_step tx (snd (create_conversation ownership tx))"
| step_fork: "tx_step tx (snd (fork_conversation parent at ownership tx))"
| step_entry: "tx_step tx (snd (append_entry conv d tx))"
| step_create_task: "tx_step tx (snd (create_task def input opts tx))"
| step_set_task: "tx_step tx (snd (set_task now r tx))"
| step_submission: "tx_step tx (snd (create_submission given tx))"
| step_settle: "tx_step tx (snd (settle_submission i c tx))"
| step_place: "tx_step tx (snd (place_submission i e tx))"

inductive tx_runs :: "transaction \<Rightarrow> transaction \<Rightarrow> bool" where
  runs_refl: "tx_runs tx tx"
| runs_step: "tx_runs tx tx1 \<Longrightarrow> tx_step tx1 tx2 \<Longrightarrow> tx_runs tx tx2"

inductive_cases tx_step_cases: "tx_step tx tx'"

lemma tx_invariant:
  assumes "tx_runs tx tx'" "I tx" "\<And>a b. I a \<Longrightarrow> tx_step a b \<Longrightarrow> I b"
  shows "I tx'"
  using assms by (induction rule: tx_runs.induct) auto

end
