(* ===== verification/Session_Batch.thy ===== *)
theory Session_Batch
  imports Session_Tx
begin

text \<open>
  What a transaction hands to the storage: ids that are fresh and claimed once, so the storage
  takes the batch; owners that are alive; tasks that leave the terminal state alone; submissions
  that only move forward.
\<close>

section \<open>What an operation adds\<close>

text \<open>\<open>grows\<close>: only ids were minted, tasks looked up and the write flag set.\<close>

definition grows :: "transaction \<Rightarrow> transaction \<Rightarrow> bool" where
  "grows tx tx' \<longleftrightarrow> (\<exists>k new b. next_record_id (tx_store tx) \<le> k \<and> distinct new \<and> set new \<inter> fst ` set (touched_tasks tx) = {} \<and>
     tx' = tx\<lparr>tx_store := (tx_store tx)\<lparr>next_record_id := k\<rparr>, touched_tasks := touched_tasks tx @ map (\<lambda>i. (i, None)) new,
       has_table_write := b\<rparr> \<and> (has_table_write tx \<longrightarrow> b))"

lemma growsI:
  "next_record_id (tx_store tx) \<le> k \<Longrightarrow> distinct new \<Longrightarrow> set new \<inter> fst ` set (touched_tasks tx) = {} \<Longrightarrow>
   has_table_write tx \<longrightarrow> b \<Longrightarrow> tx' = tx\<lparr>tx_store := (tx_store tx)\<lparr>next_record_id := k\<rparr>,
     touched_tasks := touched_tasks tx @ map (\<lambda>i. (i, None)) new, has_table_write := b\<rparr> \<Longrightarrow> grows tx tx'"
  unfolding grows_def by blast

lemma grows_refl [simp, intro]: "grows tx tx"
  by (rule growsI[of _ "next_record_id (tx_store tx)" "[]" "has_table_write tx"]) simp_all

lemma grows_trans: "grows tx tx1 \<Longrightarrow> grows tx1 tx2 \<Longrightarrow> grows tx tx2"
proof -
  assume "grows tx tx1" "grows tx1 tx2"
  then obtain k new b k2 new2 b2 where
    one: "next_record_id (tx_store tx) \<le> k" "distinct new" "set new \<inter> fst ` set (touched_tasks tx) = {}" "has_table_write tx \<longrightarrow> b"
      "tx1 = tx\<lparr>tx_store := (tx_store tx)\<lparr>next_record_id := k\<rparr>, touched_tasks := touched_tasks tx @ map (\<lambda>i. (i, None)) new,
        has_table_write := b\<rparr>" and
    two: "next_record_id (tx_store tx1) \<le> k2" "distinct new2" "set new2 \<inter> fst ` set (touched_tasks tx1) = {}" "has_table_write tx1 \<longrightarrow> b2"
      "tx2 = tx1\<lparr>tx_store := (tx_store tx1)\<lparr>next_record_id := k2\<rparr>, touched_tasks := touched_tasks tx1 @ map (\<lambda>i. (i, None)) new2,
        has_table_write := b2\<rparr>"
    unfolding grows_def by blast
  show ?thesis
    by (rule growsI[of _ k2 "new @ new2" b2]) (use one two in \<open>auto simp: image_Un image_image\<close>)
qed

lemma grows_touch [simp]: "grows tx (touch_task i tx)"
proof (cases "map_of (touched_tasks tx) i")
  case None
  then show ?thesis
    by (intro growsI[of _ "next_record_id (tx_store tx)" "[i]" "has_table_write tx"]) (auto simp: touch_task_def map_of_eq_None_iff)
qed (simp add: touch_task_def)

lemma grows_flag [simp]: "grows tx (tx\<lparr>has_table_write := True\<rparr>)"
  by (rule growsI[of _ "next_record_id (tx_store tx)" "[]" True]) simp_all

lemma grows_store: "next_record_id (tx_store tx) \<le> k \<Longrightarrow> grows tx (tx\<lparr>tx_store := (tx_store tx)\<lparr>next_record_id := k\<rparr>\<rparr>)"
  by (rule growsI[of _ k "[]" "has_table_write tx"]) simp_all

lemma grows_same:
  "grows tx tx' \<Longrightarrow> staged tx' = staged tx \<and> new_submissions tx' = new_submissions tx \<and>
     submission_changes tx' = submission_changes tx \<and> fork_copies tx' = fork_copies tx \<and> sealed tx' = sealed tx \<and>
     created_conversations tx' = created_conversations tx \<and> tx_task tx' = tx_task tx \<and> tx_conv tx' = tx_conv tx \<and>
     next_record_id (tx_store tx) \<le> next_record_id (tx_store tx') \<and>
     tx_store tx' = (tx_store tx)\<lparr>next_record_id := next_record_id (tx_store tx')\<rparr> \<and>
     (has_table_write tx \<longrightarrow> has_table_write tx')"
  by (auto simp: grows_def)

text \<open>An operation that only grows the transaction.\<close>

definition growing :: "'a tx_op \<Rightarrow> bool" where
  "growing m \<longleftrightarrow> (\<forall>tx. grows tx (snd (m tx)))"

lemma growing_then [intro]: "growing m \<Longrightarrow> (\<And>a. growing (f a)) \<Longrightarrow> growing (then_tx m f)"
proof -
  assume m: "growing m" and f: "\<And>a. growing (f a)"
  have "grows tx (snd (then_tx m f tx))" for tx
  proof (cases "m tx")
    case (Pair r tx1)
    with m have "grows tx tx1" unfolding growing_def by (metis snd_conv)
    with Pair f show ?thesis
      by (cases r) (auto simp: then_tx_def growing_def intro: grows_trans)
  qed
  then show ?thesis by (simp add: growing_def)
qed

lemma growing_basic [simp]: "growing (return_tx a)" "growing (fail_tx e)" "growing (lift_tx r)" "growing (check_tx b e)"
  by (auto simp: growing_def tx_ops split: sum.split)

lemma growing_mint [simp]: "growing mint_tx"
  by (auto simp: growing_def mint_tx_def grows_store split: sum.split dest!: mint_id_result)

lemma growing_committed_task [simp]: "growing (committed_task i)"
  unfolding committed_task_def by (rule growing_then) (auto simp: growing_def change_tx_def lift_tx_def split: sum.split)

lemma growing_current_task [simp]: "growing (current_task i)"
  using growing_committed_task[of i] by (auto simp: growing_def current_task_def split: option.split)

lemma growing_require [simp]: "growing (require_conversation i)"
proof -
  have "growing (then_tx (lift_tx r) (\<lambda>found. check_tx (found \<noteq> None) e))" for r :: "(storage_error, conversation_record option) result" and e
    by (rule growing_then) simp_all
  then show ?thesis by (auto simp: growing_def require_conversation_def)
qed

lemma growing_owner_of [simp]: "growing (owner_of o')"
  by (cases o') (auto simp: owner_of_def intro!: growing_then split: option.split)

lemma growing_task_owner_of [simp]: "growing (task_owner_of opts)"
  by (auto simp: task_owner_of_def intro!: growing_then split: option.split)

lemma growing_copies_for [simp]: "growing (copies_for parent i)"
proof -
  have "grows tx (snd (copies_for parent i tx))" for tx
  proof (cases parent)
    case (Some pa)
    obtain p at where pa: "pa = (p, at)" by fastforce
    from prepare_copies_state[of "tx_store tx" p at i] obtain k where k: "next_record_id (tx_store tx) \<le> k"
      "snd (prepare_fork_copies p at i (tx_store tx)) = (tx_store tx)\<lparr>next_record_id := k\<rparr>" by blast
    with Some pa grows_store[OF k(1)] show ?thesis by (auto simp: copies_for_def split: prod.split sum.split)
  qed (simp add: copies_for_def)
  then show ?thesis by (simp add: growing_def)
qed

section \<open>Ids claimed once\<close>

lemma then_cases:
  assumes "then_tx m f tx = (r, tx')"
  obtains e where "m tx = (Inl e, tx')" "r = Inl e" | a tx1 where "m tx = (Inr a, tx1)" "f a tx1 = (r, tx')"
  using assms by (cases "m tx"; cases "fst (m tx)") (auto simp: then_tx_def)

lemma growingD: "growing m \<Longrightarrow> m tx = (r, tx') \<Longrightarrow> grows tx tx'"
  unfolding growing_def by (metis snd_conv)

lemma mint_tx_result: "mint_tx tx = (Inr i, tx') \<Longrightarrow> i = next_record_id (tx_store tx) \<and>
    next_record_id (tx_store tx') = i + 1 \<and> grows tx tx'"
  using growingD[OF growing_mint, of tx "Inr i" tx'] by (auto simp: mint_tx_def split: sum.splits dest!: mint_id_result)

definition claimed_ids :: "transaction \<Rightarrow> int list" where
  "claimed_ids tx = List.map_filter (\<lambda>w. map_option fst (claim_of w)) (staged tx) @ map fst (new_submissions tx) @
     map (\<lambda>c. doc_id (copy_record c)) (fork_copies tx)"

definition created_tasks :: "transaction \<Rightarrow> int set" where
  "created_tasks tx = {i. \<exists>r. candidate_task tx i = Some (CreateTask, r)}"

definition batch_ok :: "mem_state \<Rightarrow> transaction \<Rightarrow> bool" where
  "batch_ok st tx \<longleftrightarrow>
     tx_store tx = st\<lparr>next_record_id := next_record_id (tx_store tx)\<rparr> \<and> next_record_id st \<le> next_record_id (tx_store tx) \<and>
     list_all (\<lambda>w. case w of WConversation _ \<Rightarrow> True | WEntry _ \<Rightarrow> True | _ \<Rightarrow> False) (staged tx) \<and>
     distinct (claimed_ids tx) \<and> set (claimed_ids tx) \<inter> created_tasks tx = {} \<and>
     set (claimed_ids tx) \<union> created_tasks tx \<subseteq> {next_record_id st ..< next_record_id (tx_store tx)} \<and>
     distinct (map fst (touched_tasks tx)) \<and>
     (\<forall>i k r. candidate_task tx i = Some (k, r) \<longrightarrow> task_id r = i) \<and>
     list_all (\<lambda>(i, r). sub_id r = i) (new_submissions tx)"

lemma grows_candidate: "grows tx tx' \<Longrightarrow> candidate_task tx' i = candidate_task tx i"
proof -
  assume "grows tx tx'"
  then obtain new where t: "touched_tasks tx' = touched_tasks tx @ map (\<lambda>i. (i, None)) new"
    by (auto simp: grows_def)
  have "map_of (map (\<lambda>i. (i, None)) new) i = Some v \<Longrightarrow> v = None" for v
    by (induction new) (auto split: if_splits)
  then show ?thesis by (auto simp: candidate_task_def t map_add_def split: option.splits)
qed

lemma grows_ok: "batch_ok st tx \<Longrightarrow> grows tx tx' \<Longrightarrow> batch_ok st tx'"
proof -
  assume ok: "batch_ok st tx" and g: "grows tx tx'"
  note same = grows_same[OF g] and cand = grows_candidate[OF g]
  from g obtain new m b where new: "distinct new" "set new \<inter> fst ` set (touched_tasks tx) = {}"
      "map fst (touched_tasks tx') = map fst (touched_tasks tx) @ new" "tx_store tx' = (tx_store tx)\<lparr>next_record_id := m\<rparr>"
    by (auto simp: grows_def comp_def)
  from ok obtain n where n: "tx_store tx = st\<lparr>next_record_id := n\<rparr>" unfolding batch_ok_def by blast
  have "distinct (map fst (touched_tasks tx'))"
    using new ok by (auto simp: batch_ok_def)
  moreover have "claimed_ids tx' = claimed_ids tx" "created_tasks tx' = created_tasks tx"
    using same by (simp_all add: claimed_ids_def created_tasks_def cand)
  moreover have "tx_store tx' = st\<lparr>next_record_id := next_record_id (tx_store tx')\<rparr>"
    by (simp add: new(4) n)
  moreover have "next_record_id st \<le> next_record_id (tx_store tx')"
    using ok same by (auto simp: batch_ok_def)
  ultimately show ?thesis using ok same by (auto simp: batch_ok_def cand subset_iff)
qed

text \<open>Operations keep the batch: they only grow it, and what they push has a fresh id.\<close>

definition fresh_id :: "mem_state \<Rightarrow> transaction \<Rightarrow> int \<Rightarrow> bool" where
  "fresh_id st tx i \<longleftrightarrow> i \<notin> set (claimed_ids tx) \<and> i \<notin> created_tasks tx \<and>
     next_record_id st \<le> i \<and> i < next_record_id (tx_store tx)"

lemma grows_fresh: "fresh_id st tx i \<Longrightarrow> grows tx tx' \<Longrightarrow> fresh_id st tx' i"
  using grows_same[of tx tx'] grows_candidate[of tx tx'] by (auto simp: fresh_id_def claimed_ids_def created_tasks_def)

lemma write_ok:
  assumes "batch_ok st tx" "\<And>tx. batch_ok st tx \<Longrightarrow> batch_ok st (snd (m tx))"
  shows "batch_ok st (snd (write_tx m tx))"
  using assms grows_ok[OF assms(1) grows_flag] by (simp add: write_tx_def)

lemma then_ok:
  assumes "growing m" "batch_ok st tx" "\<And>a tx1. grows tx tx1 \<Longrightarrow> batch_ok st tx1 \<Longrightarrow> m tx = (Inr a, tx1) \<Longrightarrow> batch_ok st (snd (f a tx1))"
  shows "batch_ok st (snd (then_tx m f tx))"
proof -
  obtain r tx1 where r: "m tx = (r, tx1)" by fastforce
  with assms(1) have g: "grows tx tx1" by (rule growingD)
  with assms(2) have ok: "batch_ok st tx1" by (blast intro: grows_ok)
  show ?thesis
  proof (cases r)
    case (Inl e)
    with r ok show ?thesis by (simp add: then_tx_def)
  next
    case (Inr a)
    with r g ok assms(3)[OF g ok] show ?thesis by (simp add: then_tx_def)
  qed
qed

lemma mint_then_ok:
  assumes "batch_ok st tx" "\<And>i tx1. grows tx tx1 \<Longrightarrow> batch_ok st tx1 \<Longrightarrow> fresh_id st tx1 i \<Longrightarrow> next_record_id (tx_store tx1) = i + 1 \<Longrightarrow> batch_ok st (snd (f i tx1))"
  shows "batch_ok st (snd (then_tx mint_tx f tx))"
proof (rule then_ok[OF growing_mint assms(1)])
  fix i tx1
  assume g: "grows tx tx1" "batch_ok st tx1" and "mint_tx tx = (Inr i, tx1)"
  then have m: "i = next_record_id (tx_store tx)" "next_record_id (tx_store tx1) = i + 1" by (auto dest: mint_tx_result)
  have "claimed_ids tx1 = claimed_ids tx" "created_tasks tx1 = created_tasks tx"
    using grows_same[OF g(1)] grows_candidate[OF g(1)] by (simp_all add: claimed_ids_def created_tasks_def)
  with m assms(1) have "fresh_id st tx1 i" by (auto simp: fresh_id_def batch_ok_def)
  with g m assms(2) show "batch_ok st (snd (f i tx1))" by blast
qed

lemma push_staged:
  assumes "batch_ok st tx" "fresh_id st tx i" "claim_of w = Some (i, t)" "(\<exists>r. w = WConversation r) \<or> (\<exists>r. w = WEntry r)"
  shows "batch_ok st (tx\<lparr>staged := staged tx @ [w]\<rparr>)"
proof -
  have "claimed_ids (tx\<lparr>staged := staged tx @ [w]\<rparr>) =
      List.map_filter (\<lambda>w. map_option fst (claim_of w)) (staged tx) @ i # map fst (new_submissions tx) @ map (\<lambda>c. doc_id (copy_record c)) (fork_copies tx)"
    using assms(3) by (simp add: claimed_ids_def map_filter_def)
  moreover have "created_tasks (tx\<lparr>staged := staged tx @ [w]\<rparr>) = created_tasks tx"
    by (simp add: created_tasks_def candidate_task_def)
  ultimately show ?thesis
    using assms by (auto simp: batch_ok_def fresh_id_def claimed_ids_def candidate_task_def)
qed

lemma append_entry_ok: "batch_ok st tx \<Longrightarrow> batch_ok st (snd (append_entry conv d tx))"
  unfolding append_entry_def
  by (erule write_ok, rule then_ok[OF growing_require], assumption, rule mint_then_ok, assumption)
    (auto simp: Let_def drafted_entry_def intro!: push_staged)

lemma update_new: "i \<notin> fst ` set xs \<Longrightarrow> AList.update i r xs = xs @ [(i, r)]"
  by (induction xs) auto

lemma push_submission:
  assumes "batch_ok st tx" "fresh_id st tx i" "sub_id r = i"
  shows "batch_ok st (tx\<lparr>new_submissions := AList.update i r (new_submissions tx)\<rparr>)"
proof -
  have "i \<notin> fst ` set (new_submissions tx)" using assms(2) by (auto simp: fresh_id_def claimed_ids_def)
  then have upd: "AList.update i r (new_submissions tx) = new_submissions tx @ [(i, r)]"
    by (rule update_new)
  have "created_tasks (tx\<lparr>new_submissions := ss\<rparr>) = created_tasks tx" for ss
    by (simp add: created_tasks_def candidate_task_def)
  with assms show ?thesis
    by (auto simp: upd batch_ok_def fresh_id_def claimed_ids_def candidate_task_def)
qed

lemma create_submission_ok: "batch_ok st tx \<Longrightarrow> batch_ok st (snd (create_submission given tx))"
  unfolding create_submission_def
  by (erule write_ok, rule then_ok[OF growing_require], assumption, rule mint_then_ok, assumption)
    (auto simp: Let_def then_tx_def change_tx_def return_tx_def intro!: push_submission)

lemma candidate_put:
  "candidate_task (put_touched i k r tx) j = (if j = i then Some (k, r) else candidate_task tx j)"
  by (simp add: candidate_task_def put_touched_def update_conv)

lemma push_task:
  assumes "batch_ok st tx" "fresh_id st tx i \<and> k = CreateTask \<or> (\<exists>r. candidate_task tx i = Some (k, r)) \<or>
    candidate_task tx i = None \<and> k = ReplaceTask" "task_id r = i"
  shows "batch_ok st (put_touched i k r tx)"
proof -
  have "created_tasks (put_touched i k r tx) = (if k = CreateTask then insert i (created_tasks tx) else created_tasks tx)"
    using assms(2) by (auto simp: created_tasks_def candidate_put split: if_splits)
  moreover have "claimed_ids (put_touched i k r tx) = claimed_ids tx" by (simp add: claimed_ids_def put_touched_def)
  moreover have "k = CreateTask \<Longrightarrow> fresh_id st tx i \<or> i \<in> created_tasks tx"
    using assms(2) by (auto simp: created_tasks_def)
  ultimately show ?thesis
    using assms(1,3) by (auto simp: batch_ok_def fresh_id_def candidate_put distinct_update) (auto simp: put_touched_def distinct_update)
qed

lemma create_task_ok: "batch_ok st tx \<Longrightarrow> batch_ok st (snd (create_task def input opts tx))"
  unfolding create_task_def
proof (erule write_ok, rule then_ok[OF growing_task_owner_of], assumption)
  fix tx owner tx1
  assume ok: "batch_ok st tx1"
  show "batch_ok st (snd (let conv = (case owner of Some o' \<Rightarrow> Some (task_conv o')
           | None \<Rightarrow> (case opt_conversation opts of Some c \<Rightarrow> Some c | None \<Rightarrow> tx_conv tx1)) in
       (case conv of
          None \<Rightarrow> fail_tx ConversationRequired tx1
        | Some c \<Rightarrow>
            then_tx (require_conversation c) (\<lambda>_.
            then_tx mint_tx (\<lambda>i.
              let r = \<lparr>task_id = i, task_conv = c, task_kind = def_name def, task_version = def_version def, task_input = input,
                       task_owner = map_option task_id owner, task_background = opt_background opts,
                       task_abort_requested = False, task_state_of = TPending (def_initial def input),
                       task_kept = Obj (if opt_abandon opts then [(''abandonOnRestart'', Prim (PBool True))] else [])\<rparr> in
              then_tx (change_tx (put_touched i CreateTask r)) (\<lambda>_. return_tx i))) tx1)))"
  proof (cases "(case owner of Some o' \<Rightarrow> Some (task_conv o')
           | None \<Rightarrow> (case opt_conversation opts of Some c \<Rightarrow> Some c | None \<Rightarrow> tx_conv tx1))")
    case None
    with ok show ?thesis by (simp add: fail_tx_def)
  next
    case (Some c)
    show ?thesis
      unfolding Some Let_def option.case
      by (rule then_ok[OF growing_require ok], rule mint_then_ok, assumption)
        (auto simp: then_tx_def change_tx_def return_tx_def intro!: push_task)
  qed
qed

lemma set_task_ok: "batch_ok st tx \<Longrightarrow> batch_ok st (snd (set_task now r tx))"
proof (cases "sealed tx")
  case False
  assume ok: "batch_ok st tx"
  define tx1 where "tx1 = touch_task (task_id r) (tx\<lparr>has_table_write := True\<rparr>)"
  have ok1: "batch_ok st tx1"
    unfolding tx1_def by (rule grows_ok[OF grows_ok[OF ok grows_flag] grows_touch])
  have id: "task_id (stamp_times now r c) = task_id r" for c by (simp add: stamp_times_def Let_def)
  show ?thesis
  proof (cases "candidate_task tx1 (task_id r)")
    case None
    with ok1 False show ?thesis by (auto simp: set_task_def Let_def id simp flip: tx1_def intro!: push_task)
  next
    case (Some kc)
    then show ?thesis using ok1 False
      by (cases kc) (auto simp: set_task_def Let_def id simp flip: tx1_def intro!: push_task)
  qed
qed (simp add: set_task_def)

lemma stage_conversation_ok: "batch_ok st tx \<Longrightarrow> batch_ok st (snd (stage_conversation parent ownership None tx))"
  unfolding stage_conversation_def option.case
proof (rule mint_then_ok, assumption)
  fix tx0 i tx1
  assume ok: "batch_ok st tx1" and fresh: "fresh_id st tx1 i" and top: "next_record_id (tx_store tx1) = i + 1"
  show "batch_ok st (snd (then_tx (owner_of ownership) (\<lambda>owner. then_tx (copies_for parent i) (\<lambda>copies.
       let r = \<lparr>conv_id = i, conv_parent = parent, conv_owner = owner\<rparr> in
     then_tx (change_tx (\<lambda>tx. tx\<lparr>fork_copies := fork_copies tx @ copies,
         created_conversations := created_conversations tx @ [i], staged := staged tx @ [WConversation r]\<rparr>)) (\<lambda>_.
     return_tx r))) tx1))"
  proof (rule then_ok[OF growing_owner_of ok], rule then_ok[OF growing_copies_for], assumption)
    fix owner tx2 copies tx3
    assume g: "grows tx1 tx2" "grows tx2 tx3" and ok: "batch_ok st tx2" "batch_ok st tx3"
      and copies: "copies_for parent i tx2 = (Inr copies, tx3)"
    have fresh3: "fresh_id st tx3 i" by (rule grows_fresh[OF grows_fresh[OF fresh g(1)] g(2)])
    have sorted: "ids_fresh (next_record_id (tx_store tx2)) (next_record_id (tx_store tx3)) copies"
      using copies by (auto simp: copies_for_def ids_fresh_def dest: prepare_copies_fresh split: option.splits prod.splits sum.splits)
    have "i < next_record_id (tx_store tx2)" using top grows_same[OF g(1)] by simp
    with sorted have "i \<notin> set (map (\<lambda>c. doc_id (copy_record c)) copies)"
      by (auto simp: ids_fresh_def list_all_iff)
    have claimed: "claimed_ids tx3 = claimed_ids tx2" "created_tasks tx3 = created_tasks tx2"
      using grows_same[OF g(2)] grows_candidate[OF g(2)] by (simp_all add: claimed_ids_def created_tasks_def)
    have range: "set (map (\<lambda>c. doc_id (copy_record c)) copies) \<subseteq> {next_record_id (tx_store tx2) ..< next_record_id (tx_store tx3)}"
      "distinct (map (\<lambda>c. doc_id (copy_record c)) copies)"
      using sorted by (auto simp: ids_fresh_def list_all_iff strict_sorted_iff)
    define tx4 where "tx4 = tx3\<lparr>fork_copies := fork_copies tx3 @ copies, created_conversations := created_conversations tx3 @ [i]\<rparr>"
    have claimed4: "claimed_ids tx4 = claimed_ids tx3 @ map (\<lambda>c. doc_id (copy_record c)) copies"
      by (simp add: claimed_ids_def tx4_def)
    have created4: "created_tasks tx4 = created_tasks tx3" "candidate_task tx4 = candidate_task tx3"
      by (auto simp: created_tasks_def candidate_task_def tx4_def)
    have below: "set (claimed_ids tx3) \<union> created_tasks tx3 \<subseteq> {next_record_id st ..< next_record_id (tx_store tx2)}"
      using ok(1) claimed by (simp add: batch_ok_def)
    with range have apart: "set (map (\<lambda>c. doc_id (copy_record c)) copies) \<inter> (set (claimed_ids tx3) \<union> created_tasks tx3) = {}"
      by (force simp: subset_iff)
    have "next_record_id st \<le> next_record_id (tx_store tx2)" using ok(1) by (simp add: batch_ok_def)
    with ok(2) range apart have ok4: "batch_ok st tx4"
      unfolding batch_ok_def claimed4 created4 by (auto simp: tx4_def)
    have "fresh_id st tx4 i"
      using fresh3 \<open>i \<notin> set (map _ copies)\<close> by (simp add: fresh_id_def claimed4 created4) (simp add: tx4_def)
    with ok4 have "batch_ok st (tx4\<lparr>staged := staged tx4 @ [WConversation \<lparr>conv_id = i, conv_parent = parent, conv_owner = owner\<rparr>]\<rparr>)"
      by (intro push_staged) auto
    then show "batch_ok st (snd ((let r = \<lparr>conv_id = i, conv_parent = parent, conv_owner = owner\<rparr> in
     then_tx (change_tx (\<lambda>tx. tx\<lparr>fork_copies := fork_copies tx @ copies,
         created_conversations := created_conversations tx @ [i], staged := staged tx @ [WConversation r]\<rparr>)) (\<lambda>_.
     return_tx r)) tx3))"
      by (simp add: Let_def then_tx_def change_tx_def return_tx_def tx4_def)
  qed
qed

lemma change_submission_ok: "batch_ok st tx \<Longrightarrow> batch_ok st (snd (change_submission i c tx))"
  unfolding change_submission_def
  by (erule write_ok) (simp add: change_tx_def batch_ok_def claimed_ids_def created_tasks_def candidate_task_def)

lemma batch_ok_step: "tx_step tx tx' \<Longrightarrow> batch_ok st tx \<Longrightarrow> batch_ok st tx'"
proof (erule tx_step_cases)
  fix i assume ok: "batch_ok st tx" and tx': "tx' = snd (tx_task_record i tx)"
  have "grows tx (snd (committed_task i tx))" using growing_committed_task[of i] by (simp add: growing_def)
  then have "grows tx tx'" by (auto simp: tx' tx_task_record_def read_tx_def lift_tx_def)
  with ok show ?thesis by (rule grows_ok)
qed (simp_all add: create_conversation_def fork_conversation_def append_entry_ok create_task_ok set_task_ok create_submission_ok
    settle_submission_def place_submission_def change_submission_ok write_ok stage_conversation_ok)

lemma batch_ok_new: "batch_ok st (new_transaction st conv task)"
  by (simp add: new_transaction_def batch_ok_def claimed_ids_def created_tasks_def candidate_task_def map_filter_def)

lemma batch_ok_runs: "tx_runs (new_transaction st conv task) tx \<Longrightarrow> batch_ok st tx"
  by (rule tx_invariant[of _ _ "batch_ok st"]) (auto simp: batch_ok_new batch_ok_step)

section \<open>Assembly\<close>

lemma growing_each: "(\<And>x. growing (f x)) \<Longrightarrow> growing (each_tx f xs)"
  by (induction xs) (auto intro: growing_then)

lemma each_tx_success:
  assumes "\<And>x. growing (f x)" "each_tx f xs tx = (Inr (), tx')" "x \<in> set xs"
  shows "\<exists>tx0 tx1. grows tx tx0 \<and> f x tx0 = (Inr (), tx1)"
  using assms(2,3)
proof (induction xs arbitrary: tx)
  case (Cons y ys)
  from Cons.prems(1) obtain tx1 where y: "f y tx = (Inr (), tx1)" "each_tx f ys tx1 = (Inr (), tx')"
    by (auto elim: then_cases)
  show ?case
  proof (cases "x = y")
    case True
    with y show ?thesis by blast
  next
    case False
    with Cons.IH[OF y(2)] Cons.prems(2) obtain tx0 tx2 where "grows tx1 tx0" "f x tx0 = (Inr (), tx2)" by auto
    moreover have "grows tx tx1" using growingD[OF assms(1) y(1)] .
    ultimately show ?thesis by (blast intro: grows_trans)
  qed
qed simp

lemma growing_check_owner: "growing (check_owner w)"
  by (cases w) (auto simp: check_owner_def intro!: growing_then split: option.split)

lemma growing_check_replaced: "growing (check_replaced t)"
  by (auto simp: check_replaced_def intro!: growing_then split: option.split prod.split write_kind.split)

text \<open>The record a task has once the batch is committed.\<close>

definition final_task :: "mem_state \<Rightarrow> transaction \<Rightarrow> int \<Rightarrow> task_record option" where
  "final_task st tx i = (case candidate_task tx i of Some (k, r) \<Rightarrow> Some r | None \<Rightarrow> tasks st i)"

definition live_owner :: "task_record \<Rightarrow> bool" where
  "live_owner r \<longleftrightarrow> status_of (task_state_of r) \<notin> {Terminal, Completing} \<and> \<not> task_abort_requested r"

definition on_store :: "mem_state \<Rightarrow> transaction \<Rightarrow> bool" where
  "on_store st tx \<longleftrightarrow> tx_store tx = st\<lparr>next_record_id := next_record_id (tx_store tx)\<rparr>"

lemma on_store_grows: "on_store st tx \<Longrightarrow> grows tx tx' \<Longrightarrow> on_store st tx'"
proof -
  assume "on_store st tx" "grows tx tx'"
  then obtain n m where "tx_store tx = st\<lparr>next_record_id := n\<rparr>" "tx_store tx' = (tx_store tx)\<lparr>next_record_id := m\<rparr>"
    by (auto simp: on_store_def grows_def)
  then show ?thesis by (simp add: on_store_def)
qed

lemma committed_task_result:
  assumes "committed_task i tx = (Inr found, tx')" "on_store st tx"
  shows "found = tasks st i"
proof -
  have "tasks (tx_store tx) = tasks st" using assms(2) unfolding on_store_def by (metis mem_state.select_convs(10) mem_state.surjective mem_state.update_convs(20))
  with assms(1) show ?thesis
    by (auto simp: committed_task_def then_tx_def change_tx_def lift_tx_def get_task_def assert_open_def touch_task_def
        split: sum.splits if_splits elim!: bind_res.elims)
qed

lemma current_task_result:
  assumes "current_task i tx = (Inr found, tx')" "on_store st tx"
  shows "found = final_task st tx i"
  using assms committed_task_result[OF _ assms(2), of i found tx']
  by (auto simp: current_task_def final_task_def split: option.splits)

lemma check_owner_result:
  assumes "check_owner (what, t) tx = (Inr (), tx')" "on_store st tx"
  shows "\<exists>r. final_task st tx t = Some r \<and> live_owner r"
proof -
  from assms(1) obtain found tx1 where f: "current_task t tx = (Inr found, tx1)"
    "(case found of None \<Rightarrow> fail_tx (OwnerGone what t)
        | Some task \<Rightarrow>
            if status_of (task_state_of task) \<in> {Terminal, Completing}
            then fail_tx (OwnerNotLive what t (status_of (task_state_of task)))
            else if task_abort_requested task then fail_tx (OwnerAborted what t)
            else return_tx ()) tx1 = (Inr (), tx')"
    unfolding check_owner_def prod.case Let_def by (rule then_cases) auto
  then show ?thesis using current_task_result[OF f(1) assms(2)]
    by (auto simp: live_owner_def fail_tx_def split: option.splits if_splits)
qed

lemma check_replaced_result:
  assumes "check_replaced (i, Some (ReplaceTask, r)) tx = (Inr (), tx')" "on_store st tx"
  shows "\<exists>c. tasks st i = Some c \<and> status_of (task_state_of c) \<noteq> Terminal \<and> task_conv c = task_conv r"
proof -
  from assms(1) obtain found tx1 where f: "committed_task i tx = (Inr found, tx1)"
    "(case found of None \<Rightarrow> fail_tx (NoTask i)
            | Some c \<Rightarrow>
                if status_of (task_state_of c) = Terminal then fail_tx (AlreadyTerminal i)
                else if task_conv c \<noteq> task_conv r then fail_tx (CannotMove i)
                else return_tx ()) tx1 = (Inr (), tx')"
    unfolding check_replaced_def prod.case option.case write_kind.case by (rule then_cases) auto
  then show ?thesis using committed_task_result[OF f(1) assms(2)]
    by (auto simp: fail_tx_def split: option.splits if_splits)
qed

text \<open>Submissions: how a record may change.\<close>

definition forward :: "submission_record \<Rightarrow> submission_record \<Rightarrow> bool" where
  "forward old new \<longleftrightarrow> sub_id new = sub_id old \<and> sub_conv new = sub_conv old \<and> sub_type new = sub_type old \<and>
     sub_request new = sub_request old \<and>
     (sub_status old \<in> {Done, Unanswered} \<longrightarrow> new = old) \<and>
     (sub_status old = Placed \<longrightarrow> sub_status new \<in> {Placed, Done, Unanswered} \<and> sub_entry new = sub_entry old)"

lemma forward_refl: "forward r r"
  by (cases "sub_status r") (auto simp: forward_def)

lemma forward_trans: "forward a b \<Longrightarrow> forward b c \<Longrightarrow> forward a c"
  by (cases "sub_status a"; cases "sub_status b") (auto simp: forward_def)

lemma forward_change: "apply_submission_change r c = Inr r' \<Longrightarrow> forward r r'"
  by (cases c; cases "sub_status r") (auto simp: apply_submission_change_def forward_def split: if_splits)

end
