(* ===== verification/Session_Copies.thy ===== *)
theory Session_Copies
  imports Session_Batch
begin

text \<open>
  The document copies a transaction's forks select: where each comes from, and that the storage takes
  them together with the rest of the batch.
\<close>

section \<open>Where the copies come from\<close>

text \<open>
  A copy of a stored conversation document, alive where it is read, under a new id and in another
  conversation; only a document forked as of the entry is read in the past.
\<close>

definition copied_from :: "mem_state \<Rightarrow> int \<Rightarrow> fork_copy \<Rightarrow> bool" where
  "copied_from st child c \<longleftrightarrow>
     (\<exists>s k. doc_table st (copy_source c) = Some s \<and> doc_scope_of s = ConversationScope k \<and>
        is_alive_at s (copy_at c) \<and> (copy_at c = Current \<or> doc_fork_of s = Some ForkAsOf) \<and>
        copy_record c = copied_record (doc_id (copy_record c)) child s)"

lemma copied_from_mint [simp]: "copied_from (st\<lparr>next_record_id := k\<rparr>) = copied_from st"
  by (intro ext) (simp add: copied_from_def doc_table_def)

lemma copy_sources_from:
  "copy_sources at policy child ss copies st = (Inr copies', st') \<Longrightarrow> c \<in> set copies' \<Longrightarrow>
     c \<in> set copies \<or> (\<exists>s \<in> set ss. selected_by policy s \<and> copies_of at child s c)"
proof (induction ss arbitrary: copies st)
  case (Cons s ss)
  show ?case
  proof (cases "selected_by policy s")
    case True
    with Cons.prems(1) obtain i st1 where m: "mint_id st = Inr (i, st1)" by (auto split: sum.splits prod.splits)
    let ?c = "\<lparr>copy_record = copied_record i child s, copy_source = doc_id s, copy_at = at\<rparr>"
    from Cons.prems(1) True m have "copy_sources at policy child ss (copies @ [?c]) st1 = (Inr copies', st')"
      by (auto simp: Let_def split: if_splits)
    from Cons.IH[OF this Cons.prems(2)] True show ?thesis by (auto simp: copies_of_def)
  qed (use Cons in auto)
qed simp

lemma selected_from:
  assumes "storage_ok st" "s \<in> ran (doc_table st)" "selected_by policy s" "copies_of at child s c"
    and "is_alive_at s at" "at = Current \<or> policy = ForkAsOf"
  shows "copied_from st child c"
proof -
  obtain i where i: "doc_table st i = Some s" using assms(2) by (auto simp: ran_def)
  moreover have "id_matches (documents st) (\<lambda>d. doc_id (stored_record d))"
    using assms(1) by (simp add: storage_ok_def docs_indexed_def)
  ultimately have "doc_id s = i" by (auto simp: doc_table_def id_matches_def)
  with i assms(3-6) show ?thesis
    by (auto simp: copied_from_def copies_of_def selected_by_def split: doc_scope.splits)
qed

lemma collect_copies_from:
  assumes ok: "storage_ok st" "\<not> closed st"
    and "collect_copies (copies_fuel st scope) scope at policy child None copies (st\<lparr>next_record_id := k\<rparr>) = (Inr copies', st')"
    and "\<forall>c \<in> set copies. copied_from st child c" "at = Current \<or> policy = ForkAsOf"
  shows "\<forall>c \<in> set copies'. copied_from st child c"
proof
  fix c assume c: "c \<in> set copies'"
  obtain items where
    all: "\<And>k. collect_copies (copies_fuel st scope) scope at policy child None copies (st\<lparr>next_record_id := k\<rparr>) =
      copy_sources at policy child items copies (st\<lparr>next_record_id := k\<rparr>)"
    and items: "lists_table Ascending doc_id (doc_table st) (\<lambda>r. doc_scope_of r = scope \<and> is_alive_at r at) items"
    using collect_copies_complete[OF ok] by blast
  from assms(3) all have "copy_sources at policy child items copies (st\<lparr>next_record_id := k\<rparr>) = (Inr copies', st')" by simp
  from copy_sources_from[OF this c] assms(4) show "copied_from st child c"
  proof (elim disjE bexE conjE)
    fix s assume "s \<in> set items" "selected_by policy s" "copies_of at child s c"
    with items assms(5) selected_from[OF ok(1)] show ?thesis by (auto simp: lists_table_def)
  qed blast
qed

lemma copies_fuel_mint [simp]: "copies_fuel (st\<lparr>next_record_id := k\<rparr>) = copies_fuel st"
  by (rule ext) (simp add: copies_fuel_def)

lemma prepare_copies_from:
  assumes ok: "storage_ok st" "\<not> closed st"
    and "prepare_fork_copies p at child (st\<lparr>next_record_id := k\<rparr>) = (Inr copies, st')"
  shows "\<forall>c \<in> set copies. copied_from st child c"
proof -
  from assms(3) obtain scope d copies1 st1 where
    one: "collect_copies (copies_fuel st scope) scope d ForkAsOf child None [] (st\<lparr>next_record_id := k\<rparr>) = (Inr copies1, st1)"
    and two: "collect_copies (copies_fuel st1 (ConversationScope p)) (ConversationScope p) Current ForkCurrent child None copies1 st1 = (Inr copies, st')"
    by (auto simp: prepare_fork_copies_def Let_def split: sum.splits prod.splits option.splits)
  obtain j where j: "st1 = st\<lparr>next_record_id := j\<rparr>"
    using collect_copies_state[of "st\<lparr>next_record_id := k\<rparr>" "copies_fuel st scope" scope d ForkAsOf child None "[]"] one by auto
  from collect_copies_from[OF ok one] have "\<forall>c \<in> set copies1. copied_from st child c" by simp
  from collect_copies_from[OF ok two[unfolded j copies_fuel_mint] this] show ?thesis by simp
qed

section \<open>The copies of a transaction\<close>

text \<open>
  Each copy lives in a conversation the transaction creates, and no two copies share an address, also
  when the transaction forks more than once.
\<close>

definition staged_children :: "transaction \<Rightarrow> int set" where
  "staged_children tx = {conv_id r | r. WConversation r \<in> set (staged tx)}"

definition copies_ok :: "mem_state \<Rightarrow> transaction \<Rightarrow> bool" where
  "copies_ok st tx \<longleftrightarrow> (\<forall>c \<in> set (fork_copies tx). \<exists>child \<in> staged_children tx. copied_from st child c) \<and>
     distinct (copied_addresses (fork_copies tx))"

text \<open>An operation that copies nothing and keeps what is staged.\<close>

definition uncopying :: "'a tx_op \<Rightarrow> bool" where
  "uncopying m \<longleftrightarrow> (\<forall>tx. fork_copies (snd (m tx)) = fork_copies tx \<and> set (staged tx) \<subseteq> set (staged (snd (m tx))))"

lemma uncopyingD: "uncopying m \<Longrightarrow> fork_copies (snd (m tx)) = fork_copies tx \<and> set (staged tx) \<subseteq> set (staged (snd (m tx)))"
  by (simp add: uncopying_def)

lemma copies_kept: "fork_copies tx' = fork_copies tx \<Longrightarrow> set (staged tx) \<subseteq> set (staged tx') \<Longrightarrow> copies_ok st tx \<Longrightarrow> copies_ok st tx'"
  unfolding copies_ok_def staged_children_def by fastforce

lemma uncopying_copies: "uncopying m \<Longrightarrow> copies_ok st tx \<Longrightarrow> copies_ok st (snd (m tx))"
  using uncopyingD[of m tx] copies_kept[of "snd (m tx)" tx st] by blast

lemma grows_copies: "copies_ok st tx \<Longrightarrow> grows tx tx' \<Longrightarrow> copies_ok st tx'"
  using grows_same[of tx tx'] copies_kept[of tx' tx st] by simp

lemma uncopying_growing: "growing m \<Longrightarrow> uncopying m"
  using grows_same[of tx "snd (m tx)" for tx] unfolding uncopying_def growing_def by (metis order_refl)

lemma uncopying_then: "uncopying m \<Longrightarrow> (\<And>a. uncopying (f a)) \<Longrightarrow> uncopying (then_tx m f)"
proof -
  assume m: "uncopying m" and f: "\<And>a. uncopying (f a)"
  have "fork_copies (snd (then_tx m f tx)) = fork_copies tx \<and> set (staged tx) \<subseteq> set (staged (snd (then_tx m f tx)))" for tx
  proof (cases "m tx")
    case (Pair r tx1)
    with uncopyingD[OF m, of tx] have one: "fork_copies tx1 = fork_copies tx" "set (staged tx) \<subseteq> set (staged tx1)" by simp_all
    show ?thesis
    proof (cases r)
      case (Inr a)
      with Pair one uncopyingD[OF f, of a tx1] show ?thesis by (auto simp: then_tx_def)
    qed (use Pair one in \<open>simp add: then_tx_def\<close>)
  qed
  then show ?thesis by (simp add: uncopying_def)
qed

lemma uncopying_write: "uncopying m \<Longrightarrow> uncopying (write_tx m)"
  using uncopyingD[of m "tx\<lparr>has_table_write := True\<rparr>" for tx] by (simp add: uncopying_def write_tx_def)

lemma uncopying_step:
  "(\<And>tx. fork_copies (f tx) = fork_copies tx \<and> set (staged tx) \<subseteq> set (staged (f tx))) \<Longrightarrow> uncopying (\<lambda>tx. (g tx, f tx))"
  "(\<And>tx. fork_copies (f tx) = fork_copies tx \<and> set (staged tx) \<subseteq> set (staged (f tx))) \<Longrightarrow> uncopying (change_tx f)"
  by (simp_all add: uncopying_def change_tx_def)

lemma uncopying_basic [simp]: "uncopying (return_tx a)" "uncopying (fail_tx e)" "uncopying mint_tx" "uncopying (require_conversation i)"
  "uncopying (task_owner_of opts)"
  by (rule uncopying_growing, simp)+

lemma uncopying_case:
  "uncopying g \<Longrightarrow> (\<And>c. uncopying (f c)) \<Longrightarrow> uncopying (\<lambda>tx. case h tx of None \<Rightarrow> g tx | Some c \<Rightarrow> f c tx)"
  by (auto simp: uncopying_def split: option.split)

lemma put_touched_kept [simp]: "fork_copies (put_touched i k r tx) = fork_copies tx" "staged (put_touched i k r tx) = staged tx"
  by (simp_all add: put_touched_def)

lemma uncopying_append: "uncopying (append_entry conv d)"
  unfolding append_entry_def Let_def by (intro uncopying_write uncopying_then uncopying_step) auto

lemma uncopying_create_task: "uncopying (create_task def input opts)"
  unfolding create_task_def Let_def
  by (rule uncopying_write, rule uncopying_then, simp, rule uncopying_case, simp, intro uncopying_then uncopying_step) simp_all

lemma uncopying_submission: "uncopying (create_submission given)"
  unfolding create_submission_def Let_def by (intro uncopying_write uncopying_then uncopying_step) simp_all

lemma uncopying_change: "uncopying (settle_submission i c)" "uncopying (place_submission i e)"
  unfolding settle_submission_def place_submission_def change_submission_def by (intro uncopying_write uncopying_step; simp)+

lemma uncopying_set_task: "uncopying (set_task now r)"
proof -
  have "fork_copies (touch_task i a) = fork_copies a" "staged (touch_task i a) = staged a" for i a
    by (simp_all add: touch_task_def)
  then show ?thesis by (auto simp: uncopying_def set_task_def Let_def split: option.split prod.split)
qed

lemma uncopying_read: "uncopying (tx_task_record i)"
proof -
  have "grows tx (snd (tx_task_record i tx))" for tx
    using growing_committed_task[of i] by (auto simp: growing_def tx_task_record_def read_tx_def lift_tx_def)
  then have "growing (tx_task_record i)" by (simp add: growing_def)
  then show ?thesis by (rule uncopying_growing)
qed

lemma then_copies:
  assumes "growing m" "copies_ok st tx"
    "\<And>a tx1. grows tx tx1 \<Longrightarrow> copies_ok st tx1 \<Longrightarrow> m tx = (Inr a, tx1) \<Longrightarrow> copies_ok st (snd (f a tx1))"
  shows "copies_ok st (snd (then_tx m f tx))"
proof -
  obtain r tx1 where r: "m tx = (r, tx1)" by fastforce
  have g: "grows tx tx1" by (rule growingD[OF assms(1) r])
  note ok = grows_copies[OF assms(2) g]
  show ?thesis
  proof (cases r)
    case (Inr a)
    with r assms(3)[OF g ok] show ?thesis by (simp add: then_tx_def)
  qed (use r ok in \<open>simp add: then_tx_def\<close>)
qed

lemma children_claimed: "staged_children tx \<subseteq> set (claimed_ids tx)"
proof
  fix i assume "i \<in> staged_children tx"
  then obtain r where "WConversation r \<in> set (staged tx)" "i = conv_id r" by (auto simp: staged_children_def)
  then show "i \<in> set (claimed_ids tx)" by (force simp: claimed_ids_def map_filter_def)
qed

lemma copied_from_scope: "copied_from st child c \<Longrightarrow> addr_scope (record_address (copy_record c)) = ConversationScope child"
proof -
  assume "copied_from st child c"
  then obtain s where "copy_record c = copied_record (doc_id (copy_record c)) child s" by (auto simp: copied_from_def)
  then have "doc_scope_of (copy_record c) = ConversationScope child" by (metis copied_record_scope)
  then show ?thesis by (simp add: record_address_def)
qed

lemma push_copies:
  assumes ok: "copies_ok st tx" and new: "i \<notin> staged_children tx" "\<forall>c \<in> set copies. copied_from st i c" "copies_new i copies"
  shows "copies_ok st (tx\<lparr>fork_copies := fork_copies tx @ copies, created_conversations := cs,
    staged := staged tx @ [WConversation \<lparr>conv_id = i, conv_parent = parent, conv_owner = owner\<rparr>]\<rparr>)"
    (is "copies_ok st ?tx")
proof -
  have children: "staged_children ?tx = insert i (staged_children tx)"
    by (auto simp: staged_children_def intro: exI[of _ "\<lparr>conv_id = i, conv_parent = parent, conv_owner = owner\<rparr>"])
  have "addr_scope a \<in> ConversationScope ` staged_children tx" if "a \<in> set (copied_addresses (fork_copies tx))" for a
    using that ok copied_from_scope by (fastforce simp: copied_addresses_def copies_ok_def)
  moreover have "addr_scope a = ConversationScope i" if "a \<in> set (copied_addresses copies)" for a
    using that new(2) copied_from_scope by (auto simp: copied_addresses_def)
  ultimately have "set (copied_addresses (fork_copies tx)) \<inter> set (copied_addresses copies) = {}" using new(1) by fastforce
  moreover have "copied_addresses (fork_copies tx @ copies) = copied_addresses (fork_copies tx) @ copied_addresses copies"
    by (simp add: copied_addresses_def)
  ultimately have "distinct (copied_addresses (fork_copies ?tx))" using ok new(3) by (simp add: copies_ok_def copies_new_def)
  with ok new(2) show ?thesis unfolding copies_ok_def children by auto
qed

lemma stage_copies:
  assumes st: "storage_ok st" "\<not> closed st" and ok: "batch_ok st tx" "copies_ok st tx"
  shows "copies_ok st (snd (stage_conversation parent ownership None tx))"
  unfolding stage_conversation_def option.case
proof (rule then_copies[OF growing_mint ok(2)], rule then_copies[OF growing_owner_of], assumption,
    rule then_copies[OF growing_copies_for], assumption)
  fix i tx1 owner tx2 copies tx3
  assume g: "grows tx tx1" "grows tx1 tx2" "grows tx2 tx3" and c3: "copies_ok st tx3"
    and i: "mint_tx tx = (Inr i, tx1)" and copies: "copies_for parent i tx2 = (Inr copies, tx3)"
  have "i = next_record_id (tx_store tx)" using mint_tx_result[OF i] by simp
  then have "i \<notin> set (claimed_ids tx)" using ok(1) by (auto simp: batch_ok_def)
  then have "i \<notin> staged_children tx" using children_claimed by blast
  then have fresh: "i \<notin> staged_children tx3"
    using grows_same[OF g(1)] grows_same[OF g(2)] grows_same[OF g(3)] by (simp add: staged_children_def)
  have "batch_ok st tx2" by (rule grows_ok[OF grows_ok[OF ok(1) g(1)] g(2)])
  then obtain k where "tx_store tx2 = st\<lparr>next_record_id := k\<rparr>" unfolding batch_ok_def by blast
  with copies prepare_copies_from[OF st] prepare_copies_fresh have "(\<forall>c \<in> set copies. copied_from st i c) \<and> copies_new i copies"
    by (fastforce simp: copies_for_def copies_new_def copied_addresses_def split: option.splits prod.splits sum.splits)
  then show "copies_ok st (snd ((let r = \<lparr>conv_id = i, conv_parent = parent, conv_owner = owner\<rparr> in
     then_tx (change_tx (\<lambda>tx. tx\<lparr>fork_copies := fork_copies tx @ copies,
         created_conversations := created_conversations tx @ [i], staged := staged tx @ [WConversation r]\<rparr>)) (\<lambda>_.
     return_tx r)) tx3))"
    using push_copies[OF c3 fresh] by (simp add: Let_def then_tx_def change_tx_def return_tx_def)
qed

lemma copies_ok_step:
  assumes st: "storage_ok st" "\<not> closed st" and ok: "batch_ok st tx" "copies_ok st tx" and step: "tx_step tx tx'"
  shows "copies_ok st tx'"
proof -
  have staged: "copies_ok st (snd (write_tx (stage_conversation parent ownership None) tx))" for parent ownership
    using stage_copies[OF st grows_ok[OF ok(1) grows_flag] grows_copies[OF ok(2) grows_flag]] ok(2) by (simp add: write_tx_def)
  from step show ?thesis
    by (rule tx_step_cases)
      (simp_all only: create_conversation_def fork_conversation_def staged uncopying_copies[OF uncopying_read ok(2)]
        uncopying_copies[OF uncopying_append ok(2)] uncopying_copies[OF uncopying_create_task ok(2)] uncopying_copies[OF uncopying_set_task ok(2)]
        uncopying_copies[OF uncopying_submission ok(2)] uncopying_copies[OF uncopying_change(1) ok(2)] uncopying_copies[OF uncopying_change(2) ok(2)])
qed

lemma copies_ok_runs:
  assumes "tx_runs (new_transaction st conv task) tx" "storage_ok st" "\<not> closed st"
  shows "copies_ok st tx"
proof -
  have "batch_ok st tx \<and> copies_ok st tx"
    by (rule tx_invariant[OF assms(1), of "\<lambda>tx. batch_ok st tx \<and> copies_ok st tx"])
      (auto simp: batch_ok_new batch_ok_step copies_ok_step[OF assms(2,3)],
       simp add: copies_ok_def new_transaction_def copied_addresses_def)
  then show ?thesis by simp
qed

section \<open>The storage takes the batch\<close>

text \<open>A batch of tables claims each id once, with an id the storage may give its table.\<close>

fun plain_write :: "storage_write \<Rightarrow> bool" where
  "plain_write (WConversation _) = True"
| "plain_write (WEntry _) = True"
| "plain_write (WTask _) = True"
| "plain_write (WSubmission _) = True"
| "plain_write _ = False"

definition claims_of :: "storage_write list \<Rightarrow> int list" where
  "claims_of ws = List.map_filter (\<lambda>w. map_option fst (claim_of w)) ws"

lemma claims_of_simps [simp]:
  "claims_of [] = []"
  "claims_of (w # ws) = (case claim_of w of None \<Rightarrow> claims_of ws | Some (i, t) \<Rightarrow> i # claims_of ws)"
  "claims_of (ws @ vs) = claims_of ws @ claims_of vs"
  by (auto simp: claims_of_def map_filter_def split: option.split)

definition admissible :: "(int \<rightharpoonup> table) \<Rightarrow> storage_write \<Rightarrow> bool" where
  "admissible types w \<longleftrightarrow>
     (case claim_of w of None \<Rightarrow> True
      | Some (i, t) \<Rightarrow> if written_once t then types i = None else types i \<in> {None, Some t})"

lemma check_ids_admissible:
  "list_all (admissible types) ws \<Longrightarrow> distinct (claims_of ws) \<Longrightarrow> dom claimed \<inter> set (claims_of ws) = {} \<Longrightarrow>
     check_ids types claimed ws = Inr ()"
proof (induction ws arbitrary: claimed)
  case (Cons w ws)
  show ?case
  proof (cases "claim_of w")
    case (Some it)
    obtain i t where it: "it = (i, t)" by fastforce
    from Cons.prems Some it have new: "claimed i = None" by auto
    have "check_ids types (claimed(i \<mapsto> t)) ws = Inr ()"
    proof (rule Cons.IH)
      show "dom (claimed(i \<mapsto> t)) \<inter> set (claims_of ws) = {}" using Cons.prems(2,3) Some it by simp
    qed (use Cons.prems Some it in simp_all)
    with Cons.prems(1) Some it new show ?thesis
      by (auto simp: admissible_def split: if_splits option.splits)
  qed (use Cons in simp)
qed simp

section \<open>Copies that can be made\<close>

text \<open>
  What a fork relies on in the documents of conversations: the conversation is there, the record is
  one of \<open>DocumentRecord\<close> (a conversation document declares history and fork behaviour, and only one
  that keeps its history is forked as of an entry), and the deltas committed for it apply.
\<close>

definition documents_forkable :: "mem_state \<Rightarrow> bool" where
  "documents_forkable st \<longleftrightarrow>
     (\<forall>i d k. documents st i = Some d \<and> doc_scope_of (stored_record d) = ConversationScope k \<longrightarrow>
        k < next_record_id st \<and> doc_history_of (stored_record d) \<noteq> None \<and>
        (doc_fork_of (stored_record d) = Some ForkAsOf \<longrightarrow> doc_history_of (stored_record d) = Some Rewindable) \<and>
        (\<forall>at. materialize_document st i at \<noteq> Inl (DeltaFailed i)))"

text \<open>The write a copy is resolved to.\<close>

definition made :: "mem_state \<Rightarrow> fork_copy \<Rightarrow> storage_write \<Rightarrow> bool" where
  "made st c w \<longleftrightarrow> (\<exists>d. materialize_document st (copy_source c) (copy_at c) = Inr (Some d) \<and>
     copy_matches (sd_record d) (copy_record c) \<and> w = WDocCreate (copy_record c) (sd_version d) (sd_value d))"

lemma copied_made:
  assumes "storage_ok st" "documents_forkable st" "copied_from st child c"
  shows "\<exists>w. made st c w"
proof -
  from assms(3) obtain d k where d: "documents st (copy_source c) = Some d" "doc_scope_of (stored_record d) = ConversationScope k"
    "is_alive_at (stored_record d) (copy_at c)" "copy_at c = Current \<or> doc_fork_of (stored_record d) = Some ForkAsOf"
    "copy_record c = copied_record (doc_id (copy_record c)) child (stored_record d)"
    by (auto simp: copied_from_def doc_table_def)
  with assms(2) have f: "doc_history_of (stored_record d) \<noteq> None"
    "doc_fork_of (stored_record d) = Some ForkAsOf \<longrightarrow> doc_history_of (stored_record d) = Some Rewindable"
    "materialize_document st (copy_source c) (copy_at c) \<noteq> Inl (DeltaFailed (copy_source c))"
    unfolding documents_forkable_def by blast+
  have kept: "copy_at c = Current \<or> \<not> is_current_only (stored_record d)"
    using d(2,4) f(2) by (auto simp: is_current_only_def)
  have r: "materialize_document st (copy_source c) (copy_at c) = read_log st (copy_source c) (copy_at c)"
    by (rule materialize_read_log[OF assms(1)])
  with f(3) d(1,3) kept obtain e where e: "materialize_document st (copy_source c) (copy_at c) = Inr (Some e)" "sd_record e = stored_record d"
    by (auto simp: read_log_def split: option.splits if_splits)
  have "copy_matches (stored_record d) (copy_record c)"
  proof -
    obtain i where i: "copy_record c = copied_record i child (stored_record d)" using d(5) by blast
    obtain h where h: "doc_history_of (stored_record d) = Some h" using f(1) by blast
    then show ?thesis using d(2) by (cases h) (simp_all add: i copy_matches_def copied_record_def)
  qed
  with e show ?thesis by (auto simp: made_def)
qed

lemma copied_address_free:
  assumes "storage_ok st" "documents_forkable st" "copied_from st child c" "next_record_id st \<le> child"
  shows "current_at st (record_address (copy_record c)) = None"
proof (rule ccontr)
  assume "current_at st (record_address (copy_record c)) \<noteq> None"
  then obtain i where "current_at st (record_address (copy_record c)) = Some i" by blast
  with assms(1) obtain d where d: "documents st i = Some d" "record_address (stored_record d) = record_address (copy_record c)"
    by (auto simp: storage_ok_def current_ok_def live_at_def)
  with copied_from_scope[OF assms(3)] have "doc_scope_of (stored_record d) = ConversationScope child"
    by (simp add: record_address_def)
  with d(1) assms(2,4) show False unfolding documents_forkable_def by fastforce
qed

section \<open>Committing tables and copies\<close>

lemma plain_resolved: "list_all plain_write ws \<Longrightarrow> map_res (resolve_copy st X) (ws @ vs) = bind_res (map_res (resolve_copy st X) vs) (\<lambda>us. Inr (ws @ us))"
proof (induction ws)
  case Nil
  show ?case by (cases "map_res (resolve_copy st X) vs") simp_all
next
  case (Cons w ws)
  then have "resolve_copy st X w = Inr w" by (auto elim: plain_write.elims)
  with Cons show ?case by (cases "map_res (resolve_copy st X) vs") simp_all
qed

lemma plain_prepared: "list_all plain_write ws \<Longrightarrow> fold_res prepare_action (ws @ vs) acts = fold_res prepare_action vs acts"
  by (induction ws) (auto elim: plain_write.elims)

lemma plain_changed: "list_all plain_write ws \<Longrightarrow> concat (map changed_document ws) = []"
  by (induction ws) (auto elim: plain_write.elims)

lemma copies_changed: "concat (map changed_document (copy_writes copies)) = map (\<lambda>c. doc_id (copy_record c)) copies"
  by (induction copies) (simp_all add: copy_writes_def)

lemma copies_resolved:
  assumes "list_all2 (made st) copies creates" "\<forall>c \<in> set copies. copy_source c \<notin> X"
  shows "map_res (resolve_copy st X) (copy_writes copies) = Inr creates"
  using assms by (induction rule: list_all2_induct) (auto simp: copy_writes_def made_def)

lemma made_claims: "list_all2 (made st) copies creates \<Longrightarrow> claims_of creates = map (\<lambda>c. doc_id (copy_record c)) copies"
  by (induction rule: list_all2_induct) (auto simp: made_def)

text \<open>What the writes ask of the documents: each copy is created once, with a base.\<close>

definition made_action :: "fork_copy \<Rightarrow> int \<times> doc_action \<Rightarrow> bool" where
  "made_action c ia \<longleftrightarrow> (\<exists>v x. ia = (doc_id (copy_record c),
     \<lparr>act_create = Some (copy_record c), act_content = Some (CBase v x), act_retire = False\<rparr>))"

lemma made_prepared:
  assumes "list_all2 (made st) copies creates" "distinct (map fst acts @ map (\<lambda>c. doc_id (copy_record c)) copies)"
  shows "\<exists>as. fold_res prepare_action creates acts = Inr (acts @ as) \<and> list_all2 made_action copies as"
  using assms
proof (induction arbitrary: acts rule: list_all2_induct)
  case (Cons c cs w ws)
  from Cons.hyps(1) obtain d :: stored_document where w: "w = WDocCreate (copy_record c) (sd_version d) (sd_value d)" unfolding made_def by blast
  let ?i = "doc_id (copy_record c)"
  let ?a = "\<lparr>act_create = Some (copy_record c), act_content = Some (CBase (sd_version d) (sd_value d)), act_retire = False\<rparr>"
  have "?i \<notin> fst ` set acts" using Cons.prems by auto
  then have "map_of acts ?i = None" "AList.update ?i ?a acts = acts @ [(?i, ?a)]" by (auto simp: map_of_eq_None_iff update_new)
  then have "prepare_action w acts = Inr (acts @ [(?i, ?a)])" by (simp add: w action_of_def no_action_def)
  moreover obtain as where "fold_res prepare_action ws (acts @ [(?i, ?a)]) = Inr ((acts @ [(?i, ?a)]) @ as)" "list_all2 made_action cs as"
    using Cons.IH[of "acts @ [(?i, ?a)]"] Cons.prems by auto
  moreover have "made_action c (?i, ?a)" by (simp add: made_action_def)
  ultimately show ?case by (intro exI[of _ "(?i, ?a) # as"]) simp
qed simp

lemma made_checked:
  assumes "list_all2 made_action copies as" "distinct (keys @ copied_addresses copies)"
    and "\<forall>c \<in> set copies. documents st (doc_id (copy_record c)) = None \<and> current_at st (record_address (copy_record c)) = None"
  shows "check_actions st as (map (\<lambda>k. (k, 1)) keys) = Inr (map (\<lambda>k. (k, 1)) (keys @ copied_addresses copies))"
  using assms
proof (induction arbitrary: keys rule: list_all2_induct)
  case (Cons c cs ia as)
  from Cons.hyps(1) obtain v x where ia: "ia = (doc_id (copy_record c),
      \<lparr>act_create = Some (copy_record c), act_content = Some (CBase v x), act_retire = False\<rparr>)" by (auto simp: made_action_def)
  let ?k = "record_address (copy_record c)"
  have "?k \<notin> fst ` set (map (\<lambda>k. (k, 1::int)) keys)" using Cons.prems(1) by (auto simp: copied_addresses_def)
  then have "map_of (map (\<lambda>k. (k, 1::int)) keys) ?k = None"
    "AList.update ?k 1 (map (\<lambda>k. (k, 1::int)) keys) = map (\<lambda>k. (k, 1)) (keys @ [?k])"
    by (simp_all add: map_of_eq_None_iff update_new)
  with Cons.prems(2) ia have "count_live st (fst ia) (snd ia) (map (\<lambda>k. (k, 1)) keys) = map (\<lambda>k. (k, 1)) (keys @ [?k])"
    by (simp add: count_live_def action_address_def)
  moreover have "check_action st (fst ia) (snd ia) = Inr ()" using Cons.prems(2) by (simp add: ia check_action_def)
  moreover have "check_actions st as (map (\<lambda>k. (k, 1)) (keys @ [?k])) = Inr (map (\<lambda>k. (k, 1)) ((keys @ [?k]) @ copied_addresses cs))"
    by (rule Cons.IH) (use Cons.prems in \<open>simp_all add: copied_addresses_def\<close>)
  ultimately show ?case by (cases ia) (simp add: copied_addresses_def)
qed (simp add: copied_addresses_def)

lemma copies_commit:
  assumes "storage_ok st" "\<not> closed st" "is_safe_integer (next_seq st)"
    and ws: "list_all plain_write ws" "list_all (admissible (record_types st)) ws"
    and ids: "distinct (claims_of ws @ map (\<lambda>c. doc_id (copy_record c)) copies)"
      "\<forall>c \<in> set copies. record_types st (doc_id (copy_record c)) = None"
    and made: "list_all2 (made st) copies creates" "distinct (copied_addresses copies)"
      "\<forall>c \<in> set copies. current_at st (record_address (copy_record c)) = None"
  shows "\<exists>st'. commit st (ws @ copy_writes copies) = Inr (next_seq st, st')"
proof -
  have typed: "typed (record_types st) (documents st) DocumentTable" using assms(1) by (simp add: storage_ok_def types_ok_def)
  have none: "documents st i = None" if "record_types st i = None" for i using typed that unfolding typed_def by (metis option.distinct(1))
  let ?X = "set (concat (map changed_document (ws @ copy_writes copies)))"
  have X: "?X = (\<lambda>c. doc_id (copy_record c)) ` set copies"
    using plain_changed[OF ws(1)] copies_changed[of copies] by simp
  have "documents st (copy_source c) \<noteq> None" if "c \<in> set copies" for c
    using made(1) that by (auto simp: list_all2_conv_all_nth in_set_conv_nth made_def materialize_document_def split: option.splits)
  with X ids(2) none have "\<forall>c \<in> set copies. copy_source c \<notin> ?X" by fastforce
  then have one: "resolve_document_copies st (ws @ copy_writes copies) = Inr (ws @ creates)"
    using copies_resolved[OF made(1)] plain_resolved[OF ws(1)] by (simp add: resolve_document_copies_def)
  have "admissible (record_types st) w" if "w \<in> set creates" for w
  proof -
    from made(1) that obtain c where "c \<in> set copies" "made st c w"
      unfolding list_all2_conv_all_nth in_set_conv_nth by metis
    with ids(2) show ?thesis by (auto simp: made_def admissible_def)
  qed
  then have two: "check_global_ids st (ws @ creates) = Inr ()"
    unfolding check_global_ids_def using ws(2) ids(1) made_claims[OF made(1)]
    by (intro check_ids_admissible) (auto simp: list_all_iff)
  obtain as where as: "prepare_document_actions (ws @ creates) = Inr as" "list_all2 made_action copies as"
    using made_prepared[OF made(1), of "[]"] ids(1) by (auto simp: prepare_document_actions_def plain_prepared[OF ws(1)])
  from made_checked[OF as(2), of "[]" st] made(2,3) ids(2) none
  have "check_document_actions st as = Inr ()" by (auto simp: check_document_actions_def list_ex_iff)
  with one two as(1) assms(2,3) have prep: "prepare_commit st (ws @ copy_writes copies) (next_seq st) = Inr (ws @ creates, as)"
    by (simp add: prepare_commit_def assert_open_def)
  from apply_prepared_ok[OF assms(1) prep] prep show ?thesis by (auto simp: commit_def)
qed

lemma made_all: "\<forall>c \<in> set cs. \<exists>w. made st c w \<Longrightarrow> \<exists>ws. list_all2 (made st) cs ws"
proof (induction cs)
  case (Cons c cs)
  then obtain w ws where "made st c w" "list_all2 (made st) cs ws" by auto
  then have "list_all2 (made st) (c # cs) (w # ws)" by simp
  then show ?case by blast
qed (auto intro: exI[of _ "[]"])

text \<open>Minting an id changes nothing a copy relies on.\<close>

lemma made_mint [simp]: "made (st\<lparr>next_record_id := m\<rparr>) = made st"
  by (intro ext) (simp add: made_def materialize_document_def)

lemma current_at_mint [simp]: "current_at (st\<lparr>next_record_id := m\<rparr>) = current_at st"
  by (rule ext) (simp add: current_at_def)

text \<open>The copies of a run, under the ids it minted.\<close>

lemma copies_taken:
  assumes "tx_runs (new_transaction st conv task) tx" "storage_ok st" "\<not> closed st"
    and "fork_copies tx = [] \<or> documents_forkable st"
  shows "\<exists>creates. list_all2 (made st) (fork_copies tx) creates"
    and "distinct (copied_addresses (fork_copies tx))"
    and "\<forall>c \<in> set (fork_copies tx). current_at st (record_address (copy_record c)) = None"
proof -
  have ok: "copies_ok st tx" by (rule copies_ok_runs[OF assms(1-3)])
  have "batch_ok st tx" by (rule batch_ok_runs[OF assms(1)])
  then have "set (claimed_ids tx) \<union> created_tasks tx \<subseteq> {next_record_id st ..< next_record_id (tx_store tx)}"
    unfolding batch_ok_def by blast
  with children_claimed[of tx] have young: "next_record_id st \<le> child" if "child \<in> staged_children tx" for child
    using that by (meson Un_iff atLeastLessThan_iff subset_iff)
  show "distinct (copied_addresses (fork_copies tx))" using ok by (simp add: copies_ok_def)
  have origin: "\<exists>child. copied_from st child c \<and> next_record_id st \<le> child \<and> documents_forkable st"
    if "c \<in> set (fork_copies tx)" for c
  proof -
    have "\<exists>child \<in> staged_children tx. copied_from st child c" using that ok by (simp add: copies_ok_def)
    then obtain child where "child \<in> staged_children tx" "copied_from st child c" by blast
    moreover have "documents_forkable st" using that assms(4) by auto
    ultimately show ?thesis using young by blast
  qed
  show "\<exists>creates. list_all2 (made st) (fork_copies tx) creates"
    by (rule made_all) (use origin copied_made[OF assms(2)] in blast)
  show "\<forall>c \<in> set (fork_copies tx). current_at st (record_address (copy_record c)) = None"
    using origin copied_address_free[OF assms(2)] by blast
qed

end
