(* ===== verification/Session_Properties.thy ===== *)
theory Session_Properties
  imports Session_Copies
begin

text \<open>
  What a transaction promises: reads come before writes, and a batch that is assembled is one
  the storage takes, gives owned work to live owners only, leaves terminal tasks alone and moves
  submissions forward.
\<close>

section \<open>The batch, piece by piece\<close>

lemma resolve_change_result:
  assumes "resolve_change (i, c) tx = (Inr (), tx')" "on_store st tx"
  shows "\<exists>old r. (map_of (new_submissions tx) i = Some old \<or> map_of (new_submissions tx) i = None \<and> submissions st i = Some old) \<and>
    apply_submission_change old c = Inr r \<and>
    (tx' = tx \<and> r = old \<or> tx' = tx\<lparr>new_submissions := AList.update i r (new_submissions tx)\<rparr>)"
proof -
  have subs: "submissions (tx_store tx) = submissions st"
  proof -
    obtain n where "tx_store tx = st\<lparr>next_record_id := n\<rparr>" using assms(2) unfolding on_store_def by blast
    then show ?thesis by simp
  qed
  show ?thesis
  proof (cases "map_of (new_submissions tx) i")
    case (Some old)
    with assms(1) show ?thesis
      by (cases "apply_submission_change old c")
        (auto simp: resolve_change_def then_tx_def return_tx_def fail_tx_def change_tx_def split: if_splits)
  next
    case None
    with assms(1) show ?thesis
      by (cases "get_submission (tx_store tx) i")
        (auto simp: resolve_change_def then_tx_def return_tx_def fail_tx_def change_tx_def lift_tx_def subs get_submission_def
          assert_open_def split: if_splits option.splits sum.splits)
  qed
qed

definition sub_traced :: "mem_state \<Rightarrow> (int \<times> submission_record) list \<Rightarrow> int \<Rightarrow> submission_record \<Rightarrow> bool" where
  "sub_traced st orig i r \<longleftrightarrow> sub_id r = i \<and>
     (\<exists>old. (map_of orig i = Some old \<or> map_of orig i = None \<and> submissions st i = Some old) \<and> forward old r)"

definition subs_ok :: "mem_state \<Rightarrow> (int \<times> submission_record) list \<Rightarrow> (int \<times> submission_record) list \<Rightarrow> bool" where
  "subs_ok st orig subs \<longleftrightarrow> distinct (map fst subs) \<and>
     (\<forall>i r. map_of subs i = Some r \<longrightarrow> sub_traced st orig i r)"

lemma subs_ok_update: "subs_ok st orig xs \<Longrightarrow> sub_traced st orig i r \<Longrightarrow> subs_ok st orig (AList.update i r xs)"
  by (simp add: subs_ok_def distinct_update update_conv)

lemma resolve_each:
  assumes "each_tx resolve_change cs tx = (Inr (), tx')" "on_store st tx" "subs_ok st orig (new_submissions tx)"
    "\<forall>i. map_of orig i \<noteq> None \<longrightarrow> map_of (new_submissions tx) i \<noteq> None" "id_matches (submissions st) sub_id"
  shows "tx' = tx\<lparr>new_submissions := new_submissions tx'\<rparr> \<and> subs_ok st orig (new_submissions tx')"
  using assms(1-4)
proof (induction cs arbitrary: tx)
  case (Cons ic cs)
  obtain i c where ic: "ic = (i, c)" by fastforce
  from Cons.prems(1) obtain tx1 where one: "resolve_change ic tx = (Inr (), tx1)" and rest: "each_tx resolve_change cs tx1 = (Inr (), tx')"
    unfolding each_tx.simps by (rule then_cases) auto
  from resolve_change_result[OF one[unfolded ic] Cons.prems(2)] obtain old r where
    old: "map_of (new_submissions tx) i = Some old \<or> map_of (new_submissions tx) i = None \<and> submissions st i = Some old"
    and r: "apply_submission_change old c = Inr r" and tx1: "tx1 = tx \<and> r = old \<or> tx1 = tx\<lparr>new_submissions := AList.update i r (new_submissions tx)\<rparr>"
    by blast
  from old have "sub_traced st orig i old"
  proof
    assume "map_of (new_submissions tx) i = Some old"
    with Cons.prems(3) show ?thesis by (simp add: subs_ok_def)
  next
    assume n: "map_of (new_submissions tx) i = None \<and> submissions st i = Some old"
    with Cons.prems(4) have "map_of orig i = None" by blast
    moreover have "sub_id old = i" using n assms(5) by (simp add: id_matches_def)
    ultimately show ?thesis using n forward_refl unfolding sub_traced_def by blast
  qed
  moreover have f: "forward old r" by (rule forward_change[OF r])
  moreover from f have "sub_id r = sub_id old" by (simp add: forward_def)
  ultimately have "sub_traced st orig i r"
    unfolding sub_traced_def by (metis forward_trans)
  with tx1 Cons.prems(3) have ok1: "subs_ok st orig (new_submissions tx1)"
    by (elim disjE conjE) (simp_all add: subs_ok_update)
  have "on_store st tx1" using tx1 Cons.prems(2) by (auto simp: on_store_def)
  moreover have "\<forall>i. map_of orig i \<noteq> None \<longrightarrow> map_of (new_submissions tx1) i \<noteq> None"
    using tx1 Cons.prems(4) by (auto simp: update_conv)
  ultimately have "tx' = tx1\<lparr>new_submissions := new_submissions tx'\<rparr> \<and> subs_ok st orig (new_submissions tx')"
    by (rule Cons.IH[OF rest _ ok1])
  moreover have "tx1 = tx\<lparr>new_submissions := new_submissions tx1\<rparr>" using tx1 by auto
  then obtain subs where "tx1 = tx\<lparr>new_submissions := subs\<rparr>" by blast
  ultimately show ?case by simp
qed (auto simp: return_tx_def)

text \<open>Assembly checks, then resolves the submission changes, then lists the writes.\<close>

lemma assemble_steps:
  assumes "assemble tx = (Inr ws, tx')"
  obtains tx1 tx2 where
    "each_tx check_owner (conversation_owners (staged tx) @ task_owners (touched_tasks tx)) tx = (Inr (), tx1)" "grows tx tx1"
    "each_tx check_replaced (touched_tasks tx1) tx1 = (Inr (), tx2)" "grows tx tx2"
    "each_tx resolve_change (submission_changes tx2) tx2 = (Inr (), tx')"
    "ws = staged tx' @ map (\<lambda>(i, r). WSubmission r) (new_submissions tx') @ task_writes (touched_tasks tx') @ copy_writes (fork_copies tx')"
proof -
  from assms(1) obtain tx1 where v: "validate_owners tx = (Inr (), tx1)"
    and a1: "then_tx (\<lambda>tx. each_tx check_replaced (touched_tasks tx) tx) (\<lambda>_.
      then_tx (\<lambda>tx. each_tx resolve_change (submission_changes tx) tx) (\<lambda>_ tx.
       (Inr (staged tx @ map (\<lambda>(i, r). WSubmission r) (new_submissions tx) @ task_writes (touched_tasks tx) @
          copy_writes (fork_copies tx)), tx))) tx1 = (Inr ws, tx')"
    unfolding assemble_def by (rule then_cases) auto
  from a1 obtain tx2 where c: "each_tx check_replaced (touched_tasks tx1) tx1 = (Inr (), tx2)"
    and a2: "then_tx (\<lambda>tx. each_tx resolve_change (submission_changes tx) tx) (\<lambda>_ tx.
       (Inr (staged tx @ map (\<lambda>(i, r). WSubmission r) (new_submissions tx) @ task_writes (touched_tasks tx) @
          copy_writes (fork_copies tx)), tx)) tx2 = (Inr ws, tx')"
    by (rule then_cases) auto
  from a2 have r2: "each_tx resolve_change (submission_changes tx2) tx2 = (Inr (), tx') \<and>
      ws = staged tx' @ map (\<lambda>(i, r). WSubmission r) (new_submissions tx') @ task_writes (touched_tasks tx') @ copy_writes (fork_copies tx')"
    by (rule then_cases) simp_all
  have v': "each_tx check_owner (conversation_owners (staged tx) @ task_owners (touched_tasks tx)) tx = (Inr (), tx1)"
    using v by (simp add: validate_owners_def)
  have g1: "grows tx tx1" by (rule growingD[OF growing_each[OF growing_check_owner] v'])
  have g2: "grows tx1 tx2" by (rule growingD[OF growing_each[OF growing_check_replaced] c])
  show thesis by (rule that[OF v' g1 c grows_trans[OF g1 g2] r2[THEN conjunct1] r2[THEN conjunct2]])
qed

text \<open>What is known of an assembled batch.\<close>

lemma assemble_parts:
  assumes "assemble tx = (Inr ws, tx')" "batch_ok st tx" "id_matches (submissions st) sub_id"
  obtains subs touched where
    "ws = staged tx @ map (\<lambda>(i, r). WSubmission r) subs @ task_writes touched @ copy_writes (fork_copies tx)"
    "subs_ok st (new_submissions tx) subs"
    "\<forall>i. map_of touched i = Some (candidate_task tx i) \<or> map_of touched i = None \<and> candidate_task tx i = None"
    "distinct (map fst touched)"
    "\<forall>w \<in> set (conversation_owners (staged tx) @ task_owners (touched_tasks tx)). \<exists>r. final_task st tx (snd w) = Some r \<and> live_owner r"
    "\<forall>i r. candidate_task tx i = Some (ReplaceTask, r) \<longrightarrow>
       (\<exists>c. tasks st i = Some c \<and> status_of (task_state_of c) \<noteq> Terminal \<and> task_conv c = task_conv r)"
    "on_store st tx'"
    "new_submissions tx' = subs" "next_record_id st \<le> next_record_id (tx_store tx')"
proof -
  note store = assms(2)[unfolded batch_ok_def, THEN conjunct1]
  have on: "on_store st tx" using store by (simp add: on_store_def)
  define owners where "owners = conversation_owners (staged tx) @ task_owners (touched_tasks tx)"
  obtain tx1 tx2 where v': "each_tx check_owner owners tx = (Inr (), tx1)" and g1: "grows tx tx1"
    and c: "each_tx check_replaced (touched_tasks tx1) tx1 = (Inr (), tx2)" and g: "grows tx tx2"
    and res: "each_tx resolve_change (submission_changes tx2) tx2 = (Inr (), tx')"
    and ws: "ws = staged tx' @ map (\<lambda>(i, r). WSubmission r) (new_submissions tx') @ task_writes (touched_tasks tx') @ copy_writes (fork_copies tx')"
    unfolding owners_def by (rule assemble_steps[OF assms(1)])
  have on1: "on_store st tx1" by (rule on_store_grows[OF on g1])
  have ok2: "batch_ok st tx2" by (rule grows_ok[OF assms(2) g])
  have on2: "on_store st tx2" by (rule on_store_grows[OF on g])
  have fresh: "subs_ok st (new_submissions tx) (new_submissions tx)"
    unfolding subs_ok_def
  proof (intro conjI allI impI)
    show "distinct (map fst (new_submissions tx))" using assms(2) by (simp add: batch_ok_def claimed_ids_def)
    fix i r assume r: "map_of (new_submissions tx) i = Some r"
    then have "sub_id r = i" using assms(2) by (auto simp: batch_ok_def list_all_iff dest: map_of_SomeD)
    with r forward_refl show "sub_traced st (new_submissions tx) i r" unfolding sub_traced_def by blast
  qed
  have "tx' = tx2\<lparr>new_submissions := new_submissions tx'\<rparr> \<and> subs_ok st (new_submissions tx) (new_submissions tx')"
    by (rule resolve_each[OF res on2 _ _ assms(3)]) (use fresh grows_same[OF g] in simp_all)
  then obtain subs where tx': "tx' = tx2\<lparr>new_submissions := subs\<rparr>" and subs: "subs_ok st (new_submissions tx) subs"
    by auto
  have same: "staged tx' = staged tx" "fork_copies tx' = fork_copies tx" "touched_tasks tx' = touched_tasks tx2"
    "new_submissions tx' = subs"
    using grows_same[OF g] by (simp_all add: tx')
  show ?thesis
  proof (rule that)
    show "ws = staged tx @ map (\<lambda>(i, r). WSubmission r) subs @ task_writes (touched_tasks tx2) @ copy_writes (fork_copies tx)"
      by (simp add: ws same)
    show "subs_ok st (new_submissions tx) subs" by (rule subs)
    show "distinct (map fst (touched_tasks tx2))" using ok2 by (simp add: batch_ok_def)
    show "\<forall>i. map_of (touched_tasks tx2) i = Some (candidate_task tx i) \<or> map_of (touched_tasks tx2) i = None \<and> candidate_task tx i = None"
      unfolding grows_candidate[OF g, symmetric] unfolding candidate_task_def by (auto split: option.split)
    show "\<forall>w \<in> set (conversation_owners (staged tx) @ task_owners (touched_tasks tx)). \<exists>r. final_task st tx (snd w) = Some r \<and> live_owner r"
    proof
      fix w assume "w \<in> set (conversation_owners (staged tx) @ task_owners (touched_tasks tx))"
      then have "w \<in> set owners" by (simp add: owners_def)
      from each_tx_success[OF growing_check_owner v' this] obtain a b where a: "grows tx a" "check_owner w a = (Inr (), b)" by blast
      obtain what t where w: "w = (what, t)" by fastforce
      from check_owner_result[OF a(2)[unfolded w] on_store_grows[OF on a(1)]]
      show "\<exists>r. final_task st tx (snd w) = Some r \<and> live_owner r"
        by (simp add: w final_task_def grows_candidate[OF a(1)])
    qed
    show "\<forall>i r. candidate_task tx i = Some (ReplaceTask, r) \<longrightarrow>
       (\<exists>c. tasks st i = Some c \<and> status_of (task_state_of c) \<noteq> Terminal \<and> task_conv c = task_conv r)"
    proof (intro allI impI)
      fix i r assume "candidate_task tx i = Some (ReplaceTask, r)"
      then have "candidate_task tx1 i = Some (ReplaceTask, r)" by (simp add: grows_candidate[OF g1])
      then have "map_of (touched_tasks tx1) i = Some (Some (ReplaceTask, r))"
        by (simp add: candidate_task_def split: option.splits)
      then have "(i, Some (ReplaceTask, r)) \<in> set (touched_tasks tx1)" by (rule map_of_SomeD)
      from each_tx_success[OF growing_check_replaced c this] obtain a b where
        "grows tx1 a" "check_replaced (i, Some (ReplaceTask, r)) a = (Inr (), b)" by blast
      with check_replaced_result on_store_grows[OF on1] show "\<exists>c. tasks st i = Some c \<and> status_of (task_state_of c) \<noteq> Terminal \<and> task_conv c = task_conv r"
        by blast
    qed
    show "on_store st tx'" using on2 by (simp add: tx' on_store_def)
    show "new_submissions tx' = subs" by (rule same)
    show "next_record_id st \<le> next_record_id (tx_store tx')" using ok2 by (simp add: tx' batch_ok_def)
  qed
qed

section \<open>The storage takes the batch\<close>

lemma task_writes_simps [simp]:
  "task_writes [] = []"
  "task_writes ((i, w) # ts) = (case w of None \<Rightarrow> task_writes ts | Some (k, r) \<Rightarrow> WTask r # task_writes ts)"
  by (auto simp: task_writes_def map_filter_def split: option.split)

lemma set_task_writes: "w \<in> set (task_writes ts) \<longleftrightarrow> (\<exists>i k r. (i, Some (k, r)) \<in> set ts \<and> w = WTask r)"
proof (induction ts)
  case (Cons t ts)
  then show ?case by (cases t; cases "snd t") auto
qed simp

lemma claims_tasks:
  "\<forall>i k r. (i, Some (k, r)) \<in> set ts \<longrightarrow> task_id r = i \<Longrightarrow>
     claims_of (task_writes ts) = map fst (filter (\<lambda>(i, w). w \<noteq> None) ts)"
  by (induction ts) (auto split: option.split)

lemma claims_subs:
  "\<forall>(i, r) \<in> set subs. sub_id r = i \<Longrightarrow> claims_of (map (\<lambda>(i, r). WSubmission r) subs) = map fst subs"
  by (induction subs) auto

text \<open>The writes of an assembled batch, and what each of them may be.\<close>

lemma assembled_writes:
  assumes "tx_runs (new_transaction st conv task) tx" "storage_ok st" "assemble tx = (Inr ws, tx')"
  obtains subs touched where
    "ws = staged tx @ map (\<lambda>(i, r). WSubmission r) subs @ task_writes touched @ copy_writes (fork_copies tx)"
    "subs_ok st (new_submissions tx) subs" "distinct (map fst touched)"
    "\<And>i k r. (i, Some (k, r)) \<in> set touched \<longleftrightarrow> candidate_task tx i = Some (k, r)"
    "\<And>w. w \<in> set (conversation_owners (staged tx) @ task_owners (touched_tasks tx)) \<Longrightarrow>
       \<exists>r. final_task st tx (snd w) = Some r \<and> live_owner r"
    "\<And>i r. candidate_task tx i = Some (ReplaceTask, r) \<Longrightarrow>
       \<exists>c. tasks st i = Some c \<and> status_of (task_state_of c) \<noteq> Terminal \<and> task_conv c = task_conv r"
    "batch_ok st tx" "on_store st tx'" "next_record_id st \<le> next_record_id (tx_store tx')"
proof -
  have ok: "batch_ok st tx" by (rule batch_ok_runs[OF assms(1)])
  have ids: "id_matches (submissions st) sub_id" using assms(2) by (simp add: storage_ok_def tables_ok_def)
  show ?thesis
  proof (rule assemble_parts[OF assms(3) ok ids])
    fix subs touched
    assume p: "ws = staged tx @ map (\<lambda>(i, r). WSubmission r) subs @ task_writes touched @ copy_writes (fork_copies tx)"
      "subs_ok st (new_submissions tx) subs"
      "\<forall>i. map_of touched i = Some (candidate_task tx i) \<or> map_of touched i = None \<and> candidate_task tx i = None"
      "distinct (map fst touched)"
      "\<forall>w \<in> set (conversation_owners (staged tx) @ task_owners (touched_tasks tx)). \<exists>r. final_task st tx (snd w) = Some r \<and> live_owner r"
      "\<forall>i r. candidate_task tx i = Some (ReplaceTask, r) \<longrightarrow>
         (\<exists>c. tasks st i = Some c \<and> status_of (task_state_of c) \<noteq> Terminal \<and> task_conv c = task_conv r)"
      "on_store st tx'" "next_record_id st \<le> next_record_id (tx_store tx')"
    have touched: "(i, Some (k, r)) \<in> set touched \<longleftrightarrow> candidate_task tx i = Some (k, r)" for i k r
      using p(3)[rule_format, of i] map_of_eq_Some_iff[OF p(4), of i "Some (k, r)"] by auto
    show ?thesis by (rule that[OF p(1,2,4) touched p(5)[rule_format] p(6)[rule_format] ok p(7,8)])
  qed
qed

text \<open>The ids of submissions and of tasks: new ones of the batch, or already of their table.\<close>

lemma batch_new_ids:
  assumes "batch_ok st tx" "types_ok st" "i \<in> set (claimed_ids tx) \<union> created_tasks tx"
  shows "record_types st i = None"
proof -
  have "set (claimed_ids tx) \<union> created_tasks tx \<subseteq> {next_record_id st ..< next_record_id (tx_store tx)}"
    using assms(1) unfolding batch_ok_def by blast
  with assms(3) have "next_record_id st \<le> i" by auto
  with assms(2) show ?thesis unfolding types_ok_def by (metis linorder_not_less option.exhaust)
qed

lemma batch_submission:
  assumes "subs_ok st (new_submissions tx) subs" "types_ok st" "(i, r) \<in> set subs"
  shows "sub_id r = i \<and> (i \<in> set (map fst (new_submissions tx)) \<or> record_types st i = Some SubmissionTable)"
proof -
  have "map_of subs i = Some r" using assms(1,3) by (simp add: subs_ok_def)
  with assms(1) obtain old where "sub_id r = i" and old: "map_of (new_submissions tx) i = Some old \<or> submissions st i = Some old"
    unfolding subs_ok_def sub_traced_def by blast
  from old show ?thesis
  proof
    assume "map_of (new_submissions tx) i = Some old"
    then have "i \<in> set (map fst (new_submissions tx))" by (force dest: map_of_SomeD)
    with \<open>sub_id r = i\<close> show ?thesis by simp
  next
    assume "submissions st i = Some old"
    with assms(2) \<open>sub_id r = i\<close> show ?thesis by (simp add: types_ok_def typed_def)
  qed
qed

lemma batch_task:
  assumes "batch_ok st tx" "types_ok st" "candidate_task tx i = Some (k, r)"
    and "k = ReplaceTask \<Longrightarrow> tasks st i \<noteq> None"
  shows "task_id r = i \<and> (i \<in> created_tasks tx \<or> record_types st i = Some TaskTable)"
proof (cases k)
  case CreateTask
  with assms(1,3) show ?thesis by (auto simp: batch_ok_def created_tasks_def)
next
  case ReplaceTask
  with assms show ?thesis by (auto simp: batch_ok_def types_ok_def typed_def)
qed

lemma batch_ids_distinct:
  assumes ok: "batch_ok st tx" and types: "types_ok st" and subs_ok: "subs_ok st (new_submissions tx) subs"
    and touched: "distinct (map fst touched)"
    and subs: "\<forall>(i, r) \<in> set subs. sub_id r = i \<and> (i \<in> set (map fst (new_submissions tx)) \<or> record_types st i = Some SubmissionTable)"
    and task: "\<forall>i k r. (i, Some (k, r)) \<in> set touched \<longrightarrow> task_id r = i \<and> (i \<in> created_tasks tx \<or> record_types st i = Some TaskTable)"
  shows "distinct (claims_of (staged tx @ map (\<lambda>(i, r). WSubmission r) subs @ task_writes touched) @
    map (\<lambda>c. doc_id (copy_record c)) (fork_copies tx))"
proof -
  define tids where "tids = map fst (filter (\<lambda>(i, w). w \<noteq> None) touched)"
  let ?own = "claims_of (staged tx)" and ?new = "map fst (new_submissions tx)" and ?copies = "map (\<lambda>c. doc_id (copy_record c)) (fork_copies tx)"
  have claims: "claimed_ids tx = ?own @ ?new @ ?copies" by (simp add: claimed_ids_def claims_of_def)
  have disj: "distinct (?own @ ?new @ ?copies)" "set (?own @ ?new @ ?copies) \<inter> created_tasks tx = {}"
    using ok unfolding batch_ok_def claims by blast+
  have new: "record_types st i = None" if "i \<in> set (?own @ ?new @ ?copies) \<or> i \<in> created_tasks tx" for i
    by (rule batch_new_ids[OF ok types]) (use that in \<open>simp add: claims\<close>)
  have tids: "claims_of (task_writes touched) = tids" unfolding tids_def
    by (rule claims_tasks) (use task in blast)
  have sids: "claims_of (map (\<lambda>(i, r). WSubmission r) subs) = map fst subs"
    by (rule claims_subs) (use subs in blast)
  have tid: "i \<in> created_tasks tx \<or> record_types st i = Some TaskTable" if "i \<in> set tids" for i
  proof -
    obtain k r where "(i, Some (k, r)) \<in> set touched" using \<open>i \<in> set tids\<close> by (auto simp: tids_def)
    with task show ?thesis by blast
  qed
  have sid: "i \<in> set ?new \<or> record_types st i = Some SubmissionTable" if "i \<in> set (map fst subs)" for i
    using that subs by fastforce
  have "i \<notin> set (map fst subs) \<and> i \<notin> set tids" if "i \<in> set ?own \<or> i \<in> set ?copies" for i
    using that new[of i] sid[of i] tid[of i] disj by (auto simp del: set_map list.set_map)
  moreover have "i \<notin> set tids" if "i \<in> set (map fst subs)" for i
    using sid[OF that] new[of i] tid[of i] disj(2) by (auto simp del: set_map list.set_map)
  moreover have "distinct (map fst subs)" using subs_ok by (simp add: subs_ok_def)
  moreover have "distinct tids" unfolding tids_def by (rule distinct_map_filter[OF touched])
  ultimately show ?thesis
    unfolding claims_of_simps tids sids append_assoc using disj(1)
    by (auto simp del: set_map list.set_map)
qed

text \<open>An assembled batch: plain writes the storage may give their ids, then the copies.\<close>

lemma assembled_plain:
  assumes "tx_runs (new_transaction st conv task) tx" "storage_ok st" "assemble tx = (Inr ws, tx')"
  obtains plain where "ws = plain @ copy_writes (fork_copies tx)" "list_all plain_write plain"
    "list_all (admissible (record_types st)) plain"
    "distinct (claims_of plain @ map (\<lambda>c. doc_id (copy_record c)) (fork_copies tx))"
    "\<forall>c \<in> set (fork_copies tx). record_types st (doc_id (copy_record c)) = None"
    "on_store st tx'" "next_record_id st \<le> next_record_id (tx_store tx')"
proof (rule assembled_writes[OF assms])
  fix subs touched
  assume p: "ws = staged tx @ map (\<lambda>(i, r). WSubmission r) subs @ task_writes touched @ copy_writes (fork_copies tx)"
      "subs_ok st (new_submissions tx) subs" "distinct (map fst touched)"
      "\<And>i k r. (i, Some (k, r)) \<in> set touched \<longleftrightarrow> candidate_task tx i = Some (k, r)"
      "\<And>i r. candidate_task tx i = Some (ReplaceTask, r) \<Longrightarrow>
         \<exists>c. tasks st i = Some c \<and> status_of (task_state_of c) \<noteq> Terminal \<and> task_conv c = task_conv r"
      "batch_ok st tx" "on_store st tx'" "next_record_id st \<le> next_record_id (tx_store tx')"
  let ?plain = "staged tx @ map (\<lambda>(i, r). WSubmission r) subs @ task_writes touched"
  have types: "types_ok st" using assms(2) by (simp add: storage_ok_def)
  note subs = batch_submission[OF p(2) types] and new = batch_new_ids[OF p(6) types]
  have task: "task_id r = i \<and> (i \<in> created_tasks tx \<or> record_types st i = Some TaskTable)" if "(i, Some (k, r)) \<in> set touched" for i k r
    by (rule batch_task[OF p(6) types p(4)[THEN iffD1, OF that]]) (use p(4,5) that in blast)
  have staged: "list_all (\<lambda>w. case w of WConversation _ \<Rightarrow> True | WEntry _ \<Rightarrow> True | _ \<Rightarrow> False) (staged tx)"
    using p(6) unfolding batch_ok_def by blast
  show thesis
  proof (rule that[of ?plain])
    show "distinct (claims_of ?plain @ map (\<lambda>c. doc_id (copy_record c)) (fork_copies tx))"
      by (rule batch_ids_distinct[OF p(6) types p(2) p(3)]) (use subs task in blast)+
    have "plain_write w" if "w \<in> set (staged tx)" for w
      using staged[unfolded list_all_iff, rule_format, OF that] by (cases w) simp_all
    then show "list_all plain_write ?plain" by (auto simp: list_all_iff set_task_writes)
    show "list_all (admissible (record_types st)) ?plain"
      unfolding list_all_append
    proof (intro conjI)
      show "list_all (admissible (record_types st)) (staged tx)" unfolding list_all_iff
      proof
        fix w assume w: "w \<in> set (staged tx)"
        then obtain i t where c: "claim_of w = Some (i, t)" "written_once t"
          using staged[unfolded list_all_iff, rule_format, OF w] by (cases w rule: storage_write.exhaust) simp_all
        with w have "i \<in> set (claimed_ids tx)" by (force simp: claimed_ids_def map_filter_def)
        with c new show "admissible (record_types st) w" by (simp add: admissible_def)
      qed
      show "list_all (admissible (record_types st)) (map (\<lambda>(i, r). WSubmission r) subs)"
        using subs new by (fastforce simp: list_all_iff admissible_def claimed_ids_def)
      show "list_all (admissible (record_types st)) (task_writes touched)"
        using task new by (fastforce simp: list_all_iff admissible_def set_task_writes)
    qed
    show "\<forall>c \<in> set (fork_copies tx). record_types st (doc_id (copy_record c)) = None"
      using new by (auto simp: claimed_ids_def)
  qed (use p in simp_all)
qed

text \<open>
  C25: Whatever a callback did, forks included, a batch that is assembled is one the storage
  commits: no id is claimed twice or by two tables, what it replaces is there, and every document a
  fork copies is created once, at an address of its own, from a source the storage can read. A
  transaction that copies documents relies on the storage's documents: each is a well-typed record
  of a conversation that is there, and its deltas apply.
\<close>

theorem assembled_commits:
  assumes "tx_runs (new_transaction st conv task) tx" "storage_ok st" "assemble tx = (Inr ws, tx')"
    and "fork_copies tx = [] \<or> documents_forkable st" "\<not> closed st" "is_safe_integer (next_seq st)"
  shows "\<exists>st'. commit (tx_store tx') ws = Inr (next_seq st, st')"
proof (rule assembled_plain[OF assms(1-3)])
  fix plain
  assume p: "ws = plain @ copy_writes (fork_copies tx)" "list_all plain_write plain" "list_all (admissible (record_types st)) plain"
    "distinct (claims_of plain @ map (\<lambda>c. doc_id (copy_record c)) (fork_copies tx))"
    "\<forall>c \<in> set (fork_copies tx). record_types st (doc_id (copy_record c)) = None"
    "on_store st tx'" "next_record_id st \<le> next_record_id (tx_store tx')"
  obtain m where m: "tx_store tx' = st\<lparr>next_record_id := m\<rparr>" "next_record_id st \<le> m"
    using p(6,7) unfolding on_store_def by blast
  obtain creates where made: "list_all2 (made st) (fork_copies tx) creates"
    using copies_taken(1)[OF assms(1,2,5,4)] by blast
  have "storage_ok (st\<lparr>next_record_id := m\<rparr>)"
    using storage_ok_counters[OF assms(2) m(2), of "closed st"] by simp
  from copies_commit[OF this _ _ p(2) _ p(4) _ _ copies_taken(2)[OF assms(1,2,5,4)], of creates]
  show ?thesis using p(3,5) made copies_taken(3)[OF assms(1,2,5,4)] assms(5,6) by (simp add: m(1) p(1))
qed

section \<open>Owners, terminal tasks, submissions\<close>

lemma stored_old:
  assumes "storage_ok st"
  shows "tasks st i = Some r \<Longrightarrow> i < next_record_id st" "submissions st i = Some s \<Longrightarrow> i < next_record_id st"
proof -
  have types: "types_ok st" using assms by (simp add: storage_ok_def)
  have "record_types st i = Some t \<Longrightarrow> i < next_record_id st" for t
    using types unfolding types_ok_def by blast
  then show "tasks st i = Some r \<Longrightarrow> i < next_record_id st" "submissions st i = Some s \<Longrightarrow> i < next_record_id st"
    using types unfolding types_ok_def typed_def by blast+
qed

text \<open>
  New owned work has a live owner: for every conversation and every task a batch creates with
  an owner, the owner is there once the batch is committed, is neither completing nor terminal, and
  is not marked for abort.
\<close>

theorem assembled_owners_live:
  assumes "tx_runs (new_transaction st conv task) tx" "storage_ok st" "assemble tx = (Inr ws, tx')"
    and "WConversation r \<in> set ws \<and> map_option snd (conv_owner r) = Some t \<or>
      (\<exists>i r'. candidate_task tx i = Some (CreateTask, r') \<and> task_owner r' = Some t)"
  shows "\<exists>owner. final_task st tx t = Some owner \<and> live_owner owner"
proof (rule assembled_writes[OF assms(1-3)])
  fix subs touched
  assume p: "ws = staged tx @ map (\<lambda>(i, r). WSubmission r) subs @ task_writes touched @ copy_writes (fork_copies tx)"
    "\<And>w. w \<in> set (conversation_owners (staged tx) @ task_owners (touched_tasks tx)) \<Longrightarrow>
       \<exists>r. final_task st tx (snd w) = Some r \<and> live_owner r"
  from assms(4) obtain what where "(what, t) \<in> set (conversation_owners (staged tx) @ task_owners (touched_tasks tx))"
  proof
    assume r: "WConversation r \<in> set ws \<and> map_option snd (conv_owner r) = Some t"
    then have "WConversation r \<in> set (staged tx)" by (auto simp: p(1) set_task_writes copy_writes_def)
    with r that show thesis by (force simp: conversation_owners_def map_filter_def)
  next
    assume "\<exists>i r'. candidate_task tx i = Some (CreateTask, r') \<and> task_owner r' = Some t"
    then obtain i r' where c: "candidate_task tx i = Some (CreateTask, r')" "task_owner r' = Some t" by blast
    then have "map_of (touched_tasks tx) i = Some (Some (CreateTask, r'))"
      by (simp add: candidate_task_def split: option.splits)
    with c have "(i, Some (CreateTask, r')) \<in> set (touched_tasks tx)" "task_owner r' = Some t" by (auto dest: map_of_SomeD)
    with that show thesis by (force simp: task_owners_def map_filter_def)
  qed
  from p(2)[OF this] show ?thesis by simp
qed

text \<open>
  A batch leaves terminal tasks alone: a task record it writes for an id the storage knows
  replaces one that is not terminal, in the same conversation.
\<close>

theorem assembled_spares_terminal:
  assumes "tx_runs (new_transaction st conv task) tx" "storage_ok st" "assemble tx = (Inr ws, tx')"
    and "WTask r \<in> set ws" "tasks st (task_id r) = Some old"
  shows "status_of (task_state_of old) \<noteq> Terminal \<and> task_conv old = task_conv r"
proof (rule assembled_writes[OF assms(1-3)])
  fix subs touched
  assume p: "ws = staged tx @ map (\<lambda>(i, r). WSubmission r) subs @ task_writes touched @ copy_writes (fork_copies tx)"
    "\<And>i k r. (i, Some (k, r)) \<in> set touched \<longleftrightarrow> candidate_task tx i = Some (k, r)"
    "\<And>i r. candidate_task tx i = Some (ReplaceTask, r) \<Longrightarrow>
       \<exists>c. tasks st i = Some c \<and> status_of (task_state_of c) \<noteq> Terminal \<and> task_conv c = task_conv r"
    "batch_ok st tx"
  have "case w of WConversation _ \<Rightarrow> True | WEntry _ \<Rightarrow> True | _ \<Rightarrow> False" if "w \<in> set (staged tx)" for w
    using p(4) that by (simp add: batch_ok_def list_all_iff)
  from this[of "WTask r"] assms(4) have "WTask r \<in> set (task_writes touched)"
    by (auto simp: p(1) copy_writes_def)
  then obtain i k where c: "candidate_task tx i = Some (k, r)" by (auto simp: set_task_writes p(2))
  then have i: "task_id r = i" using p(4) unfolding batch_ok_def by blast
  have "i < next_record_id st"
    using stored_old(1)[OF assms(2,5)] i by simp
  moreover have "created_tasks tx \<subseteq> {next_record_id st ..< next_record_id (tx_store tx)}"
    using p(4) unfolding batch_ok_def by blast
  ultimately have "k \<noteq> CreateTask" using c by (auto simp: created_tasks_def)
  then have "k = ReplaceTask" by (cases k) simp_all
  with p(3)[of i r] c assms(5) i show ?thesis by auto
qed

lemma written_submission:
  assumes "tx_runs (new_transaction st conv task) tx" "storage_ok st" "assemble tx = (Inr ws, tx')"
    and "WSubmission r \<in> set ws" "submissions st (sub_id r) = Some old"
  shows "forward old r"
proof (rule assembled_writes[OF assms(1-3)])
  fix subs touched
  assume p: "ws = staged tx @ map (\<lambda>(i, r). WSubmission r) subs @ task_writes touched @ copy_writes (fork_copies tx)"
    "subs_ok st (new_submissions tx) subs" "batch_ok st tx"
  have "case w of WConversation _ \<Rightarrow> True | WEntry _ \<Rightarrow> True | _ \<Rightarrow> False" if "w \<in> set (staged tx)" for w
    using p(3) that by (simp add: batch_ok_def list_all_iff)
  from this[of "WSubmission r"] assms(4) obtain i where "(i, r) \<in> set subs"
    by (auto simp: p(1) copy_writes_def set_task_writes)
  then have "map_of subs i = Some r" using p(2) by (simp add: subs_ok_def)
  with p(2) obtain old' where o': "sub_id r = i" "forward old' r"
      "map_of (new_submissions tx) i = Some old' \<or> submissions st i = Some old'"
    unfolding subs_ok_def sub_traced_def by blast
  have "i < next_record_id st"
    using stored_old(2)[OF assms(2,5)] o'(1) by simp
  moreover have "set (map fst (new_submissions tx)) \<subseteq> {next_record_id st ..< next_record_id (tx_store tx)}"
    using p(3) unfolding batch_ok_def claimed_ids_def by auto
  ultimately have "i \<notin> fst ` set (new_submissions tx)" by auto
  then have "map_of (new_submissions tx) i = None" by (simp add: map_of_eq_None_iff)
  with o' assms(5) show ?thesis by simp
qed

text \<open>
  Submissions only move forward: a record a batch writes for a stored submission keeps its
  identity, a settled one is written unchanged, and a placed one keeps its entry and never
  returns to the queue.
\<close>

theorem assembled_submissions_forward:
  assumes "tx_runs (new_transaction st conv task) tx" "storage_ok st" "assemble tx = (Inr ws, tx')"
    and "WSubmission r \<in> set ws" "submissions st (sub_id r) = Some old"
  shows "forward old r"
  by (rule written_submission[OF assms])

section \<open>Reads come first\<close>

definition steady :: "'a tx_op \<Rightarrow> bool" where
  "steady m \<longleftrightarrow> (\<forall>tx. (has_table_write tx \<longrightarrow> has_table_write (snd (m tx))) \<and> sealed (snd (m tx)) = sealed tx)"

lemma steady_growing: "growing m \<Longrightarrow> steady m"
  unfolding steady_def growing_def using grows_same by blast

lemma steady_then: "steady m \<Longrightarrow> (\<And>a. steady (f a)) \<Longrightarrow> steady (then_tx m f)"
proof -
  assume m: "steady m" and f: "\<And>a. steady (f a)"
  have "(has_table_write tx \<longrightarrow> has_table_write (snd (then_tx m f tx))) \<and> sealed (snd (then_tx m f tx)) = sealed tx" for tx
  proof (cases "m tx")
    case (Pair r tx1)
    with m have "has_table_write tx \<longrightarrow> has_table_write tx1" "sealed tx1 = sealed tx"
      unfolding steady_def by (metis snd_conv)+
    with Pair f show ?thesis by (cases r) (auto simp: then_tx_def steady_def)
  qed
  then show ?thesis by (simp add: steady_def)
qed

lemma steady_change:
  "(\<And>tx. has_table_write (f tx) = has_table_write tx) \<Longrightarrow> (\<And>tx. sealed (f tx) = sealed tx) \<Longrightarrow> steady (change_tx f)"
  by (simp add: steady_def change_tx_def)

lemma steady_write: "steady m \<Longrightarrow> steady (write_tx m)"
  by (simp add: steady_def write_tx_def)

lemma steady_push:
  "(\<And>tx. has_table_write (f tx) = has_table_write tx) \<Longrightarrow> (\<And>tx. sealed (f tx) = sealed tx) \<Longrightarrow> steady (\<lambda>tx. (g tx, f tx))"
  by (simp add: steady_def)

lemma steady_basic [simp]: "steady (return_tx a)" "steady (fail_tx e)" "steady mint_tx" "steady (require_conversation i)"
  "steady (owner_of o')" "steady (task_owner_of opts)" "steady (copies_for parent i)"
  by (rule steady_growing, simp)+

lemma steady_put [simp]: "has_table_write (put_touched i k r tx) = has_table_write tx" "sealed (put_touched i k r tx) = sealed tx"
  by (simp_all add: put_touched_def)

lemma steady_stage: "steady (stage_conversation parent ownership None)"
  unfolding stage_conversation_def option.case Let_def
  by (intro steady_then steady_change) simp_all

lemma steady_append: "steady (append_entry conv d)"
  unfolding append_entry_def Let_def by (intro steady_write steady_then steady_push) simp_all

lemma steady_case:
  "steady g \<Longrightarrow> (\<And>c. steady (f c)) \<Longrightarrow> steady (\<lambda>tx. case h tx of None \<Rightarrow> g tx | Some c \<Rightarrow> f c tx)"
  by (auto simp: steady_def split: option.split)

lemma steady_create_task: "steady (create_task def input opts)"
  unfolding create_task_def Let_def
  by (rule steady_write, rule steady_then, simp, rule steady_case, simp, intro steady_then steady_change) simp_all

lemma steady_submission: "steady (create_submission given)"
  unfolding create_submission_def Let_def
  by (intro steady_write steady_then steady_change) simp_all

lemma steady_changes: "steady (change_submission i c)"
  unfolding change_submission_def by (intro steady_write steady_change) simp_all

lemma steady_set_task: "steady (set_task now r)"
proof -
  have "has_table_write (touch_task i a) = has_table_write a" "sealed (touch_task i a) = sealed a" for i a
    by (simp_all add: touch_task_def)
  then show ?thesis by (auto simp: steady_def set_task_def Let_def split: option.split prod.split)
qed

lemma steady_read: "steady (tx_task_record i)"
proof -
  have "grows tx (snd (tx_task_record i tx))" for tx
    using growing_committed_task[of i] by (auto simp: growing_def tx_task_record_def read_tx_def lift_tx_def)
  then have "growing (tx_task_record i)" by (simp add: growing_def)
  then show ?thesis by (rule steady_growing)
qed

lemma steady_created: "steady (create_conversation ownership)" "steady (fork_conversation parent at ownership)"
  "steady (settle_submission i c)" "steady (place_submission i e)"
  by (simp_all add: create_conversation_def fork_conversation_def settle_submission_def place_submission_def
      steady_write steady_stage steady_changes)

lemmas steady_ops = steady_created steady_read steady_set_task steady_submission steady_append steady_create_task

lemma steadyD: "steady m \<Longrightarrow> (has_table_write tx \<longrightarrow> has_table_write (snd (m tx))) \<and> sealed (snd (m tx)) = sealed tx"
  by (simp add: steady_def)

lemma table_write_step: "tx_step tx tx' \<Longrightarrow> (has_table_write tx \<longrightarrow> has_table_write tx') \<and> sealed tx' = sealed tx"
  by (erule tx_step_cases; simp only:; rule steady_ops[THEN steadyD])

lemma table_write_runs: "tx_runs tx tx' \<Longrightarrow> has_table_write tx \<Longrightarrow> has_table_write tx' \<and> sealed tx' = sealed tx"
  by (rule tx_invariant[where I = "\<lambda>a. has_table_write a \<and> sealed a = sealed tx" and tx = tx])
    (auto dest: table_write_step)

text \<open>
  Once a transaction has tried a table write, every table read is refused with
  \<open>ReadAfterWrite\<close>, whatever it does in between, and the refusal leaves it unchanged.
\<close>

theorem reads_refused_after_write:
  assumes "has_table_write tx" "\<not> sealed tx" "tx_runs tx tx'"
  shows "tx_conversation i tx' = (Inl (ReadAfterWrite ''conversation''), tx') \<and>
    tx_entry kind i tx' = (Inl (ReadAfterWrite ''entry''), tx') \<and>
    tx_task_record i tx' = (Inl (ReadAfterWrite ''task''), tx') \<and>
    tx_scan_conversations cq limit c tx' = (Inl (ReadAfterWrite ''scanConversations''), tx') \<and>
    tx_scan_entries eq limit c tx' = (Inl (ReadAfterWrite ''scanEntries''), tx') \<and>
    tx_latest_head_marker i tx' = (Inl (ReadAfterWrite ''latestHeadMarker''), tx') \<and>
    tx_scan_tasks tq limit c tx' = (Inl (ReadAfterWrite ''scanTasks''), tx') \<and>
    tx_submission i tx' = (Inl (ReadAfterWrite ''submission''), tx') \<and>
    tx_submission_by_request i req tx' = (Inl (ReadAfterWrite ''submissionByRequest''), tx')"
  using table_write_runs[OF assms(3,1)] assms(2)
  by (simp add: tx_conversation_def tx_entry_def tx_task_record_def tx_scan_conversations_def tx_scan_entries_def
      tx_latest_head_marker_def tx_scan_tasks_def tx_submission_def tx_submission_by_request_def read_tx_def)

section \<open>A transaction to look at\<close>

definition queued_submission :: submission_record where
  "queued_submission = \<lparr>sub_id = 10, sub_conv = 2, sub_request = Some ''r'', sub_type = InputSubmission, sub_status = Queued,
     sub_entry = None, sub_answer = None, sub_reason = None, sub_detail = None\<rparr>"

definition session_storage :: mem_state where
  "session_storage = committed sample_storage [WSubmission queued_submission]"

definition sample_draft :: entry_draft where
  "sample_draft = \<lparr>draft_kind = ''note'', draft_model = None, draft_data = None, draft_head_of = Some HeadSelf, draft_edits = None\<rparr>"

definition sample_definition :: task_definition where
  "sample_definition = \<lparr>def_name = ''child'', def_version = 1, def_initial = (\<lambda>input. input)\<rparr>"

definition child_options :: task_options where
  "child_options = \<lparr>opt_owner = Some 7, opt_background = False, opt_conversation = None, opt_abandon = False\<rparr>"

definition first_tx :: transaction where
  "first_tx = new_transaction session_storage (Some 2) None"

definition entered_tx :: transaction where
  "entered_tx = snd (append_entry 2 sample_draft first_tx)"

definition sample_tx :: transaction where
  "sample_tx =
     snd (place_submission 10 11
       (snd (set_task 5 (sample_task 8 (TTerminal (Completed (Prim PNull))))
         (snd (create_conversation (Some 7)
           (snd (create_task sample_definition (Prim PNull) child_options entered_tx)))))))"

definition sample_batch :: "storage_write list" where
  "sample_batch = (case fst (assemble sample_tx) of Inl _ \<Rightarrow> [] | Inr ws \<Rightarrow> ws)"

lemma session_ok: "storage_ok session_storage"
  unfolding session_storage_def sample_storage_def
  by (intro storage_ok_runs[OF run_committed] storage_ok_runs[OF run_committed storage_ok_empty])

lemma session_open: "\<not> closed session_storage" "is_safe_integer (next_seq session_storage)"
  by code_simp+

lemma sample_runs: "tx_runs (new_transaction session_storage (Some 2) None) entered_tx"
  "tx_runs (new_transaction session_storage (Some 2) None) sample_tx"
  unfolding sample_tx_def entered_tx_def first_tx_def
  by (rule runs_step[OF runs_refl step_entry],
      rule runs_step[OF runs_step[OF runs_step[OF runs_step[OF runs_step[OF runs_refl step_entry]
        step_create_task] step_conversation] step_set_task] step_place])

lemma sample_result: "map_sum (\<lambda>_. ()) length (fst (assemble sample_tx)) = Inr 5"
  by code_simp

lemma sample_assembled: "assemble sample_tx = (Inr sample_batch, snd (assemble sample_tx))"
  using sample_result by (cases "assemble sample_tx"; cases "fst (assemble sample_tx)") (auto simp: sample_batch_def)

lemma batch_writes:
  "list_ex (\<lambda>w. case w of WConversation r \<Rightarrow> map_option snd (conv_owner r) = Some 7 | _ \<Rightarrow> False) sample_batch \<and>
   list_ex (\<lambda>w. case w of WTask r \<Rightarrow> task_id r = 8 | _ \<Rightarrow> False) sample_batch \<and>
   list_ex (\<lambda>w. case w of WSubmission r \<Rightarrow> sub_id r = 10 \<and> sub_status r = Placed | _ \<Rightarrow> False) sample_batch \<and>
   tasks session_storage 8 \<noteq> None \<and> submissions session_storage 10 \<noteq> None"
  by code_simp

lemma batch_members:
  "\<exists>r. WConversation r \<in> set sample_batch \<and> map_option snd (conv_owner r) = Some 7"
  "\<exists>r. WTask r \<in> set sample_batch \<and> task_id r = 8"
  "\<exists>r. WSubmission r \<in> set sample_batch \<and> sub_id r = 10 \<and> sub_status r = Placed"
  using batch_writes[THEN conjunct1] batch_writes[THEN conjunct2, THEN conjunct1]
    batch_writes[THEN conjunct2, THEN conjunct2, THEN conjunct1]
  unfolding list_ex_iff by (elim bexE; auto split: storage_write.splits)+

text \<open>A transaction that forks, and so copies the document of the entry's conversation.\<close>

definition forked_tx :: transaction where
  "forked_tx = snd (append_entry 2 sample_draft (snd (fork_conversation 5 3 (Some 7) first_tx)))"

definition forked_batch :: "storage_write list" where
  "forked_batch = (case fst (assemble forked_tx) of Inl _ \<Rightarrow> [] | Inr ws \<Rightarrow> ws)"

lemma forked_runs: "tx_runs (new_transaction session_storage (Some 2) None) forked_tx"
  unfolding forked_tx_def first_tx_def by (rule runs_step[OF runs_step[OF runs_refl step_fork] step_entry])

lemma forked_result: "map_sum (\<lambda>_. ()) length (fst (assemble forked_tx)) = Inr 3 \<and>
    map (\<lambda>c. (doc_id (copy_record c), copy_source c, copy_at c)) (fork_copies forked_tx) = [(12, 9, AsOf 1)]"
  by code_simp

lemma forked_assembled: "assemble forked_tx = (Inr forked_batch, snd (assemble forked_tx))"
  using forked_result by (cases "assemble forked_tx"; cases "fst (assemble forked_tx)") (auto simp: forked_batch_def)

lemma session_documents:
  assumes "documents session_storage i = Some d"
  shows "i = 9"
proof -
  have made: "map_sum (\<lambda>_. ()) (\<lambda>(_, as). map fst as) (prepare_commit empty_storage sample_writes 1) = Inr [9]"
    "map_sum (\<lambda>_. ()) (\<lambda>(_, as). map fst as) (prepare_commit sample_storage [WSubmission queued_submission] 2) = Inr []"
    by code_simp+
  obtain st1 where one: "commit empty_storage sample_writes = Inr (1, st1)"
    using sample_commit by (cases "commit empty_storage sample_writes") auto
  have "map_sum (\<lambda>_. ()) fst (commit sample_storage [WSubmission queued_submission]) = Inr 2" by code_simp
  then obtain st2 where two: "commit sample_storage [WSubmission queued_submission] = Inr (2, st2)"
    by (cases "commit sample_storage [WSubmission queued_submission]") auto
  have st: "sample_storage = st1" "session_storage = st2"
    using one two by (simp_all add: sample_storage_def session_storage_def committed_def)
  obtain ds as where p1: "prepare_commit empty_storage sample_writes 1 = Inr (ds, as)" "applied empty_storage 1 as st1"
    by (rule commit_parts[OF storage_ok_empty one])
  obtain ds' as' where p2: "prepare_commit sample_storage [WSubmission queued_submission] 2 = Inr (ds', as')" "applied sample_storage 2 as' st2"
    by (rule commit_parts[OF sample_ok two])
  have "map fst as = [9]" "as' = []" using made p1(1) p2(1) by simp_all
  then have "map_of as i = None \<or> i = 9" "documents st2 i = documents st1 i"
    using p2(2) by (auto simp: applied_def st(1) dest!: map_of_SomeD)
  with p1(2) assms st(2) show ?thesis by (auto simp: applied_def empty_storage_def)
qed

lemma session_forkable: "documents_forkable session_storage"
proof -
  have e: "map_option (\<lambda>d. (doc_scope_of (stored_record d), doc_history_of (stored_record d), map rev_content (stored_revisions d)))
      (documents session_storage 9) = Some (ConversationScope 2, Some Rewindable, [CBase 1 (Obj [(''n'', Prim (PNum (NInt 1)))])])"
    "next_record_id session_storage = 11" by code_simp+
  then obtain d r where d: "documents session_storage 9 = Some d" "doc_scope_of (stored_record d) = ConversationScope 2"
    "doc_history_of (stored_record d) = Some Rewindable" "stored_revisions d = [r]" "rev_content r = CBase 1 (Obj [(''n'', Prim (PNum (NInt 1)))])"
    by auto
  then have "materialize_document session_storage 9 at \<noteq> Inl (DeltaFailed 9)" for at
    by (auto simp: materialize_document_def split: doc_point.split)
  moreover have "i = 9 \<and> d' = d" if "documents session_storage i = Some d'" for i d'
    using session_documents[OF that] that d(1) by simp
  ultimately show ?thesis using d(2,3) e(2) unfolding documents_forkable_def by fastforce
qed

theorem assembled_commits_witness:
  "length forked_batch = 3 \<and> fork_copies forked_tx \<noteq> [] \<and>
   (\<exists>st'. commit (tx_store (snd (assemble forked_tx))) forked_batch = Inr (next_seq session_storage, st'))"
proof (intro conjI)
  show "length forked_batch = 3"
    using forked_result forked_assembled by (metis map_sum.simps(2) fst_conv sum.inject(2))
  show "fork_copies forked_tx \<noteq> []" using forked_result by auto
  show "\<exists>st'. commit (tx_store (snd (assemble forked_tx))) forked_batch = Inr (next_seq session_storage, st')"
    using assembled_commits[OF forked_runs session_ok forked_assembled _ session_open(1,2)] session_forkable by blast
qed

theorem assembled_owners_live_witness:
  "\<exists>owner. final_task session_storage sample_tx 7 = Some owner \<and> live_owner owner"
proof -
  obtain r where "WConversation r \<in> set sample_batch" "map_option snd (conv_owner r) = Some 7"
    using batch_members by blast
  with assembled_owners_live[OF sample_runs(2) session_ok sample_assembled] show ?thesis by blast
qed

theorem assembled_spares_terminal_witness:
  "\<exists>r old. WTask r \<in> set sample_batch \<and> tasks session_storage (task_id r) = Some old \<and> status_of (task_state_of old) \<noteq> Terminal"
proof -
  obtain r where r: "WTask r \<in> set sample_batch" "task_id r = 8"
    using batch_members by blast
  obtain old where "tasks session_storage (task_id r) = Some old" using batch_writes r by auto
  with assembled_spares_terminal[OF sample_runs(2) session_ok sample_assembled r(1)] r show ?thesis by blast
qed

theorem assembled_submissions_forward_witness:
  "\<exists>r old. WSubmission r \<in> set sample_batch \<and> submissions session_storage 10 = Some old \<and> sub_status r = Placed \<and> forward old r"
proof -
  obtain r where r: "WSubmission r \<in> set sample_batch" "sub_id r = 10" "sub_status r = Placed"
    using batch_members by blast
  obtain old where "submissions session_storage (sub_id r) = Some old" using batch_writes r by auto
  with assembled_submissions_forward[OF sample_runs(2) session_ok sample_assembled r(1)] r show ?thesis by auto
qed

theorem reads_refused_after_write_witness:
  "fst (tx_conversation 2 first_tx) \<noteq> Inl (ReadAfterWrite ''conversation'') \<and>
   fst (tx_conversation 2 entered_tx) = Inl (ReadAfterWrite ''conversation'')"
proof
  have "has_table_write entered_tx" "\<not> sealed entered_tx" by code_simp+
  from reads_refused_after_write[OF this runs_refl] show "fst (tx_conversation 2 entered_tx) = Inl (ReadAfterWrite ''conversation'')"
    by simp
  show "fst (tx_conversation 2 first_tx) \<noteq> Inl (ReadAfterWrite ''conversation'')"
    by (simp add: tx_conversation_def read_tx_def first_tx_def new_transaction_def lift_tx_def split: sum.split)
qed

end
