(* ===== verification/Truncate_Head.thy ===== *)
theory Truncate_Head
  imports Output_Bound "HOL-Library.Sublist"
begin

text \<open>
  Truncating a tool's text to its first whole lines (\<open>packages/durable/src/truncate.ts\<close>). A
  text is its UTF-8 encoding, as in \<open>Output_Bound\<close>: splitting at newlines, joining and taking
  prefixes commute with the encoding, whose length is what \<open>utf8ByteLength\<close> counts.
\<close>

section \<open>Lines\<close>

text \<open>\<open>content.split("\n")\<close> and \<open>lines.join("\n")\<close>.\<close>

fun split_lines :: "utf8 \<Rightarrow> utf8 list" where
  "split_lines [] = [[]]"
| "split_lines (b # bs) =
     (if b = NEWLINE then [] # split_lines bs
      else (b # hd (split_lines bs)) # tl (split_lines bs))"

fun join_lines :: "utf8 list \<Rightarrow> utf8" where
  "join_lines [] = []"
| "join_lines [l] = l"
| "join_lines (l # ls) = l @ NEWLINE # join_lines ls"

definition split_lines_for_counting :: "utf8 \<Rightarrow> utf8 list" where
  "split_lines_for_counting content =
     (if content = [] then []
      else if ends_with_newline content then butlast (split_lines content) else split_lines content)"

section \<open>Truncation\<close>

definition DEFAULT_MAX_LINES :: nat where "DEFAULT_MAX_LINES = 2000"
definition DEFAULT_MAX_BYTES :: nat where "DEFAULT_MAX_BYTES = 50 * 1024"

datatype truncated_by = ByLines | ByBytes

record truncation_result =
  tr_content :: utf8
  tr_truncated :: bool
  tr_truncated_by :: "truncated_by option"
  tr_total_lines :: nat
  tr_total_bytes :: nat
  tr_output_lines :: nat
  tr_output_bytes :: nat
  tr_last_line_partial :: bool
  tr_first_line_exceeds :: bool
  tr_max_lines :: nat
  tr_max_bytes :: nat

record truncation_options =
  opt_max_lines :: "nat option"
  opt_max_bytes :: "nat option"

record text_totals =
  total_lines :: nat
  total_bytes :: nat

text \<open>\<open>utf8ByteLength(lines[0])\<close> throws when there is no line.\<close>

datatype truncate_error = NoFirstLine

text \<open>
  The loop over the lines from the \<open>i\<close>-th on, with \<open>count\<close> bytes collected: the lines it adds,
  and whether it left by the limit on bytes.
\<close>

fun collect_lines :: "nat \<Rightarrow> nat \<Rightarrow> nat \<Rightarrow> nat \<Rightarrow> utf8 list \<Rightarrow> utf8 list \<times> bool" where
  "collect_lines most_lines most_bytes i count [] = ([], False)"
| "collect_lines most_lines most_bytes i count (line # lines) =
     (if i < most_lines then
        (let line_bytes = length line + (if i > 0 then 1 else 0) in
         if count + line_bytes > most_bytes then ([], True)
         else (let (out, over) = collect_lines most_lines most_bytes (Suc i) (count + line_bytes) lines
           in (line # out, over)))
      else ([], False))"

definition limit_lines :: "truncation_options \<Rightarrow> nat" where
  "limit_lines options = (case opt_max_lines options of None \<Rightarrow> DEFAULT_MAX_LINES | Some n \<Rightarrow> n)"

definition limit_bytes :: "truncation_options \<Rightarrow> nat" where
  "limit_bytes options = (case opt_max_bytes options of None \<Rightarrow> DEFAULT_MAX_BYTES | Some n \<Rightarrow> n)"

definition truncate_head_of ::
    "utf8 \<Rightarrow> text_totals \<Rightarrow> truncation_options \<Rightarrow> (truncate_error, truncation_result) result" where
  "truncate_head_of known totals options =
     (let most_lines = limit_lines options; most_bytes = limit_bytes options;
          lines = split_lines_for_counting known;
          result = \<lparr>tr_content = known, tr_truncated = False, tr_truncated_by = None,
            tr_total_lines = total_lines totals, tr_total_bytes = total_bytes totals,
            tr_output_lines = total_lines totals, tr_output_bytes = total_bytes totals,
            tr_last_line_partial = False, tr_first_line_exceeds = False,
            tr_max_lines = most_lines, tr_max_bytes = most_bytes\<rparr>
      in if total_lines totals \<le> most_lines \<and> total_bytes totals \<le> most_bytes then Inr result
      else (case lines of
          [] \<Rightarrow> Inl NoFirstLine
        | first # _ \<Rightarrow>
            if length first > most_bytes
            then Inr (result\<lparr>tr_content := [], tr_truncated := True, tr_truncated_by := Some ByBytes,
              tr_output_lines := 0, tr_output_bytes := 0, tr_first_line_exceeds := True\<rparr>)
            else
              (let (out, over) = collect_lines most_lines most_bytes 0 0 lines;
                   content = join_lines out
               in Inr (result\<lparr>tr_content := content, tr_truncated := True,
                 tr_truncated_by := Some (if over then ByBytes
                   else if length out < total_lines totals then ByLines else ByBytes),
                 tr_output_lines := length out, tr_output_bytes := length content\<rparr>))))"

definition totals_of :: "utf8 \<Rightarrow> text_totals" where
  "totals_of content =
     \<lparr>total_lines = length (split_lines_for_counting content), total_bytes = length content\<rparr>"

definition truncate_head :: "utf8 \<Rightarrow> truncation_options \<Rightarrow> (truncate_error, truncation_result) result" where
  "truncate_head content options = truncate_head_of content (totals_of content) options"

section \<open>Lines of a text\<close>

lemma split_lines_nonempty [simp]: "split_lines t \<noteq> []"
  by (cases t) auto

lemma split_lines_append:
  "split_lines (p @ s) = butlast (split_lines p) @ (last (split_lines p) @ hd (split_lines s)) # tl (split_lines s)"
proof (induction p)
  case (Cons b p)
  then show ?case by (cases "split_lines p") auto
qed simp

lemma length_split_lines: "length (split_lines t) = Suc (count_newlines t)"
proof (induction t)
  case (Cons b t)
  then show ?case by (cases "split_lines t") auto
qed (simp add: count_newlines_def)

lemma join_split_lines: "join_lines (split_lines t) = t"
proof (induction t)
  case (Cons b t)
  then show ?case
    by (cases "split_lines t" rule: join_lines.cases) (auto split: if_splits)
qed simp

lemma split_lines_newline: "split_lines (t @ [NEWLINE]) = split_lines t @ [[]]"
  using append_butlast_last_id[of "split_lines t"] by (simp add: split_lines_append)

lemma join_lines_snoc: "ls \<noteq> [] \<Longrightarrow> join_lines (ls @ [l]) = join_lines ls @ NEWLINE # l"
  by (induction ls rule: join_lines.induct) auto

lemma join_lines_append: "ls \<noteq> [] \<Longrightarrow> ms \<noteq> [] \<Longrightarrow> join_lines (ls @ ms) = join_lines ls @ NEWLINE # join_lines ms"
proof (induction ls rule: join_lines.induct)
  case (2 l)
  then show ?case by (cases ms) auto
qed auto

lemma counting_cases:
  obtains (empty) "t = []" "split_lines_for_counting t = []"
    | (closed) u where "t = u @ [NEWLINE]" "split_lines_for_counting t = split_lines u"
    | (opened) "t \<noteq> []" "split_lines_for_counting t = split_lines t" "last t \<noteq> NEWLINE"
proof (cases t rule: rev_cases)
  case (snoc u b)
  show thesis
  proof (cases "b = NEWLINE")
    case True
    then show thesis using snoc closed
      by (simp add: split_lines_for_counting_def ends_with_newline_def split_lines_newline)
  next
    case False
    then show thesis using snoc opened by (simp add: split_lines_for_counting_def ends_with_newline_def)
  qed
qed (simp add: split_lines_for_counting_def empty)

text \<open>The counted lines are the lines the windows of bounded output count.\<close>

lemma length_split_lines_for_counting: "length (split_lines_for_counting t) = line_count t"
  by (cases t rule: counting_cases) (auto simp: line_count_def length_split_lines)

section \<open>The loop\<close>

text \<open>What collecting the lines \<open>ls\<close> from the \<open>i\<close>-th on costs.\<close>

fun lines_cost :: "nat \<Rightarrow> utf8 list \<Rightarrow> nat" where
  "lines_cost i [] = 0"
| "lines_cost i (l # ls) = length l + (if i > 0 then 1 else 0) + lines_cost (Suc i) ls"

lemma lines_cost_append: "lines_cost i (ls @ ms) = lines_cost i ls + lines_cost (i + length ls) ms"
  by (induction ls arbitrary: i) auto

lemma lines_cost_Suc: "ls \<noteq> [] \<Longrightarrow> lines_cost (Suc i) ls = Suc (length (join_lines ls))"
  by (induction ls arbitrary: i rule: join_lines.induct) auto

lemma lines_cost_0: "lines_cost 0 ls = length (join_lines ls)"
proof (cases ls rule: join_lines.cases)
  case (3 l k ks)
  then show ?thesis using lines_cost_Suc[of "k # ks" 0] by simp
qed auto

lemma collect_take: "collect_lines ll lb i count ls = collect_lines ll lb i count (take (ll - i) ls)"
proof (induction ls arbitrary: i count)
  case (Cons l ls)
  show ?case
  proof (cases "i < ll")
    case True
    then have "ll - i = Suc (ll - Suc i)" by simp
    then show ?thesis using True by (simp add: Cons[of "Suc i"] Let_def)
  qed simp
qed simp

lemma collect_over_prefix:
  "count \<le> lb \<Longrightarrow> count + lines_cost i ls > lb \<Longrightarrow>
     collect_lines ll lb i count (ls @ ms) = collect_lines ll lb i count ls"
proof (induction ls arbitrary: i count)
  case (Cons l ls)
  show ?case
  proof (cases "count + (length l + (if i > 0 then 1 else 0)) > lb")
    case False
    with Cons.prems have "count + (length l + (if i > 0 then 1 else 0)) + lines_cost (Suc i) ls > lb" by simp
    from Cons.IH[OF _ this] False show ?thesis by (simp add: Let_def)
  qed simp
qed simp

lemma collect_over_line:
  "count + lines_cost i (ls @ [q]) > lb \<Longrightarrow>
     collect_lines ll lb i count (ls @ [q]) = collect_lines ll lb i count (ls @ (q @ x) # ms)"
proof (induction ls arbitrary: i count)
  case (Cons l ls)
  show ?case
  proof (cases "count + (length l + (if i > 0 then 1 else 0)) > lb")
    case False
    with Cons.prems have "count + (length l + (if i > 0 then 1 else 0)) + lines_cost (Suc i) (ls @ [q]) > lb" by simp
    from Cons.IH[OF this] show ?thesis by (simp add: Let_def)
  qed simp
qed auto

text \<open>The collected lines are the longest run of lines within both limits.\<close>

lemma collect_lines_prefix:
  assumes "collect_lines ll lb i count ls = (out, over)" "count \<le> lb"
  shows "prefix out ls \<and> (i \<le> ll \<longrightarrow> i + length out \<le> ll) \<and> count + lines_cost i out \<le> lb \<and>
     (if over then i + length out < ll \<and> length out < length ls \<and> count + lines_cost i (take (Suc (length out)) ls) > lb
      else ll \<le> i + length out \<or> out = ls)"
  using assms
proof (induction ls arbitrary: i count out over)
  case (Cons l ls)
  let ?n = "length l + (if i > 0 then 1 else 0)"
  show ?case
  proof (cases "i < ll \<and> count + ?n \<le> lb")
    case True
    then obtain out' where c: "collect_lines ll lb (Suc i) (count + ?n) ls = (out', over)" "out = l # out'"
      using Cons.prems(1) by (auto simp: Let_def split: prod.splits)
    from Cons.IH[OF c(1)] True c(2) show ?thesis by (auto split: if_splits)
  next
    case False
    with Cons.prems show ?thesis by (auto split: if_splits)
  qed
qed auto


section \<open>Truncating a known prefix\<close>

lemma counting_append:
  assumes "p \<noteq> []"
  obtains C q x ms where "split_lines_for_counting p = C @ q" "C @ q \<noteq> []" "length q \<le> 1"
    "split_lines_for_counting (p @ s) = C @ (if q = [] then ms else (hd q @ x) # ms)"
    "q = [] \<Longrightarrow> length p = Suc (lines_cost 0 C)" "q \<noteq> [] \<Longrightarrow> length p = lines_cost 0 (C @ q)"
    "count_newlines p = length C"
proof -
  let ?C = "butlast (split_lines p)" let ?l = "last (split_lines p)"
  have sp: "split_lines p = ?C @ [?l]" by simp
  have n: "count_newlines p = length ?C" by (simp add: length_split_lines)
  have c: "split_lines (p @ s) = ?C @ (?l @ hd (split_lines s)) # tl (split_lines s)" by (rule split_lines_append)
  show thesis
  proof (cases p rule: counting_cases)
    case empty
    then show thesis using assms by simp
  next
    case (closed u)
    then have C: "?C = split_lines u" "?l = []" by (simp_all add: split_lines_newline)
    have "length p = Suc (lines_cost 0 (split_lines u))" using closed(1) by (simp add: lines_cost_0 join_split_lines)
    moreover have "\<exists>ms. split_lines_for_counting (p @ s) = ?C @ ms"
    proof (cases "s = []")
      case True
      then show ?thesis using closed C by simp
    next
      case False
      have "tl (split_lines s) \<noteq> []" if "last s = NEWLINE"
        using False that by (cases s rule: rev_cases) (auto simp: split_lines_newline tl_append split: list.split)
      then show ?thesis using False c
        by (auto simp: split_lines_for_counting_def ends_with_newline_def butlast_append)
    qed
    ultimately obtain ms where "length p = Suc (lines_cost 0 (split_lines u))"
      "split_lines_for_counting (p @ s) = split_lines u @ ms" using C by auto
    then show thesis using closed C n by (intro that[of "split_lines u" "[]" ms "[]"]) auto
  next
    case opened
    have "length p = lines_cost 0 (?C @ [?l])" using sp lines_cost_0[of "split_lines p"] by (simp add: join_split_lines)
    moreover have "\<exists>x ms. split_lines_for_counting (p @ s) = ?C @ (?l @ x) # ms"
    proof (cases "s = []")
      case True
      then show ?thesis using opened sp by (intro exI[of _ "[]"]) simp
    next
      case False
      have "tl (split_lines s) \<noteq> []" if "last s = NEWLINE"
        using False that by (cases s rule: rev_cases) (auto simp: split_lines_newline tl_append split: list.split)
      then show ?thesis using False c
        by (auto simp: split_lines_for_counting_def ends_with_newline_def butlast_append)
    qed
    ultimately show thesis using that[of ?C "[?l]"] opened sp n by auto
  qed
qed


lemma line_count_append: "count_newlines p \<ge> line_count (p @ s) \<Longrightarrow> p \<noteq> [] \<Longrightarrow> s = []"
  by (cases s rule: rev_cases) (auto simp: line_count_def split: if_splits)

text \<open>With the same first lines, as far as the loop looks, the result is the same.\<close>

lemma truncate_same_lines:
  assumes "\<not> (total_lines totals \<le> limit_lines options \<and> total_bytes totals \<le> limit_bytes options)"
    and "map_option (min (Suc (limit_bytes options)) \<circ> length) (case split_lines_for_counting p of [] \<Rightarrow> None | l # _ \<Rightarrow> Some l)
       = map_option (min (Suc (limit_bytes options)) \<circ> length) (case split_lines_for_counting t of [] \<Rightarrow> None | l # _ \<Rightarrow> Some l)"
    and "collect_lines (limit_lines options) (limit_bytes options) 0 0 (split_lines_for_counting p)
       = collect_lines (limit_lines options) (limit_bytes options) 0 0 (split_lines_for_counting t)"
  shows "truncate_head_of p totals options = truncate_head_of t totals options"
proof (cases "split_lines_for_counting p")
  case Nil
  with assms(1,2) show ?thesis by (simp only: truncate_head_of_def Let_def if_False list.case) (auto split: list.splits)
next
  case p: (Cons l ls)
  with assms(2) obtain k ks where t: "split_lines_for_counting t = k # ks"
    "min (Suc (limit_bytes options)) (length l) = min (Suc (limit_bytes options)) (length k)"
    by (auto split: list.splits)
  have "limit_bytes options < length l \<longleftrightarrow> limit_bytes options < length k" using t(2) by linarith
  with assms(1,3) p t(1) show ?thesis
    by (simp only: truncate_head_of_def Let_def if_False list.case) (simp split: prod.split)
qed

text \<open>
  Truncating a text known by a prefix and its totals gives what truncating the whole text
  gives, when the prefix is the whole text, or longer than the limit on bytes by more than one,
  or holds as many newlines as the limit on lines, which is then at least one.
\<close>

theorem truncate_head_of_prefix:
  assumes "s = [] \<or> length p > limit_bytes options + 1 \<or>
    limit_lines options \<ge> 1 \<and> count_newlines p \<ge> limit_lines options"
  shows "truncate_head_of p (totals_of (p @ s)) options = truncate_head (p @ s) options"
proof (cases "s = [] \<or> (total_lines (totals_of (p @ s)) \<le> limit_lines options \<and> total_bytes (totals_of (p @ s)) \<le> limit_bytes options)")
  case True
  moreover have "s = []" if "line_count (p @ s) \<le> limit_lines options" "length (p @ s) \<le> limit_bytes options"
    using assms that line_count_append[of p s] by (cases "p = []") (auto simp: count_newlines_def)
  ultimately have "s = []" by (auto simp: totals_of_def length_split_lines_for_counting)
  then show ?thesis by (simp add: truncate_head_def)
next
  case False
  let ?b = "limit_bytes options" and ?l = "limit_lines options"
  have nz: "p \<noteq> []" using assms False by (auto simp: count_newlines_def)
  obtain C q x ms where P: "split_lines_for_counting p = C @ q" "C @ q \<noteq> []" "length q \<le> 1"
    and T: "split_lines_for_counting (p @ s) = C @ (if q = [] then ms else (hd q @ x) # ms)"
    and len: "q = [] \<Longrightarrow> length p = Suc (lines_cost 0 C)" "q \<noteq> [] \<Longrightarrow> length p = lines_cost 0 (C @ q)"
    and n: "count_newlines p = length C"
    by (rule counting_append[OF nz, of s]) blast
  show ?thesis unfolding truncate_head_def
  proof (rule truncate_same_lines[OF _ _ _])
    show "\<not> (total_lines (totals_of (p @ s)) \<le> ?l \<and> total_bytes (totals_of (p @ s)) \<le> ?b)" using False by blast
  next
    show "map_option (min (Suc ?b) \<circ> length) (case split_lines_for_counting p of [] \<Rightarrow> None | l # _ \<Rightarrow> Some l)
       = map_option (min (Suc ?b) \<circ> length) (case split_lines_for_counting (p @ s) of [] \<Rightarrow> None | l # _ \<Rightarrow> Some l)"
    proof (cases C)
      case Nil
      then obtain l where "q = [l]" using P by (cases q) auto
      then show ?thesis using Nil P T len n assms False by auto
    qed (simp add: P T)
  next
    show "collect_lines ?l ?b 0 0 (split_lines_for_counting p) = collect_lines ?l ?b 0 0 (split_lines_for_counting (p @ s))"
    proof (cases "length p > ?b + 1")
      case True
      show ?thesis
      proof (cases q)
        case Nil
        with True len P T show ?thesis by (simp add: collect_over_prefix)
      next
        case (Cons l q')
        then show ?thesis using True len P T by (auto intro: collect_over_line)
      qed
    next
      case short: False
      then have "length C \<ge> ?l" using assms False n by auto
      then show ?thesis using P T by (subst (1 2) collect_take) simp
    qed
  qed
qed

text \<open>The prefix must hold a line: a limit of no lines is met by a prefix with none.\<close>

lemma truncate_head_of_no_line:
  "truncate_head_of [] \<lparr>total_lines = 1, total_bytes = 1\<rparr> \<lparr>opt_max_lines = Some 0, opt_max_bytes = None\<rparr> = Inl NoFirstLine"
  by (simp add: truncate_head_of_def limit_lines_def limit_bytes_def split_lines_for_counting_def)


section \<open>What is shown\<close>

definition truncated_as :: "utf8 \<Rightarrow> truncation_options \<Rightarrow> utf8 list \<Rightarrow> truncation_result \<Rightarrow> bool" where
  "truncated_as content options ls r \<longleftrightarrow>
     (let lines = split_lines_for_counting content; l = limit_lines options; b = limit_bytes options in
      prefix ls lines \<and> length ls \<le> l \<and> tr_output_lines r = length ls \<and>
      tr_output_bytes r = length (tr_content r) \<and> length (tr_content r) \<le> b \<and>
      tr_total_lines r = length lines \<and> tr_total_bytes r = length content \<and>
      tr_truncated r = (length lines > l \<or> length content > b) \<and>
      tr_content r = (if tr_truncated r then join_lines ls else content) \<and>
      (case tr_truncated_by r of
         None \<Rightarrow> \<not> tr_truncated r \<and> ls = lines
       | Some ByLines \<Rightarrow> tr_truncated r \<and> length ls = l \<and> l < length lines
       | Some ByBytes \<Rightarrow> tr_truncated r \<and> length content > b \<and>
           (ls = lines \<or> length (join_lines (take (Suc (length ls)) lines)) > b)) \<and>
      tr_first_line_exceeds r = (tr_truncated r \<and> length (hd lines) > b) \<and> \<not> tr_last_line_partial r)"

lemma counting_text:
  "t = join_lines (split_lines_for_counting t) \<or> t = join_lines (split_lines_for_counting t) @ [NEWLINE]"
  by (cases t rule: counting_cases) (simp_all add: join_split_lines)

lemma counting_text_length: "length (join_lines (split_lines_for_counting t)) \<le> length t"
  using counting_text[of t] by (metis le_add1 length_append order_refl)

lemma length_join_prefix: "length (join_lines (take n ls)) \<le> length (join_lines ls)"
  using lines_cost_append[of 0 "take n ls" "drop n ls"] by (simp add: lines_cost_0[symmetric])

text \<open>
  C26: Truncation always returns; it shows a run of whole lines from the start of the text, within
  both limits; it is marked truncated exactly when the text exceeds a limit, and then shows as many
  lines as the limit it names allows.
\<close>

theorem truncate_head_whole_lines:
  "\<exists>r ls. truncate_head t options = Inr r \<and> truncated_as t options ls r"
proof -
  let ?lines = "split_lines_for_counting t" and ?l = "limit_lines options" and ?b = "limit_bytes options"
  show ?thesis
  proof (cases "length ?lines \<le> ?l \<and> length t \<le> ?b")
    case True
    then show ?thesis
      by (intro exI[of _ ?lines] exI conjI)
        (auto simp: truncate_head_def truncate_head_of_def totals_of_def truncated_as_def Let_def)
  next
    case out: False
    then have "t \<noteq> []" by (auto simp: split_lines_for_counting_def)
    then have "?lines \<noteq> []" by (cases t rule: counting_cases) auto
    then obtain first rest where lines: "?lines = first # rest" by (cases ?lines) auto
    show ?thesis
    proof (cases "length first > ?b")
      case True
      then have "length t > ?b" "length (join_lines (take (Suc 0) ?lines)) > ?b"
        using length_join_prefix[of 1 ?lines] counting_text_length[of t] lines by simp_all
      then show ?thesis using out True lines
        by (intro exI[of _ "[]"] exI conjI)
          (auto simp: truncate_head_def truncate_head_of_def totals_of_def truncated_as_def Let_def)
    next
      case False
      obtain ls over where c: "collect_lines ?l ?b 0 0 ?lines = (ls, over)" by fastforce
      note p = collect_lines_prefix[OF c, simplified lines_cost_0, simplified]
      have pre: "prefix ls ?lines" using p by blast
      have full: "length t > ?b" if "length (join_lines (take (Suc (length ls)) ?lines)) > ?b"
        using that length_join_prefix[of "Suc (length ls)" ?lines] counting_text_length[of t] by linarith
      have all: "length ls = length ?lines \<longleftrightarrow> ls = ?lines" "length ls \<le> length ?lines"
        using pre by (auto simp: prefix_def)
      have r: "\<exists>r. truncate_head t options = Inr r \<and> tr_content r = join_lines ls \<and> tr_truncated r \<and>
        tr_truncated_by r = Some (if over then ByBytes else if length ls < length ?lines then ByLines else ByBytes) \<and>
        tr_total_lines r = length ?lines \<and> tr_total_bytes r = length t \<and> tr_output_lines r = length ls \<and>
        tr_output_bytes r = length (join_lines ls) \<and> \<not> tr_last_line_partial r \<and> \<not> tr_first_line_exceeds r"
        using out False lines c by (auto simp: truncate_head_def truncate_head_of_def totals_of_def Let_def)
      then obtain r where r: "truncate_head t options = Inr r" "tr_content r = join_lines ls" "tr_truncated r"
        "tr_truncated_by r = Some (if over then ByBytes else if length ls < length ?lines then ByLines else ByBytes)"
        "tr_total_lines r = length ?lines" "tr_total_bytes r = length t" "tr_output_lines r = length ls"
        "tr_output_bytes r = length (join_lines ls)" "\<not> tr_last_line_partial r" "\<not> tr_first_line_exceeds r"
        by blast
      have within: "length ls \<le> ?l" "length (join_lines ls) \<le> ?b" using p by simp_all
      have cut: "length ?lines > ?l \<or> length t > ?b" using out by auto
      show ?thesis
      proof (cases over)
        case True
        then have "length (join_lines (take (Suc (length ls)) ?lines)) > ?b" using p by simp
        with full all pre within cut True False r lines show ?thesis
          by (intro exI[of _ r] exI[of _ ls]) (simp add: truncated_as_def Let_def)
      next
        case ended: False
        then have "?l \<le> length ls \<or> ls = ?lines" using p by simp
        with all pre within cut ended False r lines show ?thesis
          by (intro exI[of _ r] exI[of _ ls]) (cases "ls = ?lines"; simp add: truncated_as_def Let_def)
      qed
    qed
  qed
qed


section \<open>Witnesses\<close>

theorem truncate_head_of_prefix_witness:
  "truncate_head_of [97, NEWLINE, 98] (totals_of [97, NEWLINE, 98, 99, NEWLINE, 100]) \<lparr>opt_max_lines = Some 1, opt_max_bytes = None\<rparr>
     = truncate_head [97, NEWLINE, 98, 99, NEWLINE, 100] \<lparr>opt_max_lines = Some 1, opt_max_bytes = None\<rparr>"
  using truncate_head_of_prefix[of "[99, NEWLINE, 100]" "\<lparr>opt_max_lines = Some 1, opt_max_bytes = None\<rparr>" "[97, NEWLINE, 98]"]
  by (simp add: limit_lines_def)

end
