(* ===== verification/Watch_Handle.thy ===== *)
theory Watch_Handle
  imports Delta_Pending
begin

text \<open>
  Watch handles (\<open>packages/chord/src/watch.ts\<close>): the lifecycle \<open>WatchLifecycle\<close> over any
  queue of pending deliveries, the JSON watch whose queue is a \<open>PendingOps\<close>, and the native
  watch whose queue is a list. A step is what runs between two turns of the event loop: a call of
  the source or of the owner, the microtask that starts draining, and the return or the throw of
  the listener's call in flight. Contexts and errors are tokens.
\<close>

section \<open>The lifecycle\<close>

datatype watch_end = Stopped | Cancelled | Retired | Ended | ListenerError string | Failed string

record 'v delivery =
  d_value :: 'v
  d_context :: nat
  d_retires :: bool

text \<open>
  \<open>w_flight\<close> is the listener call that is awaited and \<open>w_microtasks\<close> counts the microtasks queued and not
  yet run: both are the host's, and no branch of the code reads them. \<open>w_calls\<close>, \<open>w_closed\<close>, \<open>w_detached\<close> and
  \<open>w_reports\<close> record the calls made, the settlements of \<open>closed\<close>, the calls of \<open>detach\<close> and
  the errors reported.
\<close>

record ('v, 'q, 'd) watch =
  w_value :: 'v
  w_queue :: 'q
  w_started :: bool
  w_scheduled :: bool
  w_running :: bool
  w_listener :: bool
  w_flight :: "'d option"
  w_microtasks :: nat
  w_end :: "watch_end option"
  w_signal :: bool
  w_calls :: "'d list"
  w_closed :: "watch_end list"
  w_detached :: nat
  w_reports :: "string list"

datatype watch_error = AlreadyStarted | AlreadyStopped | CancellationInstalled

definition new_watch :: "'v \<Rightarrow> 'q \<Rightarrow> ('v, 'q, 'd) watch" where
  "new_watch v q =
     \<lparr>w_value = v, w_queue = q, w_started = False, w_scheduled = False, w_running = False, w_listener = False,
      w_flight = None, w_microtasks = 0, w_end = None, w_signal = False, w_calls = [], w_closed = [], w_detached = 0, w_reports = []\<rparr>"

definition schedule_drain :: "('v, 'q, 'd) watch \<Rightarrow> ('v, 'q, 'd) watch" where
  "schedule_drain w =
     (if w_scheduled w \<or> w_running w \<or> w_end w \<noteq> None then w
      else w\<lparr>w_scheduled := True, w_microtasks := Suc (w_microtasks w)\<rparr>)"

definition pending_watch :: "('v, 'q, 'd) watch \<Rightarrow> ('v, 'q, 'd) watch" where
  "pending_watch w = (if w_started w then schedule_drain w else w)"

text \<open>\<open>release\<close> is what the subclass drops.\<close>

definition terminate :: "('q \<Rightarrow> 'q) \<Rightarrow> watch_end \<Rightarrow> ('v, 'q, 'd) watch \<Rightarrow> ('v, 'q, 'd) watch" where
  "terminate release e w =
     (if w_end w \<noteq> None then w
      else w\<lparr>w_end := Some e, w_listener := False, w_queue := release (w_queue w), w_signal := False,
             w_detached := Suc (w_detached w), w_closed := w_closed w @ [e]\<rparr>)"

definition start_watch :: "('v, 'q, 'd) watch \<Rightarrow> (watch_error, ('v, 'q, 'd) watch) result" where
  "start_watch w =
     (if w_started w then Inl AlreadyStarted
      else if w_end w \<noteq> None then Inl AlreadyStopped
      else Inr (schedule_drain (w\<lparr>w_started := True, w_listener := True\<rparr>)))"

definition stop_watch :: "('q \<Rightarrow> 'q) \<Rightarrow> ('v, 'q, 'd) watch \<Rightarrow> ('v, 'q, 'd) watch" where
  "stop_watch release w = terminate release Stopped w"

definition cancel_watch :: "('q \<Rightarrow> 'q) \<Rightarrow> ('v, 'q, 'd) watch \<Rightarrow> ('v, 'q, 'd) watch" where
  "cancel_watch release w = terminate release Cancelled w"

definition end_watch :: "('q \<Rightarrow> 'q) \<Rightarrow> string option \<Rightarrow> ('v, 'q, 'd) watch \<Rightarrow> ('v, 'q, 'd) watch" where
  "end_watch release failure w = terminate release (case failure of None \<Rightarrow> Ended | Some e \<Rightarrow> Failed e) w"

definition observe_cancellation ::
    "('q \<Rightarrow> 'q) \<Rightarrow> bool \<Rightarrow> ('v, 'q, 'd) watch \<Rightarrow> (watch_error, ('v, 'q, 'd) watch) result" where
  "observe_cancellation release aborted w =
     (if w_signal w then Inl CancellationInstalled
      else if w_end w \<noteq> None then Inr w
      else (let w = w\<lparr>w_signal := True\<rparr> in Inr (if aborted then cancel_watch release w else w)))"

definition signal_aborts :: "('q \<Rightarrow> 'q) \<Rightarrow> ('v, 'q, 'd) watch \<Rightarrow> ('v, 'q, 'd) watch" where
  "signal_aborts release w = (if w_signal w then cancel_watch release w else w)"

text \<open>One turn of the loop in \<open>#drain\<close>, up to the call of the listener or out of the loop.\<close>

definition drain_turn ::
    "('q \<Rightarrow> (('v, 'm) delivery_scheme \<times> 'q) option) \<Rightarrow> ('v, 'q, ('v, 'm) delivery_scheme) watch \<Rightarrow>
      ('v, 'q, ('v, 'm) delivery_scheme) watch" where
  "drain_turn take_next w =
     (if w_end w \<noteq> None \<or> \<not> w_listener w then w\<lparr>w_running := False\<rparr>
      else (case take_next (w_queue w) of
          None \<Rightarrow> w\<lparr>w_running := False\<rparr>
        | Some (d, q) \<Rightarrow> w\<lparr>w_queue := q, w_value := d_value d, w_flight := Some d, w_calls := w_calls w @ [d]\<rparr>))"

text \<open>The host runs a queued microtask: its callback, with \<open>#drain\<close> up to the first call.\<close>

definition run_microtask ::
    "('q \<Rightarrow> (('v, 'm) delivery_scheme \<times> 'q) option) \<Rightarrow> ('v, 'q, ('v, 'm) delivery_scheme) watch \<Rightarrow>
      ('v, 'q, ('v, 'm) delivery_scheme) watch" where
  "run_microtask take_next w =
     (if w_microtasks w = 0 then w
      else (let w = w\<lparr>w_microtasks := w_microtasks w - 1\<rparr>; w = w\<lparr>w_scheduled := False\<rparr> in
        if w_running w \<or> w_end w \<noteq> None \<or> \<not> w_started w then w
        else drain_turn take_next (w\<lparr>w_running := True\<rparr>)))"

definition listener_returns ::
    "('q \<Rightarrow> (('v, 'm) delivery_scheme \<times> 'q) option) \<Rightarrow> ('q \<Rightarrow> 'q) \<Rightarrow> ('v, 'q, ('v, 'm) delivery_scheme) watch \<Rightarrow>
      ('v, 'q, ('v, 'm) delivery_scheme) watch" where
  "listener_returns take_next release w =
     (case w_flight w of
        None \<Rightarrow> w
      | Some d \<Rightarrow>
          (let w = w\<lparr>w_flight := None\<rparr> in
           if d_retires d then (terminate release Retired w)\<lparr>w_running := False\<rparr> else drain_turn take_next w))"

definition listener_throws ::
    "('q \<Rightarrow> 'q) \<Rightarrow> string \<Rightarrow> ('v, 'q, 'd) watch \<Rightarrow> ('v, 'q, 'd) watch" where
  "listener_throws release e w =
     (if w_flight w = None then w
      else (let w = w\<lparr>w_flight := None\<rparr>;
                w = (if w_end w \<noteq> None then w
                  else terminate release (ListenerError e) (w\<lparr>w_reports := w_reports w @ [e]\<rparr>))
        in w\<lparr>w_running := False\<rparr>))"

text \<open>What the host owes a watch: a queued microtask, or the end of the call it awaits.\<close>

inductive host_turn ::
    "('q \<Rightarrow> (('v, 'm) delivery_scheme \<times> 'q) option) \<Rightarrow> ('q \<Rightarrow> 'q) \<Rightarrow> ('v, 'q, ('v, 'm) delivery_scheme) watch \<Rightarrow>
      ('v, 'q, ('v, 'm) delivery_scheme) watch \<Rightarrow> bool" for take_next release where
  turn_microtask: "0 < w_microtasks w \<Longrightarrow> host_turn take_next release w (run_microtask take_next w)"
| turn_returns: "w_flight w \<noteq> None \<Longrightarrow> host_turn take_next release w (listener_returns take_next release w)"
| turn_throws: "w_flight w \<noteq> None \<Longrightarrow> host_turn take_next release w (listener_throws release e w)"

section \<open>The JSON watch\<close>

record json_queue =
  jq_ops :: pending
  jq_newest :: "(json \<times> nat) option"
  jq_retiring :: bool

record json_delivery = "json delivery" +
  d_ops :: "op list"

type_synonym json_watch = "(json, json_queue, json_delivery) watch"

definition new_json_watch :: "json \<Rightarrow> json_watch" where
  "new_json_watch v = new_watch v \<lparr>jq_ops = PEmpty, jq_newest = None, jq_retiring = False\<rparr>"

definition push_frame :: "json \<Rightarrow> op list \<Rightarrow> nat \<Rightarrow> json_queue \<Rightarrow> json_queue" where
  "push_frame v ops c q = q\<lparr>jq_ops := push_batch ops (jq_ops q), jq_newest := Some (v, c)\<rparr>"

definition advance_watch :: "json \<Rightarrow> op list \<Rightarrow> nat \<Rightarrow> json_watch \<Rightarrow> json_watch" where
  "advance_watch v ops c w =
     (if w_end w \<noteq> None \<or> jq_retiring (w_queue w) then w
      else pending_watch (w\<lparr>w_queue := push_frame v ops c (w_queue w)\<rparr>))"

definition RETIREMENT_OPERATIONS :: "op list" where "RETIREMENT_OPERATIONS = [OpR (Prim PNull)]"

definition retire_watch :: "nat \<Rightarrow> json_watch \<Rightarrow> json_watch" where
  "retire_watch c w =
     (if w_end w \<noteq> None \<or> jq_retiring (w_queue w) then w
      else pending_watch (w\<lparr>w_queue :=
        push_frame (Prim PNull) RETIREMENT_OPERATIONS c ((w_queue w)\<lparr>jq_retiring := True\<rparr>)\<rparr>))"

definition next_json :: "json_queue \<Rightarrow> (json_delivery \<times> json_queue) option" where
  "next_json q =
     (case jq_newest q of
        None \<Rightarrow> None
      | Some (v, c) \<Rightarrow>
          (let (batch, rest) = take_pending (jq_ops q);
               ops = (case batch of TakeOps ops \<Rightarrow> ops | TakeReplace \<Rightarrow> [OpR v])
           in Some (\<lparr>d_value = v, d_context = c, d_retires = jq_retiring q, d_ops = ops\<rparr>,
                q\<lparr>jq_newest := None, jq_ops := rest\<rparr>)))"

definition release_json :: "json_queue \<Rightarrow> json_queue" where
  "release_json q = q\<lparr>jq_ops := snd (take_pending (jq_ops q)), jq_newest := None\<rparr>"

section \<open>The native watch\<close>

record 'v native_queue =
  nq_pending :: "'v delivery list"
  nq_has_replace :: bool

type_synonym 'v native_watch = "('v, 'v native_queue, 'v delivery) watch"

definition MAX_PENDING_NATIVE_VALUES :: nat where "MAX_PENDING_NATIVE_VALUES = 100"

definition new_native_watch :: "'v \<Rightarrow> bool \<Rightarrow> 'v native_watch" where
  "new_native_watch v has_replace = new_watch v \<lparr>nq_pending = [], nq_has_replace = has_replace\<rparr>"

text \<open>\<open>replaced\<close> is the value that \<open>replace()\<close> gives now, when there is a \<open>replace\<close>.\<close>

definition push_native :: "'v \<Rightarrow> nat \<Rightarrow> 'v \<Rightarrow> 'v native_queue \<Rightarrow> 'v native_queue" where
  "push_native v c replaced q =
     (if length (nq_pending q) < MAX_PENDING_NATIVE_VALUES
      then q\<lparr>nq_pending := nq_pending q @ [\<lparr>d_value = v, d_context = c, d_retires = False\<rparr>]\<rparr>
      else q\<lparr>nq_pending := [\<lparr>d_value = (if nq_has_replace q then replaced else v), d_context = c, d_retires = False\<rparr>]\<rparr>)"

definition advance_native :: "'v \<Rightarrow> nat \<Rightarrow> 'v \<Rightarrow> 'v native_watch \<Rightarrow> 'v native_watch" where
  "advance_native v c replaced w =
     (if w_end w \<noteq> None then w else pending_watch (w\<lparr>w_queue := push_native v c replaced (w_queue w)\<rparr>))"

definition next_native :: "'v native_queue \<Rightarrow> ('v delivery \<times> 'v native_queue) option" where
  "next_native q = (case nq_pending q of [] \<Rightarrow> None | d # ds \<Rightarrow> Some (d, q\<lparr>nq_pending := ds\<rparr>))"

definition release_native :: "'v native_queue \<Rightarrow> 'v native_queue" where
  "release_native q = q\<lparr>nq_pending := [], nq_has_replace := False\<rparr>"

section \<open>Termination and wake-ups, for any queue\<close>

text \<open>
  What the lifecycle asks of a subclass: \<open>next()\<close> gives a delivery exactly while something is
  pending, and \<open>release()\<close> drops everything pending.
\<close>

locale watch_queue =
  fixes take_next :: "'q \<Rightarrow> (('v, 'm) delivery_scheme \<times> 'q) option"
    and release :: "'q \<Rightarrow> 'q"
    and waiting :: "'q \<Rightarrow> bool"
  assumes next_waiting: "take_next q = None \<longleftrightarrow> \<not> waiting q"
    and released: "\<not> waiting (release q)"
begin

text \<open>
  What holds between any two steps: a call in flight is what running means, and one queued microtask
  what scheduled means; an open and started watch with something pending has one of the two; a watch
  that ended has nothing pending, and it detached and settled once.
\<close>

definition settled_once :: "('v, 'q, ('v, 'm) delivery_scheme) watch \<Rightarrow> bool" where
  "settled_once w \<longleftrightarrow>
     (w_scheduled w \<or> w_running w \<longrightarrow> w_started w) \<and> (w_end w = None \<and> w_started w \<longrightarrow> w_listener w) \<and>
     (w_end w \<noteq> None \<longrightarrow> \<not> w_listener w \<and> \<not> waiting (w_queue w)) \<and>
     w_closed w = (case w_end w of None \<Rightarrow> [] | Some e \<Rightarrow> [e]) \<and> w_detached w = length (w_closed w)"

definition alive :: "('v, 'q, ('v, 'm) delivery_scheme) watch \<Rightarrow> bool" where
  "alive w \<longleftrightarrow>
     settled_once w \<and> (w_running w \<longleftrightarrow> w_flight w \<noteq> None) \<and> \<not> (w_scheduled w \<and> w_running w) \<and>
     w_microtasks w = (if w_scheduled w then 1 else 0) \<and>
     (w_end w = None \<and> w_started w \<and> waiting (w_queue w) \<longrightarrow> w_scheduled w \<or> w_running w)"

lemmas alive_defs = alive_def settled_once_def

lemma alive_new: "\<not> waiting q \<Longrightarrow> alive (new_watch v q)"
  by (simp add: alive_defs new_watch_def)

lemma alive_terminate: "alive w \<Longrightarrow> alive (terminate release e w)"
  by (auto simp: alive_defs terminate_def released)

lemma alive_feed: "alive w \<Longrightarrow> w_end w = None \<Longrightarrow> alive (pending_watch (w\<lparr>w_queue := q\<rparr>))"
  by (auto simp: alive_defs pending_watch_def schedule_drain_def)

lemma alive_start: "alive w \<Longrightarrow> start_watch w = Inr w' \<Longrightarrow> alive w'"
  by (auto simp: alive_defs start_watch_def schedule_drain_def split: if_splits)

lemma alive_observe: "alive w \<Longrightarrow> observe_cancellation release aborted w = Inr w' \<Longrightarrow> alive w'"
  by (auto simp: observe_cancellation_def cancel_watch_def Let_def alive_defs terminate_def released split: if_splits)

lemma alive_abort: "alive w \<Longrightarrow> alive (signal_aborts release w)"
  by (simp add: signal_aborts_def cancel_watch_def alive_terminate)

lemma alive_turn:
  assumes "settled_once w" "w_flight w = None" "w_running w" "\<not> w_scheduled w" "w_microtasks w = 0"
  shows "alive (drain_turn take_next w)"
proof (cases "take_next (w_queue w)")
  case None
  then have "\<not> waiting (w_queue w)" by (simp add: next_waiting)
  with None assms show ?thesis by (auto simp: alive_defs drain_turn_def)
next
  case (Some dq)
  with assms show ?thesis by (cases dq) (auto simp: alive_defs drain_turn_def)
qed

lemma alive_microtask: "alive w \<Longrightarrow> alive (run_microtask take_next w)"
proof -
  assume a: "alive w"
  show ?thesis
  proof (cases "w_scheduled w \<and> \<not> w_running w \<and> w_end w = None \<and> w_started w")
    case True
    with a have "alive (drain_turn take_next (w\<lparr>w_microtasks := 0, w_scheduled := False, w_running := True\<rparr>))"
      by (intro alive_turn) (auto simp: alive_defs)
    moreover from True a have "w_microtasks w = 1" by (simp add: alive_def)
    ultimately show ?thesis using True by (simp add: run_microtask_def Let_def)
  next
    case False
    with a show ?thesis by (auto simp: run_microtask_def alive_defs Let_def)
  qed
qed

lemma alive_returns: "alive w \<Longrightarrow> alive (listener_returns take_next release w)"
proof (cases "w_flight w")
  case (Some d)
  assume a: "alive w"
  show ?thesis
  proof (cases "d_retires d")
    case True
    then show ?thesis using a Some by (auto simp: listener_returns_def alive_defs terminate_def Let_def released)
  next
    case False
    then have "alive (drain_turn take_next (w\<lparr>w_flight := None\<rparr>))" using a Some
      by (intro alive_turn) (auto simp: alive_defs)
    then show ?thesis using False Some by (simp add: listener_returns_def Let_def)
  qed
qed (simp add: listener_returns_def)

lemma alive_throws: "alive w \<Longrightarrow> alive (listener_throws release e w)"
  by (auto simp: listener_throws_def alive_defs terminate_def Let_def released)

text \<open>What is pending is taken by the next thing the host does, and the host owes one.\<close>

lemma turn_owed:
  assumes "alive w" "w_end w = None" "w_started w" "waiting (w_queue w)"
  shows "\<exists>w'. host_turn take_next release w w'"
  using assms turn_microtask[of w take_next release] turn_returns[of w take_next release]
  by (fastforce simp: alive_def)

lemma turn_takes:
  assumes "alive w" "w_end w = None" "w_started w" "take_next (w_queue w) = Some (d, q)"
    and "host_turn take_next release w w'"
  shows "w_end w' \<noteq> None \<or> w_calls w' = w_calls w @ [d] \<and> w_flight w' = Some d \<and> w_queue w' = q"
  using assms(5,1-4)
  by (cases rule: host_turn.cases)
    (auto simp: alive_defs run_microtask_def listener_returns_def listener_throws_def drain_turn_def terminate_def Let_def
      split: option.splits if_splits)

end


fun waiting_json :: "json_queue \<Rightarrow> bool" where
  "waiting_json q = (jq_newest q \<noteq> None)"

interpretation json_lifecycle: watch_queue next_json release_json waiting_json
  by unfold_locales (auto simp: next_json_def release_json_def Let_def split: option.splits prod.splits)

interpretation native_lifecycle: watch_queue next_native release_native "\<lambda>q. nq_pending q \<noteq> []"
  by unfold_locales (auto simp: next_native_def release_native_def split: list.splits)

section \<open>Runs of a JSON watch\<close>

text \<open>
  The watch and the value of its source. A frame of the source turns its value into the next one,
  and its operations spell paths in one way, \<open>U\<close>.
\<close>

definition frame_of :: "path set \<Rightarrow> json \<Rightarrow> op list \<Rightarrow> json \<Rightarrow> bool" where
  "frame_of U src ops v \<longleftrightarrow> op_path ` set ops \<subseteq> U \<and> (\<exists>w. apply_ops (Some src) ops = Inr (Some w) \<and> absj w = absj v)"

definition spelled_once :: "path set \<Rightarrow> bool" where
  "spelled_once U \<longleftrightarrow> inj_on texts U \<and> [] \<in> U"

inductive watch_step :: "path set \<Rightarrow> json_watch \<times> json \<Rightarrow> json_watch \<times> json \<Rightarrow> bool" for U where
  step_advance: "frame_of U src ops v \<Longrightarrow>
    watch_step U (w, src) (advance_watch v ops c w, if jq_retiring (w_queue w) then src else v)"
| step_retire: "watch_step U (w, src) (retire_watch c w, Prim PNull)"
| step_start: "start_watch w = Inr w' \<Longrightarrow> watch_step U (w, src) (w', src)"
| step_stop: "watch_step U (w, src) (stop_watch release_json w, src)"
| step_source_end: "watch_step U (w, src) (end_watch release_json failure w, src)"
| step_observe: "observe_cancellation release_json aborted w = Inr w' \<Longrightarrow> watch_step U (w, src) (w', src)"
| step_abort: "watch_step U (w, src) (signal_aborts release_json w, src)"
| step_microtask: "watch_step U (w, src) (run_microtask next_json w, src)"
| step_returns: "watch_step U (w, src) (listener_returns next_json release_json w, src)"
| step_throws: "watch_step U (w, src) (listener_throws release_json e w, src)"

inductive watch_runs :: "path set \<Rightarrow> json_watch \<times> json \<Rightarrow> json_watch \<times> json \<Rightarrow> bool" for U where
  watch_refl: "watch_runs U s s"
| watch_more: "watch_runs U s s1 \<Longrightarrow> watch_step U s1 s2 \<Longrightarrow> watch_runs U s s2"

lemma watch_invariant:
  assumes "watch_runs U s s'" "I s" "\<And>a b. I a \<Longrightarrow> watch_step U a b \<Longrightarrow> I b"
  shows "I s'"
  using assms by (induction rule: watch_runs.induct) auto

lemma alive_source:
  "json_lifecycle.alive w \<Longrightarrow> json_lifecycle.alive (advance_watch v ops c w)"
  "json_lifecycle.alive w \<Longrightarrow> json_lifecycle.alive (retire_watch c w)"
  "json_lifecycle.alive w \<Longrightarrow> json_lifecycle.alive (stop_watch release_json w)"
  "json_lifecycle.alive w \<Longrightarrow> json_lifecycle.alive (end_watch release_json failure w)"
  by (simp_all add: advance_watch_def retire_watch_def stop_watch_def end_watch_def
      json_lifecycle.alive_feed json_lifecycle.alive_terminate)

lemma alive_step: "watch_step U s s' \<Longrightarrow> json_lifecycle.alive (fst s) \<Longrightarrow> json_lifecycle.alive (fst s')"
  by (induction rule: watch_step.induct)
    (unfold fst_conv, auto intro: alive_source json_lifecycle.alive_abort json_lifecycle.alive_microtask
      json_lifecycle.alive_returns json_lifecycle.alive_throws dest: json_lifecycle.alive_start json_lifecycle.alive_observe)

lemma alive_new_json: "json_lifecycle.alive (new_json_watch v)"
  unfolding new_json_watch_def by (rule json_lifecycle.alive_new) simp

section \<open>What the listener is told\<close>

text \<open>Each call's operations turn the value of the call before, at first \<open>v\<close>, into its own value.\<close>

fun replays :: "json \<Rightarrow> json_delivery list \<Rightarrow> bool" where
  "replays v [] = True"
| "replays v (d # ds) =
     ((\<exists>w. apply_ops (Some v) (d_ops d) = Inr (Some w) \<and> absj w = absj (d_value d)) \<and> replays (d_value d) ds)"

definition told :: "json \<Rightarrow> json_delivery list \<Rightarrow> json" where
  "told v ds = last (v # map d_value ds)"

lemma replays_snoc:
  "replays v (ds @ [d]) \<longleftrightarrow> replays v ds \<and> (\<exists>w. apply_ops (Some (told v ds)) (d_ops d) = Inr (Some w) \<and> absj w = absj (d_value d))"
  by (induction ds arbitrary: v) (auto simp: told_def)

text \<open>What is pending turns the value last told into the source's.\<close>

definition owed :: "path set \<Rightarrow> json \<Rightarrow> json \<Rightarrow> json_queue \<Rightarrow> bool" where
  "owed U v src q \<longleftrightarrow>
     (\<exists>batches. jq_ops q = push_all batches \<and> op_path ` set (concat batches) \<subseteq> U \<and>
        vapply (concat batches) (absj v) = Some (absj src) \<and>
        (case jq_newest q of None \<Rightarrow> batches = [] | Some (x, c) \<Rightarrow> absj x = absj src))"

definition in_step :: "path set \<Rightarrow> json \<Rightarrow> json_watch \<times> json \<Rightarrow> bool" where
  "in_step U v0 s \<longleftrightarrow>
     (case s of (w, src) \<Rightarrow>
        replays v0 (w_calls w) \<and> w_value w = told v0 (w_calls w) \<and>
        (w_end w = None \<longrightarrow> owed U (w_value w) src (w_queue w) \<and> (jq_retiring (w_queue w) \<longrightarrow> src = Prim PNull)))"

lemma spelled_once_unique: "spelled_once U \<Longrightarrow> op_path ` set ops \<subseteq> U \<Longrightarrow> text_unique ops"
  by (auto simp: text_unique_def spelled_once_def inj_on_def)

lemma push_all_snoc: "push_all (batches @ [ops]) = push_batch ops (push_all batches)"
  by (simp add: push_all_def)

lemma owed_push:
  assumes "owed U v src q" "frame_of U src ops x"
  shows "owed U v x (push_frame x ops c q)"
proof -
  from assms(1) obtain batches where b: "jq_ops q = push_all batches" "op_path ` set (concat batches) \<subseteq> U"
    "vapply (concat batches) (absj v) = Some (absj src)" unfolding owed_def by blast
  from assms(2) have "op_path ` set ops \<subseteq> U" "vapply ops (absj src) = Some (absj x)"
    by (auto simp: frame_of_def dest: apply_ops_vapply[THEN iffD1, rotated] simp flip: apply_ops_vapply)
  with b show ?thesis
    unfolding owed_def by (intro exI[of _ "batches @ [ops]"]) (auto simp: push_frame_def push_all_snoc vapply_append)
qed


lemma owed_next:
  assumes "owed U v src q" "spelled_once U" "next_json q = Some (d, q')"
  shows "(\<exists>w. apply_ops (Some v) (d_ops d) = Inr (Some w) \<and> absj w = absj (d_value d)) \<and> owed U (d_value d) src q' \<and>
    jq_retiring q' = jq_retiring q"
proof -
  from assms(3) obtain x c where n: "jq_newest q = Some (x, c)" by (auto simp: next_json_def split: option.splits)
  with assms(3) have d: "d_value d = x" "q' = q\<lparr>jq_newest := None, jq_ops := PEmpty\<rparr>"
    "d_ops d = (case fst (take_pending (jq_ops q)) of TakeOps ops \<Rightarrow> ops | TakeReplace \<Rightarrow> [OpR x])"
    by (auto simp: next_json_def take_pending_def Let_def)
  from assms(1) n obtain batches where b: "jq_ops q = push_all batches" "op_path ` set (concat batches) \<subseteq> U"
    "vapply (concat batches) (absj v) = Some (absj src)" "absj x = absj src" unfolding owed_def by auto
  have "vapply (d_ops d) (absj v) = Some (absj x)"
  proof (cases "fst (take_pending (jq_ops q))")
    case (TakeOps ops)
    with take_same_effect[OF spelled_once_unique[OF assms(2) b(2)]] b d(3) show ?thesis by (simp add: same_effect_def)
  qed (simp add: d(3) vstep_def)
  then have "\<exists>w. apply_ops (Some v) (d_ops d) = Inr (Some w) \<and> absj w = absj (d_value d)"
    using d(1) by (simp add: apply_ops_vapply)
  moreover have "owed U (d_value d) src q'"
    unfolding owed_def using d(1,2) b(4) by (intro exI[of _ "[]"]) (simp add: push_all_def)
  moreover have "jq_retiring q' = jq_retiring q" using d(2) by simp
  ultimately show ?thesis by blast
qed

lemma in_step_same:
  "in_step U v0 (w, src) \<Longrightarrow> w_calls w' = w_calls w \<Longrightarrow> w_value w' = w_value w \<Longrightarrow>
     (w_end w' = None \<Longrightarrow> w_end w = None \<and> w_queue w' = w_queue w) \<Longrightarrow> in_step U v0 (w', src)"
  by (auto simp: in_step_def)

lemma in_step_terminate: "in_step U v0 (w, src) \<Longrightarrow> in_step U v0 (terminate release_json e w, src)"
  by (auto simp: in_step_def terminate_def)

lemma in_step_turn: "in_step U v0 (w, src) \<Longrightarrow> spelled_once U \<Longrightarrow> in_step U v0 (drain_turn next_json w, src)"
proof (cases "w_end w = None \<and> w_listener w \<and> next_json (w_queue w) \<noteq> None")
  case True
  then obtain d q where d: "next_json (w_queue w) = Some (d, q)" by auto
  assume "in_step U v0 (w, src)" and "spelled_once U"
  with True owed_next[OF _ _ d] have "(\<exists>w'. apply_ops (Some (w_value w)) (d_ops d) = Inr (Some w') \<and> absj w' = absj (d_value d))"
    "owed U (d_value d) src q" "jq_retiring q = jq_retiring (w_queue w)" by (auto simp: in_step_def)
  with True d \<open>in_step U v0 (w, src)\<close> show ?thesis
    by (simp add: in_step_def drain_turn_def replays_snoc told_def)
next
  case False
  assume "in_step U v0 (w, src)"
  then show ?thesis using False by (elim in_step_same) (auto simp: drain_turn_def split: option.splits)
qed

lemma in_step_source:
  assumes "in_step U v0 (w, src)" "frame_of U src ops v" "w_end w = None" "\<not> jq_retiring (w_queue w)"
  shows "in_step U v0 (pending_watch (w\<lparr>w_queue := push_frame v ops c (w_queue w)\<rparr>), v)"
    and "v = Prim PNull \<Longrightarrow>
      in_step U v0 (pending_watch (w\<lparr>w_queue := push_frame v ops c ((w_queue w)\<lparr>jq_retiring := True\<rparr>)\<rparr>), v)"
proof -
  have r: "owed U x s (q\<lparr>jq_retiring := True\<rparr>) = owed U x s q" for x s q by (simp add: owed_def)
  have j: "jq_retiring (push_frame v ops c q) = jq_retiring q" for q by (simp add: push_frame_def)
  have q: "in_step U v0 (pending_watch (w\<lparr>w_queue := q\<rparr>), v) = in_step U v0 (w\<lparr>w_queue := q\<rparr>, v)" for q
    by (simp add: in_step_def pending_watch_def schedule_drain_def)
  have o: "owed U (w_value w) src (w_queue w)" using assms(1,3) by (auto simp: in_step_def)
  have "owed U (w_value w) v (push_frame v ops c (w_queue w))"
    "owed U (w_value w) v (push_frame v ops c ((w_queue w)\<lparr>jq_retiring := True\<rparr>))"
    by (rule owed_push[OF o assms(2)], rule owed_push[OF r[THEN iffD2, OF o] assms(2)])
  then show "in_step U v0 (pending_watch (w\<lparr>w_queue := push_frame v ops c (w_queue w)\<rparr>), v)"
    "v = Prim PNull \<Longrightarrow>
      in_step U v0 (pending_watch (w\<lparr>w_queue := push_frame v ops c ((w_queue w)\<lparr>jq_retiring := True\<rparr>)\<rparr>), v)"
    using assms unfolding q by (simp_all add: in_step_def j)
qed

lemma in_step_step:
  assumes "watch_step U s s'" "in_step U v0 s" "spelled_once U"
  shows "in_step U v0 s'"
  using assms
proof (induction rule: watch_step.induct)
  case (step_advance src ops v w c)
  then show ?case
    by (cases "w_end w \<noteq> None \<or> jq_retiring (w_queue w)")
      (auto simp: advance_watch_def in_step_source(1), auto simp: in_step_def)
next
  case (step_retire w src c)
  have "frame_of U src RETIREMENT_OPERATIONS (Prim PNull)"
    using step_retire(2) by (auto simp: frame_of_def RETIREMENT_OPERATIONS_def spelled_once_def vstep_def simp flip: apply_ops_vapply)
  from in_step_source(2)[OF step_retire(1) this] step_retire show ?case
    by (cases "w_end w \<noteq> None \<or> jq_retiring (w_queue w)") (auto simp: retire_watch_def, auto simp: in_step_def)
next
  case (step_start w w' src)
  then show ?case by (auto simp: start_watch_def schedule_drain_def in_step_def split: if_splits)
next
  case (step_observe aborted w w' src)
  then show ?case
    by (auto simp: observe_cancellation_def cancel_watch_def Let_def in_step_def terminate_def split: if_splits)
next
  case (step_microtask w src)
  then have "in_step U v0 (drain_turn next_json (w\<lparr>w_microtasks := w_microtasks w - 1, w_scheduled := False, w_running := True\<rparr>), src)"
    by (intro in_step_turn) (auto simp: in_step_def)
  then show ?case using step_microtask by (auto simp: run_microtask_def Let_def in_step_def)
next
  case (step_returns w src)
  then have "in_step U v0 (drain_turn next_json (w\<lparr>w_flight := None\<rparr>), src)"
    by (intro in_step_turn) (auto simp: in_step_def)
  then show ?case using step_returns by (auto simp: listener_returns_def Let_def in_step_def terminate_def split: option.splits)
qed (auto simp: stop_watch_def end_watch_def signal_aborts_def cancel_watch_def listener_throws_def Let_def
    in_step_def terminate_def)

text \<open>
  C30: What a listener is told replays to what the source is: the operations of each call turn the
  value of the call before it, at first the value the watch was acquired with, into its own value;
  and when an open watch has nothing pending, the value last told is the source's.
\<close>

theorem watch_replays:
  assumes "watch_runs U (new_json_watch v, v) (w, src)" "spelled_once U"
  shows "replays v (w_calls w) \<and> w_value w = told v (w_calls w) \<and>
    (w_end w = None \<and> jq_newest (w_queue w) = None \<longrightarrow> absj (w_value w) = absj src)"
proof -
  have "in_step U v (new_json_watch v, v)"
    by (auto simp: in_step_def new_json_watch_def new_watch_def told_def owed_def push_all_def intro: exI[of _ "[]"])
  from watch_invariant[where I = "in_step U v", OF assms(1) this] in_step_step[OF _ _ assms(2)]
  have "in_step U v (w, src)" by blast
  then show ?thesis by (auto simp: in_step_def owed_def)
qed

text \<open>A pending change stays until a call takes it or the watch ends.\<close>

definition kept :: "nat \<Rightarrow> json_watch \<Rightarrow> bool" where
  "kept n w \<longleftrightarrow> n \<le> length (w_calls w) \<and>
     (w_end w \<noteq> None \<or> n < length (w_calls w) \<or> w_started w \<and> waiting_json (w_queue w))"

lemma kept_turn: "kept n w \<Longrightarrow> kept n (drain_turn next_json w)"
  by (auto simp: kept_def drain_turn_def split: option.splits)

lemma kept_terminate: "kept n w \<Longrightarrow> kept n (terminate release_json e w)"
  by (auto simp: kept_def terminate_def)

lemma kept_feed: "kept n w \<Longrightarrow> kept n (pending_watch (w\<lparr>w_queue := push_frame v ops c q\<rparr>))"
  by (auto simp: kept_def pending_watch_def schedule_drain_def push_frame_def)

lemma kept_step: "watch_step U s s' \<Longrightarrow> kept n (fst s) \<Longrightarrow> kept n (fst s')"
proof (induction rule: watch_step.induct)
  case (step_microtask w src)
  then have "kept n (drain_turn next_json (w\<lparr>w_microtasks := w_microtasks w - 1, w_scheduled := False, w_running := True\<rparr>))"
    by (intro kept_turn) (simp add: kept_def)
  with step_microtask show ?case by (auto simp: run_microtask_def Let_def, auto simp: kept_def)
next
  case (step_returns w src)
  then have "kept n (drain_turn next_json (w\<lparr>w_flight := None\<rparr>))" by (intro kept_turn) (simp add: kept_def)
  with step_returns show ?case
    by (auto simp: listener_returns_def Let_def split: option.splits, auto simp: kept_def terminate_def)
next
  case (step_start w w' src)
  then show ?case by (auto simp: start_watch_def schedule_drain_def kept_def split: if_splits)
next
  case (step_observe aborted w w' src)
  then show ?case
    by (auto simp: observe_cancellation_def cancel_watch_def Let_def kept_def terminate_def split: if_splits)
qed (auto simp: advance_watch_def retire_watch_def stop_watch_def end_watch_def signal_aborts_def cancel_watch_def
    kept_feed kept_terminate listener_throws_def Let_def, auto simp: kept_def terminate_def)

text \<open>
  C31: No change waits forever on a watch. While it is open and started, a change is pending and
  whatever steps follow, the change has been taken by a call, or the watch has ended, or the host owes
  the watch a turn (a microtask really queued, or the end of the call it awaits) and the very next one
  ends the watch or calls the listener with the newest value pending. And \<open>closed\<close> is settled and the
  source detached exactly once, when the watch ends.
\<close>

theorem watch_wakes:
  assumes "watch_runs U (new_json_watch v, v) (w, src)" "watch_runs U (w, src) (w', src')"
  shows "(w_end w = None \<and> w_started w \<and> jq_newest (w_queue w) \<noteq> None \<longrightarrow>
      w_end w' \<noteq> None \<or> length (w_calls w) < length (w_calls w') \<or>
      (\<exists>x c. jq_newest (w_queue w') = Some (x, c) \<and> (\<exists>t. host_turn next_json release_json w' t) \<and>
        (\<forall>t. host_turn next_json release_json w' t \<longrightarrow> w_end t \<noteq> None \<or>
          (\<exists>d. w_calls t = w_calls w' @ [d] \<and> w_flight t = Some d \<and> d_value d = x \<and> d_context d = c)))) \<and>
    w_closed w = (case w_end w of None \<Rightarrow> [] | Some e \<Rightarrow> [e]) \<and> w_detached w = length (w_closed w) \<and>
    (w_end w \<noteq> None \<longrightarrow> jq_newest (w_queue w) = None)"
proof -
  note alive = watch_invariant[where I = "\<lambda>s. json_lifecycle.alive (fst s)", OF _ _ alive_step]
  have w: "json_lifecycle.alive w" using alive[OF assms(1)] alive_new_json by simp
  have w': "json_lifecycle.alive w'" using alive[OF assms(2)] w by simp
  have "w_end w' \<noteq> None \<or> length (w_calls w) < length (w_calls w') \<or>
      (\<exists>x c. jq_newest (w_queue w') = Some (x, c) \<and> (\<exists>t. host_turn next_json release_json w' t) \<and>
        (\<forall>t. host_turn next_json release_json w' t \<longrightarrow> w_end t \<noteq> None \<or>
          (\<exists>d. w_calls t = w_calls w' @ [d] \<and> w_flight t = Some d \<and> d_value d = x \<and> d_context d = c)))"
    if "w_started w" "jq_newest (w_queue w) \<noteq> None"
  proof -
    have "kept (length (w_calls w)) w'"
      using watch_invariant[OF assms(2), of "\<lambda>s. kept (length (w_calls w)) (fst s)"] kept_step that
      by (simp add: kept_def[of _ w])
    then consider "w_end w' \<noteq> None" | "length (w_calls w) < length (w_calls w')"
      | "w_end w' = None" "w_started w'" "waiting_json (w_queue w')" by (auto simp: kept_def)
    then show ?thesis
    proof cases
      case 3
      then obtain x c where x: "jq_newest (w_queue w') = Some (x, c)" by auto
      then obtain d q where d: "next_json (w_queue w') = Some (d, q)" "d_value d = x" "d_context d = c"
        by (cases "take_pending (jq_ops (w_queue w'))") (auto simp: next_json_def)
      from json_lifecycle.turn_owed[OF w' 3] json_lifecycle.turn_takes[OF w' 3(1,2) d(1)] x d(2,3)
      show ?thesis by blast
    qed simp_all
  qed
  with w show ?thesis unfolding json_lifecycle.alive_defs waiting_json.simps by blast
qed

section \<open>The native queue\<close>

lemma push_native_bounded:
  "length (nq_pending q) \<le> MAX_PENDING_NATIVE_VALUES \<Longrightarrow>
     length (nq_pending (push_native v c r q)) \<le> MAX_PENDING_NATIVE_VALUES"
  by (simp add: push_native_def MAX_PENDING_NATIVE_VALUES_def)

text \<open>Below the bound each value is its own call, in order.\<close>

lemma native_in_order:
  "length (nq_pending q) < MAX_PENDING_NATIVE_VALUES \<Longrightarrow>
     map d_value (nq_pending (push_native v c r q)) = map d_value (nq_pending q) @ [v]"
  by (simp add: push_native_def)

lemma native_alive:
  "native_lifecycle.alive w \<Longrightarrow> native_lifecycle.alive (advance_native v c r w)"
  "native_lifecycle.alive (new_native_watch v h)"
  by (simp_all add: advance_native_def native_lifecycle.alive_feed new_native_watch_def native_lifecycle.alive_new)

section \<open>Witnesses\<close>

definition sample_frame :: "nat \<Rightarrow> op list" where
  "sample_frame n = [OpS [Key ''n''] (Prim (PNum (NInt (int n))))]"

definition sample_value :: "nat \<Rightarrow> json" where
  "sample_value n = Obj [(''n'', Prim (PNum (NInt (int n))))]"

definition sample_paths :: "path set" where "sample_paths = {[], [Key ''n'']}"

lemma sample_frame_ok: "frame_of sample_paths (sample_value m) (sample_frame n) (sample_value n)"
proof -
  have "apply_ops (Some (sample_value m)) (sample_frame n) = Inr (Some (sample_value n))"
    unfolding sample_frame_def sample_value_def
    by (subst apply_ops_Cons, subst apply_op_json_ok) (simp_all add: at_root_def obj_put_def reserved_def)
  then show ?thesis by (auto simp: frame_of_def sample_frame_def sample_paths_def)
qed

lemma sample_spelled: "spelled_once sample_paths"
  by (simp add: spelled_once_def sample_paths_def)

text \<open>Two frames before the start and one while the listener runs: two calls.\<close>

definition sample_busy :: json_watch where
  "sample_busy =
     (let w = advance_watch (sample_value 2) (sample_frame 2) 2 (advance_watch (sample_value 1) (sample_frame 1) 1 (new_json_watch (sample_value 0)))
      in advance_watch (sample_value 3) (sample_frame 3) 3
           (run_microtask next_json (case start_watch w of Inr w \<Rightarrow> w | Inl _ \<Rightarrow> w)))"

definition sample_told :: json_watch where
  "sample_told = listener_returns next_json release_json sample_busy"

lemma sample_runs_busy: "watch_runs sample_paths (new_json_watch (sample_value 0), sample_value 0) (sample_busy, sample_value 3)"
proof -
  let ?w0 = "new_json_watch (sample_value 0)"
  let ?w1 = "advance_watch (sample_value 1) (sample_frame 1) 1 ?w0"
  let ?w2 = "advance_watch (sample_value 2) (sample_frame 2) 2 ?w1"
  obtain w3 where w3: "start_watch ?w2 = Inr w3" "jq_retiring (w_queue w3) = False"
    by (simp add: start_watch_def advance_watch_def new_json_watch_def new_watch_def push_frame_def pending_watch_def
        schedule_drain_def)
  have r: "jq_retiring (w_queue ?w0) = False" "jq_retiring (w_queue ?w1) = False"
    "jq_retiring (w_queue (run_microtask next_json w3)) = False"
    using w3(2) by (auto simp: advance_watch_def new_json_watch_def new_watch_def push_frame_def pending_watch_def
        run_microtask_def drain_turn_def next_json_def Let_def split: option.split prod.split)
  note go = watch_more[where U = sample_paths]
  have "watch_runs sample_paths (?w0, sample_value 0) (?w1, sample_value 1)"
    using go[OF watch_refl step_advance[OF sample_frame_ok[of 0 1]], of ?w0 1] r(1) by simp
  then have "watch_runs sample_paths (?w0, sample_value 0) (?w2, sample_value 2)"
    using go[OF _ step_advance[OF sample_frame_ok[of 1 2]], of _ ?w1 2] r(2) by simp
  then have "watch_runs sample_paths (?w0, sample_value 0) (run_microtask next_json w3, sample_value 2)"
    using go[OF go[OF _ step_start[OF w3(1)]] step_microtask] by blast
  then show ?thesis
    using go[OF _ step_advance[OF sample_frame_ok[of 2 3]], of _ "run_microtask next_json w3" 3] r(3) w3(1)
    by (simp add: sample_busy_def Let_def)
qed

lemma sample_runs_told: "watch_runs sample_paths (new_json_watch (sample_value 0), sample_value 0) (sample_told, sample_value 3)"
  unfolding sample_told_def by (rule watch_more[OF sample_runs_busy step_returns])

lemma sample_calls:
  "map d_ops (w_calls sample_told) = [sample_frame 2, sample_frame 3]" "w_end sample_told = None" "jq_newest (w_queue sample_told) = None"
  "w_end sample_busy = None" "w_started sample_busy" "w_flight sample_busy \<noteq> None" "jq_newest (w_queue sample_busy) = Some (sample_value 3, 3)"
  by code_simp+

theorem watch_replays_witness:
  "map d_ops (w_calls sample_told) = [sample_frame 2, sample_frame 3] \<and> replays (sample_value 0) (w_calls sample_told) \<and>
   absj (w_value sample_told) = absj (sample_value 3)"
  using watch_replays[OF sample_runs_told sample_spelled] sample_calls(1-3) by blast

theorem watch_wakes_witness:
  "jq_newest (w_queue sample_busy) = Some (sample_value 3, 3) \<and>
   (\<exists>d. w_calls sample_told = w_calls sample_busy @ [d] \<and> w_flight sample_told = Some d \<and> d_value d = sample_value 3)"
proof -
  have "host_turn next_json release_json sample_busy sample_told"
    unfolding sample_told_def by (rule turn_returns[OF sample_calls(6)])
  with watch_wakes[OF sample_runs_busy watch_refl] sample_calls show ?thesis by fastforce
qed

end
