(* ===== verification/Inbox.thy ===== *)
theory Inbox
  imports Session_Tx
begin

text \<open>
  The inbox of a conversation (\<open>packages/durable/src/harness/inbox.ts\<close>): the submissions that wait for a
  boundary, and what a boundary, a withdrawal and an abort do with them. A desk is a transaction
  with the two documents of its conversation that the submissions live in, \<open>pi.inbox\<close> and the run
  of \<open>pi.live\<close>; both are drafts of the commit, so an operation changes them in place.
\<close>

section \<open>State\<close>

datatype queue_mode = AllQueued | OneAtATime

datatype input_mode = Steer | FollowUp

record input_entry =
  ie_kind :: string
  ie_data :: "json option"

datatype inbox_item =
    UserItem int input_mode json "input_entry option"
  | WriteItem int entry_draft

fun item_id :: "inbox_item \<Rightarrow> int" where
  "item_id (UserItem i _ _ _) = i"
| "item_id (WriteItem i _) = i"

fun is_write :: "inbox_item \<Rightarrow> bool" where
  "is_write (WriteItem _ _) = True"
| "is_write (UserItem _ _ _ _) = False"

fun has_mode :: "input_mode \<Rightarrow> inbox_item \<Rightarrow> bool" where
  "has_mode m (UserItem _ n _ _) = (m = n)"
| "has_mode m (WriteItem _ _) = False"

record queue_modes =
  steering_mode :: queue_mode
  follow_up_mode :: queue_mode

text \<open>\<open>pi.live.run\<close>: the task that has run control, and the inputs it will settle.\<close>

record desk =
  dk_tx :: transaction
  dk_items :: "inbox_item list"
  dk_run :: "(int \<times> int list) option"

datatype desk_error =
    InTx tx_error
  | BadEntryKind string
  | OtherType string submission_type
  | ConversationBusy int

type_synonym 'a desk_op = "desk \<Rightarrow> (desk_error, 'a) result \<times> desk"

definition return_desk :: "'a \<Rightarrow> 'a desk_op" where
  "return_desk a dk = (Inr a, dk)"

definition fail_desk :: "desk_error \<Rightarrow> 'a desk_op" where
  "fail_desk e dk = (Inl e, dk)"

definition then_desk :: "'a desk_op \<Rightarrow> ('a \<Rightarrow> 'b desk_op) \<Rightarrow> 'b desk_op" where
  "then_desk m f dk = (case m dk of (Inl e, dk') \<Rightarrow> (Inl e, dk') | (Inr a, dk') \<Rightarrow> f a dk')"

definition in_tx :: "'a tx_op \<Rightarrow> 'a desk_op" where
  "in_tx m dk = (case m (dk_tx dk) of (r, tx) \<Rightarrow> (map_sum InTx id r, dk\<lparr>dk_tx := tx\<rparr>))"

definition set_items :: "(inbox_item list \<Rightarrow> inbox_item list) \<Rightarrow> unit desk_op" where
  "set_items f dk = (Inr (), dk\<lparr>dk_items := f (dk_items dk)\<rparr>)"

definition set_run :: "((int \<times> int list) option \<Rightarrow> (int \<times> int list) option) \<Rightarrow> unit desk_op" where
  "set_run f dk = (Inr (), dk\<lparr>dk_run := f (dk_run dk)\<rparr>)"

section \<open>Looking at the queue\<close>

definition has_queued_reset :: "inbox_item list \<Rightarrow> bool" where
  "has_queued_reset items =
     list_ex (\<lambda>item. case item of WriteItem _ d \<Rightarrow> draft_head_of d = Some HeadSelf | _ \<Rightarrow> False) items"

definition is_stale :: "int option \<Rightarrow> entry_draft \<Rightarrow> bool" where
  "is_stale head d =
     (case (draft_head_of d, head) of (Some (HeadAt j), Some h) \<Rightarrow> j < h | _ \<Rightarrow> False)"

definition is_display_only :: "entry_draft \<Rightarrow> bool" where
  "is_display_only d \<longleftrightarrow> draft_model d = None \<and> draft_head_of d = None \<and> draft_edits d = None"

definition prepare_boundary :: "int \<Rightarrow> int option desk_op" where
  "prepare_boundary conv = in_tx (then_tx (tx_latest_head_marker conv) (\<lambda>r. return_tx (Option.bind r entry_head)))"

definition indexes_of :: "(inbox_item \<Rightarrow> bool) \<Rightarrow> inbox_item list \<Rightarrow> nat list" where
  "indexes_of P items = filter (\<lambda>k. P (items ! k)) [0..<length items]"

definition pick :: "inbox_item list \<Rightarrow> input_mode \<Rightarrow> queue_mode \<Rightarrow> nat list" where
  "pick items mode qm =
     (let indexes = indexes_of (has_mode mode) items in if qm = AllQueued then indexes else take 1 indexes)"

section \<open>Placing\<close>

definition user_message :: "json \<Rightarrow> int \<Rightarrow> json" where
  "user_message content now =
     Obj [(''role'', Prim (PStr ''user'')), (''content'', content), (''timestamp'', Prim (PNum (NInt now)))]"

definition input_draft :: "json \<Rightarrow> input_entry option \<Rightarrow> int \<Rightarrow> entry_draft" where
  "input_draft content entry now =
     \<lparr>draft_kind = (case entry of None \<Rightarrow> ''pi.user'' | Some e \<Rightarrow> ie_kind e), draft_model = Some (Arr [user_message content now]),
      draft_data = Option.bind entry ie_data, draft_head_of = None, draft_edits = None\<rparr>"

definition append_input :: "int \<Rightarrow> json \<Rightarrow> input_entry option \<Rightarrow> int \<Rightarrow> entry_record desk_op" where
  "append_input conv content entry now = in_tx (append_entry conv (input_draft content entry now))"

definition head_after :: "int option \<Rightarrow> entry_draft \<Rightarrow> entry_record \<Rightarrow> int option" where
  "head_after head d r = (case draft_head_of d of None \<Rightarrow> head | Some HeadSelf \<Rightarrow> Some (entry_id r) | Some (HeadAt j) \<Rightarrow> Some j)"

definition place_write :: "int \<Rightarrow> int option \<Rightarrow> int \<Rightarrow> entry_draft \<Rightarrow> int option desk_op" where
  "place_write conv head i d =
     (if is_stale head d
      then then_desk (in_tx (settle_submission i (SettledUnanswered ''stale'' None))) (\<lambda>_. return_desk head)
      else
        then_desk (in_tx (append_entry conv d)) (\<lambda>r.
        then_desk (in_tx (place_submission i (entry_id r))) (\<lambda>_. return_desk (head_after head d r))))"

text \<open>The casts of the loops: an index of \<open>writes\<close> is one of a write, and of \<open>users\<close> one of a user item.\<close>

fun place_writes :: "int \<Rightarrow> inbox_item list \<Rightarrow> nat list \<Rightarrow> int option \<Rightarrow> int option desk_op" where
  "place_writes conv items [] head = return_desk head"
| "place_writes conv items (k # ks) head =
     (case items ! k of
        WriteItem i d \<Rightarrow> then_desk (place_write conv head i d) (place_writes conv items ks)
      | UserItem _ _ _ _ \<Rightarrow> place_writes conv items ks head)"

fun place_users :: "int \<Rightarrow> inbox_item list \<Rightarrow> nat list \<Rightarrow> int \<Rightarrow> int list desk_op" where
  "place_users conv items [] now = return_desk []"
| "place_users conv items (k # ks) now =
     (case items ! k of
        UserItem i _ content entry \<Rightarrow>
          then_desk (append_input conv content entry now) (\<lambda>r.
          then_desk (in_tx (place_submission i (entry_id r))) (\<lambda>_.
          then_desk (place_users conv items ks now) (\<lambda>placed. return_desk (i # placed))))
      | WriteItem _ _ \<Rightarrow> place_users conv items ks now)"

definition splice_out :: "nat \<Rightarrow> 'a list \<Rightarrow> 'a list" where
  "splice_out k xs = take k xs @ drop (Suc k) xs"

datatype boundary_at = PostTools | FinalBoundary

definition selected_users :: "queue_modes \<Rightarrow> boundary_at \<Rightarrow> inbox_item list \<Rightarrow> nat list" where
  "selected_users modes at items =
     (let final = (at = FinalBoundary \<or> has_queued_reset items) in
      sort (pick items Steer (steering_mode modes) @ (if final then pick items FollowUp (follow_up_mode modes) else [])))"

definition apply_boundary :: "int \<Rightarrow> queue_modes \<Rightarrow> int option \<Rightarrow> boundary_at \<Rightarrow> int \<Rightarrow> (int list \<times> bool) desk_op" where
  "apply_boundary conv modes head at now dk =
     (let items = dk_items dk; writes = indexes_of is_write items; users = selected_users modes at items in
      then_desk (place_writes conv items writes head) (\<lambda>_.
      then_desk (place_users conv items users now) (\<lambda>placed.
      then_desk (set_items (fold splice_out (rev (sort (writes @ users))))) (\<lambda>_.
      return_desk (placed, has_queued_reset items)))) dk)"

section \<open>Withdrawing\<close>

fun find_index :: "('a \<Rightarrow> bool) \<Rightarrow> 'a list \<Rightarrow> nat option" where
  "find_index P [] = None"
| "find_index P (x # xs) = (if P x then Some 0 else map_option Suc (find_index P xs))"

definition remove_inbox_item :: "int \<Rightarrow> unit desk_op" where
  "remove_inbox_item i =
     set_items (\<lambda>items. case find_index (\<lambda>item. item_id item = i) items of None \<Rightarrow> items | Some k \<Rightarrow> splice_out k items)"

text \<open>The loop of \<open>withdrawQueuedInputs\<close>, from the last index down; the next index is one below.\<close>

fun withdraw_from :: "string \<Rightarrow> nat \<Rightarrow> unit desk_op" where
  "withdraw_from reason 0 dk = (Inr (), dk)"
| "withdraw_from reason (Suc k) dk =
     (case dk_items dk ! k of
        WriteItem _ _ \<Rightarrow> withdraw_from reason k dk
      | UserItem i _ _ _ \<Rightarrow>
          then_desk (in_tx (settle_submission i (SettledUnanswered reason None))) (\<lambda>_.
          then_desk (set_items (splice_out k)) (\<lambda>_. withdraw_from reason k)) dk)"

definition withdraw_queued_inputs :: "string \<Rightarrow> unit desk_op" where
  "withdraw_queued_inputs reason dk = withdraw_from reason (length (dk_items dk)) dk"

end
