(* ===== verification/Run_Control.thy ===== *)
theory Run_Control
  imports Inbox
begin

text \<open>
  Who answers a submission: admission and abort (\<open>packages/durable/src/harness/submissions.ts\<close>), and
  the commits with which a generation ends or continues a run (\<open>generation.ts\<close>, \<open>live.ts\<close>). Of the
  live document only \<open>run\<close> is kept, which no presentation field feeds. Messages that a commit
  appends beside are given as their drafts; usage and telemetry are left out.
\<close>

section \<open>Runs\<close>

definition generation_definition :: task_definition where
  "generation_definition =
     \<lparr>def_name = ''pi.generation'', def_version = 1,
      def_initial = (\<lambda>_. Obj [(''phase'', Prim (PStr ''prepare'')), (''attempt'', Prim (PNum (NInt 1)))])\<rparr>"

definition create_generation :: "int \<Rightarrow> int desk_op" where
  "create_generation conv =
     in_tx (create_task generation_definition (Obj [])
       \<lparr>opt_owner = None, opt_background = False, opt_conversation = Some conv, opt_abandon = False\<rparr>)"

definition start_run :: "int \<Rightarrow> int list \<Rightarrow> unit desk_op" where
  "start_run conv inputs = then_desk (create_generation conv) (\<lambda>t. set_run (\<lambda>_. Some (t, inputs)))"

definition start_run_if_any :: "int \<Rightarrow> int list \<Rightarrow> unit desk_op" where
  "start_run_if_any conv users = (if users = [] then return_desk () else start_run conv users)"

definition hand_over :: "int \<Rightarrow> int \<Rightarrow> unit desk_op" where
  "hand_over t t' = set_run (map_option (\<lambda>(owner, inputs). (if owner = t then t' else owner, inputs)))"

fun settle_each :: "submission_change \<Rightarrow> int list \<Rightarrow> unit desk_op" where
  "settle_each c [] = return_desk ()"
| "settle_each c (i # is) = then_desk (in_tx (settle_submission i c)) (\<lambda>_. settle_each c is)"

definition end_run :: "int \<Rightarrow> submission_change \<Rightarrow> unit desk_op" where
  "end_run t settlement dk =
     (case dk_run dk of
        Some (owner, inputs) \<Rightarrow>
          if owner = t then then_desk (settle_each settlement inputs) (\<lambda>_. set_run (\<lambda>_. None)) dk else (Inr (), dk)
      | None \<Rightarrow> (Inr (), dk))"

section \<open>Admission\<close>

datatype when_busy = BusySteer | BusyFollowUp | BusyReject

datatype submission_draft =
    InputDraft "string option" json "when_busy option" "input_entry option"
  | WriteDraft "string option" entry_draft

fun draft_type :: "submission_draft \<Rightarrow> submission_type" where
  "draft_type (InputDraft _ _ _ _) = InputSubmission"
| "draft_type (WriteDraft _ _) = WriteSubmission"

fun draft_request :: "submission_draft \<Rightarrow> string option" where
  "draft_request (InputDraft request _ _ _) = request"
| "draft_request (WriteDraft request _) = request"

datatype admitted = AdmittedQueued | AdmittedPlaced | AdmittedDone

fun admitted_status :: "submission_status \<Rightarrow> admitted" where
  "admitted_status Queued = AdmittedQueued"
| "admitted_status Placed = AdmittedPlaced"
| "admitted_status Done = AdmittedDone"
| "admitted_status Unanswered = AdmittedDone"

text \<open>The record given to \<open>createSubmission\<close>, which gives it its id.\<close>

definition submission_fields :: "int \<Rightarrow> submission_draft \<Rightarrow> submission_status \<Rightarrow> int option \<Rightarrow> string option \<Rightarrow> submission_record" where
  "submission_fields conv draft status entry reason =
     \<lparr>sub_id = 0, sub_conv = conv, sub_request = draft_request draft, sub_type = draft_type draft, sub_status = status,
      sub_entry = entry, sub_answer = None, sub_reason = reason, sub_detail = None\<rparr>"

definition check_input_entry :: "submission_draft \<Rightarrow> unit desk_op" where
  "check_input_entry draft =
     (case draft of
        InputDraft _ _ _ (Some e) \<Rightarrow>
          if ie_kind e = '''' \<or> take 3 (ie_kind e) = ''pi.'' then fail_desk (BadEntryKind (ie_kind e)) else return_desk ()
      | _ \<Rightarrow> return_desk ())"

definition known_request :: "int \<Rightarrow> submission_draft \<Rightarrow> (int \<times> admitted) option desk_op" where
  "known_request conv draft =
     (case draft_request draft of
        None \<Rightarrow> return_desk None
      | Some request \<Rightarrow> then_desk (in_tx (tx_submission_by_request conv request)) (\<lambda>found.
          case found of
            None \<Rightarrow> return_desk None
          | Some r \<Rightarrow>
              if sub_type r \<noteq> draft_type draft then fail_desk (OtherType request (sub_type r))
              else return_desk (Some (sub_id r, admitted_status (sub_status r)))))"

definition write_now :: "int \<Rightarrow> submission_draft \<Rightarrow> entry_draft \<Rightarrow> (int \<times> admitted) desk_op" where
  "write_now conv draft d =
     then_desk (in_tx (append_entry conv d)) (\<lambda>e.
     then_desk (in_tx (create_submission (submission_fields conv draft Done (Some (entry_id e)) None))) (\<lambda>r.
     return_desk (sub_id r, AdmittedDone)))"

definition new_item :: "int \<Rightarrow> submission_draft \<Rightarrow> inbox_item" where
  "new_item i draft =
     (case draft of
        WriteDraft _ d \<Rightarrow> WriteItem i d
      | InputDraft _ content busy entry \<Rightarrow> UserItem i (if busy = Some BusySteer then Steer else FollowUp) content entry)"

definition enqueue :: "int \<Rightarrow> submission_draft \<Rightarrow> int desk_op" where
  "enqueue conv draft =
     then_desk (in_tx (create_submission (submission_fields conv draft Queued None None))) (\<lambda>r.
     then_desk (set_items (\<lambda>items. items @ [new_item (sub_id r) draft])) (\<lambda>_. return_desk (sub_id r)))"

definition queue_behind :: "int \<Rightarrow> queue_modes \<Rightarrow> int option \<Rightarrow> submission_draft \<Rightarrow> int \<Rightarrow> (int \<times> admitted) desk_op" where
  "queue_behind conv modes head draft now =
     then_desk (enqueue conv draft) (\<lambda>i.
     then_desk (apply_boundary conv modes head FinalBoundary now) (\<lambda>(users, reset).
     then_desk (start_run_if_any conv users) (\<lambda>_.
     return_desk (i, if draft_type draft = WriteSubmission then AdmittedDone
       else if users \<noteq> [] \<and> last users = i then AdmittedPlaced else AdmittedQueued))))"

definition admit_idle :: "int \<Rightarrow> int option \<Rightarrow> submission_draft \<Rightarrow> int \<Rightarrow> (int \<times> admitted) desk_op" where
  "admit_idle conv head draft now =
     (case draft of
        WriteDraft _ d \<Rightarrow>
          if is_stale head d
          then then_desk (in_tx (create_submission (submission_fields conv draft Unanswered None (Some ''stale''))))
            (\<lambda>r. return_desk (sub_id r, AdmittedDone))
          else write_now conv draft d
      | InputDraft _ content _ entry \<Rightarrow>
          then_desk (append_input conv content entry now) (\<lambda>e.
          then_desk (in_tx (create_submission (submission_fields conv draft Placed (Some (entry_id e)) None))) (\<lambda>r.
          then_desk (start_run conv [sub_id r]) (\<lambda>_. return_desk (sub_id r, AdmittedPlaced)))))"

definition displayed :: "inbox_item list \<Rightarrow> submission_draft \<Rightarrow> entry_draft option" where
  "displayed items draft =
     (case draft of
        WriteDraft _ d \<Rightarrow> if is_display_only d \<and> \<not> has_queued_reset items then Some d else None
      | InputDraft _ _ _ _ \<Rightarrow> None)"

definition rejects_when_busy :: "submission_draft \<Rightarrow> bool" where
  "rejects_when_busy draft = (case draft of InputDraft _ _ busy _ \<Rightarrow> busy = Some BusyReject | WriteDraft _ _ \<Rightarrow> False)"

definition admit_new :: "int \<Rightarrow> submission_draft \<Rightarrow> int \<Rightarrow> queue_modes \<Rightarrow> (int \<times> admitted) desk_op" where
  "admit_new conv draft now modes dk =
     (case displayed (dk_items dk) draft of
        Some d \<Rightarrow> write_now conv draft d dk
      | None \<Rightarrow>
          if dk_run dk \<noteq> None
          then (if rejects_when_busy draft then fail_desk (ConversationBusy conv) dk
            else then_desk (enqueue conv draft) (\<lambda>i. return_desk (i, AdmittedQueued)) dk)
          else then_desk (prepare_boundary conv) (\<lambda>head dk1.
            if dk_items dk1 \<noteq> [] then queue_behind conv modes head draft now dk1 else admit_idle conv head draft now dk1) dk)"

definition admit_submission :: "int \<Rightarrow> submission_draft \<Rightarrow> int \<Rightarrow> queue_modes \<Rightarrow> (int \<times> admitted) desk_op" where
  "admit_submission conv draft now modes =
     then_desk (check_input_entry draft) (\<lambda>_.
     then_desk (known_request conv draft) (\<lambda>known.
       case known of Some r \<Rightarrow> return_desk r | None \<Rightarrow> admit_new conv draft now modes))"

datatype abort_result = WasNotFound | WasWithdrawn | WasPlaced | WasSettled

text \<open>The desk is the one of the submission's conversation.\<close>

definition abort_submission :: "int \<Rightarrow> int option \<Rightarrow> abort_result desk_op" where
  "abort_submission i within =
     then_desk (in_tx (tx_submission i)) (\<lambda>found.
       case found of
         None \<Rightarrow> return_desk WasNotFound
       | Some r \<Rightarrow>
           if within \<noteq> None \<and> within \<noteq> Some (sub_conv r) then return_desk WasNotFound
           else if sub_status r = Queued
           then then_desk (in_tx (settle_submission i (SettledUnanswered ''aborted'' None))) (\<lambda>_.
             then_desk (remove_inbox_item i) (\<lambda>_. return_desk WasWithdrawn))
           else return_desk (if sub_status r = Placed then WasPlaced else WasSettled))"

section \<open>Commits of a generation\<close>

fun append_drafts :: "int \<Rightarrow> entry_draft list \<Rightarrow> unit desk_op" where
  "append_drafts conv [] = return_desk ()"
| "append_drafts conv (d # ds) = then_desk (in_tx (append_entry conv d)) (\<lambda>_. append_drafts conv ds)"

datatype after_failed_run = KeepQueued | ContinueQueued | WithdrawQueued

definition prepare_failure :: "int \<Rightarrow> after_failed_run \<Rightarrow> int option option desk_op" where
  "prepare_failure conv policy =
     (if policy \<noteq> ContinueQueued then return_desk None
      else then_desk (prepare_boundary conv) (\<lambda>head. return_desk (Some head)))"

definition end_failed_run :: "int \<Rightarrow> int \<Rightarrow> queue_modes \<Rightarrow> after_failed_run \<Rightarrow> int option option \<Rightarrow> submission_change \<Rightarrow> int \<Rightarrow> unit desk_op" where
  "end_failed_run conv t modes policy boundary settlement now =
     then_desk (end_run t settlement) (\<lambda>_.
     then_desk (if policy = WithdrawQueued then withdraw_queued_inputs ''run_failed'' else return_desk ()) (\<lambda>_.
       case boundary of
         None \<Rightarrow> return_desk ()
       | Some head \<Rightarrow>
           then_desk (apply_boundary conv modes head FinalBoundary now) (\<lambda>(users, reset). start_run_if_any conv users)))"

text \<open>A run that failed, with the answer that failed it if there was one.\<close>

definition fail_run :: "int \<Rightarrow> int \<Rightarrow> queue_modes \<Rightarrow> after_failed_run \<Rightarrow> entry_draft list \<Rightarrow> string \<Rightarrow> json option \<Rightarrow> int \<Rightarrow> unit desk_op" where
  "fail_run conv t modes policy answer reason detail now =
     then_desk (prepare_failure conv policy) (\<lambda>boundary.
     then_desk (append_drafts conv answer) (\<lambda>_.
     end_failed_run conv t modes policy boundary (SettledUnanswered reason detail) now))"

text \<open>A run that was aborted, orphaned or faulted, with its partial answer and the results of its calls.\<close>

definition drop_run :: "int \<Rightarrow> int \<Rightarrow> entry_draft list \<Rightarrow> string \<Rightarrow> json option \<Rightarrow> unit desk_op" where
  "drop_run conv t left reason detail =
     then_desk (append_drafts conv left) (\<lambda>_. end_run t (SettledUnanswered reason detail))"

definition next_run :: "int \<Rightarrow> int \<Rightarrow> submission_change \<Rightarrow> int list \<Rightarrow> unit desk_op" where
  "next_run conv t settlement users = then_desk (end_run t settlement) (\<lambda>_. start_run_if_any conv users)"

definition answer_run :: "int \<Rightarrow> int \<Rightarrow> queue_modes \<Rightarrow> entry_draft \<Rightarrow> json option \<Rightarrow> int \<Rightarrow> unit desk_op" where
  "answer_run conv t modes answer continuation now =
     then_desk (prepare_boundary conv) (\<lambda>head.
     then_desk (in_tx (append_entry conv answer)) (\<lambda>e.
     then_desk (apply_boundary conv modes head FinalBoundary now) (\<lambda>(users, reset).
       case continuation of
         Some content \<Rightarrow>
           if users = [] \<and> \<not> reset
           then then_desk (append_input conv content None now) (\<lambda>_.
             then_desk (create_generation conv) (\<lambda>t'. hand_over t t'))
           else next_run conv t (SettledDone (entry_id e)) users
       | None \<Rightarrow> next_run conv t (SettledDone (entry_id e)) users)))"

definition add_inputs :: "int \<Rightarrow> int list \<Rightarrow> unit desk_op" where
  "add_inputs t users = set_run (map_option (\<lambda>(owner, inputs). (owner, if owner = t then inputs @ users else inputs)))"

definition handoff_draft :: "json \<Rightarrow> int \<Rightarrow> entry_draft" where
  "handoff_draft content now =
     \<lparr>draft_kind = ''pi.reset'', draft_model = Some (Arr [user_message content now]), draft_data = None,
      draft_head_of = Some HeadSelf, draft_edits = None\<rparr>"

definition hand_off :: "int \<Rightarrow> json option \<Rightarrow> int option \<Rightarrow> int \<Rightarrow> int option desk_op" where
  "hand_off conv handoff head now =
     (case handoff of
        None \<Rightarrow> return_desk head
      | Some content \<Rightarrow> then_desk (in_tx (append_entry conv (handoff_draft content now))) (\<lambda>e. return_desk (Some (entry_id e))))"

definition end_tool_round :: "int \<Rightarrow> int \<Rightarrow> queue_modes \<Rightarrow> int \<Rightarrow> json option \<Rightarrow> bool \<Rightarrow> int \<Rightarrow> unit desk_op" where
  "end_tool_round conv t modes assistant handoff terminate now =
     then_desk (prepare_boundary conv) (\<lambda>head0.
     then_desk (hand_off conv handoff head0 now) (\<lambda>head.
       if terminate
       then then_desk (apply_boundary conv modes head FinalBoundary now) (\<lambda>(users, reset).
         next_run conv t (SettledDone assistant) users)
       else then_desk (apply_boundary conv modes head PostTools now) (\<lambda>(users, reset).
         if reset then next_run conv t (SettledUnanswered ''reset'' None) users
         else then_desk (add_inputs t users) (\<lambda>_.
           then_desk (create_generation conv) (\<lambda>t'. hand_over t t')))))"

end
