(* ===== verification/Task_Graph.thy ===== *)
theory Task_Graph
  imports Session_Properties
begin

text \<open>
  The task graph of a Harness (\<open>packages/durable/src/harness/task-graph.ts\<close>): a JSON value with
  a node per live task, built from the storage by its first observer and advanced by operations
  derived from each commit's changes. Why a task is blocked is decided by the scheduler and is a
  parameter. An observer is the log of the frames it was handed; \<open>applyImmutable\<close> gives the
  value that \<open>apply\<close> gives.
\<close>

section \<open>Nodes\<close>

datatype graph_error = NullCheckpoint | DeltaFailed delta_error | ReadFailed storage_error | GraphClosed

datatype blocked_reason = MissingTask | TaskTooOld | MigrationFailed | RestartLimit

fun reason_text :: "blocked_reason \<Rightarrow> string" where
  "reason_text MissingTask = ''missing_task''"
| "reason_text TaskTooOld = ''task_too_old''"
| "reason_text MigrationFailed = ''migration_failed''"
| "reason_text RestartLimit = ''restart_limit''"

text \<open>What the scheduler reads of a record to decide why it is blocked.\<close>

record blocked_subject =
  bs_id :: int
  bs_kind :: string
  bs_version :: int
  bs_abort_requested :: bool
  bs_abort_reason :: "json option"
  bs_restarts :: "json option"
  bs_status :: task_status

definition subject_of :: "task_record \<Rightarrow> blocked_subject" where
  "subject_of r =
     \<lparr>bs_id = task_id r, bs_kind = task_kind r, bs_version = task_version r,
      bs_abort_requested = task_abort_requested r, bs_abort_reason = kept_field ''abortReason'' r,
      bs_restarts = kept_field ''restarts'' r, bs_status = status_of (task_state_of r)\<rparr>"

type_synonym blocking = "blocked_subject \<Rightarrow> blocked_reason option"

definition jint :: "int \<Rightarrow> json" where "jint i = Prim (PNum (NInt i))"
definition jstr :: "string \<Rightarrow> json" where "jstr s = Prim (PStr s)"

text \<open>The field \<open>phase\<close> of a checkpoint; reading it off \<open>null\<close> throws, and elsewhere it may be absent.\<close>

fun phase_of :: "json \<Rightarrow> (graph_error, (string \<times> json) list) result" where
  "phase_of (Prim PNull) = Inl NullCheckpoint"
| "phase_of (Obj kvs) = Inr (case map_of kvs ''phase'' of None \<Rightarrow> [] | Some v \<Rightarrow> [(''phase'', v)])"
| "phase_of _ = Inr []"

fun outcome_status :: "task_outcome \<Rightarrow> string" where
  "outcome_status (Completed _) = ''completed''"
| "outcome_status (Failed _ _) = ''failed''"
| "outcome_status (Aborted _ _) = ''aborted''"
| "outcome_status (Orphaned _) = ''orphaned''"
| "outcome_status (Faulted _) = ''faulted''"

fun policy_text :: "join_policy \<Rightarrow> string" where
  "policy_text FailFast = ''failFast''"
| "policy_text AllSettled = ''allSettled''"

fun state_of :: "task_state \<Rightarrow> (graph_error, json) result" where
  "state_of (TPending c) = bind_res (phase_of c) (\<lambda>p. Inr (Obj ((''status'', jstr ''pending'') # p)))"
| "state_of (TRunning c) = bind_res (phase_of c) (\<lambda>p. Inr (Obj ((''status'', jstr ''running'') # p)))"
| "state_of (TWaiting c on policy) = bind_res (phase_of c) (\<lambda>p.
     Inr (Obj ((''status'', jstr ''waiting'') # p @ [(''on'', Arr (map jint on)), (''policy'', jstr (policy_text policy))])))"
| "state_of (TSleeping c until) = bind_res (phase_of c) (\<lambda>p.
     Inr (Obj ((''status'', jstr ''sleeping'') # p @ [(''until'', jint until)])))"
| "state_of (TCompleting out) = Inr (Obj [(''status'', jstr ''completing''), (''outcome'', jstr (outcome_status out))])"
| "state_of (TTerminal out) = Inr (Obj [(''status'', jstr ''completing''), (''outcome'', jstr (outcome_status out))])"

definition node_fields :: "task_record \<Rightarrow> json \<Rightarrow> int list \<Rightarrow> blocked_reason option \<Rightarrow> (string \<times> json) list" where
  "node_fields r state convs blocked =
     [(''id'', jint (task_id r)), (''kind'', jstr (task_kind r)), (''conversationId'', jint (task_conv r))] @
     (case task_owner r of None \<Rightarrow> [] | Some t \<Rightarrow> [(''owner'', jint t)]) @
     [(''background'', Prim (PBool (task_background r))), (''abortRequested'', Prim (PBool (task_abort_requested r))),
      (''state'', state), (''conversations'', Arr (map jint convs))] @
     (case blocked of None \<Rightarrow> [] | Some b \<Rightarrow> [(''blocked'', jstr (reason_text b))])"

definition node_of :: "task_record \<Rightarrow> int list \<Rightarrow> blocked_reason option \<Rightarrow> (graph_error, json) result" where
  "node_of r convs blocked = bind_res (state_of (task_state_of r)) (\<lambda>state. Inr (Obj (node_fields r state convs blocked)))"

text \<open>\<open>mount.value.tasks[key]\<close>, and the fields of a node that are read back.\<close>

definition node_at :: "json \<Rightarrow> string \<Rightarrow> json option" where
  "node_at value key =
     (case value of Obj kvs \<Rightarrow> (case map_of kvs ''tasks'' of Some (Obj ts) \<Rightarrow> map_of ts key | _ \<Rightarrow> None) | _ \<Rightarrow> None)"

definition field_of :: "string \<Rightarrow> json \<Rightarrow> json option" where
  "field_of name v = (case v of Obj kvs \<Rightarrow> map_of kvs name | _ \<Rightarrow> None)"

fun int_of :: "json \<Rightarrow> int option" where
  "int_of (Prim (PNum (NInt i))) = Some i"
| "int_of _ = None"

definition conversations_of :: "json \<Rightarrow> int list" where
  "conversations_of node = (case field_of ''conversations'' node of Some (Arr xs) \<Rightarrow> List.map_filter int_of xs | _ \<Rightarrow> [])"

section \<open>The mount\<close>

record observer =
  ob_id :: nat
  ob_start :: json
  ob_frames :: "(json \<times> op list) list"

record mount =
  mt_value :: json
  mt_observers :: "observer list"
  mt_records :: "(string \<times> blocked_subject) list"

definition publish :: "op list \<Rightarrow> mount \<Rightarrow> (graph_error, mount) result" where
  "publish ops m =
     (if ops = [] then Inr m
      else (case apply_ops (Some (mt_value m)) ops of
          Inl e \<Rightarrow> Inl (DeltaFailed e)
        | Inr None \<Rightarrow> Inr m
        | Inr (Some v) \<Rightarrow>
            Inr (m\<lparr>mt_value := v,
                   mt_observers := map (\<lambda>o'. o'\<lparr>ob_frames := ob_frames o' @ [(v, ops)]\<rparr>) (mt_observers m)\<rparr>)))"

section \<open>Building\<close>

definition LIVE_STATUSES :: "task_status list" where
  "LIVE_STATUSES = [Pending, Running, Waiting, Sleeping, Completing]"

definition GRAPH_PAGE_SIZE :: nat where "GRAPH_PAGE_SIZE = 256"

text \<open>\<open>scanAll\<close>, with fuel for its pages.\<close>

definition scan_all :: "nat \<Rightarrow> (cursor option \<Rightarrow> (storage_error, 'v page_of) result) \<Rightarrow> (graph_error, 'v list) result option" where
  "scan_all fuel scan =
     map_option (\<lambda>r. case r of Inl e \<Rightarrow> Inl (ReadFailed e) | Inr xs \<Rightarrow> Inr xs) (all_pages (\<lambda>c. page_result (scan c)) fuel None)"

definition status_query :: "task_status \<Rightarrow> task_query" where
  "status_query s = \<lparr>tq_conv = None, tq_kind = None, tq_status = Some s, tq_abort = None, tq_background = None, tq_order = None\<rparr>"

definition owned_query :: "int \<Rightarrow> conversation_query" where
  "owned_query t = \<lparr>cq_owner_conv = None, cq_owner_task = Some t, cq_order = None\<rparr>"

fun live_tasks :: "nat \<Rightarrow> mem_state \<Rightarrow> task_status list \<Rightarrow> (graph_error, task_record list) result option" where
  "live_tasks fuel st [] = Some (Inr [])"
| "live_tasks fuel st (s # ss) =
     (case scan_all fuel (scan_tasks st (status_query s) GRAPH_PAGE_SIZE) of
        None \<Rightarrow> None
      | Some (Inl e) \<Rightarrow> Some (Inl e)
      | Some (Inr rs) \<Rightarrow> map_option (\<lambda>more. bind_res more (\<lambda>rest. Inr (rs @ rest))) (live_tasks fuel st ss))"

fun build_nodes :: "nat \<Rightarrow> blocking \<Rightarrow> mem_state \<Rightarrow> task_record list \<Rightarrow> (string \<times> json) list \<Rightarrow>
    (string \<times> blocked_subject) list \<Rightarrow> (graph_error, json \<times> (string \<times> blocked_subject) list) result option" where
  "build_nodes fuel blocked st [] ts live = Some (Inr (Obj [(''tasks'', Obj ts)], live))"
| "build_nodes fuel blocked st (r # rs) ts live =
     (case scan_all fuel (scan_conversations st (owned_query (task_id r)) GRAPH_PAGE_SIZE) of
        None \<Rightarrow> None
      | Some (Inl e) \<Rightarrow> Some (Inl e)
      | Some (Inr owned) \<Rightarrow>
          (let convs = sort (map conv_id owned); subject = subject_of r in
           case node_of r convs (blocked subject) of
             Inl e \<Rightarrow> Some (Inl e)
           | Inr node \<Rightarrow>
               build_nodes fuel blocked st rs (obj_put (int_text (task_id r)) node ts)
                 (AList.update (int_text (task_id r)) subject live)))"

definition build_graph :: "nat \<Rightarrow> blocking \<Rightarrow> mem_state \<Rightarrow>
    (graph_error, json \<times> (string \<times> blocked_subject) list) result option" where
  "build_graph fuel blocked st =
     (case live_tasks fuel st LIVE_STATUSES of
        None \<Rightarrow> None
      | Some (Inl e) \<Rightarrow> Some (Inl e)
      | Some (Inr records) \<Rightarrow> build_nodes fuel blocked st (sort_key task_id records) [] [])"

section \<open>Advancing\<close>

text \<open>
  The pass over the tasks of a publication: the operations so far, the nodes set or deleted over
  the mount's value, and the subjects.
\<close>

record advancing =
  ad_ops :: "op list"
  ad_changed :: "string \<rightharpoonup> json option"
  ad_records :: "(string \<times> blocked_subject) list"

definition changed_node :: "json \<Rightarrow> (string \<rightharpoonup> json option) \<Rightarrow> string \<Rightarrow> json option" where
  "changed_node value changed key = (case changed key of Some n \<Rightarrow> n | None \<Rightarrow> node_at value key)"

definition advance_task :: "blocking \<Rightarrow> json \<Rightarrow> task_record \<Rightarrow> advancing \<Rightarrow> (graph_error, advancing) result" where
  "advance_task blocked value r a =
     (let key = int_text (task_id r); previous = changed_node value (ad_changed a) key in
      if status_of (task_state_of r) = Terminal
      then (let a = a\<lparr>ad_records := AList.delete key (ad_records a)\<rparr> in
        if previous = None then Inr a
        else Inr (a\<lparr>ad_ops := ad_ops a @ [OpD [Key ''tasks'', Key key]], ad_changed := (ad_changed a)(key \<mapsto> None)\<rparr>))
      else (let subject = subject_of r; a = a\<lparr>ad_records := AList.update key subject (ad_records a)\<rparr> in
        bind_res (node_of r (case previous of None \<Rightarrow> [] | Some n \<Rightarrow> conversations_of n) (blocked subject)) (\<lambda>node.
          if previous = Some node then Inr a
          else Inr (a\<lparr>ad_ops := ad_ops a @ [OpS [Key ''tasks'', Key key] node],
                      ad_changed := (ad_changed a)(key \<mapsto> Some node)\<rparr>))))"

fun advance_tasks :: "blocking \<Rightarrow> json \<Rightarrow> storage_write list \<Rightarrow> advancing \<Rightarrow> (graph_error, advancing) result" where
  "advance_tasks blocked value [] a = Inr a"
| "advance_tasks blocked value (WTask r # ws) a = bind_res (advance_task blocked value r a) (advance_tasks blocked value ws)"
| "advance_tasks blocked value (_ # ws) a = advance_tasks blocked value ws a"

text \<open>The conversations created for a task with a node, by its key, in the order of the keys' first use.\<close>

fun created_for :: "(string \<Rightarrow> json option) \<Rightarrow> storage_write list \<Rightarrow> (string \<times> int list) list \<Rightarrow> (string \<times> int list) list" where
  "created_for node [] created = created"
| "created_for node (WConversation r # ws) created =
     (case conv_owner r of
        None \<Rightarrow> created_for node ws created
      | Some (conv, t) \<Rightarrow>
          (let key = int_text t in
           if node key = None then created_for node ws created
           else created_for node ws
             (AList.update key ((case map_of created key of None \<Rightarrow> [] | Some ids \<Rightarrow> ids) @ [conv_id r]) created)))"
| "created_for node (_ # ws) created = created_for node ws created"

definition conversation_op :: "(string \<Rightarrow> json option) \<Rightarrow> string \<times> int list \<Rightarrow> op" where
  "conversation_op node kc =
     (let (key, ids) = kc in
      OpS [Key ''tasks'', Key key, Key ''conversations'']
        (Arr (map jint (sort ((case node key of None \<Rightarrow> [] | Some n \<Rightarrow> conversations_of n) @ ids)))))"

definition advance_graph :: "blocking \<Rightarrow> storage_write list \<Rightarrow> mount \<Rightarrow> (graph_error, mount) result" where
  "advance_graph blocked changes m =
     bind_res (advance_tasks blocked (mt_value m) changes \<lparr>ad_ops = [], ad_changed = Map.empty, ad_records = mt_records m\<rparr>) (\<lambda>a.
       let node = changed_node (mt_value m) (ad_changed a) in
       publish (ad_ops a @ map (conversation_op node) (created_for node changes [])) (m\<lparr>mt_records := ad_records a\<rparr>))"

section \<open>Blocked reasons\<close>

text \<open>The operations that set or drop the reasons that changed.\<close>

definition refresh_op :: "blocking \<Rightarrow> json \<Rightarrow> string \<times> blocked_subject \<Rightarrow> op list" where
  "refresh_op blocked value ks =
     (let (key, subject) = ks;
          now = map_option (\<lambda>b. jstr (reason_text b)) (blocked subject);
          before = Option.bind (node_at value key) (field_of ''blocked'')
      in if now = before then []
      else (case now of
          None \<Rightarrow> [OpD [Key ''tasks'', Key key, Key ''blocked'']]
        | Some b \<Rightarrow> [OpS [Key ''tasks'', Key key, Key ''blocked''] b]))"

definition refresh_blocked :: "blocking \<Rightarrow> mount \<Rightarrow> (graph_error, mount) result" where
  "refresh_blocked blocked m = publish (concat (map (refresh_op blocked (mt_value m)) (mt_records m))) m"

section \<open>The view\<close>

record graph_view =
  gv_mount :: "mount option"
  gv_closed :: bool

definition attach_observer :: "nat \<Rightarrow> blocking \<Rightarrow> mem_state \<Rightarrow> nat \<Rightarrow> graph_view \<Rightarrow> (graph_error, graph_view) result option" where
  "attach_observer fuel blocked st i v =
     (case (case gv_mount v of
         Some m \<Rightarrow> Some (Inr m)
       | None \<Rightarrow> map_option (\<lambda>b. bind_res b (\<lambda>(value, live).
           Inr \<lparr>mt_value = value, mt_observers = [], mt_records = live\<rparr>)) (build_graph fuel blocked st)) of
        None \<Rightarrow> None
      | Some (Inl e) \<Rightarrow> Some (Inl e)
      | Some (Inr m) \<Rightarrow>
          if gv_closed v then Some (Inl GraphClosed)
          else Some (Inr (v\<lparr>gv_mount := Some (m\<lparr>mt_observers :=
            mt_observers m @ [\<lparr>ob_id = i, ob_start = mt_value m, ob_frames = []\<rparr>]\<rparr>)\<rparr>)))"

definition detach_observer :: "nat \<Rightarrow> graph_view \<Rightarrow> graph_view" where
  "detach_observer i v =
     (case gv_mount v of
        None \<Rightarrow> v
      | Some m \<Rightarrow>
          (let left = filter (\<lambda>o'. ob_id o' \<noteq> i) (mt_observers m) in
           v\<lparr>gv_mount := (if left = [] then None else Some (m\<lparr>mt_observers := left\<rparr>))\<rparr>))"

definition close_graph :: "graph_view \<Rightarrow> graph_view" where
  "close_graph v = v\<lparr>gv_closed := True, gv_mount := None\<rparr>"

text \<open>A stored commit, and a commit held in memory, which changes documents only.\<close>

datatype publication = StoredCommit "storage_write list" | MemoryCommit

text \<open>An error of the advance is thrown into the Session, which fails; the mount keeps its value.\<close>

definition observe_commit :: "blocking \<Rightarrow> publication \<Rightarrow> graph_view \<Rightarrow> (graph_error, graph_view) result" where
  "observe_commit blocked p v =
     (case (gv_mount v, p) of
        (Some m, StoredCommit changes) \<Rightarrow> map_sum id (\<lambda>m'. v\<lparr>gv_mount := Some m'\<rparr>) (advance_graph blocked changes m)
      | _ \<Rightarrow> Inr v)"

definition refresh_view :: "blocking \<Rightarrow> graph_view \<Rightarrow> (graph_error, graph_view) result" where
  "refresh_view blocked v =
     (case gv_mount v of
        None \<Rightarrow> Inr v
      | Some m \<Rightarrow> if gv_closed v then Inr v else map_sum id (\<lambda>m'. v\<lparr>gv_mount := Some m'\<rparr>) (refresh_blocked blocked m))"

end
