(* ===== verification/Task_Graph_Follow.thy ===== *)
theory Task_Graph_Follow
  imports Task_Graph Json_Text
begin

text \<open>
  The task graph follows the storage: after any commits of transactions, attachments and changes
  of the registry, the mounted value is what building it again from the storage gives, and every
  observer's frames replay to it.
\<close>

section \<open>Operations on the graph\<close>

definition graph :: "(string \<times> json) list \<Rightarrow> json" where "graph ts = Obj [(''tasks'', Obj ts)]"

lemma int_text_cases: "\<exists>c s. int_text i = c # s \<and> (is_digit c \<or> c = CHR ''-'')"
  using nat_text_head[of "nat i"] by (cases "i < 0") (auto simp: int_text_def)

lemma int_text_safe: "\<not> reserved (int_text i)"
proof -
  obtain c s where c: "int_text i = c # s" "is_digit c \<or> c = CHR ''-''" using int_text_cases by blast
  then show ?thesis by (auto simp: reserved_def is_digit_def)
qed

lemma int_text_inj [simp]: "int_text i = int_text j \<longleftrightarrow> i = j"
proof
  assume eq: "int_text i = int_text j"
  have d: "nat_text n \<noteq> CHR ''-'' # s" for n s
    using nat_text_head[of n] by (auto simp: is_digit_def)
  show "i = j"
  proof (cases "i < 0"; cases "j < 0")
    assume "i < 0" "\<not> j < 0"
    then show ?thesis using eq d[of "nat j"] by (auto simp: int_text_def dest: sym)
  next
    assume "\<not> i < 0" "j < 0"
    then show ?thesis using eq d[of "nat i"] by (auto simp: int_text_def)
  qed (use eq in \<open>simp_all add: int_text_def\<close>)
qed simp

lemma node_at_graph [simp]: "node_at (graph ts) k = map_of ts k"
  by (simp add: node_at_def graph_def)

definition put_field :: "string \<Rightarrow> json \<Rightarrow> json \<Rightarrow> json" where
  "put_field f x n = (case n of Obj fs \<Rightarrow> Obj (obj_put f x fs) | _ \<Rightarrow> n)"

definition del_field :: "string \<Rightarrow> json \<Rightarrow> json" where
  "del_field f n = (case n of Obj fs \<Rightarrow> Obj (obj_del f fs) | _ \<Rightarrow> n)"

lemma apply_one: "op_ok op \<Longrightarrow> apply_ops root [op] = step_op op root"
  by (simp add: apply_ops_Cons apply_op_json_ok del: op_json.simps) (cases "step_op op root"; simp)

lemma obj_put_tasks: "obj_put ''tasks'' v [(''tasks'', w)] = [(''tasks'', v)]"
  by (simp add: obj_put_def)

lemma graph_set: "\<not> reserved k \<Longrightarrow>
  apply_ops (Some (graph ts)) [OpS [Key ''tasks'', Key k] n] = Inr (Some (graph (obj_put k n ts)))"
  by (subst apply_one) (simp_all add: at_root_def graph_def obj_put_tasks reserved_def)

lemma graph_del: "\<not> reserved k \<Longrightarrow>
  apply_ops (Some (graph ts)) [OpD [Key ''tasks'', Key k]] = Inr (Some (graph (obj_del k ts)))"
  by (subst apply_one) (simp_all add: at_root_def graph_def obj_put_tasks reserved_def)

lemma graph_set_field: "\<not> reserved k \<Longrightarrow> \<not> reserved f \<Longrightarrow> map_of ts k = Some (Obj fs) \<Longrightarrow>
  apply_ops (Some (graph ts)) [OpS [Key ''tasks'', Key k, Key f] x] =
    Inr (Some (graph (obj_put k (Obj (obj_put f x fs)) ts)))"
  by (subst apply_one) (simp_all add: at_root_def graph_def obj_put_tasks reserved_def)

lemma graph_del_field: "\<not> reserved k \<Longrightarrow> \<not> reserved f \<Longrightarrow> map_of ts k = Some (Obj fs) \<Longrightarrow>
  apply_ops (Some (graph ts)) [OpD [Key ''tasks'', Key k, Key f]] =
    Inr (Some (graph (obj_put k (Obj (obj_del f fs)) ts)))"
  by (subst apply_one) (simp_all add: at_root_def graph_def obj_put_tasks reserved_def)

section \<open>Nodes\<close>

lemma node_of_fields:
  "node_of r convs b = Inr n \<longleftrightarrow> (\<exists>s. state_of (task_state_of r) = Inr s \<and> n = Obj (node_fields r s convs b))"
  by (auto simp: node_of_def res_simps)

lemma field_node [simp]:
  "map_of (node_fields r s convs b) ''conversations'' = Some (Arr (map jint convs))"
  "map_of (node_fields r s convs b) ''blocked'' = map_option (\<lambda>b. jstr (reason_text b)) b"
  by (auto simp: node_fields_def split: option.split)

lemma int_of_jint: "List.map_filter int_of (map jint xs) = xs"
  by (induction xs) (simp_all add: jint_def map_filter_def)

lemma conversations_of_node [simp]: "conversations_of (Obj (node_fields r s convs b)) = convs"
  by (simp add: conversations_of_def field_of_def int_of_jint)

lemma put_conversations:
  "obj_put ''conversations'' (Arr (map jint convs')) (node_fields r s convs b) = node_fields r s convs' b"
  by (auto simp: obj_put_def node_fields_def split: option.split)

lemma put_blocked:
  "obj_put ''blocked'' (jstr (reason_text b')) (node_fields r s convs b) = node_fields r s convs (Some b')"
  by (auto simp: obj_put_def insert_key_def key_index_def is_digit_def node_fields_def split: option.split)

lemma del_blocked: "obj_del ''blocked'' (node_fields r s convs b) = node_fields r s convs None"
  by (auto simp: obj_del_def node_fields_def split: option.split)


section \<open>What the graph shows\<close>

definition live :: "task_record \<Rightarrow> bool" where "live r \<longleftrightarrow> status_of (task_state_of r) \<noteq> Terminal"

definition owned_by :: "(int \<rightharpoonup> conversation_record) \<Rightarrow> int \<Rightarrow> int set" where
  "owned_by C t = {i. \<exists>r. C i = Some r \<and> map_option snd (conv_owner r) = Some t}"

definition lists :: "int set \<Rightarrow> int list \<Rightarrow> bool" where
  "lists A xs \<longleftrightarrow> sorted xs \<and> distinct xs \<and> set xs = A"

lemma lists_unique: "lists A xs \<Longrightarrow> lists A ys \<Longrightarrow> xs = ys"
  by (auto simp: lists_def intro: sorted_distinct_set_unique)

text \<open>The node of a live task, with the reason \<open>B\<close> it is shown to be blocked for.\<close>

definition shows_task :: "(int \<Rightarrow> blocked_reason option) \<Rightarrow> (int \<rightharpoonup> conversation_record) \<Rightarrow> int \<Rightarrow> task_record \<Rightarrow> json \<Rightarrow> bool" where
  "shows_task B C i r n \<longleftrightarrow> (\<exists>xs. lists (owned_by C i) xs \<and> node_of r xs (B i) = Inr n)"

definition at_task :: "(int \<Rightarrow> blocked_reason option) \<Rightarrow> (int \<rightharpoonup> task_record) \<Rightarrow> (int \<rightharpoonup> conversation_record) \<Rightarrow> int \<Rightarrow> json option \<Rightarrow> bool" where
  "at_task B T C i m \<longleftrightarrow>
     (case m of
        None \<Rightarrow> (\<forall>r. T i = Some r \<longrightarrow> \<not> live r)
      | Some n \<Rightarrow> (\<exists>r. T i = Some r \<and> live r \<and> shows_task B C i r n))"

definition graph_of ::
    "(int \<Rightarrow> blocked_reason option) \<Rightarrow> (int \<rightharpoonup> task_record) \<Rightarrow> (int \<rightharpoonup> conversation_record) \<Rightarrow> (string \<times> json) list \<Rightarrow> bool" where
  "graph_of B T C ts \<longleftrightarrow>
     (\<forall>i. at_task B T C i (map_of ts (int_text i))) \<and> (\<forall>k. map_of ts k \<noteq> None \<longrightarrow> (\<exists>i. k = int_text i))"

lemma graph_ofD: "graph_of B T C ts \<Longrightarrow> at_task B T C i (map_of ts (int_text i))"
  by (simp add: graph_of_def)

lemma at_task_cong: "T i = T' i \<Longrightarrow> B i = B' i \<Longrightarrow> owned_by C i = owned_by C' i \<Longrightarrow> at_task B T C i m \<Longrightarrow> at_task B' T' C' i m"
  by (auto simp: at_task_def shows_task_def split: option.splits)

definition subjects_of :: "(int \<rightharpoonup> task_record) \<Rightarrow> (string \<times> blocked_subject) list \<Rightarrow> bool" where
  "subjects_of T recs \<longleftrightarrow> distinct (map fst recs) \<and>
     (\<forall>k x. map_of recs k = Some x \<longleftrightarrow> (\<exists>i r. k = int_text i \<and> T i = Some r \<and> live r \<and> x = subject_of r))"

lemma shows_unique: "shows_task B C i r n \<Longrightarrow> shows_task B C i r n' \<Longrightarrow> n = n'"
  using lists_unique by (fastforce simp: shows_task_def)

lemma at_task_unique:
  assumes "at_task B T C i m" "at_task B T C i m'"
  shows "m = m'"
proof (cases m)
  case None
  with assms show ?thesis by (auto simp: at_task_def split: option.splits)
next
  case (Some n)
  with assms(1) obtain r where r: "T i = Some r" "live r" "shows_task B C i r n" by (auto simp: at_task_def)
  with assms(2) obtain n' where "m' = Some n'" "shows_task B C i r n'" by (auto simp: at_task_def split: option.splits)
  with r(3) Some shows_unique show ?thesis by blast
qed

lemma graph_of_unique:
  assumes "graph_of B T C ts" "graph_of B' T C ts'" "\<And>i r. T i = Some r \<Longrightarrow> live r \<Longrightarrow> B i = B' i"
  shows "map_of ts = map_of ts'"
proof
  fix k
  show "map_of ts k = map_of ts' k"
  proof (cases "\<exists>i. k = int_text i")
    case True
    then obtain i where k: "k = int_text i" by blast
    have "at_task B' T C i (map_of ts k)"
      using graph_ofD[OF assms(1), of i] assms(3)[of i] unfolding k
      by (auto simp: at_task_def shows_task_def split: option.splits)
    with graph_ofD[OF assms(2), of i] show ?thesis unfolding k by (rule at_task_unique[rotated])
  next
    case False
    have "map_of ts k = None" "map_of ts' k = None"
      using False assms(1,2) unfolding graph_of_def by (metis)+
    then show ?thesis by simp
  qed
qed

section \<open>The pass over the tasks\<close>

definition keyed_by_id :: "(int \<rightharpoonup> task_record) \<Rightarrow> bool" where "keyed_by_id T \<longleftrightarrow> (\<forall>i r. T i = Some r \<longrightarrow> task_id r = i)"

text \<open>The type of a live record's checkpoint: it is not \<open>null\<close>.\<close>

definition well_typed :: "task_record \<Rightarrow> bool" where "well_typed r \<longleftrightarrow> (\<exists>s. state_of (task_state_of r) = Inr s)"

definition advanced :: "blocking \<Rightarrow> (string \<times> json) list \<Rightarrow> (int \<Rightarrow> blocked_reason option) \<Rightarrow> (int \<rightharpoonup> task_record) \<Rightarrow>
    (int \<rightharpoonup> conversation_record) \<Rightarrow> (string \<times> json) list \<Rightarrow> advancing \<Rightarrow> bool" where
  "advanced blocked ts0 B T C ts a \<longleftrightarrow>
     apply_ops (Some (graph ts0)) (ad_ops a) = Inr (Some (graph ts)) \<and>
     (\<forall>k. changed_node (graph ts0) (ad_changed a) k = map_of ts k) \<and>
     graph_of B T C ts \<and> subjects_of T (ad_records a)"

lemma subjects_put:
  "subjects_of T recs \<Longrightarrow> live r \<Longrightarrow> subjects_of (T(i \<mapsto> r)) (AList.update (int_text i) (subject_of r) recs)"
  by (auto simp: subjects_of_def distinct_update update_conv split: if_splits)

lemma subjects_del:
  "subjects_of T recs \<Longrightarrow> \<not> live r \<Longrightarrow> subjects_of (T(i \<mapsto> r)) (AList.delete (int_text i) recs)"
  by (auto simp: subjects_of_def distinct_delete delete_conv split: if_splits)

lemma graph_of_put:
  assumes "graph_of B T C ts" "live r" "lists (owned_by C i) xs" "node_of r xs b = Inr n"
    "map_of ts' = (map_of ts)(int_text i \<mapsto> n)"
  shows "graph_of (B(i := b)) (T(i \<mapsto> r)) C ts'"
  unfolding graph_of_def
proof (intro conjI allI impI)
  fix j show "at_task (B(i := b)) (T(i \<mapsto> r)) C j (map_of ts' (int_text j))"
  proof (cases "j = i")
    case True
    then show ?thesis using assms by (auto simp: at_task_def shows_task_def)
  next
    case False
    then show ?thesis using graph_ofD[OF assms(1), of j] assms(5) by (auto intro: at_task_cong)
  qed
next
  fix k assume "map_of ts' k \<noteq> None"
  then show "\<exists>i. k = int_text i" using assms(1,5) unfolding graph_of_def by (cases "k = int_text i") auto
qed

lemma graph_of_del:
  assumes "graph_of B T C ts" "\<not> live r" "map_of ts' = (map_of ts)(int_text i := None)"
  shows "graph_of B (T(i \<mapsto> r)) C ts'"
  unfolding graph_of_def
proof (intro conjI allI impI)
  fix j show "at_task B (T(i \<mapsto> r)) C j (map_of ts' (int_text j))"
  proof (cases "j = i")
    case True
    then show ?thesis using assms(2,3) by (simp add: at_task_def)
  next
    case False
    then show ?thesis using graph_ofD[OF assms(1), of j] assms(3) by (auto intro: at_task_cong)
  qed
next
  fix k assume "map_of ts' k \<noteq> None"
  then show "\<exists>i. k = int_text i" using assms(1,3) unfolding graph_of_def by (cases "k = int_text i") auto
qed

lemma advance_task_step:
  assumes inv: "advanced blocked ts0 B T C ts a" and typed: "well_typed r"
    and known: "case T (task_id r) of None \<Rightarrow> owned_by C (task_id r) = {} | Some old \<Rightarrow> live old"
  shows "\<exists>a' ts'. advance_task blocked (graph ts0) r a = Inr a' \<and>
    advanced blocked ts0 (if live r then B(task_id r := blocked (subject_of r)) else B) (T(task_id r \<mapsto> r)) C ts' a'"
proof -
  let ?i = "task_id r" let ?k = "int_text ?i"
  have prev: "changed_node (graph ts0) (ad_changed a) ?k = map_of ts ?k" and g: "graph_of B T C ts"
    and ops: "apply_ops (Some (graph ts0)) (ad_ops a) = Inr (Some (graph ts))"
    and ch: "\<And>k. changed_node (graph ts0) (ad_changed a) k = map_of ts k" and recs: "subjects_of T (ad_records a)"
    using inv by (simp_all add: advanced_def)
  have ch': "changed_node (graph ts0) ((ad_changed a)(?k \<mapsto> n)) k = ((map_of ts)(?k := n)) k" for n k
    using ch[of k] by (simp add: changed_node_def)
  show ?thesis
  proof (cases "live r")
    case dead: False
    then have st: "status_of (task_state_of r) = Terminal" by (simp add: live_def)
    note recs' = subjects_del[OF recs dead, of ?i]
    show ?thesis
    proof (cases "map_of ts ?k")
      case None
      then have "graph_of B (T(?i \<mapsto> r)) C ts" using graph_of_del[OF g dead, of ts ?i] by (simp add: fun_upd_idem)
      then show ?thesis using None st dead recs' ops ch prev
        by (intro exI[of _ "a\<lparr>ad_records := AList.delete ?k (ad_records a)\<rparr>"] exI[of _ ts])
          (simp add: advance_task_def Let_def advanced_def)
    next
      case (Some n)
      have "graph_of B (T(?i \<mapsto> r)) C (obj_del ?k ts)" by (rule graph_of_del[OF g dead]) simp
      then show ?thesis using Some st dead recs' ops ch' prev
        by (intro exI[of _ "a\<lparr>ad_records := AList.delete ?k (ad_records a), ad_ops := ad_ops a @ [OpD [Key ''tasks'', Key ?k]],
            ad_changed := (ad_changed a)(?k \<mapsto> None)\<rparr>"] exI[of _ "obj_del ?k ts"])
          (simp add: advance_task_def Let_def advanced_def apply_ops_append graph_del[OF int_text_safe])
    qed
  next
    case alive: True
    then have st: "status_of (task_state_of r) \<noteq> Terminal" by (simp add: live_def)
    note recs' = subjects_put[OF recs alive, of ?i]
    let ?xs = "case map_of ts ?k of None \<Rightarrow> [] | Some n \<Rightarrow> conversations_of n"
    let ?b = "blocked (subject_of r)"
    have xs: "lists (owned_by C ?i) ?xs"
    proof (cases "map_of ts ?k")
      case None
      then have "\<forall>r'. T ?i = Some r' \<longrightarrow> \<not> live r'" using graph_ofD[OF g, of ?i] by (simp add: at_task_def)
      with known have "owned_by C ?i = {}" by (auto split: option.splits)
      then show ?thesis using None by (simp add: lists_def)
    next
      case (Some n)
      then obtain r' where "shows_task B C ?i r' n" using graph_ofD[OF g, of ?i] by (auto simp: at_task_def)
      then obtain ys where "lists (owned_by C ?i) ys" "node_of r' ys (B ?i) = Inr n" by (auto simp: shows_task_def)
      then show ?thesis using Some by (auto simp: node_of_fields)
    qed
    obtain n where n: "node_of r ?xs ?b = Inr n" using typed by (auto simp: well_typed_def node_of_def)
    show ?thesis
    proof (cases "map_of ts ?k = Some n")
      case True
      have "graph_of (B(?i := ?b)) (T(?i \<mapsto> r)) C ts"
        by (rule graph_of_put[OF g alive xs n]) (simp add: True fun_upd_idem)
      then show ?thesis using True st alive recs' ops ch prev n
        by (intro exI[of _ "a\<lparr>ad_records := AList.update ?k (subject_of r) (ad_records a)\<rparr>"] exI[of _ ts])
          (simp add: advance_task_def Let_def advanced_def)
    next
      case False
      have "graph_of (B(?i := ?b)) (T(?i \<mapsto> r)) C (obj_put ?k n ts)"
        by (rule graph_of_put[OF g alive xs n]) simp
      then show ?thesis using False st alive recs' ops ch' prev n
        by (intro exI[of _ "a\<lparr>ad_records := AList.update ?k (subject_of r) (ad_records a),
            ad_ops := ad_ops a @ [OpS [Key ''tasks'', Key ?k] n], ad_changed := (ad_changed a)(?k \<mapsto> Some n)\<rparr>"] exI[of _ "obj_put ?k n ts"])
          (simp add: advance_task_def Let_def advanced_def apply_ops_append graph_set[OF int_text_safe])
    qed
  qed
qed


section \<open>The pass over the writes\<close>

fun tasks_after :: "storage_write list \<Rightarrow> (int \<rightharpoonup> task_record) \<Rightarrow> (int \<rightharpoonup> task_record)" where
  "tasks_after [] T = T"
| "tasks_after (WTask r # ws) T = tasks_after ws (T(task_id r \<mapsto> r))"
| "tasks_after (_ # ws) T = tasks_after ws T"

fun conversations_after :: "storage_write list \<Rightarrow> (int \<rightharpoonup> conversation_record) \<Rightarrow> (int \<rightharpoonup> conversation_record)" where
  "conversations_after [] C = C"
| "conversations_after (WConversation r # ws) C = conversations_after ws (C(conv_id r \<mapsto> r))"
| "conversations_after (_ # ws) C = conversations_after ws C"

text \<open>No write revives a terminal task or creates one that already owns conversations.\<close>

fun tame :: "(int \<rightharpoonup> conversation_record) \<Rightarrow> storage_write list \<Rightarrow> (int \<rightharpoonup> task_record) \<Rightarrow> bool" where
  "tame C [] T \<longleftrightarrow> True"
| "tame C (WTask r # ws) T \<longleftrightarrow> well_typed r \<and>
     (case T (task_id r) of None \<Rightarrow> owned_by C (task_id r) = {} | Some old \<Rightarrow> live old) \<and> tame C ws (T(task_id r \<mapsto> r))"
| "tame C (_ # ws) T \<longleftrightarrow> tame C ws T"

definition reasons :: "blocking \<Rightarrow> (int \<Rightarrow> blocked_reason option) \<Rightarrow> (int \<rightharpoonup> task_record) \<Rightarrow> bool" where
  "reasons blocked B T \<longleftrightarrow> (\<forall>i r. T i = Some r \<longrightarrow> live r \<longrightarrow> B i = blocked (subject_of r))"

lemma reasons_upd:
  "reasons blocked B T \<Longrightarrow> reasons blocked (if live r then B(i := blocked (subject_of r)) else B) (T(i \<mapsto> r))"
  by (auto simp: reasons_def)

lemma advance_tasks_step:
  "advanced blocked ts0 B T C ts a \<Longrightarrow> tame C ws T \<Longrightarrow>
     \<exists>a' ts' B'. advance_tasks blocked (graph ts0) ws a = Inr a' \<and>
       advanced blocked ts0 B' (tasks_after ws T) C ts' a' \<and>
       (reasons blocked B T \<longrightarrow> reasons blocked B' (tasks_after ws T))"
proof (induction ws T arbitrary: a ts B rule: tasks_after.induct)
  case (2 r ws T)
  let ?B = "if live r then B(task_id r := blocked (subject_of r)) else B"
  have "well_typed r" "case T (task_id r) of None \<Rightarrow> owned_by C (task_id r) = {} | Some old \<Rightarrow> live old"
    and t: "tame C ws (T(task_id r \<mapsto> r))"
    using "2.prems"(2) by simp_all
  from advance_task_step[OF "2.prems"(1) this(1,2)] obtain a1 ts1 where
    a1: "advance_task blocked (graph ts0) r a = Inr a1" "advanced blocked ts0 ?B (T(task_id r \<mapsto> r)) C ts1 a1" by blast
  from "2.IH"[OF a1(2) t] obtain a' ts' B' where
    r: "advance_tasks blocked (graph ts0) ws a1 = Inr a'" "advanced blocked ts0 B' (tasks_after ws (T(task_id r \<mapsto> r))) C ts' a'"
    "reasons blocked ?B (T(task_id r \<mapsto> r)) \<longrightarrow> reasons blocked B' (tasks_after ws (T(task_id r \<mapsto> r)))" by blast
  have "advance_tasks blocked (graph ts0) (WTask r # ws) a = Inr a'" using a1(1) r(1) by simp
  with r(2,3) reasons_upd[of blocked B T r "task_id r"] show ?case
    unfolding tasks_after.simps by blast
qed auto

section \<open>The pass over the conversations\<close>

definition new_for :: "storage_write list \<Rightarrow> string \<Rightarrow> int list" where
  "new_for ws k = List.map_filter (\<lambda>w. case w of
     WConversation r \<Rightarrow> (case conv_owner r of Some (_, t) \<Rightarrow> if int_text t = k then Some (conv_id r) else None | None \<Rightarrow> None)
   | _ \<Rightarrow> None) ws"

lemma new_for_simps [simp]:
  "new_for [] k = []"
  "new_for (WConversation r # ws) k =
     (case conv_owner r of Some (c, t) \<Rightarrow> if int_text t = k then conv_id r # new_for ws k else new_for ws k | None \<Rightarrow> new_for ws k)"
  "(\<And>r. w \<noteq> WConversation r) \<Longrightarrow> new_for (w # ws) k = new_for ws k"
  by (auto simp: new_for_def map_filter_def split: option.splits storage_write.splits)

definition already :: "(string \<times> int list) list \<Rightarrow> string \<Rightarrow> int list" where
  "already created k = (case map_of created k of None \<Rightarrow> [] | Some ids \<Rightarrow> ids)"

lemma created_for_conversation:
  "created_for node (WConversation r # ws) created =
     (case conv_owner r of
        None \<Rightarrow> created_for node ws created
      | Some (c, t) \<Rightarrow>
          if node (int_text t) = None then created_for node ws created
          else created_for node ws (AList.update (int_text t) (already created (int_text t) @ [conv_id r]) created))"
  by (simp add: already_def Let_def split: option.split prod.split)

lemma created_for_keys:
  "distinct (map fst created) \<Longrightarrow> (\<And>k. k \<in> fst ` set created \<Longrightarrow> node k \<noteq> None) \<Longrightarrow>
     distinct (map fst (created_for node ws created)) \<and>
     (\<forall>k. k \<in> fst ` set (created_for node ws created) \<longrightarrow> node k \<noteq> None) \<and>
     (\<forall>k. already (created_for node ws created) k = already created k @ (if node k = None then [] else new_for ws k))"
proof (induction ws arbitrary: created)
  case (Cons w ws)
  show ?case
  proof (cases w)
    case (WConversation r)
    show ?thesis
    proof (cases "conv_owner r")
      case None
      then show ?thesis using WConversation Cons by (simp add: created_for_conversation)
    next
      case (Some o')
      obtain c t where o': "o' = (c, t)" by fastforce
      show ?thesis
      proof (cases "node (int_text t) = None")
        case True
        then have e: "(if node k = None then [] else new_for (w # ws) k) = (if node k = None then [] else new_for ws k)" for k
          using WConversation Some o' by auto
        have "created_for node (w # ws) created = created_for node ws created"
          unfolding WConversation created_for_conversation Some o' option.case prod.case if_P[OF True] by (rule refl)
        with Cons.IH[OF Cons.prems] show ?thesis unfolding e by simp
      next
        case False
        let ?c = "AList.update (int_text t) (already created (int_text t) @ [conv_id r]) created"
        have d: "distinct (map fst ?c)" using Cons.prems(1) by (rule distinct_update)
        have n: "k \<in> fst ` set ?c \<Longrightarrow> node k \<noteq> None" for k
          using Cons.prems(2) False by (auto simp: dom_update)
        have "already ?c k = (if k = int_text t then already created k @ [conv_id r] else already created k)" for k
          by (simp add: already_def update_conv)
        then have "already ?c k @ (if node k = None then [] else new_for ws k) =
            already created k @ (if node k = None then [] else new_for (w # ws) k)" for k
          using WConversation Some o' False by auto
        moreover have "created_for node (w # ws) created = created_for node ws ?c"
          unfolding WConversation created_for_conversation Some o' option.case prod.case if_not_P[OF False] by (rule refl)
        ultimately show ?thesis using Cons.IH[OF d n] by simp
      qed
    qed
  qed (use Cons in simp_all)
qed simp


definition with_conversations :: "int list \<Rightarrow> json \<Rightarrow> json" where
  "with_conversations ids n = put_field ''conversations'' (Arr (map jint (sort (conversations_of n @ ids)))) n"

lemma with_conversations_node:
  "with_conversations ids (Obj (node_fields r s xs b)) = Obj (node_fields r s (sort (xs @ ids)) b)"
  by (simp add: with_conversations_def put_field_def put_conversations)

lemma apply_conversations:
  assumes "distinct (map fst cs)" "\<And>k. k \<in> fst ` set cs \<Longrightarrow> \<not> reserved k \<and> map_of ts k = node k \<and> (\<exists>fs. node k = Some (Obj fs))"
  shows "\<exists>ts'. apply_ops (Some (graph ts)) (map (conversation_op node) cs) = Inr (Some (graph ts')) \<and>
    (\<forall>k. map_of ts' k = (case map_of cs k of None \<Rightarrow> map_of ts k | Some ids \<Rightarrow> map_option (with_conversations ids) (node k)))"
  using assms
proof (induction cs arbitrary: ts)
  case (Cons c cs)
  obtain k ids where c: "c = (k, ids)" by fastforce
  from Cons.prems(2)[of k] c obtain fs where k: "\<not> reserved k" "map_of ts k = Some (Obj fs)" "node k = Some (Obj fs)" by auto
  let ?x = "Arr (map jint (sort (conversations_of (Obj fs) @ ids)))"
  let ?ts = "obj_put k (Obj (obj_put ''conversations'' ?x fs)) ts"
  have one: "apply_ops (Some (graph ts)) [conversation_op node c] = Inr (Some (graph ?ts))"
  proof -
    have "conversation_op node c = OpS [Key ''tasks'', Key k, Key ''conversations''] ?x"
      by (simp add: c conversation_op_def k(3))
    then show ?thesis using graph_set_field[OF k(1) _ k(2)] by simp
  qed
  have fresh: "k \<notin> fst ` set cs" using Cons.prems(1) c by simp
  have "\<not> reserved j \<and> map_of ?ts j = node j \<and> (\<exists>fs. node j = Some (Obj fs))" if "j \<in> fst ` set cs" for j
  proof -
    have "j \<noteq> k" using that fresh by blast
    moreover have "j \<in> fst ` set (c # cs)" using that by simp
    ultimately show ?thesis using Cons.prems(2)[of j] by simp
  qed
  with Cons.IH[of ?ts] Cons.prems(1) obtain ts' where
    ts': "apply_ops (Some (graph ?ts)) (map (conversation_op node) cs) = Inr (Some (graph ts'))"
    "\<forall>j. map_of ts' j = (case map_of cs j of None \<Rightarrow> map_of ?ts j | Some ids \<Rightarrow> map_option (with_conversations ids) (node j))" by auto
  have "apply_ops (Some (graph ts)) (map (conversation_op node) (c # cs)) = Inr (Some (graph ts'))"
    using one ts'(1) apply_ops_append[of "Some (graph ts)" "[conversation_op node c]"] by simp
  moreover have "map_of cs k = None" using fresh by (simp add: map_of_eq_None_iff)
  then have "map_of ts' j = (case map_of (c # cs) j of None \<Rightarrow> map_of ts j | Some ids \<Rightarrow> map_option (with_conversations ids) (node j))" for j
    using ts'(2) k(3) by (simp add: c with_conversations_def put_field_def split: option.split)
  ultimately show ?case by blast
qed auto

text \<open>The conversations created are new ones.\<close>

definition conversation_ids_of :: "storage_write list \<Rightarrow> int list" where
  "conversation_ids_of ws = List.map_filter (\<lambda>w. case w of WConversation r \<Rightarrow> Some (conv_id r) | _ \<Rightarrow> None) ws"

lemma conversation_ids_of_simps [simp]:
  "conversation_ids_of [] = []"
  "conversation_ids_of (WConversation r # ws) = conv_id r # conversation_ids_of ws"
  "(\<And>r. w \<noteq> WConversation r) \<Longrightarrow> conversation_ids_of (w # ws) = conversation_ids_of ws"
  by (auto simp: conversation_ids_of_def map_filter_def split: storage_write.splits)

definition fresh_conversations :: "(int \<rightharpoonup> conversation_record) \<Rightarrow> storage_write list \<Rightarrow> bool" where
  "fresh_conversations C ws \<longleftrightarrow> distinct (conversation_ids_of ws) \<and> (\<forall>i \<in> set (conversation_ids_of ws). C i = None)"

lemma owned_put:
  "C (conv_id r) = None \<Longrightarrow> owned_by (C(conv_id r \<mapsto> r)) t = owned_by C t \<union> (if map_option snd (conv_owner r) = Some t then {conv_id r} else {})"
  by (auto simp: owned_by_def)

lemma new_for_ids: "set (new_for ws k) \<subseteq> set (conversation_ids_of ws)"
proof (induction ws)
  case (Cons w ws)
  then show ?case by (cases w) (auto split: option.split)
qed simp

lemma owned_after:
  "fresh_conversations C ws \<Longrightarrow>
     owned_by (conversations_after ws C) t = owned_by C t \<union> set (new_for ws (int_text t)) \<and>
     distinct (new_for ws (int_text t)) \<and> set (new_for ws (int_text t)) \<inter> owned_by C t = {}"
proof (induction ws arbitrary: C)
  case (Cons w ws)
  show ?case
  proof (cases w)
    case (WConversation r)
    have new: "C (conv_id r) = None" "conv_id r \<notin> set (conversation_ids_of ws)" "fresh_conversations (C(conv_id r \<mapsto> r)) ws"
      using Cons.prems WConversation by (auto simp: fresh_conversations_def)
    have "conv_id r \<notin> set (new_for ws (int_text t))" "conv_id r \<notin> owned_by C t"
      using new new_for_ids by (auto simp: owned_by_def)
    moreover obtain D where D: "C(conv_id r \<mapsto> r) = D" by blast
    ultimately show ?thesis
      using Cons.IH[of D] new(3) owned_put[of C r t, OF new(1)] unfolding WConversation conversations_after.simps D
      by (cases "conv_owner r") (auto split: if_splits)
  qed (use Cons in \<open>auto simp: fresh_conversations_def\<close>)
qed simp

lemma lists_add: "lists A xs \<Longrightarrow> distinct ys \<Longrightarrow> set ys \<inter> A = {} \<Longrightarrow> lists (A \<union> set ys) (sort (xs @ ys))"
  by (auto simp: lists_def)


section \<open>Advancing the mount\<close>

fun follows :: "json \<Rightarrow> (json \<times> op list) list \<Rightarrow> json \<Rightarrow> bool" where
  "follows v [] w \<longleftrightarrow> v = w"
| "follows v ((x, ops) # fs) w \<longleftrightarrow> apply_ops (Some v) ops = Inr (Some x) \<and> follows x fs w"

lemma follows_snoc: "follows v fs x \<Longrightarrow> apply_ops (Some x) ops = Inr (Some w) \<Longrightarrow> follows v (fs @ [(w, ops)]) w"
  by (induction v fs x rule: follows.induct) auto

definition all_follow :: "mount \<Rightarrow> bool" where
  "all_follow m \<longleftrightarrow> (\<forall>o' \<in> set (mt_observers m). follows (ob_start o') (ob_frames o') (mt_value m))"

lemma publish_step:
  assumes "apply_ops (Some (mt_value m)) ops = Inr (Some v)"
  shows "\<exists>m'. publish ops m = Inr m' \<and> mt_value m' = v \<and> mt_records m' = mt_records m \<and> (all_follow m \<longrightarrow> all_follow m')"
proof (cases "ops = []")
  case True
  then show ?thesis using assms by (simp add: publish_def)
next
  case False
  then show ?thesis using assms by (auto simp: publish_def all_follow_def follows_snoc)
qed

lemma graph_of_conversations:
  assumes g: "graph_of B T C ts" and fresh: "fresh_conversations C ws"
    and ts': "\<And>k. map_of ts' k = (case map_of cs k of None \<Rightarrow> map_of ts k | Some ids \<Rightarrow> map_option (with_conversations ids) (map_of ts k))"
    and cs: "\<And>k. already cs k = (if map_of ts k = None then [] else new_for ws k)"
  shows "graph_of B T (conversations_after ws C) ts'"
  unfolding graph_of_def
proof (intro conjI allI impI)
  fix i
  note old = graph_ofD[OF g, of i]
  note after = owned_after[OF fresh, of i]
  show "at_task B T (conversations_after ws C) i (map_of ts' (int_text i))"
  proof (cases "map_of ts (int_text i)")
    case None
    then have "map_of ts' (int_text i) = None" using ts'[of "int_text i"] by (auto split: option.splits)
    then show ?thesis using old None by (simp add: at_task_def)
  next
    case (Some n)
    with old obtain r xs where r: "T i = Some r" "live r" "lists (owned_by C i) xs" "node_of r xs (B i) = Inr n"
      by (auto simp: at_task_def shows_task_def)
    from r(4) obtain s where n: "state_of (task_state_of r) = Inr s" "n = Obj (node_fields r s xs (B i))"
      by (auto simp: node_of_fields)
    let ?ys = "sort (xs @ new_for ws (int_text i))"
    have ys: "lists (owned_by (conversations_after ws C) i) ?ys"
      using lists_add[OF r(3)] after by auto
    have "map_of ts' (int_text i) = Some (Obj (node_fields r s ?ys (B i)))"
    proof (cases "map_of cs (int_text i)")
      case None
      then have "new_for ws (int_text i) = []" using cs[of "int_text i"] Some by (simp add: already_def)
      moreover have "sort xs = xs" using r(3) by (simp add: lists_def sorted_sort_id)
      ultimately show ?thesis using ts'[of "int_text i"] None Some n(2) by simp
    next
      case ids: (Some ids)
      then have "ids = new_for ws (int_text i)" using cs[of "int_text i"] Some by (simp add: already_def)
      then show ?thesis using ts'[of "int_text i"] ids Some n(2) by (simp add: with_conversations_node)
    qed
    moreover have "node_of r ?ys (B i) = Inr (Obj (node_fields r s ?ys (B i)))" using n(1) by (simp add: node_of_fields)
    ultimately show ?thesis using r(1,2) ys by (auto simp: at_task_def shows_task_def)
  qed
next
  fix k assume "map_of ts' k \<noteq> None"
  then have "map_of ts k \<noteq> None" using ts'[of k] by (auto split: option.splits)
  then show "\<exists>i. k = int_text i" using g by (simp add: graph_of_def)
qed

lemma advance_graph_step:
  assumes "mt_value m = graph ts" "graph_of B T C ts" "subjects_of T (mt_records m)" "tame C ws T" "fresh_conversations C ws"
  shows "\<exists>m' ts' B'. advance_graph blocked ws m = Inr m' \<and> mt_value m' = graph ts' \<and>
    graph_of B' (tasks_after ws T) (conversations_after ws C) ts' \<and> subjects_of (tasks_after ws T) (mt_records m') \<and>
    (reasons blocked B T \<longrightarrow> reasons blocked B' (tasks_after ws T)) \<and> (all_follow m \<longrightarrow> all_follow m')"
proof -
  let ?a = "\<lparr>ad_ops = [], ad_changed = Map.empty, ad_records = mt_records m\<rparr>"
  have "advanced blocked ts B T C ts ?a" using assms(2,3) by (simp add: advanced_def changed_node_def)
  from advance_tasks_step[OF this assms(4)] obtain a ts1 B' where
    a: "advance_tasks blocked (graph ts) ws ?a = Inr a" "advanced blocked ts B' (tasks_after ws T) C ts1 a"
      "reasons blocked B T \<longrightarrow> reasons blocked B' (tasks_after ws T)" by blast
  let ?node = "changed_node (graph ts) (ad_changed a)"
  have node: "?node = map_of ts1" and g1: "graph_of B' (tasks_after ws T) C ts1" and recs: "subjects_of (tasks_after ws T) (ad_records a)"
    and ops: "apply_ops (Some (graph ts)) (ad_ops a) = Inr (Some (graph ts1))"
    using a(2) by (auto simp: advanced_def)
  let ?nd = "map_of ts1" let ?cs = "created_for ?nd ws []"
  have cs: "distinct (map fst ?cs)" "\<And>k. k \<in> fst ` set ?cs \<Longrightarrow> ?nd k \<noteq> None"
    "\<And>k. already ?cs k = (if map_of ts1 k = None then [] else new_for ws k)"
    using created_for_keys[of "[]" ?nd ws] by (simp_all add: already_def)
  have "\<not> reserved k \<and> map_of ts1 k = ?nd k \<and> (\<exists>fs. ?nd k = Some (Obj fs))" if "k \<in> fst ` set ?cs" for k
  proof -
    from cs(2)[OF that] obtain n where n: "map_of ts1 k = Some n" by blast
    then obtain i where i: "k = int_text i" using g1 unfolding graph_of_def by blast
    from graph_ofD[OF g1, of i] n i obtain fs where "n = Obj fs" by (auto simp: at_task_def shows_task_def node_of_fields)
    then show ?thesis using n i int_text_safe by blast
  qed
  from apply_conversations[OF cs(1) this] obtain ts2 where
    ts2: "apply_ops (Some (graph ts1)) (map (conversation_op ?nd) ?cs) = Inr (Some (graph ts2))"
    "\<And>k. map_of ts2 k = (case map_of ?cs k of None \<Rightarrow> map_of ts1 k | Some ids \<Rightarrow> map_option (with_conversations ids) (map_of ts1 k))"
    by blast
  let ?m = "m\<lparr>mt_records := ad_records a\<rparr>"
  have "apply_ops (Some (mt_value ?m)) (ad_ops a @ map (conversation_op ?nd) ?cs) = Inr (Some (graph ts2))"
    using ops ts2(1) assms(1) by (simp add: apply_ops_append)
  from publish_step[OF this] obtain m' where m': "publish (ad_ops a @ map (conversation_op ?nd) ?cs) ?m = Inr m'"
    "mt_value m' = graph ts2" "mt_records m' = ad_records a" "all_follow ?m \<longrightarrow> all_follow m'" by auto
  have "advance_graph blocked ws m = Inr m'" using a(1) assms(1) m'(1) by (simp add: advance_graph_def node)
  moreover have "graph_of B' (tasks_after ws T) (conversations_after ws C) ts2"
    by (rule graph_of_conversations[OF g1 assms(5) ts2(2) cs(3)])
  moreover have "all_follow m \<longrightarrow> all_follow m'" using m'(4) by (simp add: all_follow_def)
  ultimately show ?thesis using m'(2,3) recs a(3)
    by (intro exI[of _ m'] exI[of _ ts2] exI[of _ B']) simp
qed

end
