(* ===== verification/Task_Graph_Runs.thy ===== *)
theory Task_Graph_Runs
  imports Task_Graph_Follow Memory_Scans
begin

text \<open>
  Building the graph, refreshing its blocked reasons, and its runs beside a Session: commits of
  transactions, observers that come and go, and changes of the registry in any order.
\<close>

section \<open>Reading the storage\<close>

definition graph_fuel :: "mem_state \<Rightarrow> nat" where
  "graph_fuel st = Suc (length (task_ids st) + length (conversation_ids st))"

lemma short_listing:
  assumes "lists_table Ascending id_of tab P items" "indexes ids tab (\<lambda>_. True)" "id_matches tab id_of"
  shows "length items \<le> length ids"
proof -
  have d: "distinct (map id_of items)"
    using assms(1) by (auto simp: lists_table_def ordered_def simp: strict_sorted_iff)
  have "set (map id_of items) \<subseteq> set ids"
    using assms by (auto simp: lists_table_def indexes_def id_matches_def ran_def)
  from card_mono[OF _ this] d show ?thesis
    by (metis List.finite_set card_length distinct_card le_trans length_map)
qed

lemma scan_tasks_all:
  assumes "storage_ok st" "\<not> closed st"
  shows "\<exists>items. scan_all (graph_fuel st) (scan_tasks st (status_query s) GRAPH_PAGE_SIZE) = Some (Inr items) \<and>
    set items = {r \<in> ran (tasks st). status_of (task_state_of r) = s}"
proof -
  let ?q = "status_query s"
  let ?items = "rest_of (tasks st) (task_keep ?q) (task_scan_ids st ?q) (order_of (tq_order ?q)) None"
  have l: "lists_table Ascending task_id (tasks st) (\<lambda>r. matches_opt (tq_status ?q) (status_of (task_state_of r)) \<and> task_keep ?q r) ?items"
    using lists_table_picked[OF task_index(1)[OF assms(1), of ?q] task_index(2)[OF assms(1)], of Ascending] by (simp add: rest_of_def status_query_def order_of_def)
  have "indexes (task_ids st) (tasks st) (\<lambda>_. True)" "id_matches (tasks st) task_id"
    using assms(1) by (auto simp: storage_ok_def tables_ok_def)
  from short_listing[OF l this] have "length ?items < graph_fuel st" by (simp add: graph_fuel_def)
  then have "all_pages (\<lambda>c. page_result (scan_tasks st ?q GRAPH_PAGE_SIZE c)) (graph_fuel st) None = Some (Inr ?items)"
    using task_pages.all_pages_complete[of "(st, ?q, GRAPH_PAGE_SIZE)" None "graph_fuel st"] assms
    by (auto simp: readable_def request_first GRAPH_PAGE_SIZE_def)
  moreover have "set ?items = {r \<in> ran (tasks st). status_of (task_state_of r) = s}"
    using l by (auto simp: lists_table_def status_query_def task_keep_def matches_opt_def)
  ultimately show ?thesis by (simp add: scan_all_def)
qed

lemma scan_owned_all:
  assumes "storage_ok st" "\<not> closed st"
  shows "\<exists>items. scan_all (graph_fuel st) (scan_conversations st (owned_query t) GRAPH_PAGE_SIZE) = Some (Inr items) \<and>
    lists (owned_by (conversations st) t) (sort (map conv_id items))"
proof -
  let ?q = "owned_query t"
  let ?items = "rest_of (conversations st) (conversation_keep ?q) (conversation_scan_ids st ?q) (order_of (cq_order ?q)) None"
  have l: "lists_table Ascending conv_id (conversations st) (\<lambda>r. conversation_owned ?q r \<and> conversation_keep ?q r) ?items"
    using lists_table_picked[OF conversation_index(1)[OF assms(1), of ?q] conversation_index(2)[OF assms(1)], of Ascending] by (simp add: rest_of_def owned_query_def order_of_def)
  have ix: "indexes (conversation_ids st) (conversations st) (\<lambda>_. True)" "id_matches (conversations st) conv_id"
    using assms(1) by (auto simp: storage_ok_def tables_ok_def)
  from short_listing[OF l this] have "length ?items < graph_fuel st" by (simp add: graph_fuel_def)
  then have a: "all_pages (\<lambda>c. page_result (scan_conversations st ?q GRAPH_PAGE_SIZE c)) (graph_fuel st) None = Some (Inr ?items)"
    using conversation_pages.all_pages_complete[of "(st, ?q, GRAPH_PAGE_SIZE)" None "graph_fuel st"] assms
    by (auto simp: readable_def request_first GRAPH_PAGE_SIZE_def)
  have "distinct (map conv_id ?items)"
    using l by (auto simp: lists_table_def ordered_def simp: strict_sorted_iff)
  moreover have "conv_id ` set ?items = owned_by (conversations st) t"
    using l ix(2) by (auto simp: lists_table_def owned_query_def conversation_owned_def conversation_keep_def
        owned_by_def ran_def id_matches_def image_iff matches_opt_def)
  ultimately show ?thesis using a by (simp add: scan_all_def lists_def)
qed


section \<open>Building\<close>

definition current_reasons :: "blocking \<Rightarrow> (int \<rightharpoonup> task_record) \<Rightarrow> int \<Rightarrow> blocked_reason option" where
  "current_reasons blocked T i = (case T i of None \<Rightarrow> None | Some r \<Rightarrow> blocked (subject_of r))"

lemma reasons_current: "reasons blocked B T \<longleftrightarrow> (\<forall>i r. T i = Some r \<longrightarrow> live r \<longrightarrow> B i = current_reasons blocked T i)"
  by (auto simp: reasons_def current_reasons_def)

definition all_typed :: "mem_state \<Rightarrow> bool" where
  "all_typed st \<longleftrightarrow> (\<forall>i r. tasks st i = Some r \<longrightarrow> well_typed r)"

lemma live_tasks_all:
  assumes "storage_ok st" "\<not> closed st"
  shows "\<exists>rs. live_tasks (graph_fuel st) st ss = Some (Inr rs) \<and> set rs = {r \<in> ran (tasks st). status_of (task_state_of r) \<in> set ss}"
proof (induction ss)
  case (Cons s ss)
  then obtain rs where rs: "live_tasks (graph_fuel st) st ss = Some (Inr rs)"
    "set rs = {r \<in> ran (tasks st). status_of (task_state_of r) \<in> set ss}" by blast
  from scan_tasks_all[OF assms, of s] obtain items where
    "scan_all (graph_fuel st) (scan_tasks st (status_query s) GRAPH_PAGE_SIZE) = Some (Inr items)"
    "set items = {r \<in> ran (tasks st). status_of (task_state_of r) = s}" by blast
  with rs show ?case by (intro exI[of _ "items @ rs"]) auto
qed simp

lemma live_status: "status_of s \<in> set LIVE_STATUSES \<longleftrightarrow> status_of s \<noteq> Terminal"
  by (cases "status_of s") (auto simp: LIVE_STATUSES_def)

lemma build_nodes_step:
  assumes "storage_ok st" "\<not> closed st" "all_typed st" "B = current_reasons blocked (tasks st)"
    and "set rs \<subseteq> ran (tasks st)" "\<forall>r \<in> set rs. live r"
    and "graph_of B (tasks st |` P) (conversations st) ts" "subjects_of (tasks st |` P) recs"
  shows "\<exists>ts' recs'. build_nodes (graph_fuel st) blocked st rs ts recs = Some (Inr (graph ts', recs')) \<and>
    graph_of B (tasks st |` (P \<union> task_id ` set rs)) (conversations st) ts' \<and>
    subjects_of (tasks st |` (P \<union> task_id ` set rs)) recs'"
  using assms(5-)
proof (induction rs arbitrary: P ts recs)
  case Nil
  then show ?case by (simp add: graph_def)
next
  case (Cons r rs)
  let ?i = "task_id r"
  have ids: "id_matches (tasks st) task_id" using assms(1) by (simp add: storage_ok_def tables_ok_def)
  with Cons.prems(1) have r: "tasks st ?i = Some r" by (auto simp: ran_def id_matches_def)
  have live: "live r" using Cons.prems(2) by simp
  from scan_owned_all[OF assms(1,2), of ?i] obtain items where
    owned: "scan_all (graph_fuel st) (scan_conversations st (owned_query ?i) GRAPH_PAGE_SIZE) = Some (Inr items)"
    "lists (owned_by (conversations st) ?i) (sort (map conv_id items))" by blast
  obtain s where "state_of (task_state_of r) = Inr s" using assms(3) r unfolding all_typed_def well_typed_def by blast
  then obtain n where n: "node_of r (sort (map conv_id items)) (blocked (subject_of r)) = Inr n"
    by (simp add: node_of_def)
  have P: "(tasks st |` P)(?i \<mapsto> r) = tasks st |` insert ?i P" using r by (auto simp: restrict_map_def)
  have B: "B(?i := blocked (subject_of r)) = B" using assms(4) r by (simp add: current_reasons_def fun_upd_idem)
  have "graph_of B (tasks st |` insert ?i P) (conversations st) (obj_put (int_text ?i) n ts)"
    using graph_of_put[OF Cons.prems(3) live owned(2) n, of "obj_put (int_text ?i) n ts"] unfolding P B by simp
  moreover have "subjects_of (tasks st |` insert ?i P) (AList.update (int_text ?i) (subject_of r) recs)"
    using subjects_put[OF Cons.prems(4) live, of ?i] unfolding P .
  moreover have "set rs \<subseteq> ran (tasks st)" "\<forall>r \<in> set rs. live r" using Cons.prems(1,2) by simp_all
  ultimately obtain ts' recs' where
    "build_nodes (graph_fuel st) blocked st rs (obj_put (int_text ?i) n ts) (AList.update (int_text ?i) (subject_of r) recs)
      = Some (Inr (graph ts', recs'))"
    "graph_of B (tasks st |` (insert ?i P \<union> task_id ` set rs)) (conversations st) ts'"
    "subjects_of (tasks st |` (insert ?i P \<union> task_id ` set rs)) recs'"
    using Cons.IH[of "insert ?i P"] by blast
  then show ?case using owned(1) n
    by (intro exI[of _ ts'] exI[of _ recs']) (simp add: Let_def insert_commute)
qed

lemma at_task_restrict:
  assumes "\<And>r. T i = Some r \<Longrightarrow> live r \<Longrightarrow> i \<in> P"
  shows "at_task B (T |` P) C i m = at_task B T C i m"
  using assms by (auto simp: at_task_def restrict_map_def shows_task_def split: option.splits if_splits)

lemma build_graph_step:
  assumes "storage_ok st" "\<not> closed st" "all_typed st"
  shows "\<exists>ts recs. build_graph (graph_fuel st) blocked st = Some (Inr (graph ts, recs)) \<and>
    graph_of (current_reasons blocked (tasks st)) (tasks st) (conversations st) ts \<and> subjects_of (tasks st) recs"
proof -
  let ?B = "current_reasons blocked (tasks st)"
  from live_tasks_all[OF assms(1,2), of LIVE_STATUSES] obtain rs where
    rs: "live_tasks (graph_fuel st) st LIVE_STATUSES = Some (Inr rs)" "set rs = {r \<in> ran (tasks st). live r}"
    unfolding live_status live_def by blast
  have "graph_of ?B (tasks st |` {}) (conversations st) []" "subjects_of (tasks st |` {}) []"
    by (simp_all add: graph_of_def at_task_def subjects_of_def)
  moreover have "set (sort_key task_id rs) \<subseteq> ran (tasks st)" "\<forall>r \<in> set (sort_key task_id rs). live r"
    using rs(2) by auto
  ultimately obtain ts recs where b: "build_nodes (graph_fuel st) blocked st (sort_key task_id rs) [] [] = Some (Inr (graph ts, recs))"
    "graph_of ?B (tasks st |` (task_id ` set rs)) (conversations st) ts" "subjects_of (tasks st |` (task_id ` set rs)) recs"
    using build_nodes_step[OF assms refl, of "sort_key task_id rs" blocked "{}" "[]" "[]"] by auto
  have ids: "id_matches (tasks st) task_id" using assms(1) by (simp add: storage_ok_def tables_ok_def)
  have P: "i \<in> task_id ` set rs" if "tasks st i = Some r" "live r" for i r
    using that rs(2) ids by (auto simp: ran_def id_matches_def image_iff)
  have "graph_of ?B (tasks st) (conversations st) ts"
    using b(2) P unfolding graph_of_def by (simp add: at_task_restrict)
  moreover have "subjects_of (tasks st) recs"
    using b(3) P unfolding subjects_of_def by (auto simp: restrict_map_def split: if_splits; metis)
  ultimately show ?thesis using rs(1) b(1)
    by (intro exI[of _ ts] exI[of _ recs]) (simp add: build_graph_def)
qed


section \<open>Refreshing\<close>

definition with_reason :: "blocked_reason option \<Rightarrow> json \<Rightarrow> json" where
  "with_reason b n =
     (case b of None \<Rightarrow> del_field ''blocked'' n | Some b \<Rightarrow> put_field ''blocked'' (jstr (reason_text b)) n)"

lemma with_reason_node: "with_reason b' (Obj (node_fields r s xs b)) = Obj (node_fields r s xs b')"
  by (cases b') (simp_all add: with_reason_def put_field_def del_field_def put_blocked del_blocked)

lemma reason_text_inj: "reason_text b = reason_text b' \<longleftrightarrow> b = b'"
  by (cases b; cases b') simp_all

lemma refresh_one:
  assumes "\<not> reserved k" "map_of ts k = Some (Obj (node_fields r s xs b))" "node_at value k = map_of ts k"
  shows "\<exists>ts'. apply_ops (Some (graph ts)) (refresh_op blocked value (k, x)) = Inr (Some (graph ts')) \<and>
    map_of ts' = (map_of ts)(k \<mapsto> Obj (node_fields r s xs (blocked x)))"
proof -
  have before: "Option.bind (node_at value k) (field_of ''blocked'') = map_option (\<lambda>b. jstr (reason_text b)) b"
    using assms(2,3) by (simp add: field_of_def)
  have inj: "map_option (\<lambda>b. jstr (reason_text b)) b1 = map_option (\<lambda>b. jstr (reason_text b)) b2 \<longleftrightarrow> b1 = b2" for b1 b2
    by (cases b1; cases b2) (auto simp: jstr_def reason_text_inj)
  show ?thesis
  proof (cases "blocked x = b")
    case True
    then show ?thesis using assms(2) by (intro exI[of _ ts]) (simp add: refresh_op_def before fun_upd_idem)
  next
    case False
    have f: "\<not> reserved ''blocked''" by simp
    show ?thesis
    proof (cases "blocked x")
      case None
      then have "refresh_op blocked value (k, x) = [OpD [Key ''tasks'', Key k, Key ''blocked'']]"
        using False by (cases b) (simp_all add: refresh_op_def before)
      then show ?thesis using graph_del_field[OF assms(1) f assms(2)] None
        by (intro exI[of _ "obj_put k (Obj (node_fields r s xs None)) ts"]) (simp only: del_blocked map_of_obj_put simp_thms)
    next
      case (Some b')
      then have "refresh_op blocked value (k, x) = [OpS [Key ''tasks'', Key k, Key ''blocked''] (jstr (reason_text b'))]"
        using False inj[of "Some b'" b] by (simp add: refresh_op_def before)
      then show ?thesis using graph_set_field[OF assms(1) f assms(2)] Some
        by (intro exI[of _ "obj_put k (Obj (node_fields r s xs (Some b'))) ts"]) (simp only: put_blocked map_of_obj_put simp_thms)
    qed
  qed
qed

lemma refresh_all:
  assumes "distinct (map fst recs)"
    and "\<And>k. k \<in> fst ` set recs \<Longrightarrow> \<not> reserved k \<and> map_of ts k = node_at value k \<and> (\<exists>r s xs b. map_of ts k = Some (Obj (node_fields r s xs b)))"
  shows "\<exists>ts'. apply_ops (Some (graph ts)) (concat (map (refresh_op blocked value) recs)) = Inr (Some (graph ts')) \<and>
    (\<forall>k. map_of ts' k = (case map_of recs k of None \<Rightarrow> map_of ts k | Some x \<Rightarrow> map_option (with_reason (blocked x)) (map_of ts k)))"
  using assms
proof (induction recs arbitrary: ts)
  case (Cons c recs)
  obtain k x where c: "c = (k, x)" by fastforce
  have "k \<in> fst ` set (c # recs)" by (simp add: c)
  from Cons.prems(2)[OF this] obtain r s xs b where
    k: "\<not> reserved k" "map_of ts k = Some (Obj (node_fields r s xs b))" "map_of ts k = node_at value k" by blast
  from refresh_one[OF k(1,2) k(3)[symmetric], of blocked x] obtain ts1 where
    one: "apply_ops (Some (graph ts)) (refresh_op blocked value (k, x)) = Inr (Some (graph ts1))"
    "map_of ts1 = (map_of ts)(k \<mapsto> Obj (node_fields r s xs (blocked x)))" by blast
  have fresh: "k \<notin> fst ` set recs" using Cons.prems(1) c by simp
  have "\<not> reserved j \<and> map_of ts1 j = node_at value j \<and> (\<exists>r s xs b. map_of ts1 j = Some (Obj (node_fields r s xs b)))"
    if "j \<in> fst ` set recs" for j
  proof -
    have "j \<noteq> k" using that fresh by blast
    then have e: "map_of ts1 j = map_of ts j" by (simp add: one(2))
    have "j \<in> fst ` set (c # recs)" using that by simp
    from Cons.prems(2)[OF this] show ?thesis unfolding e .
  qed
  moreover have "distinct (map fst recs)" using Cons.prems(1) by simp
  ultimately obtain ts' where
    ts': "apply_ops (Some (graph ts1)) (concat (map (refresh_op blocked value) recs)) = Inr (Some (graph ts'))"
    "\<forall>j. map_of ts' j = (case map_of recs j of None \<Rightarrow> map_of ts1 j | Some y \<Rightarrow> map_option (with_reason (blocked y)) (map_of ts1 j))"
    using Cons.IH[of ts1] by blast
  have "apply_ops (Some (graph ts)) (concat (map (refresh_op blocked value) (c # recs))) = Inr (Some (graph ts'))"
    using one(1) ts'(1) by (simp add: c apply_ops_append)
  moreover have "map_of recs k = None" using fresh by (simp add: map_of_eq_None_iff)
  then have "map_of ts' j = (case map_of (c # recs) j of None \<Rightarrow> map_of ts j | Some y \<Rightarrow> map_option (with_reason (blocked y)) (map_of ts j))" for j
    using ts'(2) k(2) by (simp add: c one(2) with_reason_node split: option.split)
  ultimately show ?case by blast
qed auto

lemma refresh_step:
  assumes "mt_value m = graph ts" "graph_of B T C ts" "subjects_of T (mt_records m)"
  shows "\<exists>m' ts'. refresh_blocked blocked m = Inr m' \<and> mt_value m' = graph ts' \<and>
    graph_of (current_reasons blocked T) T C ts' \<and> mt_records m' = mt_records m \<and> (all_follow m \<longrightarrow> all_follow m')"
proof -
  have shown: "\<exists>r s xs. T i = Some r \<and> live r \<and> lists (owned_by C i) xs \<and> state_of (task_state_of r) = Inr s \<and> n = Obj (node_fields r s xs (B i))"
    if "map_of ts (int_text i) = Some n" for i n
    using graph_ofD[OF assms(2), of i] that by (auto simp: at_task_def shows_task_def node_of_fields)
  have "\<not> reserved k \<and> map_of ts k = node_at (mt_value m) k \<and> (\<exists>r s xs b. map_of ts k = Some (Obj (node_fields r s xs b)))"
    if k: "k \<in> fst ` set (mt_records m)" for k
  proof -
    have "map_of (mt_records m) k \<noteq> None" using k by (simp add: map_of_eq_None_iff)
    then obtain i r where i: "k = int_text i" "T i = Some r" "live r" using assms(3) unfolding subjects_of_def by blast
    then obtain n where "map_of ts k = Some n" using graph_ofD[OF assms(2), of i] by (auto simp: at_task_def split: option.splits)
    with shown[of i n] i(1) int_text_safe assms(1) show ?thesis by fastforce
  qed
  with assms(3) refresh_all[of "mt_records m" ts "mt_value m" blocked] obtain ts' where
    ts': "apply_ops (Some (mt_value m)) (concat (map (refresh_op blocked (mt_value m)) (mt_records m))) = Inr (Some (graph ts'))"
    "\<And>k. map_of ts' k = (case map_of (mt_records m) k of None \<Rightarrow> map_of ts k | Some x \<Rightarrow> map_option (with_reason (blocked x)) (map_of ts k))"
    unfolding subjects_of_def assms(1) by blast
  have "graph_of (current_reasons blocked T) T C ts'"
    unfolding graph_of_def
  proof (intro conjI allI impI)
    fix i show "at_task (current_reasons blocked T) T C i (map_of ts' (int_text i))"
    proof (cases "map_of ts (int_text i)")
      case None
      then have "map_of ts' (int_text i) = None" using ts'(2)[of "int_text i"] by (auto split: option.splits)
      then show ?thesis using graph_ofD[OF assms(2), of i] None by (simp add: at_task_def)
    next
      case (Some n)
      from shown[OF Some] obtain r s xs where r: "T i = Some r" "live r" "lists (owned_by C i) xs"
        "state_of (task_state_of r) = Inr s" "n = Obj (node_fields r s xs (B i))" by blast
      have "map_of (mt_records m) (int_text i) = Some (subject_of r)" using assms(3) r(1,2) unfolding subjects_of_def by blast
      then have "map_of ts' (int_text i) = Some (Obj (node_fields r s xs (blocked (subject_of r))))"
        using ts'(2)[of "int_text i"] Some r(5) by (simp add: with_reason_node)
      then show ?thesis using r by (auto simp: at_task_def shows_task_def node_of_fields current_reasons_def)
    qed
  next
    fix k assume "map_of ts' k \<noteq> None"
    then have "map_of ts k \<noteq> None" using ts'(2)[of k] by (auto split: option.splits)
    then show "\<exists>i. k = int_text i" using assms(2) by (simp add: graph_of_def)
  qed
  with publish_step[OF ts'(1)] show ?thesis unfolding refresh_blocked_def by blast
qed


section \<open>What a commit does to the tables\<close>

lemma put_tables [simp]:
  "tasks (put_conversation r st) = tasks st" "conversations (put_conversation r st) = (conversations st)(conv_id r \<mapsto> r)"
  "closed (put_conversation r st) = closed st"
  "tasks (put_entry seq e st) = tasks st" "conversations (put_entry seq e st) = conversations st" "closed (put_entry seq e st) = closed st"
  "tasks (put_task t st) = (tasks st)(task_id t \<mapsto> t)" "conversations (put_task t st) = conversations st" "closed (put_task t st) = closed st"
  "tasks (put_submission s st) = tasks st" "conversations (put_submission s st) = conversations st" "closed (put_submission s st) = closed st"
  by (auto simp: put_conversation_def put_entry_def put_task_def put_submission_def bump_id_def add_request_def drop_request_def
      Let_def split: option.split prod.split)

lemma apply_writes_tables:
  "fold_res (apply_write seq) ws st = Inr st' \<Longrightarrow>
     tasks st' = tasks_after ws (tasks st) \<and> conversations st' = conversations_after ws (conversations st) \<and> closed st' = closed st"
proof (induction ws arbitrary: st)
  case (Cons w ws)
  then show ?case by (cases w) (auto simp: res_simps fun_upd_def)
qed simp

lemma apply_actions_tables:
  assumes "apply_document_actions seq as st = Inr st'"
  shows "tasks st' = tasks st \<and> conversations st' = conversations st \<and> closed st' = closed st"
proof -
  have one: "tasks st2 = tasks st1 \<and> conversations st2 = conversations st1 \<and> closed st2 = closed st1"
    if "apply_action seq ia st1 = Inr st2" for ia st1 st2
    using that by (auto simp: apply_action_def write_document_def index_address_def bump_id_def Let_def res_simps split: prod.splits option.splits if_splits)
  show ?thesis
    using assms unfolding apply_document_actions_def
  proof (induction as arbitrary: st)
    case (Cons a as)
    then obtain st1 where "apply_action seq a st = Inr st1" "fold_res (apply_action seq) as st1 = Inr st'"
      by (auto simp: res_simps)
    with Cons.IH[of st1] one[of a st st1] show ?case by simp
  qed simp
qed

lemma resolved_tables:
  "map_res (resolve_copy st X) ws = Inr ds \<Longrightarrow>
     tasks_after ds T = tasks_after ws T \<and> conversations_after ds C = conversations_after ws C \<and>
     conversation_ids_of ds = conversation_ids_of ws"
proof (induction ws arbitrary: ds T C)
  case (Cons w ws)
  then obtain d ds' where d: "resolve_copy st X w = Inr d" "map_res (resolve_copy st X) ws = Inr ds'" "ds = d # ds'"
    by (auto simp: res_simps)
  then show ?case using Cons.IH[OF d(2)]
    by (cases w) (auto simp: fun_upd_def split: if_splits sum.splits option.splits)
qed simp

lemma check_ids_fresh:
  "check_ids types claimed ws = Inr () \<Longrightarrow>
     distinct (conversation_ids_of ws) \<and> (\<forall>i \<in> set (conversation_ids_of ws). types i = None \<and> claimed i = None)"
proof (induction ws arbitrary: claimed)
  case (Cons w ws)
  have same: ?case if "\<And>r. w \<noteq> WConversation r"
  proof -
    have "\<exists>c. claimed \<subseteq>\<^sub>m c \<and> check_ids types c ws = Inr ()"
    proof (cases "claim_of w")
      case (Some it)
      obtain i t where it: "it = (i, t)" by fastforce
      have "claimed i \<noteq> None \<longrightarrow> claimed i = Some t" "check_ids types (claimed(i \<mapsto> t)) ws = Inr ()"
        using Cons.prems Some it by (auto split: if_splits option.splits)
      then show ?thesis by (intro exI[of _ "claimed(i \<mapsto> t)"]) (auto simp: map_le_def)
    qed (use Cons.prems in \<open>auto simp: map_le_def\<close>)
    then obtain c where "claimed \<subseteq>\<^sub>m c" "check_ids types c ws = Inr ()" by blast
    with Cons.IH[of c] that show ?thesis by (fastforce simp: map_le_def dom_def)
  qed
  show ?case
  proof (cases w)
    case (WConversation r)
    with Cons.prems have "types (conv_id r) = None" "claimed (conv_id r) = None"
      "check_ids types (claimed(conv_id r \<mapsto> ConversationTable)) ws = Inr ()"
      by (auto split: option.splits if_splits)
    with Cons.IH[OF this(3)] WConversation show ?thesis by (auto split: if_splits)
  qed (rule same, simp)+
qed simp

lemma commit_tables:
  assumes "storage_ok st" "commit st ws = Inr (seq, st')"
  shows "tasks st' = tasks_after ws (tasks st)" "conversations st' = conversations_after ws (conversations st)"
    "closed st' = closed st" "storage_ok st'" "fresh_conversations (conversations st) ws"
proof -
  obtain ds actions where c: "prepare_commit st ws seq = Inr (ds, actions)" "apply_prepared_commit seq ds actions st = Inr st'"
    "applied st seq actions st'" by (rule commit_parts[OF assms])
  note p = prepare_commit_parts[OF c(1)]
  then have r: "map_res (resolve_copy st (set (concat (map changed_document ws)))) ws = Inr ds"
    by (simp add: resolve_document_copies_def)
  from c(2) obtain st1 st2 where a: "fold_res (apply_write seq) ds st = Inr st1" "apply_document_actions seq actions st1 = Inr st2"
    "st' = st2\<lparr>next_seq := seq + 1\<rparr>" by (auto simp: apply_prepared_commit_def res_simps)
  show "tasks st' = tasks_after ws (tasks st)" "conversations st' = conversations_after ws (conversations st)" "closed st' = closed st"
    using apply_writes_tables[OF a(1)] apply_actions_tables[OF a(2)] a(3) resolved_tables[OF r] by simp_all
  show "storage_ok st'" using c(3) by (simp add: applied_def)
  have "check_ids (record_types st) Map.empty ds = Inr ()" using p by (simp add: check_global_ids_def)
  from check_ids_fresh[OF this] have f: "distinct (conversation_ids_of ws)" "\<forall>i \<in> set (conversation_ids_of ws). record_types st i = None"
    using resolved_tables[OF r] by simp_all
  have "typed (record_types st) (conversations st) ConversationTable" using assms(1) by (simp add: storage_ok_def types_ok_def)
  with f show "fresh_conversations (conversations st) ws" by (auto simp: fresh_conversations_def intro: typed_None)
qed


section \<open>What a transaction does to the tables\<close>

definition owners_known :: "mem_state \<Rightarrow> bool" where
  "owners_known st \<longleftrightarrow> (\<forall>t. owned_by (conversations st) t \<noteq> {} \<longrightarrow> tasks st t \<noteq> None)"

definition task_ids_of :: "storage_write list \<Rightarrow> int list" where
  "task_ids_of ws = List.map_filter (\<lambda>w. case w of WTask r \<Rightarrow> Some (task_id r) | _ \<Rightarrow> None) ws"

lemma task_ids_of_simps [simp]:
  "task_ids_of [] = []"
  "task_ids_of (WTask r # ws) = task_id r # task_ids_of ws"
  "(\<And>r. w \<noteq> WTask r) \<Longrightarrow> task_ids_of (w # ws) = task_ids_of ws"
  "task_ids_of (ws @ vs) = task_ids_of ws @ task_ids_of vs"
  by (auto simp: task_ids_of_def map_filter_def split: storage_write.splits)

lemma task_ids_of_set: "WTask r \<in> set ws \<Longrightarrow> task_id r \<in> set (task_ids_of ws)"
  by (force simp: task_ids_of_def map_filter_def)

lemma tameI:
  "distinct (task_ids_of ws) \<Longrightarrow>
   (\<And>r. WTask r \<in> set ws \<Longrightarrow> well_typed r \<and> (case T (task_id r) of None \<Rightarrow> owned_by C (task_id r) = {} | Some old \<Rightarrow> live old)) \<Longrightarrow>
     tame C ws T"
proof (induction ws arbitrary: T)
  case (Cons w ws)
  show ?case
  proof (cases "\<exists>r. w = WTask r")
    case True
    then obtain r where w: "w = WTask r" by blast
    have "tame C ws (T(task_id r \<mapsto> r))"
    proof (rule Cons.IH)
      fix r' assume r': "WTask r' \<in> set ws"
      then have "task_id r' \<noteq> task_id r" using Cons.prems(1) w task_ids_of_set by fastforce
      then show "well_typed r' \<and> (case (T(task_id r \<mapsto> r)) (task_id r') of None \<Rightarrow> owned_by C (task_id r') = {} | Some old \<Rightarrow> live old)"
        using Cons.prems(2)[of r'] r' by simp
    qed (use Cons.prems(1) w in simp)
    with Cons.prems(2)[of r] show ?thesis unfolding w by simp
  next
    case False
    have "tame C ws T" by (rule Cons.IH) (use Cons.prems False in auto)
    with False show ?thesis by (cases w) auto
  qed
qed simp

lemma tasks_after_written:
  "WTask r \<in> set ws \<Longrightarrow> tasks_after ws T (task_id r) \<noteq> None"
  "T i \<noteq> None \<Longrightarrow> tasks_after ws T i \<noteq> None"
proof -
  have keep: "T i \<noteq> None \<Longrightarrow> tasks_after ws T i \<noteq> None" for T i
    by (induction ws T rule: tasks_after.induct) (auto split: if_splits)
  then show "T i \<noteq> None \<Longrightarrow> tasks_after ws T i \<noteq> None" .
  have keep': "T i \<noteq> None \<Longrightarrow> tasks_after vs T i \<noteq> None" for T i vs
    by (induction vs T rule: tasks_after.induct) (auto split: if_splits)
  show "WTask r \<in> set ws \<Longrightarrow> tasks_after ws T (task_id r) \<noteq> None"
  proof (induction ws T rule: tasks_after.induct)
    case (2 r' ws T)
    from keep'[of "T(task_id r' \<mapsto> r')" "task_id r'" ws] "2" show ?case unfolding tasks_after.simps by (cases "r = r'") (simp_all add: fun_upd_def)
  qed auto
qed

lemma tasks_after_typed:
  "(\<And>r. WTask r \<in> set ws \<Longrightarrow> well_typed r) \<Longrightarrow> (\<And>i r. T i = Some r \<Longrightarrow> well_typed r) \<Longrightarrow>
     tasks_after ws T i = Some r \<Longrightarrow> well_typed r"
proof (induction ws T rule: tasks_after.induct)
  case (2 r' ws T)
  have "well_typed x" if "(T(task_id r' \<mapsto> r')) j = Some x" for j x
    using that "2.prems"(1)[of r'] "2.prems"(2)[of j x] by (auto split: if_splits)
  moreover have "tasks_after ws (T(task_id r' \<mapsto> r')) i = Some r" using "2.prems"(3) by simp
  moreover have "WTask x \<in> set ws \<Longrightarrow> well_typed x" for x using "2.prems"(1) by simp
  ultimately show ?case using "2.IH" by blast
qed auto

lemma staged_tables:
  assumes "batch_ok st tx" "w \<in> set (staged tx)"
  shows "(\<exists>r. w = WConversation r) \<or> (\<exists>e. w = WEntry e)"
proof -
  have "list_all (\<lambda>w. case w of WConversation _ \<Rightarrow> True | WEntry _ \<Rightarrow> True | _ \<Rightarrow> False) (staged tx)"
    using assms(1) unfolding batch_ok_def by blast
  with assms(2) have "case w of WConversation _ \<Rightarrow> True | WEntry _ \<Rightarrow> True | _ \<Rightarrow> False" by (simp add: list_all_iff)
  then show ?thesis by (cases w rule: storage_write.exhaust) simp_all
qed

lemma task_ids_none: "(\<And>w r. w \<in> set ws \<Longrightarrow> w \<noteq> WTask r) \<Longrightarrow> task_ids_of ws = []"
  by (induction ws) simp_all

lemma task_ids_writes:
  "\<forall>i k r. (i, Some (k, r)) \<in> set ts \<longrightarrow> task_id r = i \<Longrightarrow>
     task_ids_of (task_writes ts) = map fst (filter (\<lambda>(i, w). w \<noteq> None) ts)"
  by (induction ts) (auto split: option.split)

definition batch_typed :: "storage_write list \<Rightarrow> bool" where
  "batch_typed ws \<longleftrightarrow> (\<forall>r. WTask r \<in> set ws \<longrightarrow> well_typed r)"

lemma assembled_tame:
  assumes "tx_runs (new_transaction st conv task) tx" "storage_ok st" "assemble tx = (Inr ws, tx')" "owners_known st" "batch_typed ws"
  shows "tame (conversations st) ws (tasks st) \<and>
    (\<forall>r t. WConversation r \<in> set ws \<longrightarrow> map_option snd (conv_owner r) = Some t \<longrightarrow> tasks_after ws (tasks st) t \<noteq> None) \<and>
    on_store st tx'"
proof (rule assembled_writes[OF assms(1-3)])
  fix subs touched
  assume ws: "ws = staged tx @ map (\<lambda>(i, r). WSubmission r) subs @ task_writes touched @ copy_writes (fork_copies tx)"
    and d: "distinct (map fst touched)"
    and touched: "\<And>i k r. (i, Some (k, r)) \<in> set touched \<longleftrightarrow> candidate_task tx i = Some (k, r)"
    and owners: "\<And>w. w \<in> set (conversation_owners (staged tx) @ task_owners (touched_tasks tx)) \<Longrightarrow>
       \<exists>r. final_task st tx (snd w) = Some r \<and> live_owner r"
    and replaced: "\<And>i r. candidate_task tx i = Some (ReplaceTask, r) \<Longrightarrow>
       \<exists>c. tasks st i = Some c \<and> status_of (task_state_of c) \<noteq> Terminal \<and> task_conv c = task_conv r"
    and ok: "batch_ok st tx" and on: "on_store st tx'"
  have ids: "task_id r = i" if "(i, Some (k, r)) \<in> set touched" for i k r
    using that ok unfolding touched batch_ok_def by blast
  have created: "next_record_id st \<le> i" if "candidate_task tx i = Some (CreateTask, r)" for i r
  proof -
    have "i \<in> created_tasks tx" using that by (auto simp: created_tasks_def)
    moreover have "created_tasks tx \<subseteq> {next_record_id st ..< next_record_id (tx_store tx)}" using ok unfolding batch_ok_def by blast
    ultimately show ?thesis by auto
  qed
  have member: "WTask r \<in> set ws" if "candidate_task tx (task_id r) = Some (k, r)" for r k
    using that unfolding touched[symmetric] by (auto simp: ws set_task_writes)
  have written: "\<exists>k. candidate_task tx (task_id r) = Some (k, r)" if "WTask r \<in> set ws" for r
  proof -
    have "WTask r \<notin> set (staged tx)" using staged_tables[OF ok] by blast
    with that obtain i k where t: "(i, Some (k, r)) \<in> set touched" by (auto simp: ws set_task_writes copy_writes_def)
    with ids[OF t] touched show ?thesis by blast
  qed
  have "task_ids_of (staged tx) = []" "task_ids_of (map (\<lambda>(i, r). WSubmission r) subs) = []" "task_ids_of (copy_writes (fork_copies tx)) = []"
    using staged_tables[OF ok] by (auto intro!: task_ids_none simp: copy_writes_def)
  moreover have "task_ids_of (task_writes touched) = map fst (filter (\<lambda>(i, w). w \<noteq> None) touched)"
    using ids by (intro task_ids_writes) blast
  ultimately have distinct: "distinct (task_ids_of ws)" using d by (simp add: ws distinct_map_filter)
  have "tame (conversations st) ws (tasks st)"
  proof (rule tameI[OF distinct])
    fix r assume r: "WTask r \<in> set ws"
    then obtain k where k: "candidate_task tx (task_id r) = Some (k, r)" using written by blast
    have "case tasks st (task_id r) of None \<Rightarrow> owned_by (conversations st) (task_id r) = {} | Some old \<Rightarrow> live old"
    proof (cases k)
      case CreateTask
      then have "tasks st (task_id r) = None"
        using created[of "task_id r" r] k stored_old(1)[OF assms(2), of "task_id r"] by (cases "tasks st (task_id r)") auto
      with assms(4) show ?thesis by (auto simp: owners_known_def)
    next
      case ReplaceTask
      with k replaced[of "task_id r" r] show ?thesis by (auto simp: live_def)
    qed
    with r assms(5) show "well_typed r \<and> (case tasks st (task_id r) of None \<Rightarrow> owned_by (conversations st) (task_id r) = {} | Some old \<Rightarrow> live old)"
      by (simp add: batch_typed_def)
  qed
  moreover have "tasks_after ws (tasks st) t \<noteq> None" if r: "WConversation r \<in> set ws" "map_option snd (conv_owner r) = Some t" for r t
  proof -
    have "WConversation r \<in> set (staged tx)" using r(1) by (auto simp: ws set_task_writes copy_writes_def)
    with r(2) obtain w where w: "w \<in> set (conversation_owners (staged tx))" "snd w = t"
      by (force simp: conversation_owners_def map_filter_def)
    have "w \<in> set (conversation_owners (staged tx) @ task_owners (touched_tasks tx))" using w(1) by simp
    from owners[OF this] w(2) have f: "final_task st tx t \<noteq> None" by auto
    show ?thesis
    proof (cases "candidate_task tx t")
      case None
      with f have "tasks st t \<noteq> None" by (simp add: final_task_def)
      then show ?thesis by (rule tasks_after_written(2))
    next
      case (Some kr)
      obtain k r' where kr: "kr = (k, r')" by fastforce
      then have "task_id r' = t" using Some ids touched by blast
      with Some kr member[of r' k] have "WTask r' \<in> set ws" by simp
      from tasks_after_written(1)[OF this] \<open>task_id r' = t\<close> show ?thesis by blast
    qed
  qed
  ultimately show ?thesis using on by blast
qed


section \<open>Runs\<close>

text \<open>
  The registry's blocked reasons, the storage, the view, and whether a change of the registry still
  waits for its refresh. The Session runs commits, attachments and refreshes one at a time; a change
  of the registry comes at any time. A refused batch, and a callback that fails, only mint ids.
\<close>

type_synonym graph_state = "blocking \<times> mem_state \<times> graph_view \<times> bool"

definition observed :: "blocking \<Rightarrow> publication \<Rightarrow> graph_view \<Rightarrow> graph_view" where
  "observed blocked p v = (case observe_commit blocked p v of Inr v' \<Rightarrow> v' | Inl _ \<Rightarrow> v)"

definition refreshed :: "blocking \<Rightarrow> graph_view \<Rightarrow> graph_view" where
  "refreshed blocked v = (case refresh_view blocked v of Inr v' \<Rightarrow> v' | Inl _ \<Rightarrow> v)"

inductive graph_step :: "graph_state \<Rightarrow> graph_state \<Rightarrow> bool" where
  graph_commit: "tx_runs (new_transaction st conv task) tx \<Longrightarrow> assemble tx = (Inr ws, tx') \<Longrightarrow> batch_typed ws \<Longrightarrow>
    commit (tx_store tx') ws = Inr (seq, st') \<Longrightarrow>
    graph_step (bl, st, v, stale) (bl, st', observed bl (StoredCommit ws) v, stale)"
| graph_memory: "graph_step (bl, st, v, stale) (bl, st, observed bl MemoryCommit v, stale)"
| graph_mint: "next_record_id st \<le> k \<Longrightarrow> graph_step (bl, st, v, stale) (bl, st\<lparr>next_record_id := k\<rparr>, v, stale)"
| graph_attach: "attach_observer (graph_fuel st) bl st i v = Some (Inr v') \<Longrightarrow> graph_step (bl, st, v, stale) (bl, st, v', stale)"
| graph_detach: "graph_step (bl, st, v, stale) (bl, st, detach_observer i v, stale)"
| graph_registry: "graph_step (bl, st, v, stale) (bl', st, v, True)"
| graph_refresh: "graph_step (bl, st, v, stale) (bl, st, refreshed bl v, False)"
| graph_close: "graph_step (bl, st, v, stale) (bl, st, close_graph v, stale)"

inductive graph_runs :: "graph_state \<Rightarrow> graph_state \<Rightarrow> bool" where
  graph_refl: "graph_runs s s"
| graph_more: "graph_runs s s1 \<Longrightarrow> graph_step s1 s2 \<Longrightarrow> graph_runs s s2"

text \<open>The storage a Session opens: its invariant, checkpoints of their type, owners that are there.\<close>

definition graph_ready :: "mem_state \<Rightarrow> bool" where
  "graph_ready st \<longleftrightarrow> storage_ok st \<and> \<not> closed st \<and> all_typed st \<and> owners_known st"

definition mounted :: "blocking \<Rightarrow> mem_state \<Rightarrow> bool \<Rightarrow> mount \<Rightarrow> bool" where
  "mounted blocked st stale m \<longleftrightarrow>
     (\<exists>ts B. mt_value m = graph ts \<and> graph_of B (tasks st) (conversations st) ts \<and> subjects_of (tasks st) (mt_records m) \<and>
       (stale \<or> reasons blocked B (tasks st)) \<and> all_follow m)"

definition graph_inv :: "graph_state \<Rightarrow> bool" where
  "graph_inv s \<longleftrightarrow> (case s of (bl, st, v, stale) \<Rightarrow>
     graph_ready st \<and> (\<forall>m. gv_mount v = Some m \<longrightarrow> mounted bl st stale m \<and> \<not> gv_closed v))"

lemma storage_ok_later:
  assumes "storage_ok st" "next_record_id st \<le> k"
  shows "storage_ok (st\<lparr>next_record_id := k\<rparr>)"
proof -
  have "st\<lparr>next_record_id := k, closed := closed st\<rparr> = st\<lparr>next_record_id := k\<rparr>" by simp
  with storage_ok_counters[OF assms, of "closed st"] show ?thesis by simp
qed

lemma ready_mint: "graph_ready st \<Longrightarrow> next_record_id st \<le> k \<Longrightarrow> graph_ready (st\<lparr>next_record_id := k\<rparr>)"
  using storage_ok_later[of st k] by (simp add: graph_ready_def all_typed_def owners_known_def)

text \<open>Assembling only mints.\<close>

definition counting :: "'a tx_op \<Rightarrow> bool" where
  "counting m \<longleftrightarrow> (\<forall>tx. next_record_id (tx_store tx) \<le> next_record_id (tx_store (snd (m tx))))"

lemma counting_grows: "growing m \<Longrightarrow> counting m"
  unfolding growing_def counting_def using grows_same by blast

lemma counting_then: "counting m \<Longrightarrow> (\<And>a. counting (f a)) \<Longrightarrow> counting (then_tx m f)"
proof -
  assume m: "counting m" and f: "\<And>a. counting (f a)"
  have "next_record_id (tx_store tx) \<le> next_record_id (tx_store (snd (then_tx m f tx)))" for tx
  proof -
    obtain r tx1 where r: "m tx = (r, tx1)" by fastforce
    have "next_record_id (tx_store tx) \<le> next_record_id (tx_store tx1)"
      using m r unfolding counting_def by (metis snd_conv)
    moreover have "next_record_id (tx_store tx1) \<le> next_record_id (tx_store (snd (f a tx1)))" for a
      using f unfolding counting_def by blast
    ultimately show ?thesis using r by (cases r) (auto simp: then_tx_def intro: order_trans)
  qed
  then show ?thesis by (simp add: counting_def)
qed

lemma counting_self: "(\<And>tx. counting (m tx)) \<Longrightarrow> counting (\<lambda>tx. m tx tx)"
  by (simp add: counting_def)

lemma counting_each: "(\<And>x. counting (f x)) \<Longrightarrow> counting (each_tx f xs)"
  by (induction xs) (auto simp: counting_grows intro: counting_then)

lemma counting_resolve: "counting (resolve_change ic)"
proof -
  have c: "counting (change_tx (\<lambda>tx. tx\<lparr>new_submissions := x tx\<rparr>))" for x
    by (simp add: counting_def change_tx_def)
  show ?thesis
    unfolding resolve_change_def[abs_def] Let_def split_beta
    by (rule counting_self, rule counting_then)
      (auto simp: counting_grows c split: option.split sum.split)
qed

lemma assemble_counter:
  assumes "assemble tx = (r, tx')"
  shows "next_record_id (tx_store tx) \<le> next_record_id (tx_store tx')"
proof -
  have "counting validate_owners"
    unfolding validate_owners_def[abs_def]
    by (rule counting_self, rule counting_grows, rule growing_each, rule growing_check_owner)
  moreover have "counting (\<lambda>tx. each_tx check_replaced (touched_tasks tx) tx)"
    by (rule counting_self, rule counting_grows, rule growing_each, rule growing_check_replaced)
  moreover have "counting (\<lambda>tx. each_tx resolve_change (submission_changes tx) tx)"
    by (rule counting_self, rule counting_each, rule counting_resolve)
  ultimately have "counting assemble"
    unfolding assemble_def by (intro counting_then) (simp_all add: counting_def)
  then show ?thesis using assms unfolding counting_def by (metis snd_conv)
qed

lemma new_for_owner:
  "new_for ws (int_text t) \<noteq> [] \<Longrightarrow> \<exists>r. WConversation r \<in> set ws \<and> map_option snd (conv_owner r) = Some t"
proof (induction ws)
  case (Cons w ws)
  show ?case
  proof (cases "\<exists>r. w = WConversation r \<and> map_option snd (conv_owner r) = Some t")
    case False
    then have "new_for (w # ws) (int_text t) = new_for ws (int_text t)"
      by (cases w) (auto split: option.split)
    with Cons show ?thesis by auto
  qed auto
qed simp

lemma ready_commit:
  assumes "graph_ready st" "tx_runs (new_transaction st conv task) tx" "assemble tx = (Inr ws, tx')" "batch_typed ws"
    "commit (tx_store tx') ws = Inr (seq, st')"
  shows "graph_ready st' \<and> tasks st' = tasks_after ws (tasks st) \<and> conversations st' = conversations_after ws (conversations st) \<and>
    tame (conversations st) ws (tasks st) \<and> fresh_conversations (conversations st) ws"
proof -
  have ready: "storage_ok st" "\<not> closed st" "all_typed st" "owners_known st" using assms(1) by (simp_all add: graph_ready_def)
  note t = assembled_tame[OF assms(2) ready(1) assms(3) ready(4) assms(4)]
  then obtain n where n: "tx_store tx' = st\<lparr>next_record_id := n\<rparr>" unfolding on_store_def by blast
  have store: "storage_ok (tx_store tx')"
  proof -
    have "next_record_id st \<le> next_record_id (tx_store tx')"
    proof -
      have ok: "batch_ok st tx" by (rule batch_ok_runs[OF assms(2)])
      have "next_record_id (tx_store tx) \<le> next_record_id (tx_store tx')"
        by (rule assemble_counter[OF assms(3)])
      with ok show ?thesis by (simp add: batch_ok_def)
    qed
    with storage_ok_later[OF ready(1), of n] n show ?thesis by simp
  qed
  note c = commit_tables[OF store assms(5)]
  have tabs: "tasks st' = tasks_after ws (tasks st)" "conversations st' = conversations_after ws (conversations st)"
    "fresh_conversations (conversations st) ws" "\<not> closed st'" "storage_ok st'"
    using c ready(2) by (simp_all add: n)
  have "all_typed st'"
    unfolding all_typed_def tabs(1)
    using tasks_after_typed[of ws "tasks st"] assms(4) ready(3) unfolding batch_typed_def all_typed_def by blast
  moreover have "owners_known st'"
    unfolding owners_known_def tabs
  proof (intro allI impI)
    fix o' assume "owned_by (conversations_after ws (conversations st)) o' \<noteq> {}"
    then consider "owned_by (conversations st) o' \<noteq> {}" | "new_for ws (int_text o') \<noteq> []"
      using owned_after[OF tabs(3), of o'] by auto
    then show "tasks_after ws (tasks st) o' \<noteq> None"
    proof cases
      case 1
      then show ?thesis using ready(4) tasks_after_written(2) unfolding owners_known_def by blast
    next
      case 2
      from new_for_owner[OF this] t show ?thesis by blast
    qed
  qed
  ultimately show ?thesis using tabs t by (simp add: graph_ready_def)
qed


lemma mounted_commit:
  assumes "mounted bl st stale m" "tame (conversations st) ws (tasks st)" "fresh_conversations (conversations st) ws"
    and "tasks st' = tasks_after ws (tasks st)" "conversations st' = conversations_after ws (conversations st)"
  shows "\<exists>m'. advance_graph bl ws m = Inr m' \<and> mounted bl st' stale m'"
proof -
  from assms(1) obtain ts B where m: "mt_value m = graph ts" "graph_of B (tasks st) (conversations st) ts"
    "subjects_of (tasks st) (mt_records m)" "stale \<or> reasons bl B (tasks st)" "all_follow m" unfolding mounted_def by blast
  from advance_graph_step[OF m(1-3) assms(2,3), of bl] obtain m' ts' B' where
    "advance_graph bl ws m = Inr m'" "mt_value m' = graph ts'" "graph_of B' (tasks st') (conversations st') ts'"
    "subjects_of (tasks st') (mt_records m')" "stale \<or> reasons bl B' (tasks st')" "all_follow m'"
    using m(4,5) unfolding assms(4,5) by blast
  then show ?thesis unfolding mounted_def by blast
qed

lemma mounted_refresh:
  assumes "mounted bl st stale m"
  shows "\<exists>m'. refresh_blocked bl m = Inr m' \<and> mounted bl st False m'"
proof -
  from assms obtain ts B where m: "mt_value m = graph ts" "graph_of B (tasks st) (conversations st) ts"
    "subjects_of (tasks st) (mt_records m)" "all_follow m" unfolding mounted_def by blast
  from refresh_step[OF m(1-3), of bl] obtain m' ts' where
    r: "refresh_blocked bl m = Inr m'" "mt_value m' = graph ts'" "graph_of (current_reasons bl (tasks st)) (tasks st) (conversations st) ts'"
    "mt_records m' = mt_records m" "all_follow m'" using m(4) by blast
  have "reasons bl (current_reasons bl (tasks st)) (tasks st)" by (simp add: reasons_current)
  with r m(3) show ?thesis unfolding mounted_def by auto
qed

lemma mounted_observers:
  "mounted bl st stale m \<Longrightarrow> (\<And>o'. o' \<in> set obs \<Longrightarrow> o' \<in> set (mt_observers m) \<or> o' = \<lparr>ob_id = i, ob_start = mt_value m, ob_frames = []\<rparr>) \<Longrightarrow>
     mounted bl st stale (m\<lparr>mt_observers := obs\<rparr>)"
proof -
  assume m: "mounted bl st stale m" and o: "\<And>o'. o' \<in> set obs \<Longrightarrow> o' \<in> set (mt_observers m) \<or> o' = \<lparr>ob_id = i, ob_start = mt_value m, ob_frames = []\<rparr>"
  have "all_follow m \<Longrightarrow> all_follow (m\<lparr>mt_observers := obs\<rparr>)"
    unfolding all_follow_def using o by fastforce
  with m show ?thesis unfolding mounted_def by auto
qed

lemma mounted_attach:
  assumes "graph_ready st" "\<forall>m. gv_mount v = Some m \<longrightarrow> mounted bl st stale m \<and> \<not> gv_closed v"
    and "attach_observer (graph_fuel st) bl st i v = Some (Inr v')"
  shows "\<exists>m. gv_mount v' = Some m \<and> mounted bl st stale m \<and> \<not> gv_closed v'"
proof -
  let ?m = "case gv_mount v of Some m \<Rightarrow> Some (Inr m)
    | None \<Rightarrow> map_option (\<lambda>b. bind_res b (\<lambda>(value, live). Inr \<lparr>mt_value = value, mt_observers = [], mt_records = live\<rparr>))
        (build_graph (graph_fuel st) bl st)"
  have "\<exists>m. ?m = Some (Inr m) \<and> mounted bl st stale m"
  proof (cases "gv_mount v")
    case None
    have "storage_ok st" "\<not> closed st" "all_typed st" using assms(1) by (simp_all add: graph_ready_def)
    from build_graph_step[OF this, of bl] obtain ts recs where b:
      "build_graph (graph_fuel st) bl st = Some (Inr (graph ts, recs))"
      "graph_of (current_reasons bl (tasks st)) (tasks st) (conversations st) ts" "subjects_of (tasks st) recs" by blast
    have "mounted bl st stale \<lparr>mt_value = graph ts, mt_observers = [], mt_records = recs\<rparr>"
      unfolding mounted_def using b(2,3) by (auto simp: reasons_current all_follow_def)
    then show ?thesis using None b(1) by simp
  qed (use assms(2) in simp)
  then obtain m where m: "?m = Some (Inr m)" "mounted bl st stale m" by blast
  have v': "\<not> gv_closed v \<and> v' = v\<lparr>gv_mount := Some (m\<lparr>mt_observers :=
      mt_observers m @ [\<lparr>ob_id = i, ob_start = mt_value m, ob_frames = []\<rparr>]\<rparr>)\<rparr>"
    using assms(3) unfolding attach_observer_def m(1) by (auto split: if_splits)
  moreover have "mounted bl st stale (m\<lparr>mt_observers := mt_observers m @ [\<lparr>ob_id = i, ob_start = mt_value m, ob_frames = []\<rparr>]\<rparr>)"
    by (rule mounted_observers[OF m(2)]) auto
  ultimately show ?thesis by simp
qed

lemma graph_inv_step: "graph_step s s' \<Longrightarrow> graph_inv s \<Longrightarrow> graph_inv s'"
proof (induction rule: graph_step.induct)
  case (graph_commit st conv task tx ws tx' seq st' bl v stale)
  then have ready: "graph_ready st" by (simp add: graph_inv_def)
  note c = ready_commit[OF ready graph_commit.hyps]
  have "\<exists>m'. advance_graph bl ws m = Inr m' \<and> mounted bl st' stale m'" if "gv_mount v = Some m" for m
    using mounted_commit[of bl st stale m ws st'] graph_commit.prems that c by (simp add: graph_inv_def)
  then show ?case using c graph_commit.prems
    by (cases "gv_mount v") (auto simp: graph_inv_def observed_def observe_commit_def)
next
  case (graph_memory bl st v stale)
  then show ?case by (simp add: graph_inv_def observed_def observe_commit_def split: option.split)
next
  case (graph_mint st k bl v stale)
  have "mounted bl (st\<lparr>next_record_id := k\<rparr>) stale m = mounted bl st stale m" for m by (simp add: mounted_def)
  with graph_mint ready_mint show ?case by (simp add: graph_inv_def)
next
  case (graph_attach st bl i v v' stale)
  then show ?case using mounted_attach[of st v bl stale i v'] by (auto simp: graph_inv_def)
next
  case (graph_detach bl st v stale i)
  have "mounted bl st stale m \<Longrightarrow> mounted bl st stale (m\<lparr>mt_observers := filter P (mt_observers m)\<rparr>)" for m P
    by (rule mounted_observers) auto
  with graph_detach show ?case by (auto simp: graph_inv_def detach_observer_def Let_def split: option.splits)
next
  case (graph_registry bl st v stale bl')
  then show ?case by (fastforce simp: graph_inv_def mounted_def)
next
  case (graph_refresh bl st v stale)
  then have "\<exists>m'. refresh_blocked bl m = Inr m' \<and> mounted bl st False m'" if "gv_mount v = Some m" for m
    using mounted_refresh[of bl st stale m] that by (simp add: graph_inv_def)
  with graph_refresh show ?case
    by (cases "gv_mount v") (auto simp: graph_inv_def refreshed_def refresh_view_def)
next
  case (graph_close bl st v stale)
  then show ?case by (simp add: graph_inv_def close_graph_def)
qed

definition no_view :: graph_view where "no_view = \<lparr>gv_mount = None, gv_closed = False\<rparr>"

text \<open>
  C29: The task graph follows the storage. Whatever transactions were committed, observers attached
  and registry changes refreshed since the Session was opened, the mounted value has the nodes that
  building the graph again from the storage gives, each with its conversations and its blocked
  reason, and the frames handed to every observer replay from the value it was given to the mounted
  one.
\<close>

theorem graph_follows_storage:
  assumes "graph_runs (bl0, st0, no_view, False) (bl, st, v, False)" "graph_ready st0" "gv_mount v = Some m"
  shows "\<exists>ts ts' live. mt_value m = Obj [(''tasks'', Obj ts)] \<and>
    build_graph (graph_fuel st) bl st = Some (Inr (Obj [(''tasks'', Obj ts')], live)) \<and> map_of ts = map_of ts' \<and>
    (\<forall>o'. o' \<in> set (mt_observers m) \<longrightarrow> follows (ob_start o') (ob_frames o') (mt_value m))"
proof -
  have "graph_inv (bl0, st0, no_view, False)" using assms(2) by (simp add: graph_inv_def no_view_def)
  with assms(1) have "graph_inv (bl, st, v, False)"
    by (induction rule: graph_runs.induct) (auto intro: graph_inv_step)
  then have inv: "graph_ready st" "mounted bl st False m" using assms(3) by (simp_all add: graph_inv_def)
  from inv(2) obtain ts B where m: "mt_value m = graph ts" "graph_of B (tasks st) (conversations st) ts"
    "reasons bl B (tasks st)" "all_follow m" unfolding mounted_def by blast
  have "storage_ok st" "\<not> closed st" "all_typed st" using inv(1) by (simp_all add: graph_ready_def)
  from build_graph_step[OF this, of bl] obtain ts' recs where b:
    "build_graph (graph_fuel st) bl st = Some (Inr (graph ts', recs))"
    "graph_of (current_reasons bl (tasks st)) (tasks st) (conversations st) ts'" by blast
  have "map_of ts = map_of ts'" by (rule graph_of_unique[OF m(2) b(2)]) (use m(3) in \<open>simp add: reasons_current\<close>)
  with m(1,4) b(1) show ?thesis unfolding graph_def all_follow_def by blast
qed


section \<open>A run to look at\<close>

definition phase_checkpoint :: json where "phase_checkpoint = Obj [(''phase'', jstr ''start'')]"

definition graph_task :: task_record where
  "graph_task =
     \<lparr>task_id = 3, task_conv = 2, task_kind = ''run'', task_version = 1, task_input = Prim PNull, task_owner = None,
      task_background = False, task_abort_requested = False, task_state_of = TPending phase_checkpoint, task_kept = Obj []\<rparr>"

definition graph_conversation :: conversation_record where
  "graph_conversation = \<lparr>conv_id = 2, conv_parent = None, conv_owner = None\<rparr>"

definition graph_writes :: "storage_write list" where
  "graph_writes = [WConversation graph_conversation, WTask graph_task]"

definition graph_storage :: mem_state where
  "graph_storage = committed empty_storage graph_writes"

definition graph_tx :: transaction where
  "graph_tx =
     snd (create_conversation (Some 3)
       (snd (create_task \<lparr>def_name = ''child'', def_version = 1, def_initial = (\<lambda>_. phase_checkpoint)\<rparr> (Prim PNull)
         \<lparr>opt_owner = Some 3, opt_background = False, opt_conversation = None, opt_abandon = False\<rparr>
         (new_transaction graph_storage (Some 2) None))))"

definition graph_batch :: "storage_write list" where
  "graph_batch = (case fst (assemble graph_tx) of Inl _ \<Rightarrow> [] | Inr ws \<Rightarrow> ws)"

definition graph_after :: mem_state where
  "graph_after = (case commit (tx_store (snd (assemble graph_tx))) graph_batch of Inl _ \<Rightarrow> graph_storage | Inr (seq, st) \<Rightarrow> st)"

text \<open>No definition takes tasks of the kind \<open>child\<close>.\<close>

definition graph_blocking :: blocking where
  "graph_blocking s = (if bs_kind s = ''child'' then Some MissingTask else None)"

lemma graph_values:
  "map_sum (\<lambda>_. ()) length (fst (assemble graph_tx)) = Inr 2"
  "map_sum (\<lambda>_. ()) fst (commit (tx_store (snd (assemble graph_tx))) graph_batch) = Inr 2"
  "list_all (\<lambda>w. case w of WTask r \<Rightarrow> task_state_of r = TPending phase_checkpoint | _ \<Rightarrow> True) graph_batch"
  by code_simp+

lemma graph_storage_commit: "map_sum (\<lambda>_. ()) fst (commit empty_storage graph_writes) = Inr 1"
  by code_simp

lemma graph_storage_tables:
  "tasks graph_storage = [3 \<mapsto> graph_task]" "conversations graph_storage = [2 \<mapsto> graph_conversation]" "\<not> closed graph_storage"
proof -
  obtain seq st where c: "commit empty_storage graph_writes = Inr (seq, st)"
    using graph_storage_commit by (cases "commit empty_storage graph_writes") auto
  then have "graph_storage = st" by (simp add: graph_storage_def committed_def)
  then show "tasks graph_storage = [3 \<mapsto> graph_task]" "conversations graph_storage = [2 \<mapsto> graph_conversation]" "\<not> closed graph_storage"
    using commit_tables[OF storage_ok_empty c]
    by (simp_all add: graph_writes_def graph_task_def graph_conversation_def empty_storage_def)
qed

lemma graph_ready_storage: "graph_ready graph_storage"
proof -
  have "storage_ok graph_storage"
    unfolding graph_storage_def by (rule storage_ok_runs[OF run_committed storage_ok_empty])
  then show ?thesis
    by (simp add: graph_ready_def graph_storage_tables all_typed_def owners_known_def owned_by_def well_typed_def
        graph_task_def graph_conversation_def phase_checkpoint_def)
qed

lemma attach_ready:
  assumes "graph_ready st" "gv_mount v = None" "\<not> gv_closed v"
  shows "\<exists>v'. attach_observer (graph_fuel st) bl st i v = Some (Inr v')"
proof -
  have "storage_ok st" "\<not> closed st" "all_typed st" using assms(1) by (simp_all add: graph_ready_def)
  from build_graph_step[OF this, of bl] obtain ts recs where
    "build_graph (graph_fuel st) bl st = Some (Inr (graph ts, recs))" by blast
  then show ?thesis using assms(2,3) by (simp add: attach_observer_def)
qed

lemma graph_tx_runs: "tx_runs (new_transaction graph_storage (Some 2) None) graph_tx"
  unfolding graph_tx_def by (rule runs_step[OF runs_step[OF runs_refl step_create_task] step_conversation])

lemma graph_assembled: "assemble graph_tx = (Inr graph_batch, snd (assemble graph_tx))"
  using graph_values(1) by (cases "assemble graph_tx"; cases "fst (assemble graph_tx)") (auto simp: graph_batch_def)

lemma graph_committed: "commit (tx_store (snd (assemble graph_tx))) graph_batch = Inr (2, graph_after)"
  using graph_values(2)
  by (cases "commit (tx_store (snd (assemble graph_tx))) graph_batch") (auto simp: graph_after_def)

lemma graph_batch_typed: "batch_typed graph_batch"
  using graph_values(3) unfolding batch_typed_def list_all_iff
  by (force simp: well_typed_def phase_checkpoint_def)

lemma publish_observers: "publish ops m = Inr m' \<Longrightarrow> map ob_id (mt_observers m') = map ob_id (mt_observers m)"
  by (auto simp: publish_def split: if_splits sum.splits option.splits)

lemma advance_observers: "advance_graph bl ws m = Inr m' \<Longrightarrow> map ob_id (mt_observers m') = map ob_id (mt_observers m)"
  unfolding advance_graph_def Let_def by (auto simp: bind_res_Inr_iff dest: publish_observers)

lemma graph_watched: "\<exists>v m. graph_runs (graph_blocking, graph_storage, no_view, False) (graph_blocking, graph_after, v, False) \<and>
  gv_mount v = Some m \<and> map ob_id (mt_observers m) = [0]"
proof -
  have no_view: "gv_mount no_view = None" "\<not> gv_closed no_view" by (simp_all add: no_view_def)
  from attach_ready[OF graph_ready_storage no_view] obtain v where
    v: "attach_observer (graph_fuel graph_storage) graph_blocking graph_storage 0 no_view = Some (Inr v)" by blast
  from mounted_attach[OF graph_ready_storage _ v] no_view(1) obtain m where
    m: "gv_mount v = Some m" "mounted graph_blocking graph_storage False m" by auto
  have ids: "map ob_id (mt_observers m) = [0]"
    using v m(1) no_view(1) unfolding attach_observer_def by (auto simp: bind_res_Inr_iff split: option.splits sum.splits if_splits prod.splits)
  note c = ready_commit[OF graph_ready_storage graph_tx_runs graph_assembled graph_batch_typed graph_committed]
  from mounted_commit[OF m(2)] c obtain m' where m': "advance_graph graph_blocking graph_batch m = Inr m'" by blast
  have "graph_runs (graph_blocking, graph_storage, no_view, False)
      (graph_blocking, graph_after, observed graph_blocking (StoredCommit graph_batch) v, False)"
    by (rule graph_more[OF graph_more[OF graph_refl graph_attach[OF v]]
      graph_commit[OF graph_tx_runs graph_assembled graph_batch_typed graph_committed]])
  moreover have "gv_mount (observed graph_blocking (StoredCommit graph_batch) v) = Some m'"
    by (simp add: observed_def observe_commit_def m(1) m')
  ultimately show ?thesis using ids advance_observers[OF m'] by auto
qed

theorem graph_follows_storage_witness:
  "\<exists>v m ts ts' live. graph_runs (graph_blocking, graph_storage, no_view, False) (graph_blocking, graph_after, v, False) \<and>
     gv_mount v = Some m \<and> map ob_id (mt_observers m) = [0] \<and> mt_value m = Obj [(''tasks'', Obj ts)] \<and>
     build_graph (graph_fuel graph_after) graph_blocking graph_after = Some (Inr (Obj [(''tasks'', Obj ts')], live)) \<and>
     map_of ts = map_of ts'"
proof -
  obtain v m where r: "graph_runs (graph_blocking, graph_storage, no_view, False) (graph_blocking, graph_after, v, False)"
    "gv_mount v = Some m" "map ob_id (mt_observers m) = [0]" using graph_watched by (elim exE conjE)
  from graph_follows_storage[OF r(1) graph_ready_storage r(2)] obtain ts ts' live where
    "mt_value m = Obj [(''tasks'', Obj ts)]"
    "build_graph (graph_fuel graph_after) graph_blocking graph_after = Some (Inr (Obj [(''tasks'', Obj ts')], live))"
    "map_of ts = map_of ts'" by (elim exE conjE)
  with r show ?thesis by (intro exI conjI)
qed

end
