(* ===== verification/Inbox_Views.thy ===== *)
theory Inbox_Views
  imports Run_Control Task_Graph_Runs
begin

text \<open>
  The submissions a transaction will leave behind: its changes applied in order to the records it
  created and to the stored ones. What every operation of a desk does to this view, and that a
  commit makes it the stored table.
\<close>

section \<open>The view of a transaction\<close>

type_synonym submission_table = "int \<rightharpoonup> submission_record"

fun apply_changes :: "(int \<times> submission_change) list \<Rightarrow> submission_table \<Rightarrow> submission_table" where
  "apply_changes [] f = f"
| "apply_changes ((i, c) # cs) f =
     apply_changes cs (case f i of
       None \<Rightarrow> f
     | Some r \<Rightarrow> (case apply_submission_change r c of Inl _ \<Rightarrow> f | Inr r' \<Rightarrow> f(i \<mapsto> r')))"

lemma apply_changes_append [simp]: "apply_changes (cs @ ds) f = apply_changes ds (apply_changes cs f)"
  by (induction cs f rule: apply_changes.induct) simp_all

definition base_view :: "transaction \<Rightarrow> submission_table" where
  "base_view tx i = (case map_of (new_submissions tx) i of Some r \<Rightarrow> Some r | None \<Rightarrow> submissions (tx_store tx) i)"

definition final_view :: "transaction \<Rightarrow> submission_table" where
  "final_view tx = apply_changes (submission_changes tx) (base_view tx)"

text \<open>Changes of distinct submissions do not meet.\<close>

lemma apply_changes_other: "i \<notin> fst ` set cs \<Longrightarrow> apply_changes cs f i = f i"
  by (induction cs f rule: apply_changes.induct) (auto split: option.split sum.split)

lemma apply_changes_at:
  "distinct (map fst cs) \<Longrightarrow> (i, c) \<in> set cs \<Longrightarrow>
     apply_changes cs f i = (case f i of None \<Rightarrow> None
       | Some r \<Rightarrow> (case apply_submission_change r c of Inl _ \<Rightarrow> Some r | Inr r' \<Rightarrow> Some r'))"
proof (induction cs f rule: apply_changes.induct)
  case (2 j d cs f)
  show ?case
  proof (cases "i = j")
    case True
    with 2 have "c = d" "i \<notin> fst ` set cs" by force+
    with True show ?thesis by (simp add: apply_changes_other split: option.split sum.split)
  next
    case False
    with 2 show ?thesis by (auto split: option.splits sum.splits)
  qed
qed simp

section \<open>What a desk operation does\<close>

text \<open>It runs the transaction, and it adds submission changes; only admission creates submissions.\<close>

definition moved :: "(int \<times> submission_change) list \<Rightarrow> transaction \<Rightarrow> transaction \<Rightarrow> bool" where
  "moved cs tx tx' \<longleftrightarrow> tx_runs tx tx' \<and> submissions (tx_store tx') = submissions (tx_store tx) \<and>
     new_submissions tx' = new_submissions tx \<and> submission_changes tx' = submission_changes tx @ cs"

lemma tx_runs_trans: "tx_runs b c \<Longrightarrow> tx_runs a b \<Longrightarrow> tx_runs a c"
  by (induction rule: tx_runs.induct) (auto intro: runs_step)

lemma moved_refl [simp]: "moved [] tx tx"
  by (simp add: moved_def runs_refl)

lemma moved_trans: "moved cs a b \<Longrightarrow> moved ds b c \<Longrightarrow> moved (cs @ ds) a c"
  unfolding moved_def using tx_runs_trans by auto

lemma moved_view: "moved cs tx tx' \<Longrightarrow> final_view tx' = apply_changes cs (final_view tx)"
proof -
  assume "moved cs tx tx'"
  then have "base_view tx' = base_view tx" "submission_changes tx' = submission_changes tx @ cs"
    by (simp_all add: moved_def base_view_def[abs_def] cong: option.case_cong)
  then show ?thesis by (simp add: final_view_def)
qed

text \<open>The operations that only write other tables.\<close>

definition quiet :: "'a tx_op \<Rightarrow> bool" where
  "quiet m \<longleftrightarrow> (\<forall>tx. submissions (tx_store (snd (m tx))) = submissions (tx_store tx) \<and>
     new_submissions (snd (m tx)) = new_submissions tx \<and> submission_changes (snd (m tx)) = submission_changes tx)"

lemma quiet_then [intro]: "quiet m \<Longrightarrow> (\<And>a. quiet (f a)) \<Longrightarrow> quiet (then_tx m f)"
  unfolding quiet_def then_tx_def by (auto split: prod.split sum.split) (metis snd_conv)+

lemma quiet_basic [intro, simp]:
  "quiet (return_tx a)" "quiet (fail_tx e)" "quiet (lift_tx r)" "quiet (check_tx ok e)" "quiet (read_tx k g)"
  by (auto simp: quiet_def tx_ops read_tx_def split: sum.split)

lemma quiet_mint [intro, simp]: "quiet mint_tx"
proof -
  have "submissions st = submissions (tx_store tx)" if "mint_id (tx_store tx) = Inr (i, st)" for tx i st
    using that by (auto simp: mint_id_def res_simps split: if_splits)
  then show ?thesis by (auto simp: quiet_def mint_tx_def split: sum.split)
qed

lemma quiet_write [intro]: "quiet m \<Longrightarrow> quiet (write_tx m)"
  by (auto simp: quiet_def write_tx_def)

lemma quiet_change: "(\<And>tx. submissions (tx_store (g tx)) = submissions (tx_store tx) \<and> new_submissions (g tx) = new_submissions tx \<and>
    submission_changes (g tx) = submission_changes tx) \<Longrightarrow> quiet (change_tx g)"
  by (simp add: quiet_def change_tx_def)

lemma quiet_require [intro, simp]: "quiet (require_conversation conv)"
proof -
  have "quiet (then_tx (lift_tx r) (\<lambda>found. check_tx (p found) e))" for r and p :: "conversation_record option \<Rightarrow> bool" and e
    by (rule quiet_then) simp_all
  then show ?thesis unfolding quiet_def by (simp add: require_conversation_def)
qed

lemma quiet_current [intro, simp]: "quiet (current_task t)"
proof -
  have "quiet (change_tx (touch_task t))" by (rule quiet_change) (simp add: touch_task_def)
  moreover have "quiet (\<lambda>tx. lift_tx (get_task (tx_store tx) t) tx)" by (simp add: quiet_def lift_tx_def split: sum.split)
  ultimately have "quiet (committed_task t)" unfolding committed_task_def by (rule quiet_then)
  then show ?thesis unfolding quiet_def by (simp add: current_task_def split: option.split)
qed

lemma quiet_append: "quiet (append_entry conv d)"
proof -
  have "quiet (\<lambda>tx. let r = drafted_entry i conv (tx_task tx) d in (Inr r, tx\<lparr>staged := staged tx @ [WEntry r]\<rparr>))" for i
    by (simp add: quiet_def Let_def)
  then show ?thesis unfolding append_entry_def by (intro quiet_write quiet_then quiet_require quiet_mint)
qed

lemma quiet_create_task: "quiet (create_task def input opts)"
proof -
  have own: "quiet (task_owner_of opts)"
    unfolding task_owner_of_def by (auto split: option.split)
  have put: "quiet (change_tx (put_touched i k r))" for i k r by (rule quiet_change) (simp add: put_touched_def)
  have rest: "quiet (\<lambda>tx. case g tx of None \<Rightarrow> fail_tx e tx | Some c \<Rightarrow> M c tx)"
    if "\<And>c. quiet (M c)" for g e and M :: "int \<Rightarrow> int tx_op"
    using that unfolding quiet_def by (simp add: fail_tx_def split: option.split)
  show ?thesis
    unfolding create_task_def Let_def
    by (rule quiet_write, rule quiet_then[OF own], rule rest) (intro quiet_then quiet_require quiet_mint put quiet_basic)
qed

section \<open>Assembly makes the view the table\<close>

lemma resolve_view:
  assumes "resolve_change (i, c) tx = (Inr (), tx')"
  shows "tx_store tx' = tx_store tx \<and> base_view tx' = apply_changes [(i, c)] (base_view tx)"
proof -
  have "on_store (tx_store tx) tx" by (simp add: on_store_def)
  from resolve_change_result[OF assms this] obtain old r where
    old: "map_of (new_submissions tx) i = Some old \<or> map_of (new_submissions tx) i = None \<and> submissions (tx_store tx) i = Some old"
    and r: "apply_submission_change old c = Inr r"
    and tx': "tx' = tx \<and> r = old \<or> tx' = tx\<lparr>new_submissions := AList.update i r (new_submissions tx)\<rparr>" by blast
  have at: "base_view tx i = Some old" using old by (auto simp: base_view_def)
  have "base_view tx' = (base_view tx)(i \<mapsto> r)"
    using tx'
  proof
    assume "tx' = tx\<lparr>new_submissions := AList.update i r (new_submissions tx)\<rparr>"
    then show ?thesis by (intro ext) (simp add: base_view_def update_conv split: option.split)
  qed (simp add: at fun_upd_idem)
  moreover have "apply_changes [(i, c)] (base_view tx) = (base_view tx)(i \<mapsto> r)" by (simp add: at r)
  ultimately show ?thesis using tx' by auto
qed

lemma resolve_each_view:
  "each_tx resolve_change cs tx = (Inr (), tx') \<Longrightarrow> tx_store tx' = tx_store tx \<and> base_view tx' = apply_changes cs (base_view tx)"
proof (induction cs arbitrary: tx)
  case (Cons ic cs)
  obtain i c where ic: "ic = (i, c)" by fastforce
  from Cons.prems obtain tx1 where one: "resolve_change (i, c) tx = (Inr (), tx1)" and rest: "each_tx resolve_change cs tx1 = (Inr (), tx')"
    unfolding each_tx.simps ic by (rule then_cases) auto
  have "apply_changes (ic # cs) f = apply_changes cs (apply_changes [(i, c)] f)" for f by (simp add: ic)
  with Cons.IH[OF rest] resolve_view[OF one] show ?case by simp
qed (simp add: return_tx_def)

fun submissions_after :: "storage_write list \<Rightarrow> submission_table \<Rightarrow> submission_table" where
  "submissions_after [] f = f"
| "submissions_after (WSubmission r # ws) f = submissions_after ws (f(sub_id r \<mapsto> r))"
| "submissions_after (_ # ws) f = submissions_after ws f"

lemma submissions_after_append [simp]: "submissions_after (xs @ ys) f = submissions_after ys (submissions_after xs f)"
  by (induction xs f rule: submissions_after.induct) (simp_all add: fun_upd_def)

lemma submissions_after_others: "(\<And>r. WSubmission r \<notin> set ws) \<Longrightarrow> submissions_after ws f = f"
proof (induction ws)
  case (Cons w ws)
  from Cons.prems have "WSubmission r \<notin> set ws" "w \<noteq> WSubmission r" for r by auto
  with Cons.IH show ?case by (cases w) auto
qed simp

lemma submissions_after_records:
  "distinct (map fst subs) \<Longrightarrow> \<forall>(i, r) \<in> set subs. sub_id r = i \<Longrightarrow>
     submissions_after (map (\<lambda>(i, r). WSubmission r) subs) f j = (case map_of subs j of Some r \<Rightarrow> Some r | None \<Rightarrow> f j)"
proof (induction subs arbitrary: f)
  case (Cons ir subs)
  obtain i r where ir: "ir = (i, r)" by fastforce
  with Cons.prems have "sub_id r = i" "i \<notin> fst ` set subs" by auto
  moreover from this have "map_of subs i = None" by (simp add: map_of_eq_None_iff)
  ultimately show ?case using Cons by (auto simp: ir split: option.split)
qed simp

lemma put_submissions [simp]:
  "submissions (put_conversation r st) = submissions st" "submissions (put_entry seq e st) = submissions st"
  "submissions (put_task t st) = submissions st" "submissions (put_submission s st) = (submissions st)(sub_id s \<mapsto> s)"
  by (auto simp: put_conversation_def put_entry_def put_task_def put_submission_def bump_id_def add_request_def drop_request_def
      Let_def split: option.split prod.split)

lemma apply_writes_submissions: "fold_res (apply_write seq) ws st = Inr st' \<Longrightarrow> submissions st' = submissions_after ws (submissions st)"
proof (induction ws arbitrary: st)
  case (Cons w ws)
  then show ?case by (cases w) (auto simp: res_simps fun_upd_def)
qed simp

lemma apply_actions_submissions: "fold_res (apply_action seq) as st = Inr st' \<Longrightarrow> submissions st' = submissions st"
proof (induction as arbitrary: st)
  case (Cons a as)
  have one: "submissions st2 = submissions st1" if "apply_action seq ia st1 = Inr st2" for ia st1 st2
    using that by (auto simp: apply_action_def write_document_def index_address_def bump_id_def Let_def res_simps split: prod.splits option.splits if_splits)
  from Cons.prems obtain st1 where "apply_action seq a st = Inr st1" "fold_res (apply_action seq) as st1 = Inr st'"
    by (auto simp: res_simps)
  with Cons.IH[of st1] one[of a st st1] show ?case by simp
qed simp

lemma resolved_submissions: "map_res (resolve_copy st X) ws = Inr ds \<Longrightarrow> submissions_after ds f = submissions_after ws f"
proof (induction ws arbitrary: ds f)
  case (Cons w ws)
  then obtain d ds' where d: "resolve_copy st X w = Inr d" "map_res (resolve_copy st X) ws = Inr ds'" "ds = d # ds'"
    by (auto simp: res_simps)
  then show ?case using Cons.IH[OF d(2)]
    by (cases w) (auto simp: fun_upd_def split: if_splits sum.splits option.splits)
qed simp

lemma commit_submissions:
  assumes "storage_ok st" "commit st ws = Inr (seq, st')"
  shows "submissions st' = submissions_after ws (submissions st)"
proof -
  obtain ds actions where c: "prepare_commit st ws seq = Inr (ds, actions)" "apply_prepared_commit seq ds actions st = Inr st'"
    by (rule commit_parts[OF assms])
  note p = prepare_commit_parts[OF c(1)]
  then have r: "map_res (resolve_copy st (set (concat (map changed_document ws)))) ws = Inr ds"
    by (simp add: resolve_document_copies_def)
  from c(2) obtain st1 st2 where a: "fold_res (apply_write seq) ds st = Inr st1" "apply_document_actions seq actions st1 = Inr st2"
    "st' = st2\<lparr>next_seq := seq + 1\<rparr>" by (auto simp: apply_prepared_commit_def res_simps)
  show ?thesis
    using apply_writes_submissions[OF a(1)] apply_actions_submissions a(2,3) resolved_submissions[OF r]
    by (simp add: apply_document_actions_def)
qed

lemma assemble_view:
  assumes "assemble tx = (Inr ws, tx')" "batch_ok st tx" "id_matches (submissions st) sub_id"
  shows "submissions_after ws (submissions st) = final_view tx"
proof -
  obtain tx2 where g: "grows tx tx2" "each_tx resolve_change (submission_changes tx2) tx2 = (Inr (), tx')"
    by (rule assemble_steps[OF assms(1)])
  have same: "submission_changes tx2 = submission_changes tx" "base_view tx2 = base_view tx"
  proof -
    show "submission_changes tx2 = submission_changes tx" using grows_same[OF g(1)] by simp
    have "submissions (tx_store tx2) = submissions (tx_store tx)" "new_submissions tx2 = new_submissions tx"
      using g(1) by (auto simp: grows_def)
    then show "base_view tx2 = base_view tx" by (simp add: base_view_def[abs_def] cong: option.case_cong)
  qed
  from resolve_each_view[OF g(2)] have view: "base_view tx' = final_view tx" by (simp add: final_view_def same)
  show ?thesis
  proof (rule assemble_parts[OF assms])
    fix subs touched
    assume p: "ws = staged tx @ map (\<lambda>(i, r). WSubmission r) subs @ task_writes touched @ copy_writes (fork_copies tx)"
      "subs_ok st (new_submissions tx) subs" "new_submissions tx' = subs" "on_store st tx'"
    have staged: "submissions_after (staged tx) f = f" for f
    proof (rule submissions_after_others)
      fix r show "WSubmission r \<notin> set (staged tx)"
        using assms(2) by (auto simp: batch_ok_def list_all_iff dest!: bspec)
    qed
    have rest: "submissions_after (task_writes touched @ copy_writes (fork_copies tx)) f = f" for f
      by (rule submissions_after_others) (auto simp: copy_writes_def set_task_writes)
    have d: "distinct (map fst subs)" "\<forall>(i, r) \<in> set subs. sub_id r = i"
      using p(2) by (auto simp: subs_ok_def sub_traced_def)
    have "submissions (tx_store tx') = submissions st"
    proof -
      obtain n where "tx_store tx' = st\<lparr>next_record_id := n\<rparr>" using p(4) unfolding on_store_def by blast
      then show ?thesis by simp
    qed
    then have "submissions_after ws (submissions st) = base_view tx'"
      using submissions_after_records[OF d] rest by (intro ext) (simp add: p(1,3) staged base_view_def cong: option.case_cong)
    with view show ?thesis by simp
  qed
qed

text \<open>What a transaction that touched nothing yet, or only added to the others, leaves of the view.\<close>

definition untouched :: "transaction \<Rightarrow> bool" where
  "untouched tx \<longleftrightarrow> new_submissions tx = [] \<and> submission_changes tx = []"

lemma untouched_view: "untouched tx \<Longrightarrow> final_view tx = submissions (tx_store tx)"
  by (simp add: untouched_def final_view_def base_view_def[abs_def])

lemma commit_view:
  assumes "tx_runs (new_transaction st conv task) tx" "storage_ok st" "assemble tx = (Inr ws, tx')"
    and "commit (tx_store tx') ws = Inr (seq, st')"
  shows "storage_ok st' \<and> submissions st' = final_view tx"
proof -
  have ok: "batch_ok st tx" by (rule batch_ok_runs[OF assms(1)])
  have ids: "id_matches (submissions st) sub_id" using assms(2) by (simp add: storage_ok_def tables_ok_def)
  have "on_store st tx'" by (rule assemble_parts[OF assms(3) ok ids])
  then obtain n where n: "tx_store tx' = st\<lparr>next_record_id := n\<rparr>" unfolding on_store_def by blast
  have "next_record_id st \<le> next_record_id (tx_store tx')"
    using ok assemble_counter[OF assms(3)] by (simp add: batch_ok_def)
  with storage_ok_later[OF assms(2), of n] n have store: "storage_ok (tx_store tx')" by simp
  have "storage_ok st'" by (rule commit_tables(4)[OF store assms(4)])
  moreover have "submissions st' = submissions_after ws (submissions st)"
    using commit_submissions[OF store assms(4)] by (simp add: n)
  ultimately show ?thesis by (simp add: assemble_view[OF assms(3) ok ids])
qed

end
