(* ===== verification/Inbox_Boundary.thy ===== *)
theory Inbox_Boundary
  imports Inbox_Views
begin

text \<open>
  What the operations of a desk change when they succeed, and what a boundary places: every queued
  write and the selected inputs leave the inbox by position, each with exactly one change.
\<close>

section \<open>Operations that succeed\<close>

lemma then_desk_Inr [simp]:
  "then_desk m f dk = (Inr b, dk') \<longleftrightarrow> (\<exists>a dk1. m dk = (Inr a, dk1) \<and> f a dk1 = (Inr b, dk'))"
  by (auto simp: then_desk_def split: prod.split sum.split)

lemma return_desk_Inr [simp]: "return_desk a dk = (Inr b, dk') \<longleftrightarrow> b = a \<and> dk' = dk"
  by (auto simp: return_desk_def)

lemma fail_desk_Inr [simp]: "fail_desk e dk \<noteq> (Inr b, dk')"
  by (simp add: fail_desk_def)

lemma set_items_Inr [simp]: "set_items f dk = (Inr u, dk') \<longleftrightarrow> dk' = dk\<lparr>dk_items := f (dk_items dk)\<rparr>"
  by (auto simp: set_items_def)

lemma set_run_Inr [simp]: "set_run f dk = (Inr u, dk') \<longleftrightarrow> dk' = dk\<lparr>dk_run := f (dk_run dk)\<rparr>"
  by (auto simp: set_run_def)

lemma in_tx_Inr: "in_tx m dk = (Inr a, dk') \<longleftrightarrow> (\<exists>tx. m (dk_tx dk) = (Inr a, tx) \<and> dk' = dk\<lparr>dk_tx := tx\<rparr>)"
  by (cases "m (dk_tx dk)"; cases "fst (m (dk_tx dk))") (auto simp: in_tx_def)

text \<open>The desk after an operation that adds the changes \<open>cs\<close> and leaves both documents.\<close>

definition stays :: "(int \<times> submission_change) list \<Rightarrow> desk \<Rightarrow> desk \<Rightarrow> bool" where
  "stays cs dk dk' \<longleftrightarrow> dk_items dk' = dk_items dk \<and> dk_run dk' = dk_run dk \<and> moved cs (dk_tx dk) (dk_tx dk')"

lemma stays_refl [simp]: "stays [] dk dk"
  by (simp add: stays_def)

lemma stays_trans: "stays cs a b \<Longrightarrow> stays ds b c \<Longrightarrow> stays (cs @ ds) a c"
  by (auto simp: stays_def intro: moved_trans)

lemma stays_quiet:
  assumes "in_tx m dk = (Inr a, dk')" "quiet m" "tx_step (dk_tx dk) (snd (m (dk_tx dk)))"
  shows "stays [] dk dk'"
proof -
  obtain tx where tx: "m (dk_tx dk) = (Inr a, tx)" "dk' = dk\<lparr>dk_tx := tx\<rparr>" using assms(1) by (auto simp: in_tx_Inr)
  then have "tx_runs (dk_tx dk) tx" using runs_step[OF runs_refl assms(3)] by simp
  with assms(2)[unfolded quiet_def, rule_format, of "dk_tx dk"] tx show ?thesis by (simp add: stays_def moved_def)
qed

lemma stays_append: "in_tx (append_entry conv d) dk = (Inr e, dk') \<Longrightarrow> stays [] dk dk'"
  by (rule stays_quiet[OF _ quiet_append step_entry])

lemma stays_input: "append_input conv content entry now dk = (Inr e, dk') \<Longrightarrow> stays [] dk dk'"
  unfolding append_input_def by (rule stays_append)

lemma stays_generation: "create_generation conv dk = (Inr t, dk') \<Longrightarrow> stays [] dk dk'"
  unfolding create_generation_def by (rule stays_quiet[OF _ quiet_create_task step_create_task])

lemma stays_change:
  assumes "in_tx (change_submission i c) dk = (Inr (), dk')" "tx_step (dk_tx dk) (snd (change_submission i c (dk_tx dk)))"
  shows "stays [(i, c)] dk dk'"
proof -
  obtain tx where tx: "change_submission i c (dk_tx dk) = (Inr (), tx)" "dk' = dk\<lparr>dk_tx := tx\<rparr>" using assms(1) by (auto simp: in_tx_Inr)
  then have "tx_runs (dk_tx dk) tx" using runs_step[OF runs_refl assms(2)] by simp
  with tx show ?thesis by (auto simp: stays_def moved_def change_submission_def write_tx_def change_tx_def split: if_splits)
qed

lemma stays_settle: "in_tx (settle_submission i c) dk = (Inr (), dk') \<Longrightarrow> stays [(i, c)] dk dk'"
  using stays_change[of i c dk dk'] step_settle[of "dk_tx dk" i c] by (simp add: settle_submission_def)

lemma stays_place: "in_tx (place_submission i e) dk = (Inr (), dk') \<Longrightarrow> stays [(i, PlacedAt e)] dk dk'"
  using stays_change[of i "PlacedAt e" dk dk'] step_place[of "dk_tx dk" i e] by (simp add: place_submission_def)

lemma in_read: "in_tx (read_tx k g) dk = (Inr a, dk') \<Longrightarrow> dk' = dk"
  by (auto simp: in_tx_Inr read_tx_def lift_tx_def split: if_splits sum.splits)

lemma same_boundary: "prepare_boundary conv dk = (Inr h, dk') \<Longrightarrow> dk' = dk"
  unfolding prepare_boundary_def tx_latest_head_marker_def
  by (auto simp: in_tx_Inr then_tx_def return_tx_def read_tx_def lift_tx_def split: if_splits sum.splits)

section \<open>What a boundary places\<close>

definition write_change :: "submission_change \<Rightarrow> bool" where
  "write_change c \<longleftrightarrow> (\<exists>e. c = PlacedAt e) \<or> c = SettledUnanswered ''stale'' None"

lemma stays_place_write:
  assumes "place_write conv head i d dk = (Inr h, dk')"
  shows "\<exists>c. stays [(i, c)] dk dk' \<and> write_change c"
  using assms
  by (auto simp: place_write_def write_change_def split: if_splits
      dest!: stays_settle stays_append stays_place dest: stays_trans[of "[]", simplified])

lemma stays_place_writes:
  "place_writes conv items ks head dk = (Inr h, dk') \<Longrightarrow> \<forall>k \<in> set ks. is_write (items ! k) \<Longrightarrow>
     \<exists>cs. stays cs dk dk' \<and> map fst cs = map (\<lambda>k. item_id (items ! k)) ks \<and> (\<forall>x \<in> set cs. write_change (snd x))"
proof (induction ks arbitrary: head dk)
  case (Cons k ks)
  then obtain i d where k: "items ! k = WriteItem i d" by (cases "items ! k") auto
  with Cons.prems(1) obtain h1 dk1 where one: "place_write conv head i d dk = (Inr h1, dk1)"
    and rest: "place_writes conv items ks h1 dk1 = (Inr h, dk')" by auto
  from stays_place_write[OF one] obtain c where c: "stays [(i, c)] dk dk1" "write_change c" by blast
  from Cons.IH[OF rest] Cons.prems(2) obtain cs where cs: "stays cs dk1 dk'" "map fst cs = map (\<lambda>k. item_id (items ! k)) ks"
    "\<forall>x \<in> set cs. write_change (snd x)" by auto
  from stays_trans[OF c(1) cs(1)] cs(2,3) c(2) k show ?case by (intro exI[of _ "(i, c) # cs"]) simp
qed simp

lemma stays_place_users:
  "place_users conv items ks now dk = (Inr placed, dk') \<Longrightarrow> \<forall>k \<in> set ks. \<not> is_write (items ! k) \<Longrightarrow>
     placed = map (\<lambda>k. item_id (items ! k)) ks \<and>
     (\<exists>cs. stays cs dk dk' \<and> map fst cs = placed \<and> (\<forall>x \<in> set cs. \<exists>e. snd x = PlacedAt e))"
proof (induction ks arbitrary: dk placed)
  case (Cons k ks)
  then obtain i m content entry where k: "items ! k = UserItem i m content entry" by (cases "items ! k") auto
  with Cons.prems(1) obtain e dk1 dk2 rest where one: "append_input conv content entry now dk = (Inr e, dk1)"
    "in_tx (place_submission i (entry_id e)) dk1 = (Inr (), dk2)"
    and more: "place_users conv items ks now dk2 = (Inr rest, dk')" "placed = i # rest" by auto
  from stays_trans[OF stays_input[OF one(1)] stays_place[OF one(2)]] have c: "stays [(i, PlacedAt (entry_id e))] dk dk2" by simp
  from Cons.IH[OF more(1)] Cons.prems(2) obtain cs where cs: "rest = map (\<lambda>k. item_id (items ! k)) ks" "stays cs dk2 dk'" "map fst cs = rest"
    "\<forall>x \<in> set cs. \<exists>e. snd x = PlacedAt e" by auto
  from stays_trans[OF c cs(2)] cs more(2) k show ?case by (auto intro!: exI[of _ "(i, PlacedAt (entry_id e)) # cs"])
qed simp

section \<open>Removing by position\<close>

lemma splice_nths:
  "k < length xs \<Longrightarrow> {..k} \<subseteq> A \<Longrightarrow> splice_out k (nths xs A) = nths xs (A - {k})"
proof -
  assume k: "k < length xs" and A: "{..k} \<subseteq> A"
  define a b where "a = take k xs" and "b = drop (Suc k) xs"
  have xs: "xs = a @ xs ! k # b" and a: "length a = k" using k by (simp_all add: a_def b_def id_take_nth_drop)
  have all: "nths a B = a" if "{..<k} \<subseteq> B" for B
    using that a by (simp add: nths_all subset_eq)
  have "nths xs B = a @ (if k \<in> B then [xs ! k] else []) @ nths b {j. j + Suc k \<in> B}" if "{..<k} \<subseteq> B" for B
    by (subst xs) (simp add: nths_append nths_Cons all[OF that] a add.commute)
  note n = this[of A] this[of "A - {k}"]
  have "{..<k} \<subseteq> A" "{..<k} \<subseteq> A - {k}" "k \<in> A" using A by auto
  with n show ?thesis by (simp add: splice_out_def a)
qed

lemma fold_splice_out:
  assumes "sorted ks" "distinct ks" "\<forall>k \<in> set ks. k < length xs"
  shows "fold splice_out (rev ks) xs = nths xs (- set ks)"
  using assms
proof (induction ks)
  case (Cons k ks)
  then have "{..k} \<subseteq> - set ks" by fastforce
  moreover have "- set ks - {k} = - set (k # ks)" by auto
  ultimately show ?case using Cons splice_nths[of k xs "- set ks"] by simp
qed (simp add: nths_all)

lemma nths_cong: "(\<And>k. k < length xs \<Longrightarrow> k \<in> A \<longleftrightarrow> k \<in> B) \<Longrightarrow> nths xs A = nths xs B"
  unfolding nths_def by (intro arg_cong[of _ _ "map fst"] filter_cong) (auto simp: set_zip)

lemma nths_ids:
  assumes "distinct (map g xs)"
  shows "g ` set (nths xs (- A)) = g ` set xs - (\<lambda>k. g (xs ! k)) ` {k \<in> A. k < length xs}"
proof -
  let ?h = "\<lambda>k. g (xs ! k)" and ?S = "{k. k < length xs}"
  have "inj_on ?h ?S" using assms by (auto simp: inj_on_def distinct_conv_nth)
  then have "?h ` (?S - A) = ?h ` ?S - ?h ` {k \<in> A. k < length xs}"
    using inj_on_image_set_diff[of ?h ?S ?S "{k \<in> A. k < length xs}"] by (simp add: subset_eq set_diff_eq conj_commute cong: conj_cong)
  moreover have "g ` set (nths xs (- A)) = ?h ` (?S - A)" unfolding set_nths image_def by blast
  moreover have "g ` set xs = ?h ` ?S" unfolding set_conv_nth image_def by blast
  ultimately show ?thesis by simp
qed

lemma indexes_of_set: "set (indexes_of P items) = {k. k < length items \<and> P (items ! k)}" "sorted (indexes_of P items)" "distinct (indexes_of P items)"
  by (auto simp: indexes_of_def sorted_wrt_filter)

lemma pick_indexes: "set (pick items mode qm) \<subseteq> {k. k < length items \<and> has_mode mode (items ! k)}" "distinct (pick items mode qm)"
  using set_take_subset[of 1 "indexes_of (has_mode mode) items"] indexes_of_set[of "has_mode mode" items]
  by (auto simp: pick_def Let_def)

lemma has_mode_user: "has_mode mode item \<Longrightarrow> \<not> is_write item" "has_mode Steer item \<Longrightarrow> \<not> has_mode FollowUp item"
  by (cases item; simp)+

lemma selected_indexes:
  "set (selected_users modes at items) \<subseteq> {k. k < length items \<and> \<not> is_write (items ! k)}"
  "distinct (selected_users modes at items)" "sorted (selected_users modes at items)"
proof -
  have p: "set (pick items m q) \<subseteq> {k. k < length items \<and> has_mode m (items ! k)}" for m q by (rule pick_indexes)
  show "set (selected_users modes at items) \<subseteq> {k. k < length items \<and> \<not> is_write (items ! k)}"
    using p[of Steer] p[of FollowUp] has_mode_user(1) by (fastforce simp: selected_users_def Let_def)
  have "set (pick items Steer q) \<inter> set (pick items FollowUp q') = {}" for q q'
    using p[of Steer q] p[of FollowUp q'] has_mode_user(2) by blast
  then show "distinct (selected_users modes at items)" by (simp add: selected_users_def Let_def pick_indexes)
  show "sorted (selected_users modes at items)" by (simp add: selected_users_def Let_def)
qed

text \<open>Every write and the selected users leave; each gets exactly one change, in the order of the queue.\<close>

definition kept_items :: "queue_modes \<Rightarrow> boundary_at \<Rightarrow> inbox_item list \<Rightarrow> inbox_item list" where
  "kept_items modes at items = nths items {k. \<not> is_write (items ! k) \<and> k \<notin> set (selected_users modes at items)}"

lemma boundary_effect:
  assumes "apply_boundary conv modes head at now dk = (Inr (users, reset), dk')"
  shows "\<exists>ws us. moved (ws @ us) (dk_tx dk) (dk_tx dk') \<and> dk_run dk' = dk_run dk \<and>
    map fst ws = map item_id (filter is_write (dk_items dk)) \<and> (\<forall>x \<in> set ws. write_change (snd x)) \<and>
    map fst us = users \<and> (\<forall>x \<in> set us. \<exists>e. snd x = PlacedAt e) \<and>
    users = map (\<lambda>k. item_id (dk_items dk ! k)) (selected_users modes at (dk_items dk)) \<and>
    dk_items dk' = kept_items modes at (dk_items dk) \<and> reset = has_queued_reset (dk_items dk)"
proof -
  let ?items = "dk_items dk"
  let ?w = "indexes_of is_write ?items" and ?u = "selected_users modes at ?items"
  from assms obtain h dk1 dk2 where w: "place_writes conv ?items ?w head dk = (Inr h, dk1)"
    and u: "place_users conv ?items ?u now dk1 = (Inr users, dk2)"
    and dk': "dk' = dk2\<lparr>dk_items := fold splice_out (rev (sort (?w @ ?u))) (dk_items dk2)\<rparr>" "reset = has_queued_reset ?items"
    by (auto simp: apply_boundary_def Let_def)
  obtain ws where ws: "stays ws dk dk1" "map fst ws = map (\<lambda>k. item_id (?items ! k)) ?w" "\<forall>x \<in> set ws. write_change (snd x)"
    using stays_place_writes[OF w] indexes_of_set(1)[of is_write ?items] by auto
  have "\<forall>k \<in> set ?u. \<not> is_write (?items ! k)" using selected_indexes(1)[of modes at ?items] by auto
  from stays_place_users[OF u this] obtain us where us: "stays us dk1 dk2" "map fst us = users" "\<forall>x \<in> set us. \<exists>e. snd x = PlacedAt e"
    "users = map (\<lambda>k. item_id (?items ! k)) ?u" by blast
  have st: "stays (ws @ us) dk dk2" by (rule stays_trans[OF ws(1) us(1)])
  have ks: "set (?w @ ?u) \<subseteq> {..<length ?items}" "distinct (?w @ ?u)"
    using indexes_of_set[of is_write ?items] selected_indexes[of modes at ?items] by auto
  have "dk_items dk' = nths ?items (- set (?w @ ?u))"
    using fold_splice_out[of "sort (?w @ ?u)" ?items] ks st by (auto simp: dk'(1) stays_def)
  also have "\<dots> = kept_items modes at ?items"
    unfolding kept_items_def by (rule nths_cong) (auto simp: indexes_of_set)
  finally have items: "dk_items dk' = kept_items modes at ?items" .
  have "map (\<lambda>k. item_id (?items ! k)) ?w = map item_id (map ((!) ?items) ?w)" by simp
  also have "map ((!) ?items) ?w = filter is_write ?items"
    using filter_map[of is_write "(!) ?items" "[0..<length ?items]"] by (simp add: indexes_of_def map_nth comp_def)
  finally have "map fst ws = map item_id (filter is_write ?items)" using ws(2) by simp
  with st ws us items dk' show ?thesis by (intro exI[of _ ws] exI[of _ us]) (simp add: stays_def)
qed

end
