(* ===== verification/Run_Books.thy ===== *)
theory Run_Books
  imports Inbox_Boundary
begin

text \<open>
  Every submission has one place: queued, it is an item of the inbox; placed, it is an input of the
  run; otherwise it is settled. The admissions, withdrawals and commits of a generation keep this.
\<close>

section \<open>The books of a conversation\<close>

definition awaits :: "int \<Rightarrow> submission_table \<Rightarrow> submission_status \<Rightarrow> int \<Rightarrow> bool" where
  "awaits conv f s i \<longleftrightarrow> (\<exists>r. f i = Some r \<and> sub_conv r = conv \<and> sub_status r = s)"

definition books :: "int \<Rightarrow> submission_table \<Rightarrow> inbox_item list \<Rightarrow> int list \<Rightarrow> bool" where
  "books conv f items inputs \<longleftrightarrow>
     distinct (map item_id items) \<and> distinct inputs \<and>
     (\<forall>i. awaits conv f Queued i \<longleftrightarrow> i \<in> item_id ` set items) \<and>
     (\<forall>i. awaits conv f Placed i \<longleftrightarrow> i \<in> set inputs) \<and>
     (\<forall>item r. item \<in> set items \<longrightarrow> f (item_id item) = Some r \<longrightarrow> (sub_type r = WriteSubmission \<longleftrightarrow> is_write item))"

lemma books_item:
  assumes "books conv f items inputs" "item \<in> set items"
  obtains r where "f (item_id item) = Some r" "sub_conv r = conv" "sub_status r = Queued" "sub_type r = WriteSubmission \<longleftrightarrow> is_write item"
proof -
  have "awaits conv f Queued (item_id item)" using assms by (simp add: books_def)
  then obtain r where r: "f (item_id item) = Some r" "sub_conv r = conv" "sub_status r = Queued" by (auto simp: awaits_def)
  moreover have "sub_type r = WriteSubmission \<longleftrightarrow> is_write item" using assms r(1) by (simp add: books_def)
  ultimately show thesis by (rule that)
qed

lemma books_input:
  assumes "books conv f items inputs" "i \<in> set inputs"
  obtains r where "f i = Some r" "sub_conv r = conv" "sub_status r = Placed"
proof -
  have "awaits conv f Placed i" using assms by (simp add: books_def)
  with that show thesis by (auto simp: awaits_def)
qed

lemma books_disjoint: "books conv f items inputs \<Longrightarrow> item_id ` set items \<inter> set inputs = {}"
proof -
  assume b: "books conv f items inputs"
  have "item_id item \<notin> set inputs" if item: "item \<in> set items" for item
  proof
    assume "item_id item \<in> set inputs"
    from books_input[OF b this] books_item[OF b item] show False by (metis option.inject submission_status.distinct(1))
  qed
  then show ?thesis by blast
qed

lemma apply_change_keeps: "apply_submission_change r c = Inr r' \<Longrightarrow> sub_conv r' = sub_conv r \<and> sub_type r' = sub_type r"
  using forward_change by (auto simp: forward_def)

lemma awaits_changed:
  assumes "distinct (map fst cs)" "(i, c) \<in> set cs" "f i = Some r" "apply_submission_change r c = Inr r'"
  shows "awaits conv (apply_changes cs f) s i \<longleftrightarrow> sub_conv r = conv \<and> sub_status r' = s"
  using apply_changes_at[OF assms(1,2), of f] assms(3,4) apply_change_keeps[OF assms(4)] by (auto simp: awaits_def)

lemma awaits_other: "i \<notin> fst ` set cs \<Longrightarrow> awaits conv (apply_changes cs f) s i \<longleftrightarrow> awaits conv f s i"
  by (simp add: awaits_def apply_changes_other)

text \<open>
  Changes that settle some submissions and place the queued ones of \<open>P\<close>: the items and the inputs
  they leave.
\<close>

lemma books_changes:
  assumes b: "books conv f items inputs" and d: "distinct (map fst cs)"
    and gone: "\<And>i c. (i, c) \<in> set cs \<Longrightarrow> \<exists>r r'. f i = Some r \<and> apply_submission_change r c = Inr r' \<and>
      (if i \<in> P then sub_status r' = Placed else sub_status r' = Done \<or> sub_status r' = Unanswered)"
    and P: "P \<subseteq> fst ` set cs" "P \<subseteq> item_id ` set items"
    and items: "distinct (map item_id items')" "set items' \<subseteq> set items" "item_id ` set items' = item_id ` set items - fst ` set cs"
    and inputs: "distinct inputs'" "set inputs' = (set inputs - fst ` set cs) \<union> P"
  shows "books conv (apply_changes cs f) items' inputs'"
proof -
  let ?f = "apply_changes cs f"
  have q: "awaits conv ?f Queued i \<longleftrightarrow> i \<in> item_id ` set items'" for i
  proof (cases "i \<in> fst ` set cs")
    case True
    then obtain c where c: "(i, c) \<in> set cs" by force
    from gone[OF c] obtain r r' where "f i = Some r" "apply_submission_change r c = Inr r'" "sub_status r' \<noteq> Queued"
      by (auto split: if_splits)
    with awaits_changed[OF d c, of f r r'] True items(3) show ?thesis by auto
  next
    case False
    then show ?thesis using b items(3) by (simp add: awaits_other books_def)
  qed
  have p: "awaits conv ?f Placed i \<longleftrightarrow> i \<in> set inputs'" for i
  proof (cases "i \<in> fst ` set cs")
    case True
    then obtain c where c: "(i, c) \<in> set cs" by force
    from gone[OF c] obtain r r' where r: "f i = Some r" "apply_submission_change r c = Inr r'"
      "if i \<in> P then sub_status r' = Placed else sub_status r' = Done \<or> sub_status r' = Unanswered" by blast
    have "i \<in> P \<Longrightarrow> sub_conv r = conv" using P(2) b r(1) unfolding books_def awaits_def by fastforce
    with awaits_changed[OF d c, of f r r'] r True inputs(2) show ?thesis by (auto split: if_splits)
  next
    case False
    then show ?thesis using b inputs(2) P(1) by (auto simp: awaits_other books_def)
  qed
  have "sub_type r = WriteSubmission \<longleftrightarrow> is_write item" if "item \<in> set items'" "?f (item_id item) = Some r" for item r
  proof -
    have "item_id item \<notin> fst ` set cs" using that(1) items(3) by (metis DiffE imageI)
    with that items(2) b show ?thesis by (auto simp: apply_changes_other books_def)
  qed
  with q p items(1) inputs(1) show ?thesis by (auto simp: books_def)
qed

lemma place_queued:
  "sub_status r = Queued \<Longrightarrow> apply_submission_change r (PlacedAt e) =
     Inr (r\<lparr>sub_status := (if sub_type r = InputSubmission then Placed else Done), sub_entry := Some e\<rparr>)"
  "sub_status r \<in> {Queued, Placed} \<Longrightarrow> apply_submission_change r (SettledUnanswered reason detail) =
     Inr (r\<lparr>sub_status := Unanswered, sub_reason := Some reason, sub_detail := detail\<rparr>)"
  "sub_status r = Placed \<Longrightarrow> apply_submission_change r (SettledDone answer) = Inr (r\<lparr>sub_status := Done, sub_answer := Some answer\<rparr>)"
  by (auto simp: apply_submission_change_def)

section \<open>A desk whose books are kept\<close>

fun inputs_of :: "(int \<times> int list) option \<Rightarrow> int list" where
  "inputs_of None = []"
| "inputs_of (Some (t, inputs)) = inputs"

text \<open>The desk of a commit on \<open>st\<close>, when \<open>inputs\<close> are placed for a run.\<close>

definition desk_ok :: "int \<Rightarrow> mem_state \<Rightarrow> desk \<Rightarrow> int list \<Rightarrow> bool" where
  "desk_ok conv st dk inputs \<longleftrightarrow>
     (\<exists>c t. tx_runs (new_transaction st c t) (dk_tx dk)) \<and> books conv (final_view (dk_tx dk)) (dk_items dk) inputs"

lemma desk_moved:
  assumes "desk_ok conv st dk inputs" "moved cs (dk_tx dk) (dk_tx dk')"
    and "books conv (apply_changes cs (final_view (dk_tx dk))) (dk_items dk') inputs'"
  shows "desk_ok conv st dk' inputs'"
  using assms moved_view[OF assms(2)] tx_runs_trans unfolding desk_ok_def moved_def by metis

lemma desk_stays: "stays [] dk dk' \<Longrightarrow> desk_ok conv st dk inputs \<Longrightarrow> desk_ok conv st dk' inputs"
  by (rule desk_moved) (auto simp: stays_def desk_ok_def)

lemma kept_ids:
  assumes "distinct (map item_id items)"
  shows "distinct (map item_id (kept_items modes at items))" "set (kept_items modes at items) \<subseteq> set items"
    "item_id ` set (kept_items modes at items) =
       item_id ` set items - (item_id ` set (filter is_write items) \<union> (\<lambda>k. item_id (items ! k)) ` set (selected_users modes at items))"
proof -
  let ?u = "set (selected_users modes at items)"
  let ?A = "{k. is_write (items ! k)} \<union> ?u"
  have "{k. \<not> is_write (items ! k) \<and> k \<notin> ?u} = - ?A" by blast
  then have k: "kept_items modes at items = nths items (- ?A)" by (simp only: kept_items_def)
  show "distinct (map item_id (kept_items modes at items))"
    using distinct_nthsI[OF assms, of "- ?A"] by (simp add: k nths_map)
  show "set (kept_items modes at items) \<subseteq> set items" unfolding k by (rule set_nths_subset)
  have "{k \<in> ?A. k < length items} = {k. k < length items \<and> is_write (items ! k)} \<union> ?u"
    using selected_indexes(1)[of modes at items] by auto
  moreover have "item_id ` set (filter is_write items) = (\<lambda>k. item_id (items ! k)) ` {k. k < length items \<and> is_write (items ! k)}"
    unfolding image_def by (auto simp: in_set_conv_nth)
  ultimately show "item_id ` set (kept_items modes at items) =
       item_id ` set items - (item_id ` set (filter is_write items) \<union> (\<lambda>k. item_id (items ! k)) ` ?u)"
    unfolding k nths_ids[OF assms] by (simp add: image_Un)
qed

lemma desk_boundary:
  assumes ok: "desk_ok conv st dk inputs" and run: "apply_boundary conv modes head at now dk = (Inr (users, reset), dk')"
  shows "desk_ok conv st dk' (inputs @ users) \<and> dk_run dk' = dk_run dk"
proof -
  let ?items = "dk_items dk" and ?f = "final_view (dk_tx dk)"
  let ?u = "selected_users modes at ?items"
  from boundary_effect[OF run] obtain ws us where e: "moved (ws @ us) (dk_tx dk) (dk_tx dk')" "dk_run dk' = dk_run dk"
    "map fst ws = map item_id (filter is_write ?items)" "\<forall>x \<in> set ws. write_change (snd x)"
    "map fst us = users" "\<forall>x \<in> set us. \<exists>e. snd x = PlacedAt e" "users = map (\<lambda>k. item_id (?items ! k)) ?u"
    "dk_items dk' = kept_items modes at ?items" by blast
  have b: "books conv ?f ?items inputs" using ok by (simp add: desk_ok_def)
  then have ids: "distinct (map item_id ?items)" by (simp add: books_def)
  note kept = kept_ids[OF ids, of modes at]
  have inj: "inj_on item_id (set ?items)" using ids by (simp add: distinct_map)
  have users: "\<exists>item \<in> set ?items. i = item_id item \<and> \<not> is_write item" if "i \<in> set users" for i
  proof -
    from that obtain k where k: "k \<in> set ?u" "i = item_id (?items ! k)" by (auto simp: e(7))
    with selected_indexes(1)[of modes at ?items] have "k < length ?items" "\<not> is_write (?items ! k)" by auto
    with k(2) show ?thesis by (intro bexI[of _ "?items ! k"]) auto
  qed
  have du: "distinct users"
  proof -
    have "inj_on ((!) ?items) (set ?u)"
      using ids selected_indexes(1)[of modes at ?items] by (auto intro!: inj_on_nth simp: distinct_map)
    then have "distinct (map ((!) ?items) ?u)" by (simp add: distinct_map selected_indexes)
    moreover have "set (map ((!) ?items) ?u) \<subseteq> set ?items" using selected_indexes(1)[of modes at ?items] by auto
    ultimately have "distinct (map item_id (map ((!) ?items) ?u))"
      using inj by (simp only: distinct_map) (blast intro: inj_on_subset)
    then show ?thesis by (simp add: e(7) comp_def)
  qed
  have fst_ws: "fst ` set ws = item_id ` set (filter is_write ?items)" using e(3) by (metis list.set_map)
  have fst_us: "fst ` set us = set users" using e(5) by (metis list.set_map)
  have apart: "fst ` set ws \<inter> set users = {}"
    using users inj unfolding fst_ws by (force dest: inj_onD)
  have d: "distinct (map fst (ws @ us))"
    using ids apart du by (simp add: e(3,5) fst_ws distinct_map_filter)
  have "books conv (apply_changes (ws @ us) ?f) (kept_items modes at ?items) (inputs @ users)"
  proof (rule books_changes[OF b d, where P = "set users"])
    fix i c assume "(i, c) \<in> set (ws @ us)"
    then consider "(i, c) \<in> set ws" | "(i, c) \<in> set us" by auto
    then show "\<exists>r r'. ?f i = Some r \<and> apply_submission_change r c = Inr r' \<and>
      (if i \<in> set users then sub_status r' = Placed else sub_status r' = Done \<or> sub_status r' = Unanswered)"
    proof cases
      case 1
      then have "i \<in> fst ` set ws" by force
      then obtain item where item: "item \<in> set ?items" "is_write item" "i = item_id item" "i \<notin> set users"
        using apart unfolding fst_ws by auto
      from books_item[OF b item(1)] obtain r where r: "?f i = Some r" "sub_status r = Queued" "sub_type r = WriteSubmission"
        using item(2,3) by metis
      have "write_change c" using e(4) 1 by force
      then show ?thesis using r item(4) place_queued(1)[of r] place_queued(2)[of r "''stale''" None] by (auto simp: write_change_def)
    next
      case 2
      then have i: "i \<in> set users" using fst_us by force
      from users[OF this] obtain item where item: "item \<in> set ?items" "\<not> is_write item" "i = item_id item" by blast
      from books_item[OF b item(1)] obtain r where r: "?f i = Some r" "sub_status r = Queued" "sub_type r = InputSubmission"
        using item(2,3) by (metis submission_type.exhaust)
      obtain e' where "c = PlacedAt e'" using e(6) 2 by force
      then show ?thesis using r i place_queued(1)[of r e'] by auto
    qed
  next
    show "set users \<subseteq> fst ` set (ws @ us)" using fst_us by auto
    show "set users \<subseteq> item_id ` set ?items" using users by blast
    show "distinct (map item_id (kept_items modes at ?items))" "set (kept_items modes at ?items) \<subseteq> set ?items" by (rule kept)+
    show "item_id ` set (kept_items modes at ?items) = item_id ` set ?items - fst ` set (ws @ us)"
      unfolding kept(3) by (simp add: image_Un fst_ws fst_us e(7))
    have away: "set users \<inter> set inputs = {}" using books_disjoint[OF b] users by blast
    then show "distinct (inputs @ users)" using b du by (auto simp: books_def)
    have "fst ` set ws \<inter> set inputs = {}" using books_disjoint[OF b] unfolding fst_ws by auto
    with away show "set (inputs @ users) = (set inputs - fst ` set (ws @ us)) \<union> set users" by (auto simp: fst_us image_Un)
  qed
  with desk_moved[OF ok e(1)] e(2,8) show ?thesis by simp
qed

section \<open>Settling\<close>

definition settlement :: "submission_change \<Rightarrow> bool" where
  "settlement c \<longleftrightarrow> (\<exists>answer. c = SettledDone answer) \<or> (\<exists>reason detail. c = SettledUnanswered reason detail)"

lemma stays_settle_each:
  "settle_each c is dk = (Inr (), dk') \<Longrightarrow> stays (map (\<lambda>i. (i, c)) is) dk dk'"
proof (induction "is" arbitrary: dk)
  case (Cons i "is")
  then obtain dk1 where "in_tx (settle_submission i c) dk = (Inr (), dk1)" "settle_each c is dk1 = (Inr (), dk')" by auto
  with Cons.IH[of dk1] stays_trans[OF stays_settle[of i c dk dk1]] show ?case by simp
qed simp

lemma books_settle:
  assumes b: "books conv f items (inputs @ users)" and c: "settlement c"
  shows "books conv (apply_changes (map (\<lambda>i. (i, c)) inputs) f) items users"
proof -
  have d: "distinct inputs" "set inputs \<inter> set users = {}" using b by (auto simp: books_def)
  have away: "item_id ` set items \<inter> set inputs = {}" using books_disjoint[OF b] by auto
  show ?thesis
  proof (rule books_changes[OF b, where P = "{}"])
    fix i d assume "(i, d) \<in> set (map (\<lambda>i. (i, c)) inputs)"
    then have "i \<in> set (inputs @ users)" "d = c" by auto
    from books_input[OF b this(1)] obtain r where "f i = Some r" "sub_status r = Placed" .
    with c \<open>d = c\<close> show "\<exists>r r'. f i = Some r \<and> apply_submission_change r d = Inr r' \<and>
      (if i \<in> {} then sub_status r' = Placed else sub_status r' = Done \<or> sub_status r' = Unanswered)"
      by (auto simp: settlement_def place_queued)
  qed (use b d away in \<open>auto simp: books_def comp_def image_image\<close>)
qed

lemma desk_end_run:
  assumes "end_run t c dk = (Inr (), dk')" "desk_ok conv st dk (inputs @ users)" "dk_run dk = Some (t, inputs)" "settlement c"
  shows "desk_ok conv st dk' users \<and> dk_run dk' = None"
proof -
  from assms(1,3) obtain dk1 where s: "settle_each c inputs dk = (Inr (), dk1)" and dk': "dk' = dk1\<lparr>dk_run := None\<rparr>"
    by (auto simp: end_run_def)
  have st: "stays (map (\<lambda>i. (i, c)) inputs) dk dk1" by (rule stays_settle_each[OF s])
  have "books conv (apply_changes (map (\<lambda>i. (i, c)) inputs) (final_view (dk_tx dk))) (dk_items dk) users"
    using assms(2) by (intro books_settle assms(4)) (simp add: desk_ok_def)
  with desk_moved[OF assms(2), of "map (\<lambda>i. (i, c)) inputs" dk' users] st show ?thesis by (simp add: dk' stays_def)
qed

lemma desk_start_run:
  assumes "start_run_if_any conv users dk = (Inr (), dk')" "desk_ok conv st dk users" "dk_run dk = None"
  shows "desk_ok conv st dk' (inputs_of (dk_run dk'))"
proof (cases "users = []")
  case False
  with assms(1) obtain t dk1 where g: "create_generation conv dk = (Inr t, dk1)" "dk' = dk1\<lparr>dk_run := Some (t, users)\<rparr>"
    by (auto simp: start_run_if_any_def start_run_def)
  from desk_stays[OF stays_generation[OF g(1)] assms(2)] g(2) show ?thesis by (simp add: desk_ok_def)
qed (use assms in \<open>simp add: start_run_if_any_def\<close>)

lemma desk_next_run:
  assumes "next_run conv t c users dk = (Inr (), dk')" "desk_ok conv st dk (inputs @ users)" "dk_run dk = Some (t, inputs)" "settlement c"
  shows "desk_ok conv st dk' (inputs_of (dk_run dk'))"
proof -
  from assms(1) obtain dk1 where n: "end_run t c dk = (Inr (), dk1)" "start_run_if_any conv users dk1 = (Inr (), dk')"
    by (auto simp: next_run_def)
  from desk_end_run[OF n(1) assms(2-4)] desk_start_run[OF n(2)] show ?thesis by blast
qed

section \<open>Withdrawing\<close>

lemma withdraw_effect:
  "withdraw_from reason k dk = (Inr (), dk') \<Longrightarrow> k \<le> length (dk_items dk) \<Longrightarrow>
     dk_items dk' = filter is_write (take k (dk_items dk)) @ drop k (dk_items dk) \<and> dk_run dk' = dk_run dk \<and>
     moved (map (\<lambda>item. (item_id item, SettledUnanswered reason None)) (rev (filter (\<lambda>item. \<not> is_write item) (take k (dk_items dk)))))
       (dk_tx dk) (dk_tx dk')"
proof (induction k arbitrary: dk)
  case (Suc k)
  let ?items = "dk_items dk"
  have take: "take (Suc k) ?items = take k ?items @ [?items ! k]" and drop: "drop k ?items = ?items ! k # drop (Suc k) ?items"
    using Suc.prems(2) by (simp_all add: take_Suc_conv_app_nth Cons_nth_drop_Suc)
  show ?case
  proof (cases "?items ! k")
    case (WriteItem i d)
    then have "withdraw_from reason k dk = (Inr (), dk')" using Suc.prems(1) by simp
    from Suc.IH[OF this] Suc.prems(2) WriteItem show ?thesis by (simp add: take drop)
  next
    case (UserItem i m content entry)
    with Suc.prems(1) obtain dk1 where one: "in_tx (settle_submission i (SettledUnanswered reason None)) dk = (Inr (), dk1)"
      and rest: "withdraw_from reason k (dk1\<lparr>dk_items := splice_out k (dk_items dk1)\<rparr>) = (Inr (), dk')" by auto
    note st = stays_settle[OF one]
    then have items: "splice_out k (dk_items dk1) = take k ?items @ drop (Suc k) ?items" by (simp add: stays_def splice_out_def)
    have len: "length (take k ?items) = k" using Suc.prems(2) by simp
    let ?cs = "map (\<lambda>item. (item_id item, SettledUnanswered reason None)) (rev (filter (\<lambda>item. \<not> is_write item) (take k ?items)))"
    from Suc.IH[OF rest] Suc.prems(2) st have r: "dk_items dk' = filter is_write (take k ?items) @ drop (Suc k) ?items"
      "dk_run dk' = dk_run dk" "moved ?cs (dk_tx dk1) (dk_tx dk')" by (simp_all add: items stays_def)
    have "moved [(i, SettledUnanswered reason None)] (dk_tx dk) (dk_tx dk1)" using st by (simp add: stays_def)
    from moved_trans[OF this r(3)] r(1,2) UserItem show ?thesis by (simp add: take)
  qed
qed simp

lemma desk_withdraw:
  assumes "withdraw_queued_inputs reason dk = (Inr (), dk')" "desk_ok conv st dk inputs"
  shows "desk_ok conv st dk' inputs \<and> dk_run dk' = dk_run dk \<and> dk_items dk' = filter is_write (dk_items dk)"
proof -
  let ?items = "dk_items dk"
  let ?out = "rev (filter (\<lambda>item. \<not> is_write item) ?items)"
  let ?cs = "map (\<lambda>item. (item_id item, SettledUnanswered reason None)) ?out"
  from withdraw_effect[of reason "length ?items" dk dk'] assms(1)
  have e: "dk_items dk' = filter is_write ?items" "dk_run dk' = dk_run dk" "moved ?cs (dk_tx dk) (dk_tx dk')"
    by (simp_all add: withdraw_queued_inputs_def)
  have b: "books conv (final_view (dk_tx dk)) ?items inputs" using assms(2) by (simp add: desk_ok_def)
  then have ids: "distinct (map item_id ?items)" by (simp add: books_def)
  have fst_cs: "fst ` set ?cs = item_id ` {item \<in> set ?items. \<not> is_write item}" by (auto simp: image_image)
  have "books conv (apply_changes ?cs (final_view (dk_tx dk))) (filter is_write ?items) inputs"
  proof (rule books_changes[OF b, where P = "{}"])
    show "distinct (map fst ?cs)" using ids by (simp add: comp_def distinct_map_filter rev_map[symmetric])
    fix i c assume "(i, c) \<in> set ?cs"
    then obtain item where item: "item \<in> set ?items" "i = item_id item" "c = SettledUnanswered reason None" by auto
    from books_item[OF b item(1)] obtain r where "final_view (dk_tx dk) i = Some r" "sub_status r = Queued" using item(2) by blast
    then show "\<exists>r r'. final_view (dk_tx dk) i = Some r \<and> apply_submission_change r c = Inr r' \<and>
      (if i \<in> {} then sub_status r' = Placed else sub_status r' = Done \<or> sub_status r' = Unanswered)"
      by (simp add: item(3) place_queued)
  next
    show "distinct (map item_id (filter is_write ?items))" using ids by (rule distinct_map_filter)
    have "inj_on item_id (set ?items)" using ids by (simp add: distinct_map)
    then show "item_id ` set (filter is_write ?items) = item_id ` set ?items - fst ` set ?cs"
      unfolding fst_cs by (auto dest: inj_onD)
    show "set inputs = (set inputs - fst ` set ?cs) \<union> {}"
      using books_disjoint[OF b] unfolding fst_cs by auto
  qed (use b in \<open>auto simp: books_def\<close>)
  with desk_moved[OF assms(2) e(3)] e(1,2) show ?thesis by simp
qed

lemma find_index_Some: "find_index P xs = Some k \<Longrightarrow> k < length xs \<and> P (xs ! k)"
  by (induction xs arbitrary: k) (auto split: if_splits)

lemma find_index_None: "find_index P xs = None \<Longrightarrow> \<not> P x \<or> x \<notin> set xs"
  by (induction xs) (auto split: if_splits)

lemma removed_item:
  assumes "distinct (map item_id items)" "remove_inbox_item i dk = (Inr (), dk')" "dk_items dk = items" "i \<in> item_id ` set items"
  shows "distinct (map item_id (dk_items dk'))" "set (dk_items dk') \<subseteq> set items" "item_id ` set (dk_items dk') = item_id ` set items - {i}"
proof -
  obtain k where k: "find_index (\<lambda>item. item_id item = i) items = Some k"
    using find_index_None[of "\<lambda>item. item_id item = i" items] assms(4) by (cases "find_index (\<lambda>item. item_id item = i) items") auto
  note found = find_index_Some[OF k]
  have "splice_out k items = nths items (- {k})"
    using splice_nths[of k items UNIV] found by (simp add: nths_all Compl_eq_Diff_UNIV)
  then have items: "dk_items dk' = nths items (- {k})"
    using assms(2,3) k by (simp add: remove_inbox_item_def)
  show "distinct (map item_id (dk_items dk'))" using distinct_nthsI[OF assms(1), of "- {k}"] by (simp add: items nths_map)
  show "set (dk_items dk') \<subseteq> set items" unfolding items by (rule set_nths_subset)
  have "{j \<in> {k}. j < length items} = {k}" using found by auto
  then show "item_id ` set (dk_items dk') = item_id ` set items - {i}"
    using found by (simp add: items nths_ids[OF assms(1)])
qed

lemma read_submission:
  assumes "in_tx (tx_submission i) dk = (Inr found, dk')" "untouched (dk_tx dk)"
  shows "found = final_view (dk_tx dk) i" "dk' = dk"
proof -
  show "dk' = dk" by (rule in_read[OF assms(1)[unfolded tx_submission_def]])
  obtain tx where "read_tx ''submission'' (\<lambda>st. get_submission st i) (dk_tx dk) = (Inr found, tx)"
    using assms(1) by (auto simp: in_tx_Inr tx_submission_def)
  then have "get_submission (tx_store (dk_tx dk)) i = Inr found" by (auto simp: read_tx_def lift_tx_def split: if_splits sum.splits)
  then have "found = submissions (tx_store (dk_tx dk)) i"
    by (cases "closed (tx_store (dk_tx dk))") (simp_all add: get_submission_def assert_open_def)
  then show "found = final_view (dk_tx dk) i" by (simp add: untouched_view[OF assms(2)])
qed

lemma desk_withdraw_one:
  assumes "in_tx (settle_submission i (SettledUnanswered reason None)) dk = (Inr (), dk1)" "remove_inbox_item i dk1 = (Inr (), dk')"
    and ok: "desk_ok conv st dk inputs" and q: "awaits conv (final_view (dk_tx dk)) Queued i"
  shows "desk_ok conv st dk' inputs \<and> dk_run dk' = dk_run dk"
proof -
  let ?f = "final_view (dk_tx dk)" and ?cs = "[(i, SettledUnanswered reason None)]"
  note sm = stays_settle[OF assms(1)]
  have b: "books conv ?f (dk_items dk) inputs" using ok by (simp add: desk_ok_def)
  then have i: "i \<in> item_id ` set (dk_items dk)" using q by (simp add: books_def)
  have ids: "distinct (map item_id (dk_items dk))" using b by (simp add: books_def)
  have items: "dk_items dk1 = dk_items dk" using sm by (simp add: stays_def)
  note rem = removed_item[OF ids assms(2) items i]
  have "books conv (apply_changes ?cs ?f) (dk_items dk') inputs"
  proof (rule books_changes[OF b, where P = "{}"])
    fix j c assume "(j, c) \<in> set ?cs"
    moreover obtain r where "?f i = Some r" "sub_status r = Queued" using q by (auto simp: awaits_def)
    ultimately show "\<exists>r r'. ?f j = Some r \<and> apply_submission_change r c = Inr r' \<and>
      (if j \<in> {} then sub_status r' = Placed else sub_status r' = Done \<or> sub_status r' = Unanswered)"
      by (simp add: place_queued)
  next
    show "set inputs = (set inputs - fst ` set ?cs) \<union> {}" using books_disjoint[OF b] i by auto
    show "distinct inputs" using b by (simp add: books_def)
  qed (use rem in simp_all)
  moreover have "moved ?cs (dk_tx dk) (dk_tx dk')" "dk_run dk' = dk_run dk"
    using sm assms(2) by (simp_all add: remove_inbox_item_def stays_def)
  ultimately show ?thesis using desk_moved[OF ok] by blast
qed

lemma desk_abort:
  assumes "abort_submission i within dk = (Inr result, dk')" "desk_ok conv st dk inputs" "untouched (dk_tx dk)"
    and "\<forall>r. final_view (dk_tx dk) i = Some r \<longrightarrow> sub_conv r = conv"
  shows "desk_ok conv st dk' inputs \<and> dk_run dk' = dk_run dk"
proof -
  from assms(1) obtain found dk1 where read: "in_tx (tx_submission i) dk = (Inr found, dk1)"
    and after: "(case found of
         None \<Rightarrow> return_desk WasNotFound
       | Some r \<Rightarrow>
           if within \<noteq> None \<and> within \<noteq> Some (sub_conv r) then return_desk WasNotFound
           else if sub_status r = Queued
           then then_desk (in_tx (settle_submission i (SettledUnanswered ''aborted'' None))) (\<lambda>_.
             then_desk (remove_inbox_item i) (\<lambda>_. return_desk WasWithdrawn))
           else return_desk (if sub_status r = Placed then WasPlaced else WasSettled)) dk1 = (Inr result, dk')"
    using assms(1)[unfolded abort_submission_def then_desk_Inr] by blast
  note r = read_submission[OF read assms(3)]
  show ?thesis
  proof (cases "\<exists>s. found = Some s \<and> sub_status s = Queued \<and> \<not> (within \<noteq> None \<and> within \<noteq> Some (sub_conv s))")
    case False
    then have "dk' = dk" using after r(2) by (auto split: option.splits if_splits)
    then show ?thesis using assms(2) by simp
  next
    case True
    then obtain s where s: "found = Some s" "sub_status s = Queued" "\<not> (within \<noteq> None \<and> within \<noteq> Some (sub_conv s))" by blast
    then obtain dk2 where two: "in_tx (settle_submission i (SettledUnanswered ''aborted'' None)) dk = (Inr (), dk2)"
      "remove_inbox_item i dk2 = (Inr (), dk')" using after r(2) by auto
    have "awaits conv (final_view (dk_tx dk)) Queued i" using s(1,2) r(1) assms(4) by (auto simp: awaits_def)
    from desk_withdraw_one[OF two assms(2) this] show ?thesis .
  qed
qed

section \<open>Commits of a generation\<close>

lemma stays_drafts: "append_drafts conv ds dk = (Inr (), dk') \<Longrightarrow> stays [] dk dk'"
proof (induction ds arbitrary: dk)
  case (Cons d ds)
  then obtain e dk1 where "in_tx (append_entry conv d) dk = (Inr e, dk1)" "append_drafts conv ds dk1 = (Inr (), dk')" by auto
  with Cons.IH[of dk1] stays_trans[OF stays_append[of conv d dk e dk1], of "[]"] show ?case by simp
qed simp

lemma desk_fail_run:
  assumes "fail_run conv t modes policy answer reason detail now dk = (Inr (), dk')" "desk_ok conv st dk inputs" "dk_run dk = Some (t, inputs)"
  shows "desk_ok conv st dk' (inputs_of (dk_run dk'))"
proof -
  from assms(1) obtain boundary dk0 dk1 dk2 dk3 where p: "prepare_failure conv policy dk = (Inr boundary, dk0)"
    "append_drafts conv answer dk0 = (Inr (), dk1)" "end_run t (SettledUnanswered reason detail) dk1 = (Inr (), dk2)"
    "(if policy = WithdrawQueued then withdraw_queued_inputs ''run_failed'' else return_desk ()) dk2 = (Inr (), dk3)"
    and last: "(case boundary of None \<Rightarrow> return_desk () | Some head \<Rightarrow>
      then_desk (apply_boundary conv modes head FinalBoundary now) (\<lambda>(users, reset). start_run_if_any conv users)) dk3 = (Inr (), dk')"
    by (auto simp: fail_run_def end_failed_run_def)
  have "dk0 = dk" using p(1) by (auto simp: prepare_failure_def dest: same_boundary split: if_splits)
  then have st: "stays [] dk dk1" using stays_drafts[OF p(2)] by simp
  then have "dk_run dk1 = Some (t, inputs)" using assms(3) by (simp add: stays_def)
  moreover have "settlement (SettledUnanswered reason detail)" by (simp add: settlement_def)
  ultimately have two: "desk_ok conv st dk2 []" "dk_run dk2 = None"
    using desk_end_run[OF p(3), of conv st inputs "[]"] desk_stays[OF st assms(2)] by simp_all
  have three: "desk_ok conv st dk3 []" "dk_run dk3 = None"
    using p(4) two desk_withdraw[of "''run_failed''" dk2 dk3 conv st "[]"] by (auto split: if_splits)
  show ?thesis
  proof (cases boundary)
    case None
    with last three show ?thesis by simp
  next
    case (Some head)
    with last obtain users reset dk4 where four: "apply_boundary conv modes head FinalBoundary now dk3 = (Inr (users, reset), dk4)"
      "start_run_if_any conv users dk4 = (Inr (), dk')" by auto
    from desk_boundary[OF three(1) four(1)] three(2) desk_start_run[OF four(2)] show ?thesis by simp
  qed
qed

lemma desk_drop_run:
  assumes "drop_run conv t left reason detail dk = (Inr (), dk')" "desk_ok conv st dk inputs" "dk_run dk = Some (t, inputs)"
  shows "desk_ok conv st dk' (inputs_of (dk_run dk'))"
proof -
  from assms(1) obtain dk1 where p: "append_drafts conv left dk = (Inr (), dk1)" "end_run t (SettledUnanswered reason detail) dk1 = (Inr (), dk')"
    by (auto simp: drop_run_def)
  note st = stays_drafts[OF p(1)]
  have "dk_run dk1 = Some (t, inputs)" "settlement (SettledUnanswered reason detail)"
    using st assms(3) by (simp_all add: stays_def settlement_def)
  with desk_end_run[OF p(2), of conv st inputs "[]"] desk_stays[OF st assms(2)] show ?thesis by simp
qed

text \<open>Handing the run to another task, with its inputs.\<close>

lemma desk_continue:
  assumes "then_desk (create_generation conv) (\<lambda>t'. hand_over t t') dk = (Inr (), dk')" "desk_ok conv st dk (inputs_of (dk_run dk))"
  shows "desk_ok conv st dk' (inputs_of (dk_run dk'))"
proof -
  from assms(1) obtain t' dk1 where g: "create_generation conv dk = (Inr t', dk1)" "hand_over t t' dk1 = (Inr (), dk')" by auto
  note st = stays_generation[OF g(1)]
  have dk': "dk' = dk1\<lparr>dk_run := map_option (\<lambda>(owner, inputs). (if owner = t then t' else owner, inputs)) (dk_run dk1)\<rparr>"
    using g(2) by (simp add: hand_over_def)
  have "inputs_of (dk_run dk') = inputs_of (dk_run dk1)" by (cases "dk_run dk1") (auto simp: dk')
  moreover have "desk_ok conv st dk' xs = desk_ok conv st dk1 xs" for xs by (simp add: desk_ok_def dk')
  moreover have "dk_run dk1 = dk_run dk" using st by (simp add: stays_def)
  ultimately show ?thesis using desk_stays[OF st assms(2)] by simp
qed

lemma desk_answer_run:
  assumes "answer_run conv t modes answer continuation now dk = (Inr (), dk')" "desk_ok conv st dk inputs" "dk_run dk = Some (t, inputs)"
  shows "desk_ok conv st dk' (inputs_of (dk_run dk'))"
proof -
  from assms(1) obtain head e dk0 dk1 users reset dk2 where p: "prepare_boundary conv dk = (Inr head, dk0)"
    "in_tx (append_entry conv answer) dk0 = (Inr e, dk1)" "apply_boundary conv modes head FinalBoundary now dk1 = (Inr (users, reset), dk2)"
    and last: "(case continuation of
         Some content \<Rightarrow>
           if users = [] \<and> \<not> reset
           then then_desk (append_input conv content None now) (\<lambda>_. then_desk (create_generation conv) (\<lambda>t'. hand_over t t'))
           else next_run conv t (SettledDone (entry_id e)) users
       | None \<Rightarrow> next_run conv t (SettledDone (entry_id e)) users) dk2 = (Inr (), dk')"
    by (auto simp: answer_run_def)
  have st: "stays [] dk dk1" using p(1,2) same_boundary stays_append by metis
  from desk_stays[OF st assms(2)] st assms(3) have one: "desk_ok conv st dk1 inputs" "dk_run dk1 = Some (t, inputs)" by (simp_all add: stays_def)
  from desk_boundary[OF one(1) p(3)] one(2) have two: "desk_ok conv st dk2 (inputs @ users)" "dk_run dk2 = Some (t, inputs)" by simp_all
  have paid: "settlement (SettledDone (entry_id e))" by (simp add: settlement_def)
  show ?thesis
  proof (cases "continuation \<noteq> None \<and> users = [] \<and> \<not> reset")
    case True
    then obtain content e' dk3 where three: "append_input conv content None now dk2 = (Inr e', dk3)"
      "then_desk (create_generation conv) (\<lambda>t'. hand_over t t') dk3 = (Inr (), dk')" using last by auto
    from stays_input[OF three(1)] True two have "desk_ok conv st dk3 (inputs_of (dk_run dk3))"
      using desk_stays[of dk2 dk3] by (simp add: stays_def)
    from desk_continue[OF three(2) this] show ?thesis .
  next
    case False
    then have "next_run conv t (SettledDone (entry_id e)) users dk2 = (Inr (), dk')"
      using last by (auto split: option.splits if_splits)
    from desk_next_run[OF this two(1,2) paid] show ?thesis .
  qed
qed

lemma desk_end_tool_round:
  assumes "end_tool_round conv t modes assistant handoff terminate now dk = (Inr (), dk')" "desk_ok conv st dk inputs" "dk_run dk = Some (t, inputs)"
  shows "desk_ok conv st dk' (inputs_of (dk_run dk'))"
proof -
  from assms(1) obtain head0 head dk0 dk1 where p: "prepare_boundary conv dk = (Inr head0, dk0)" "hand_off conv handoff head0 now dk0 = (Inr head, dk1)"
    and last: "(if terminate
       then then_desk (apply_boundary conv modes head FinalBoundary now) (\<lambda>(users, reset). next_run conv t (SettledDone assistant) users)
       else then_desk (apply_boundary conv modes head PostTools now) (\<lambda>(users, reset).
         if reset then next_run conv t (SettledUnanswered ''reset'' None) users
         else then_desk (add_inputs t users) (\<lambda>_. then_desk (create_generation conv) (\<lambda>t'. hand_over t t')))) dk1 = (Inr (), dk')"
    unfolding end_tool_round_def by auto
  have "dk0 = dk" using p(1) by (rule same_boundary)
  then have st: "stays [] dk dk1" using p(2) by (auto simp: hand_off_def dest: stays_append split: option.splits)
  from desk_stays[OF st assms(2)] st assms(3) have one: "desk_ok conv st dk1 inputs" "dk_run dk1 = Some (t, inputs)" by (simp_all add: stays_def)
  have paid: "settlement (SettledDone assistant)" "settlement (SettledUnanswered ''reset'' None)" by (simp_all add: settlement_def)
  obtain at users reset dk2 where b: "apply_boundary conv modes head at now dk1 = (Inr (users, reset), dk2)"
    and rest: "(if terminate then next_run conv t (SettledDone assistant) users
      else if reset then next_run conv t (SettledUnanswered ''reset'' None) users
      else then_desk (add_inputs t users) (\<lambda>_. then_desk (create_generation conv) (\<lambda>t'. hand_over t t'))) dk2 = (Inr (), dk')"
  proof (cases terminate)
    case True
    with last obtain users reset dk2 where "apply_boundary conv modes head FinalBoundary now dk1 = (Inr (users, reset), dk2)"
      "next_run conv t (SettledDone assistant) users dk2 = (Inr (), dk')" by auto
    with True that show thesis by simp
  next
    case False
    with last obtain users reset dk2 where "apply_boundary conv modes head PostTools now dk1 = (Inr (users, reset), dk2)"
      "(if reset then next_run conv t (SettledUnanswered ''reset'' None) users
         else then_desk (add_inputs t users) (\<lambda>_. then_desk (create_generation conv) (\<lambda>t'. hand_over t t'))) dk2 = (Inr (), dk')" by auto
    with False that show thesis by simp
  qed
  from desk_boundary[OF one(1) b] one(2) have two: "desk_ok conv st dk2 (inputs @ users)" "dk_run dk2 = Some (t, inputs)" by simp_all
  consider c where "next_run conv t c users dk2 = (Inr (), dk')" "settlement c"
    | "then_desk (add_inputs t users) (\<lambda>_. then_desk (create_generation conv) (\<lambda>t'. hand_over t t')) dk2 = (Inr (), dk')"
    using rest paid by (auto split: if_splits)
  then show ?thesis
  proof cases
    case 1
    then show ?thesis using desk_next_run two by blast
  next
    case 2
    let ?dk = "dk2\<lparr>dk_run := Some (t, inputs @ users)\<rparr>"
    from 2 have "then_desk (create_generation conv) (\<lambda>t'. hand_over t t') ?dk = (Inr (), dk')"
      by (auto simp: add_inputs_def two(2))
    moreover have "desk_ok conv st ?dk (inputs_of (dk_run ?dk))" using two(1) by (simp add: desk_ok_def)
    ultimately show ?thesis by (rule desk_continue)
  qed
qed

section \<open>Admission\<close>

lemma books_new:
  assumes "books conv f items inputs" "f i = None" "sub_conv r = conv" "item_id item = i" "sub_type r = WriteSubmission \<longleftrightarrow> is_write item"
  shows "books conv (f(i \<mapsto> r)) (if sub_status r = Queued then items @ [item] else items)
    (if sub_status r = Placed then inputs @ [i] else inputs)"
proof -
  have a: "awaits conv (f(i \<mapsto> r)) s j \<longleftrightarrow> (if j = i then sub_status r = s else awaits conv f s j)" for s j
    using assms(3) by (auto simp: awaits_def)
  have "\<not> awaits conv f s i" for s using assms(2) by (simp add: awaits_def)
  then have new: "i \<notin> item_id ` set items" "i \<notin> set inputs" using assms(1) by (auto simp: books_def)
  have types: "\<forall>it s. it \<in> set items \<longrightarrow> (f(i \<mapsto> r)) (item_id it) = Some s \<longrightarrow> (sub_type s = WriteSubmission \<longleftrightarrow> is_write it)"
    using assms(1) new(1) by (auto simp: books_def)
  show ?thesis
    using assms(1,4,5) new types unfolding books_def a by (cases "sub_status r") auto
qed

lemma created:
  assumes "in_tx (create_submission g) dk = (Inr r, dk')"
  shows "dk_items dk' = dk_items dk" "dk_run dk' = dk_run dk" "tx_runs (dk_tx dk) (dk_tx dk')"
    "r = g\<lparr>sub_id := next_record_id (tx_store (dk_tx dk))\<rparr>" "submission_changes (dk_tx dk') = submission_changes (dk_tx dk)"
    "base_view (dk_tx dk') = (base_view (dk_tx dk))(sub_id r \<mapsto> r)"
proof -
  obtain tx where tx: "create_submission g (dk_tx dk) = (Inr r, tx)" "dk' = dk\<lparr>dk_tx := tx\<rparr>" using assms by (auto simp: in_tx_Inr)
  then show "dk_items dk' = dk_items dk" "dk_run dk' = dk_run dk" by simp_all
  show "tx_runs (dk_tx dk) (dk_tx dk')" using runs_step[OF runs_refl step_submission[of "dk_tx dk" g]] tx by simp
  have req: "tx' = tx0" if "require_conversation c tx0 = (Inr (), tx')" for c tx0 tx'
    using that by (auto simp: require_conversation_def tx_ops split: if_splits sum.splits)
  let ?i = "next_record_id (tx_store (dk_tx dk))"
  from tx(1) have "r = g\<lparr>sub_id := ?i\<rparr> \<and> tx = (dk_tx dk)\<lparr>has_table_write := True, tx_store := (tx_store (dk_tx dk))\<lparr>next_record_id := ?i + 1\<rparr>,
      new_submissions := AList.update ?i r (new_submissions (dk_tx dk))\<rparr>"
    unfolding create_submission_def write_tx_def Let_def
    by (auto elim!: then_cases dest!: req simp: change_tx_def return_tx_def mint_tx_def mint_id_def res_simps split: if_splits sum.splits)
  then show "r = g\<lparr>sub_id := ?i\<rparr>" "submission_changes (dk_tx dk') = submission_changes (dk_tx dk)"
    "base_view (dk_tx dk') = (base_view (dk_tx dk))(sub_id r \<mapsto> r)"
    using tx(2) by (auto simp: base_view_def update_conv fun_eq_iff split: option.split)
qed

text \<open>A desk on which nothing was submitted or changed yet.\<close>

definition new_desk :: "int \<Rightarrow> mem_state \<Rightarrow> desk \<Rightarrow> bool" where
  "new_desk conv st dk \<longleftrightarrow> storage_ok st \<and> untouched (dk_tx dk) \<and> desk_ok conv st dk (inputs_of (dk_run dk))"

lemma new_desk_stays: "new_desk conv st dk \<Longrightarrow> stays [] dk dk' \<Longrightarrow> new_desk conv st dk'"
  using desk_stays[of dk dk'] by (simp add: new_desk_def untouched_def stays_def moved_def)

lemma new_desk_fresh:
  assumes "new_desk conv st dk"
  shows "final_view (dk_tx dk) (next_record_id (tx_store (dk_tx dk))) = None"
proof -
  obtain c t where "tx_runs (new_transaction st c t) (dk_tx dk)" using assms by (auto simp: new_desk_def desk_ok_def)
  then have "batch_ok st (dk_tx dk)" by (rule batch_ok_runs)
  then have tx: "tx_store (dk_tx dk) = st\<lparr>next_record_id := next_record_id (tx_store (dk_tx dk))\<rparr>"
    "next_record_id st \<le> next_record_id (tx_store (dk_tx dk))" by (simp_all add: batch_ok_def)
  let ?i = "next_record_id (tx_store (dk_tx dk))"
  have "submissions st ?i = None"
    using stored_old(2)[of st ?i] assms tx(2) by (cases "submissions st ?i") (auto simp: new_desk_def)
  moreover have "submissions (tx_store (dk_tx dk)) = submissions st" using arg_cong[OF tx(1), of submissions] by simp
  ultimately show ?thesis using assms untouched_view[of "dk_tx dk"] by (simp add: new_desk_def)
qed

lemma desk_created:
  assumes "in_tx (create_submission g) dk = (Inr r, dk1)" "new_desk conv st dk" "sub_conv g = conv"
    and "item_id item = sub_id r" "sub_type g = WriteSubmission \<longleftrightarrow> is_write item"
  shows "desk_ok conv st (dk1\<lparr>dk_items := if sub_status g = Queued then dk_items dk1 @ [item] else dk_items dk1\<rparr>)
      (if sub_status g = Placed then inputs_of (dk_run dk) @ [sub_id r] else inputs_of (dk_run dk))"
    and "dk_run dk1 = dk_run dk" "dk_items dk1 = dk_items dk"
proof -
  note c = created[OF assms(1)]
  show "dk_run dk1 = dk_run dk" "dk_items dk1 = dk_items dk" by (rule c)+
  have ok: "desk_ok conv st dk (inputs_of (dk_run dk))" "untouched (dk_tx dk)" using assms(2) by (simp_all add: new_desk_def)
  have "final_view (dk_tx dk1) = (final_view (dk_tx dk))(sub_id r \<mapsto> r)"
    using c(5,6) ok(2) by (simp add: final_view_def untouched_def)
  moreover have "final_view (dk_tx dk) (sub_id r) = None" using new_desk_fresh[OF assms(2)] by (simp add: c(4))
  moreover have "sub_conv r = conv" "sub_status r = sub_status g" "sub_type r = sub_type g" using assms(3) by (simp_all add: c(4))
  ultimately show "desk_ok conv st (dk1\<lparr>dk_items := if sub_status g = Queued then dk_items dk1 @ [item] else dk_items dk1\<rparr>)
      (if sub_status g = Placed then inputs_of (dk_run dk) @ [sub_id r] else inputs_of (dk_run dk))"
    using ok(1) books_new[of conv "final_view (dk_tx dk)" "dk_items dk" "inputs_of (dk_run dk)" "sub_id r" r item] assms(4,5)
      tx_runs_trans[OF c(3)] c(1)
    unfolding desk_ok_def by auto
qed

lemma new_item_simps [simp]: "item_id (new_item i draft) = i" "is_write (new_item i draft) \<longleftrightarrow> draft_type draft = WriteSubmission"
  by (cases draft; simp add: new_item_def)+

lemma fields_simps [simp]:
  "sub_conv (submission_fields conv draft status entry reason) = conv" "sub_status (submission_fields conv draft status entry reason) = status"
  "sub_type (submission_fields conv draft status entry reason) = draft_type draft"
  by (simp_all add: submission_fields_def)

lemma desk_settled_at_once:
  assumes "in_tx (create_submission (submission_fields conv draft status entry reason)) dk = (Inr r, dk')" "new_desk conv st dk"
    and "status = Done \<or> status = Unanswered"
  shows "desk_ok conv st dk' (inputs_of (dk_run dk'))"
  using desk_created[OF assms(1,2), of "new_item (sub_id r) draft"] assms(3) by (auto simp: desk_ok_def)

lemma desk_write_now:
  assumes "write_now conv draft d dk = (Inr r, dk')" "new_desk conv st dk"
  shows "desk_ok conv st dk' (inputs_of (dk_run dk'))"
proof -
  from assms(1) obtain e dk1 s where p: "in_tx (append_entry conv d) dk = (Inr e, dk1)"
    "in_tx (create_submission (submission_fields conv draft Done (Some (entry_id e)) None)) dk1 = (Inr s, dk')"
    by (auto simp: write_now_def)
  from desk_settled_at_once[OF p(2) new_desk_stays[OF assms(2) stays_append[OF p(1)]]] show ?thesis by simp
qed

lemma desk_enqueue:
  assumes "enqueue conv draft dk = (Inr i, dk')" "new_desk conv st dk"
  shows "desk_ok conv st dk' (inputs_of (dk_run dk')) \<and> dk_run dk' = dk_run dk"
proof -
  from assms(1) obtain r dk1 where c: "in_tx (create_submission (submission_fields conv draft Queued None None)) dk = (Inr r, dk1)"
    "dk' = dk1\<lparr>dk_items := dk_items dk1 @ [new_item (sub_id r) draft]\<rparr>" by (auto simp: enqueue_def)
  from desk_created[OF c(1) assms(2), of "new_item (sub_id r) draft"] c(2) show ?thesis by simp
qed

lemma desk_queue_behind:
  assumes "queue_behind conv modes head draft now dk = (Inr r, dk')" "new_desk conv st dk" "dk_run dk = None"
  shows "desk_ok conv st dk' (inputs_of (dk_run dk'))"
proof -
  from assms(1) obtain i dk1 users reset dk2 where p: "enqueue conv draft dk = (Inr i, dk1)"
    "apply_boundary conv modes head FinalBoundary now dk1 = (Inr (users, reset), dk2)" "start_run_if_any conv users dk2 = (Inr (), dk')"
    by (auto simp: queue_behind_def)
  from desk_enqueue[OF p(1) assms(2)] assms(3) have "desk_ok conv st dk1 []" "dk_run dk1 = None" by auto
  from desk_boundary[OF this(1) p(2)] this(2) desk_start_run[OF p(3)] show ?thesis by simp
qed

lemma desk_admit_idle:
  assumes "admit_idle conv head draft now dk = (Inr r, dk')" "new_desk conv st dk" "dk_run dk = None"
  shows "desk_ok conv st dk' (inputs_of (dk_run dk'))"
proof (cases draft)
  case (WriteDraft request d)
  show ?thesis
  proof (cases "is_stale head d")
    case True
    with assms(1) WriteDraft obtain s where "in_tx (create_submission (submission_fields conv draft Unanswered None (Some ''stale''))) dk = (Inr s, dk')"
      by (auto simp: admit_idle_def)
    from desk_settled_at_once[OF this assms(2)] show ?thesis by simp
  next
    case False
    with assms(1) WriteDraft have "write_now conv draft d dk = (Inr r, dk')" by (simp add: admit_idle_def)
    from desk_write_now[OF this assms(2)] show ?thesis .
  qed
next
  case (InputDraft request content busy entry)
  with assms(1) obtain e dk1 s dk2 where p: "append_input conv content entry now dk = (Inr e, dk1)"
    "in_tx (create_submission (submission_fields conv draft Placed (Some (entry_id e)) None)) dk1 = (Inr s, dk2)"
    "start_run conv [sub_id s] dk2 = (Inr (), dk')" by (auto simp: admit_idle_def)
  note st = stays_input[OF p(1)]
  have run: "dk_run dk1 = None" using st assms(3) by (simp add: stays_def)
  from desk_created[OF p(2) new_desk_stays[OF assms(2) st], of "new_item (sub_id s) draft"] run
  have "desk_ok conv st dk2 [sub_id s]" "dk_run dk2 = None" by (simp_all add: desk_ok_def)
  then show ?thesis using desk_start_run[of conv "[sub_id s]" dk2 dk' st] p(3) by (simp add: start_run_if_any_def)
qed

lemma desk_admit_new:
  assumes "admit_new conv draft now modes dk = (Inr r, dk')" "new_desk conv st dk"
  shows "desk_ok conv st dk' (inputs_of (dk_run dk'))"
proof (cases "displayed (dk_items dk) draft")
  case (Some d)
  with assms(1) have "write_now conv draft d dk = (Inr r, dk')" by (simp add: admit_new_def)
  from desk_write_now[OF this assms(2)] show ?thesis .
next
  case None
  show ?thesis
  proof (cases "dk_run dk")
    case (Some run)
    with assms(1) None obtain i where "enqueue conv draft dk = (Inr i, dk')" by (auto simp: admit_new_def split: if_splits)
    from desk_enqueue[OF this assms(2)] show ?thesis by blast
  next
    case idle: None
    with assms(1) None obtain head dk1 where p: "prepare_boundary conv dk = (Inr head, dk1)"
      "(if dk_items dk1 \<noteq> [] then queue_behind conv modes head draft now dk1 else admit_idle conv head draft now dk1) = (Inr r, dk')"
      by (auto simp: admit_new_def)
    have "dk1 = dk" by (rule same_boundary[OF p(1)])
    with p(2) desk_queue_behind[OF _ assms(2) idle] desk_admit_idle[OF _ assms(2) idle] show ?thesis by (auto split: if_splits)
  qed
qed

lemma same_known:
  assumes "known_request conv draft dk = (Inr known, dk')"
  shows "dk' = dk"
proof (cases "draft_request draft")
  case (Some request)
  with assms obtain found dk1 where p: "in_tx (tx_submission_by_request conv request) dk = (Inr found, dk1)"
    "(case found of
        None \<Rightarrow> return_desk None
      | Some r \<Rightarrow>
          if sub_type r \<noteq> draft_type draft then fail_desk (OtherType request (sub_type r))
          else return_desk (Some (sub_id r, admitted_status (sub_status r)))) dk1 = (Inr known, dk')"
    unfolding known_request_def by (simp only: option.case then_desk_Inr) blast
  have "dk1 = dk" by (rule in_read[OF p(1)[unfolded tx_submission_by_request_def]])
  moreover have "dk' = dk1" using p(2) by (cases found) (auto split: if_splits)
  ultimately show ?thesis by simp
qed (use assms in \<open>simp add: known_request_def\<close>)

lemma desk_admit:
  assumes "admit_submission conv draft now modes dk = (Inr r, dk')" "new_desk conv st dk"
  shows "desk_ok conv st dk' (inputs_of (dk_run dk'))"
proof -
  from assms(1) obtain dk0 known dk1 where p: "check_input_entry draft dk = (Inr (), dk0)" "known_request conv draft dk0 = (Inr known, dk1)"
    "(case known of Some r \<Rightarrow> return_desk r | None \<Rightarrow> admit_new conv draft now modes) dk1 = (Inr r, dk')"
    by (auto simp: admit_submission_def)
  have "dk0 = dk" using p(1) by (auto simp: check_input_entry_def split: submission_draft.splits option.splits if_splits)
  moreover have "dk1 = dk0" by (rule same_known[OF p(2)])
  ultimately have "dk1 = dk" by simp
  with p(3) desk_admit_new[OF _ assms(2)] assms(2) show ?thesis by (auto simp: new_desk_def split: option.splits)
qed

end
