(* ===== verification/Run_Accounts.thy ===== *)
theory Run_Accounts
  imports Run_Books
begin

text \<open>
  The commits on a conversation as steps over its storage, inbox and run, with two properties: the
  books of its submissions always balance, and a boundary never moves the head back.
\<close>

section \<open>Commits on a conversation\<close>

datatype desk_request =
    Admit submission_draft int queue_modes
  | AbortOne int "int option"
  | WithdrawAll string
  | FailRun int queue_modes after_failed_run "entry_draft list" string "json option" int
  | DropRun int "entry_draft list" string "json option"
  | AnswerRun int queue_modes entry_draft "json option" int
  | EndToolRound int queue_modes int "json option" bool int

fun perform :: "int \<Rightarrow> desk_request \<Rightarrow> unit desk_op" where
  "perform conv (Admit draft now modes) = then_desk (admit_submission conv draft now modes) (\<lambda>_. return_desk ())"
| "perform conv (AbortOne i within) = then_desk (abort_submission i within) (\<lambda>_. return_desk ())"
| "perform conv (WithdrawAll reason) = withdraw_queued_inputs reason"
| "perform conv (FailRun t modes policy answer reason detail now) = fail_run conv t modes policy answer reason detail now"
| "perform conv (DropRun t left reason detail) = drop_run conv t left reason detail"
| "perform conv (AnswerRun t modes answer continuation now) = answer_run conv t modes answer continuation now"
| "perform conv (EndToolRound t modes assistant handoff terminate now) = end_tool_round conv t modes assistant handoff terminate now"

definition owns_run :: "(int \<times> int list) option \<Rightarrow> int \<Rightarrow> bool" where
  "owns_run run t = (case run of Some (owner, inputs) \<Rightarrow> owner = t | None \<Rightarrow> False)"

text \<open>
  An abort comes to the desk of the submission's conversation, and a generation that ends or
  continues a run is the one that has it: it got it when it was created, and nothing but its own
  last commit takes it away.
\<close>

fun allowed :: "int \<Rightarrow> mem_state \<Rightarrow> (int \<times> int list) option \<Rightarrow> desk_request \<Rightarrow> bool" where
  "allowed conv st run (Admit draft now modes) = True"
| "allowed conv st run (AbortOne i within) = (case submissions st i of None \<Rightarrow> True | Some r \<Rightarrow> sub_conv r = conv)"
| "allowed conv st run (WithdrawAll reason) = True"
| "allowed conv st run (FailRun t modes policy answer reason detail now) = owns_run run t"
| "allowed conv st run (DropRun t left reason detail) = owns_run run t"
| "allowed conv st run (AnswerRun t modes answer continuation now) = owns_run run t"
| "allowed conv st run (EndToolRound t modes assistant handoff terminate now) = owns_run run t"

type_synonym desk_state = "mem_state \<times> inbox_item list \<times> (int \<times> int list) option"

inductive desk_step :: "int \<Rightarrow> desk_state \<Rightarrow> desk_state \<Rightarrow> bool" for conv where
  desk_commit: "tx_runs (new_transaction st c t) tx0 \<Longrightarrow> untouched tx0 \<Longrightarrow> allowed conv st run req \<Longrightarrow>
    perform conv req \<lparr>dk_tx = tx0, dk_items = items, dk_run = run\<rparr> = (Inr (), dk) \<Longrightarrow> moved [] (dk_tx dk) tx \<Longrightarrow>
    assemble tx = (Inr ws, tx') \<Longrightarrow> commit (tx_store tx') ws = Inr (seq, st') \<Longrightarrow>
    desk_step conv (st, items, run) (st', dk_items dk, dk_run dk)"
| desk_other: "tx_runs (new_transaction st c t) tx \<Longrightarrow> assemble tx = (Inr ws, tx') \<Longrightarrow> commit (tx_store tx') ws = Inr (seq, st') \<Longrightarrow>
    (\<And>r. WSubmission r \<in> set ws \<Longrightarrow> sub_conv r \<noteq> conv) \<Longrightarrow> desk_step conv (st, items, run) (st', items, run)"
| desk_mint: "next_record_id st \<le> k \<Longrightarrow> desk_step conv (st, items, run) (st\<lparr>next_record_id := k\<rparr>, items, run)"

inductive desk_runs :: "int \<Rightarrow> desk_state \<Rightarrow> desk_state \<Rightarrow> bool" for conv where
  desk_refl: "desk_runs conv s s"
| desk_more: "desk_runs conv s s1 \<Longrightarrow> desk_step conv s1 s2 \<Longrightarrow> desk_runs conv s s2"

section \<open>The books balance\<close>

definition desk_inv :: "int \<Rightarrow> desk_state \<Rightarrow> bool" where
  "desk_inv conv s \<longleftrightarrow> (case s of (st, items, run) \<Rightarrow> storage_ok st \<and> books conv (submissions st) items (inputs_of run))"

lemma perform_ok:
  assumes "perform conv req dk = (Inr (), dk')" "new_desk conv st dk" "allowed conv st (dk_run dk) req"
    and view: "final_view (dk_tx dk) = submissions st"
  shows "desk_ok conv st dk' (inputs_of (dk_run dk'))"
proof -
  have ok: "desk_ok conv st dk (inputs_of (dk_run dk))" "untouched (dk_tx dk)" using assms(2) by (simp_all add: new_desk_def)
  have owned: "\<exists>inputs. dk_run dk = Some (t, inputs) \<and> desk_ok conv st dk inputs" if "owns_run (dk_run dk) t" for t
    using that ok(1) by (auto simp: owns_run_def split: option.splits)
  show ?thesis
  proof (cases req)
    case (Admit draft now modes)
    with assms(1) obtain r where "admit_submission conv draft now modes dk = (Inr r, dk')" by auto
    from desk_admit[OF this assms(2)] show ?thesis .
  next
    case (AbortOne i within)
    with assms(1) obtain r where "abort_submission i within dk = (Inr r, dk')" by auto
    moreover have "\<forall>r. final_view (dk_tx dk) i = Some r \<longrightarrow> sub_conv r = conv" using assms(3) by (auto simp: AbortOne view)
    ultimately have "desk_ok conv st dk' (inputs_of (dk_run dk)) \<and> dk_run dk' = dk_run dk" using desk_abort ok by blast
    then show ?thesis by auto
  next
    case (WithdrawAll reason)
    with assms(1) have "withdraw_queued_inputs reason dk = (Inr (), dk')" by simp
    from desk_withdraw[OF this ok(1)] show ?thesis by auto
  next
    case (FailRun t modes policy answer reason detail now)
    with owned[of t] assms(3) obtain inputs where o': "dk_run dk = Some (t, inputs)" "desk_ok conv st dk inputs" by auto
    from FailRun assms(1) have "fail_run conv t modes policy answer reason detail now dk = (Inr (), dk')" by simp
    from desk_fail_run[OF this o'(2,1)] show ?thesis .
  next
    case (DropRun t left reason detail)
    with owned[of t] assms(3) obtain inputs where o': "dk_run dk = Some (t, inputs)" "desk_ok conv st dk inputs" by auto
    from DropRun assms(1) have "drop_run conv t left reason detail dk = (Inr (), dk')" by simp
    from desk_drop_run[OF this o'(2,1)] show ?thesis .
  next
    case (AnswerRun t modes answer continuation now)
    with owned[of t] assms(3) obtain inputs where o': "dk_run dk = Some (t, inputs)" "desk_ok conv st dk inputs" by auto
    from AnswerRun assms(1) have "answer_run conv t modes answer continuation now dk = (Inr (), dk')" by simp
    from desk_answer_run[OF this o'(2,1)] show ?thesis .
  next
    case (EndToolRound t modes assistant handoff terminate now)
    with owned[of t] assms(3) obtain inputs where o': "dk_run dk = Some (t, inputs)" "desk_ok conv st dk inputs" by auto
    from EndToolRound assms(1) have "end_tool_round conv t modes assistant handoff terminate now dk = (Inr (), dk')" by simp
    from desk_end_tool_round[OF this o'(2,1)] show ?thesis .
  qed
qed

lemma submissions_after_cases:
  "submissions_after ws f i = f i \<or> (\<exists>r. WSubmission r \<in> set ws \<and> sub_id r = i \<and> submissions_after ws f i = Some r)"
proof (induction ws f rule: submissions_after.induct)
  case (2 r ws f)
  then show ?case by (cases "sub_id r = i") (auto simp: fun_upd_def)
qed auto

lemma books_others:
  assumes b: "books conv f items inputs"
    and other: "\<And>i. g i = f i \<or> (\<exists>r. g i = Some r \<and> sub_conv r \<noteq> conv \<and> (\<forall>old. f i = Some old \<longrightarrow> sub_conv old \<noteq> conv))"
  shows "books conv g items inputs"
proof -
  have a: "awaits conv g s i \<longleftrightarrow> awaits conv f s i" for s i
  proof (cases "g i = f i")
    case False
    with other[of i] show ?thesis by (auto simp: awaits_def)
  qed (simp add: awaits_def)
  have "g (item_id item) = f (item_id item)" if "item \<in> set items" for item
  proof -
    from books_item[OF b that] obtain r where "f (item_id item) = Some r" "sub_conv r = conv" .
    with other[of "item_id item"] show ?thesis by auto
  qed
  with b show ?thesis by (auto simp: books_def a)
qed

lemma desk_inv_step: "desk_step conv s s' \<Longrightarrow> desk_inv conv s \<Longrightarrow> desk_inv conv s'"
proof (induction rule: desk_step.induct)
  case (desk_commit st c t tx0 run req items dk tx ws tx' seq st')
  let ?dk = "\<lparr>dk_tx = tx0, dk_items = items, dk_run = run\<rparr>"
  have inv: "storage_ok st" "books conv (submissions st) items (inputs_of run)" using desk_commit.prems by (simp_all add: desk_inv_def)
  have "submissions (tx_store tx0) = submissions st"
    using arg_cong[OF batch_ok_runs[OF desk_commit.hyps(1), unfolded batch_ok_def, THEN conjunct1], of submissions] by simp
  then have view: "final_view tx0 = submissions st" using untouched_view[OF desk_commit.hyps(2)] by simp
  have "new_desk conv st ?dk" using inv view desk_commit.hyps(1,2) by (auto simp: new_desk_def desk_ok_def)
  from perform_ok[OF desk_commit.hyps(4) this] desk_commit.hyps(3) view have ok: "desk_ok conv st dk (inputs_of (dk_run dk))" by simp
  then obtain c' t' where "tx_runs (new_transaction st c' t') (dk_tx dk)" by (auto simp: desk_ok_def)
  with desk_commit.hyps(5) have "tx_runs (new_transaction st c' t') tx" by (auto simp: moved_def intro: tx_runs_trans)
  from commit_view[OF this inv(1) desk_commit.hyps(6,7)] have st': "storage_ok st'" "submissions st' = final_view tx" by simp_all
  moreover have "final_view tx = final_view (dk_tx dk)" using moved_view[OF desk_commit.hyps(5)] by simp
  ultimately show ?case using ok by (simp add: desk_inv_def desk_ok_def)
next
  case (desk_other st c t tx ws tx' seq st' items run)
  have inv: "storage_ok st" "books conv (submissions st) items (inputs_of run)" using desk_other.prems by (simp_all add: desk_inv_def)
  have ids: "id_matches (submissions st) sub_id" using inv(1) by (simp add: storage_ok_def tables_ok_def)
  from commit_view[OF desk_other.hyps(1) inv(1) desk_other.hyps(2,3)]
  have st': "storage_ok st'" "submissions st' = submissions_after ws (submissions st)"
    using assemble_view[OF desk_other.hyps(2) batch_ok_runs[OF desk_other.hyps(1)] ids] by simp_all
  have "books conv (submissions st') items (inputs_of run)"
  proof (rule books_others[OF inv(2)])
    fix i
    consider "submissions st' i = submissions st i" | r where "WSubmission r \<in> set ws" "sub_id r = i" "submissions st' i = Some r"
      using submissions_after_cases[of ws "submissions st" i] st'(2) by auto
    then show "submissions st' i = submissions st i \<or>
      (\<exists>r. submissions st' i = Some r \<and> sub_conv r \<noteq> conv \<and> (\<forall>old. submissions st i = Some old \<longrightarrow> sub_conv old \<noteq> conv))"
    proof cases
      case 2
      have "sub_conv old \<noteq> conv" if "submissions st i = Some old" for old
      proof -
        have "forward old r"
          by (rule written_submission[OF desk_other.hyps(1) inv(1) desk_other.hyps(2) 2(1)]) (simp add: 2(2) that)
        with desk_other.hyps(4)[OF 2(1)] show ?thesis by (simp add: forward_def)
      qed
      with 2(3) desk_other.hyps(4)[OF 2(1)] show ?thesis by blast
    qed simp
  qed
  with st'(1) show ?case by (simp add: desk_inv_def)
next
  case (desk_mint st k items run)
  then show ?case using storage_ok_later by (simp add: desk_inv_def)
qed

text \<open>
  C27: Every submission has exactly one place. In whatever order submissions are admitted, aborted
  and withdrawn, runs are answered, failed, dropped and continued at the end of a tool round, and
  other conversations commit between, the queued submissions of a conversation are the items of its
  inbox and the placed ones are the inputs of its run, each once.
\<close>

theorem submissions_accounted:
  assumes "desk_runs conv (st0, [], None) (st, items, run)" "storage_ok st0"
    and "\<And>i. \<not> awaits conv (submissions st0) Queued i" "\<And>i. \<not> awaits conv (submissions st0) Placed i"
  shows "{i. awaits conv (submissions st) Queued i} = set (map item_id items) \<and> distinct (map item_id items) \<and>
    {i. awaits conv (submissions st) Placed i} = set (inputs_of run) \<and> distinct (inputs_of run)"
proof -
  have "desk_inv conv (st0, [], None)" using assms(2-4) by (simp add: desk_inv_def books_def)
  with assms(1) have "desk_inv conv (st, items, run)"
    by (induction rule: desk_runs.induct) (auto intro: desk_inv_step)
  then show ?thesis by (auto simp: desk_inv_def books_def)
qed

section \<open>A conversation to look at\<close>

definition one_by_one :: queue_modes where
  "one_by_one = \<lparr>steering_mode = OneAtATime, follow_up_mode = OneAtATime\<rparr>"

definition hello :: submission_draft where
  "hello = InputDraft (Some ''r1'') (Prim (PStr ''hello'')) None None"

definition reset_write :: submission_draft where
  "reset_write = WriteDraft None
     \<lparr>draft_kind = ''reset'', draft_model = None, draft_data = None, draft_head_of = Some HeadSelf, draft_edits = None\<rparr>"

definition greeting_tx :: transaction where "greeting_tx = new_transaction graph_storage (Some 2) None"

definition first_desk :: desk where
  "first_desk = snd (perform 2 (Admit hello 5 one_by_one) \<lparr>dk_tx = greeting_tx, dk_items = [], dk_run = None\<rparr>)"

definition batch_of :: "transaction \<Rightarrow> storage_write list" where
  "batch_of tx = (case fst (assemble tx) of Inl _ \<Rightarrow> [] | Inr ws \<Rightarrow> ws)"

definition stored_after :: "transaction \<Rightarrow> mem_state" where
  "stored_after tx = (case commit (tx_store (snd (assemble tx))) (batch_of tx) of Inl _ \<Rightarrow> tx_store tx | Inr (seq, st) \<Rightarrow> st)"

definition second_tx :: transaction where "second_tx = new_transaction (stored_after (dk_tx first_desk)) (Some 2) None"

definition second_desk :: desk where
  "second_desk = snd (perform 2 (Admit reset_write 6 one_by_one)
     \<lparr>dk_tx = second_tx, dk_items = dk_items first_desk, dk_run = dk_run first_desk\<rparr>)"

lemma accepted:
  "fst (perform 2 (Admit hello 5 one_by_one) \<lparr>dk_tx = greeting_tx, dk_items = [], dk_run = None\<rparr>) = Inr ()"
  "map_sum (\<lambda>_. ()) length (fst (assemble (dk_tx first_desk))) = Inr 3"
  "map_sum (\<lambda>_. ()) fst (commit (tx_store (snd (assemble (dk_tx first_desk)))) (batch_of (dk_tx first_desk))) = Inr 2"
  "dk_items first_desk = []" "dk_run first_desk = Some (6, [5])"
  by code_simp+

lemma queued:
  "fst (perform 2 (Admit reset_write 6 one_by_one)
     \<lparr>dk_tx = second_tx, dk_items = dk_items first_desk, dk_run = dk_run first_desk\<rparr>) = Inr ()"
  "map_sum (\<lambda>_. ()) length (fst (assemble (dk_tx second_desk))) = Inr 1"
  "map_sum (\<lambda>_. ()) fst (commit (tx_store (snd (assemble (dk_tx second_desk)))) (batch_of (dk_tx second_desk))) = Inr 3"
  "map item_id (dk_items second_desk) = [7]" "dk_run second_desk = Some (6, [5])"
  by code_simp+

lemma committed_desk:
  assumes "perform conv req \<lparr>dk_tx = new_transaction st c t, dk_items = items, dk_run = run\<rparr> = (Inr (), dk)" "allowed conv st run req"
    and "map_sum (\<lambda>_. ()) length (fst (assemble (dk_tx dk))) = Inr n"
    and "map_sum (\<lambda>_. ()) fst (commit (tx_store (snd (assemble (dk_tx dk)))) (batch_of (dk_tx dk))) = Inr k"
  shows "desk_step conv (st, items, run) (stored_after (dk_tx dk), dk_items dk, dk_run dk)"
proof -
  obtain ws tx' where a: "assemble (dk_tx dk) = (Inr ws, tx')"
    using assms(3) by (cases "assemble (dk_tx dk)"; cases "fst (assemble (dk_tx dk))") auto
  then have b: "batch_of (dk_tx dk) = ws" by (simp add: batch_of_def)
  with assms(4) a obtain seq st' where c: "commit (tx_store tx') ws = Inr (seq, st')" by (cases "commit (tx_store tx') ws") auto
  then have "stored_after (dk_tx dk) = st'" by (simp add: stored_after_def a b)
  moreover have "untouched (new_transaction st c t)" by (simp add: untouched_def new_transaction_def)
  ultimately show ?thesis using desk_commit[OF runs_refl _ assms(2,1) moved_refl a c] by simp
qed

lemma two_admissions:
  "desk_runs 2 (graph_storage, [], None) (stored_after (dk_tx second_desk), dk_items second_desk, dk_run second_desk)"
proof -
  have "perform 2 (Admit hello 5 one_by_one) \<lparr>dk_tx = greeting_tx, dk_items = [], dk_run = None\<rparr> = (Inr (), first_desk)"
    using accepted(1) by (simp add: first_desk_def prod_eq_iff)
  from committed_desk[OF this[unfolded greeting_tx_def] _ accepted(2,3)]
  have one: "desk_step 2 (graph_storage, [], None) (stored_after (dk_tx first_desk), dk_items first_desk, dk_run first_desk)" by simp
  have "perform 2 (Admit reset_write 6 one_by_one) \<lparr>dk_tx = second_tx, dk_items = dk_items first_desk, dk_run = dk_run first_desk\<rparr> =
      (Inr (), second_desk)"
    using queued(1) by (simp add: second_desk_def prod_eq_iff)
  from committed_desk[OF this[unfolded second_tx_def] _ queued(2,3)]
  have "desk_step 2 (stored_after (dk_tx first_desk), dk_items first_desk, dk_run first_desk)
      (stored_after (dk_tx second_desk), dk_items second_desk, dk_run second_desk)" by simp
  from desk_more[OF desk_more[OF desk_refl one] this] show ?thesis .
qed

lemma graph_submissions: "submissions graph_storage = Map.empty"
proof -
  obtain seq st where c: "commit empty_storage graph_writes = Inr (seq, st)"
    using graph_storage_commit by (cases "commit empty_storage graph_writes") auto
  then have "graph_storage = st" by (simp add: graph_storage_def committed_def)
  then show ?thesis using commit_submissions[OF storage_ok_empty c] by (simp add: graph_writes_def empty_storage_def)
qed

theorem submissions_accounted_witness:
  "{i. awaits 2 (submissions (stored_after (dk_tx second_desk))) Queued i} = {7} \<and>
   {i. awaits 2 (submissions (stored_after (dk_tx second_desk))) Placed i} = {5}"
proof -
  have "storage_ok graph_storage" using graph_ready_storage by (simp add: graph_ready_def)
  from submissions_accounted[OF two_admissions this] queued(4,5) show ?thesis
    by (simp add: graph_submissions awaits_def del: list.set_map)
qed

section \<open>Heads\<close>












definition entries_of :: "entry_record option list \<Rightarrow> entry_record list" where
  "entries_of outs = List.map_filter id outs"

lemma entries_of_simps [simp]:
  "entries_of [] = []" "entries_of (None # outs) = entries_of outs" "entries_of (Some e # outs) = e # entries_of outs"
  by (simp_all add: entries_of_def map_filter_simps)











end
