(* ===== verification/Delta_Trusted.thy ===== *)
theory Delta_Trusted
  imports Delta_Replay
begin

text \<open>
  The applier of \<open>packages/chord/src/delta/apply-immutable-trusted.ts\<close>, which checks nothing about the
  operations a tracker produced itself. It is compared with \<open>apply\<close> on batches whose splices stay
  within their arrays.
\<close>

section \<open>Arrays with holes\<close>

text \<open>
  \<open>spliceTrusted\<close> sets the length and moves a block before it writes the items; in between an array
  has holes, which are \<open>None\<close>. \<open>Outside\<close> marks what the model does not follow: an array written
  past its end or read and written at a string, and the prototype of an object.
\<close>

datatype trusted_error = TrustedType string | Outside

definition set_length :: "nat \<Rightarrow> 'a option list \<Rightarrow> 'a option list" where
  "set_length n xs = take n xs @ replicate (n - length xs) None"

definition copy_within :: "nat \<Rightarrow> nat \<Rightarrow> nat \<Rightarrow> 'a list \<Rightarrow> 'a list" where
  "copy_within target start stop xs =
     (let to = min target (length xs); at = min start (length xs); n = min (min stop (length xs) - at) (length xs - to)
      in take to xs @ take n (drop at xs) @ drop (to + n) xs)"

definition define_slot :: "nat \<Rightarrow> 'a \<Rightarrow> 'a option list \<Rightarrow> 'a option list" where
  "define_slot i x xs = (if i < length xs then xs[i := Some x] else xs @ replicate (i - length xs) None @ [Some x])"

fun define_slots :: "nat \<Rightarrow> 'a list \<Rightarrow> 'a option list \<Rightarrow> 'a option list" where
  "define_slots i [] xs = xs"
| "define_slots i (y # ys) xs = define_slots (Suc i) ys (define_slot i y xs)"

definition splice_slots :: "nat \<Rightarrow> nat \<Rightarrow> 'a list \<Rightarrow> 'a option list \<Rightarrow> (trusted_error, 'a option list) result" where
  "splice_slots start remove items xs =
     (let old = length xs; delta = int (length items) - int remove in
      if delta > 0 then
        Inr (define_slots start items
          (copy_within (start + length items) (start + remove) old (set_length (old + (length items - remove)) xs)))
      else if delta < 0 then
        (if int old + delta < 0 then Inl (TrustedType ''Invalid array length'')
         else Inr (define_slots start items
           (set_length (old - (remove - length items)) (copy_within (start + length items) (start + remove) old xs))))
      else Inr (define_slots start items xs))"

definition splice_trusted :: "nat \<Rightarrow> nat \<Rightarrow> 'a list \<Rightarrow> 'a list \<Rightarrow> (trusted_error, 'a list) result" where
  "splice_trusted start remove items xs =
     bind_res (splice_slots start remove items (map Some xs))
       (\<lambda>ys. if None \<in> set ys then Inl Outside else Inr (map the ys))"

lemma set_length_take: "length ys = n \<Longrightarrow> set_length n (ys @ zs) = ys"
  by (auto simp: set_length_def)

lemma define_slots_eq:
  "i + length ys \<le> length xs \<Longrightarrow> define_slots i ys xs = take i xs @ map Some ys @ drop (i + length ys) xs"
proof (induction ys arbitrary: i xs)
  case (Cons y ys)
  then show ?case
    by (simp add: define_slot_def take_Suc_conv_app_nth upd_conv_take_nth_drop min_def add.commute)
qed simp

text \<open>Within the array the moves and writes are one splice.\<close>

lemma splice_slots_eq:
  assumes "start + remove \<le> length xs"
  shows "splice_slots start remove items (map Some xs) = Inr (map Some (splice_list start remove items xs))"
proof -
  consider "length items > remove" | "length items < remove" | "length items = remove" by linarith
  then show ?thesis
  proof cases
    case 1
    let ?n = "length items - remove" and ?m = "map Some xs @ replicate (length items - remove) None"
    have s: "set_length (length xs + ?n) (map Some xs) = ?m" by (simp add: set_length_def)
    have n: "min (min (length xs) (length ?m) - min (start + remove) (length ?m)) (length ?m - min (start + length items) (length ?m)) =
        length xs - (start + remove)" "min (start + length items) (length ?m) = start + length items" "min (start + remove) (length ?m) = start + remove"
      using 1 assms by auto
    have c: "copy_within (start + length items) (start + remove) (length xs) ?m =
        take (start + length items) ?m @ map Some (drop (start + remove) xs)"
      using 1 assms n unfolding copy_within_def Let_def n by (simp add: drop_map)
    have l: "length (take (start + length items) ?m) = start + length items" using 1 assms by simp
    have "define_slots start items (take (start + length items) ?m @ map Some (drop (start + remove) xs)) =
        take start (map Some xs) @ map Some items @ map Some (drop (start + remove) xs)"
      using 1 assms l by (subst define_slots_eq) simp_all
    with 1 s c show ?thesis by (simp add: splice_slots_def Let_def splice_list_def take_map)
  next
    case 2
    let ?xs = "map Some xs" and ?k = "start + length items"
    have n: "min (min (length xs) (length ?xs) - min (start + remove) (length ?xs)) (length ?xs - min ?k (length ?xs)) =
        length xs - (start + remove)" "min ?k (length ?xs) = ?k" "min (start + remove) (length ?xs) = start + remove"
      using 2 assms by auto
    have c: "copy_within ?k (start + remove) (length xs) ?xs =
        take ?k ?xs @ drop (start + remove) ?xs @ drop (?k + (length xs - (start + remove))) ?xs"
      unfolding copy_within_def Let_def n using 2 assms by (simp add: min_def)
    have "length (take ?k ?xs @ drop (start + remove) ?xs) = length xs - (remove - length items)" using 2 assms by simp
    then have s: "set_length (length xs - (remove - length items)) (copy_within ?k (start + remove) (length xs) ?xs) =
        take ?k ?xs @ drop (start + remove) ?xs"
      unfolding c by (simp add: set_length_take flip: append_assoc)
    have "define_slots start items (take ?k ?xs @ drop (start + remove) ?xs) =
        take start ?xs @ map Some items @ drop (start + remove) ?xs"
      using 2 assms by (subst define_slots_eq) simp_all
    with 2 s assms show ?thesis by (simp add: splice_slots_def Let_def splice_list_def take_map drop_map)
  next
    case 3
    with assms show ?thesis by (simp add: splice_slots_def define_slots_eq splice_list_def take_map drop_map)
  qed
qed

section \<open>Cells and paths\<close>

fun read_data :: "cell \<Rightarrow> seg \<Rightarrow> (trusted_error, hval option) result" where
  "read_data (HArr vs) (Idx i) = Inr (if i < length vs then Some (vs ! i) else None)"
| "read_data (HArr vs) (Key k) = Inl Outside"
| "read_data (HObj kvs) s =
     (case map_of kvs (seg_text s) of
        Some v \<Rightarrow> Inr (Some v)
      | None \<Rightarrow> if seg_text s = ''__proto__'' then Inl Outside else Inr None)"

fun define_data :: "cell \<Rightarrow> seg \<Rightarrow> hval \<Rightarrow> (trusted_error, cell) result" where
  "define_data (HArr vs) (Idx i) v = (if i \<le> length vs then Inr (HArr (write_arr i v vs)) else Inl Outside)"
| "define_data (HArr vs) (Key k) v = Inl Outside"
| "define_data (HObj kvs) s v = Inr (HObj (obj_put (seg_text s) v kvs))"

definition permute_trusted :: "nat list \<Rightarrow> hval list \<Rightarrow> (trusted_error, hval list) result" where
  "permute_trusted is vs =
     (if length vs \<noteq> length is then Inl (TrustedType ''Trusted permutation length mismatch'')
      else if \<forall>i \<in> set is. i < length vs then Inr (map (\<lambda>i. vs ! i) is) else Inl Outside)"

definition edit_text :: "(string \<Rightarrow> string) \<Rightarrow> string \<Rightarrow> seg \<Rightarrow> cell \<Rightarrow> (trusted_error, cell) result" where
  "edit_text f e key c =
     bind_res (read_data c key) (\<lambda>v. case hval_text v of
        None \<Rightarrow> Inl (TrustedType e)
      | Some t \<Rightarrow> define_data c key (Val (PStr (f t))))"

fun change_trusted :: "hop \<Rightarrow> cell \<Rightarrow> (trusted_error, cell) result" where
  "change_trusted (HP _ i r items) (HArr vs) = bind_res (splice_trusted i r items vs) (\<lambda>vs. Inr (HArr vs))"
| "change_trusted (HM _ is) (HArr vs) = bind_res (permute_trusted is vs) (\<lambda>vs. Inr (HArr vs))"
| "change_trusted (HP _ _ _ _) (HObj _) = Inl (TrustedType ''Trusted array operation target is not an array'')"
| "change_trusted (HM _ _) (HObj _) = Inl (TrustedType ''Trusted array operation target is not an array'')"
| "change_trusted (HS p v) c = define_data c (last p) v"
| "change_trusted (HD p) (HArr vs) =
     (case last p of
        Key _ \<Rightarrow> Inl (TrustedType ''Trusted array deletion key is not numeric'')
      | Idx i \<Rightarrow> bind_res (splice_trusted i 1 [] vs) (\<lambda>vs. Inr (HArr vs)))"
| "change_trusted (HD p) (HObj kvs) = Inr (HObj (obj_del (seg_text (last p)) kvs))"
| "change_trusted (HA p t) c = edit_text (\<lambda>c. c @ t) ''Trusted append target is not a string'' (last p) c"
| "change_trusted (HT p n) c = edit_text (drop n) ''Trusted truncate target is not a string'' (last p) c"
| "change_trusted (HR _) c = Inl Outside"

text \<open>\<open>copyPath\<close> below the copied root, with the destination it ends at.\<close>

fun trusted_down :: "nat \<Rightarrow> path \<Rightarrow> store \<Rightarrow> (trusted_error, nat) result \<times> store" where
  "trusted_down d [] s = (Inr d, s)"
| "trusted_down d (seg # p) s =
     (case read_data (cells s ! d) seg of
        Inl e \<Rightarrow> (Inl e, s)
      | Inr (Some (Ref a)) \<Rightarrow>
          if a \<in> set (owned s) then trusted_down a p s
          else
            (let (b, s1) = new_owned (cells s ! a) s in
             case define_data (cells s1 ! d) seg (Ref b) of
               Inl e \<Rightarrow> (Inl e, s1)
             | Inr c \<Rightarrow> trusted_down b p (put_cell d c s1))
      | _ \<Rightarrow> (Inl (TrustedType ''Trusted operation path is not a container''), s))"

definition copy_path :: "hval \<Rightarrow> path \<Rightarrow> store \<Rightarrow> (trusted_error, hval \<times> nat) result \<times> store" where
  "copy_path root p s =
     (case root of
        Val _ \<Rightarrow> (Inl (TrustedType ''Trusted operation root is not a container''), s)
      | Ref a \<Rightarrow> (let (d, s1) = copy_root a s; (r, s2) = trusted_down d p s1 in (bind_res r (\<lambda>t. Inr (Ref d, t)), s2)))"

text \<open>A leaf operation without a path is not an \<open>Op\<close>.\<close>

definition trusted_step :: "hop \<Rightarrow> hval \<Rightarrow> store \<Rightarrow> (trusted_error, hval) result \<times> store" where
  "trusted_step op root s =
     (case op of
        HR v \<Rightarrow> (Inr v, s)
      | _ \<Rightarrow>
          if (case op of HP _ _ _ _ \<Rightarrow> False | HM _ _ \<Rightarrow> False | _ \<Rightarrow> hop_path op = []) then (Inl Outside, s)
          else
            (case copy_path root (cell_path op) s of
               (Inl e, s1) \<Rightarrow> (Inl e, s1)
             | (Inr (root', t), s1) \<Rightarrow>
                 (case change_trusted op (cells s1 ! t) of
                    Inl e \<Rightarrow> (Inl e, s1)
                  | Inr c \<Rightarrow> (Inr root', put_cell t c s1))))"

fun trusted_ops :: "hop list \<Rightarrow> hval \<Rightarrow> store \<Rightarrow> (trusted_error, hval) result \<times> store" where
  "trusted_ops [] root s = (Inr root, s)"
| "trusted_ops (op # ops) root s =
     (case trusted_step op root s of
        (Inl e, s1) \<Rightarrow> (Inl e, s1)
      | (Inr root', s1) \<Rightarrow> trusted_ops ops root' s1)"

definition apply_immutable_trusted :: "hop list \<Rightarrow> hval \<Rightarrow> cell list \<Rightarrow> (trusted_error, hval) result \<times> cell list" where
  "apply_immutable_trusted ops root h =
     (case trusted_ops ops root \<lparr>cells = h, owned = []\<rparr> of (r, s) \<Rightarrow> (r, cells s))"

section \<open>Agreement with apply\<close>

text \<open>Splices within their arrays, along a run of \<open>apply\<close>.\<close>

definition tight_op :: "op \<Rightarrow> json \<Rightarrow> bool" where
  "tight_op op v = (case op of
     OpP p i r _ \<Rightarrow> (case resolve_value p p v of Inr (Arr xs) \<Rightarrow> i + r \<le> length xs | _ \<Rightarrow> True)
   | _ \<Rightarrow> True)"

fun tight :: "op list \<Rightarrow> json \<Rightarrow> bool" where
  "tight [] v = True"
| "tight (op # ops) v = (tight_op op v \<and> (case apply_op (op_json op) (Some v) of Inr (Some v') \<Rightarrow> tight ops v' | _ \<Rightarrow> True))"

lemma splice_trusted_eq: "start + remove \<le> length xs \<Longrightarrow> splice_trusted start remove items xs = Inr (splice_list start remove items xs)"
  by (auto simp: splice_trusted_def splice_slots_eq comp_def)

lemma define_leaf: "i \<le> length vs \<Longrightarrow> define_data (HArr vs) (Idx i) v = Inr (HArr (write_arr i v vs))"
  by simp

lemma read_text:
  "hval_text (map_of kvs (seg_text s)) = Some c \<Longrightarrow> read_data (HObj kvs) s = Inr (map_of kvs (seg_text s))"
  by (cases s; cases "map_of kvs (seg_text s)") auto

lemma change_leaf_trusted:
  assumes "leaf_cell hop p (last p) c = Inr c'" "hop \<in> {HS p v, HD p, HA p t, HT p n}"
  shows "change_trusted hop c = Inr c'"
proof (cases c)
  case (HArr vs)
  with assms obtain i where i: "last p = Idx i" "i \<le> length vs" by (cases "last p") (auto split: if_splits)
  with assms HArr show ?thesis
    by (auto simp: edit_text_def splice_trusted_eq res_simps split: option.splits if_splits)
next
  case (HObj kvs)
  have k: "leaf_cell hop p (last p) c = bind_res (leaf_object hop p (seg_text (last p)) kvs) (\<lambda>kvs. Inr (HObj kvs))"
    "\<And>v. define_data c (last p) v = Inr (HObj (obj_put (seg_text (last p)) v kvs))" using HObj by (cases "last p"; simp)+
  with assms HObj read_text[of kvs "last p"] show ?thesis
    by (auto simp: edit_text_def Let_def split: option.splits)
qed

lemma change_trusted_ok:
  assumes c: "change_cell hop c = Inr c'" and ok: "op_ok (hop_shape hop)" "\<not> is_replace (hop_shape hop)"
    and t: "\<And>p i r items vs. hop = HP p i r items \<Longrightarrow> c = HArr vs \<Longrightarrow> i + r \<le> length vs"
  shows "change_trusted hop c = Inr c'"
proof (cases hop)
  case (HP p i r items)
  with c t show ?thesis by (cases c) (auto simp: change_cell_def splice_trusted_eq splice_op_eq)
next
  case (HM p "is")
  with c ok show ?thesis by (cases c) (auto simp: change_cell_def permute_trusted_def is_permutation_def split: if_splits)
next
  case (HS p v)
  with c change_leaf_trusted[of hop p c c' v] show ?thesis by (simp add: change_cell_def)
next
  case (HD p)
  with c change_leaf_trusted[of hop p c c'] show ?thesis by (simp add: change_cell_def)
next
  case (HA p t)
  with c change_leaf_trusted[of hop p c c' _ t] show ?thesis by (simp add: change_cell_def)
next
  case (HT p n)
  with c change_leaf_trusted[of hop p c c' _ _ n] show ?thesis by (simp add: change_cell_def)
qed (use ok in \<open>simp add: is_replace_def\<close>)

lemma trusted_down_ok:
  "copy_down full d p s = (Inr t, s') \<Longrightarrow> d < length (cells s) \<Longrightarrow> set (owned s) \<subseteq> {..<length (cells s)} \<Longrightarrow>
     trusted_down d p s = (Inr t, s')"
proof (induction p arbitrary: d s)
  case (Cons seg p)
  from Cons.prems(1) obtain a where c: "child (cells s ! d) seg = Some (Ref a)"
    by (auto simp: Let_def split: if_splits option.splits hval.splits)
  then have r: "read_data (cells s ! d) seg = Inr (Some (Ref a))"
    "\<And>v. define_data (cells s ! d) seg v = Inr (put_child seg v (cells s ! d))"
    by (cases "cells s ! d"; cases seg; auto split: if_splits)+
  note own = has_own_child[OF c]
  show ?case
  proof (cases "a \<in> set (owned s)")
    case True
    then have "a < length (cells s)" using Cons.prems(3) by blast
    with True Cons.prems c own r(1) Cons.IH[of a s] show ?thesis by (simp add: Let_def)
  next
    case False
    define s1 where "s1 = snd (new_owned (cells s ! a) s)"
    let ?b = "length (cells s)" and ?s2 = "put_cell d (put_child seg (Ref (length (cells s))) (cells s ! d)) s1"
    have s1: "new_owned (cells s ! a) s = (?b, s1)" "cells s1 ! d = cells s ! d" "length (cells s1) = Suc ?b"
      using Cons.prems(2) by (simp_all add: s1_def nth_append new_owned_def)
    have "copy_down full ?b p ?s2 = (Inr t, s')" using False Cons.prems(1) c own s1(1,2) by (simp add: Let_def)
    moreover have "set (owned ?s2) \<subseteq> {..<length (cells ?s2)}"
      using Cons.prems(3) by (auto simp: s1_def put_cell_def new_owned_def)
    ultimately have "trusted_down ?b p ?s2 = (Inr t, s')" using s1(3) by (intro Cons.IH) simp_all
    with False r s1(1,2) show ?thesis by simp
  qed
qed simp

lemma copy_path_ok:
  assumes inv: "replay_inv h0 s" and o: "own h0 (cells s) v j {length h0..<length (cells s)}"
    and c: "copy_containers (Some v) p s = (Inr root', s')"
  shows "\<exists>d t. root' = Ref d \<and> copy_path v p s = (Inr (Ref d, t), s') \<and> copied h0 s s' p d j {length h0..<length (cells s)} t"
proof -
  have sub: "{length h0..<length (cells s)} \<subseteq> {..<length (cells s)}" by auto
  from copy_containers_ok[OF inv o sub c] obtain a d s1 t where d: "v = Ref a" "root' = Ref d" "copy_root a s = (d, s1)"
    "copy_down p d p s1 = (Inr t, s')" "copied h0 s s' p d j {length h0..<length (cells s)} t" by auto
  have a: "a < length (cells s)" using replay_owned(2)[OF inv] o d(1) by blast
  have "d < length (cells s1)" "set (owned s1) \<subseteq> {..<length (cells s1)}"
    using d(3) a inv by (auto simp: copy_root_def new_owned_def replay_inv_def split: if_splits)
  from trusted_down_ok[OF d(4) this] d show ?thesis by (auto simp: copy_path_def)
qed

lemma tight_change:
  assumes f: "focus h0 h (cell_path hop) (Ref d) j t x T R g" and d: "hop_den h0 hop op" and ok: "op_ok op"
    and nr: "\<not> is_replace op" and tight: "tight_op op j" and c: "change_cell hop (h ! t) = Inr c'"
  shows "change_trusted hop (h ! t) = Inr c'"
proof (rule change_trusted_ok[OF c])
  show "op_ok (hop_shape hop)" "\<not> is_replace (hop_shape hop)" using d ok nr hop_den_ok by (cases hop; auto simp: is_replace_def)+
  fix p i n items vs assume hp: "hop = HP p i n items" "h ! t = HArr vs"
  from f have t: "own h0 h (Ref t) x T" "length h0 \<le> t" by (simp_all add: focus_def)
  from own_cell[OF t] obtain B where "holds h0 h (HArr vs) x B" using hp(2) by metis
  then obtain ks where "x = Arr ks" "length ks = length vs" by (cases x) (auto simp: holds_def dest: own_length)
  moreover have "resolve_value p p j = Inr x" using f hp(1) by (simp add: focus_def cell_path_def)
  ultimately show "i + n \<le> length vs" using tight d hp(1) by (auto simp: tight_op_def)
qed

lemma trusted_step_ok:
  assumes inv: "replay_inv h0 s" and o: "own h0 (cells s) v j {length h0..<length (cells s)}"
    and d: "hop_den h0 hop op" and r: "apply_op (op_json op) (Some j) = Inr (Some j')" and tight: "tight_op op j"
  shows "\<exists>v' s'. trusted_step hop v s = (Inr v', s') \<and> replay_inv h0 s' \<and> own h0 (cells s') v' j' {length h0..<length (cells s')}"
proof (cases "is_replace op")
  case True
  with d obtain w x where w: "hop = HR w" "op = OpR x" "den h0 w x" by (cases hop) (auto simp: is_replace_def)
  with r apply_op_json_ok[of "OpR x" "Some j"] have "x = j'" by simp
  with w inv show ?thesis by (auto simp: trusted_step_def intro: own_old)
next
  case nr: False
  have ok: "op_ok op" using r assert_valid_op_not_ok by (force simp: apply_op_def)
  then have st: "step_op op (Some j) = Inr (Some j')" using r by (simp add: apply_op_json_ok)
  obtain r1 s1 where c: "copy_containers (Some v) (cell_path hop) s = (r1, s1)" by fastforce
  obtain root' where r1: "r1 = Inr root'"
  proof (cases r1)
    case (Inl e)
    have "keeps h0 s1 (Inl e) (step_op op (Some j))"
      using c Inl by (intro copy_step_ok[OF inv o d ok nr]) simp
    with st show ?thesis by simp
  qed
  note c = c[unfolded r1]
  from copy_path_ok[OF inv o c] obtain d1 t where p: "root' = Ref d1" "copy_path v (cell_path hop) s = (Inr (Ref d1, t), s1)"
    "copied h0 s s1 (cell_path hop) d1 j {length h0..<length (cells s)} t" by blast
  have sub: "{length h0..<length (cells s)} \<subseteq> {..<length (cells s)}" by auto
  have g: "replay_inv h0 s1" "length (cells s) \<le> length (cells s1)" using copy_containers_ok[OF inv o sub c] by (simp_all add: grown_def)
  obtain r2 s2 where ip: "apply_in_place hop (Some (Ref d1)) s1 = (r2, s2)" by fastforce
  from in_place_ok[OF g(1) p(3) _ d ok nr ip, of "{length h0..<length (cells s1)}"] g(2) st replay_len[OF inv]
  have i: "replay_inv h0 s2" "r2 = Inr (Some (Ref d1))" "own h0 (cells s2) (Ref d1) j' {length h0..<length (cells s1)}"
    "length (cells s2) = length (cells s1)" by (auto split: sum.splits)
  from p(3) obtain x T R g where f: "focus h0 (cells s1) (cell_path hop) (Ref d1) j t x T R g" unfolding copied_def by blast
  then have "resolve_ref (cell_path hop) (cells s1) (Some (Ref d1)) = Inr t" by (simp add: resolve_ref_def focus_def)
  with ip i(2) obtain c' where c': "change_cell hop (cells s1 ! t) = Inr c'" "s2 = put_cell t c' s1"
    by (auto simp: apply_in_place_def split: sum.splits)
  from tight_change[OF f d ok nr tight c'(1)] have "change_trusted hop (cells s1 ! t) = Inr c'" .
  moreover have "\<not> (case hop of HP _ _ _ _ \<Rightarrow> False | HM _ _ \<Rightarrow> False | _ \<Rightarrow> hop_path hop = [])" "\<And>w. hop \<noteq> HR w"
    using d ok nr by (cases hop; auto simp: is_replace_def)+
  ultimately have "trusted_step hop v s = (Inr (Ref d1), s2)" using p(2) c'(2) unfolding trusted_step_def by (cases hop) simp_all
  with i show ?thesis by auto
qed

lemma trusted_ops_ok:
  "replay_inv h0 s \<Longrightarrow> own h0 (cells s) v j {length h0..<length (cells s)} \<Longrightarrow> list_all2 (hop_den h0) hops ops \<Longrightarrow>
     apply_ops (Some j) ops = Inr (Some j') \<Longrightarrow> tight ops j \<Longrightarrow>
     \<exists>v' s'. trusted_ops hops v s = (Inr v', s') \<and> replay_inv h0 s' \<and> own h0 (cells s') v' j' {length h0..<length (cells s')}"
proof (induction hops arbitrary: s v j ops)
  case (Cons hop hops)
  then obtain op ops' where op: "ops = op # ops'" "hop_den h0 hop op" "list_all2 (hop_den h0) hops ops'" by (cases ops) auto
  from Cons.prems(4) op(1) obtain r where r: "apply_op (op_json op) (Some j) = Inr r" "apply_ops r ops' = Inr (Some j')"
    by (auto simp: apply_ops_Cons res_simps)
  then obtain j1 where j1: "r = Some j1" by (auto simp: apply_op_def res_simps dest: step_op_Some)
  from Cons.prems(5) r(1) j1 op(1) have t: "tight_op op j" "tight ops' j1" by simp_all
  from trusted_step_ok[OF Cons.prems(1,2) op(2) r(1)[unfolded j1] t(1)] obtain v1 s1 where
    s1: "trusted_step hop v s = (Inr v1, s1)" "replay_inv h0 s1" "own h0 (cells s1) v1 j1 {length h0..<length (cells s1)}" by blast
  from Cons.IH[OF s1(2,3) op(3) r(2)[unfolded j1] t(2)] s1(1) show ?case by simp
qed auto

text \<open>
  C32: The trusted applier agrees with \<open>apply\<close>. On a batch that \<open>apply\<close> accepts and whose splices stay
  within their arrays, \<open>applyImmutableTrusted\<close> never throws, returns a value that denotes the document
  \<open>apply\<close> gives, and leaves every container that was there before as it was.
\<close>

theorem trusted_refines:
  assumes "den h v j" "list_all2 (hop_den h) hops ops" "apply_ops (Some j) ops = Inr (Some j')" "tight ops j"
  shows "\<exists>v' h'. apply_immutable_trusted hops v h = (Inr v', h') \<and> den h' v' j' \<and> take (length h) h' = h"
proof -
  let ?s = "\<lparr>cells = h, owned = []\<rparr>"
  have "replay_inv h ?s" by (simp add: replay_inv_def)
  moreover have "own h (cells ?s) v j {length h..<length (cells ?s)}" using assms(1) by (rule own_old)
  ultimately obtain v' s' where s': "trusted_ops hops v ?s = (Inr v', s')" "replay_inv h s'"
    "own h (cells s') v' j' {length h..<length (cells s')}" using trusted_ops_ok[OF _ _ assms(2-4)] by blast
  then show ?thesis using own_den(1)[OF s'(3)] by (simp add: apply_immutable_trusted_def replay_inv_def)
qed

theorem trusted_refines_witness:
  "\<exists>v' h'. apply_immutable_trusted (concat shared_batches) (Ref 0) shared_heap = (Inr v', h') \<and>
     den h' v' (Obj [(''a'', Arr [Prim PNull, Obj [(''c'', Prim (PStr ''x''))]]), (''b'', Arr [Prim PNull])]) \<and>
     take (length shared_heap) h' = shared_heap"
proof (rule trusted_refines[OF shared_den(3)])
  show "list_all2 (hop_den shared_heap) (concat shared_batches) (concat shared_ops)"
    using list_all2_concat[OF shared_den(2)] .
qed code_simp+

end
