(* ===== verification/Revision_Validator.thy ===== *)
theory Revision_Validator
  imports Json_Value
begin

text \<open>
  \<open>JsonRevisionValidator\<close> of \<open>packages/chord/src/delta/revision-validator.ts\<close>: whether a replica's
  revision is strict JSON, remembering the containers of earlier revisions in a weak set.
\<close>

section \<open>Values before they are known to be JSON\<close>

text \<open>
  \<open>RBad\<close> is a primitive that is not JSON, \<open>undefined\<close> apart: a number that is not finite, a bigint, a
  symbol or a function. A slot is a property as its descriptor shows it.
\<close>

datatype raw = RPrim prim | RUndefined | RBad | RRef nat

datatype slot = Data raw | Other

datatype prop_key = Text_Key string | Symbol_Key

text \<open>An array may have holes and own keys beside its indexes and its length.\<close>

datatype raw_cell = RArray "slot option list" "prop_key list" | RObject bool "(prop_key \<times> slot) list"

type_synonym raw_heap = "raw_cell list"

datatype revision_error =
    NotStrict
  | Cyclic
  | NotPlain
  | SymbolProperty
  | NotDataProperty
  | NotDense
  | NotIndexed

fun assert_primitive :: "raw \<Rightarrow> (revision_error, unit) result" where
  "assert_primitive (RPrim p) = Inr ()"
| "assert_primitive _ = Inl NotStrict"

definition dense_slot :: "slot option \<Rightarrow> bool" where
  "dense_slot s = (case s of Some (Data v) \<Rightarrow> v \<noteq> RUndefined | _ \<Rightarrow> False)"

definition assert_dense_array :: "slot option list \<Rightarrow> prop_key list \<Rightarrow> (revision_error, unit) result" where
  "assert_dense_array slots extra =
     (let keys = length (filter (\<lambda>s. s \<noteq> None) slots) + 1 + length extra in
      if keys \<noteq> length slots + 1 \<or> Symbol_Key \<in> set extra then Inl NotDense
      else if \<forall>s \<in> set slots. dense_slot s then Inr () else Inl NotIndexed)"

text \<open>What the loop over a container does at each of its properties: it throws or goes on to the value.\<close>

fun prop_step :: "prop_key \<times> slot \<Rightarrow> (revision_error, raw) result" where
  "prop_step (Symbol_Key, s) = Inl SymbolProperty"
| "prop_step (Text_Key k, Other) = Inl NotDataProperty"
| "prop_step (Text_Key k, Data v) = Inr v"

definition item_step :: "slot option \<Rightarrow> (revision_error, raw) result" where
  "item_step s = (case s of Some (Data v) \<Rightarrow> Inr v | _ \<Rightarrow> Inr RUndefined)"

fun cell_steps :: "raw_cell \<Rightarrow> (revision_error, (revision_error, raw) result list) result" where
  "cell_steps (RArray slots extra) = bind_res (assert_dense_array slots extra) (\<lambda>_. Inr (map item_step slots))"
| "cell_steps (RObject plain props) = (if plain then Inr (map prop_step props) else Inl NotPlain)"

text \<open>The sets \<open>finished\<close> of one call and \<open>validated\<close> of the validator, which keeps what it got on an error.\<close>

record validation =
  finished :: "nat list"
  validated :: "nat list"

definition finish :: "nat \<Rightarrow> validation \<Rightarrow> validation" where
  "finish a s = s\<lparr>finished := a # finished s, validated := a # validated s\<rparr>"

lemma fewer_left: "a < n \<Longrightarrow> a \<notin> set xs \<Longrightarrow> card ({..<n} - set (a # xs)) < card ({..<n::nat} - set xs)"
  by (rule psubset_card_mono) auto

text \<open>\<open>#validate\<close>. A reference is the index of its container; one beyond the heap stands for no object.\<close>

function validate_value :: "raw_heap \<Rightarrow> nat list \<Rightarrow> validation \<Rightarrow> raw \<Rightarrow> (revision_error, unit) result \<times> validation"
  and validate_steps :: "raw_heap \<Rightarrow> nat list \<Rightarrow> validation \<Rightarrow> (revision_error, raw) result list \<Rightarrow>
    (revision_error, unit) result \<times> validation" where
  "validate_value h ancestors s v =
     (case v of
        RRef a \<Rightarrow>
          if a \<ge> length h then (Inl NotStrict, s)
          else if a \<in> set (validated s) then (Inr (), s)
          else if a \<in> set (finished s) then (Inr (), s)
          else if a \<in> set ancestors then (Inl Cyclic, s)
          else
            (case cell_steps (h ! a) of
               Inl e \<Rightarrow> (Inl e, s)
             | Inr steps \<Rightarrow>
                 (case validate_steps h (a # ancestors) s steps of
                    (Inl e, s1) \<Rightarrow> (Inl e, s1)
                  | (Inr _, s1) \<Rightarrow> (Inr (), finish a s1)))
      | _ \<Rightarrow> (assert_primitive v, s))"
| "validate_steps h ancestors s [] = (Inr (), s)"
| "validate_steps h ancestors s (step # steps) =
     (case step of
        Inl e \<Rightarrow> (Inl e, s)
      | Inr v \<Rightarrow>
          (case validate_value h ancestors s v of
             (Inl e, s1) \<Rightarrow> (Inl e, s1)
           | (Inr _, s1) \<Rightarrow> validate_steps h ancestors s1 steps))"
  by pat_completeness auto

termination
  by (relation "inv_image (less_than <*lex*> less_than)
      (\<lambda>x. case x of Inl (h, anc, s, v) \<Rightarrow> (card ({..<length h} - set anc), 0)
         | Inr (h, anc, s, xs) \<Rightarrow> (card ({..<length h} - set anc), Suc (length xs)))")
    (auto simp: fewer_left simp del: list.set)

text \<open>\<open>validate\<close>, with the containers validated so far.\<close>

definition validate :: "raw_heap \<Rightarrow> nat list \<Rightarrow> raw \<Rightarrow> (revision_error, unit) result \<times> nat list" where
  "validate h known v = (case validate_value h [] \<lparr>finished = [], validated = known\<rparr> v of (r, s) \<Rightarrow> (r, validated s))"

declare validate_value.simps [simp del]

section \<open>Strict JSON\<close>

inductive raw_json :: "raw_heap \<Rightarrow> raw \<Rightarrow> json \<Rightarrow> bool" for h where
  raw_prim: "raw_json h (RPrim p) (Prim p)"
| raw_arr: "a < length h \<Longrightarrow> h ! a = RArray (map (\<lambda>v. Some (Data v)) vs) [] \<Longrightarrow> list_all2 (raw_json h) vs js \<Longrightarrow>
    raw_json h (RRef a) (Arr js)"
| raw_obj: "a < length h \<Longrightarrow> h ! a = RObject True (map (\<lambda>(k, v). (Text_Key k, Data v)) kvs) \<Longrightarrow>
    map fst kvs = map fst js \<Longrightarrow> list_all2 (raw_json h) (map snd kvs) (map snd js) \<Longrightarrow> raw_json h (RRef a) (Obj js)"

inductive_cases raw_refE: "raw_json h (RRef a) j"

definition denotes :: "raw_heap \<Rightarrow> raw \<Rightarrow> bool" where
  "denotes h v \<longleftrightarrow> (\<exists>j. raw_json h v j)"

lemma list_all2_unique: "list_all2 (\<lambda>v j. P v j \<and> (\<forall>j'. P v j' \<longrightarrow> j' = j)) vs js \<Longrightarrow> list_all2 P vs js' \<Longrightarrow> js' = js"
  by (intro nth_equalityI) (auto simp: list_all2_conv_all_nth)

lemma raw_json_unique: "raw_json h v j \<Longrightarrow> raw_json h v j' \<Longrightarrow> j' = j"
proof (induction arbitrary: j' rule: raw_json.induct)
  case (raw_prim p)
  then show ?case by (cases rule: raw_json.cases) auto
next
  case (raw_arr a vs js)
  from raw_arr.prems raw_arr.hyps(2) obtain vs' js' where j': "j' = Arr js'" "list_all2 (raw_json h) vs' js'"
    "map (\<lambda>v. Some (Data v)) vs' = map (\<lambda>v. Some (Data v)) vs" by (cases rule: raw_json.cases) auto
  have "vs' = vs" using j'(3) by (simp add: inj_map_eq_map inj_def)
  with list_all2_unique[OF raw_arr.IH] j'(1,2) show ?case by simp
next
  case (raw_obj a kvs js)
  from raw_obj.prems raw_obj.hyps(2) obtain kvs' js' where j': "j' = Obj js'" "map fst kvs' = map fst js'"
    "list_all2 (raw_json h) (map snd kvs') (map snd js')"
    "map (\<lambda>(k, v). (Text_Key k, Data v)) kvs' = map (\<lambda>(k, v). (Text_Key k, Data v)) kvs" by (cases rule: raw_json.cases) auto
  have "inj (\<lambda>(k, v). (Text_Key k, Data v))" by (auto simp: inj_def)
  with j'(4) have k: "kvs' = kvs" by (simp add: inj_map_eq_map)
  with list_all2_unique[OF raw_obj.IH] j'(3) have "map snd js' = map snd js" by simp
  moreover have "map fst js' = map fst js" using j'(2) k raw_obj.hyps(3) by simp
  ultimately have "js' = js" by (metis zip_map_fst_snd)
  with j'(1) show ?case by simp
qed

text \<open>A container denotes JSON when each of its properties goes on to a value that does.\<close>

definition step_denotes :: "raw_heap \<Rightarrow> (revision_error, raw) result \<Rightarrow> bool" where
  "step_denotes h st \<longleftrightarrow> (case st of Inl _ \<Rightarrow> False | Inr v \<Rightarrow> denotes h v)"

lemma not_undefined: "denotes h v \<Longrightarrow> v \<noteq> RUndefined"
  by (auto simp: denotes_def elim: raw_json.cases)

lemma denotes_list: "\<forall>v \<in> set vs. denotes h v \<Longrightarrow> \<exists>js. list_all2 (raw_json h) vs js"
proof (induction vs)
  case (Cons v vs)
  then obtain j js where "raw_json h v j" "list_all2 (raw_json h) vs js" by (auto simp: denotes_def)
  then have "list_all2 (raw_json h) (v # vs) (j # js)" by simp
  then show ?case by blast
qed auto

lemma dense_slots:
  "assert_dense_array slots extra = Inr () \<Longrightarrow> extra = [] \<and> (\<exists>vs. slots = map (\<lambda>v. Some (Data v)) vs)"
proof -
  assume a: "assert_dense_array slots extra = Inr ()"
  then have d: "\<forall>s \<in> set slots. dense_slot s" and k: "length (filter (\<lambda>s. s \<noteq> None) slots) + length extra = length slots"
    by (auto simp: assert_dense_array_def Let_def split: if_splits)
  from d have "filter (\<lambda>s. s \<noteq> None) slots = slots" by (auto simp: filter_id_conv dense_slot_def split: option.splits)
  with k have "extra = []" by simp
  moreover have "\<exists>vs. slots = map (\<lambda>v. Some (Data v)) vs"
    using d
  proof (induction slots)
    case (Cons s slots)
    then obtain v vs where "s = Some (Data v)" "slots = map (\<lambda>v. Some (Data v)) vs"
      by (auto simp: dense_slot_def split: option.splits slot.splits)
    then show ?case by (intro exI[of _ "v # vs"]) simp
  qed simp
  ultimately show ?thesis by simp
qed

lemma cell_denotes:
  assumes "a < length h" "cell_steps (h ! a) = Inr steps" "list_all (step_denotes h) steps"
  shows "denotes h (RRef a)"
proof (cases "h ! a")
  case (RArray slots extra)
  with assms(2) have s: "assert_dense_array slots extra = Inr ()" "steps = map item_step slots" by (auto simp: res_simps)
  from dense_slots[OF s(1)] obtain vs where vs: "extra = []" "slots = map (\<lambda>v. Some (Data v)) vs" by blast
  with s(2) assms(3) have "\<forall>v \<in> set vs. denotes h v" by (simp add: list_all_iff step_denotes_def item_step_def)
  from denotes_list[OF this] RArray vs assms(1) show ?thesis unfolding denotes_def by (blast intro: raw_arr)
next
  case (RObject plain props)
  with assms(2) have p: "plain" "steps = map prop_step props" by (auto split: if_splits)
  have "\<exists>kvs. props = map (\<lambda>(k, v). (Text_Key k, Data v)) kvs \<and> (\<forall>(k, v) \<in> set kvs. denotes h v)"
    using assms(3) unfolding p(2)
  proof (induction props)
    case (Cons x props)
    then obtain kvs where kvs: "props = map (\<lambda>(k, v). (Text_Key k, Data v)) kvs" "\<forall>(k, v) \<in> set kvs. denotes h v" by auto
    from Cons.prems obtain k v where "x = (Text_Key k, Data v)" "denotes h v"
      by (cases x rule: prop_step.cases) (auto simp: step_denotes_def)
    with kvs show ?case by (intro exI[of _ "(k, v) # kvs"]) simp
  qed simp
  then obtain kvs where kvs: "props = map (\<lambda>(k, v). (Text_Key k, Data v)) kvs" "\<forall>(k, v) \<in> set kvs. denotes h v" by blast
  from kvs(2) have "\<forall>v \<in> set (map snd kvs). denotes h v" by auto
  from denotes_list[OF this] obtain xs where xs: "list_all2 (raw_json h) (map snd kvs) xs" ..
  let ?js = "zip (map fst kvs) xs"
  have "map fst kvs = map fst ?js" "map snd ?js = xs" using list_all2_lengthD[OF xs] by simp_all
  with xs RObject p(1) kvs(1) assms(1) have "raw_json h (RRef a) (Obj ?js)" by (intro raw_obj[where kvs = kvs]) simp_all
  then show ?thesis by (auto simp: denotes_def)
qed

section \<open>The validator is exact\<close>

definition known_ok :: "raw_heap \<Rightarrow> nat list \<Rightarrow> bool" where
  "known_ok h as \<longleftrightarrow> (\<forall>a \<in> set as. denotes h (RRef a))"

lemma denotes_inside: "denotes h (RRef a) \<Longrightarrow> a < length h"
  by (auto simp: denotes_def elim: raw_refE)

lemma validation_sound:
  "known_ok h (validated s) \<Longrightarrow> known_ok h (finished s) \<Longrightarrow> validate_value h anc s v = (r, s') \<Longrightarrow>
     known_ok h (validated s') \<and> known_ok h (finished s') \<and> (r = Inr () \<longrightarrow> denotes h v)"
  "known_ok h (validated s) \<Longrightarrow> known_ok h (finished s) \<Longrightarrow> validate_steps h anc s steps = (r, s') \<Longrightarrow>
     known_ok h (validated s') \<and> known_ok h (finished s') \<and> (r = Inr () \<longrightarrow> list_all (step_denotes h) steps)"
proof (induction h anc s v and h anc s steps arbitrary: r s' and r s' rule: validate_value_validate_steps.induct)
  case (1 h anc s v)
  show ?case
  proof (cases v)
    case (RRef a)
    show ?thesis
    proof (cases "a < length h \<and> a \<notin> set (validated s) \<and> a \<notin> set (finished s) \<and> a \<notin> set anc")
      case True
      show ?thesis
      proof (cases "cell_steps (h ! a)")
        case (Inl e)
        with 1(2-4) RRef True show ?thesis by (auto simp: validate_value.simps)
      next
        case (Inr steps)
        obtain r1 s1 where s1: "validate_steps h (a # anc) s steps = (r1, s1)" by fastforce
        from 1(1)[OF RRef _ _ _ _ Inr 1(2,3) s1] True
        have i: "known_ok h (validated s1)" "known_ok h (finished s1)" "r1 = Inr () \<Longrightarrow> list_all (step_denotes h) steps" by auto
        with cell_denotes[OF _ Inr] True 1(4) RRef Inr s1 show ?thesis
          by (cases r1) (auto simp: validate_value.simps finish_def known_ok_def)
      qed
    next
      case False
      with 1(2-4) RRef show ?thesis by (auto simp: validate_value.simps known_ok_def split: if_splits)
    qed
  next
    case (RPrim q)
    with 1(2-4) show ?thesis by (auto simp: validate_value.simps denotes_def intro: raw_prim)
  qed (use 1(2-4) in \<open>auto simp: validate_value.simps\<close>)
next
  case (2 h anc s)
  then show ?case by simp
next
  case (3 h anc s step steps)
  show ?case
  proof (cases step)
    case (Inl e)
    with 3(3-5) show ?thesis by auto
  next
    case (Inr v)
    obtain r1 s1 where s1: "validate_value h anc s v = (r1, s1)" by fastforce
    note i = 3(1)[OF Inr 3(3,4) s1]
    show ?thesis
    proof (cases r1)
      case (Inl e)
      with i 3(5) Inr s1 \<open>step = Inr v\<close> show ?thesis by auto
    next
      case (Inr u)
      with 3(5) s1 \<open>step = Inr v\<close> have "validate_steps h anc s1 steps = (r, s')" by simp
      from 3(2)[OF \<open>step = Inr v\<close> s1[symmetric] Inr _ _ this] i Inr show ?thesis
        by (auto simp: step_denotes_def \<open>step = Inr v\<close>)
    qed
  qed
qed

text \<open>A value that denotes JSON is never below itself, so its walk meets no cycle.\<close>

definition child_of :: "raw_heap \<Rightarrow> json \<Rightarrow> (revision_error, raw) result \<Rightarrow> bool" where
  "child_of h j st \<longleftrightarrow> (\<exists>v k. st = Inr v \<and> raw_json h v k \<and> size k < size j)"

lemma size_in_list: "k \<in> set js \<Longrightarrow> size k \<le> size_list size js"
  by (induction js) auto

lemma size_arr: "k \<in> set js \<Longrightarrow> size k < size (Arr js)"
  using size_in_list[of k js] by simp

lemma size_obj: "k \<in> set (map snd js) \<Longrightarrow> size k < size (Obj js)"
  by (induction js) (fastforce simp: image_iff)+

lemma list_all2_in: "list_all2 P vs js \<Longrightarrow> v \<in> set vs \<Longrightarrow> \<exists>j \<in> set js. P v j"
  by (induction rule: list_all2_induct) auto

lemma json_steps:
  assumes "raw_json h (RRef a) j"
  shows "\<exists>steps. cell_steps (h ! a) = Inr steps \<and> list_all (child_of h j) steps"
  using assms
proof (cases rule: raw_json.cases)
  case 1: (raw_arr vs js)
  have u: "v \<noteq> RUndefined" if "v \<in> set vs" for v
    using list_all2_in[OF 1(4) that] not_undefined by (auto simp: denotes_def)
  have "assert_dense_array (map (\<lambda>v. Some (Data v)) vs) [] = Inr ()"
    using u by (auto simp: assert_dense_array_def dense_slot_def Let_def filter_id_conv comp_def)
  moreover have "child_of h j (item_step (Some (Data v)))" if "v \<in> set vs" for v
    using list_all2_in[OF 1(4) that] size_arr 1(1) by (auto simp: child_of_def item_step_def)
  ultimately show ?thesis using 1(3) by (simp add: list_all_iff)
next
  case 2: (raw_obj kvs js)
  have "child_of h j (prop_step (Text_Key k, Data v))" if "(k, v) \<in> set kvs" for k v
  proof -
    from that have "v \<in> set (map snd kvs)" by force
    from list_all2_in[OF 2(5) this] size_obj 2(1) show ?thesis unfolding child_of_def by auto
  qed
  then show ?thesis using 2(3) by (auto simp: list_all_iff)
qed

definition above :: "raw_heap \<Rightarrow> nat list \<Rightarrow> json \<Rightarrow> bool" where
  "above h anc j \<longleftrightarrow> (\<forall>b \<in> set anc. \<forall>k. raw_json h (RRef b) k \<longrightarrow> size j < size k)"

lemma validation_complete:
  "raw_json h v j \<Longrightarrow> above h anc j \<Longrightarrow> fst (validate_value h anc s v) = Inr ()"
  "list_all (\<lambda>st. \<exists>v j. st = Inr v \<and> raw_json h v j \<and> above h anc j) steps \<Longrightarrow> fst (validate_steps h anc s steps) = Inr ()"
proof (induction h anc s v and h anc s steps arbitrary: j and rule: validate_value_validate_steps.induct)
  case (1 h anc s v)
  show ?case
  proof (cases v)
    case (RRef a)
    have a: "a < length h" using 1(2) denotes_inside unfolding RRef denotes_def by blast
    have na: "a \<notin> set anc" using 1(2,3) unfolding RRef above_def by blast
    show ?thesis
    proof (cases "a \<in> set (validated s) \<or> a \<in> set (finished s)")
      case False
      from json_steps[OF 1(2)[unfolded RRef]] obtain steps where
        st: "cell_steps (h ! a) = Inr steps" "list_all (child_of h j) steps" by blast
      have "above h (a # anc) k" if "size k < size j" for k
        unfolding above_def
      proof (intro ballI allI impI)
        fix b k' assume b: "b \<in> set (a # anc)" "raw_json h (RRef b) k'"
        show "size k < size k'"
        proof (cases "b = a")
          case True
          with raw_json_unique[OF 1(2)[unfolded RRef]] b(2) that show ?thesis by blast
        next
          case False
          with b 1(3) that show ?thesis unfolding above_def by force
        qed
      qed
      with st(2) have "list_all (\<lambda>st. \<exists>v j. st = Inr v \<and> raw_json h v j \<and> above h (a # anc) j) steps"
        unfolding list_all_iff child_of_def by blast
      from 1(1)[OF RRef _ _ _ na st(1) this] a False have "fst (validate_steps h (a # anc) s steps) = Inr ()" by auto
      with RRef a na False st(1) show ?thesis by (auto simp: validate_value.simps split: prod.split sum.split)
    qed (use RRef a in \<open>auto simp: validate_value.simps\<close>)
  next
    case RUndefined
    with 1(2) not_undefined show ?thesis unfolding denotes_def by blast
  next
    case RBad
    with 1(2) show ?thesis by (auto elim: raw_json.cases)
  qed (simp add: validate_value.simps)
next
  case (3 h anc s step steps)
  then obtain v j where v: "step = Inr v" "raw_json h v j" "above h anc j" by auto
  obtain r1 s1 where s1: "validate_value h anc s v = (r1, s1)" by fastforce
  with 3(1)[OF v] have r1: "r1 = Inr ()" by simp
  from 3(2)[OF v(1) s1[symmetric] r1] 3(3) s1 r1 v(1) show ?case by simp
qed simp

lemma validate_exact:
  assumes "known_ok h known" "validate h known v = (r, known')"
  shows "known_ok h known'" "r = Inr () \<longleftrightarrow> denotes h v"
proof -
  let ?s = "\<lparr>finished = [], validated = known\<rparr>"
  obtain s' where s': "validate_value h [] ?s v = (r, s')" "known' = validated s'"
    using assms(2) by (auto simp: validate_def split: prod.splits)
  have "known_ok h (validated ?s)" "known_ok h (finished ?s)" using assms(1) by (simp_all add: known_ok_def)
  note i = validation_sound(1)[OF this s'(1)]
  then show "known_ok h known'" by (simp add: s'(2))
  have "r = Inr ()" if "raw_json h v j" for j
    using validation_complete(1)[OF that, of "[]" ?s] s'(1) by (simp add: above_def)
  with i show "r = Inr () \<longleftrightarrow> denotes h v" unfolding denotes_def by blast
qed

section \<open>Revisions\<close>

text \<open>Containers of a revision are frozen: a heap grows, and each revision is validated in its turn.\<close>

inductive revisions :: "raw_heap \<Rightarrow> nat list \<Rightarrow> bool" where
  revisions_new: "revisions h []"
| revisions_grow: "revisions h known \<Longrightarrow> revisions (h @ h') known"
| revisions_validate: "revisions h known \<Longrightarrow> revisions h (snd (validate h known v))"

lemma raw_json_grow: "raw_json h v j \<Longrightarrow> raw_json (h @ h') v j"
proof (induction rule: raw_json.induct)
  case (raw_arr a vs js)
  then show ?case by (intro raw_json.raw_arr[where vs = vs]) (auto simp: nth_append elim: list_all2_mono)
next
  case (raw_obj a kvs js)
  then show ?case by (intro raw_json.raw_obj[where kvs = kvs]) (auto simp: nth_append elim: list_all2_mono)
qed (rule raw_json.raw_prim)

lemma revisions_known: "revisions h known \<Longrightarrow> known_ok h known"
proof (induction rule: revisions.induct)
  case (revisions_grow h known h')
  then show ?case unfolding known_ok_def denotes_def by (blast intro: raw_json_grow)
next
  case (revisions_validate h known v)
  then show ?case using validate_exact(1) by (metis prod.collapse)
qed (simp add: known_ok_def)

text \<open>
  C33: The validator accepts exactly strict JSON, whatever it remembers. After any revisions, those it
  refused half way included, \<open>validate\<close> returns for a value exactly when the value denotes a JSON
  document: no cycle, hole, accessor, symbol, foreign prototype or number that is not finite.
\<close>

theorem revision_validator_exact:
  assumes "revisions h known"
  shows "fst (validate h known v) = Inr () \<longleftrightarrow> (\<exists>j. raw_json h v j)"
  using validate_exact(2)[OF revisions_known[OF assms], of v] by (cases "validate h known v") (simp add: denotes_def)

definition two_revisions :: raw_heap where
  "two_revisions = [RArray [Some (Data (RPrim PNull))] [],
     RObject True [(Text_Key ''a'', Data (RRef 0)), (Text_Key ''b'', Data (RRef 1))]]"

theorem revision_validator_exact_witness:
  "validate two_revisions [] (RRef 1) = (Inl Cyclic, [0]) \<and> (\<nexists>j. raw_json two_revisions (RRef 1) j) \<and>
   validate two_revisions [0] (RRef 0) = (Inr (), [0]) \<and> (\<exists>j. raw_json two_revisions (RRef 0) j)"
proof -
  have v: "validate two_revisions [] (RRef 1) = (Inl Cyclic, [0])" "validate two_revisions [0] (RRef 0) = (Inr (), [0])" by code_simp+
  have r: "revisions two_revisions []" by (rule revisions_new)
  then have r0: "revisions two_revisions [0]" using revisions_validate[OF r, of "RRef 1"] v(1) by simp
  from revision_validator_exact[OF r, of "RRef 1"] revision_validator_exact[OF r0, of "RRef 0"] v show ?thesis by simp
qed

end
