(* ===== verification/Editor_Markers.thy ===== *)
theory Editor_Markers
  imports Prelude
begin

text \<open>
  The text side of the editor of \<open>packages/tui\<close>: the atomic markers of \<open>components/editor.ts\<close>, the
  segmenter that keeps them whole, and \<open>word-navigation.ts\<close>. A text is a list of code units. The two
  segmenters of \<open>Intl\<close> are parameters: a text to its graphemes, or to its words with \<open>isWordLike\<close>.
\<close>

section \<open>Characters\<close>

definition is_space :: "char \<Rightarrow> bool" where
  "is_space c \<longleftrightarrow> of_char c \<in> {9, 10, 11, 12, 13, 32, 160 :: nat}"

text \<open>\<open>/\s/.test\<close>: a white space anywhere in the string.\<close>

definition is_whitespace_char :: "string \<Rightarrow> bool" where
  "is_whitespace_char s \<longleftrightarrow> (\<exists>c \<in> set s. is_space c)"

definition is_digit :: "char \<Rightarrow> bool" where
  "is_digit c \<longleftrightarrow> (48 :: nat) \<le> of_char c \<and> of_char c \<le> (57 :: nat)"

definition is_punctuation :: "char \<Rightarrow> bool" where
  "is_punctuation c \<longleftrightarrow> c \<in> set ''(){}[]<>.,;:!?+-=*/|&%^$#@~'' \<or> of_char c \<in> {34, 39, 92, 96 :: nat}"

definition digits_value :: "string \<Rightarrow> nat" where
  "digits_value ds = foldl (\<lambda>n c. 10 * n + (of_char c - 48)) 0 ds"

section \<open>Markers\<close>

fun strip_start :: "string \<Rightarrow> string \<Rightarrow> string option" where
  "strip_start [] s = Some s"
| "strip_start (p # ps) [] = None"
| "strip_start (p # ps) (c # cs) = (if p = c then strip_start ps cs else None)"

definition strip_digits :: "string \<Rightarrow> (string \<times> string) option" where
  "strip_digits s = (case takeWhile is_digit s of [] \<Rightarrow> None | ds \<Rightarrow> Some (ds, dropWhile is_digit s))"

text \<open>\<open>(\+\d+ lines|\d+ chars)\<close>, after a space; the suffix and the rest.\<close>

definition paste_suffix :: "string \<Rightarrow> (string \<times> string) option" where
  "paste_suffix s =
     (case strip_start '' +'' s of
        Some t \<Rightarrow>
          Option.bind (strip_digits t) (\<lambda>(ds, u). map_option (\<lambda>v. ('' +'' @ ds @ '' lines'', v)) (strip_start '' lines'' u))
      | None \<Rightarrow>
          Option.bind (strip_start '' '' s) (\<lambda>t. Option.bind (strip_digits t) (\<lambda>(ds, u).
            map_option (\<lambda>v. ('' '' @ ds @ '' chars'', v)) (strip_start '' chars'' u))))"

text \<open>A match of \<open>PASTE_MARKER_REGEX\<close> at the start of a text: its id, its suffix and the rest.\<close>

definition paste_at :: "string \<Rightarrow> (string \<times> string \<times> string) option" where
  "paste_at s =
     Option.bind (strip_start ''[paste #'' s) (\<lambda>t. Option.bind (strip_digits t) (\<lambda>(ds, u).
       case strip_start '']'' u of
         Some v \<Rightarrow> Some (ds, [], v)
       | None \<Rightarrow> Option.bind (paste_suffix u) (\<lambda>(suf, v). map_option (\<lambda>w. (ds, suf, w)) (strip_start '']'' v))))"

definition image_at :: "string \<Rightarrow> (string \<times> string) option" where
  "image_at s =
     Option.bind (strip_start ''[Image '' s) (\<lambda>t. Option.bind (strip_digits t) (\<lambda>(ds, u).
       map_option (\<lambda>v. (ds, v)) (strip_start '']'' u)))"

lemma strip_start_length: "strip_start p s = Some t \<Longrightarrow> length s = length p + length t"
  by (induction p s rule: strip_start.induct) (auto split: if_splits)

lemma strip_digits_length: "strip_digits s = Some (ds, t) \<Longrightarrow> length s = length ds + length t"
  by (auto simp: strip_digits_def split: list.splits) (metis length_append takeWhile_dropWhile_id list.size(4) add_Suc)

lemma bind_Some: "Option.bind m f = Some y \<longleftrightarrow> (\<exists>x. m = Some x \<and> f x = Some y)"
  by (cases m) auto

lemma paste_suffix_length: "paste_suffix s = Some (suf, r) \<Longrightarrow> length r < length s"
  by (cases "strip_start '' +'' s")
    (auto simp: paste_suffix_def bind_Some dest!: strip_start_length strip_digits_length)

lemma paste_at_length:
  assumes "paste_at s = Some (ds, suf, r)"
  shows "length r < length s"
proof -
  from assms obtain t ds' u where t: "strip_start ''[paste #'' s = Some t" "strip_digits t = Some (ds', u)"
    "(case strip_start '']'' u of Some v \<Rightarrow> Some (ds', [], v)
       | None \<Rightarrow> Option.bind (paste_suffix u) (\<lambda>(suf, v). map_option (\<lambda>w. (ds', suf, w)) (strip_start '']'' v))) = Some (ds, suf, r)"
    by (auto simp: paste_at_def bind_Some)
  have "length r \<le> length u"
  proof (cases "strip_start '']'' u")
    case None
    with t(3) show ?thesis by (auto simp: bind_Some dest!: paste_suffix_length strip_start_length)
  next
    case (Some v)
    with t(3) show ?thesis by (auto dest!: strip_start_length)
  qed
  with strip_start_length[OF t(1)] strip_digits_length[OF t(2)] show ?thesis by simp
qed

lemma image_at_length: "image_at s = Some (ds, r) \<Longrightarrow> length r < length s"
  by (auto simp: image_at_def bind_Some dest!: strip_start_length strip_digits_length)

text \<open>\<open>PASTE_MARKER_SINGLE\<close> and \<open>IMAGE_MARKER_SINGLE\<close>: the whole segment is one marker; its id.\<close>

definition paste_single :: "string \<Rightarrow> nat option" where
  "paste_single s = (case paste_at s of Some (ds, suf, []) \<Rightarrow> Some (digits_value ds) | _ \<Rightarrow> None)"

definition image_single :: "string \<Rightarrow> nat option" where
  "image_single s = (case image_at s of Some (ds, []) \<Rightarrow> Some (digits_value ds) | _ \<Rightarrow> None)"

definition is_paste_marker :: "string \<Rightarrow> bool" where
  "is_paste_marker s \<longleftrightarrow> length s \<ge> 10 \<and> paste_single s \<noteq> None"

definition is_atomic_marker :: "string \<Rightarrow> bool" where
  "is_atomic_marker s \<longleftrightarrow> is_paste_marker s \<or> image_single s \<noteq> None"

text \<open>\<open>matchAll\<close>: start, end and id of each match; \<open>i\<close> is the position of the rest.\<close>

function paste_matches :: "nat \<Rightarrow> string \<Rightarrow> (nat \<times> nat \<times> nat) list" where
  "paste_matches i [] = []"
| "paste_matches i (c # cs) =
     (case paste_at (c # cs) of
        Some (ds, suf, r) \<Rightarrow>
          (let j = i + (Suc (length cs) - length r) in (i, j, digits_value ds) # paste_matches j r)
      | None \<Rightarrow> paste_matches (Suc i) cs)"
  by pat_completeness auto
termination
  by (relation "measure (\<lambda>(i, s). length s)") (auto dest: paste_at_length)

function image_matches :: "nat \<Rightarrow> string \<Rightarrow> (nat \<times> nat \<times> nat) list" where
  "image_matches i [] = []"
| "image_matches i (c # cs) =
     (case image_at (c # cs) of
        Some (ds, r) \<Rightarrow>
          (let j = i + (Suc (length cs) - length r) in (i, j, digits_value ds) # image_matches j r)
      | None \<Rightarrow> image_matches (Suc i) cs)"
  by pat_completeness auto
termination
  by (relation "measure (\<lambda>(i, s). length s)") (auto dest: image_at_length)

text \<open>\<open>replace(PASTE_MARKER_REGEX, f)\<close>; \<open>f\<close> takes the match, the digits of its id and its suffix.\<close>

function replace_pastes :: "(string \<Rightarrow> string \<Rightarrow> string \<Rightarrow> string) \<Rightarrow> string \<Rightarrow> string" where
  "replace_pastes f [] = []"
| "replace_pastes f (c # cs) =
     (case paste_at (c # cs) of
        Some (ds, suf, r) \<Rightarrow>
          f (take (Suc (length cs) - length r) (c # cs)) ds suf @ replace_pastes f r
      | None \<Rightarrow> c # replace_pastes f cs)"
  by pat_completeness auto
termination
  by (relation "measure (\<lambda>(f, s). length s)") (auto dest: paste_at_length)

section \<open>Segments\<close>

type_synonym segdata = "string \<times> nat \<times> bool"  \<comment> \<open>segment, index, \<open>isWordLike\<close>\<close>

fun place_segments :: "nat \<Rightarrow> (string \<times> bool) list \<Rightarrow> segdata list" where
  "place_segments i [] = []"
| "place_segments i ((g, w) # gs) = (g, i, w) # place_segments (i + length g) gs"

text \<open>The spans of the markers whose ids are registered, by start.\<close>

definition marker_spans :: "nat list \<Rightarrow> nat list \<Rightarrow> string \<Rightarrow> (nat \<times> nat) list" where
  "marker_spans pastes images text =
     sort_key fst
       ([(i, j). (i, j, d) \<leftarrow> (if pastes = [] then [] else paste_matches 0 text), d \<in> set pastes] @
        [(i, j). (i, j, d) \<leftarrow> (if images = [] then [] else image_matches 0 text), d \<in> set images])"

fun merge_markers :: "string \<Rightarrow> (nat \<times> nat) list \<Rightarrow> segdata list \<Rightarrow> segdata list" where
  "merge_markers text markers [] = []"
| "merge_markers text markers ((g, i, w) # segs) =
     (case dropWhile (\<lambda>(s, e). e \<le> i) markers of
        [] \<Rightarrow> (g, i, w) # merge_markers text [] segs
      | (s, e) # ms \<Rightarrow>
          if s \<le> i \<and> i < e then
            (if i = s then (slice text s e, s, False) # merge_markers text ((s, e) # ms) segs
             else merge_markers text ((s, e) # ms) segs)
          else (g, i, w) # merge_markers text ((s, e) # ms) segs)"

definition segment_with_markers :: "string \<Rightarrow> (string \<Rightarrow> (string \<times> bool) list) \<Rightarrow> nat list \<Rightarrow> nat list \<Rightarrow> segdata list" where
  "segment_with_markers text base pastes images =
     (let markers = marker_spans pastes images text; segs = place_segments 0 (base text) in
      if markers = [] then segs else merge_markers text markers segs)"

section \<open>Word navigation\<close>

text \<open>Skipping from the front of a list of segments; backwards the list is reversed.\<close>

fun skip_segments :: "(segdata \<Rightarrow> bool) \<Rightarrow> segdata list \<Rightarrow> nat \<times> segdata list" where
  "skip_segments P [] = (0, [])"
| "skip_segments P (x # xs) =
     (if P x then (let (n, ys) = skip_segments P xs in (length (fst x) + n, ys)) else (0, x # xs))"

definition space_segment :: "segdata \<Rightarrow> bool" where
  "space_segment x \<longleftrightarrow> \<not> is_atomic_marker (fst x) \<and> is_whitespace_char (fst x)"

definition other_segment :: "segdata \<Rightarrow> bool" where
  "other_segment x \<longleftrightarrow> \<not> is_atomic_marker (fst x) \<and> \<not> snd (snd x) \<and> \<not> is_whitespace_char (fst x)"

text \<open>Code units after the last punctuation of a word, and before the first.\<close>

definition after_punctuation :: "string \<Rightarrow> nat" where
  "after_punctuation s =
     (case filter (\<lambda>i. is_punctuation (s ! i)) [0..<length s] of
        [] \<Rightarrow> length s
      | is \<Rightarrow> length s - (last is + 1))"

definition before_punctuation :: "string \<Rightarrow> nat" where
  "before_punctuation s =
     (case filter (\<lambda>i. is_punctuation (s ! i)) [0..<length s] of [] \<Rightarrow> length s | i # _ \<Rightarrow> i)"

definition word_length :: "(string \<Rightarrow> nat) \<Rightarrow> segdata list \<Rightarrow> nat" where
  "word_length inside segs =
     (let (n, rest) = skip_segments space_segment segs in
      case rest of
        [] \<Rightarrow> n
      | x # _ \<Rightarrow>
          n + (if is_atomic_marker (fst x) then length (fst x)
               else if snd (snd x) then inside (fst x)
               else fst (skip_segments other_segment rest)))"

definition find_word_backward :: "(string \<Rightarrow> segdata list) \<Rightarrow> string \<Rightarrow> nat \<Rightarrow> nat" where
  "find_word_backward segment text cursor =
     (if cursor = 0 then 0 else cursor - word_length after_punctuation (rev (segment (take cursor text))))"

definition find_word_forward :: "(string \<Rightarrow> segdata list) \<Rightarrow> string \<Rightarrow> nat \<Rightarrow> nat" where
  "find_word_forward segment text cursor =
     (if cursor \<ge> length text then length text
      else cursor + word_length before_punctuation (segment (drop cursor text)))"

section \<open>Segments lie within their text\<close>

definition seg_sum :: "segdata list \<Rightarrow> nat" where
  "seg_sum segs = sum_list (map (length \<circ> fst) segs)"

lemma seg_sum_simps [simp]: "seg_sum [] = 0" "seg_sum (x # xs) = length (fst x) + seg_sum xs"
  by (simp_all add: seg_sum_def)

lemma seg_sum_rev [simp]: "seg_sum (rev xs) = seg_sum xs"
  by (induction xs) (simp_all add: seg_sum_def)

text \<open>What a segmenter of \<open>Intl\<close> does: it cuts a text into pieces that are not empty.\<close>

definition cuts :: "(string \<Rightarrow> (string \<times> bool) list) \<Rightarrow> bool" where
  "cuts base \<longleftrightarrow> (\<forall>t. concat (map fst (base t)) = t \<and> (\<forall>x \<in> set (base t). fst x \<noteq> []))"

lemma dropWhile_marker:
  assumes "dropWhile (\<lambda>(s, e). e \<le> i) markers = (s, e) # ms" "\<forall>(s, e) \<in> set markers. s < e \<and> e \<le> (n :: nat)"
  shows "i < e" "s < e" "e \<le> n" "\<forall>(s, e) \<in> set ((s, e) # ms). s < e \<and> e \<le> n"
proof -
  have "set ((s, e) # ms) \<subseteq> set markers" unfolding assms(1)[symmetric] by (blast dest: set_dropWhileD)
  with assms(2) show "\<forall>(s, e) \<in> set ((s, e) # ms). s < e \<and> e \<le> n" by blast
  then show "s < e" "e \<le> n" by auto
  have "\<not> (case hd (dropWhile (\<lambda>(s, e). e \<le> i) markers) of (s, e) \<Rightarrow> e \<le> i)" by (rule hd_dropWhile) (simp add: assms(1))
  then show "i < e" by (simp add: assms(1) not_le)
qed

text \<open>Segments in order, each the piece of the text at its index.\<close>

fun in_order :: "string \<Rightarrow> nat \<Rightarrow> segdata list \<Rightarrow> bool" where
  "in_order line a [] = True"
| "in_order line a ((g, i, w) # segs) =
     (a \<le> i \<and> i + length g \<le> length line \<and> g = slice line i (i + length g) \<and> g \<noteq> [] \<and> in_order line (i + length g) segs)"

lemma place_in_order:
  "drop i line = concat (map fst gs) \<Longrightarrow> \<forall>x \<in> set gs. fst x \<noteq> [] \<Longrightarrow> in_order line i (place_segments i gs)"
proof (induction gs arbitrary: i)
  case (Cons x gs)
  obtain g w where x: "x = (g, w)" by fastforce
  from Cons.prems(1) x have d: "drop i line = g @ concat (map fst gs)" by simp
  then have "drop (length g) (drop i line) = concat (map fst gs)" by simp
  then have "drop (i + length g) line = concat (map fst gs)" by (simp add: add.commute)
  moreover have "i + length g \<le> length line"
    using arg_cong[OF d, of length] Cons.prems(2) x by (cases "i \<le> length line") auto
  moreover have "slice line i (i + length g) = g" using d by (simp add: slice_def)
  ultimately show ?case using Cons x by simp
qed simp

lemma in_order_mono: "in_order line a segs \<Longrightarrow> b \<le> a \<Longrightarrow> in_order line b segs"
  by (cases segs) auto

lemma merge_in_order:
  assumes "\<forall>(s, e) \<in> set markers. s < e \<and> e \<le> length line" "drop i line = concat (map fst gs)" "\<forall>x \<in> set gs. fst x \<noteq> []"
  shows "in_order line i (merge_markers line markers (place_segments i gs)) \<and>
    (\<forall>s e ms. dropWhile (\<lambda>(s, e). e \<le> i) markers = (s, e) # ms \<longrightarrow> s < i \<longrightarrow>
       in_order line e (merge_markers line markers (place_segments i gs)))"
  using assms
proof (induction gs arbitrary: i markers)
  case (Cons x gs)
  obtain g w where x: "x = (g, w)" by fastforce
  from Cons.prems(2) x have dr: "drop i line = g @ concat (map fst gs)" by simp
  then have "drop (length g) (drop i line) = concat (map fst gs)" by simp
  then have nx: "drop (i + length g) line = concat (map fst gs)" by (simp add: add.commute)
  have g: "g \<noteq> []" "\<forall>x \<in> set gs. fst x \<noteq> []" using Cons.prems(3) x by simp_all
  have len: "i + length g \<le> length line" using arg_cong[OF dr, of length] g(1) by (cases "i \<le> length line") auto
  have sl: "slice line i (i + length g) = g" using dr by (simp add: slice_def)
  have main: "in_order line (if s < i then e else i) (merge_markers line markers (place_segments i (x # gs)))"
    if d: "dropWhile (\<lambda>(s, e). e \<le> i) markers = (s, e) # ms" for s e ms
  proof -
    note ok = dropWhile_marker[OF d Cons.prems(1)]
    let ?rest = "merge_markers line ((s, e) # ms) (place_segments (i + length g) gs)"
    note ih = Cons.IH[OF ok(4) nx g(2)]
    then have r1: "in_order line (i + length g) ?rest" by blast
    have r2: "in_order line e ?rest" if "s \<le> i"
    proof (cases "i + length g < e")
      case True
      then have "dropWhile (\<lambda>(s, e). e \<le> i + length g) ((s, e) # ms) = (s, e) # ms" by simp
      moreover have "s < i + length g" using that g(1) by (cases g) auto
      ultimately show ?thesis using ih by blast
    next
      case False
      with in_order_mono[OF r1] show ?thesis by simp
    qed
    have ms: "length (slice line s e) = e - s" "slice line s (s + length (slice line s e)) = slice line s e" "slice line s e \<noteq> []"
      using ok(2,3) by (auto simp: slice_def)
    consider "s < i" | "s = i" | "i < s" by linarith
    then show ?thesis
    proof cases
      case 1
      with d ok(1) r2 x show ?thesis by simp
    next
      case 2
      with d ok r2 x ms show ?thesis by simp
    next
      case 3
      with d r1 x len sl g(1) show ?thesis by simp
    qed
  qed
  have "in_order line i (merge_markers line markers (place_segments i (x # gs)))"
  proof (cases "dropWhile (\<lambda>(s, e). e \<le> i) markers")
    case Nil
    have "in_order line (i + length g) (merge_markers line [] (place_segments (i + length g) gs))"
      using Cons.IH[of "[]", OF _ nx g(2)] by simp
    with Nil x len sl g(1) show ?thesis by (simp del: dropWhile_eq_Nil_conv)
  next
    case d: (Cons m ms)
    obtain s e where m: "m = (s, e)" by fastforce
    have "i < e" by (rule dropWhile_marker(1)[OF d[unfolded m] Cons.prems(1)])
    with in_order_mono[OF main[OF d[unfolded m]], of i] show ?thesis by (auto split: if_splits)
  qed
  with main show ?case by fastforce
qed simp

lemma paste_span: "(s, e, d) \<in> set (paste_matches i t) \<Longrightarrow> s < e \<and> e \<le> i + length t"
proof (induction i t rule: paste_matches.induct)
  case (2 i c cs)
  show ?case
  proof (cases "paste_at (c # cs)")
    case None
    with 2 show ?thesis by fastforce
  next
    case (Some m)
    obtain ds suf r where m: "m = (ds, suf, r)" by (cases m)
    with Some have "length r < length (c # cs)" using paste_at_length by blast
    with 2 Some m show ?thesis by (fastforce simp: Let_def)
  qed
qed simp

lemma image_span: "(s, e, d) \<in> set (image_matches i t) \<Longrightarrow> s < e \<and> e \<le> i + length t"
proof (induction i t rule: image_matches.induct)
  case (2 i c cs)
  show ?case
  proof (cases "image_at (c # cs)")
    case None
    with 2 show ?thesis by fastforce
  next
    case (Some m)
    obtain ds r where m: "m = (ds, r)" by (cases m)
    with Some have "length r < length (c # cs)" using image_at_length by blast
    with 2 Some m show ?thesis by (fastforce simp: Let_def)
  qed
qed simp

lemma marker_spans_ok: "\<forall>(s, e) \<in> set (marker_spans pastes images text). s < e \<and> e \<le> length text"
  by (auto simp: marker_spans_def split: if_splits dest: paste_span[of _ _ _ 0] image_span[of _ _ _ 0])

lemma segments_in_order:
  assumes "cuts base"
  shows "in_order line 0 (segment_with_markers line base pastes images)"
proof -
  have c: "drop 0 line = concat (map fst (base line))" "\<forall>x \<in> set (base line). fst x \<noteq> []"
    using assms by (simp_all add: cuts_def)
  show ?thesis
    using merge_in_order[OF marker_spans_ok[of pastes images line] c] place_in_order[OF c]
    by (simp add: segment_with_markers_def Let_def)
qed

lemma in_order_sum: "in_order line a segs \<Longrightarrow> a \<le> length line \<Longrightarrow> a + seg_sum segs \<le> length line"
  by (induction line a segs rule: in_order.induct) auto

lemma segments_sum: "cuts base \<Longrightarrow> seg_sum (segment_with_markers line base pastes images) \<le> length line"
  using in_order_sum[OF segments_in_order, of base line pastes images] by simp

lemma segment_member: "x \<in> set segs \<Longrightarrow> length (fst x) \<le> seg_sum segs"
  by (induction segs) auto

lemma skip_sum: "skip_segments P segs = (n, rest) \<Longrightarrow> n + seg_sum rest = seg_sum segs"
  by (induction P segs arbitrary: n rest rule: skip_segments.induct) (auto simp: Let_def split: if_splits prod.splits)

lemma after_punctuation_le: "after_punctuation s \<le> length s"
  by (simp add: after_punctuation_def split: list.split)

lemma before_punctuation_le: "before_punctuation s \<le> length s"
proof (cases "filter (\<lambda>i. is_punctuation (s ! i)) [0..<length s]")
  case (Cons i js)
  then have "i \<in> set [0..<length s]" by (metis filter_is_subset list.set_intros(1) subsetD)
  with Cons show ?thesis by (simp add: before_punctuation_def)
qed (simp add: before_punctuation_def)

lemma word_length_le:
  assumes "\<And>s. inside s \<le> length s"
  shows "word_length inside segs \<le> seg_sum segs"
proof -
  obtain n rest where r: "skip_segments space_segment segs = (n, rest)" by fastforce
  obtain n' rest' where r': "skip_segments other_segment rest = (n', rest')" by fastforce
  show ?thesis
  proof (cases rest)
    case (Cons x xs)
    have "inside (fst x) \<le> length (fst x)" by (rule assms)
    with skip_sum[OF r] skip_sum[OF r'] r r' Cons show ?thesis by (auto simp: word_length_def Let_def)
  qed (use skip_sum[OF r] r in \<open>simp add: word_length_def Let_def\<close>)
qed

lemma find_word_backward_le: "find_word_backward segment text cursor \<le> cursor"
  by (simp add: find_word_backward_def)

lemma find_word_forward_le:
  assumes "\<And>t. seg_sum (segment t) \<le> length t"
  shows "find_word_forward segment text cursor \<le> length text"
proof (cases "cursor \<ge> length text")
  case False
  have "word_length before_punctuation (segment (drop cursor text)) \<le> length (drop cursor text)"
    using word_length_le[OF before_punctuation_le] assms[of "drop cursor text"] by (rule order_trans)
  with False show ?thesis by (simp add: find_word_forward_def)
qed (simp add: find_word_forward_def)

text \<open>No code unit is subtracted twice: the difference above is never cut off at zero.\<close>

lemma find_word_backward_exact:
  assumes "\<And>t. seg_sum (segment t) \<le> length t" "cursor \<le> length text"
  shows "word_length after_punctuation (rev (segment (take cursor text))) \<le> cursor"
  using word_length_le[OF after_punctuation_le, of "rev (segment (take cursor text))"] assms(1)[of "take cursor text"] assms(2)
  by simp

end
