(* ===== verification/Editor_Wrap.thy ===== *)
theory Editor_Wrap
  imports Editor_Markers
begin

text \<open>
  \<open>wordWrapLine\<close> of \<open>packages/tui/src/components/editor.ts\<close>: the chunks a line is drawn in. The width of
  a text on the terminal and the test for CJK text are arguments. The function calls itself on a
  segment that is wider than a row; the fuel is the depth of these calls, and \<open>None\<close> is no result.
\<close>

section \<open>Wrapping a line\<close>

type_synonym text_chunk = "string \<times> nat \<times> nat"  \<comment> \<open>text, start index, end index\<close>

record measures =
  vwidth :: "string \<Rightarrow> nat"
  is_cjk :: "string \<Rightarrow> bool"
  base_graphemes :: "string \<Rightarrow> (string \<times> bool) list"

record wrap_state =
  wr_chunks :: "text_chunk list"
  wr_width :: int
  wr_start :: nat
  wr_opp :: "(nat \<times> int) option"

definition break_line :: "string \<Rightarrow> int \<Rightarrow> nat \<Rightarrow> int \<Rightarrow> wrap_state \<Rightarrow> wrap_state" where
  "break_line line max_width i g s =
     (if wr_width s + g > max_width then
        (case (case wr_opp s of Some (j, w) \<Rightarrow> if wr_width s - w + g \<le> max_width then Some (j, w) else None | None \<Rightarrow> None) of
           Some (j, w) \<Rightarrow>
             s\<lparr>wr_chunks := wr_chunks s @ [(slice line (wr_start s) j, wr_start s, j)], wr_start := j,
               wr_width := wr_width s - w, wr_opp := None\<rparr>
         | None \<Rightarrow>
             if wr_start s < i then
               s\<lparr>wr_chunks := wr_chunks s @ [(slice line (wr_start s) i, wr_start s, i)], wr_start := i,
                 wr_width := 0, wr_opp := None\<rparr>
             else s\<lparr>wr_opp := None\<rparr>)
      else s)"

text \<open>Where the line may break before the next segment.\<close>

definition may_break :: "measures \<Rightarrow> string \<Rightarrow> string \<Rightarrow> bool" where
  "may_break m g next_seg =
     (let ws = \<not> is_paste_marker g \<and> is_whitespace_char g in
      if ws \<and> (is_paste_marker next_seg \<or> \<not> is_whitespace_char next_seg) then True
      else \<not> ws \<and> \<not> is_whitespace_char next_seg \<and>
        (\<not> is_paste_marker g \<and> is_cjk m g \<or> \<not> is_paste_marker next_seg \<and> is_cjk m next_seg))"

definition advance :: "measures \<Rightarrow> string \<Rightarrow> segdata list \<Rightarrow> wrap_state \<Rightarrow> wrap_state" where
  "advance m g rest s =
     (let s = s\<lparr>wr_width := wr_width s + int (vwidth m g)\<rparr> in
      case rest of
        [] \<Rightarrow> s
      | (g', i', w') # _ \<Rightarrow> if may_break m g g' then s\<lparr>wr_opp := Some (i', wr_width s)\<rparr> else s)"

text \<open>A segment wider than a row goes in by the chunks of its own wrapping, the last one still open.\<close>

definition put_wide :: "measures \<Rightarrow> nat \<Rightarrow> text_chunk list \<Rightarrow> wrap_state \<Rightarrow> wrap_state" where
  "put_wide m i subs s =
     s\<lparr>wr_chunks := wr_chunks s @ map (\<lambda>(t, a, b). (t, i + a, i + b)) (butlast subs),
       wr_start := i + fst (snd (last subs)), wr_width := int (vwidth m (fst (last subs))), wr_opp := None\<rparr>"

fun wrap_loop :: "(string \<Rightarrow> text_chunk list option) \<Rightarrow> measures \<Rightarrow> string \<Rightarrow> int \<Rightarrow> segdata list \<Rightarrow> wrap_state \<Rightarrow> text_chunk list option" where
  "wrap_loop wrap m line max_width [] s = Some (wr_chunks s @ [(drop (wr_start s) line, wr_start s, length line)])"
| "wrap_loop wrap m line max_width ((g, i, w) # segs) s =
     (let s = break_line line max_width i (int (vwidth m g)) s in
      if int (vwidth m g) > max_width then
        (case wrap g of
           None \<Rightarrow> None
         | Some subs \<Rightarrow> wrap_loop wrap m line max_width segs (put_wide m i subs s))
      else wrap_loop wrap m line max_width segs (advance m g segs s))"

fun word_wrap_line :: "nat \<Rightarrow> measures \<Rightarrow> string \<Rightarrow> int \<Rightarrow> segdata list option \<Rightarrow> text_chunk list option" where
  "word_wrap_line 0 m line max_width pre = None"
| "word_wrap_line (Suc n) m line max_width pre =
     (if line = [] \<or> max_width \<le> 0 then Some [([], 0, 0)]
      else if int (vwidth m line) \<le> max_width then Some [(line, 0, length line)]
      else
        (let segs = (case pre of Some segs \<Rightarrow> segs | None \<Rightarrow> place_segments 0 (base_graphemes m line)) in
         wrap_loop (\<lambda>g. word_wrap_line n m g max_width None) m line max_width segs
           \<lparr>wr_chunks = [], wr_width = 0, wr_start = 0, wr_opp = None\<rparr>))"

section \<open>The chunks tile the line\<close>

fun tiles :: "string \<Rightarrow> nat \<Rightarrow> text_chunk list \<Rightarrow> nat \<Rightarrow> bool" where
  "tiles line a [] b = (a = b)"
| "tiles line a ((t, s, e) # cs) b = (s = a \<and> s \<le> e \<and> e \<le> length line \<and> t = slice line s e \<and> tiles line e cs b)"

lemma tiles_append: "tiles line a (xs @ ys) c \<longleftrightarrow> (\<exists>b. tiles line a xs b \<and> tiles line b ys c)"
  by (induction line a xs c rule: tiles.induct) auto

lemma slice_slice:
  assumes "g = slice line i (i + length g)" "b \<le> length g"
  shows "slice g a b = slice line (i + a) (i + b)"
proof -
  have "slice g a b = take (b - a) (drop a (take (length g) (drop i line)))"
    unfolding slice_def using assms(1) by (simp add: slice_def)
  also have "\<dots> = take (b - a) (drop (i + a) line)" using assms(2) by (simp add: drop_take min_def add.commute)
  finally show ?thesis by (simp add: slice_def)
qed

lemma tiles_shift:
  assumes "g = slice line i (i + length g)" "i + length g \<le> length line"
  shows "tiles g a cs b \<Longrightarrow> tiles line (i + a) (map (\<lambda>(t, a, b). (t, i + a, i + b)) cs) (i + b)"
proof (induction cs arbitrary: a)
  case (Cons c cs)
  obtain t s e where c: "c = (t, s, e)" by (cases c)
  with Cons.prems have "s = a" "s \<le> e" "e \<le> length g" "t = slice g s e" "tiles g e cs b" by simp_all
  with Cons.IH[of e] slice_slice[OF assms(1), of e s] assms(2) c show ?case by simp
qed simp

definition wrap_inv :: "string \<Rightarrow> nat \<Rightarrow> wrap_state \<Rightarrow> bool" where
  "wrap_inv line hi s \<longleftrightarrow> tiles line 0 (wr_chunks s) (wr_start s) \<and> wr_start s \<le> hi \<and> hi \<le> length line \<and> 0 \<le> wr_width s \<and>
     (\<forall>j w. wr_opp s = Some (j, w) \<longrightarrow> wr_start s \<le> j \<and> j \<le> hi \<and> w \<le> wr_width s)"

lemma break_inv:
  assumes "wrap_inv line i s" "0 \<le> g"
  shows "wrap_inv line i (break_line line max_width i g s)"
    "g > max_width \<Longrightarrow> wr_start (break_line line max_width i g s) = i"
  using assms by (auto simp: wrap_inv_def break_line_def tiles_append split: option.splits if_splits)

definition next_index :: "string \<Rightarrow> segdata list \<Rightarrow> nat" where
  "next_index line segs = (case segs of [] \<Rightarrow> length line | (g, i, w) # _ \<Rightarrow> i)"

lemma in_order_next: "in_order line a segs \<Longrightarrow> a \<le> length line \<Longrightarrow> a \<le> next_index line segs \<and> next_index line segs \<le> length line"
  by (cases segs) (auto simp: next_index_def)

lemma advance_inv:
  assumes "wrap_inv line i s" "i \<le> hi" "hi \<le> length line" "hi = next_index line segs"
  shows "wrap_inv line hi (advance m g segs s)"
proof (cases segs)
  case Nil
  with assms show ?thesis by (auto simp: wrap_inv_def advance_def next_index_def)
next
  case (Cons x rest)
  obtain g' i' w' where x: "x = (g', i', w')" by (cases x)
  show ?thesis
  proof (cases "may_break m g g'")
    case True
    with assms Cons x show ?thesis by (auto simp: wrap_inv_def advance_def next_index_def)
  next
    case False
    with assms Cons x show ?thesis by (auto simp: wrap_inv_def advance_def next_index_def)
  qed
qed

lemma put_wide_inv:
  assumes inv: "wrap_inv line i s" "wr_start s = i" and g: "g = slice line i (i + length g)" "i + length g \<le> length line"
    and subs: "tiles g 0 subs (length g)" "subs \<noteq> []" and hi: "i + length g \<le> hi" "hi \<le> length line"
  shows "wrap_inv line hi (put_wide m i subs s)"
proof -
  from subs(2) have e: "subs = butlast subs @ [last subs]" by simp
  obtain t a b where l: "last subs = (t, a, b)" by (cases "last subs")
  from subs(1) e l obtain c where c: "tiles g 0 (butlast subs) c" "tiles g c [(t, a, b)] (length g)" by (metis tiles_append)
  from tiles_shift[OF g c(1)] have "tiles line i (map (\<lambda>(t, a, b). (t, i + a, i + b)) (butlast subs)) (i + c)" by simp
  with inv c(2) l hi show ?thesis by (auto simp: wrap_inv_def put_wide_def tiles_append)
qed

lemma wrap_loop_tiles:
  assumes rec: "\<And>g subs. wrap g = Some subs \<Longrightarrow> g \<noteq> [] \<Longrightarrow> tiles g 0 subs (length g) \<and> subs \<noteq> []"
  shows "wrap_loop wrap m line max_width segs s = Some cs \<Longrightarrow> in_order line a segs \<Longrightarrow> a \<le> length line \<Longrightarrow>
     wrap_inv line (next_index line segs) s \<Longrightarrow> tiles line 0 cs (length line) \<and> cs \<noteq> []"
proof (induction segs arbitrary: s a)
  case Nil
  then show ?case by (auto simp: wrap_inv_def tiles_append next_index_def slice_def)
next
  case (Cons x segs)
  obtain g i w where x: "x = (g, i, w)" by (cases x)
  with Cons.prems(2) have o: "a \<le> i" "i + length g \<le> length line" "g = slice line i (i + length g)" "g \<noteq> []"
    "in_order line (i + length g) segs" by simp_all
  let ?s = "break_line line max_width i (int (vwidth m g)) s"
  have b: "wrap_inv line i ?s" "int (vwidth m g) > max_width \<Longrightarrow> wr_start ?s = i"
    using break_inv[of line i s] Cons.prems(4) x by (simp_all add: next_index_def)
  from in_order_next[OF o(5,2)] have hi: "i + length g \<le> next_index line segs" "next_index line segs \<le> length line" by simp_all
  show ?case
  proof (cases "int (vwidth m g) > max_width")
    case True
    with Cons.prems(1) x obtain subs where subs: "wrap g = Some subs" "wrap_loop wrap m line max_width segs (put_wide m i subs ?s) = Some cs"
      by (auto simp: Let_def split: option.splits)
    from rec[OF subs(1) o(4)] have "wrap_inv line (next_index line segs) (put_wide m i subs ?s)"
      by (intro put_wide_inv[OF b(1) b(2)[OF True] o(3,2) _ _ hi]) simp_all
    from Cons.IH[OF subs(2) o(5,2) this] show ?thesis .
  next
    case False
    with Cons.prems(1) x have l: "wrap_loop wrap m line max_width segs (advance m g segs ?s) = Some cs" by (simp add: Let_def)
    have "wrap_inv line (next_index line segs) (advance m g segs ?s)"
      by (rule advance_inv[OF b(1) _ hi(2) refl]) (use hi(1) in simp)
    from Cons.IH[OF l o(5,2) this] show ?thesis .
  qed
qed

lemma wrap_tiles:
  assumes cut: "cuts (base_graphemes m)" and pos: "max_width > 0"
  shows "word_wrap_line n m line max_width pre = Some cs \<Longrightarrow> (\<And>segs. pre = Some segs \<Longrightarrow> in_order line 0 segs) \<Longrightarrow>
    tiles line 0 cs (length line) \<and> cs \<noteq> []"
proof (induction n arbitrary: line pre cs)
  case (Suc n)
  let ?segs = "case pre of Some segs \<Rightarrow> segs | None \<Rightarrow> place_segments 0 (base_graphemes m line)"
  have o: "in_order line 0 ?segs" using Suc.prems(2) cut by (cases pre) (auto simp: cuts_def intro!: place_in_order)
  show ?case
  proof (cases "line = [] \<or> int (vwidth m line) \<le> max_width")
    case True
    with Suc.prems(1) pos have "cs = [(line, 0, length line)]" by (cases "line = []") auto
    then show ?thesis by (simp add: slice_def)
  next
    case False
    let ?s = "\<lparr>wr_chunks = [], wr_width = 0, wr_start = 0, wr_opp = None\<rparr>"
    from False Suc.prems(1) pos have l: "wrap_loop (\<lambda>g. word_wrap_line n m g max_width None) m line max_width ?segs ?s = Some cs"
      by (simp add: Let_def)
    have "wrap_inv line (next_index line ?segs) ?s" using in_order_next[OF o] by (simp add: wrap_inv_def)
    moreover have "tiles g 0 subs (length g) \<and> subs \<noteq> []" if "word_wrap_line n m g max_width None = Some subs" for g subs
      by (rule Suc.IH[OF that]) simp
    ultimately show ?thesis using wrap_loop_tiles[OF _ l o] by simp
  qed
qed simp

section \<open>It returns\<close>

lemma wrap_loop_returns:
  assumes "\<And>g i w. (g, i, w) \<in> set segs \<Longrightarrow> int (vwidth m g) > max_width \<Longrightarrow> wrap g \<noteq> None"
  shows "wrap_loop wrap m line max_width segs s \<noteq> None"
  using assms
proof (induction segs arbitrary: s)
  case (Cons x segs)
  obtain g i w where x: "x = (g, i, w)" by (cases x)
  have ih: "wrap_loop wrap m line max_width segs s' \<noteq> None" for s' by (rule Cons.IH) (use Cons.prems in auto)
  show ?case
  proof (cases "int (vwidth m g) > max_width")
    case True
    then obtain subs where "wrap g = Some subs" using Cons.prems x by fastforce
    with x True ih show ?thesis by (simp add: Let_def)
  qed (use x ih in \<open>simp add: Let_def\<close>)
qed simp

lemma place_member: "(g, i, w) \<in> set (place_segments k gs) \<Longrightarrow> (g, w) \<in> set gs"
  by (induction k gs rule: place_segments.induct) auto

lemma wrap_narrow:
  assumes "\<forall>x \<in> set (base_graphemes m line). int (vwidth m (fst x)) \<le> max_width"
  shows "word_wrap_line (Suc n) m line max_width None \<noteq> None"
proof -
  have "wrap_loop wrap m line max_width (place_segments 0 (base_graphemes m line)) s \<noteq> None" for wrap s
    by (rule wrap_loop_returns) (use assms place_member in fastforce)
  then show ?thesis by (simp add: Let_def)
qed

text \<open>Every segment of a line that is wider than a row is made of graphemes that are not.\<close>

definition splittable :: "measures \<Rightarrow> int \<Rightarrow> segdata list \<Rightarrow> bool" where
  "splittable m max_width segs \<longleftrightarrow>
     (\<forall>(g, i, w) \<in> set segs. int (vwidth m g) > max_width \<longrightarrow>
        (\<forall>x \<in> set (base_graphemes m g). int (vwidth m (fst x)) \<le> max_width))"

lemma wrap_returns:
  assumes "splittable m max_width segs"
  shows "word_wrap_line (Suc (Suc n)) m line max_width (Some segs) \<noteq> None"
proof -
  have "wrap_loop (\<lambda>g. word_wrap_line (Suc n) m g max_width None) m line max_width segs s \<noteq> None" for s
    by (rule wrap_loop_returns) (use wrap_narrow assms in \<open>unfold splittable_def, blast\<close>)
  then show ?thesis unfolding word_wrap_line.simps(2)[of "Suc n"] by (simp add: Let_def del: word_wrap_line.simps)
qed

section \<open>The chunks fit\<close>

text \<open>The width of the segments that start in a stretch of the line.\<close>

definition stretch :: "measures \<Rightarrow> segdata list \<Rightarrow> nat \<Rightarrow> nat \<Rightarrow> int" where
  "stretch m segs a b = sum_list [int (vwidth m g). (g, i, w) \<leftarrow> segs, a \<le> i \<and> i < b]"

lemma stretch_append [simp]: "stretch m (xs @ ys) a b = stretch m xs a b + stretch m ys a b"
  by (simp add: stretch_def)

lemma stretch_Cons: "stretch m ((g, i, w) # segs) a b = (if a \<le> i \<and> i < b then int (vwidth m g) else 0) + stretch m segs a b"
  by (simp add: stretch_def)

lemma stretch_Nil [simp]: "stretch m [] a b = 0"
  by (simp add: stretch_def)

lemma stretch_none: "(\<And>g i w. (g, i, w) \<in> set segs \<Longrightarrow> \<not> (a \<le> i \<and> i < b)) \<Longrightarrow> stretch m segs a b = 0"
proof (induction segs)
  case (Cons x segs)
  obtain g i w where x: "x = (g, i, w)" by (cases x)
  have "stretch m segs a b = 0" by (rule Cons.IH) (use Cons.prems in auto)
  moreover have "\<not> (a \<le> i \<and> i < b)" using Cons.prems[of g i w] x by simp
  ultimately show ?case unfolding x stretch_Cons by (simp only: if_False)
qed simp

lemma stretch_nonneg: "0 \<le> stretch m segs a b"
proof (induction segs)
  case (Cons x segs)
  then show ?case by (cases x) (simp add: stretch_Cons)
qed simp

lemma stretch_split: "a \<le> b \<Longrightarrow> b \<le> c \<Longrightarrow> stretch m segs a c = stretch m segs a b + stretch m segs b c"
proof (induction segs)
  case (Cons x segs)
  then show ?case by (cases x) (auto simp: stretch_Cons)
qed simp

definition fits :: "measures \<Rightarrow> segdata list \<Rightarrow> int \<Rightarrow> text_chunk list \<Rightarrow> bool" where
  "fits m segs max_width cs \<longleftrightarrow> (\<forall>(t, a, b) \<in> set cs. stretch m segs a b \<le> max_width)"

definition fit_inv :: "measures \<Rightarrow> segdata list \<Rightarrow> int \<Rightarrow> nat \<Rightarrow> wrap_state \<Rightarrow> bool" where
  "fit_inv m all max_width hi s \<longleftrightarrow> fits m all max_width (wr_chunks s) \<and>
     wr_start s \<le> hi \<and> wr_width s = stretch m all (wr_start s) hi \<and> wr_width s \<le> max_width \<and>
     (\<forall>j w. wr_opp s = Some (j, w) \<longrightarrow> wr_start s \<le> j \<and> j \<le> hi \<and> w = stretch m all (wr_start s) j)"

lemma fits_append: "fits m all n (xs @ [(t, a, b)]) \<longleftrightarrow> fits m all n xs \<and> stretch m all a b \<le> n"
  by (auto simp: fits_def)

lemma stretch_empty [simp]: "stretch m all a a = 0"
  by (rule stretch_none) simp

lemma stretch_le: "a \<le> b \<Longrightarrow> b \<le> c \<Longrightarrow> stretch m segs a b \<le> stretch m segs a c"
  using stretch_split[of a b c m segs] stretch_nonneg[of m segs b c] by simp

lemma break_fits:
  assumes inv: "fit_inv m all max_width i s" and g: "0 \<le> g" "g \<le> max_width"
  shows "fit_inv m all max_width i (break_line line max_width i g s) \<and>
    wr_width (break_line line max_width i g s) + g \<le> max_width"
proof (cases "wr_width s + g > max_width")
  case False
  with inv show ?thesis by (simp add: break_line_def)
next
  case over: True
  have start: "wr_start s < i"
  proof (rule ccontr)
    assume "\<not> wr_start s < i"
    with inv have "wr_width s = 0" by (simp add: fit_inv_def)
    with over g show False by simp
  qed
  let ?opp = "case wr_opp s of Some (j, w) \<Rightarrow> if wr_width s - w + g \<le> max_width then Some (j, w) else None | None \<Rightarrow> None"
  show ?thesis
  proof (cases ?opp)
    case None
    with over start inv g show ?thesis by (auto simp: break_line_def fit_inv_def fits_append)
  next
    case (Some jw)
    obtain j w where jw: "jw = (j, w)" by fastforce
    with Some have o: "wr_opp s = Some (j, w)" "wr_width s - w + g \<le> max_width" by (auto split: option.splits if_splits)
    with inv have j: "wr_start s \<le> j" "j \<le> i" "w = stretch m all (wr_start s) j" by (simp_all add: fit_inv_def)
    have "w \<le> max_width" using stretch_le[OF j(1,2), of m all] inv j(3) by (simp add: fit_inv_def)
    moreover have "wr_width s - w = stretch m all j i" using stretch_split[OF j(1,2), of m all] inv j(3) by (simp add: fit_inv_def)
    ultimately show ?thesis using over Some jw o(2) inv j g by (simp add: break_line_def fit_inv_def fits_append)
  qed
qed

lemma in_order_past: "in_order line a (past @ (g, i, w) # rest) \<Longrightarrow> (g', i', w') \<in> set past \<Longrightarrow> i' < i"
proof (induction past arbitrary: a)
  case (Cons x past)
  obtain h k v where x: "x = (h, k, v)" by (cases x)
  with Cons.prems(1) have o: "h \<noteq> []" "in_order line (k + length h) (past @ (g, i, w) # rest)" by simp_all
  have "k + length h \<le> i" using o(2) by (induction past arbitrary: k h) (auto, fastforce)
  with Cons.IH[OF o(2)] Cons.prems(2) x o(1) show ?case by (cases h) auto
qed simp

lemma in_order_drop: "in_order line a (xs @ ys) \<Longrightarrow> \<exists>b. in_order line b ys"
  by (induction xs arbitrary: a) auto

lemma in_order_from: "in_order line a segs \<Longrightarrow> (g, i, w) \<in> set segs \<Longrightarrow> a \<le> i"
  by (induction line a segs rule: in_order.induct) auto

lemma stretch_one:
  assumes "in_order line 0 (past @ (g, i, w) # rest)" "in_order line (i + length g) rest" "g \<noteq> []"
    and "i + length g \<le> length line"
  shows "stretch m (past @ (g, i, w) # rest) i (next_index line rest) = int (vwidth m g)"
proof -
  have n: "i + length g \<le> next_index line rest" using in_order_next[OF assms(2,4)] by simp
  then have i: "i < next_index line rest" using assms(3) by (cases g) auto
  have "stretch m past i (next_index line rest) = 0" by (rule stretch_none) (use in_order_past[OF assms(1)] in fastforce)
  moreover have "stretch m rest i (next_index line rest) = 0"
  proof (cases rest)
    case (Cons x xs)
    obtain h k v where x: "x = (h, k, v)" by (cases x)
    with assms(2) Cons have "in_order line k rest" by simp
    then show ?thesis by (intro stretch_none) (use in_order_from Cons x in \<open>fastforce simp: next_index_def\<close>)
  qed simp
  ultimately show ?thesis using i by (simp add: stretch_Cons)
qed

lemma wrap_loop_fits:
  assumes narrow: "\<And>g i w. (g, i, w) \<in> set all \<Longrightarrow> int (vwidth m g) \<le> max_width" and o: "in_order line 0 all"
  shows "wrap_loop wrap m line max_width segs s = Some cs \<Longrightarrow> all = past @ segs \<Longrightarrow>
    fit_inv m all max_width (next_index line segs) s \<Longrightarrow> fits m all max_width cs"
proof (induction segs arbitrary: s past)
  case Nil
  then show ?case by (auto simp: fit_inv_def fits_append next_index_def)
next
  case (Cons x segs)
  obtain g i w where x: "x = (g, i, w)" by (cases x)
  have g: "int (vwidth m g) \<le> max_width" by (rule narrow[of g i w]) (simp add: Cons.prems(2) x)
  let ?s = "break_line line max_width i (int (vwidth m g)) s"
  have "fit_inv m all max_width i s" using Cons.prems(3) x by (simp add: next_index_def)
  from break_fits[OF this _ g] have b: "fit_inv m all max_width i ?s" "wr_width ?s + int (vwidth m g) \<le> max_width" by simp_all
  from Cons.prems(1) x g have l: "wrap_loop wrap m line max_width segs (advance m g segs ?s) = Some cs" by (simp add: Let_def)
  have all: "all = (past @ [x]) @ segs" using Cons.prems(2) by simp
  have o': "in_order line 0 (past @ (g, i, w) # segs)" using o Cons.prems(2) x by simp
  from in_order_drop[OF this] obtain a where "in_order line a ((g, i, w) # segs)" by blast
  then have r: "in_order line (i + length g) segs" "g \<noteq> []" "i + length g \<le> length line" by simp_all
  let ?hi = "next_index line segs"
  have hi: "i \<le> ?hi" using in_order_next[OF r(1,3)] by simp
  have "wr_start ?s \<le> i" using b(1) by (simp add: fit_inv_def)
  then have w: "wr_width ?s + int (vwidth m g) = stretch m all (wr_start ?s) ?hi"
    using stretch_split[OF _ hi, of "wr_start ?s" m all] stretch_one[OF o' r, of m] Cons.prems(2) x b(1) by (simp add: fit_inv_def)
  have "fit_inv m all max_width ?hi (advance m g segs ?s)"
  proof (cases segs)
    case Nil
    with b w hi show ?thesis by (auto simp: fit_inv_def advance_def)
  next
    case (Cons y rest)
    obtain g' i' w' where y: "y = (g', i', w')" by (cases y)
    then have n: "?hi = i'" using Cons by (simp add: next_index_def)
    show ?thesis
    proof (cases "may_break m g g'")
      case True
      with Cons y b w hi n show ?thesis by (auto simp: fit_inv_def advance_def)
    next
      case False
      with Cons y b w hi n show ?thesis by (auto simp: fit_inv_def advance_def)
    qed
  qed
  from Cons.IH[OF l all this] show ?case .
qed

lemma slice_join: "s \<le> e \<Longrightarrow> e \<le> b \<Longrightarrow> slice xs s e @ slice xs e b = slice xs s b"
  using take_add[of "e - s" "b - e" "drop s xs"] by (simp add: slice_def)

lemma tiles_concat: "tiles line a cs b \<Longrightarrow> a \<le> b \<and> concat (map fst cs) = slice line a b"
proof (induction line a cs b rule: tiles.induct)
  case (2 line a t s e cs b)
  then show ?case by (simp add: slice_join)
qed (simp add: slice_def)

text \<open>
  C38: Wrapping returns the whole line. When each segment of the line that is wider than a row (a marker
  in a narrow terminal) is made of graphemes that fit in a row, \<open>wordWrapLine\<close> returns after at most one
  level of calls to itself, and the chunks it returns lie end to end from the start of the line to its
  end. The condition is on the segments of this line only; a line with a single grapheme wider than a row
  does not meet it, and does not return.
\<close>

theorem wrap_tiles_line:
  assumes "cuts (base_graphemes m)" "max_width > 0"
    and "segs = segment_with_markers line (base_graphemes m) pastes images"
    and "\<forall>(g, i, w) \<in> set segs. int (vwidth m g) > max_width \<longrightarrow>
      (\<forall>x \<in> set (base_graphemes m g). int (vwidth m (fst x)) \<le> max_width)"
  shows "\<exists>cs. word_wrap_line 2 m line max_width (Some segs) = Some cs \<and>
    tiles line 0 cs (length line) \<and> concat (map fst cs) = line"
proof -
  have "splittable m max_width segs" unfolding splittable_def by (rule assms(4))
  from wrap_returns[OF this, of 0 line] obtain cs where cs: "word_wrap_line 2 m line max_width (Some segs) = Some cs"
    unfolding numeral_2_eq_2 by blast
  have t: "tiles line 0 cs (length line)" using wrap_tiles[OF assms(1,2) cs] segments_in_order[OF assms(1)] assms(3) by blast
  with tiles_concat[OF t] cs show ?thesis by simp
qed

text \<open>
  C39: Every row fits. When all segments of a line are at most as wide as a row, so are the segments of
  every chunk together, on every path through the loop: a break at the last opportunity, a break in
  the middle of a word, and the last chunk.
\<close>

theorem wrap_rows_fit:
  assumes "cuts (base_graphemes m)" "segs = segment_with_markers line (base_graphemes m) pastes images"
    and "\<forall>(g, i, w) \<in> set segs. int (vwidth m g) \<le> max_width" "int (vwidth m line) > max_width"
    and "word_wrap_line n m line max_width (Some segs) = Some cs" "max_width > 0" "line \<noteq> []"
  shows "\<forall>(t, a, b) \<in> set cs. stretch m segs a b \<le> max_width"
proof -
  obtain k where n: "n = Suc k" using assms(5) by (cases n) auto
  let ?s = "\<lparr>wr_chunks = [], wr_width = 0, wr_start = 0, wr_opp = None\<rparr>"
  have l: "wrap_loop (\<lambda>g. word_wrap_line k m g max_width None) m line max_width segs ?s = Some cs"
    using assms(4-7) n by (simp add: Let_def)
  have o: "in_order line 0 segs" using segments_in_order[OF assms(1)] assms(2) by simp
  have "stretch m segs 0 (next_index line segs) = 0"
  proof (cases segs)
    case (Cons x xs)
    obtain h k v where x: "x = (h, k, v)" by (cases x)
    with o Cons have "in_order line k segs" by simp
    then show ?thesis by (intro stretch_none) (use in_order_from Cons x in \<open>fastforce simp: next_index_def\<close>)
  qed simp
  then have "fit_inv m segs max_width (next_index line segs) ?s" using assms(6) by (simp add: fit_inv_def fits_def)
  from wrap_loop_fits[OF _ o l _ this, of "[]"] assms(3) have "fits m segs max_width cs" by fastforce
  then show ?thesis by (simp add: fits_def)
qed

text \<open>
  C40: A grapheme wider than the row never returns. On a row of width one a wide character makes
  \<open>wordWrapLine\<close> call itself with the same arguments, whatever the depth.
\<close>

theorem wrap_wide_grapheme:
  assumes "base_graphemes m g = [(g, w)]" "int (vwidth m g) > max_width" "max_width > 0" "g \<noteq> []"
  shows "word_wrap_line n m g max_width None = None"
proof (induction n)
  case (Suc n)
  with assms show ?case by (simp add: Let_def)
qed simp

definition sample_measures :: measures where
  "sample_measures = \<lparr>vwidth = (\<lambda>t. sum_list (map (\<lambda>c. if c = CHR ''W'' then 2 else 1) t)), is_cjk = (\<lambda>t. CHR ''W'' \<in> set t),
     base_graphemes = map (\<lambda>c. ([c], False))\<rparr>"

lemma sample_cuts: "cuts (base_graphemes sample_measures)"
  by (auto simp: cuts_def sample_measures_def comp_def)

text \<open>A width with which some text has a grapheme wider than the row, but not this line.\<close>

theorem wrap_tiles_line_witness:
  "\<exists>cs. word_wrap_line 2 sample_measures ''ab [paste #1]'' 1
      (Some (segment_with_markers ''ab [paste #1]'' (base_graphemes sample_measures) [1] [])) = Some cs \<and>
    tiles ''ab [paste #1]'' 0 cs (length ''ab [paste #1]'') \<and> concat (map fst cs) = ''ab [paste #1]''"
  by (rule wrap_tiles_line[OF sample_cuts _ refl]) code_simp+

theorem wrap_rows_fit_witness:
  "word_wrap_line 2 sample_measures ''ab cd ef'' 4 (Some (segment_with_markers ''ab cd ef'' (base_graphemes sample_measures) [] [])) =
     Some [(''ab '', 0, 3), (''cd '', 3, 6), (''ef'', 6, 8)] \<and>
   stretch sample_measures (segment_with_markers ''ab cd ef'' (base_graphemes sample_measures) [] []) 3 6 \<le> 4"
proof
  show w: "word_wrap_line 2 sample_measures ''ab cd ef'' 4 (Some (segment_with_markers ''ab cd ef'' (base_graphemes sample_measures) [] [])) =
     Some [(''ab '', 0, 3), (''cd '', 3, 6), (''ef'', 6, 8)]" by code_simp
  have "\<forall>(t, a, b) \<in> set [(''ab '', 0, 3), (''cd '', 3, 6), (''ef'', 6, 8)].
     stretch sample_measures (segment_with_markers ''ab cd ef'' (base_graphemes sample_measures) [] []) a b \<le> 4"
    by (rule wrap_rows_fit[OF sample_cuts refl _ _ w]) code_simp+
  then show "stretch sample_measures (segment_with_markers ''ab cd ef'' (base_graphemes sample_measures) [] []) 3 6 \<le> 4" by simp
qed

theorem wrap_wide_grapheme_witness: "word_wrap_line 100 sample_measures ''W'' 1 None = None"
  by (rule wrap_wide_grapheme[where w = False]) (simp_all add: sample_measures_def)

end
