(* ===== verification/Editor_State.thy ===== *)
theory Editor_State
  imports Editor_Markers Json_Value "HOL-Library.AList"
begin

text \<open>
  The text state of the editor of \<open>packages/tui/src/components/editor.ts\<close>, with \<open>kill-ring.ts\<close> and
  \<open>undo-stack.ts\<close>: each editing, killing, yanking and moving command as a function of the state.
  Left out are what only draws (scrolling, autocomplete, callbacks) and the keys that name commands.
\<close>

section \<open>Texts and lines\<close>

definition newline :: char where "newline = CHR 0x0A"

fun text_lines :: "string \<Rightarrow> string list" where
  "text_lines [] = [[]]"
| "text_lines (c # cs) =
     (if c = newline then [] # text_lines cs else (c # hd (text_lines cs)) # tl (text_lines cs))"

fun lines_text :: "string list \<Rightarrow> string" where
  "lines_text [] = []"
| "lines_text [l] = l"
| "lines_text (l # m # ls) = l @ newline # lines_text (m # ls)"

fun crlf :: "string \<Rightarrow> string" where
  "crlf [] = []"
| "crlf [c] = [c]"
| "crlf (c # d # cs) = (if c = CHR 0x0D \<and> d = newline then newline # crlf cs else c # crlf (d # cs))"

definition normalize_text :: "string \<Rightarrow> string" where
  "normalize_text t =
     concat (map (\<lambda>c. if c = CHR 0x09 then ''    '' else [c])
       (map (\<lambda>c. if c = CHR 0x0D then newline else c) (crlf t)))"

definition trim :: "string \<Rightarrow> string" where
  "trim t = rev (dropWhile is_space (rev (dropWhile is_space t)))"

definition index_of :: "string \<Rightarrow> nat \<Rightarrow> string \<Rightarrow> nat option" where
  "index_of sub from t = find (\<lambda>i. take (length sub) (drop i t) = sub) [from..<Suc (length t)]"

text \<open>\<open>lastIndexOf\<close> clips its start to the string, a negative one to zero.\<close>

definition last_index_of :: "string \<Rightarrow> int \<Rightarrow> string \<Rightarrow> nat option" where
  "last_index_of sub from t =
     find (\<lambda>i. take (length sub) (drop i t) = sub) (rev [0..<Suc (min (nat from) (length t))])"

section \<open>State\<close>

datatype last_action = Kill | Yank | Type_Word

type_synonym position = "nat \<times> nat"  \<comment> \<open>line and column\<close>

record editor_snapshot =
  snap_lines :: "string list"
  snap_cursor :: position
  snap_pastes :: "(nat \<times> string) list"
  snap_paste_counter :: int
  snap_images :: "(nat \<times> string) list"
  snap_image_counter :: nat

record editor =
  ed_lines :: "string list"
  ed_line :: nat
  ed_col :: nat
  pastes :: "(nat \<times> string) list"
  paste_counter :: int
  images :: "(nat \<times> string) list"
  image_counter :: nat
  prompt_history :: "string list"
  history_index :: int
  history_draft :: "(string list \<times> position) option"
  kill_ring :: "string list"
  last_action :: "last_action option"
  selection :: "(position \<times> position) option"
  preferred_col :: "nat option"
  snapped_from :: "nat option"
  undo_stack :: "editor_snapshot list"

definition new_editor :: editor where
  "new_editor =
     \<lparr>ed_lines = [[]], ed_line = 0, ed_col = 0, pastes = [], paste_counter = 0, images = [], image_counter = 0,
      prompt_history = [], history_index = -1, history_draft = None, kill_ring = [], last_action = None,
      selection = None, preferred_col = None, snapped_from = None, undo_stack = []\<rparr>"

text \<open>The segmenters of the platform.\<close>

record segmenters =
  graphemes :: "string \<Rightarrow> (string \<times> bool) list"
  words :: "string \<Rightarrow> (string \<times> bool) list"

definition segment_graphemes :: "segmenters \<Rightarrow> editor \<Rightarrow> string \<Rightarrow> segdata list" where
  "segment_graphemes g s t = segment_with_markers t (graphemes g) (map fst (pastes s)) (map fst (images s))"

definition segment_words :: "segmenters \<Rightarrow> editor \<Rightarrow> string \<Rightarrow> segdata list" where
  "segment_words g s t = segment_with_markers t (words g) (map fst (pastes s)) (map fst (images s))"

text \<open>\<open>lines[i] || ""\<close>, and a write at an index.\<close>

definition get_line :: "string list \<Rightarrow> nat \<Rightarrow> string" where
  "get_line ls i = (if i < length ls then ls ! i else [])"

definition write_line :: "nat \<Rightarrow> string \<Rightarrow> string list \<Rightarrow> string list" where
  "write_line i l ls = (if i < length ls then ls[i := l] else ls @ replicate (i - length ls) [] @ [l])"

abbreviation cur_line :: "editor \<Rightarrow> string" where
  "cur_line s \<equiv> get_line (ed_lines s) (ed_line s)"

definition get_text :: "editor \<Rightarrow> string" where
  "get_text s = lines_text (ed_lines s)"

definition set_cursor_col :: "nat \<Rightarrow> editor \<Rightarrow> editor" where
  "set_cursor_col c s = s\<lparr>ed_col := c, preferred_col := None, snapped_from := None\<rparr>"

definition put_line :: "string \<Rightarrow> editor \<Rightarrow> editor" where
  "put_line l s = s\<lparr>ed_lines := write_line (ed_line s) l (ed_lines s)\<rparr>"

definition exit_history :: "editor \<Rightarrow> editor" where
  "exit_history s = s\<lparr>history_index := -1, history_draft := None\<rparr>"

definition set_last :: "last_action option \<Rightarrow> editor \<Rightarrow> editor" where
  "set_last a s = s\<lparr>last_action := a\<rparr>"

section \<open>Undo and the kill ring\<close>

definition take_snapshot :: "editor \<Rightarrow> editor_snapshot" where
  "take_snapshot s =
     \<lparr>snap_lines = ed_lines s, snap_cursor = (ed_line s, ed_col s), snap_pastes = pastes s,
      snap_paste_counter = paste_counter s, snap_images = images s, snap_image_counter = image_counter s\<rparr>"

definition push_undo :: "editor \<Rightarrow> editor" where
  "push_undo s = s\<lparr>undo_stack := take_snapshot s # undo_stack s\<rparr>"

definition undo :: "editor \<Rightarrow> editor" where
  "undo s0 =
     (let s = exit_history s0 in
      case undo_stack s of
        [] \<Rightarrow> s
      | n # ns \<Rightarrow>
          s\<lparr>undo_stack := ns, ed_lines := snap_lines n, ed_line := fst (snap_cursor n), ed_col := snd (snap_cursor n),
            pastes := snap_pastes n, paste_counter := snap_paste_counter n, images := snap_images n,
            image_counter := Max (set (snap_image_counter n # 0 # map fst (snap_images n))),
            last_action := None, preferred_col := None\<rparr>)"

text \<open>The newest entry of the ring is its last.\<close>

definition ring_push :: "string \<Rightarrow> bool \<Rightarrow> bool \<Rightarrow> string list \<Rightarrow> string list" where
  "ring_push t at_front accumulate ring =
     (if t = [] then ring
      else if accumulate \<and> ring \<noteq> [] then butlast ring @ [if at_front then t @ last ring else last ring @ t]
      else ring @ [t])"

definition ring_rotate :: "string list \<Rightarrow> string list" where
  "ring_rotate ring = (if length ring > 1 then last ring # butlast ring else ring)"

definition kill :: "string \<Rightarrow> bool \<Rightarrow> bool \<Rightarrow> editor \<Rightarrow> editor" where
  "kill t at_front accumulate s =
     s\<lparr>kill_ring := ring_push t at_front accumulate (kill_ring s), last_action := Some Kill\<rparr>"

section \<open>The registries of pastes and images\<close>

definition remove_images :: "nat list \<Rightarrow> editor \<Rightarrow> editor" where
  "remove_images ids s = s\<lparr>images := filter (\<lambda>(i, _). i \<notin> set ids) (images s)\<rparr>"

definition image_text :: "nat \<Rightarrow> string" where
  "image_text i = ''[Image '' @ nat_text i @ '']''"

definition remove_images_from_text :: "string \<Rightarrow> editor \<Rightarrow> editor" where
  "remove_images_from_text t s =
     remove_images
       [i. (_, _, i) \<leftarrow> image_matches 0 t, i \<in> fst ` set (images s), index_of (image_text i) 0 (get_text s) = None] s"

definition paste_text :: "nat \<Rightarrow> string \<Rightarrow> string" where
  "paste_text i suf = ''[paste #'' @ nat_text i @ suf @ '']''"

definition remap_paste :: "(nat \<times> nat) list \<Rightarrow> string \<Rightarrow> string" where
  "remap_paste ids = replace_pastes (\<lambda>m ds suf. case map_of ids (digits_value ds) of None \<Rightarrow> m | Some i \<Rightarrow> paste_text i suf)"

definition remove_pastes :: "nat list \<Rightarrow> editor \<Rightarrow> editor" where
  "remove_pastes removed s =
     (if removed = [] then s
      else
        (let remaining = filter (\<lambda>(i, _). i \<notin> set removed) (pastes s);
             ids = zip (map fst remaining) [1..<Suc (length remaining)];
             cursor_prefix = remap_paste ids (take (ed_col s) (cur_line s))
         in set_cursor_col (length cursor_prefix)
              (s\<lparr>pastes := zip [1..<Suc (length remaining)] (map snd remaining), paste_counter := int (length remaining),
                 ed_lines := map (remap_paste ids) (ed_lines s)\<rparr>)))"

text \<open>What \<open>handleBackspace\<close> does to the registry and the markers. A marker without a suffix has the
  group \<open>undefined\<close>, which the template prints.\<close>

definition shift_pastes :: "nat \<Rightarrow> (nat \<times> string) list \<Rightarrow> (nat \<times> string) list" where
  "shift_pastes target ps =
     (let ps = AList.delete target ps in
      foldl (\<lambda>ps i. AList.delete i (AList.update (i - 1) (the (map_of ps i)) ps)) ps
        (sort (filter (\<lambda>i. i > target) (map fst ps))))"

definition renumber_pastes :: "nat \<Rightarrow> string \<Rightarrow> string" where
  "renumber_pastes target =
     replace_pastes (\<lambda>m ds suf. if digits_value ds \<le> target then m
       else paste_text (digits_value ds - 1) (if suf = [] then ''undefined'' else suf))"

definition delete_paste :: "nat \<Rightarrow> editor \<Rightarrow> editor" where
  "delete_paste target s =
     s\<lparr>pastes := shift_pastes target (pastes s), paste_counter := paste_counter s - 1,
       ed_lines := map (renumber_pastes target) (ed_lines s)\<rparr>"

definition expand_paste_markers :: "editor \<Rightarrow> string \<Rightarrow> string" where
  "expand_paste_markers s t =
     foldl (\<lambda>t (i, content). replace_pastes (\<lambda>m ds suf. if ds = nat_text i then content else m) t) t (pastes s)"

end
