(* ===== verification/Editor_Commands.thy ===== *)
theory Editor_Commands
  imports Editor_State
begin

text \<open>
  The commands of the editor of \<open>packages/tui/src/components/editor.ts\<close>. A command takes the state to
  the state after it; the segmenters are passed where the code asks the platform for boundaries.
\<close>

section \<open>Inserting\<close>

text \<open>\<open>insertTextAtCursorInternal\<close> after normalization, and the same for a yanked text.\<close>

definition insert_lines :: "string \<Rightarrow> editor \<Rightarrow> editor" where
  "insert_lines t s =
     (let before = take (ed_col s) (cur_line s); after = drop (ed_col s) (cur_line s); new = text_lines t in
      if length new = 1 then set_cursor_col (ed_col s + length t) (put_line (before @ t @ after) s)
      else set_cursor_col (length (last new))
        (s\<lparr>ed_lines := take (ed_line s) (ed_lines s) @ [before @ hd new] @ butlast (tl new) @
             [last new @ after] @ drop (Suc (ed_line s)) (ed_lines s),
           ed_line := ed_line s + (length new - 1)\<rparr>))"

definition insert_text_internal :: "string \<Rightarrow> editor \<Rightarrow> editor" where
  "insert_text_internal t s = (if t = [] then s else insert_lines (normalize_text t) s)"

definition insert_text_at_cursor :: "string \<Rightarrow> editor \<Rightarrow> editor" where
  "insert_text_at_cursor t s =
     (if t = [] then s else insert_text_internal t (exit_history (set_last None (push_undo s))))"

definition insert_image_marker :: "string \<Rightarrow> editor \<Rightarrow> editor" where
  "insert_image_marker path s =
     (let s = exit_history (set_last None (push_undo s)); i = image_counter s + 1 in
      insert_text_internal (image_text i) (s\<lparr>image_counter := i, images := AList.update i path (images s)\<rparr>))"

definition insert_character :: "string \<Rightarrow> bool \<Rightarrow> editor \<Rightarrow> editor" where
  "insert_character c skip s =
     (let s = exit_history s;
          s = (if skip then s
               else set_last (Some Type_Word)
                 (if is_whitespace_char c \<or> last_action s \<noteq> Some Type_Word then push_undo s else s));
          l = cur_line s
      in set_cursor_col (ed_col s + length c) (put_line (take (ed_col s) l @ c @ drop (ed_col s) l) s))"

definition add_new_line :: "editor \<Rightarrow> editor" where
  "add_new_line s =
     (let s = push_undo (set_last None (exit_history s)); l = cur_line s;
          ls = write_line (ed_line s) (take (ed_col s) l) (ed_lines s)
      in set_cursor_col 0
        (s\<lparr>ed_lines := splice_list (ed_line s + 1) 0 [drop (ed_col s) l] ls, ed_line := ed_line s + 1\<rparr>))"

section \<open>Pasting\<close>

text \<open>\<open>ESC [ n ; 5 u\<close>, a control letter as some terminals send it inside a paste.\<close>

definition csi_at :: "string \<Rightarrow> (string \<times> string) option" where
  "csi_at s =
     Option.bind (strip_start [CHR 0x1B, CHR ''[''] s) (\<lambda>t. Option.bind (strip_digits t) (\<lambda>(ds, u).
       map_option (\<lambda>v. (ds, v)) (strip_start '';5u'' u)))"

lemma csi_at_length: "csi_at s = Some (ds, r) \<Longrightarrow> length r < length s"
  by (auto simp: csi_at_def bind_Some dest!: strip_start_length strip_digits_length)

function decode_csi :: "string \<Rightarrow> string" where
  "decode_csi [] = []"
| "decode_csi (c # cs) =
     (case csi_at (c # cs) of
        Some (ds, r) \<Rightarrow>
          (let n = digits_value ds in
           (if 97 \<le> n \<and> n \<le> 122 then [char_of (n - 96)]
            else if 65 \<le> n \<and> n \<le> 90 then [char_of (n - 64)]
            else take (Suc (length cs) - length r) (c # cs)) @ decode_csi r)
      | None \<Rightarrow> c # decode_csi cs)"
  by pat_completeness auto
termination
  by (relation "measure length") (auto dest: csi_at_length)

definition is_word_char :: "char \<Rightarrow> bool" where
  "is_word_char c \<longleftrightarrow> is_digit c \<or> c = CHR ''_'' \<or>
     (let n = of_char c :: nat in 65 \<le> n \<and> n \<le> 90 \<or> 97 \<le> n \<and> n \<le> 122)"

definition printable_paste :: "string \<Rightarrow> string" where
  "printable_paste t = filter (\<lambda>c. c = newline \<or> of_char c \<ge> (32 :: nat)) (normalize_text (decode_csi t))"

definition handle_paste :: "string \<Rightarrow> editor \<Rightarrow> editor" where
  "handle_paste pasted s =
     (let s = push_undo (set_last None (exit_history s));
          t = printable_paste pasted;
          t = (if t \<noteq> [] \<and> hd t \<in> set ''/~.'' \<and> ed_col s > 0 \<and> ed_col s - 1 < length (cur_line s) \<and>
                 is_word_char (cur_line s ! (ed_col s - 1))
               then CHR '' '' # t else t);
          n = length (text_lines t)
      in if n > 10 \<or> length t > 1000 then
           (let i = paste_counter s + 1;
                suffix = (if n > 10 then '' +'' @ nat_text n @ '' lines'' else '' '' @ nat_text (length t) @ '' chars'')
            in insert_text_internal (paste_text (nat i) suffix)
                 (s\<lparr>paste_counter := i, pastes := AList.update (nat i) t (pastes s)\<rparr>))
         else insert_text_internal t s)"

section \<open>Replacing the whole text\<close>

definition set_text_internal :: "string \<Rightarrow> bool \<Rightarrow> editor \<Rightarrow> editor" where
  "set_text_internal t at_end s =
     (let ls = text_lines t; i = (if at_end then length ls - 1 else 0) in
      set_cursor_col (if at_end then length (get_line ls i) else 0) (s\<lparr>ed_lines := ls, ed_line := i\<rparr>))"

definition set_text :: "string \<Rightarrow> editor \<Rightarrow> editor" where
  "set_text t s =
     (let s = exit_history (set_last None s); n = normalize_text t;
          s = (if get_text s \<noteq> n then push_undo s else s)
      in set_text_internal n True (s\<lparr>images := [], pastes := [], paste_counter := 0\<rparr>))"

definition submit_value :: "editor \<Rightarrow> string \<times> editor" where
  "submit_value s =
     (trim (expand_paste_markers s (get_text s)),
      set_last None (exit_history
        (s\<lparr>ed_lines := [[]], ed_line := 0, ed_col := 0, pastes := [], paste_counter := 0, undo_stack := []\<rparr>)))"

definition add_to_history :: "string \<Rightarrow> editor \<Rightarrow> editor" where
  "add_to_history t s =
     (let t = trim t; h = prompt_history s in
      if t = [] \<or> h \<noteq> [] \<and> hd h = t then s
      else s\<lparr>prompt_history := (if length (t # h) > 100 then butlast (t # h) else t # h)\<rparr>)"

text \<open>\<open>older\<close> is the direction \<open>-1\<close>.\<close>

definition navigate_history :: "bool \<Rightarrow> editor \<Rightarrow> editor" where
  "navigate_history older s0 =
     (let s = set_last None s0; i = history_index s + (if older then 1 else -1) in
      if prompt_history s = [] \<or> i < -1 \<or> i \<ge> int (length (prompt_history s)) then s
      else
        (let s = (if history_index s = -1 \<and> i \<ge> 0
                  then (push_undo s)\<lparr>history_draft := Some (ed_lines s, ed_line s, ed_col s)\<rparr> else s);
             s = s\<lparr>history_index := i\<rparr>
         in if i = -1 then
              (case history_draft s of
                 Some (ls, l, c) \<Rightarrow>
                   s\<lparr>history_draft := None, ed_lines := ls, ed_line := l, ed_col := c, preferred_col := None,
                     snapped_from := None\<rparr>
               | None \<Rightarrow> set_text_internal [] True s)
            else set_text_internal (prompt_history s ! nat i) (\<not> older) s))"

section \<open>Deleting\<close>

definition join_previous :: "editor \<Rightarrow> editor" where
  "join_previous s =
     (let previous = get_line (ed_lines s) (ed_line s - 1);
          ls = write_line (ed_line s - 1) (previous @ cur_line s) (ed_lines s)
      in set_cursor_col (length previous)
        (s\<lparr>ed_lines := splice_list (ed_line s) 1 [] ls, ed_line := ed_line s - 1\<rparr>))"

definition join_next :: "editor \<Rightarrow> editor" where
  "join_next s =
     (let ls = write_line (ed_line s) (cur_line s @ get_line (ed_lines s) (ed_line s + 1)) (ed_lines s) in
      s\<lparr>ed_lines := splice_list (ed_line s + 1) 1 [] ls\<rparr>)"

definition handle_backspace :: "segmenters \<Rightarrow> editor \<Rightarrow> editor" where
  "handle_backspace g s =
     (let s = set_last None (exit_history s) in
      if ed_col s > 0 then
        (let s = push_undo s;
             gs = segment_graphemes g s (take (ed_col s) (cur_line s));
             m = (if gs = [] then [] else fst (last gs));
             n = (if gs = [] then 1 else length m);
             s = (case paste_single m of Some i \<Rightarrow> delete_paste i s | None \<Rightarrow> s);
             l = cur_line s;
             s = set_cursor_col (ed_col s - n) (put_line (take (ed_col s - n) l @ drop (ed_col s) l) s)
         in case image_single m of Some i \<Rightarrow> remove_images [i] s | None \<Rightarrow> s)
      else if ed_line s > 0 then join_previous (push_undo s)
      else s)"

definition handle_forward_delete :: "segmenters \<Rightarrow> editor \<Rightarrow> editor" where
  "handle_forward_delete g s =
     (let s = set_last None (exit_history s); l = cur_line s in
      if ed_col s < length l then
        (let s = push_undo s;
             gs = segment_graphemes g s (drop (ed_col s) l);
             m = (if gs = [] then [] else fst (hd gs));
             n = (if gs = [] then 1 else length m);
             s = put_line (take (ed_col s) l @ drop (ed_col s + n) l) s
         in case image_single m of Some i \<Rightarrow> remove_images [i] s | None \<Rightarrow> s)
      else if ed_line s + 1 < length (ed_lines s) then join_next (push_undo s)
      else s)"

definition was_kill :: "editor \<Rightarrow> bool" where
  "was_kill s \<longleftrightarrow> last_action s = Some Kill"

definition kill_previous_newline :: "editor \<Rightarrow> editor" where
  "kill_previous_newline s =
     (if ed_line s > 0 then join_previous (kill [newline] True (was_kill s) (push_undo s)) else s)"

definition kill_next_newline :: "editor \<Rightarrow> editor" where
  "kill_next_newline s =
     (if ed_line s + 1 < length (ed_lines s) then join_next (kill [newline] False (was_kill s) (push_undo s)) else s)"

definition delete_to_start_of_line :: "editor \<Rightarrow> editor" where
  "delete_to_start_of_line s =
     (let s = exit_history s; l = cur_line s; c = ed_col s in
      if c > 0 then
        remove_images_from_text (take c l)
          (set_cursor_col 0 (put_line (drop c l) (kill (take c l) True (was_kill s) (push_undo s))))
      else kill_previous_newline s)"

definition delete_to_end_of_line :: "editor \<Rightarrow> editor" where
  "delete_to_end_of_line s =
     (let s = exit_history s; l = cur_line s; c = ed_col s in
      if c < length l then
        remove_images_from_text (drop c l) (put_line (take c l) (kill (drop c l) False (was_kill s) (push_undo s)))
      else kill_next_newline s)"

definition move_word_backwards :: "segmenters \<Rightarrow> editor \<Rightarrow> editor" where
  "move_word_backwards g s =
     (let s = set_last None s in
      if ed_col s = 0 then
        (if ed_line s > 0 then
           set_cursor_col (length (get_line (ed_lines s) (ed_line s - 1))) (s\<lparr>ed_line := ed_line s - 1\<rparr>)
         else s)
      else set_cursor_col (find_word_backward (segment_words g s) (cur_line s) (ed_col s)) s)"

definition move_word_forwards :: "segmenters \<Rightarrow> editor \<Rightarrow> editor" where
  "move_word_forwards g s =
     (let s = set_last None s in
      if ed_col s \<ge> length (cur_line s) then
        (if ed_line s + 1 < length (ed_lines s) then set_cursor_col 0 (s\<lparr>ed_line := ed_line s + 1\<rparr>) else s)
      else set_cursor_col (find_word_forward (segment_words g s) (cur_line s) (ed_col s)) s)"

definition delete_word_backwards :: "segmenters \<Rightarrow> editor \<Rightarrow> editor" where
  "delete_word_backwards g s =
     (let s = exit_history s; l = cur_line s; c = ed_col s in
      if c = 0 then kill_previous_newline s
      else
        (let s = push_undo s; was = was_kill s; moved = move_word_backwards g s; d = ed_col moved;
             t = slice l d c
         in remove_images_from_text t
              (set_cursor_col d (put_line (take d l @ drop c l) (kill t True was (set_cursor_col c moved))))))"

definition delete_word_forward :: "segmenters \<Rightarrow> editor \<Rightarrow> editor" where
  "delete_word_forward g s =
     (let s = exit_history s; l = cur_line s; c = ed_col s in
      if c \<ge> length l then kill_next_newline s
      else
        (let s = push_undo s; was = was_kill s; moved = move_word_forwards g s; d = ed_col moved;
             t = slice l c d
         in remove_images_from_text t
              (put_line (take c l @ drop d l) (kill t False was (set_cursor_col c moved)))))"

section \<open>Yanking\<close>

text \<open>\<open>insertYankedText\<close> edits the lines in place: the first, then each following one spliced in.\<close>

definition insert_yanked :: "string \<Rightarrow> editor \<Rightarrow> editor" where
  "insert_yanked t s =
     (let s = exit_history s; new = text_lines t; l = cur_line s;
          before = take (ed_col s) l; after = drop (ed_col s) l in
      if length new = 1 then set_cursor_col (ed_col s + length t) (put_line (before @ t @ after) s)
      else
        (let ls = write_line (ed_line s) (before @ hd new) (ed_lines s);
             ls = foldl (\<lambda>ls i. splice_list (ed_line s + i) 0 [new ! i] ls) ls [1..<length new - 1];
             k = ed_line s + (length new - 1)
         in set_cursor_col (length (last new)) (s\<lparr>ed_lines := splice_list k 0 [last new @ after] ls, ed_line := k\<rparr>)))"

definition delete_yanked :: "editor \<Rightarrow> editor" where
  "delete_yanked s =
     (if kill_ring s = [] \<or> last (kill_ring s) = [] then s
      else
        (let t = last (kill_ring s); old = text_lines t in
         if length old = 1 then
           set_cursor_col (ed_col s - length t)
             (put_line (take (ed_col s - length t) (cur_line s) @ drop (ed_col s) (cur_line s)) s)
         else
           (let k = ed_line s - (length old - 1);
                c = length (get_line (ed_lines s) k) - length (hd old);
                after = drop (ed_col s) (cur_line s);
                before = take c (get_line (ed_lines s) k)
            in set_cursor_col c (s\<lparr>ed_lines := splice_list k (length old) [before @ after] (ed_lines s), ed_line := k\<rparr>))))"

definition yank :: "editor \<Rightarrow> editor" where
  "yank s =
     (if kill_ring s = [] then s
      else set_last (Some Yank) (insert_yanked (last (kill_ring s)) (push_undo s)))"

definition yank_pop :: "editor \<Rightarrow> editor" where
  "yank_pop s =
     (if last_action s \<noteq> Some Yank \<or> length (kill_ring s) \<le> 1 then s
      else
        (let s = delete_yanked (push_undo s); s = s\<lparr>kill_ring := ring_rotate (kill_ring s)\<rparr> in
         set_last (Some Yank) (insert_yanked (last (kill_ring s)) s)))"

section \<open>Selections\<close>

definition remove_selection :: "editor \<Rightarrow> editor" where
  "remove_selection s =
     (case selection s of
        None \<Rightarrow> s
      | Some ((i, c), (j, d)) \<Rightarrow>
          (let ls = ed_lines s;
               selected = (if i = j then slice (get_line ls i) c d
                 else lines_text ([drop c (get_line ls i)] @ slice ls (i + 1) j @ [take d (get_line ls j)]));
               s = set_cursor_col c
                 (s\<lparr>selection := None,
                   ed_lines := splice_list i (j - i + 1) [take c (get_line ls i) @ drop d (get_line ls j)] ls,
                   ed_line := i\<rparr>)
           in remove_images_from_text selected
                (remove_pastes [k. (_, _, k) \<leftarrow> paste_matches 0 selected, k \<in> fst ` set (pastes s)] s)))"

definition delete_selection :: "editor \<Rightarrow> editor" where
  "delete_selection s =
     (if selection s = None then s else remove_selection (push_undo (set_last None (exit_history s))))"

definition replace_selection :: "string \<Rightarrow> editor \<Rightarrow> editor" where
  "replace_selection t s =
     (if selection s = None then s
      else set_last (Some Type_Word)
        (insert_character t True (remove_selection (push_undo (set_last None (exit_history s))))))"

text \<open>\<open>handleSelection\<close> and a click, at positions of the text.\<close>

definition select :: "position \<Rightarrow> position \<Rightarrow> editor \<Rightarrow> editor" where
  "select a b s =
     (if a = b then s
      else set_cursor_col (snd b) (s\<lparr>selection := Some (a, b), last_action := None, ed_line := fst b\<rparr>))"

definition click_at :: "position \<Rightarrow> editor \<Rightarrow> editor" where
  "click_at p s =
     exit_history (set_last None (set_cursor_col (snd p) (s\<lparr>selection := None, ed_line := fst p\<rparr>)))"

section \<open>Moving\<close>

definition move_line_start :: "editor \<Rightarrow> editor" where
  "move_line_start s = set_cursor_col 0 (set_last None s)"

definition move_line_end :: "editor \<Rightarrow> editor" where
  "move_line_end s = set_cursor_col (length (cur_line s)) (set_last None s)"

fun first_hit :: "('a \<Rightarrow> 'b option) \<Rightarrow> 'a list \<Rightarrow> ('a \<times> 'b) option" where
  "first_hit f [] = None"
| "first_hit f (x # xs) = (case f x of Some y \<Rightarrow> Some (x, y) | None \<Rightarrow> first_hit f xs)"

definition jump_to_char :: "string \<Rightarrow> bool \<Rightarrow> editor \<Rightarrow> editor" where
  "jump_to_char c forward s =
     (let s = set_last None s; ls = ed_lines s; k = ed_line s;
          search = (\<lambda>i.
            if forward then index_of c (if i = k then ed_col s + 1 else 0) (get_line ls i)
            else last_index_of c (if i = k then int (ed_col s) - 1 else int (length (get_line ls i))) (get_line ls i));
          order = (if forward then [k..<length ls] else rev [0..<Suc k])
      in case first_hit search order of
           None \<Rightarrow> s
         | Some (i, p) \<Rightarrow> set_cursor_col p (s\<lparr>ed_line := i\<rparr>))"

end
