(* ===== verification/Editor_Yank.thy ===== *)
theory Editor_Yank
  imports Editor_Commands
begin

text \<open>
  Killing and yanking in the editor. The state is seen as the text before and the text after the
  cursor: a kill takes a piece from the end of the one or the start of the other, a yank puts it back.
\<close>

section \<open>Lines and texts\<close>

lemma text_lines_ne [simp]: "text_lines t \<noteq> []"
  by (cases t) auto

lemma lines_text_Cons: "ls \<noteq> [] \<Longrightarrow> lines_text (l # ls) = l @ newline # lines_text ls"
  by (cases ls) auto

lemma lines_text_hd: "ls \<noteq> [] \<Longrightarrow> lines_text ((a @ hd ls) # tl ls) = a @ lines_text ls"
  by (cases ls; cases "tl ls") auto

lemma lines_text_inverse [simp]: "lines_text (text_lines t) = t"
proof (induction t)
  case (Cons c cs)
  show ?case
  proof (cases "c = newline")
    case True
    with Cons show ?thesis by (simp add: lines_text_Cons)
  next
    case False
    with Cons lines_text_hd[of "text_lines cs" "[c]"] show ?thesis by simp
  qed
qed simp

lemma lines_text_append:
  "xs \<noteq> [] \<Longrightarrow> ys \<noteq> [] \<Longrightarrow> lines_text (butlast xs @ (last xs @ hd ys) # tl ys) = lines_text xs @ lines_text ys"
proof (induction xs)
  case (Cons x xs)
  show ?case
  proof (cases "xs = []")
    case True
    with Cons.prems show ?thesis by (simp add: lines_text_hd)
  next
    case False
    with Cons show ?thesis by (simp add: lines_text_Cons)
  qed
qed simp

lemma text_lines_clean: "l \<in> set (text_lines t) \<Longrightarrow> newline \<notin> set l"
proof (induction t arbitrary: l)
  case (Cons c cs)
  then show ?case
    by (cases "text_lines cs") (auto split: if_splits)
qed simp

section \<open>The cursor in the text\<close>

text \<open>Lines above the cursor, the parts of its line, and the lines below.\<close>

definition placed :: "editor \<Rightarrow> string list \<Rightarrow> string \<Rightarrow> string \<Rightarrow> string list \<Rightarrow> bool" where
  "placed s A x y B \<longleftrightarrow> ed_lines s = A @ (x @ y) # B \<and> ed_line s = length A \<and> ed_col s = length x"

definition cursor_ok :: "editor \<Rightarrow> bool" where
  "cursor_ok s \<longleftrightarrow> ed_line s < length (ed_lines s) \<and> ed_col s \<le> length (cur_line s)"

definition text_before :: "editor \<Rightarrow> string" where
  "text_before s = lines_text (take (ed_line s) (ed_lines s) @ [take (ed_col s) (cur_line s)])"

definition text_after :: "editor \<Rightarrow> string" where
  "text_after s = lines_text (drop (ed_col s) (cur_line s) # drop (Suc (ed_line s)) (ed_lines s))"

lemma placed_cursor: "cursor_ok s \<Longrightarrow> \<exists>A x y B. placed s A x y B"
  by (intro exI[of _ "take (ed_line s) (ed_lines s)"] exI[of _ "take (ed_col s) (cur_line s)"]
      exI[of _ "drop (ed_col s) (cur_line s)"] exI[of _ "drop (Suc (ed_line s)) (ed_lines s)"])
    (auto simp: placed_def cursor_ok_def get_line_def id_take_nth_drop[symmetric])

lemma placed_line: "placed s A x y B \<Longrightarrow> cur_line s = x @ y"
  by (auto simp: placed_def get_line_def nth_append)

lemma placed_ok: "placed s A x y B \<Longrightarrow> cursor_ok s"
  using placed_line[of s A x y B] by (auto simp: cursor_ok_def) (simp_all add: placed_def)

lemma placed_before: "placed s A x y B \<Longrightarrow> text_before s = lines_text (A @ [x])"
  using placed_line[of s A x y B] by (simp add: text_before_def) (simp add: placed_def)

lemma placed_after: "placed s A x y B \<Longrightarrow> text_after s = lines_text (y # B)"
  using placed_line[of s A x y B] by (simp add: text_after_def) (simp add: placed_def)

lemma text_split: "cursor_ok s \<Longrightarrow> get_text s = text_before s @ text_after s"
proof -
  assume "cursor_ok s"
  then obtain A x y B where p: "placed s A x y B" using placed_cursor by blast
  with lines_text_append[of "A @ [x]" "y # B"] show ?thesis
    by (simp add: placed_before placed_after) (simp add: get_text_def placed_def)
qed

text \<open>Only the lines and the cursor matter.\<close>

definition same_place :: "editor \<Rightarrow> editor \<Rightarrow> bool" where
  "same_place s s' \<longleftrightarrow> ed_lines s' = ed_lines s \<and> ed_line s' = ed_line s \<and> ed_col s' = ed_col s"

lemma placed_same: "same_place s s' \<Longrightarrow> placed s' A x y B = placed s A x y B"
  by (simp add: placed_def same_place_def)

lemma same_place_simps [simp]:
  "same_place s (exit_history s)" "same_place s (set_last a s)" "same_place s (push_undo s)"
  "same_place s (kill t b c s)" "same_place s (remove_images_from_text t s)" "same_place s (remove_images is s)"
  by (simp_all add: same_place_def exit_history_def set_last_def push_undo_def kill_def remove_images_from_text_def remove_images_def)

lemma fields_kept [simp]:
  "ed_lines (exit_history s) = ed_lines s" "ed_line (exit_history s) = ed_line s" "ed_col (exit_history s) = ed_col s"
  "ed_lines (set_last a s) = ed_lines s" "ed_line (set_last a s) = ed_line s" "ed_col (set_last a s) = ed_col s"
  "ed_lines (push_undo s) = ed_lines s" "ed_line (push_undo s) = ed_line s" "ed_col (push_undo s) = ed_col s"
  "ed_lines (kill t b c s) = ed_lines s" "ed_line (kill t b c s) = ed_line s" "ed_col (kill t b c s) = ed_col s"
  "ed_lines (set_cursor_col k s) = ed_lines s" "ed_line (set_cursor_col k s) = ed_line s" "ed_col (set_cursor_col k s) = k"
  "ed_line (put_line l s) = ed_line s" "ed_col (put_line l s) = ed_col s"
  "kill_ring (exit_history s) = kill_ring s" "kill_ring (set_last a s) = kill_ring s" "kill_ring (push_undo s) = kill_ring s"
  "kill_ring (set_cursor_col k s) = kill_ring s" "kill_ring (put_line l s) = kill_ring s"
  "kill_ring (remove_images_from_text t s) = kill_ring s"
  "last_action (exit_history s) = last_action s" "last_action (set_last a s) = a" "last_action (push_undo s) = last_action s"
  "last_action (set_cursor_col k s) = last_action s" "last_action (put_line l s) = last_action s"
  "last_action (remove_images_from_text t s) = last_action s"
  "ed_lines (remove_images_from_text t s) = ed_lines s" "ed_line (remove_images_from_text t s) = ed_line s"
  "ed_col (remove_images_from_text t s) = ed_col s" "ed_lines (remove_images js s) = ed_lines s"
  "ed_line (remove_images js s) = ed_line s" "ed_col (remove_images js s) = ed_col s"
  by (simp_all add: exit_history_def set_last_def push_undo_def kill_def set_cursor_col_def put_line_def
      remove_images_from_text_def remove_images_def)

lemma col_twice [simp]: "set_cursor_col c (set_cursor_col d s) = set_cursor_col c s"
  by (simp add: set_cursor_col_def)

section \<open>Insertion\<close>

lemma one_line: "length (text_lines t) = 1 \<Longrightarrow> text_lines t = [t]"
  using lines_text_inverse[of t] by (cases "text_lines t") auto

lemma two_lines: "length (text_lines t) \<noteq> 1 \<Longrightarrow> \<exists>a m b. text_lines t = a # m @ [b]"
  by (cases "text_lines t"; cases "tl (text_lines t)" rule: rev_cases) auto

lemma put_line_lines: "placed s A x y B \<Longrightarrow> ed_lines (put_line l s) = A @ l # B"
  by (simp add: put_line_def write_line_def placed_def)

text \<open>Where an inserted text ends.\<close>

definition inserted :: "editor \<Rightarrow> string \<Rightarrow> string list \<Rightarrow> string \<Rightarrow> string \<Rightarrow> string list \<Rightarrow> bool" where
  "inserted s t A x y B \<longleftrightarrow>
     (if length (text_lines t) = 1 then placed s A (x @ t) y B
      else placed s (A @ (x @ hd (text_lines t)) # butlast (tl (text_lines t))) (last (text_lines t)) y B)"

lemma insert_lines_placed: "placed s A x y B \<Longrightarrow> inserted (insert_lines t s) t A x y B"
proof -
  assume p: "placed s A x y B"
  note l = placed_line[OF p]
  show ?thesis
  proof (cases "length (text_lines t) = 1")
    case True
    with p l put_line_lines[OF p] show ?thesis by (simp add: insert_lines_def Let_def inserted_def placed_def)
  next
    case False
    from two_lines[OF this] obtain a m b where "text_lines t = a # m @ [b]" by blast
    with p l False show ?thesis by (simp add: insert_lines_def Let_def inserted_def placed_def)
  qed
qed

lemma inserted_text:
  assumes "inserted s t A x y B"
  shows "text_before s = lines_text (A @ [x]) @ t \<and> text_after s = lines_text (y # B)"
proof (cases "length (text_lines t) = 1")
  case True
  with assms have p: "placed s A (x @ t) y B" by (simp add: inserted_def)
  have "lines_text (A @ [x @ t]) = lines_text (A @ [x]) @ t"
    using lines_text_append[of "A @ [x]" "[t]"] by simp
  with placed_before[OF p] placed_after[OF p] show ?thesis by simp
next
  case False
  from two_lines[OF this] obtain a m b where t: "text_lines t = a # m @ [b]" by blast
  with assms False have p: "placed s (A @ (x @ a) # m) b y B" by (simp add: inserted_def)
  have "lines_text (A @ (x @ a) # m @ [b]) = lines_text (A @ [x]) @ lines_text (a # m @ [b])"
    using lines_text_append[of "A @ [x]" "a # m @ [b]"] by simp
  also have "lines_text (a # m @ [b]) = t" using lines_text_inverse[of t] t by simp
  finally show ?thesis using placed_before[OF p] placed_after[OF p] by simp
qed

lemma splice_middle: "splice_list (length A) 0 [z] (A @ B) = A @ z # B"
  by (simp add: splice_list_def)

lemma splice_each:
  "foldl (\<lambda>ls i. splice_list (k + i) 0 [ms ! (i - 1)] ls) (A @ B) [Suc n..<Suc (length ms)] =
     A @ drop n ms @ B" if "length A = Suc (k + n)" "n \<le> length ms"
  using that
proof (induction "length ms - n" arbitrary: n A)
  case (Suc d)
  then have n: "n < length ms" by simp
  then have u: "[Suc n..<Suc (length ms)] = Suc n # [Suc (Suc n)..<Suc (length ms)]" by (simp add: upt_conv_Cons)
  have "splice_list (k + Suc n) 0 [ms ! n] (A @ B) = (A @ [ms ! n]) @ B" using splice_middle[of A "ms ! n" B] Suc.prems(1) by simp
  with Suc.hyps(1)[of "Suc n" "A @ [ms ! n]"] Suc.hyps(2) Suc.prems n u show ?case
    by (simp add: Cons_nth_drop_Suc[symmetric])
qed simp

lemma insert_yanked_placed: "placed s A x y B \<Longrightarrow> inserted (insert_yanked t s) t A x y B"
proof -
  assume p: "placed s A x y B"
  note l = placed_line[OF p]
  show ?thesis
  proof (cases "length (text_lines t) = 1")
    case True
    have "placed (exit_history s) A x y B" using p placed_same[of s "exit_history s"] by simp
    from put_line_lines[OF this] True p l show ?thesis by (simp add: insert_yanked_def Let_def inserted_def placed_def)
  next
    case False
    from two_lines[OF this] obtain a m b where t: "text_lines t = a # m @ [b]" by blast
    let ?A = "A @ [x @ a]"
    have w: "write_line (length A) (x @ a) (ed_lines s) = ?A @ B" using p by (simp add: placed_def write_line_def)
    have "foldl (\<lambda>ls i. splice_list (length A + i) 0 [text_lines t ! i] ls) (?A @ B) [1..<length (text_lines t) - 1] =
        foldl (\<lambda>ls i. splice_list (length A + i) 0 [m ! (i - 1)] ls) (?A @ B) [Suc 0..<Suc (length m)]"
      by (rule foldl_cong) (auto simp: t nth_append nth_Cons' simp del: upt_Suc)
    also have "\<dots> = ?A @ m @ B" using splice_each[of ?A "length A" 0 m B] by simp
    finally have f: "foldl (\<lambda>ls i. splice_list (length A + i) 0 [text_lines t ! i] ls) (?A @ B) [1..<length (text_lines t) - 1] = ?A @ m @ B" .
    have "splice_list (length A + Suc (length m)) 0 [b @ y] (?A @ m @ B) = (?A @ m) @ (b @ y) # B"
      using splice_middle[of "?A @ m" "b @ y" B] by simp
    with p l t w f show ?thesis by (simp add: insert_yanked_def Let_def inserted_def placed_def)
  qed
qed

lemma insert_yanked_text:
  assumes "cursor_ok s"
  shows "text_before (insert_yanked t s) = text_before s @ t \<and> text_after (insert_yanked t s) = text_after s \<and> cursor_ok (insert_yanked t s)"
proof -
  obtain A x y B where p: "placed s A x y B" using placed_cursor[OF assms] by blast
  note i = insert_yanked_placed[OF p, of t]
  then have "cursor_ok (insert_yanked t s)" by (auto simp: inserted_def split: if_splits dest: placed_ok)
  with inserted_text[OF i] placed_before[OF p] placed_after[OF p] show ?thesis by simp
qed

section \<open>Kills\<close>

text \<open>What a kill takes: \<open>b\<close> from before the cursor and \<open>f\<close> from after it.\<close>

definition takes :: "string \<Rightarrow> string \<Rightarrow> editor \<Rightarrow> editor \<Rightarrow> bool" where
  "takes b f s s' \<longleftrightarrow> cursor_ok s' \<and> text_before s = text_before s' @ b \<and> text_after s = f @ text_after s' \<and>
     (b = [] \<or> f = []) \<and> last_action s' = Some Kill \<and>
     kill_ring s' = ring_push (b @ f) (f = []) (last_action s = Some Kill) (kill_ring s)"

lemma join_previous_placed:
  assumes "placed s (A @ [z]) [] y B"
  shows "placed (join_previous s) A z y B"
  using assms placed_line[OF assms]
  by (simp add: join_previous_def Let_def placed_def get_line_def write_line_def splice_list_def nth_append)

lemma join_next_placed:
  assumes "placed s A x [] (z # B)"
  shows "placed (join_next s) A x z B"
  using assms placed_line[OF assms]
  by (simp add: join_next_def Let_def placed_def get_line_def write_line_def splice_list_def nth_append)

lemma join_kept [simp]:
  "kill_ring (join_previous s) = kill_ring s" "last_action (join_previous s) = last_action s"
  "kill_ring (join_next s) = kill_ring s" "last_action (join_next s) = last_action s"
  by (simp_all add: join_previous_def join_next_def Let_def set_cursor_col_def)

lemma kill_kept [simp]:
  "kill_ring (kill t b c s) = ring_push t b c (kill_ring s)" "last_action (kill t b c s) = Some Kill"
  by (simp_all add: kill_def)

lemma kill_previous_takes:
  assumes ok: "cursor_ok s" "ed_col s = 0"
  shows "kill_previous_newline s = s \<or> takes [newline] [] s (kill_previous_newline s)"
proof (cases "ed_line s > 0")
  case True
  obtain A x y B where p: "placed s A x y B" using placed_cursor[OF ok(1)] by blast
  with ok(2) True have x: "x = []" "A \<noteq> []" by (auto simp: placed_def)
  then obtain A' z where A: "A = A' @ [z]" by (metis append_butlast_last_id)
  let ?s = "kill [newline] True (was_kill s) (push_undo s)"
  have "placed ?s (A' @ [z]) [] y B" using p x A placed_same[of s ?s] by (simp add: same_place_def)
  from join_previous_placed[OF this] have j: "placed (join_previous ?s) A' z y B" .
  have "lines_text (A' @ [z, []]) = lines_text (A' @ [z]) @ [newline]" using lines_text_append[of "A' @ [z]" "[[], []]"] by simp
  with j p x A True placed_ok[OF j] placed_before[OF j] placed_after[OF j] placed_before[OF p] placed_after[OF p]
  show ?thesis by (simp add: takes_def kill_previous_newline_def was_kill_def)
qed (simp add: kill_previous_newline_def)

lemma kill_next_takes:
  assumes ok: "cursor_ok s" "ed_col s \<ge> length (cur_line s)"
  shows "kill_next_newline s = s \<or> takes [] [newline] s (kill_next_newline s)"
proof (cases "ed_line s + 1 < length (ed_lines s)")
  case True
  obtain A x y B where p: "placed s A x y B" using placed_cursor[OF ok(1)] by blast
  have "y = []" "B \<noteq> []" using p ok(2) True placed_line[OF p] by (auto simp: placed_def)
  then obtain z B' where y: "y = []" "B = z # B'" by (cases B) auto
  let ?s = "kill [newline] False (was_kill s) (push_undo s)"
  have "placed ?s A x [] (z # B')" using p y placed_same[of s ?s] by (simp add: same_place_def)
  from join_next_placed[OF this] have j: "placed (join_next ?s) A x z B'" .
  with p y True placed_ok[OF j] placed_before[OF j] placed_after[OF j] placed_before[OF p] placed_after[OF p]
  show ?thesis by (simp add: takes_def kill_next_newline_def was_kill_def)
qed (simp add: kill_next_newline_def)

lemma takes_back:
  assumes p: "placed s A (x @ d) y B" and p': "placed s' A x y B" and ring: "kill_ring s' = ring_push d True (last_action s = Some Kill) (kill_ring s)"
    and last: "last_action s' = Some Kill"
  shows "takes d [] s s'"
proof -
  have "lines_text (A @ [x @ d]) = lines_text (A @ [x]) @ d" using lines_text_append[of "A @ [x]" "[d]"] by simp
  with assms placed_ok[OF p'] placed_before[OF p] placed_before[OF p'] placed_after[OF p] placed_after[OF p'] show ?thesis
    by (simp add: takes_def)
qed

lemma takes_forward:
  assumes p: "placed s A x (d @ y) B" and p': "placed s' A x y B" and ring: "kill_ring s' = ring_push d (d = []) (last_action s = Some Kill) (kill_ring s)"
    and last: "last_action s' = Some Kill"
  shows "takes [] d s s'"
proof -
  have "lines_text ((d @ y) # B) = d @ lines_text (y # B)" using lines_text_hd[of "y # B" d] by simp
  with assms placed_ok[OF p'] placed_before[OF p] placed_before[OF p'] placed_after[OF p] placed_after[OF p'] show ?thesis
    by (simp add: takes_def)
qed

lemma ring_push_Nil [simp]: "ring_push [] b c ring = ring"
  by (simp add: ring_push_def)

lemma put_placed: "placed s A x y B \<Longrightarrow> placed (set_cursor_col (length x') (put_line (x' @ y') s)) A x' y' B"
  using put_line_lines[of s A x y B "x' @ y'"] by (simp add: placed_def)

lemma put_placed_here: "placed s A x y B \<Longrightarrow> placed (put_line (x @ y') s) A x y' B"
  using put_line_lines[of s A x y B "x @ y'"] by (simp add: placed_def)

lemma placed_kept [simp]:
  "placed (exit_history s) A x y B = placed s A x y B" "placed (push_undo s) A x y B = placed s A x y B"
  "placed (set_last a s) A x y B = placed s A x y B" "placed (kill t b c s) A x y B = placed s A x y B"
  "placed (remove_images_from_text t s) A x y B = placed s A x y B" "placed (remove_images is s) A x y B = placed s A x y B"
  by (simp_all add: placed_same)

lemma takes_exit: "takes b f (exit_history s) s' = takes b f s s'"
  by (simp add: takes_def text_before_def text_after_def)

lemma cursor_ok_exit [simp]: "cursor_ok (exit_history s) = cursor_ok s"
  by (simp add: cursor_ok_def)

lemma text_exit [simp]: "get_text (exit_history s) = get_text s"
  by (simp add: get_text_def)

text \<open>A killing command takes a piece, or finds nothing to take.\<close>

definition kills :: "editor \<Rightarrow> editor \<Rightarrow> bool" where
  "kills s s' \<longleftrightarrow> s' = exit_history s \<or> (\<exists>b f. takes b f s s')"

lemma start_of_line_kills: "cursor_ok s \<Longrightarrow> kills s (delete_to_start_of_line s)"
proof (cases "ed_col s > 0")
  case True
  assume "cursor_ok s"
  then obtain A x y B where p: "placed s A x y B" using placed_cursor by blast
  then have e: "placed (exit_history s) A ([] @ x) y B" by simp
  note l = placed_line[OF e]
  let ?k = "kill x True (was_kill (exit_history s)) (push_undo (exit_history s))"
  have "placed (set_cursor_col (length []) (put_line ([] @ y) ?k)) A [] y B" using put_placed[of ?k A x y B "[]" y] e by simp
  then have "takes x [] (exit_history s) (delete_to_start_of_line s)"
    by (intro takes_back[OF e]) (use True p l in \<open>simp_all add: delete_to_start_of_line_def Let_def placed_def was_kill_def\<close>)
  then show ?thesis by (auto simp: kills_def takes_exit)
next
  case False
  assume "cursor_ok s"
  with False kill_previous_takes[of "exit_history s"] show ?thesis
    by (auto simp: kills_def takes_exit delete_to_start_of_line_def Let_def)
qed

lemma end_of_line_kills: "cursor_ok s \<Longrightarrow> kills s (delete_to_end_of_line s)"
proof (cases "ed_col s < length (cur_line s)")
  case True
  assume "cursor_ok s"
  then obtain A x y B where p: "placed s A x y B" using placed_cursor by blast
  then have e: "placed (exit_history s) A x (y @ []) B" by simp
  note l = placed_line[OF e]
  have y: "y \<noteq> []" using True p placed_line[OF p] by (simp add: placed_def)
  let ?k = "kill y False (was_kill (exit_history s)) (push_undo (exit_history s))"
  have "placed (put_line (x @ []) ?k) A x [] B" using put_placed_here[of ?k A x y B "[]"] e by simp
  then have "takes [] y (exit_history s) (delete_to_end_of_line s)"
    by (intro takes_forward[OF e]) (use True p l y in \<open>simp_all add: delete_to_end_of_line_def Let_def placed_def was_kill_def\<close>)
  then show ?thesis by (auto simp: kills_def takes_exit)
next
  case False
  assume "cursor_ok s"
  with False kill_next_takes[of "exit_history s"] show ?thesis
    by (auto simp: kills_def takes_exit delete_to_end_of_line_def Let_def)
qed

lemma move_back_col:
  assumes "ed_col s > 0"
  obtains d where "move_word_backwards g s = set_cursor_col d (set_last None s)" "d \<le> ed_col s"
  using assms find_word_backward_le that by (auto simp: move_word_backwards_def Let_def segment_words_def set_last_def)

lemma move_forward_col:
  assumes "cuts (words g)" "ed_col s < length (cur_line s)"
  obtains d where "move_word_forwards g s = set_cursor_col d (set_last None s)" "ed_col s \<le> d" "d \<le> length (cur_line s)"
proof -
  let ?f = "segment_words g (set_last None s)"
  have "seg_sum (?f t) \<le> length t" for t unfolding segment_words_def by (rule segments_sum[OF assms(1)])
  then have "find_word_forward ?f (cur_line s) (ed_col s) \<le> length (cur_line s)" by (rule find_word_forward_le)
  moreover have "ed_col s \<le> find_word_forward ?f (cur_line s) (ed_col s)" using assms(2) by (simp add: find_word_forward_def)
  ultimately show ?thesis using assms(2) that by (simp add: move_word_forwards_def Let_def)
qed

lemma slice_pieces:
  "d \<le> length x \<Longrightarrow> slice (x @ y) d (length x) = drop d x" "slice (x @ y) (length x) d = take (d - length x) y"
  by (simp_all add: slice_def)

lemma was_kill_kept [simp]: "was_kill (exit_history s) = was_kill s" "was_kill (push_undo s) = was_kill s"
  by (simp_all add: was_kill_def)

lemma placed_col: "placed s A x y B \<Longrightarrow> ed_col s = length x"
  by (simp add: placed_def)

lemma word_back_kills: "cursor_ok s \<Longrightarrow> kills s (delete_word_backwards g s)"
proof (cases "ed_col s = 0")
  case True
  assume "cursor_ok s"
  with True kill_previous_takes[of "exit_history s"] show ?thesis
    by (auto simp: kills_def takes_exit delete_word_backwards_def Let_def)
next
  case False
  assume "cursor_ok s"
  then obtain A x y B where p: "placed s A x y B" using placed_cursor by blast
  let ?s = "push_undo (exit_history s)"
  obtain d where d: "move_word_backwards g ?s = set_cursor_col d (set_last None ?s)" "d \<le> ed_col s"
    using move_back_col[of ?s g] False by (metis fields_kept(3,9) gr0I)
  have dx: "d \<le> length x" using d(2) p by (simp add: placed_def)
  have e: "placed (exit_history s) A (take d x @ drop d x) y B" using p by simp
  note l = placed_line[OF e]
  let ?k = "kill (drop d x) True (was_kill (exit_history s)) (set_cursor_col (length x) (set_last None ?s))"
  have "placed ?k A x y B" using p by (simp add: placed_def)
  from put_placed[OF this, of "take d x" y] have "placed (set_cursor_col d (put_line (take d x @ y) ?k)) A (take d x) y B"
    using dx by (simp only: length_take min_absorb2)
  then have "placed (delete_word_backwards g s) A (take d x) y B"
    using False l d dx placed_col[OF p] by (simp add: delete_word_backwards_def Let_def slice_pieces)
  then have "takes (drop d x) [] (exit_history s) (delete_word_backwards g s)"
    by (intro takes_back[OF e])
      (use False l d dx placed_col[OF p] in \<open>simp_all add: delete_word_backwards_def Let_def was_kill_def slice_pieces\<close>)
  then show ?thesis by (auto simp: kills_def takes_exit)
qed

lemma word_forward_kills:
  assumes g: "cuts (words g)" and ok: "cursor_ok s"
  shows "kills s (delete_word_forward g s)"
proof (cases "ed_col s < length (cur_line s)")
  case False
  with ok kill_next_takes[of "exit_history s"] show ?thesis
    by (auto simp: kills_def takes_exit delete_word_forward_def Let_def)
next
  case True
  obtain A x y B where p: "placed s A x y B" using placed_cursor ok by blast
  let ?s = "push_undo (exit_history s)"
  obtain d where d: "move_word_forwards g ?s = set_cursor_col d (set_last None ?s)" "ed_col s \<le> d" "d \<le> length (cur_line s)"
    using move_forward_col[of g ?s, OF g] True by (metis fields_kept(1,2,3,7,8,9))
  define z where "z = take (d - ed_col s) y"
  have y: "y = z @ drop (d - ed_col s) y" by (simp add: z_def)
  have e: "placed (exit_history s) A x (z @ drop (d - ed_col s) y) B" using p by (simp add: z_def)
  note l = placed_line[OF p]
  let ?k = "kill z False (was_kill (exit_history s)) (set_cursor_col (length x) (set_last None ?s))"
  have "placed ?k A x y B" using p by (simp add: placed_def)
  from put_placed_here[OF this] have "placed (put_line (x @ drop (d - ed_col s) y) ?k) A x (drop (d - ed_col s) y) B" .
  then have "placed (delete_word_forward g s) A x (drop (d - ed_col s) y) B"
    using True l d placed_col[OF p] by (simp add: delete_word_forward_def Let_def slice_pieces z_def)
  then have "takes [] z (exit_history s) (delete_word_forward g s)"
    by (intro takes_forward[OF e])
      (use True l d placed_col[OF p] in \<open>simp_all add: delete_word_forward_def Let_def was_kill_def slice_pieces z_def ring_push_def\<close>)
  then show ?thesis by (auto simp: kills_def takes_exit)
qed

section \<open>A run of kills\<close>

text \<open>One of the four killing commands, when it finds something to take, and an unbroken run of them.\<close>

definition kill_step :: "segmenters \<Rightarrow> editor \<Rightarrow> editor \<Rightarrow> bool" where
  "kill_step g s s' \<longleftrightarrow>
     (s' = delete_to_start_of_line s \<or> s' = delete_to_end_of_line s \<or> s' = delete_word_backwards g s \<or>
      s' = delete_word_forward g s) \<and> get_text s' \<noteq> get_text s"

inductive kill_run :: "segmenters \<Rightarrow> editor \<Rightarrow> editor \<Rightarrow> bool" where
  first: "kill_step g s s' \<Longrightarrow> kill_run g s s'"
| more: "kill_run g s0 s \<Longrightarrow> kill_step g s s' \<Longrightarrow> kill_run g s0 s'"

lemma kill_step_takes:
  assumes "cuts (words g)" "cursor_ok s" "kill_step g s s'"
  obtains b f where "takes b f s s'" "b @ f \<noteq> []"
proof -
  have "kills s s'"
    using assms start_of_line_kills end_of_line_kills word_back_kills word_forward_kills by (auto simp: kill_step_def)
  moreover have "s' \<noteq> exit_history s" using assms(3) by (metis kill_step_def text_exit)
  ultimately obtain b f where t: "takes b f s s'" by (auto simp: kills_def)
  have "b @ f \<noteq> []"
  proof
    assume "b @ f = []"
    with t assms(2) have "get_text s' = get_text s" by (simp add: takes_def text_split)
    with assms(3) show False by (simp add: kill_step_def)
  qed
  with t show thesis by (rule that)
qed

definition killed_from :: "editor \<Rightarrow> editor \<Rightarrow> bool" where
  "killed_from s0 s \<longleftrightarrow> cursor_ok s \<and> last_action s = Some Kill \<and>
     (\<exists>b f. kill_ring s = kill_ring s0 @ [b @ f] \<and> text_before s0 = text_before s @ b \<and> text_after s0 = f @ text_after s)"

lemma killed_first: "takes b f s s' \<Longrightarrow> b @ f \<noteq> [] \<Longrightarrow> last_action s \<noteq> Some Kill \<Longrightarrow> killed_from s s'"
  by (auto simp: takes_def killed_from_def ring_push_def)

lemma killed_more:
  assumes "killed_from s0 s" "takes b f s s'" "b @ f \<noteq> []"
  shows "killed_from s0 s'"
proof -
  from assms(1) obtain b0 f0 where k: "last_action s = Some Kill" "kill_ring s = kill_ring s0 @ [b0 @ f0]"
      "text_before s0 = text_before s @ b0" "text_after s0 = f0 @ text_after s" by (auto simp: killed_from_def)
  show ?thesis
  proof (cases "f = []")
    case True
    with assms(2,3) k have "kill_ring s' = kill_ring s0 @ [(b @ b0) @ f0]" "text_before s0 = text_before s' @ (b @ b0)"
      "text_after s0 = f0 @ text_after s'" by (auto simp: takes_def ring_push_def)
    with assms(2) show ?thesis unfolding killed_from_def takes_def by blast
  next
    case False
    with assms(2,3) k have "kill_ring s' = kill_ring s0 @ [b0 @ (f0 @ f)]" "text_before s0 = text_before s' @ b0"
      "text_after s0 = (f0 @ f) @ text_after s'" by (auto simp: takes_def ring_push_def)
    with assms(2) show ?thesis unfolding killed_from_def takes_def by blast
  qed
qed

lemma kill_run_killed:
  "kill_run g s0 s \<Longrightarrow> cuts (words g) \<Longrightarrow> cursor_ok s0 \<Longrightarrow> last_action s0 \<noteq> Some Kill \<Longrightarrow> killed_from s0 s"
proof (induction rule: kill_run.induct)
  case (first g s s')
  then show ?case using kill_step_takes killed_first by metis
next
  case (more g s0 s s')
  then have k: "killed_from s0 s" by blast
  then have "cursor_ok s" by (simp add: killed_from_def)
  with more k show ?case using kill_step_takes killed_more by metis
qed

lemma yank_text:
  assumes "cursor_ok s" "kill_ring s \<noteq> []"
  shows "text_before (yank s) = text_before s @ last (kill_ring s) \<and> text_after (yank s) = text_after s \<and> cursor_ok (yank s)"
proof -
  have "text_before (push_undo s) = text_before s" "text_after (push_undo s) = text_after s"
    "cursor_ok (push_undo s) = cursor_ok s" "text_before (set_last a s') = text_before s'" "text_after (set_last a s') = text_after s'"
    "cursor_ok (set_last a s') = cursor_ok s'" for a s'
    by (simp_all add: text_before_def text_after_def cursor_ok_def)
  with insert_yanked_text[of "push_undo s" "last (kill_ring s)"] assms show ?thesis by (simp add: yank_def)
qed

text \<open>
  C34: A yank undoes a run of kills. Take any unbroken run of the four killing commands (to the start
  of the line, to its end, the word before the cursor, the word after it), in any order and across
  line ends, each taking something. All they took is then one entry of the kill ring, and yanking it
  restores the text the run began with, whichever sides of the cursor the pieces came from. The
  hypotheses are that the platform's word segments are consecutive pieces of the line, that the
  cursor is in the text and that the command before the run was not a kill.
\<close>

theorem kill_then_yank:
  assumes "kill_run g s0 s" "cuts (words g)" "cursor_ok s0" "last_action s0 \<noteq> Some Kill"
  shows "get_text (yank s) = get_text s0 \<and> length (kill_ring s) = Suc (length (kill_ring s0))"
proof -
  from kill_run_killed[OF assms] obtain b f where k: "cursor_ok s" "kill_ring s = kill_ring s0 @ [b @ f]"
      "text_before s0 = text_before s @ b" "text_after s0 = f @ text_after s" by (auto simp: killed_from_def)
  with yank_text[of s] assms(3) show ?thesis by (simp add: text_split)
qed

section \<open>Popping through the ring\<close>

lemma delete_yanked_placed:
  assumes i: "inserted s t A x y B" and r: "kill_ring s \<noteq> []" "last (kill_ring s) = t"
  shows "placed (delete_yanked s) A x y B"
proof (cases "length (text_lines t) = 1")
  case True
  with i have p: "placed s A (x @ t) y B" by (simp add: inserted_def)
  show ?thesis
  proof (cases "t = []")
    case True
    with p r show ?thesis by (simp add: delete_yanked_def)
  next
    case False
    with put_placed[OF p, of x y] True r placed_line[OF p] placed_col[OF p] show ?thesis by (simp add: delete_yanked_def Let_def)
  qed
next
  case False
  from two_lines[OF this] obtain a m b where t: "text_lines t = a # m @ [b]" by blast
  then have "t \<noteq> []" by auto
  from False i t have p: "placed s (A @ (x @ a) # m) b y B" by (simp add: inserted_def)
  have k: "get_line (ed_lines s) (length A) = x @ a" using p by (simp add: placed_def get_line_def nth_append)
  have "ed_lines s = A @ ((x @ a) # m @ [b @ y]) @ B" "ed_line s = length A + Suc (length m)" using p by (simp_all add: placed_def)
  with \<open>t \<noteq> []\<close> p t k r placed_line[OF p] placed_col[OF p] show ?thesis
    by (simp add: delete_yanked_def Let_def placed_def splice_list_def)
qed

text \<open>After a yank at a place, and \<open>n\<close> pops.\<close>

definition yanked_at :: "string list \<Rightarrow> string list \<Rightarrow> string \<Rightarrow> string \<Rightarrow> string list \<Rightarrow> editor \<Rightarrow> bool" where
  "yanked_at ring A x y B s \<longleftrightarrow>
     inserted s (last ring) A x y B \<and> kill_ring s = ring \<and> ring \<noteq> [] \<and> last_action s = Some Yank"

lemma inserted_kept [simp]:
  "inserted (set_last a s) t A x y B = inserted s t A x y B" "inserted (push_undo s) t A x y B = inserted s t A x y B"
  by (simp_all add: inserted_def)

lemma insert_yanked_ring [simp]: "kill_ring (insert_yanked t s) = kill_ring s"
  by (simp add: insert_yanked_def Let_def)

lemma delete_yanked_ring [simp]: "kill_ring (delete_yanked s) = kill_ring s"
  by (simp add: delete_yanked_def Let_def)

lemma yank_yanked: "placed s A x y B \<Longrightarrow> kill_ring s \<noteq> [] \<Longrightarrow> yanked_at (kill_ring s) A x y B (yank s)"
  by (simp add: yank_def yanked_at_def insert_yanked_placed)

lemma rotate_ne [simp]: "ring_rotate ring = [] \<longleftrightarrow> ring = []"
  by (auto simp: ring_rotate_def)

lemma pop_yanked: "yanked_at ring A x y B s \<Longrightarrow> yanked_at (ring_rotate ring) A x y B (yank_pop s)"
proof -
  assume y: "yanked_at ring A x y B s"
  show ?thesis
  proof (cases "length ring \<le> 1")
    case True
    with y show ?thesis by (simp add: yank_pop_def yanked_at_def ring_rotate_def)
  next
    case False
    have "placed (delete_yanked (push_undo s)) A x y B"
      by (rule delete_yanked_placed[where t = "last ring"]) (use y in \<open>simp_all add: yanked_at_def\<close>)
    then have "placed (delete_yanked (push_undo s)\<lparr>kill_ring := ring_rotate ring\<rparr>) A x y B" by (simp add: placed_def)
    from insert_yanked_placed[OF this] False y show ?thesis by (simp add: yank_pop_def yanked_at_def Let_def)
  qed
qed

lemma pops_yanked: "yanked_at ring A x y B s \<Longrightarrow> yanked_at ((ring_rotate ^^ n) ring) A x y B ((yank_pop ^^ n) s)"
  by (induction n) (simp_all add: pop_yanked)

lemma rotate_rotates: "n \<le> length ring \<Longrightarrow> (ring_rotate ^^ n) ring = drop (length ring - n) ring @ take (length ring - n) ring"
proof (induction n)
  case (Suc n)
  let ?k = "length ring - Suc n"
  have k: "length ring - n = Suc ?k" "?k < length ring" using Suc.prems by simp_all
  have one: "ring \<noteq> [] \<Longrightarrow> \<not> Suc 0 < length ring \<Longrightarrow> ring = [ring ! 0]" by (cases ring) auto
  have "(ring_rotate ^^ Suc n) ring = ring_rotate (drop (Suc ?k) ring @ take (Suc ?k) ring)" using Suc k by simp
  also have "\<dots> = ring ! ?k # drop (Suc ?k) ring @ take ?k ring"
    using k(2) one by (cases "length ring > 1") (auto simp: ring_rotate_def take_Suc_conv_app_nth butlast_append)
  finally show ?case using k(2) by (simp add: Cons_nth_drop_Suc)
qed simp

lemma rotate_around: "(ring_rotate ^^ length ring) ring = ring"
  by (simp add: rotate_rotates)

text \<open>
  C37: Yank-pop walks the ring. However many times it is pressed after a yank, the text is what stood
  before the cursor, one whole entry of the kill ring, and what stood after, with nothing of the
  earlier entries left behind, whether they had one line or many; the entry is the last of the ring
  rotated that often. After as many pops as the ring has entries, the text is the one the yank gave.
\<close>

theorem yank_pop_cycles:
  assumes "cursor_ok s" "kill_ring s \<noteq> []"
  shows "get_text ((yank_pop ^^ n) (yank s)) = text_before s @ last ((ring_rotate ^^ n) (kill_ring s)) @ text_after s \<and>
     kill_ring ((yank_pop ^^ n) (yank s)) = (ring_rotate ^^ n) (kill_ring s) \<and>
     get_text ((yank_pop ^^ length (kill_ring s)) (yank s)) = get_text (yank s)"
proof -
  obtain A x y B where p: "placed s A x y B" using placed_cursor[OF assms(1)] by blast
  have y: "yanked_at ((ring_rotate ^^ m) (kill_ring s)) A x y B ((yank_pop ^^ m) (yank s))" for m
    using yank_yanked[OF p assms(2)] by (rule pops_yanked)
  have t: "get_text ((yank_pop ^^ m) (yank s)) = text_before s @ last ((ring_rotate ^^ m) (kill_ring s)) @ text_after s" for m
  proof -
    have i: "inserted ((yank_pop ^^ m) (yank s)) (last ((ring_rotate ^^ m) (kill_ring s))) A x y B" using y by (simp add: yanked_at_def)
    then have "cursor_ok ((yank_pop ^^ m) (yank s))" by (auto simp: inserted_def split: if_splits dest: placed_ok)
    with inserted_text[OF i] placed_before[OF p] placed_after[OF p] show ?thesis by (simp add: text_split)
  qed
  with t[of 0] t[of "length (kill_ring s)"] y[of n] show ?thesis by (simp add: rotate_around yanked_at_def)
qed

section \<open>Instances\<close>

text \<open>Every character its own segment; letters are words.\<close>

definition letter_segments :: segmenters where
  "letter_segments = \<lparr>graphemes = map (\<lambda>c. ([c], True)), words = map (\<lambda>c. ([c], is_word_char c))\<rparr>"

lemma letter_cuts: "cuts (words letter_segments)" "cuts (graphemes letter_segments)"
proof -
  have "concat (map (\<lambda>c. [c]) t) = t" for t :: string by (induction t) auto
  then show "cuts (words letter_segments)" "cuts (graphemes letter_segments)"
    by (auto simp: cuts_def letter_segments_def comp_def)
qed

definition two_line_editor :: editor where
  "two_line_editor = new_editor\<lparr>ed_lines := [''ab cd'', ''ef''], ed_col := 3, kill_ring := [''old'', ''x'']\<rparr>"

theorem kill_then_yank_witness:
  "get_text (delete_to_end_of_line (delete_word_backwards letter_segments (delete_to_end_of_line two_line_editor))) = ''aef'' \<and>
   get_text (yank (delete_to_end_of_line (delete_word_backwards letter_segments (delete_to_end_of_line two_line_editor)))) =
     get_text two_line_editor"
proof
  let ?a = "delete_to_end_of_line two_line_editor"
  let ?b = "delete_word_backwards letter_segments ?a"
  show "get_text (delete_to_end_of_line ?b) = ''aef''" by code_simp
  have "kill_step letter_segments two_line_editor ?a" unfolding kill_step_def by (intro conjI disjI2 disjI1 refl) code_simp
  moreover have "kill_step letter_segments ?a ?b" unfolding kill_step_def by (rule conjI, blast, code_simp)
  moreover have "kill_step letter_segments ?b (delete_to_end_of_line ?b)" unfolding kill_step_def by (rule conjI, blast, code_simp)
  ultimately have r: "kill_run letter_segments two_line_editor (delete_to_end_of_line ?b)" by (blast intro: kill_run.intros)
  have "cursor_ok two_line_editor" "last_action two_line_editor \<noteq> Some Kill" by code_simp+
  with kill_then_yank[OF r letter_cuts(1)] show "get_text (yank (delete_to_end_of_line ?b)) = get_text two_line_editor" by simp
qed

theorem yank_pop_cycles_witness:
  "get_text (yank_pop (yank two_line_editor)) = ''ab oldcd'' @ [newline] @ ''ef'' \<and>
   get_text (yank_pop (yank_pop (yank two_line_editor))) = get_text (yank two_line_editor)"
proof -
  have o: "cursor_ok two_line_editor" and r: "kill_ring two_line_editor = [''old'', ''x'']" by code_simp+
  have "text_before two_line_editor = ''ab ''" "text_after two_line_editor = ''cd'' @ [newline] @ ''ef''" by code_simp+
  with yank_pop_cycles[OF o, of 1] r show ?thesis by (simp add: numeral_2_eq_2 ring_rotate_def)
qed

end
