(* ===== verification/Editor_Undo.thy ===== *)
theory Editor_Undo
  imports Editor_Yank
begin

text \<open>
  Undo. Every command as a value, and what one undo gives back after it: the document before the
  command, or before the word that was being typed.
\<close>

section \<open>Commands as values\<close>

datatype command =
    Insert_Text string | Insert_Image string | Type_Char string | New_Line | Paste string | Set_Text string
  | Older | Newer | Backspace | Forward_Delete | Kill_Start | Kill_End | Kill_Word_Back | Kill_Word_Forward
  | Do_Yank | Do_Yank_Pop | Delete_Selection | Replace_Selection string | Select position position | Click position
  | Line_Start | Line_End | Word_Back | Word_Forward | Jump string bool

fun run_command :: "segmenters \<Rightarrow> command \<Rightarrow> editor \<Rightarrow> editor" where
  "run_command g (Insert_Text t) s = insert_text_at_cursor t s"
| "run_command g (Insert_Image p) s = insert_image_marker p s"
| "run_command g (Type_Char c) s = insert_character c False s"
| "run_command g New_Line s = add_new_line s"
| "run_command g (Paste t) s = handle_paste t s"
| "run_command g (Set_Text t) s = set_text t s"
| "run_command g Older s = navigate_history True s"
| "run_command g Newer s = navigate_history False s"
| "run_command g Backspace s = handle_backspace g s"
| "run_command g Forward_Delete s = handle_forward_delete g s"
| "run_command g Kill_Start s = delete_to_start_of_line s"
| "run_command g Kill_End s = delete_to_end_of_line s"
| "run_command g Kill_Word_Back s = delete_word_backwards g s"
| "run_command g Kill_Word_Forward s = delete_word_forward g s"
| "run_command g Do_Yank s = yank s"
| "run_command g Do_Yank_Pop s = yank_pop s"
| "run_command g Delete_Selection s = delete_selection s"
| "run_command g (Replace_Selection t) s = replace_selection t s"
| "run_command g (Select a b) s = select a b s"
| "run_command g (Click p) s = click_at p s"
| "run_command g Line_Start s = move_line_start s"
| "run_command g Line_End s = move_line_end s"
| "run_command g Word_Back s = move_word_backwards g s"
| "run_command g Word_Forward s = move_word_forwards g s"
| "run_command g (Jump c f) s = jump_to_char c f s"

text \<open>Typing that goes on with a word, and stepping on through the history, leave the undo stack alone.\<close>

fun coalesces :: "command \<Rightarrow> editor \<Rightarrow> bool" where
  "coalesces (Type_Char c) s = (last_action s = Some Type_Word \<and> \<not> is_whitespace_char c)"
| "coalesces Older s = (history_index s \<noteq> -1)"
| "coalesces Newer s = (history_index s \<noteq> -1)"
| "coalesces c s = False"

section \<open>What a command pushes\<close>

text \<open>Nothing but the undo stack is looked at.\<close>

lemma stack_kept [simp]:
  "undo_stack (exit_history s) = undo_stack s" "undo_stack (set_last a s) = undo_stack s"
  "undo_stack (kill t b c s) = undo_stack s" "undo_stack (set_cursor_col k s) = undo_stack s"
  "undo_stack (put_line l s) = undo_stack s" "undo_stack (remove_images js s) = undo_stack s"
  "undo_stack (push_undo s) = take_snapshot s # undo_stack s"
  by (simp_all add: exit_history_def set_last_def kill_def set_cursor_col_def put_line_def remove_images_def push_undo_def)

lemma stack_kept_registries [simp]:
  "undo_stack (remove_images_from_text t s) = undo_stack s" "undo_stack (remove_pastes js s) = undo_stack s"
  "undo_stack (delete_paste j s) = undo_stack s"
  by (simp_all add: remove_images_from_text_def remove_pastes_def delete_paste_def Let_def)

lemma stack_kept_lines [simp]:
  "undo_stack (join_previous s) = undo_stack s" "undo_stack (join_next s) = undo_stack s"
  "undo_stack (insert_lines t s) = undo_stack s" "undo_stack (set_text_internal t e s) = undo_stack s"
  by (simp_all add: join_previous_def join_next_def insert_lines_def set_text_internal_def Let_def)

lemma stack_kept_insertions [simp]:
  "undo_stack (insert_text_internal t s) = undo_stack s" "undo_stack (insert_character ch True s) = undo_stack s"
  by (simp_all add: insert_text_internal_def insert_character_def Let_def)

lemma stack_kept_yanks [simp]:
  "undo_stack (insert_yanked t s) = undo_stack s" "undo_stack (delete_yanked s) = undo_stack s"
  by (simp_all add: insert_yanked_def delete_yanked_def Let_def)

lemma stack_kept_moves [simp]:
  "undo_stack (remove_selection s) = undo_stack s"
  "undo_stack (move_word_backwards g s) = undo_stack s" "undo_stack (move_word_forwards g s) = undo_stack s"
  by (simp_all add: remove_selection_def move_word_backwards_def move_word_forwards_def Let_def split: option.split prod.split)

lemma snapshot_kept [simp]:
  "take_snapshot (exit_history s) = take_snapshot s" "take_snapshot (set_last a s) = take_snapshot s"
  by (simp_all add: take_snapshot_def exit_history_def set_last_def)

text \<open>A command either pushes the document it started from, or leaves the stack and the text.\<close>

definition recorded :: "editor \<Rightarrow> editor \<Rightarrow> bool" where
  "recorded s s' \<longleftrightarrow>
     undo_stack s' = take_snapshot s # undo_stack s \<or> undo_stack s' = undo_stack s \<and> get_text s' = get_text s"

lemma text_kept [simp]:
  "get_text (set_last a s) = get_text s" "get_text (set_cursor_col k s) = get_text s"
  by (simp_all add: get_text_def)

lemma recorded_insertions:
  "recorded s (insert_text_at_cursor t s)" "recorded s (insert_image_marker p s)" "recorded s (add_new_line s)"
  "recorded s (handle_paste t s)" "\<not> coalesces (Type_Char c) s \<Longrightarrow> recorded s (insert_character c False s)"
  by (auto simp: recorded_def insert_text_at_cursor_def insert_image_marker_def add_new_line_def handle_paste_def
      insert_character_def Let_def)

lemma stack_kept_options [simp]:
  "undo_stack (case k of None \<Rightarrow> s | Some i \<Rightarrow> delete_paste i s) = undo_stack s"
  "undo_stack (case k of None \<Rightarrow> s | Some i \<Rightarrow> remove_images [i] s) = undo_stack s"
  by (cases k; simp)+

lemma recorded_deletions: "recorded s (handle_backspace g s)" "recorded s (handle_forward_delete g s)"
  unfolding recorded_def handle_backspace_def handle_forward_delete_def Let_def by simp_all

lemma recorded_kills:
  "recorded s (delete_to_start_of_line s)" "recorded s (delete_to_end_of_line s)"
  "recorded s (delete_word_backwards g s)" "recorded s (delete_word_forward g s)"
  by (auto simp: recorded_def delete_to_start_of_line_def delete_to_end_of_line_def delete_word_backwards_def
      delete_word_forward_def kill_previous_newline_def kill_next_newline_def Let_def)

lemma recorded_yanks: "recorded s (yank s)" "recorded s (yank_pop s)"
  by (auto simp: recorded_def yank_def yank_pop_def Let_def)

lemma recorded_selections: "recorded s (delete_selection s)" "recorded s (replace_selection t s)"
  by (auto simp: recorded_def delete_selection_def replace_selection_def)

lemma recorded_moves:
  "recorded s (select a b s)" "recorded s (click_at p s)" "recorded s (move_line_start s)" "recorded s (move_line_end s)"
  "recorded s (move_word_backwards g s)" "recorded s (move_word_forwards g s)" "recorded s (jump_to_char c f s)"
  by (auto simp: recorded_def select_def click_at_def move_line_start_def move_line_end_def move_word_backwards_def
      move_word_forwards_def jump_to_char_def get_text_def Let_def split: option.split)

lemma set_text_internal_text [simp]: "get_text (set_text_internal t e s) = t"
  by (simp add: set_text_internal_def get_text_def Let_def)

lemma recorded_set_text: "recorded s (set_text t s)"
  by (simp add: recorded_def set_text_def Let_def)

lemma set_last_history [simp]:
  "history_index (set_last a s) = history_index s" "prompt_history (set_last a s) = prompt_history s"
  by (simp_all add: set_last_def)

lemma recorded_history: "history_index s = -1 \<Longrightarrow> recorded s (navigate_history older s)"
  by (auto simp: recorded_def navigate_history_def Let_def)

lemma command_recorded: "\<not> coalesces c s \<Longrightarrow> recorded s (run_command g c s)"
  by (cases c) (simp_all add: recorded_insertions recorded_deletions recorded_kills recorded_yanks recorded_selections
      recorded_moves recorded_set_text recorded_history)

section \<open>What undo restores\<close>

lemma typing_goes_on:
  "last_action s = Some Type_Word \<Longrightarrow> list_all (\<lambda>d. \<not> is_whitespace_char d) ds \<Longrightarrow>
   undo_stack (foldl (\<lambda>s d. run_command g (Type_Char d) s) s ds) = undo_stack s"
proof (induction ds arbitrary: s)
  case (Cons d ds)
  let ?s = "insert_character d False s"
  have "undo_stack ?s = undo_stack s" "last_action ?s = Some Type_Word"
    using Cons.prems by (simp_all add: insert_character_def Let_def)
  with Cons show ?case by simp
qed simp

definition same_document :: "editor \<Rightarrow> editor \<Rightarrow> bool" where
  "same_document s s' \<longleftrightarrow>
     ed_lines s' = ed_lines s \<and> ed_line s' = ed_line s \<and> ed_col s' = ed_col s \<and> pastes s' = pastes s \<and>
     paste_counter s' = paste_counter s \<and> images s' = images s \<and> undo_stack s' = undo_stack s"

lemma undo_pushed:
  assumes "undo_stack s' = take_snapshot s # undo_stack s"
  shows "same_document s (undo s') \<and> (list_all (\<lambda>(i, _). i \<le> image_counter s) (images s) \<longrightarrow> image_counter (undo s') = image_counter s)"
proof
  show "same_document s (undo s')" using assms by (simp add: same_document_def undo_def Let_def take_snapshot_def)
  have "image_counter (undo s') = Max (set (image_counter s # 0 # map fst (images s)))"
    using assms by (simp add: undo_def Let_def take_snapshot_def)
  moreover have "Max (set (image_counter s # 0 # map fst (images s))) = image_counter s"
    if "list_all (\<lambda>(i, _). i \<le> image_counter s) (images s)"
    using that by (intro Max_eqI) (auto simp: list_all_iff)
  ultimately show "list_all (\<lambda>(i, _). i \<le> image_counter s) (images s) \<longrightarrow> image_counter (undo s') = image_counter s" by simp
qed

text \<open>
  C35: Undo goes back to the document before the command. Let a command change the text, other than a
  character that goes on with a word or a further step through the history; let any number of
  characters of a word be typed after it, when it was itself typing. Then one undo restores the
  lines, the cursor, the pastes with their counter, the images, and the undo stack as they were
  before the command, and the image counter where it covers the images.
\<close>

theorem undo_restores:
  assumes "\<not> coalesces c s" "get_text (run_command g c s) \<noteq> get_text s"
    "ds = [] \<or> last_action (run_command g c s) = Some Type_Word" "list_all (\<lambda>d. \<not> is_whitespace_char d) ds"
  shows "same_document s (undo (foldl (\<lambda>s d. run_command g (Type_Char d) s) (run_command g c s) ds)) \<and>
    (list_all (\<lambda>(i, _). i \<le> image_counter s) (images s) \<longrightarrow>
       image_counter (undo (foldl (\<lambda>s d. run_command g (Type_Char d) s) (run_command g c s) ds)) = image_counter s)"
proof (rule undo_pushed)
  have "undo_stack (run_command g c s) = take_snapshot s # undo_stack s"
    using command_recorded[OF assms(1), of g] assms(2) by (simp add: recorded_def)
  with assms(3,4) typing_goes_on[of "run_command g c s" ds g]
  show "undo_stack (foldl (\<lambda>s d. run_command g (Type_Char d) s) (run_command g c s) ds) = take_snapshot s # undo_stack s"
    by auto
qed

definition typed_word :: "string \<Rightarrow> editor" where
  "typed_word t = foldl (\<lambda>s d. run_command letter_segments (Type_Char d) s)
     (run_command letter_segments (Type_Char '' '') two_line_editor) (map (\<lambda>c. [c]) t)"

theorem undo_restores_witness:
  "get_text (typed_word ''new'') = ''ab  newcd'' @ [newline] @ ''ef'' \<and> same_document two_line_editor (undo (typed_word ''new''))"
proof
  show "get_text (typed_word ''new'') = ''ab  newcd'' @ [newline] @ ''ef''" by code_simp
  have "\<not> coalesces (Type_Char '' '') two_line_editor" by code_simp
  moreover have "get_text (run_command letter_segments (Type_Char '' '') two_line_editor) \<noteq> get_text two_line_editor" by code_simp
  moreover have "last_action (run_command letter_segments (Type_Char '' '') two_line_editor) = Some Type_Word" by code_simp
  moreover have "list_all (\<lambda>d. \<not> is_whitespace_char d) (map (\<lambda>c. [c]) ''new'')" by code_simp
  ultimately show "same_document two_line_editor (undo (typed_word ''new''))"
    unfolding typed_word_def using undo_restores by blast
qed

end
