(* ===== verification/Editor_Marker_Text.thy ===== *)
theory Editor_Marker_Text
  imports Editor_Markers
begin

text \<open>
  What the marker patterns of \<open>components/editor.ts\<close> match, as sets of texts: from it, that matches never
  overlap, that the segmenter makes each registered marker one segment, and how replacing markers
  goes over the parts of a text.
\<close>

section \<open>The texts of the patterns\<close>

lemma strip_start_iff: "strip_start p s = Some t \<longleftrightarrow> s = p @ t"
  by (induction p s rule: strip_start.induct) auto

lemma strip_start_append [simp]: "strip_start p (p @ t) = Some t"
  by (simp add: strip_start_iff)

definition digits :: "string \<Rightarrow> bool" where
  "digits ds \<longleftrightarrow> ds \<noteq> [] \<and> (\<forall>c \<in> set ds. is_digit c)"

lemma strip_digits_iff: "strip_digits s = Some (ds, t) \<longleftrightarrow> digits ds \<and> s = ds @ t \<and> (t = [] \<or> \<not> is_digit (hd t))"
proof
  assume "strip_digits s = Some (ds, t)"
  then have "ds = takeWhile is_digit s" "t = dropWhile is_digit s" "ds \<noteq> []"
    by (auto simp: strip_digits_def split: list.splits)
  then show "digits ds \<and> s = ds @ t \<and> (t = [] \<or> \<not> is_digit (hd t))"
    using hd_dropWhile[of is_digit s] by (auto simp: digits_def dest: set_takeWhileD)
next
  assume *: "digits ds \<and> s = ds @ t \<and> (t = [] \<or> \<not> is_digit (hd t))"
  then have "takeWhile is_digit s = ds" "dropWhile is_digit s = t"
    by (cases t; auto simp: digits_def)+
  with * show "strip_digits s = Some (ds, t)" by (auto simp: strip_digits_def digits_def split: list.split)
qed

lemma not_digit [simp]: "\<not> is_digit CHR '' ''" "\<not> is_digit CHR '']''" "\<not> is_digit CHR ''[''" "\<not> is_digit CHR ''+''"
  by (simp_all add: is_digit_def)

text \<open>The group of \<open>PASTE_MARKER_REGEX\<close> after the id.\<close>

definition suffix_text :: "string \<Rightarrow> bool" where
  "suffix_text suf \<longleftrightarrow>
     suf = [] \<or> (\<exists>ds. digits ds \<and> (suf = '' +'' @ ds @ '' lines'' \<or> suf = '' '' @ ds @ '' chars''))"

lemma paste_suffix_iff: "paste_suffix s = Some (suf, r) \<longleftrightarrow> suf \<noteq> [] \<and> suffix_text suf \<and> s = suf @ r"
proof (cases "strip_start '' +'' s")
  case (Some t)
  then have s: "s = '' +'' @ t" by (simp add: strip_start_iff)
  have "paste_suffix s = Some (suf, r) \<longleftrightarrow> (\<exists>ds. digits ds \<and> t = ds @ '' lines'' @ r \<and> suf = '' +'' @ ds @ '' lines'')"
    using Some by (auto simp: paste_suffix_def bind_Some strip_digits_iff strip_start_iff)
  moreover have "\<not> (digits ds \<and> s = ('' '' @ ds @ '' chars'') @ r)" for ds
    by (cases ds) (auto simp: s digits_def)
  ultimately show ?thesis by (auto simp: suffix_text_def s)
next
  case None
  then have n: "s \<noteq> '' +'' @ t" for t by (metis strip_start_append option.distinct(1))
  have "paste_suffix s = Some (suf, r) \<longleftrightarrow> (\<exists>ds. digits ds \<and> s = '' '' @ ds @ '' chars'' @ r \<and> suf = '' '' @ ds @ '' chars'')"
    using None by (auto simp: paste_suffix_def bind_Some strip_digits_iff strip_start_iff)
  moreover have "\<forall>ds. s \<noteq> ('' +'' @ ds @ '' lines'') @ r"
  proof
    show "s \<noteq> ('' +'' @ ds @ '' lines'') @ r" for ds using n[of "ds @ '' lines'' @ r"] by simp
  qed
  ultimately show ?thesis unfolding suffix_text_def by auto
qed

lemma paste_at_iff:
  "paste_at s = Some (ds, suf, r) \<longleftrightarrow> digits ds \<and> suffix_text suf \<and> s = ''[paste #'' @ ds @ suf @ '']'' @ r"
proof
  assume "paste_at s = Some (ds, suf, r)"
  then obtain t u where t: "strip_start ''[paste #'' s = Some t" "strip_digits t = Some (ds, u)"
    and m: "(case strip_start '']'' u of Some v \<Rightarrow> Some (ds, [], v)
       | None \<Rightarrow> Option.bind (paste_suffix u) (\<lambda>(suf, v). map_option (\<lambda>w. (ds, suf, w)) (strip_start '']'' v))) = Some (ds, suf, r)"
    by (auto simp: paste_at_def bind_Some split: option.splits)
  from m have "suffix_text suf \<and> u = suf @ '']'' @ r"
    by (cases "strip_start '']'' u") (auto simp: bind_Some paste_suffix_iff strip_start_iff suffix_text_def)
  with t show "digits ds \<and> suffix_text suf \<and> s = ''[paste #'' @ ds @ suf @ '']'' @ r"
    by (simp add: strip_start_iff strip_digits_iff)
next
  assume *: "digits ds \<and> suffix_text suf \<and> s = ''[paste #'' @ ds @ suf @ '']'' @ r"
  have "\<not> is_digit (hd (suf @ '']'' @ r))" using * by (auto simp: suffix_text_def)
  with * have t: "strip_start ''[paste #'' s = Some (ds @ suf @ '']'' @ r)"
    "strip_digits (ds @ suf @ '']'' @ r) = Some (ds, suf @ '']'' @ r)"
    by (simp_all only: strip_start_append strip_digits_iff) simp_all
  show "paste_at s = Some (ds, suf, r)"
  proof (cases "suf = []")
    case True
    with t show ?thesis by (simp add: paste_at_def bind_Some)
  next
    case False
    with * have "strip_start '']'' (suf @ '']'' @ r) = None" by (auto simp: suffix_text_def)
    moreover from False * have "paste_suffix (suf @ '']'' @ r) = Some (suf, '']'' @ r)" by (simp only: paste_suffix_iff) simp
    ultimately show ?thesis using t by (simp add: paste_at_def bind_Some)
  qed
qed

lemma image_at_iff: "image_at s = Some (ds, r) \<longleftrightarrow> digits ds \<and> s = ''[Image '' @ ds @ '']'' @ r"
proof
  assume "image_at s = Some (ds, r)"
  then show "digits ds \<and> s = ''[Image '' @ ds @ '']'' @ r"
    by (auto simp: image_at_def bind_Some strip_start_iff strip_digits_iff)
next
  assume *: "digits ds \<and> s = ''[Image '' @ ds @ '']'' @ r"
  then have "strip_digits (ds @ '']'' @ r) = Some (ds, '']'' @ r)" by (simp add: strip_digits_iff)
  with * show "image_at s = Some (ds, r)" by (simp add: image_at_def bind_Some)
qed

section \<open>Matches do not overlap\<close>

definition bracketed :: "string \<Rightarrow> bool" where
  "bracketed M \<longleftrightarrow> (\<exists>t. M = ''['' @ t @ '']'' \<and> CHR ''['' \<notin> set t \<and> CHR '']'' \<notin> set t)"

lemma bracketed_nth:
  assumes "bracketed M"
  shows "2 \<le> length M" "M ! 0 = CHR ''[''" "M ! (length M - 1) = CHR '']''"
    and "0 < k \<Longrightarrow> k < length M \<Longrightarrow> M ! k \<noteq> CHR ''[''" "Suc k < length M \<Longrightarrow> M ! k \<noteq> CHR '']''"
proof -
  from assms obtain t where M: "M = CHR ''['' # t @ '']''" "CHR ''['' \<notin> set t" "CHR '']'' \<notin> set t"
    by (auto simp: bracketed_def)
  show "2 \<le> length M" "M ! 0 = CHR ''[''" "M ! (length M - 1) = CHR '']''" by (simp_all add: M nth_append)
  show "0 < k \<Longrightarrow> k < length M \<Longrightarrow> M ! k \<noteq> CHR ''[''"
    using M(2) by (cases k) (auto simp: M(1) nth_append in_set_conv_nth less_Suc_eq)
  show "Suc k < length M \<Longrightarrow> M ! k \<noteq> CHR '']''"
    using M(3) by (cases k) (auto simp: M(1) nth_append in_set_conv_nth)
qed

lemma digits_plain: "digits ds \<Longrightarrow> CHR ''['' \<notin> set ds \<and> CHR '']'' \<notin> set ds"
  by (auto simp: digits_def)

lemma suffix_plain: "suffix_text suf \<Longrightarrow> CHR ''['' \<notin> set suf \<and> CHR '']'' \<notin> set suf"
  by (auto simp: suffix_text_def dest: digits_plain)

lemma paste_bracketed: "paste_at s = Some (ds, suf, r) \<Longrightarrow> \<exists>M. s = M @ r \<and> bracketed M"
  by (intro exI[of _ "''[paste #'' @ ds @ suf @ '']''"])
    (auto simp: paste_at_iff bracketed_def dest: digits_plain suffix_plain intro: exI[of _ "''paste #'' @ ds @ suf"])

lemma image_bracketed: "image_at s = Some (ds, r) \<Longrightarrow> \<exists>M. s = M @ r \<and> bracketed M"
  by (intro exI[of _ "''[Image '' @ ds @ '']''"])
    (auto simp: image_at_iff bracketed_def dest: digits_plain intro: exI[of _ "''Image '' @ ds"])

lemma match_slice:
  assumes "t = drop i line" "t = M @ r"
  shows "slice line i (i + (length t - length r)) = M" "r = drop (i + (length t - length r)) line"
proof -
  have n: "length t - length r = length M" by (simp add: assms(2))
  have d: "drop i line = M @ r" using assms by simp
  then show "slice line i (i + (length t - length r)) = M" by (simp add: n slice_def)
  from d have "drop (length M) (drop i line) = r" by simp
  then show "r = drop (i + (length t - length r)) line" by (simp add: n add.commute)
qed

lemma paste_matches_bracketed:
  "(s, e, d) \<in> set (paste_matches i t) \<Longrightarrow> t = drop i line \<Longrightarrow> bracketed (slice line s e)"
proof (induction i t rule: paste_matches.induct)
  case (2 i c cs)
  show ?case
  proof (cases "paste_at (c # cs)")
    case None
    have "cs = drop (Suc i) line" using 2(4) by (metis drop_Suc list.sel(3) tl_drop)
    with None 2(1,3) show ?thesis by simp
  next
    case (Some m)
    obtain ds suf r where m: "m = (ds, suf, r)" by (cases m)
    obtain M where M: "c # cs = M @ r" "bracketed M" using paste_bracketed Some m by blast
    let ?j = "i + (Suc (length cs) - length r)"
    have cut: "slice line i ?j = M" "r = drop ?j line" using match_slice[OF 2(4) M(1)] by simp_all
    from 2(3) Some m have "(s, e, d) = (i, ?j, digits_value ds) \<or> (s, e, d) \<in> set (paste_matches ?j r)" by (simp add: Let_def)
    with cut(1) M(2) 2(2)[OF Some[unfolded m] refl refl refl] cut(2) show ?thesis by blast
  qed
qed simp

lemma image_matches_bracketed:
  "(s, e, d) \<in> set (image_matches i t) \<Longrightarrow> t = drop i line \<Longrightarrow> bracketed (slice line s e)"
proof (induction i t rule: image_matches.induct)
  case (2 i c cs)
  show ?case
  proof (cases "image_at (c # cs)")
    case None
    have "cs = drop (Suc i) line" using 2(4) by (metis drop_Suc list.sel(3) tl_drop)
    with None 2(1,3) show ?thesis by simp
  next
    case (Some m)
    obtain ds r where m: "m = (ds, r)" by (cases m)
    obtain M where M: "c # cs = M @ r" "bracketed M" using image_bracketed Some m by blast
    let ?j = "i + (Suc (length cs) - length r)"
    have cut: "slice line i ?j = M" "r = drop ?j line" using match_slice[OF 2(4) M(1)] by simp_all
    from 2(3) Some m have "(s, e, d) = (i, ?j, digits_value ds) \<or> (s, e, d) \<in> set (image_matches ?j r)" by (simp add: Let_def)
    with cut(1) M(2) 2(2)[OF Some[unfolded m] refl refl] cut(2) show ?thesis by blast
  qed
qed simp

lemma marker_bracketed: "(s, e) \<in> set (marker_spans pastes images t) \<Longrightarrow> bracketed (slice t s e)"
  by (auto simp: marker_spans_def split: if_splits
      dest: paste_matches_bracketed[of _ _ _ 0 _ t] image_matches_bracketed[of _ _ _ 0 _ t])

lemma slice_bracketed:
  assumes "bracketed (slice t s e)" "e \<le> length t"
  shows "s + 2 \<le> e" "t ! s = CHR ''[''" "t ! (e - 1) = CHR '']''"
    and "s < k \<Longrightarrow> k < e \<Longrightarrow> t ! k \<noteq> CHR ''[''" "s \<le> k \<Longrightarrow> Suc k < e \<Longrightarrow> t ! k \<noteq> CHR '']''"
proof -
  note b = bracketed_nth[OF assms(1)]
  have len: "length (slice t s e) = e - s" using assms(2) by (simp add: slice_def)
  with b(1) show le: "s + 2 \<le> e" by simp
  with assms(2) have nth: "slice t s e ! j = t ! (s + j)" if "j < e - s" for j using that by (simp add: slice_def)
  from b(2) nth[of 0] le show "t ! s = CHR ''[''" by simp
  from b(3) nth[of "e - s - 1"] le len show "t ! (e - 1) = CHR '']''" by simp
  show "s < k \<Longrightarrow> k < e \<Longrightarrow> t ! k \<noteq> CHR ''[''" using b(4)[of "k - s"] nth[of "k - s"] len by simp
  show "s \<le> k \<Longrightarrow> Suc k < e \<Longrightarrow> t ! k \<noteq> CHR '']''" using b(5)[of "k - s"] nth[of "k - s"] len by simp
qed

lemma no_overlap:
  assumes "bracketed (slice t s e)" "bracketed (slice t s' e')" "e \<le> length t" "e' \<le> length t" "s \<le> s'" "s' < e"
  shows "s = s' \<and> e = e'"
proof -
  note one = slice_bracketed[OF assms(1,3)] and two = slice_bracketed[OF assms(2,4)]
  have s: "s = s'" using one(4)[of s'] two(2) assms(5,6) by force
  moreover have "\<not> e < e'" using two(5)[of "e - 1"] one(1,3) s by force
  moreover have "\<not> e' < e" using one(5)[of "e' - 1"] two(1,3) s by force
  ultimately show ?thesis by simp
qed

section \<open>A registered marker is one segment\<close>

definition whole_spans :: "string \<Rightarrow> (nat \<times> nat) list \<Rightarrow> bool" where
  "whole_spans t ms \<longleftrightarrow> sorted (map fst ms) \<and>
     (\<forall>(s, e) \<in> set ms. s < e \<and> e \<le> length t \<and> bracketed (slice t s e))"

lemma whole_marker_spans: "whole_spans t (marker_spans pastes images t)"
proof -
  have "sorted (map fst (marker_spans pastes images t))" by (simp add: marker_spans_def)
  with marker_spans_ok[of pastes images t] marker_bracketed[of _ _ pastes images t] show ?thesis
    unfolding whole_spans_def by blast
qed

lemma whole_spans_drop:
  assumes "whole_spans t ms"
  shows "whole_spans t (dropWhile P ms)"
proof -
  have "map fst (dropWhile P ms) = drop (length (takeWhile P ms)) (map fst ms)" by (simp add: dropWhile_eq_drop drop_map)
  moreover have "sorted (map fst ms)" using assms unfolding whole_spans_def by blast
  ultimately have "sorted (map fst (dropWhile P ms))" by (simp add: sorted_wrt_drop)
  moreover have "set (dropWhile P ms) \<subseteq> set ms" by (auto dest: set_dropWhileD)
  ultimately show ?thesis using assms unfolding whole_spans_def by blast
qed

text \<open>The first marker that does not end at or before a place within a marker is that marker.\<close>

lemma whole_span_at:
  assumes "whole_spans t ms" "(s, e) \<in> set ms" "s \<le> a" "a < e"
  shows "\<exists>rest. dropWhile (\<lambda>(s, e). e \<le> a) ms = (s, e) # rest"
proof -
  have "(s, e) \<in> set (dropWhile (\<lambda>(s, e). e \<le> a) ms)"
    using assms(2,4) by (induction ms) auto
  then obtain s' e' rest where d: "dropWhile (\<lambda>(s, e). e \<le> a) ms = (s', e') # rest"
    by (metis list.set_cases surj_pair)
  have "\<not> e' \<le> a" using hd_dropWhile[of "\<lambda>(s, e). e \<le> a" ms] d by simp
  moreover have w: "whole_spans t ((s', e') # rest)" using whole_spans_drop[OF assms(1)] unfolding d[symmetric] .
  moreover have "(s, e) \<in> set ((s', e') # rest)" using \<open>(s, e) \<in> set (dropWhile _ _)\<close> d by simp
  ultimately have "s' \<le> s" "bracketed (slice t s' e')" "bracketed (slice t s e)" "e' \<le> length t" "e \<le> length t" "s < e'"
    using assms(3) by (auto simp: whole_spans_def)
  with no_overlap[of t s' e' s e] d show ?thesis by blast
qed

lemma place_step:
  assumes "drop a line = concat (map fst ((g, w) # gs))" "\<forall>x \<in> set ((g, w) # gs). fst x \<noteq> []"
  shows "a < length line" "drop (a + length g) line = concat (map fst gs)" "\<forall>x \<in> set gs. fst x \<noteq> []"
proof -
  have d: "drop a line = g @ concat (map fst gs)" "g \<noteq> []" using assms by simp_all
  then show "a < length line" by (metis append_is_Nil_conv drop_all not_le)
  have "drop (length g) (drop a line) = concat (map fst gs)" using d(1) by simp
  then show "drop (a + length g) line = concat (map fst gs)" by (simp add: add.commute)
  show "\<forall>x \<in> set gs. fst x \<noteq> []" using assms(2) by simp
qed

lemma merge_first:
  assumes "whole_spans line ms" "(a, e) \<in> set ms" "gs \<noteq> []"
  shows "\<exists>segs. merge_markers line ms (place_segments a gs) = (slice line a e, a, False) # segs"
proof -
  obtain g w gs' where gs: "gs = (g, w) # gs'" using assms(3) by (metis list.exhaust surj_pair)
  have "a < e" using assms(1,2) by (auto simp: whole_spans_def)
  with whole_span_at[OF assms(1,2)] gs show ?thesis by fastforce
qed

lemma merge_inside:
  "whole_spans line ms \<Longrightarrow> (i, length line) \<in> set ms \<Longrightarrow> i < a \<Longrightarrow> drop a line = concat (map fst gs) \<Longrightarrow>
     \<forall>x \<in> set gs. fst x \<noteq> [] \<Longrightarrow> merge_markers line ms (place_segments a gs) = []"
proof (induction gs arbitrary: a ms)
  case (Cons x gs)
  obtain g w where x: "x = (g, w)" by fastforce
  note st = place_step[OF Cons.prems(4,5)[unfolded x]]
  from whole_span_at[OF Cons.prems(1,2) _ st(1)] Cons.prems(3) obtain rest where
    d: "dropWhile (\<lambda>(s, e). e \<le> a) ms = (i, length line) # rest" by auto
  have "whole_spans line ((i, length line) # rest)" using whole_spans_drop[OF Cons.prems(1)] unfolding d[symmetric] .
  from Cons.IH[OF this _ _ st(2,3)] Cons.prems(3) d st(1) x show ?case by simp
qed simp

lemma merge_last:
  "whole_spans line ms \<Longrightarrow> (i, length line) \<in> set ms \<Longrightarrow> i \<in> (\<lambda>x. fst (snd x)) ` set (place_segments a gs) \<Longrightarrow>
     drop a line = concat (map fst gs) \<Longrightarrow> \<forall>x \<in> set gs. fst x \<noteq> [] \<Longrightarrow>
     merge_markers line ms (place_segments a gs) \<noteq> [] \<and>
     last (merge_markers line ms (place_segments a gs)) = (drop i line, i, False)"
proof (induction gs arbitrary: a ms)
  case (Cons x gs)
  obtain g w where x: "x = (g, w)" by fastforce
  note st = place_step[OF Cons.prems(4,5)[unfolded x]]
  have i: "i < length line" using Cons.prems(1,2) by (auto simp: whole_spans_def)
  show ?case
  proof (cases "i = a")
    case True
    with whole_span_at[OF Cons.prems(1,2) _ i] obtain rest where
      d: "dropWhile (\<lambda>(s, e). e \<le> a) ms = (i, length line) # rest" by auto
    have w: "whole_spans line ((i, length line) # rest)" using whole_spans_drop[OF Cons.prems(1)] unfolding d[symmetric] .
    have "i < a + length g" using Cons.prems(5) x True by simp
    with merge_inside[OF w, of i "a + length g" gs] st(2,3) have "merge_markers line ((i, length line) # rest) (place_segments (a + length g) gs) = []" by simp
    with d True i x show ?thesis by simp
  next
    case False
    with Cons.prems(3) x have later: "i \<in> (\<lambda>x. fst (snd x)) ` set (place_segments (a + length g) gs)" by auto
    have a: "a < i"
    proof -
      have "b \<le> j" if "j \<in> (\<lambda>x. fst (snd x)) ` set (place_segments b gs)" for b j
        using that by (induction b gs rule: place_segments.induct) (auto, force)
      from this[OF later] Cons.prems(5) x show ?thesis by (cases g) auto
    qed
    define ms' where "ms' = dropWhile (\<lambda>(s, e). e \<le> a) ms"
    have w: "whole_spans line ms'" unfolding ms'_def by (rule whole_spans_drop[OF Cons.prems(1)])
    have m: "(i, length line) \<in> set ms'" unfolding ms'_def using Cons.prems(2) a i by (induction ms) auto
    note rest = Cons.IH[OF w m later st(2,3)]
    obtain s e ms'' where s: "ms' = (s, e) # ms''" using m by (metis list.set_cases surj_pair)
    with rest x show ?thesis by (auto simp flip: ms'_def)
  qed
qed simp

text \<open>The segmenter on a text that ends in a registered marker, and on one that starts with one.\<close>

definition segment_starts :: "(string \<Rightarrow> (string \<times> bool) list) \<Rightarrow> string \<Rightarrow> nat set" where
  "segment_starts base t = (\<lambda>x. fst (snd x)) ` set (place_segments 0 (base t))"

lemma segment_last:
  assumes "cuts base" "(i, length t) \<in> set (marker_spans pastes images t)" "i \<in> segment_starts base t"
  shows "segment_with_markers t base pastes images \<noteq> [] \<and>
    last (segment_with_markers t base pastes images) = (drop i t, i, False)"
proof -
  have "marker_spans pastes images t \<noteq> []" using assms(2) by auto
  moreover have "drop 0 t = concat (map fst (base t))" "\<forall>x \<in> set (base t). fst x \<noteq> []"
    using assms(1) by (simp_all add: cuts_def)
  ultimately show ?thesis
    using merge_last[OF whole_marker_spans assms(2) assms(3)[unfolded segment_starts_def]]
    by (simp add: segment_with_markers_def Let_def)
qed

lemma segment_first:
  assumes "cuts base" "(0, e) \<in> set (marker_spans pastes images t)"
  shows "\<exists>segs. segment_with_markers t base pastes images = (take e t, 0, False) # segs"
proof -
  have m: "marker_spans pastes images t \<noteq> []" using assms(2) by auto
  have "0 < e \<and> e \<le> length t" using assms(2) marker_spans_ok[of pastes images t] by blast
  moreover have "concat (map fst (base t)) = t" using assms(1) by (simp add: cuts_def)
  ultimately have "base t \<noteq> []" by auto
  from merge_first[OF whole_marker_spans assms(2) this] m show ?thesis
    by (auto simp: segment_with_markers_def Let_def)
qed

section \<open>Replacing markers\<close>

definition paste_marker :: "string \<Rightarrow> string \<Rightarrow> string" where
  "paste_marker ds suf = ''[paste #'' @ ds @ suf @ '']''"

lemma paste_single_text:
  assumes "paste_single m = Some i"
  obtains ds suf where "digits ds" "suffix_text suf" "m = paste_marker ds suf" "i = digits_value ds"
proof -
  from assms obtain ds suf where "paste_at m = Some (ds, suf, [])" "i = digits_value ds"
    by (auto simp: paste_single_def split: option.splits list.splits)
  then show thesis by (intro that[of ds suf]) (simp_all add: paste_at_iff paste_marker_def)
qed

lemma replace_marker:
  assumes "digits ds" "suffix_text suf"
  shows "replace_pastes f (paste_marker ds suf @ r) = f (paste_marker ds suf) ds suf @ replace_pastes f r"
proof -
  let ?m = "paste_marker ds suf"
  obtain c cs where c: "?m @ r = c # cs" "c # cs = ?m @ r" by (simp add: paste_marker_def)
  have "paste_at (c # cs) = Some (ds, suf, r)" unfolding c(2) using assms by (simp add: paste_at_iff paste_marker_def)
  moreover have "Suc (length cs) - length r = length ?m" using arg_cong[OF c(1), of length] by simp
  ultimately have "replace_pastes f (c # cs) = f (take (length ?m) (c # cs)) ds suf @ replace_pastes f r" by simp
  then show ?thesis unfolding c(2) by simp
qed

lemma paste_at_extend: "paste_at s = Some (ds, suf, r) \<Longrightarrow> paste_at (s @ t) = Some (ds, suf, r @ t)"
  by (simp add: paste_at_iff)

lemma no_paste_across:
  assumes "paste_at x = None" "x \<noteq> []"
  shows "paste_at (x @ ''['' @ z) = None"
proof (rule ccontr)
  assume "paste_at (x @ ''['' @ z) \<noteq> None"
  then obtain ds suf r where m: "paste_at (x @ ''['' @ z) = Some (ds, suf, r)" by fastforce
  then have ok: "digits ds" "suffix_text suf" "x @ ''['' @ z = paste_marker ds suf @ r" by (simp_all add: paste_at_iff paste_marker_def)
  have not: "x \<noteq> paste_marker ds suf @ us" for us using assms(1) ok by (auto simp: paste_marker_def) (metis append_Cons append_Nil append_assoc option.distinct(1) paste_at_iff)
  from ok(3) not obtain us where us: "paste_marker ds suf = x @ us" "us @ r = ''['' @ z"
    by (auto simp: append_eq_append_conv2)
  with not[of "[]"] obtain us' where "us = CHR ''['' # us'" by (cases us) auto
  with us(1) assms(2) have "CHR ''['' \<in> set (tl (paste_marker ds suf))" by (cases x) auto
  with ok show False by (auto simp: paste_marker_def dest: digits_plain suffix_plain)
qed

lemma replace_before:
  "replace_pastes f (x @ ''['' @ z) = replace_pastes f x @ replace_pastes f (''['' @ z)"
proof (induction f x rule: replace_pastes.induct)
  case (2 f c cs)
  show ?case
  proof (cases "paste_at (c # cs)")
    case None
    with no_paste_across[OF None, of z] 2 show ?thesis by simp
  next
    case (Some m)
    obtain ds suf r where m: "m = (ds, suf, r)" by (cases m)
    with Some have p: "paste_at (c # cs) = Some (ds, suf, r)" by simp
    have "take (Suc (length cs) - length r) (c # cs @ ''['' @ z) = take (Suc (length cs) - length r) (c # cs)"
      using take_append[of "Suc (length cs) - length r" "c # cs" "''['' @ z"] by simp
    with paste_at_extend[OF p, of "''['' @ z"] 2(2)[OF p refl refl] p show ?thesis by (simp add: Suc_diff_le)
  qed
qed simp

lemma replace_around:
  assumes "digits ds" "suffix_text suf"
  shows "replace_pastes f (x @ paste_marker ds suf @ y) =
    replace_pastes f x @ f (paste_marker ds suf) ds suf @ replace_pastes f y"
  using replace_before[of f x "tl (paste_marker ds suf) @ y"] replace_marker[OF assms, of f y]
  by (simp add: paste_marker_def)

end
