(* ===== verification/Editor_Units.thy ===== *)
theory Editor_Units
  imports Editor_Undo Editor_Marker_Text
begin

text \<open>
  Backspace and forward delete take one unit: a segment of the line, a registered marker always whole,
  or the line end. A backspace over a paste marker also renumbers the markers left, with the exceptions
  at the end.
\<close>

section \<open>The unit at the cursor\<close>








lemma registries_kept [simp]:
  "pastes (exit_history s) = pastes s" "pastes (set_last a s) = pastes s" "pastes (push_undo s) = pastes s"
  "images (exit_history s) = images s" "images (set_last a s) = images s" "images (push_undo s) = images s"
  by (simp_all add: exit_history_def set_last_def push_undo_def)

lemma segments_kept [simp]:
  "segment_graphemes g (exit_history s) t = segment_graphemes g s t" "segment_graphemes g (set_last a s) t = segment_graphemes g s t"
  "segment_graphemes g (push_undo s) t = segment_graphemes g s t"
  by (simp_all add: segment_graphemes_def)

lemma placed_option [simp]:
  "placed (case k of None \<Rightarrow> s | Some i \<Rightarrow> remove_images [i] s) A x y B = placed s A x y B"
  by (cases k) simp_all



section \<open>Backspace\<close>






section \<open>Forward delete\<close>



section \<open>Backspace over a paste marker\<close>


lemma renumber_plain: "CHR ''['' \<notin> set t \<Longrightarrow> renumber_pastes i t = t"
proof (induction t)
  case (Cons c t)
  have "paste_at (c # t) = None"
  proof (rule ccontr)
    assume "paste_at (c # t) \<noteq> None"
    then obtain ds suf r where "paste_at (c # t) = Some (ds, suf, r)" by fastforce
    with Cons.prems show False by (auto simp: paste_at_iff)
  qed
  with Cons show ?case by (simp add: renumber_pastes_def)
qed (simp add: renumber_pastes_def)



lemma delete_paste_col [simp]: "ed_col (delete_paste i s) = ed_col s"
  by (simp add: delete_paste_def)



section \<open>Markers are whole\<close>





section \<open>One unit\<close>






section \<open>Where a command departs from what it means to do\<close>

text \<open>
  Backspace over a paste marker renumbers the markers left of the cursor and then cuts at the old
  column: after \<open>[paste #10 ...]\<close> has become \<open>[paste #9 ...]\<close>, the first character of the marker stays.
\<close>

lemma backspace_after_renumbering:
  "get_text (handle_backspace letter_segments
     (new_editor\<lparr>ed_lines := [''[paste #10 +12 lines][paste #1 +11 lines]''], ed_col := 41,
        pastes := map (\<lambda>i. (i, ''p'')) [1..<11], paste_counter := 10\<rparr>)) = ''[paste #9 +12 lines]['' "
  by code_simp

text \<open>A marker without a suffix gets the printed name of a missing group.\<close>

lemma backspace_prints_missing_group:
  "get_text (handle_backspace letter_segments
     (new_editor\<lparr>ed_lines := [''[paste #1 +11 lines] [paste #2]''], ed_col := 20,
        pastes := [(1, ''p''), (2, ''q'')], paste_counter := 2\<rparr>)) = '' [paste #1undefined]''"
  by code_simp

text \<open>A jump back from the first column finds the character under the cursor.\<close>

lemma jump_back_at_line_start:
  "(let s = jump_to_char ''b'' False (new_editor\<lparr>ed_lines := [''b'', ''b''], ed_line := 1\<rparr>) in (ed_line s, ed_col s)) = (1, 0)"
  by code_simp

text \<open>A selection outlives the text it was made in, and deleting it leaves the cursor below the last line.\<close>

lemma stale_selection:
  "(let s = delete_selection (set_text ''q'' (select (3, 0) (3, 1) (new_editor\<lparr>ed_lines := [''a'', ''b'', ''c'', ''d'']\<rparr>)))
    in (ed_lines s, ed_line s)) = ([''q'', []], 3)"
  by code_simp

end
