(* ===== verification/Transcript_Tools.thy ===== *)
theory Transcript_Tools
  imports Prelude Json_Value "HOL-Library.AList"
begin

text \<open>
  The transcript of \<open>packages/ai/src/utils/transcript.ts\<close>: which tools and which prompt a list of
  messages declares when its system messages are replayed in order, and \<open>declareToolChanges\<close> of
  \<open>packages/agent/src/agent-loop.ts\<close>. A \<open>Map\<close> is an association list in insertion order, and so is an
  object of sections, whose names are not integers.
\<close>

section \<open>Messages\<close>

text \<open>A declared tool; its parameters and sampling options are kept as their JSON text.\<close>

record tool_decl =
  td_name :: string
  td_description :: string
  td_parameters :: string
  td_sampling :: "string option"

text \<open>Messages of other roles are kept as they are. \<open>None\<close> in \<open>sys_sections\<close> is the null that removes a section; an absent list is the empty one.\<close>

record system_message =
  sys_content :: string
  sys_sections :: "(string \<times> string option) list"
  sys_added :: "tool_decl list"
  sys_removed :: "string list"
  sys_timestamp :: int

datatype agent_message = System_Msg system_message | Other_Msg json

fun is_system_msg :: "agent_message \<Rightarrow> bool" where
  "is_system_msg (System_Msg s) = True"
| "is_system_msg _ = False"

fun system_of :: "agent_message \<Rightarrow> system_message list" where
  "system_of (System_Msg s) = [s]"
| "system_of _ = []"

definition systems :: "agent_message list \<Rightarrow> system_message list" where
  "systems ms = concat (map system_of ms)"

section \<open>Replaying the transcript\<close>

type_synonym tool_map = "(string \<times> tool_decl) list"

definition apply_tools :: "system_message \<Rightarrow> tool_map \<Rightarrow> tool_map" where
  "apply_tools s ts =
     foldl (\<lambda>ts t. AList.update (td_name t) t ts) (foldl (\<lambda>ts n. AList.delete n ts) ts (sys_removed s)) (sys_added s)"

definition replay_tools :: "tool_map \<Rightarrow> system_message list \<Rightarrow> tool_map" where
  "replay_tools ts ss = foldl (\<lambda>ts s. apply_tools s ts) ts ss"

definition get_current_tools :: "agent_message list \<Rightarrow> tool_decl list" where
  "get_current_tools ms = map snd (replay_tools [] (systems ms))"

definition apply_sections :: "system_message \<Rightarrow> (string \<times> string) list \<Rightarrow> (string \<times> string) list" where
  "apply_sections s xs =
     foldl (\<lambda>xs (n, v). case v of None \<Rightarrow> AList.delete n xs | Some t \<Rightarrow> AList.update n t xs) xs (sys_sections s)"

fun join_text :: "string list \<Rightarrow> string" where
  "join_text [] = []"
| "join_text [t] = t"
| "join_text (t # u # ts) = t @ [CHR 0x0A, CHR 0x0A] @ join_text (u # ts)"

definition get_current_system_message :: "agent_message list \<Rightarrow> system_message option" where
  "get_current_system_message ms =
     (let ss = systems ms; tools = get_current_tools ms in
      if ss = [] \<and> tools = [] then None
      else Some \<lparr>sys_content = join_text (filter (\<lambda>t. t \<noteq> []) (map sys_content ss)),
        sys_sections = map (\<lambda>(n, t). (n, Some t)) (foldl (\<lambda>xs s. apply_sections s xs) [] ss),
        sys_added = tools, sys_removed = [],
        sys_timestamp = (case ss of [] \<Rightarrow> 0 | s # _ \<Rightarrow> sys_timestamp s)\<rparr>)"

definition get_system_message_text :: "system_message \<Rightarrow> string" where
  "get_system_message_text s =
     join_text (filter (\<lambda>t. t \<noteq> []) (sys_content s # concat (map (\<lambda>(_, v). case v of Some t \<Rightarrow> [t] | None \<Rightarrow> []) (sys_sections s))))"

definition get_current_system_prompt :: "agent_message list \<Rightarrow> string" where
  "get_current_system_prompt ms =
     (case get_current_system_message ms of Some s \<Rightarrow> get_system_message_text s | None \<Rightarrow> [])"

definition collapse_system_messages :: "agent_message list \<Rightarrow> agent_message list" where
  "collapse_system_messages ms =
     (let others = filter (\<lambda>m. \<not> is_system_msg m) ms in
      case get_current_system_message ms of Some s \<Rightarrow> System_Msg s # others | None \<Rightarrow> others)"

definition resolve_transcript :: "agent_message list \<Rightarrow> bool \<Rightarrow> agent_message list" where
  "resolve_transcript ms supports = (if supports then ms else collapse_system_messages ms)"

definition create_initial_system_message :: "string option \<Rightarrow> tool_decl list \<Rightarrow> system_message option" where
  "create_initial_system_message prompt tools =
     (let text = (case prompt of Some t \<Rightarrow> t | None \<Rightarrow> []) in
      if text = [] \<and> tools = [] then None
      else Some \<lparr>sys_content = text, sys_sections = [], sys_added = tools, sys_removed = [], sys_timestamp = 0\<rparr>)"

definition normalize_context :: "string option \<Rightarrow> tool_decl list \<Rightarrow> agent_message list \<Rightarrow> agent_message list" where
  "normalize_context prompt tools ms =
     (case create_initial_system_message prompt tools of Some s \<Rightarrow> System_Msg s # ms | None \<Rightarrow> ms)"

section \<open>Changes of the tools\<close>

text \<open>\<open>declarationsEqual\<close> compares the JSON texts of the declarations, whose keys have a fixed order.\<close>

definition declarations_equal :: "tool_decl \<Rightarrow> tool_decl \<Rightarrow> bool" where
  "declarations_equal t u \<longleftrightarrow> t = u"

definition by_name :: "tool_decl list \<Rightarrow> tool_map" where
  "by_name ts = foldl (\<lambda>m t. AList.update (td_name t) t m) [] ts"

definition tool_differs :: "tool_decl \<Rightarrow> tool_decl option \<Rightarrow> bool" where
  "tool_differs t u = (case u of None \<Rightarrow> True | Some u \<Rightarrow> \<not> declarations_equal t u)"

definition get_tool_state_changes :: "tool_decl list \<Rightarrow> tool_decl list \<Rightarrow> tool_decl list \<times> string list" where
  "get_tool_state_changes previous current =
     (filter (\<lambda>t. tool_differs t (map_of (by_name previous) (td_name t))) current,
      map td_name (filter (\<lambda>t. tool_differs t (map_of (by_name current) (td_name t))) previous))"

definition with_tool_changes :: "system_message \<Rightarrow> tool_decl list \<times> string list \<Rightarrow> system_message" where
  "with_tool_changes s c = s\<lparr>sys_added := fst c, sys_removed := snd c\<rparr>"

text \<open>The messages before the last system message, it, and those after it.\<close>

fun split_system :: "agent_message list \<Rightarrow> (agent_message list \<times> system_message \<times> agent_message list) option" where
  "split_system [] = None"
| "split_system (m # ms) =
     (case split_system ms of
        Some (xs, s, ys) \<Rightarrow> Some (m # xs, s, ys)
      | None \<Rightarrow> (case m of System_Msg s \<Rightarrow> Some ([], s, ms) | _ \<Rightarrow> None))"

definition declare_tool_changes ::
  "int \<Rightarrow> agent_message list \<Rightarrow> tool_decl list \<Rightarrow> agent_message list \<Rightarrow> agent_message list" where
  "declare_tool_changes now ms tools pending =
     (case split_system pending of
        Some (xs, s, ys) \<Rightarrow>
          (let baseline = xs @ System_Msg (with_tool_changes s ([], [])) # ys;
               changes = get_tool_state_changes (get_current_tools (ms @ baseline)) tools
           in if changes = ([], []) \<and> sys_added s = [] \<and> sys_removed s = [] then pending
              else xs @ System_Msg (with_tool_changes s changes) # ys)
      | None \<Rightarrow>
          (let changes = get_tool_state_changes (get_current_tools (ms @ pending)) tools in
           if changes = ([], []) then pending
           else
             (let update = with_tool_changes
                    \<lparr>sys_content = [], sys_sections = [], sys_added = [], sys_removed = [], sys_timestamp = now\<rparr> changes
              in takeWhile is_system_msg pending @ System_Msg update # dropWhile is_system_msg pending)))"

section \<open>What a transport can express\<close>

datatype tool_support = No_Changes | Additions | Changes

text \<open>Index after the last message with a removal or a name declared before.\<close>

fun last_non_additive :: "string list \<Rightarrow> nat \<Rightarrow> system_message list \<Rightarrow> nat option" where
  "last_non_additive declared i [] = None"
| "last_non_additive declared i (s # ss) =
     (case last_non_additive (rev (map td_name (sys_added s)) @ declared) (Suc i) ss of
        Some j \<Rightarrow> Some j
      | None \<Rightarrow>
          if sys_removed s \<noteq> [] \<or> \<not> distinct (map td_name (sys_added s)) \<or>
             (\<exists>t \<in> set (sys_added s). td_name t \<in> set declared)
          then Some i else None)"

definition find_last_non_additive :: "system_message list \<Rightarrow> nat option" where
  "find_last_non_additive ss = last_non_additive [] 0 ss"

definition has_non_additive_tool_changes :: "agent_message list \<Rightarrow> bool" where
  "has_non_additive_tool_changes ms \<longleftrightarrow> find_last_non_additive (systems ms) \<noteq> None"

fun initial_system :: "agent_message list \<Rightarrow> bool" where
  "initial_system (System_Msg s # ms) = True"
| "initial_system _ = False"

definition resolve_transcript_tools :: "agent_message list \<Rightarrow> tool_support \<Rightarrow> tool_decl list \<times> nat" where
  "resolve_transcript_tools ms support =
     (let ss = systems ms in
      case support of
        No_Changes \<Rightarrow> (map snd (replay_tools [] ss), length ss)
      | Changes \<Rightarrow> ([], 0)
      | Additions \<Rightarrow>
          (let k = max (if initial_system ms then 1 else 0)
                 (case find_last_non_additive ss of None \<Rightarrow> 0 | Some i \<Rightarrow> Suc i)
           in (map snd (replay_tools [] (take k ss)), k)))"

section \<open>Replay as maps\<close>

lemma map_of_apply_tools:
  "map_of (apply_tools s ts) n =
     (case map_of (rev (map (\<lambda>t. (td_name t, t)) (sys_added s))) n of
        Some t \<Rightarrow> Some t
      | None \<Rightarrow> if n \<in> set (sys_removed s) then None else map_of ts n)"
proof -
  have removed: "map_of (foldl (\<lambda>ts n. AList.delete n ts) ts ns) n = (if n \<in> set ns then None else map_of ts n)" for ns
    by (induction ns arbitrary: ts) (auto simp: AList.delete_conv')
  have added: "map_of (foldl (\<lambda>ts t. AList.update (td_name t) t ts) us xs) n =
      (case map_of (rev (map (\<lambda>t. (td_name t, t)) xs)) n of Some t \<Rightarrow> Some t | None \<Rightarrow> map_of us n)" for us xs
    by (induction xs arbitrary: us) (auto simp: AList.update_conv' map_add_def split: option.split)
  show ?thesis unfolding apply_tools_def added removed ..
qed

lemma replay_append [simp]: "replay_tools ts (ss @ ss') = replay_tools (replay_tools ts ss) ss'"
  by (simp add: replay_tools_def)

lemma replay_Nil [simp]: "replay_tools ts [] = ts"
  by (simp add: replay_tools_def)

lemma replay_Cons [simp]: "replay_tools ts (s # ss) = replay_tools (apply_tools s ts) ss"
  by (simp add: replay_tools_def)

lemma systems_simps [simp]:
  "systems [] = []" "systems (m # ms) = system_of m @ systems ms" "systems (ms @ ms') = systems ms @ systems ms'"
  by (simp_all add: systems_def)

lemma systems_none: "systems ms = [] \<longleftrightarrow> (\<forall>m \<in> set ms. \<not> is_system_msg m)"
proof (induction ms)
  case (Cons m ms)
  then show ?case by (cases m) simp_all
qed simp

lemma systems_filter [simp]: "systems (filter (\<lambda>m. \<not> is_system_msg m) ms) = []"
  by (auto simp: systems_none)

text \<open>A tool map lists each name once, under the name of its tool.\<close>

definition tool_map_ok :: "tool_map \<Rightarrow> bool" where
  "tool_map_ok ts \<longleftrightarrow> distinct (map fst ts) \<and> (\<forall>(n, t) \<in> set ts. n = td_name t)"

lemma tool_update_ok: "tool_map_ok ts \<Longrightarrow> tool_map_ok (AList.update (td_name t) t ts)"
proof -
  assume ok: "tool_map_ok ts"
  have "set (AList.update (td_name t) t ts) \<subseteq> insert (td_name t, t) (set ts)" by (induction ts) auto
  with ok show ?thesis by (auto simp: tool_map_ok_def distinct_update)
qed

lemma tool_delete_ok: "tool_map_ok ts \<Longrightarrow> tool_map_ok (AList.delete n ts)"
  by (auto simp: tool_map_ok_def AList.delete_eq distinct_map_filter)

lemma tool_fold_ok: "(\<And>x ts. tool_map_ok ts \<Longrightarrow> tool_map_ok (f ts x)) \<Longrightarrow> tool_map_ok ts \<Longrightarrow> tool_map_ok (foldl f ts xs)"
  by (induction xs arbitrary: ts) auto

lemma apply_tools_ok: "tool_map_ok ts \<Longrightarrow> tool_map_ok (apply_tools s ts)"
  unfolding apply_tools_def by (intro tool_fold_ok tool_update_ok tool_delete_ok)

lemma replay_tools_ok: "tool_map_ok ts \<Longrightarrow> tool_map_ok (replay_tools ts ss)"
  unfolding replay_tools_def by (intro tool_fold_ok apply_tools_ok)

lemma no_tools_ok [simp]: "tool_map_ok []"
  by (simp add: tool_map_ok_def)

lemma by_name_replay:
  assumes "tool_map_ok ts"
  shows "by_name (map snd ts) = ts"
proof -
  have upd: "AList.update n t us = us @ [(n, t)]" if "n \<notin> fst ` set us" for n t and us :: tool_map
    using that by (induction us) auto
  have "foldl (\<lambda>m t. AList.update (td_name t) t m) us (map snd ts) = us @ ts"
    if "tool_map_ok ts" "fst ` set us \<inter> fst ` set ts = {}" for us
    using that
  proof (induction ts arbitrary: us)
    case (Cons x ts)
    then obtain n t where x: "x = (n, t)" "n = td_name t" by (cases x) (auto simp: tool_map_ok_def)
    from Cons.prems x have "AList.update n t us = us @ [(n, t)]" by (intro upd) auto
    moreover have "tool_map_ok ts" "fst ` set (us @ [(n, t)]) \<inter> fst ` set ts = {}"
      using Cons.prems x by (auto simp: tool_map_ok_def)
    ultimately show ?case using Cons.IH[of "us @ [(n, t)]"] x by simp
  qed simp
  from this[of "[]"] assms show ?thesis by (simp add: by_name_def)
qed

lemma map_of_tools: "tool_map_ok ts \<Longrightarrow> map_of ts n = Some t \<longleftrightarrow> t \<in> snd ` set ts \<and> td_name t = n"
  by (force simp: tool_map_ok_def)

section \<open>The declared tools are the executable ones\<close>

lemma by_name_distinct: "distinct (map td_name ts) \<Longrightarrow> map_of (by_name ts) n = map_of (map (\<lambda>t. (td_name t, t)) ts) n"
proof -
  assume d: "distinct (map td_name ts)"
  then have "tool_map_ok (map (\<lambda>t. (td_name t, t)) ts)" by (auto simp: tool_map_ok_def comp_def)
  from by_name_replay[OF this] show ?thesis by (simp add: comp_def)
qed

lemma tools_map: "distinct (map td_name ts) \<Longrightarrow> map_of (map (\<lambda>t. (td_name t, t)) ts) n = Some t \<longleftrightarrow> t \<in> set ts \<and> td_name t = n"
  by (subst map_of_eq_Some_iff) (auto simp: comp_def)

lemma tools_added_are:
  assumes m: "tool_map_ok m" and d: "distinct (map td_name tools)"
    and c: "get_tool_state_changes (map snd m) tools = (xs, ns)"
  shows "map_of (rev (map (\<lambda>t. (td_name t, t)) xs)) n = Some t \<longleftrightarrow> t \<in> set tools \<and> td_name t = n \<and> map_of m n \<noteq> Some t"
proof -
  have x: "xs = filter (\<lambda>t. tool_differs t (map_of m (td_name t))) tools"
    using c by (simp add: get_tool_state_changes_def by_name_replay[OF m])
  then have "distinct (map td_name (rev xs))" using d by (simp add: distinct_map_filter rev_map[symmetric])
  then have "map_of (map (\<lambda>t. (td_name t, t)) (rev xs)) n = Some t \<longleftrightarrow> t \<in> set (rev xs) \<and> td_name t = n" by (rule tools_map)
  then show ?thesis by (auto simp: x rev_map tool_differs_def declarations_equal_def split: option.splits)
qed

lemma tools_removed_are:
  assumes m: "tool_map_ok m" and d: "distinct (map td_name tools)"
    and c: "get_tool_state_changes (map snd m) tools = (xs, ns)"
  shows "n \<in> set ns \<longleftrightarrow> (\<exists>t. map_of m n = Some t \<and> map_of (map (\<lambda>t. (td_name t, t)) tools) n \<noteq> Some t)"
proof -
  have "ns = map td_name (filter (\<lambda>t. tool_differs t (map_of (by_name tools) (td_name t))) (map snd m))"
    using c by (simp add: get_tool_state_changes_def)
  then have "n \<in> set ns \<longleftrightarrow> (\<exists>t. (t \<in> snd ` set m \<and> td_name t = n) \<and> tool_differs t (map_of (map (\<lambda>t. (td_name t, t)) tools) n))"
    by (auto simp: by_name_distinct[OF d])
  then show ?thesis unfolding map_of_tools[OF m, symmetric] by (auto simp: tool_differs_def declarations_equal_def split: option.splits)
qed

lemma changes_reach:
  assumes m: "tool_map_ok m" and d: "distinct (map td_name tools)"
    and c: "get_tool_state_changes (map snd m) tools = (sys_added s, sys_removed s)"
  shows "map_of (apply_tools s m) n = map_of (map (\<lambda>t. (td_name t, t)) tools) n"
proof -
  let ?A = "map_of (rev (map (\<lambda>t. (td_name t, t)) (sys_added s))) n" and ?new = "map_of (map (\<lambda>t. (td_name t, t)) tools) n"
  have a: "?A = Some t \<longleftrightarrow> ?new = Some t \<and> map_of m n \<noteq> Some t" for t
    using tools_added_are[OF assms, of n t] tools_map[OF d, of n t] by blast
  have r: "n \<in> set (sys_removed s) \<longleftrightarrow> (\<exists>t. map_of m n = Some t \<and> ?new \<noteq> Some t)" using tools_removed_are[OF assms] .
  show ?thesis
  proof (cases ?new)
    case None
    then have "?A = None" using a by (cases ?A) auto
    with None r show ?thesis by (cases "map_of m n") (simp_all add: map_of_apply_tools)
  next
    case (Some t)
    show ?thesis
    proof (cases "map_of m n = Some t")
      case True
      with Some a have "?A = None" by (cases ?A) auto
      with True Some r show ?thesis by (simp add: map_of_apply_tools)
    next
      case False
      with Some a have "?A = Some t" by simp
      with Some show ?thesis by (simp add: map_of_apply_tools)
    qed
  qed
qed

lemma changes_system [simp]:
  "system_of (System_Msg s) = [s]" "sys_added (with_tool_changes s c) = fst c" "sys_removed (with_tool_changes s c) = snd c"
  by (simp_all add: with_tool_changes_def)

lemma apply_no_changes [simp]: "apply_tools (with_tool_changes s ([], [])) m = m"
  by (simp add: apply_tools_def)

lemma no_changes_reached:
  assumes m: "tool_map_ok m" and d: "distinct (map td_name tools)"
    and c: "get_tool_state_changes (map snd m) tools = ([], [])"
  shows "map_of m n = map_of (map (\<lambda>t. (td_name t, t)) tools) n"
  using changes_reach[OF m d, of "with_tool_changes undefined ([], [])" n] c by simp

lemma split_system_None: "split_system ms = None \<longleftrightarrow> systems ms = []"
proof (induction ms)
  case (Cons m ms)
  then show ?case by (cases m; cases "split_system ms") auto
qed simp

lemma split_system_Some:
  "split_system ms = Some (xs, s, ys) \<Longrightarrow> ms = xs @ System_Msg s # ys \<and> systems ys = []"
proof (induction ms arbitrary: xs s ys)
  case (Cons m ms)
  show ?case
  proof (cases "split_system ms")
    case None
    with split_system_None[of ms] Cons.prems show ?thesis by (cases m) auto
  next
    case (Some r)
    with Cons show ?thesis by (cases r) auto
  qed
qed simp

lemma systems_split_head:
  "systems ms = [] \<Longrightarrow> takeWhile is_system_msg ms = [] \<and> dropWhile is_system_msg ms = ms"
  by (cases ms; cases "hd ms") auto

definition declared_tool :: "agent_message list \<Rightarrow> string \<Rightarrow> tool_decl option" where
  "declared_tool ms n = map_of (replay_tools [] (systems ms)) n"

text \<open>The pending messages with the tool fields of one system message replaced, or with one inserted.\<close>

definition retold :: "agent_message list \<Rightarrow> agent_message list \<Rightarrow> bool" where
  "retold pending out \<longleftrightarrow> out = pending \<or>
     (\<exists>xs s ys c. out = xs @ System_Msg (with_tool_changes s c) # ys \<and>
        (pending = xs @ System_Msg s # ys \<or>
         systems pending = [] \<and> pending = xs @ ys \<and> sys_content s = [] \<and> sys_sections s = []))"

lemma declared_app: "declared_tool (ms @ ms') n = map_of (replay_tools (replay_tools [] (systems ms)) (systems ms')) n"
  by (simp add: declared_tool_def)

lemma declare_inserted:
  assumes "split_system pending = None" and d: "distinct (map td_name tools)"
  shows "declared_tool (ms @ declare_tool_changes now ms tools pending) n = map_of (map (\<lambda>t. (td_name t, t)) tools) n \<and>
    retold pending (declare_tool_changes now ms tools pending)"
proof -
  have p: "systems pending = []" using assms(1) by (simp add: split_system_None)
  let ?c = "get_tool_state_changes (get_current_tools (ms @ pending)) tools"
  let ?m = "replay_tools [] (systems ms)"
  let ?s = "\<lparr>sys_content = [], sys_sections = [], sys_added = [], sys_removed = [], sys_timestamp = now\<rparr>"
  have c: "?c = get_tool_state_changes (map snd ?m) tools" using p by (simp add: get_current_tools_def)
  have ok: "tool_map_ok ?m" by (rule replay_tools_ok) simp
  show ?thesis
  proof (cases "?c = ([], [])")
    case True
    with assms(1) have "declare_tool_changes now ms tools pending = pending" by (simp add: declare_tool_changes_def Let_def)
    with no_changes_reached[OF ok d True[unfolded c]] p show ?thesis by (simp add: declared_app retold_def)
  next
    case False
    with assms(1) systems_split_head[OF p] have "declare_tool_changes now ms tools pending = System_Msg (with_tool_changes ?s ?c) # pending"
      by (simp add: declare_tool_changes_def Let_def)
    moreover have "retold pending (System_Msg (with_tool_changes ?s ?c) # pending)" unfolding retold_def
      by (intro disjI2 exI[of _ "[]"] exI[of _ ?s] exI[of _ pending] exI[of _ ?c]) (simp add: p)
    ultimately show ?thesis
      using changes_reach[OF ok d, of "with_tool_changes ?s ?c"] c p by (simp add: declared_app)
  qed
qed

lemma declare_replaced:
  assumes "split_system pending = Some (xs, s, ys)" and d: "distinct (map td_name tools)"
  shows "declared_tool (ms @ declare_tool_changes now ms tools pending) n = map_of (map (\<lambda>t. (td_name t, t)) tools) n \<and>
    retold pending (declare_tool_changes now ms tools pending)"
proof -
  have r: "pending = xs @ System_Msg s # ys" "systems ys = []" using split_system_Some[OF assms(1)] by simp_all
  let ?m = "replay_tools [] (systems (ms @ xs))"
  let ?c = "get_tool_state_changes (map snd ?m) tools"
  have ok: "tool_map_ok ?m" by (rule replay_tools_ok) simp
  have b: "get_current_tools (ms @ xs @ System_Msg (with_tool_changes s ([], [])) # ys) = map snd ?m"
    using r(2) by (simp add: get_current_tools_def)
  show ?thesis
  proof (cases "?c = ([], []) \<and> sys_added s = [] \<and> sys_removed s = []")
    case True
    with assms(1) b have "declare_tool_changes now ms tools pending = pending" by (simp add: declare_tool_changes_def Let_def)
    moreover from True have "apply_tools s ?m = ?m" by (simp add: apply_tools_def)
    ultimately show ?thesis
      using no_changes_reached[OF ok d] True r by (simp add: declared_app retold_def)
  next
    case False
    with assms(1) b have "declare_tool_changes now ms tools pending = xs @ System_Msg (with_tool_changes s ?c) # ys"
      by (auto simp: declare_tool_changes_def Let_def)
    moreover have "retold pending (xs @ System_Msg (with_tool_changes s ?c) # ys)" unfolding retold_def using r(1) by blast
    ultimately show ?thesis
      using changes_reach[OF ok d, of "with_tool_changes s ?c"] r(2) by (simp add: declared_app)
  qed
qed

text \<open>
  C9: The model is told exactly the tools that can run. After \<open>declareToolChanges\<close>, replaying the
  transcript with the pending messages gives each executable tool its own declaration and no other
  tool, whatever the transcript and the pending messages claimed before; and of the pending messages at
  most the tool fields of one system message change, or, when none is a system message, one without
  text is put in. The executable tools have distinct names.
\<close>

theorem declared_tools_exact:
  assumes "distinct (map td_name tools)"
  shows "declared_tool (ms @ declare_tool_changes now ms tools pending) n = map_of (map (\<lambda>t. (td_name t, t)) tools) n \<and>
    retold pending (declare_tool_changes now ms tools pending)"
proof (cases "split_system pending")
  case None
  then show ?thesis by (rule declare_inserted[OF _ assms])
next
  case (Some r)
  then show ?thesis using declare_replaced[OF _ assms] by (cases r) blast
qed

section \<open>Collapsing system messages\<close>

lemma update_appends: "n \<notin> fst ` set xs \<Longrightarrow> AList.update n t xs = xs @ [(n, t)]"
  by (induction xs) auto

lemma update_all:
  "distinct (map fst ys) \<Longrightarrow> fst ` set xs \<inter> fst ` set ys = {} \<Longrightarrow>
   foldl (\<lambda>xs (n, v). case v of None \<Rightarrow> AList.delete n xs | Some t \<Rightarrow> AList.update n t xs) xs (map (\<lambda>(n, t). (n, Some t)) ys) = xs @ ys"
proof (induction ys arbitrary: xs)
  case (Cons y ys)
  then show ?case by (cases y) (force simp: update_appends)
qed simp

lemma sections_distinct: "distinct (map fst xs) \<Longrightarrow> distinct (map fst (apply_sections s xs))"
proof -
  have "distinct (map fst (foldl (\<lambda>xs (n, v). case v of None \<Rightarrow> AList.delete n xs | Some t \<Rightarrow> AList.update n t xs) xs ys))"
    if "distinct (map fst xs)" for ys and xs :: "(string \<times> string) list"
    using that
  proof (induction ys arbitrary: xs)
    case (Cons y ys)
    then show ?case by (cases y; cases "snd y") (simp_all add: distinct_update AList.delete_eq distinct_map_filter)
  qed simp
  then show "distinct (map fst xs) \<Longrightarrow> ?thesis" by (simp add: apply_sections_def)
qed

lemma all_sections_distinct: "distinct (map fst (foldl (\<lambda>xs s. apply_sections s xs) [] ss))"
proof -
  have "distinct (map fst xs) \<Longrightarrow> distinct (map fst (foldl (\<lambda>xs s. apply_sections s xs) xs ss))" for xs
    by (induction ss arbitrary: xs) (simp_all add: sections_distinct)
  then show ?thesis by simp
qed

lemma join_text_single [simp]: "join_text (filter (\<lambda>t. t \<noteq> []) [t]) = t"
  by simp

lemma current_tools_replay:
  assumes "tool_map_ok ts"
  shows "replay_tools [] [s\<lparr>sys_added := map snd ts, sys_removed := []\<rparr>] = ts"
  using by_name_replay[OF assms] by (simp add: apply_tools_def by_name_def)

text \<open>
  Collapsing loses nothing. For a model that takes no system message in the middle, the one
  leading message that replaces all of them replays to the same prompt, sections and tools; no other
  system message is left, and the rest of the transcript is unchanged.
\<close>

theorem collapse_replays:
  "get_current_system_message (collapse_system_messages ms) = get_current_system_message ms \<and>
   filter (\<lambda>m. \<not> is_system_msg m) (collapse_system_messages ms) = filter (\<lambda>m. \<not> is_system_msg m) ms \<and>
   length (systems (collapse_system_messages ms)) \<le> 1 \<and>
   collapse_system_messages (collapse_system_messages ms) = collapse_system_messages ms"
proof -
  let ?ss = "systems ms" and ?ts = "replay_tools [] (systems ms)"
  let ?sections = "foldl (\<lambda>xs s. apply_sections s xs) [] ?ss"
  have ok: "tool_map_ok ?ts" by (rule replay_tools_ok) simp
  show ?thesis
  proof (cases "?ss = []")
    case True
    then have n: "get_current_system_message ms = None" by (simp add: get_current_system_message_def get_current_tools_def)
    have "filter (\<lambda>m. \<not> is_system_msg m) ms = ms" using True by (simp add: systems_none)
    with n show ?thesis by (simp add: collapse_system_messages_def True)
  next
    case False
    define h where "h = \<lparr>sys_content = join_text (filter (\<lambda>t. t \<noteq> []) (map sys_content ?ss)),
        sys_sections = map (\<lambda>(n, t). (n, Some t)) ?sections, sys_added = map snd ?ts, sys_removed = [],
        sys_timestamp = (case ?ss of [] \<Rightarrow> 0 | s # _ \<Rightarrow> sys_timestamp s)\<rparr>"
    have h: "get_current_system_message ms = Some h"
      using False by (simp add: get_current_system_message_def get_current_tools_def h_def Let_def)
    then have c: "collapse_system_messages ms = System_Msg h # filter (\<lambda>m. \<not> is_system_msg m) ms"
      by (simp add: collapse_system_messages_def Let_def)
    have "apply_tools h [] = ?ts" using current_tools_replay[OF ok, of h] by (simp add: h_def)
    moreover have "apply_sections h [] = ?sections"
      using update_all[OF all_sections_distinct[of ?ss], of "[]"] by (simp add: apply_sections_def h_def)
    ultimately have "get_current_system_message (collapse_system_messages ms) = Some h"
      by (simp add: c get_current_system_message_def get_current_tools_def Let_def) (simp add: h_def)
    with h c show ?thesis by (simp add: collapse_system_messages_def Let_def)
  qed
qed

section \<open>Splitting the tools between the request and the messages\<close>

text \<open>Messages that only add tools of new names.\<close>

fun additive :: "string list \<Rightarrow> system_message list \<Rightarrow> bool" where
  "additive names [] = True"
| "additive names (s # ss) =
     (sys_removed s = [] \<and> distinct (map td_name (sys_added s)) \<and> (\<forall>t \<in> set (sys_added s). td_name t \<notin> set names) \<and>
      additive (rev (map td_name (sys_added s)) @ names) ss)"

definition declared_names :: "system_message list \<Rightarrow> string list" where
  "declared_names ss = foldl (\<lambda>ns s. rev (map td_name (sys_added s)) @ ns) [] ss"

lemma names_from: "foldl (\<lambda>ns s. rev (map td_name (sys_added s)) @ ns) ns ss = declared_names ss @ ns"
proof -
  have "foldl (\<lambda>ns s. rev (map td_name (sys_added s)) @ ns) (xs @ ns) ss =
      foldl (\<lambda>ns s. rev (map td_name (sys_added s)) @ ns) xs ss @ ns" for xs
    by (induction ss arbitrary: xs) (simp_all add: append_assoc[symmetric] del: append_assoc)
  from this[of "[]"] show ?thesis by (simp add: declared_names_def)
qed

lemma declared_names_Cons: "declared_names (s # ss) = declared_names ss @ rev (map td_name (sys_added s))"
  using names_from[of "rev (map td_name (sys_added s))" ss] by (simp add: declared_names_def)

lemma declared_names_Nil [simp]: "declared_names [] = []"
  by (simp add: declared_names_def)

lemma additive_drop: "additive ns ss \<Longrightarrow> additive (declared_names (take k ss) @ ns) (drop k ss)"
proof (induction ss arbitrary: ns k)
  case (Cons s ss)
  then show ?case by (cases k) (simp_all add: declared_names_Cons)
qed simp

lemma non_additive_None: "last_non_additive ns i ss = None \<longleftrightarrow> additive ns ss"
proof (induction ss arbitrary: ns i)
  case (Cons s ss)
  from Cons[of "rev (map td_name (sys_added s)) @ ns" "Suc i"] show ?case
    by (cases "last_non_additive (rev (map td_name (sys_added s)) @ ns) (Suc i) ss") auto
qed simp

lemma non_additive_Some:
  "last_non_additive ns i ss = Some j \<Longrightarrow>
   i \<le> j \<and> j < i + length ss \<and> additive (declared_names (take (Suc (j - i)) ss) @ ns) (drop (Suc (j - i)) ss) \<and>
   (\<forall>m \<le> j - i. \<not> additive (declared_names (take m ss) @ ns) (drop m ss))"
proof (induction ss arbitrary: ns i)
  case (Cons s ss)
  let ?ns = "rev (map td_name (sys_added s)) @ ns"
  show ?case
  proof (cases "last_non_additive ?ns (Suc i) ss")
    case None
    with Cons.prems have "j = i" "\<not> additive ns (s # ss)" by (auto split: if_splits)
    moreover have "additive ?ns ss" using None by (simp add: non_additive_None)
    ultimately show ?thesis by (simp add: declared_names_Cons del: additive.simps)
  next
    case (Some k)
    with Cons.prems have "k = j" by simp
    with Some Cons.IH have r: "Suc i \<le> j" "j < Suc i + length ss"
      "additive (declared_names (take (Suc (j - Suc i)) ss) @ ?ns) (drop (Suc (j - Suc i)) ss)"
      "\<forall>m \<le> j - Suc i. \<not> additive (declared_names (take m ss) @ ?ns) (drop m ss)" by blast+
    then have s: "Suc (j - Suc i) = j - i" by simp
    have "\<not> additive (declared_names (take m (s # ss)) @ ns) (drop m (s # ss))" if "m \<le> j - i" for m
    proof (cases m)
      case 0
      from r(4) have "\<not> additive (declared_names (take 0 ss) @ ?ns) (drop 0 ss)" by blast
      with 0 show ?thesis by simp
    next
      case (Suc m')
      with that r s have "m' \<le> j - Suc i" by simp
      with r(4) Suc show ?thesis by (simp add: declared_names_Cons)
    qed
    with r s show ?thesis by (simp add: declared_names_Cons)
  qed
qed simp

text \<open>
  A transport is sent exactly the current tools. Replaying what follows the folded system
  messages over the tools of the request gives the current tools, for every kind of transport. For
  one that can only add tools, what follows removes none and declares none of a name used before,
  and no smaller number of folded messages would do, the leading prompt always being folded.
\<close>

theorem request_tools_exact:
  assumes "resolve_transcript_tools ms support = (request, k)"
  shows "map snd (replay_tools (by_name request) (drop k (systems ms))) = get_current_tools ms \<and> k \<le> length (systems ms) \<and>
    (support = Additions \<longrightarrow>
       additive (declared_names (take k (systems ms))) (drop k (systems ms)) \<and>
       (\<forall>j. (initial_system ms \<longrightarrow> 0 < j) \<longrightarrow> j < k \<longrightarrow>
          \<not> additive (declared_names (take j (systems ms))) (drop j (systems ms))))"
proof -
  let ?ss = "systems ms"
  have one: "initial_system ms \<Longrightarrow> 1 \<le> length ?ss" by (cases ms rule: initial_system.cases) auto
  have split: "map snd (replay_tools (by_name (map snd (replay_tools [] (take n ?ss)))) (drop n ?ss)) = get_current_tools ms" for n
    by (simp add: by_name_replay replay_tools_ok get_current_tools_def flip: replay_append)
  show ?thesis
  proof (cases support)
    case Additions
    let ?i = "if initial_system ms then 1 else 0 :: nat"
    from assms Additions have k: "request = map snd (replay_tools [] (take k ?ss))"
      "k = max ?i (case find_last_non_additive ?ss of None \<Rightarrow> 0 | Some i \<Rightarrow> Suc i)" by (auto simp: resolve_transcript_tools_def Let_def)
    show ?thesis
    proof (cases "find_last_non_additive ?ss")
      case None
      then have "additive [] ?ss" by (simp add: find_last_non_additive_def non_additive_None)
      from additive_drop[OF this, of k] None k split[of k] one Additions show ?thesis by auto
    next
      case (Some j)
      note r = non_additive_Some[OF Some[unfolded find_last_non_additive_def]]
      then have "k = Suc j" using k(2) Some by simp
      with r split[of k] k(1) Additions show ?thesis by (simp add: less_Suc_eq_le)
    qed
  qed (use assms split[of "length ?ss"] split[of 0] in \<open>auto simp: resolve_transcript_tools_def Let_def get_current_tools_def by_name_def\<close>)
qed

section \<open>Instances\<close>

definition sample_tool :: "string \<Rightarrow> string \<Rightarrow> tool_decl" where
  "sample_tool n d = \<lparr>td_name = n, td_description = d, td_parameters = ''{}'', td_sampling = None\<rparr>"

definition sample_system :: "tool_decl list \<Rightarrow> string list \<Rightarrow> agent_message" where
  "sample_system added removed =
     System_Msg \<lparr>sys_content = ''go'', sys_sections = [], sys_added = added, sys_removed = removed, sys_timestamp = 1\<rparr>"

definition sample_transcript :: "agent_message list" where
  "sample_transcript =
     [sample_system [sample_tool ''read'' ''old'', sample_tool ''bash'' ''b''] [], Other_Msg (Prim PNull),
      sample_system [] [''bash''], sample_system [sample_tool ''edit'' ''e''] []]"

theorem declared_tools_exact_witness:
  "declare_tool_changes 7 sample_transcript [sample_tool ''read'' ''new'', sample_tool ''edit'' ''e''] [Other_Msg (Prim PNull)] =
     [System_Msg \<lparr>sys_content = [], sys_sections = [], sys_added = [sample_tool ''read'' ''new''], sys_removed = [''read''],
        sys_timestamp = 7\<rparr>, Other_Msg (Prim PNull)] \<and>
   declared_tool (sample_transcript @ declare_tool_changes 7 sample_transcript
       [sample_tool ''read'' ''new'', sample_tool ''edit'' ''e''] [Other_Msg (Prim PNull)]) ''bash'' = None"
proof
  have d: "distinct (map td_name [sample_tool ''read'' ''new'', sample_tool ''edit'' ''e''])" by code_simp
  from declared_tools_exact[OF d] show "declared_tool (sample_transcript @ declare_tool_changes 7 sample_transcript
       [sample_tool ''read'' ''new'', sample_tool ''edit'' ''e''] [Other_Msg (Prim PNull)]) ''bash'' = None" by (simp add: sample_tool_def)
qed code_simp

theorem request_tools_exact_witness:
  "resolve_transcript_tools sample_transcript Additions = ([sample_tool ''read'' ''old''], 2) \<and>
   map snd (replay_tools (by_name [sample_tool ''read'' ''old'']) (drop 2 (systems sample_transcript))) =
     get_current_tools sample_transcript"
proof
  show r: "resolve_transcript_tools sample_transcript Additions = ([sample_tool ''read'' ''old''], 2)" by code_simp
  from request_tools_exact[OF r] show "map snd (replay_tools (by_name [sample_tool ''read'' ''old'']) (drop 2 (systems sample_transcript))) =
     get_current_tools sample_transcript" by blast
qed

end
