(* ===== verification/Spec2Isabelle.thy ===== *)
theory Spec2Isabelle
  imports Delta_Properties Delta_Replay Delta_Pending Memory_Visible Context_Read Output_Window Output_Progress Session_Properties Truncate_Head Watch_Handle Run_Accounts
    Delta_Trusted Revision_Validator Editor_Wrap Editor_Units Transcript_Tools
begin

text \<open>
  A verification development of the packages \<open>chord\<close>, \<open>durable\<close>, \<open>tui\<close> and parts of \<open>ai\<close> and
  \<open>agent\<close> under \<open>src/packages\<close>: how
  a JSON document is followed by small operations, how conversations, tasks and submissions are kept
  in a storage, changed in transactions and shown to their observers, and how the text of the
  terminal's editor is edited.

  \<^bold>\<open>How the parts fit.\<close> A document is a plain JSON value. chord describes a change of it by a list of
  operations, finds them by comparing two revisions, sends them in a compact wire form and hands
  them to slow consumers through a pending queue and a watch handle. durable's storage keeps records
  and the operation logs of documents, and takes batches of writes. A Session runs a transaction
  against it: reads first, then writes, which are assembled into one batch. The harness on top
  reads the context a model sees, keeps the inbox and the run of each conversation, and shows a
  graph of the live tasks that advances with every commit.

  \<^bold>\<open>Values.\<close> \<open>Prelude\<close> has results as sums (\<open>bind_res\<close>, the collection \<open>res_simps\<close>), JavaScript's
  slices and splices on lists (\<open>js_simps\<close>) and the locale \<open>binary_search\<close>. \<open>Json_Value\<close> is
  \<open>JsonValue\<close>, an object being its list of distinct keys in insertion order; \<open>Json_Text\<close> is
  \<open>JSON.stringify\<close> as far as map keys need it, with its injectivity.

  \<^bold>\<open>chord/src/delta.\<close>
  \<^item> \<open>index.ts\<close>: operations and their validator (\<open>Delta_Ops\<close>), \<open>apply\<close> with its errors
    (\<open>Delta_Apply\<close>, collection \<open>path_laws\<close>), the wire encoder and decoder (\<open>Delta_Codec\<close>). Their
    promises are in \<open>Delta_Properties\<close>: a batch refines its meaning on values and stays off the
    prototype chain, what a peer sends decodes to well formed operations, and an encoded stream
    decodes to itself, also after a base that brings the decoder back in step.
  \<^item> \<open>applyImmutableBatches\<close> of \<open>index.ts\<close> runs over an explicit heap of containers (\<open>Delta_Heap\<close>).
    \<open>Delta_Owned\<close> says what a heap value denotes and which cells a replay owns, \<open>Delta_Focus\<close> how
    an owned cell lies in a value, \<open>Delta_Copy\<close> what the copies of a path give, \<open>Delta_Changes\<close> what
    an operation makes of a cell; \<open>Delta_Replay\<close> has the refinement of \<open>apply\<close> and that old values
    stay as they were.
  \<^item> \<open>apply-immutable-trusted.ts\<close>, which checks nothing itself, over the same heap (\<open>Delta_Trusted\<close>;
    an array in the middle of a splice is a list of slots with holes): it agrees with \<open>apply\<close> on the
    batches a tracker makes. \<open>revision-validator.ts\<close> over values with accessors, symbols and cycles
    (\<open>Revision_Validator\<close>): what it remembers never changes its answer.
  \<^item> \<open>diff.ts\<close>: alignment of arrays (\<open>Delta_Align\<close>; each alignment interprets the locale \<open>aligner\<close>),
    the differ (\<open>Delta_Diff\<close>, fuels \<open>diff_fuel\<close> and \<open>process_fuel\<close>), and the proof that a batch
    turns the old revision into the new one (\<open>Delta_Realize\<close>, \<open>Delta_Correct\<close>).
  \<^item> \<open>pending.ts\<close>: the queue a slow consumer leaves behind, whose taken operations have the effect
    of all that was pushed (\<open>Delta_Pending\<close>).
  \<^item> \<open>watch.ts\<close>: the lifecycle of a watch over any queue (\<open>Watch_Handle\<close>, locale \<open>watch_queue\<close>,
    interpreted on the JSON and the native queue), a step per microtask, listener call or request.
    The microtasks the host has queued are counted apart from the flag of the code that stands for
    them; \<open>host_turn\<close> is what the host then does.

  \<^bold>\<open>chord/src/output.ts.\<close> Windows of a text within limits of bytes and lines (\<open>Output_Bound\<close>, with
  \<open>Output_Window\<close> for what the windows are), the buffer of a running output (\<open>Output_Buffer\<close>), and
  progress commits as a step relation (\<open>Output_Progress\<close>), in which the host's armed timers and
  running writes are kept apart from the fields the code has for them, and \<open>host_step\<close> is what the
  host owes. \<open>Truncate_Head\<close> is
  \<open>durable/src/truncate.ts\<close>, truncation of a text of which only a prefix is known.

  \<^bold>\<open>durable/src/storage/memory.ts.\<close>
  \<^item> \<open>Storage_Ids\<close>: sorted id lists, cursors and pages (locale \<open>paged\<close>: following the cursors lists
    what one unbounded scan lists; interpreted on every scan). \<open>Storage_Types\<close>: the records.
  \<^item> \<open>Memory_State\<close>, \<open>Memory_Read\<close>: the tables and their writers; lookups, scans, forked history.
    A walk up the forks has the fuel \<open>chain_fuel\<close>, one step per conversation.
  \<^item> \<open>Memory_Invariant\<close>, \<open>Memory_Documents\<close>, \<open>Memory_Commit\<close>: \<open>storage_ok\<close> and its preservation;
    a prepared commit is applied without errors. \<open>Memory_Log\<close>: a document read from its last base
    is its log replayed from the first revision. \<open>Memory_Scans\<close>, \<open>Memory_Visible\<close>: what scans list.
    \<open>Memory_Properties\<close>: reachable storages.

  \<^bold>\<open>durable/src/session.\<close> \<open>Session_Forks\<close> is \<open>forks.ts\<close>, the documents a fork copies (fuel
  \<open>copies_fuel\<close>, one page per document); \<open>Session_Tx\<close> the tables side of \<open>transaction.ts\<close>. An operation
  maps a transaction to its result and the transaction after it, since a rejected operation still
  marks the write and consumes ids. \<open>tx_runs\<close> are the transactions a callback can reach.
  \<open>Session_Batch\<close>, \<open>Session_Copies\<close> and \<open>Session_Properties\<close> show that an assembled batch, forked
  documents included, is one the storage takes (document drafts, the retirement of a terminal
  task's documents and held changes are not part of the batch modelled), that owned work goes to live owners, terminal tasks stay, and submissions only move forward.

  \<^bold>\<open>durable/src/harness.\<close>
  \<^item> \<open>context.ts\<close>: which messages of a range the model sees, in which order (\<open>Context_View\<close>), and
    reading the range from the storage (\<open>Context_Read\<close>, with as many pages as there are entries).
  \<^item> \<open>task-graph.ts\<close>: nodes, building, advancing, blocked reasons and observers (\<open>Task_Graph\<close>). The
    mounted value is the one that building again gives, after any run of commits, attachments and
    registry changes (\<open>Task_Graph_Follow\<close>, \<open>Task_Graph_Runs\<close>). The fuel \<open>graph_fuel\<close> bounds the
    pages of a scan by the number of tasks and conversations.
  \<^item> \<open>inbox.ts\<close> (\<open>Inbox\<close>), \<open>submissions.ts\<close> and the commits of a run in \<open>generation.ts\<close> and
    \<open>live.ts\<close> (\<open>Run_Control\<close>). A \<open>desk\<close> is a transaction with the inbox and the run of its
    conversation. \<open>Inbox_Views\<close> computes the submissions a transaction will leave behind and shows
    that a commit stores them; \<open>Inbox_Boundary\<close> says what a boundary places; \<open>Run_Books\<close> that every
    operation keeps the books; \<open>Run_Accounts\<close> that they balance after any run of commits, and that
    the head never moves back.

  \<^bold>\<open>tui/src/components/editor.ts.\<close> \<open>Editor_Markers\<close> has the markers of pastes and images, the segmenter
  that keeps them whole and \<open>word-navigation.ts\<close>; \<open>Editor_Wrap\<close> wraps a line into rows, of which the
  fuel is the depth of the function's calls to itself, two being enough when what is wider than a row
  splits into graphemes that fit. \<open>Editor_State\<close> is the text
  with its registries, \<open>kill-ring.ts\<close> and \<open>undo-stack.ts\<close>, \<open>Editor_Commands\<close> a function per command.
  \<open>Editor_Yank\<close> reads a state as the text before and after the cursor: runs of kills, yank and
  yank-pop; \<open>Editor_Undo\<close> what undo restores; \<open>Editor_Marker_Text\<close> which texts are markers and that
  the merged segments keep one whole; \<open>Editor_Units\<close> what a deletion takes, and four inputs on
  which a command does not do what it means to. Strings are of 8-bit code units; the platform's
  segmenters and the width of a text on the terminal are parameters. Drawing, scrolling, moving by
  rows, completions and the decoding of keys are left out.

  \<^bold>\<open>ai/src/utils/transcript.ts.\<close> \<open>Transcript_Tools\<close>: which tools and prompt the system messages of a
  transcript declare when they are replayed, the collapsed transcript, what a request carries for
  each kind of transport, and \<open>declareToolChanges\<close> of \<open>agent/src/agent-loop.ts\<close>.

  \<^bold>\<open>Conventions.\<close> Numbers of the sources that are ids, counts or times are integers, with the limit
  of safe integers where the code checks it; the bytes of a text in \<open>output.ts\<close> are words. Promises that only
  order calls on one line are the sequence of the calls; where interleaving matters the model is a
  step relation. An error is a value of the left summand, and an operation that throws keeps the
  state the code leaves behind; the error of \<open>apply\<close> alone keeps no document, where the code may
  have changed a part of it in place before it throws.

  \<^bold>\<open>Not modelled.\<close> \<open>chord/src/delta/tracker.ts\<close> (drafts as proxies),
  chord's transport and services; document drafts, telemetry and the promises a transaction tracks; the storages over a database or files, which
  have the contract of the one in memory; the scheduler, requests to models, tools, compaction and
  the presentation of runs in the harness; the rest of the terminal's
  interface; and the packages that drive a model provider or a process, whose work is effects on the
  outside. Why a task is blocked and the initial
  checkpoint of a task are parameters.
\<close>

end
